(* ===== verification/DecidePrelude.thy ===== *)
theory DecidePrelude
  imports Complex_Main "HOL-Library.Word"
begin

text \<open>
  The vocabulary every component shares.

  \<^item> \<open>dbl\<close> stands for the C++ \<open>double\<close>: a finite value, the two infinities and NaN, with the
    IEEE rules for which operation yields which of them, and comparisons that are false on NaN.
    Finite arithmetic is exact: rounding is not modelled, the two zeros are one value, and a
    decimal literal of the source denotes its decimal value. Division by zero takes the sign of
    the dividend, as for a divisor \<open>+0.0\<close>.
  \<^item> \<open>res\<close> is the outcome of a function that may throw: \<open>Inl\<close> the exception, \<open>Inr\<close> the value.
  \<^item> \<open>idx\<close> is \<open>idx_t\<close>. A field that may hold \<open>DConstants::INVALID_INDEX\<close> is an \<open>idx option\<close>,
    with \<open>None\<close> for the sentinel.
  \<^item> An assignment \<open>nat \<Rightarrow> real\<close> gives each flat solver column its value; \<open>lin_val\<close> is the
    left-hand side of a row, \<open>sat_sense\<close> what its sense asks.
\<close>

named_theorems dbl_arith \<open>evaluation of arithmetic and comparison on finite doubles\<close>
named_theorems fin_intro \<open>introduction rules for finiteness of doubles\<close>

section \<open>Doubles\<close>

datatype dbl = Fin real | PInf | NInf | NaN

type_synonym idx = nat

primrec isfinite :: "dbl \<Rightarrow> bool" where
  "isfinite (Fin r) = True"
| "isfinite PInf = False"
| "isfinite NInf = False"
| "isfinite NaN = False"

primrec isinf :: "dbl \<Rightarrow> bool" where
  "isinf (Fin r) = False"
| "isinf PInf = True"
| "isinf NInf = True"
| "isinf NaN = False"

primrec isnan :: "dbl \<Rightarrow> bool" where
  "isnan (Fin r) = False"
| "isnan PInf = False"
| "isnan NInf = False"
| "isnan NaN = True"

primrec rval :: "dbl \<Rightarrow> real" where
  "rval (Fin r) = r"
| "rval PInf = 0"
| "rval NInf = 0"
| "rval NaN = 0"

instantiation dbl :: "{zero, one, plus, times, uminus, minus, inverse, abs, ord}"
begin

definition zero_dbl :: dbl where "0 = Fin 0"

definition one_dbl :: dbl where "1 = Fin 1"

fun plus_dbl :: "dbl \<Rightarrow> dbl \<Rightarrow> dbl" where
  "Fin a + Fin b = Fin (a + b)"
| "NaN + b = NaN"
| "a + NaN = NaN"
| "PInf + NInf = NaN"
| "NInf + PInf = NaN"
| "PInf + b = PInf"
| "b + PInf = PInf"
| "NInf + b = NInf"
| "b + NInf = NInf"

fun uminus_dbl :: "dbl \<Rightarrow> dbl" where
  "- Fin a = Fin (- a)"
| "- PInf = NInf"
| "- NInf = PInf"
| "- NaN = NaN"

definition minus_dbl :: "dbl \<Rightarrow> dbl \<Rightarrow> dbl" where
  "a - b = a + - (b :: dbl)"

fun times_dbl :: "dbl \<Rightarrow> dbl \<Rightarrow> dbl" where
  "Fin a * Fin b = Fin (a * b)"
| "NaN * b = NaN"
| "a * NaN = NaN"
| "PInf * PInf = PInf"
| "PInf * NInf = NInf"
| "NInf * PInf = NInf"
| "NInf * NInf = PInf"
| "PInf * Fin b = (if b = 0 then NaN else if 0 < b then PInf else NInf)"
| "Fin b * PInf = (if b = 0 then NaN else if 0 < b then PInf else NInf)"
| "NInf * Fin b = (if b = 0 then NaN else if 0 < b then NInf else PInf)"
| "Fin b * NInf = (if b = 0 then NaN else if 0 < b then NInf else PInf)"

fun divide_dbl :: "dbl \<Rightarrow> dbl \<Rightarrow> dbl" where
  "divide_dbl NaN b = NaN"
| "divide_dbl a NaN = NaN"
| "divide_dbl (Fin a) (Fin b) =
     (if b \<noteq> 0 then Fin (a / b) else if a = 0 then NaN else if 0 < a then PInf else NInf)"
| "divide_dbl (Fin a) PInf = Fin 0"
| "divide_dbl (Fin a) NInf = Fin 0"
| "divide_dbl PInf (Fin b) = (if 0 \<le> b then PInf else NInf)"
| "divide_dbl NInf (Fin b) = (if 0 \<le> b then NInf else PInf)"
| "divide_dbl PInf b = NaN"
| "divide_dbl NInf b = NaN"

definition inverse_dbl :: "dbl \<Rightarrow> dbl" where
  "inverse a = divide 1 (a :: dbl)"

fun abs_dbl :: "dbl \<Rightarrow> dbl" where
  "abs_dbl (Fin a) = Fin \<bar>a\<bar>"
| "abs_dbl PInf = PInf"
| "abs_dbl NInf = PInf"
| "abs_dbl NaN = NaN"

fun less_eq_dbl :: "dbl \<Rightarrow> dbl \<Rightarrow> bool" where
  "less_eq_dbl NaN b = False"
| "less_eq_dbl a NaN = False"
| "less_eq_dbl (Fin a) (Fin b) = (a \<le> b)"
| "less_eq_dbl NInf b = True"
| "less_eq_dbl a PInf = True"
| "less_eq_dbl PInf b = False"
| "less_eq_dbl a NInf = False"

fun less_dbl :: "dbl \<Rightarrow> dbl \<Rightarrow> bool" where
  "less_dbl NaN b = False"
| "less_dbl a NaN = False"
| "less_dbl (Fin a) (Fin b) = (a < b)"
| "less_dbl NInf b = (b \<noteq> NInf)"
| "less_dbl a PInf = (a \<noteq> PInf)"
| "less_dbl PInf b = False"
| "less_dbl a NInf = False"

instance ..

end

lemma dbl_plus_comm: "a + b = b + (a :: dbl)"
  by (cases a; cases b) simp_all

lemma dbl_plus_assoc: "a + b + c = a + (b + (c :: dbl))"
  by (cases a; cases b; cases c) simp_all

lemma dbl_zero_plus: "0 + a = (a :: dbl)"
  by (cases a) (simp_all add: zero_dbl_def)

instance dbl :: comm_monoid_add
  by (standard; fact dbl_plus_assoc dbl_plus_comm dbl_zero_plus)

instance dbl :: numeral ..

lemma numeral_dbl [dbl_arith]: "numeral w = Fin (numeral w)"
  by (induction w) (simp_all only: numeral.simps one_dbl_def plus_dbl.simps)

lemma minus_dbl_Fin [simp]: "Fin a - Fin b = Fin (a - b)"
  by (simp add: minus_dbl_def)

lemma divide_dbl_Fin: "b \<noteq> 0 \<Longrightarrow> Fin a / Fin b = Fin (a / b)"
  by simp

lemmas [dbl_arith] = zero_dbl_def one_dbl_def minus_dbl_def

lemma plus_Fin_0 [simp]: "a + Fin 0 = a" "Fin 0 + a = a"
  by (cases a; simp)+

lemma times_Fin_1 [simp]: "d * Fin 1 = d" "Fin 1 * d = d" "d * 1 = d" "1 * d = d" for d :: dbl
  by (cases d; simp add: one_dbl_def)+

lemma isfinite_iff: "isfinite d \<longleftrightarrow> (\<exists>r. d = Fin r)"
  by (cases d) simp_all

lemma isfiniteE: "isfinite d \<Longrightarrow> (\<And>r. d = Fin r \<Longrightarrow> P) \<Longrightarrow> P"
  by (cases d) simp_all

lemma Fin_rval [simp]: "isfinite d \<Longrightarrow> Fin (rval d) = d"
  by (cases d) simp_all

lemma isfinite_plus [fin_intro]: "isfinite a \<Longrightarrow> isfinite b \<Longrightarrow> isfinite (a + b)"
  by (cases a; cases b) simp_all

lemma isfinite_times [fin_intro]: "isfinite a \<Longrightarrow> isfinite b \<Longrightarrow> isfinite (a * b)"
  by (cases a; cases b) simp_all

lemma isfinite_uminus [simp]: "isfinite (- a) = isfinite a" for a :: dbl
  by (cases a) simp_all

lemma isfinite_minus [fin_intro]: "isfinite a \<Longrightarrow> isfinite b \<Longrightarrow> isfinite (a - b)"
  by (cases a; cases b) simp_all

lemma isfinite_abs [simp]: "isfinite \<bar>a\<bar> = isfinite a" for a :: dbl
  by (cases a) simp_all

lemma isfinite_consts [fin_intro]: "isfinite 0" "isfinite 1"
  by (simp_all add: dbl_arith)

lemma rval_uminus [simp]: "rval (- a) = - rval a"
  by (cases a) simp_all

lemma rval_plus: "isfinite a \<Longrightarrow> isfinite b \<Longrightarrow> rval (a + b) = rval a + rval b"
  by (cases a; cases b) simp_all

lemma rval_times: "isfinite a \<Longrightarrow> isfinite b \<Longrightarrow> rval (a * b) = rval a * rval b"
  by (cases a; cases b) simp_all

lemma Fin_le_iff: "Fin r \<le> d \<longleftrightarrow> d = PInf \<or> (\<exists>s. d = Fin s \<and> r \<le> s)"
  by (cases d) simp_all

lemma le_Fin_iff: "d \<le> Fin r \<longleftrightarrow> d = NInf \<or> (\<exists>s. d = Fin s \<and> s \<le> r)"
  by (cases d) simp_all

lemma sum_list_Fin: "sum_list (map (\<lambda>x. Fin (f x)) xs) = Fin (sum_list (map f xs))"
  by (induction xs) (simp_all add: zero_dbl_def)

text \<open>Sums over parallel vectors, and in either order.\<close>

lemma sum_list_swap:
  "(\<Sum>x\<leftarrow>xs. \<Sum>y\<leftarrow>ys. f x y) = (\<Sum>y\<leftarrow>ys. \<Sum>x\<leftarrow>xs. (f x y :: 'a :: comm_monoid_add))"
  by (induction xs) (simp_all add: sum_list_addf)

lemma map_parallel:
  "length xs = length ys \<Longrightarrow> map (\<lambda>t. f (xs ! t) (ys ! t)) [0..<length xs] = map (\<lambda>(x, y). f x y) (zip xs ys)"
  by (intro nth_equalityI) simp_all

subsection \<open>The standard library on doubles\<close>

text \<open>
  C++ \<open>==\<close>, which is false on NaN, where HOL's equality is not. Against a literal the two agree,
  and the definitions below then write \<open>=\<close>.
\<close>

definition deq :: "dbl \<Rightarrow> dbl \<Rightarrow> bool" where
  "deq a b \<longleftrightarrow> a = b \<and> \<not> isnan a"

text \<open>\<open>std::max\<close>, \<open>std::min\<close>, DuckDB's \<open>MaxValue\<close> and \<open>MinValue\<close>: they differ on NaN.\<close>

definition std_max :: "dbl \<Rightarrow> dbl \<Rightarrow> dbl" where
  "std_max a b = (if a < b then b else a)"

definition std_min :: "dbl \<Rightarrow> dbl \<Rightarrow> dbl" where
  "std_min a b = (if b < a then b else a)"

definition MaxValue :: "dbl \<Rightarrow> dbl \<Rightarrow> dbl" where
  "MaxValue a b = (if a > b then a else b)"

definition MinValue :: "dbl \<Rightarrow> dbl \<Rightarrow> dbl" where
  "MinValue a b = (if a < b then a else b)"

fun std_floor :: "dbl \<Rightarrow> dbl" where
  "std_floor (Fin r) = Fin (of_int \<lfloor>r\<rfloor>)"
| "std_floor d = d"

fun std_ceil :: "dbl \<Rightarrow> dbl" where
  "std_ceil (Fin r) = Fin (of_int \<lceil>r\<rceil>)"
| "std_ceil d = d"

text \<open>\<open>std::round\<close> rounds halfway cases away from zero.\<close>

fun std_round :: "dbl \<Rightarrow> dbl" where
  "std_round (Fin r) =
     Fin (if 0 \<le> r then of_int \<lfloor>r + 1/2\<rfloor> else - of_int \<lfloor>- r + 1/2\<rfloor>)"
| "std_round d = d"

lemma deq_Fin [simp]: "deq (Fin a) (Fin b) \<longleftrightarrow> a = b"
  by (simp add: deq_def)

lemma std_max_Fin [simp]: "std_max (Fin a) (Fin b) = Fin (max a b)"
  by (simp add: std_max_def max_def)

lemma std_min_Fin [simp]: "std_min (Fin a) (Fin b) = Fin (min a b)"
  by (simp add: std_min_def min_def)

lemma MaxValue_Fin [simp]: "MaxValue (Fin a) (Fin b) = Fin (max a b)"
  by (simp add: MaxValue_def max_def)

lemma MinValue_Fin [simp]: "MinValue (Fin a) (Fin b) = Fin (min a b)"
  by (simp add: MinValue_def min_def)

text \<open>The thresholds of the formulation layer.\<close>

definition unbounded_above :: "dbl \<Rightarrow> bool" where
  "unbounded_above ub \<longleftrightarrow> ub \<ge> Fin (10 ^ 20)"

definition unbounded_below :: "dbl \<Rightarrow> bool" where
  "unbounded_below lb \<longleftrightarrow> lb \<le> Fin (- (10 ^ 20))"

definition negligible :: "dbl \<Rightarrow> bool" where
  "negligible c \<longleftrightarrow> \<bar>c\<bar> < Fin (1 / 10 ^ 15)"

section \<open>Exceptions\<close>

text \<open>
  One constructor per \<open>throw\<close> of the formulation layer. \<open>UnboundedBigM\<close> is the refusal of
  \<open>ThrowUnboundedBigMNaming\<close> with the named column (if any) and the construct; the other
  user-facing ones follow, then \<open>DecideInfeasibleModelException\<close> and \<open>InternalException\<close>.
\<close>

datatype decide_error =
    UnboundedBigM "string option" string
  | NonFiniteBound bool idx
  | BilinearNeedsUpperBound string
  | AbsNotFinite idx
  | AbsNeedsBound string
  | NoActiveRows
  | InfeasibleBounds
  | InternalError string

type_synonym 'a res = "decide_error + 'a"

lemma bind_Inr:
  "(case r of Inl e \<Rightarrow> Inl e | Inr v \<Rightarrow> f v) = Inr w \<longleftrightarrow> (\<exists>v. r = Inr v \<and> f v = Inr w)"
  by (cases r) simp_all

text \<open>A loop whose body may throw: it stops at the first exception.\<close>

primrec fold_res :: "('a \<Rightarrow> 's \<Rightarrow> 's res) \<Rightarrow> 'a list \<Rightarrow> 's \<Rightarrow> 's res" where
  "fold_res f [] s = Inr s"
| "fold_res f (x # xs) s = (case f x s of Inl e \<Rightarrow> Inl e | Inr s' \<Rightarrow> fold_res f xs s')"

lemma fold_res_append:
  "fold_res f (xs @ ys) s = (case fold_res f xs s of Inl e \<Rightarrow> Inl e | Inr t \<Rightarrow> fold_res f ys t)"
  by (induction xs arbitrary: s) (simp_all split: sum.splits)

lemma fold_res_total:
  assumes "\<And>a s. a \<in> set xs \<Longrightarrow> P s \<Longrightarrow> \<exists>s'. f a s = Inr s' \<and> P s'" "P s"
  shows "\<exists>s'. fold_res f xs s = Inr s' \<and> P s'"
  using assms
proof (induction xs arbitrary: s)
  case (Cons a xs)
  obtain s1 where "f a s = Inr s1" "P s1" using Cons.prems by (meson list.set_intros(1))
  with Cons show ?case by auto
qed simp

lemma fold_res_total_ball:
  "\<forall>x \<in> set xs. \<forall>s. P s \<longrightarrow> (\<exists>t. f x s = Inr t \<and> P t) \<Longrightarrow> P s \<Longrightarrow> \<exists>t. fold_res f xs s = Inr t \<and> P t"
  by (rule fold_res_total) blast+

lemma fold_res_returns: "(\<And>a s. \<exists>s'. f a s = Inr s') \<Longrightarrow> \<exists>s'. fold_res f xs s = Inr s'"
  using fold_res_total [where P = "\<lambda>_. True" and f = f and xs = xs] by simp

lemma fold_res_error:
  assumes "\<And>a s. f a s \<noteq> Inl e"
  shows "fold_res f xs s \<noteq> Inl e"
proof (induction xs arbitrary: s)
  case (Cons a xs)
  then show ?case using assms [of a s] by (cases "f a s") auto
qed simp

lemma fold_res_invariant:
  assumes "fold_res f xs s = Inr t" "P s"
    and "\<And>x s s'. x \<in> set xs \<Longrightarrow> P s \<Longrightarrow> f x s = Inr s' \<Longrightarrow> P s'"
  shows "P t"
  using assms
proof (induction xs arbitrary: s)
  case Nil
  then show ?case by simp
next
  case (Cons x xs)
  from Cons.prems(1) obtain s' where s': "f x s = Inr s'" "fold_res f xs s' = Inr t"
    by (auto split: sum.splits)
  have "P s'" using Cons.prems(2,3) s'(1) by auto
  with s'(2) Cons.prems(3) show ?case by (intro Cons.IH) auto
qed

lemma fold_invariant_list:
  "P s \<Longrightarrow> (\<And>x s. x \<in> set xs \<Longrightarrow> P s \<Longrightarrow> P (f x s)) \<Longrightarrow> P (fold f xs s)"
  by (induction xs arbitrary: s) simp_all

section \<open>Rows and their meaning\<close>

text \<open>
  The \<open>char sense\<close> of a row: \<open>'<'\<close> is \<open><=\<close>, \<open>'>'\<close> is \<open>>=\<close>, \<open>'='\<close> is \<open>==\<close>. A row is two parallel
  vectors, column indices and coefficients, with a sense and a bound.
\<close>

datatype sense = Le | Ge | Eq

fun sat_sense :: "sense \<Rightarrow> dbl \<Rightarrow> dbl \<Rightarrow> bool" where
  "sat_sense Le l r = (l \<le> r)"
| "sat_sense Ge l r = (r \<le> l)"
| "sat_sense Eq l r = deq l r"

definition lin_val :: "idx list \<Rightarrow> dbl list \<Rightarrow> (idx \<Rightarrow> real) \<Rightarrow> dbl" where
  "lin_val is cs x = (\<Sum>(i, c)\<leftarrow>zip is cs. c * Fin (x i))"

definition lin_real :: "idx list \<Rightarrow> dbl list \<Rightarrow> (idx \<Rightarrow> real) \<Rightarrow> real" where
  "lin_real is cs x = (\<Sum>(i, c)\<leftarrow>zip is cs. rval c * x i)"

lemma lin_val_simps [simp]:
  "lin_val [] cs x = 0"
  "lin_val is [] x = 0"
  "lin_val (i # is) (c # cs) x = c * Fin (x i) + lin_val is cs x"
  by (simp_all add: lin_val_def)

lemma lin_real_simps [simp]:
  "lin_real [] cs x = 0"
  "lin_real is [] x = 0"
  "lin_real (i # is) (c # cs) x = rval c * x i + lin_real is cs x"
  by (simp_all add: lin_real_def)

lemma lin_val_append:
  "length is = length cs \<Longrightarrow>
     lin_val (is @ js) (cs @ ds) x = lin_val is cs x + lin_val js ds x"
  by (simp add: lin_val_def)

lemma lin_real_append:
  "length is = length cs \<Longrightarrow>
     lin_real (is @ js) (cs @ ds) x = lin_real is cs x + lin_real js ds x"
  by (simp add: lin_real_def)

lemma lin_val_finite:
  "list_all isfinite cs \<Longrightarrow> lin_val is cs x = Fin (lin_real is cs x)"
proof (induction cs arbitrary: "is")
  case (Cons c cs)
  then show ?case
    by (cases "is"; cases c) (simp_all add: zero_dbl_def)
qed (simp add: zero_dbl_def)

end
