(* ===== verification/CoefficientColumns.thy ===== *)
theory CoefficientColumns
  imports DecidePrelude
begin

text \<open>
  \<open>CoefficientColumn\<close> of \<open>decidb/formulation/solver_input.hpp\<close>: a per-row vector of doubles
  stored as one scalar, densely, or as one value at a sorted set of rows. The operations follow
  the struct's methods; a mutating method returns the new column.

  \<open>cc_wf\<close> is the struct's documented invariant. The locale \<open>column_store\<close> is the contract the
  linearization passes rely on: what a read returns after a write, whatever the storage kind.
  It is interpreted on the struct's own methods.
\<close>

section \<open>State and operations\<close>

datatype cc_storage = Scalar | Dense | SparseMasked

record coefficient_column =
  kind :: cc_storage
  scalar_value :: dbl
  dense_values :: "dbl list"
  sparse_indices :: "idx list"
  sparse_value :: dbl
  logical_size :: nat

definition cc_default :: coefficient_column where
  "cc_default = \<lparr>kind = Dense, scalar_value = 0, dense_values = [], sparse_indices = [],
     sparse_value = 0, logical_size = 0\<rparr>"

definition MakeScalar :: "dbl \<Rightarrow> nat \<Rightarrow> coefficient_column" where
  "MakeScalar v n = cc_default\<lparr>kind := Scalar, scalar_value := v, logical_size := n\<rparr>"

definition MakeDense :: "nat \<Rightarrow> dbl \<Rightarrow> coefficient_column" where
  "MakeDense n init = cc_default\<lparr>kind := Dense, dense_values := replicate n init, logical_size := n\<rparr>"

definition FromVector :: "dbl list \<Rightarrow> coefficient_column" where
  "FromVector v = cc_default\<lparr>kind := Dense, logical_size := length v, dense_values := v\<rparr>"

definition MakeSparseMasked :: "nat \<Rightarrow> idx list \<Rightarrow> dbl \<Rightarrow> coefficient_column" where
  "MakeSparseMasked n rows v =
     cc_default\<lparr>kind := SparseMasked, sparse_indices := rows, sparse_value := v, logical_size := n\<rparr>"

text \<open>\<open>std::lower_bound\<close> on an ascending vector: the position of the first entry not below \<open>row\<close>.\<close>

definition lower_bound :: "idx list \<Rightarrow> idx \<Rightarrow> nat" where
  "lower_bound xs row = length (takeWhile (\<lambda>i. i < row) xs)"

definition cc_get :: "coefficient_column \<Rightarrow> idx \<Rightarrow> dbl" where
  "cc_get c row =
     (case kind c of
        Scalar \<Rightarrow> scalar_value c
      | Dense \<Rightarrow> dense_values c ! row
      | SparseMasked \<Rightarrow>
          (let it = lower_bound (sparse_indices c) row
           in if it \<noteq> length (sparse_indices c) \<and> sparse_indices c ! it = row
              then sparse_value c else 0))"

definition cc_empty :: "coefficient_column \<Rightarrow> bool" where
  "cc_empty c \<longleftrightarrow> logical_size c = 0"

definition IsUniform :: "coefficient_column \<Rightarrow> bool" where
  "IsUniform c \<longleftrightarrow> kind c = Scalar"

definition UniformValue :: "coefficient_column \<Rightarrow> dbl" where
  "UniformValue c = scalar_value c"

definition EnsureDense :: "coefficient_column \<Rightarrow> coefficient_column" where
  "EnsureDense c =
     (case kind c of
        Scalar \<Rightarrow> c\<lparr>dense_values := replicate (logical_size c) (scalar_value c), kind := Dense\<rparr>
      | SparseMasked \<Rightarrow>
          c\<lparr>dense_values := fold (\<lambda>r dense. dense[r := sparse_value c]) (sparse_indices c)
                               (replicate (logical_size c) 0),
            sparse_indices := [], sparse_value := 0, kind := Dense\<rparr>
      | Dense \<Rightarrow> c)"

definition cc_set :: "coefficient_column \<Rightarrow> idx \<Rightarrow> dbl \<Rightarrow> coefficient_column" where
  "cc_set c row v = (let d = EnsureDense c in d\<lparr>dense_values := (dense_values d)[row := v]\<rparr>)"

definition MaskRow :: "coefficient_column \<Rightarrow> idx \<Rightarrow> coefficient_column" where
  "MaskRow c row = cc_set c row 0"

definition ScaleRow :: "coefficient_column \<Rightarrow> idx \<Rightarrow> dbl \<Rightarrow> coefficient_column" where
  "ScaleRow c row factor =
     (let d = EnsureDense c
      in d\<lparr>dense_values := (dense_values d)[row := dense_values d ! row * factor]\<rparr>)"

definition AssignScalar :: "coefficient_column \<Rightarrow> nat \<Rightarrow> dbl \<Rightarrow> coefficient_column" where
  "AssignScalar c n v =
     c\<lparr>kind := Scalar, scalar_value := v, logical_size := n, dense_values := [],
       sparse_indices := [], sparse_value := 0\<rparr>"

definition AssignDense :: "coefficient_column \<Rightarrow> nat \<Rightarrow> dbl \<Rightarrow> coefficient_column" where
  "AssignDense c n init =
     c\<lparr>kind := Dense, dense_values := replicate n init, logical_size := n,
       sparse_indices := [], sparse_value := 0\<rparr>"

definition cc_resize :: "coefficient_column \<Rightarrow> nat \<Rightarrow> dbl \<Rightarrow> coefficient_column" where
  "cc_resize c n init =
     (let d = EnsureDense c
      in d\<lparr>dense_values := take n (dense_values d) @ replicate (n - length (dense_values d)) init,
           logical_size := n\<rparr>)"

definition PushBack :: "coefficient_column \<Rightarrow> dbl \<Rightarrow> coefficient_column" where
  "PushBack c v =
     (let d = EnsureDense c; dv = dense_values d @ [v]
      in d\<lparr>dense_values := dv, logical_size := length dv\<rparr>)"

definition AllIntegral :: "coefficient_column \<Rightarrow> bool" where
  "AllIntegral c =
     (case kind c of
        Scalar \<Rightarrow> deq (std_floor (scalar_value c)) (scalar_value c)
      | SparseMasked \<Rightarrow> deq (std_floor (sparse_value c)) (sparse_value c)
      | Dense \<Rightarrow> list_all (\<lambda>v. deq (std_floor v) v) (dense_values c))"

section \<open>The invariant\<close>

definition cc_wf :: "coefficient_column \<Rightarrow> bool" where
  "cc_wf c \<longleftrightarrow>
     (kind c = Dense \<longrightarrow> length (dense_values c) = logical_size c) \<and>
     (kind c = SparseMasked \<longrightarrow>
        sorted (sparse_indices c) \<and> distinct (sparse_indices c) \<and>
        (\<forall>i \<in> set (sparse_indices c). i < logical_size c))"

lemma lower_bound_found:
  assumes "sorted xs"
  shows "(lower_bound xs row \<noteq> length xs \<and> xs ! lower_bound xs row = row) \<longleftrightarrow> row \<in> set xs"
proof
  assume "lower_bound xs row \<noteq> length xs \<and> xs ! lower_bound xs row = row"
  then show "row \<in> set xs"
    by (metis length_takeWhile_le le_neq_implies_less lower_bound_def nth_mem)
next
  assume "row \<in> set xs"
  with assms show "lower_bound xs row \<noteq> length xs \<and> xs ! lower_bound xs row = row"
  proof (induction xs)
    case (Cons a xs)
    show ?case
    proof (cases "a < row")
      case True
      with Cons have "row \<in> set xs" "sorted xs" by auto
      from Cons.IH [OF this(2,1)] True show ?thesis by (simp add: lower_bound_def)
    next
      case False
      with Cons.prems have "a = row" by auto
      with False show ?thesis by (simp add: lower_bound_def)
    qed
  qed simp
qed

lemma cc_get_Scalar: "kind c = Scalar \<Longrightarrow> cc_get c row = scalar_value c"
  by (simp add: cc_get_def)

lemma cc_get_Dense: "kind c = Dense \<Longrightarrow> cc_get c row = dense_values c ! row"
  by (simp add: cc_get_def)

lemma cc_get_SparseMasked:
  "cc_wf c \<Longrightarrow> kind c = SparseMasked \<Longrightarrow>
     cc_get c row = (if row \<in> set (sparse_indices c) then sparse_value c else 0)"
  by (simp add: cc_get_def cc_wf_def Let_def lower_bound_found)

lemma length_fold_update:
  "length (fold (\<lambda>r d. d[r := v]) rs d) = length d"
  by (induction rs arbitrary: d) simp_all

lemma nth_fold_update:
  assumes "r < length d"
  shows "fold (\<lambda>r d. d[r := v]) rs d ! r = (if r \<in> set rs then v else d ! r)"
  using assms by (induction rs arbitrary: d) (simp_all add: nth_list_update length_fold_update)

lemma EnsureDense_kind [simp]: "kind (EnsureDense c) = Dense"
  by (cases "kind c") (simp_all add: EnsureDense_def)

lemma EnsureDense_size [simp]: "logical_size (EnsureDense c) = logical_size c"
  by (cases "kind c") (simp_all add: EnsureDense_def)

lemma EnsureDense_length [simp]:
  "cc_wf c \<Longrightarrow> length (dense_values (EnsureDense c)) = logical_size c"
  by (cases "kind c") (simp_all add: EnsureDense_def cc_wf_def length_fold_update)

lemma EnsureDense_wf: "cc_wf c \<Longrightarrow> cc_wf (EnsureDense c)"
  by (simp add: cc_wf_def [of "EnsureDense c"])

lemma EnsureDense_get:
  assumes "cc_wf c" "row < logical_size c"
  shows "cc_get (EnsureDense c) row = cc_get c row"
proof (cases "kind c")
  case SparseMasked
  then show ?thesis
    using assms
    by (simp add: cc_get_Dense cc_get_SparseMasked) (simp add: EnsureDense_def nth_fold_update)
qed (use assms in \<open>simp_all add: cc_get_def EnsureDense_def\<close>)

section \<open>The contract of a column\<close>

locale column_store =
  fixes get :: "'c \<Rightarrow> idx \<Rightarrow> 'v"
    and set_at :: "'c \<Rightarrow> idx \<Rightarrow> 'v \<Rightarrow> 'c"
    and size_of :: "'c \<Rightarrow> nat"
    and inv :: "'c \<Rightarrow> bool"
  assumes set_inv: "inv c \<Longrightarrow> r < size_of c \<Longrightarrow> inv (set_at c r v)"
    and set_size: "inv c \<Longrightarrow> r < size_of c \<Longrightarrow> size_of (set_at c r v) = size_of c"
    and get_set: "inv c \<Longrightarrow> r < size_of c \<Longrightarrow> q < size_of c \<Longrightarrow>
                    get (set_at c r v) q = (if q = r then v else get c q)"
begin

text \<open>A loop that writes \<open>f r\<close> at every row of a list, as the masking and scaling passes do.\<close>

lemma fold_set:
  assumes "inv c" "\<forall>r \<in> set rs. r < size_of c" "q < size_of c"
  shows "inv (fold (\<lambda>r c. set_at c r (f r)) rs c) \<and>
         size_of (fold (\<lambda>r c. set_at c r (f r)) rs c) = size_of c \<and>
         get (fold (\<lambda>r c. set_at c r (f r)) rs c) q = (if q \<in> set rs then f q else get c q)"
  using assms
  by (induction rs arbitrary: c) (auto simp: set_inv set_size get_set)

lemma set_set_same:
  assumes "inv c" "r < size_of c" "q < size_of c"
  shows "get (set_at (set_at c r v) r w) q = get (set_at c r w) q"
  using assms by (simp add: set_inv set_size get_set)

lemma set_commute:
  assumes "inv c" "r < size_of c" "s < size_of c" "q < size_of c" "r \<noteq> s"
  shows "get (set_at (set_at c r v) s w) q = get (set_at (set_at c s w) r v) q"
  using assms by (auto simp: set_inv set_size get_set)

end

lemma cc_set_wf: "cc_wf c \<Longrightarrow> cc_wf (cc_set c row v)"
  by (simp add: cc_set_def Let_def cc_wf_def [of "_\<lparr>dense_values := _\<rparr>"])

interpretation cc: column_store cc_get cc_set logical_size cc_wf
proof
  fix c :: coefficient_column and r q v
  assume c: "cc_wf c" and r: "r < logical_size c"
  show "cc_wf (cc_set c r v)" by (rule cc_set_wf [OF c])
  show "logical_size (cc_set c r v) = logical_size c" by (simp add: cc_set_def Let_def)
  assume q: "q < logical_size c"
  show "cc_get (cc_set c r v) q = (if q = r then v else cc_get c q)"
    using c r q EnsureDense_get [OF c q]
    by (simp add: cc_set_def Let_def cc_get_Dense nth_list_update)
qed

section \<open>Properties\<close>

lemma MakeScalar_get [simp]: "cc_get (MakeScalar v n) r = v"
  by (simp add: MakeScalar_def cc_get_def cc_default_def)

lemma AssignScalar_get [simp]: "cc_get (AssignScalar c n v) r = v"
  by (simp add: AssignScalar_def cc_get_def)

lemma MakeDense_get: "r < n \<Longrightarrow> cc_get (MakeDense n v) r = v"
  by (simp add: MakeDense_def cc_get_def cc_default_def)

lemma FromVector_get [simp]: "cc_get (FromVector v) r = v ! r"
  by (simp add: FromVector_def cc_get_def cc_default_def)

lemma MakeScalar_fields [simp]:
  "kind (MakeScalar v n) = Scalar" "logical_size (MakeScalar v n) = n"
  "scalar_value (MakeScalar v n) = v"
  by (simp_all add: MakeScalar_def cc_default_def)

lemma wf_constructors [simp]:
  "cc_wf cc_default" "cc_wf (MakeScalar v n)" "cc_wf (MakeDense n v)" "cc_wf (FromVector xs)"
  "cc_wf (AssignScalar c n v)" "cc_wf (AssignDense c n v)"
  by (simp_all add: cc_wf_def cc_default_def MakeScalar_def MakeDense_def FromVector_def
      AssignScalar_def AssignDense_def)

lemma MakeSparseMasked_wf:
  "sorted rows \<Longrightarrow> distinct rows \<Longrightarrow> \<forall>i \<in> set rows. i < n \<Longrightarrow> cc_wf (MakeSparseMasked n rows v)"
  by (simp add: cc_wf_def MakeSparseMasked_def cc_default_def)

lemma IsUniform_get: "IsUniform c \<Longrightarrow> cc_get c r = UniformValue c"
  by (simp add: IsUniform_def UniformValue_def cc_get_def)

lemma ScaleRow_get:
  assumes "cc_wf c" "r < logical_size c" "q < logical_size c"
  shows "cc_get (ScaleRow c r k) q = (if q = r then cc_get c r * k else cc_get c q)"
  using assms EnsureDense_get [OF assms(1,2)] EnsureDense_get [OF assms(1,3)]
  by (simp add: ScaleRow_def Let_def cc_get_Dense nth_list_update)

text \<open>
  What \<open>AllIntegral\<close> promises its callers, the integer-step guards: every row reads a value equal
  to its own floor.
\<close>

definition dbl_integral :: "dbl \<Rightarrow> bool" where
  "dbl_integral v \<longleftrightarrow> deq (std_floor v) v"

lemma dbl_integral_Fin [simp]: "dbl_integral (Fin r) \<longleftrightarrow> r \<in> \<int>"
  by (simp add: dbl_integral_def) (metis Ints_cases Ints_of_int)

lemma AllIntegral_get:
  assumes "cc_wf c" "AllIntegral c" "r < logical_size c"
  shows "dbl_integral (cc_get c r)"
proof (cases "kind c")
  case SparseMasked
  with assms show ?thesis
    by (simp add: cc_get_SparseMasked AllIntegral_def dbl_integral_def zero_dbl_def)
next
  case Dense
  with assms show ?thesis
    by (simp add: cc_get_Dense AllIntegral_def dbl_integral_def cc_wf_def list_all_length)
qed (use assms in \<open>simp add: cc_get_Scalar AllIntegral_def dbl_integral_def\<close>)

text \<open>
  A column read after a write: whatever the storage kind, writing row \<open>r\<close> of a well-formed
  column leaves a well-formed column of the same size that reads the new value at \<open>r\<close> and the old
  value at every other row.
\<close>

theorem column_set_get:
  assumes "cc_wf c" "r < logical_size c" "q < logical_size c"
  shows "cc_wf (cc_set c r v) \<and> logical_size (cc_set c r v) = logical_size c \<and>
         cc_get (cc_set c r v) q = (if q = r then v else cc_get c q)"
  using cc.set_inv [OF assms(1,2)] cc.set_size [OF assms(1,2)] cc.get_set [OF assms] by simp

lemma column_set_get_witness:
  "cc_get (cc_set (MakeSparseMasked 4 [1, 3] (Fin 2)) 2 (Fin 5)) 3 = Fin 2"
  using column_set_get [of "MakeSparseMasked 4 [1, 3] (Fin 2)" 2 3 "Fin 5"]
  by (simp add: MakeSparseMasked_wf)
     (simp add: MakeSparseMasked_def cc_default_def cc_get_def lower_bound_def)

text \<open>
  Scaling one row of a well-formed column multiplies that row's value and no other, and masking
  it makes the row read zero.
\<close>

theorem column_scale_mask:
  assumes "cc_wf c" "r < logical_size c" "q < logical_size c"
  shows "cc_get (ScaleRow c r k) q = (if q = r then cc_get c r * k else cc_get c q) \<and>
         cc_get (MaskRow c r) q = (if q = r then 0 else cc_get c q)"
  using ScaleRow_get [OF assms] cc.get_set [OF assms, of 0] by (simp add: MaskRow_def)

lemma column_scale_mask_witness:
  "cc_get (ScaleRow (MakeScalar (Fin 3) 2) 0 (Fin 2)) 0 = Fin 6"
  using column_scale_mask [of "MakeScalar (Fin 3) 2" 0 0 "Fin 2"] by simp

end
