(* ===== verification/SolverInputs.thy ===== *)
theory SolverInputs
  imports CoefficientColumns
begin

text \<open>
  The data of stage 06: the enumerations of \<open>common/enums/decide.hpp\<close>, the solver capability
  tables of \<open>common/decide_solver_capabilities.hpp\<close>, and the structs of
  \<open>decidb/formulation/solver_input.hpp\<close> (\<open>EvaluatedConstraint\<close>, \<open>RawConstraint\<close>,
  \<open>IndicatorConstraintSpec\<close>, \<open>GeneralConstraintSpec\<close>, \<open>SolverInput\<close>, \<open>FormulationBox\<close>).
  Record fields carry a prefix (\<open>ec_\<close>, \<open>rc_\<close>, \<open>ic_\<close>, \<open>gc_\<close>, \<open>si_\<close>) and otherwise the name of
  the struct's member; \<open>..._default\<close> holds the in-class initializers.
\<close>

section \<open>Enumerations\<close>

datatype DecideSense = MAXIMIZE | MINIMIZE | FEASIBILITY

datatype DecideVarScope = ROW | ENTITY | SCALAR

record DecideVarScopeInfo =
  vs_scope :: DecideVarScope
  vs_entity_scope_idx :: "idx option"

datatype ObjectiveAggregateType = NO_AGG | SUM_AGG | MIN_AGG | MAX_AGG

datatype ConstraintKind = USER_PARAMETER | USER_MECHANISM | STRUCTURAL

datatype LinearTermReduction = RED_NONE | RED_SUM

datatype ElasticShape = UNSET | PER_ROW_DATA | SHARED_SCALAR

datatype GeneralConstraintKind = GC_ABS | GC_MIN | GC_MAX

text \<open>The comparison members of \<open>ExpressionType\<close>; \<open>COMPARE_OTHER\<close> is any other expression type.\<close>

datatype ExpressionType =
    COMPARE_EQUAL
  | COMPARE_NOTEQUAL
  | COMPARE_LESSTHAN
  | COMPARE_GREATERTHAN
  | COMPARE_LESSTHANOREQUALTO
  | COMPARE_GREATERTHANOREQUALTO
  | COMPARE_OTHER

text \<open>The logical types the formulation distinguishes; \<open>OTHER_TYPE\<close> is every other one.\<close>

datatype LogicalType = BOOLEAN | INTEGER | BIGINT | FLOAT | DOUBLE | OTHER_TYPE

definition IsRelaxableForElastic :: "ConstraintKind \<Rightarrow> bool" where
  "IsRelaxableForElastic k \<longleftrightarrow> k = USER_PARAMETER"

definition IsRealType :: "LogicalType \<Rightarrow> bool" where
  "IsRealType t \<longleftrightarrow> t = DOUBLE \<or> t = FLOAT"

section \<open>Solver capabilities\<close>

record SolverConstructSupport =
  cs_abs :: bool
  cs_min_max :: bool
  cs_not_equal :: bool
  cs_bilinear :: bool

record SolverModelClass =
  quadratic_constraints_class :: bool
  nonconvex_quadratic_class :: bool
  miqp_class :: bool
  singular_quadratic_class :: bool

datatype SolverModelClassGap =
    GAP_NONE
  | GAP_QUADRATIC_CONSTRAINTS
  | GAP_NONCONVEX_QUADRATIC
  | GAP_MIQP
  | GAP_SINGULAR_QUADRATIC

definition IsNonconvexQuadraticObjective :: "dbl \<Rightarrow> DecideSense \<Rightarrow> bool" where
  "IsNonconvexQuadraticObjective quadratic_sign sense \<longleftrightarrow>
     (quadratic_sign > 0) = (sense = MAXIMIZE)"

definition FindModelClassGap :: "SolverModelClass \<Rightarrow> SolverModelClass \<Rightarrow> SolverModelClassGap" where
  "FindModelClassGap needed supported =
     (if quadratic_constraints_class needed \<and> \<not> quadratic_constraints_class supported
      then GAP_QUADRATIC_CONSTRAINTS
      else if nonconvex_quadratic_class needed \<and> \<not> nonconvex_quadratic_class supported
      then GAP_NONCONVEX_QUADRATIC
      else if miqp_class needed \<and> \<not> miqp_class supported
      then GAP_MIQP
      else if singular_quadratic_class needed \<and> \<not> singular_quadratic_class supported
      then GAP_SINGULAR_QUADRATIC
      else GAP_NONE)"

definition SupportsModelClass :: "SolverModelClass \<Rightarrow> SolverModelClass \<Rightarrow> bool" where
  "SupportsModelClass needed supported \<longleftrightarrow> FindModelClassGap needed supported = GAP_NONE"

text \<open>The walk over \<open>KIND_FLAGS\<close>: the first entry of the kind gives the flag, no entry is \<open>false\<close>.\<close>

definition KIND_FLAGS :: "(GeneralConstraintKind \<times> (SolverConstructSupport \<Rightarrow> bool)) list" where
  "KIND_FLAGS = [(GC_ABS, cs_abs), (GC_MIN, cs_min_max), (GC_MAX, cs_min_max)]"

definition DeclaresGeneralConstraint :: "SolverConstructSupport \<Rightarrow> GeneralConstraintKind \<Rightarrow> bool" where
  "DeclaresGeneralConstraint constructs k =
     (case map_of KIND_FLAGS k of None \<Rightarrow> False | Some flag \<Rightarrow> flag constructs)"

section \<open>Constraints\<close>

record BilinearTerm =
  bt_var_a :: idx
  bt_var_b :: idx
  bt_row_coefficients :: coefficient_column

record QuadraticGroup =
  qg_sign :: dbl
  qg_variable_indices :: "idx option list"
  qg_row_coefficients :: "coefficient_column list"

record EvaluatedConstraint =
  ec_variable_indices :: "idx option list"
  ec_row_coefficients :: "coefficient_column list"
  ec_coefficient_labels :: "string list"
  ec_linear_term_reductions :: "LinearTermReduction list"
  ec_rhs_values :: coefficient_column
  ec_comparison_type :: ExpressionType
  ec_lhs_is_aggregate :: bool
  ec_minmax_clause_idx :: "idx option"
  ec_minmax_agg_type :: string
  ec_ne_clause_idx :: "idx option"
  ec_ne_avg_rhs_scale :: bool
  ec_abs_aux_idx :: "idx option"
  ec_abs_is_pos_bound :: bool
  ec_bilinear_terms :: "BilinearTerm list"
  ec_quadratic_groups :: "QuadraticGroup list"
  ec_has_quadratic :: bool
  ec_kind :: ConstraintKind
  ec_source_clause_id :: "idx option"
  ec_removal_group_id :: "idx option"
  ec_repair_group_id :: "idx option"
  ec_rhs_is_shared_scalar :: bool
  ec_rhs_mechanism_offset :: dbl
  ec_rhs_label :: string
  ec_avg_scaled :: bool
  ec_row_group_ids :: "idx option list"
  ec_num_groups :: nat
  ec_group_labels :: "string list"
  ec_qualifier :: string

text \<open>
  A default-constructed \<open>EvaluatedConstraint\<close>. Its \<open>comparison_type\<close> has no initializer; every
  construction site assigns one, and \<open>COMPARE_OTHER\<close> stands for the value before that. The two
  lazily computed CSR vectors (\<open>group_offsets\<close>, \<open>group_row_ids\<close>) are a cache of \<open>BuildGroupCSR\<close> over
  the two fields above them and are recomputed where they are read.
\<close>

definition ec_default :: EvaluatedConstraint where
  "ec_default = \<lparr>
     ec_variable_indices = [], ec_row_coefficients = [], ec_coefficient_labels = [],
     ec_linear_term_reductions = [], ec_rhs_values = cc_default,
     ec_comparison_type = COMPARE_OTHER, ec_lhs_is_aggregate = False,
     ec_minmax_clause_idx = None, ec_minmax_agg_type = [], ec_ne_clause_idx = None,
     ec_ne_avg_rhs_scale = False, ec_abs_aux_idx = None, ec_abs_is_pos_bound = False,
     ec_bilinear_terms = [], ec_quadratic_groups = [], ec_has_quadratic = False,
     ec_kind = USER_PARAMETER, ec_source_clause_id = None, ec_removal_group_id = None,
     ec_repair_group_id = None, ec_rhs_is_shared_scalar = False, ec_rhs_mechanism_offset = 0,
     ec_rhs_label = [], ec_avg_scaled = False, ec_row_group_ids = [], ec_num_groups = 0,
     ec_group_labels = [], ec_qualifier = []\<rparr>"

record RawConstraint =
  rc_indices :: "idx list"
  rc_coefficients :: "dbl list"
  rc_sense :: sense
  rc_rhs :: dbl
  rc_kind :: ConstraintKind
  rc_shape :: ElasticShape
  rc_source_clause_id :: "idx option"
  rc_repair_group_id :: "idx option"
  rc_removal_group_id :: "idx option"
  rc_indicator_col :: "idx option"
  rc_group_key :: "idx option"
  rc_group_label :: string
  rc_qualifier :: string
  rc_is_aggregate :: bool
  rc_rhs_mechanism_offset :: dbl
  rc_rhs_label :: string

text \<open>\<open>sense\<close> and \<open>rhs\<close> have no initializer; every construction site assigns both.\<close>

definition rc_default :: RawConstraint where
  "rc_default = \<lparr>
     rc_indices = [], rc_coefficients = [], rc_sense = Le, rc_rhs = 0, rc_kind = STRUCTURAL,
     rc_shape = UNSET, rc_source_clause_id = None, rc_repair_group_id = None,
     rc_removal_group_id = None, rc_indicator_col = None, rc_group_key = None,
     rc_group_label = [], rc_qualifier = [], rc_is_aggregate = False,
     rc_rhs_mechanism_offset = 0, rc_rhs_label = []\<rparr>"

record IndicatorConstraintSpec =
  ic_binary_column :: idx
  ic_binary_value :: int
  ic_row :: RawConstraint

record GeneralConstraintSpec =
  gc_kind :: GeneralConstraintKind
  gc_result_column :: idx
  gc_argument_columns :: "idx list"
  gc_source_clause_id :: "idx option"
  gc_repair_group_id :: "idx option"
  gc_removal_group_id :: "idx option"

record EntityMapping =
  em_num_entities :: nat
  em_row_to_entity :: "idx list"

record BilinearLinkSpec =
  bl_aux_idx :: idx
  bl_bool_var_idx :: idx
  bl_other_var_idx :: idx
  bl_source_clause_id :: "idx option"
  bl_removal_group_id :: "idx option"

record AbsMaximizeLinkSpec =
  al_aux_idx :: idx
  al_y_idx :: "idx option"
  al_abs_range :: dbl
  al_range_unbounded :: bool

section \<open>The input of stage 06\<close>

text \<open>
  \<open>constraint_sources\<close> is display text only and passes through the formulation untouched; it is
  left out. \<open>objective_group_offsets\<close> and \<open>objective_group_row_ids\<close> are, as for a constraint, a
  cache of \<open>BuildGroupCSR\<close>.
\<close>

record SolverInput =
  si_num_rows :: nat
  si_num_decide_vars :: nat
  si_variable_types :: "LogicalType list"
  si_lower_bounds :: "dbl list"
  si_upper_bounds :: "dbl list"
  si_rigid_lower_bounds :: "dbl list"
  si_rigid_upper_bounds :: "dbl list"
  si_constraints :: "EvaluatedConstraint list"
  si_bilinear_links :: "BilinearLinkSpec list"
  si_abs_maximize_links :: "AbsMaximizeLinkSpec list"
  si_objective_coefficients :: "coefficient_column list"
  si_objective_variable_indices :: "idx option list"
  si_objective_term_reductions :: "LinearTermReduction list"
  si_sense :: DecideSense
  si_has_quadratic_objective :: bool
  si_quadratic_sign :: dbl
  si_quadratic_inner_coefficients :: "coefficient_column list"
  si_quadratic_inner_variable_indices :: "idx option list"
  si_bilinear_objective_terms :: "BilinearTerm list"
  si_objective_row_group_ids :: "idx option list"
  si_objective_num_groups :: nat
  si_num_global_vars :: nat
  si_global_variable_types :: "LogicalType list"
  si_global_lower_bounds :: "dbl list"
  si_global_upper_bounds :: "dbl list"
  si_global_obj_coeffs :: "dbl list"
  si_global_bounds_unbounded :: "bool list"
  si_global_variable_labels :: "string list"
  si_global_constraints :: "RawConstraint list"
  si_indicator_constraints :: "IndicatorConstraintSpec list"
  si_minmax_clause_labels :: "string list"
  si_ne_clause_labels :: "string list"
  si_general_constraints :: "GeneralConstraintSpec list"
  si_entity_mappings :: "EntityMapping list"
  si_variable_scopes :: "DecideVarScopeInfo list"
  si_tolerate_infeasible_bounds :: bool

text \<open>An empty query, the base of the concrete inputs the witnesses evaluate.\<close>

definition si_default :: SolverInput where
  "si_default = \<lparr>
     si_num_rows = 0, si_num_decide_vars = 0, si_variable_types = [],
     si_lower_bounds = [], si_upper_bounds = [], si_rigid_lower_bounds = [],
     si_rigid_upper_bounds = [], si_constraints = [], si_bilinear_links = [],
     si_abs_maximize_links = [], si_objective_coefficients = [],
     si_objective_variable_indices = [], si_objective_term_reductions = [],
     si_sense = FEASIBILITY, si_has_quadratic_objective = False, si_quadratic_sign = 1,
     si_quadratic_inner_coefficients = [], si_quadratic_inner_variable_indices = [],
     si_bilinear_objective_terms = [], si_objective_row_group_ids = [],
     si_objective_num_groups = 0, si_num_global_vars = 0, si_global_variable_types = [],
     si_global_lower_bounds = [], si_global_upper_bounds = [], si_global_obj_coeffs = [],
     si_global_bounds_unbounded = [], si_global_variable_labels = [],
     si_global_constraints = [], si_indicator_constraints = [], si_minmax_clause_labels = [],
     si_ne_clause_labels = [], si_general_constraints = [], si_entity_mappings = [],
     si_variable_scopes = [], si_tolerate_infeasible_bounds = False\<rparr>"

record FormulationBox =
  fb_lower :: "dbl list"
  fb_upper :: "dbl list"
  fb_global_lower :: "dbl list"
  fb_global_upper :: "dbl list"

definition OfSolvedModel :: "SolverInput \<Rightarrow> FormulationBox" where
  "OfSolvedModel input = \<lparr>
     fb_lower = si_lower_bounds input, fb_upper = si_upper_bounds input,
     fb_global_lower = si_global_lower_bounds input,
     fb_global_upper = si_global_upper_bounds input\<rparr>"

section \<open>What the rows mean\<close>

text \<open>
  A row constraint of the model holds under a flat assignment; a conditional row holds when its
  binary has the other value or its row holds; a general constraint relates columns.
\<close>

definition sat_raw :: "RawConstraint \<Rightarrow> (idx \<Rightarrow> real) \<Rightarrow> bool" where
  "sat_raw rc x \<longleftrightarrow>
     sat_sense (rc_sense rc) (lin_val (rc_indices rc) (rc_coefficients rc) x) (rc_rhs rc)"

definition sat_indicator :: "IndicatorConstraintSpec \<Rightarrow> (idx \<Rightarrow> real) \<Rightarrow> bool" where
  "sat_indicator ic x \<longleftrightarrow>
     (x (ic_binary_column ic) = of_int (ic_binary_value ic) \<longrightarrow> sat_raw (ic_row ic) x)"

fun sat_general :: "GeneralConstraintSpec \<Rightarrow> (idx \<Rightarrow> real) \<Rightarrow> bool" where
  "sat_general gc x =
     (let args = map x (gc_argument_columns gc); r = x (gc_result_column gc)
      in case gc_kind gc of
           GC_ABS \<Rightarrow> (case args of [a] \<Rightarrow> r = \<bar>a\<bar> | _ \<Rightarrow> False)
         | GC_MIN \<Rightarrow> args \<noteq> [] \<and> r = Min (set args)
         | GC_MAX \<Rightarrow> args \<noteq> [] \<and> r = Max (set args))"

text \<open>
  At the level of decision variables, \<open>X v r\<close> is the value variable \<open>v\<close> takes at row \<open>r\<close>. A
  constraint that is not an aggregate imposes its comparison on every row that is not excluded
  by WHEN or PER.
\<close>

definition row_active :: "EvaluatedConstraint \<Rightarrow> idx \<Rightarrow> bool" where
  "row_active ec r \<longleftrightarrow> \<not> (ec_row_group_ids ec \<noteq> [] \<and> ec_row_group_ids ec ! r = None)"

definition term_val :: "(idx \<Rightarrow> idx \<Rightarrow> real) \<Rightarrow> idx \<Rightarrow> idx option \<times> coefficient_column \<Rightarrow> dbl" where
  "term_val X r = (\<lambda>(v, col). cc_get col r * (case v of None \<Rightarrow> 1 | Some v \<Rightarrow> Fin (X v r)))"

definition row_lhs :: "EvaluatedConstraint \<Rightarrow> (idx \<Rightarrow> idx \<Rightarrow> real) \<Rightarrow> idx \<Rightarrow> dbl" where
  "row_lhs ec X r =
     sum_list (map (term_val X r) (zip (ec_variable_indices ec) (ec_row_coefficients ec)))"

fun sat_cmp :: "ExpressionType \<Rightarrow> dbl \<Rightarrow> dbl \<Rightarrow> bool" where
  "sat_cmp COMPARE_EQUAL l r = deq l r"
| "sat_cmp COMPARE_NOTEQUAL l r = (\<not> deq l r)"
| "sat_cmp COMPARE_LESSTHAN l r = (l < r)"
| "sat_cmp COMPARE_GREATERTHAN l r = (l > r)"
| "sat_cmp COMPARE_LESSTHANOREQUALTO l r = (l \<le> r)"
| "sat_cmp COMPARE_GREATERTHANOREQUALTO l r = (l \<ge> r)"
| "sat_cmp COMPARE_OTHER l r = False"

definition sat_row :: "EvaluatedConstraint \<Rightarrow> (idx \<Rightarrow> idx \<Rightarrow> real) \<Rightarrow> idx \<Rightarrow> bool" where
  "sat_row ec X r \<longleftrightarrow> sat_cmp (ec_comparison_type ec) (row_lhs ec X r) (cc_get (ec_rhs_values ec) r)"

section \<open>Properties of the capability gate\<close>

lemma SupportsModelClass_iff:
  "SupportsModelClass needed supported \<longleftrightarrow>
     (quadratic_constraints_class needed \<longrightarrow> quadratic_constraints_class supported) \<and>
     (nonconvex_quadratic_class needed \<longrightarrow> nonconvex_quadratic_class supported) \<and>
     (miqp_class needed \<longrightarrow> miqp_class supported) \<and>
     (singular_quadratic_class needed \<longrightarrow> singular_quadratic_class supported)"
  by (simp add: SupportsModelClass_def FindModelClassGap_def)

lemma SupportsModelClass_trans:
  "SupportsModelClass a b \<Longrightarrow> SupportsModelClass b c \<Longrightarrow> SupportsModelClass a c"
  by (auto simp: SupportsModelClass_iff)

lemma DeclaresGeneralConstraint_simps [simp]:
  "DeclaresGeneralConstraint cs GC_ABS = cs_abs cs"
  "DeclaresGeneralConstraint cs GC_MIN = cs_min_max cs"
  "DeclaresGeneralConstraint cs GC_MAX = cs_min_max cs"
  by (simp_all add: DeclaresGeneralConstraint_def KIND_FLAGS_def)

end
