(* ===== verification/VarIndexing.thy ===== *)
theory VarIndexing
  imports SolverInputs
begin

text \<open>
  \<open>VarIndexer\<close> (\<open>decidb/formulation/ilp_model.hpp\<close>, built in \<open>ilp_model_builder.cpp\<close>): the map
  from a decision variable and a row, or an instance of the variable, to its flat solver column.
  The columns come in four blocks: row-scoped, entity-scoped, scalar, global auxiliary.

  The three loops of \<open>BuildVarIndexer\<close> are folds over the decision variables. The offset vectors
  hold plain indices, filled with \<open>INVALID_INDEX\<close> before the loops as in the source; \<open>OwnerOf\<close>
  answers \<open>None\<close> for \<open>INVALID_INDEX\<close>.

  Shown: on a well-formed input the instances of the decision variables are numbered one to one
  by the columns below \<open>global_block_start\<close>, \<open>OwnerOf\<close> inverts the numbering, and \<open>Get\<close> reads the
  column of the instance a row belongs to. The locale \<open>column_numbering\<close> states that contract.
\<close>

section \<open>State and operations\<close>

definition INVALID_INDEX :: idx where
  "INVALID_INDEX = 2 ^ 64 - 1"

record VarIndexer =
  vi_num_rows :: nat
  vi_num_row_vars :: nat
  vi_entity_block_start :: idx
  vi_scalar_block_start :: idx
  vi_global_block_start :: idx
  vi_total_vars :: nat
  vi_var_scope :: "DecideVarScope list"
  vi_row_var_offset :: "idx list"
  vi_entity_var_base :: "idx list"
  vi_var_entity_mapping_idx :: "idx list"
  vi_scalar_var_index :: "idx list"
  vi_row_offset_var :: "idx list"
  vi_scalar_slot_var :: "idx list"
  vi_entity_block_var :: "idx list"
  vi_entity_mappings :: "EntityMapping list"

definition vi_empty :: VarIndexer where
  "vi_empty = \<lparr>
     vi_num_rows = 0, vi_num_row_vars = 0, vi_entity_block_start = 0, vi_scalar_block_start = 0,
     vi_global_block_start = 0, vi_total_vars = 0, vi_var_scope = [], vi_row_var_offset = [],
     vi_entity_var_base = [], vi_var_entity_mapping_idx = [], vi_scalar_var_index = [],
     vi_row_offset_var = [], vi_scalar_slot_var = [], vi_entity_block_var = [],
     vi_entity_mappings = []\<rparr>"

definition Get :: "VarIndexer \<Rightarrow> idx \<Rightarrow> idx \<Rightarrow> idx" where
  "Get vi v row =
     (case vi_var_scope vi ! v of
        ROW \<Rightarrow> row * vi_num_row_vars vi + vi_row_var_offset vi ! v
      | SCALAR \<Rightarrow> vi_scalar_var_index vi ! v
      | ENTITY \<Rightarrow>
          (let mapping = vi_entity_mappings vi ! (vi_var_entity_mapping_idx vi ! v);
               entity_id = em_row_to_entity mapping ! row
           in vi_entity_var_base vi ! v + entity_id))"

definition InstanceColumn :: "VarIndexer \<Rightarrow> idx \<Rightarrow> idx \<Rightarrow> idx" where
  "InstanceColumn vi v inst =
     (case vi_var_scope vi ! v of
        ROW \<Rightarrow> inst * vi_num_row_vars vi + vi_row_var_offset vi ! v
      | SCALAR \<Rightarrow> vi_scalar_var_index vi ! v
      | ENTITY \<Rightarrow> vi_entity_var_base vi ! v + inst)"

definition NumInstances :: "VarIndexer \<Rightarrow> idx \<Rightarrow> nat" where
  "NumInstances vi v =
     (case vi_var_scope vi ! v of
        ROW \<Rightarrow> vi_num_rows vi
      | SCALAR \<Rightarrow> 1
      | ENTITY \<Rightarrow> em_num_entities (vi_entity_mappings vi ! (vi_var_entity_mapping_idx vi ! v)))"

text \<open>The scan of the entity block: the last variable whose base does not exceed the column.\<close>

primrec entity_owner :: "idx list \<Rightarrow> idx list \<Rightarrow> idx \<Rightarrow> idx option \<Rightarrow> idx option" where
  "entity_owner base [] col owner = owner"
| "entity_owner base (v # vs) col owner =
     (if base ! v > col then owner else entity_owner base vs col (Some v))"

definition OwnerOf :: "VarIndexer \<Rightarrow> idx \<Rightarrow> idx option" where
  "OwnerOf vi col =
     (if col \<ge> vi_global_block_start vi then None
      else if col < vi_entity_block_start vi then
        (if vi_num_row_vars vi = 0 then None
         else Some (vi_row_offset_var vi ! (col mod vi_num_row_vars vi)))
      else if col < vi_scalar_block_start vi then
        entity_owner (vi_entity_var_base vi) (vi_entity_block_var vi) col None
      else Some (vi_scalar_slot_var vi ! (col - vi_scalar_block_start vi)))"

definition scope_of :: "SolverInput \<Rightarrow> idx \<Rightarrow> DecideVarScope" where
  "scope_of input v =
     (if v < length (si_variable_scopes input)
      then vs_scope (si_variable_scopes input ! v) else ROW)"

definition classify_step :: "SolverInput \<Rightarrow> idx \<Rightarrow> VarIndexer \<times> nat \<Rightarrow> VarIndexer \<times> nat" where
  "classify_step input v = (\<lambda>(vi, row_var_count).
     let scope = scope_of input v;
         vi = vi\<lparr>vi_var_scope := (vi_var_scope vi)[v := scope]\<rparr>
     in if scope = ROW
        then (vi\<lparr>vi_row_var_offset := (vi_row_var_offset vi)[v := row_var_count],
                 vi_row_offset_var := vi_row_offset_var vi @ [v]\<rparr>, row_var_count + 1)
        else (vi, row_var_count))"

definition entity_step :: "SolverInput \<Rightarrow> idx \<Rightarrow> VarIndexer \<times> nat \<Rightarrow> VarIndexer \<times> nat" where
  "entity_step input v = (\<lambda>(vi, entity_offset).
     if vi_var_scope vi ! v \<noteq> ENTITY then (vi, entity_offset)
     else let scope_idx = (case vs_entity_scope_idx (si_variable_scopes input ! v) of
                             Some s \<Rightarrow> s | None \<Rightarrow> INVALID_INDEX)
          in (vi\<lparr>vi_var_entity_mapping_idx := (vi_var_entity_mapping_idx vi)[v := scope_idx],
                 vi_entity_var_base :=
                   (vi_entity_var_base vi)[v := vi_entity_block_start vi + entity_offset],
                 vi_entity_block_var := vi_entity_block_var vi @ [v]\<rparr>,
              entity_offset + em_num_entities (vi_entity_mappings vi ! scope_idx)))"

definition scalar_step :: "idx \<Rightarrow> VarIndexer \<times> nat \<Rightarrow> VarIndexer \<times> nat" where
  "scalar_step v = (\<lambda>(vi, scalar_count).
     if vi_var_scope vi ! v \<noteq> SCALAR then (vi, scalar_count)
     else (vi\<lparr>vi_scalar_var_index :=
                (vi_scalar_var_index vi)[v := vi_scalar_block_start vi + scalar_count],
              vi_scalar_slot_var := vi_scalar_slot_var vi @ [v]\<rparr>, scalar_count + 1))"

definition BuildVarIndexer :: "VarIndexer \<Rightarrow> SolverInput \<Rightarrow> VarIndexer" where
  "BuildVarIndexer vi input =
     (let n = si_num_decide_vars input;
          vi = vi\<lparr>vi_num_rows := si_num_rows input,
                  vi_var_scope := replicate n ROW,
                  vi_row_var_offset := replicate n INVALID_INDEX,
                  vi_entity_var_base := replicate n INVALID_INDEX,
                  vi_var_entity_mapping_idx := replicate n INVALID_INDEX,
                  vi_scalar_var_index := replicate n INVALID_INDEX\<rparr>;
          (vi, row_var_count) = fold (classify_step input) [0..<n] (vi, 0);
          vi = vi\<lparr>vi_num_row_vars := row_var_count,
                  vi_entity_block_start := si_num_rows input * row_var_count\<rparr>;
          (vi, entity_offset) = fold (entity_step input) [0..<n] (vi, 0);
          vi = vi\<lparr>vi_scalar_block_start := vi_entity_block_start vi + entity_offset\<rparr>;
          (vi, scalar_count) = fold scalar_step [0..<n] (vi, 0);
          gbs = vi_scalar_block_start vi + scalar_count
      in vi\<lparr>vi_global_block_start := gbs, vi_total_vars := gbs + si_num_global_vars input\<rparr>)"

definition BuildIndexer :: "SolverInput \<Rightarrow> VarIndexer" where
  "BuildIndexer input =
     BuildVarIndexer (vi_empty\<lparr>vi_entity_mappings := si_entity_mappings input\<rparr>) input"

section \<open>The invariant\<close>

text \<open>
  The shape the physical operator gives its input: an entity-scoped variable names one of the
  entity mappings, and a mapping sends every row to one of its entities.
\<close>

definition entity_scope_ok :: "SolverInput \<Rightarrow> idx \<Rightarrow> bool" where
  "entity_scope_ok input v \<longleftrightarrow>
     (case vs_entity_scope_idx (si_variable_scopes input ! v) of
        None \<Rightarrow> False
      | Some s \<Rightarrow> s < length (si_entity_mappings input))"

definition mapping_ok :: "nat \<Rightarrow> EntityMapping \<Rightarrow> bool" where
  "mapping_ok n m \<longleftrightarrow> length (em_row_to_entity m) = n \<and>
     (\<forall>e \<in> set (em_row_to_entity m). e < em_num_entities m)"

definition indexable :: "SolverInput \<Rightarrow> bool" where
  "indexable input \<longleftrightarrow>
     (\<forall>v < si_num_decide_vars input. scope_of input v = ENTITY \<longrightarrow> entity_scope_ok input v) \<and>
     (\<forall>m \<in> set (si_entity_mappings input). mapping_ok (si_num_rows input) m)"

text \<open>Closed forms of what the three loops compute.\<close>

definition vars_of :: "SolverInput \<Rightarrow> DecideVarScope \<Rightarrow> nat \<Rightarrow> idx list" where
  "vars_of input s n = filter (\<lambda>v. scope_of input v = s) [0..<n]"

definition entity_mapping_of :: "SolverInput \<Rightarrow> idx \<Rightarrow> idx" where
  "entity_mapping_of input v =
     (case vs_entity_scope_idx (si_variable_scopes input ! v) of
        Some s \<Rightarrow> s | None \<Rightarrow> INVALID_INDEX)"

definition entities_of :: "SolverInput \<Rightarrow> idx \<Rightarrow> nat" where
  "entities_of input v = em_num_entities (si_entity_mappings input ! entity_mapping_of input v)"

definition entity_total :: "SolverInput \<Rightarrow> nat \<Rightarrow> nat" where
  "entity_total input n = sum_list (map (entities_of input) (vars_of input ENTITY n))"

lemma vars_of_Suc [simp]:
  "vars_of input s (Suc n) = vars_of input s n @ (if scope_of input n = s then [n] else [])"
  by (simp add: vars_of_def)

lemma vars_of_0 [simp]: "vars_of input s 0 = []"
  by (simp add: vars_of_def)

lemma entity_total_Suc [simp]:
  "entity_total input (Suc n) =
     entity_total input n + (if scope_of input n = ENTITY then entities_of input n else 0)"
  by (simp add: entity_total_def)

lemma entity_total_0 [simp]: "entity_total input 0 = 0"
  by (simp add: entity_total_def)

lemma vars_of_length_mono: "m \<le> n \<Longrightarrow> length (vars_of input s m) \<le> length (vars_of input s n)"
  by (induction rule: dec_induct) simp_all

lemma vars_of_nth:
  "v < n \<Longrightarrow> scope_of input v = s \<Longrightarrow>
     length (vars_of input s v) < length (vars_of input s n) \<and>
     vars_of input s n ! length (vars_of input s v) = v"
proof (induction n)
  case (Suc n)
  then show ?case
    by (cases "v = n") (auto simp: nth_append less_Suc_eq)
qed simp

lemma vars_of_nthE:
  assumes "k < length (vars_of input s n)"
  obtains v where "v < n" "scope_of input v = s" "k = length (vars_of input s v)"
    "vars_of input s n ! k = v"
proof -
  let ?v = "vars_of input s n ! k"
  have v: "?v < n" "scope_of input ?v = s"
    using nth_mem [OF assms] by (auto simp: vars_of_def)
  note at = vars_of_nth [OF v]
  moreover have "distinct (vars_of input s n)" by (simp add: vars_of_def)
  ultimately have "k = length (vars_of input s ?v)"
    using assms by (metis distinct_conv_nth)
  with v that show ?thesis by blast
qed

lemma entity_total_mono: "m \<le> n \<Longrightarrow> entity_total input m \<le> entity_total input n"
  by (induction rule: dec_induct) simp_all

lemma entity_total_room:
  "v < n \<Longrightarrow> scope_of input v = ENTITY \<Longrightarrow>
     entity_total input v + entities_of input v \<le> entity_total input n"
  using entity_total_mono [of "Suc v" n input] by simp

section \<open>What the three loops compute\<close>

lemma map_upt_update:
  "k < n \<Longrightarrow> (map f [0..<n])[k := y] = map (\<lambda>v. if v = k then y else f v) [0..<n]"
  by (rule nth_equalityI) (auto simp: nth_list_update)

lemma map_upt_cong: "(\<And>v. v < n \<Longrightarrow> f v = g v) \<Longrightarrow> map f [0..<n] = map g [0..<n]"
  by (rule map_cong) auto

text \<open>The offset vectors after the loops have handled the variables below \<open>k\<close>.\<close>

definition scopes_upto :: "SolverInput \<Rightarrow> nat \<Rightarrow> nat \<Rightarrow> DecideVarScope list" where
  "scopes_upto input n k = map (\<lambda>v. if v < k then scope_of input v else ROW) [0..<n]"

definition offsets_upto :: "SolverInput \<Rightarrow> DecideVarScope \<Rightarrow> (idx \<Rightarrow> idx) \<Rightarrow> nat \<Rightarrow> nat \<Rightarrow> idx list" where
  "offsets_upto input s f n k =
     map (\<lambda>v. if v < k \<and> scope_of input v = s then f v else INVALID_INDEX) [0..<n]"

lemma scopes_upto_0: "scopes_upto input n 0 = replicate n ROW"
  by (simp add: scopes_upto_def map_replicate_const)

lemma offsets_upto_0: "offsets_upto input s f n 0 = replicate n INVALID_INDEX"
  by (simp add: offsets_upto_def map_replicate_const)

lemma scopes_upto_Suc:
  "k < n \<Longrightarrow> y = scope_of input k \<Longrightarrow>
     (scopes_upto input n k)[k := y] = scopes_upto input n (Suc k)"
  unfolding scopes_upto_def by (subst map_upt_update) (auto intro: map_upt_cong)

lemma offsets_upto_Suc:
  "k < n \<Longrightarrow> scope_of input k = s \<Longrightarrow> y = f k \<Longrightarrow>
     (offsets_upto input s f n k)[k := y] = offsets_upto input s f n (Suc k)"
  unfolding offsets_upto_def by (subst map_upt_update) (auto intro: map_upt_cong)

lemma offsets_upto_skip:
  "scope_of input k \<noteq> s \<Longrightarrow> offsets_upto input s f n (Suc k) = offsets_upto input s f n k"
  unfolding offsets_upto_def by (auto intro: map_upt_cong simp: less_Suc_eq)

lemma scopes_upto_nth: "v < n \<Longrightarrow> scopes_upto input n n ! v = scope_of input v"
  by (simp add: scopes_upto_def)

lemma offsets_upto_nth:
  "v < n \<Longrightarrow> scope_of input v = s \<Longrightarrow> offsets_upto input s f n n ! v = f v"
  by (simp add: offsets_upto_def)

lemma classify_loop:
  assumes "vi_var_scope vi = scopes_upto input n 0" "vi_row_offset_var vi = []"
    "vi_row_var_offset vi = offsets_upto input ROW (\<lambda>v. length (vars_of input ROW v)) n 0" "k \<le> n"
  shows "fold (classify_step input) [0..<k] (vi, 0) =
    (vi\<lparr>vi_var_scope := scopes_upto input n k,
        vi_row_var_offset := offsets_upto input ROW (\<lambda>v. length (vars_of input ROW v)) n k,
        vi_row_offset_var := vars_of input ROW k\<rparr>, length (vars_of input ROW k))"
  using assms(4)
proof (induction k)
  case 0
  then show ?case using assms(1-3) by (simp add: vars_of_def)
next
  case (Suc k)
  then show ?case
    by (simp add: classify_step_def Let_def scopes_upto_Suc offsets_upto_Suc offsets_upto_skip)
qed

lemma entity_loop:
  assumes "vi_var_scope vi = scopes_upto input n n" "vi_entity_block_var vi = []"
    "vi_var_entity_mapping_idx vi = offsets_upto input ENTITY (entity_mapping_of input) n 0"
    "vi_entity_var_base vi =
       offsets_upto input ENTITY (\<lambda>v. vi_entity_block_start vi + entity_total input v) n 0"
    "vi_entity_mappings vi = si_entity_mappings input" "k \<le> n"
  shows "fold (entity_step input) [0..<k] (vi, 0) =
    (vi\<lparr>vi_var_entity_mapping_idx := offsets_upto input ENTITY (entity_mapping_of input) n k,
        vi_entity_var_base :=
          offsets_upto input ENTITY (\<lambda>v. vi_entity_block_start vi + entity_total input v) n k,
        vi_entity_block_var := vars_of input ENTITY k\<rparr>, entity_total input k)"
  using assms(6)
proof (induction k)
  case 0
  then show ?case using assms(2-4) by simp
next
  case (Suc k)
  then show ?case
    using assms(1,5)
    by (simp add: entity_step_def Let_def scopes_upto_nth offsets_upto_skip offsets_upto_Suc
        entities_of_def flip: entity_mapping_of_def)
qed

lemma scalar_loop:
  assumes "vi_var_scope vi = scopes_upto input n n" "vi_scalar_slot_var vi = []"
    "vi_scalar_var_index vi =
       offsets_upto input SCALAR
         (\<lambda>v. vi_scalar_block_start vi + length (vars_of input SCALAR v)) n 0" "k \<le> n"
  shows "fold scalar_step [0..<k] (vi, 0) =
    (vi\<lparr>vi_scalar_var_index :=
          offsets_upto input SCALAR
            (\<lambda>v. vi_scalar_block_start vi + length (vars_of input SCALAR v)) n k,
        vi_scalar_slot_var := vars_of input SCALAR k\<rparr>, length (vars_of input SCALAR k))"
  using assms(4)
proof (induction k)
  case 0
  then show ?case using assms(2,3) by simp
next
  case (Suc k)
  then show ?case
    using assms(1)
    by (simp add: scalar_step_def scopes_upto_nth offsets_upto_skip offsets_upto_Suc)
qed

text \<open>The built indexer, in closed form.\<close>

abbreviation (input) n_vars :: "SolverInput \<Rightarrow> nat" where
  "n_vars input \<equiv> si_num_decide_vars input"

definition row_vars :: "SolverInput \<Rightarrow> nat" where
  "row_vars input = length (vars_of input ROW (n_vars input))"

definition entity_start :: "SolverInput \<Rightarrow> idx" where
  "entity_start input = si_num_rows input * row_vars input"

definition scalar_start :: "SolverInput \<Rightarrow> idx" where
  "scalar_start input = entity_start input + entity_total input (n_vars input)"

definition global_start :: "SolverInput \<Rightarrow> idx" where
  "global_start input = scalar_start input + length (vars_of input SCALAR (n_vars input))"

lemma BuildIndexer_closed:
  "BuildIndexer input = \<lparr>
     vi_num_rows = si_num_rows input,
     vi_num_row_vars = row_vars input,
     vi_entity_block_start = entity_start input,
     vi_scalar_block_start = scalar_start input,
     vi_global_block_start = global_start input,
     vi_total_vars = global_start input + si_num_global_vars input,
     vi_var_scope = scopes_upto input (n_vars input) (n_vars input),
     vi_row_var_offset =
       offsets_upto input ROW (\<lambda>v. length (vars_of input ROW v)) (n_vars input) (n_vars input),
     vi_entity_var_base =
       offsets_upto input ENTITY (\<lambda>v. entity_start input + entity_total input v)
         (n_vars input) (n_vars input),
     vi_var_entity_mapping_idx =
       offsets_upto input ENTITY (entity_mapping_of input) (n_vars input) (n_vars input),
     vi_scalar_var_index =
       offsets_upto input SCALAR (\<lambda>v. scalar_start input + length (vars_of input SCALAR v))
         (n_vars input) (n_vars input),
     vi_row_offset_var = vars_of input ROW (n_vars input),
     vi_scalar_slot_var = vars_of input SCALAR (n_vars input),
     vi_entity_block_var = vars_of input ENTITY (n_vars input),
     vi_entity_mappings = si_entity_mappings input\<rparr>"
  unfolding BuildIndexer_def BuildVarIndexer_def Let_def
  apply (subst classify_loop [where n = "n_vars input"])
      apply (simp_all add: vi_empty_def scopes_upto_0 offsets_upto_0)
  apply (subst entity_loop [where n = "n_vars input"])
        apply (simp_all add: offsets_upto_0)
  apply (subst scalar_loop [where n = "n_vars input" and input = input])
      apply (simp_all add: offsets_upto_0)
  apply (simp add: row_vars_def entity_start_def scalar_start_def global_start_def)
  done

lemma BuildIndexer_fields [simp]:
  "vi_num_rows (BuildIndexer input) = si_num_rows input"
  "vi_global_block_start (BuildIndexer input) = global_start input"
  "vi_total_vars (BuildIndexer input) = global_start input + si_num_global_vars input"
  "v < n_vars input \<Longrightarrow> vi_var_scope (BuildIndexer input) ! v = scope_of input v"
  by (simp_all add: BuildIndexer_closed scopes_upto_nth)

section \<open>Columns of instances\<close>

lemma InstanceColumn_cases:
  assumes "v < n_vars input"
  shows "scope_of input v = ROW \<Longrightarrow>
           InstanceColumn (BuildIndexer input) v i = i * row_vars input + length (vars_of input ROW v)"
    and "scope_of input v = ENTITY \<Longrightarrow>
           InstanceColumn (BuildIndexer input) v i = entity_start input + entity_total input v + i"
    and "scope_of input v = SCALAR \<Longrightarrow>
           InstanceColumn (BuildIndexer input) v i =
             scalar_start input + length (vars_of input SCALAR v)"
  using assms
  by (simp_all add: InstanceColumn_def BuildIndexer_closed scopes_upto_nth offsets_upto_nth)

lemma NumInstances_cases:
  assumes "v < n_vars input"
  shows "scope_of input v = ROW \<Longrightarrow> NumInstances (BuildIndexer input) v = si_num_rows input"
    and "scope_of input v = ENTITY \<Longrightarrow> NumInstances (BuildIndexer input) v = entities_of input v"
    and "scope_of input v = SCALAR \<Longrightarrow> NumInstances (BuildIndexer input) v = 1"
  using assms
  by (simp_all add: NumInstances_def BuildIndexer_closed scopes_upto_nth offsets_upto_nth
      entities_of_def)

lemma row_offset_lt:
  "v < n_vars input \<Longrightarrow> scope_of input v = ROW \<Longrightarrow> length (vars_of input ROW v) < row_vars input"
  using vars_of_nth [of v "n_vars input" input ROW] by (simp add: row_vars_def)

lemma block_bound: "i < n \<Longrightarrow> p < m \<Longrightarrow> i * m + p < n * (m :: nat)"
proof -
  assume "i < n" "p < m"
  then have "i * m + p < Suc i * m" by simp
  also have "\<dots> \<le> n * m" using \<open>i < n\<close> by (intro mult_le_mono1) simp
  finally show ?thesis .
qed

lemma instance_block:
  assumes "v < n_vars input" "i < NumInstances (BuildIndexer input) v"
  defines "c \<equiv> InstanceColumn (BuildIndexer input) v i"
  shows "scope_of input v = ROW \<Longrightarrow> c < entity_start input"
    and "scope_of input v = ENTITY \<Longrightarrow> entity_start input \<le> c \<and> c < scalar_start input"
    and "scope_of input v = SCALAR \<Longrightarrow> scalar_start input \<le> c \<and> c < global_start input"
proof -
  assume s: "scope_of input v = ROW"
  show "c < entity_start input"
    using assms s row_offset_lt [OF assms(1) s]
    by (simp add: InstanceColumn_cases NumInstances_cases entity_start_def block_bound)
next
  assume s: "scope_of input v = ENTITY"
  show "entity_start input \<le> c \<and> c < scalar_start input"
    using assms s entity_total_room [OF assms(1) s]
    by (simp add: InstanceColumn_cases NumInstances_cases scalar_start_def)
next
  assume s: "scope_of input v = SCALAR"
  show "scalar_start input \<le> c \<and> c < global_start input"
    using assms s vars_of_nth [OF assms(1) s]
    by (simp add: InstanceColumn_cases global_start_def)
qed

lemma InstanceColumn_lt:
  assumes "v < n_vars input" "i < NumInstances (BuildIndexer input) v"
  shows "InstanceColumn (BuildIndexer input) v i < global_start input"
  using instance_block [OF assms]
  by (cases "scope_of input v") (auto simp: scalar_start_def global_start_def)

lemma entity_owner_stop: "\<forall>u \<in> set vs. base ! u > col \<Longrightarrow> entity_owner base vs col owner = owner"
  by (cases vs) simp_all

lemma entity_owner_pass:
  "\<forall>u \<in> set us. base ! u \<le> col \<Longrightarrow>
     entity_owner base (us @ v # vs) col owner =
       (if base ! v \<le> col then entity_owner base vs col (Some v)
        else if us = [] then owner else Some (last us))"
  by (induction us arbitrary: owner) auto

lemma vars_of_split:
  "v < n \<Longrightarrow> scope_of input v = s \<Longrightarrow>
     vars_of input s n = vars_of input s v @ v # filter (\<lambda>v. scope_of input v = s) [Suc v..<n]"
  unfolding vars_of_def
  using upt_add_eq_append [of 0 v "n - v"] by (simp add: upt_conv_Cons)

lemma OwnerOf_InstanceColumn:
  assumes "v < n_vars input" "i < NumInstances (BuildIndexer input) v"
  shows "OwnerOf (BuildIndexer input) (InstanceColumn (BuildIndexer input) v i) = Some v"
proof (cases "scope_of input v")
  case ROW
  note at = vars_of_nth [OF assms(1) ROW] row_offset_lt [OF assms(1) ROW]
  from instance_block(1) [OF assms ROW] InstanceColumn_lt [OF assms] at show ?thesis
    by (simp add: OwnerOf_def BuildIndexer_closed InstanceColumn_def scopes_upto_nth offsets_upto_nth
        assms(1) ROW)
next
  case ENTITY
  let ?base = "vi_entity_var_base (BuildIndexer input)" and ?n = "n_vars input"
  let ?col = "InstanceColumn (BuildIndexer input) v i"
  have base: "?base ! u = entity_start input + entity_total input u"
    if "u < ?n" "scope_of input u = ENTITY" for u
    using that by (simp add: BuildIndexer_closed offsets_upto_nth)
  have col: "?col = entity_start input + entity_total input v + i" "i < entities_of input v"
    using assms ENTITY by (simp_all add: InstanceColumn_cases NumInstances_cases)
  have "\<forall>u \<in> set (vars_of input ENTITY v). ?base ! u \<le> ?col"
    using assms(1) col
    by (auto simp: vars_of_def base intro!: trans_le_add1 entity_total_mono)
  moreover have "\<forall>u \<in> set (filter (\<lambda>v. scope_of input v = ENTITY) [Suc v..<?n]). ?base ! u > ?col"
  proof
    fix u
    assume "u \<in> set (filter (\<lambda>v. scope_of input v = ENTITY) [Suc v..<?n])"
    then have u: "v < u" "u < ?n" "scope_of input u = ENTITY" by auto
    with entity_total_room [of v u input] col ENTITY show "?base ! u > ?col"
      by (simp add: base)
  qed
  ultimately have "entity_owner ?base (vars_of input ENTITY ?n) ?col None = Some v"
    using assms(1) col ENTITY
    by (simp add: vars_of_split [OF assms(1) ENTITY] entity_owner_pass entity_owner_stop base)
  with instance_block(2) [OF assms ENTITY] InstanceColumn_lt [OF assms] show ?thesis
    by (simp add: OwnerOf_def BuildIndexer_closed)
next
  case SCALAR
  note at = vars_of_nth [OF assms(1) SCALAR]
  from instance_block(3) [OF assms SCALAR] InstanceColumn_lt [OF assms] at show ?thesis
    by (simp add: OwnerOf_def BuildIndexer_closed InstanceColumn_def scopes_upto_nth offsets_upto_nth
        assms(1) SCALAR scalar_start_def)
qed

lemma InstanceColumn_inj:
  assumes "v < n_vars input" "i < NumInstances (BuildIndexer input) v"
    and "w < n_vars input" "j < NumInstances (BuildIndexer input) w"
    and eq: "InstanceColumn (BuildIndexer input) v i = InstanceColumn (BuildIndexer input) w j"
  shows "v = w \<and> (scope_of input v \<noteq> SCALAR \<longrightarrow> i = j)"
proof -
  have vw: "v = w"
    using OwnerOf_InstanceColumn [OF assms(1,2)] OwnerOf_InstanceColumn [OF assms(3,4)] eq by simp
  have "row_vars input > 0" if "scope_of input v = ROW"
    using row_offset_lt [OF assms(1) that] by simp
  with vw eq assms(1) show ?thesis
    by (cases "scope_of input w") (auto simp: InstanceColumn_cases)
qed

lemma entity_total_find:
  "c < entity_total input n \<Longrightarrow>
     \<exists>v < n. scope_of input v = ENTITY \<and> (\<exists>i < entities_of input v. c = entity_total input v + i)"
proof (induction n)
  case (Suc n)
  show ?case
  proof (cases "c < entity_total input n")
    case True
    with Suc.IH show ?thesis using less_Suc_eq by blast
  next
    case False
    with Suc.prems have "scope_of input n = ENTITY" "c - entity_total input n < entities_of input n"
      by (auto split: if_splits)
    with False show ?thesis
      by (intro exI [of _ n]) (auto intro!: exI [of _ "c - entity_total input n"])
  qed
qed simp

lemma InstanceColumn_surj:
  assumes "c < global_start input"
  shows "\<exists>v < n_vars input. \<exists>i < NumInstances (BuildIndexer input) v.
           InstanceColumn (BuildIndexer input) v i = c"
proof -
  consider (row) "c < entity_start input"
    | (ent) "entity_start input \<le> c" "c < scalar_start input"
    | (sca) "scalar_start input \<le> c" by linarith
  then show ?thesis
  proof cases
    case row
    then have pos: "row_vars input > 0" by (cases "row_vars input") (simp_all add: entity_start_def)
    then have "c mod row_vars input < length (vars_of input ROW (n_vars input))"
      by (simp add: row_vars_def)
    then obtain v where v: "v < n_vars input" "scope_of input v = ROW"
      "c mod row_vars input = length (vars_of input ROW v)"
      by (rule vars_of_nthE)
    moreover have "c div row_vars input < si_num_rows input"
      using row pos by (simp add: entity_start_def div_less_iff_less_mult)
    moreover have "c div row_vars input * row_vars input + c mod row_vars input = c" by simp
    ultimately show ?thesis
      by (intro exI [of _ v] conjI exI [of _ "c div row_vars input"])
         (simp_all add: InstanceColumn_cases NumInstances_cases)
  next
    case ent
    then have "c - entity_start input < entity_total input (n_vars input)"
      by (simp add: scalar_start_def)
    from entity_total_find [OF this] obtain v i where "v < n_vars input" "scope_of input v = ENTITY"
      "i < entities_of input v" "c - entity_start input = entity_total input v + i" by blast
    with ent(1) show ?thesis
      by (intro exI [of _ v] conjI exI [of _ i])
         (simp_all add: InstanceColumn_cases NumInstances_cases)
  next
    case sca
    with assms have "c - scalar_start input < length (vars_of input SCALAR (n_vars input))"
      by (simp add: global_start_def)
    then obtain v where "v < n_vars input" "scope_of input v = SCALAR"
      "c - scalar_start input = length (vars_of input SCALAR v)"
      by (rule vars_of_nthE)
    with sca show ?thesis
      by (intro exI [of _ v] conjI exI [of _ 0])
         (simp_all add: InstanceColumn_cases NumInstances_cases)
  qed
qed

section \<open>Reading a row\<close>

text \<open>The instance of a variable that a row of the query resolves to.\<close>

definition instance_of :: "SolverInput \<Rightarrow> idx \<Rightarrow> idx \<Rightarrow> idx" where
  "instance_of input v r =
     (case scope_of input v of
        ROW \<Rightarrow> r
      | SCALAR \<Rightarrow> 0
      | ENTITY \<Rightarrow> em_row_to_entity (si_entity_mappings input ! entity_mapping_of input v) ! r)"

lemma instance_of_lt:
  assumes "indexable input" "v < n_vars input" "r < si_num_rows input"
  shows "instance_of input v r < NumInstances (BuildIndexer input) v"
proof (cases "scope_of input v")
  case ENTITY
  with assms have "entity_mapping_of input v < length (si_entity_mappings input)"
    by (auto simp: indexable_def entity_scope_ok_def entity_mapping_of_def split: option.splits)
  then have "mapping_ok (si_num_rows input) (si_entity_mappings input ! entity_mapping_of input v)"
    using assms(1) by (simp add: indexable_def)
  with assms ENTITY show ?thesis
    by (simp add: instance_of_def NumInstances_cases entities_of_def mapping_ok_def)
qed (use assms in \<open>simp_all add: instance_of_def NumInstances_cases\<close>)

lemma Get_instance_of:
  assumes "v < n_vars input"
  shows "Get (BuildIndexer input) v r = InstanceColumn (BuildIndexer input) v (instance_of input v r)"
  using assms
  by (cases "scope_of input v")
     (simp_all add: Get_def InstanceColumn_def instance_of_def BuildIndexer_closed scopes_upto_nth
        offsets_upto_nth)

section \<open>The contract of a numbering\<close>

text \<open>
  What the passes rely on: \<open>col m v i\<close> numbers the instances \<open>i < insts m v\<close> of the variables
  \<open>v < nv m\<close>, \<open>owner\<close> inverts it, and a row reads one of the instances. \<open>same\<close> tells when two
  instance numbers denote the same instance.
\<close>

locale column_numbering =
  fixes nv :: "'m \<Rightarrow> nat"
    and insts :: "'m \<Rightarrow> idx \<Rightarrow> nat"
    and col :: "'m \<Rightarrow> idx \<Rightarrow> idx \<Rightarrow> idx"
    and limit :: "'m \<Rightarrow> nat"
    and owner :: "'m \<Rightarrow> idx \<Rightarrow> idx option"
    and rows :: "'m \<Rightarrow> nat"
    and at_row :: "'m \<Rightarrow> idx \<Rightarrow> idx \<Rightarrow> idx"
    and ok :: "'m \<Rightarrow> bool"
  assumes col_lt: "v < nv m \<Longrightarrow> i < insts m v \<Longrightarrow> col m v i < limit m"
    and owner_col: "v < nv m \<Longrightarrow> i < insts m v \<Longrightarrow> owner m (col m v i) = Some v"
    and col_inj: "v < nv m \<Longrightarrow> i < insts m v \<Longrightarrow> j < insts m v \<Longrightarrow> col m v i = col m v j \<Longrightarrow> i = j"
    and col_surj: "c < limit m \<Longrightarrow> \<exists>v < nv m. \<exists>i < insts m v. col m v i = c"
    and at_row: "ok m \<Longrightarrow> v < nv m \<Longrightarrow> r < rows m \<Longrightarrow> \<exists>i < insts m v. at_row m v r = col m v i"
begin

lemma at_row_lt: "ok m \<Longrightarrow> v < nv m \<Longrightarrow> r < rows m \<Longrightarrow> at_row m v r < limit m"
  using at_row col_lt by fastforce

lemma at_row_owner: "ok m \<Longrightarrow> v < nv m \<Longrightarrow> r < rows m \<Longrightarrow> owner m (at_row m v r) = Some v"
  using at_row owner_col by fastforce

lemma at_row_distinct:
  "ok m \<Longrightarrow> v < nv m \<Longrightarrow> w < nv m \<Longrightarrow> r < rows m \<Longrightarrow> s < rows m \<Longrightarrow> v \<noteq> w \<Longrightarrow>
     at_row m v r \<noteq> at_row m w s"
  by (metis at_row_owner option.inject)

lemma bij: "bij_betw (\<lambda>(v, i). col m v i) (SIGMA v:{..<nv m}. {..<insts m v}) {..<limit m}"
proof (rule bij_betw_imageI)
  show "inj_on (\<lambda>(v, i). col m v i) (SIGMA v:{..<nv m}. {..<insts m v})"
  proof (rule inj_onI, clarsimp)
    fix v i w j
    assume *: "v < nv m" "i < insts m v" "w < nv m" "j < insts m w" "col m v i = col m w j"
    then have "Some v = Some w" using owner_col [of v m i] owner_col [of w m j] by simp
    with * col_inj show "v = w \<and> i = j" by auto
  qed
  show "(\<lambda>(v, i). col m v i) ` (SIGMA v:{..<nv m}. {..<insts m v}) = {..<limit m}"
    using col_surj [of _ m] by (auto simp: col_lt image_iff Bex_def)
qed

text \<open>A sum over the columns is a sum over variables of sums over their instances.\<close>

lemma sum_columns: "(\<Sum>c<limit m. f c) = (\<Sum>v<nv m. \<Sum>i<insts m v. f (col m v i))"
proof -
  have "(\<Sum>v<nv m. \<Sum>i<insts m v. f (col m v i)) =
      (\<Sum>(v, i)\<in>(SIGMA v:{..<nv m}. {..<insts m v}). f (col m v i))"
    by (rule sum.Sigma) simp_all
  also have "\<dots> = (\<Sum>c<limit m. f c)"
    using sum.reindex_bij_betw [OF bij [of m], of f] by (simp add: case_prod_unfold)
  finally show ?thesis by simp
qed

end

interpretation num: column_numbering n_vars "\<lambda>input. NumInstances (BuildIndexer input)"
  "\<lambda>input. InstanceColumn (BuildIndexer input)" global_start "\<lambda>input. OwnerOf (BuildIndexer input)"
  si_num_rows "\<lambda>input. Get (BuildIndexer input)" indexable
proof
  fix v i j r :: nat and m :: SolverInput
  assume v: "v < n_vars m"
  show "\<exists>i < NumInstances (BuildIndexer m) v. Get (BuildIndexer m) v r = InstanceColumn (BuildIndexer m) v i"
    if "indexable m" "r < si_num_rows m"
    using that v instance_of_lt Get_instance_of by blast
  assume i: "i < NumInstances (BuildIndexer m) v"
  show "InstanceColumn (BuildIndexer m) v i < global_start m" by (rule InstanceColumn_lt [OF v i])
  show "OwnerOf (BuildIndexer m) (InstanceColumn (BuildIndexer m) v i) = Some v"
    by (rule OwnerOf_InstanceColumn [OF v i])
  assume j: "j < NumInstances (BuildIndexer m) v"
    and eq: "InstanceColumn (BuildIndexer m) v i = InstanceColumn (BuildIndexer m) v j"
  show "i = j"
    using InstanceColumn_inj [OF v i v j eq] i j v by (cases "scope_of m v") (auto simp: NumInstances_cases)
next
  fix c and m :: SolverInput
  assume "c < global_start m"
  then show "\<exists>v < n_vars m. \<exists>i < NumInstances (BuildIndexer m) v. InstanceColumn (BuildIndexer m) v i = c"
    by (rule InstanceColumn_surj)
qed

section \<open>Properties\<close>

text \<open>
  C32. The flat layout is exact: the pairs of a decision variable and one of its instances are in
  bijection with the columns below the global block, so no two instances share a column and no
  decision column is unused.
\<close>

theorem indexer_bijection:
  "bij_betw (\<lambda>(v, i). InstanceColumn (BuildIndexer input) v i)
     (SIGMA v:{..<si_num_decide_vars input}. {..<NumInstances (BuildIndexer input) v})
     {..<vi_global_block_start (BuildIndexer input)}"
  using num.bij [of input] by simp

text \<open>
  The column a row reads for a variable is a decision column, and \<open>OwnerOf\<close> recovers the
  variable from it. Two variables never read the same column.
\<close>

theorem indexer_get_owner:
  assumes "indexable input" "v < si_num_decide_vars input" "r < si_num_rows input"
  shows "Get (BuildIndexer input) v r < vi_global_block_start (BuildIndexer input) \<and>
         OwnerOf (BuildIndexer input) (Get (BuildIndexer input) v r) = Some v"
  using num.at_row_lt [OF assms] num.at_row_owner [OF assms] by simp

definition demo_input :: SolverInput where
  "demo_input = si_default\<lparr>
     si_num_rows := 3, si_num_decide_vars := 3,
     si_entity_mappings := [\<lparr>em_num_entities = 2, em_row_to_entity = [0, 1, 0]\<rparr>],
     si_variable_scopes := [\<lparr>vs_scope = ROW, vs_entity_scope_idx = None\<rparr>,
                            \<lparr>vs_scope = ENTITY, vs_entity_scope_idx = Some 0\<rparr>,
                            \<lparr>vs_scope = SCALAR, vs_entity_scope_idx = None\<rparr>]\<rparr>"

lemma demo_indexable: "indexable demo_input"
  by (auto simp: indexable_def demo_input_def si_default_def entity_scope_ok_def mapping_ok_def
      scope_of_def less_Suc_eq numeral_eq_Suc)

lemma indexer_get_owner_witness:
  "OwnerOf (BuildIndexer demo_input) (Get (BuildIndexer demo_input) 1 2) = Some 1"
  using indexer_get_owner [OF demo_indexable, of 1 2] by (simp add: demo_input_def si_default_def)

end
