(* ===== verification/GroupIndex.thy ===== *)
theory GroupIndex
  imports DecidePrelude
begin

text \<open>
  \<open>BuildGroupCSR\<close> of \<open>ilp_model_builder.cpp\<close>: from the group of each row (\<open>None\<close> for a row that
  WHEN or PER excludes) it builds, by a counting sort, the rows of each group as buckets of one
  flat vector. The result is the pair of offsets and flat rows; \<open>csr_bucket\<close> is the read its
  callers do, and \<open>group_rows\<close> the specification: the rows of a group in ascending order.
\<close>

section \<open>Operations\<close>

definition count_step :: "idx option list \<Rightarrow> idx \<Rightarrow> nat list \<Rightarrow> nat list" where
  "count_step ids r offsets =
     (case ids ! r of None \<Rightarrow> offsets | Some gid \<Rightarrow> offsets[gid + 1 := offsets ! (gid + 1) + 1])"

definition prefix_step :: "idx \<Rightarrow> nat list \<Rightarrow> nat list" where
  "prefix_step g offsets = offsets[g + 1 := offsets ! (g + 1) + offsets ! g]"

definition scatter_step :: "idx option list \<Rightarrow> idx \<Rightarrow> idx list \<times> nat list \<Rightarrow> idx list \<times> nat list" where
  "scatter_step ids r = (\<lambda>(flat_rows, cursor).
     case ids ! r of
       None \<Rightarrow> (flat_rows, cursor)
     | Some gid \<Rightarrow> (flat_rows[cursor ! gid := r], cursor[gid := cursor ! gid + 1]))"

definition BuildGroupCSR :: "idx option list \<Rightarrow> nat \<Rightarrow> nat list \<times> idx list \<Rightarrow> nat list \<times> idx list" where
  "BuildGroupCSR row_group_ids num_groups csr =
     (if row_group_ids = [] \<or> num_groups = 0 then ([], [])
      else if fst csr \<noteq> [] then csr
      else let rows = [0..<length row_group_ids];
               counts = fold (count_step row_group_ids) rows (replicate (num_groups + 1) 0);
               offsets = fold prefix_step [0..<num_groups] counts;
               (flat_rows, cursor) = fold (scatter_step row_group_ids) rows
                                       (replicate (offsets ! num_groups) 0, offsets)
           in (offsets, flat_rows))"

text \<open>The loop over a bucket that every caller writes.\<close>

definition csr_bucket :: "nat list \<times> idx list \<Rightarrow> idx \<Rightarrow> idx list" where
  "csr_bucket csr g = map (\<lambda>k. snd csr ! k) [fst csr ! g..<fst csr ! (g + 1)]"

section \<open>Specification\<close>

definition group_rows_upto :: "idx option list \<Rightarrow> nat \<Rightarrow> idx \<Rightarrow> idx list" where
  "group_rows_upto ids n g = filter (\<lambda>r. ids ! r = Some g) [0..<n]"

definition group_rows :: "idx option list \<Rightarrow> idx \<Rightarrow> idx list" where
  "group_rows ids g = group_rows_upto ids (length ids) g"

definition groups_ok :: "idx option list \<Rightarrow> nat \<Rightarrow> bool" where
  "groups_ok ids n \<longleftrightarrow> (\<forall>r < length ids. \<forall>g. ids ! r = Some g \<longrightarrow> g < n)"

abbreviation cnt :: "idx option list \<Rightarrow> nat \<Rightarrow> idx \<Rightarrow> nat" where
  "cnt ids k g \<equiv> length (group_rows_upto ids k g)"

lemma group_rows_upto_Suc [simp]:
  "group_rows_upto ids (Suc k) g =
     group_rows_upto ids k g @ (if ids ! k = Some g then [k] else [])"
  by (simp add: group_rows_upto_def)

lemma group_rows_upto_0 [simp]: "group_rows_upto ids 0 g = []"
  by (simp add: group_rows_upto_def)

lemma cnt_mono: "k \<le> m \<Longrightarrow> cnt ids k g \<le> cnt ids m g"
  by (induction rule: dec_induct) simp_all

lemma count_loop:
  assumes "groups_ok ids n" "k \<le> length ids"
  shows "fold (count_step ids) [0..<k] (replicate (n + 1) 0) = 0 # map (cnt ids k) [0..<n]"
  using assms(2)
proof (induction k)
  case 0
  then show ?case by (simp add: map_replicate_const)
next
  case (Suc k)
  show ?case
  proof (cases "ids ! k")
    case None
    with Suc show ?thesis by (simp add: count_step_def)
  next
    case (Some g)
    moreover have "k < length ids" using Suc.prems by simp
    ultimately have "g < n" using assms(1) by (auto simp: groups_ok_def)
    with Suc Some show ?thesis
      by (simp add: count_step_def) (rule nth_equalityI, auto simp: nth_list_update)
  qed
qed

text \<open>The offset of bucket \<open>j\<close>: the number of rows in the groups before it.\<close>

definition start :: "idx option list \<Rightarrow> nat \<Rightarrow> idx \<Rightarrow> nat" where
  "start ids k j = (\<Sum>g<j. cnt ids k g)"

lemma start_Suc: "start ids k (Suc j) = start ids k j + cnt ids k j"
  by (simp add: start_def)

lemma start_mono: "i \<le> j \<Longrightarrow> start ids k i \<le> start ids k j"
  by (induction rule: dec_induct) (simp_all add: start_Suc)

lemma prefix_loop:
  assumes "m \<le> n"
  shows "fold prefix_step [0..<m] (0 # map (cnt ids k) [0..<n]) =
     map (\<lambda>j. if j \<le> m then start ids k j else cnt ids k (j - 1)) [0..<n + 1]"
  using assms
proof (induction m)
  case 0
  show ?case
    by (rule nth_equalityI) (auto simp: start_def nth_Cons simp del: upt_Suc split: nat.splits)
next
  case (Suc m)
  let ?l = "map (\<lambda>j. if j \<le> m then start ids k j else cnt ids k (j - 1)) [0..<n + 1]"
  have at: "?l ! (m + 1) = cnt ids k m" "?l ! m = start ids k m" "length ?l = n + 1"
    using Suc.prems by (simp_all del: upt_Suc)
  have "fold prefix_step [0..<Suc m] (0 # map (cnt ids k) [0..<n]) = prefix_step m ?l"
    using Suc.IH Suc.prems by (simp del: upt_Suc add: upt_Suc_append)
  also have "\<dots> = ?l[m + 1 := start ids k (Suc m)]"
    unfolding prefix_step_def at(1,2) start_Suc by (simp only: add.commute)
  also have "\<dots> = map (\<lambda>j. if j \<le> Suc m then start ids k j else cnt ids k (j - 1)) [0..<n + 1]"
    using Suc.prems
    by (intro nth_equalityI) (auto simp: nth_list_update le_Suc_eq simp del: upt_Suc)
  finally show ?case .
qed

lemma offsets_eq:
  assumes "groups_ok ids n"
  shows "fold prefix_step [0..<n]
           (fold (count_step ids) [0..<length ids] (replicate (n + 1) 0)) =
         map (start ids (length ids)) [0..<n + 1]"
  using count_loop [OF assms order_refl] prefix_loop [OF order_refl, of n ids "length ids"]
  by simp

section \<open>The scatter pass\<close>

text \<open>
  After the rows below \<open>k\<close> are placed, the cursor of a group stands behind its rows so far, and
  these are the head of its bucket.
\<close>

definition placed :: "idx option list \<Rightarrow> nat \<Rightarrow> nat \<Rightarrow> idx list \<times> nat list \<Rightarrow> bool" where
  "placed ids n k = (\<lambda>(flat, cur).
     length flat = start ids (length ids) n \<and>
     cur = map (\<lambda>j. start ids (length ids) j + (if j < n then cnt ids k j else 0)) [0..<n + 1] \<and>
     (\<forall>g < n. \<forall>j < cnt ids k g. flat ! (start ids (length ids) g + j) = group_rows_upto ids k g ! j))"

lemma bucket_disjoint:
  assumes "g < n" "h < n" "g \<noteq> h" "i < cnt ids k g" "j < cnt ids k h"
  shows "start ids k g + i \<noteq> start ids k h + j"
proof -
  have "start ids k g + i < start ids k h + j" if "g < h"
    using that assms(4) start_mono [of "Suc g" h ids k] by (simp add: start_Suc)
  moreover have "start ids k h + j < start ids k g + i" if "h < g"
    using that assms(5) start_mono [of "Suc h" g ids k] by (simp add: start_Suc)
  ultimately show ?thesis using assms(3) by (cases g h rule: linorder_cases) auto
qed

lemma scatter_step_placed:
  assumes ok: "groups_ok ids n" and k: "k < length ids" and s: "placed ids n k s"
  shows "placed ids n (Suc k) (scatter_step ids k s)"
proof (cases "ids ! k")
  case None
  with s show ?thesis by (simp add: scatter_step_def placed_def split: prod.splits)
next
  case (Some g)
  obtain flat cur where s_eq: "s = (flat, cur)" by force
  let ?st = "start ids (length ids)"
  have g: "g < n" using ok k Some by (simp add: groups_ok_def)
  have room: "cnt ids k h + (if h = g then 1 else 0) \<le> cnt ids (length ids) h" for h
    using cnt_mono [of "Suc k" "length ids" ids h] k Some by (simp split: if_splits)
  have in_range: "?st g + cnt ids k g < ?st n"
    using room [of g] start_mono [of "Suc g" n ids "length ids"] g by (simp add: start_Suc)
  have vals: "flat ! (?st h + j) = group_rows_upto ids k h ! j" if "h < n" "j < cnt ids k h" for h j
    using s that by (simp add: s_eq placed_def)
  have len: "length flat = ?st n" using s by (simp add: s_eq placed_def)
  have cur_g: "cur ! g = ?st g + cnt ids k g"
    using s g by (simp add: s_eq placed_def del: upt_Suc)
  have other: "(flat[?st g + cnt ids k g := k]) ! (?st h + j) = flat ! (?st h + j)"
    if "h < n" "j < cnt ids k h" for h j
  proof (cases "h = g")
    case True
    with that show ?thesis by simp
  next
    case False
    have "?st h + j \<noteq> ?st g + cnt ids k g"
      using bucket_disjoint [OF that(1) g False, of j ids "length ids" "cnt ids k g"]
        that(2) room [of h] room [of g] by (auto split: if_splits)
    then show ?thesis by simp
  qed
  have "cur[g := cur ! g + 1] =
      map (\<lambda>j. ?st j + (if j < n then cnt ids (Suc k) j else 0)) [0..<n + 1]"
    using s g Some cur_g
    by (intro nth_equalityI) (auto simp: s_eq placed_def nth_list_update simp del: upt_Suc)
  moreover have "(flat[cur ! g := k]) ! (?st h + j) = group_rows_upto ids (Suc k) h ! j"
    if "h < n" "j < cnt ids (Suc k) h" for h j
  proof (cases "j < cnt ids k h")
    case True
    with that other vals show ?thesis by (simp add: cur_g nth_append)
  next
    case False
    with that Some have "h = g" "j = cnt ids k g" by (auto split: if_splits)
    with in_range Some show ?thesis by (simp add: cur_g len)
  qed
  ultimately show ?thesis
    using s Some by (simp add: s_eq placed_def scatter_step_def del: group_rows_upto_Suc upt_Suc)
qed

lemma scatter_loop:
  assumes ok: "groups_ok ids n" and "k \<le> length ids"
  shows "placed ids n k (fold (scatter_step ids) [0..<k]
    (replicate (start ids (length ids) n) 0, map (start ids (length ids)) [0..<n + 1]))"
  using assms(2)
proof (induction k)
  case 0
  show ?case by (simp add: placed_def)
next
  case (Suc k)
  then show ?case using scatter_step_placed [OF ok, of k] by simp
qed

lemma csr_bucket_eq:
  assumes ok: "groups_ok ids n" and "ids \<noteq> []" and g: "g < n"
  shows "csr_bucket (BuildGroupCSR ids n ([], [])) g = group_rows ids g"
proof -
  let ?st = "start ids (length ids)"
  obtain flat cur where run: "fold (scatter_step ids) [0..<length ids]
      (replicate (?st n) 0, map ?st [0..<n + 1]) = (flat, cur)" by force
  have "BuildGroupCSR ids n ([], []) = (map ?st [0..<n + 1], flat)"
    using assms offsets_eq [OF ok] run by (simp add: BuildGroupCSR_def Let_def del: upt_Suc)
  moreover have "placed ids n (length ids) (flat, cur)"
    using scatter_loop [OF ok order_refl] run by simp
  ultimately show ?thesis
    using g
    by (intro nth_equalityI)
       (auto simp: csr_bucket_def group_rows_def placed_def start_Suc simp del: upt_Suc)
qed

lemma group_rows_mem: "r \<in> set (group_rows ids g) \<longleftrightarrow> r < length ids \<and> ids ! r = Some g"
  by (auto simp: group_rows_def group_rows_upto_def)

lemma group_rows_sorted: "sorted (group_rows ids g) \<and> distinct (group_rows ids g)"
  by (simp add: group_rows_def group_rows_upto_def sorted_wrt_filter)

section \<open>Properties\<close>

text \<open>
  The buckets \<open>BuildGroupCSR\<close> builds: reading bucket \<open>g\<close> gives exactly the rows whose group is
  \<open>g\<close>, each once and in ascending row order, for every group, the empty ones included.
\<close>

theorem group_csr_buckets:
  assumes "groups_ok ids n" "ids \<noteq> []" "g < n"
  shows "csr_bucket (BuildGroupCSR ids n ([], [])) g = filter (\<lambda>r. ids ! r = Some g) [0..<length ids]"
  using csr_bucket_eq [OF assms] by (simp add: group_rows_def group_rows_upto_def)

lemma group_csr_buckets_witness:
  "csr_bucket (BuildGroupCSR [Some 1, None, Some 0, Some 1] 3 ([], [])) 1 = [0, 3]"
  using group_csr_buckets [of "[Some 1, None, Some 0, Some 1]" 3 1]
  by (simp add: groups_ok_def less_Suc_eq numeral_eq_Suc)

end
