(* ===== verification/CoeffAccumulator.thy ===== *)
theory CoeffAccumulator
  imports DecidePrelude "HOL-Library.Multiset"
begin

text \<open>
  \<open>SparseCoeffAccumulator\<close> (declared in \<open>decidb/formulation/ilp_model.hpp\<close>, implemented at the end
  of \<open>ilp_model_builder.cpp\<close>): the scratch storage in which the model builder gathers the
  coefficients of one row. It adds either into a dense vector with a list of touched cells or to a
  list of pairs that \<open>Flush\<close> sorts and merges; both strategies live in one struct and the builder
  picks one per constraint.

  The locale \<open>coeff_accumulator\<close> is the contract the builder relies on, interpreted on the struct's
  own operations: whatever the strategy, the flushed row has one entry per column with a non-zero
  total, and its value under an assignment is the sum of the contributions.

  \<open>std::sort\<close> orders pairs by column only; entries of one column are summed, so their order among
  each other does not matter and a stable sort stands for it.
\<close>

section \<open>State and operations\<close>

record SparseCoeffAccumulator =
  ac_dense :: "dbl list"
  ac_touched :: "idx list"
  ac_use_dense :: bool
  ac_pairs :: "(idx \<times> dbl) list"

definition acc_default :: SparseCoeffAccumulator where
  "acc_default = \<lparr>ac_dense = [], ac_touched = [], ac_use_dense = False, ac_pairs = []\<rparr>"

definition BeginDense :: "nat \<Rightarrow> SparseCoeffAccumulator \<Rightarrow> SparseCoeffAccumulator" where
  "BeginDense total_vars acc =
     acc\<lparr>ac_use_dense := True,
         ac_dense := (if length (ac_dense acc) < total_vars then replicate total_vars 0
                      else ac_dense acc),
         ac_touched := [], ac_pairs := []\<rparr>"

definition BeginSparse :: "SparseCoeffAccumulator \<Rightarrow> SparseCoeffAccumulator" where
  "BeginSparse acc = acc\<lparr>ac_use_dense := False, ac_pairs := [], ac_touched := []\<rparr>"

definition AddCoeff :: "idx \<Rightarrow> dbl \<Rightarrow> SparseCoeffAccumulator \<Rightarrow> SparseCoeffAccumulator" where
  "AddCoeff i coeff acc =
     (if ac_use_dense acc then
        acc\<lparr>ac_touched := (if ac_dense acc ! i = 0 then ac_touched acc @ [i] else ac_touched acc),
            ac_dense := (ac_dense acc)[i := ac_dense acc ! i + coeff]\<rparr>
      else acc\<lparr>ac_pairs := ac_pairs acc @ [(i, coeff)]\<rparr>)"

text \<open>The drain of the touched cells; the two lists are what it emits.\<close>

primrec drain_dense :: "idx list \<Rightarrow> dbl list \<Rightarrow> (idx \<times> dbl) list \<times> dbl list" where
  "drain_dense [] dense = ([], dense)"
| "drain_dense (i # is) dense =
     (let v = dense ! i; (out, dense') = drain_dense is (dense[i := 0])
      in (if v \<noteq> 0 then (i, v) # out else out, dense'))"

text \<open>
  The merge loop over the sorted pairs: the sum of the leading run of one column is emitted when
  it is not zero, then the walk goes on behind the run.
\<close>

function merge_runs :: "(idx \<times> dbl) list \<Rightarrow> (idx \<times> dbl) list" where
  "merge_runs [] = []"
| "merge_runs ((i, c) # ps) =
     (let run = takeWhile (\<lambda>p. fst p = i) ps; rest = dropWhile (\<lambda>p. fst p = i) ps;
          total = c + sum_list (map snd run)
      in (if total \<noteq> 0 then [(i, total)] else []) @ merge_runs rest)"
  by pat_completeness auto
termination
  by (relation "measure length") (auto simp: le_imp_less_Suc length_dropWhile_le)

definition Flush :: "SparseCoeffAccumulator \<Rightarrow> idx list \<Rightarrow> dbl list \<Rightarrow>
    SparseCoeffAccumulator \<times> idx list \<times> dbl list" where
  "Flush acc out_indices out_coefficients =
     (if ac_use_dense acc then
        (let (out, dense) = drain_dense (ac_touched acc) (ac_dense acc)
         in (acc\<lparr>ac_dense := dense, ac_touched := []\<rparr>,
             out_indices @ map fst out, out_coefficients @ map snd out))
      else
        (let out = merge_runs (sort_key fst (ac_pairs acc))
         in (acc\<lparr>ac_pairs := []\<rparr>,
             out_indices @ map fst out, out_coefficients @ map snd out)))"

section \<open>The contract\<close>

text \<open>
  \<open>contents a i\<close> is the total gathered for column \<open>i\<close>; \<open>drained\<close> the row a flush emits, \<open>reset\<close>
  the accumulator it leaves.
\<close>

locale coeff_accumulator =
  fixes add :: "idx \<Rightarrow> dbl \<Rightarrow> 'a \<Rightarrow> 'a"
    and drained :: "'a \<Rightarrow> (idx \<times> dbl) list"
    and reset :: "'a \<Rightarrow> 'a"
    and contents :: "'a \<Rightarrow> idx \<Rightarrow> dbl"
    and valid :: "'a \<Rightarrow> idx \<Rightarrow> bool"
    and inv :: "'a \<Rightarrow> bool"
  assumes add_inv: "inv a \<Longrightarrow> valid a i \<Longrightarrow> inv (add i c a)"
    and add_valid: "valid (add i c a) j = valid a j"
    and add_contents: "inv a \<Longrightarrow> valid a i \<Longrightarrow>
          contents (add i c a) j = (if j = i then contents a j + c else contents a j)"
    and drained_distinct: "inv a \<Longrightarrow> distinct (map fst (drained a))"
    and drained_set: "inv a \<Longrightarrow> (i, c) \<in> set (drained a) \<longleftrightarrow> c = contents a i \<and> c \<noteq> 0"
    and reset_inv: "inv a \<Longrightarrow> inv (reset a)"
    and reset_valid: "valid (reset a) j = valid a j"
    and reset_contents: "inv a \<Longrightarrow> contents (reset a) j = 0"
begin

abbreviation adds :: "(idx \<times> dbl) list \<Rightarrow> 'a \<Rightarrow> 'a" where
  "adds xs \<equiv> fold (\<lambda>(i, c). add i c) xs"

lemma adds_inv:
  "inv a \<Longrightarrow> \<forall>(i, c) \<in> set xs. valid a i \<Longrightarrow> inv (adds xs a) \<and> valid (adds xs a) = valid a"
  by (induction xs arbitrary: a) (auto simp: add_inv add_valid fun_eq_iff)

lemma adds_contents:
  "inv a \<Longrightarrow> \<forall>(i, c) \<in> set xs. valid a i \<Longrightarrow>
     contents (adds xs a) j = contents a j + (\<Sum>(i, c)\<leftarrow>xs. if i = j then c else 0)"
  by (induction xs arbitrary: a) (auto simp: add_inv add_valid add_contents ac_simps)

lemma drained_contents: "inv a \<Longrightarrow> (\<Sum>(i, c)\<leftarrow>drained a. if i = j then c else 0) = contents a j"
proof -
  assume inv: "inv a"
  have drop: "(\<Sum>(i, c)\<leftarrow>ps. if i = j then c else 0) = (0 :: dbl)"
    if "j \<notin> fst ` set ps" for ps
    using that by (induction ps) auto
  have pick: "(\<Sum>(i, c)\<leftarrow>ps. if i = j then c else 0) = d"
    if "distinct (map fst ps)" "(j, d) \<in> set ps" for ps and d :: dbl
    using that
  proof (induction ps)
    case (Cons p ps)
    show ?case
    proof (cases "p = (j, d)")
      case True
      with Cons.prems drop [of ps] show ?thesis by simp
    next
      case False
      with Cons.prems have mem: "(j, d) \<in> set ps" by simp
      then have "j \<in> fst ` set ps" by (rule rev_image_eqI) simp
      then have "fst p \<noteq> j" using Cons.prems(1) by auto
      with Cons.IH [OF _ mem] Cons.prems(1) show ?thesis by (cases p) simp
    qed
  qed simp
  show ?thesis
  proof (cases "contents a j = 0")
    case True
    then have "j \<notin> fst ` set (drained a)" using drained_set [OF inv] by force
    with True drop show ?thesis by simp
  next
    case False
    then have "(j, contents a j) \<in> set (drained a)" using drained_set [OF inv] by simp
    with pick drained_distinct [OF inv] show ?thesis by blast
  qed
qed

lemma drained_from:
  assumes "inv a" "\<And>j. contents a j = 0" "\<forall>(i, c) \<in> set xs. valid a i \<and> isfinite c"
    and "(i, c) \<in> set (drained (adds xs a))"
  shows "i \<in> fst ` set xs \<and> isfinite c"
proof -
  have valid: "\<forall>(i, c) \<in> set xs. valid a i" using assms(3) by auto
  have "inv (adds xs a)" using adds_inv [OF assms(1) valid] by simp
  then have c: "c = contents (adds xs a) i" "c \<noteq> 0" using assms(4) drained_set by auto
  have total: "contents (adds xs a) i = (\<Sum>(k, c)\<leftarrow>xs. if k = i then c else 0)"
    using adds_contents [OF assms(1) valid] assms(2) by (simp add: case_prod_unfold)
  have "(\<Sum>(k, c)\<leftarrow>ys. if k = i then c else 0) = (0 :: dbl)" if "i \<notin> fst ` set ys" for ys :: "(idx \<times> dbl) list"
    using that by (induction ys) auto
  then have "i \<in> fst ` set xs" using c total by metis
  moreover have "isfinite (\<Sum>(k, c)\<leftarrow>ys. if k = i then c else 0)"
    if "\<forall>(k, c) \<in> set ys. isfinite c" for ys :: "(idx \<times> dbl) list"
    using that by (induction ys) (auto simp: fin_intro)
  then have "isfinite c" using assms(3) c(1) total by fastforce
  ultimately show ?thesis by simp
qed

text \<open>Two lists of contributions with the same total per column give a row of the same value.\<close>

lemma regroup:
  fixes ps qs :: "(idx \<times> dbl) list"
  assumes fin: "\<forall>(i, c) \<in> set ps. isfinite c" "\<forall>(i, c) \<in> set qs. isfinite c"
    and same: "\<And>j. (\<Sum>(i, c)\<leftarrow>ps. if i = j then c else 0) = (\<Sum>(i, c)\<leftarrow>qs. if i = j then c else 0)"
  shows "(\<Sum>(i, c)\<leftarrow>ps. c * Fin (x i)) = (\<Sum>(i, c)\<leftarrow>qs. c * Fin (x i))"
proof -
  define J where "J = fst ` set ps \<union> fst ` set qs"
  have J: "finite J" by (simp add: J_def)
  have real: "(\<Sum>(i, c)\<leftarrow>zs. c * Fin (x i)) =
      Fin (\<Sum>j\<in>J. rval (\<Sum>(i, c)\<leftarrow>zs. if i = j then c else 0) * x j)"
    if "\<forall>(i, c) \<in> set zs. isfinite c" "fst ` set zs \<subseteq> J" for zs :: "(idx \<times> dbl) list"
    using that
  proof (induction zs)
    case Nil
    then show ?case by (simp add: zero_dbl_def)
  next
    case (Cons z zs)
    obtain i c where z: "z = (i, c)" by (cases z)
    then obtain r where r: "c = Fin r" using Cons.prems(1) by (auto elim: isfiniteE)
    have iJ: "i \<in> J" using Cons.prems(2) z by simp
    have fin: "isfinite (\<Sum>(i, c)\<leftarrow>zs. if i = j then c else 0)" for j
      using Cons.prems(1) by (induction zs) (auto simp: fin_intro)
    have "(\<Sum>j\<in>J. rval (\<Sum>(i, c)\<leftarrow>z # zs. if i = j then c else 0) * x j) =
        (\<Sum>j\<in>J. (if j = i then r * x i else 0) + rval (\<Sum>(i, c)\<leftarrow>zs. if i = j then c else 0) * x j)"
      using fin by (intro sum.cong) (auto simp: z r rval_plus algebra_simps)
    also have "\<dots> = r * x i + (\<Sum>j\<in>J. rval (\<Sum>(i, c)\<leftarrow>zs. if i = j then c else 0) * x j)"
      using J iJ by (simp add: sum.distrib)
    finally show ?case using Cons by (simp add: z r)
  qed
  show ?thesis using real [OF fin(1)] real [OF fin(2)] same by (simp add: J_def)
qed

text \<open>From an empty accumulator: the flushed row's value is the sum of the contributions.\<close>

theorem adds_value:
  assumes "inv a" "\<And>j. contents a j = 0" "\<forall>(i, c) \<in> set xs. valid a i \<and> isfinite c"
  shows "lin_val (map fst (drained (adds xs a))) (map snd (drained (adds xs a))) x =
     (\<Sum>(i, c)\<leftarrow>xs. c * Fin (x i))"
proof -
  have inv: "inv (adds xs a)" using assms(1,3) adds_inv [of a xs] by fast
  have total: "contents (adds xs a) j = (\<Sum>(i, c)\<leftarrow>xs. if i = j then c else 0)" for j
    using adds_contents [of a xs j] assms by (auto simp: case_prod_unfold)
  have fin: "isfinite (\<Sum>(i, c)\<leftarrow>xs. if i = j then c else 0)" for j
    using assms(3) by (induction xs) (auto simp: fin_intro)
  have "zip (map fst ps) (map snd ps) = ps" for ps :: "(idx \<times> dbl) list"
    by (rule zip_map_fst_snd)
  then have "lin_val (map fst (drained (adds xs a))) (map snd (drained (adds xs a))) x =
      (\<Sum>(i, c)\<leftarrow>drained (adds xs a). c * Fin (x i))"
    by (simp add: lin_val_def)
  also have "\<dots> = (\<Sum>(i, c)\<leftarrow>xs. c * Fin (x i))"
  proof (rule regroup)
    show "\<forall>(i, c) \<in> set (drained (adds xs a)). isfinite c"
      using drained_set [OF inv] total fin by auto
    show "\<forall>(i, c) \<in> set xs. isfinite c" using assms(3) by auto
    show "(\<Sum>(i, c)\<leftarrow>drained (adds xs a). if i = j then c else 0) =
        (\<Sum>(i, c)\<leftarrow>xs. if i = j then c else 0)" for j
      using drained_contents [OF inv] total by simp
  qed
  finally show ?thesis .
qed

end

section \<open>The struct keeps it\<close>

definition acc_contents :: "SparseCoeffAccumulator \<Rightarrow> idx \<Rightarrow> dbl" where
  "acc_contents acc i =
     (if ac_use_dense acc then (if i < length (ac_dense acc) then ac_dense acc ! i else 0)
      else (\<Sum>(j, c)\<leftarrow>ac_pairs acc. if j = i then c else 0))"

definition acc_valid :: "SparseCoeffAccumulator \<Rightarrow> idx \<Rightarrow> bool" where
  "acc_valid acc i \<longleftrightarrow> (ac_use_dense acc \<longrightarrow> i < length (ac_dense acc))"

text \<open>
  Every non-zero cell is touched, and outside dense mode every cell is zero: that is what lets
  \<open>BeginDense\<close> skip the full reset.
\<close>

definition acc_inv :: "SparseCoeffAccumulator \<Rightarrow> bool" where
  "acc_inv acc \<longleftrightarrow>
     (if ac_use_dense acc
      then (\<forall>i < length (ac_dense acc). ac_dense acc ! i \<noteq> 0 \<longrightarrow> i \<in> set (ac_touched acc)) \<and>
           (\<forall>i \<in> set (ac_touched acc). i < length (ac_dense acc))
      else (\<forall>i < length (ac_dense acc). ac_dense acc ! i = 0))"

lemma drain_dense_spec:
  assumes "drain_dense ts dense = (out, dense')" "\<forall>i \<in> set ts. i < length dense"
  shows "length dense' = length dense \<and>
    (\<forall>i < length dense. dense' ! i = (if i \<in> set ts then 0 else dense ! i)) \<and>
    distinct (map fst out) \<and>
    (\<forall>i c. (i, c) \<in> set out \<longleftrightarrow> i \<in> set ts \<and> c = dense ! i \<and> c \<noteq> 0)"
  using assms
proof (induction ts arbitrary: dense out dense')
  case (Cons t ts)
  obtain out1 where step: "drain_dense ts (dense[t := 0]) = (out1, dense')"
    and out: "out = (if dense ! t \<noteq> 0 then (t, dense ! t) # out1 else out1)"
    using Cons.prems(1) by (auto simp: Let_def split: prod.splits if_splits)
  have lt: "t < length dense" "\<forall>i \<in> set ts. i < length (dense[t := 0])" using Cons.prems(2) by auto
  note IH = Cons.IH [OF step lt(2)]
  have "t \<notin> fst ` set out1" using IH lt by force
  with IH out lt show ?case by (auto simp: nth_list_update)
qed auto

lemma merge_runs_keys: "fst ` set (merge_runs ps) \<subseteq> fst ` set ps"
proof (induction ps rule: merge_runs.induct)
  case (2 i c ps)
  have "fst ` set (merge_runs (dropWhile (\<lambda>p. fst p = i) ps)) \<subseteq>
      fst ` set (dropWhile (\<lambda>p. fst p = i) ps)"
    by (rule 2) simp_all
  also have "\<dots> \<subseteq> fst ` set ps" by (auto dest: set_dropWhileD)
  finally show ?case by (auto simp: Let_def)
qed simp

text \<open>Behind the leading run of a sorted list every column is larger.\<close>

lemma sorted_rest:
  "sorted (map fst ((i, c) # ps)) \<Longrightarrow> p \<in> set (dropWhile (\<lambda>p. fst p = i) ps) \<Longrightarrow> i < fst p"
  by (induction ps) (auto split: if_splits simp: le_neq_implies_less)

lemma run_total:
  "(\<Sum>(j, d)\<leftarrow>takeWhile (\<lambda>p. fst p = i) ps. if j = k then d else 0) =
     (if k = i then sum_list (map snd (takeWhile (\<lambda>p. fst p = i) ps)) else (0 :: dbl))"
  by (induction ps) auto

lemma merge_runs_spec:
  assumes "sorted (map fst ps)"
  shows "distinct (map fst (merge_runs ps)) \<and>
    (\<forall>i c. (i, c) \<in> set (merge_runs ps) \<longleftrightarrow>
       c = (\<Sum>(j, d)\<leftarrow>ps. if j = i then d else 0) \<and> c \<noteq> 0)"
  using assms
proof (induction ps rule: merge_runs.induct)
  case (2 i c ps)
  define run where "run = takeWhile (\<lambda>p. fst p = i) ps"
  define rest where "rest = dropWhile (\<lambda>p. fst p = i) ps"
  define total where "total = c + sum_list (map snd run)"
  have ps: "ps = run @ rest" by (simp add: run_def rest_def)
  have larger: "\<forall>p \<in> set rest. i < fst p" using sorted_rest [OF 2(2)] by (simp add: rest_def)
  have sorted: "sorted (map fst rest)"
    using 2(2) by (simp add: ps sorted_append)
  have IH: "distinct (map fst (merge_runs rest))"
    "\<And>k d. (k, d) \<in> set (merge_runs rest) \<longleftrightarrow> d = (\<Sum>(j, d)\<leftarrow>rest. if j = k then d else 0) \<and> d \<noteq> 0"
    using 2(1) [OF run_def rest_def total_def] sorted by blast+
  have keys: "i \<notin> fst ` set (merge_runs rest)" using merge_runs_keys [of rest] larger by force
  have none: "(\<Sum>(j, d)\<leftarrow>rest. if j = i then d else 0) = (0 :: dbl)"
    using larger by (induction rest) auto
  note run_sum = run_total [where i = i and ps = ps, folded run_def]
  have split: "(\<Sum>(j, d)\<leftarrow>(i, c) # ps. if j = k then d else 0) =
      (if k = i then total else (\<Sum>(j, d)\<leftarrow>rest. if j = k then d else 0))" for k
    using none by (simp add: ps total_def run_sum ac_simps)
  have unfold: "merge_runs ((i, c) # ps) = (if total \<noteq> 0 then [(i, total)] else []) @ merge_runs rest"
    by (simp add: total_def run_def rest_def Let_def)
  show ?case
    unfolding unfold split using IH keys none by (auto simp: rev_image_eqI)
qed simp

lemma sort_total:
  fixes ps :: "(idx \<times> dbl) list"
  shows "(\<Sum>p\<leftarrow>sort_key fst ps. f p) = (\<Sum>p\<leftarrow>ps. (f p :: dbl))"
  by (metis mset_map mset_sort sum_mset_sum_list)

definition acc_drained :: "SparseCoeffAccumulator \<Rightarrow> (idx \<times> dbl) list" where
  "acc_drained acc =
     (if ac_use_dense acc then fst (drain_dense (ac_touched acc) (ac_dense acc))
      else merge_runs (sort_key fst (ac_pairs acc)))"

definition acc_reset :: "SparseCoeffAccumulator \<Rightarrow> SparseCoeffAccumulator" where
  "acc_reset acc = fst (Flush acc [] [])"

lemma Flush_eq:
  "Flush acc is cs =
     (acc_reset acc, is @ map fst (acc_drained acc), cs @ map snd (acc_drained acc))"
  by (simp add: Flush_def acc_reset_def acc_drained_def Let_def split: prod.splits)

lemma drain_acc:
  assumes "acc_inv acc" "ac_use_dense acc"
  obtains out dense' where "drain_dense (ac_touched acc) (ac_dense acc) = (out, dense')"
    "length dense' = length (ac_dense acc)" "\<forall>i < length dense'. dense' ! i = 0"
    "distinct (map fst out)"
    "\<forall>i c. (i, c) \<in> set out \<longleftrightarrow> c = acc_contents acc i \<and> c \<noteq> 0"
proof -
  obtain out dense' where eq: "drain_dense (ac_touched acc) (ac_dense acc) = (out, dense')" by force
  have lt: "\<forall>i \<in> set (ac_touched acc). i < length (ac_dense acc)" using assms by (simp add: acc_inv_def)
  note spec = drain_dense_spec [OF eq lt]
  show ?thesis
  proof (rule that [OF eq])
    show "\<forall>i < length dense'. dense' ! i = 0"
      using spec assms by (auto simp: acc_inv_def)
    show "\<forall>i c. (i, c) \<in> set out \<longleftrightarrow> c = acc_contents acc i \<and> c \<noteq> 0"
      using spec assms by (auto simp: acc_inv_def acc_contents_def)
  qed (use spec in simp_all)
qed

lemma drain_dense_length: "drain_dense ts dense = (out, dense') \<Longrightarrow> length dense' = length dense"
  by (induction ts arbitrary: dense out dense') (auto simp: Let_def split: prod.splits if_splits)

lemma AddCoeff_fields [simp]:
  "ac_use_dense (AddCoeff i c a) = ac_use_dense a"
  "length (ac_dense (AddCoeff i c a)) = length (ac_dense a)"
  by (simp_all add: AddCoeff_def)

lemma acc_inv_Add:
  assumes "acc_inv a" "acc_valid a i"
  shows "acc_inv (AddCoeff i c a)"
proof (cases "ac_use_dense a")
  case True
  then have "i < length (ac_dense a)" using assms(2) by (simp add: acc_valid_def)
  moreover have "set (ac_touched (AddCoeff i c a)) =
      (if ac_dense a ! i = 0 then insert i (set (ac_touched a)) else set (ac_touched a))"
    "ac_dense (AddCoeff i c a) = (ac_dense a)[i := ac_dense a ! i + c]"
    using True by (simp_all add: AddCoeff_def)
  ultimately show ?thesis
    using assms(1) True by (simp add: acc_inv_def nth_list_update)
next
  case False
  with assms(1) show ?thesis by (simp add: acc_inv_def) (simp add: AddCoeff_def)
qed

lemma acc_contents_Add:
  assumes "acc_inv a" "acc_valid a i"
  shows "acc_contents (AddCoeff i c a) j = (if j = i then acc_contents a j + c else acc_contents a j)"
proof (cases "ac_use_dense a")
  case True
  with assms(2) show ?thesis
    by (simp add: acc_contents_def acc_valid_def) (simp add: AddCoeff_def nth_list_update)
next
  case False
  then show ?thesis
    by (simp add: acc_contents_def) (simp add: AddCoeff_def)
qed

lemma acc_drained_spec:
  assumes "acc_inv a"
  shows "distinct (map fst (acc_drained a)) \<and>
    (\<forall>i c. (i, c) \<in> set (acc_drained a) \<longleftrightarrow> c = acc_contents a i \<and> c \<noteq> 0)"
proof (cases "ac_use_dense a")
  case True
  show ?thesis
    by (rule drain_acc [OF assms True]) (simp add: acc_drained_def True)
next
  case False
  with merge_runs_spec [of "sort_key fst (ac_pairs a)"] show ?thesis
    by (simp add: acc_drained_def acc_contents_def sort_total)
qed

lemma acc_reset_spec:
  assumes "acc_inv a"
  shows "acc_inv (acc_reset a) \<and> acc_contents (acc_reset a) j = 0"
proof (cases "ac_use_dense a")
  case True
  show ?thesis
    by (rule drain_acc [OF assms True])
       (simp add: acc_reset_def Flush_def acc_inv_def acc_contents_def True)
next
  case False
  with assms show ?thesis
    by (simp add: acc_reset_def Flush_def acc_inv_def acc_contents_def Let_def)
qed

lemma acc_valid_reset: "acc_valid (acc_reset a) j = acc_valid a j"
proof (cases "ac_use_dense a")
  case True
  obtain out dense' where "drain_dense (ac_touched a) (ac_dense a) = (out, dense')" by force
  with True drain_dense_length [OF this] show ?thesis
    by (simp add: acc_valid_def acc_reset_def Flush_def)
qed (simp add: acc_valid_def acc_reset_def Flush_def Let_def)

interpretation acc: coeff_accumulator AddCoeff acc_drained acc_reset acc_contents acc_valid acc_inv
  by unfold_locales
     (simp_all add: acc_inv_Add acc_contents_Add acc_drained_spec acc_reset_spec acc_valid_reset,
      simp add: acc_valid_def AddCoeff_def)

section \<open>Starting a row\<close>

lemma dense_zero:
  assumes "acc_inv acc" "\<And>j. acc_contents acc j = 0"
  shows "\<forall>i < length (ac_dense acc). ac_dense acc ! i = 0"
proof (intro allI impI)
  fix i
  assume "i < length (ac_dense acc)"
  with assms(1) assms(2) [of i] show "ac_dense acc ! i = 0"
    by (simp add: acc_inv_def acc_contents_def split: if_splits)
qed

lemma BeginDense_ready:
  assumes "acc_inv acc" "\<And>j. acc_contents acc j = 0"
  shows "acc_inv (BeginDense n acc)" "acc_contents (BeginDense n acc) j = 0"
    "j < n \<Longrightarrow> acc_valid (BeginDense n acc) j"
proof -
  from dense_zero [OF assms] show "acc_inv (BeginDense n acc)" "acc_contents (BeginDense n acc) j = 0"
    by (simp_all add: acc_inv_def acc_contents_def BeginDense_def)
  show "j < n \<Longrightarrow> acc_valid (BeginDense n acc) j"
    by (simp add: acc_valid_def BeginDense_def)
qed

lemma BeginSparse_ready:
  assumes "acc_inv acc" "\<And>j. acc_contents acc j = 0"
  shows "acc_inv (BeginSparse acc)" "acc_contents (BeginSparse acc) j = 0"
    "acc_valid (BeginSparse acc) j"
proof -
  from dense_zero [OF assms] show "acc_inv (BeginSparse acc)" "acc_contents (BeginSparse acc) j = 0"
    "acc_valid (BeginSparse acc) j"
    by (simp_all add: acc_inv_def acc_contents_def BeginSparse_def acc_valid_def)
qed

lemma acc_default_ready: "acc_inv acc_default" "acc_contents acc_default j = 0"
  by (simp_all add: acc_inv_def acc_contents_def acc_default_def)

lemma flush_row:
  assumes "acc_inv acc" "\<And>j. acc_contents acc j = 0"
    and "\<forall>(i, c) \<in> set xs. acc_valid acc i \<and> isfinite c"
    and "Flush (fold (\<lambda>(i, c). AddCoeff i c) xs acc) [] [] = (acc', is, cs)"
  shows "distinct is \<and> 0 \<notin> set cs \<and> lin_val is cs x = (\<Sum>(i, c)\<leftarrow>xs. c * Fin (x i)) \<and>
         acc_inv acc' \<and> acc_contents acc' j = 0 \<and> acc_valid acc' = acc_valid acc \<and>
         length is = length cs \<and> set is \<subseteq> fst ` set xs \<and> list_all isfinite cs"
proof -
  let ?a = "fold (\<lambda>(i, c). AddCoeff i c) xs acc"
  have inv: "acc_inv ?a" using acc.adds_inv [of acc xs] assms(1,3) by fast
  have eqs: "acc' = acc_reset ?a" "is = map fst (acc_drained ?a)" "cs = map snd (acc_drained ?a)"
    using assms(4) by (simp_all add: Flush_eq)
  have valid: "acc_valid acc' = acc_valid acc"
    using acc.adds_inv [of acc xs] assms(1,3) by (fastforce simp: eqs acc.reset_valid fun_eq_iff)
  have "i \<in> fst ` set xs \<and> isfinite c" if "(i, c) \<in> set (acc_drained ?a)" for i c
    using acc.drained_from [OF assms(1-3) that] .
  then have "set is \<subseteq> fst ` set xs" "list_all isfinite cs"
    by (auto simp: eqs list_all_iff)
  then show ?thesis
    using valid acc.adds_value [OF assms(1-3), of x] acc.drained_distinct [OF inv]
      acc.drained_set [OF inv] acc.reset_inv [OF inv] acc.reset_contents [OF inv]
    by (auto simp: eqs)
qed

section \<open>Properties\<close>

text \<open>
  Whatever the strategy, a row gathered from an empty accumulator and flushed names each column
  at most once, holds no zero coefficient, and has the value of the sum of its contributions; the
  accumulator is empty again afterwards.
\<close>

theorem accumulate_flush:
  assumes "acc_inv acc" "\<And>j. acc_contents acc j = 0"
    and "\<forall>(i, c) \<in> set xs. acc_valid acc i \<and> isfinite c"
    and "Flush (fold (\<lambda>(i, c). AddCoeff i c) xs acc) [] [] = (acc', is, cs)"
  shows "distinct is \<and> 0 \<notin> set cs \<and> lin_val is cs x = (\<Sum>(i, c)\<leftarrow>xs. c * Fin (x i)) \<and>
         acc_inv acc' \<and> acc_contents acc' j = 0"
  using flush_row [OF assms, of x j] by simp

lemma accumulate_flush_witness:
  "0 \<notin> set (snd (snd (Flush (fold (\<lambda>(i, c). AddCoeff i c) [(2, Fin 1), (0, Fin 3), (2, Fin (- 1))]
     (BeginSparse acc_default)) [] [])))"
  using accumulate_flush [OF BeginSparse_ready(1,2) [OF acc_default_ready],
      of "[(2, Fin 1), (0, Fin 3), (2, Fin (- 1))]"]
  by (auto simp: BeginSparse_ready [OF acc_default_ready] split: prod.splits) (metis prod.collapse)

end
