(* ===== verification/Meaning.thy ===== *)
theory Meaning
  imports VarIndexing GroupIndex
begin

text \<open>
  What an evaluated constraint asks of the decision variables, stated independently of any
  formulation: \<open>X v r\<close> is the value variable \<open>v\<close> has at row \<open>r\<close>. A constraint without an aggregate
  asks its comparison of every active row; an aggregate one asks it of the total over all rows, or
  over the rows of each non-empty group. In a total a query-wide variable beside the reducer counts
  once, one inside the reducer once per row, and a decision-free term is summed.

  \<open>at_flat\<close> reads such an \<open>X\<close> off a flat assignment. The last section is the contract on grouped
  right-hand sides that the model builder asserts in debug builds.
\<close>

section \<open>Linear constraints\<close>

definition counted_once :: "SolverInput \<Rightarrow> EvaluatedConstraint \<Rightarrow> nat \<Rightarrow> idx \<Rightarrow> bool" where
  "counted_once input ec t v \<longleftrightarrow> scope_of input v = SCALAR \<and>
     \<not> (t < length (ec_linear_term_reductions ec) \<and> ec_linear_term_reductions ec ! t = RED_SUM)"

definition agg_term :: "SolverInput \<Rightarrow> EvaluatedConstraint \<Rightarrow> (idx \<Rightarrow> idx \<Rightarrow> real) \<Rightarrow> idx list \<Rightarrow> nat \<Rightarrow> dbl" where
  "agg_term input ec X rows t =
     (let col = ec_row_coefficients ec ! t
      in case ec_variable_indices ec ! t of
           None \<Rightarrow> (\<Sum>r\<leftarrow>rows. cc_get col r)
         | Some v \<Rightarrow>
             if counted_once input ec t v
             then (if logical_size col > 0 then cc_get col (hd rows) else 1) * Fin (X v (hd rows))
             else (\<Sum>r\<leftarrow>rows. cc_get col r * Fin (X v r)))"

definition agg_lhs :: "SolverInput \<Rightarrow> EvaluatedConstraint \<Rightarrow> (idx \<Rightarrow> idx \<Rightarrow> real) \<Rightarrow> idx list \<Rightarrow> dbl" where
  "agg_lhs input ec X rows =
     (\<Sum>t\<leftarrow>[0..<length (ec_variable_indices ec)]. agg_term input ec X rows t)"

text \<open>The row sets an aggregate is imposed on: all rows, or the non-empty groups.\<close>

definition agg_row_sets :: "EvaluatedConstraint \<Rightarrow> nat \<Rightarrow> idx list list" where
  "agg_row_sets ec n =
     (if ec_row_group_ids ec = [] then [[0..<n]]
      else filter (\<lambda>rows. rows \<noteq> []) (map (group_rows (ec_row_group_ids ec)) [0..<ec_num_groups ec]))"

definition sat_agg :: "SolverInput \<Rightarrow> EvaluatedConstraint \<Rightarrow> (idx \<Rightarrow> idx \<Rightarrow> real) \<Rightarrow> idx list \<Rightarrow> bool" where
  "sat_agg input ec X rows \<longleftrightarrow>
     sat_cmp (ec_comparison_type ec) (agg_lhs input ec X rows)
       (cc_get (ec_rhs_values ec) (if ec_row_group_ids ec = [] then 0 else hd rows))"

definition sat_linear :: "SolverInput \<Rightarrow> EvaluatedConstraint \<Rightarrow> (idx \<Rightarrow> idx \<Rightarrow> real) \<Rightarrow> bool" where
  "sat_linear input ec X \<longleftrightarrow>
     (if ec_lhs_is_aggregate ec
      then (\<forall>rows \<in> set (agg_row_sets ec (si_num_rows input)). sat_agg input ec X rows)
      else (\<forall>r < si_num_rows input. row_active ec r \<longrightarrow> sat_row ec X r))"

definition at_flat :: "SolverInput \<Rightarrow> (idx \<Rightarrow> real) \<Rightarrow> idx \<Rightarrow> idx \<Rightarrow> real" where
  "at_flat input x v r = x (Get (BuildIndexer input) v r)"

text \<open>\<open>X\<close> gives a query-wide variable one value.\<close>

definition coherent :: "SolverInput \<Rightarrow> (idx \<Rightarrow> idx \<Rightarrow> real) \<Rightarrow> bool" where
  "coherent input X \<longleftrightarrow>
     (\<forall>v < si_num_decide_vars input. scope_of input v = SCALAR \<longrightarrow> (\<forall>r s. X v r = X v s))"

lemma at_flat_coherent: "coherent input (at_flat input x)"
  by (auto simp: coherent_def at_flat_def Get_instance_of instance_of_def)

section \<open>The fixed part of an aggregate\<close>

text \<open>
  \<open>SumFixedAggregateLhsOffset\<close>: the decision-free terms summed over a row set. Every such term must
  be owned by a SUM reducer; the context names the caller in the exception.
\<close>

definition fixed_offset_term :: "EvaluatedConstraint \<Rightarrow> idx list \<Rightarrow> string \<Rightarrow> nat \<Rightarrow> dbl \<Rightarrow> dbl res" where
  "fixed_offset_term ec rows context t offset =
     (if ec_variable_indices ec ! t \<noteq> None then Inr offset
      else if t \<ge> length (ec_linear_term_reductions ec) \<or> ec_linear_term_reductions ec ! t \<noteq> RED_SUM
      then Inl (InternalError context)
      else Inr (fold (\<lambda>row offset. offset + cc_get (ec_row_coefficients ec ! t) row) rows offset))"

definition SumFixedAggregateLhsOffset :: "EvaluatedConstraint \<Rightarrow> idx list \<Rightarrow> string \<Rightarrow> dbl res" where
  "SumFixedAggregateLhsOffset ec rows context =
     fold_res (fixed_offset_term ec rows context) [0..<length (ec_variable_indices ec)] 0"

lemma fold_plus: "fold (\<lambda>x a. a + f x) xs a = a + (\<Sum>x\<leftarrow>xs. f x)" for a :: dbl
  by (induction xs arbitrary: a) (simp_all add: ac_simps)

lemma fixed_offset_fold:
  assumes "fold_res (fixed_offset_term ec rows context) ts a = Inr b"
  shows "b = a + (\<Sum>t\<leftarrow>ts. if ec_variable_indices ec ! t = None
                     then (\<Sum>r\<leftarrow>rows. cc_get (ec_row_coefficients ec ! t) r) else 0)"
  using assms
proof (induction ts arbitrary: a)
  case (Cons t ts)
  from Cons.prems obtain a' where a': "fixed_offset_term ec rows context t a = Inr a'"
    "fold_res (fixed_offset_term ec rows context) ts a' = Inr b"
    by (auto split: sum.splits)
  show ?case
    using a'(1) Cons.IH [OF a'(2)]
    by (auto simp: fixed_offset_term_def fold_plus add.assoc split: if_splits)
qed simp

lemma SumFixed_eq:
  "SumFixedAggregateLhsOffset ec rows context = Inr b \<Longrightarrow>
     b = (\<Sum>t\<leftarrow>[0..<length (ec_variable_indices ec)].
            if ec_variable_indices ec ! t = None
            then (\<Sum>r\<leftarrow>rows. cc_get (ec_row_coefficients ec ! t) r) else 0)"
  by (auto simp: SumFixedAggregateLhsOffset_def dest!: fixed_offset_fold)

section \<open>Shapes\<close>

text \<open>
  The parallel vectors of a constraint: one coefficient column per term, every column and the
  right-hand side over all rows, and a group for every row if there are groups.
\<close>

definition ec_shape :: "nat \<Rightarrow> nat \<Rightarrow> EvaluatedConstraint \<Rightarrow> bool" where
  "ec_shape nv n ec \<longleftrightarrow>
     length (ec_row_coefficients ec) = length (ec_variable_indices ec) \<and>
     (\<forall>v. Some v \<in> set (ec_variable_indices ec) \<longrightarrow> v < nv) \<and>
     (\<forall>col \<in> set (ec_row_coefficients ec). cc_wf col \<and> logical_size col = n) \<and>
     cc_wf (ec_rhs_values ec) \<and> logical_size (ec_rhs_values ec) = n \<and>
     (ec_row_group_ids ec \<noteq> [] \<longrightarrow>
        length (ec_row_group_ids ec) = n \<and> groups_ok (ec_row_group_ids ec) (ec_num_groups ec))"

lemma agg_row_sets_mem:
  assumes "ec_shape nv n ec" "q < n" "row_active ec q"
  shows "\<exists>rows \<in> set (agg_row_sets ec n). q \<in> set rows"
proof (cases "ec_row_group_ids ec = []")
  case True
  with assms show ?thesis by (simp add: agg_row_sets_def)
next
  case False
  with assms obtain g where g: "ec_row_group_ids ec ! q = Some g" by (auto simp: row_active_def)
  with assms False have "q \<in> set (group_rows (ec_row_group_ids ec) g)" "g < ec_num_groups ec"
    by (auto simp: group_rows_mem ec_shape_def groups_ok_def)
  with False show ?thesis
    by (auto simp: agg_row_sets_def intro!: bexI [of _ g])
qed

lemma agg_row_sets_lt:
  assumes "ec_shape nv n ec" "rows \<in> set (agg_row_sets ec n)" "r \<in> set rows"
  shows "r < n \<and> row_active ec r"
  using assms
  by (auto simp: agg_row_sets_def ec_shape_def row_active_def group_rows_mem split: if_splits)

section \<open>The contract on grouped bounds\<close>

text \<open>\<open>RhsIsConstantWithinGroups\<close>: the loop over the rows with the first value seen per group.\<close>

primrec rhs_groups_loop :: "EvaluatedConstraint \<Rightarrow> idx list \<Rightarrow> (idx \<rightharpoonup> dbl) \<Rightarrow> bool" where
  "rhs_groups_loop ec [] first_seen = True"
| "rhs_groups_loop ec (row # rows) first_seen =
     (case (if ec_row_group_ids ec \<noteq> [] then ec_row_group_ids ec ! row else Some 0) of
        None \<Rightarrow> rhs_groups_loop ec rows first_seen
      | Some g \<Rightarrow>
          (case first_seen g of
             None \<Rightarrow> rhs_groups_loop ec rows (first_seen(g \<mapsto> cc_get (ec_rhs_values ec) row))
           | Some v \<Rightarrow>
               if \<not> deq v (cc_get (ec_rhs_values ec) row) then False
               else rhs_groups_loop ec rows first_seen))"

definition RhsIsConstantWithinGroups :: "EvaluatedConstraint \<Rightarrow> bool" where
  "RhsIsConstantWithinGroups ec \<longleftrightarrow>
     IsUniform (ec_rhs_values ec) \<or> cc_empty (ec_rhs_values ec) \<or>
     rhs_groups_loop ec [0..<logical_size (ec_rhs_values ec)] Map.empty"

definition group_of :: "EvaluatedConstraint \<Rightarrow> idx \<Rightarrow> idx option" where
  "group_of ec row = (if ec_row_group_ids ec \<noteq> [] then ec_row_group_ids ec ! row else Some 0)"

lemma rhs_groups_loop_spec:
  "rhs_groups_loop ec rows seen \<Longrightarrow>
     \<exists>f. seen \<subseteq>\<^sub>m f \<and>
       (\<forall>r \<in> set rows. \<forall>g. group_of ec r = Some g \<longrightarrow> f g = Some (cc_get (ec_rhs_values ec) r))"
proof (induction rows arbitrary: seen)
  case (Cons row rows)
  let ?rhs = "cc_get (ec_rhs_values ec)"
  show ?case
  proof (cases "group_of ec row")
    case None
    with Cons show ?thesis by (auto simp: group_of_def)
  next
    case (Some g)
    define seen' where "seen' = (case seen g of None \<Rightarrow> seen(g \<mapsto> ?rhs row) | Some _ \<Rightarrow> seen)"
    have loop: "rhs_groups_loop ec rows seen'"
      using Cons.prems Some by (auto simp: seen'_def group_of_def split: option.splits if_splits)
    have at_g: "seen' g = Some (?rhs row)" "seen \<subseteq>\<^sub>m seen'"
      using Cons.prems Some
      by (cases "seen g";
          force simp: seen'_def group_of_def deq_def map_le_def dom_def split: if_splits)+
    from Cons.IH [OF loop] obtain f where f: "seen' \<subseteq>\<^sub>m f"
      "\<forall>r \<in> set rows. \<forall>g. group_of ec r = Some g \<longrightarrow> f g = Some (?rhs r)" by blast
    have "f g = Some (?rhs row)" using f(1) at_g(1) by (metis domI map_le_def)
    moreover have "seen \<subseteq>\<^sub>m f" using at_g(2) f(1) by (rule map_le_trans)
    ultimately show ?thesis using f(2) Some by auto
  qed
qed (auto intro: map_le_refl)

lemma rhs_constant:
  assumes ok: "RhsIsConstantWithinGroups ec" and shape: "ec_shape nv n ec"
    and rows: "rows \<in> set (agg_row_sets ec n)" "r \<in> set rows" "s \<in> set rows"
  shows "cc_get (ec_rhs_values ec) r = cc_get (ec_rhs_values ec) s"
proof -
  have lt: "r < n" "s < n" using agg_row_sets_lt [OF shape rows(1)] rows by auto
  have same: "\<exists>g. group_of ec r = Some g \<and> group_of ec s = Some g"
    using rows by (auto simp: agg_row_sets_def group_of_def group_rows_mem split: if_splits)
  have size: "logical_size (ec_rhs_values ec) = n" using shape by (simp add: ec_shape_def)
  from ok consider "IsUniform (ec_rhs_values ec)" | "n = 0"
    | "rhs_groups_loop ec [0..<n] Map.empty"
    by (auto simp: RhsIsConstantWithinGroups_def cc_empty_def size)
  then show ?thesis
  proof cases
    case 3
    from rhs_groups_loop_spec [OF this] obtain f where
      f: "\<forall>r \<in> set [0..<n]. \<forall>g. group_of ec r = Some g \<longrightarrow> f g = Some (cc_get (ec_rhs_values ec) r)"
      by blast
    from same obtain g where g: "group_of ec r = Some g" "group_of ec s = Some g" by blast
    from f lt(1) g(1) have "f g = Some (cc_get (ec_rhs_values ec) r)" by simp
    moreover from f lt(2) g(2) have "f g = Some (cc_get (ec_rhs_values ec) s)" by simp
    ultimately show ?thesis by simp
  qed (use lt in \<open>auto simp: IsUniform_get\<close>)
qed

end
