(* ===== verification/BigM.thy ===== *)
theory BigM
  imports Meaning
begin

text \<open>
  \<open>linearization_bigm.cpp\<close>: the walks over one row's terms that size every Big-M and the refusals
  (\<open>DecidePropagateImpliedBounds\<close>, of the same file, is in the theory \<open>ImpliedBounds\<close>).

  A walk is a fold over the terms, pairs of a variable index (\<open>None\<close> for a decision-free term) and
  a coefficient column, paired up from the two parallel vectors. Terms below \<open>1e-15\<close> are skipped by
  the code; the theorems on the walks ask that no coefficient lies strictly between 0 and that
  threshold (\<open>crisp\<close>), where skipping is exact.

  Shown: the unsigned walk bounds the row's magnitude and the signed walk encloses its value over
  the box, and the constant of \<open>DecideTightPerRowBigM\<close> exceeds the distance between any
  reachable left-hand side and the bound on every active row.
\<close>

section \<open>Walks over one row\<close>

type_synonym row_terms = "(idx option \<times> coefficient_column) list"

definition ec_terms :: "EvaluatedConstraint \<Rightarrow> row_terms" where
  "ec_terms ec = zip (ec_variable_indices ec) (ec_row_coefficients ec)"

definition term_range_step :: "idx \<Rightarrow> dbl list \<Rightarrow> dbl list \<Rightarrow> idx option \<Rightarrow>
    idx option \<times> coefficient_column \<Rightarrow> dbl \<times> bool \<Rightarrow> dbl \<times> bool" where
  "term_range_step row lower upper skip_idx = (\<lambda>(var, col) (sum, has_unbounded).
     case var of
       None \<Rightarrow> (sum, has_unbounded)
     | Some v \<Rightarrow>
         if skip_idx = Some v then (sum, has_unbounded)
         else let coef = \<bar>cc_get col row\<bar>
              in if coef < Fin (1 / 10 ^ 15) then (sum, has_unbounded)
                 else let lb = lower ! v; ub = upper ! v
                      in if unbounded_above ub \<or> unbounded_below lb then (sum, True)
                         else (sum + coef * std_max \<bar>lb\<bar> \<bar>ub\<bar>, has_unbounded))"

definition DecideRowTermRange :: "row_terms \<Rightarrow> idx \<Rightarrow> dbl list \<Rightarrow> dbl list \<Rightarrow> bool \<Rightarrow> idx option \<Rightarrow>
    dbl \<times> bool" where
  "DecideRowTermRange terms row lower upper has_unbounded skip_idx =
     fold (term_range_step row lower upper skip_idx) terms (0, has_unbounded)"

definition DecideRowFixedLhsOffset :: "row_terms \<Rightarrow> idx \<Rightarrow> dbl" where
  "DecideRowFixedLhsOffset terms row =
     fold (\<lambda>(var, col) offset. case var of None \<Rightarrow> offset + cc_get col row | Some _ \<Rightarrow> offset) terms 0"

definition DecideRowEffectiveBound :: "EvaluatedConstraint \<Rightarrow> idx \<Rightarrow> dbl" where
  "DecideRowEffectiveBound ec row =
     (let rhs = (if IsUniform (ec_rhs_values ec) then UniformValue (ec_rhs_values ec)
                 else cc_get (ec_rhs_values ec) row)
      in rhs - DecideRowFixedLhsOffset (ec_terms ec) row)"

record range_state =
  rs_lo :: dbl
  rs_hi :: dbl
  rs_lo_unbounded :: bool
  rs_hi_unbounded :: bool

definition signed_range_step :: "idx \<Rightarrow> dbl list \<Rightarrow> dbl list \<Rightarrow> idx option \<Rightarrow>
    idx option \<times> coefficient_column \<Rightarrow> range_state \<Rightarrow> range_state" where
  "signed_range_step row lower upper skip_idx = (\<lambda>(var, col) s.
     case var of
       None \<Rightarrow> s
     | Some v \<Rightarrow>
         if skip_idx = Some v then s
         else let coef = cc_get col row
              in if negligible coef then s
                 else if v \<ge> length lower \<or> v \<ge> length upper
                 then s\<lparr>rs_lo_unbounded := True, rs_hi_unbounded := True\<rparr>
                 else let lb = lower ! v; ub = upper ! v;
                          lb_unbounded = unbounded_below lb; ub_unbounded = unbounded_above ub;
                          lo_from_ub = coef < 0;
                          s = (if (if lo_from_ub then ub_unbounded else lb_unbounded)
                               then s\<lparr>rs_lo_unbounded := True\<rparr>
                               else s\<lparr>rs_lo := rs_lo s + coef * (if lo_from_ub then ub else lb)\<rparr>)
                      in if (if lo_from_ub then lb_unbounded else ub_unbounded)
                         then s\<lparr>rs_hi_unbounded := True\<rparr>
                         else s\<lparr>rs_hi := rs_hi s + coef * (if lo_from_ub then lb else ub)\<rparr>)"

definition DecideRowSignedRange :: "EvaluatedConstraint \<Rightarrow> idx \<Rightarrow> dbl list \<Rightarrow> dbl list \<Rightarrow> idx option \<Rightarrow>
    dbl \<times> dbl" where
  "DecideRowSignedRange ec row lower upper skip_idx =
     (let s = fold (signed_range_step row lower upper skip_idx) (ec_terms ec)
                \<lparr>rs_lo = 0, rs_hi = 0, rs_lo_unbounded = False, rs_hi_unbounded = False\<rparr>
      in (if rs_lo_unbounded s then NInf else rs_lo s, if rs_hi_unbounded s then PInf else rs_hi s))"

section \<open>Refusals\<close>

definition ThrowUnboundedBigMNaming :: "idx option \<Rightarrow> string list \<Rightarrow> string \<Rightarrow> decide_error" where
  "ThrowUnboundedBigMNaming bad var_names what =
     (case bad of
        None \<Rightarrow> UnboundedBigM None what
      | Some b \<Rightarrow>
          if b \<ge> length var_names \<or> var_names ! b = [] then UnboundedBigM None what
          else UnboundedBigM (Some (var_names ! b)) what)"

primrec find_unbounded :: "dbl list \<Rightarrow> dbl list \<Rightarrow> idx option \<Rightarrow> idx option list \<Rightarrow> idx option" where
  "find_unbounded lower upper aux [] = None"
| "find_unbounded lower upper aux (var # vars) =
     (case var of
        None \<Rightarrow> find_unbounded lower upper aux vars
      | Some v \<Rightarrow>
          if aux = Some v then find_unbounded lower upper aux vars
          else if v < length upper \<and> v < length lower \<and>
                  (unbounded_above (upper ! v) \<or> unbounded_below (lower ! v))
          then Some v
          else find_unbounded lower upper aux vars)"

definition FindUnboundedContributor :: "EvaluatedConstraint \<Rightarrow> dbl list \<Rightarrow> dbl list \<Rightarrow> idx option" where
  "FindUnboundedContributor ec lower upper =
     find_unbounded lower upper (ec_abs_aux_idx ec) (ec_variable_indices ec)"

definition ThrowUnboundedBigM :: "EvaluatedConstraint \<Rightarrow> dbl list \<Rightarrow> dbl list \<Rightarrow> string list \<Rightarrow> string \<Rightarrow>
    decide_error" where
  "ThrowUnboundedBigM ec lower upper var_names what =
     ThrowUnboundedBigMNaming (FindUnboundedContributor ec lower upper) var_names what"

definition DescribeBigMConstruct :: "EvaluatedConstraint \<Rightarrow> string" where
  "DescribeBigMConstruct ec =
     (if ec_ne_clause_idx ec \<noteq> None then ''<>''
      else if ec_abs_aux_idx ec \<noteq> None then ''ABS'' else ''MIN/MAX'')"

section \<open>The Big-M of a row family\<close>

definition tight_bigm_step :: "EvaluatedConstraint \<Rightarrow> FormulationBox \<Rightarrow> idx \<Rightarrow> dbl \<times> bool \<Rightarrow>
    (dbl \<times> bool) res" where
  "tight_bigm_step ec box r = (\<lambda>(M, has_unbounded).
     if ec_row_group_ids ec \<noteq> [] \<and> ec_row_group_ids ec ! r = None then Inr (M, has_unbounded)
     else let rhs = DecideRowEffectiveBound ec r
          in if \<not> isfinite rhs then Inl (NonFiniteBound (isnan rhs) r)
             else let (range, has_unbounded) =
                        DecideRowTermRange (ec_terms ec) r (fb_lower box) (fb_upper box)
                          has_unbounded None
                  in Inr (std_max M (\<bar>rhs\<bar> + range), has_unbounded))"

definition DecideTightPerRowBigM :: "EvaluatedConstraint \<Rightarrow> FormulationBox \<Rightarrow> nat \<Rightarrow> string list \<Rightarrow>
    dbl res" where
  "DecideTightPerRowBigM ec box num_rows var_names =
     (case fold_res (tight_bigm_step ec box) [0..<num_rows] (0, False) of
        Inl e \<Rightarrow> Inl e
      | Inr (M, has_unbounded) \<Rightarrow>
          if has_unbounded
          then Inl (ThrowUnboundedBigM ec (fb_lower box) (fb_upper box) var_names
                      (DescribeBigMConstruct ec))
          else Inr (M + 1))"

section \<open>Enclosures\<close>

text \<open>
  \<open>boxed\<close>: the assignment lies in the box at one row. \<open>var_part\<close> is the value of the row's
  variable terms other than the skipped one.
\<close>

definition boxed :: "dbl list \<Rightarrow> dbl list \<Rightarrow> idx \<Rightarrow> (idx \<Rightarrow> idx \<Rightarrow> real) \<Rightarrow> bool" where
  "boxed lower upper row X \<longleftrightarrow>
     (\<forall>v < length lower. lower ! v \<le> Fin (X v row)) \<and> (\<forall>v < length upper. Fin (X v row) \<le> upper ! v)"

definition crisp :: "dbl \<Rightarrow> bool" where
  "crisp c \<longleftrightarrow> isfinite c \<and> (negligible c \<longrightarrow> c = 0)"

definition terms_crisp :: "row_terms \<Rightarrow> idx \<Rightarrow> bool" where
  "terms_crisp terms row \<longleftrightarrow> list_all (\<lambda>(var, col). crisp (cc_get col row)) terms"

definition part_of :: "idx \<Rightarrow> (idx \<Rightarrow> idx \<Rightarrow> real) \<Rightarrow> idx option \<Rightarrow> idx option \<times> coefficient_column \<Rightarrow> real" where
  "part_of row X skip_idx = (\<lambda>(var, col).
     case var of None \<Rightarrow> 0
     | Some v \<Rightarrow> if skip_idx = Some v then 0 else rval (cc_get col row) * X v row)"

definition var_part :: "row_terms \<Rightarrow> idx \<Rightarrow> (idx \<Rightarrow> idx \<Rightarrow> real) \<Rightarrow> idx option \<Rightarrow> real" where
  "var_part terms row X skip_idx = (\<Sum>t\<leftarrow>terms. part_of row X skip_idx t)"

lemma var_part_Cons [simp]:
  "var_part [] row X skip_idx = 0"
  "var_part (t # ts) row X skip_idx = part_of row X skip_idx t + var_part ts row X skip_idx"
  by (simp_all add: var_part_def)

lemma bounded_lower: "lb \<le> Fin x \<Longrightarrow> \<not> unbounded_below lb \<Longrightarrow> \<exists>l. lb = Fin l \<and> l \<le> x"
  by (cases lb) (simp_all add: unbounded_below_def)

lemma bounded_upper: "Fin x \<le> ub \<Longrightarrow> \<not> unbounded_above ub \<Longrightarrow> \<exists>u. ub = Fin u \<and> x \<le> u"
  by (cases ub) (simp_all add: unbounded_above_def)

lemma crisp_FinE:
  assumes "crisp c"
  obtains r where "c = Fin r" "negligible c \<Longrightarrow> r = 0"
  using assms by (cases c) (auto simp: crisp_def zero_dbl_def)

lemma term_range_step_idle:
  "var = None \<or> (\<exists>v. var = Some v \<and> (skip_idx = Some v \<or> negligible (cc_get col row))) \<Longrightarrow>
     term_range_step row lower upper skip_idx (var, col) s = s"
  by (cases s) (auto simp: term_range_step_def Let_def negligible_def)

lemma term_range_mono:
  "snd (fold (term_range_step row lower upper skip_idx) ts (s, True))"
  by (induction ts arbitrary: s) (auto simp: term_range_step_def Let_def split: option.splits)

lemma term_range_fold:
  assumes "fold (term_range_step row lower upper skip_idx) ts (Fin a, False) = (S, False)"
    and "terms_crisp ts row" "boxed lower upper row X"
    and "\<forall>(var, col) \<in> set ts. \<forall>v. var = Some v \<longrightarrow> v < length lower \<and> v < length upper"
  shows "\<exists>s. S = Fin s \<and> \<bar>var_part ts row X skip_idx\<bar> \<le> s - a"
  using assms
proof (induction ts arbitrary: a)
  case (Cons t ts)
  obtain var col where t: "t = (var, col)" by force
  from Cons.prems(2) obtain c where c: "cc_get col row = Fin c"
    "negligible (cc_get col row) \<Longrightarrow> c = 0"
    by (auto simp: terms_crisp_def t elim: crisp_FinE)
  have step: "\<exists>b. term_range_step row lower upper skip_idx t (Fin a, False) = (Fin b, False) \<and>
      \<bar>part_of row X skip_idx t\<bar> \<le> b - a"
  proof (cases "\<exists>v. var = Some v \<and> skip_idx \<noteq> Some v \<and> \<not> negligible (cc_get col row)")
    case False
    then have "var = None \<or> (\<exists>v. var = Some v \<and> (skip_idx = Some v \<or> negligible (cc_get col row)))"
      by (cases var) auto
    moreover from this have "part_of row X skip_idx t = 0" using c by (auto simp: t part_of_def)
    ultimately show ?thesis using term_range_step_idle [of var skip_idx col row] by (simp add: t)
  next
    case True
    then obtain v where v: "var = Some v" "skip_idx \<noteq> Some v" "\<not> negligible (cc_get col row)" by blast
    have step: "term_range_step row lower upper skip_idx t (Fin a, False) =
        (if unbounded_above (upper ! v) \<or> unbounded_below (lower ! v) then (Fin a, True)
         else (Fin a + \<bar>cc_get col row\<bar> * std_max \<bar>lower ! v\<bar> \<bar>upper ! v\<bar>, False))"
      using v by (simp add: t term_range_step_def Let_def negligible_def)
    have open_no: "\<not> (unbounded_above (upper ! v) \<or> unbounded_below (lower ! v))"
    proof
      assume "unbounded_above (upper ! v) \<or> unbounded_below (lower ! v)"
      with step Cons.prems(1) term_range_mono [of row lower upper skip_idx ts "Fin a"] show False
        by simp
    qed
    have "v < length lower" "v < length upper" using Cons.prems(4) v(1) by (simp_all add: t)
    then have box: "lower ! v \<le> Fin (X v row)" "Fin (X v row) \<le> upper ! v"
      using Cons.prems(3) by (simp_all add: boxed_def)
    obtain l where l: "lower ! v = Fin l" "l \<le> X v row" using bounded_lower [OF box(1)] open_no by blast
    obtain u where u: "upper ! v = Fin u" "X v row \<le> u" using bounded_upper [OF box(2)] open_no by blast
    note lu = l(1) u(1) l(2) u(2)
    have "\<bar>X v row\<bar> \<le> max \<bar>l\<bar> \<bar>u\<bar>" using lu(3,4) by linarith
    then have "\<bar>c * X v row\<bar> \<le> \<bar>c\<bar> * max \<bar>l\<bar> \<bar>u\<bar>" by (simp add: abs_mult mult_left_mono)
    with v lu c(1) open_no show ?thesis
      unfolding step by (simp add: t part_of_def)
  qed
  then obtain b where b: "term_range_step row lower upper skip_idx t (Fin a, False) = (Fin b, False)"
    "\<bar>part_of row X skip_idx t\<bar> \<le> b - a" by blast
  have "fold (term_range_step row lower upper skip_idx) ts (Fin b, False) = (S, False)"
    using Cons.prems(1) b(1) by simp
  moreover have "terms_crisp ts row" using Cons.prems(2) by (simp add: terms_crisp_def)
  moreover have "\<forall>(var, col) \<in> set ts. \<forall>v. var = Some v \<longrightarrow> v < length lower \<and> v < length upper"
    using Cons.prems(4) by simp
  ultimately obtain s where "S = Fin s" "\<bar>var_part ts row X skip_idx\<bar> \<le> s - b"
    using Cons.IH Cons.prems(3) by blast
  with b(2) show ?case by simp
qed auto

lemma TermRange_bound:
  assumes "DecideRowTermRange ts row lower upper False skip_idx = (S, False)"
    and "terms_crisp ts row" "boxed lower upper row X"
    and "\<forall>(var, col) \<in> set ts. \<forall>v. var = Some v \<longrightarrow> v < length lower \<and> v < length upper"
  shows "\<exists>s. S = Fin s \<and> \<bar>var_part ts row X skip_idx\<bar> \<le> s"
  using term_range_fold [of row lower upper skip_idx ts 0 S X] assms
  by (simp add: DecideRowTermRange_def zero_dbl_def)

text \<open>What one active term does to each end of the signed range.\<close>

lemma signed_range_step_active:
  fixes s :: range_state
  assumes "skip_idx \<noteq> Some v" "\<not> negligible (cc_get col row)" "v < length lower" "v < length upper"
  defines "c \<equiv> cc_get col row" and "s' \<equiv> signed_range_step row lower upper skip_idx (Some v, col) s"
  shows "rs_lo s' = (if (if c < 0 then unbounded_above (upper ! v) else unbounded_below (lower ! v))
            then rs_lo s else rs_lo s + c * (if c < 0 then upper ! v else lower ! v))"
    and "rs_lo_unbounded s' =
          (rs_lo_unbounded s \<or> (if c < 0 then unbounded_above (upper ! v) else unbounded_below (lower ! v)))"
    and "rs_hi s' = (if (if c < 0 then unbounded_below (lower ! v) else unbounded_above (upper ! v))
            then rs_hi s else rs_hi s + c * (if c < 0 then lower ! v else upper ! v))"
    and "rs_hi_unbounded s' =
          (rs_hi_unbounded s \<or> (if c < 0 then unbounded_below (lower ! v) else unbounded_above (upper ! v)))"
  using assms(1-4) by (simp_all add: c_def s'_def signed_range_step_def Let_def)

lemma signed_range_step_idle:
  "var = None \<or> (\<exists>v. var = Some v \<and> (skip_idx = Some v \<or> negligible (cc_get col row))) \<Longrightarrow>
     signed_range_step row lower upper skip_idx (var, col) s = s"
  by (auto simp: signed_range_step_def Let_def)

definition encloses :: "range_state \<Rightarrow> real \<Rightarrow> bool" where
  "encloses s p \<longleftrightarrow> isfinite (rs_lo s) \<and> isfinite (rs_hi s) \<and>
     (\<not> rs_lo_unbounded s \<longrightarrow> rs_lo s \<le> Fin p) \<and> (\<not> rs_hi_unbounded s \<longrightarrow> Fin p \<le> rs_hi s)"

lemma signed_range_fold:
  assumes "terms_crisp ts row" "boxed lower upper row X" "encloses s p"
  shows "encloses (fold (signed_range_step row lower upper skip_idx) ts s)
           (p + var_part ts row X skip_idx)"
  using assms
proof (induction ts arbitrary: s p)
  case (Cons t ts)
  obtain var col where t: "t = (var, col)" by force
  from Cons.prems(1) obtain c where c: "cc_get col row = Fin c"
    "negligible (cc_get col row) \<Longrightarrow> c = 0"
    by (auto simp: terms_crisp_def t elim: crisp_FinE)
  have "encloses (signed_range_step row lower upper skip_idx t s) (p + part_of row X skip_idx t)"
  proof (cases "\<exists>v. var = Some v \<and> skip_idx \<noteq> Some v \<and> \<not> negligible (cc_get col row)")
    case False
    then have idle: "var = None \<or> (\<exists>v. var = Some v \<and> (skip_idx = Some v \<or> negligible (cc_get col row)))"
      by (cases var) auto
    then have "part_of row X skip_idx t = 0" using c by (auto simp: t part_of_def)
    with signed_range_step_idle [OF idle] Cons.prems(3) show ?thesis by (simp add: t)
  next
    case True
    then obtain v where v: "var = Some v" "skip_idx \<noteq> Some v" "\<not> negligible (cc_get col row)" by blast
    show ?thesis
    proof (cases "v \<ge> length lower \<or> v \<ge> length upper")
      case True
      with v Cons.prems(3) show ?thesis by (simp add: t signed_range_step_def Let_def encloses_def)
    next
      case False
      then have v_lt: "v < length lower" "v < length upper" by auto
      note step = signed_range_step_active [OF v(2,3) v_lt, of s]
      have box: "lower ! v \<le> Fin (X v row)" "Fin (X v row) \<le> upper ! v"
        using v_lt Cons.prems(2) by (auto simp: boxed_def)
      obtain a b where ab: "rs_lo s = Fin a" "rs_hi s = Fin b"
        using Cons.prems(3) by (auto simp: encloses_def isfinite_iff)
      note prev = Cons.prems(3) [unfolded encloses_def ab]
      have part: "part_of row X skip_idx t = c * X v row" using v c by (simp add: t part_of_def)
      show ?thesis
      proof (cases "c < 0")
        case True
        have "c * u \<le> c * X v row" if "upper ! v = Fin u" for u
          using box that True by (simp add: mult_left_mono_neg)
        moreover have "c * X v row \<le> c * l" if "lower ! v = Fin l" for l
          using box that True by (simp add: mult_left_mono_neg)
        ultimately show ?thesis
          using prev step True c(1) bounded_lower [OF box(1)] bounded_upper [OF box(2)]
          unfolding part encloses_def by (auto simp: t v(1) ab zero_dbl_def add_mono)
      next
        case False
        then have "c * X v row \<le> c * u" if "upper ! v = Fin u" for u
          using box that by (simp add: mult_left_mono)
        moreover have "c * l \<le> c * X v row" if "lower ! v = Fin l" for l
          using box that False by (simp add: mult_left_mono)
        ultimately show ?thesis
          using prev step False c(1) bounded_lower [OF box(1)] bounded_upper [OF box(2)]
          unfolding part encloses_def by (auto simp: t v(1) ab zero_dbl_def add_mono)
      qed
    qed
  qed
  moreover have "terms_crisp ts row" using Cons.prems(1) by (simp add: terms_crisp_def)
  ultimately show ?case using Cons.IH Cons.prems(2) by (simp add: add.assoc [symmetric])
qed simp

lemma SignedRange_encloses:
  assumes "DecideRowSignedRange ec row lower upper skip_idx = (lo, hi)"
    and "terms_crisp (ec_terms ec) row" "boxed lower upper row X"
  shows "lo \<le> Fin (var_part (ec_terms ec) row X skip_idx) \<and>
         Fin (var_part (ec_terms ec) row X skip_idx) \<le> hi"
  using signed_range_fold [OF assms(2,3), of
      "\<lparr>rs_lo = 0, rs_hi = 0, rs_lo_unbounded = False, rs_hi_unbounded = False\<rparr>" 0 skip_idx] assms(1)
  by (auto simp: DecideRowSignedRange_def Let_def encloses_def zero_dbl_def split: if_splits)

section \<open>The effective bound\<close>

definition fixed_part :: "row_terms \<Rightarrow> idx \<Rightarrow> real" where
  "fixed_part terms row = (\<Sum>(var, col)\<leftarrow>terms. case var of None \<Rightarrow> rval (cc_get col row) | Some _ \<Rightarrow> 0)"

lemma FixedLhsOffset_fold:
  "terms_crisp ts row \<Longrightarrow>
     fold (\<lambda>(var, col) offset. case var of None \<Rightarrow> offset + cc_get col row | Some _ \<Rightarrow> offset) ts (Fin a) =
       Fin (a + fixed_part ts row)"
  by (induction ts arbitrary: a)
     (auto simp: terms_crisp_def fixed_part_def elim!: crisp_FinE split: option.splits)

lemma FixedLhsOffset_eq: "terms_crisp ts row \<Longrightarrow> DecideRowFixedLhsOffset ts row = Fin (fixed_part ts row)"
  using FixedLhsOffset_fold [of ts row 0] by (simp add: DecideRowFixedLhsOffset_def zero_dbl_def)

lemma EffectiveBound_eq:
  "terms_crisp (ec_terms ec) row \<Longrightarrow>
     DecideRowEffectiveBound ec row = cc_get (ec_rhs_values ec) row - Fin (fixed_part (ec_terms ec) row)"
  by (simp add: DecideRowEffectiveBound_def Let_def FixedLhsOffset_eq IsUniform_get)

lemma row_lhs_parts:
  assumes "terms_crisp (ec_terms ec) row"
  shows "row_lhs ec X row = Fin (var_part (ec_terms ec) row X None + fixed_part (ec_terms ec) row)"
proof -
  have "(\<Sum>t\<leftarrow>ts. term_val X row t) = Fin (var_part ts row X None + fixed_part ts row)"
    if "terms_crisp ts row" for ts
    using that
    by (induction ts)
       (auto simp: terms_crisp_def fixed_part_def var_part_def term_val_def part_of_def dbl_arith
         elim!: crisp_FinE split: option.splits)
  with assms show ?thesis by (simp add: row_lhs_def ec_terms_def)
qed

lemma sat_cmp_effective:
  assumes "terms_crisp (ec_terms ec) row"
  shows "sat_row ec X row \<longleftrightarrow>
     sat_cmp (ec_comparison_type ec) (Fin (var_part (ec_terms ec) row X None))
       (DecideRowEffectiveBound ec row)"
  using assms
  by (cases "ec_comparison_type ec"; cases "cc_get (ec_rhs_values ec) row")
     (auto simp: sat_row_def row_lhs_parts EffectiveBound_eq deq_def minus_dbl_def)

section \<open>The Big-M dominates\<close>

definition vars_in :: "EvaluatedConstraint \<Rightarrow> nat \<Rightarrow> bool" where
  "vars_in ec n \<longleftrightarrow> (\<forall>v. Some v \<in> set (ec_variable_indices ec) \<longrightarrow> v < n)"

lemma ec_terms_vars: "vars_in ec n \<Longrightarrow> (Some v, col) \<in> set (ec_terms ec) \<Longrightarrow> v < n"
  by (auto simp: vars_in_def ec_terms_def dest: set_zip_leftD)

lemma tight_bigm_step_cases:
  "tight_bigm_step ec box r (M, u) =
     (if \<not> row_active ec r then Inr (M, u)
      else if \<not> isfinite (DecideRowEffectiveBound ec r)
      then Inl (NonFiniteBound (isnan (DecideRowEffectiveBound ec r)) r)
      else case DecideRowTermRange (ec_terms ec) r (fb_lower box) (fb_upper box) u None of
             (reach, u') \<Rightarrow> Inr (std_max M (\<bar>DecideRowEffectiveBound ec r\<bar> + reach), u'))"
  by (simp add: tight_bigm_step_def row_active_def Let_def)

lemma tight_bigm_unbounded:
  "fold_res (tight_bigm_step ec box) rs (M, True) = Inr (M', u) \<Longrightarrow> u"
proof (induction rs arbitrary: M)
  case (Cons r rs)
  have "snd (DecideRowTermRange (ec_terms ec) r (fb_lower box) (fb_upper box) True None)"
    by (simp add: DecideRowTermRange_def term_range_mono)
  with Cons show ?case
    by (auto simp: tight_bigm_step_cases split: if_splits prod.splits)
qed simp

lemma tight_bigm_fold:
  assumes "fold_res (tight_bigm_step ec box) rs (Fin a, False) = Inr (M, False)"
    and "vars_in ec (length (fb_lower box))" "length (fb_upper box) = length (fb_lower box)"
    and "\<forall>r \<in> set rs. row_active ec r \<longrightarrow>
           terms_crisp (ec_terms ec) r \<and> boxed (fb_lower box) (fb_upper box) r X"
  shows "\<exists>m. M = Fin m \<and> a \<le> m \<and>
    (\<forall>r \<in> set rs. row_active ec r \<longrightarrow>
       (\<exists>e. DecideRowEffectiveBound ec r = Fin e \<and>
            \<bar>e\<bar> + \<bar>var_part (ec_terms ec) r X None\<bar> \<le> m))"
  using assms
proof (induction rs arbitrary: a)
  case (Cons r rs)
  show ?case
  proof (cases "row_active ec r")
    case False
    with Cons show ?thesis by (auto simp: tight_bigm_step_cases)
  next
    case True
    obtain S u where range: "DecideRowTermRange (ec_terms ec) r (fb_lower box) (fb_upper box) False None = (S, u)"
      by force
    with True Cons.prems(1) have fin: "isfinite (DecideRowEffectiveBound ec r)"
      and rest: "fold_res (tight_bigm_step ec box) rs
                   (std_max (Fin a) (\<bar>DecideRowEffectiveBound ec r\<bar> + S), u) = Inr (M, False)"
      by (auto simp: tight_bigm_step_cases split: if_splits)
    from rest have u: "\<not> u" using tight_bigm_unbounded [of ec box rs _ M False] by (cases u) auto
    have in_range: "\<forall>(var, col) \<in> set (ec_terms ec). \<forall>v. var = Some v \<longrightarrow>
        v < length (fb_lower box) \<and> v < length (fb_upper box)"
      using ec_terms_vars [OF Cons.prems(2)] Cons.prems(3) by auto
    have here: "terms_crisp (ec_terms ec) r" "boxed (fb_lower box) (fb_upper box) r X"
      using Cons.prems(4) True by simp_all
    have "DecideRowTermRange (ec_terms ec) r (fb_lower box) (fb_upper box) False None = (S, False)"
      using range u by simp
    from TermRange_bound [OF this here in_range] obtain s where
      s: "S = Fin s" "\<bar>var_part (ec_terms ec) r X None\<bar> \<le> s" by blast
    obtain e where e: "DecideRowEffectiveBound ec r = Fin e" using fin by (auto simp: isfinite_iff)
    have next_fold: "fold_res (tight_bigm_step ec box) rs (Fin (max a (\<bar>e\<bar> + s)), False) = Inr (M, False)"
      using rest u by (simp add: e s(1))
    from Cons.IH [OF next_fold Cons.prems(2,3)] Cons.prems(4) obtain m where
      "M = Fin m" "max a (\<bar>e\<bar> + s) \<le> m"
      "\<forall>r \<in> set rs. row_active ec r \<longrightarrow> (\<exists>e. DecideRowEffectiveBound ec r = Fin e \<and>
            \<bar>e\<bar> + \<bar>var_part (ec_terms ec) r X None\<bar> \<le> m)" by auto
    with e s(2) show ?thesis by auto
  qed
qed auto

lemma TightPerRowBigM_dominates:
  assumes M: "DecideTightPerRowBigM ec box n var_names = Inr M"
    and shape: "vars_in ec (length (fb_lower box))" "length (fb_upper box) = length (fb_lower box)"
    and rows: "\<forall>r < n. row_active ec r \<longrightarrow>
           terms_crisp (ec_terms ec) r \<and> boxed (fb_lower box) (fb_upper box) r X"
    and r: "r < n" "row_active ec r"
  shows "\<exists>m e. M = Fin m \<and> DecideRowEffectiveBound ec r = Fin e \<and>
           \<bar>var_part (ec_terms ec) r X None - e\<bar> + 1 \<le> m"
proof -
  from M obtain M0 where M0: "fold_res (tight_bigm_step ec box) [0..<n] (Fin 0, False) = Inr (M0, False)"
    and M_eq: "M = M0 + 1"
    by (auto simp: DecideTightPerRowBigM_def zero_dbl_def split: sum.splits if_splits)
  from tight_bigm_fold [OF M0 shape, of X] rows r obtain m e where
    "M0 = Fin m" "DecideRowEffectiveBound ec r = Fin e" "\<bar>e\<bar> + \<bar>var_part (ec_terms ec) r X None\<bar> \<le> m"
    by auto
  then show ?thesis by (auto simp: M_eq one_dbl_def)
qed

section \<open>The contract of a Big-M\<close>

text \<open>
  A source of Big-M constants: on every point it admits, the excess of the row over its bound is at
  most the constant. Its clients relax the row by the constant times a binary, and get exactly the
  conditional row.
\<close>

locale big_m_source =
  fixes big_m :: "'row \<Rightarrow> real option"
    and excess :: "'row \<Rightarrow> 'pt \<Rightarrow> real"
    and admits :: "'row \<Rightarrow> 'pt \<Rightarrow> bool"
  assumes dominates: "big_m row = Some m \<Longrightarrow> admits row p \<Longrightarrow> excess row p \<le> m"
begin

lemma relaxed_on_zero:
  assumes "big_m row = Some m" "admits row p" "z = 0 \<or> z = (1 :: real)"
  shows "excess row p \<le> m * z \<longleftrightarrow> (z = 0 \<longrightarrow> excess row p \<le> 0)"
  using dominates [OF assms(1,2)] assms(3) by auto

lemma relaxed_on_one:
  assumes "big_m row = Some m" "admits row p" "z = 0 \<or> z = (1 :: real)"
  shows "excess row p \<le> m * (1 - z) \<longleftrightarrow> (z = 1 \<longrightarrow> excess row p \<le> 0)"
  using dominates [OF assms(1,2)] assms(3) by auto

text \<open>Two rows that share a binary are a disjunction.\<close>

lemma disjunction:
  assumes "big_m row1 = Some m1" "admits row1 p" "big_m row2 = Some m2" "admits row2 p"
  shows "(\<exists>z \<in> {0, 1}. excess row1 p \<le> m1 * z \<and> excess row2 p \<le> m2 * (1 - z)) \<longleftrightarrow>
         excess row1 p \<le> 0 \<or> excess row2 p \<le> 0"
  using dominates [OF assms(1,2)] dominates [OF assms(3,4)] by auto

end

text \<open>
  \<open>DecideTightPerRowBigM\<close> is one, for the distance of a row's variable part from its effective
  bound in either direction (\<open>up\<close>).
\<close>

definition row_excess :: "EvaluatedConstraint \<times> FormulationBox \<times> nat \<times> string list \<times> idx \<times> bool \<Rightarrow>
    (idx \<Rightarrow> idx \<Rightarrow> real) \<Rightarrow> real" where
  "row_excess = (\<lambda>(ec, box, n, names, r, up) X.
     let d = var_part (ec_terms ec) r X None - rval (DecideRowEffectiveBound ec r)
     in if up then d else - d)"

definition row_admits :: "EvaluatedConstraint \<times> FormulationBox \<times> nat \<times> string list \<times> idx \<times> bool \<Rightarrow>
    (idx \<Rightarrow> idx \<Rightarrow> real) \<Rightarrow> bool" where
  "row_admits = (\<lambda>(ec, box, n, names, r, up) X.
     vars_in ec (length (fb_lower box)) \<and> length (fb_upper box) = length (fb_lower box) \<and>
     (\<forall>r < n. row_active ec r \<longrightarrow> terms_crisp (ec_terms ec) r \<and> boxed (fb_lower box) (fb_upper box) r X) \<and>
     r < n \<and> row_active ec r)"

definition row_big_m :: "EvaluatedConstraint \<times> FormulationBox \<times> nat \<times> string list \<times> idx \<times> bool \<Rightarrow>
    real option" where
  "row_big_m = (\<lambda>(ec, box, n, names, r, up).
     case DecideTightPerRowBigM ec box n names of Inl e \<Rightarrow> None | Inr M \<Rightarrow> Some (rval M))"

interpretation rowm: big_m_source row_big_m row_excess row_admits
proof
  fix row X m
  assume M: "row_big_m row = Some m" and adm: "row_admits row X"
  obtain ec box n names r up where row: "row = (ec, box, n, names, r, up)" by (cases row)
  from M obtain D where D: "DecideTightPerRowBigM ec box n names = Inr D" "m = rval D"
    by (auto simp: row row_big_m_def split: sum.splits)
  from adm TightPerRowBigM_dominates [OF D(1), of X r] obtain d e where
    "D = Fin d" "DecideRowEffectiveBound ec r = Fin e"
    "\<bar>var_part (ec_terms ec) r X None - e\<bar> + 1 \<le> d"
    by (auto simp: row row_admits_def)
  with D(2) show "row_excess row X \<le> m" by (auto simp: row row_excess_def Let_def)
qed

section \<open>Properties\<close>

text \<open>
  C27. The signed range of a row encloses the value of its variable terms at every point of the
  box; an end the box leaves open is reported infinite.
\<close>

theorem signed_range_encloses:
  assumes "DecideRowSignedRange ec row lower upper skip_idx = (lo, hi)"
    and "terms_crisp (ec_terms ec) row" "boxed lower upper row X"
  shows "lo \<le> Fin (var_part (ec_terms ec) row X skip_idx) \<and>
         Fin (var_part (ec_terms ec) row X skip_idx) \<le> hi"
  by (rule SignedRange_encloses [OF assms])

text \<open>The row \<open>2*x - 3*y + 1 <= 4\<close> over \<open>0 <= x <= 5\<close>, \<open>0 <= y\<close>.\<close>

definition demo_row :: EvaluatedConstraint where
  "demo_row = ec_default\<lparr>ec_variable_indices := [Some 0, Some 1, None],
     ec_row_coefficients := [MakeScalar (Fin 2) 1, MakeScalar (Fin (- 3)) 1, MakeScalar (Fin 1) 1],
     ec_rhs_values := MakeScalar (Fin 4) 1, ec_comparison_type := COMPARE_LESSTHANOREQUALTO\<rparr>"

lemma demo_row_crisp: "terms_crisp (ec_terms demo_row) 0"
  by (simp add: terms_crisp_def ec_terms_def demo_row_def ec_default_def crisp_def negligible_def)

lemma signed_range_encloses_witness:
  "Fin (2 * 4 - 3 * 7) \<le> Fin 10"
proof -
  have range: "DecideRowSignedRange demo_row 0 [Fin 0, Fin 0] [Fin 5, PInf] None = (NInf, Fin 10)"
    by (simp add: DecideRowSignedRange_def demo_row_def ec_default_def ec_terms_def
        signed_range_step_def negligible_def unbounded_above_def unbounded_below_def zero_dbl_def Let_def)
  have box: "boxed [Fin 0, Fin 0] [Fin 5, PInf] 0 (\<lambda>v r. if v = 0 then 4 else 7)"
    by (simp add: boxed_def less_Suc_eq numeral_eq_Suc)
  from signed_range_encloses [OF range demo_row_crisp box] show ?thesis
    by (simp add: var_part_def part_of_def ec_terms_def demo_row_def ec_default_def)
qed

text \<open>
  C26. The constant \<open>DecideTightPerRowBigM\<close> returns exceeds, on every active row and at every point
  of the box, the distance between the row's variable part and its effective bound, with a margin
  of one; and the bound of every active row is then finite.
\<close>

theorem tight_big_m_dominates:
  assumes "DecideTightPerRowBigM ec box n var_names = Inr M"
    and "vars_in ec (length (fb_lower box))" "length (fb_upper box) = length (fb_lower box)"
    and "\<forall>r < n. row_active ec r \<longrightarrow>
           terms_crisp (ec_terms ec) r \<and> boxed (fb_lower box) (fb_upper box) r X"
    and "r < n" "row_active ec r"
  shows "\<exists>m e. M = Fin m \<and> DecideRowEffectiveBound ec r = Fin e \<and>
           \<bar>var_part (ec_terms ec) r X None - e\<bar> + 1 \<le> m"
  by (rule TightPerRowBigM_dominates [OF assms])

lemma tight_big_m_dominates_witness:
  "\<exists>e. DecideRowEffectiveBound demo_row 0 = Fin e \<and> \<bar>(2 * 4 - 3 * 7) - e\<bar> + 1 \<le> 44"
proof -
  let ?box = "\<lparr>fb_lower = [Fin 0, Fin 0], fb_upper = [Fin 5, Fin 10], fb_global_lower = [], fb_global_upper = []\<rparr>"
  have M: "DecideTightPerRowBigM demo_row ?box 1 [] = Inr (Fin 44)"
    by (simp add: DecideTightPerRowBigM_def tight_bigm_step_def demo_row_def ec_default_def
        DecideRowEffectiveBound_def DecideRowFixedLhsOffset_def DecideRowTermRange_def
        term_range_step_def ec_terms_def Let_def unbounded_above_def unbounded_below_def
        zero_dbl_def one_dbl_def IsUniform_def UniformValue_def)
  have box: "boxed (fb_lower ?box) (fb_upper ?box) 0 (\<lambda>v r. if v = 0 then 4 else 7)"
    by (simp add: boxed_def less_Suc_eq numeral_eq_Suc)
  have "vars_in demo_row 2" by (simp add: vars_in_def demo_row_def ec_default_def)
  with tight_big_m_dominates [OF M, of "\<lambda>v r. if v = 0 then 4 else 7" 0] box demo_row_crisp show ?thesis
    by (simp add: var_part_def part_of_def ec_terms_def demo_row_def ec_default_def row_active_def
        numeral_2_eq_2 [symmetric])
qed

end
