(* ===== verification/ImpliedBounds.thy ===== *)
theory ImpliedBounds
  imports BigM
begin

text \<open>
  \<open>DecidePropagateImpliedBounds\<close> of \<open>linearization_bigm.cpp\<close>: upper bounds read off the constraints
  whose terms are all non-negative, before any Big-M is sized from the box.

  Shown: the tightened box still contains every assignment of the given box that satisfies the
  constraints read. The code tolerates coefficients down to \<open>-1e-15\<close> in its sign test; the theorem
  asks that none lies in that window.
\<close>

section \<open>Operations\<close>

text \<open>
  The guards that make a constraint usable, in the code's order: its comparison, no quadratic part,
  no row whose meaning is not its terms', no excluded row, and no negative term.
\<close>

definition has_negative_term :: "EvaluatedConstraint \<Rightarrow> dbl list \<Rightarrow> nat \<Rightarrow> bool" where
  "has_negative_term ec lower num_rows \<longleftrightarrow>
     list_ex (\<lambda>var. case var of None \<Rightarrow> False | Some v \<Rightarrow> lower ! v < 0) (ec_variable_indices ec) \<or>
     list_ex (\<lambda>col.
       if IsUniform col then UniformValue col < Fin (- (1 / 10 ^ 15))
       else list_ex (\<lambda>r. \<not> (ec_row_group_ids ec \<noteq> [] \<and> ec_row_group_ids ec ! r = None) \<and>
                          cc_get col r < Fin (- (1 / 10 ^ 15))) [0..<num_rows])
       (ec_row_coefficients ec)"

definition propagates :: "EvaluatedConstraint \<Rightarrow> dbl list \<Rightarrow> nat \<Rightarrow> bool" where
  "propagates ec lower num_rows \<longleftrightarrow>
     (ec_comparison_type ec = COMPARE_LESSTHANOREQUALTO \<or> ec_comparison_type ec = COMPARE_EQUAL) \<and>
     ec_bilinear_terms ec = [] \<and> \<not> ec_has_quadratic ec \<and>
     ec_minmax_agg_type ec = [] \<and> ec_ne_clause_idx ec = None \<and> ec_abs_aux_idx ec = None \<and>
     None \<notin> set (ec_row_group_ids ec) \<and> \<not> has_negative_term ec lower num_rows"

text \<open>The combined coefficient of \<open>v\<close> at row \<open>r\<close>, from term \<open>t\<close> on.\<close>

definition combined_coeff :: "EvaluatedConstraint \<Rightarrow> nat \<Rightarrow> idx \<Rightarrow> idx \<Rightarrow> dbl" where
  "combined_coeff ec t v r =
     fold (\<lambda>t2 a. if ec_variable_indices ec ! t2 = Some v
                   then a + cc_get (ec_row_coefficients ec ! t2) r else a)
       [t..<length (ec_variable_indices ec)] 0"

primrec implied_bound :: "EvaluatedConstraint \<Rightarrow> nat \<Rightarrow> idx \<Rightarrow> idx list \<Rightarrow> dbl \<Rightarrow> dbl option" where
  "implied_bound ec t v [] bound = Some bound"
| "implied_bound ec t v (r # rs) bound =
     (let excluded = ec_row_group_ids ec \<noteq> [] \<and> ec_row_group_ids ec ! r = None;
          a = combined_coeff ec t v r
      in if excluded \<or> a \<le> Fin (1 / 10 ^ 15) then None
         else let k = (if IsUniform (ec_rhs_values ec) then UniformValue (ec_rhs_values ec)
                       else cc_get (ec_rhs_values ec) r)
              in if k < 0 then None else implied_bound ec t v rs (std_max bound (k / a)))"

definition propagate_term :: "EvaluatedConstraint \<Rightarrow> dbl list \<Rightarrow> nat \<Rightarrow> nat \<Rightarrow> dbl list \<Rightarrow> dbl list" where
  "propagate_term ec lower num_rows t upper =
     (case ec_variable_indices ec ! t of
        None \<Rightarrow> upper
      | Some v \<Rightarrow>
          if Some v \<in> set (take t (ec_variable_indices ec)) then upper
          else (case implied_bound ec t v [0..<num_rows] 0 of
                  None \<Rightarrow> upper
                | Some bound \<Rightarrow>
                    if bound < upper ! v \<and> bound \<ge> lower ! v then upper[v := bound] else upper))"

definition propagate_constraint :: "dbl list \<Rightarrow> nat \<Rightarrow> EvaluatedConstraint \<Rightarrow> dbl list \<Rightarrow> dbl list" where
  "propagate_constraint lower num_rows ec upper =
     (if propagates ec lower num_rows
      then fold (propagate_term ec lower num_rows) [0..<length (ec_variable_indices ec)] upper
      else upper)"

definition DecidePropagateImpliedBounds :: "EvaluatedConstraint list \<Rightarrow> dbl list \<Rightarrow> dbl list \<Rightarrow> nat \<Rightarrow>
    dbl list" where
  "DecidePropagateImpliedBounds constraints lower upper num_rows =
     fold (propagate_constraint lower num_rows) constraints upper"

section \<open>Arithmetic of a usable constraint\<close>

text \<open>Finite coefficients, none in the window the sign test lets through.\<close>

definition sign_exact :: "EvaluatedConstraint \<Rightarrow> nat \<Rightarrow> bool" where
  "sign_exact ec n \<longleftrightarrow>
     (\<forall>col \<in> set (ec_row_coefficients ec). \<forall>r < n. row_active ec r \<longrightarrow>
        isfinite (cc_get col r) \<and> \<not> (Fin (- (1 / 10 ^ 15)) \<le> cc_get col r \<and> cc_get col r < 0))"

lemma propagates_coeff:
  assumes "propagates ec lower n" "sign_exact ec n" "ec_shape nv n ec"
    and "t < length (ec_variable_indices ec)" "r < n" "row_active ec r"
  shows "\<exists>c \<ge> 0. cc_get (ec_row_coefficients ec ! t) r = Fin c"
proof -
  let ?col = "ec_row_coefficients ec ! t"
  have col: "?col \<in> set (ec_row_coefficients ec)" using assms(3,4) by (simp add: ec_shape_def)
  have test: "\<not> (if IsUniform ?col then UniformValue ?col < Fin (- (1 / 10 ^ 15))
       else \<exists>r \<in> {0..<n}. \<not> (ec_row_group_ids ec \<noteq> [] \<and> ec_row_group_ids ec ! r = None) \<and>
              cc_get ?col r < Fin (- (1 / 10 ^ 15)))"
    using assms(1) col unfolding propagates_def has_negative_term_def list_ex_iff set_upt by blast
  have "\<not> cc_get ?col r < Fin (- (1 / 10 ^ 15))"
    using test assms(5,6)
    by (cases "IsUniform ?col") (auto simp: IsUniform_get row_active_def dest!: bspec [of _ _ r])
  moreover have "isfinite (cc_get ?col r)"
    "\<not> (Fin (- (1 / 10 ^ 15)) \<le> cc_get ?col r \<and> cc_get ?col r < 0)"
    using assms(2,5,6) col by (simp_all add: sign_exact_def)
  ultimately show ?thesis
    by (cases "cc_get ?col r") (simp_all add: zero_dbl_def not_less)
qed

lemma propagates_value:
  assumes "propagates ec lower n" "ec_shape (length lower) n ec"
    and "ec_variable_indices ec ! t = Some v" "t < length (ec_variable_indices ec)"
    and "boxed lower upper r X"
  shows "0 \<le> X v r"
proof -
  have v: "Some v \<in> set (ec_variable_indices ec)" using assms(3,4) by (metis nth_mem)
  then have "v < length lower" using assms(2) by (simp add: ec_shape_def)
  with assms(5) have "lower ! v \<le> Fin (X v r)" by (simp add: boxed_def)
  moreover have "\<not> lower ! v < 0"
    using v assms(1) by (auto simp: propagates_def has_negative_term_def list_ex_iff)
  ultimately show ?thesis by (cases "lower ! v") (auto simp: zero_dbl_def)
qed

lemma sum_list_zero: "\<forall>x \<in> set xs. f x = 0 \<Longrightarrow> (\<Sum>x\<leftarrow>xs. f x) = (0 :: real)"
  by (induction xs) simp_all

text \<open>The combined coefficient, as a real sum over all terms when \<open>t\<close> is the first to name \<open>v\<close>.\<close>

definition coeff_at :: "EvaluatedConstraint \<Rightarrow> idx \<Rightarrow> idx \<Rightarrow> nat \<Rightarrow> real" where
  "coeff_at ec v r t =
     (if ec_variable_indices ec ! t = Some v then rval (cc_get (ec_row_coefficients ec ! t) r) else 0)"

lemma combined_coeff_eq:
  assumes "propagates ec lower n" "sign_exact ec n" "ec_shape nv n ec" "r < n" "row_active ec r"
    and "Some v \<notin> set (take t (ec_variable_indices ec))"
  shows "combined_coeff ec t v r =
     Fin (\<Sum>t2\<leftarrow>[0..<length (ec_variable_indices ec)]. coeff_at ec v r t2)"
proof (cases "t \<le> length (ec_variable_indices ec)")
  case t: True
  let ?n = "length (ec_variable_indices ec)"
  have step: "fold (\<lambda>t2 a. if ec_variable_indices ec ! t2 = Some v
                   then a + cc_get (ec_row_coefficients ec ! t2) r else a) ts (Fin a) =
      Fin (a + (\<Sum>t2\<leftarrow>ts. coeff_at ec v r t2))" if "\<forall>t2 \<in> set ts. t2 < ?n" for ts a
    using that
  proof (induction ts arbitrary: a)
    case (Cons t2 ts)
    with propagates_coeff [OF assms(1-3) _ assms(4,5), of t2] show ?case
      by (auto simp: coeff_at_def)
  qed simp
  have none: "ec_variable_indices ec ! t2 \<noteq> Some v" if "t2 < t" for t2
  proof
    assume "ec_variable_indices ec ! t2 = Some v"
    with that t have "take t (ec_variable_indices ec) ! t2 = Some v" "t2 < length (take t (ec_variable_indices ec))"
      by simp_all
    with assms(6) show False by (metis nth_mem)
  qed
  then have before: "(\<Sum>t2\<leftarrow>[0..<t]. coeff_at ec v r t2) = 0"
    by (simp add: coeff_at_def sum_list_zero)
  have "[0..<?n] = [0..<t] @ [t..<?n]" using t upt_add_eq_append [of 0 t "?n - t"] by simp
  with step [of "[t..<?n]" 0] before show ?thesis
    by (simp add: combined_coeff_def zero_dbl_def)
next
  case False
  then have none: "\<forall>t2 < length (ec_variable_indices ec). ec_variable_indices ec ! t2 \<noteq> Some v"
    using assms(6) by (auto simp: in_set_conv_nth)
  with False show ?thesis
    by (simp add: combined_coeff_def coeff_at_def zero_dbl_def sum_list_zero)
qed

section \<open>One variable's share of a left-hand side\<close>

text \<open>
  All terms being non-negative, the terms of one variable at one row are at most the whole
  left-hand side: the row's own, or the total of a row set the row belongs to.
\<close>

definition coeff_sum :: "EvaluatedConstraint \<Rightarrow> idx \<Rightarrow> idx \<Rightarrow> real" where
  "coeff_sum ec v r = (\<Sum>t\<leftarrow>[0..<length (ec_variable_indices ec)]. coeff_at ec v r t)"

lemma sum_list_mono_Fin:
  assumes "\<And>t. t \<in> set ts \<Longrightarrow> \<exists>z. g t = Fin z \<and> f t \<le> z"
  shows "\<exists>z. (\<Sum>t\<leftarrow>ts. g t) = Fin z \<and> (\<Sum>t\<leftarrow>ts. f t) \<le> z"
  using assms
proof (induction ts)
  case (Cons t ts)
  then obtain y z where "g t = Fin y" "f t \<le> y" "(\<Sum>t\<leftarrow>ts. g t) = Fin z" "(\<Sum>t\<leftarrow>ts. f t) \<le> z"
    by force
  then show ?case by auto
qed (simp add: zero_dbl_def)

lemma sum_list_part:
  assumes "q \<in> set rs" "\<And>r. r \<in> set rs \<Longrightarrow> \<exists>z \<ge> 0. g r = Fin z"
  shows "\<exists>z. (\<Sum>r\<leftarrow>rs. g r) = Fin z \<and> rval (g q) \<le> z"
  using sum_list_mono_Fin [of rs g "\<lambda>r. if r = q then rval (g q) else 0"] assms
proof -
  have "rval (g q) \<le> (\<Sum>r\<leftarrow>rs. if r = q then rval (g q) else 0)"
    using assms(1) assms(2) [OF assms(1)]
    by (induction rs) (auto intro!: sum_list_nonneg add_increasing)
  moreover have "\<exists>z. g r = Fin z \<and> (if r = q then rval (g q) else 0) \<le> z" if "r \<in> set rs" for r
    using assms(2) [OF that] by auto
  ultimately show ?thesis
    using sum_list_mono_Fin [of rs g "\<lambda>r. if r = q then rval (g q) else 0"] by force
qed

lemma row_share:
  assumes "propagates ec lower n" "sign_exact ec n" "ec_shape (length lower) n ec"
    and "r < n" "row_active ec r" "boxed lower upper r X"
  shows "\<exists>z. row_lhs ec X r = Fin z \<and> coeff_sum ec v r * X v r \<le> z"
proof -
  let ?n = "length (ec_variable_indices ec)"
  let ?g = "\<lambda>t. term_val X r (ec_variable_indices ec ! t, ec_row_coefficients ec ! t)"
  have "zip (ec_variable_indices ec) (ec_row_coefficients ec) =
      map (\<lambda>t. (ec_variable_indices ec ! t, ec_row_coefficients ec ! t)) [0..<?n]"
    using assms(3) by (intro nth_equalityI) (simp_all add: ec_shape_def)
  then have lhs: "row_lhs ec X r = (\<Sum>t\<leftarrow>[0..<?n]. ?g t)" by (simp add: row_lhs_def comp_def)
  have "\<exists>z. ?g t = Fin z \<and> coeff_at ec v r t * X v r \<le> z" if "t \<in> set [0..<?n]" for t
  proof -
    from that have t: "t < ?n" by simp
    from propagates_coeff [OF assms(1-3) t assms(4,5)] obtain c where
      c: "0 \<le> c" "cc_get (ec_row_coefficients ec ! t) r = Fin c" by blast
    show ?thesis
    proof (cases "ec_variable_indices ec ! t")
      case None
      with c show ?thesis by (simp add: term_val_def coeff_at_def one_dbl_def)
    next
      case (Some u)
      with c propagates_value [OF assms(1,3) Some t assms(6)] show ?thesis
        by (simp add: term_val_def coeff_at_def)
    qed
  qed
  from sum_list_mono_Fin [of "[0..<?n]" ?g "\<lambda>t. coeff_at ec v r t * X v r", OF this]
  show ?thesis by (simp add: lhs coeff_sum_def sum_list_mult_const)
qed

lemma agg_share:
  assumes "propagates ec lower n" "sign_exact ec n" "ec_shape (length lower) n ec"
    and rows: "rows \<in> set (agg_row_sets ec n)" "q \<in> set rows"
    and box: "\<forall>r < n. boxed lower upper r X"
    and q: "q = hd rows \<or> scope_of input v \<noteq> SCALAR"
  shows "\<exists>z. agg_lhs input ec X rows = Fin z \<and> coeff_sum ec v q * X v q \<le> z"
proof -
  let ?n = "length (ec_variable_indices ec)"
  have in_rows: "r < n \<and> row_active ec r" if "r \<in> set rows" for r
    by (rule agg_row_sets_lt [OF assms(3) rows(1) that])
  have hd: "hd rows \<in> set rows" using rows(2) by (cases rows) simp_all
  have "\<exists>z. agg_term input ec X rows t = Fin z \<and> coeff_at ec v q t * X v q \<le> z"
    if "t \<in> set [0..<?n]" for t
  proof -
    from that have t: "t < ?n" by simp
    let ?c = "cc_get (ec_row_coefficients ec ! t)"
    have c: "\<exists>z \<ge> 0. ?c r = Fin z" if "r \<in> set rows" for r
      using propagates_coeff [OF assms(1-3) t] in_rows [OF that] by blast
    have size: "logical_size (ec_row_coefficients ec ! t) = n"
      using assms(3) t by (simp add: ec_shape_def)
    show ?thesis
    proof (cases "ec_variable_indices ec ! t")
      case None
      with sum_list_part [OF rows(2) c] c [OF rows(2)] show ?thesis
        by (force simp: agg_term_def coeff_at_def)
    next
      case (Some u)
      have pos: "0 \<le> X u r" if "r \<in> set rows" for r
        using propagates_value [OF assms(1,3) Some t] box in_rows [OF that] by blast
      have prod: "\<exists>z \<ge> 0. ?c r * Fin (X u r) = Fin z" if "r \<in> set rows" for r
        using c [OF that] pos [OF that] by force
      have share: "coeff_at ec v q t * X v q \<le> rval (?c q * Fin (X u q))"
        using c [OF rows(2)] pos [OF rows(2)] Some by (auto simp: coeff_at_def)
      show ?thesis
      proof (cases "counted_once input ec t u")
        case False
        with sum_list_part [OF rows(2) prod] share Some show ?thesis
          by (force simp: agg_term_def)
      next
        case True
        have "coeff_at ec v q t * X v q \<le> rval (?c (hd rows) * Fin (X u (hd rows)))"
          using share q prod [OF hd] True Some by (auto simp: counted_once_def coeff_at_def)
        moreover have "n > 0" using in_rows [OF hd] by simp
        ultimately show ?thesis
          using prod [OF hd] True Some size by (auto simp: agg_term_def)
      qed
    qed
  qed
  from sum_list_mono_Fin [of "[0..<?n]" "agg_term input ec X rows" "\<lambda>t. coeff_at ec v q t * X v q", OF this]
  show ?thesis by (simp add: agg_lhs_def coeff_sum_def sum_list_mult_const)
qed

text \<open>Both cases: on a satisfied constraint the share of \<open>v\<close> at some row with the same value of
  \<open>v\<close> is at most that row's bound.\<close>

lemma share_le_bound:
  assumes "propagates ec lower n" "sign_exact ec n" "ec_shape (length lower) n ec"
    and box: "\<forall>r < n. boxed lower upper r X"
    and sat: "sat_linear input ec X" and n: "n = si_num_rows input"
    and rhs: "ec_lhs_is_aggregate ec \<longrightarrow> RhsIsConstantWithinGroups ec"
    and scalar: "scope_of input v = SCALAR \<longrightarrow> (\<forall>r s. X v r = X v s)"
    and q: "q < n" "row_active ec q"
  shows "\<exists>r < n. X v r = X v q \<and> row_active ec r \<and>
           Fin (coeff_sum ec v r * X v r) \<le> cc_get (ec_rhs_values ec) r"
proof -
  have cmp: "l \<le> b" if "sat_cmp (ec_comparison_type ec) l b" for l b
    using assms(1) that by (cases l; cases b) (auto simp: propagates_def deq_def)
  show ?thesis
  proof (cases "ec_lhs_is_aggregate ec")
    case False
    with sat q n have "sat_row ec X q" by (simp add: sat_linear_def)
    then have "row_lhs ec X q \<le> cc_get (ec_rhs_values ec) q" by (auto simp: sat_row_def intro: cmp)
    moreover from box q(1) have "boxed lower upper q X" by blast
    note row_share [OF assms(1-3) q this, of v]
    ultimately show ?thesis using q
      by (intro exI [of _ q]) (cases "cc_get (ec_rhs_values ec) q"; auto)
  next
    case True
    from agg_row_sets_mem [OF assms(3) q] obtain rows where
      rows: "rows \<in> set (agg_row_sets ec n)" "q \<in> set rows" by blast
    have hd: "hd rows \<in> set rows" using rows(2) by (intro hd_in_set) auto
    define r where "r = (if scope_of input v = SCALAR then hd rows else q)"
    have r: "r \<in> set rows" "X v r = X v q" using rows(2) hd scalar by (auto simp: r_def)
    have anchor: "(if ec_row_group_ids ec = [] then 0 else hd rows) = hd rows"
      using rows by (auto simp: agg_row_sets_def upt_conv_Cons)
    have "sat_agg input ec X rows" using sat True rows(1) n by (simp add: sat_linear_def)
    then have "agg_lhs input ec X rows \<le> cc_get (ec_rhs_values ec) (hd rows)"
      by (auto simp: sat_agg_def anchor intro: cmp)
    moreover have "cc_get (ec_rhs_values ec) (hd rows) = cc_get (ec_rhs_values ec) r"
      using rhs_constant [OF _ assms(3) rows(1) hd r(1)] rhs True by simp
    moreover have "r = hd rows \<or> scope_of input v \<noteq> SCALAR" by (simp add: r_def)
    note agg_share [OF assms(1-3) rows(1) r(1) box this]
    moreover have "r < n \<and> row_active ec r" by (rule agg_row_sets_lt [OF assms(3) rows(1) r(1)])
    ultimately show ?thesis using r(2)
      by (intro exI [of _ r]) (cases "cc_get (ec_rhs_values ec) r"; auto)
  qed
qed

section \<open>Soundness\<close>

lemma std_max_ge: "b \<noteq> NaN \<Longrightarrow> b \<le> std_max b x \<and> std_max b x \<noteq> NaN \<and> (x \<noteq> NaN \<longrightarrow> x \<le> std_max b x)"
  by (cases b; cases x) (auto simp: std_max_def)

lemma dbl_le_trans: "a \<le> b \<Longrightarrow> b \<le> c \<Longrightarrow> a \<le> (c :: dbl)"
  by (cases a; cases b; cases c) auto

lemma implied_bound_spec:
  assumes "implied_bound ec t v rs b0 = Some b" "b0 \<noteq> NaN"
  shows "b0 \<le> b \<and> b \<noteq> NaN \<and> (\<forall>r \<in> set rs. row_active ec r \<and>
     \<not> combined_coeff ec t v r \<le> Fin (1 / 10 ^ 15) \<and>
     \<not> cc_get (ec_rhs_values ec) r < 0 \<and>
     (let ratio = cc_get (ec_rhs_values ec) r / combined_coeff ec t v r in ratio \<noteq> NaN \<longrightarrow> ratio \<le> b))"
  using assms
proof (induction rs arbitrary: b0)
  case Nil
  then show ?case by (cases b) auto
next
  case (Cons r rs)
  let ?k = "cc_get (ec_rhs_values ec) r" and ?a = "combined_coeff ec t v r"
  have here: "row_active ec r" "\<not> ?a \<le> Fin (1 / 10 ^ 15)" "\<not> ?k < 0"
    and rest: "implied_bound ec t v rs (std_max b0 (?k / ?a)) = Some b"
    using Cons.prems(1) by (auto simp: Let_def row_active_def IsUniform_get split: if_splits)
  note max = std_max_ge [OF Cons.prems(2), of "?k / ?a"]
  from Cons.IH [OF rest] max have "std_max b0 (?k / ?a) \<le> b" by blast
  then have "b0 \<le> b" "?k / ?a \<noteq> NaN \<longrightarrow> ?k / ?a \<le> b" using max dbl_le_trans by blast+
  with Cons.IH [OF rest] max here show ?case by (simp add: Let_def)
qed

definition usable :: "SolverInput \<Rightarrow> dbl list \<Rightarrow> EvaluatedConstraint \<Rightarrow> bool" where
  "usable input lower ec \<longleftrightarrow> ec_shape (length lower) (si_num_rows input) ec \<and>
     sign_exact ec (si_num_rows input) \<and>
     (ec_lhs_is_aggregate ec \<longrightarrow> RhsIsConstantWithinGroups ec)"

lemma propagate_term_keeps:
  assumes pr: "propagates ec lower n" and us: "usable input lower ec" and n: "n = si_num_rows input"
    and box: "\<forall>r < n. boxed lower upper r X" and sat: "sat_linear input ec X"
    and scalar: "\<forall>v < length lower. scope_of input v = SCALAR \<longrightarrow> (\<forall>r s. X v r = X v s)"
    and t: "t < length (ec_variable_indices ec)"
  shows "\<forall>r < n. boxed lower (propagate_term ec lower n t upper) r X"
proof (cases "\<exists>v b. ec_variable_indices ec ! t = Some v \<and>
    Some v \<notin> set (take t (ec_variable_indices ec)) \<and> implied_bound ec t v [0..<n] 0 = Some b")
  case False
  then have "propagate_term ec lower n t upper = upper"
    by (auto simp: propagate_term_def split: option.splits)
  with box show ?thesis by simp
next
  case True
  then obtain v b where v: "ec_variable_indices ec ! t = Some v"
    "Some v \<notin> set (take t (ec_variable_indices ec))" "implied_bound ec t v [0..<n] 0 = Some b" by blast
  have shape: "ec_shape (length lower) n ec" "sign_exact ec n"
    and rhs: "ec_lhs_is_aggregate ec \<longrightarrow> RhsIsConstantWithinGroups ec"
    using us n by (simp_all add: usable_def)
  have "Some v \<in> set (ec_variable_indices ec)" using v(1) t by (metis nth_mem)
  then have v_lt: "v < length lower" using shape(1) by (simp add: ec_shape_def)
  note spec = implied_bound_spec [OF v(3)]
  have "Fin (X v q) \<le> b" if q: "q < n" for q
  proof -
    have active: "row_active ec r" if "r < n" for r
      using spec that by (simp add: zero_dbl_def)
    from share_le_bound [OF pr shape(2,1) box sat n rhs _ q active [OF q], of v] scalar v_lt
    obtain r where r: "r < n" "X v r = X v q" "row_active ec r"
      "Fin (coeff_sum ec v r * X v r) \<le> cc_get (ec_rhs_values ec) r" by blast
    have a: "combined_coeff ec t v r = Fin (coeff_sum ec v r)"
      using combined_coeff_eq [OF pr shape(2,1) r(1,3) v(2)] by (simp add: coeff_sum_def)
    with spec r(1) have "coeff_sum ec v r > 0"
      by (auto simp: zero_dbl_def Let_def dest!: bspec [of _ _ r])
    moreover have "let ratio = cc_get (ec_rhs_values ec) r / combined_coeff ec t v r in
        ratio \<noteq> NaN \<longrightarrow> ratio \<le> b"
      using spec r(1) by (simp add: zero_dbl_def)
    ultimately show ?thesis
      using r(2,4) a
      by (cases "cc_get (ec_rhs_values ec) r"; cases b)
         (auto simp: Let_def field_simps dest: order_trans intro: mult_right_le_imp_le)
  qed
  with box show ?thesis
    by (cases "v < length upper")
       (simp_all add: propagate_term_def v boxed_def nth_list_update list_update_beyond)
qed

lemma propagate_constraint_keeps:
  assumes "propagates ec lower n \<Longrightarrow> usable input lower ec \<and> sat_linear input ec X" "n = si_num_rows input"
    and "\<forall>r < n. boxed lower upper r X"
    and "\<forall>v < length lower. scope_of input v = SCALAR \<longrightarrow> (\<forall>r s. X v r = X v s)"
  shows "\<forall>r < n. boxed lower (propagate_constraint lower n ec upper) r X"
proof (cases "propagates ec lower n")
  case True
  show ?thesis
    unfolding propagate_constraint_def if_P [OF True]
  proof (rule fold_invariant_list [where P = "\<lambda>upper. \<forall>r < n. boxed lower upper r X"])
    fix t upper
    assume "t \<in> set [0..<length (ec_variable_indices ec)]" "\<forall>r < n. boxed lower upper r X"
    with propagate_term_keeps [OF True _ assms(2) _ _ assms(4)] assms(1) [OF True]
    show "\<forall>r < n. boxed lower (propagate_term ec lower n t upper) r X" by simp
  qed (rule assms(3))
qed (use assms in \<open>simp add: propagate_constraint_def\<close>)

section \<open>Properties\<close>

text \<open>
  C28. The propagated upper bounds are sound: an assignment in the given box that satisfies the
  constraints the propagation reads lies in the tightened box as well, whether a constraint is
  imposed per row or as an aggregate over all rows or over groups.
\<close>

theorem implied_bounds_sound:
  assumes "\<forall>r < si_num_rows input. boxed lower upper r X"
    and "\<forall>ec \<in> set cs. propagates ec lower (si_num_rows input) \<longrightarrow>
           usable input lower ec \<and> sat_linear input ec X"
    and "\<forall>v < length lower. scope_of input v = SCALAR \<longrightarrow> (\<forall>r s. X v r = X v s)"
  shows "\<forall>r < si_num_rows input.
           boxed lower (DecidePropagateImpliedBounds cs lower upper (si_num_rows input)) r X"
  unfolding DecidePropagateImpliedBounds_def
proof (rule fold_invariant_list
    [where P = "\<lambda>upper. \<forall>r < si_num_rows input. boxed lower upper r X", OF assms(1)])
  fix ec upper
  assume "ec \<in> set cs" "\<forall>r < si_num_rows input. boxed lower upper r X"
  with propagate_constraint_keeps [OF _ refl this(2) assms(3)] assms(2)
  show "\<forall>r < si_num_rows input. boxed lower (propagate_constraint lower (si_num_rows input) ec upper) r X"
    by blast
qed

text \<open>The constraint \<open>2*x + 3*x <= 10\<close> over two rows tightens \<open>x <= 100\<close> to \<open>x <= 2\<close>.\<close>

definition demo_sum :: EvaluatedConstraint where
  "demo_sum = ec_default\<lparr>ec_variable_indices := [Some 0, Some 0],
     ec_row_coefficients := [MakeScalar (Fin 2) 2, MakeScalar (Fin 3) 2],
     ec_rhs_values := MakeScalar (Fin 10) 2, ec_comparison_type := COMPARE_LESSTHANOREQUALTO\<rparr>"

lemma demo_sum_bound:
  "DecidePropagateImpliedBounds [demo_sum] [Fin 0] [Fin 100] 2 = [Fin 2]"
  by (simp add: DecidePropagateImpliedBounds_def propagate_constraint_def propagates_def
      demo_sum_def ec_default_def has_negative_term_def propagate_term_def combined_coeff_def
      numeral_eq_Suc Let_def zero_dbl_def std_max_def IsUniform_def UniformValue_def)

lemma implied_bounds_sound_witness:
  "boxed [Fin 0] [Fin 2] 1 (\<lambda>v r. 2)"
proof -
  let ?in = "si_default\<lparr>si_num_rows := 2, si_num_decide_vars := 1\<rparr>"
  have box: "\<forall>r < si_num_rows ?in. boxed [Fin 0] [Fin 100] r (\<lambda>v r. 2)"
    by (simp add: boxed_def)
  have sat: "\<forall>ec \<in> set [demo_sum]. propagates ec [Fin 0] (si_num_rows ?in) \<longrightarrow>
      usable ?in [Fin 0] ec \<and> sat_linear ?in ec (\<lambda>v r. 2)"
    by (simp add: usable_def ec_shape_def demo_sum_def ec_default_def sign_exact_def sat_linear_def
        si_default_def sat_row_def row_lhs_def term_val_def zero_dbl_def)
  have scalar: "\<forall>v < length [Fin 0]. scope_of ?in v = SCALAR \<longrightarrow> (\<forall>r s. (2 :: real) = 2)" by simp
  from implied_bounds_sound [OF box sat scalar] show ?thesis
    by (simp add: si_default_def demo_sum_bound)
qed

end
