(* ===== verification/ConstructLowering.thy ===== *)
theory ConstructLowering
  imports BigM
begin

text \<open>
  \<open>ilp_linearization.cpp\<close> and the struct \<open>AuxRange\<close> of \<open>ilp_linearization.hpp\<close>: the allocators of
  global auxiliary columns every pass shares, and \<open>LowerDecideConstructs\<close>, the last pass, which
  turns the conditional rows a backend cannot state into ordinary rows with a Big-M.

  The box of a flat column is read from a \<open>FormulationBox\<close>; \<open>OwnerOf\<close> answers for every column
  below the global block (theory \<open>VarIndexing\<close>), which is the source's assertion.

  Shown: the allocators keep the six global vectors and the label channel parallel and hand out
  consecutive columns; a row's flat reach bounds it over the box; and the lowered rows hold exactly
  when the rows they replace do, at every point of the box whose binaries are 0 or 1.
\<close>

section \<open>Ranges of row families\<close>

record AuxRange =
  ar_lo :: dbl
  ar_hi :: dbl
  ar_lo_unbounded :: bool
  ar_hi_unbounded :: bool
  ar_unbounded_var :: "idx option"

definition ar_default :: AuxRange where
  "ar_default = \<lparr>ar_lo = 0, ar_hi = 0, ar_lo_unbounded = False, ar_hi_unbounded = False,
     ar_unbounded_var = None\<rparr>"

definition Unbounded :: "AuxRange \<Rightarrow> bool" where
  "Unbounded a \<longleftrightarrow> ar_lo_unbounded a \<or> ar_hi_unbounded a"

definition Span :: "AuxRange \<Rightarrow> dbl" where
  "Span a = ar_hi a - ar_lo a"

definition MarkLoUnbounded :: "idx option \<Rightarrow> AuxRange \<Rightarrow> AuxRange" where
  "MarkLoUnbounded var a =
     (let a = (if \<not> Unbounded a then a\<lparr>ar_unbounded_var := var\<rparr> else a)
      in a\<lparr>ar_lo_unbounded := True\<rparr>)"

definition MarkHiUnbounded :: "idx option \<Rightarrow> AuxRange \<Rightarrow> AuxRange" where
  "MarkHiUnbounded var a =
     (let a = (if \<not> Unbounded a then a\<lparr>ar_unbounded_var := var\<rparr> else a)
      in a\<lparr>ar_hi_unbounded := True\<rparr>)"

definition MarkUnbounded :: "idx option \<Rightarrow> AuxRange \<Rightarrow> AuxRange" where
  "MarkUnbounded var a = MarkHiUnbounded var (MarkLoUnbounded var a)"

definition MinOf :: "dbl \<Rightarrow> dbl \<Rightarrow> dbl" where
  "MinOf a b = (if a < b then a else b)"

definition MaxOf :: "dbl \<Rightarrow> dbl \<Rightarrow> dbl" where
  "MaxOf a b = (if a > b then a else b)"

definition Cover :: "AuxRange \<Rightarrow> AuxRange \<Rightarrow> AuxRange" where
  "Cover a other =
     a\<lparr>ar_lo := MinOf (ar_lo a) (ar_lo other), ar_hi := MaxOf (ar_hi a) (ar_hi other),
       ar_unbounded_var := (if \<not> Unbounded a \<and> Unbounded other then ar_unbounded_var other
                            else ar_unbounded_var a),
       ar_lo_unbounded := (ar_lo_unbounded a \<or> ar_lo_unbounded other),
       ar_hi_unbounded := (ar_hi_unbounded a \<or> ar_hi_unbounded other)\<rparr>"

definition CoverRow :: "dbl \<Rightarrow> dbl \<Rightarrow> AuxRange \<Rightarrow> AuxRange" where
  "CoverRow row_lo row_hi a =
     a\<lparr>ar_lo := MinOf (ar_lo a) row_lo, ar_hi := MaxOf (ar_hi a) row_hi\<rparr>"

definition CoverRowSided :: "dbl \<Rightarrow> dbl \<Rightarrow> idx option \<Rightarrow> AuxRange \<Rightarrow> AuxRange" where
  "CoverRowSided row_lo row_hi var a =
     (let a = (if isinf row_lo then MarkLoUnbounded var a else a\<lparr>ar_lo := MinOf (ar_lo a) row_lo\<rparr>)
      in if isinf row_hi then MarkHiUnbounded var a else a\<lparr>ar_hi := MaxOf (ar_hi a) row_hi\<rparr>)"

text \<open>The values a range admits: finite ends, and each closed end respected.\<close>

definition range_has :: "AuxRange \<Rightarrow> real \<Rightarrow> bool" where
  "range_has a y \<longleftrightarrow> (\<not> ar_lo_unbounded a \<longrightarrow> ar_lo a \<le> Fin y) \<and> (\<not> ar_hi_unbounded a \<longrightarrow> Fin y \<le> ar_hi a)"

definition range_fin :: "AuxRange \<Rightarrow> bool" where
  "range_fin a \<longleftrightarrow> isfinite (ar_lo a) \<and> isfinite (ar_hi a)"

lemma MinOf_Fin [simp]: "MinOf (Fin a) (Fin b) = Fin (min a b)"
  by (simp add: MinOf_def min_def)

lemma MaxOf_Fin [simp]: "MaxOf (Fin a) (Fin b) = Fin (max a b)"
  by (auto simp: MaxOf_def max_def)

lemma ar_default_fin [simp]: "range_fin ar_default"
  by (simp add: range_fin_def ar_default_def fin_intro)

lemma CoverRowSided_fin:
  assumes "range_fin a" "isnan lo = False" "isnan hi = False"
  shows "range_fin (CoverRowSided lo hi var a)"
  using assms
  by (cases lo; cases hi; cases "ar_lo a"; cases "ar_hi a")
     (simp_all add: range_fin_def CoverRowSided_def MarkLoUnbounded_def MarkHiUnbounded_def Let_def)

lemma CoverRowSided_keeps:
  assumes "range_fin a" "range_has a y" "\<not> isnan lo" "\<not> isnan hi"
  shows "range_has (CoverRowSided lo hi var a) y"
  using assms
  by (cases lo; cases hi; cases "ar_lo a"; cases "ar_hi a")
     (auto simp: range_fin_def range_has_def CoverRowSided_def MarkLoUnbounded_def MarkHiUnbounded_def Let_def)

lemma CoverRowSided_covers:
  assumes "range_fin a" "lo \<le> Fin y" "Fin y \<le> hi"
  shows "range_has (CoverRowSided lo hi var a) y"
  using assms
  by (cases lo; cases hi; cases "ar_lo a"; cases "ar_hi a")
     (auto simp: range_fin_def range_has_def CoverRowSided_def MarkLoUnbounded_def MarkHiUnbounded_def Let_def)

lemma Cover_covers:
  assumes "range_fin a" "range_fin b" "range_has a y \<or> range_has b y"
  shows "range_fin (Cover a b) \<and> range_has (Cover a b) y"
  using assms
  by (cases "ar_lo a"; cases "ar_hi a"; cases "ar_lo b"; cases "ar_hi b")
     (auto simp: range_fin_def range_has_def Cover_def)

section \<open>Global auxiliary columns\<close>

text \<open>\<open>resize\<close> truncates or pads with empty labels; the label then lands on its column.\<close>

definition LabelGlobalAux :: "VarIndexer \<Rightarrow> idx \<Rightarrow> string \<Rightarrow> SolverInput \<Rightarrow> SolverInput" where
  "LabelGlobalAux vi aux_idx label input =
     (let n = aux_idx - vi_global_block_start vi; ls = si_global_variable_labels input
      in input\<lparr>si_global_variable_labels := take n ls @ replicate (n - length ls) [] @ [label]\<rparr>)"

definition AddGlobalContinuousAux :: "VarIndexer \<Rightarrow> AuxRange \<Rightarrow> dbl \<Rightarrow> string \<Rightarrow> SolverInput \<Rightarrow>
    SolverInput \<times> idx" where
  "AddGlobalContinuousAux vi rg obj_coeff label input =
     (let aux_idx = vi_global_block_start vi + si_num_global_vars input;
          input = input\<lparr>si_num_global_vars := si_num_global_vars input + 1\<rparr>;
          input = LabelGlobalAux vi aux_idx label input
      in (input\<lparr>
            si_global_variable_types := si_global_variable_types input @ [DOUBLE],
            si_global_lower_bounds := si_global_lower_bounds input @
              [if ar_lo_unbounded rg then Fin (- (10 ^ 30)) else ar_lo rg],
            si_global_upper_bounds := si_global_upper_bounds input @
              [if ar_hi_unbounded rg then Fin (10 ^ 30) else ar_hi rg],
            si_global_bounds_unbounded := si_global_bounds_unbounded input @ [Unbounded rg],
            si_global_obj_coeffs := si_global_obj_coeffs input @ [obj_coeff]\<rparr>, aux_idx))"

definition AddGlobalBinaryAux :: "VarIndexer \<Rightarrow> dbl \<Rightarrow> string \<Rightarrow> SolverInput \<Rightarrow> SolverInput \<times> idx" where
  "AddGlobalBinaryAux vi obj_coeff label input =
     (let aux_idx = vi_global_block_start vi + si_num_global_vars input;
          input = input\<lparr>si_num_global_vars := si_num_global_vars input + 1\<rparr>;
          input = LabelGlobalAux vi aux_idx label input
      in (input\<lparr>
            si_global_variable_types := si_global_variable_types input @ [BOOLEAN],
            si_global_lower_bounds := si_global_lower_bounds input @ [0],
            si_global_upper_bounds := si_global_upper_bounds input @ [1],
            si_global_bounds_unbounded := si_global_bounds_unbounded input @ [False],
            si_global_obj_coeffs := si_global_obj_coeffs input @ [obj_coeff]\<rparr>, aux_idx))"

definition PinGlobalAux :: "VarIndexer \<Rightarrow> idx \<Rightarrow> dbl \<Rightarrow> SolverInput \<Rightarrow> SolverInput" where
  "PinGlobalAux vi aux_idx v input =
     (let g = aux_idx - vi_global_block_start vi
      in input\<lparr>si_global_lower_bounds := (si_global_lower_bounds input)[g := v],
               si_global_upper_bounds := (si_global_upper_bounds input)[g := v]\<rparr>)"

section \<open>Lowering conditional rows\<close>

definition FlatColumnBox :: "SolverInput \<Rightarrow> FormulationBox \<Rightarrow> VarIndexer \<Rightarrow> idx \<Rightarrow> dbl \<times> dbl" where
  "FlatColumnBox input box vi c =
     (if c \<ge> vi_global_block_start vi then
        (let g = c - vi_global_block_start vi; lo = fb_global_lower box ! g; hi = fb_global_upper box ! g
         in if si_global_variable_types input ! g = BOOLEAN then (MaxValue lo 0, MinValue hi 1)
            else (lo, hi))
      else
        (let v = the (OwnerOf vi c); lo = fb_lower box ! v; hi = fb_upper box ! v
         in if si_variable_types input ! v = BOOLEAN then (lo, MinValue hi 1) else (lo, hi)))"

text \<open>\<open>Inl\<close> the column to blame when the end the row depends on is open, \<open>Inr\<close> the reach.\<close>

primrec FlatRowReach :: "SolverInput \<Rightarrow> FormulationBox \<Rightarrow> VarIndexer \<Rightarrow> bool \<Rightarrow> (idx \<times> dbl) list \<Rightarrow>
    dbl \<Rightarrow> idx + dbl" where
  "FlatRowReach input box vi hi_end [] reach = Inr reach"
| "FlatRowReach input box vi hi_end (term # ts) reach =
     (let (k, c) = term
      in if c = 0 then FlatRowReach input box vi hi_end ts reach
         else let (lo, hi) = FlatColumnBox input box vi k;
                  end_val = (if (c > 0) = hi_end then hi else lo)
              in if end_val \<ge> Fin (10 ^ 20) \<or> end_val \<le> Fin (- (10 ^ 20)) then Inl k
                 else FlatRowReach input box vi hi_end ts (reach + c * end_val))"

definition lower_indicator :: "VarIndexer \<Rightarrow> FormulationBox \<Rightarrow> string list \<Rightarrow> IndicatorConstraintSpec \<Rightarrow>
    SolverInput \<Rightarrow> SolverInput res" where
  "lower_indicator vi box var_names ic input =
     (let row = ic_row ic; hi_end = (rc_sense row = Le)
      in case FlatRowReach input box vi hi_end (zip (rc_indices row) (rc_coefficients row)) 0 of
           Inl blame_col \<Rightarrow> Inl (ThrowUnboundedBigMNaming (OwnerOf vi blame_col) var_names ''<>'')
         | Inr reach \<Rightarrow>
             (let M = MaxValue (if hi_end then reach - rc_rhs row else rc_rhs row - reach) 0 + 1;
                  m_coeff = (if ic_binary_value ic = 0 then (if hi_end then - M else M)
                             else (if hi_end then M else - M));
                  rhs = (if ic_binary_value ic = 0 then rc_rhs row
                         else rc_rhs row + (if hi_end then M else - M));
                  lowered = row\<lparr>rc_rhs := rhs,
                                rc_indices := rc_indices row @ [ic_binary_column ic],
                                rc_coefficients := rc_coefficients row @ [m_coeff]\<rparr>
              in Inr (input\<lparr>si_global_constraints := si_global_constraints input @ [lowered]\<rparr>)))"

definition LowerDecideConstructs :: "VarIndexer \<Rightarrow> FormulationBox \<Rightarrow> string list \<Rightarrow>
    SolverConstructSupport \<Rightarrow> SolverInput \<Rightarrow> SolverInput res" where
  "LowerDecideConstructs vi box var_names constructs input =
     (if cs_not_equal constructs \<or> si_indicator_constraints input = [] then Inr input
      else case fold_res (lower_indicator vi box var_names) (si_indicator_constraints input) input of
             Inl e \<Rightarrow> Inl e
           | Inr input' \<Rightarrow> Inr (input'\<lparr>si_indicator_constraints := []\<rparr>))"

section \<open>The contract of an allocator\<close>

text \<open>
  The global vectors are parallel, one entry per global column, and the label channel never runs
  ahead of them. An allocation returns the next column, keeps the columns handed out before it and
  touches no row.
\<close>

definition globals_ok :: "SolverInput \<Rightarrow> bool" where
  "globals_ok input \<longleftrightarrow>
     (let n = si_num_global_vars input
      in length (si_global_variable_types input) = n \<and> length (si_global_lower_bounds input) = n \<and>
         length (si_global_upper_bounds input) = n \<and> length (si_global_bounds_unbounded input) = n \<and>
         length (si_global_obj_coeffs input) = n \<and> length (si_global_variable_labels input) \<le> n)"

definition label_of :: "SolverInput \<Rightarrow> nat \<Rightarrow> string" where
  "label_of input g = (if g < length (si_global_variable_labels input)
                       then si_global_variable_labels input ! g else [])"

definition keeps_columns :: "SolverInput \<Rightarrow> SolverInput \<Rightarrow> bool" where
  "keeps_columns input input' \<longleftrightarrow>
     (\<forall>g < si_num_global_vars input.
        si_global_variable_types input' ! g = si_global_variable_types input ! g \<and>
        si_global_lower_bounds input' ! g = si_global_lower_bounds input ! g \<and>
        si_global_upper_bounds input' ! g = si_global_upper_bounds input ! g \<and>
        si_global_obj_coeffs input' ! g = si_global_obj_coeffs input ! g \<and>
        label_of input' g = label_of input g)"

definition keeps_rows :: "SolverInput \<Rightarrow> SolverInput \<Rightarrow> bool" where
  "keeps_rows input input' \<longleftrightarrow>
     si_constraints input' = si_constraints input \<and>
     si_global_constraints input' = si_global_constraints input \<and>
     si_indicator_constraints input' = si_indicator_constraints input \<and>
     si_general_constraints input' = si_general_constraints input \<and>
     si_lower_bounds input' = si_lower_bounds input \<and> si_upper_bounds input' = si_upper_bounds input"

locale aux_allocator =
  fixes alloc :: "'a \<Rightarrow> SolverInput \<Rightarrow> SolverInput \<times> idx"
    and start :: idx
  assumes alloc_idx: "snd (alloc a input) = start + si_num_global_vars input"
    and alloc_count: "si_num_global_vars (fst (alloc a input)) = Suc (si_num_global_vars input)"
    and alloc_ok: "globals_ok input \<Longrightarrow> globals_ok (fst (alloc a input))"
    and alloc_columns: "globals_ok input \<Longrightarrow> keeps_columns input (fst (alloc a input))"
    and alloc_rows: "keeps_rows input (fst (alloc a input))"
begin

text \<open>A run of allocations hands out consecutive, hence distinct, columns.\<close>

primrec allocs :: "'a list \<Rightarrow> SolverInput \<Rightarrow> SolverInput \<times> idx list" where
  "allocs [] input = (input, [])"
| "allocs (a # as) input =
     (let s = alloc a input; t = allocs as (fst s) in (fst t, snd s # snd t))"

lemma allocs_columns:
  "snd (allocs as input) = map (\<lambda>k. start + k) [si_num_global_vars input..<si_num_global_vars input + length as]"
proof (induction as arbitrary: input)
  case (Cons a as)
  have "[n..<Suc n + length as] = n # [Suc n..<Suc n + length as]" for n
    by (rule upt_conv_Cons) simp
  with Cons [of "fst (alloc a input)"] show ?case
    by (simp add: Let_def alloc_idx alloc_count del: upt_Suc)
qed simp

lemma allocs_distinct: "distinct (snd (allocs as input))"
  by (simp add: allocs_columns distinct_map)

lemma allocs_rows: "keeps_rows input (fst (allocs as input))"
proof (induction as arbitrary: input)
  case (Cons a as)
  show ?case
    using alloc_rows [of input a] Cons [of "fst (alloc a input)"] by (simp add: keeps_rows_def Let_def)
qed (simp add: keeps_rows_def)

end

lemma LabelGlobalAux_simps [simp]:
  "si_num_global_vars (LabelGlobalAux vi a l input) = si_num_global_vars input"
  "si_global_variable_types (LabelGlobalAux vi a l input) = si_global_variable_types input"
  "si_global_lower_bounds (LabelGlobalAux vi a l input) = si_global_lower_bounds input"
  "si_global_upper_bounds (LabelGlobalAux vi a l input) = si_global_upper_bounds input"
  "si_global_bounds_unbounded (LabelGlobalAux vi a l input) = si_global_bounds_unbounded input"
  "si_global_obj_coeffs (LabelGlobalAux vi a l input) = si_global_obj_coeffs input"
  "si_constraints (LabelGlobalAux vi a l input) = si_constraints input"
  "si_global_constraints (LabelGlobalAux vi a l input) = si_global_constraints input"
  "si_indicator_constraints (LabelGlobalAux vi a l input) = si_indicator_constraints input"
  "si_general_constraints (LabelGlobalAux vi a l input) = si_general_constraints input"
  "si_lower_bounds (LabelGlobalAux vi a l input) = si_lower_bounds input"
  "si_upper_bounds (LabelGlobalAux vi a l input) = si_upper_bounds input"
  by (simp_all add: LabelGlobalAux_def Let_def)

interpretation cont: aux_allocator "\<lambda>(rg, obj, label). AddGlobalContinuousAux vi rg obj label"
  "vi_global_block_start vi" for vi
  by unfold_locales
     (auto simp: AddGlobalContinuousAux_def Let_def globals_ok_def keeps_columns_def keeps_rows_def
       label_of_def LabelGlobalAux_def nth_append)

interpretation bin: aux_allocator "\<lambda>(obj, label). AddGlobalBinaryAux vi obj label"
  "vi_global_block_start vi" for vi
  by unfold_locales
     (auto simp: AddGlobalBinaryAux_def Let_def globals_ok_def keeps_columns_def keeps_rows_def
       label_of_def LabelGlobalAux_def nth_append)

section \<open>Flat reach\<close>

definition in_flat_box :: "SolverInput \<Rightarrow> FormulationBox \<Rightarrow> VarIndexer \<Rightarrow> (idx \<Rightarrow> real) \<Rightarrow> idx \<Rightarrow> bool" where
  "in_flat_box input box vi x k \<longleftrightarrow>
     (let (lo, hi) = FlatColumnBox input box vi k in lo \<le> Fin (x k) \<and> Fin (x k) \<le> hi)"

definition term_sum :: "(idx \<times> dbl) list \<Rightarrow> (idx \<Rightarrow> real) \<Rightarrow> real" where
  "term_sum ts x = (\<Sum>(k, c)\<leftarrow>ts. rval c * x k)"

lemma FlatRowReach_bound:
  assumes "FlatRowReach input box vi hi_end ts (Fin a) = Inr R"
    and "\<forall>(k, c) \<in> set ts. isfinite c \<and> in_flat_box input box vi x k"
  shows "\<exists>r. R = Fin r \<and> (if hi_end then term_sum ts x \<le> r - a else r - a \<le> term_sum ts x)"
  using assms
proof (induction ts arbitrary: a)
  case (Cons t ts)
  obtain k c where t: "t = (k, c)" by force
  then obtain q where q: "c = Fin q" using Cons.prems(2) by (auto simp: isfinite_iff)
  obtain lo hi where box: "FlatColumnBox input box vi k = (lo, hi)" by force
  have x: "lo \<le> Fin (x k)" "Fin (x k) \<le> hi"
    using Cons.prems(2) box by (auto simp: t in_flat_box_def)
  show ?case
  proof (cases "q = 0")
    case True
    with Cons.prems have "FlatRowReach input box vi hi_end ts (Fin a) = Inr R"
      by (simp add: t q zero_dbl_def)
    from Cons.IH [OF this] Cons.prems(2) True show ?thesis
      by (cases hi_end) (auto simp: t q term_sum_def)
  next
    case False
    define e where "e = (if (q > 0) = hi_end then hi else lo)"
    have closed: "\<not> e \<ge> Fin (10 ^ 20)" "\<not> e \<le> Fin (- (10 ^ 20))"
      and rest: "FlatRowReach input box vi hi_end ts (Fin a + c * e) = Inr R"
      using Cons.prems(1) False box by (auto simp: t q e_def zero_dbl_def Let_def split: if_splits)
    from closed x obtain w where w: "e = Fin w"
      by (cases e) (auto simp: e_def split: if_splits)
    have "if hi_end then q * x k \<le> q * w else q * w \<le> q * x k"
      using x w False
      by (auto simp: e_def not_less split: if_splits intro: mult_left_mono mult_left_mono_neg)
    moreover have "FlatRowReach input box vi hi_end ts (Fin (a + q * w)) = Inr R"
      using rest by (simp add: q w)
    moreover have "\<forall>(k, c) \<in> set ts. isfinite c \<and> in_flat_box input box vi x k"
      using Cons.prems(2) by simp
    ultimately show ?thesis
      using Cons.IH [of "a + q * w"] by (auto simp: t q term_sum_def split: if_splits)
  qed
qed (auto simp: term_sum_def)

text \<open>A refusal names a column of the row whose box is open.\<close>

definition col_open :: "SolverInput \<Rightarrow> FormulationBox \<Rightarrow> VarIndexer \<Rightarrow> idx \<Rightarrow> bool" where
  "col_open input box vi k \<longleftrightarrow>
     (let (lo, hi) = FlatColumnBox input box vi k; open_end = (\<lambda>d. d \<ge> Fin (10 ^ 20) \<or> d \<le> Fin (- (10 ^ 20)))
      in open_end lo \<or> open_end hi)"

lemma FlatRowReach_blame:
  "FlatRowReach input box vi hi_end ts a = Inl k \<Longrightarrow> k \<in> fst ` set ts \<and> col_open input box vi k"
proof (induction ts arbitrary: a)
  case (Cons t ts)
  obtain j c where t: "t = (j, c)" by force
  obtain lo hi where box: "FlatColumnBox input box vi j = (lo, hi)" by force
  have "(j = k \<and> col_open input box vi j) \<or> (\<exists>a. FlatRowReach input box vi hi_end ts a = Inl k)"
    using Cons.prems by (auto simp: t box col_open_def Let_def split: if_splits)
  with Cons.IH show ?case by (auto simp: t)
qed simp

lemma FlatRowReach_closed:
  "\<forall>(k, c) \<in> set ts. \<not> col_open input box vi k \<Longrightarrow> \<exists>R. FlatRowReach input box vi hi_end ts a = Inr R"
  using FlatRowReach_blame [of input box vi hi_end ts a]
  by (cases "FlatRowReach input box vi hi_end ts a") force+

section \<open>The lowered rows\<close>

text \<open>A conditional row as the passes emit it: one-sided, finite, on a 0/1 condition.\<close>

definition conditional_ok :: "IndicatorConstraintSpec \<Rightarrow> bool" where
  "conditional_ok ic \<longleftrightarrow>
     rc_sense (ic_row ic) \<noteq> Eq \<and> isfinite (rc_rhs (ic_row ic)) \<and>
     length (rc_indices (ic_row ic)) = length (rc_coefficients (ic_row ic)) \<and>
     list_all isfinite (rc_coefficients (ic_row ic)) \<and>
     (ic_binary_value ic = 0 \<or> ic_binary_value ic = 1)"

text \<open>The points a lowering is right for: in the box on the row's columns, 0 or 1 on the binary.\<close>

definition lowering_point :: "SolverInput \<Rightarrow> FormulationBox \<Rightarrow> VarIndexer \<Rightarrow> (idx \<Rightarrow> real) \<Rightarrow>
    IndicatorConstraintSpec \<Rightarrow> bool" where
  "lowering_point input box vi x ic \<longleftrightarrow>
     (\<forall>k \<in> set (rc_indices (ic_row ic)). in_flat_box input box vi x k) \<and>
     (x (ic_binary_column ic) = 0 \<or> x (ic_binary_column ic) = 1)"

definition flat_big_m :: "SolverInput \<times> FormulationBox \<times> VarIndexer \<times> RawConstraint \<Rightarrow> real option" where
  "flat_big_m = (\<lambda>(input, box, vi, row).
     case FlatRowReach input box vi (rc_sense row = Le) (zip (rc_indices row) (rc_coefficients row)) 0 of
       Inl k \<Rightarrow> None
     | Inr reach \<Rightarrow> Some (rval
         (MaxValue (if rc_sense row = Le then reach - rc_rhs row else rc_rhs row - reach) 0 + 1)))"

definition flat_excess :: "SolverInput \<times> FormulationBox \<times> VarIndexer \<times> RawConstraint \<Rightarrow> (idx \<Rightarrow> real) \<Rightarrow> real" where
  "flat_excess = (\<lambda>(input, box, vi, row) x.
     let d = lin_real (rc_indices row) (rc_coefficients row) x - rval (rc_rhs row)
     in if rc_sense row = Le then d else - d)"

definition flat_admits :: "SolverInput \<times> FormulationBox \<times> VarIndexer \<times> RawConstraint \<Rightarrow> (idx \<Rightarrow> real) \<Rightarrow> bool" where
  "flat_admits = (\<lambda>(input, box, vi, row) x.
     isfinite (rc_rhs row) \<and> list_all isfinite (rc_coefficients row) \<and>
     (\<forall>k \<in> set (rc_indices row). in_flat_box input box vi x k))"

lemma flat_reach_bound:
  assumes adm: "flat_admits (input, box, vi, row) x"
    and R: "FlatRowReach input box vi hi_end (zip (rc_indices row) (rc_coefficients row)) 0 = Inr R"
  shows "\<exists>r. R = Fin r \<and> (if hi_end then lin_real (rc_indices row) (rc_coefficients row) x \<le> r
                           else r \<le> lin_real (rc_indices row) (rc_coefficients row) x)"
proof -
  have "\<forall>(k, c) \<in> set (zip (rc_indices row) (rc_coefficients row)).
      isfinite c \<and> in_flat_box input box vi x k"
    using adm by (auto simp: flat_admits_def list_all_iff dest: set_zip_leftD set_zip_rightD)
  from FlatRowReach_bound [OF _ this, of hi_end 0 R] R show ?thesis
    by (cases hi_end) (auto simp: zero_dbl_def term_sum_def lin_real_def)
qed

interpretation flatm: big_m_source flat_big_m flat_excess flat_admits
proof
  fix p :: "idx \<Rightarrow> real" and q m
  assume M: "flat_big_m q = Some m" and adm: "flat_admits q p"
  obtain input box vi row where q: "q = (input, box, vi, row)" by (cases q)
  from M obtain R where R: "FlatRowReach input box vi (rc_sense row = Le)
      (zip (rc_indices row) (rc_coefficients row)) 0 = Inr R"
    and m: "m = rval (MaxValue (if rc_sense row = Le then R - rc_rhs row else rc_rhs row - R) 0 + 1)"
    by (auto simp: q flat_big_m_def split: sum.splits)
  from flat_reach_bound [OF adm [unfolded q] R] obtain r where r: "R = Fin r"
    "if rc_sense row = Le then lin_real (rc_indices row) (rc_coefficients row) p \<le> r
     else r \<le> lin_real (rc_indices row) (rc_coefficients row) p" by blast
  obtain b where b: "rc_rhs row = Fin b" using adm by (auto simp: q flat_admits_def isfinite_iff)
  from r b m show "flat_excess q p \<le> m"
    by (auto simp: q flat_excess_def Let_def zero_dbl_def one_dbl_def split: if_splits)
qed

lemma lower_indicator_row:
  assumes run: "lower_indicator vi box names ic input = Inr input'"
    and ok: "conditional_ok ic" and x: "lowering_point input box vi x ic"
  shows "\<exists>row. input' = input\<lparr>si_global_constraints := si_global_constraints input @ [row]\<rparr> \<and>
     (sat_raw row x \<longleftrightarrow> sat_indicator ic x)"
proof -
  let ?row = "ic_row ic" and ?z = "x (ic_binary_column ic)"
  have adm: "flat_admits (input, box, vi, ?row) x"
    using ok x by (simp add: flat_admits_def conditional_ok_def lowering_point_def)
  from run obtain R where R: "FlatRowReach input box vi (rc_sense ?row = Le)
      (zip (rc_indices ?row) (rc_coefficients ?row)) 0 = Inr R"
    by (auto simp: lower_indicator_def Let_def split: sum.splits)
  from flat_reach_bound [OF adm R] obtain r where r: "R = Fin r" by blast
  obtain b where b: "rc_rhs ?row = Fin b" using ok by (auto simp: conditional_ok_def isfinite_iff)
  let ?l = "lin_real (rc_indices ?row) (rc_coefficients ?row) x"
  have lhs: "lin_val (rc_indices ?row) (rc_coefficients ?row) x = Fin ?l"
    using ok by (intro lin_val_finite) (simp add: conditional_ok_def)
  have lhs_app: "lin_val (rc_indices ?row @ [ic_binary_column ic]) (rc_coefficients ?row @ [Fin c]) x =
      Fin (?l + c * ?z)" for c
    using ok lhs by (simp add: lin_val_append conditional_ok_def zero_dbl_def)
  define m where "m = max (if rc_sense ?row = Le then r - b else b - r) 0 + 1"
  have m: "flat_big_m (input, box, vi, ?row) = Some m"
    using R b r by (simp add: flat_big_m_def m_def zero_dbl_def one_dbl_def)
  have z: "?z = 0 \<or> ?z = 1" using x by (simp add: lowering_point_def)
  note zero = flatm.relaxed_on_zero [OF m adm z] and one = flatm.relaxed_on_one [OF m adm z]
  define row where "row = ?row\<lparr>
     rc_rhs := (if ic_binary_value ic = 0 then Fin b
                else Fin (b + (if rc_sense ?row = Le then m else - m))),
     rc_indices := rc_indices ?row @ [ic_binary_column ic],
     rc_coefficients := rc_coefficients ?row @
       [Fin (if (ic_binary_value ic = 0) = (rc_sense ?row = Le) then - m else m)]\<rparr>"
  have "input' = input\<lparr>si_global_constraints := si_global_constraints input @ [row]\<rparr>"
    using run R b r
    by (cases "rc_sense ?row = Le"; cases "ic_binary_value ic = 0")
       (auto simp: lower_indicator_def Let_def row_def m_def zero_dbl_def one_dbl_def)
  moreover have "sat_raw row x \<longleftrightarrow> sat_indicator ic x"
  proof (cases "rc_sense ?row")
    case Le
    with zero one ok b show ?thesis
      by (cases "ic_binary_value ic = 0")
         (auto simp: sat_raw_def sat_indicator_def row_def lhs lhs_app flat_excess_def
           conditional_ok_def algebra_simps)
  next
    case Ge
    with zero one ok b show ?thesis
      by (cases "ic_binary_value ic = 0")
         (auto simp: sat_raw_def sat_indicator_def row_def lhs lhs_app flat_excess_def
           conditional_ok_def algebra_simps)
  qed (use ok in \<open>simp add: conditional_ok_def\<close>)
  ultimately show ?thesis by blast
qed

text \<open>Both kinds of flat rows of an input, and the whole pass.\<close>

definition flat_rows_hold :: "SolverInput \<Rightarrow> (idx \<Rightarrow> real) \<Rightarrow> bool" where
  "flat_rows_hold input x \<longleftrightarrow>
     (\<forall>row \<in> set (si_global_constraints input). sat_raw row x) \<and>
     (\<forall>ic \<in> set (si_indicator_constraints input). sat_indicator ic x)"

lemma lowering_point_cong [simp]:
  "lowering_point (input\<lparr>si_global_constraints := gs\<rparr>) box vi x ic = lowering_point input box vi x ic"
  by (simp add: lowering_point_def in_flat_box_def FlatColumnBox_def)

lemma lower_fold:
  assumes "fold_res (lower_indicator vi box names) ics input = Inr input'"
    and "\<forall>ic \<in> set ics. conditional_ok ic \<and> lowering_point input box vi x ic"
  shows "\<exists>rows. input' = input\<lparr>si_global_constraints := si_global_constraints input @ rows\<rparr> \<and>
     ((\<forall>row \<in> set rows. sat_raw row x) \<longleftrightarrow> (\<forall>ic \<in> set ics. sat_indicator ic x))"
  using assms
proof (induction ics arbitrary: input)
  case Nil
  then show ?case by (intro exI [of _ "[]"]) simp
next
  case (Cons ic ics)
  from Cons.prems(1) obtain mid where mid: "lower_indicator vi box names ic input = Inr mid"
    "fold_res (lower_indicator vi box names) ics mid = Inr input'"
    by (auto split: sum.splits)
  from lower_indicator_row [OF mid(1)] Cons.prems(2) obtain row where
    row: "mid = input\<lparr>si_global_constraints := si_global_constraints input @ [row]\<rparr>"
    "sat_raw row x \<longleftrightarrow> sat_indicator ic x" by auto
  from Cons.IH [OF mid(2)] Cons.prems(2) obtain rows where
    "input' = mid\<lparr>si_global_constraints := si_global_constraints mid @ rows\<rparr>"
    "(\<forall>row \<in> set rows. sat_raw row x) \<longleftrightarrow> (\<forall>ic \<in> set ics. sat_indicator ic x)"
    by (auto simp: row(1))
  with row show ?case by (intro exI [of _ "row # rows"]) simp
qed

lemma lower_fold_closed:
  assumes "\<forall>ic \<in> set ics. \<forall>k \<in> set (rc_indices (ic_row ic)). \<not> col_open input box vi k"
  shows "\<exists>input'. fold_res (lower_indicator vi box names) ics input = Inr input'"
  using assms
proof (induction ics arbitrary: input)
  case (Cons ic ics)
  have "\<forall>(k, c) \<in> set (zip (rc_indices (ic_row ic)) (rc_coefficients (ic_row ic))). \<not> col_open input box vi k"
    using Cons.prems by (auto dest: set_zip_leftD)
  from FlatRowReach_closed [OF this, of "rc_sense (ic_row ic) = Le" 0] obtain R where
    "FlatRowReach input box vi (rc_sense (ic_row ic) = Le)
       (zip (rc_indices (ic_row ic)) (rc_coefficients (ic_row ic))) 0 = Inr R" by blast
  then obtain row where
    step: "lower_indicator vi box names ic input =
      Inr (input\<lparr>si_global_constraints := si_global_constraints input @ [row]\<rparr>)"
    by (simp add: lower_indicator_def Let_def)
  have "col_open (input\<lparr>si_global_constraints := gs\<rparr>) box vi k = col_open input box vi k" for gs k
    by (simp add: col_open_def FlatColumnBox_def)
  with Cons.IH Cons.prems step show ?case by simp
qed simp

lemma lowering_total:
  assumes "\<forall>ic \<in> set (si_indicator_constraints input). \<forall>k \<in> set (rc_indices (ic_row ic)).
             \<not> col_open input box vi k"
  shows "\<exists>input'. LowerDecideConstructs vi box var_names constructs input = Inr input'"
  using lower_fold_closed [OF assms, of var_names] by (auto simp: LowerDecideConstructs_def)

section \<open>Properties\<close>

text \<open>
  C29. Lowering is exact: at every point that lies in the box on the columns of the conditional rows
  and is 0 or 1 on their binaries, the rows of the lowered input hold exactly when the rows it was
  given held; unless the backend states conditional rows itself, none is left.
\<close>

theorem lowering_exact:
  assumes "LowerDecideConstructs vi box var_names constructs input = Inr input'"
    and "\<forall>ic \<in> set (si_indicator_constraints input). conditional_ok ic \<and> lowering_point input box vi x ic"
  shows "(flat_rows_hold input' x \<longleftrightarrow> flat_rows_hold input x) \<and>
         (cs_not_equal constructs \<or> si_indicator_constraints input' = [])"
proof (cases "cs_not_equal constructs \<or> si_indicator_constraints input = []")
  case True
  with assms(1) show ?thesis by (auto simp: LowerDecideConstructs_def)
next
  case False
  with assms(1) obtain mid where
    run: "fold_res (lower_indicator vi box var_names) (si_indicator_constraints input) input = Inr mid"
    "input' = mid\<lparr>si_indicator_constraints := []\<rparr>"
    by (auto simp: LowerDecideConstructs_def split: sum.splits)
  from lower_fold [OF run(1) assms(2)] run(2) show ?thesis
    by (auto simp: flat_rows_hold_def)
qed

text \<open>
  Lowering answers: when no column of a conditional row is open in the box, the pass does not
  refuse.
\<close>

theorem lowering_succeeds:
  assumes "\<forall>ic \<in> set (si_indicator_constraints input). \<forall>k \<in> set (rc_indices (ic_row ic)).
             \<not> col_open input box vi k"
  shows "\<exists>input'. LowerDecideConstructs vi box var_names constructs input = Inr input'"
  by (rule lowering_total [OF assms])

text \<open>One row variable in \<open>[0, 10]\<close> and one binary: \<open>z = 0 \<longrightarrow> x <= 3\<close> and \<open>z = 1 \<longrightarrow> x >= 5\<close>.\<close>

definition demo_half :: "int \<Rightarrow> sense \<Rightarrow> real \<Rightarrow> IndicatorConstraintSpec" where
  "demo_half v s k = \<lparr>ic_binary_column = 1, ic_binary_value = v,
     ic_row = rc_default\<lparr>rc_indices := [0], rc_coefficients := [Fin 1], rc_sense := s, rc_rhs := Fin k\<rparr>\<rparr>"

definition demo_lowering :: SolverInput where
  "demo_lowering = si_default\<lparr>si_num_rows := 1, si_num_decide_vars := 1,
     si_variable_types := [INTEGER], si_lower_bounds := [Fin 0], si_upper_bounds := [Fin 10],
     si_num_global_vars := 1, si_global_variable_types := [BOOLEAN],
     si_global_lower_bounds := [Fin 0], si_global_upper_bounds := [Fin 1],
     si_indicator_constraints := [demo_half 0 Le 3, demo_half 1 Ge 5]\<rparr>"

lemma demo_lowering_box:
  "FlatColumnBox demo_lowering (OfSolvedModel demo_lowering) (BuildIndexer demo_lowering) 0 = (Fin 0, Fin 10)"
proof -
  have "vi_global_block_start (BuildIndexer demo_lowering) = 1"
    by (simp add: global_start_def scalar_start_def entity_start_def row_vars_def demo_lowering_def
        si_default_def vars_of_def scope_of_def entity_total_def)
  moreover have "InstanceColumn (BuildIndexer demo_lowering) 0 0 = 0" "NumInstances (BuildIndexer demo_lowering) 0 = 1"
    by (simp_all add: InstanceColumn_cases NumInstances_cases scope_of_def demo_lowering_def si_default_def vars_of_def)
  with num.owner_col [of 0 demo_lowering 0]
  have "OwnerOf (BuildIndexer demo_lowering) 0 = Some 0" by (simp add: demo_lowering_def si_default_def)
  ultimately show ?thesis
    by (simp add: FlatColumnBox_def) (simp add: demo_lowering_def si_default_def OfSolvedModel_def)
qed

lemma demo_lowering_closed:
  "\<forall>ic \<in> set (si_indicator_constraints demo_lowering). \<forall>k \<in> set (rc_indices (ic_row ic)).
     \<not> col_open demo_lowering (OfSolvedModel demo_lowering) (BuildIndexer demo_lowering) k"
proof -
  have "\<not> col_open demo_lowering (OfSolvedModel demo_lowering) (BuildIndexer demo_lowering) 0"
    by (simp add: col_open_def demo_lowering_box)
  then show ?thesis
    by (auto simp: demo_lowering_def demo_half_def rc_default_def)
qed

lemma lowering_succeeds_witness:
  "\<exists>input'. LowerDecideConstructs (BuildIndexer demo_lowering) (OfSolvedModel demo_lowering) []
     \<lparr>cs_abs = False, cs_min_max = False, cs_not_equal = False, cs_bilinear = False\<rparr> demo_lowering = Inr input'"
  by (rule lowering_succeeds [OF demo_lowering_closed])

lemma lowering_exact_witness:
  "\<exists>input'. flat_rows_hold input' (\<lambda>c. if c = 0 then 7 else 1) \<and> si_indicator_constraints input' = []"
proof -
  let ?cs = "\<lparr>cs_abs = False, cs_min_max = False, cs_not_equal = False, cs_bilinear = False\<rparr>"
  let ?x = "\<lambda>c. if c = 0 then 7 else (1 :: real)"
  obtain input' where run: "LowerDecideConstructs (BuildIndexer demo_lowering)
      (OfSolvedModel demo_lowering) [] ?cs demo_lowering = Inr input'"
    using lowering_total [OF demo_lowering_closed] by blast
  have "\<forall>ic \<in> set (si_indicator_constraints demo_lowering).
      conditional_ok ic \<and> lowering_point demo_lowering (OfSolvedModel demo_lowering) (BuildIndexer demo_lowering) ?x ic"
  proof -
    have "in_flat_box demo_lowering (OfSolvedModel demo_lowering) (BuildIndexer demo_lowering) ?x 0"
      by (simp add: in_flat_box_def demo_lowering_box)
    moreover have "si_indicator_constraints demo_lowering = [demo_half 0 Le 3, demo_half 1 Ge 5]"
      by (simp add: demo_lowering_def)
    ultimately show ?thesis
      by (simp add: lowering_point_def conditional_ok_def demo_half_def rc_default_def)
  qed
  from lowering_exact [OF run this]
  have "flat_rows_hold input' ?x \<longleftrightarrow> flat_rows_hold demo_lowering ?x" "si_indicator_constraints input' = []"
    by simp_all
  moreover have "flat_rows_hold demo_lowering ?x"
    by (simp add: flat_rows_hold_def demo_lowering_def si_default_def demo_half_def rc_default_def
        sat_indicator_def sat_raw_def zero_dbl_def)
  ultimately show ?thesis by blast
qed

end
