(* ===== verification/Bilinear.thy ===== *)
theory Bilinear
  imports ConstructLowering
begin

text \<open>
  The products of \<open>linearization_bilinear_abs.cpp\<close>: \<open>DeriveBilinearAuxiliaryBounds\<close> boxes the
  auxiliary \<open>w\<close> of a link \<open>w = b * x\<close>, and \<open>LinearizeBilinear\<close> emits its McCormick rows from the
  box of \<open>x\<close>.

  A \<open>FormulationBox\<close> of the source holds references into the input, so a pass that writes a bound
  sees it at the next link. The passes here take the box as a view of the input, read at each link;
  \<open>OfSolvedModel\<close> is the view the program passes.

  Shown: over the box, with a 0/1 indicator, the emitted rows hold exactly when \<open>w = b * x\<close>, and the
  declared box of \<open>w\<close> is exactly wide enough for the product.
\<close>

section \<open>Operations\<close>

definition derive_bilinear_link :: "(SolverInput \<Rightarrow> FormulationBox) \<Rightarrow> string list \<Rightarrow> BilinearLinkSpec \<Rightarrow>
    SolverInput \<Rightarrow> SolverInput res" where
  "derive_bilinear_link view var_names link input =
     (let U = fb_upper (view input) ! bl_other_var_idx link;
          L = fb_lower (view input) ! bl_other_var_idx link
      in if unbounded_above U then Inl (BilinearNeedsUpperBound (var_names ! bl_other_var_idx link))
         else Inr (input\<lparr>
           si_lower_bounds := (si_lower_bounds input)[bl_aux_idx link := std_min 0 L],
           si_upper_bounds := (si_upper_bounds input)[bl_aux_idx link := std_max 0 U]\<rparr>))"

definition DeriveBilinearAuxiliaryBounds :: "(SolverInput \<Rightarrow> FormulationBox) \<Rightarrow> string list \<Rightarrow>
    SolverInput \<Rightarrow> SolverInput res" where
  "DeriveBilinearAuxiliaryBounds view var_names input =
     fold_res (derive_bilinear_link view var_names) (si_bilinear_links input) input"

text \<open>The fields the four rows of a link share.\<close>

definition bilinear_row :: "BilinearLinkSpec \<Rightarrow> nat \<Rightarrow> (idx \<times> dbl) list \<Rightarrow> ExpressionType \<Rightarrow> dbl \<Rightarrow>
    EvaluatedConstraint" where
  "bilinear_row link num_rows terms cmp rhs = ec_default\<lparr>
     ec_variable_indices := map (\<lambda>(v, c). Some v) terms,
     ec_row_coefficients := map (\<lambda>(v, c). MakeScalar c num_rows) terms,
     ec_rhs_values := AssignScalar cc_default num_rows rhs,
     ec_comparison_type := cmp, ec_lhs_is_aggregate := False, ec_kind := STRUCTURAL,
     ec_source_clause_id := bl_source_clause_id link,
     ec_removal_group_id := bl_removal_group_id link\<rparr>"

definition bilinear_rows :: "BilinearLinkSpec \<Rightarrow> nat \<Rightarrow> dbl \<Rightarrow> dbl \<Rightarrow> EvaluatedConstraint list" where
  "bilinear_rows link num_rows L U =
     (let w = bl_aux_idx link; b = bl_bool_var_idx link; x = bl_other_var_idx link;
          ec1 = bilinear_row link num_rows [(w, 1), (b, - U)] COMPARE_LESSTHANOREQUALTO 0;
          ec2 = bilinear_row link num_rows [(w, 1), (x, - 1), (b, - U)]
                  COMPARE_GREATERTHANOREQUALTO (- U);
          ec3 = (if L < 0
                 then bilinear_row link num_rows [(w, 1), (x, - 1), (b, - L)]
                        COMPARE_LESSTHANOREQUALTO (- L)
                 else bilinear_row link num_rows [(w, 1), (x, - 1)] COMPARE_LESSTHANOREQUALTO 0);
          ec4 = bilinear_row link num_rows [(w, 1), (b, - L)] COMPARE_GREATERTHANOREQUALTO 0
      in [ec1, ec2, ec3] @ (if L < 0 then [ec4] else []))"

definition linearize_bilinear_link :: "(SolverInput \<Rightarrow> FormulationBox) \<Rightarrow> BilinearLinkSpec \<Rightarrow>
    SolverInput \<Rightarrow> SolverInput" where
  "linearize_bilinear_link view link input =
     (let U = fb_upper (view input) ! bl_other_var_idx link;
          L = fb_lower (view input) ! bl_other_var_idx link;
          aux = bl_aux_idx link
      in input\<lparr>
           si_constraints := si_constraints input @ bilinear_rows link (si_num_rows input) L U,
           si_lower_bounds := (if L < 0 then (si_lower_bounds input)[aux := std_min (si_lower_bounds input ! aux) L]
                               else si_lower_bounds input)\<rparr>)"

definition LinearizeBilinear :: "(SolverInput \<Rightarrow> FormulationBox) \<Rightarrow> SolverInput \<Rightarrow> SolverInput" where
  "LinearizeBilinear view input = fold (linearize_bilinear_link view) (si_bilinear_links input) input"

section \<open>The envelope is the product\<close>

lemma AssignScalar_default [simp]: "AssignScalar cc_default n v = MakeScalar v n"
  by (simp add: AssignScalar_def MakeScalar_def cc_default_def)

lemma row_lhs_bilinear_row:
  "row_lhs (bilinear_row link n terms cmp rhs) X r = (\<Sum>(v, c)\<leftarrow>terms. c * Fin (X v r))"
proof -
  have "(\<Sum>t\<leftarrow>zip (map (\<lambda>(v, c). Some v) terms) (map (\<lambda>(v, c). MakeScalar c n) terms). term_val X r t) =
      (\<Sum>(v, c)\<leftarrow>terms. c * Fin (X v r))"
    by (induction terms) (auto simp: term_val_def)
  then show ?thesis by (simp add: row_lhs_def bilinear_row_def)
qed

lemma sat_bilinear_row:
  "sat_row (bilinear_row link n terms cmp rhs) X r \<longleftrightarrow>
     sat_cmp cmp (\<Sum>(v, c)\<leftarrow>terms. c * Fin (X v r)) rhs"
  by (simp add: sat_row_def row_lhs_bilinear_row) (simp add: bilinear_row_def)

lemma mccormick:
  fixes w x l u b :: real
  assumes "b = 0 \<or> b = 1" "l \<le> x" "x \<le> u" "0 \<le> l \<longrightarrow> 0 \<le> w"
  shows "(w - u * b \<le> 0 \<and> w - x - u * b \<ge> - u \<and>
           (if l < 0 then w - x - l * b \<le> - l \<and> w - l * b \<ge> 0 else w - x \<le> 0)) \<longleftrightarrow> w = b * x"
  using assms by auto

lemma bilinear_rows_exact:
  assumes "L = Fin l" "U = Fin u" "X (bl_bool_var_idx link) r = 0 \<or> X (bl_bool_var_idx link) r = 1"
    and "l \<le> X (bl_other_var_idx link) r" "X (bl_other_var_idx link) r \<le> u"
    and "0 \<le> l \<longrightarrow> 0 \<le> X (bl_aux_idx link) r"
  shows "(\<forall>ec \<in> set (bilinear_rows link n L U). sat_row ec X r) \<longleftrightarrow>
         X (bl_aux_idx link) r = X (bl_bool_var_idx link) r * X (bl_other_var_idx link) r"
  using mccormick [OF assms(3-6)]
  by (auto simp: bilinear_rows_def Let_def sat_bilinear_row assms(1,2) zero_dbl_def one_dbl_def algebra_simps)

section \<open>The passes over all links\<close>

text \<open>
  The links of a query name distinct auxiliaries, none of them a factor of another product, and
  every index is a variable.
\<close>

definition links_ok :: "BilinearLinkSpec list \<Rightarrow> nat \<Rightarrow> bool" where
  "links_ok links n \<longleftrightarrow>
     distinct (map bl_aux_idx links) \<and>
     (\<forall>l \<in> set links. bl_aux_idx l < n \<and> bl_bool_var_idx l < n \<and> bl_other_var_idx l < n) \<and>
     (\<forall>l \<in> set links. \<forall>k \<in> set links. bl_other_var_idx l \<noteq> bl_aux_idx k)"

lemma derive_fold:
  assumes "fold_res (derive_bilinear_link OfSolvedModel names) links input = Inr input'"
    and "links_ok links n" "length (si_lower_bounds input) = n" "length (si_upper_bounds input) = n"
  shows "(\<forall>v. v \<notin> bl_aux_idx ` set links \<longrightarrow>
            si_lower_bounds input' ! v = si_lower_bounds input ! v \<and>
            si_upper_bounds input' ! v = si_upper_bounds input ! v) \<and>
         (\<forall>l \<in> set links. \<not> unbounded_above (si_upper_bounds input ! bl_other_var_idx l) \<and>
            si_lower_bounds input' ! bl_aux_idx l = std_min 0 (si_lower_bounds input ! bl_other_var_idx l) \<and>
            si_upper_bounds input' ! bl_aux_idx l = std_max 0 (si_upper_bounds input ! bl_other_var_idx l))"
  using assms
proof (induction links arbitrary: input)
  case (Cons k ks)
  define mid where "mid = input\<lparr>
     si_lower_bounds := (si_lower_bounds input)[bl_aux_idx k := std_min 0 (si_lower_bounds input ! bl_other_var_idx k)],
     si_upper_bounds := (si_upper_bounds input)[bl_aux_idx k := std_max 0 (si_upper_bounds input ! bl_other_var_idx k)]\<rparr>"
  have step: "derive_bilinear_link OfSolvedModel names k input =
      (if unbounded_above (si_upper_bounds input ! bl_other_var_idx k)
       then Inl (BilinearNeedsUpperBound (names ! bl_other_var_idx k)) else Inr mid)"
    by (simp add: derive_bilinear_link_def Let_def OfSolvedModel_def mid_def)
  have closed: "\<not> unbounded_above (si_upper_bounds input ! bl_other_var_idx k)"
    and rest: "fold_res (derive_bilinear_link OfSolvedModel names) ks mid = Inr input'"
    using Cons.prems(1) by (auto simp: step split: if_splits)
  have ok: "links_ok ks n" "bl_aux_idx k \<notin> bl_aux_idx ` set ks" "bl_aux_idx k < n"
    "\<forall>l \<in> set (k # ks). bl_other_var_idx l \<noteq> bl_aux_idx k"
    using Cons.prems(2) by (auto simp: links_ok_def)
  note IH = Cons.IH [OF rest ok(1)]
  have at_k: "si_lower_bounds mid ! bl_aux_idx k = std_min 0 (si_lower_bounds input ! bl_other_var_idx k)"
    "si_upper_bounds mid ! bl_aux_idx k = std_max 0 (si_upper_bounds input ! bl_other_var_idx k)"
    "length (si_lower_bounds mid) = n" "length (si_upper_bounds mid) = n"
    using ok(3) Cons.prems(3,4) by (simp_all add: mid_def)
  have off_k: "si_lower_bounds mid ! v = si_lower_bounds input ! v \<and>
      si_upper_bounds mid ! v = si_upper_bounds input ! v" if "v \<noteq> bl_aux_idx k" for v
    using that by (simp add: mid_def)
  show ?case
    using IH at_k off_k ok(2,4) closed by auto
qed simp

lemma linearize_fold:
  assumes "links_ok links n" "length (si_lower_bounds input) = n"
  shows "si_constraints (fold (linearize_bilinear_link OfSolvedModel) links input) =
           si_constraints input @ concat (map (\<lambda>l. bilinear_rows l (si_num_rows input)
             (si_lower_bounds input ! bl_other_var_idx l) (si_upper_bounds input ! bl_other_var_idx l)) links)"
  using assms
proof (induction links arbitrary: input)
  case (Cons k ks)
  let ?mid = "linearize_bilinear_link OfSolvedModel k input"
  have ok: "links_ok ks n" "\<forall>l \<in> set ks. bl_aux_idx k \<noteq> bl_other_var_idx l"
    using Cons.prems(1) by (auto simp: links_ok_def)
  have mid: "si_num_rows ?mid = si_num_rows input" "si_upper_bounds ?mid = si_upper_bounds input"
    "length (si_lower_bounds ?mid) = n"
    "\<forall>l \<in> set ks. si_lower_bounds ?mid ! bl_other_var_idx l = si_lower_bounds input ! bl_other_var_idx l"
    using Cons.prems(2) ok(2) by (simp_all add: linearize_bilinear_link_def Let_def nth_list_update)
  have "concat (map (\<lambda>l. bilinear_rows l (si_num_rows input)
          (si_lower_bounds ?mid ! bl_other_var_idx l) (si_upper_bounds input ! bl_other_var_idx l)) ks) =
        concat (map (\<lambda>l. bilinear_rows l (si_num_rows input)
          (si_lower_bounds input ! bl_other_var_idx l) (si_upper_bounds input ! bl_other_var_idx l)) ks)"
    using mid(4) by (intro arg_cong [where f = concat] map_cong) simp_all
  moreover have "si_constraints ?mid = si_constraints input @ bilinear_rows k (si_num_rows input)
      (si_lower_bounds input ! bl_other_var_idx k) (si_upper_bounds input ! bl_other_var_idx k)"
    by (simp add: linearize_bilinear_link_def Let_def OfSolvedModel_def)
  ultimately show ?case using Cons.IH [OF ok(1) mid(3)] mid(1,2) by simp
qed simp

section \<open>Properties\<close>

text \<open>
  C24. The McCormick rows are exact: over the box of \<open>x\<close>, with a 0/1 indicator \<open>b\<close> and \<open>w\<close> non-negative
  where \<open>x\<close> is, every row the pass emits for a link holds at a query row exactly when \<open>w = b * x\<close>
  there.
\<close>

theorem bilinear_exact:
  assumes "links_ok (si_bilinear_links input) n" "length (si_lower_bounds input) = n"
    and "\<forall>link \<in> set (si_bilinear_links input).
       (X (bl_bool_var_idx link) r = 0 \<or> X (bl_bool_var_idx link) r = 1) \<and>
       (\<exists>l u. si_lower_bounds input ! bl_other_var_idx link = Fin l \<and>
              si_upper_bounds input ! bl_other_var_idx link = Fin u \<and>
              l \<le> X (bl_other_var_idx link) r \<and> X (bl_other_var_idx link) r \<le> u \<and>
              (0 \<le> l \<longrightarrow> 0 \<le> X (bl_aux_idx link) r))"
  shows "(\<forall>ec \<in> set (si_constraints (LinearizeBilinear OfSolvedModel input)). sat_row ec X r) \<longleftrightarrow>
         (\<forall>ec \<in> set (si_constraints input). sat_row ec X r) \<and>
         (\<forall>link \<in> set (si_bilinear_links input).
            X (bl_aux_idx link) r = X (bl_bool_var_idx link) r * X (bl_other_var_idx link) r)"
proof -
  have "(\<forall>ec \<in> set (bilinear_rows link (si_num_rows input) (si_lower_bounds input ! bl_other_var_idx link)
          (si_upper_bounds input ! bl_other_var_idx link)). sat_row ec X r) \<longleftrightarrow>
        X (bl_aux_idx link) r = X (bl_bool_var_idx link) r * X (bl_other_var_idx link) r"
    if "link \<in> set (si_bilinear_links input)" for link
    using assms(3) that bilinear_rows_exact by blast
  then show ?thesis
    using linearize_fold [OF assms(1,2)] by (auto simp: LinearizeBilinear_def)
qed

text \<open>
  C25. The box the pass declares for the auxiliary is right: whenever it does not refuse, the upper
  bound of \<open>x\<close> is closed, and the product of a 0/1 value and a value of \<open>x\<close> in its box lies in the
  declared box of \<open>w\<close>; no other variable's box moves.
\<close>

theorem bilinear_aux_box:
  assumes "DeriveBilinearAuxiliaryBounds OfSolvedModel names input = Inr input'"
    and "links_ok (si_bilinear_links input) n"
    and "length (si_lower_bounds input) = n" "length (si_upper_bounds input) = n"
    and "link \<in> set (si_bilinear_links input)" "b = 0 \<or> b = 1"
    and "si_lower_bounds input ! bl_other_var_idx link \<le> Fin x" "Fin x \<le> si_upper_bounds input ! bl_other_var_idx link"
  shows "si_lower_bounds input' ! bl_aux_idx link \<le> Fin (b * x) \<and>
         Fin (b * x) \<le> si_upper_bounds input' ! bl_aux_idx link \<and>
         (\<forall>v. v \<notin> bl_aux_idx ` set (si_bilinear_links input) \<longrightarrow>
            si_lower_bounds input' ! v = si_lower_bounds input ! v \<and>
            si_upper_bounds input' ! v = si_upper_bounds input ! v)"
proof -
  note spec = derive_fold [OF assms(1) [unfolded DeriveBilinearAuxiliaryBounds_def] assms(2-4)]
  from spec assms(5) have box:
    "si_lower_bounds input' ! bl_aux_idx link = std_min 0 (si_lower_bounds input ! bl_other_var_idx link)"
    "si_upper_bounds input' ! bl_aux_idx link = std_max 0 (si_upper_bounds input ! bl_other_var_idx link)"
    by blast+
  have "std_min 0 (si_lower_bounds input ! bl_other_var_idx link) \<le> Fin (b * x)"
    using assms(6,7)
    by (cases "si_lower_bounds input ! bl_other_var_idx link") (auto simp: std_min_def zero_dbl_def)
  moreover have "Fin (b * x) \<le> std_max 0 (si_upper_bounds input ! bl_other_var_idx link)"
    using assms(6,8)
    by (cases "si_upper_bounds input ! bl_other_var_idx link") (auto simp: std_max_def zero_dbl_def)
  ultimately show ?thesis using spec box by simp
qed

text \<open>One link \<open>w = b * x\<close> with \<open>-2 <= x <= 5\<close>; the variables are \<open>x\<close>, \<open>b\<close>, \<open>w\<close>.\<close>

definition demo_bilinear :: SolverInput where
  "demo_bilinear = si_default\<lparr>si_num_rows := 1, si_num_decide_vars := 3,
     si_variable_types := [DOUBLE, BOOLEAN, DOUBLE],
     si_lower_bounds := [Fin (- 2), Fin 0, Fin 0], si_upper_bounds := [Fin 5, Fin 1, PInf],
     si_bilinear_links := [\<lparr>bl_aux_idx = 2, bl_bool_var_idx = 1, bl_other_var_idx = 0,
       bl_source_clause_id = None, bl_removal_group_id = None\<rparr>]\<rparr>"

lemma demo_bilinear_links: "links_ok (si_bilinear_links demo_bilinear) 3"
  by (simp add: links_ok_def demo_bilinear_def)

lemma bilinear_exact_witness:
  "list_all (\<lambda>ec. sat_row ec (\<lambda>v r. if v = 1 then 1 else - 2) 0)
     (si_constraints (LinearizeBilinear OfSolvedModel demo_bilinear))"
  using bilinear_exact [OF demo_bilinear_links, of "\<lambda>v r. if v = 1 then 1 else - 2" 0]
  by (simp add: demo_bilinear_def si_default_def list_all_iff)

lemma bilinear_aux_box_witness:
  "\<exists>input'. DeriveBilinearAuxiliaryBounds OfSolvedModel [] demo_bilinear = Inr input' \<and>
     si_lower_bounds input' ! 2 \<le> Fin (1 * - 2)"
proof -
  obtain input' where run: "DeriveBilinearAuxiliaryBounds OfSolvedModel [] demo_bilinear = Inr input'"
    by (simp add: DeriveBilinearAuxiliaryBounds_def demo_bilinear_def derive_bilinear_link_def
        OfSolvedModel_def Let_def unbounded_above_def)
  with bilinear_aux_box [OF run demo_bilinear_links, of "hd (si_bilinear_links demo_bilinear)" 1 "- 2"]
  show ?thesis by (simp add: demo_bilinear_def)
qed

end
