(* ===== verification/AbsLinearization.thy ===== *)
theory AbsLinearization
  imports ConstructLowering
begin

text \<open>
  The ABS passes of \<open>linearization_bilinear_abs.cpp\<close>. Stage 05 leaves, for each auxiliary, the tagged
  pair C1 (\<open>aux >= inner\<close>) and C2 (\<open>aux >= -inner\<close>); \<open>DeriveAbsAuxiliaryBounds\<close> sizes and boxes the
  auxiliary, then either \<open>LinearizeAbsMaximize\<close> adds the two Big-M rows of the sign indicator, or
  \<open>EmitNativeAbs\<close> states \<open>aux = |t|\<close> for the backend with a column pinned to the inner expression.

  Shown: with the derived range the four rows of a link hold for some 0/1 indicator exactly when
  \<open>aux = |inner|\<close>; the derived range dominates \<open>|inner|\<close> and narrowing the auxiliary's box to it cuts
  no point with \<open>aux = |inner|\<close>; the native rows force \<open>aux = |inner|\<close> and can always be met.
\<close>

section \<open>The tagged pairs\<close>

record AbsConstraintPair =
  ap_c1 :: "idx option"
  ap_c2 :: "idx option"

definition tag_pair :: "(idx \<rightharpoonup> AbsConstraintPair) \<Rightarrow> idx \<Rightarrow> AbsConstraintPair" where
  "tag_pair m aux = (case m aux of Some p \<Rightarrow> p | None \<Rightarrow> \<lparr>ap_c1 = None, ap_c2 = None\<rparr>)"

definition abs_tag_step :: "EvaluatedConstraint list \<Rightarrow> idx \<Rightarrow> (idx \<rightharpoonup> AbsConstraintPair) \<Rightarrow>
    (idx \<rightharpoonup> AbsConstraintPair)" where
  "abs_tag_step ecs ci m =
     (case ec_abs_aux_idx (ecs ! ci) of
        None \<Rightarrow> m
      | Some aux \<Rightarrow>
          if ec_abs_is_pos_bound (ecs ! ci) then m(aux \<mapsto> (tag_pair m aux)\<lparr>ap_c1 := Some ci\<rparr>)
          else m(aux \<mapsto> (tag_pair m aux)\<lparr>ap_c2 := Some ci\<rparr>))"

definition BuildAbsTagMap :: "SolverInput \<Rightarrow> (idx \<rightharpoonup> AbsConstraintPair)" where
  "BuildAbsTagMap input =
     fold (abs_tag_step (si_constraints input)) [0..<length (si_constraints input)] Map.empty"

section \<open>The demanded reach\<close>

text \<open>The first term over the auxiliary, by position.\<close>

definition aux_term :: "EvaluatedConstraint \<Rightarrow> idx \<Rightarrow> nat option" where
  "aux_term ec aux =
     (let ts = filter (\<lambda>t. ec_variable_indices ec ! t = Some aux) [0..<length (ec_variable_indices ec)]
      in case ts of [] \<Rightarrow> None | t # _ \<Rightarrow> Some t)"

definition demand_row :: "SolverInput \<Rightarrow> EvaluatedConstraint \<Rightarrow> idx \<Rightarrow> nat \<Rightarrow> idx \<Rightarrow> dbl \<Rightarrow> dbl" where
  "demand_row input ec aux t r demanded =
     (let cmp = ec_comparison_type ec;
          pushes_up = cmp \<in> {COMPARE_GREATERTHANOREQUALTO, COMPARE_GREATERTHAN, COMPARE_EQUAL};
          pushes_down = cmp \<in> {COMPARE_LESSTHANOREQUALTO, COMPARE_LESSTHAN, COMPARE_EQUAL};
          a = cc_get (ec_row_coefficients ec ! t) r
      in if ec_row_group_ids ec \<noteq> [] \<and> ec_row_group_ids ec ! r = None then demanded
         else if \<bar>a\<bar> < Fin (1 / 10 ^ 15) then demanded
         else let k = DecideRowEffectiveBound ec r
              in if \<not> isfinite k then demanded
                 else let (lo, hi) = DecideRowSignedRange ec r (si_lower_bounds input)
                                       (si_upper_bounds input) (Some aux)
                      in if a > 0 \<and> pushes_up \<and> isfinite lo then MaxValue demanded ((k - lo) / a)
                         else if a < 0 \<and> pushes_down \<and> isfinite hi then MaxValue demanded ((k - hi) / a)
                         else demanded)"

definition demand_constraint :: "SolverInput \<Rightarrow> idx \<Rightarrow> nat \<Rightarrow> EvaluatedConstraint \<Rightarrow> dbl \<Rightarrow> dbl" where
  "demand_constraint input aux num_rows ec demanded =
     (if ec_abs_aux_idx ec = Some aux then demanded
      else case aux_term ec aux of
             None \<Rightarrow> demanded
           | Some t \<Rightarrow> fold (demand_row input ec aux t) [0..<num_rows] demanded)"

definition DemandedAuxReach :: "SolverInput \<Rightarrow> idx \<Rightarrow> nat \<Rightarrow> dbl" where
  "DemandedAuxReach input aux num_rows =
     (let demanded = (if aux < length (si_lower_bounds input) \<and> si_lower_bounds input ! aux > Fin (- (10 ^ 20))
                      then MaxValue 0 (si_lower_bounds input ! aux) else 0)
      in fold (demand_constraint input aux num_rows) (si_constraints input) demanded)"

section \<open>Deriving the range of an auxiliary\<close>

definition abs_reach_step :: "SolverInput \<Rightarrow> EvaluatedConstraint \<Rightarrow> idx \<Rightarrow> idx \<Rightarrow> dbl \<times> bool \<Rightarrow>
    (dbl \<times> bool) res" where
  "abs_reach_step input c1 aux r = (\<lambda>(M, abs_unbounded).
     let link_rhs = cc_get (ec_rhs_values c1) r
     in if \<not> isfinite link_rhs then Inl (AbsNotFinite r)
        else let (sum, abs_unbounded) = DecideRowTermRange (ec_terms c1) r (si_lower_bounds input)
                   (si_upper_bounds input) abs_unbounded (Some aux)
             in Inr (std_max M (\<bar>link_rhs\<bar> + sum), abs_unbounded))"

text \<open>The variable a refusal names: the first contributor with an open box.\<close>

definition abs_blame :: "SolverInput \<Rightarrow> EvaluatedConstraint \<Rightarrow> idx \<Rightarrow> idx option" where
  "abs_blame input c1 aux =
     (case filter (\<lambda>var. case var of None \<Rightarrow> False
                     | Some v \<Rightarrow> v \<noteq> aux \<and> (unbounded_above (si_upper_bounds input ! v) \<or>
                                            unbounded_below (si_lower_bounds input ! v)))
             (ec_variable_indices c1) of
        [] \<Rightarrow> None | var # _ \<Rightarrow> var)"

definition derive_abs_link :: "(idx \<rightharpoonup> AbsConstraintPair) \<Rightarrow> string list \<Rightarrow> bool \<Rightarrow> nat \<Rightarrow> SolverInput \<Rightarrow>
    SolverInput res" where
  "derive_abs_link tag_map var_names refuse_when_unbounded i input =
     (let link = si_abs_maximize_links input ! i; aux = al_aux_idx link;
          c1 = si_constraints input ! the (ap_c1 (the (tag_map aux)))
      in case fold_res (abs_reach_step input c1 aux) [0..<si_num_rows input] (0, False) of
           Inl e \<Rightarrow> Inl e
         | Inr (M, abs_unbounded) \<Rightarrow>
             if abs_unbounded then
               (if refuse_when_unbounded
                then Inl (AbsNeedsBound (var_names ! the (abs_blame input c1 aux)))
                else Inr (input\<lparr>si_abs_maximize_links :=
                       (si_abs_maximize_links input)[i := link\<lparr>al_range_unbounded := True\<rparr>]\<rparr>))
             else
               let M = MaxValue M (DemandedAuxReach input aux (si_num_rows input))
               in Inr (input\<lparr>
                    si_abs_maximize_links := (si_abs_maximize_links input)[i := link\<lparr>al_abs_range := M\<rparr>],
                    si_upper_bounds := (if M < si_upper_bounds input ! aux
                                        then (si_upper_bounds input)[aux := M]
                                        else si_upper_bounds input)\<rparr>))"

definition DeriveAbsAuxiliaryBounds :: "string list \<Rightarrow> bool \<Rightarrow> SolverInput \<Rightarrow> SolverInput res" where
  "DeriveAbsAuxiliaryBounds var_names refuse_when_unbounded input =
     fold_res (derive_abs_link (BuildAbsTagMap input) var_names refuse_when_unbounded)
       [0..<length (si_abs_maximize_links input)] input"

section \<open>The lowering arm\<close>

definition ShiftRhs :: "nat \<Rightarrow> coefficient_column \<Rightarrow> dbl \<Rightarrow> coefficient_column" where
  "ShiftRhs num_rows src delta =
     (if IsUniform src then MakeScalar (UniformValue src + delta) num_rows
      else fold (\<lambda>r out. cc_set out r (cc_get src r + delta)) [0..<num_rows] (MakeDense num_rows 0))"

text \<open>A row derived from one of the pair: the indicator joins, the comparison flips to \<open><=\<close>.\<close>

definition abs_upper_row :: "EvaluatedConstraint \<Rightarrow> idx option \<Rightarrow> dbl \<Rightarrow> nat \<Rightarrow> coefficient_column \<Rightarrow>
    EvaluatedConstraint" where
  "abs_upper_row c y m num_rows rhs = ec_default\<lparr>
     ec_variable_indices := ec_variable_indices c @ [y],
     ec_row_coefficients := ec_row_coefficients c @ [MakeScalar m num_rows],
     ec_rhs_values := rhs,
     ec_comparison_type := COMPARE_LESSTHANOREQUALTO,
     ec_lhs_is_aggregate := False,
     ec_row_group_ids := ec_row_group_ids c,
     ec_num_groups := ec_num_groups c,
     ec_group_labels := ec_group_labels c,
     ec_qualifier := ec_qualifier c,
     ec_kind := STRUCTURAL,
     ec_source_clause_id := ec_source_clause_id c,
     ec_repair_group_id := ec_repair_group_id c,
     ec_removal_group_id := ec_removal_group_id c\<rparr>"

definition linearize_abs_link :: "(idx \<rightharpoonup> AbsConstraintPair) \<Rightarrow> AbsMaximizeLinkSpec \<Rightarrow> SolverInput \<Rightarrow>
    SolverInput" where
  "linearize_abs_link tag_map link input =
     (let pair = the (tag_map (al_aux_idx link));
          c1 = si_constraints input ! the (ap_c1 pair);
          c2 = si_constraints input ! the (ap_c2 pair);
          n = si_num_rows input; two_M = Fin 2 * al_abs_range link;
          ec_ub1 = abs_upper_row c1 (al_y_idx link) two_M n (ShiftRhs n (ec_rhs_values c1) two_M);
          ec_ub2 = abs_upper_row c2 (al_y_idx link) (- two_M) n (ec_rhs_values c2)
      in input\<lparr>si_constraints := si_constraints input @ [ec_ub1, ec_ub2]\<rparr>)"

definition LinearizeAbsMaximize :: "SolverInput \<Rightarrow> SolverInput" where
  "LinearizeAbsMaximize input =
     fold (linearize_abs_link (BuildAbsTagMap input)) (si_abs_maximize_links input) input"

section \<open>The native arm\<close>

text \<open>The non-zero terms other than the auxiliary's, at one row.\<close>

definition inner_terms :: "EvaluatedConstraint \<Rightarrow> idx \<Rightarrow> idx \<Rightarrow> (idx \<times> dbl) list" where
  "inner_terms c1 aux r =
     concat (map (\<lambda>(var, col). case var of None \<Rightarrow> []
        | Some v \<Rightarrow> if v = aux \<or> cc_get col r = 0 then [] else [(v, cc_get col r)]) (ec_terms c1))"

definition native_abs_row :: "VarIndexer \<Rightarrow> AbsMaximizeLinkSpec \<Rightarrow> EvaluatedConstraint \<Rightarrow> idx \<Rightarrow>
    SolverInput \<Rightarrow> SolverInput" where
  "native_abs_row vi link c1 r input =
     (if ec_row_group_ids c1 \<noteq> [] \<and> ec_row_group_ids c1 ! r = None then input
      else
        let aux = al_aux_idx link;
            (vars_lo, vars_hi) = DecideRowSignedRange c1 r (si_lower_bounds input)
                                   (si_upper_bounds input) (Some aux);
            k = cc_get (ec_rhs_values c1) r;
            inner_range = CoverRowSided (k - vars_hi) (k - vars_lo) None ar_default;
            terms = inner_terms c1 aux r;
            renaming = (case terms of [(v, c)] \<Rightarrow> c = Fin (- 1) \<and> k = 0 | _ \<Rightarrow> False);
            (input, t_idx) =
              (if renaming then (input, Get vi (fst (hd terms)) r)
               else let (input, t_idx) = AddGlobalContinuousAux vi inner_range 0 [] input;
                        link_row = rc_default\<lparr>
                          rc_indices := t_idx # map (\<lambda>(v, c). Get vi v r) terms,
                          rc_coefficients := 1 # map snd terms,
                          rc_sense := Eq, rc_rhs := k, rc_kind := STRUCTURAL,
                          rc_source_clause_id := ec_source_clause_id c1,
                          rc_repair_group_id := ec_repair_group_id c1,
                          rc_removal_group_id := ec_removal_group_id c1\<rparr>
                    in (input\<lparr>si_global_constraints := si_global_constraints input @ [link_row]\<rparr>, t_idx));
            gc = \<lparr>gc_kind = GC_ABS, gc_result_column = Get vi aux r, gc_argument_columns = [t_idx],
                  gc_source_clause_id = ec_source_clause_id c1,
                  gc_repair_group_id = ec_repair_group_id c1,
                  gc_removal_group_id = ec_removal_group_id c1\<rparr>
        in input\<lparr>si_general_constraints := si_general_constraints input @ [gc]\<rparr>)"

definition emit_native_link :: "VarIndexer \<Rightarrow> (idx \<rightharpoonup> AbsConstraintPair) \<Rightarrow> AbsMaximizeLinkSpec \<Rightarrow>
    SolverInput \<Rightarrow> SolverInput" where
  "emit_native_link vi tag_map link input =
     (let c1 = si_constraints input ! the (ap_c1 (the (tag_map (al_aux_idx link))))
      in fold (native_abs_row vi link c1) [0..<si_num_rows input] input)"

definition EmitNativeAbs :: "VarIndexer \<Rightarrow> SolverInput \<Rightarrow> SolverInput" where
  "EmitNativeAbs vi input =
     fold (emit_native_link vi (BuildAbsTagMap input)) (si_abs_maximize_links input) input"

section \<open>The tag map\<close>

lemma abs_tag_fold:
  assumes "\<forall>i \<in> set is. i < length ecs"
    and "\<forall>aux p. m aux = Some p \<longrightarrow>
       (\<forall>i. ap_c1 p = Some i \<longrightarrow> i < length ecs \<and> ec_abs_aux_idx (ecs ! i) = Some aux \<and> ec_abs_is_pos_bound (ecs ! i)) \<and>
       (\<forall>i. ap_c2 p = Some i \<longrightarrow> i < length ecs \<and> ec_abs_aux_idx (ecs ! i) = Some aux \<and> \<not> ec_abs_is_pos_bound (ecs ! i))"
  shows "\<forall>aux p. fold (abs_tag_step ecs) is m aux = Some p \<longrightarrow>
       (\<forall>i. ap_c1 p = Some i \<longrightarrow> i < length ecs \<and> ec_abs_aux_idx (ecs ! i) = Some aux \<and> ec_abs_is_pos_bound (ecs ! i)) \<and>
       (\<forall>i. ap_c2 p = Some i \<longrightarrow> i < length ecs \<and> ec_abs_aux_idx (ecs ! i) = Some aux \<and> \<not> ec_abs_is_pos_bound (ecs ! i))"
  using assms
proof (induction "is" arbitrary: m)
  case (Cons i "is")
  show ?case
    using Cons.prems
    by (simp only: fold_Cons comp_apply, intro Cons.IH)
       (auto simp: abs_tag_step_def tag_pair_def split: option.splits if_splits)
qed simp

text \<open>A pair found under \<open>aux\<close> consists of rows tagged for \<open>aux\<close>, the positive and the negative one.\<close>

lemma BuildAbsTagMap_sound:
  assumes "BuildAbsTagMap input aux = Some p"
  shows "ap_c1 p = Some i \<Longrightarrow> i < length (si_constraints input) \<and>
           ec_abs_aux_idx (si_constraints input ! i) = Some aux \<and> ec_abs_is_pos_bound (si_constraints input ! i)"
    and "ap_c2 p = Some i \<Longrightarrow> i < length (si_constraints input) \<and>
           ec_abs_aux_idx (si_constraints input ! i) = Some aux \<and> \<not> ec_abs_is_pos_bound (si_constraints input ! i)"
  using abs_tag_fold [of "[0..<length (si_constraints input)]" "si_constraints input" Map.empty] assms
  by (auto simp: BuildAbsTagMap_def)

section \<open>The lowering arm is exact\<close>

lemma ShiftRhs_get:
  assumes "cc_wf src" "r < n"
  shows "cc_get (ShiftRhs n src d) r = cc_get src r + d"
proof (cases "IsUniform src")
  case True
  then show ?thesis by (simp add: ShiftRhs_def IsUniform_get)
next
  case False
  have size: "logical_size (MakeDense n 0) = n" by (simp add: MakeDense_def cc_default_def)
  with cc.fold_set [of "MakeDense n 0" "[0..<n]" r "\<lambda>r. cc_get src r + d"] assms(2) False show ?thesis
    by (simp add: ShiftRhs_def)
qed

lemma abs_upper_row_lhs:
  assumes "length (ec_row_coefficients c) = length (ec_variable_indices c)"
  shows "row_lhs (abs_upper_row c (Some y) m n rhs) X r = row_lhs c X r + m * Fin (X y r)"
  using assms by (simp add: row_lhs_def abs_upper_row_def term_val_def)

text \<open>
  What the tagged pair says at a row, with \<open>e\<close> the value of the inner expression: C1 reads
  \<open>aux - e >= 0\<close> and C2 reads \<open>aux + e >= 0\<close>, constants on either side.
\<close>

definition abs_pair :: "EvaluatedConstraint \<Rightarrow> EvaluatedConstraint \<Rightarrow> (idx \<Rightarrow> idx \<Rightarrow> real) \<Rightarrow> idx \<Rightarrow> idx \<Rightarrow>
    real \<Rightarrow> bool" where
  "abs_pair c1 c2 X aux r e \<longleftrightarrow>
     ec_comparison_type c1 = COMPARE_GREATERTHANOREQUALTO \<and>
     ec_comparison_type c2 = COMPARE_GREATERTHANOREQUALTO \<and>
     length (ec_row_coefficients c1) = length (ec_variable_indices c1) \<and>
     length (ec_row_coefficients c2) = length (ec_variable_indices c2) \<and>
     cc_wf (ec_rhs_values c1) \<and>
     (\<exists>k1. cc_get (ec_rhs_values c1) r = Fin k1 \<and> row_lhs c1 X r = Fin (k1 + X aux r - e)) \<and>
     (\<exists>k2. cc_get (ec_rhs_values c2) r = Fin k2 \<and> row_lhs c2 X r = Fin (k2 + X aux r + e))"

lemma sign_indicator:
  fixes a e m y :: real
  assumes "y = 0 \<or> y = 1" "\<bar>e\<bar> \<le> m"
  shows "a - e \<ge> 0 \<and> a + e \<ge> 0 \<and> a - e + 2 * m * y \<le> 2 * m \<and> a + e - 2 * m * y \<le> 0 \<longleftrightarrow>
         a = \<bar>e\<bar> \<and> (0 < e \<longrightarrow> y = 1) \<and> (e < 0 \<longrightarrow> y = 0)"
  using assms by auto

lemma abs_rows_exact:
  assumes pair: "abs_pair c1 c2 X aux r e" and r: "r < n"
    and m: "\<bar>e\<bar> \<le> m" and y: "X y r = 0 \<or> X y r = 1"
  shows "sat_row c1 X r \<and> sat_row c2 X r \<and>
     sat_row (abs_upper_row c1 (Some y) (Fin (2 * m)) n (ShiftRhs n (ec_rhs_values c1) (Fin (2 * m)))) X r \<and>
     sat_row (abs_upper_row c2 (Some y) (- Fin (2 * m)) n (ec_rhs_values c2)) X r \<longleftrightarrow>
     X aux r = \<bar>e\<bar> \<and> (0 < e \<longrightarrow> X y r = 1) \<and> (e < 0 \<longrightarrow> X y r = 0)"
proof -
  from pair obtain k1 k2 where k: "cc_get (ec_rhs_values c1) r = Fin k1" "row_lhs c1 X r = Fin (k1 + X aux r - e)"
    "cc_get (ec_rhs_values c2) r = Fin k2" "row_lhs c2 X r = Fin (k2 + X aux r + e)"
    by (auto simp: abs_pair_def)
  have shape: "length (ec_row_coefficients c1) = length (ec_variable_indices c1)"
    "length (ec_row_coefficients c2) = length (ec_variable_indices c2)" "cc_wf (ec_rhs_values c1)"
    using pair by (simp_all add: abs_pair_def)
  have sat12: "sat_row c1 X r \<longleftrightarrow> X aux r - e \<ge> 0" "sat_row c2 X r \<longleftrightarrow> X aux r + e \<ge> 0"
    using pair k by (auto simp: sat_row_def abs_pair_def)
  have fields: "ec_comparison_type (abs_upper_row c y m n rhs) = COMPARE_LESSTHANOREQUALTO"
    "ec_rhs_values (abs_upper_row c y m n rhs) = rhs" for c y m n rhs
    by (simp_all add: abs_upper_row_def)
  have ub: "sat_row (abs_upper_row c1 (Some y) (Fin (2 * m)) n (ShiftRhs n (ec_rhs_values c1) (Fin (2 * m)))) X r \<longleftrightarrow>
      X aux r - e + 2 * m * X y r \<le> 2 * m"
    "sat_row (abs_upper_row c2 (Some y) (- Fin (2 * m)) n (ec_rhs_values c2)) X r \<longleftrightarrow>
      X aux r + e - 2 * m * X y r \<le> 0"
    using r by (auto simp: sat_row_def abs_upper_row_lhs shape fields ShiftRhs_get k)
  show ?thesis unfolding sat12 ub by (rule sign_indicator [OF y m])
qed

text \<open>The whole pass appends two rows per link, read off the pair the tag map names.\<close>

definition abs_pair_of :: "SolverInput \<Rightarrow> AbsMaximizeLinkSpec \<Rightarrow> EvaluatedConstraint \<times> EvaluatedConstraint" where
  "abs_pair_of input link =
     (let pair = the (BuildAbsTagMap input (al_aux_idx link))
      in (si_constraints input ! the (ap_c1 pair), si_constraints input ! the (ap_c2 pair)))"

definition tagged :: "SolverInput \<Rightarrow> AbsMaximizeLinkSpec \<Rightarrow> bool" where
  "tagged input link \<longleftrightarrow>
     (\<exists>i j. BuildAbsTagMap input (al_aux_idx link) = Some \<lparr>ap_c1 = Some i, ap_c2 = Some j\<rparr>)"

lemma tagged_mem:
  assumes "tagged input link" "abs_pair_of input link = (c1, c2)"
  shows "c1 \<in> set (si_constraints input)" "c2 \<in> set (si_constraints input)"
  using assms BuildAbsTagMap_sound [of input "al_aux_idx link"]
  by (auto simp: tagged_def abs_pair_of_def Let_def)

definition abs_new_rows :: "SolverInput \<Rightarrow> AbsMaximizeLinkSpec \<Rightarrow> EvaluatedConstraint list" where
  "abs_new_rows input link =
     (let (c1, c2) = abs_pair_of input link; n = si_num_rows input; two_M = Fin 2 * al_abs_range link
      in [abs_upper_row c1 (al_y_idx link) two_M n (ShiftRhs n (ec_rhs_values c1) two_M),
          abs_upper_row c2 (al_y_idx link) (- two_M) n (ec_rhs_values c2)])"

lemma linearize_abs_fold:
  assumes "\<forall>link \<in> set links. tagged input link"
  shows "fold (linearize_abs_link (BuildAbsTagMap input)) links
           (input\<lparr>si_constraints := si_constraints input @ extra\<rparr>) =
         input\<lparr>si_constraints := si_constraints input @ extra @ concat (map (abs_new_rows input) links)\<rparr>"
  using assms
proof (induction links arbitrary: extra)
  case (Cons link links)
  from Cons.prems obtain i j where
    tag: "BuildAbsTagMap input (al_aux_idx link) = Some \<lparr>ap_c1 = Some i, ap_c2 = Some j\<rparr>"
    by (auto simp: tagged_def)
  with BuildAbsTagMap_sound [OF tag] have ij: "i < length (si_constraints input)" "j < length (si_constraints input)"
    by simp_all
  have "linearize_abs_link (BuildAbsTagMap input) link (input\<lparr>si_constraints := si_constraints input @ extra\<rparr>) =
      input\<lparr>si_constraints := si_constraints input @ (extra @ abs_new_rows input link)\<rparr>"
    using ij by (simp add: linearize_abs_link_def abs_new_rows_def abs_pair_of_def tag Let_def nth_append)
  with Cons show ?case by simp
qed simp

lemma LinearizeAbsMaximize_rows:
  assumes "\<forall>link \<in> set (si_abs_maximize_links input). tagged input link"
  shows "si_constraints (LinearizeAbsMaximize input) =
     si_constraints input @ concat (map (abs_new_rows input) (si_abs_maximize_links input))"
  using linearize_abs_fold [OF assms, of "[]"] by (simp add: LinearizeAbsMaximize_def)

section \<open>The derived range dominates\<close>

text \<open>
  The inner expression of a link, read off C1 as the code reads it: C1 is \<open>aux + S >= k\<close>, so the
  expression is \<open>k - S\<close>.
\<close>

definition inner_of :: "EvaluatedConstraint \<Rightarrow> idx \<Rightarrow> (idx \<Rightarrow> idx \<Rightarrow> real) \<Rightarrow> idx \<Rightarrow> real" where
  "inner_of c1 aux X r = rval (cc_get (ec_rhs_values c1) r) - var_part (ec_terms c1) r X (Some aux)"

lemma abs_reach_step_cases:
  "abs_reach_step input c1 aux r (M, u) =
     (if \<not> isfinite (cc_get (ec_rhs_values c1) r) then Inl (AbsNotFinite r)
      else case DecideRowTermRange (ec_terms c1) r (si_lower_bounds input) (si_upper_bounds input) u (Some aux) of
             (reach, u') \<Rightarrow> Inr (std_max M (\<bar>cc_get (ec_rhs_values c1) r\<bar> + reach), u'))"
  by (simp add: abs_reach_step_def Let_def)

lemma abs_reach_unbounded:
  "fold_res (abs_reach_step input c1 aux) rs (M, True) = Inr (M', u) \<Longrightarrow> u"
proof (induction rs arbitrary: M)
  case (Cons r rs)
  have "snd (DecideRowTermRange (ec_terms c1) r (si_lower_bounds input) (si_upper_bounds input) True (Some aux))"
    by (simp add: DecideRowTermRange_def term_range_mono)
  with Cons show ?case by (auto simp: abs_reach_step_cases split: if_splits prod.splits)
qed simp

lemma abs_reach_fold:
  assumes "fold_res (abs_reach_step input c1 aux) rs (Fin a, False) = Inr (M, False)"
    and "vars_in c1 (length (si_lower_bounds input))"
    and "length (si_upper_bounds input) = length (si_lower_bounds input)"
    and "\<forall>r \<in> set rs. terms_crisp (ec_terms c1) r \<and> boxed (si_lower_bounds input) (si_upper_bounds input) r X"
  shows "\<exists>m. M = Fin m \<and> a \<le> m \<and> (\<forall>r \<in> set rs. \<bar>inner_of c1 aux X r\<bar> \<le> m)"
  using assms
proof (induction rs arbitrary: a)
  case (Cons r rs)
  obtain S u where reach: "DecideRowTermRange (ec_terms c1) r (si_lower_bounds input)
      (si_upper_bounds input) False (Some aux) = (S, u)" by force
  let ?k = "cc_get (ec_rhs_values c1) r"
  from reach Cons.prems(1) have fin: "isfinite ?k"
    and rest: "fold_res (abs_reach_step input c1 aux) rs (std_max (Fin a) (\<bar>?k\<bar> + S), u) = Inr (M, False)"
    by (auto simp: abs_reach_step_cases split: if_splits)
  from rest have u: "\<not> u" using abs_reach_unbounded [of input c1 aux rs _ M False] by (cases u) auto
  have in_range: "\<forall>(var, col) \<in> set (ec_terms c1). \<forall>v. var = Some v \<longrightarrow>
      v < length (si_lower_bounds input) \<and> v < length (si_upper_bounds input)"
    using ec_terms_vars [OF Cons.prems(2)] Cons.prems(3) by auto
  have here: "terms_crisp (ec_terms c1) r" "boxed (si_lower_bounds input) (si_upper_bounds input) r X"
    using Cons.prems(4) by simp_all
  have "DecideRowTermRange (ec_terms c1) r (si_lower_bounds input) (si_upper_bounds input) False (Some aux) = (S, False)"
    using reach u by simp
  from TermRange_bound [OF this here in_range] obtain s where
    s: "S = Fin s" "\<bar>var_part (ec_terms c1) r X (Some aux)\<bar> \<le> s" by blast
  obtain k where k: "?k = Fin k" using fin by (auto simp: isfinite_iff)
  have next_fold: "fold_res (abs_reach_step input c1 aux) rs (Fin (max a (\<bar>k\<bar> + s)), False) = Inr (M, False)"
    using rest u by (simp add: k s(1))
  from Cons.IH [OF next_fold Cons.prems(2,3)] Cons.prems(4) obtain m where
    "M = Fin m" "max a (\<bar>k\<bar> + s) \<le> m" "\<forall>r \<in> set rs. \<bar>inner_of c1 aux X r\<bar> \<le> m" by auto
  moreover have "\<bar>inner_of c1 aux X r\<bar> \<le> \<bar>k\<bar> + s" using s(2) k by (simp add: inner_of_def)
  ultimately show ?case by auto
qed auto

text \<open>The demanded reach is never NaN, so it can only raise the range.\<close>

lemma MaxValue_not_NaN: "a \<noteq> NaN \<Longrightarrow> b \<noteq> NaN \<Longrightarrow> MaxValue a b \<noteq> NaN \<and> a \<le> MaxValue a b \<and> b \<le> MaxValue a b"
  by (cases a; cases b) (auto simp: MaxValue_def)

lemma demand_row_not_NaN: "demanded \<noteq> NaN \<Longrightarrow> demand_row input ec aux t r demanded \<noteq> NaN"
proof -
  assume "demanded \<noteq> NaN"
  moreover have "MaxValue demanded ((k - l) / a) \<noteq> NaN"
    if "isfinite k" "isfinite l" "a > 0 \<or> a < 0" for k l a
    using that \<open>demanded \<noteq> NaN\<close> MaxValue_not_NaN [of demanded "(k - l) / a"]
    by (cases k; cases l; cases a) (auto simp: zero_dbl_def)
  ultimately show ?thesis
    by (auto simp: demand_row_def Let_def split: prod.splits)
qed

lemma DemandedAuxReach_not_NaN: "DemandedAuxReach input aux n \<noteq> NaN"
proof -
  have start: "(if aux < length (si_lower_bounds input) \<and> si_lower_bounds input ! aux > Fin (- (10 ^ 20))
      then MaxValue 0 (si_lower_bounds input ! aux) else 0) \<noteq> NaN"
    using MaxValue_not_NaN [of 0 "si_lower_bounds input ! aux"]
    by (cases "si_lower_bounds input ! aux") (auto simp: zero_dbl_def)
  have inner: "demand_constraint input aux n ec d \<noteq> NaN" if "d \<noteq> NaN" for ec d
  proof -
    have "fold (demand_row input ec aux t) [0..<n] d \<noteq> NaN" for t
      by (rule fold_invariant_list [where P = "\<lambda>d. d \<noteq> NaN", OF that]) (rule demand_row_not_NaN)
    with that show ?thesis by (simp add: demand_constraint_def split: option.splits)
  qed
  show ?thesis
    unfolding DemandedAuxReach_def Let_def
    by (rule fold_invariant_list [where P = "\<lambda>d. d \<noteq> NaN", OF start]) (rule inner)
qed

text \<open>The state the fold over the links keeps: the box holds the point, the rows and links stay.\<close>

definition abs_c1 :: "SolverInput \<Rightarrow> idx \<Rightarrow> EvaluatedConstraint" where
  "abs_c1 input aux = si_constraints input ! the (ap_c1 (the (BuildAbsTagMap input aux)))"

definition abs_links_ok :: "SolverInput \<Rightarrow> (idx \<Rightarrow> idx \<Rightarrow> real) \<Rightarrow> bool" where
  "abs_links_ok input X \<longleftrightarrow>
     length (si_upper_bounds input) = length (si_lower_bounds input) \<and>
     (\<forall>link \<in> set (si_abs_maximize_links input).
        let c1 = abs_c1 input (al_aux_idx link)
        in vars_in c1 (length (si_lower_bounds input)) \<and>
           (\<forall>r < si_num_rows input. terms_crisp (ec_terms c1) r \<and>
              X (al_aux_idx link) r = \<bar>inner_of c1 (al_aux_idx link) X r\<bar>))"

definition abs_derived :: "SolverInput \<Rightarrow> SolverInput \<Rightarrow> nat \<Rightarrow> (idx \<Rightarrow> idx \<Rightarrow> real) \<Rightarrow> bool" where
  "abs_derived input s k X \<longleftrightarrow>
     si_constraints s = si_constraints input \<and> si_num_rows s = si_num_rows input \<and>
     si_lower_bounds s = si_lower_bounds input \<and>
     length (si_upper_bounds s) = length (si_upper_bounds input) \<and>
     map al_aux_idx (si_abs_maximize_links s) = map al_aux_idx (si_abs_maximize_links input) \<and>
     map al_y_idx (si_abs_maximize_links s) = map al_y_idx (si_abs_maximize_links input) \<and>
     (\<forall>r < si_num_rows input. boxed (si_lower_bounds s) (si_upper_bounds s) r X) \<and>
     (\<forall>i < k. \<not> al_range_unbounded (si_abs_maximize_links s ! i) \<longrightarrow>
        (\<forall>r < si_num_rows input. Fin \<bar>inner_of (abs_c1 input (al_aux_idx (si_abs_maximize_links s ! i)))
            (al_aux_idx (si_abs_maximize_links s ! i)) X r\<bar> \<le> al_abs_range (si_abs_maximize_links s ! i)))"

lemma derive_abs_link_keeps:
  assumes step: "derive_abs_link (BuildAbsTagMap input) names refuse k s = Inr s'"
    and s: "abs_derived input s k X" and ok: "abs_links_ok input X"
    and k: "k < length (si_abs_maximize_links input)"
  shows "abs_derived input s' (Suc k) X"
proof -
  define link where "link = si_abs_maximize_links s ! k"
  define aux where "aux = al_aux_idx link"
  define c1 where "c1 = abs_c1 input aux"
  let ?n = "si_num_rows input"
  have len: "length (si_abs_maximize_links s) = length (si_abs_maximize_links input)"
    using s by (metis abs_derived_def length_map)
  have same: "si_constraints s = si_constraints input" "si_num_rows s = ?n"
    using s by (simp_all add: abs_derived_def)
  have aux_eq: "aux = al_aux_idx (si_abs_maximize_links input ! k)"
    using s k len by (metis abs_derived_def aux_def link_def nth_map)
  have c1: "vars_in c1 (length (si_lower_bounds s))" "length (si_upper_bounds s) = length (si_lower_bounds s)"
    "\<forall>r < ?n. terms_crisp (ec_terms c1) r \<and> X aux r = \<bar>inner_of c1 aux X r\<bar>"
    using ok s k by (auto simp: abs_links_ok_def abs_derived_def c1_def aux_eq Let_def)
  have box: "\<forall>r < ?n. boxed (si_lower_bounds s) (si_upper_bounds s) r X"
    using s unfolding abs_derived_def by blast
  have c1_code: "si_constraints s ! the (ap_c1 (the (BuildAbsTagMap input aux))) = c1"
    by (simp add: c1_def abs_c1_def same)
  note step' = step [unfolded derive_abs_link_def Let_def, folded link_def, folded aux_def,
      unfolded c1_code same(2)]
  from step' obtain M u where reach: "fold_res (abs_reach_step s c1 aux) [0..<?n] (0, False) = Inr (M, u)"
    by (auto split: sum.splits)
  show ?thesis
  proof (cases u)
    case True
    with step' reach have "s' = s\<lparr>si_abs_maximize_links :=
        (si_abs_maximize_links s)[k := link\<lparr>al_range_unbounded := True\<rparr>]\<rparr>"
      by (auto split: if_splits)
    moreover from this have "map al_aux_idx (si_abs_maximize_links s') = map al_aux_idx (si_abs_maximize_links s)"
      "map al_y_idx (si_abs_maximize_links s') = map al_y_idx (si_abs_maximize_links s)"
      using k len by (auto simp: map_update link_def list_update_same_conv)
    moreover have "si_abs_maximize_links s' ! i =
        (if i = k then link\<lparr>al_range_unbounded := True\<rparr> else si_abs_maximize_links s ! i)" for i
      using calculation(1) k len by (simp add: nth_list_update)
    ultimately show ?thesis
      using s by (auto simp: abs_derived_def less_Suc_eq)
  next
    case False
    with reach have "fold_res (abs_reach_step s c1 aux) [0..<?n] (Fin 0, False) = Inr (M, False)"
      by (simp add: zero_dbl_def)
    from abs_reach_fold [OF this c1(1,2), of X] c1(3) box obtain m where
      m: "M = Fin m" "\<forall>r < ?n. \<bar>inner_of c1 aux X r\<bar> \<le> m" by auto
    define M' where "M' = MaxValue M (DemandedAuxReach s aux ?n)"
    have "Fin m \<le> M'" "M' \<noteq> NaN"
      using MaxValue_not_NaN [of M "DemandedAuxReach s aux ?n"] DemandedAuxReach_not_NaN m(1)
      by (auto simp: M'_def)
    then have dom: "\<forall>r < ?n. Fin \<bar>inner_of c1 aux X r\<bar> \<le> M'"
      using m(2) by (cases M') (auto intro: order_trans)
    have s': "s' = s\<lparr>
        si_abs_maximize_links := (si_abs_maximize_links s)[k := link\<lparr>al_abs_range := M'\<rparr>],
        si_upper_bounds := (if M' < si_upper_bounds s ! aux then (si_upper_bounds s)[aux := M'] else si_upper_bounds s)\<rparr>"
      using step' reach False by (auto simp: M'_def split: if_splits)
    have "\<forall>r < ?n. boxed (si_lower_bounds s') (si_upper_bounds s') r X"
    proof (intro allI impI)
      fix r
      assume r: "r < ?n"
      with dom c1(3) have "Fin (X aux r) \<le> M'" by simp
      then have "\<forall>v < length (si_upper_bounds s). Fin (X v r) \<le> (si_upper_bounds s)[aux := M'] ! v"
        using box r
        by (cases "aux < length (si_upper_bounds s)")
           (auto simp: boxed_def nth_list_update list_update_beyond)
      with box r show "boxed (si_lower_bounds s') (si_upper_bounds s') r X"
        by (simp add: s' boxed_def)
    qed
    moreover have "map al_aux_idx (si_abs_maximize_links s') = map al_aux_idx (si_abs_maximize_links s)"
      "map al_y_idx (si_abs_maximize_links s') = map al_y_idx (si_abs_maximize_links s)"
      using k len by (auto simp: s' map_update link_def list_update_same_conv)
    moreover have "si_abs_maximize_links s' ! i = (if i = k then link\<lparr>al_abs_range := M'\<rparr> else si_abs_maximize_links s ! i)" for i
      using k len by (simp add: s' nth_list_update)
    ultimately show ?thesis
      using s dom by (auto simp: abs_derived_def less_Suc_eq s' aux_def [symmetric] c1_def [symmetric])
  qed
qed

lemma DeriveAbs_derived:
  assumes "DeriveAbsAuxiliaryBounds names refuse input = Inr input'"
    and "abs_links_ok input X"
    and "\<forall>r < si_num_rows input. boxed (si_lower_bounds input) (si_upper_bounds input) r X"
  shows "abs_derived input input' (length (si_abs_maximize_links input)) X"
proof -
  have "fold_res (derive_abs_link (BuildAbsTagMap input) names refuse) [0..<k] input = Inr s \<Longrightarrow>
      k \<le> length (si_abs_maximize_links input) \<Longrightarrow> abs_derived input s k X" for k s
  proof (induction k arbitrary: s)
    case 0
    with assms(3) show ?case by (simp add: abs_derived_def)
  next
    case (Suc k)
    then show ?case
      using derive_abs_link_keeps [OF _ _ assms(2)]
      by (auto simp: fold_res_append split: sum.splits)
  qed
  with assms(1) show ?thesis by (simp add: DeriveAbsAuxiliaryBounds_def)
qed

section \<open>The native arm\<close>

lemma inner_terms_spec:
  assumes "terms_crisp (ec_terms c1) r"
  shows "list_all isfinite (map snd (inner_terms c1 aux r)) \<and>
     (\<Sum>(v, c)\<leftarrow>inner_terms c1 aux r. rval c * X v r) = var_part (ec_terms c1) r X (Some aux) \<and>
     (\<forall>(v, c) \<in> set (inner_terms c1 aux r). Some v \<in> set (ec_variable_indices c1))"
proof -
  let ?f = "\<lambda>(var, col). case var of None \<Rightarrow> []
        | Some v \<Rightarrow> if v = aux \<or> cc_get col r = 0 then [] else [(v, cc_get col r)]"
  have A: "list_all isfinite (map snd (concat (map ?f ts))) \<and>
      (\<Sum>(v, c)\<leftarrow>concat (map ?f ts). rval c * X v r) = var_part ts r X (Some aux)"
    if "terms_crisp ts r" for ts
    using that
    by (induction ts)
       (auto simp: terms_crisp_def part_of_def crisp_def zero_dbl_def split: option.splits)
  have B: "Some v \<in> set (ec_variable_indices c1)" if "(v, c) \<in> set (inner_terms c1 aux r)" for v c
    using that by (auto simp: inner_terms_def ec_terms_def split: option.splits if_splits dest: set_zip_leftD)
  show ?thesis using A [OF assms, folded inner_terms_def] B by blast
qed

text \<open>The row a pinned argument column gets, and the whole step in one equation.\<close>

definition native_link_row :: "VarIndexer \<Rightarrow> EvaluatedConstraint \<Rightarrow> idx \<Rightarrow> idx \<Rightarrow> idx \<Rightarrow> RawConstraint" where
  "native_link_row vi c1 aux r t_idx = rc_default\<lparr>
     rc_indices := t_idx # map (\<lambda>(v, c). Get vi v r) (inner_terms c1 aux r),
     rc_coefficients := 1 # map snd (inner_terms c1 aux r),
     rc_sense := Eq, rc_rhs := cc_get (ec_rhs_values c1) r, rc_kind := STRUCTURAL,
     rc_source_clause_id := ec_source_clause_id c1,
     rc_repair_group_id := ec_repair_group_id c1, rc_removal_group_id := ec_removal_group_id c1\<rparr>"

definition native_abs_gc :: "VarIndexer \<Rightarrow> EvaluatedConstraint \<Rightarrow> idx \<Rightarrow> idx \<Rightarrow> idx \<Rightarrow> GeneralConstraintSpec" where
  "native_abs_gc vi c1 aux r t_idx =
     \<lparr>gc_kind = GC_ABS, gc_result_column = Get vi aux r, gc_argument_columns = [t_idx],
      gc_source_clause_id = ec_source_clause_id c1, gc_repair_group_id = ec_repair_group_id c1,
      gc_removal_group_id = ec_removal_group_id c1\<rparr>"

definition is_renaming :: "EvaluatedConstraint \<Rightarrow> idx \<Rightarrow> idx \<Rightarrow> bool" where
  "is_renaming c1 aux r \<longleftrightarrow>
     (case inner_terms c1 aux r of [(v, c)] \<Rightarrow> c = Fin (- 1) \<and> cc_get (ec_rhs_values c1) r = 0 | _ \<Rightarrow> False)"

lemma native_abs_row_new:
  fixes vi :: VarIndexer and input :: SolverInput and link :: AbsMaximizeLinkSpec
  assumes "row_active c1 r"
  defines "t \<equiv> vi_global_block_start vi + si_num_global_vars input"
  defines "input' \<equiv> native_abs_row vi link c1 r input" and "aux \<equiv> al_aux_idx link"
  shows "si_global_constraints input' =
           si_global_constraints input @ (if is_renaming c1 aux r then [] else [native_link_row vi c1 aux r t])"
    and "si_general_constraints input' = si_general_constraints input @
           [native_abs_gc vi c1 aux r
              (if is_renaming c1 aux r then Get vi (fst (hd (inner_terms c1 aux r))) r else t)]"
  using assms(1)
  unfolding input'_def aux_def t_def native_abs_row_def row_active_def is_renaming_def
  by (auto simp: Let_def native_link_row_def native_abs_gc_def AddGlobalContinuousAux_def
      split: prod.splits list.splits)

lemma native_link_row_sat:
  assumes "terms_crisp (ec_terms c1) r" "cc_get (ec_rhs_values c1) r = Fin k"
    and "\<forall>(v, c) \<in> set (inner_terms c1 aux r). x' (Get vi v r) = X v r"
  shows "sat_raw (native_link_row vi c1 aux r t) x' \<longleftrightarrow> x' t = inner_of c1 aux X r"
proof -
  let ?ts = "inner_terms c1 aux r"
  note spec = inner_terms_spec [OF assms(1), of aux X]
  have "lin_real (map (\<lambda>(v, c). Get vi v r) ts) (map snd ts) x' = (\<Sum>(v, c)\<leftarrow>ts. rval c * X v r)"
    if "\<forall>(v, c) \<in> set ts. x' (Get vi v r) = X v r" for ts
    using that by (induction ts) (auto simp: lin_real_def)
  note this [OF assms(3)]
  with spec have "lin_val (map (\<lambda>(v, c). Get vi v r) ?ts) (map snd ?ts) x' =
      Fin (var_part (ec_terms c1) r X (Some aux))"
    by (simp add: lin_val_finite)
  then show ?thesis
    by (auto simp: sat_raw_def native_link_row_def inner_of_def assms(2) one_dbl_def)
qed

lemma native_abs_row_exact:
  fixes base input :: SolverInput and link :: AbsMaximizeLinkSpec
  assumes ix: "indexable base" and r: "r < si_num_rows base" and act: "row_active c1 r"
    and vars: "vars_in c1 (si_num_decide_vars base)" "al_aux_idx link < si_num_decide_vars base"
    and fin: "terms_crisp (ec_terms c1) r" "isfinite (cc_get (ec_rhs_values c1) r)"
  defines "vi \<equiv> BuildIndexer base" and "aux \<equiv> al_aux_idx link"
  defines "input' \<equiv> native_abs_row vi link c1 r input"
  shows "(\<exists>x'. (\<forall>c < vi_global_block_start vi. x' c = x c) \<and>
            (\<forall>row \<in> set (drop (length (si_global_constraints input)) (si_global_constraints input')). sat_raw row x') \<and>
            (\<forall>gc \<in> set (drop (length (si_general_constraints input)) (si_general_constraints input')). sat_general gc x'))
         \<longleftrightarrow> x (Get vi aux r) = \<bar>inner_of c1 aux (at_flat base x) r\<bar>"
proof -
  define t where "t = vi_global_block_start vi + si_num_global_vars input"
  let ?X = "at_flat base x" and ?ts = "inner_terms c1 aux r"
  obtain k where k: "cc_get (ec_rhs_values c1) r = Fin k" using fin(2) by (auto simp: isfinite_iff)
  have col: "Get vi v r < vi_global_block_start vi" if "v < si_num_decide_vars base" for v
    using num.at_row_lt [OF ix that r] by (simp add: vi_def)
  have terms: "v < si_num_decide_vars base" if "(v, c) \<in> set ?ts" for v c
    using inner_terms_spec [OF fin(1), of aux ?X] vars(1) that by (auto simp: vars_in_def)
  have agree: "\<forall>(v, c) \<in> set ?ts. x' (Get vi v r) = ?X v r"
    if "\<forall>c < vi_global_block_start vi. x' c = x c" for x'
    using that col terms by (auto simp: at_flat_def vi_def)
  have aux_col: "x' (Get vi aux r) = x (Get vi aux r)" if "\<forall>c < vi_global_block_start vi. x' c = x c" for x'
    using that col [of aux] vars(2) by (simp add: aux_def)
  note new = native_abs_row_new [OF act, where vi = vi and input = input and link = link, folded t_def input'_def aux_def]
  show ?thesis
  proof (cases "is_renaming c1 aux r")
    case True
    then obtain v where v: "?ts = [(v, Fin (- 1))]" "k = 0"
      by (cases ?ts rule: remdups_adj.cases)
         (auto simp: is_renaming_def k zero_dbl_def split: prod.splits)
    have "inner_of c1 aux ?X r = ?X v r"
      using inner_terms_spec [OF fin(1), of aux ?X] by (simp add: inner_of_def k v)
    with True new v agree aux_col show ?thesis
      by (auto simp: native_abs_gc_def Let_def at_flat_def vi_def)
  next
    case False
    have sat: "sat_raw (native_link_row vi c1 aux r t) x' \<longleftrightarrow> x' t = inner_of c1 aux ?X r"
      if "\<forall>c < vi_global_block_start vi. x' c = x c" for x'
      using agree [OF that] by (intro native_link_row_sat [OF fin(1) k]) simp
    have t_new: "t \<ge> vi_global_block_start vi" by (simp add: t_def)
    show ?thesis
    proof
      assume "\<exists>x'. (\<forall>c < vi_global_block_start vi. x' c = x c) \<and>
            (\<forall>row \<in> set (drop (length (si_global_constraints input)) (si_global_constraints input')). sat_raw row x') \<and>
            (\<forall>gc \<in> set (drop (length (si_general_constraints input)) (si_general_constraints input')). sat_general gc x')"
      then obtain x' where x': "\<forall>c < vi_global_block_start vi. x' c = x c"
        "sat_raw (native_link_row vi c1 aux r t) x'" "sat_general (native_abs_gc vi c1 aux r t) x'"
        using False new by auto
      with sat [OF x'(1)] aux_col [OF x'(1)] show "x (Get vi aux r) = \<bar>inner_of c1 aux ?X r\<bar>"
        by (simp add: native_abs_gc_def Let_def)
    next
      assume eq: "x (Get vi aux r) = \<bar>inner_of c1 aux ?X r\<bar>"
      let ?x' = "\<lambda>c. if c = t then inner_of c1 aux ?X r else x c"
      have below: "\<forall>c < vi_global_block_start vi. ?x' c = x c" using t_new by auto
      have "sat_raw (native_link_row vi c1 aux r t) ?x'" using sat [OF below] by simp
      moreover have "sat_general (native_abs_gc vi c1 aux r t) ?x'"
        using eq col [of aux] vars(2) t_new by (auto simp: native_abs_gc_def Let_def aux_def)
      ultimately show "\<exists>x'. (\<forall>c < vi_global_block_start vi. x' c = x c) \<and>
            (\<forall>row \<in> set (drop (length (si_global_constraints input)) (si_global_constraints input')). sat_raw row x') \<and>
            (\<forall>gc \<in> set (drop (length (si_general_constraints input)) (si_general_constraints input')). sat_general gc x')"
        using False new below by (intro exI [of _ ?x']) simp
    qed
  qed
qed

section \<open>Properties\<close>

text \<open>
  C21. The sign-indicator lowering of ABS is exact: with a range that dominates the inner expressions
  and 0/1 indicators, all rows of the lowered input hold at a query row exactly when the rows of the
  given input do, every auxiliary equals the absolute value of its inner expression, and every
  indicator has the sign's value.
\<close>

theorem abs_lowering_exact:
  assumes "r < si_num_rows input"
    and "\<forall>link \<in> set (si_abs_maximize_links input). tagged input link \<and>
       (\<exists>y m. al_y_idx link = Some y \<and> al_abs_range link = Fin m \<and> \<bar>e link\<bar> \<le> m \<and>
          (X y r = 0 \<or> X y r = 1) \<and>
          abs_pair (fst (abs_pair_of input link)) (snd (abs_pair_of input link)) X (al_aux_idx link) r (e link))"
  shows "(\<forall>ec \<in> set (si_constraints (LinearizeAbsMaximize input)). sat_row ec X r) \<longleftrightarrow>
         (\<forall>ec \<in> set (si_constraints input). sat_row ec X r) \<and>
         (\<forall>link \<in> set (si_abs_maximize_links input). X (al_aux_idx link) r = \<bar>e link\<bar> \<and>
            (0 < e link \<longrightarrow> X (the (al_y_idx link)) r = 1) \<and> (e link < 0 \<longrightarrow> X (the (al_y_idx link)) r = 0))"
    (is "?new \<longleftrightarrow> ?old \<and> (\<forall>link \<in> _. ?val link)")
proof -
  have rows: "(\<forall>ec \<in> set (abs_new_rows input link). sat_row ec X r) \<longleftrightarrow> ?val link"
    if "link \<in> set (si_abs_maximize_links input)" ?old for link
  proof -
    obtain c1 c2 where c: "abs_pair_of input link = (c1, c2)" by force
    from assms(2) that(1) c obtain y m where y: "al_y_idx link = Some y" "al_abs_range link = Fin m"
      "\<bar>e link\<bar> \<le> m" "X y r = 0 \<or> X y r = 1" "tagged input link"
      "abs_pair c1 c2 X (al_aux_idx link) r (e link)" by auto
    from abs_rows_exact [OF y(6) assms(1) y(3,4)] that(2) tagged_mem [OF y(5) c] y(1,2) c
    show ?thesis by (simp add: abs_new_rows_def Let_def)
  qed
  have "si_constraints (LinearizeAbsMaximize input) =
      si_constraints input @ concat (map (abs_new_rows input) (si_abs_maximize_links input))"
    by (rule LinearizeAbsMaximize_rows) (use assms(2) in blast)
  with rows show ?thesis by auto
qed

text \<open>
  C22. The derived range is sound: when the pass answers, every link whose range it derived dominates
  the inner expression at every row, and a point of the given box with \<open>aux = |inner|\<close> on every
  link stays in the narrowed box.
\<close>

theorem abs_bounds_sound:
  assumes "DeriveAbsAuxiliaryBounds names refuse input = Inr input'"
    and "abs_links_ok input X"
    and "\<forall>r < si_num_rows input. boxed (si_lower_bounds input) (si_upper_bounds input) r X"
  shows "(\<forall>r < si_num_rows input. boxed (si_lower_bounds input') (si_upper_bounds input') r X) \<and>
         (\<forall>link \<in> set (si_abs_maximize_links input'). \<not> al_range_unbounded link \<longrightarrow>
            (\<forall>r < si_num_rows input.
               Fin \<bar>inner_of (abs_c1 input (al_aux_idx link)) (al_aux_idx link) X r\<bar> \<le> al_abs_range link))"
proof -
  note d = DeriveAbs_derived [OF assms]
  then have "length (si_abs_maximize_links input') = length (si_abs_maximize_links input)"
    by (metis abs_derived_def length_map)
  with d show ?thesis by (auto simp: abs_derived_def in_set_conv_nth)
qed

text \<open>
  C23. The native statement of ABS is exact: the row and the general constraint emitted for a query
  row can be met by some value of the new column exactly when the auxiliary's column equals the
  absolute value of the inner expression there.
\<close>

theorem native_abs_exact:
  assumes "indexable base" "r < si_num_rows base" "row_active c1 r"
    and "vars_in c1 (si_num_decide_vars base)" "al_aux_idx link < si_num_decide_vars base"
    and "terms_crisp (ec_terms c1) r" "isfinite (cc_get (ec_rhs_values c1) r)"
    and "input' = native_abs_row (BuildIndexer base) link c1 r input"
  shows "(\<exists>x'. (\<forall>c < vi_global_block_start (BuildIndexer base). x' c = x c) \<and>
            (\<forall>row \<in> set (drop (length (si_global_constraints input)) (si_global_constraints input')). sat_raw row x') \<and>
            (\<forall>gc \<in> set (drop (length (si_general_constraints input)) (si_general_constraints input')). sat_general gc x'))
         \<longleftrightarrow> x (Get (BuildIndexer base) (al_aux_idx link) r) =
             \<bar>inner_of c1 (al_aux_idx link) (at_flat base x) r\<bar>"
  using native_abs_row_exact [OF assms(1-7), of x input] assms(8) by simp

text \<open>One row of \<open>aux = ABS(x)\<close> with \<open>-3 <= x <= 5\<close>; the variables are \<open>x\<close>, \<open>y\<close>, \<open>aux\<close>.\<close>

definition demo_abs_pair :: "bool \<Rightarrow> EvaluatedConstraint" where
  "demo_abs_pair pos = ec_default\<lparr>ec_variable_indices := [Some 2, Some 0],
     ec_row_coefficients := [MakeScalar (Fin 1) 1, MakeScalar (Fin (if pos then - 1 else 1)) 1],
     ec_rhs_values := MakeScalar (Fin 0) 1, ec_comparison_type := COMPARE_GREATERTHANOREQUALTO,
     ec_abs_aux_idx := Some 2, ec_abs_is_pos_bound := pos\<rparr>"

definition demo_abs_link :: AbsMaximizeLinkSpec where
  "demo_abs_link = \<lparr>al_aux_idx = 2, al_y_idx = Some 1, al_abs_range = Fin 5, al_range_unbounded = False\<rparr>"

definition demo_abs :: SolverInput where
  "demo_abs = si_default\<lparr>si_num_rows := 1, si_num_decide_vars := 3,
     si_variable_types := [DOUBLE, BOOLEAN, DOUBLE],
     si_lower_bounds := [Fin (- 3), Fin 0, Fin 0], si_upper_bounds := [Fin 5, Fin 1, PInf],
     si_constraints := [demo_abs_pair True, demo_abs_pair False],
     si_abs_maximize_links := [demo_abs_link]\<rparr>"

definition demo_abs_point :: "idx \<Rightarrow> idx \<Rightarrow> real" where
  "demo_abs_point v r = (if v = 0 then - 2 else if v = 2 then 2 else 0)"

lemma demo_abs_simps:
  "si_num_rows demo_abs = 1" "si_constraints demo_abs = [demo_abs_pair True, demo_abs_pair False]"
  "si_lower_bounds demo_abs = [Fin (- 3), Fin 0, Fin 0]" "si_upper_bounds demo_abs = [Fin 5, Fin 1, PInf]"
  "si_num_decide_vars demo_abs = 3" "si_abs_maximize_links demo_abs = [demo_abs_link]"
  "si_variable_scopes demo_abs = []" "si_entity_mappings demo_abs = []"
  by (simp_all add: demo_abs_def si_default_def)

lemma demo_abs_tags: "BuildAbsTagMap demo_abs 2 = Some \<lparr>ap_c1 = Some 0, ap_c2 = Some 1\<rparr>"
  by (simp add: BuildAbsTagMap_def demo_abs_simps)
     (simp add: abs_tag_step_def demo_abs_pair_def tag_pair_def ec_default_def)

lemma abs_lowering_exact_witness:
  "list_all (\<lambda>ec. sat_row ec demo_abs_point 0) (si_constraints (LinearizeAbsMaximize demo_abs))"
proof -
  have links: "\<forall>link \<in> set (si_abs_maximize_links demo_abs). tagged demo_abs link \<and>
       (\<exists>y m. al_y_idx link = Some y \<and> al_abs_range link = Fin m \<and> \<bar>- 2\<bar> \<le> m \<and>
          (demo_abs_point y 0 = 0 \<or> demo_abs_point y 0 = 1) \<and>
          abs_pair (fst (abs_pair_of demo_abs link)) (snd (abs_pair_of demo_abs link))
            demo_abs_point (al_aux_idx link) 0 (- 2))"
    by (simp add: demo_abs_simps demo_abs_link_def tagged_def demo_abs_tags abs_pair_of_def)
       (simp add: abs_pair_def demo_abs_pair_def ec_default_def row_lhs_def term_val_def
         demo_abs_point_def zero_dbl_def)
  have "\<forall>ec \<in> set (si_constraints demo_abs). sat_row ec demo_abs_point 0"
    by (simp add: demo_abs_simps demo_abs_pair_def ec_default_def sat_row_def row_lhs_def
        term_val_def demo_abs_point_def zero_dbl_def)
  moreover have "demo_abs_point 2 0 = 2" "demo_abs_point 1 0 = 0"
    by (simp_all add: demo_abs_point_def)
  ultimately show ?thesis
    using abs_lowering_exact [OF _ links] by (simp add: demo_abs_simps demo_abs_link_def list_all_iff)
qed

lemma demo_abs_links: "abs_links_ok demo_abs demo_abs_point"
  by (simp add: abs_links_ok_def abs_c1_def demo_abs_simps demo_abs_link_def demo_abs_tags Let_def)
     (simp add: demo_abs_pair_def ec_default_def vars_in_def terms_crisp_def ec_terms_def
       crisp_def negligible_def inner_of_def var_part_def part_of_def demo_abs_point_def)

lemma abs_bounds_sound_witness:
  "\<exists>input'. DeriveAbsAuxiliaryBounds [] True demo_abs = Inr input' \<and>
     boxed (si_lower_bounds input') (si_upper_bounds input') 0 demo_abs_point"
proof -
  have reach: "abs_reach_step demo_abs (demo_abs_pair True) 2 0 (0, False) = Inr (Fin 5, False)"
    by (simp add: abs_reach_step_def DecideRowTermRange_def demo_abs_simps ec_terms_def demo_abs_pair_def
        ec_default_def term_range_step_def Let_def unbounded_above_def unbounded_below_def zero_dbl_def)
  obtain input' where run: "DeriveAbsAuxiliaryBounds [] True demo_abs = Inr input'"
    by (simp add: DeriveAbsAuxiliaryBounds_def derive_abs_link_def demo_abs_simps demo_abs_tags
        demo_abs_link_def Let_def reach)
  have "\<forall>r < si_num_rows demo_abs. boxed (si_lower_bounds demo_abs) (si_upper_bounds demo_abs) r demo_abs_point"
    by (simp add: demo_abs_simps boxed_def demo_abs_point_def less_Suc_eq numeral_eq_Suc)
  from abs_bounds_sound [OF run demo_abs_links this] run show ?thesis by (simp add: demo_abs_simps)
qed

lemma native_abs_exact_witness:
  "\<exists>x' :: idx \<Rightarrow> real. x' 2 = 2 \<and> x' 0 = - 2"
proof -
  define xf where "xf = (\<lambda>c :: idx. if c = 0 then - 2 else (2 :: real))"
  have at: "xf 0 = - 2" "xf 2 = 2" by (simp_all add: xf_def)
  have rows: "scope_of demo_abs v = ROW" for v by (simp add: scope_of_def demo_abs_simps)
  have ix: "indexable demo_abs" by (simp add: indexable_def rows demo_abs_simps)
  have get: "Get (BuildIndexer demo_abs) v 0 = v" if "v < 3" for v
    using that
    by (simp add: Get_instance_of InstanceColumn_cases rows demo_abs_simps instance_of_def vars_of_def)
  have gbs: "global_start demo_abs = 3"
    by (simp add: global_start_def scalar_start_def entity_start_def row_vars_def vars_of_def rows
        entity_total_def demo_abs_simps)
  have inner: "inner_of (demo_abs_pair True) 2 (at_flat demo_abs xf) 0 = - 2"
    using get [of 0] by (simp add: inner_of_def demo_abs_pair_def ec_default_def ec_terms_def
        var_part_def part_of_def at_flat_def at)
  have shape: "vars_in (demo_abs_pair True) 3" "terms_crisp (ec_terms (demo_abs_pair True)) 0"
    "row_active (demo_abs_pair True) 0" "isfinite (cc_get (ec_rhs_values (demo_abs_pair True)) 0)"
    by (simp_all add: demo_abs_pair_def ec_default_def vars_in_def terms_crisp_def ec_terms_def
        crisp_def negligible_def row_active_def)
  from native_abs_exact [OF ix _ shape(3) _ _ shape(2,4) refl,
      where link = demo_abs_link and input = demo_abs and x = xf]
  have "\<exists>x'. \<forall>c < global_start demo_abs. x' c = xf c"
    using inner get [of 2] shape(1) at unfolding BuildIndexer_fields demo_abs_link_def
    by (simp add: demo_abs_simps del: sat_general.simps) blast
  then obtain x' :: "idx \<Rightarrow> real" where "\<forall>c < 3. x' c = xf c" unfolding gbs by blast
  then have "x' 2 = 2" "x' 0 = - 2" by (simp_all add: at)
  then show ?thesis by blast
qed

end
