(* ===== verification/Emission.thy ===== *)
theory Emission
  imports ConstructLowering
begin

text \<open>
  What it means for a pass to state a condition \<open>P\<close> on the decision columns through fresh global
  columns and rows over them: at a point of the decision box, values for the fresh columns that meet
  the new rows exist exactly when \<open>P\<close> holds (\<open>states\<close>). Such steps compose, so a loop of them states
  the conjunction (the locale \<open>row_emitter\<close>); the \<open><>\<close> and MIN/MAX passes are loops of this kind.

  The lemmas on one disjunction and on one collapsed row are the encoding both \<open><>\<close> spellings share.
\<close>

section \<open>Fresh columns and their rows\<close>

definition agree_below :: "nat \<Rightarrow> (idx \<Rightarrow> real) \<Rightarrow> (idx \<Rightarrow> real) \<Rightarrow> bool" where
  "agree_below n x x' \<longleftrightarrow> (\<forall>c < n. x' c = x c)"

text \<open>A value a global column may take: its box, where \<open>1e30\<close> stands for an open end, and its type.\<close>

definition column_admits :: "SolverInput \<Rightarrow> nat \<Rightarrow> real \<Rightarrow> bool" where
  "column_admits input g v \<longleftrightarrow>
     (si_global_lower_bounds input ! g \<le> Fin (- (10 ^ 30)) \<or> si_global_lower_bounds input ! g \<le> Fin v) \<and>
     (si_global_upper_bounds input ! g \<ge> Fin (10 ^ 30) \<or> si_global_upper_bounds input ! g \<ge> Fin v) \<and>
     (si_global_variable_types input ! g = BOOLEAN \<longrightarrow> v = 0 \<or> v = 1)"

definition admits_new :: "VarIndexer \<Rightarrow> SolverInput \<Rightarrow> SolverInput \<Rightarrow> (idx \<Rightarrow> real) \<Rightarrow> bool" where
  "admits_new vi input input' x \<longleftrightarrow>
     (\<forall>g. si_num_global_vars input \<le> g \<and> g < si_num_global_vars input' \<longrightarrow>
        column_admits input' g (x (vi_global_block_start vi + g)))"

definition rows_hold :: "SolverInput \<Rightarrow> (idx \<Rightarrow> real) \<Rightarrow> bool" where
  "rows_hold input x \<longleftrightarrow> flat_rows_hold input x \<and> (\<forall>gc \<in> set (si_general_constraints input). sat_general gc x)"

text \<open>The columns the flat rows of an input mention.\<close>

definition input_columns :: "SolverInput \<Rightarrow> idx set" where
  "input_columns input =
     (\<Union>rc \<in> set (si_global_constraints input). set (rc_indices rc)) \<union>
     (\<Union>ic \<in> set (si_indicator_constraints input). insert (ic_binary_column ic) (set (rc_indices (ic_row ic)))) \<union>
     (\<Union>gc \<in> set (si_general_constraints input). insert (gc_result_column gc) (set (gc_argument_columns gc)))"

definition columns_end :: "VarIndexer \<Rightarrow> SolverInput \<Rightarrow> nat" where
  "columns_end vi input = vi_global_block_start vi + si_num_global_vars input"

definition well_formed :: "VarIndexer \<Rightarrow> SolverInput \<Rightarrow> bool" where
  "well_formed vi input \<longleftrightarrow> globals_ok input \<and> (\<forall>c \<in> input_columns input. c < columns_end vi input)"

text \<open>Everything but the global block and the flat rows.\<close>

definition base_of :: "SolverInput \<Rightarrow> SolverInput" where
  "base_of input = input\<lparr>si_num_global_vars := 0, si_global_variable_types := [],
     si_global_lower_bounds := [], si_global_upper_bounds := [], si_global_obj_coeffs := [],
     si_global_bounds_unbounded := [], si_global_variable_labels := [], si_global_constraints := [],
     si_indicator_constraints := [], si_general_constraints := []\<rparr>"

lemma base_of_fields [simp]:
  "si_num_rows (base_of input) = si_num_rows input"
  "si_num_decide_vars (base_of input) = si_num_decide_vars input"
  "si_variable_types (base_of input) = si_variable_types input"
  "si_lower_bounds (base_of input) = si_lower_bounds input"
  "si_upper_bounds (base_of input) = si_upper_bounds input"
  "si_rigid_lower_bounds (base_of input) = si_rigid_lower_bounds input"
  "si_rigid_upper_bounds (base_of input) = si_rigid_upper_bounds input"
  "si_constraints (base_of input) = si_constraints input"
  "si_ne_clause_labels (base_of input) = si_ne_clause_labels input"
  "si_entity_mappings (base_of input) = si_entity_mappings input"
  "si_variable_scopes (base_of input) = si_variable_scopes input"
  by (simp_all add: base_of_def)

lemma base_of_eqD:
  assumes "base_of input' = base_of input"
  shows "si_num_rows input' = si_num_rows input"
    "si_num_decide_vars input' = si_num_decide_vars input"
    "si_variable_types input' = si_variable_types input"
    "si_lower_bounds input' = si_lower_bounds input" "si_upper_bounds input' = si_upper_bounds input"
    "si_rigid_lower_bounds input' = si_rigid_lower_bounds input"
    "si_rigid_upper_bounds input' = si_rigid_upper_bounds input"
    "si_constraints input' = si_constraints input"
    "si_ne_clause_labels input' = si_ne_clause_labels input"
    "si_entity_mappings input' = si_entity_mappings input"
    "si_variable_scopes input' = si_variable_scopes input"
  using arg_cong [OF assms, of si_num_rows] arg_cong [OF assms, of si_num_decide_vars]
    arg_cong [OF assms, of si_variable_types] arg_cong [OF assms, of si_lower_bounds]
    arg_cong [OF assms, of si_upper_bounds] arg_cong [OF assms, of si_rigid_lower_bounds]
    arg_cong [OF assms, of si_rigid_upper_bounds] arg_cong [OF assms, of si_constraints]
    arg_cong [OF assms, of si_ne_clause_labels] arg_cong [OF assms, of si_entity_mappings]
    arg_cong [OF assms, of si_variable_scopes] by simp_all

text \<open>The layout of the decision columns depends on nothing a pass emits.\<close>

definition same_layout :: "SolverInput \<Rightarrow> SolverInput \<Rightarrow> bool" where
  "same_layout a b \<longleftrightarrow> si_num_rows a = si_num_rows b \<and> si_num_decide_vars a = si_num_decide_vars b \<and>
     si_entity_mappings a = si_entity_mappings b \<and> si_variable_scopes a = si_variable_scopes b"

lemma sat_raw_agree:
  "\<forall>c \<in> set (rc_indices rc). x' c = x c \<Longrightarrow> sat_raw rc x' = sat_raw rc x"
proof -
  have "lin_val is cs x' = lin_val is cs x" if "\<forall>c \<in> set is. x' c = x c" for "is" cs
    unfolding lin_val_def
    by (rule arg_cong [where f = sum_list], rule map_cong [OF refl])
       (use that in \<open>auto dest: set_zip_leftD\<close>)
  then show "\<forall>c \<in> set (rc_indices rc). x' c = x c \<Longrightarrow> sat_raw rc x' = sat_raw rc x"
    by (simp add: sat_raw_def)
qed

lemma sat_general_agree:
  assumes "x' (gc_result_column gc) = x (gc_result_column gc)"
    and "\<forall>c \<in> set (gc_argument_columns gc). x' c = x c"
  shows "sat_general gc x' = sat_general gc x"
proof -
  have "map x' (gc_argument_columns gc) = map x (gc_argument_columns gc)" using assms(2) by simp
  then show ?thesis by (simp only: sat_general.simps assms(1))
qed

lemma rows_hold_agree:
  assumes "\<forall>c \<in> input_columns input. x' c = x c"
  shows "rows_hold input x' = rows_hold input x"
proof -
  have "sat_raw rc x' = sat_raw rc x" if "rc \<in> set (si_global_constraints input)" for rc
    using assms that by (intro sat_raw_agree) (auto simp: input_columns_def)
  moreover have "sat_indicator ic x' = sat_indicator ic x" if "ic \<in> set (si_indicator_constraints input)" for ic
  proof -
    have "sat_raw (ic_row ic) x' = sat_raw (ic_row ic) x" "x' (ic_binary_column ic) = x (ic_binary_column ic)"
      using assms that by (auto simp: input_columns_def intro!: sat_raw_agree)
    then show ?thesis by (simp add: sat_indicator_def)
  qed
  moreover have "sat_general gc x' = sat_general gc x" if "gc \<in> set (si_general_constraints input)" for gc
    using assms that by (intro sat_general_agree) (auto simp: input_columns_def)
  ultimately show ?thesis by (simp add: rows_hold_def flat_rows_hold_def)
qed

section \<open>Stating a condition\<close>

definition states :: "VarIndexer \<Rightarrow> ((idx \<Rightarrow> real) \<Rightarrow> bool) \<Rightarrow> ((idx \<Rightarrow> real) \<Rightarrow> bool) \<Rightarrow>
    SolverInput \<Rightarrow> SolverInput \<Rightarrow> bool" where
  "states vi A P input input' \<longleftrightarrow>
     base_of input' = base_of input \<and> well_formed vi input' \<and>
     si_num_global_vars input \<le> si_num_global_vars input' \<and> keeps_columns input input' \<and>
     (\<forall>x. A x \<longrightarrow>
        ((\<exists>x'. agree_below (columns_end vi input) x x' \<and> admits_new vi input input' x' \<and> rows_hold input' x')
         \<longleftrightarrow> rows_hold input x \<and> P x))"

definition on_decisions :: "VarIndexer \<Rightarrow> ((idx \<Rightarrow> real) \<Rightarrow> bool) \<Rightarrow> bool" where
  "on_decisions vi P \<longleftrightarrow> (\<forall>x x'. agree_below (vi_global_block_start vi) x x' \<longrightarrow> P x' = P x)"

lemma on_decisionsD: "on_decisions vi P \<Longrightarrow> agree_below (vi_global_block_start vi) x x' \<Longrightarrow> P x' = P x"
  by (simp add: on_decisions_def)

definition on_columns :: "nat \<Rightarrow> ((idx \<Rightarrow> real) \<Rightarrow> bool) \<Rightarrow> bool" where
  "on_columns n P \<longleftrightarrow> (\<forall>x x'. agree_below n x x' \<longrightarrow> P x' = P x)"

lemma on_columnsD: "on_columns n P \<Longrightarrow> agree_below n x x' \<Longrightarrow> P x' = P x"
  by (simp add: on_columns_def)

lemma on_decisions_columns: "on_decisions vi P \<Longrightarrow> on_columns (columns_end vi input) P"
  by (simp add: on_columns_def on_decisions_def agree_below_def columns_end_def)

lemma agree_below_refl: "agree_below n x x"
  by (simp add: agree_below_def)

lemma agree_below_less: "agree_below n x x' \<Longrightarrow> m \<le> n \<Longrightarrow> agree_below m x x'"
  by (simp add: agree_below_def)

lemma agree_below_trans: "agree_below n x y \<Longrightarrow> agree_below n y z \<Longrightarrow> agree_below n x z"
  by (simp add: agree_below_def)

lemma on_columns_upd: "on_columns n A \<Longrightarrow> A (x(n := v)) = A x"
  by (rule on_columnsD [of n A]) (simp_all add: agree_below_def)

lemma on_columns_Suc:
  assumes "on_columns n A"
  shows "on_columns (Suc n) (\<lambda>x. A x \<and> Q (x n))"
proof -
  have "A x' = A x" if "agree_below (Suc n) x x'" for x x'
    using agree_below_less [OF that, of n] by (intro on_columnsD [OF assms]) simp
  then show ?thesis by (auto simp: on_columns_def agree_below_def)
qed

lemma column_admits_kept:
  "keeps_columns input input' \<Longrightarrow> g < si_num_global_vars input \<Longrightarrow>
     column_admits input' g v = column_admits input g v"
  by (simp add: keeps_columns_def column_admits_def)

lemma keeps_columns_trans:
  assumes "keeps_columns a b" "keeps_columns b c" "si_num_global_vars a \<le> si_num_global_vars b"
  shows "keeps_columns a c"
proof -
  have "g < si_num_global_vars b" if "g < si_num_global_vars a" for g
    using that assms(3) by (rule less_le_trans)
  with assms(1,2) show ?thesis by (simp add: keeps_columns_def)
qed

lemma states_refl:
  assumes "well_formed vi input"
  shows "states vi A (\<lambda>x. True) input input"
proof -
  have "rows_hold input x' = rows_hold input x" if "agree_below (columns_end vi input) x x'" for x x'
    using assms that by (intro rows_hold_agree) (auto simp: well_formed_def agree_below_def)
  then have "(\<exists>x'. agree_below (columns_end vi input) x x' \<and> rows_hold input x') \<longleftrightarrow> rows_hold input x" for x
    using agree_below_refl by blast
  moreover have "admits_new vi input input x" for x by (auto simp: admits_new_def)
  ultimately show ?thesis using assms by (simp add: states_def keeps_columns_def)
qed

lemma states_cong: "states vi A P input input' \<Longrightarrow> (\<And>x. A x \<Longrightarrow> P x = Q x) \<Longrightarrow> states vi A Q input input'"
  by (simp add: states_def)

lemma states_base: "states vi A P input input' \<Longrightarrow> base_of input' = base_of input"
  by (simp add: states_def)

lemma states_trans_columns:
  assumes 1: "states vi A P input mid" and 2: "states vi A Q mid input'"
    and A: "on_columns (columns_end vi input) A" and Q: "on_columns (columns_end vi input) Q"
  shows "states vi A (\<lambda>x. P x \<and> Q x) input input'"
proof -
  let ?e = "columns_end vi"
  have le: "si_num_global_vars input \<le> si_num_global_vars mid" "si_num_global_vars mid \<le> si_num_global_vars input'"
    using 1 2 by (simp_all add: states_def)
  then have ends: "?e input \<le> ?e mid" by (simp add: columns_end_def)
  have kept: "keeps_columns mid input'" using 2 by (simp add: states_def)
  have split: "admits_new vi input input' x \<longleftrightarrow> admits_new vi input mid x \<and> admits_new vi mid input' x" for x
  proof -
    have "si_num_global_vars input \<le> g \<and> g < si_num_global_vars input' \<longleftrightarrow>
        (si_num_global_vars input \<le> g \<and> g < si_num_global_vars mid) \<or>
        (si_num_global_vars mid \<le> g \<and> g < si_num_global_vars input')" for g
      using le by auto
    then show ?thesis by (auto simp: admits_new_def column_admits_kept [OF kept])
  qed
  have exact: "(\<exists>x'. agree_below (?e input) x x' \<and> admits_new vi input input' x' \<and> rows_hold input' x')
      \<longleftrightarrow> rows_hold input x \<and> P x \<and> Q x" if Ax: "A x" for x
  proof
    assume "\<exists>x'. agree_below (?e input) x x' \<and> admits_new vi input input' x' \<and> rows_hold input' x'"
    then obtain x' where x': "agree_below (?e input) x x'" "admits_new vi input mid x'"
      "admits_new vi mid input' x'" "rows_hold input' x'" by (auto simp: split)
    have "A x'" using Ax on_columnsD [OF A x'(1)] by simp
    then have "rows_hold mid x' \<and> Q x'"
      using 2 x'(3,4) agree_below_refl unfolding states_def by blast
    moreover from this have "rows_hold input x \<and> P x"
      using 1 Ax x'(1,2) unfolding states_def by blast
    ultimately show "rows_hold input x \<and> P x \<and> Q x" using on_columnsD [OF Q x'(1)] by simp
  next
    assume holds: "rows_hold input x \<and> P x \<and> Q x"
    then obtain y where y: "agree_below (?e input) x y" "admits_new vi input mid y" "rows_hold mid y"
      using 1 Ax unfolding states_def by blast
    have "A y" "Q y" using Ax holds on_columnsD [OF A y(1)] on_columnsD [OF Q y(1)] by simp_all
    then obtain z where z: "agree_below (?e mid) y z" "admits_new vi mid input' z" "rows_hold input' z"
      using 2 y(3) unfolding states_def by blast
    have "agree_below (?e input) x z"
      using y(1) agree_below_less [OF z(1) ends] by (rule agree_below_trans)
    moreover have "admits_new vi input mid z"
      using y(2) z(1) by (auto simp: admits_new_def agree_below_def columns_end_def)
    ultimately show "\<exists>x'. agree_below (?e input) x x' \<and> admits_new vi input input' x' \<and> rows_hold input' x'"
      using z(2,3) split by blast
  qed
  have "keeps_columns input input'"
    using 1 2 le(1) by (auto simp: states_def intro: keeps_columns_trans)
  with 1 2 le exact show ?thesis by (simp add: states_def)
qed

lemma states_trans:
  assumes "states vi A P input mid" "states vi A Q mid input'" "on_decisions vi A" "on_decisions vi Q"
  shows "states vi A (\<lambda>x. P x \<and> Q x) input input'"
  by (rule states_trans_columns [OF assms(1,2) on_decisions_columns [OF assms(3)] on_decisions_columns [OF assms(4)]])

text \<open>A fresh column whose value the rest of the emission constrains is hidden by a quantifier.\<close>

lemma states_fresh:
  assumes wf: "well_formed vi input" and base: "base_of mid = base_of input"
    and num: "si_num_global_vars mid = Suc (si_num_global_vars input)" and kept: "keeps_columns input mid"
    and rows: "si_global_constraints mid = si_global_constraints input"
      "si_indicator_constraints mid = si_indicator_constraints input"
      "si_general_constraints mid = si_general_constraints input"
    and out: "states vi B P mid out"
    and B: "\<And>x v. A x \<Longrightarrow> column_admits mid (si_num_global_vars input) v \<Longrightarrow> B (x(columns_end vi input := v))"
  shows "states vi A (\<lambda>x. \<exists>v. column_admits mid (si_num_global_vars input) v \<and>
    P (x(columns_end vi input := v))) input out"
proof -
  let ?n = "si_num_global_vars input" and ?z = "columns_end vi input"
  have le: "?n < si_num_global_vars out" using out num by (simp add: states_def)
  have kept2: "keeps_columns mid out" using out by (simp add: states_def)
  have end_mid: "columns_end vi mid = Suc ?z" using num by (simp add: columns_end_def)
  have split: "admits_new vi input out x \<longleftrightarrow> column_admits mid ?n (x ?z) \<and> admits_new vi mid out x" for x
  proof -
    have "?n \<le> g \<and> g < si_num_global_vars out \<longleftrightarrow> g = ?n \<or> (Suc ?n \<le> g \<and> g < si_num_global_vars out)" for g
      using le by auto
    then show ?thesis
      by (auto simp: admits_new_def num columns_end_def column_admits_kept [OF kept2])
  qed
  have same: "rows_hold mid y = rows_hold input x" if "agree_below ?z x y" for x y
  proof -
    have "rows_hold mid y = rows_hold input y" by (simp add: rows_hold_def flat_rows_hold_def rows)
    also have "\<dots> = rows_hold input x"
      using wf that by (intro rows_hold_agree) (auto simp: well_formed_def agree_below_def)
    finally show ?thesis .
  qed
  have agree: "agree_below (Suc ?z) (x(?z := v)) x' \<longleftrightarrow> agree_below ?z x x' \<and> x' ?z = v" for x x' v
    by (auto simp: agree_below_def less_Suc_eq)
  have "(\<exists>x'. agree_below ?z x x' \<and> admits_new vi input out x' \<and> rows_hold out x') \<longleftrightarrow>
      rows_hold input x \<and> (\<exists>v. column_admits mid ?n v \<and> P (x(?z := v)))" if "A x" for x
  proof -
    have at: "(\<exists>x'. agree_below ?z x x' \<and> x' ?z = v \<and> admits_new vi mid out x' \<and> rows_hold out x') \<longleftrightarrow>
        rows_hold input x \<and> P (x(?z := v))" if "column_admits mid ?n v" for v
    proof -
      have "rows_hold mid (x(?z := v)) = rows_hold input x" by (rule same) (simp add: agree_below_def)
      moreover have "(\<exists>x'. agree_below (Suc ?z) (x(?z := v)) x' \<and> admits_new vi mid out x' \<and> rows_hold out x') \<longleftrightarrow>
          rows_hold mid (x(?z := v)) \<and> P (x(?z := v))"
        using out B [OF \<open>A x\<close> that] unfolding states_def end_mid by blast
      ultimately show ?thesis by (simp add: agree conj_ac)
    qed
    then show ?thesis unfolding split by blast
  qed
  moreover have "keeps_columns input out"
    using keeps_columns_trans [OF kept kept2] num by simp
  ultimately show ?thesis using out base le by (simp add: states_def)
qed

text \<open>A row over columns that are there.\<close>

definition append_flat :: "RawConstraint list \<Rightarrow> GeneralConstraintSpec list \<Rightarrow> SolverInput \<Rightarrow> SolverInput" where
  "append_flat rcs gcs input = input\<lparr>si_global_constraints := si_global_constraints input @ rcs,
     si_general_constraints := si_general_constraints input @ gcs\<rparr>"

lemma states_append:
  assumes wf: "well_formed vi input"
    and cols: "\<forall>rc \<in> set rcs. \<forall>c \<in> set (rc_indices rc). c < columns_end vi input"
      "\<forall>gc \<in> set gcs. gc_result_column gc < columns_end vi input \<and>
         (\<forall>c \<in> set (gc_argument_columns gc). c < columns_end vi input)"
  shows "states vi A (\<lambda>x. (\<forall>rc \<in> set rcs. sat_raw rc x) \<and> (\<forall>gc \<in> set gcs. sat_general gc x)) input
    (append_flat rcs gcs input)"
proof -
  let ?out = "append_flat rcs gcs input"
  have wf': "well_formed vi ?out"
    using wf cols
    by (auto simp: well_formed_def input_columns_def append_flat_def globals_ok_def columns_end_def)
  have hold: "rows_hold ?out x \<longleftrightarrow> rows_hold input x \<and> (\<forall>rc \<in> set rcs. sat_raw rc x) \<and>
      (\<forall>gc \<in> set gcs. sat_general gc x)" for x
    by (auto simp: rows_hold_def flat_rows_hold_def append_flat_def)
  have "rows_hold ?out x' = rows_hold ?out x" if "agree_below (columns_end vi input) x x'" for x x'
    using wf' that by (intro rows_hold_agree) (auto simp: well_formed_def agree_below_def columns_end_def append_flat_def)
  then have "(\<exists>x'. agree_below (columns_end vi input) x x' \<and> rows_hold ?out x') \<longleftrightarrow> rows_hold ?out x" for x
    using agree_below_refl by blast
  moreover have "admits_new vi input ?out x" for x by (auto simp: admits_new_def append_flat_def)
  moreover have "keeps_columns input ?out" by (simp add: keeps_columns_def append_flat_def label_of_def)
  moreover have "base_of ?out = base_of input" by (simp add: append_flat_def base_of_def)
  ultimately show ?thesis using wf' hold by (simp add: states_def append_flat_def)
qed

lemmas states_append_row =
  states_append [where rcs = "[rc]" and gcs = "[]", simplified] for rc

lemma states_append_general:
  assumes "well_formed vi input"
    and "gc_result_column gc < columns_end vi input" "\<forall>c \<in> set (gc_argument_columns gc). c < columns_end vi input"
  shows "states vi A (sat_general gc) input (append_flat [] [gc] input)"
proof -
  have "states vi A (\<lambda>x. (\<forall>rc \<in> set []. sat_raw rc x) \<and> (\<forall>gc \<in> set [gc]. sat_general gc x)) input
      (append_flat [] [gc] input)"
    by (rule states_append) (use assms in simp_all)
  then show ?thesis by (rule states_cong) (simp del: sat_general.simps)
qed

section \<open>The contract of an emission step\<close>

locale row_emitter =
  fixes step :: "'a \<Rightarrow> 's \<Rightarrow> 's res"
    and inp :: "'s \<Rightarrow> SolverInput"
    and vi :: VarIndexer
    and A :: "(idx \<Rightarrow> real) \<Rightarrow> bool"
    and means :: "'a \<Rightarrow> (idx \<Rightarrow> real) \<Rightarrow> bool"
    and ready :: "'a \<Rightarrow> 's \<Rightarrow> bool"
  assumes points: "on_decisions vi A"
    and meaning: "ready a s \<Longrightarrow> on_decisions vi (means a)"
    and emits: "well_formed vi (inp s) \<Longrightarrow> ready a s \<Longrightarrow> step a s = Inr s' \<Longrightarrow>
          states vi A (means a) (inp s) (inp s')"
    and keeps: "well_formed vi (inp s) \<Longrightarrow> ready a s \<Longrightarrow> ready b s \<Longrightarrow> step b s = Inr s' \<Longrightarrow> ready a s'"
begin

lemma emits_all:
  "well_formed vi (inp s) \<Longrightarrow> \<forall>a \<in> set as. ready a s \<Longrightarrow> fold_res step as s = Inr s' \<Longrightarrow>
     states vi A (\<lambda>x. \<forall>a \<in> set as. means a x) (inp s) (inp s')"
proof (induction as arbitrary: s)
  case Nil
  then show ?case using states_refl by simp
next
  case (Cons a as)
  from Cons.prems(3) obtain t where t: "step a s = Inr t" "fold_res step as t = Inr s'"
    by (auto split: sum.splits)
  have one: "states vi A (means a) (inp s) (inp t)"
    using Cons.prems t(1) by (intro emits) simp_all
  then have "well_formed vi (inp t)" by (simp add: states_def)
  moreover have "\<forall>b \<in> set as. ready b t" using Cons.prems(1,2) keeps [OF _ _ _ t(1)] by simp
  ultimately have "states vi A (\<lambda>x. \<forall>a \<in> set as. means a x) (inp t) (inp s')"
    using t(2) by (rule Cons.IH)
  moreover have "on_decisions vi (\<lambda>x. \<forall>a \<in> set as. means a x)"
  proof -
    have "on_decisions vi (means b)" if "b \<in> set as" for b
      using that Cons.prems(2) by (intro meaning [of b s]) simp
    then show ?thesis unfolding on_decisions_def by (meson ball_cong)
  qed
  ultimately have "states vi A (\<lambda>x. means a x \<and> (\<forall>a \<in> set as. means a x)) (inp s) (inp s')"
    using states_trans [OF one] points by blast
  then show ?case by (auto elim: states_cong)
qed

lemma keeps_all:
  "well_formed vi (inp s) \<Longrightarrow> \<forall>b \<in> set as. ready b s \<Longrightarrow> ready a s \<Longrightarrow> fold_res step as s = Inr s' \<Longrightarrow>
     ready a s'"
proof (induction as arbitrary: s)
  case (Cons b as)
  from Cons.prems(4) obtain t where t: "step b s = Inr t" "fold_res step as t = Inr s'"
    by (auto split: sum.splits)
  have "well_formed vi (inp t)"
    using emits [OF Cons.prems(1) _ t(1)] Cons.prems(2) by (simp add: states_def)
  then show ?case using Cons.prems(1-3) keeps [OF _ _ _ t(1)] t(2) by (intro Cons.IH) simp_all
qed simp

end

text \<open>A loop that cannot fail, as one that does not.\<close>

lemma fold_res_Inr: "fold_res (\<lambda>a s. Inr (f a s)) as s = Inr (fold f as s)"
  by (induction as arbitrary: s) simp_all

section \<open>One disjunction, one row\<close>

lemma add_binary_facts:
  assumes "AddGlobalBinaryAux vi obj label input = (input', z)"
  shows "base_of input' = base_of input" "z = columns_end vi input"
    "si_num_global_vars input' = Suc (si_num_global_vars input)"
    "si_global_constraints input' = si_global_constraints input"
    "si_indicator_constraints input' = si_indicator_constraints input"
    "si_general_constraints input' = si_general_constraints input"
  using assms
  by (auto simp: AddGlobalBinaryAux_def Let_def base_of_def columns_end_def LabelGlobalAux_def)

lemma add_binary_column:
  assumes "AddGlobalBinaryAux vi obj label input = (input', z)" "globals_ok input"
  shows "column_admits input' (si_num_global_vars input) v \<longleftrightarrow> v = 0 \<or> v = 1"
  using assms
  by (auto simp: AddGlobalBinaryAux_def Let_def column_admits_def globals_ok_def nth_append dbl_arith)

lemma add_binary_ok:
  assumes "AddGlobalBinaryAux vi obj label input = (input', z)" "globals_ok input"
  shows "globals_ok input'" "keeps_columns input input'"
  using bin.alloc_ok [OF assms(2), of vi "(obj, label)"] bin.alloc_columns [OF assms(2), of vi "(obj, label)"]
  by (simp_all add: assms(1))

text \<open>A fresh binary and rows appended after it.\<close>

definition append_rows :: "RawConstraint list \<Rightarrow> IndicatorConstraintSpec list \<Rightarrow> SolverInput \<Rightarrow> SolverInput" where
  "append_rows rcs ics input = input\<lparr>si_global_constraints := si_global_constraints input @ rcs,
     si_indicator_constraints := si_indicator_constraints input @ ics\<rparr>"

lemma binary_block_states:
  assumes wf: "well_formed vi input"
    and add: "AddGlobalBinaryAux vi obj label input = (mid, z)"
    and out: "input' = append_rows rcs ics mid"
    and cols: "\<forall>rc \<in> set rcs. \<forall>c \<in> set (rc_indices rc). c \<le> z"
      "\<forall>ic \<in> set ics. ic_binary_column ic \<le> z \<and> (\<forall>c \<in> set (rc_indices (ic_row ic)). c \<le> z)"
    and exact: "\<And>x. A x \<Longrightarrow> (\<exists>b \<in> {0, 1}. (\<forall>rc \<in> set rcs. sat_raw rc (x(z := b))) \<and>
                  (\<forall>ic \<in> set ics. sat_indicator ic (x(z := b)))) \<longleftrightarrow> P x"
    and A: "on_decisions vi A"
  shows "states vi A P input input'"
proof -
  note facts = add_binary_facts [OF add]
  have ok: "globals_ok input" and within: "\<forall>c \<in> input_columns input. c < columns_end vi input"
    using wf by (simp_all add: well_formed_def)
  note col = add_binary_column [OF add ok] and kept = add_binary_ok [OF add ok]
  have num: "si_num_global_vars input' = Suc (si_num_global_vars input)" "columns_end vi input' = Suc z"
    by (simp_all add: out append_rows_def facts columns_end_def)
  have hold: "rows_hold input' x' \<longleftrightarrow> rows_hold input x' \<and> (\<forall>rc \<in> set rcs. sat_raw rc x') \<and>
      (\<forall>ic \<in> set ics. sat_indicator ic x')" for x'
    by (auto simp: rows_hold_def flat_rows_hold_def out append_rows_def facts)
  have new: "admits_new vi input input' x' \<longleftrightarrow> x' z = 0 \<or> x' z = 1" for x'
  proof -
    have "admits_new vi input input' x' \<longleftrightarrow> column_admits input' (si_num_global_vars input) (x' z)"
      by (auto simp: admits_new_def num facts(2) columns_end_def less_Suc_eq dest: le_antisym)
    also have "column_admits input' (si_num_global_vars input) (x' z) =
        column_admits mid (si_num_global_vars input) (x' z)"
      by (simp add: column_admits_def out append_rows_def)
    finally show ?thesis by (simp add: col)
  qed
  have same: "rows_hold input x' = rows_hold input x" if "agree_below z x x'" for x x'
    using within that by (intro rows_hold_agree) (auto simp: agree_below_def facts(2))
  have "(\<exists>x'. agree_below (columns_end vi input) x x' \<and> admits_new vi input input' x' \<and> rows_hold input' x')
      \<longleftrightarrow> rows_hold input x \<and> P x" if Ax: "A x" for x
  proof
    assume "\<exists>x'. agree_below (columns_end vi input) x x' \<and> admits_new vi input input' x' \<and> rows_hold input' x'"
    then obtain x' where x': "agree_below z x x'" "x' z = 0 \<or> x' z = 1" "rows_hold input' x'"
      by (auto simp: facts(2) new)
    have upd: "(x(z := x' z)) c = x' c" if "c \<le> z" for c
      using that x'(1) by (cases "c = z") (auto simp: agree_below_def)
    have raw: "sat_raw rc (x(z := x' z)) = sat_raw rc x'" if "\<forall>c \<in> set (rc_indices rc). c \<le> z" for rc
      using upd that by (intro sat_raw_agree) blast
    have "sat_indicator ic (x(z := x' z)) = sat_indicator ic x'" if "ic \<in> set ics" for ic
    proof -
      have "(x(z := x' z)) (ic_binary_column ic) = x' (ic_binary_column ic)" using cols(2) that upd by blast
      moreover have "sat_raw (ic_row ic) (x(z := x' z)) = sat_raw (ic_row ic) x'"
        using cols(2) that raw by blast
      ultimately show ?thesis unfolding sat_indicator_def by presburger
    qed
    moreover have "sat_raw rc (x(z := x' z)) = sat_raw rc x'" if "rc \<in> set rcs" for rc
      using raw cols(1) that by blast
    ultimately have "P x" using exact [OF Ax] x'(2,3) hold by auto
    then show "rows_hold input x \<and> P x" using x'(1,3) hold same by blast
  next
    assume "rows_hold input x \<and> P x"
    then obtain b where b: "b \<in> {0, 1}" "\<forall>rc \<in> set rcs. sat_raw rc (x(z := b))"
      "\<forall>ic \<in> set ics. sat_indicator ic (x(z := b))" and old: "rows_hold input x"
      using exact [OF Ax] by blast
    have "agree_below z x (x(z := b))" by (simp add: agree_below_def)
    with b old same hold new
    show "\<exists>x'. agree_below (columns_end vi input) x x' \<and> admits_new vi input input' x' \<and> rows_hold input' x'"
      by (intro exI [of _ "x(z := b)"]) (auto simp: facts(2))
  qed
  moreover have "well_formed vi input'"
  proof -
    have "c \<le> z" if "c \<in> input_columns input'" for c
      using that cols within
      by (auto simp: input_columns_def out append_rows_def facts(2,4,5,6) intro: less_imp_le)
    then have "c < columns_end vi input'" if "c \<in> input_columns input'" for c
      using that num(2) by (simp add: less_Suc_eq_le)
    moreover have "globals_ok input'" using kept(1) by (simp add: globals_ok_def out append_rows_def)
    ultimately show ?thesis by (simp add: well_formed_def)
  qed
  moreover have "keeps_columns input input'"
  proof -
    have "label_of input' = label_of mid" by (simp add: fun_eq_iff label_of_def out append_rows_def)
    with kept(2) show ?thesis by (simp add: keeps_columns_def out append_rows_def)
  qed
  moreover have "base_of input' = base_of input"
    using facts(1) by (simp add: out append_rows_def base_of_def)
  ultimately show ?thesis using num by (simp add: states_def)
qed

text \<open>Two conditional rows on the two values of a fresh binary are a disjunction.\<close>

lemma disjunction_states:
  assumes "well_formed vi input" "AddGlobalBinaryAux vi obj label input = (mid, z)" "on_decisions vi A"
    and "\<forall>c \<in> set (rc_indices r0) \<union> set (rc_indices r1). c < z"
  shows "states vi A (\<lambda>x. sat_raw r0 x \<or> sat_raw r1 x) input
    (append_rows [] [\<lparr>ic_binary_column = z, ic_binary_value = 0, ic_row = r0\<rparr>,
                     \<lparr>ic_binary_column = z, ic_binary_value = 1, ic_row = r1\<rparr>] mid)"
proof (rule binary_block_states [OF assms(1,2) refl _ _ _ assms(3)])
  fix x :: "idx \<Rightarrow> real"
  have "sat_raw r0 (x(z := b)) = sat_raw r0 x" "sat_raw r1 (x(z := b)) = sat_raw r1 x" for b
    using assms(4) by (auto intro!: sat_raw_agree)
  then show "(\<exists>b \<in> {0, 1}. (\<forall>rc \<in> set []. sat_raw rc (x(z := b))) \<and>
      (\<forall>ic \<in> set [\<lparr>ic_binary_column = z, ic_binary_value = 0, ic_row = r0\<rparr>,
                  \<lparr>ic_binary_column = z, ic_binary_value = 1, ic_row = r1\<rparr>]. sat_indicator ic (x(z := b))))
      \<longleftrightarrow> sat_raw r0 x \<or> sat_raw r1 x"
    by (auto simp: sat_indicator_def)
qed (use assms(4) in \<open>auto intro: less_imp_le\<close>)

lemma collapsed_states:
  assumes "well_formed vi input" "AddGlobalBinaryAux vi obj label input = (mid, z)" "on_decisions vi A"
    and "\<forall>c \<in> set (rc_indices rc). c < z"
  shows "states vi A (sat_raw rc) input (append_rows [rc] [] mid)"
proof (rule binary_block_states [OF assms(1,2) refl _ _ _ assms(3)])
  fix x :: "idx \<Rightarrow> real"
  have "sat_raw rc (x(z := b)) = sat_raw rc x" for b
    using assms(4) by (auto intro!: sat_raw_agree)
  then show "(\<exists>b \<in> {0, 1}. (\<forall>rc \<in> set [rc]. sat_raw rc (x(z := b))) \<and>
      (\<forall>ic \<in> set []. sat_indicator ic (x(z := b)))) \<longleftrightarrow> sat_raw rc x"
    by auto
qed (use assms(4) in \<open>auto intro: less_imp_le\<close>)

end
