(* ===== verification/NotEqual.thy ===== *)
theory NotEqual
  imports Emission CoeffAccumulator Meaning
begin

text \<open>
  \<open>linearization_not_equal.cpp\<close>: a \<open><>\<close> clause becomes, per row or per group and excluded value, a
  pair of conditional rows on a fresh binary, a single inequality when the reachable range lies on
  one side of the excluded value, or nothing when the value is unreachable or not an integer.

  The helper lambdas \<open>stamp\<close> and \<open>emit\<close> are definitions. Moving the last copy of a row's terms is a
  copy here.

  The first lemmas are on the range collapse and on the block one excluded value becomes; the theories
  \<open>NotEqualRows\<close> and \<open>NotEqualExact\<close> carry them to the per-row clauses and to the whole pass.
\<close>

section \<open>Guards\<close>

datatype NELhsIntegrality = NE_INTEGER | NE_REAL_VARIABLE | NE_FRACTIONAL_COEFFICIENT

primrec ne_integrality :: "LogicalType list \<Rightarrow> row_terms \<Rightarrow> NELhsIntegrality" where
  "ne_integrality types [] = NE_INTEGER"
| "ne_integrality types (term # ts) =
     (case term of
        (None, col) \<Rightarrow> ne_integrality types ts
      | (Some v, col) \<Rightarrow>
          if IsRealType (types ! v) then NE_REAL_VARIABLE
          else if \<not> AllIntegral col then NE_FRACTIONAL_COEFFICIENT
          else ne_integrality types ts)"

definition NELhsIsIntegerValued :: "EvaluatedConstraint \<Rightarrow> LogicalType list \<Rightarrow> NELhsIntegrality" where
  "NELhsIsIntegerValued ec types = ne_integrality types (ec_terms ec)"

definition NEIsIntegerValuedRhs :: "dbl \<Rightarrow> bool" where
  "NEIsIntegerValuedRhs k \<longleftrightarrow> isfinite k \<and> \<bar>k - std_round k\<bar> < Fin (1 / 10 ^ 9)"

section \<open>The range collapse\<close>

datatype NECollapse = DISJUNCTION | ALWAYS_TRUE | LOWER_ONLY | UPPER_ONLY

text \<open>The four comparisons both the per-row and the per-group classification make.\<close>

definition collapse_of :: "dbl \<Rightarrow> dbl \<Rightarrow> dbl \<Rightarrow> NECollapse" where
  "collapse_of lo hi k =
     (if hi < k - Fin (1 / 2) \<or> lo > k + Fin (1 / 2) then ALWAYS_TRUE
      else if lo > k - Fin (1 / 2) then UPPER_ONLY
      else if hi < k + Fin (1 / 2) then LOWER_ONLY
      else DISJUNCTION)"

definition ClassifyNERow :: "EvaluatedConstraint \<Rightarrow> idx \<Rightarrow> dbl list \<Rightarrow> dbl list \<Rightarrow> NECollapse" where
  "ClassifyNERow ec row lower upper =
     (let (lo, hi) = DecideRowSignedRange ec row lower upper None;
          k = DecideRowEffectiveBound ec row
      in if \<not> isfinite k then DISJUNCTION else collapse_of lo hi k)"

primrec classify_rows :: "EvaluatedConstraint \<Rightarrow> dbl list \<Rightarrow> dbl list \<Rightarrow> idx list \<Rightarrow> NECollapse option \<Rightarrow>
    NECollapse" where
  "classify_rows ec lower upper [] seen = (case seen of None \<Rightarrow> DISJUNCTION | Some v \<Rightarrow> v)"
| "classify_rows ec lower upper (r # rs) seen =
     (if ec_row_group_ids ec \<noteq> [] \<and> ec_row_group_ids ec ! r = None
      then classify_rows ec lower upper rs seen
      else let row_verdict = ClassifyNERow ec r lower upper
           in case seen of
                None \<Rightarrow> classify_rows ec lower upper rs (Some row_verdict)
              | Some verdict \<Rightarrow>
                  if row_verdict \<noteq> verdict then DISJUNCTION
                  else classify_rows ec lower upper rs (Some verdict))"

definition ClassifyNEConstraint :: "EvaluatedConstraint \<Rightarrow> nat \<Rightarrow> dbl list \<Rightarrow> dbl list \<Rightarrow> NECollapse" where
  "ClassifyNEConstraint ec num_rows lower upper =
     (if ec_bilinear_terms ec \<noteq> [] \<or> ec_quadratic_groups ec \<noteq> [] then DISJUNCTION
      else classify_rows ec lower upper [0..<num_rows] None)"

definition NotEqualClauseLabel :: "SolverInput \<Rightarrow> EvaluatedConstraint \<Rightarrow> string" where
  "NotEqualClauseLabel input ec =
     (case ec_ne_clause_idx ec of
        None \<Rightarrow> []
      | Some i \<Rightarrow> if i < length (si_ne_clause_labels input) then si_ne_clause_labels input ! i else [])"

section \<open>The per-row spelling\<close>

definition stamp_ne_row :: "EvaluatedConstraint \<Rightarrow> idx \<Rightarrow> idx \<Rightarrow> dbl \<Rightarrow> RawConstraint \<Rightarrow> RawConstraint" where
  "stamp_ne_row ec r z_col constant rc = rc\<lparr>
     rc_kind := USER_MECHANISM, rc_shape := PER_ROW_DATA,
     rc_source_clause_id := ec_source_clause_id ec,
     rc_repair_group_id := ec_repair_group_id ec,
     rc_removal_group_id := ec_removal_group_id ec,
     rc_indicator_col := Some z_col,
     rc_group_key := (if ec_row_group_ids ec \<noteq> [] then ec_row_group_ids ec ! r else None),
     rc_rhs_mechanism_offset := - constant\<rparr>"

text \<open>The row's column terms and the constant folded out of its left-hand side.\<close>

definition ne_columns :: "VarIndexer \<Rightarrow> EvaluatedConstraint \<Rightarrow> idx \<Rightarrow> (idx \<times> dbl) list" where
  "ne_columns vi ec r =
     concat (map (\<lambda>(var, col). case var of None \<Rightarrow> []
        | Some v \<Rightarrow> if cc_get col r = 0 then [] else [(Get vi v r, cc_get col r)]) (ec_terms ec))"

definition ne_constant :: "EvaluatedConstraint \<Rightarrow> idx \<Rightarrow> dbl" where
  "ne_constant ec r =
     fold (\<lambda>(var, col) constant. case var of None \<Rightarrow> constant + cc_get col r | Some _ \<Rightarrow> constant)
       (ec_terms ec) 0"

definition ne_raw :: "(idx \<times> dbl) list \<Rightarrow> sense \<Rightarrow> dbl \<Rightarrow> RawConstraint" where
  "ne_raw terms s rhs = rc_default\<lparr>rc_indices := map fst terms, rc_coefficients := map snd terms,
     rc_sense := s, rc_rhs := rhs\<rparr>"

definition ne_half :: "idx \<Rightarrow> int \<Rightarrow> RawConstraint \<Rightarrow> IndicatorConstraintSpec" where
  "ne_half z_col binval row = \<lparr>ic_binary_column = z_col, ic_binary_value = binval, ic_row = row\<rparr>"

definition emit_ne_row :: "VarIndexer \<Rightarrow> EvaluatedConstraint \<Rightarrow> NECollapse \<Rightarrow> string \<Rightarrow> idx \<Rightarrow> SolverInput \<Rightarrow>
    SolverInput" where
  "emit_ne_row vi ec collapse label r input =
     (if ec_row_group_ids ec \<noteq> [] \<and> ec_row_group_ids ec ! r = None then input
      else
        let k = cc_get (ec_rhs_values ec) r; terms = ne_columns vi ec r; constant = ne_constant ec r;
            (input, z_col) = AddGlobalBinaryAux vi 0 label input;
            stamp = stamp_ne_row ec r z_col constant
        in if collapse \<noteq> DISJUNCTION then
             let lower = (collapse = LOWER_ONLY);
                 rc = stamp (ne_raw terms (if lower then Le else Ge)
                        ((if lower then k - 1 else k + 1) - constant))
             in input\<lparr>si_global_constraints := si_global_constraints input @ [rc]\<rparr>
           else
             input\<lparr>si_indicator_constraints := si_indicator_constraints input @
               [ne_half z_col 0 (stamp (ne_raw terms Le (k - 1 - constant))),
                ne_half z_col 1 (stamp (ne_raw terms Ge (k + 1 - constant)))]\<rparr>)"

definition EmitNotEqualRows :: "VarIndexer \<Rightarrow> EvaluatedConstraint \<Rightarrow> NECollapse \<Rightarrow> string \<Rightarrow> SolverInput \<Rightarrow>
    SolverInput" where
  "EmitNotEqualRows vi ec collapse label input =
     fold (emit_ne_row vi ec collapse label) [0..<si_num_rows input] input"

section \<open>The aggregate spelling\<close>

definition stamp_ne_group :: "EvaluatedConstraint \<Rightarrow> idx \<Rightarrow> idx \<Rightarrow> RawConstraint \<Rightarrow> RawConstraint" where
  "stamp_ne_group ec g z_idx rc =
     (let has_groups = (ec_row_group_ids ec \<noteq> [])
      in rc\<lparr>
        rc_kind := USER_MECHANISM,
        rc_source_clause_id := ec_source_clause_id ec,
        rc_repair_group_id := ec_repair_group_id ec,
        rc_removal_group_id := ec_removal_group_id ec,
        rc_indicator_col := Some z_idx,
        rc_group_key := (if has_groups then Some g else None),
        rc_qualifier := ec_qualifier ec, rc_is_aggregate := True,
        rc_group_label := (if has_groups \<and> g < length (ec_group_labels ec) then ec_group_labels ec ! g
                           else rc_group_label rc)\<rparr>)"

text \<open>\<open>std::find\<close> compares with \<open>==\<close>.\<close>

definition distinct_bounds :: "EvaluatedConstraint \<Rightarrow> idx list \<Rightarrow> dbl list" where
  "distinct_bounds ec rows =
     fold (\<lambda>row seen. let raw = cc_get (ec_rhs_values ec) row
             in if list_ex (\<lambda>y. deq y raw) seen then seen else seen @ [raw]) rows []"

definition group_range :: "EvaluatedConstraint \<Rightarrow> dbl list \<Rightarrow> dbl list \<Rightarrow> idx list \<Rightarrow> dbl \<times> dbl" where
  "group_range ec lower upper rows =
     fold (\<lambda>row (lo, hi). let (row_lo, row_hi) = DecideRowSignedRange ec row lower upper None
             in (lo + row_lo, hi + row_hi)) rows (0, 0)"

definition add_group_coeffs :: "VarIndexer \<Rightarrow> EvaluatedConstraint \<Rightarrow> idx list \<Rightarrow> SparseCoeffAccumulator \<Rightarrow>
    SparseCoeffAccumulator" where
  "add_group_coeffs vi ec rows =
     fold (\<lambda>(var, col) accum. case var of None \<Rightarrow> accum
        | Some v \<Rightarrow> fold (\<lambda>row accum. if negligible (cc_get col row) then accum
                            else AddCoeff (Get vi v row) (cc_get col row) accum) rows accum) (ec_terms ec)"

definition emit_ne_value :: "VarIndexer \<Rightarrow> EvaluatedConstraint \<Rightarrow> idx \<Rightarrow> nat \<Rightarrow> dbl \<Rightarrow> (dbl \<times> dbl) option \<Rightarrow>
    (idx \<times> dbl) list \<Rightarrow> string \<Rightarrow> dbl \<Rightarrow> SolverInput \<Rightarrow> SolverInput" where
  "emit_ne_value vi ec g g_size fixed_offset reach terms label bound input =
     (let rhs = (if ec_ne_avg_rhs_scale ec then bound * Fin (real g_size) else bound) - fixed_offset
      in if \<not> NEIsIntegerValuedRhs rhs then input
         else let collapse = (case reach of None \<Rightarrow> DISJUNCTION | Some (lo, hi) \<Rightarrow> collapse_of lo hi rhs)
              in if collapse = ALWAYS_TRUE then input
                 else let (input, z_idx) = AddGlobalBinaryAux vi 0 label input;
                          stamp = stamp_ne_group ec g z_idx
                      in if collapse \<noteq> DISJUNCTION then
                           let lower = (collapse = LOWER_ONLY);
                               rc = stamp (ne_raw terms (if lower then Le else Ge)
                                      (if lower then rhs - 1 else rhs + 1))
                           in input\<lparr>si_global_constraints := si_global_constraints input @ [rc]\<rparr>
                         else
                           input\<lparr>si_indicator_constraints := si_indicator_constraints input @
                             [ne_half z_idx 0 (stamp (ne_raw terms Le (rhs - 1))),
                              ne_half z_idx 1 (stamp (ne_raw terms Ge (rhs + 1)))]\<rparr>)"

definition expand_ne_group :: "VarIndexer \<Rightarrow> EvaluatedConstraint \<Rightarrow> string \<Rightarrow> nat list \<times> idx list \<Rightarrow> idx \<Rightarrow>
    SolverInput \<times> SparseCoeffAccumulator \<Rightarrow> (SolverInput \<times> SparseCoeffAccumulator) res" where
  "expand_ne_group vi ec label csr g = (\<lambda>(input, accum).
     let rows = csr_bucket csr g
     in if rows = [] then Inr (input, accum)
        else case SumFixedAggregateLhsOffset ec rows ''fixed aggregate <> term'' of
               Inl e \<Rightarrow> Inl e
             | Inr fixed_offset \<Rightarrow>
                 let reach = (if ec_bilinear_terms ec = [] \<and> ec_quadratic_groups ec = []
                              then Some (group_range ec (si_rigid_lower_bounds input)
                                           (si_rigid_upper_bounds input) rows) else None);
                     (accum, group_indices, group_coefs) = Flush (add_group_coeffs vi ec rows accum) [] []
                 in Inr (fold (emit_ne_value vi ec g (length rows) fixed_offset reach
                                 (zip group_indices group_coefs) label)
                           (distinct_bounds ec rows) input, accum))"

definition expand_ne_constraint :: "VarIndexer \<Rightarrow> EvaluatedConstraint \<Rightarrow>
    SolverInput \<times> SparseCoeffAccumulator \<Rightarrow> (SolverInput \<times> SparseCoeffAccumulator) res" where
  "expand_ne_constraint vi ec = (\<lambda>(input, accum).
     let label = NotEqualClauseLabel input ec; n = si_num_rows input;
         (csr, num_groups) = (if ec_row_group_ids ec \<noteq> []
            then (BuildGroupCSR (ec_row_group_ids ec) (ec_num_groups ec) ([], []), ec_num_groups ec)
            else (([0, n], [0..<n]), 1))
     in fold_res (expand_ne_group vi ec label csr) [0..<num_groups] (input, accum))"

definition ExpandAggregateNotEqual :: "VarIndexer \<Rightarrow> EvaluatedConstraint list \<Rightarrow> SolverInput \<Rightarrow>
    SolverInput res" where
  "ExpandAggregateNotEqual vi deferred input =
     (if deferred = [] then Inr input
      else let span = vi_global_block_start vi;
               accum = (if span \<le> 2 ^ 20 then BeginDense span acc_default else BeginSparse acc_default)
           in case fold_res (expand_ne_constraint vi) deferred (input, accum) of
                Inl e \<Rightarrow> Inl e
              | Inr (input, accum) \<Rightarrow> Inr input)"

section \<open>The pass\<close>

text \<open>
  The guard on a per-row clause's bounds: \<open>None\<close> when the clause is dropped, otherwise the clause
  with the rows of a non-integer bound masked out.
\<close>

definition mask_ne_step :: "EvaluatedConstraint \<Rightarrow> idx \<Rightarrow> idx option list \<times> nat \<Rightarrow> idx option list \<times> nat" where
  "mask_ne_step ec r = (\<lambda>(ids, dropped).
     if ids ! r = None then (ids, dropped)
     else if \<not> NEIsIntegerValuedRhs (cc_get (ec_rhs_values ec) r) then (ids[r := None], dropped + 1)
     else (ids, dropped))"

definition mask_ne_rows :: "EvaluatedConstraint \<Rightarrow> nat \<Rightarrow> EvaluatedConstraint option" where
  "mask_ne_rows ec num_rows =
     (if IsUniform (ec_rhs_values ec) then
        (if \<not> NEIsIntegerValuedRhs (UniformValue (ec_rhs_values ec)) then None else Some ec)
      else
        let ec = (if ec_row_group_ids ec = []
                  then ec\<lparr>ec_row_group_ids := replicate num_rows (Some 0), ec_num_groups := 1\<rparr> else ec);
            (ids, dropped) = fold (mask_ne_step ec) [0..<num_rows] (ec_row_group_ids ec, 0)
        in if dropped = num_rows then None else Some (ec\<lparr>ec_row_group_ids := ids\<rparr>))"

record ne_state =
  ns_input :: SolverInput
  ns_new_constraints :: "EvaluatedConstraint list"
  ns_deferred_aggregate :: "EvaluatedConstraint list"

definition linearize_ne_step :: "VarIndexer \<Rightarrow> EvaluatedConstraint \<Rightarrow> ne_state \<Rightarrow> ne_state res" where
  "linearize_ne_step vi ec s =
     (let input = ns_input s
      in if ec_ne_clause_idx ec = None
         then Inr (s\<lparr>ns_new_constraints := ns_new_constraints s @ [ec]\<rparr>)
         else if NELhsIsIntegerValued ec (si_variable_types input) \<noteq> NE_INTEGER
         then Inl (InternalError ''<> left-hand side is not integer-valued'')
         else if ec_lhs_is_aggregate ec
         then Inr (s\<lparr>ns_deferred_aggregate := ns_deferred_aggregate s @ [ec]\<rparr>)
         else case mask_ne_rows ec (si_num_rows input) of
                None \<Rightarrow> Inr s
              | Some ec \<Rightarrow>
                  let collapse = ClassifyNEConstraint ec (si_num_rows input)
                        (si_rigid_lower_bounds input) (si_rigid_upper_bounds input)
                  in if collapse = ALWAYS_TRUE then Inr s
                     else Inr (s\<lparr>ns_input := EmitNotEqualRows vi ec collapse
                                  (NotEqualClauseLabel input ec) input\<rparr>))"

definition LinearizeNotEqual :: "VarIndexer \<Rightarrow> SolverInput \<Rightarrow> SolverInput res" where
  "LinearizeNotEqual vi input =
     (case fold_res (linearize_ne_step vi) (si_constraints input)
             \<lparr>ns_input = input, ns_new_constraints = [], ns_deferred_aggregate = []\<rparr> of
        Inl e \<Rightarrow> Inl e
      | Inr s \<Rightarrow> ExpandAggregateNotEqual vi (ns_deferred_aggregate s)
                   ((ns_input s)\<lparr>si_constraints := ns_new_constraints s\<rparr>))"

section \<open>The collapse\<close>

text \<open>What a verdict claims of an integer \<open>l\<close> in the range and the excluded \<open>k\<close>.\<close>

fun verdict_holds :: "NECollapse \<Rightarrow> int \<Rightarrow> int \<Rightarrow> bool" where
  "verdict_holds DISJUNCTION l k = True"
| "verdict_holds ALWAYS_TRUE l k = (l \<noteq> k)"
| "verdict_holds UPPER_ONLY l k = (k \<le> l)"
| "verdict_holds LOWER_ONLY l k = (l \<le> k)"

lemma collapse_of_sound:
  assumes "lo \<le> Fin (of_int l)" "Fin (of_int l) \<le> hi"
  shows "verdict_holds (collapse_of lo hi (Fin (of_int k))) l k"
proof -
  have half: "l \<le> k" if "of_int l < of_int k + (1 / 2 :: real)" for l k :: int
    using that by linarith
  have lo: "r < of_int l" if "Fin r < lo" for r using assms(1) that by (cases lo) simp_all
  have hi: "of_int l < r" if "hi < Fin r" for r using assms(2) that by (cases hi) simp_all
  show ?thesis
    unfolding collapse_of_def using half [of l k] half [of k l] lo hi
    by (simp split del: if_split cong: if_cong)
       (force split: if_splits)
qed

definition int_val :: "dbl \<Rightarrow> bool" where
  "int_val d \<longleftrightarrow> (\<exists>k :: int. d = Fin (of_int k))"

lemma int_valE: "int_val d \<Longrightarrow> (\<And>k :: int. d = Fin (of_int k) \<Longrightarrow> P) \<Longrightarrow> P"
  by (auto simp: int_val_def)

lemma int_val_ring [intro]:
  "int_val 0" "int_val a \<Longrightarrow> int_val b \<Longrightarrow> int_val (a + b)" "int_val a \<Longrightarrow> int_val b \<Longrightarrow> int_val (a * b)"
  "int_val a \<Longrightarrow> int_val b \<Longrightarrow> int_val (a - b)"
proof -
  show "int_val 0" unfolding int_val_def by (rule exI [of _ 0]) (simp add: zero_dbl_def)
  show "int_val (a + b)" "int_val (a * b)" "int_val (a - b)" if "int_val a" "int_val b" for a b
    using that unfolding int_val_def
    by (metis plus_dbl.simps(1) of_int_add, metis times_dbl.simps(1) of_int_mult,
        metis minus_dbl_Fin of_int_diff)
qed

lemma int_val_sum: "\<forall>x \<in> set xs. int_val (f x) \<Longrightarrow> int_val (\<Sum>x\<leftarrow>xs. f x)"
  by (induction xs) auto

lemma int_val_finite: "int_val d \<Longrightarrow> isfinite d"
  by (auto simp: int_val_def)

lemma int_val_crisp: "int_val d \<Longrightarrow> crisp d"
proof (elim int_valE)
  fix k :: int
  assume d: "d = Fin (of_int k)"
  have "1 \<le> \<bar>real_of_int k\<bar>" if "k \<noteq> 0" using that by linarith
  then show "crisp d" by (auto simp: d crisp_def negligible_def zero_dbl_def)
qed

lemma int_val_Fin: "int_val (Fin r) \<longleftrightarrow> r \<in> \<int>"
  by (auto simp: int_val_def Ints_def)

section \<open>One block\<close>

text \<open>The shape both spellings emit for one excluded value.\<close>

definition ne_block :: "VarIndexer \<Rightarrow> string \<Rightarrow> NECollapse \<Rightarrow> (idx \<Rightarrow> RawConstraint \<Rightarrow> RawConstraint) \<Rightarrow>
    RawConstraint \<Rightarrow> RawConstraint \<Rightarrow> SolverInput \<Rightarrow> SolverInput" where
  "ne_block vi label collapse stamp lo_row hi_row input =
     (let (mid, z) = AddGlobalBinaryAux vi 0 label input
      in if collapse = DISJUNCTION
         then append_rows [] [ne_half z 0 (stamp z lo_row), ne_half z 1 (stamp z hi_row)] mid
         else append_rows [stamp z (if collapse = LOWER_ONLY then lo_row else hi_row)] [] mid)"

lemma ne_raw_fields [simp]:
  "rc_indices (ne_raw terms s rhs) = map fst terms"
  "rc_coefficients (ne_raw terms s rhs) = map snd terms"
  "rc_sense (ne_raw terms s rhs) = s" "rc_rhs (ne_raw terms s rhs) = rhs"
  by (simp_all add: ne_raw_def)

lemma ne_block_states:
  assumes wf: "well_formed vi input" and A: "on_decisions vi A"
    and cols: "\<forall>(i, c) \<in> set terms. i < vi_global_block_start vi"
    and stamp: "\<And>z rc. rc_indices (stamp z rc) = rc_indices rc" "\<And>z rc x. sat_raw (stamp z rc) x = sat_raw rc x"
    and at_point: "\<And>x. A x \<Longrightarrow> \<exists>l. lin_val (map fst terms) (map snd terms) x = Fin (of_int l) \<and>
                  verdict_holds collapse l k"
    and not_true: "collapse \<noteq> ALWAYS_TRUE"
  shows "states vi A (\<lambda>x. lin_val (map fst terms) (map snd terms) x \<noteq> Fin (of_int k)) input
    (ne_block vi label collapse stamp (ne_raw terms Le (Fin (of_int k) - 1)) (ne_raw terms Ge (Fin (of_int k) + 1)) input)"
proof -
  let ?lo_row = "ne_raw terms Le (Fin (of_int k) - 1)" and ?hi_row = "ne_raw terms Ge (Fin (of_int k) + 1)"
  obtain mid z where add: "AddGlobalBinaryAux vi 0 label input = (mid, z)" by force
  have "\<forall>c \<in> set (map fst terms). c < z"
    using cols by (auto simp: add_binary_facts [OF add] columns_end_def trans_less_add1)
  then have within: "\<forall>c \<in> set (rc_indices (stamp z ?lo_row)) \<union> set (rc_indices (stamp z ?hi_row)). c < z"
    "\<forall>c \<in> set (rc_indices (stamp z (if collapse = LOWER_ONLY then ?lo_row else ?hi_row))). c < z"
    by (auto simp: stamp)
  have lo_row: "sat_raw ?lo_row x \<longleftrightarrow> l \<le> k - 1" and hi_row: "sat_raw ?hi_row x \<longleftrightarrow> k + 1 \<le> l"
    if "lin_val (map fst terms) (map snd terms) x = Fin (of_int l)" for x l
    using that by (auto simp: sat_raw_def one_dbl_def)
  have means: "(if collapse = DISJUNCTION then sat_raw (stamp z ?lo_row) x \<or> sat_raw (stamp z ?hi_row) x
        else sat_raw (stamp z (if collapse = LOWER_ONLY then ?lo_row else ?hi_row)) x)
      \<longleftrightarrow> lin_val (map fst terms) (map snd terms) x \<noteq> Fin (of_int k)" if Ax: "A x" for x
  proof -
    from at_point [OF Ax] obtain l where l: "lin_val (map fst terms) (map snd terms) x = Fin (of_int l)"
      "verdict_holds collapse l k" by blast
    from lo_row [OF l(1)] hi_row [OF l(1)] l not_true show ?thesis
      by (cases collapse) (auto simp: stamp)
  qed
  show ?thesis
  proof (cases "collapse = DISJUNCTION")
    case True
    from disjunction_states [OF wf add A within(1)] means True show ?thesis
      by (auto simp: ne_block_def add ne_half_def elim!: states_cong)
  next
    case False
    from collapsed_states [OF wf add A within(2)] means False show ?thesis
      by (auto simp: ne_block_def add elim!: states_cong)
  qed
qed

end
