(* ===== verification/NotEqualRows.thy ===== *)
theory NotEqualRows
  imports NotEqual
begin

text \<open>
  The per-row spelling of \<open><>\<close> is exact: the points the guards leave, the mask over rows of a
  non-integer bound, the agreement of the rows' verdicts, and the loop over the constraints, as
  interpretations of \<open>row_emitter\<close>.
\<close>

section \<open>The points a clause is read at\<close>

text \<open>
  The points the integrality guards and the rigid box leave: in the box the range collapse reads,
  and integral on every variable that is not REAL.
\<close>

definition ne_point :: "SolverInput \<Rightarrow> (idx \<Rightarrow> real) \<Rightarrow> bool" where
  "ne_point base x \<longleftrightarrow> indexable base \<and>
     length (si_rigid_lower_bounds base) \<le> si_num_decide_vars base \<and>
     length (si_rigid_upper_bounds base) \<le> si_num_decide_vars base \<and>
     (\<forall>r < si_num_rows base.
        boxed (si_rigid_lower_bounds base) (si_rigid_upper_bounds base) r (at_flat base x) \<and>
        (\<forall>v < si_num_decide_vars base. \<not> IsRealType (si_variable_types base ! v) \<longrightarrow> at_flat base x v r \<in> \<int>))"

lemma at_flat_agree:
  assumes "indexable base" "v < si_num_decide_vars base" "r < si_num_rows base"
    and "agree_below (vi_global_block_start (BuildIndexer base)) x x'"
  shows "at_flat base x' v r = at_flat base x v r"
  using num.at_row_lt [OF assms(1-3)] assms(4) by (simp add: at_flat_def agree_below_def)

lemma ne_point_decisions: "on_decisions (BuildIndexer base) (ne_point base)"
proof (unfold on_decisions_def, intro allI impI)
  fix x x'
  assume agree: "agree_below (vi_global_block_start (BuildIndexer base)) x x'"
  show "ne_point base x' = ne_point base x"
  proof (cases "indexable base")
    case True
    from at_flat_agree [OF True _ _ agree] show ?thesis
      by (simp add: ne_point_def boxed_def cong: conj_cong)
  qed (simp add: ne_point_def)
qed

definition int_terms :: "SolverInput \<Rightarrow> EvaluatedConstraint \<Rightarrow> idx \<Rightarrow> bool" where
  "int_terms base ec r \<longleftrightarrow> list_all (\<lambda>(var, col). int_val (cc_get col r) \<and>
     (\<forall>v. var = Some v \<longrightarrow> v < si_num_decide_vars base \<and> \<not> IsRealType (si_variable_types base ! v))) (ec_terms ec)"

lemma int_terms_crisp: "int_terms base ec r \<Longrightarrow> terms_crisp (ec_terms ec) r"
  by (auto simp: int_terms_def terms_crisp_def list_all_iff intro: int_val_crisp)

lemma var_part_int:
  assumes "int_terms base ec r" "ne_point base x" "r < si_num_rows base"
  shows "var_part (ec_terms ec) r (at_flat base x) None \<in> \<int>"
proof -
  have "(\<Sum>t\<leftarrow>ts. part_of r (at_flat base x) None t) \<in> \<int>" if "set ts \<subseteq> set (ec_terms ec)" for ts
    using that
  proof (induction ts)
    case (Cons t ts)
    obtain var col where t: "t = (var, col)" by force
    with Cons.prems assms(1) have col: "int_val (cc_get col r)"
      "\<forall>v. var = Some v \<longrightarrow> v < si_num_decide_vars base \<and> \<not> IsRealType (si_variable_types base ! v)"
      by (auto simp: int_terms_def list_all_iff)
    moreover have "at_flat base x v r \<in> \<int>" if "var = Some v" for v
      using col(2) that assms(2,3) by (simp add: ne_point_def)
    ultimately have "part_of r (at_flat base x) None t \<in> \<int>"
      by (auto simp: t part_of_def elim!: int_valE split: option.splits)
    moreover have "(\<Sum>t\<leftarrow>ts. part_of r (at_flat base x) None t) \<in> \<int>" using Cons by simp
    ultimately show ?case by simp
  qed simp
  then show ?thesis by (simp add: var_part_def)
qed

lemma fixed_part_int:
  assumes "int_terms base ec r"
  shows "fixed_part (ec_terms ec) r \<in> \<int>"
proof -
  have "(\<Sum>(var, col)\<leftarrow>ts. case var of None \<Rightarrow> rval (cc_get col r) | Some _ \<Rightarrow> 0) \<in> \<int>"
    if "\<forall>(var, col) \<in> set ts. int_val (cc_get col r)" for ts :: row_terms
    using that by (induction ts) (auto elim!: int_valE split: option.splits)
  moreover have "\<forall>(var, col) \<in> set (ec_terms ec). int_val (cc_get col r)"
    using assms by (auto simp: int_terms_def list_all_iff)
  ultimately show ?thesis by (simp add: fixed_part_def)
qed

section \<open>The per-row spelling is exact\<close>

definition row_differs :: "SolverInput \<Rightarrow> EvaluatedConstraint \<Rightarrow> idx \<Rightarrow> (idx \<Rightarrow> real) \<Rightarrow> bool" where
  "row_differs base ec r x \<longleftrightarrow>
     (row_active ec r \<longrightarrow> \<not> deq (row_lhs ec (at_flat base x) r) (cc_get (ec_rhs_values ec) r))"

definition ne_row_ready :: "SolverInput \<Rightarrow> EvaluatedConstraint \<Rightarrow> NECollapse \<Rightarrow> idx \<Rightarrow> bool" where
  "ne_row_ready base ec collapse r \<longleftrightarrow> indexable base \<and> r < si_num_rows base \<and>
     vars_in ec (si_num_decide_vars base) \<and>
     (row_active ec r \<longrightarrow> int_terms base ec r \<and> int_val (cc_get (ec_rhs_values ec) r) \<and>
        collapse \<noteq> ALWAYS_TRUE \<and>
        (collapse = DISJUNCTION \<or>
         collapse = ClassifyNERow ec r (si_rigid_lower_bounds base) (si_rigid_upper_bounds base)))"

lemma lin_val_pairs: "lin_val (map fst ps) (map snd ps) x = (\<Sum>(i, c)\<leftarrow>ps. c * Fin (x i))"
  by (simp add: lin_val_def zip_map_fst_snd)

lemma ne_columns_val:
  assumes "terms_crisp (ec_terms ec) r"
  shows "lin_val (map fst (ne_columns (BuildIndexer base) ec r)) (map snd (ne_columns (BuildIndexer base) ec r)) x =
     Fin (var_part (ec_terms ec) r (at_flat base x) None)"
proof -
  have "(\<Sum>(i, c)\<leftarrow>concat (map (\<lambda>(var, col). case var of None \<Rightarrow> []
        | Some v \<Rightarrow> if cc_get col r = 0 then [] else [(Get (BuildIndexer base) v r, cc_get col r)]) ts). c * Fin (x i)) =
      Fin (var_part ts r (at_flat base x) None)" if "terms_crisp ts r" for ts
    using that
    by (induction ts)
       (auto simp: terms_crisp_def part_of_def at_flat_def zero_dbl_def elim!: crisp_FinE split: option.splits)
  with assms show ?thesis unfolding lin_val_pairs by (simp add: ne_columns_def)
qed

lemma ne_constant_eq: "terms_crisp (ec_terms ec) r \<Longrightarrow> ne_constant ec r = Fin (fixed_part (ec_terms ec) r)"
  using FixedLhsOffset_eq by (simp add: ne_constant_def DecideRowFixedLhsOffset_def)

lemma ne_columns_lt:
  assumes "indexable base" "r < si_num_rows base" "int_terms base ec r"
  shows "\<forall>(i, c) \<in> set (ne_columns (BuildIndexer base) ec r). i < vi_global_block_start (BuildIndexer base)"
proof -
  have "Get (BuildIndexer base) v r < vi_global_block_start (BuildIndexer base)"
    if "(Some v, col) \<in> set (ec_terms ec)" for v col
  proof -
    have "v < si_num_decide_vars base" using assms(3) that by (auto simp: int_terms_def list_all_iff)
    with num.at_row_lt [OF assms(1) _ assms(2)] show ?thesis by simp
  qed
  then show ?thesis
    by (auto simp: ne_columns_def split: option.splits if_splits)
qed

lemma emit_ne_row_block:
  assumes "row_active ec r" "terms_crisp (ec_terms ec) r" "cc_get (ec_rhs_values ec) r = Fin (of_int k)"
    and "fixed_part (ec_terms ec) r = of_int f"
  shows "emit_ne_row vi ec collapse label r input =
     ne_block vi label collapse (\<lambda>z. stamp_ne_row ec r z (ne_constant ec r))
       (ne_raw (ne_columns vi ec r) Le (Fin (of_int (k - f)) - 1))
       (ne_raw (ne_columns vi ec r) Ge (Fin (of_int (k - f)) + 1)) input"
proof -
  have "k' - 1 - ne_constant ec r = Fin (of_int (k - f)) - 1"
    "k' + 1 - ne_constant ec r = Fin (of_int (k - f)) + 1" if "k' = Fin (of_int k)" for k'
    using that assms(4) by (simp_all add: ne_constant_eq [OF assms(2)] one_dbl_def)
  with assms(1,3) show ?thesis
    by (cases "ec_row_group_ids ec = []")
       (auto simp: emit_ne_row_def row_active_def ne_block_def append_rows_def Let_def split: prod.splits)
qed

lemma ClassifyNERow_sound:
  assumes ints: "int_terms base ec r" and x: "ne_point base x" "r < si_num_rows base"
    and k: "cc_get (ec_rhs_values ec) r = Fin (of_int k)" "fixed_part (ec_terms ec) r = of_int f"
    and l: "var_part (ec_terms ec) r (at_flat base x) None = of_int l"
  shows "verdict_holds (ClassifyNERow ec r (si_rigid_lower_bounds base) (si_rigid_upper_bounds base)) l (k - f)"
proof -
  obtain lo hi where range: "DecideRowSignedRange ec r (si_rigid_lower_bounds base)
      (si_rigid_upper_bounds base) None = (lo, hi)" by force
  have "boxed (si_rigid_lower_bounds base) (si_rigid_upper_bounds base) r (at_flat base x)"
    using x by (simp add: ne_point_def)
  from SignedRange_encloses [OF range int_terms_crisp [OF ints] this] l
  have "lo \<le> Fin (of_int l)" "Fin (of_int l) \<le> hi" by simp_all
  from collapse_of_sound [OF this, of "k - f"] show ?thesis
    by (simp add: ClassifyNERow_def range EffectiveBound_eq [OF int_terms_crisp [OF ints]] k)
qed

lemma row_differs_decisions:
  assumes idx: "indexable base" "r < si_num_rows base" and vars: "vars_in ec (si_num_decide_vars base)"
  shows "on_decisions (BuildIndexer base) (row_differs base ec r)"
proof -
  have "row_lhs ec (at_flat base x') r = row_lhs ec (at_flat base x) r"
    if agree: "agree_below (vi_global_block_start (BuildIndexer base)) x x'" for x x'
  proof -
    have "term_val (at_flat base x') r t = term_val (at_flat base x) r t" if "t \<in> set (ec_terms ec)" for t
    proof -
      obtain var col where t: "t = (var, col)" by force
      have "at_flat base x' v r = at_flat base x v r" if "var = Some v" for v
        using at_flat_agree [OF idx(1) _ idx(2) agree] ec_terms_vars [OF vars] that
          \<open>t \<in> set (ec_terms ec)\<close> by (simp add: t)
      then show ?thesis by (simp add: t term_val_def split: option.splits)
    qed
    then have "map (term_val (at_flat base x') r) (ec_terms ec) = map (term_val (at_flat base x) r) (ec_terms ec)"
      by simp
    then show ?thesis unfolding row_lhs_def ec_terms_def by (rule arg_cong)
  qed
  then show ?thesis by (simp add: on_decisions_def row_differs_def)
qed

lemma stamp_ne_row_simps [simp]:
  "rc_indices (stamp_ne_row ec r z c rc) = rc_indices rc"
  "sat_raw (stamp_ne_row ec r z c rc) x = sat_raw rc x"
  by (simp_all add: stamp_ne_row_def sat_raw_def)

lemma emit_ne_row_states:
  assumes wf: "well_formed (BuildIndexer base) input" and ready: "ne_row_ready base ec collapse r"
  shows "states (BuildIndexer base) (ne_point base) (row_differs base ec r) input
    (emit_ne_row (BuildIndexer base) ec collapse label r input)"
proof (cases "row_active ec r")
  case False
  then have "emit_ne_row (BuildIndexer base) ec collapse label r input = input"
    by (simp add: emit_ne_row_def row_active_def)
  moreover have "row_differs base ec r = (\<lambda>x. True)" using False by (simp add: row_differs_def fun_eq_iff)
  ultimately show ?thesis using states_refl [OF wf] by simp
next
  case True
  let ?vi = "BuildIndexer base" and ?k = "cc_get (ec_rhs_values ec) r"
  have idx: "indexable base" "r < si_num_rows base" and ints: "int_terms base ec r"
    and not_true: "collapse \<noteq> ALWAYS_TRUE"
    and verdict: "collapse = DISJUNCTION \<or>
      collapse = ClassifyNERow ec r (si_rigid_lower_bounds base) (si_rigid_upper_bounds base)"
    using ready True by (simp_all add: ne_row_ready_def)
  obtain k where k: "?k = Fin (of_int k)" using ready True by (auto simp: ne_row_ready_def elim: int_valE)
  obtain f where f: "fixed_part (ec_terms ec) r = of_int f" using fixed_part_int [OF ints] by (auto elim: Ints_cases)
  note crisp = int_terms_crisp [OF ints]
  have at_point: "\<exists>l. lin_val (map fst (ne_columns ?vi ec r)) (map snd (ne_columns ?vi ec r)) x = Fin (of_int l) \<and>
      verdict_holds collapse l (k - f)" if x: "ne_point base x" for x
  proof -
    obtain l where l: "var_part (ec_terms ec) r (at_flat base x) None = of_int l"
      using var_part_int [OF ints x idx(2)] by (auto elim: Ints_cases)
    with ClassifyNERow_sound [OF ints x idx(2) k f l] verdict show ?thesis
      by (auto simp: ne_columns_val [OF crisp])
  qed
  have "states ?vi (ne_point base)
      (\<lambda>x. lin_val (map fst (ne_columns ?vi ec r)) (map snd (ne_columns ?vi ec r)) x \<noteq> Fin (of_int (k - f)))
      input (emit_ne_row ?vi ec collapse label r input)"
    unfolding emit_ne_row_block [OF True crisp k f]
    by (rule ne_block_states [OF wf ne_point_decisions ne_columns_lt [OF idx ints] _ _ at_point not_true]) simp_all
  then show ?thesis
    by (rule states_cong) (simp add: ne_columns_val [OF crisp] row_differs_def True row_lhs_parts [OF crisp] k f
        algebra_simps)
qed

interpretation ne_rows: row_emitter "\<lambda>r input. Inr (emit_ne_row (BuildIndexer base) ec collapse label r input)"
  "\<lambda>input. input" "BuildIndexer base" "ne_point base" "row_differs base ec"
  "\<lambda>r input. ne_row_ready base ec collapse r" for base ec collapse label
  by unfold_locales
     (auto simp: ne_point_decisions ne_row_ready_def intro: row_differs_decisions emit_ne_row_states)

lemma EmitNotEqualRows_states:
  assumes "well_formed (BuildIndexer base) input" "si_num_rows input = si_num_rows base"
    and "\<forall>r < si_num_rows base. ne_row_ready base ec collapse r"
  shows "states (BuildIndexer base) (ne_point base) (\<lambda>x. \<forall>r < si_num_rows base. row_differs base ec r x) input
    (EmitNotEqualRows (BuildIndexer base) ec collapse label input)"
  using ne_rows.emits_all [OF assms(1), of "[0..<si_num_rows base]" ec collapse label] assms(2,3)
  by (simp add: fold_res_Inr EmitNotEqualRows_def atLeast0LessThan Ball_def)

section \<open>The guards on one clause\<close>

text \<open>
  What the passes before establish of a \<open><>\<close> clause: a linear left-hand side with finite coefficients
  and integral fixed part, and a bound that is an integer where it is close to one. An aggregate
  has no query-wide term outside a reducer: those the pass counts once per row.
\<close>

definition near_exact :: "dbl \<Rightarrow> bool" where
  "near_exact d \<longleftrightarrow> (\<forall>k :: int. \<bar>d - Fin (of_int k)\<bar> < Fin (1 / 10 ^ 9) \<longrightarrow> d = Fin (of_int k))"

text \<open>The value an aggregate clause excludes at one of its rows: an AVG's bound is scaled.\<close>

definition scaled_bound :: "EvaluatedConstraint \<Rightarrow> nat \<Rightarrow> dbl \<Rightarrow> dbl" where
  "scaled_bound ec g_size bound = (if ec_ne_avg_rhs_scale ec then bound * Fin (real g_size) else bound)"

definition ne_bound :: "EvaluatedConstraint \<Rightarrow> idx list \<Rightarrow> idx \<Rightarrow> dbl" where
  "ne_bound ec rows r = scaled_bound ec (length rows) (cc_get (ec_rhs_values ec) r)"

lemma near_exact_int:
  assumes "near_exact d" "NEIsIntegerValuedRhs (d - Fin (of_int f))"
  shows "int_val (d - Fin (of_int f))"
proof -
  obtain r where r: "d - Fin (of_int f) = Fin r" using assms(2) by (auto simp: NEIsIntegerValuedRhs_def isfinite_iff)
  obtain e where e: "d = Fin e" "r = e - of_int f" using r by (cases d) (auto simp: minus_dbl_def)
  obtain k :: int where k: "std_round (Fin r) = Fin (of_int k)"
    by (cases "0 \<le> r") (auto intro: that [of "- \<lfloor>- r + 1 / 2\<rfloor>"])
  then have "\<bar>r - of_int k\<bar> < 1 / 10 ^ 9"
    using assms(2) unfolding r by (simp add: NEIsIntegerValuedRhs_def del: std_round.simps)
  then have "\<bar>d - Fin (of_int (k + f))\<bar> < Fin (1 / 10 ^ 9)" using e by (simp add: algebra_simps)
  then have "d = Fin (of_int (k + f))" using assms(1) unfolding near_exact_def by blast
  then show ?thesis by (auto simp: int_val_def)
qed

lemma near_exact_int0: "near_exact d \<Longrightarrow> NEIsIntegerValuedRhs d \<Longrightarrow> int_val d"
  using near_exact_int [of d 0] by (cases d) (simp_all add: minus_dbl_def)

definition ne_clause_ok :: "SolverInput \<Rightarrow> EvaluatedConstraint \<Rightarrow> bool" where
  "ne_clause_ok base ec \<longleftrightarrow>
     ec_shape (si_num_decide_vars base) (si_num_rows base) ec \<and>
     ec_bilinear_terms ec = [] \<and> ec_quadratic_groups ec = [] \<and>
     (\<forall>(var, col) \<in> set (ec_terms ec). \<forall>r < si_num_rows base.
        isfinite (cc_get col r) \<and> (var = None \<longrightarrow> int_val (cc_get col r))) \<and>
     (\<forall>r < si_num_rows base. near_exact (cc_get (ec_rhs_values ec) r)) \<and>
     (ec_lhs_is_aggregate ec \<longrightarrow>
        (\<forall>t < length (ec_variable_indices ec). \<forall>v. ec_variable_indices ec ! t = Some v \<longrightarrow>
           \<not> counted_once base ec t v) \<and>
        (\<forall>rows \<in> set (agg_row_sets ec (si_num_rows base)). \<forall>r \<in> set rows. near_exact (ne_bound ec rows r)))"

lemma ne_integrality_integer:
  "ne_integrality types ts = NE_INTEGER \<Longrightarrow> (Some v, col) \<in> set ts \<Longrightarrow>
     \<not> IsRealType (types ! v) \<and> AllIntegral col"
  by (induction ts) (auto split: option.splits if_splits)

lemma dbl_integral_int: "dbl_integral d \<Longrightarrow> isfinite d \<Longrightarrow> int_val d"
  by (cases d) (auto simp: dbl_integral_def int_val_def intro: sym)

lemma ne_clause_int_terms:
  assumes ok: "ne_clause_ok base ec" and guard: "NELhsIsIntegerValued ec (si_variable_types base) = NE_INTEGER"
    and r: "r < si_num_rows base"
  shows "int_terms base ec r"
  unfolding int_terms_def list_all_iff
proof clarify
  fix var col
  assume t: "(var, col) \<in> set (ec_terms ec)"
  then have col: "cc_wf col" "logical_size col = si_num_rows base" "isfinite (cc_get col r)"
    using ok r by (auto simp: ne_clause_ok_def ec_shape_def ec_terms_def dest: set_zip_rightD)
  have "int_val (cc_get col r) \<and> v < si_num_decide_vars base \<and> \<not> IsRealType (si_variable_types base ! v)"
    if v: "var = Some v" for v
  proof -
    have "\<not> IsRealType (si_variable_types base ! v) \<and> AllIntegral col"
      using ne_integrality_integer guard t v by (simp add: NELhsIsIntegerValued_def)
    moreover have "Some v \<in> set (ec_variable_indices ec)"
      using t v by (auto simp: ec_terms_def dest: set_zip_leftD)
    ultimately show ?thesis
      using AllIntegral_get [OF col(1)] col(2,3) r ok dbl_integral_int
      by (simp add: ne_clause_ok_def ec_shape_def)
  qed
  moreover have "int_val (cc_get col r)" if "var = None" using ok t r that by (auto simp: ne_clause_ok_def)
  ultimately show "int_val (cc_get col r) \<and>
      (\<forall>v. var = Some v \<longrightarrow> v < si_num_decide_vars base \<and> \<not> IsRealType (si_variable_types base ! v))"
    by (cases var) auto
qed

text \<open>A value that is no integer is differed from by every integer.\<close>

lemma std_round_int: "std_round (Fin (of_int l)) = Fin (of_int l)"
proof -
  have "\<lfloor>real_of_int l + 1 / 2\<rfloor> = l" "\<lfloor>- real_of_int l + 1 / 2\<rfloor> = - l" by linarith+
  then show ?thesis by simp
qed

lemma not_integer_differs: "\<not> NEIsIntegerValuedRhs v \<Longrightarrow> \<not> deq (Fin (of_int l)) v"
  using std_round_int [of l] by (auto simp: NEIsIntegerValuedRhs_def deq_def)

lemma row_lhs_int:
  assumes "int_terms base ec r" "ne_point base x" "r < si_num_rows base"
  obtains l where "row_lhs ec (at_flat base x) r = Fin (of_int l)"
proof -
  have "var_part (ec_terms ec) r (at_flat base x) None + fixed_part (ec_terms ec) r \<in> \<int>"
    using var_part_int [OF assms] fixed_part_int [OF assms(1)] by simp
  then show ?thesis
    using row_lhs_parts [OF int_terms_crisp [OF assms(1)]] that by (auto elim: Ints_cases)
qed

section \<open>The mask\<close>

lemma mask_ne_step_simp:
  "mask_ne_step ec r (ids, dropped) =
     (if ids ! r = None then (ids, dropped)
      else if \<not> NEIsIntegerValuedRhs (cc_get (ec_rhs_values ec) r) then (ids[r := None], Suc dropped)
      else (ids, dropped))"
  by (simp add: mask_ne_step_def)

lemma mask_ne_fold:
  assumes "m \<le> length ids"
  shows "case fold (mask_ne_step ec) [0..<m] (ids, 0) of (ids', dropped) \<Rightarrow>
     length ids' = length ids \<and> dropped \<le> m \<and>
     (\<forall>r < length ids. ids' ! r = (if r < m \<and> \<not> NEIsIntegerValuedRhs (cc_get (ec_rhs_values ec) r)
        then None else ids ! r)) \<and>
     (dropped = m \<longrightarrow> (\<forall>r < m. \<not> NEIsIntegerValuedRhs (cc_get (ec_rhs_values ec) r)))"
  using assms
proof (induction m)
  case (Suc m)
  obtain ids' dropped where fold: "fold (mask_ne_step ec) [0..<m] (ids, 0) = (ids', dropped)" by force
  have IH: "length ids' = length ids" "dropped \<le> m"
    "\<forall>r < length ids. ids' ! r = (if r < m \<and> \<not> NEIsIntegerValuedRhs (cc_get (ec_rhs_values ec) r)
       then None else ids ! r)"
    "dropped = m \<longrightarrow> (\<forall>r < m. \<not> NEIsIntegerValuedRhs (cc_get (ec_rhs_values ec) r))"
    using Suc.IH Suc.prems by (simp_all add: fold)
  then show ?case
    using Suc.prems by (auto simp: fold mask_ne_step_simp nth_list_update less_Suc_eq)
qed simp

lemma mask_ne_rows_spec:
  assumes size: "ec_row_group_ids ec \<noteq> [] \<longrightarrow> length (ec_row_group_ids ec) = n"
  shows "case mask_ne_rows ec n of
     None \<Rightarrow> (\<forall>r < n. \<not> NEIsIntegerValuedRhs (cc_get (ec_rhs_values ec) r))
   | Some ec' \<Rightarrow> ec_terms ec' = ec_terms ec \<and> ec_rhs_values ec' = ec_rhs_values ec \<and>
       ec_variable_indices ec' = ec_variable_indices ec \<and> ec_row_coefficients ec' = ec_row_coefficients ec \<and>
       ec_bilinear_terms ec' = ec_bilinear_terms ec \<and> ec_quadratic_groups ec' = ec_quadratic_groups ec \<and>
       (\<forall>r < n. row_active ec' r \<longleftrightarrow>
          row_active ec r \<and> NEIsIntegerValuedRhs (cc_get (ec_rhs_values ec) r))"
proof (cases "IsUniform (ec_rhs_values ec)")
  case True
  then show ?thesis
    using IsUniform_get [OF True] by (auto simp: mask_ne_rows_def)
next
  case False
  define ec1 where "ec1 = (if ec_row_group_ids ec = []
      then ec\<lparr>ec_row_group_ids := replicate n (Some 0), ec_num_groups := 1\<rparr> else ec)"
  let ?ids = "ec_row_group_ids ec1"
  obtain ids' dropped where run: "fold (mask_ne_step ec1) [0..<n] (?ids, 0) = (ids', dropped)" by force
  have len: "length ?ids = n" using size by (simp add: ec1_def)
  have same: "ec_rhs_values ec1 = ec_rhs_values ec" "ec_terms ec1 = ec_terms ec"
    "ec_variable_indices ec1 = ec_variable_indices ec" "ec_row_coefficients ec1 = ec_row_coefficients ec"
    "ec_bilinear_terms ec1 = ec_bilinear_terms ec" "ec_quadratic_groups ec1 = ec_quadratic_groups ec"
    by (simp_all add: ec1_def ec_terms_def)
  have active: "row_active ec1 r = row_active ec r" if "r < n" for r
    using that by (auto simp: ec1_def row_active_def)
  note fold = mask_ne_fold [of n ?ids ec1, unfolded run len same, simplified]
  have eq: "mask_ne_rows ec n = (if dropped = n then None else Some (ec1\<lparr>ec_row_group_ids := ids'\<rparr>))"
    using False run by (simp add: mask_ne_rows_def Let_def flip: ec1_def)
  show ?thesis
  proof (cases "dropped = n")
    case True
    with fold eq show ?thesis by simp
  next
    case False
    have "row_active (ec1\<lparr>ec_row_group_ids := ids'\<rparr>) r \<longleftrightarrow>
        row_active ec r \<and> NEIsIntegerValuedRhs (cc_get (ec_rhs_values ec) r)" if r: "r < n" for r
    proof -
      have "ids' \<noteq> []" "?ids \<noteq> []" using fold len r by auto
      then have "row_active (ec1\<lparr>ec_row_group_ids := ids'\<rparr>) r \<longleftrightarrow> ids' ! r \<noteq> None"
        and "row_active ec1 r \<longleftrightarrow> ?ids ! r \<noteq> None"
        by (simp_all add: row_active_def)
      with fold r active [OF r] show ?thesis by auto
    qed
    with eq False same show ?thesis by (simp add: ec_terms_def)
  qed
qed

lemma classify_rows_agree:
  "classify_rows ec lower upper rs seen = v \<Longrightarrow> v \<noteq> DISJUNCTION \<Longrightarrow>
     (seen = None \<or> seen = Some v) \<and>
     (\<forall>r \<in> set rs. row_active ec r \<longrightarrow> ClassifyNERow ec r lower upper = v)"
proof (induction rs arbitrary: seen)
  case (Cons r rs)
  show ?case
  proof (cases "row_active ec r")
    case False
    with Cons show ?thesis by (simp add: row_active_def)
  next
    case True
    then have "\<not> (ec_row_group_ids ec \<noteq> [] \<and> ec_row_group_ids ec ! r = None)" by (simp add: row_active_def)
    with Cons.prems have rest: "classify_rows ec lower upper rs (Some (ClassifyNERow ec r lower upper)) = v"
      "seen = None \<or> seen = Some (ClassifyNERow ec r lower upper)"
      by (cases seen; force simp: Let_def split: if_splits)+
    with Cons.IH [OF rest(1) Cons.prems(2)] show ?thesis by auto
  qed
qed (auto split: option.splits)

section \<open>The loop over the constraints\<close>

definition clause_differs :: "SolverInput \<Rightarrow> EvaluatedConstraint \<Rightarrow> (idx \<Rightarrow> real) \<Rightarrow> bool" where
  "clause_differs base ec x \<longleftrightarrow>
     (ec_ne_clause_idx ec \<noteq> None \<and> \<not> ec_lhs_is_aggregate ec \<longrightarrow>
        (\<forall>r < si_num_rows base. row_differs base ec r x))"

definition clause_ready :: "SolverInput \<Rightarrow> EvaluatedConstraint \<Rightarrow> ne_state \<Rightarrow> bool" where
  "clause_ready base ec s \<longleftrightarrow> base_of (ns_input s) = base_of base \<and> indexable base \<and>
     (ec_ne_clause_idx ec \<noteq> None \<longrightarrow> ne_clause_ok base ec)"

lemma ne_clause_vars: "ne_clause_ok base ec \<Longrightarrow> vars_in ec (si_num_decide_vars base)"
  by (simp add: ne_clause_ok_def ec_shape_def vars_in_def)

lemma clause_differs_decisions:
  assumes "clause_ready base ec s"
  shows "on_decisions (BuildIndexer base) (clause_differs base ec)"
proof (cases "ec_ne_clause_idx ec \<noteq> None")
  case True
  have "on_decisions (BuildIndexer base) (row_differs base ec r)" if "r < si_num_rows base" for r
    using row_differs_decisions [OF _ that ne_clause_vars] assms True by (simp add: clause_ready_def)
  then have "row_differs base ec r x' = row_differs base ec r x"
    if "r < si_num_rows base" "agree_below (vi_global_block_start (BuildIndexer base)) x x'" for r x x'
    using on_decisionsD that by blast
  then show ?thesis unfolding on_decisions_def clause_differs_def by blast
qed (simp add: on_decisions_def clause_differs_def)

text \<open>A row the mask drops, or a clause that is always true, excludes nothing.\<close>

lemma dropped_row_differs:
  assumes ok: "ne_clause_ok base ec" and guard: "NELhsIsIntegerValued ec (si_variable_types base) = NE_INTEGER"
    and x: "ne_point base x" "r < si_num_rows base"
    and drop: "\<not> NEIsIntegerValuedRhs (cc_get (ec_rhs_values ec) r) \<or>
      ClassifyNERow ec r (si_rigid_lower_bounds base) (si_rigid_upper_bounds base) = ALWAYS_TRUE"
  shows "row_differs base ec r x"
proof -
  note ints = ne_clause_int_terms [OF ok guard x(2)]
  obtain l where l: "row_lhs ec (at_flat base x) r = Fin (of_int l)" using row_lhs_int [OF ints x] .
  show ?thesis
  proof (cases "NEIsIntegerValuedRhs (cc_get (ec_rhs_values ec) r)")
    case False
    with l not_integer_differs show ?thesis by (simp add: row_differs_def)
  next
    case True
    with ok x(2) have "int_val (cc_get (ec_rhs_values ec) r)" by (simp add: ne_clause_ok_def near_exact_int0)
    then obtain k where k: "cc_get (ec_rhs_values ec) r = Fin (of_int k)" by (rule int_valE)
    obtain f where f: "fixed_part (ec_terms ec) r = of_int f"
      using fixed_part_int [OF ints] by (auto elim: Ints_cases)
    obtain v where v: "var_part (ec_terms ec) r (at_flat base x) None = of_int v"
      using var_part_int [OF ints x] by (auto elim: Ints_cases)
    from ClassifyNERow_sound [OF ints x k f v] drop True have "v \<noteq> k - f" by auto
    then show ?thesis
      by (simp add: row_differs_def row_lhs_parts [OF int_terms_crisp [OF ints]] k f v flip: of_int_add)
  qed
qed

lemma linearize_ne_step_states:
  assumes wf: "well_formed (BuildIndexer base) (ns_input s)" and ready: "clause_ready base ec s"
    and step: "linearize_ne_step (BuildIndexer base) ec s = Inr s'"
  shows "states (BuildIndexer base) (ne_point base) (clause_differs base ec) (ns_input s) (ns_input s')"
proof (cases "ec_ne_clause_idx ec = None \<or> ec_lhs_is_aggregate ec")
  case True
  then have "ns_input s' = ns_input s" using step by (auto simp: linearize_ne_step_def Let_def split: if_splits)
  moreover have "clause_differs base ec = (\<lambda>x. True)" using True by (auto simp: clause_differs_def fun_eq_iff)
  ultimately show ?thesis using states_refl [OF wf] by simp
next
  case False
  let ?vi = "BuildIndexer base" and ?n = "si_num_rows base"
  let ?lo = "si_rigid_lower_bounds base" and ?hi = "si_rigid_upper_bounds base"
  have ok: "ne_clause_ok base ec" and idx: "indexable base" using ready False by (simp_all add: clause_ready_def)
  have base: "base_of (ns_input s) = base_of base" using ready by (simp add: clause_ready_def)
  note base = base_of_eqD [OF base]
  have guard: "NELhsIsIntegerValued ec (si_variable_types base) = NE_INTEGER"
    using step False by (auto simp: linearize_ne_step_def Let_def base split: if_splits)
  have differs: "clause_differs base ec x \<longleftrightarrow> (\<forall>r < ?n. row_differs base ec r x)" for x
    using False by (simp add: clause_differs_def)
  note dropped = dropped_row_differs [OF ok guard]
  have size: "ec_row_group_ids ec \<noteq> [] \<longrightarrow> length (ec_row_group_ids ec) = ?n"
    using ok by (auto simp: ne_clause_ok_def ec_shape_def)
  note mask = mask_ne_rows_spec [OF size]
  show ?thesis
  proof (cases "mask_ne_rows ec ?n")
    case None
    then have "ns_input s' = ns_input s"
      using step False guard by (auto simp: linearize_ne_step_def Let_def base)
    moreover have "clause_differs base ec x" if "ne_point base x" for x
      using mask None dropped [OF that] by (simp add: differs)
    ultimately show ?thesis using states_refl [OF wf, of "ne_point base"] by (auto elim: states_cong)
  next
    case (Some ec')
    let ?collapse = "ClassifyNEConstraint ec' ?n ?lo ?hi"
    from mask Some have ec': "ec_terms ec' = ec_terms ec" "ec_rhs_values ec' = ec_rhs_values ec"
      "ec_variable_indices ec' = ec_variable_indices ec" "ec_row_coefficients ec' = ec_row_coefficients ec"
      "ec_bilinear_terms ec' = []" "ec_quadratic_groups ec' = []"
      and active: "\<forall>r < ?n. row_active ec' r \<longleftrightarrow>
        row_active ec r \<and> NEIsIntegerValuedRhs (cc_get (ec_rhs_values ec) r)"
      using ok by (simp_all add: ne_clause_ok_def)
    have classify: "ClassifyNERow ec' r ?lo ?hi = ClassifyNERow ec r ?lo ?hi" for r
      by (simp add: ClassifyNERow_def DecideRowSignedRange_def DecideRowEffectiveBound_def ec')
    have verdict: "?collapse = DISJUNCTION \<or> (\<forall>r < ?n. row_active ec' r \<longrightarrow> ClassifyNERow ec r ?lo ?hi = ?collapse)"
      using classify_rows_agree [of ec' ?lo ?hi "[0..<?n]" None] classify
      by (auto simp: ClassifyNEConstraint_def ec')
    have lhs: "row_lhs ec' X r = row_lhs ec X r" for X r by (simp add: row_lhs_def ec')
    have same: "clause_differs base ec x \<longleftrightarrow> (\<forall>r < ?n. row_differs base ec' r x)" if x: "ne_point base x" for x
    proof -
      have "row_differs base ec r x \<longleftrightarrow> row_differs base ec' r x" if r: "r < ?n" for r
        using dropped [OF x r] active r by (auto simp: row_differs_def lhs ec'(2))
      then show ?thesis by (simp add: differs)
    qed
    show ?thesis
    proof (cases "?collapse = ALWAYS_TRUE")
      case True
      then have "ns_input s' = ns_input s"
        using step False guard Some by (auto simp: linearize_ne_step_def Let_def base)
      moreover have "row_differs base ec' r x" if x: "ne_point base x" and r: "r < ?n" for x r
        using dropped [OF x r] verdict True active r by (auto simp: row_differs_def lhs ec'(2))
      ultimately show ?thesis
        using states_refl [OF wf, of "ne_point base"] same by (auto elim: states_cong)
    next
      case live: False
      then have out: "ns_input s' = EmitNotEqualRows ?vi ec' ?collapse (NotEqualClauseLabel (ns_input s) ec') (ns_input s)"
        using step False guard Some by (auto simp: linearize_ne_step_def Let_def base)
      have "ne_row_ready base ec' ?collapse r" if r: "r < ?n" for r
      proof -
        have "int_terms base ec' r"
          using ne_clause_int_terms [OF ok guard r] by (simp add: int_terms_def ec')
        moreover have "int_val (cc_get (ec_rhs_values ec') r)" if "row_active ec' r"
          using active r that ok by (simp add: ne_clause_ok_def ec' near_exact_int0)
        moreover have "vars_in ec' (si_num_decide_vars base)"
          using ne_clause_vars [OF ok] by (simp add: vars_in_def ec')
        ultimately show ?thesis
          using live verdict idx r by (auto simp: ne_row_ready_def classify)
      qed
      then have "states ?vi (ne_point base) (\<lambda>x. \<forall>r < ?n. row_differs base ec' r x) (ns_input s) (ns_input s')"
        unfolding out using EmitNotEqualRows_states [OF wf base(1)] by blast
      then show ?thesis using same by (auto elim: states_cong)
    qed
  qed
qed

end
