(* ===== verification/NotEqualExact.thy ===== *)
theory NotEqualExact
  imports NotEqualRows
begin

text \<open>
  The aggregate spelling of \<open><>\<close>, one block per group and excluded value, and the whole pass.
\<close>

section \<open>One excluded value of a group\<close>

definition value_differs :: "(idx \<times> dbl) list \<Rightarrow> dbl \<Rightarrow> dbl \<Rightarrow> (idx \<Rightarrow> real) \<Rightarrow> bool" where
  "value_differs terms fixed_offset scaled x \<longleftrightarrow>
     \<not> deq (lin_val (map fst terms) (map snd terms) x + fixed_offset) scaled"

definition value_ready :: "SolverInput \<Rightarrow> (idx \<times> dbl) list \<Rightarrow> dbl \<Rightarrow> (dbl \<times> dbl) option \<Rightarrow> dbl \<Rightarrow> bool" where
  "value_ready base terms fixed_offset reach scaled \<longleftrightarrow>
     (\<forall>(i, c) \<in> set terms. i < vi_global_block_start (BuildIndexer base)) \<and>
     (\<forall>x. ne_point base x \<longrightarrow> (\<exists>l. lin_val (map fst terms) (map snd terms) x = Fin (of_int l) \<and>
        (\<forall>lo hi. reach = Some (lo, hi) \<longrightarrow> lo \<le> Fin (of_int l) \<and> Fin (of_int l) \<le> hi))) \<and>
     int_val fixed_offset \<and> near_exact scaled"

lemma value_differs_decisions:
  assumes "\<forall>(i, c) \<in> set terms. i < vi_global_block_start vi"
  shows "on_decisions vi (value_differs terms fixed_offset scaled)"
proof -
  have "(\<Sum>(i, c)\<leftarrow>terms. c * Fin (x' i)) = (\<Sum>(i, c)\<leftarrow>terms. c * Fin (x i))"
    if "agree_below (vi_global_block_start vi) x x'" for x x'
    by (rule arg_cong [where f = sum_list], rule map_cong [OF refl])
       (use that assms in \<open>auto simp: agree_below_def\<close>)
  then show ?thesis by (simp add: on_decisions_def value_differs_def lin_val_pairs)
qed

lemma stamp_ne_group_simps [simp]:
  "rc_indices (stamp_ne_group ec g z rc) = rc_indices rc"
  "sat_raw (stamp_ne_group ec g z rc) x = sat_raw rc x"
  by (simp_all add: stamp_ne_group_def sat_raw_def Let_def)

definition value_collapse :: "(dbl \<times> dbl) option \<Rightarrow> dbl \<Rightarrow> NECollapse" where
  "value_collapse reach rhs = (case reach of None \<Rightarrow> DISJUNCTION | Some (lo, hi) \<Rightarrow> collapse_of lo hi rhs)"

lemma emit_ne_value_block:
  "emit_ne_value vi ec g g_size fixed_offset reach terms label bound input =
     (let rhs = scaled_bound ec g_size bound - fixed_offset
      in if \<not> NEIsIntegerValuedRhs rhs \<or> value_collapse reach rhs = ALWAYS_TRUE then input
         else ne_block vi label (value_collapse reach rhs) (stamp_ne_group ec g)
                (ne_raw terms Le (rhs - 1)) (ne_raw terms Ge (rhs + 1)) input)"
  unfolding emit_ne_value_def scaled_bound_def [symmetric] value_collapse_def [symmetric] Let_def
  by (auto simp: ne_block_def append_rows_def split: prod.splits)

lemma emit_ne_value_states:
  assumes wf: "well_formed (BuildIndexer base) input"
    and ready: "value_ready base terms fixed_offset reach (scaled_bound ec g_size bound)"
  shows "states (BuildIndexer base) (ne_point base)
    (value_differs terms fixed_offset (scaled_bound ec g_size bound)) input
    (emit_ne_value (BuildIndexer base) ec g g_size fixed_offset reach terms label bound input)"
proof -
  define scaled where "scaled = scaled_bound ec g_size bound"
  note ready = ready [folded scaled_def, unfolded value_ready_def]
  obtain f where f: "fixed_offset = Fin (of_int f)" using ready by (auto elim: int_valE)
  note emit = emit_ne_value_block [of "BuildIndexer base" ec g g_size fixed_offset reach terms label bound input,
      folded scaled_def, unfolded f Let_def]
  have differs: "value_differs terms fixed_offset scaled x \<longleftrightarrow> \<not> deq (Fin (of_int l)) (scaled - Fin (of_int f))"
    if "lin_val (map fst terms) (map snd terms) x = Fin (of_int l)" for x l
    using that by (cases scaled) (auto simp: value_differs_def f minus_dbl_def deq_def algebra_simps)
  let ?rhs = "scaled - Fin (of_int f)"
  show ?thesis
  proof (cases "NEIsIntegerValuedRhs ?rhs")
    case False
    have "value_differs terms fixed_offset scaled x" if "ne_point base x" for x
      using ready that differs not_integer_differs [OF False] by blast
    then show ?thesis
      using states_refl [OF wf, of "ne_point base"] False
      unfolding scaled_def [symmetric] f emit by (auto elim: states_cong)
  next
    case True
    obtain k where k: "?rhs = Fin (of_int k)"
      using near_exact_int [OF _ True] ready by (auto elim: int_valE)
    have at_point: "\<exists>l. lin_val (map fst terms) (map snd terms) x = Fin (of_int l) \<and>
        verdict_holds (value_collapse reach ?rhs) l k" if x: "ne_point base x" for x
    proof -
      obtain l where l: "lin_val (map fst terms) (map snd terms) x = Fin (of_int l)"
        "\<forall>lo hi. reach = Some (lo, hi) \<longrightarrow> lo \<le> Fin (of_int l) \<and> Fin (of_int l) \<le> hi"
        using ready x by blast
      then have "verdict_holds (value_collapse reach ?rhs) l k"
        using collapse_of_sound [of _ l _ k] by (auto simp: value_collapse_def k split: option.splits)
      with l(1) show ?thesis by blast
    qed
    have exact: "value_differs terms fixed_offset scaled x \<longleftrightarrow>
        lin_val (map fst terms) (map snd terms) x \<noteq> Fin (of_int k)" if "ne_point base x" for x
      using at_point [OF that] differs k by auto
    show ?thesis
    proof (cases "value_collapse reach ?rhs = ALWAYS_TRUE")
      case True
      have "value_differs terms fixed_offset scaled x" if "ne_point base x" for x
        using at_point [OF that] exact [OF that] True by auto
      then show ?thesis
        using states_refl [OF wf, of "ne_point base"] True
        unfolding scaled_def [symmetric] f emit by (auto elim: states_cong)
    next
      case live: False
      have "states (BuildIndexer base) (ne_point base)
          (\<lambda>x. lin_val (map fst terms) (map snd terms) x \<noteq> Fin (of_int k)) input
          (ne_block (BuildIndexer base) label (value_collapse reach ?rhs) (stamp_ne_group ec g)
             (ne_raw terms Le (Fin (of_int k) - 1)) (ne_raw terms Ge (Fin (of_int k) + 1)) input)"
        by (rule ne_block_states [OF wf ne_point_decisions _ _ _ at_point live]) (use ready in simp_all)
      then show ?thesis
        using True live exact unfolding scaled_def [symmetric] f emit
        by (auto simp: k elim: states_cong)
    qed
  qed
qed

interpretation ne_values: row_emitter
  "\<lambda>bound input. Inr (emit_ne_value (BuildIndexer base) ec g g_size fixed_offset reach terms label bound input)"
  "\<lambda>input. input" "BuildIndexer base" "ne_point base"
  "\<lambda>bound. value_differs terms fixed_offset (scaled_bound ec g_size bound)"
  "\<lambda>bound input. value_ready base terms fixed_offset reach (scaled_bound ec g_size bound)"
  for base ec g g_size fixed_offset reach terms label
proof
  fix bound s s'
  assume ready: "value_ready base terms fixed_offset reach (scaled_bound ec g_size bound)"
  then show "on_decisions (BuildIndexer base) (value_differs terms fixed_offset (scaled_bound ec g_size bound))"
    by (intro value_differs_decisions) (simp add: value_ready_def)
  assume "well_formed (BuildIndexer base) s"
    and "Inr (emit_ne_value (BuildIndexer base) ec g g_size fixed_offset reach terms label bound s) = Inr s'"
  with ready emit_ne_value_states show "states (BuildIndexer base) (ne_point base)
      (value_differs terms fixed_offset (scaled_bound ec g_size bound)) s s'" by auto
qed (simp_all add: ne_point_decisions)

section \<open>A group's row\<close>

definition group_row :: "VarIndexer \<Rightarrow> EvaluatedConstraint \<Rightarrow> idx list \<Rightarrow> (idx \<times> dbl) list" where
  "group_row vi ec rows = concat (map (\<lambda>(var, col). case var of None \<Rightarrow> []
     | Some v \<Rightarrow> concat (map (\<lambda>row. if negligible (cc_get col row) then [] else [(Get vi v row, cc_get col row)]) rows))
     (ec_terms ec))"

lemma add_group_coeffs_row:
  "add_group_coeffs vi ec rows accum = fold (\<lambda>(i, c). AddCoeff i c) (group_row vi ec rows) accum"
proof -
  have inner: "fold (\<lambda>row accum. if negligible (cc_get col row) then accum
        else AddCoeff (Get vi v row) (cc_get col row) accum) rows a =
      fold (\<lambda>(i, c). AddCoeff i c) (concat (map (\<lambda>row. if negligible (cc_get col row) then []
        else [(Get vi v row, cc_get col row)]) rows)) a" for col v a
    by (induction rows arbitrary: a) simp_all
  have "fold (\<lambda>(var, col) accum. case var of None \<Rightarrow> accum
        | Some v \<Rightarrow> fold (\<lambda>row accum. if negligible (cc_get col row) then accum
                            else AddCoeff (Get vi v row) (cc_get col row) accum) rows accum) ts a =
      fold (\<lambda>(i, c). AddCoeff i c) (concat (map (\<lambda>(var, col). case var of None \<Rightarrow> []
        | Some v \<Rightarrow> concat (map (\<lambda>row. if negligible (cc_get col row) then []
            else [(Get vi v row, cc_get col row)]) rows)) ts)) a" for ts a
    by (induction ts arbitrary: a) (auto simp: inner split: option.splits)
  then show ?thesis by (simp add: add_group_coeffs_def group_row_def)
qed

definition group_var :: "EvaluatedConstraint \<Rightarrow> idx list \<Rightarrow> (idx \<Rightarrow> idx \<Rightarrow> real) \<Rightarrow> real" where
  "group_var ec rows X = (\<Sum>r\<leftarrow>rows. var_part (ec_terms ec) r X None)"

definition group_fixed :: "EvaluatedConstraint \<Rightarrow> idx list \<Rightarrow> real" where
  "group_fixed ec rows = (\<Sum>r\<leftarrow>rows. fixed_part (ec_terms ec) r)"

lemma group_row_val:
  assumes "\<forall>r \<in> set rows. terms_crisp (ec_terms ec) r"
  shows "(\<Sum>(i, c)\<leftarrow>group_row (BuildIndexer base) ec rows. c * Fin (x i)) = Fin (group_var ec rows (at_flat base x))"
proof -
  let ?X = "at_flat base x"
  have one: "(\<Sum>(i, c)\<leftarrow>(case var of None \<Rightarrow> [] | Some v \<Rightarrow>
        concat (map (\<lambda>row. if negligible (cc_get col row) then []
          else [(Get (BuildIndexer base) v row, cc_get col row)]) rs)). c * Fin (x i)) =
      Fin (\<Sum>r\<leftarrow>rs. part_of r ?X None (var, col))"
    if "\<forall>r \<in> set rs. crisp (cc_get col r)" for rs var col
    using that
  proof (induction rs)
    case (Cons r rs)
    then have "crisp (cc_get col r)" by simp
    with Cons show ?case
      by (cases var) (auto simp: part_of_def at_flat_def elim: crisp_FinE)
  qed (auto simp: zero_dbl_def part_of_def split: option.splits)
  have "(\<Sum>(i, c)\<leftarrow>concat (map (\<lambda>(var, col). case var of None \<Rightarrow> [] | Some v \<Rightarrow>
        concat (map (\<lambda>row. if negligible (cc_get col row) then []
          else [(Get (BuildIndexer base) v row, cc_get col row)]) rows)) ts). c * Fin (x i)) =
      Fin (\<Sum>t\<leftarrow>ts. \<Sum>r\<leftarrow>rows. part_of r ?X None t)"
    if "\<forall>r \<in> set rows. terms_crisp ts r" for ts
    using that
  proof (induction ts)
    case (Cons t ts)
    obtain var col where t: "t = (var, col)" by force
    have crisp: "\<forall>r \<in> set rows. crisp (cc_get col r)" "\<forall>r \<in> set rows. terms_crisp ts r"
      using Cons.prems by (auto simp: t terms_crisp_def)
    from one [OF crisp(1), of var] Cons.IH [OF crisp(2)] show ?case by (simp add: t)
  qed (simp add: zero_dbl_def)
  with assms show ?thesis
    by (simp add: group_row_def group_var_def var_part_def sum_list_swap [of _ rows])
qed

lemma group_row_lt:
  assumes idx: "indexable base" and vars: "vars_in ec (si_num_decide_vars base)"
    and rows: "\<forall>r \<in> set rows. r < si_num_rows base \<and> terms_crisp (ec_terms ec) r"
    and mem: "(i, c) \<in> set (group_row (BuildIndexer base) ec rows)"
  shows "i < vi_global_block_start (BuildIndexer base) \<and> isfinite c"
proof -
  from mem obtain v col r where t: "(Some v, col) \<in> set (ec_terms ec)" and r: "r \<in> set rows"
    and eq: "i = Get (BuildIndexer base) v r" "c = cc_get col r"
    by (auto simp: group_row_def split: option.splits if_splits)
  have "v < si_num_decide_vars base" "r < si_num_rows base"
    using ec_terms_vars [OF vars t] rows r by simp_all
  with num.at_row_lt [OF idx] have "i < vi_global_block_start (BuildIndexer base)" by (simp add: eq)
  moreover have "crisp (cc_get col r)" using rows r t by (auto simp: terms_crisp_def list_all_iff)
  ultimately show ?thesis by (simp add: eq crisp_def)
qed

text \<open>What the clause compares, and the fixed part the pass subtracts.\<close>

lemma agg_lhs_parts:
  assumes shape: "length (ec_row_coefficients ec) = length (ec_variable_indices ec)"
    and once: "\<forall>t < length (ec_variable_indices ec). \<forall>v. ec_variable_indices ec ! t = Some v \<longrightarrow>
      \<not> counted_once base ec t v"
    and crisp: "\<forall>r \<in> set rows. terms_crisp (ec_terms ec) r"
  shows "agg_lhs base ec X rows = Fin (group_var ec rows X + group_fixed ec rows)"
proof -
  have one: "agg_term base ec X rows t =
      (\<Sum>r\<leftarrow>rows. term_val X r (ec_variable_indices ec ! t, ec_row_coefficients ec ! t))"
    if t: "t < length (ec_variable_indices ec)" for t
    using once t
    by (cases "ec_variable_indices ec ! t") (simp_all add: agg_term_def Let_def term_val_def)
  have "agg_lhs base ec X rows = (\<Sum>t\<leftarrow>[0..<length (ec_variable_indices ec)].
      \<Sum>r\<leftarrow>rows. term_val X r (ec_variable_indices ec ! t, ec_row_coefficients ec ! t))"
    unfolding agg_lhs_def by (rule arg_cong [where f = sum_list]) (use one in simp)
  also have "\<dots> = (\<Sum>t\<leftarrow>ec_terms ec. \<Sum>r\<leftarrow>rows. term_val X r t)"
    using map_parallel [of "ec_variable_indices ec" "ec_row_coefficients ec"
        "\<lambda>v c. \<Sum>r\<leftarrow>rows. term_val X r (v, c)"] shape
    by (simp add: ec_terms_def case_prod_unfold)
  also have "\<dots> = (\<Sum>r\<leftarrow>rows. row_lhs ec X r)"
    by (simp add: sum_list_swap [of _ rows] row_lhs_def ec_terms_def)
  also have "\<dots> = (\<Sum>r\<leftarrow>rows. Fin (var_part (ec_terms ec) r X None + fixed_part (ec_terms ec) r))"
    by (rule arg_cong [where f = sum_list]) (use crisp row_lhs_parts in simp)
  finally show ?thesis by (simp add: sum_list_Fin sum_list_addf group_var_def group_fixed_def)
qed

lemma SumFixed_group:
  assumes "SumFixedAggregateLhsOffset ec rows context = Inr b"
    and shape: "length (ec_row_coefficients ec) = length (ec_variable_indices ec)"
    and crisp: "\<forall>r \<in> set rows. terms_crisp (ec_terms ec) r"
  shows "b = Fin (group_fixed ec rows)"
proof -
  have "b = (\<Sum>t\<leftarrow>[0..<length (ec_variable_indices ec)]. \<Sum>r\<leftarrow>rows.
      if ec_variable_indices ec ! t = None then cc_get (ec_row_coefficients ec ! t) r else 0)"
  proof -
    have "(if b then (\<Sum>r\<leftarrow>rows. f r) else 0) = (\<Sum>r\<leftarrow>rows. if b then f r else (0 :: dbl))" for b f
      by (cases b) simp_all
    then show ?thesis unfolding SumFixed_eq [OF assms(1)] by presburger
  qed
  also have "\<dots> = (\<Sum>t\<leftarrow>ec_terms ec. \<Sum>r\<leftarrow>rows. if fst t = None then cc_get (snd t) r else 0)"
    using map_parallel [of "ec_variable_indices ec" "ec_row_coefficients ec"
        "\<lambda>v c. \<Sum>r\<leftarrow>rows. if v = None then cc_get c r else 0"] shape
    by (simp add: ec_terms_def case_prod_unfold)
  also have "\<dots> = (\<Sum>r\<leftarrow>rows. \<Sum>t\<leftarrow>ec_terms ec. if fst t = None then cc_get (snd t) r else 0)"
    by (rule sum_list_swap)
  also have "\<dots> = (\<Sum>r\<leftarrow>rows. Fin (fixed_part (ec_terms ec) r))"
  proof (rule arg_cong [where f = sum_list], rule map_cong [OF refl])
    fix r
    assume "r \<in> set rows"
    then have "terms_crisp (ec_terms ec) r" using crisp by simp
    moreover have "(\<Sum>t\<leftarrow>ts. if fst t = None then cc_get (snd t) r else 0) = Fin (fixed_part ts r)"
      if "terms_crisp ts r" for ts
      using that
      by (induction ts)
         (auto simp: terms_crisp_def zero_dbl_def fixed_part_def elim!: crisp_FinE split: option.splits)
    ultimately show "(\<Sum>t\<leftarrow>ec_terms ec. if fst t = None then cc_get (snd t) r else 0) =
        Fin (fixed_part (ec_terms ec) r)" by blast
  qed
  finally show ?thesis by (simp add: sum_list_Fin group_fixed_def)
qed

lemma group_range_encloses:
  assumes "group_range ec lower upper rows = (lo, hi)"
    and "\<forall>r \<in> set rows. terms_crisp (ec_terms ec) r \<and> boxed lower upper r X"
  shows "lo \<le> Fin (group_var ec rows X) \<and> Fin (group_var ec rows X) \<le> hi"
proof -
  have add: "a + c \<le> Fin (p + q) \<and> Fin (p + q) \<le> b + d"
    if "a \<le> Fin p" "Fin p \<le> b" "c \<le> Fin q" "Fin q \<le> d" for a b c d p q
    using that by (cases a; cases b; cases c; cases d) simp_all
  have "lo \<le> Fin (p + group_var ec rows X) \<and> Fin (p + group_var ec rows X) \<le> hi"
    if "fold (\<lambda>row (lo, hi). let (row_lo, row_hi) = DecideRowSignedRange ec row lower upper None
             in (lo + row_lo, hi + row_hi)) rows (a, b) = (lo, hi)"
      "a \<le> Fin p" "Fin p \<le> b" "\<forall>r \<in> set rows. terms_crisp (ec_terms ec) r \<and> boxed lower upper r X" for a b p rows
    using that
  proof (induction rows arbitrary: a b p)
    case (Cons r rows)
    obtain rl rh where range: "DecideRowSignedRange ec r lower upper None = (rl, rh)" by force
    from SignedRange_encloses [OF range] Cons.prems(4)
    have "rl \<le> Fin (var_part (ec_terms ec) r X None) \<and> Fin (var_part (ec_terms ec) r X None) \<le> rh" by simp
    with add Cons.prems(2,3) have "a + rl \<le> Fin (p + var_part (ec_terms ec) r X None) \<and>
        Fin (p + var_part (ec_terms ec) r X None) \<le> b + rh" by blast
    with Cons.IH [of "a + rl" "b + rh" "p + var_part (ec_terms ec) r X None"] Cons.prems(1,4) range
    show ?case by (simp add: group_var_def add.assoc)
  qed (simp add: group_var_def)
  from this [of rows 0 0 0] assms show ?thesis by (simp add: group_range_def zero_dbl_def)
qed

section \<open>The aggregate spelling is exact\<close>

definition group_differs :: "SolverInput \<Rightarrow> EvaluatedConstraint \<Rightarrow> idx list \<Rightarrow> (idx \<Rightarrow> real) \<Rightarrow> bool" where
  "group_differs base ec rows x \<longleftrightarrow>
     (\<forall>r \<in> set rows. \<not> deq (agg_lhs base ec (at_flat base x) rows) (ne_bound ec rows r))"

type_synonym expansion = "SolverInput \<times> SparseCoeffAccumulator"

definition expansion_ok :: "SolverInput \<Rightarrow> expansion \<Rightarrow> bool" where
  "expansion_ok base s \<longleftrightarrow> indexable base \<and> si_num_rows (fst s) = si_num_rows base \<and>
     si_rigid_lower_bounds (fst s) = si_rigid_lower_bounds base \<and>
     si_rigid_upper_bounds (fst s) = si_rigid_upper_bounds base \<and>
     acc_inv (snd s) \<and> (\<forall>j. acc_contents (snd s) j = 0) \<and>
     (\<forall>j < vi_global_block_start (BuildIndexer base). acc_valid (snd s) j)"

definition group_ready :: "SolverInput \<Rightarrow> EvaluatedConstraint \<Rightarrow> idx list \<Rightarrow> expansion \<Rightarrow> bool" where
  "group_ready base ec rows s \<longleftrightarrow> expansion_ok base s \<and> ne_clause_ok base ec \<and> ec_lhs_is_aggregate ec \<and>
     (\<forall>r \<in> set rows. r < si_num_rows base \<and> int_terms base ec r \<and> near_exact (ne_bound ec rows r))"

lemma group_ready_parts:
  assumes "group_ready base ec rows s"
  shows "agg_lhs base ec X rows = Fin (group_var ec rows X + group_fixed ec rows)"
    and "\<forall>r \<in> set rows. terms_crisp (ec_terms ec) r" "vars_in ec (si_num_decide_vars base)" "indexable base"
    and "length (ec_row_coefficients ec) = length (ec_variable_indices ec)"
    and "group_fixed ec rows \<in> \<int>"
proof -
  have ok: "ne_clause_ok base ec" and ints: "\<forall>r \<in> set rows. int_terms base ec r"
    using assms by (simp_all add: group_ready_def)
  then show crisp: "\<forall>r \<in> set rows. terms_crisp (ec_terms ec) r" using int_terms_crisp by blast
  show len: "length (ec_row_coefficients ec) = length (ec_variable_indices ec)"
    using ok by (simp add: ne_clause_ok_def ec_shape_def)
  show "vars_in ec (si_num_decide_vars base)" by (rule ne_clause_vars [OF ok])
  show "indexable base" using assms by (simp add: group_ready_def expansion_ok_def)
  show "agg_lhs base ec X rows = Fin (group_var ec rows X + group_fixed ec rows)"
    using assms by (intro agg_lhs_parts [OF len _ crisp]) (simp add: group_ready_def ne_clause_ok_def)
  have "(\<Sum>r\<leftarrow>rs. fixed_part (ec_terms ec) r) \<in> \<int>" if "\<forall>r \<in> set rs. int_terms base ec r" for rs
    using that by (induction rs) (auto intro: fixed_part_int)
  with ints show "group_fixed ec rows \<in> \<int>" by (simp add: group_fixed_def)
qed

lemma group_differs_decisions:
  assumes "group_ready base ec rows s"
  shows "on_decisions (BuildIndexer base) (group_differs base ec rows)"
proof -
  note parts = group_ready_parts [OF assms]
  have "group_var ec rows (at_flat base x') = group_var ec rows (at_flat base x)"
    if agree: "agree_below (vi_global_block_start (BuildIndexer base)) x x'" for x x'
  proof -
    have "(\<Sum>(i, c)\<leftarrow>group_row (BuildIndexer base) ec rows. c * Fin (x' i)) =
        (\<Sum>(i, c)\<leftarrow>group_row (BuildIndexer base) ec rows. c * Fin (x i))"
    proof (rule arg_cong [where f = sum_list], rule map_cong [OF refl])
      fix p
      assume "p \<in> set (group_row (BuildIndexer base) ec rows)"
      moreover obtain i c where p: "p = (i, c)" by force
      ultimately have "i < vi_global_block_start (BuildIndexer base)"
        using group_row_lt [OF parts(4,3), of rows i c] parts(2) assms by (auto simp: group_ready_def)
      with agree show "(case p of (i, c) \<Rightarrow> c * Fin (x' i)) = (case p of (i, c) \<Rightarrow> c * Fin (x i))"
        by (simp add: p agree_below_def)
    qed
    with group_row_val [OF parts(2)] show ?thesis by simp
  qed
  then show ?thesis by (simp add: on_decisions_def group_differs_def parts(1))
qed

lemma distinct_bounds_set:
  "(\<exists>b \<in> set (distinct_bounds ec rows). deq d (scaled_bound ec n b)) \<longleftrightarrow>
     (\<exists>r \<in> set rows. deq d (scaled_bound ec n (cc_get (ec_rhs_values ec) r)))"
  "set (distinct_bounds ec rows) \<subseteq> cc_get (ec_rhs_values ec) ` set rows"
proof -
  let ?f = "\<lambda>row seen. let raw = cc_get (ec_rhs_values ec) row
             in if list_ex (\<lambda>y. deq y raw) seen then seen else seen @ [raw]"
  have "set (fold ?f rows seen) = set seen \<union> cc_get (ec_rhs_values ec) ` set rows" for seen
  proof (induction rows arbitrary: seen)
    case (Cons r rows)
    have "set (?f r seen) = set seen \<union> {cc_get (ec_rhs_values ec) r}"
      by (auto simp: Let_def list_ex_iff deq_def)
    with Cons show ?case by simp
  qed simp
  then have "set (distinct_bounds ec rows) = cc_get (ec_rhs_values ec) ` set rows"
    by (simp add: distinct_bounds_def)
  then show "(\<exists>b \<in> set (distinct_bounds ec rows). deq d (scaled_bound ec n b)) \<longleftrightarrow>
     (\<exists>r \<in> set rows. deq d (scaled_bound ec n (cc_get (ec_rhs_values ec) r)))"
    "set (distinct_bounds ec rows) \<subseteq> cc_get (ec_rhs_values ec) ` set rows" by auto
qed

lemma expansion_ok_keep:
  assumes "expansion_ok base (input, a)" "states vi A P input input'"
    and "acc_inv a'" "\<forall>j. acc_contents a' j = 0" "acc_valid a' = acc_valid a"
  shows "expansion_ok base (input', a')"
  using assms base_of_eqD [of input' input] by (auto simp: expansion_ok_def states_def)

lemma expand_ne_group_states:
  assumes wf: "well_formed (BuildIndexer base) input" and ready: "group_ready base ec (csr_bucket csr g) (input, a)"
    and step: "expand_ne_group (BuildIndexer base) ec label csr g (input, a) = Inr (input', a')"
  shows "states (BuildIndexer base) (ne_point base) (group_differs base ec (csr_bucket csr g)) input input' \<and>
         expansion_ok base (input', a')"
proof (cases "csr_bucket csr g = []")
  case True
  with step ready states_refl [OF wf] show ?thesis
    by (simp add: expand_ne_group_def group_ready_def group_differs_def [abs_def])
next
  case False
  let ?vi = "BuildIndexer base" and ?rows = "csr_bucket csr g"
  note parts = group_ready_parts [OF ready]
  have eok: "expansion_ok base (input, a)" and in_rows: "\<forall>r \<in> set ?rows. r < si_num_rows base"
    and exact: "\<forall>r \<in> set ?rows. near_exact (ne_bound ec ?rows r)"
    and lin: "ec_bilinear_terms ec = []" "ec_quadratic_groups ec = []"
    using ready by (simp_all add: group_ready_def ne_clause_ok_def)
  from step False obtain fixed where fixed: "SumFixedAggregateLhsOffset ec ?rows ''fixed aggregate <> term'' = Inr fixed"
    by (auto simp: expand_ne_group_def Let_def split: sum.splits)
  obtain a1 gi gc where flush: "Flush (add_group_coeffs ?vi ec ?rows a) [] [] = (a1, gi, gc)" by (metis prod_cases3)
  obtain lo hi where range: "group_range ec (si_rigid_lower_bounds base) (si_rigid_upper_bounds base) ?rows = (lo, hi)"
    by force
  let ?terms = "zip gi gc"
  let ?step = "\<lambda>bound input. emit_ne_value ?vi ec g (length ?rows) fixed (Some (lo, hi)) ?terms label bound input"
  have out: "input' = fold ?step (distinct_bounds ec ?rows) input" "a' = a1"
    using step False fixed flush lin range eok
    by (auto simp: expand_ne_group_def Let_def expansion_ok_def)
  obtain f where f: "group_fixed ec ?rows = of_int f" using parts(6) by (auto elim: Ints_cases)
  have fixed_eq: "fixed = Fin (of_int f)" using SumFixed_group [OF fixed parts(5,2)] f by simp
  have lt: "i < vi_global_block_start ?vi \<and> isfinite c" if "(i, c) \<in> set (group_row ?vi ec ?rows)" for i c
    using group_row_lt [OF parts(4,3) _ that] in_rows parts(2) by blast
  have valid: "\<forall>(i, c) \<in> set (group_row ?vi ec ?rows). acc_valid a i \<and> isfinite c"
    using lt eok by (auto simp: expansion_ok_def)
  have start: "acc_inv a" "\<And>j. acc_contents a j = 0" using eok by (simp_all add: expansion_ok_def)
  note row = flush_row [OF start valid flush [unfolded add_group_coeffs_row]]
  have len: "length gi = length gc" and in_row: "set gi \<subseteq> fst ` set (group_row ?vi ec ?rows)"
    and acc: "acc_inv a1" "\<forall>j. acc_contents a1 j = 0" "acc_valid a1 = acc_valid a"
    using row by simp_all
  have val: "lin_val (map fst ?terms) (map snd ?terms) x = Fin (group_var ec ?rows (at_flat base x))" for x
    using row [of x] group_row_val [OF parts(2)] len by simp
  have var_int: "group_var ec ?rows (at_flat base x) \<in> \<int>" if "ne_point base x" for x
  proof -
    have "(\<Sum>r\<leftarrow>rs. var_part (ec_terms ec) r (at_flat base x) None) \<in> \<int>" if "set rs \<subseteq> set ?rows" for rs
      using that ready \<open>ne_point base x\<close> by (induction rs) (auto simp: group_ready_def intro: var_part_int)
    then show ?thesis by (simp add: group_var_def)
  qed
  have vready: "value_ready base ?terms fixed (Some (lo, hi)) (scaled_bound ec (length ?rows) b)"
    if "b \<in> set (distinct_bounds ec ?rows)" for b
    unfolding value_ready_def
  proof (intro conjI allI impI)
    show "\<forall>(i, c) \<in> set ?terms. i < vi_global_block_start ?vi"
      using in_row lt by (fastforce dest: set_zip_leftD)
    show "int_val fixed" by (auto simp: fixed_eq int_val_def)
    show "near_exact (scaled_bound ec (length ?rows) b)"
      using that distinct_bounds_set(2) exact by (fastforce simp: ne_bound_def)
    fix x
    assume x: "ne_point base x"
    obtain l where l: "group_var ec ?rows (at_flat base x) = of_int l" using var_int [OF x] by (auto elim: Ints_cases)
    have "\<forall>r \<in> set ?rows. terms_crisp (ec_terms ec) r \<and>
        boxed (si_rigid_lower_bounds base) (si_rigid_upper_bounds base) r (at_flat base x)"
      using x in_rows parts(2) by (simp add: ne_point_def)
    from group_range_encloses [OF range this] l
    show "\<exists>l. lin_val (map fst ?terms) (map snd ?terms) x = Fin (of_int l) \<and>
        (\<forall>lo' hi'. Some (lo, hi) = Some (lo', hi') \<longrightarrow> lo' \<le> Fin (of_int l) \<and> Fin (of_int l) \<le> hi')"
      by (auto simp: val)
  qed
  have "states ?vi (ne_point base)
      (\<lambda>x. \<forall>b \<in> set (distinct_bounds ec ?rows). value_differs ?terms fixed (scaled_bound ec (length ?rows) b) x)
      input input'"
  proof -
    have "fold_res (\<lambda>bound input. Inr (?step bound input)) (distinct_bounds ec ?rows) input = Inr input'"
      by (simp add: fold_res_Inr out(1))
    from ne_values.emits_all [OF wf _ this] vready show ?thesis by blast
  qed
  moreover have "(\<forall>b \<in> set (distinct_bounds ec ?rows). value_differs ?terms fixed (scaled_bound ec (length ?rows) b) x)
      \<longleftrightarrow> group_differs base ec ?rows x" for x
  proof -
    have "value_differs ?terms fixed (scaled_bound ec (length ?rows) b) x \<longleftrightarrow>
        \<not> deq (agg_lhs base ec (at_flat base x) ?rows) (scaled_bound ec (length ?rows) b)" for b
      by (simp add: value_differs_def val parts(1) fixed_eq f)
    then show ?thesis using distinct_bounds_set(1) [of ec ?rows]
      by (simp add: group_differs_def ne_bound_def) blast
  qed
  ultimately have states: "states ?vi (ne_point base) (group_differs base ec ?rows) input input'"
    by (auto elim: states_cong)
  with expansion_ok_keep [OF eok states acc] show ?thesis by (simp add: out(2))
qed

lemma group_ready_keep:
  "group_ready base ec rows s \<Longrightarrow> expansion_ok base s' \<Longrightarrow> group_ready base ec rows s'"
  by (simp add: group_ready_def)

interpretation ne_groups: row_emitter "expand_ne_group (BuildIndexer base) ec label csr" fst "BuildIndexer base"
  "ne_point base" "\<lambda>g. group_differs base ec (csr_bucket csr g)" "\<lambda>g. group_ready base ec (csr_bucket csr g)"
  for base ec label csr
proof
  fix g h and s s' :: expansion
  assume ready: "group_ready base ec (csr_bucket csr g) s"
  then show "on_decisions (BuildIndexer base) (group_differs base ec (csr_bucket csr g))"
    by (rule group_differs_decisions)
  obtain input a input' a' where s: "s = (input, a)" "s' = (input', a')" by force
  assume wf: "well_formed (BuildIndexer base) (fst s)"
  show "states (BuildIndexer base) (ne_point base) (group_differs base ec (csr_bucket csr g)) (fst s) (fst s')"
    if "expand_ne_group (BuildIndexer base) ec label csr g s = Inr s'"
    using expand_ne_group_states that ready wf by (simp add: s)
  assume "group_ready base ec (csr_bucket csr h) s" "expand_ne_group (BuildIndexer base) ec label csr h s = Inr s'"
  then have "expansion_ok base s'" using expand_ne_group_states wf by (simp add: s)
  with ready show "group_ready base ec (csr_bucket csr g) s'" by (rule group_ready_keep)
qed (rule ne_point_decisions)

section \<open>All aggregate clauses\<close>

definition aggregate_differs :: "SolverInput \<Rightarrow> EvaluatedConstraint \<Rightarrow> (idx \<Rightarrow> real) \<Rightarrow> bool" where
  "aggregate_differs base ec x \<longleftrightarrow> (\<forall>rows \<in> set (agg_row_sets ec (si_num_rows base)). group_differs base ec rows x)"

definition aggregate_ready :: "SolverInput \<Rightarrow> EvaluatedConstraint \<Rightarrow> expansion \<Rightarrow> bool" where
  "aggregate_ready base ec s \<longleftrightarrow> expansion_ok base s \<and> ne_clause_ok base ec \<and> ec_lhs_is_aggregate ec \<and>
     NELhsIsIntegerValued ec (si_variable_types base) = NE_INTEGER"

lemma aggregate_groups:
  assumes ready: "aggregate_ready base ec s" and rows: "rows \<in> set (agg_row_sets ec (si_num_rows base))"
  shows "group_ready base ec rows s"
proof -
  have ok: "ne_clause_ok base ec" "ec_lhs_is_aggregate ec" using ready by (simp_all add: aggregate_ready_def)
  have "r < si_num_rows base" if "r \<in> set rows" for r
    using agg_row_sets_lt [OF _ rows that] ok by (auto simp: ne_clause_ok_def)
  moreover have "near_exact (ne_bound ec rows r)" if "r \<in> set rows" for r
    using ok rows that by (simp add: ne_clause_ok_def)
  ultimately show ?thesis
    using ready ne_clause_int_terms by (auto simp: aggregate_ready_def group_ready_def)
qed

lemma aggregate_differs_decisions:
  assumes "aggregate_ready base ec s"
  shows "on_decisions (BuildIndexer base) (aggregate_differs base ec)"
  using group_differs_decisions [OF aggregate_groups [OF assms]]
  unfolding on_decisions_def aggregate_differs_def by blast

text \<open>The buckets the expansion walks are the row sets of the clause, up to empty ones.\<close>

lemma expansion_buckets:
  assumes ok: "ne_clause_ok base ec"
  defines "csr \<equiv> (if ec_row_group_ids ec \<noteq> [] then BuildGroupCSR (ec_row_group_ids ec) (ec_num_groups ec) ([], [])
                   else ([0, si_num_rows base], [0..<si_num_rows base]))"
    and "n \<equiv> (if ec_row_group_ids ec \<noteq> [] then ec_num_groups ec else 1)"
  shows "set (map (csr_bucket csr) [0..<n]) \<subseteq> insert [] (set (agg_row_sets ec (si_num_rows base)))"
    and "set (agg_row_sets ec (si_num_rows base)) \<subseteq> set (map (csr_bucket csr) [0..<n])"
proof -
  have bucket: "csr_bucket csr g = (if ec_row_group_ids ec \<noteq> [] then group_rows (ec_row_group_ids ec) g
      else [0..<si_num_rows base])" if "g < n" for g
  proof (cases "ec_row_group_ids ec = []")
    case True
    with that map_nth [of "[0..<si_num_rows base]"] show ?thesis by (simp add: csr_def n_def csr_bucket_def)
  next
    case False
    with that ok csr_bucket_eq show ?thesis by (simp add: csr_def n_def ne_clause_ok_def ec_shape_def)
  qed
  then have "map (csr_bucket csr) [0..<n] = (if ec_row_group_ids ec \<noteq> []
      then map (group_rows (ec_row_group_ids ec)) [0..<ec_num_groups ec] else [[0..<si_num_rows base]])"
    by (simp add: n_def)
  then show "set (map (csr_bucket csr) [0..<n]) \<subseteq> insert [] (set (agg_row_sets ec (si_num_rows base)))"
    "set (agg_row_sets ec (si_num_rows base)) \<subseteq> set (map (csr_bucket csr) [0..<n])"
    by (auto simp: agg_row_sets_def)
qed

lemma expand_ne_constraint_states:
  assumes wf: "well_formed (BuildIndexer base) (fst s)" and ready: "aggregate_ready base ec s"
    and step: "expand_ne_constraint (BuildIndexer base) ec s = Inr s'"
  shows "states (BuildIndexer base) (ne_point base) (aggregate_differs base ec) (fst s) (fst s') \<and> expansion_ok base s'"
proof -
  let ?ids = "ec_row_group_ids ec" and ?N = "si_num_rows base"
  define csr where "csr = (if ?ids \<noteq> [] then BuildGroupCSR ?ids (ec_num_groups ec) ([], []) else ([0, ?N], [0..<?N]))"
  define n where "n = (if ?ids \<noteq> [] then ec_num_groups ec else 1)"
  have ok: "ne_clause_ok base ec" and eok: "expansion_ok base s"
    using ready by (simp_all add: aggregate_ready_def)
  note buckets = expansion_buckets [OF ok, folded csr_def n_def]
  obtain label where run: "fold_res (expand_ne_group (BuildIndexer base) ec label csr) [0..<n] s = Inr s'"
    using step eok by (cases s) (auto simp: expand_ne_constraint_def Let_def csr_def n_def expansion_ok_def split: if_splits)
  have empty: "group_ready base ec [] s" using ready by (simp add: aggregate_ready_def group_ready_def)
  have all: "\<forall>g \<in> set [0..<n]. group_ready base ec (csr_bucket csr g) s"
  proof
    fix g
    assume "g \<in> set [0..<n]"
    then have "csr_bucket csr g \<in> set (map (csr_bucket csr) [0..<n])" by simp
    with buckets(1) have "csr_bucket csr g \<in> insert [] (set (agg_row_sets ec ?N))" by blast
    with empty aggregate_groups [OF ready] show "group_ready base ec (csr_bucket csr g) s" by auto
  qed
  have "states (BuildIndexer base) (ne_point base)
      (\<lambda>x. \<forall>g \<in> set [0..<n]. group_differs base ec (csr_bucket csr g) x) (fst s) (fst s')"
    by (rule ne_groups.emits_all [OF wf all run])
  moreover have "(\<forall>g \<in> set [0..<n]. group_differs base ec (csr_bucket csr g) x) \<longleftrightarrow> aggregate_differs base ec x" for x
  proof -
    have "(\<forall>g \<in> set [0..<n]. group_differs base ec (csr_bucket csr g) x) \<longleftrightarrow>
        (\<forall>rows \<in> set (map (csr_bucket csr) [0..<n]). group_differs base ec rows x)" by simp
    moreover have "group_differs base ec [] x" by (simp add: group_differs_def)
    ultimately show ?thesis using buckets by (auto simp: aggregate_differs_def)
  qed
  moreover have "expansion_ok base s'"
  proof (cases "n = 0")
    case True
    with run eok show ?thesis by simp
  next
    case False
    then have "group_ready base ec (csr_bucket csr 0) s" using all by simp
    from ne_groups.keeps_all [OF wf all this run] show ?thesis by (simp add: group_ready_def)
  qed
  ultimately show ?thesis by (auto elim: states_cong)
qed

interpretation ne_aggregates: row_emitter "expand_ne_constraint (BuildIndexer base)" fst "BuildIndexer base"
  "ne_point base" "aggregate_differs base" "aggregate_ready base" for base
proof
  fix ec ec' and s s' :: expansion
  assume ready: "aggregate_ready base ec s"
  then show "on_decisions (BuildIndexer base) (aggregate_differs base ec)" by (rule aggregate_differs_decisions)
  assume wf: "well_formed (BuildIndexer base) (fst s)"
  show "states (BuildIndexer base) (ne_point base) (aggregate_differs base ec) (fst s) (fst s')"
    if "expand_ne_constraint (BuildIndexer base) ec s = Inr s'"
    using expand_ne_constraint_states [OF wf ready that] by simp
  assume "aggregate_ready base ec' s" "expand_ne_constraint (BuildIndexer base) ec' s = Inr s'"
  from expand_ne_constraint_states [OF wf this] ready show "aggregate_ready base ec s'"
    by (simp add: aggregate_ready_def)
qed (rule ne_point_decisions)

lemma ExpandAggregate_states:
  assumes wf: "well_formed (BuildIndexer base) input"
    and same: "indexable base" "si_num_rows input = si_num_rows base"
      "si_rigid_lower_bounds input = si_rigid_lower_bounds base"
      "si_rigid_upper_bounds input = si_rigid_upper_bounds base"
    and clauses: "\<forall>ec \<in> set deferred. ne_clause_ok base ec \<and> ec_lhs_is_aggregate ec \<and>
      NELhsIsIntegerValued ec (si_variable_types base) = NE_INTEGER"
    and run: "ExpandAggregateNotEqual (BuildIndexer base) deferred input = Inr out"
  shows "states (BuildIndexer base) (ne_point base) (\<lambda>x. \<forall>ec \<in> set deferred. aggregate_differs base ec x) input out"
proof (cases "deferred = []")
  case True
  with run states_refl [OF wf] show ?thesis by (simp add: ExpandAggregateNotEqual_def)
next
  case False
  let ?span = "vi_global_block_start (BuildIndexer base)"
  define accum where "accum = (if ?span \<le> 2 ^ 20 then BeginDense ?span acc_default else BeginSparse acc_default)"
  have "acc_inv accum \<and> (\<forall>j. acc_contents accum j = 0) \<and> (\<forall>j < ?span. acc_valid accum j)"
    using BeginDense_ready [OF acc_default_ready] BeginSparse_ready [OF acc_default_ready]
    by (simp add: accum_def)
  then have "expansion_ok base (input, accum)" using same by (simp add: expansion_ok_def)
  then have ready: "\<forall>ec \<in> set deferred. aggregate_ready base ec (input, accum)"
    using clauses by (simp add: aggregate_ready_def)
  from run False obtain a where "fold_res (expand_ne_constraint (BuildIndexer base)) deferred (input, accum) = Inr (out, a)"
    unfolding ExpandAggregateNotEqual_def Let_def accum_def [symmetric] by (auto split: sum.splits)
  from ne_aggregates.emits_all [OF _ ready this] wf show ?thesis by simp
qed

section \<open>The whole pass\<close>

interpretation ne_clauses: row_emitter "linearize_ne_step (BuildIndexer base)" ns_input "BuildIndexer base"
  "ne_point base" "clause_differs base" "clause_ready base" for base
proof
  fix ec ec' s s'
  assume ready: "clause_ready base ec s"
  then show "on_decisions (BuildIndexer base) (clause_differs base ec)" by (rule clause_differs_decisions)
  assume wf: "well_formed (BuildIndexer base) (ns_input s)"
  show "states (BuildIndexer base) (ne_point base) (clause_differs base ec) (ns_input s) (ns_input s')"
    if "linearize_ne_step (BuildIndexer base) ec s = Inr s'"
    by (rule linearize_ne_step_states [OF wf ready that])
  assume "clause_ready base ec' s" "linearize_ne_step (BuildIndexer base) ec' s = Inr s'"
  from states_base [OF linearize_ne_step_states [OF wf this]] ready show "clause_ready base ec s'"
    by (simp add: clause_ready_def)
qed (rule ne_point_decisions)

abbreviation is_ne :: "EvaluatedConstraint \<Rightarrow> bool" where
  "is_ne ec \<equiv> ec_ne_clause_idx ec \<noteq> None"

lemma emit_rows_base: "base_of (EmitNotEqualRows vi ec collapse label input) = base_of input"
proof -
  have app: "base_of (input'\<lparr>si_global_constraints := gs\<rparr>) = base_of input'"
    "base_of (input'\<lparr>si_indicator_constraints := ics\<rparr>) = base_of input'" for input' gs ics
    by (simp_all add: base_of_def)
  have "base_of (emit_ne_row vi ec collapse label r input') = base_of input'" for r input'
  proof -
    obtain mid z where add: "AddGlobalBinaryAux vi 0 label input' = (mid, z)" by force
    show ?thesis
      using add_binary_facts(1) [OF add] by (simp add: emit_ne_row_def add Let_def app)
  qed
  then have "base_of (fold (emit_ne_row vi ec collapse label) rs input') = base_of input'" for rs input'
    by (induction rs arbitrary: input') simp_all
  then show ?thesis by (simp add: EmitNotEqualRows_def)
qed

lemma ne_loop_lists:
  assumes "fold_res (linearize_ne_step vi) ecs s = Inr s'"
  shows "ns_new_constraints s' = ns_new_constraints s @ filter (\<lambda>ec. \<not> is_ne ec) ecs \<and>
    ns_deferred_aggregate s' = ns_deferred_aggregate s @ filter (\<lambda>ec. is_ne ec \<and> ec_lhs_is_aggregate ec) ecs \<and>
    base_of (ns_input s') = base_of (ns_input s) \<and>
    (\<forall>ec \<in> set ecs. is_ne ec \<longrightarrow> NELhsIsIntegerValued ec (si_variable_types (ns_input s)) = NE_INTEGER)"
  using assms
proof (induction ecs arbitrary: s)
  case (Cons ec ecs)
  from Cons.prems obtain t where t: "linearize_ne_step vi ec s = Inr t" "fold_res (linearize_ne_step vi) ecs t = Inr s'"
    by (auto split: sum.splits)
  have one: "ns_new_constraints t = ns_new_constraints s @ (if is_ne ec then [] else [ec])"
      "ns_deferred_aggregate t = ns_deferred_aggregate s @ (if is_ne ec \<and> ec_lhs_is_aggregate ec then [ec] else [])"
      "base_of (ns_input t) = base_of (ns_input s)"
      "is_ne ec \<longrightarrow> NELhsIsIntegerValued ec (si_variable_types (ns_input s)) = NE_INTEGER"
    using t(1)
    by (auto simp: linearize_ne_step_def Let_def emit_rows_base split: if_splits option.splits)
  have types: "si_variable_types (ns_input t) = si_variable_types (ns_input s)" by (rule base_of_eqD(3) [OF one(3)])
  from Cons.IH [OF t(2)] one show ?case unfolding types by simp
qed simp

text \<open>What the clauses of an input ask of its decision variables.\<close>

definition all_differ :: "SolverInput \<Rightarrow> (idx \<Rightarrow> real) \<Rightarrow> bool" where
  "all_differ input x \<longleftrightarrow> (\<forall>ec \<in> set (si_constraints input). is_ne ec \<longrightarrow>
     (if ec_lhs_is_aggregate ec then aggregate_differs input ec x
      else \<forall>r < si_num_rows input. row_differs input ec r x))"

lemma LinearizeNotEqual_parts:
  assumes "LinearizeNotEqual vi input = Inr out"
  obtains s where
    "fold_res (linearize_ne_step vi) (si_constraints input)
       \<lparr>ns_input = input, ns_new_constraints = [], ns_deferred_aggregate = []\<rparr> = Inr s"
    "ExpandAggregateNotEqual vi (filter (\<lambda>ec. is_ne ec \<and> ec_lhs_is_aggregate ec) (si_constraints input))
       ((ns_input s)\<lparr>si_constraints := filter (\<lambda>ec. \<not> is_ne ec) (si_constraints input)\<rparr>) = Inr out"
    "base_of (ns_input s) = base_of input"
    "\<forall>ec \<in> set (si_constraints input). is_ne ec \<longrightarrow> NELhsIsIntegerValued ec (si_variable_types input) = NE_INTEGER"
proof -
  from assms obtain s where run: "fold_res (linearize_ne_step vi) (si_constraints input)
       \<lparr>ns_input = input, ns_new_constraints = [], ns_deferred_aggregate = []\<rparr> = Inr s"
    and out: "ExpandAggregateNotEqual vi (ns_deferred_aggregate s)
                   ((ns_input s)\<lparr>si_constraints := ns_new_constraints s\<rparr>) = Inr out"
    by (auto simp: LinearizeNotEqual_def split: sum.splits)
  from ne_loop_lists [OF run] run out show ?thesis by (intro that [of s]) simp_all
qed

lemma rows_hold_constraints [simp]: "rows_hold (input\<lparr>si_constraints := cs\<rparr>) x = rows_hold input x"
  by (simp add: rows_hold_def flat_rows_hold_def)

lemma well_formed_constraints [simp]: "well_formed vi (input\<lparr>si_constraints := cs\<rparr>) = well_formed vi input"
  by (simp add: well_formed_def globals_ok_def input_columns_def columns_end_def Let_def)

text \<open>Replacing the evaluated constraints is not seen by what the flat rows state.\<close>

lemma states_constraints_left:
  assumes "states vi A P (input\<lparr>si_constraints := cs\<rparr>) out"
  shows "states vi A P input (out\<lparr>si_constraints := si_constraints input\<rparr>)"
proof -
  have "base_of (out\<lparr>si_constraints := si_constraints input\<rparr>) = base_of input"
  proof -
    have move: "base_of (i\<lparr>si_constraints := c\<rparr>) = (base_of i)\<lparr>si_constraints := c\<rparr>" for i c
      by (cases i) (simp add: base_of_def)
    have "(base_of out)\<lparr>si_constraints := si_constraints input\<rparr> =
        (base_of (input\<lparr>si_constraints := cs\<rparr>))\<lparr>si_constraints := si_constraints input\<rparr>"
      using states_base [OF assms] by simp
    then show ?thesis by (simp add: move)
  qed
  moreover have "admits_new vi input (out\<lparr>si_constraints := si_constraints input\<rparr>) x =
      admits_new vi (input\<lparr>si_constraints := cs\<rparr>) out x" for x
    by (simp add: admits_new_def column_admits_def)
  moreover have "keeps_columns input (out\<lparr>si_constraints := si_constraints input\<rparr>) =
      keeps_columns (input\<lparr>si_constraints := cs\<rparr>) out"
    by (simp add: keeps_columns_def label_of_def)
  ultimately show ?thesis
    using assms by (simp add: states_def columns_end_def)
qed

lemma LinearizeNotEqual_states:
  assumes run: "LinearizeNotEqual (BuildIndexer input) input = Inr out"
    and wf: "well_formed (BuildIndexer input) input" and idx: "indexable input"
    and ok: "\<forall>ec \<in> set (si_constraints input). is_ne ec \<longrightarrow> ne_clause_ok input ec"
  shows "states (BuildIndexer input) (ne_point input) (all_differ input) input
    (out\<lparr>si_constraints := si_constraints input\<rparr>)"
proof -
  let ?vi = "BuildIndexer input" and ?ecs = "si_constraints input"
  let ?deferred = "filter (\<lambda>ec. is_ne ec \<and> ec_lhs_is_aggregate ec) ?ecs"
  obtain s where s: "fold_res (linearize_ne_step ?vi) ?ecs
       \<lparr>ns_input = input, ns_new_constraints = [], ns_deferred_aggregate = []\<rparr> = Inr s"
    and agg: "ExpandAggregateNotEqual ?vi ?deferred
       ((ns_input s)\<lparr>si_constraints := filter (\<lambda>ec. \<not> is_ne ec) ?ecs\<rparr>) = Inr out"
    and base: "base_of (ns_input s) = base_of input"
    and ints: "\<forall>ec \<in> set ?ecs. is_ne ec \<longrightarrow> NELhsIsIntegerValued ec (si_variable_types input) = NE_INTEGER"
    by (rule LinearizeNotEqual_parts [OF run])
  have one: "states ?vi (ne_point input) (\<lambda>x. \<forall>ec \<in> set ?ecs. clause_differs input ec x) input (ns_input s)"
    using ne_clauses.emits_all [OF _ _ s] wf idx ok by (simp add: clause_ready_def)
  then have mid: "well_formed ?vi (ns_input s)" by (simp add: states_def)
  have two: "states ?vi (ne_point input) (\<lambda>x. \<forall>ec \<in> set ?deferred. aggregate_differs input ec x)
      (ns_input s) (out\<lparr>si_constraints := si_constraints (ns_input s)\<rparr>)"
  proof (rule states_constraints_left, rule ExpandAggregate_states [OF _ _ _ _ _ _ agg])
    show "\<forall>ec \<in> set ?deferred. ne_clause_ok input ec \<and> ec_lhs_is_aggregate ec \<and>
        NELhsIsIntegerValued ec (si_variable_types input) = NE_INTEGER"
      using ok ints by auto
  qed (use mid idx base_of_eqD [OF base] in simp_all)
  have dec: "on_decisions ?vi (\<lambda>x. \<forall>ec \<in> set ?deferred. aggregate_differs input ec x)"
  proof -
    have "on_decisions ?vi (aggregate_differs input ec)" if "ec \<in> set ?deferred" for ec
    proof (rule aggregate_differs_decisions)
      show "aggregate_ready input ec (input, BeginSparse acc_default)"
        using that ok ints idx BeginSparse_ready [OF acc_default_ready]
        by (simp add: aggregate_ready_def expansion_ok_def)
    qed
    then show ?thesis unfolding on_decisions_def by blast
  qed
  have "states ?vi (ne_point input) (\<lambda>x. (\<forall>ec \<in> set ?ecs. clause_differs input ec x) \<and>
      (\<forall>ec \<in> set ?deferred. aggregate_differs input ec x)) input (out\<lparr>si_constraints := si_constraints (ns_input s)\<rparr>)"
    by (rule states_trans [OF one two ne_point_decisions dec])
  then show ?thesis
    using base_of_eqD(8) [OF base] by (auto simp: all_differ_def clause_differs_def elim!: states_cong)
qed

text \<open>The pass answers unless a guard refuses.\<close>

definition fixed_owned :: "EvaluatedConstraint \<Rightarrow> bool" where
  "fixed_owned ec \<longleftrightarrow> (\<forall>t < length (ec_variable_indices ec). ec_variable_indices ec ! t = None \<longrightarrow>
     t < length (ec_linear_term_reductions ec) \<and> ec_linear_term_reductions ec ! t = RED_SUM)"

lemma SumFixed_total:
  assumes "fixed_owned ec"
  shows "\<exists>b. SumFixedAggregateLhsOffset ec rows context = Inr b"
proof -
  have "\<exists>b. fixed_offset_term ec rows context t a = Inr b \<and> True"
    if "t \<in> set [0..<length (ec_variable_indices ec)]" for t a
    using that assms by (auto simp: fixed_offset_term_def fixed_owned_def)
  with fold_res_total_ball [of "[0..<length (ec_variable_indices ec)]" "\<lambda>_. True" "fixed_offset_term ec rows context" 0]
  show ?thesis unfolding SumFixedAggregateLhsOffset_def by blast
qed

lemma ExpandAggregate_total:
  assumes "\<forall>ec \<in> set deferred. fixed_owned ec"
  shows "\<exists>out. ExpandAggregateNotEqual vi deferred input = Inr out"
proof -
  have group: "\<exists>t. expand_ne_group vi ec label csr g s = Inr t \<and> True" if "fixed_owned ec" for ec label csr g s
    using SumFixed_total [OF that, of "csr_bucket csr g" "''fixed aggregate <> term''"]
    by (cases s) (auto simp: expand_ne_group_def Let_def split: prod.splits)
  have "\<exists>t. expand_ne_constraint vi ec s = Inr t \<and> True" if "ec \<in> set deferred" for ec s
    unfolding expand_ne_constraint_def
    using fold_res_total_ball [of _ "\<lambda>_. True" "expand_ne_group vi ec _ _"] group assms that
    by (cases s) (simp add: Let_def case_prod_unfold)
  then have "\<exists>t. fold_res (expand_ne_constraint vi) deferred s = Inr t" for s
    using fold_res_total_ball [of deferred "\<lambda>_. True" "expand_ne_constraint vi" s] by blast
  then show ?thesis unfolding ExpandAggregateNotEqual_def Let_def by (metis (lifting) old.sum.simps(6) prod.exhaust case_prod_conv)
qed

lemma LinearizeNotEqual_total:
  assumes "\<forall>ec \<in> set (si_constraints input). is_ne ec \<longrightarrow>
      NELhsIsIntegerValued ec (si_variable_types input) = NE_INTEGER \<and> (ec_lhs_is_aggregate ec \<longrightarrow> fixed_owned ec)"
  shows "\<exists>out. LinearizeNotEqual vi input = Inr out"
proof -
  let ?start = "\<lparr>ns_input = input, ns_new_constraints = [], ns_deferred_aggregate = []\<rparr>"
  let ?P = "\<lambda>s. base_of (ns_input s) = base_of input \<and> (\<forall>ec \<in> set (ns_deferred_aggregate s). fixed_owned ec)"
  have "\<exists>t. linearize_ne_step vi ec s = Inr t \<and> ?P t" if "ec \<in> set (si_constraints input)" "?P s" for ec s
  proof -
    have "si_variable_types (ns_input s) = si_variable_types input" using that(2) base_of_eqD(3) by blast
    with that assms show ?thesis
      by (auto simp: linearize_ne_step_def Let_def emit_rows_base split: option.splits)
  qed
  with fold_res_total_ball [of "si_constraints input" ?P "linearize_ne_step vi" ?start]
  obtain s where "fold_res (linearize_ne_step vi) (si_constraints input) ?start = Inr s"
    "\<forall>ec \<in> set (ns_deferred_aggregate s). fixed_owned ec" by auto
  with ExpandAggregate_total show ?thesis by (simp add: LinearizeNotEqual_def)
qed

section \<open>Properties\<close>

text \<open>
  C9. The \<open><>\<close> pass is exact: at a point that is integral and in the rigid box, the fresh binaries can
  be given 0/1 values that meet every row of the rewritten input exactly when the rows given held
  and every \<open><>\<close> clause differs from its bound, per active row or per group and excluded value.
\<close>

theorem not_equal_exact:
  assumes "LinearizeNotEqual (BuildIndexer input) input = Inr out"
    and "well_formed (BuildIndexer input) input" "indexable input"
    and "\<forall>ec \<in> set (si_constraints input). is_ne ec \<longrightarrow> ne_clause_ok input ec"
    and "ne_point input x"
  shows "(\<exists>x'. agree_below (columns_end (BuildIndexer input) input) x x' \<and>
            admits_new (BuildIndexer input) input out x' \<and> rows_hold out x') \<longleftrightarrow>
         rows_hold input x \<and> all_differ input x"
proof -
  have "admits_new vi input (out\<lparr>si_constraints := cs\<rparr>) x' = admits_new vi input out x'" for vi cs x'
    by (simp add: admits_new_def column_admits_def)
  with LinearizeNotEqual_states [OF assms(1-4)] assms(5) show ?thesis by (simp add: states_def)
qed

text \<open>
  The verdicts of the range collapse are right: on an integral point of the rigid box, a row
  declared always true differs from its bound, and a row declared one-sided differs from it exactly
  when the surviving inequality holds.
\<close>

theorem not_equal_collapse:
  assumes "int_terms input ec r" "ne_point input x" "r < si_num_rows input" "row_active ec r"
    and "cc_get (ec_rhs_values ec) r = Fin (of_int k)"
    and "verdict = ClassifyNERow ec r (si_rigid_lower_bounds input) (si_rigid_upper_bounds input)"
  shows "(verdict = ALWAYS_TRUE \<longrightarrow> row_differs input ec r x) \<and>
         (verdict = UPPER_ONLY \<longrightarrow>
            (row_differs input ec r x \<longleftrightarrow> row_lhs ec (at_flat input x) r \<ge> Fin (of_int (k + 1)))) \<and>
         (verdict = LOWER_ONLY \<longrightarrow>
            (row_differs input ec r x \<longleftrightarrow> row_lhs ec (at_flat input x) r \<le> Fin (of_int (k - 1))))"
proof -
  obtain f where f: "fixed_part (ec_terms ec) r = of_int f"
    using fixed_part_int [OF assms(1)] by (auto elim: Ints_cases)
  obtain v where v: "var_part (ec_terms ec) r (at_flat input x) None = of_int v"
    using var_part_int [OF assms(1-3)] by (auto elim: Ints_cases)
  have lhs: "row_lhs ec (at_flat input x) r = Fin (of_int (v + f))"
    by (simp add: row_lhs_parts [OF int_terms_crisp [OF assms(1)]] f v)
  from ClassifyNERow_sound [OF assms(1-3,5) f v] show ?thesis
    unfolding assms(6) [symmetric] row_differs_def lhs assms(5) using assms(4)
    by (auto simp del: of_int_add of_int_diff)
qed

text \<open>
  The pass removes the \<open><>\<close> clauses and nothing else: the constraints left are the others, in
  order, and every other field of the input outside the global block is unchanged.
\<close>

theorem not_equal_keeps_others:
  assumes "LinearizeNotEqual (BuildIndexer input) input = Inr out"
    and "well_formed (BuildIndexer input) input" "indexable input"
    and "\<forall>ec \<in> set (si_constraints input). is_ne ec \<longrightarrow> ne_clause_ok input ec"
  shows "si_constraints out = filter (\<lambda>ec. \<not> is_ne ec) (si_constraints input) \<and>
         base_of (out\<lparr>si_constraints := si_constraints input\<rparr>) = base_of input"
proof -
  have "si_constraints out = filter (\<lambda>ec. \<not> is_ne ec) (si_constraints input)"
  proof (rule LinearizeNotEqual_parts [OF assms(1)])
    fix s
    assume agg: "ExpandAggregateNotEqual (BuildIndexer input)
        (filter (\<lambda>ec. is_ne ec \<and> ec_lhs_is_aggregate ec) (si_constraints input))
        ((ns_input s)\<lparr>si_constraints := filter (\<lambda>ec. \<not> is_ne ec) (si_constraints input)\<rparr>) = Inr out"
      and s: "fold_res (linearize_ne_step (BuildIndexer input)) (si_constraints input)
        \<lparr>ns_input = input, ns_new_constraints = [], ns_deferred_aggregate = []\<rparr> = Inr s"
      and base: "base_of (ns_input s) = base_of input"
      and ints: "\<forall>ec \<in> set (si_constraints input). is_ne ec \<longrightarrow>
        NELhsIsIntegerValued ec (si_variable_types input) = NE_INTEGER"
    have "well_formed (BuildIndexer input) (ns_input s)"
      using ne_clauses.emits_all [OF _ _ s] assms(2-4) by (simp add: clause_ready_def states_def)
    then have "base_of out = base_of ((ns_input s)\<lparr>si_constraints := filter (\<lambda>ec. \<not> is_ne ec) (si_constraints input)\<rparr>)"
      using ints assms(4) base_of_eqD [OF base]
      by (intro states_base [OF ExpandAggregate_states [OF _ assms(3) _ _ _ _ agg]]) simp_all
    from base_of_eqD(8) [OF this] show ?thesis by simp
  qed
  with states_base [OF LinearizeNotEqual_states [OF assms]] show ?thesis by simp
qed

text \<open>
  The pass refuses only what its guards name: it answers on every input whose \<open><>\<close> clauses are
  integer-valued and whose aggregate ones have every decision-free term inside a SUM.
\<close>

theorem not_equal_answers:
  assumes "\<forall>ec \<in> set (si_constraints input). is_ne ec \<longrightarrow>
      NELhsIsIntegerValued ec (si_variable_types input) = NE_INTEGER \<and> (ec_lhs_is_aggregate ec \<longrightarrow> fixed_owned ec)"
  shows "\<exists>out. LinearizeNotEqual (BuildIndexer input) input = Inr out"
  by (rule LinearizeNotEqual_total [OF assms])

text \<open>Two rows of one integer variable in \<open>[0, 10]\<close>: \<open>x <> 3\<close> on every row, \<open>SUM(x) <> 5\<close>.\<close>

definition demo_ne_clause :: "bool \<Rightarrow> real \<Rightarrow> EvaluatedConstraint" where
  "demo_ne_clause aggregate k = ec_default\<lparr>ec_variable_indices := [Some 0],
     ec_row_coefficients := [MakeScalar (Fin 1) 2], ec_linear_term_reductions := [RED_SUM],
     ec_rhs_values := MakeScalar (Fin k) 2, ec_comparison_type := COMPARE_NOTEQUAL,
     ec_lhs_is_aggregate := aggregate, ec_ne_clause_idx := Some 0\<rparr>"

definition demo_ne :: SolverInput where
  "demo_ne = si_default\<lparr>si_num_rows := 2, si_num_decide_vars := 1, si_variable_types := [INTEGER],
     si_rigid_lower_bounds := [Fin 0], si_rigid_upper_bounds := [Fin 10],
     si_constraints := [demo_ne_clause False 3, demo_ne_clause True 5]\<rparr>"

definition demo_ne_point :: "idx \<Rightarrow> real" where
  "demo_ne_point c = (if c = 0 then 7 else 2)"

lemma near_exact_of_int: "near_exact (Fin (of_int j))"
proof -
  have "j = k" if "\<bar>real_of_int j - real_of_int k\<bar> < 1 / 10 ^ 9" for k :: int
  proof -
    have "\<bar>real_of_int (j - k)\<bar> < 1" using that by simp
    then show ?thesis by linarith
  qed
  then show ?thesis by (auto simp: near_exact_def)
qed

lemmas near_exact_numeral = near_exact_of_int [of "numeral _", simplified]

lemma demo_ne_simps:
  "si_num_rows demo_ne = 2" "si_num_decide_vars demo_ne = 1" "si_variable_types demo_ne = [INTEGER]"
  "si_rigid_lower_bounds demo_ne = [Fin 0]" "si_rigid_upper_bounds demo_ne = [Fin 10]"
  "si_constraints demo_ne = [demo_ne_clause False 3, demo_ne_clause True 5]"
  "si_variable_scopes demo_ne = []" "si_entity_mappings demo_ne = []"
  "si_num_global_vars demo_ne = 0"
  by (simp_all add: demo_ne_def si_default_def)

lemma demo_ne_terms: "ec_terms (demo_ne_clause b k) = [(Some 0, MakeScalar (Fin 1) 2)]"
  by (simp add: ec_terms_def demo_ne_clause_def)

lemma demo_ne_scope: "scope_of demo_ne v = ROW"
  by (simp add: scope_of_def demo_ne_simps)

lemma demo_ne_indexable: "indexable demo_ne"
  by (simp add: indexable_def demo_ne_scope demo_ne_simps)

lemma demo_ne_get: "r < 2 \<Longrightarrow> Get (BuildIndexer demo_ne) 0 r = r"
  by (simp add: Get_instance_of InstanceColumn_cases demo_ne_scope demo_ne_simps instance_of_def
      row_vars_def vars_of_def)

lemma demo_ne_well_formed: "well_formed (BuildIndexer demo_ne) demo_ne"
  by (simp add: well_formed_def globals_ok_def input_columns_def demo_ne_def si_default_def)

lemma demo_ne_ok: "\<forall>ec \<in> set (si_constraints demo_ne). is_ne ec \<longrightarrow> ne_clause_ok demo_ne ec"
proof -
  have "ne_clause_ok demo_ne (demo_ne_clause b (numeral k))" for b k
    unfolding ne_clause_ok_def demo_ne_terms
    by (auto simp: ec_shape_def demo_ne_simps demo_ne_clause_def ec_default_def near_exact_numeral
        counted_once_def demo_ne_scope ne_bound_def scaled_bound_def)
  then show ?thesis by (simp add: demo_ne_simps)
qed

lemma demo_ne_at: "ne_point demo_ne demo_ne_point"
proof -
  have "at_flat demo_ne demo_ne_point 0 r = (if r = 0 then 7 else 2)" if "r < 2" for r
    using demo_ne_get [OF that] by (simp add: at_flat_def demo_ne_point_def)
  then show ?thesis
    by (auto simp: ne_point_def demo_ne_indexable demo_ne_simps boxed_def IsRealType_def)
qed

lemma demo_ne_run: "\<exists>out. LinearizeNotEqual (BuildIndexer demo_ne) demo_ne = Inr out"
proof -
  have "NELhsIsIntegerValued (demo_ne_clause b k) (si_variable_types demo_ne) = NE_INTEGER" for b k
    by (simp add: NELhsIsIntegerValued_def IsRealType_def demo_ne_terms demo_ne_simps AllIntegral_def MakeScalar_def cc_default_def)
  moreover have "fixed_owned (demo_ne_clause b k)" for b k
    by (simp add: fixed_owned_def demo_ne_clause_def)
  ultimately show ?thesis by (intro LinearizeNotEqual_total) (simp add: demo_ne_simps)
qed

lemma demo_ne_differ: "all_differ demo_ne demo_ne_point"
proof -
  have at: "at_flat demo_ne demo_ne_point 0 r = (if r = 0 then 7 else 2)" if "r < 2" for r
    using demo_ne_get [OF that] by (simp add: at_flat_def demo_ne_point_def)
  have "row_differs demo_ne (demo_ne_clause False 3) r demo_ne_point" if "r < 2" for r
    using at [OF that]
    by (simp add: row_differs_def row_lhs_def term_val_def demo_ne_clause_def ec_default_def zero_dbl_def)
  moreover have "agg_lhs demo_ne (demo_ne_clause True 5) (at_flat demo_ne demo_ne_point) [0..<2] = Fin 9"
    using at [of 0] at [of 1]
    by (simp add: agg_lhs_def agg_term_def demo_ne_clause_def ec_default_def counted_once_def demo_ne_scope
        upt_conv_Cons zero_dbl_def)
  then have "aggregate_differs demo_ne (demo_ne_clause True 5) demo_ne_point"
    by (simp add: aggregate_differs_def group_differs_def agg_row_sets_def demo_ne_simps ne_bound_def
        scaled_bound_def) (simp add: demo_ne_clause_def ec_default_def)
  ultimately show ?thesis
    by (simp add: all_differ_def demo_ne_simps) (simp add: demo_ne_clause_def)
qed

lemma not_equal_exact_witness:
  "\<exists>out x'. LinearizeNotEqual (BuildIndexer demo_ne) demo_ne = Inr out \<and> rows_hold out x'"
proof -
  obtain out where run: "LinearizeNotEqual (BuildIndexer demo_ne) demo_ne = Inr out" using demo_ne_run by blast
  have "rows_hold demo_ne demo_ne_point"
    by (simp add: rows_hold_def flat_rows_hold_def demo_ne_def si_default_def)
  with not_equal_exact [OF run demo_ne_well_formed demo_ne_indexable demo_ne_ok demo_ne_at] demo_ne_differ run
  show ?thesis by blast
qed

lemma not_equal_collapse_witness:
  "row_differs demo_ne (demo_ne_clause False 0) 1 demo_ne_point \<longleftrightarrow>
     row_lhs (demo_ne_clause False 0) (at_flat demo_ne demo_ne_point) 1 \<ge> Fin (of_int (0 + 1))"
proof -
  have "ClassifyNERow (demo_ne_clause False 0) 1 (si_rigid_lower_bounds demo_ne) (si_rigid_upper_bounds demo_ne) = UPPER_ONLY"
    by (simp add: ClassifyNERow_def DecideRowSignedRange_def DecideRowEffectiveBound_def DecideRowFixedLhsOffset_def
        demo_ne_terms signed_range_step_def Let_def demo_ne_simps negligible_def unbounded_above_def
        unbounded_below_def collapse_of_def dbl_arith)
       (simp add: demo_ne_clause_def IsUniform_def UniformValue_def ec_default_def MakeScalar_def)
  moreover have "int_terms demo_ne (demo_ne_clause False 0) 1"
    using int_val_Fin [of 1] by (simp add: int_terms_def demo_ne_terms demo_ne_simps IsRealType_def)
  moreover have "row_active (demo_ne_clause False 0) 1" "cc_get (ec_rhs_values (demo_ne_clause False 0)) 1 = Fin (of_int 0)"
    by (simp_all add: row_active_def demo_ne_clause_def ec_default_def)
  ultimately show ?thesis
    using not_equal_collapse [OF _ demo_ne_at, of "demo_ne_clause False 0" 1 0 UPPER_ONLY] by (simp add: demo_ne_simps)
qed

lemma not_equal_keeps_others_witness:
  "\<exists>out. LinearizeNotEqual (BuildIndexer demo_ne) demo_ne = Inr out \<and> si_constraints out = []"
proof -
  obtain out where run: "LinearizeNotEqual (BuildIndexer demo_ne) demo_ne = Inr out" using demo_ne_run by blast
  from not_equal_keeps_others [OF run demo_ne_well_formed demo_ne_indexable demo_ne_ok] run show ?thesis
    by (simp add: demo_ne_simps demo_ne_clause_def)
qed

lemma not_equal_answers_witness: "\<exists>out. LinearizeNotEqual (BuildIndexer si_default) si_default = Inr out"
  by (rule not_equal_answers) (simp add: si_default_def)

text \<open>
  The row an aggregate clause is stated over: each column once, and its value is the sum over the
  group's rows of every term, so a query-wide term counts once per row of the group even where it
  stands beside the reducer.
\<close>

theorem not_equal_group_row:
  assumes "indexable input" "vars_in ec (si_num_decide_vars input)"
    and "\<forall>r \<in> set rows. r < si_num_rows input \<and> terms_crisp (ec_terms ec) r"
    and "acc_inv acc" "\<And>j. acc_contents acc j = 0"
    and "\<forall>j < vi_global_block_start (BuildIndexer input). acc_valid acc j"
    and "Flush (add_group_coeffs (BuildIndexer input) ec rows acc) [] [] = (acc', is, cs)"
  shows "distinct is \<and> lin_val is cs x = Fin (\<Sum>r\<leftarrow>rows. \<Sum>(var, col)\<leftarrow>ec_terms ec.
           case var of None \<Rightarrow> 0 | Some v \<Rightarrow> rval (cc_get col r) * x (Get (BuildIndexer input) v r))"
proof -
  have "\<forall>(i, c) \<in> set (group_row (BuildIndexer input) ec rows). acc_valid acc i \<and> isfinite c"
    using group_row_lt [OF assms(1-3)] assms(6) by blast
  note row = flush_row [OF assms(4,5) this assms(7) [unfolded add_group_coeffs_row], of x]
  have "part_of r (at_flat input x) None = (\<lambda>(var, col). case var of None \<Rightarrow> 0
      | Some v \<Rightarrow> rval (cc_get col r) * x (Get (BuildIndexer input) v r))" for r
    by (auto simp: fun_eq_iff part_of_def at_flat_def split: option.splits)
  then have "group_var ec rows (at_flat input x) = (\<Sum>r\<leftarrow>rows. \<Sum>(var, col)\<leftarrow>ec_terms ec.
      case var of None \<Rightarrow> 0 | Some v \<Rightarrow> rval (cc_get col r) * x (Get (BuildIndexer input) v r))"
    by (simp add: group_var_def var_part_def)
  with row group_row_val [of rows ec x input] assms(3) show ?thesis by simp
qed

text \<open>
  A query-wide term beside the reducer: for \<open>SUM(x) + s <> 8\<close> over two rows the total counts \<open>s\<close> once,
  but the row gathered for the group counts it once per row.
\<close>

definition demo_ne_scalar :: SolverInput where
  "demo_ne_scalar = si_default\<lparr>si_num_rows := 2, si_num_decide_vars := 2, si_variable_types := [INTEGER, INTEGER],
     si_variable_scopes := [\<lparr>vs_scope = ROW, vs_entity_scope_idx = None\<rparr>,
                            \<lparr>vs_scope = SCALAR, vs_entity_scope_idx = None\<rparr>]\<rparr>"

definition demo_ne_scalar_clause :: EvaluatedConstraint where
  "demo_ne_scalar_clause = ec_default\<lparr>ec_variable_indices := [Some 0, Some 1],
     ec_row_coefficients := [MakeScalar (Fin 1) 2, MakeScalar (Fin 1) 2],
     ec_linear_term_reductions := [RED_SUM, RED_NONE], ec_rhs_values := MakeScalar (Fin 8) 2,
     ec_comparison_type := COMPARE_NOTEQUAL, ec_lhs_is_aggregate := True, ec_ne_clause_idx := Some 0\<rparr>"

lemma not_equal_group_row_witness:
  "\<exists>x a is cs. Flush (add_group_coeffs (BuildIndexer demo_ne_scalar) demo_ne_scalar_clause [0, 1]
       (BeginSparse acc_default)) [] [] = (a, is, cs) \<and>
     lin_val is cs x = Fin 14 \<and>
     agg_lhs demo_ne_scalar demo_ne_scalar_clause (at_flat demo_ne_scalar x) [0, 1] = Fin 8"
proof -
  define vi where "vi = BuildIndexer demo_ne_scalar"
  define x where "x = (\<lambda>c :: nat. if c = 2 then 6 else 1 :: real)"
  have scope: "scope_of demo_ne_scalar 0 = ROW" "scope_of demo_ne_scalar (Suc 0) = SCALAR"
    by (simp_all add: scope_of_def demo_ne_scalar_def)
  have n: "si_num_decide_vars demo_ne_scalar = 2" "si_num_rows demo_ne_scalar = 2" by (simp_all add: demo_ne_scalar_def)
  have vars: "vars_of demo_ne_scalar ROW 2 = [0]" "vars_of demo_ne_scalar ROW 0 = []"
    "vars_of demo_ne_scalar SCALAR (Suc 0) = []"
    by (simp_all add: vars_of_def upt_conv_Cons scope numeral_2_eq_2)
  have get: "Get vi 0 0 = 0" "Get vi 0 (Suc 0) = Suc 0" "Get vi (Suc 0) r = 2" for r
    unfolding vi_def
    by (simp_all add: Get_instance_of n InstanceColumn_cases scope instance_of_def row_vars_def vars
        scalar_start_def entity_start_def entity_total_def numeral_2_eq_2)
  have lhs: "agg_lhs demo_ne_scalar demo_ne_scalar_clause (at_flat demo_ne_scalar x) [0, 1] = Fin 8"
    using get unfolding vi_def
    by (simp add: agg_lhs_def agg_term_def demo_ne_scalar_clause_def counted_once_def scope at_flat_def x_def
        upt_conv_Cons numeral_2_eq_2 zero_dbl_def)
  obtain a "is" cs where flush:
    "Flush (add_group_coeffs vi demo_ne_scalar_clause [0, 1] (BeginSparse acc_default)) [] [] = (a, is, cs)"
    by (metis prod_cases3)
  have idx: "indexable demo_ne_scalar"
    by (simp add: indexable_def n less_2_cases_iff scope) (simp add: demo_ne_scalar_def si_default_def)
  have clause: "vars_in demo_ne_scalar_clause (si_num_decide_vars demo_ne_scalar)"
    "\<forall>r \<in> set [0, 1]. r < si_num_rows demo_ne_scalar \<and> terms_crisp (ec_terms demo_ne_scalar_clause) r"
    by (auto simp: vars_in_def n demo_ne_scalar_clause_def terms_crisp_def ec_terms_def crisp_def negligible_def)
  have "lin_val is cs x = Fin 14"
    using not_equal_group_row [OF idx clause BeginSparse_ready(1,2) [OF acc_default_ready] _
        flush [unfolded vi_def], of x] BeginSparse_ready(3) [OF acc_default_ready]
      get [unfolded vi_def]
    by (simp add: ec_terms_def demo_ne_scalar_clause_def x_def)
  with lhs flush show ?thesis unfolding vi_def by blast
qed

end
