(* ===== verification/CoeffMaps.thy ===== *)
theory CoeffMaps
  imports CoeffAccumulator
begin

text \<open>
  The model builder's other way of gathering coefficients: \<open>unordered_map<K, double>\<close> entries
  incremented by \<open>m[key] += c\<close>, then read out with the zero totals dropped, and plain vectors
  incremented in place. A map is its list of entries in the order of first insertion; the iteration
  order of \<open>std::unordered_map\<close> is unspecified, and no statement here depends on it.

  The map is a second instance of \<open>coeff_accumulator\<close>. Quadratic entries are keyed by
  \<open>pack_q_key\<close>, one 64-bit word holding the two columns.
\<close>

section \<open>Maps\<close>

type_synonym coeff_map = "(nat \<times> dbl) list"

primrec hm_add :: "nat \<Rightarrow> dbl \<Rightarrow> coeff_map \<Rightarrow> coeff_map" where
  "hm_add i c [] = [(i, 0 + c)]"
| "hm_add i c (e # m) = (if fst e = i then (i, snd e + c) # m else e # hm_add i c m)"

definition hm_nonzero :: "coeff_map \<Rightarrow> coeff_map" where
  "hm_nonzero m = filter (\<lambda>(i, c). c \<noteq> 0) m"

definition hm_contents :: "coeff_map \<Rightarrow> nat \<Rightarrow> dbl" where
  "hm_contents m i = (case map_of m i of None \<Rightarrow> 0 | Some c \<Rightarrow> c)"

lemma hm_add_keys: "fst ` set (hm_add i c m) = insert i (fst ` set m)"
  by (induction m) auto

lemma hm_add_distinct: "distinct (map fst m) \<Longrightarrow> distinct (map fst (hm_add i c m))"
proof (induction m)
  case (Cons e m)
  then show ?case using hm_add_keys [of i c m] by auto
qed simp

lemma hm_add_contents: "hm_contents (hm_add i c m) j = (if j = i then hm_contents m j + c else hm_contents m j)"
  by (induction m) (auto simp: hm_contents_def)

lemma hm_nonzero_distinct: "distinct (map fst m) \<Longrightarrow> distinct (map fst (hm_nonzero m))"
  by (induction m) (auto simp: hm_nonzero_def)

lemma hm_nonzero_set:
  "distinct (map fst m) \<Longrightarrow> (i, c) \<in> set (hm_nonzero m) \<longleftrightarrow> c = hm_contents m i \<and> c \<noteq> 0"
proof -
  assume d: "distinct (map fst m)"
  have "(i, c) \<in> set m \<longleftrightarrow> map_of m i = Some c" using d by simp
  then show ?thesis by (auto simp: hm_nonzero_def hm_contents_def split: option.splits)
qed

interpretation hm: coeff_accumulator hm_add hm_nonzero "\<lambda>m. []" hm_contents "\<lambda>m i. True"
  "\<lambda>m. distinct (map fst m)"
  by unfold_locales
     (simp_all add: hm_add_distinct hm_add_contents hm_nonzero_distinct hm_nonzero_set,
      simp_all add: hm_contents_def)

text \<open>What reading out a map gathered from nothing gives.\<close>

lemma hm_row:
  assumes "\<forall>(i, c) \<in> set xs. isfinite c"
  defines "out \<equiv> hm_nonzero (fold (\<lambda>(i, c). hm_add i c) xs [])"
  shows "lin_val (map fst out) (map snd out) x = (\<Sum>(i, c)\<leftarrow>xs. c * Fin (x i))"
    and "distinct (map fst out)" "0 \<notin> set (map snd out)"
    and "set (map fst out) \<subseteq> fst ` set xs" "list_all isfinite (map snd out)"
proof -
  have start: "distinct (map fst ([] :: coeff_map))" "\<And>j. hm_contents [] j = 0"
    by (simp_all add: hm_contents_def)
  have all: "\<forall>(i, c) \<in> set xs. True \<and> isfinite c" using assms by auto
  show "lin_val (map fst out) (map snd out) x = (\<Sum>(i, c)\<leftarrow>xs. c * Fin (x i))"
    unfolding out_def by (rule hm.adds_value [OF start all])
  have inv: "distinct (map fst (fold (\<lambda>(i, c). hm_add i c) xs []))"
    using hm.adds_inv [OF start(1), of xs] by simp
  show "distinct (map fst out)" unfolding out_def by (rule hm_nonzero_distinct [OF inv])
  show "0 \<notin> set (map snd out)" by (auto simp: out_def hm_nonzero_def)
  have "i \<in> fst ` set xs \<and> isfinite c" if "(i, c) \<in> set out" for i c
    using hm.drained_from [OF start all] that unfolding out_def by simp
  then show "set (map fst out) \<subseteq> fst ` set xs" "list_all isfinite (map snd out)"
    by (auto simp: list_all_iff)
qed

section \<open>Keys of quadratic entries\<close>

text \<open>
  \<open>(uint64_t(r) << 32) | uint32_t(c)\<close>, as a number: the shift keeps the low 32 bits of \<open>r\<close>, the two
  halves do not overlap.
\<close>

definition pack_q_key :: "idx \<Rightarrow> idx \<Rightarrow> nat" where
  "pack_q_key r c = (r mod 2 ^ 32) * 2 ^ 32 + c mod 2 ^ 32"

definition q_key_row :: "nat \<Rightarrow> idx" where "q_key_row key = key div 2 ^ 32"

definition q_key_col :: "nat \<Rightarrow> idx" where "q_key_col key = key mod 2 ^ 32"

lemma q_key_roundtrip:
  "r < 2 ^ 32 \<Longrightarrow> c < 2 ^ 32 \<Longrightarrow> q_key_row (pack_q_key r c) = r \<and> q_key_col (pack_q_key r c) = c"
  by (simp add: q_key_row_def q_key_col_def pack_q_key_def)

lemma q_key_max_min:
  assumes "i < 2 ^ 32" "j < 2 ^ 32"
  shows "q_key_row (pack_q_key (max i j) (min i j)) = max i j" "q_key_col (pack_q_key (max i j) (min i j)) = min i j"
  using q_key_roundtrip [of "max i j" "min i j"] assms by auto

definition q_key_val :: "(idx \<Rightarrow> real) \<Rightarrow> nat \<Rightarrow> real" where
  "q_key_val x key = x (q_key_row key) * x (q_key_col key)"

lemma q_key_val_pack:
  "i < 2 ^ 32 \<Longrightarrow> j < 2 ^ 32 \<Longrightarrow> q_key_val x (pack_q_key (max i j) (min i j)) = x i * x j"
  by (cases "i \<le> j") (simp_all add: q_key_val_def q_key_roundtrip)

section \<open>Vectors\<close>

definition vec_add :: "idx \<Rightarrow> dbl \<Rightarrow> dbl list \<Rightarrow> dbl list" where
  "vec_add i c v = v[i := v ! i + c]"

lemma vec_add_length [simp]: "length (vec_add i c v) = length v"
  by (simp add: vec_add_def)

definition vec_val :: "dbl list \<Rightarrow> (idx \<Rightarrow> real) \<Rightarrow> real" where
  "vec_val v x = (\<Sum>i<length v. rval (v ! i) * x i)"

lemma vec_val_lin: "list_all isfinite v \<Longrightarrow> lin_val [0..<length v] v x = Fin (vec_val v x)"
proof -
  assume fin: "list_all isfinite v"
  have "lin_val [0..<length v] v x = (\<Sum>i\<leftarrow>[0..<length v]. v ! i * Fin (x i))"
    by (simp add: lin_val_def) (rule arg_cong [where f = sum_list], rule nth_equalityI; simp)
  also have "\<dots> = (\<Sum>i\<leftarrow>[0..<length v]. Fin (rval (v ! i) * x i))"
    using fin by (intro arg_cong [where f = sum_list] map_cong refl)
      (auto simp: list_all_length elim!: isfiniteE)
  finally show ?thesis by (simp add: sum_list_Fin vec_val_def interv_sum_list_conv_sum_set_nat atLeast0LessThan)
qed

lemma vec_add_finite: "list_all isfinite v \<Longrightarrow> isfinite c \<Longrightarrow> list_all isfinite (vec_add i c v)"
  by (cases "i < length v") (auto simp: list_all_length vec_add_def nth_list_update list_update_beyond intro: fin_intro)

lemma vec_add_val:
  assumes "list_all isfinite v" "isfinite c" "i < length v"
  shows "vec_val (vec_add i c v) x = vec_val v x + rval c * x i"
proof -
  have "vec_val (vec_add i c v) x = (\<Sum>j<length v. rval (v ! j) * x j + (if j = i then rval c * x i else 0))"
    using assms by (auto simp: vec_val_def vec_add_def nth_list_update rval_plus list_all_length algebra_simps
        intro!: sum.cong)
  also have "\<dots> = vec_val v x + rval c * x i"
    using assms(3) by (simp add: sum.distrib vec_val_def)
  finally show ?thesis .
qed

lemma vec_adds_val:
  assumes "list_all isfinite v" "\<forall>(i, c) \<in> set as. i < length v \<and> isfinite c"
  shows "list_all isfinite (fold (\<lambda>(i, c). vec_add i c) as v) \<and>
     length (fold (\<lambda>(i, c). vec_add i c) as v) = length v \<and>
     vec_val (fold (\<lambda>(i, c). vec_add i c) as v) x = vec_val v x + (\<Sum>(i, c)\<leftarrow>as. rval c * x i)"
  using assms
  by (induction as arbitrary: v) (auto simp: vec_add_finite vec_add_val)

end
