(* ===== verification/SolverModels.thy ===== *)
theory SolverModels
  imports Meaning CoeffMaps
begin

text \<open>
  The output of stage 06, from \<open>decidb/formulation/ilp_model.hpp\<close> and \<open>ilp_model_builder.cpp\<close>:
  the solver-agnostic model (\<open>SolverModel\<close> with its rows, conditional rows, native constructs and
  quadratic rows), the provenance its rows carry, \<open>IsUnreachableBound\<close>, \<open>ModelClass\<close>, and the
  reverse map from columns to what they mean to the user (\<open>BuildColumnProvenance\<close>).

  Prefixes: \<open>cp_\<close> ConstraintProvenance, \<open>mc_\<close> ModelConstraint, \<open>gn_\<close> GeneralConstraint, \<open>ix_\<close>
  IndicatorConstraint, \<open>qc_\<close> QuadraticConstraint, \<open>sm_\<close> SolverModel, \<open>cv_\<close> ColumnProvenance.
  \<open>constraint_sources\<close> is display text and is left out, as in the input.
\<close>

section \<open>Rows and their provenance\<close>

record FoldedAggTerm =
  ft_decide_var_idx :: "idx option"
  ft_unit :: dbl
  ft_has_unit :: bool

definition ft_default :: FoldedAggTerm where
  "ft_default = \<lparr>ft_decide_var_idx = None, ft_unit = 1, ft_has_unit = False\<rparr>"

record ConstraintProvenance =
  cp_source_clause_id :: "idx option"
  cp_repair_group_id :: "idx option"
  cp_removal_group_id :: "idx option"
  cp_group_key :: "idx option"
  cp_kind :: ConstraintKind
  cp_shape :: ElasticShape
  cp_avg_scaled :: bool
  cp_strict :: bool
  cp_typed_k :: dbl
  cp_rhs_mechanism_offset :: dbl
  cp_indicator_col :: "idx option"
  cp_group_label :: string
  cp_is_aggregate :: bool
  cp_qualifier :: string
  cp_weight_labels :: "(idx \<times> string) list"
  cp_rhs_label :: string
  cp_folded_terms :: "FoldedAggTerm list"

definition cp_default :: ConstraintProvenance where
  "cp_default = \<lparr>
     cp_source_clause_id = None, cp_repair_group_id = None, cp_removal_group_id = None,
     cp_group_key = None, cp_kind = USER_PARAMETER, cp_shape = UNSET, cp_avg_scaled = False,
     cp_strict = False, cp_typed_k = 0, cp_rhs_mechanism_offset = 0, cp_indicator_col = None,
     cp_group_label = [], cp_is_aggregate = False, cp_qualifier = [], cp_weight_labels = [],
     cp_rhs_label = [], cp_folded_terms = []\<rparr>"

record ModelConstraint =
  mc_indices :: "idx list"
  mc_coefficients :: "dbl list"
  mc_sense :: sense
  mc_rhs :: dbl
  mc_provenance :: ConstraintProvenance

text \<open>\<open>sense\<close> and \<open>rhs\<close> have no initializer; \<open>ApplyComparisonSense\<close> assigns both.\<close>

definition mc_default :: ModelConstraint where
  "mc_default = \<lparr>mc_indices = [], mc_coefficients = [], mc_sense = Le, mc_rhs = 0,
     mc_provenance = cp_default\<rparr>"

definition IsUnreachableBound :: "sense \<Rightarrow> dbl \<Rightarrow> bool" where
  "IsUnreachableBound s rhs \<longleftrightarrow>
     (if \<not> isinf rhs then False else s = Eq \<or> ((rhs > 0) = (s = Ge)))"

record GeneralConstraint =
  gn_kind :: GeneralConstraintKind
  gn_result_column :: idx
  gn_argument_columns :: "idx list"
  gn_provenance :: ConstraintProvenance

record IndicatorConstraint =
  ix_binary_column :: idx
  ix_binary_value :: int
  ix_indices :: "idx list"
  ix_coefficients :: "dbl list"
  ix_sense :: sense
  ix_rhs :: dbl
  ix_provenance :: ConstraintProvenance

record QuadraticConstraint =
  qc_linear_indices :: "idx list"
  qc_linear_coefficients :: "dbl list"
  qc_q_rows :: "idx list"
  qc_q_cols :: "idx list"
  qc_q_coefficients :: "dbl list"
  qc_sense :: sense
  qc_rhs :: dbl
  qc_provenance :: ConstraintProvenance

definition qc_default :: QuadraticConstraint where
  "qc_default = \<lparr>qc_linear_indices = [], qc_linear_coefficients = [], qc_q_rows = [],
     qc_q_cols = [], qc_q_coefficients = [], qc_sense = Le, qc_rhs = 0, qc_provenance = cp_default\<rparr>"

record SolverModel =
  sm_num_vars :: nat
  sm_col_lower :: "dbl list"
  sm_col_upper :: "dbl list"
  sm_is_integer :: "bool list"
  sm_is_binary :: "bool list"
  sm_obj_coeffs :: "dbl list"
  sm_maximize :: bool
  sm_q_rows :: "idx list"
  sm_q_cols :: "idx list"
  sm_q_vals :: "dbl list"
  sm_has_quadratic_obj :: bool
  sm_nonconvex_quadratic :: bool
  sm_general_constraints :: "GeneralConstraint list"
  sm_indicator_constraints :: "IndicatorConstraint list"
  sm_constraints :: "ModelConstraint list"
  sm_quadratic_constraints :: "QuadraticConstraint list"
  sm_build_proven_infeasible :: bool

text \<open>\<open>maximize\<close> has no initializer; \<open>Build\<close> assigns it.\<close>

definition sm_default :: SolverModel where
  "sm_default = \<lparr>
     sm_num_vars = 0, sm_col_lower = [], sm_col_upper = [], sm_is_integer = [], sm_is_binary = [],
     sm_obj_coeffs = [], sm_maximize = False, sm_q_rows = [], sm_q_cols = [], sm_q_vals = [],
     sm_has_quadratic_obj = False, sm_nonconvex_quadratic = False, sm_general_constraints = [],
     sm_indicator_constraints = [], sm_constraints = [], sm_quadratic_constraints = [],
     sm_build_proven_infeasible = False\<rparr>"

section \<open>The class of a model\<close>

text \<open>
  The two loops stop at the first hit; their bounds stop at the shorter of the vectors.
\<close>

definition ModelClass :: "SolverModel \<Rightarrow> SolverModelClass" where
  "ModelClass model =
     (let needed = \<lparr>quadratic_constraints_class = sm_quadratic_constraints model \<noteq> [],
                    nonconvex_quadratic_class = False, miqp_class = False,
                    singular_quadratic_class = False\<rparr>
      in if \<not> sm_has_quadratic_obj model then needed
         else needed\<lparr>nonconvex_quadratic_class := sm_nonconvex_quadratic model,
                miqp_class := list_ex (\<lambda>b. b) (take (sm_num_vars model) (sm_is_integer model)),
                singular_quadratic_class :=
                  list_ex (\<lambda>((r, c), v). r \<noteq> c \<and> v \<noteq> 0)
                    (zip (zip (sm_q_rows model) (sm_q_cols model)) (sm_q_vals model))\<rparr>)"

section \<open>What a model admits\<close>

definition quad_val :: "idx list \<Rightarrow> idx list \<Rightarrow> dbl list \<Rightarrow> (idx \<Rightarrow> real) \<Rightarrow> dbl" where
  "quad_val rs cs vs x = (\<Sum>((r, c), v)\<leftarrow>zip (zip rs cs) vs. v * Fin (x r * x c))"

definition sat_mc :: "ModelConstraint \<Rightarrow> (idx \<Rightarrow> real) \<Rightarrow> bool" where
  "sat_mc mc x \<longleftrightarrow> sat_sense (mc_sense mc) (lin_val (mc_indices mc) (mc_coefficients mc) x) (mc_rhs mc)"

definition sat_ix :: "IndicatorConstraint \<Rightarrow> (idx \<Rightarrow> real) \<Rightarrow> bool" where
  "sat_ix ic x \<longleftrightarrow> (x (ix_binary_column ic) = of_int (ix_binary_value ic) \<longrightarrow>
     sat_sense (ix_sense ic) (lin_val (ix_indices ic) (ix_coefficients ic) x) (ix_rhs ic))"

definition sat_gn :: "GeneralConstraint \<Rightarrow> (idx \<Rightarrow> real) \<Rightarrow> bool" where
  "sat_gn gc x = sat_general \<lparr>gc_kind = gn_kind gc, gc_result_column = gn_result_column gc,
     gc_argument_columns = gn_argument_columns gc, gc_source_clause_id = None,
     gc_repair_group_id = None, gc_removal_group_id = None\<rparr> x"

definition sat_qc :: "QuadraticConstraint \<Rightarrow> (idx \<Rightarrow> real) \<Rightarrow> bool" where
  "sat_qc qc x \<longleftrightarrow> sat_sense (qc_sense qc)
     (lin_val (qc_linear_indices qc) (qc_linear_coefficients qc) x +
      quad_val (qc_q_rows qc) (qc_q_cols qc) (qc_q_coefficients qc) x) (qc_rhs qc)"

text \<open>
  A column's value: in its box, where a bound of magnitude \<open>1e30\<close> or more is open, integral if the
  column is, and 0 or 1 if it is binary.
\<close>

definition in_column :: "dbl \<Rightarrow> dbl \<Rightarrow> bool \<Rightarrow> bool \<Rightarrow> real \<Rightarrow> bool" where
  "in_column lo hi integer binary v \<longleftrightarrow>
     (lo \<le> Fin (- (10 ^ 30)) \<or> lo \<le> Fin v) \<and> (hi \<ge> Fin (10 ^ 30) \<or> Fin v \<le> hi) \<and>
     (integer \<longrightarrow> v \<in> \<int>) \<and> (binary \<longrightarrow> v = 0 \<or> v = 1)"

definition model_columns :: "SolverModel \<Rightarrow> (idx \<Rightarrow> real) \<Rightarrow> bool" where
  "model_columns m x \<longleftrightarrow> (\<forall>c < sm_num_vars m.
     in_column (sm_col_lower m ! c) (sm_col_upper m ! c) (sm_is_integer m ! c) (sm_is_binary m ! c) (x c))"

definition model_rows :: "SolverModel \<Rightarrow> (idx \<Rightarrow> real) \<Rightarrow> bool" where
  "model_rows m x \<longleftrightarrow>
     (\<forall>mc \<in> set (sm_constraints m). sat_mc mc x) \<and>
     (\<forall>qc \<in> set (sm_quadratic_constraints m). sat_qc qc x) \<and>
     (\<forall>ic \<in> set (sm_indicator_constraints m). sat_ix ic x) \<and>
     (\<forall>gc \<in> set (sm_general_constraints m). sat_gn gc x)"

text \<open>The objective: the linear part over all columns and the stored monomials.\<close>

definition obj_val :: "SolverModel \<Rightarrow> (idx \<Rightarrow> real) \<Rightarrow> dbl" where
  "obj_val m x = lin_val [0..<length (sm_obj_coeffs m)] (sm_obj_coeffs m) x +
     quad_val (sm_q_rows m) (sm_q_cols m) (sm_q_vals m) x"

section \<open>Column provenance\<close>

datatype ColumnKind = USER_COLUMN | AUX_COLUMN | GLOBAL_AUX

record ColumnProvenance =
  cv_kind :: ColumnKind
  cv_label :: string
  cv_decide_var_idx :: "idx option"
  cv_instance :: "idx option"

definition cv_default :: ColumnProvenance where
  "cv_default = \<lparr>cv_kind = GLOBAL_AUX, cv_label = [], cv_decide_var_idx = None, cv_instance = None\<rparr>"

definition column_instance :: "VarIndexer \<Rightarrow> idx \<Rightarrow> idx \<Rightarrow> idx \<Rightarrow> idx" where
  "column_instance indexer v row col =
     (case vi_var_scope indexer ! v of
        ENTITY \<Rightarrow> col - vi_entity_var_base indexer ! v
      | SCALAR \<Rightarrow> 0
      | ROW \<Rightarrow> row)"

definition provenance_row :: "VarIndexer \<Rightarrow> string list \<Rightarrow> bool list \<Rightarrow> idx \<Rightarrow> idx \<Rightarrow>
    ColumnProvenance list \<Rightarrow> ColumnProvenance list" where
  "provenance_row indexer var_labels var_is_aux v row provenance =
     (let col = Get indexer v row
      in if col \<ge> length provenance then provenance
         else provenance[col := (provenance ! col)\<lparr>
                cv_kind := (if v < length var_is_aux \<and> var_is_aux ! v then AUX_COLUMN else USER_COLUMN),
                cv_label := var_labels ! v, cv_decide_var_idx := Some v,
                cv_instance := Some (column_instance indexer v row col)\<rparr>])"

definition provenance_global :: "VarIndexer \<Rightarrow> string list \<Rightarrow> idx \<Rightarrow> ColumnProvenance list \<Rightarrow>
    ColumnProvenance list" where
  "provenance_global indexer global_var_labels g provenance =
     (if global_var_labels ! g = [] then provenance
      else let col = vi_global_block_start indexer + g
           in if col < length provenance
              then provenance[col := (provenance ! col)\<lparr>cv_label := global_var_labels ! g\<rparr>]
              else provenance)"

definition BuildColumnProvenance :: "VarIndexer \<Rightarrow> string list \<Rightarrow> bool list \<Rightarrow> string list \<Rightarrow>
    ColumnProvenance list" where
  "BuildColumnProvenance indexer var_labels var_is_aux global_var_labels =
     (let provenance = replicate (vi_total_vars indexer) cv_default;
          provenance = fold (\<lambda>v. fold (provenance_row indexer var_labels var_is_aux v)
                                   [0..<vi_num_rows indexer]) [0..<length var_labels] provenance
      in fold (provenance_global indexer global_var_labels) [0..<length global_var_labels] provenance)"

section \<open>The loops of \<open>BuildColumnProvenance\<close>\<close>

text \<open>Writes that agree where they overlap: each is still there at the end.\<close>

lemma fold_writes_length: "length (fold (\<lambda>a xs. xs[p a := w a]) as xs) = length xs"
  by (induction as arbitrary: xs) simp_all

lemma fold_writes_other: "c \<notin> p ` set as \<Longrightarrow> fold (\<lambda>a xs. xs[p a := w a]) as xs ! c = xs ! c"
  by (induction as arbitrary: xs) simp_all

lemma fold_writes:
  assumes "c \<in> p ` set as" "c < length xs" "\<forall>b \<in> set as. p b = c \<longrightarrow> w b = v"
  shows "fold (\<lambda>a xs. xs[p a := w a]) as xs ! c = v"
  using assms
proof (induction as arbitrary: xs)
  case (Cons b bs)
  then show ?case
    by (cases "c \<in> p ` set bs") (simp_all add: fold_writes_other)
qed simp

lemma fold_nested: "fold (\<lambda>v. fold (f v) rs) vs s = fold (\<lambda>(v, r). f v r) (List.product vs rs) s"
  by (induction vs arbitrary: s) (simp_all add: fold_map comp_def)

text \<open>The entry a decision column gets, and the instance the loop reads off the column.\<close>

definition column_entry :: "SolverInput \<Rightarrow> string list \<Rightarrow> bool list \<Rightarrow> idx \<Rightarrow> idx \<Rightarrow> ColumnProvenance" where
  "column_entry input var_labels var_is_aux v r = \<lparr>
     cv_kind = (if v < length var_is_aux \<and> var_is_aux ! v then AUX_COLUMN else USER_COLUMN),
     cv_label = var_labels ! v, cv_decide_var_idx = Some v, cv_instance = Some (instance_of input v r)\<rparr>"

lemma column_instance_eq:
  assumes "v < si_num_decide_vars input"
  shows "column_instance (BuildIndexer input) v r (Get (BuildIndexer input) v r) = instance_of input v r"
proof (cases "scope_of input v")
  case ENTITY
  with assms have "Get (BuildIndexer input) v r = vi_entity_var_base (BuildIndexer input) ! v + instance_of input v r"
    by (simp add: Get_instance_of InstanceColumn_def)
  with assms ENTITY show ?thesis by (simp add: column_instance_def)
qed (use assms in \<open>simp_all add: column_instance_def instance_of_def\<close>)

lemma provenance_row_write:
  assumes "v < si_num_decide_vars input"
  shows "provenance_row (BuildIndexer input) var_labels var_is_aux v r prov =
    prov[Get (BuildIndexer input) v r := column_entry input var_labels var_is_aux v r]"
proof -
  have full: "p\<lparr>cv_kind := k, cv_label := l, cv_decide_var_idx := d, cv_instance := i\<rparr> =
      \<lparr>cv_kind = k, cv_label = l, cv_decide_var_idx = d, cv_instance = i\<rparr>" for p k l d i
    by (cases p) simp
  show ?thesis
    by (simp add: provenance_row_def Let_def column_instance_eq [OF assms] column_entry_def list_update_beyond full)
qed

lemma provenance_loop:
  assumes "length var_labels = si_num_decide_vars input"
  shows "fold (\<lambda>v. fold (provenance_row (BuildIndexer input) var_labels var_is_aux v) [0..<n])
           [0..<length var_labels] prov =
    fold (\<lambda>a prov. prov[(case a of (v, r) \<Rightarrow> Get (BuildIndexer input) v r) :=
                        (case a of (v, r) \<Rightarrow> column_entry input var_labels var_is_aux v r)])
      (List.product [0..<length var_labels] [0..<n]) prov"
  unfolding fold_nested
  by (rule fold_cong) (use assms in \<open>auto simp: provenance_row_write\<close>)

lemma provenance_globals:
  "fold (provenance_global indexer ls) gs prov =
     fold (\<lambda>g prov. prov[vi_global_block_start indexer + g := (prov ! (vi_global_block_start indexer + g))\<lparr>cv_label := ls ! g\<rparr>])
       (filter (\<lambda>g. ls ! g \<noteq> []) gs) prov"
  by (induction gs arbitrary: prov) (simp_all add: provenance_global_def Let_def list_update_beyond)

text \<open>What the vector holds when all loops are done.\<close>

lemma provenance_entry:
  assumes ok: "indexable input" and labels: "length var_labels = si_num_decide_vars input"
    and v: "v < si_num_decide_vars input" "r < si_num_rows input"
  shows "BuildColumnProvenance (BuildIndexer input) var_labels var_is_aux gls ! Get (BuildIndexer input) v r =
    column_entry input var_labels var_is_aux v r"
proof -
  let ?vi = "BuildIndexer input" and ?n = "si_num_rows input"
  let ?p = "\<lambda>a. case a of (v, r) \<Rightarrow> Get ?vi v r"
    and ?w = "\<lambda>a. case a of (v, r) \<Rightarrow> column_entry input var_labels var_is_aux v r"
  define prov where "prov = fold (\<lambda>a prov. prov[?p a := ?w a])
    (List.product [0..<length var_labels] [0..<?n]) (replicate (vi_total_vars ?vi) cv_default)"
  have lt: "Get ?vi v r < global_start input" by (rule num.at_row_lt [OF ok v])
  have "prov ! Get ?vi v r = column_entry input var_labels var_is_aux v r"
    unfolding prov_def
  proof (rule fold_writes)
    show "Get ?vi v r \<in> ?p ` set (List.product [0..<length var_labels] [0..<?n])"
      using v labels by (auto intro!: rev_image_eqI [of "(v, r)"])
    show "Get ?vi v r < length (replicate (vi_total_vars ?vi) cv_default)" using lt by simp
    show "\<forall>b \<in> set (List.product [0..<length var_labels] [0..<?n]).
        ?p b = Get ?vi v r \<longrightarrow> ?w b = column_entry input var_labels var_is_aux v r"
    proof (clarsimp simp: labels)
      fix w s
      assume w: "w < si_num_decide_vars input" "s < ?n" "Get ?vi w s = Get ?vi v r"
      have "w = v \<and> (scope_of input w \<noteq> SCALAR \<longrightarrow> instance_of input w s = instance_of input v r)"
        by (rule InstanceColumn_inj)
           (use w v ok in \<open>auto simp: instance_of_lt Get_instance_of\<close>)
      then show "column_entry input var_labels var_is_aux w s = column_entry input var_labels var_is_aux v r"
        by (auto simp: column_entry_def instance_of_def)
    qed
  qed
  moreover have "BuildColumnProvenance ?vi var_labels var_is_aux gls ! Get ?vi v r = prov ! Get ?vi v r"
    unfolding BuildColumnProvenance_def Let_def provenance_globals BuildIndexer_fields(1)
      provenance_loop [OF labels] prov_def [symmetric]
  proof -
    have "(\<forall>g. vi_global_block_start ?vi + g \<noteq> c) \<Longrightarrow>
        fold (\<lambda>g prov. prov[vi_global_block_start ?vi + g := f g prov]) gs ps ! c = ps ! c"
      for f and gs and ps :: "ColumnProvenance list" and c
      by (induction gs arbitrary: ps) simp_all
    then show "fold (\<lambda>g prov. prov[vi_global_block_start ?vi + g :=
        (prov ! (vi_global_block_start ?vi + g))\<lparr>cv_label := gls ! g\<rparr>])
        (filter (\<lambda>g. gls ! g \<noteq> []) [0..<length gls]) prov ! Get ?vi v r = prov ! Get ?vi v r"
      using lt by simp
  qed
  ultimately show ?thesis by simp
qed

text \<open>
  C33. The column a row reads for a variable is described by that variable's name, as an auxiliary
  exactly if the variable is one, with the instance (the row, the entity, or 0) that \<open>InstanceColumn\<close>
  maps back to this column, and with the variable \<open>OwnerOf\<close> gives.
\<close>

theorem column_provenance_inverts:
  assumes "indexable input" "length var_labels = si_num_decide_vars input"
    and "v < si_num_decide_vars input" "r < si_num_rows input"
    and "col = Get (BuildIndexer input) v r"
    and "entry = BuildColumnProvenance (BuildIndexer input) var_labels var_is_aux gls ! col"
  shows "cv_label entry = var_labels ! v \<and>
         (cv_kind entry = AUX_COLUMN \<longleftrightarrow> v < length var_is_aux \<and> var_is_aux ! v) \<and>
         cv_decide_var_idx entry = OwnerOf (BuildIndexer input) col \<and>
         (\<exists>i. cv_instance entry = Some i \<and> InstanceColumn (BuildIndexer input) v i = col)"
  using provenance_entry [OF assms(1-4)] num.at_row_owner [OF assms(1,3,4)] assms(3,5,6)
  by (simp add: column_entry_def Get_instance_of)

lemma column_provenance_inverts_witness:
  "cv_label (BuildColumnProvenance (BuildIndexer demo_input) [''x'', ''keep'', ''cap''] [] [''w''] !
     Get (BuildIndexer demo_input) 1 2) = ''keep''"
  using column_provenance_inverts [OF demo_indexable, of "[''x'', ''keep'', ''cap'']" 1 2 _ _ "[]" "[''w'']", OF _ _ _ refl refl]
  by (simp add: demo_input_def si_default_def)

text \<open>
  \<open>IsUnreachableBound\<close> holds of exactly the rows that no finite left-hand side can meet.
\<close>

theorem unreachable_bound_exact:
  assumes "\<not> isnan rhs"
  shows "IsUnreachableBound s rhs \<longleftrightarrow> (\<forall>l. \<not> sat_sense s (Fin l) rhs)"
proof (cases rhs)
  case (Fin r)
  have "sat_sense s (Fin r) rhs" by (cases s) (simp_all add: Fin)
  with Fin show ?thesis by (auto simp: IsUnreachableBound_def)
qed (use assms in \<open>cases s; simp add: IsUnreachableBound_def deq_def dbl_arith\<close>)+

lemma unreachable_bound_exact_witness:
  "\<forall>l. \<not> sat_sense Ge (Fin l) PInf"
  using unreachable_bound_exact [of PInf Ge] by (simp add: IsUnreachableBound_def dbl_arith)

end
