(* ===== verification/ModelColumns.thy ===== *)
theory ModelColumns
  imports SolverModels Emission
begin

text \<open>
  The first phase of \<open>SolverModel::Build\<close> (\<open>ilp_model_builder.cpp\<close>): the columns with their boxes and
  types. The lemmas give the column every instance of a variable gets and show that the box admits
  exactly the values the input lets the variable take.
\<close>

section \<open>Columns\<close>

definition type_default :: "LogicalType \<Rightarrow> dbl \<times> dbl \<times> bool" where
  "type_default t =
     (if t = DOUBLE \<or> t = FLOAT then (0, Fin (10 ^ 30), False)
      else if t = BOOLEAN then (0, 1, True)
      else (0, Fin (10 ^ 30), False))"

definition per_var_config :: "SolverInput \<Rightarrow> idx \<Rightarrow> dbl \<times> dbl \<times> bool" where
  "per_var_config input v =
     (let (lo, hi, binary) = type_default (si_variable_types input ! v);
          lo = (if v < length (si_lower_bounds input) then si_lower_bounds input ! v else lo);
          hi = (if v < length (si_upper_bounds input) then std_min hi (si_upper_bounds input ! v) else hi);
          binary = (if binary \<and> (lo < 0 \<or> hi > 1) then False else binary)
      in (lo, hi, binary))"

definition set_column :: "idx \<Rightarrow> dbl \<Rightarrow> dbl \<Rightarrow> bool \<Rightarrow> bool \<Rightarrow> SolverModel \<Rightarrow> SolverModel" where
  "set_column c lo hi integer binary model = model\<lparr>
     sm_col_lower := (sm_col_lower model)[c := lo], sm_col_upper := (sm_col_upper model)[c := hi],
     sm_is_integer := (sm_is_integer model)[c := integer],
     sm_is_binary := (sm_is_binary model)[c := binary]\<rparr>"

definition expand_variable :: "SolverInput \<Rightarrow> VarIndexer \<Rightarrow> idx \<Rightarrow> SolverModel \<Rightarrow> SolverModel" where
  "expand_variable input indexer v model =
     (let (lo, hi, binary) = per_var_config input v
      in fold (\<lambda>inst. set_column (InstanceColumn indexer v inst) lo hi
                        (\<not> IsRealType (si_variable_types input ! v)) binary)
           [0..<NumInstances indexer v] model)"

definition append_global_column :: "SolverInput \<Rightarrow> VarIndexer \<Rightarrow> idx \<Rightarrow> SolverModel \<Rightarrow> SolverModel" where
  "append_global_column input indexer g =
     (let gtype = si_global_variable_types input ! g
      in set_column (vi_global_block_start indexer + g)
           (si_global_lower_bounds input ! g) (si_global_upper_bounds input ! g)
           (\<not> IsRealType gtype) (gtype = BOOLEAN))"

definition variables_and_bounds :: "SolverInput \<Rightarrow> VarIndexer \<Rightarrow> SolverModel \<Rightarrow> SolverModel" where
  "variables_and_bounds input indexer model =
     (let n = vi_total_vars indexer;
          model = model\<lparr>sm_num_vars := n, sm_col_lower := replicate n 0, sm_col_upper := replicate n 0,
                        sm_is_integer := replicate n False, sm_is_binary := replicate n False\<rparr>;
          model = fold (expand_variable input indexer) [0..<si_num_decide_vars input] model
      in fold (append_global_column input indexer) [0..<si_num_global_vars input] model)"

section \<open>What the column loops write\<close>

definition column_at :: "SolverModel \<Rightarrow> idx \<Rightarrow> dbl \<times> dbl \<times> bool \<times> bool" where
  "column_at m c = (sm_col_lower m ! c, sm_col_upper m ! c, sm_is_integer m ! c, sm_is_binary m ! c)"

definition sized :: "nat \<Rightarrow> SolverModel \<Rightarrow> bool" where
  "sized n m \<longleftrightarrow> sm_num_vars m = n \<and> length (sm_col_lower m) = n \<and> length (sm_col_upper m) = n \<and>
     length (sm_is_integer m) = n \<and> length (sm_is_binary m) = n"

text \<open>Everything but the columns.\<close>

definition rest_of :: "SolverModel \<Rightarrow> SolverModel" where
  "rest_of m = m\<lparr>sm_col_lower := [], sm_col_upper := [], sm_is_integer := [], sm_is_binary := []\<rparr>"

abbreviation write_column :: "idx \<Rightarrow> dbl \<times> dbl \<times> bool \<times> bool \<Rightarrow> SolverModel \<Rightarrow> SolverModel" where
  "write_column c w \<equiv> (case w of (lo, hi, integer, binary) \<Rightarrow> set_column c lo hi integer binary)"

lemma write_column_facts:
  "sized n (write_column c w m) = sized n m"
  "rest_of (write_column c w m) = rest_of m"
  "sized n m \<Longrightarrow> d < n \<Longrightarrow> column_at (write_column c w m) d = (if d = c then w else column_at m d)"
  by (cases w; auto simp: set_column_def sized_def rest_of_def column_at_def)+

lemma write_columns:
  assumes "sized n m"
  shows "sized n (fold (\<lambda>a. write_column (p a) (w a)) as m)"
    and "rest_of (fold (\<lambda>a. write_column (p a) (w a)) as m) = rest_of m"
    and "d < n \<Longrightarrow> d \<notin> p ` set as \<Longrightarrow> column_at (fold (\<lambda>a. write_column (p a) (w a)) as m) d = column_at m d"
    and "d < n \<Longrightarrow> d \<in> p ` set as \<Longrightarrow> \<forall>a \<in> set as. p a = d \<longrightarrow> w a = u \<Longrightarrow>
           column_at (fold (\<lambda>a. write_column (p a) (w a)) as m) d = u"
proof -
  show "sized n (fold (\<lambda>a. write_column (p a) (w a)) as m)"
    "rest_of (fold (\<lambda>a. write_column (p a) (w a)) as m) = rest_of m"
    using assms by (induction as arbitrary: m) (simp_all add: write_column_facts)
  have other: "column_at (fold (\<lambda>a. write_column (p a) (w a)) as m) d = column_at m d"
    if "d < n" "d \<notin> p ` set as" "sized n m" for as m
    using that by (induction as arbitrary: m) (simp_all add: write_column_facts)
  then show "column_at (fold (\<lambda>a. write_column (p a) (w a)) as m) d = column_at m d"
    if "d < n" "d \<notin> p ` set as" using that assms by simp
  show "column_at (fold (\<lambda>a. write_column (p a) (w a)) as m) d = u"
    if "d < n" "d \<in> p ` set as" "\<forall>a \<in> set as. p a = d \<longrightarrow> w a = u"
    using that assms
  proof (induction as arbitrary: m)
    case (Cons a as)
    have sz: "sized n (write_column (p a) (w a) m)" using Cons.prems(4) by (simp only: write_column_facts)
    show ?case
    proof (cases "d \<in> p ` set as")
      case True
      with Cons.IH [OF _ _ _ sz] Cons.prems show ?thesis by simp
    next
      case False
      with Cons.prems have "p a = d" "w a = u" by auto
      with other [OF Cons.prems(1) False sz] write_column_facts(3) [OF Cons.prems(4,1)] show ?thesis by simp
    qed
  qed simp
qed

definition instance_list :: "SolverInput \<Rightarrow> (idx \<times> idx) list" where
  "instance_list input = concat (map (\<lambda>v. map (Pair v) [0..<NumInstances (BuildIndexer input) v])
     [0..<si_num_decide_vars input])"

definition variable_column :: "SolverInput \<Rightarrow> idx \<Rightarrow> dbl \<times> dbl \<times> bool \<times> bool" where
  "variable_column input v = (let (lo, hi, binary) = per_var_config input v
     in (lo, hi, \<not> IsRealType (si_variable_types input ! v), binary))"

definition global_column :: "SolverInput \<Rightarrow> idx \<Rightarrow> dbl \<times> dbl \<times> bool \<times> bool" where
  "global_column input g = (let t = si_global_variable_types input ! g
     in (si_global_lower_bounds input ! g, si_global_upper_bounds input ! g, \<not> IsRealType t, t = BOOLEAN))"

lemma fold_concat: "fold f (concat xss) s = fold (fold f) xss s"
  by (induction xss arbitrary: s) simp_all

lemma expand_all:
  "fold (expand_variable input (BuildIndexer input)) [0..<si_num_decide_vars input] m =
     fold (\<lambda>a. write_column (InstanceColumn (BuildIndexer input) (fst a) (snd a)) (variable_column input (fst a)))
       (instance_list input) m"
proof -
  have "expand_variable input (BuildIndexer input) v m =
      fold (\<lambda>a. write_column (InstanceColumn (BuildIndexer input) (fst a) (snd a)) (variable_column input (fst a)))
        (map (Pair v) [0..<NumInstances (BuildIndexer input) v]) m" for v m
    by (simp add: expand_variable_def variable_column_def fold_map comp_def split: prod.split)
  then have eq: "expand_variable input (BuildIndexer input) = (\<lambda>v.
      fold (\<lambda>a. write_column (InstanceColumn (BuildIndexer input) (fst a) (snd a)) (variable_column input (fst a)))
        (map (Pair v) [0..<NumInstances (BuildIndexer input) v]))"
    by (intro ext)
  show ?thesis unfolding eq instance_list_def fold_concat fold_map comp_def ..
qed

lemma append_all:
  "fold (append_global_column input vi) gs m =
     fold (\<lambda>g. write_column (vi_global_block_start vi + g) (global_column input g)) gs m"
  by (rule fold_cong) (simp_all add: append_global_column_def global_column_def Let_def)

lemma instance_list_mem [simp]:
  "a \<in> set (instance_list input) \<longleftrightarrow>
     fst a < si_num_decide_vars input \<and> snd a < NumInstances (BuildIndexer input) (fst a)"
  by (cases a) (force simp: instance_list_def)

lemma variables_and_bounds_facts:
  fixes input model
  defines "m \<equiv> variables_and_bounds input (BuildIndexer input) model"
  shows "sized (vi_total_vars (BuildIndexer input)) m"
    and "rest_of m = rest_of (model\<lparr>sm_num_vars := vi_total_vars (BuildIndexer input)\<rparr>)"
    and "v < si_num_decide_vars input \<Longrightarrow> i < NumInstances (BuildIndexer input) v \<Longrightarrow>
           column_at m (InstanceColumn (BuildIndexer input) v i) = variable_column input v"
    and "g < si_num_global_vars input \<Longrightarrow>
           column_at m (vi_global_block_start (BuildIndexer input) + g) = global_column input g"
proof -
  let ?vi = "BuildIndexer input"
  let ?n = "vi_total_vars ?vi" and ?s = "vi_global_block_start ?vi"
  define m0 where "m0 = model\<lparr>sm_num_vars := ?n, sm_col_lower := replicate ?n 0, sm_col_upper := replicate ?n 0,
    sm_is_integer := replicate ?n False, sm_is_binary := replicate ?n False\<rparr>"
  define m1 where "m1 = fold (\<lambda>a. write_column (InstanceColumn ?vi (fst a) (snd a)) (variable_column input (fst a)))
    (instance_list input) m0"
  have m: "m = fold (\<lambda>g. write_column (?s + g) (global_column input g)) [0..<si_num_global_vars input] m1"
    by (simp only: m_def variables_and_bounds_def Let_def expand_all append_all m1_def m0_def)
  have 0: "sized ?n m0" by (simp add: sized_def m0_def)
  then have 1: "sized ?n m1" unfolding m1_def by (rule write_columns(1))
  then show "sized ?n m" unfolding m by (rule write_columns(1))
  have "rest_of m = rest_of m0" unfolding m write_columns(2) [OF 1] unfolding m1_def by (rule write_columns(2) [OF 0])
  then show "rest_of m = rest_of (model\<lparr>sm_num_vars := ?n\<rparr>)" by (simp add: rest_of_def m0_def)
  show "column_at m (InstanceColumn ?vi v i) = variable_column input v"
    if v: "v < si_num_decide_vars input" "i < NumInstances ?vi v"
  proof -
    have lt: "InstanceColumn ?vi v i < ?s" using InstanceColumn_lt [OF v] by simp
    then have "column_at m (InstanceColumn ?vi v i) = column_at m1 (InstanceColumn ?vi v i)"
      unfolding m by (intro write_columns(3) [OF 1]) auto
    also have "\<dots> = variable_column input v"
      unfolding m1_def
    proof (rule write_columns(4) [OF 0])
      show "InstanceColumn ?vi v i \<in> (\<lambda>a. InstanceColumn ?vi (fst a) (snd a)) ` set (instance_list input)"
        using v by (intro image_eqI [of _ _ "(v, i)"]) simp_all
      show "\<forall>a \<in> set (instance_list input). InstanceColumn ?vi (fst a) (snd a) = InstanceColumn ?vi v i \<longrightarrow>
          variable_column input (fst a) = variable_column input v"
        using v InstanceColumn_inj by force
    qed (use lt in simp)
    finally show ?thesis .
  qed
  show "column_at m (?s + g) = global_column input g" if g: "g < si_num_global_vars input"
    unfolding m by (rule write_columns(4) [OF 1]) (use g in auto)
qed

section \<open>What the columns admit\<close>

text \<open>
  The values the input lets a decision variable take: at least its lower bound (0 by default), at
  most its upper bound, at most 1 for a BOOLEAN, integral unless REAL. A bound of magnitude \<open>1e30\<close> is
  none.
\<close>

definition user_domain :: "SolverInput \<Rightarrow> idx \<Rightarrow> real \<Rightarrow> bool" where
  "user_domain input v a \<longleftrightarrow>
     (let t = si_variable_types input ! v;
          lo = (if v < length (si_lower_bounds input) then si_lower_bounds input ! v else 0)
      in (lo \<le> Fin (- (10 ^ 30)) \<or> lo \<le> Fin a) \<and>
         (v < length (si_upper_bounds input) \<longrightarrow>
            si_upper_bounds input ! v \<ge> Fin (10 ^ 30) \<or> Fin a \<le> si_upper_bounds input ! v) \<and>
         (t = BOOLEAN \<longrightarrow> a \<le> 1) \<and> (\<not> IsRealType t \<longrightarrow> a \<in> \<int>))"

definition global_domain :: "SolverInput \<Rightarrow> idx \<Rightarrow> real \<Rightarrow> bool" where
  "global_domain input g a \<longleftrightarrow>
     column_admits input g a \<and> (\<not> IsRealType (si_global_variable_types input ! g) \<longrightarrow> a \<in> \<int>)"

lemma int_between_0_1: "(a :: real) \<in> \<int> \<Longrightarrow> 0 \<le> a \<Longrightarrow> a \<le> 1 \<Longrightarrow> a = 0 \<or> a = 1"
  by (auto elim!: Ints_cases simp flip: of_int_0_le_iff of_int_le_1_iff)

lemma open_above:
  "std_min (Fin (10 ^ 30)) u \<ge> Fin (10 ^ 30) \<or> Fin a \<le> std_min (Fin (10 ^ 30)) u \<longleftrightarrow>
     isnan u \<or> u \<ge> Fin (10 ^ 30) \<or> Fin a \<le> u"
  by (cases u) (auto simp: std_min_def)

lemma bool_above:
  "std_min 1 u \<ge> Fin (10 ^ 30) \<or> Fin a \<le> std_min 1 u \<longleftrightarrow>
     a \<le> 1 \<and> (isnan u \<or> u \<ge> Fin (10 ^ 30) \<or> Fin a \<le> u)"
  by (cases u) (auto simp: std_min_def dbl_arith)

lemma bool_upper: "\<not> std_min 1 u > 1"
  by (cases u) (auto simp: std_min_def dbl_arith)

lemma nonneg_lower: "\<not> lo < 0 \<Longrightarrow> lo \<le> Fin (- (10 ^ 30)) \<or> lo \<le> Fin a \<Longrightarrow> 0 \<le> a"
  by (cases lo) (auto simp: dbl_arith)

lemma in_variable_column:
  assumes "v < length (si_upper_bounds input) \<Longrightarrow> \<not> isnan (si_upper_bounds input ! v)"
  shows "(case variable_column input v of (lo, hi, integer, binary) \<Rightarrow> in_column lo hi integer binary a) =
    user_domain input v a"
proof -
  define t lo where "t = si_variable_types input ! v"
    and "lo = (if v < length (si_lower_bounds input) then si_lower_bounds input ! v else 0)"
  define up where "up b \<longleftrightarrow> (v < length (si_upper_bounds input) \<longrightarrow>
    si_upper_bounds input ! v \<ge> Fin (10 ^ 30) \<or> Fin b \<le> si_upper_bounds input ! v)" for b
  have dom: "user_domain input v a \<longleftrightarrow> (lo \<le> Fin (- (10 ^ 30)) \<or> lo \<le> Fin a) \<and> up a \<and>
      (t = BOOLEAN \<longrightarrow> a \<le> 1) \<and> (\<not> IsRealType t \<longrightarrow> a \<in> \<int>)"
    by (simp add: user_domain_def Let_def t_def lo_def up_def)
  show ?thesis
  proof (cases "t = BOOLEAN")
    case False
    then have "variable_column input v = (lo, if v < length (si_upper_bounds input)
        then std_min (Fin (10 ^ 30)) (si_upper_bounds input ! v) else Fin (10 ^ 30), \<not> IsRealType t, False)"
      by (simp add: variable_column_def per_var_config_def type_default_def t_def lo_def Let_def)
    with False show ?thesis using assms open_above [of "si_upper_bounds input ! v" a]
      by (auto simp: dom in_column_def up_def)
  next
    case True
    define hi where "hi = (if v < length (si_upper_bounds input) then std_min 1 (si_upper_bounds input ! v) else 1)"
    have col: "variable_column input v = (lo, hi, True, \<not> lo < 0)"
      using True bool_upper [of "si_upper_bounds input ! v"]
      by (auto simp: variable_column_def per_var_config_def type_default_def t_def lo_def hi_def Let_def
          IsRealType_def dbl_arith)
    have hi: "hi \<ge> Fin (10 ^ 30) \<or> Fin a \<le> hi \<longleftrightarrow> a \<le> 1 \<and> up a"
      using assms bool_above [of "si_upper_bounds input ! v" a] by (auto simp: hi_def up_def dbl_arith)
    have "a = 0 \<or> a = 1" if "\<not> lo < 0" "lo \<le> Fin (- (10 ^ 30)) \<or> lo \<le> Fin a" "a \<in> \<int>" "a \<le> 1"
      using int_between_0_1 nonneg_lower that by blast
    with hi True show ?thesis by (auto simp: dom col in_column_def IsRealType_def)
  qed
qed

lemma in_global_column:
  "(case global_column input g of (lo, hi, integer, binary) \<Rightarrow> in_column lo hi integer binary a) =
     global_domain input g a"
  by (auto simp: global_column_def in_column_def global_domain_def column_admits_def Let_def)

lemma variable_column_binary:
  "variable_column input v = (lo, hi, integer, binary) \<Longrightarrow> binary \<Longrightarrow> integer \<and> \<not> lo < 0 \<and> \<not> hi > 1"
  by (auto simp: variable_column_def per_var_config_def type_default_def IsRealType_def Let_def
      split: if_splits)

text \<open>The columns of a model are the decision columns and the global ones.\<close>

lemma all_columns:
  "(\<forall>c < vi_total_vars (BuildIndexer input). P c) \<longleftrightarrow>
     (\<forall>v < si_num_decide_vars input. \<forall>i < NumInstances (BuildIndexer input) v.
        P (InstanceColumn (BuildIndexer input) v i)) \<and>
     (\<forall>g < si_num_global_vars input. P (vi_global_block_start (BuildIndexer input) + g))"
proof (intro iffI conjI allI impI)
  fix c
  assume *: "(\<forall>v < si_num_decide_vars input. \<forall>i < NumInstances (BuildIndexer input) v.
        P (InstanceColumn (BuildIndexer input) v i)) \<and>
     (\<forall>g < si_num_global_vars input. P (vi_global_block_start (BuildIndexer input) + g))"
    and c: "c < vi_total_vars (BuildIndexer input)"
  show "P c"
  proof (cases "c < global_start input")
    case True
    with InstanceColumn_surj * show ?thesis by blast
  next
    case False
    with c have "c = vi_global_block_start (BuildIndexer input) + (c - global_start input)"
      "c - global_start input < si_num_global_vars input" by simp_all
    with * show ?thesis by metis
  qed
next
  fix v i
  assume "\<forall>c < vi_total_vars (BuildIndexer input). P c" "v < si_num_decide_vars input"
    "i < NumInstances (BuildIndexer input) v"
  then show "P (InstanceColumn (BuildIndexer input) v i)"
    using InstanceColumn_lt [of v input i] by simp
qed simp

lemma columns_domain:
  assumes "\<forall>u \<in> set (si_upper_bounds input). \<not> isnan u"
    and "sized (vi_total_vars (BuildIndexer input)) m"
    and "\<forall>c < vi_total_vars (BuildIndexer input).
      column_at m c = column_at (variables_and_bounds input (BuildIndexer input) model) c"
  shows "model_columns m x \<longleftrightarrow>
    (\<forall>v < si_num_decide_vars input. \<forall>i < NumInstances (BuildIndexer input) v.
       user_domain input v (x (InstanceColumn (BuildIndexer input) v i))) \<and>
    (\<forall>g < si_num_global_vars input. global_domain input g (x (vi_global_block_start (BuildIndexer input) + g)))"
proof -
  let ?vi = "BuildIndexer input"
  define adm where "adm c \<longleftrightarrow> (case column_at m c of (lo, hi, i, b) \<Rightarrow> in_column lo hi i b (x c))" for c
  have "model_columns m x \<longleftrightarrow> (\<forall>c < vi_total_vars ?vi. adm c)"
    using assms(2) by (simp add: model_columns_def adm_def column_at_def sized_def)
  also have "\<dots> \<longleftrightarrow> (\<forall>v < si_num_decide_vars input. \<forall>i < NumInstances ?vi v. adm (InstanceColumn ?vi v i)) \<and>
     (\<forall>g < si_num_global_vars input. adm (vi_global_block_start ?vi + g))" by (rule all_columns)
  also have "\<dots> \<longleftrightarrow> (\<forall>v < si_num_decide_vars input. \<forall>i < NumInstances ?vi v.
       user_domain input v (x (InstanceColumn ?vi v i))) \<and>
    (\<forall>g < si_num_global_vars input. global_domain input g (x (vi_global_block_start ?vi + g)))"
  proof -
    have "adm (InstanceColumn ?vi v i) = user_domain input v (x (InstanceColumn ?vi v i))"
      if v: "v < si_num_decide_vars input" "i < NumInstances ?vi v" for v i
    proof -
      have "InstanceColumn ?vi v i < vi_total_vars ?vi" using InstanceColumn_lt [OF v] by simp
      then have "column_at m (InstanceColumn ?vi v i) = variable_column input v"
        using assms(3) variables_and_bounds_facts(3) [OF v] by simp
      then show ?thesis unfolding adm_def using assms(1) by (simp add: in_variable_column)
    qed
    moreover have "adm (vi_global_block_start ?vi + g) = global_domain input g (x (vi_global_block_start ?vi + g))"
      if g: "g < si_num_global_vars input" for g
    proof -
      have "column_at m (vi_global_block_start ?vi + g) = global_column input g"
        using assms(3) variables_and_bounds_facts(4) [OF g] g by simp
      then show ?thesis unfolding adm_def by (simp only: in_global_column)
    qed
    ultimately show ?thesis by simp
  qed
  finally show ?thesis .
qed

end
