(* ===== verification/ModelObjective.thy ===== *)
theory ModelObjective
  imports ModelColumns
begin

text \<open>
  The objective phases of \<open>SolverModel::Build\<close> (\<open>ilp_model_builder.cpp\<close>): the linear coefficients and
  the quadratic entries. Every loop is a list of contributions to the coefficient vector or to the
  map of products; the built objective is the input's up to a constant no decision moves.
\<close>

section \<open>Linear objective\<close>

definition obj_reduced :: "SolverInput \<Rightarrow> idx \<Rightarrow> bool" where
  "obj_reduced input t \<longleftrightarrow> t < length (si_objective_term_reductions input) \<and>
     si_objective_term_reductions input ! t = RED_SUM"

definition objective_term :: "SolverInput \<Rightarrow> VarIndexer \<Rightarrow> idx \<Rightarrow> dbl list \<Rightarrow> dbl list" where
  "objective_term input indexer t obj =
     (case si_objective_variable_indices input ! t of
        None \<Rightarrow> obj
      | Some v \<Rightarrow>
          if t \<ge> length (si_objective_coefficients input) then obj
          else let col = si_objective_coefficients input ! t
               in if vi_var_scope indexer ! v = SCALAR \<and> \<not> obj_reduced input t
                  then vec_add (Get indexer v 0) (if logical_size col > 0 then cc_get col 0 else 1) obj
                  else fold (\<lambda>row. vec_add (Get indexer v row) (cc_get col row))
                         [0..<min (si_num_rows input) (logical_size col)] obj)"

definition global_objective :: "SolverInput \<Rightarrow> VarIndexer \<Rightarrow> dbl list \<Rightarrow> dbl list" where
  "global_objective input indexer =
     fold (\<lambda>g obj. if g < length (si_global_obj_coeffs input)
                   then obj[vi_global_block_start indexer + g := si_global_obj_coeffs input ! g]
                   else obj) [0..<si_num_global_vars input]"

definition linear_objective :: "SolverInput \<Rightarrow> VarIndexer \<Rightarrow> SolverModel \<Rightarrow> SolverModel" where
  "linear_objective input indexer model =
     (let obj = global_objective input indexer (replicate (vi_total_vars indexer) 0);
          obj = fold (objective_term input indexer) [0..<length (si_objective_variable_indices input)] obj
      in model\<lparr>sm_obj_coeffs := obj, sm_maximize := (si_sense input = MAXIMIZE)\<rparr>)"

section \<open>Quadratic objective\<close>

text \<open>One row of \<open>POWER(expr, 2)\<close>: its variable terms with their columns, and its fixed part.\<close>

definition power_row_terms :: "VarIndexer \<Rightarrow> idx option list \<Rightarrow> coefficient_column list \<Rightarrow> idx \<Rightarrow>
    (idx \<times> dbl) list" where
  "power_row_terms indexer inner_variable_indices inner_coefficients row =
     concat (map (\<lambda>t.
       if t \<ge> length inner_coefficients \<or> row \<ge> logical_size (inner_coefficients ! t) then []
       else let a = cc_get (inner_coefficients ! t) row
            in if a = 0 then []
               else (case inner_variable_indices ! t of
                       None \<Rightarrow> []
                     | Some v \<Rightarrow> [(Get indexer v row, a)]))
       [0..<length inner_variable_indices])"

definition power_row_constant :: "idx option list \<Rightarrow> coefficient_column list \<Rightarrow> idx \<Rightarrow> dbl" where
  "power_row_constant inner_variable_indices inner_coefficients row =
     fold (\<lambda>t c_row.
       if t < length inner_coefficients \<and> row < logical_size (inner_coefficients ! t) \<and>
          inner_variable_indices ! t = None
       then c_row + cc_get (inner_coefficients ! t) row else c_row)
       [0..<length inner_variable_indices] 0"

definition outer_product :: "dbl \<Rightarrow> (idx \<times> dbl) list \<Rightarrow> coeff_map \<Rightarrow> coeff_map" where
  "outer_product q_sign row_terms q_map =
     fold (\<lambda>i. fold (\<lambda>j.
         let (ri, ci) = row_terms ! i; (rj, cj) = row_terms ! j;
             val = q_sign * ci * cj;
             val = (if i \<noteq> j then val * Fin 2 else val)
         in hm_add (pack_q_key (max ri rj) (min ri rj)) val) [0..<i + 1])
       [0..<length row_terms] q_map"

definition cross_terms :: "dbl \<Rightarrow> dbl \<Rightarrow> (idx \<times> dbl) list \<Rightarrow> dbl list \<Rightarrow> dbl list" where
  "cross_terms q_sign c_row row_terms obj =
     (if c_row \<noteq> 0 then fold (\<lambda>(i, a). vec_add i (q_sign * Fin 2 * c_row * a)) row_terms obj else obj)"

definition power_objective_row :: "SolverInput \<Rightarrow> VarIndexer \<Rightarrow> idx \<Rightarrow> coeff_map \<times> dbl list \<Rightarrow>
    coeff_map \<times> dbl list" where
  "power_objective_row input indexer row = (\<lambda>(q_map, obj).
     let vis = si_quadratic_inner_variable_indices input; cols = si_quadratic_inner_coefficients input;
         row_terms = power_row_terms indexer vis cols row
     in (outer_product (si_quadratic_sign input) row_terms q_map,
         cross_terms (si_quadratic_sign input) (power_row_constant vis cols row) row_terms obj))"

definition bilinear_q_terms :: "VarIndexer \<Rightarrow> BilinearTerm \<Rightarrow> idx list \<Rightarrow> coeff_map \<Rightarrow> coeff_map" where
  "bilinear_q_terms indexer bt rows =
     fold (\<lambda>row q_map.
       let coeff = cc_get (bt_row_coefficients bt) row
       in if coeff = 0 then q_map
          else let flat_a = Get indexer (bt_var_a bt) row; flat_b = Get indexer (bt_var_b bt) row
               in hm_add (pack_q_key (max flat_a flat_b) (min flat_a flat_b)) coeff q_map) rows"

definition quadratic_objective :: "SolverInput \<Rightarrow> VarIndexer \<Rightarrow> SolverModel \<Rightarrow> SolverModel" where
  "quadratic_objective input indexer model =
     (let has_power_quadratic = si_has_quadratic_objective input \<and>
            si_quadratic_inner_variable_indices input \<noteq> [];
          has_bilinear = si_bilinear_objective_terms input \<noteq> [];
          rows = [0..<si_num_rows input]
      in if \<not> (has_power_quadratic \<or> has_bilinear) then model
         else
           let (q_map, model) =
                 (if has_power_quadratic
                  then let (q_map, obj) = fold (power_objective_row input indexer) rows ([], sm_obj_coeffs model)
                       in (q_map, model\<lparr>sm_has_quadratic_obj := True,
                             sm_nonconvex_quadratic :=
                               IsNonconvexQuadraticObjective (si_quadratic_sign input) (si_sense input),
                             sm_obj_coeffs := obj\<rparr>)
                  else ([], model));
               (q_map, model) =
                 (if has_bilinear
                  then (fold (\<lambda>bt. bilinear_q_terms indexer bt rows) (si_bilinear_objective_terms input) q_map,
                        model\<lparr>sm_has_quadratic_obj := True, sm_nonconvex_quadratic := True\<rparr>)
                  else (q_map, model));
               entries = hm_nonzero q_map
           in model\<lparr>sm_q_rows := map (q_key_row \<circ> fst) entries,
                    sm_q_cols := map (q_key_col \<circ> fst) entries,
                    sm_q_vals := map snd entries\<rparr>)"

section \<open>What the objective says\<close>

text \<open>
  The objective over the decision variables, from the input: a linear term beside the reducer counts
  a query-wide variable once, any other term is summed over the rows; \<open>POWER(expr, 2)\<close> and the
  products are summed over the rows.
\<close>

definition linear_meaning :: "SolverInput \<Rightarrow> (idx \<Rightarrow> idx \<Rightarrow> real) \<Rightarrow> idx \<Rightarrow> real" where
  "linear_meaning input X t =
     (if t \<ge> length (si_objective_coefficients input) then 0
      else let col = si_objective_coefficients input ! t;
               rows = [0..<min (si_num_rows input) (logical_size col)]
           in case si_objective_variable_indices input ! t of
                None \<Rightarrow> 0
              | Some v \<Rightarrow>
                  if scope_of input v = SCALAR \<and> \<not> obj_reduced input t
                  then rval (if logical_size col > 0 then cc_get col 0 else 1) * X v 0
                  else (\<Sum>r\<leftarrow>rows. rval (cc_get col r) * X v r))"

definition inner_meaning :: "idx option list \<Rightarrow> coefficient_column list \<Rightarrow> (idx \<Rightarrow> idx \<Rightarrow> real) \<Rightarrow> idx \<Rightarrow>
    nat \<Rightarrow> real" where
  "inner_meaning vis cols X r t =
     (if t < length cols \<and> r < logical_size (cols ! t)
      then rval (cc_get (cols ! t) r) * (case vis ! t of None \<Rightarrow> 1 | Some v \<Rightarrow> X v r) else 0)"

definition power_inner :: "idx option list \<Rightarrow> coefficient_column list \<Rightarrow> (idx \<Rightarrow> idx \<Rightarrow> real) \<Rightarrow> idx \<Rightarrow> real" where
  "power_inner vis cols X r = (\<Sum>t\<leftarrow>[0..<length vis]. inner_meaning vis cols X r t)"

definition product_meaning :: "(idx \<Rightarrow> idx \<Rightarrow> real) \<Rightarrow> BilinearTerm \<Rightarrow> idx \<Rightarrow> real" where
  "product_meaning X bt r = rval (cc_get (bt_row_coefficients bt) r) * (X (bt_var_a bt) r * X (bt_var_b bt) r)"

abbreviation objective_inner :: "SolverInput \<Rightarrow> (idx \<Rightarrow> idx \<Rightarrow> real) \<Rightarrow> idx \<Rightarrow> real" where
  "objective_inner input \<equiv>
     power_inner (si_quadratic_inner_variable_indices input) (si_quadratic_inner_coefficients input)"

definition objective_meaning :: "SolverInput \<Rightarrow> (idx \<Rightarrow> idx \<Rightarrow> real) \<Rightarrow> real" where
  "objective_meaning input X =
     (\<Sum>t\<leftarrow>[0..<length (si_objective_variable_indices input)]. linear_meaning input X t) +
     (if si_has_quadratic_objective input
      then rval (si_quadratic_sign input) * (\<Sum>r\<leftarrow>[0..<si_num_rows input]. (objective_inner input X r)\<^sup>2) else 0) +
     (\<Sum>bt\<leftarrow>si_bilinear_objective_terms input. \<Sum>r\<leftarrow>[0..<si_num_rows input]. product_meaning X bt r)"

text \<open>The global columns' share, and the part no decision moves, which the model leaves out.\<close>

definition global_meaning :: "SolverInput \<Rightarrow> (idx \<Rightarrow> real) \<Rightarrow> real" where
  "global_meaning input y =
     (\<Sum>g<min (si_num_global_vars input) (length (si_global_obj_coeffs input)). rval (si_global_obj_coeffs input ! g) * y g)"

definition objective_fixed :: "SolverInput \<Rightarrow> real" where
  "objective_fixed input =
     (if si_has_quadratic_objective input
      then rval (si_quadratic_sign input) * (\<Sum>r\<leftarrow>[0..<si_num_rows input]. (objective_inner input (\<lambda>v r. 0) r)\<^sup>2) else 0)"

definition col_finite :: "coefficient_column \<Rightarrow> bool" where
  "col_finite col \<longleftrightarrow> (\<forall>r < logical_size col. isfinite (cc_get col r))"

definition vars_below :: "nat \<Rightarrow> idx option list \<Rightarrow> bool" where
  "vars_below n vs \<longleftrightarrow> (\<forall>v. Some v \<in> set vs \<longrightarrow> v < n)"

definition objective_ok :: "SolverInput \<Rightarrow> bool" where
  "objective_ok input \<longleftrightarrow>
     vars_below (si_num_decide_vars input) (si_objective_variable_indices input) \<and>
     vars_below (si_num_decide_vars input) (si_quadratic_inner_variable_indices input) \<and>
     list_all col_finite (si_objective_coefficients input) \<and>
     list_all col_finite (si_quadratic_inner_coefficients input) \<and>
     list_all isfinite (si_global_obj_coeffs input) \<and> isfinite (si_quadratic_sign input) \<and>
     list_all (\<lambda>bt. bt_var_a bt < si_num_decide_vars input \<and> bt_var_b bt < si_num_decide_vars input \<and>
                    col_finite (bt_row_coefficients bt) \<and>
                    logical_size (bt_row_coefficients bt) = si_num_rows input)
       (si_bilinear_objective_terms input)"

section \<open>The objective as contributions\<close>

definition objective_adds :: "SolverInput \<Rightarrow> idx \<Rightarrow> (idx \<times> dbl) list" where
  "objective_adds input t =
     (if t \<ge> length (si_objective_coefficients input) then []
      else let col = si_objective_coefficients input ! t
           in case si_objective_variable_indices input ! t of
                None \<Rightarrow> []
              | Some v \<Rightarrow>
                  if scope_of input v = SCALAR \<and> \<not> obj_reduced input t
                  then [(Get (BuildIndexer input) v 0, if logical_size col > 0 then cc_get col 0 else 1)]
                  else map (\<lambda>r. (Get (BuildIndexer input) v r, cc_get col r))
                         [0..<min (si_num_rows input) (logical_size col)])"

lemma vars_belowD: "vars_below n vs \<Longrightarrow> t < length vs \<Longrightarrow> vs ! t = Some v \<Longrightarrow> v < n"
  by (metis vars_below_def nth_mem)

lemma objective_term_adds:
  assumes "vars_below (si_num_decide_vars input) (si_objective_variable_indices input)"
    and "t < length (si_objective_variable_indices input)"
  shows "objective_term input (BuildIndexer input) t = fold (\<lambda>(i, c). vec_add i c) (objective_adds input t)"
  using vars_belowD [OF assms]
  by (auto simp: objective_term_def objective_adds_def Let_def fold_map comp_def fun_eq_iff split: option.split)

lemma Get_scalar_lt:
  "v < si_num_decide_vars input \<Longrightarrow> scope_of input v = SCALAR \<Longrightarrow> Get (BuildIndexer input) v r < global_start input"
  using instance_block(3) [of v input 0]
  by (simp add: Get_instance_of instance_of_def NumInstances_cases)

lemma objective_adds_ok:
  assumes "indexable input" "objective_ok input" "t < length (si_objective_variable_indices input)"
    and "(i, c) \<in> set (objective_adds input t)"
  shows "i < global_start input \<and> isfinite c"
proof -
  have vars: "vars_below (si_num_decide_vars input) (si_objective_variable_indices input)"
    and cols: "list_all col_finite (si_objective_coefficients input)"
    using assms(2) by (simp_all add: objective_ok_def)
  have "t < length (si_objective_coefficients input)" "si_objective_variable_indices input ! t \<noteq> None"
    using assms(4) by (cases "si_objective_variable_indices input ! t"; simp add: objective_adds_def split: if_splits)+
  then obtain v where t: "t < length (si_objective_coefficients input)"
    "si_objective_variable_indices input ! t = Some v" by blast
  have v: "v < si_num_decide_vars input" using vars_belowD [OF vars assms(3) t(2)] .
  have fin: "isfinite (cc_get (si_objective_coefficients input ! t) r)"
    if "r < logical_size (si_objective_coefficients input ! t)" for r
    using cols t(1) that by (simp add: list_all_length col_finite_def)
  show ?thesis
    using assms(4) t fin Get_scalar_lt [OF v] num.at_row_lt [OF assms(1) v]
    by (auto simp: objective_adds_def Let_def fin_intro split: if_splits)
qed

lemma objective_adds_val:
  "(\<Sum>(i, c)\<leftarrow>objective_adds input t. rval c * x i) = linear_meaning input (at_flat input x) t"
  by (simp add: objective_adds_def linear_meaning_def Let_def at_flat_def comp_def split: option.split)

lemma sum_list_concat_map: "(\<Sum>z\<leftarrow>concat (map f xs). g z) = (\<Sum>x\<leftarrow>xs. \<Sum>z\<leftarrow>f x. g z)"
  by (induction xs) simp_all

subsection \<open>Global coefficients\<close>

lemma global_objective_closed:
  fixes input
  defines "s \<equiv> global_start input" and "l \<equiv> length (si_global_obj_coeffs input)"
  assumes "k \<le> si_num_global_vars input"
  shows "fold (\<lambda>g obj. if g < l then obj[s + g := si_global_obj_coeffs input ! g] else obj) [0..<k]
           (replicate (s + si_num_global_vars input) 0) =
         map (\<lambda>c. if s \<le> c \<and> c < s + min k l then si_global_obj_coeffs input ! (c - s) else 0)
           [0..<s + si_num_global_vars input]"
  using assms(3)
proof (induction k)
  case 0
  then show ?case by (simp add: map_replicate_const) (rule nth_equalityI, auto)
next
  case (Suc k)
  then show ?case
    by (simp add: Suc_leD) (auto simp: nth_list_update min_def intro!: nth_equalityI)
qed

lemma global_objective_val:
  fixes input
  assumes "list_all isfinite (si_global_obj_coeffs input)"
  defines "v \<equiv> global_objective input (BuildIndexer input) (replicate (vi_total_vars (BuildIndexer input)) 0)"
  shows "list_all isfinite v" "length v = vi_total_vars (BuildIndexer input)"
    and "vec_val v x = global_meaning input (\<lambda>g. x (vi_global_block_start (BuildIndexer input) + g))"
proof -
  let ?s = "global_start input" and ?n = "si_num_global_vars input" and ?cs = "si_global_obj_coeffs input"
  have v: "v = map (\<lambda>c. if ?s \<le> c \<and> c < ?s + min ?n (length ?cs) then ?cs ! (c - ?s) else 0) [0..<?s + ?n]"
    unfolding v_def global_objective_def BuildIndexer_fields
    by (rule global_objective_closed) simp
  show "list_all isfinite v" using assms(1) by (auto simp: v list_all_length fin_intro)
  show "length v = vi_total_vars (BuildIndexer input)" by (simp add: v)
  have "vec_val v x = (\<Sum>c<?s + ?n. if c \<in> {?s..<?s + min ?n (length ?cs)} then rval (?cs ! (c - ?s)) * x c else 0)"
    unfolding vec_val_def by (rule sum.cong) (auto simp: v zero_dbl_def)
  also have "\<dots> = (\<Sum>c\<in>{?s..<?s + min ?n (length ?cs)}. rval (?cs ! (c - ?s)) * x c)"
    by (subst sum.inter_restrict [symmetric]) (auto intro!: sum.cong)
  also have "\<dots> = (\<Sum>g<min ?n (length ?cs). rval (?cs ! g) * x (?s + g))"
    using sum.shift_bounds_nat_ivl [of "\<lambda>c. rval (?cs ! (c - ?s)) * x c" 0 ?s "min ?n (length ?cs)"]
    by (simp add: atLeast0LessThan add.commute)
  finally show "vec_val v x = global_meaning input (\<lambda>g. x (vi_global_block_start (BuildIndexer input) + g))"
    by (simp add: global_meaning_def)
qed

subsection \<open>Squares and products\<close>

definition outer_entry :: "dbl \<Rightarrow> (idx \<times> dbl) list \<Rightarrow> nat \<Rightarrow> nat \<Rightarrow> nat \<times> dbl" where
  "outer_entry q_sign ts i j =
     (pack_q_key (max (fst (ts ! i)) (fst (ts ! j))) (min (fst (ts ! i)) (fst (ts ! j))),
      if i \<noteq> j then q_sign * snd (ts ! i) * snd (ts ! j) * Fin 2 else q_sign * snd (ts ! i) * snd (ts ! j))"

definition outer_adds :: "dbl \<Rightarrow> (idx \<times> dbl) list \<Rightarrow> (nat \<times> dbl) list" where
  "outer_adds q_sign ts = concat (map (\<lambda>i. map (outer_entry q_sign ts i) [0..<i + 1]) [0..<length ts])"

lemma outer_product_adds:
  "outer_product q_sign ts q_map = fold (\<lambda>(k, c). hm_add k c) (outer_adds q_sign ts) q_map"
  by (simp add: outer_product_def outer_adds_def outer_entry_def fold_concat fold_map comp_def case_prod_unfold Let_def)

lemma square_of_sum:
  "(\<Sum>i\<leftarrow>[0..<n]. \<Sum>j\<leftarrow>[0..<i + 1]. (if i \<noteq> j then 2 else 1) * (z i * z j)) = (\<Sum>i\<leftarrow>[0..<n]. z i)\<^sup>2"
  for z :: "nat \<Rightarrow> real"
proof (induction n)
  case (Suc n)
  have "(\<Sum>j\<leftarrow>[0..<n]. (if n \<noteq> j then 2 else 1) * (z n * z j)) = 2 * z n * (\<Sum>j\<leftarrow>[0..<n]. z j)"
    unfolding sum_list_const_mult [symmetric]
    by (rule arg_cong [where f = sum_list], rule map_cong [OF refl]) auto
  with Suc show ?case by (simp add: power2_eq_square algebra_simps)
qed simp

lemma outer_adds_ok:
  assumes "isfinite q_sign" "\<forall>(i, a) \<in> set ts. i < 2 ^ 32 \<and> isfinite a"
  shows "\<forall>(k, c) \<in> set (outer_adds q_sign ts). isfinite c \<and> q_key_col k \<le> q_key_row k \<and>
           q_key_row k \<in> fst ` set ts \<and> q_key_col k \<in> fst ` set ts"
    and "(\<Sum>(k, c)\<leftarrow>outer_adds q_sign ts. c * Fin (q_key_val x k)) =
           Fin (rval q_sign * (\<Sum>(i, a)\<leftarrow>ts. rval a * x i)\<^sup>2)"
proof -
  have at: "fst (ts ! i) < 2 ^ 32" "isfinite (snd (ts ! i))" if "i < length ts" for i
    using assms(2) nth_mem [OF that] by (auto simp: case_prod_unfold)
  show "\<forall>(k, c) \<in> set (outer_adds q_sign ts). isfinite c \<and> q_key_col k \<le> q_key_row k \<and>
      q_key_row k \<in> fst ` set ts \<and> q_key_col k \<in> fst ` set ts"
  proof (intro ballI, unfold case_prod_unfold)
    fix e
    assume "e \<in> set (outer_adds q_sign ts)"
    then obtain i j where i: "i < length ts" "j < Suc i" and e: "e = outer_entry q_sign ts i j"
      by (auto simp: outer_adds_def simp del: upt_Suc)
    then have j: "j < length ts" by simp
    let ?a = "fst (ts ! i)" and ?b = "fst (ts ! j)"
    let ?k = "pack_q_key (max ?a ?b) (min ?a ?b)"
    have k: "q_key_row ?k = max ?a ?b \<and> q_key_col ?k = min ?a ?b"
      using at [OF i(1)] at [OF j] by (simp only: q_key_max_min simp_thms)
    have "isfinite (q_sign * snd (ts ! i) * snd (ts ! j))"
      using at [OF i(1)] at [OF j] assms(1) by (intro fin_intro)
    moreover from this have "isfinite (q_sign * snd (ts ! i) * snd (ts ! j) * Fin 2)"
      by (rule isfinite_times) simp
    moreover have "max ?a ?b \<in> fst ` set ts" "min ?a ?b \<in> fst ` set ts"
      using i(1) j by (simp_all add: max_def min_def)
    ultimately show "isfinite (snd e) \<and> q_key_col (fst e) \<le> q_key_row (fst e) \<and>
        q_key_row (fst e) \<in> fst ` set ts \<and> q_key_col (fst e) \<in> fst ` set ts"
      by (auto simp: e outer_entry_def k min_le_iff_disj le_max_iff_disj simp del: max.idem min.idem)
  qed
  define z where "z i = rval (snd (ts ! i)) * x (fst (ts ! i))" for i
  have entry: "(case outer_entry q_sign ts i j of (k, c) \<Rightarrow> c * Fin (q_key_val x k)) =
      Fin (rval q_sign * ((if i \<noteq> j then 2 else 1) * (z i * z j)))"
    if "i < length ts" "j < length ts" for i j
  proof -
    obtain s a b where "q_sign = Fin s" "snd (ts ! i) = Fin a" "snd (ts ! j) = Fin b"
      using assms(1) at [OF \<open>i < length ts\<close>] at [OF \<open>j < length ts\<close>] by (auto simp: isfinite_iff)
    with at [OF that(1)] at [OF that(2)] show ?thesis
      by (cases "i = j") (auto simp: outer_entry_def q_key_val_pack q_key_val_pack [of j j for j, unfolded max.idem min.idem]
          z_def algebra_simps)
  qed
  have "(\<Sum>(k, c)\<leftarrow>outer_adds q_sign ts. c * Fin (q_key_val x k)) =
      (\<Sum>i\<leftarrow>[0..<length ts]. \<Sum>j\<leftarrow>[0..<i + 1]. Fin (rval q_sign * ((if i \<noteq> j then 2 else 1) * (z i * z j))))"
    unfolding outer_adds_def sum_list_concat_map map_map comp_def prod.case
    by (intro arg_cong [where f = sum_list] map_cong refl entry) auto
  also have "\<dots> = Fin (rval q_sign * (\<Sum>i\<leftarrow>[0..<length ts]. z i)\<^sup>2)"
    unfolding sum_list_Fin sum_list_const_mult square_of_sum ..
  also have "(\<Sum>i\<leftarrow>[0..<length ts]. z i) = (\<Sum>(i, a)\<leftarrow>ts. rval a * x i)"
    by (rule arg_cong [where f = sum_list], rule nth_equalityI) (simp_all add: z_def case_prod_unfold)
  finally show "(\<Sum>(k, c)\<leftarrow>outer_adds q_sign ts. c * Fin (q_key_val x k)) =
      Fin (rval q_sign * (\<Sum>(i, a)\<leftarrow>ts. rval a * x i)\<^sup>2)" .
qed

definition bilinear_adds :: "VarIndexer \<Rightarrow> BilinearTerm \<Rightarrow> idx list \<Rightarrow> (nat \<times> dbl) list" where
  "bilinear_adds indexer bt rows =
     map (\<lambda>r. let a = Get indexer (bt_var_a bt) r; b = Get indexer (bt_var_b bt) r
              in (pack_q_key (max a b) (min a b), cc_get (bt_row_coefficients bt) r))
       (filter (\<lambda>r. cc_get (bt_row_coefficients bt) r \<noteq> 0) rows)"

lemma bilinear_q_terms_adds:
  "bilinear_q_terms indexer bt rows q_map = fold (\<lambda>(k, c). hm_add k c) (bilinear_adds indexer bt rows) q_map"
  by (induction rows arbitrary: q_map) (simp_all add: bilinear_q_terms_def bilinear_adds_def Let_def)

lemma bilinear_adds_ok:
  assumes "\<forall>r \<in> set rows. Get indexer (bt_var_a bt) r < n \<and> Get indexer (bt_var_b bt) r < n \<and>
      isfinite (cc_get (bt_row_coefficients bt) r)" and "n \<le> 2 ^ 32"
  shows "\<forall>(k, c) \<in> set (bilinear_adds indexer bt rows). isfinite c \<and> q_key_col k \<le> q_key_row k \<and> q_key_row k < n"
    and "(\<Sum>(k, c)\<leftarrow>bilinear_adds indexer bt rows. c * Fin (q_key_val x k)) =
       Fin (\<Sum>r\<leftarrow>rows. rval (cc_get (bt_row_coefficients bt) r) *
              (x (Get indexer (bt_var_a bt) r) * x (Get indexer (bt_var_b bt) r)))"
proof -
  have lt: "Get indexer (bt_var_a bt) r < 2 ^ 32" "Get indexer (bt_var_b bt) r < 2 ^ 32" if "r \<in> set rows" for r
    using that assms by force+
  show "\<forall>(k, c) \<in> set (bilinear_adds indexer bt rows). isfinite c \<and> q_key_col k \<le> q_key_row k \<and> q_key_row k < n"
    using assms(1) by (clarsimp simp: bilinear_adds_def Let_def) (simp only: q_key_max_min lt, simp)
  show "(\<Sum>(k, c)\<leftarrow>bilinear_adds indexer bt rows. c * Fin (q_key_val x k)) =
       Fin (\<Sum>r\<leftarrow>rows. rval (cc_get (bt_row_coefficients bt) r) *
              (x (Get indexer (bt_var_a bt) r) * x (Get indexer (bt_var_b bt) r)))"
    using assms(1) lt
    by (induction rows) (auto simp: bilinear_adds_def Let_def q_key_val_pack zero_dbl_def elim!: isfiniteE)
qed

text \<open>One row of a square: its variable part and its constant.\<close>

lemma power_row_constant_eq:
  assumes "list_all col_finite cols"
  shows "power_row_constant vis cols r = Fin (power_inner vis cols (\<lambda>v r. 0) r)"
proof -
  have "fold (\<lambda>t c_row. if t < length cols \<and> r < logical_size (cols ! t) \<and> vis ! t = None
        then c_row + cc_get (cols ! t) r else c_row) ts (Fin a) =
      Fin (a + (\<Sum>t\<leftarrow>ts. inner_meaning vis cols (\<lambda>v r. 0) r t))" for ts a
  proof (induction ts arbitrary: a)
    case (Cons t ts)
    have "isfinite (cc_get (cols ! t) r)" if "t < length cols" "r < logical_size (cols ! t)"
      using assms that by (simp add: list_all_length col_finite_def)
    with Cons show ?case by (auto simp: inner_meaning_def isfinite_iff split: option.splits)
  qed simp
  from this [of "[0..<length vis]" 0] show ?thesis
    by (simp add: power_row_constant_def power_inner_def zero_dbl_def)
qed

lemma power_row_terms_ok:
  assumes "list_all col_finite cols" "vars_below nv vis" "(i, a) \<in> set (power_row_terms vi vis cols r)"
  shows "isfinite a \<and> (\<exists>v < nv. i = Get vi v r)"
proof -
  obtain t where t: "t < length vis" "(i, a) \<in> set (if t \<ge> length cols \<or> r \<ge> logical_size (cols ! t) then []
       else let a = cc_get (cols ! t) r in if a = 0 then []
            else (case vis ! t of None \<Rightarrow> [] | Some v \<Rightarrow> [(Get vi v r, a)]))"
    using assms(3) unfolding power_row_terms_def by fastforce
  with assms(1) vars_belowD [OF assms(2) t(1)] show ?thesis
    by (cases "vis ! t") (auto simp: Let_def list_all_length col_finite_def split: if_splits)
qed

lemma power_row_terms_val:
  "(\<Sum>(i, a)\<leftarrow>power_row_terms (BuildIndexer input) vis cols r. rval a * x i) +
     power_inner vis cols (\<lambda>v r. 0) r = power_inner vis cols (at_flat input x) r"
proof -
  define row where "row t = (if t \<ge> length cols \<or> r \<ge> logical_size (cols ! t) then []
     else let a = cc_get (cols ! t) r in if a = 0 then []
          else (case vis ! t of None \<Rightarrow> [] | Some v \<Rightarrow> [(Get (BuildIndexer input) v r, a)]))" for t
  have "(\<Sum>(i, a)\<leftarrow>row t. rval a * x i) + inner_meaning vis cols (\<lambda>v r. 0) r t =
      inner_meaning vis cols (at_flat input x) r t" for t
    by (auto simp: row_def inner_meaning_def Let_def at_flat_def zero_dbl_def split: option.splits)
  then have "(\<Sum>t\<leftarrow>ts. \<Sum>(i, a)\<leftarrow>row t. rval a * x i) + (\<Sum>t\<leftarrow>ts. inner_meaning vis cols (\<lambda>v r. 0) r t) =
      (\<Sum>t\<leftarrow>ts. inner_meaning vis cols (at_flat input x) r t)" for ts
    by (simp flip: sum_list_addf)
  then show ?thesis
    by (simp add: power_row_terms_def power_inner_def sum_list_concat_map row_def [symmetric])
qed

definition cross_adds :: "dbl \<Rightarrow> dbl \<Rightarrow> (idx \<times> dbl) list \<Rightarrow> (idx \<times> dbl) list" where
  "cross_adds q_sign c_row ts = (if c_row \<noteq> 0 then map (\<lambda>(i, a). (i, q_sign * Fin 2 * c_row * a)) ts else [])"

lemma cross_terms_adds:
  "cross_terms q_sign c_row ts obj = fold (\<lambda>(i, c). vec_add i c) (cross_adds q_sign c_row ts) obj"
  by (simp add: cross_terms_def cross_adds_def fold_map comp_def case_prod_unfold)

lemma cross_adds_ok:
  assumes "isfinite q_sign" "\<forall>(i, a) \<in> set ts. isfinite a"
  shows "\<forall>(i, c) \<in> set (cross_adds q_sign (Fin k) ts). isfinite c \<and> i \<in> fst ` set ts"
    and "(\<Sum>(i, c)\<leftarrow>cross_adds q_sign (Fin k) ts. rval c * x i) =
      2 * rval q_sign * k * (\<Sum>(i, a)\<leftarrow>ts. rval a * x i)"
proof -
  obtain s where s: "q_sign = Fin s" using assms(1) by (auto simp: isfinite_iff)
  show "\<forall>(i, c) \<in> set (cross_adds q_sign (Fin k) ts). isfinite c \<and> i \<in> fst ` set ts"
    using assms(2) by (force simp: cross_adds_def s isfinite_iff)
  show "(\<Sum>(i, c)\<leftarrow>cross_adds q_sign (Fin k) ts. rval c * x i) =
      2 * rval q_sign * k * (\<Sum>(i, a)\<leftarrow>ts. rval a * x i)"
  proof (cases "k = 0")
    case False
    have "(\<Sum>(i, c)\<leftarrow>map (\<lambda>(i, a). (i, Fin s * Fin 2 * Fin k * a)) ts. rval c * x i) =
        2 * s * k * (\<Sum>(i, a)\<leftarrow>ts. rval a * x i)"
      using assms(2) by (induction ts) (auto simp: isfinite_iff algebra_simps)
    with False show ?thesis by (simp add: cross_adds_def s zero_dbl_def)
  qed (simp add: cross_adds_def zero_dbl_def)
qed

section \<open>The built objective\<close>

text \<open>The vector of coefficients and the map of products, each as one list of contributions.\<close>

definition power_rows :: "SolverInput \<Rightarrow> idx list" where
  "power_rows input = (if si_has_quadratic_objective input \<and> si_quadratic_inner_variable_indices input \<noteq> []
     then [0..<si_num_rows input] else [])"

definition input_row_terms :: "SolverInput \<Rightarrow> idx \<Rightarrow> (idx \<times> dbl) list" where
  "input_row_terms input = power_row_terms (BuildIndexer input) (si_quadratic_inner_variable_indices input)
     (si_quadratic_inner_coefficients input)"

definition vector_adds :: "SolverInput \<Rightarrow> (idx \<times> dbl) list" where
  "vector_adds input =
     concat (map (objective_adds input) [0..<length (si_objective_variable_indices input)]) @
     concat (map (\<lambda>r. cross_adds (si_quadratic_sign input)
       (power_row_constant (si_quadratic_inner_variable_indices input) (si_quadratic_inner_coefficients input) r)
       (input_row_terms input r)) (power_rows input))"

definition product_adds :: "SolverInput \<Rightarrow> (nat \<times> dbl) list" where
  "product_adds input =
     concat (map (\<lambda>r. outer_adds (si_quadratic_sign input) (input_row_terms input r)) (power_rows input)) @
     concat (map (\<lambda>bt. bilinear_adds (BuildIndexer input) bt [0..<si_num_rows input])
       (si_bilinear_objective_terms input))"

definition objective_phase :: "SolverInput \<Rightarrow> VarIndexer \<Rightarrow> SolverModel \<Rightarrow> SolverModel" where
  "objective_phase input indexer model = quadratic_objective input indexer (linear_objective input indexer model)"

lemma fold_pair: "fold (\<lambda>a (x, y). (f a x, g a y)) as (x, y) = (fold f as x, fold g as y)"
  by (induction as arbitrary: x y) simp_all

lemma objective_phase_parts:
  assumes "objective_ok input" "sm_q_rows model = []" "sm_q_cols model = []" "sm_q_vals model = []"
  defines "m \<equiv> objective_phase input (BuildIndexer input) model"
    and "entries \<equiv> hm_nonzero (fold (\<lambda>(k, c). hm_add k c) (product_adds input) [])"
  shows "sm_obj_coeffs m = fold (\<lambda>(i, c). vec_add i c) (vector_adds input)
      (global_objective input (BuildIndexer input) (replicate (vi_total_vars (BuildIndexer input)) 0))"
    and "sm_q_rows m = map (q_key_row \<circ> fst) entries" "sm_q_cols m = map (q_key_col \<circ> fst) entries"
    and "sm_q_vals m = map snd entries"
proof -
  let ?vi = "BuildIndexer input" and ?ts = "[0..<length (si_objective_variable_indices input)]"
  let ?g = "global_objective input ?vi (replicate (vi_total_vars ?vi) 0)"
  let ?rows = "[0..<si_num_rows input]" and ?bts = "si_bilinear_objective_terms input"
  have vars: "vars_below (si_num_decide_vars input) (si_objective_variable_indices input)"
    using assms(1) by (simp add: objective_ok_def)
  have lin: "fold (objective_term input ?vi) ?ts ?g =
      fold (\<lambda>(i, c). vec_add i c) (concat (map (objective_adds input) ?ts)) ?g"
    unfolding fold_concat fold_map comp_def
    by (rule fold_cong) (simp_all add: objective_term_adds [OF vars])
  define q where "q = fold (\<lambda>(k, c). hm_add k c)
    (concat (map (\<lambda>r. outer_adds (si_quadratic_sign input) (input_row_terms input r)) (power_rows input))) []"
  define v where "v = fold (\<lambda>(i, c). vec_add i c) (vector_adds input) ?g"
  have power: "fold (power_objective_row input ?vi) ?rows ([], fold (objective_term input ?vi) ?ts ?g) = (q, v)"
    if "si_has_quadratic_objective input \<and> si_quadratic_inner_variable_indices input \<noteq> []"
  proof -
    have rows: "power_rows input = ?rows" using that by (simp add: power_rows_def)
    have "power_objective_row input ?vi = (\<lambda>r (x, y).
        (fold (\<lambda>(k, c). hm_add k c) (outer_adds (si_quadratic_sign input) (input_row_terms input r)) x,
         fold (\<lambda>(i, c). vec_add i c) (cross_adds (si_quadratic_sign input)
           (power_row_constant (si_quadratic_inner_variable_indices input) (si_quadratic_inner_coefficients input) r)
           (input_row_terms input r)) y))"
      by (simp add: power_objective_row_def fun_eq_iff Let_def outer_product_adds cross_terms_adds
          input_row_terms_def)
    then show ?thesis
      by (simp only: fold_pair q_def v_def rows vector_adds_def fold_append comp_def fold_concat fold_map lin
          [unfolded fold_concat fold_map comp_def])
  qed
  have none: "q = []" "v = fold (objective_term input ?vi) ?ts ?g"
    if "\<not> (si_has_quadratic_objective input \<and> si_quadratic_inner_variable_indices input \<noteq> [])"
  proof -
    have "power_rows input = []" using that by (auto simp: power_rows_def)
    then show "q = []" "v = fold (objective_term input ?vi) ?ts ?g"
      unfolding q_def v_def vector_adds_def lin by simp_all
  qed
  have bil: "fold (\<lambda>bt. bilinear_q_terms ?vi bt ?rows) ?bts q = fold (\<lambda>(k, c). hm_add k c) (product_adds input) []"
  proof -
    have "bilinear_q_terms ?vi bt ?rows = fold (\<lambda>(k, c). hm_add k c) (bilinear_adds ?vi bt ?rows)" for bt
      by (rule ext) (rule bilinear_q_terms_adds)
    then show ?thesis by (simp add: product_adds_def q_def fold_concat fold_map comp_def)
  qed
  have m: "sm_obj_coeffs m = v \<and> sm_q_rows m = map (q_key_row \<circ> fst) entries \<and>
      sm_q_cols m = map (q_key_col \<circ> fst) entries \<and> sm_q_vals m = map snd entries"
  proof (cases "si_has_quadratic_objective input \<and> si_quadratic_inner_variable_indices input \<noteq> []")
    case True
    then show ?thesis
      using bil by (cases "?bts = []")
        (simp_all add: m_def objective_phase_def quadratic_objective_def linear_objective_def power entries_def Let_def
          del: BuildIndexer_fields)
  next
    case False
    show ?thesis
    proof (cases "?bts = []")
      case True
      with False bil none have "entries = []" by (simp add: entries_def hm_nonzero_def)
      with True False none show ?thesis
        by (auto simp: m_def objective_phase_def quadratic_objective_def linear_objective_def assms Let_def
            simp del: BuildIndexer_fields)
    next
      case bts: False
      with False bil none show ?thesis
        by (auto simp: m_def objective_phase_def quadratic_objective_def linear_objective_def entries_def Let_def
            simp del: BuildIndexer_fields)
    qed
  qed
  then show "sm_obj_coeffs m = fold (\<lambda>(i, c). vec_add i c) (vector_adds input) ?g"
    "sm_q_rows m = map (q_key_row \<circ> fst) entries" "sm_q_cols m = map (q_key_col \<circ> fst) entries"
    "sm_q_vals m = map snd entries" by (simp_all add: v_def)
qed

lemma input_row_terms_ok:
  assumes "indexable input" "objective_ok input" "r \<in> set (power_rows input)"
  shows "\<forall>(i, a) \<in> set (input_row_terms input r). i < global_start input \<and> isfinite a"
proof -
  have "list_all col_finite (si_quadratic_inner_coefficients input)"
    "vars_below (si_num_decide_vars input) (si_quadratic_inner_variable_indices input)"
    using assms(2) by (simp_all add: objective_ok_def)
  moreover have "r < si_num_rows input" using assms(3) by (auto simp: power_rows_def split: if_splits)
  ultimately show ?thesis
    using num.at_row_lt [OF assms(1)] unfolding input_row_terms_def by (auto dest!: power_row_terms_ok)
qed

lemma input_row_terms_val:
  "(\<Sum>(i, a)\<leftarrow>input_row_terms input r. rval a * x i) =
     objective_inner input (at_flat input x) r - objective_inner input (\<lambda>v r. 0) r"
  using power_row_terms_val [where vis = "si_quadratic_inner_variable_indices input" and input = input and
      cols = "si_quadratic_inner_coefficients input" and r = r and x = x]
  by (simp add: input_row_terms_def)

lemma vector_adds_ok:
  assumes "indexable input" "objective_ok input"
  shows "\<forall>(i, c) \<in> set (vector_adds input). i < global_start input \<and> isfinite c"
    and "(\<Sum>(i, c)\<leftarrow>vector_adds input. rval c * x i) =
      (\<Sum>t\<leftarrow>[0..<length (si_objective_variable_indices input)]. linear_meaning input (at_flat input x) t) +
      (\<Sum>r\<leftarrow>power_rows input. 2 * rval (si_quadratic_sign input) * objective_inner input (\<lambda>v r. 0) r *
         (objective_inner input (at_flat input x) r - objective_inner input (\<lambda>v r. 0) r))"
proof -
  have sign: "isfinite (si_quadratic_sign input)" and cols: "list_all col_finite (si_quadratic_inner_coefficients input)"
    using assms(2) by (simp_all add: objective_ok_def)
  have terms: "\<forall>(i, a) \<in> set (input_row_terms input r). isfinite a" if "r \<in> set (power_rows input)" for r
    using input_row_terms_ok [OF assms that] by auto
  note cross = cross_adds_ok [OF sign terms]
  show "\<forall>(i, c) \<in> set (vector_adds input). i < global_start input \<and> isfinite c"
    using objective_adds_ok [OF assms] cross(1) input_row_terms_ok [OF assms]
    by (fastforce simp: vector_adds_def power_row_constant_eq [OF cols])
  have "(\<Sum>r\<leftarrow>rs. \<Sum>(i, c)\<leftarrow>cross_adds (si_quadratic_sign input) (Fin (k r)) (input_row_terms input r). rval c * x i) =
      (\<Sum>r\<leftarrow>rs. 2 * rval (si_quadratic_sign input) * k r * (\<Sum>(i, a)\<leftarrow>input_row_terms input r. rval a * x i))"
    if "set rs \<subseteq> set (power_rows input)" for rs k
    using that cross(2) by (intro arg_cong [where f = sum_list] map_cong refl) auto
  then show "(\<Sum>(i, c)\<leftarrow>vector_adds input. rval c * x i) =
      (\<Sum>t\<leftarrow>[0..<length (si_objective_variable_indices input)]. linear_meaning input (at_flat input x) t) +
      (\<Sum>r\<leftarrow>power_rows input. 2 * rval (si_quadratic_sign input) * objective_inner input (\<lambda>v r. 0) r *
         (objective_inner input (at_flat input x) r - objective_inner input (\<lambda>v r. 0) r))"
    by (simp add: vector_adds_def sum_list_concat_map objective_adds_val power_row_constant_eq [OF cols]
        input_row_terms_val)
qed

lemma product_adds_ok:
  assumes "indexable input" "objective_ok input" "global_start input \<le> 2 ^ 32"
  shows "\<forall>(k, c) \<in> set (product_adds input). isfinite c \<and> q_key_col k \<le> q_key_row k \<and> q_key_row k < global_start input"
    and "(\<Sum>(k, c)\<leftarrow>product_adds input. c * Fin (q_key_val x k)) =
      Fin (rval (si_quadratic_sign input) * (\<Sum>r\<leftarrow>power_rows input.
             (objective_inner input (at_flat input x) r - objective_inner input (\<lambda>v r. 0) r)\<^sup>2) +
           (\<Sum>bt\<leftarrow>si_bilinear_objective_terms input. \<Sum>r\<leftarrow>[0..<si_num_rows input].
             product_meaning (at_flat input x) bt r))"
proof -
  have sign: "isfinite (si_quadratic_sign input)" using assms(2) by (simp add: objective_ok_def)
  have terms: "\<forall>(i, a) \<in> set (input_row_terms input r). i < 2 ^ 32 \<and> isfinite a"
    if "r \<in> set (power_rows input)" for r
    using input_row_terms_ok [OF assms(1,2) that] assms(3) by fastforce
  note outer = outer_adds_ok [OF sign terms]
  have bts: "\<forall>r \<in> set [0..<si_num_rows input]. Get (BuildIndexer input) (bt_var_a bt) r < global_start input \<and>
      Get (BuildIndexer input) (bt_var_b bt) r < global_start input \<and> isfinite (cc_get (bt_row_coefficients bt) r)"
    if "bt \<in> set (si_bilinear_objective_terms input)" for bt
    using that assms(1,2) num.at_row_lt by (auto simp: objective_ok_def list_all_iff col_finite_def)
  note bil = bilinear_adds_ok [OF bts assms(3)]
  have "isfinite c \<and> q_key_col k \<le> q_key_row k \<and> q_key_row k < global_start input"
    if r: "r \<in> set (power_rows input)" and kc: "(k, c) \<in> set (outer_adds (si_quadratic_sign input) (input_row_terms input r))"
    for r k c
    using outer(1) [OF r] kc input_row_terms_ok [OF assms(1,2) r] by fastforce
  then show "\<forall>(k, c) \<in> set (product_adds input). isfinite c \<and> q_key_col k \<le> q_key_row k \<and> q_key_row k < global_start input"
    using bil(1) by (fastforce simp: product_adds_def)
  have "(\<Sum>r\<leftarrow>rs. \<Sum>(k, c)\<leftarrow>outer_adds (si_quadratic_sign input) (input_row_terms input r). c * Fin (q_key_val x k)) =
      Fin (rval (si_quadratic_sign input) * (\<Sum>r\<leftarrow>rs.
        (objective_inner input (at_flat input x) r - objective_inner input (\<lambda>v r. 0) r)\<^sup>2))"
    if "set rs \<subseteq> set (power_rows input)" for rs
    using that outer(2) unfolding sum_list_const_mult [symmetric] sum_list_Fin [symmetric] input_row_terms_val
    by (intro arg_cong [where f = sum_list] map_cong refl) auto
  moreover have "(\<Sum>bt\<leftarrow>bs. \<Sum>(k, c)\<leftarrow>bilinear_adds (BuildIndexer input) bt [0..<si_num_rows input].
        c * Fin (q_key_val x k)) =
      Fin (\<Sum>bt\<leftarrow>bs. \<Sum>r\<leftarrow>[0..<si_num_rows input]. product_meaning (at_flat input x) bt r)"
    if "set bs \<subseteq> set (si_bilinear_objective_terms input)" for bs
    using that bil(2) unfolding sum_list_Fin [where xs = bs, symmetric] product_meaning_def at_flat_def
    by (intro arg_cong [where f = sum_list] map_cong refl) auto
  ultimately show "(\<Sum>(k, c)\<leftarrow>product_adds input. c * Fin (q_key_val x k)) =
      Fin (rval (si_quadratic_sign input) * (\<Sum>r\<leftarrow>power_rows input.
             (objective_inner input (at_flat input x) r - objective_inner input (\<lambda>v r. 0) r)\<^sup>2) +
           (\<Sum>bt\<leftarrow>si_bilinear_objective_terms input. \<Sum>r\<leftarrow>[0..<si_num_rows input].
             product_meaning (at_flat input x) bt r))"
    by (simp add: product_adds_def sum_list_concat_map)
qed

lemma objective_phase_value:
  assumes "indexable input" "objective_ok input" "vi_total_vars (BuildIndexer input) \<le> 2 ^ 32"
    and "sm_q_rows model = []" "sm_q_cols model = []" "sm_q_vals model = []"
  defines "m \<equiv> objective_phase input (BuildIndexer input) model"
  shows "obj_val m x = Fin (objective_meaning input (at_flat input x) +
           global_meaning input (\<lambda>g. x (vi_global_block_start (BuildIndexer input) + g)) - objective_fixed input)"
    and "length (sm_obj_coeffs m) = vi_total_vars (BuildIndexer input)" "list_all isfinite (sm_obj_coeffs m)"
    and "list_all (\<lambda>((r, c), v). c \<le> r \<and> r < vi_total_vars (BuildIndexer input) \<and> isfinite v)
           (zip (zip (sm_q_rows m) (sm_q_cols m)) (sm_q_vals m))"
    and "length (sm_q_cols m) = length (sm_q_rows m)" "length (sm_q_vals m) = length (sm_q_rows m)"
proof -
  let ?vi = "BuildIndexer input" and ?s = "rval (si_quadratic_sign input)"
  let ?g = "global_objective input ?vi (replicate (vi_total_vars ?vi) 0)"
  define entries where "entries = hm_nonzero (fold (\<lambda>(k, c). hm_add k c) (product_adds input) [])"
  note parts = objective_phase_parts [OF assms(2,4-6), folded m_def entries_def]
  have globals: "list_all isfinite (si_global_obj_coeffs input)" using assms(2) by (simp add: objective_ok_def)
  note start = global_objective_val [OF globals]
  have le: "global_start input \<le> 2 ^ 32" using assms(3) by simp
  have adds: "\<forall>(i, c) \<in> set (vector_adds input). i < length ?g \<and> isfinite c"
    using vector_adds_ok(1) [OF assms(1,2)] unfolding start(2) by fastforce
  note vec = vec_adds_val [OF start(1) adds, of x, folded parts(1), THEN conjunct1]
    vec_adds_val [OF start(1) adds, of x, folded parts(1), THEN conjunct2, THEN conjunct1]
    vec_adds_val [OF start(1) adds, of x, folded parts(1), THEN conjunct2, THEN conjunct2]
  show "length (sm_obj_coeffs m) = vi_total_vars ?vi" using vec(2) start(2) by simp
  show "list_all isfinite (sm_obj_coeffs m)" by (rule vec(1))
  show "length (sm_q_cols m) = length (sm_q_rows m)" "length (sm_q_vals m) = length (sm_q_rows m)"
    by (simp_all add: parts)
  have q: "\<forall>(k, c) \<in> set (product_adds input). isfinite c"
    "\<forall>k \<in> fst ` set (product_adds input). q_key_col k \<le> q_key_row k \<and> q_key_row k < global_start input"
    using product_adds_ok(1) [OF assms(1,2) le] by auto
  note row = hm_row [OF q(1), folded entries_def]
  have zipped: "zip (zip (sm_q_rows m) (sm_q_cols m)) (sm_q_vals m) =
      map (\<lambda>(k, c). ((q_key_row k, q_key_col k), c)) entries"
    unfolding parts(2-4) by (rule nth_equalityI) (simp_all add: case_prod_unfold)
  show "list_all (\<lambda>((r, c), v). c \<le> r \<and> r < vi_total_vars ?vi \<and> isfinite v)
      (zip (zip (sm_q_rows m) (sm_q_cols m)) (sm_q_vals m))"
    unfolding zipped using row(4,5) q(2) by (fastforce simp: list_all_iff)
  have "quad_val (sm_q_rows m) (sm_q_cols m) (sm_q_vals m) x =
      lin_val (map fst entries) (map snd entries) (q_key_val x)"
    by (simp add: quad_val_def zipped lin_val_def q_key_val_def zip_map_fst_snd comp_def case_prod_unfold)
  also have "\<dots> = (\<Sum>(k, c)\<leftarrow>product_adds input. c * Fin (q_key_val x k))" by (rule row(1))
  finally have quad: "quad_val (sm_q_rows m) (sm_q_cols m) (sm_q_vals m) x =
      (\<Sum>(k, c)\<leftarrow>product_adds input. c * Fin (q_key_val x k))" .
  let ?P = "\<lambda>r. objective_inner input (at_flat input x) r" and ?k = "\<lambda>r. objective_inner input (\<lambda>v r. 0) r"
  have square: "(\<Sum>r\<leftarrow>rs. 2 * ?s * ?k r * (?P r - ?k r)) + ?s * (\<Sum>r\<leftarrow>rs. (?P r - ?k r)\<^sup>2) =
      ?s * (\<Sum>r\<leftarrow>rs. (?P r)\<^sup>2) - ?s * (\<Sum>r\<leftarrow>rs. (?k r)\<^sup>2)" for rs
    by (induction rs) (simp_all add: power2_eq_square algebra_simps)
  have power: "?s * (\<Sum>r\<leftarrow>power_rows input. (?P r)\<^sup>2) - ?s * (\<Sum>r\<leftarrow>power_rows input. (?k r)\<^sup>2) =
      (if si_has_quadratic_objective input then ?s * (\<Sum>r\<leftarrow>[0..<si_num_rows input]. (?P r)\<^sup>2) else 0) -
      objective_fixed input"
    by (auto simp: power_rows_def objective_fixed_def power_inner_def)
  show "obj_val m x = Fin (objective_meaning input (at_flat input x) +
      global_meaning input (\<lambda>g. x (vi_global_block_start ?vi + g)) - objective_fixed input)"
    using square [of "power_rows input"] power
    unfolding obj_val_def vec_val_lin [OF vec(1)] vec(3) quad product_adds_ok(2) [OF assms(1,2) le]
      vector_adds_ok(2) [OF assms(1,2)] start(3) objective_meaning_def by simp
qed

end
