(* ===== verification/CLiterals.thy ===== *)
theory CLiterals
  imports DecidePrelude
begin

text \<open>
  \<open>ParseLiteralCoefficient\<close> of \<open>ilp_model_builder.cpp\<close>: whether a coefficient's label is wholly a
  number, decided by the C library's \<open>strtod\<close> in the C locale. \<open>strtod\<close> gives the value and the
  unread rest, or nothing when no conversion is done. The spellings of infinity and NaN are left to
  that case: they are not finite, and the caller returns \<open>false\<close> for either.
\<close>

section \<open>strtod\<close>

definition isspace :: "char \<Rightarrow> bool" where
  "isspace c \<longleftrightarrow> of_char c \<in> {9, 10, 11, 12, 13, 32 :: nat}"

definition digit_value :: "char \<Rightarrow> nat option" where
  "digit_value c = (let k = of_char c :: nat in
     if 48 \<le> k \<and> k \<le> 57 then Some (k - 48)
     else if 97 \<le> k \<and> k \<le> 102 then Some (k - 87)
     else if 65 \<le> k \<and> k \<le> 70 then Some (k - 55) else None)"

definition is_digit :: "nat \<Rightarrow> char \<Rightarrow> bool" where
  "is_digit base c = (case digit_value c of None \<Rightarrow> False | Some d \<Rightarrow> d < base)"

definition digits_value :: "nat \<Rightarrow> string \<Rightarrow> nat" where
  "digits_value base s = fold (\<lambda>c n. base * n + the (digit_value c)) s 0"

text \<open>An optional sign: whether it is a minus, and the rest.\<close>

fun split_sign :: "string \<Rightarrow> bool \<times> string" where
  "split_sign [] = (False, [])"
| "split_sign (c # s) = (if c = CHR ''-'' then (True, s) else if c = CHR ''+'' then (False, s) else (False, c # s))"

text \<open>The exponent part; without a digit behind the letter it is not part of the number.\<close>

definition split_exponent :: "char \<Rightarrow> char \<Rightarrow> string \<Rightarrow> int \<times> string" where
  "split_exponent low up s =
     (case s of
        [] \<Rightarrow> (0, [])
      | c # s1 \<Rightarrow>
          let (neg, s2) = split_sign s1; ds = takeWhile (is_digit 10) s2; e = int (digits_value 10 ds)
          in if (c = low \<or> c = up) \<and> ds \<noteq> []
             then (if neg then - e else e, dropWhile (is_digit 10) s2) else (0, s))"

definition split_fraction :: "nat \<Rightarrow> string \<Rightarrow> string \<times> string" where
  "split_fraction base s =
     (case s of
        [] \<Rightarrow> ([], [])
      | c # s1 \<Rightarrow> if c = CHR ''.'' then (takeWhile (is_digit base) s1, dropWhile (is_digit base) s1) else ([], s))"

text \<open>Digits, fraction and exponent in one base; the exponent counts in powers of \<open>ebase\<close>.\<close>

definition number_in :: "nat \<Rightarrow> real \<Rightarrow> char \<Rightarrow> char \<Rightarrow> string \<Rightarrow> (real \<times> string) option" where
  "number_in base ebase low up s =
     (let ds = takeWhile (is_digit base) s; (fs, s2) = split_fraction base (dropWhile (is_digit base) s)
      in if ds = [] \<and> fs = [] then None
         else let (e, s3) = split_exponent low up s2
              in Some (real (digits_value base (ds @ fs)) / real base ^ length fs * ebase powi e, s3))"

definition magnitude :: "string \<Rightarrow> (real \<times> string) option" where
  "magnitude s =
     (case s of
        c0 # c1 # s2 \<Rightarrow>
          if c0 = CHR ''0'' \<and> (c1 = CHR ''x'' \<or> c1 = CHR ''X'')
          then (case number_in 16 2 (CHR ''p'') (CHR ''P'') s2 of None \<Rightarrow> Some (0, c1 # s2) | Some r \<Rightarrow> Some r)
          else number_in 10 10 (CHR ''e'') (CHR ''E'') s
      | _ \<Rightarrow> number_in 10 10 (CHR ''e'') (CHR ''E'') s)"

text \<open>A magnitude that rounds past the largest double is \<open>HUGE_VAL\<close>.\<close>

definition to_double :: "bool \<Rightarrow> real \<Rightarrow> dbl" where
  "to_double neg m =
     (if m \<ge> (2 - 1 / 2 ^ 53) * 2 ^ 1023 then (if neg then NInf else PInf)
      else Fin (if neg then - m else m))"

definition strtod :: "string \<Rightarrow> (dbl \<times> string) option" where
  "strtod s =
     (let (neg, s1) = split_sign (dropWhile isspace s)
      in map_option (\<lambda>(m, rest). (to_double neg m, rest)) (magnitude s1))"

section \<open>The label of a coefficient\<close>

text \<open>The value written to the reference parameter, or \<open>None\<close> for \<open>false\<close>.\<close>

definition ParseLiteralCoefficient :: "string \<Rightarrow> dbl option" where
  "ParseLiteralCoefficient label =
     (if label = [] then None
      else case strtod label of
             None \<Rightarrow> None
           | Some (parsed, rest) \<Rightarrow> if rest \<noteq> [] \<or> \<not> isfinite parsed then None else Some parsed)"

section \<open>Printed numbers are read back\<close>

definition digit_char :: "nat \<Rightarrow> char" where
  "digit_char d = char_of (48 + d)"

function show_nat :: "nat \<Rightarrow> string" where
  "show_nat n = (if n < 10 then [digit_char n] else show_nat (n div 10) @ [digit_char (n mod 10)])"
  by pat_completeness auto
termination by (relation "measure id") auto

declare show_nat.simps [simp del]

lemma digit_char_facts:
  assumes "d < 10"
  shows "digit_value (digit_char d) = Some d" "is_digit 10 (digit_char d)" "\<not> isspace (digit_char d)"
    "digit_char d \<notin> {CHR ''-'', CHR ''+'', CHR ''.'', CHR ''x'', CHR ''X''}"
proof -
  have code: "of_char (digit_char d) = 48 + d" using assms by (simp add: digit_char_def)
  from assms show "digit_value (digit_char d) = Some d" by (simp add: digit_value_def code)
  with assms show "is_digit 10 (digit_char d)" by (simp add: is_digit_def)
  from assms show "\<not> isspace (digit_char d)" by (simp add: isspace_def code)
  have "of_char (digit_char d) \<notin> {45, 43, 46, 120, 88 :: nat}" using assms by (simp add: code)
  then show "digit_char d \<notin> {CHR ''-'', CHR ''+'', CHR ''.'', CHR ''x'', CHR ''X''}" by auto
qed

lemma show_nat_digits: "\<exists>ds. ds \<noteq> [] \<and> (\<forall>d \<in> set ds. d < 10) \<and> show_nat n = map digit_char ds"
proof (induction n rule: show_nat.induct)
  case (1 n)
  show ?case
  proof (cases "n < 10")
    case True
    then show ?thesis by (intro exI [of _ "[n]"]) (simp add: show_nat.simps [of n])
  next
    case False
    with 1 obtain ds where "ds \<noteq> []" "\<forall>d \<in> set ds. d < 10" "show_nat (n div 10) = map digit_char ds" by blast
    with False show ?thesis by (intro exI [of _ "ds @ [n mod 10]"]) (simp add: show_nat.simps [of n])
  qed
qed

lemma digits_value_show: "digits_value 10 (show_nat n) = n"
proof (induction n rule: show_nat.induct)
  case (1 n)
  then show ?case
    by (cases "n < 10") (simp_all add: show_nat.simps [of n] digits_value_def digit_char_facts)
qed

lemma number_in_digits:
  assumes "s \<noteq> []" "\<forall>c \<in> set s. is_digit 10 c"
  shows "number_in 10 10 low up s = Some (real (digits_value 10 s), [])"
proof -
  have eqs: "takeWhile (is_digit 10) s = s" "dropWhile (is_digit 10) s = []" using assms(2) by simp_all
  show ?thesis using assms(1) unfolding number_in_def eqs Let_def
    by (simp add: split_fraction_def split_exponent_def)
qed

lemma parse_digits:
  assumes "ds \<noteq> []" "\<forall>d \<in> set ds. d < 10"
  shows "strtod (map digit_char ds) =
    Some (to_double False (real (digits_value 10 (map digit_char ds))), [])"
proof -
  obtain d ds' where ds: "ds = d # ds'" using assms(1) by (cases ds) auto
  have digits: "\<forall>c \<in> set (map digit_char ds). is_digit 10 c" using assms(2) by (auto simp: digit_char_facts)
  have "split_sign (dropWhile isspace (map digit_char ds)) = (False, map digit_char ds)"
    using assms(2) digit_char_facts(3,4) [of d] by (simp add: ds)
  moreover have "magnitude (map digit_char ds) = number_in 10 10 (CHR ''e'') (CHR ''E'') (map digit_char ds)"
  proof (cases ds')
    case (Cons d2 ds2)
    then have "digit_char d2 \<notin> {CHR ''x'', CHR ''X''}" using digit_char_facts(4) [of d2] assms(2) ds by simp
    with Cons ds show ?thesis by (simp add: magnitude_def)
  qed (simp add: magnitude_def ds)
  ultimately show ?thesis
    using number_in_digits [OF _ digits] assms(1) by (simp add: strtod_def)
qed

text \<open>
  A coefficient label that is a decimal integer is recognised as a written coefficient, and with
  its value.
\<close>

theorem literal_coefficient_roundtrip:
  assumes "real n < 2 ^ 1023"
  shows "ParseLiteralCoefficient (show_nat n) = Some (Fin (real n))"
proof -
  obtain ds where ds: "ds \<noteq> []" "\<forall>d \<in> set ds. d < 10" "show_nat n = map digit_char ds"
    using show_nat_digits by blast
  have "(1 :: real) * 2 ^ 1023 \<le> (2 - 1 / 2 ^ 53) * 2 ^ 1023" by (intro mult_right_mono) simp_all
  then have "\<not> real n \<ge> (2 - 1 / 2 ^ 53) * 2 ^ 1023" using assms by linarith
  then have "strtod (show_nat n) = Some (Fin (real n), [])"
    using parse_digits [OF ds(1,2)] digits_value_show [of n] by (simp only: ds(3) to_double_def if_False)
  with ds show ?thesis by (simp add: ParseLiteralCoefficient_def)
qed

lemma literal_coefficient_roundtrip_witness:
  "ParseLiteralCoefficient (show_nat 250) = Some (Fin 250)"
proof -
  have "real 250 < 2 ^ 8" by simp
  also have "(2 :: real) ^ 8 \<le> 2 ^ 1023" by (rule power_increasing) simp_all
  finally show ?thesis using literal_coefficient_roundtrip [of 250] by simp
qed

end
