(* ===== verification/ModelRows.thy ===== *)
theory ModelRows
  imports ModelObjective CLiterals NotEqualExact
begin

text \<open>
  The linear rows of \<open>SolverModel::Build\<close> (\<open>ilp_model_builder.cpp\<close>): the integrality test that gates
  strict comparisons, \<open>ApplyComparisonSense\<close>, \<open>PushNormalizedConstraint\<close>, the provenance stamps, and
  the loop over the evaluated constraints with its three shapes (an aggregate over all rows, one per
  group, one row constraint per row).

  The main lemmas say that the rows pushed for a constraint hold at a point exactly when the
  constraint does, and that a model flagged infeasible while it is built has a row no point meets.
\<close>

section \<open>Strict comparisons\<close>

datatype LhsIntegrality = LHS_INTEGER | LHS_REAL_VARIABLE | LHS_FRACTIONAL_COEFFICIENT

primrec linear_integrality :: "LogicalType list \<Rightarrow> row_terms \<Rightarrow> LhsIntegrality" where
  "linear_integrality types [] = LHS_INTEGER"
| "linear_integrality types (t # ts) =
     (case fst t of
        None \<Rightarrow> linear_integrality types ts
      | Some v \<Rightarrow>
          if IsRealType (types ! v) then LHS_REAL_VARIABLE
          else if \<not> AllIntegral (snd t) then LHS_FRACTIONAL_COEFFICIENT
          else linear_integrality types ts)"

primrec bilinear_integrality :: "LogicalType list \<Rightarrow> BilinearTerm list \<Rightarrow> LhsIntegrality" where
  "bilinear_integrality types [] = LHS_INTEGER"
| "bilinear_integrality types (bt # bts) =
     (if IsRealType (types ! bt_var_a bt) then LHS_REAL_VARIABLE
      else if IsRealType (types ! bt_var_b bt) then LHS_REAL_VARIABLE
      else if \<not> AllIntegral (bt_row_coefficients bt) then LHS_FRACTIONAL_COEFFICIENT
      else bilinear_integrality types bts)"

primrec groups_integrality :: "LogicalType list \<Rightarrow> QuadraticGroup list \<Rightarrow> LhsIntegrality" where
  "groups_integrality types [] = LHS_INTEGER"
| "groups_integrality types (qg # qgs) =
     (case linear_integrality types (zip (qg_variable_indices qg) (qg_row_coefficients qg)) of
        LHS_INTEGER \<Rightarrow> groups_integrality types qgs
      | other \<Rightarrow> other)"

definition IsEvalConstraintLhsIntegerValued :: "SolverInput \<Rightarrow> EvaluatedConstraint \<Rightarrow> LhsIntegrality" where
  "IsEvalConstraintLhsIntegerValued input ec =
     (case linear_integrality (si_variable_types input) (ec_terms ec) of
        LHS_INTEGER \<Rightarrow>
          (case bilinear_integrality (si_variable_types input) (ec_bilinear_terms ec) of
             LHS_INTEGER \<Rightarrow> groups_integrality (si_variable_types input) (ec_quadratic_groups ec)
           | other \<Rightarrow> other)
      | other \<Rightarrow> other)"

definition RejectStrictOnNonIntegerLhs :: "LhsIntegrality \<Rightarrow> string \<Rightarrow> decide_error" where
  "RejectStrictOnNonIntegerLhs integrality comparison =
     InternalError (''Strict inequality '' @ comparison @ '' with a non-integer-valued left-hand side ('' @
       (if integrality = LHS_REAL_VARIABLE then ''REAL variable'' else ''fractional coefficient'') @ '')'')"

definition ApplyComparisonSense :: "ModelConstraint \<Rightarrow> ExpressionType \<Rightarrow> dbl \<Rightarrow> LhsIntegrality \<Rightarrow>
    ModelConstraint res" where
  "ApplyComparisonSense constr cmp rhs lhs_integrality =
     (let strict = (mc_provenance constr)\<lparr>cp_strict := True, cp_typed_k := rhs\<rparr>
      in case cmp of
        COMPARE_GREATERTHANOREQUALTO \<Rightarrow> Inr (constr\<lparr>mc_sense := Ge, mc_rhs := rhs\<rparr>)
      | COMPARE_GREATERTHAN \<Rightarrow>
          if lhs_integrality \<noteq> LHS_INTEGER then Inl (RejectStrictOnNonIntegerLhs lhs_integrality ''>'')
          else Inr (constr\<lparr>mc_sense := Ge, mc_rhs := std_floor rhs + 1, mc_provenance := strict\<rparr>)
      | COMPARE_LESSTHANOREQUALTO \<Rightarrow> Inr (constr\<lparr>mc_sense := Le, mc_rhs := rhs\<rparr>)
      | COMPARE_LESSTHAN \<Rightarrow>
          if lhs_integrality \<noteq> LHS_INTEGER then Inl (RejectStrictOnNonIntegerLhs lhs_integrality ''<'')
          else Inr (constr\<lparr>mc_sense := Le, mc_rhs := std_ceil rhs - 1, mc_provenance := strict\<rparr>)
      | COMPARE_EQUAL \<Rightarrow> Inr (constr\<lparr>mc_sense := Eq, mc_rhs := rhs\<rparr>)
      | _ \<Rightarrow> Inl (InternalError ''Unsupported comparison type in ILP model builder''))"

section \<open>Rows without columns\<close>

definition row_eps :: real where "row_eps = 1 / 10 ^ 9"

definition PushNormalizedConstraint :: "ModelConstraint \<Rightarrow> SolverModel \<Rightarrow> SolverModel" where
  "PushNormalizedConstraint constr model =
     (let pushed = model\<lparr>sm_constraints := sm_constraints model @ [constr]\<rparr>
      in if mc_indices constr \<noteq> [] then pushed
         else let EPS = Fin row_eps;
                  violated = (case mc_sense constr of
                                Le \<Rightarrow> mc_rhs constr < - EPS
                              | Ge \<Rightarrow> mc_rhs constr > EPS
                              | Eq \<Rightarrow> \<bar>mc_rhs constr\<bar> > EPS)
              in if violated then pushed\<lparr>sm_build_proven_infeasible := True\<rparr> else model)"

section \<open>Provenance\<close>

definition StampConstraintProvenance :: "EvaluatedConstraint \<Rightarrow> idx option \<Rightarrow> idx option \<Rightarrow> string \<Rightarrow> dbl \<Rightarrow>
    ConstraintProvenance \<Rightarrow> ConstraintProvenance" where
  "StampConstraintProvenance ec repair_group_id group_key group_label lhs_offset p =
     (let p = p\<lparr>cp_source_clause_id := ec_source_clause_id ec, cp_repair_group_id := repair_group_id,
                cp_removal_group_id := ec_removal_group_id ec, cp_kind := ec_kind ec,
                cp_shape := (if ec_rhs_is_shared_scalar ec then SHARED_SCALAR else PER_ROW_DATA)\<rparr>;
          p = (if \<not> ec_rhs_is_shared_scalar ec then p\<lparr>cp_rhs_label := ec_rhs_label ec\<rparr> else p);
          p = p\<lparr>cp_rhs_mechanism_offset := ec_rhs_mechanism_offset ec - lhs_offset\<rparr>;
          p = (if group_key \<noteq> None then p\<lparr>cp_group_key := group_key\<rparr> else p);
          p = (if group_label \<noteq> [] then p\<lparr>cp_group_label := group_label\<rparr> else p)
      in if ec_removal_group_id ec \<noteq> None then p\<lparr>cp_qualifier := ec_qualifier ec\<rparr> else p)"

definition StampAggregateProvenance :: "EvaluatedConstraint \<Rightarrow> ConstraintProvenance \<Rightarrow> ConstraintProvenance" where
  "StampAggregateProvenance ec p = p\<lparr>cp_is_aggregate := ec_lhs_is_aggregate ec, cp_qualifier := ec_qualifier ec\<rparr>"

definition StampWeightLabels :: "EvaluatedConstraint \<Rightarrow> ConstraintProvenance \<Rightarrow> ConstraintProvenance" where
  "StampWeightLabels ec p =
     fold (\<lambda>t p. case ec_variable_indices ec ! t of
                   None \<Rightarrow> p
                 | Some v \<Rightarrow>
                     if t \<ge> length (ec_coefficient_labels ec) \<or> ec_coefficient_labels ec ! t = [] then p
                     else p\<lparr>cp_weight_labels := cp_weight_labels p @ [(v, ec_coefficient_labels ec ! t)]\<rparr>)
       [0..<length (ec_variable_indices ec)] p"

section \<open>How a row gathers its coefficients\<close>

primrec fast_path_terms :: "DecideVarScope list \<Rightarrow> idx option list \<Rightarrow> idx set \<Rightarrow> bool" where
  "fast_path_terms scopes [] seen_vars = True"
| "fast_path_terms scopes (t # ts) seen_vars =
     (case t of
        None \<Rightarrow> fast_path_terms scopes ts seen_vars
      | Some v \<Rightarrow> if scopes ! v \<noteq> ROW then False
                  else if v \<in> seen_vars then False
                  else fast_path_terms scopes ts (insert v seen_vars))"

definition CanUseRowScopedFastPath :: "VarIndexer \<Rightarrow> EvaluatedConstraint \<Rightarrow> bool" where
  "CanUseRowScopedFastPath indexer ec = fast_path_terms (vi_var_scope indexer) (ec_variable_indices ec) {}"

definition folded_term :: "EvaluatedConstraint \<Rightarrow> idx \<Rightarrow> idx set \<times> FoldedAggTerm list \<Rightarrow>
    idx set \<times> FoldedAggTerm list" where
  "folded_term ec t = (\<lambda>(seen, terms).
     case ec_variable_indices ec ! t of
       None \<Rightarrow> (seen, terms)
     | Some v \<Rightarrow>
         if v \<in> seen then (seen, terms)
         else let term1 = ft_default\<lparr>ft_decide_var_idx := Some v\<rparr>;
                  col = ec_row_coefficients ec ! t;
                  term1 = (if IsUniform col then term1\<lparr>ft_has_unit := True, ft_unit := cc_get col 0\<rparr>
                           else if t < length (ec_coefficient_labels ec)
                           then (case ParseLiteralCoefficient (ec_coefficient_labels ec ! t) of
                                   None \<Rightarrow> term1\<lparr>ft_has_unit := False\<rparr>
                                 | Some u \<Rightarrow> term1\<lparr>ft_has_unit := True, ft_unit := u\<rparr>)
                           else term1)
              in (insert v seen, terms @ [term1]))"

definition clause_folded_terms :: "VarIndexer \<Rightarrow> EvaluatedConstraint \<Rightarrow> FoldedAggTerm list" where
  "clause_folded_terms indexer ec =
     (if ec_lhs_is_aggregate ec \<and> \<not> CanUseRowScopedFastPath indexer ec
      then snd (fold (folded_term ec) [0..<length (ec_variable_indices ec)] ({}, [])) else [])"

definition sum_reduced :: "EvaluatedConstraint \<Rightarrow> idx \<Rightarrow> bool" where
  "sum_reduced ec t \<longleftrightarrow> t < length (ec_linear_term_reductions ec) \<and> ec_linear_term_reductions ec ! t = RED_SUM"

text \<open>Every non-fixed term spread over the rows, zero coefficients left out.\<close>

definition fast_row :: "VarIndexer \<Rightarrow> EvaluatedConstraint \<Rightarrow> idx list \<Rightarrow> (idx \<times> dbl) list" where
  "fast_row indexer ec rows =
     concat (map (\<lambda>t. case ec_variable_indices ec ! t of
         None \<Rightarrow> []
       | Some v \<Rightarrow> concat (map (\<lambda>row. let coeff = cc_get (ec_row_coefficients ec ! t) row
                                    in if coeff = 0 then [] else [(Get indexer v row, coeff)]) rows))
       [0..<length (ec_variable_indices ec)])"

definition accumulate_term :: "VarIndexer \<Rightarrow> EvaluatedConstraint \<Rightarrow> nat \<Rightarrow> idx \<Rightarrow> coeff_map \<Rightarrow> coeff_map" where
  "accumulate_term indexer ec n t coeff_accum =
     (let col = ec_row_coefficients ec ! t
      in case ec_variable_indices ec ! t of
           None \<Rightarrow> coeff_accum
         | Some v \<Rightarrow>
             if vi_var_scope indexer ! v = SCALAR \<and> \<not> sum_reduced ec t
             then hm_add (Get indexer v 0) (if logical_size col > 0 then cc_get col 0 else 1) coeff_accum
             else fold (\<lambda>row. hm_add (Get indexer v row) (cc_get col row)) [0..<n] coeff_accum)"

definition accumulate_group_term :: "VarIndexer \<Rightarrow> EvaluatedConstraint \<Rightarrow> idx list \<Rightarrow> idx \<Rightarrow>
    SparseCoeffAccumulator \<Rightarrow> SparseCoeffAccumulator" where
  "accumulate_group_term indexer ec rows t accum =
     (let col = ec_row_coefficients ec ! t
      in case ec_variable_indices ec ! t of
           None \<Rightarrow> accum
         | Some v \<Rightarrow>
             if vi_var_scope indexer ! v = SCALAR \<and> \<not> sum_reduced ec t
             then AddCoeff (Get indexer v 0) (if logical_size col > 0 then cc_get col (rows ! 0) else 1) accum
             else fold (\<lambda>row. AddCoeff (Get indexer v row) (cc_get col row)) rows accum)"

section \<open>The three shapes\<close>

text \<open>The stamps of an aggregate row, the same at both of its sites.\<close>

definition aggregate_provenance :: "VarIndexer \<Rightarrow> EvaluatedConstraint \<Rightarrow> idx option \<Rightarrow> idx option \<Rightarrow> string \<Rightarrow>
    dbl \<Rightarrow> ConstraintProvenance \<Rightarrow> ConstraintProvenance" where
  "aggregate_provenance indexer ec repair_group_id group_key group_label lhs_offset p =
     (let p = StampConstraintProvenance ec repair_group_id group_key group_label lhs_offset p;
          p = (StampAggregateProvenance ec p)\<lparr>cp_avg_scaled := ec_avg_scaled ec\<rparr>
      in (StampWeightLabels ec p)\<lparr>cp_folded_terms := clause_folded_terms indexer ec\<rparr>)"

definition aggregate_row :: "SolverInput \<Rightarrow> VarIndexer \<Rightarrow> EvaluatedConstraint \<Rightarrow> idx option \<Rightarrow> LhsIntegrality \<Rightarrow>
    SolverModel \<Rightarrow> SolverModel res" where
  "aggregate_row input indexer ec repair_group_id lhs_integrality model =
     (let n = si_num_rows input;
          terms = (if CanUseRowScopedFastPath indexer ec then fast_row indexer ec [0..<n]
                   else hm_nonzero (fold (accumulate_term indexer ec n) [0..<length (ec_variable_indices ec)] []));
          constr = mc_default\<lparr>mc_indices := map fst terms, mc_coefficients := map snd terms\<rparr>
      in case SumFixedAggregateLhsOffset ec [0..<n] ''fixed aggregate LHS term'' of
           Inl e \<Rightarrow> Inl e
         | Inr lhs_offset \<Rightarrow>
             (case ApplyComparisonSense constr (ec_comparison_type ec)
                     (cc_get (ec_rhs_values ec) 0 - lhs_offset) lhs_integrality of
                Inl e \<Rightarrow> Inl e
              | Inr constr \<Rightarrow>
                  Inr (PushNormalizedConstraint (constr\<lparr>mc_provenance :=
                    aggregate_provenance indexer ec repair_group_id None [] lhs_offset (mc_provenance constr)\<rparr>) model)))"

definition group_label_of :: "EvaluatedConstraint \<Rightarrow> idx \<Rightarrow> string" where
  "group_label_of ec g = (if g < length (ec_group_labels ec) then ec_group_labels ec ! g else [])"

definition aggregate_group_row :: "VarIndexer \<Rightarrow> EvaluatedConstraint \<Rightarrow> idx option \<Rightarrow> LhsIntegrality \<Rightarrow>
    nat list \<times> idx list \<Rightarrow> idx \<Rightarrow> SolverModel \<times> SparseCoeffAccumulator \<Rightarrow>
    (SolverModel \<times> SparseCoeffAccumulator) res" where
  "aggregate_group_row indexer ec repair_group_id lhs_integrality csr g = (\<lambda>(model, accum).
     let rows = csr_bucket csr g
     in if rows = [] then Inr (model, accum)
        else
          let (indices, coefficients, accum) =
                (if CanUseRowScopedFastPath indexer ec
                 then (let terms = fast_row indexer ec rows in (map fst terms, map snd terms, accum))
                 else (let (accum, is, cs) = Flush (fold (accumulate_group_term indexer ec rows)
                               [0..<length (ec_variable_indices ec)] accum) [] []
                       in (is, cs, accum)));
              constr = mc_default\<lparr>mc_indices := indices, mc_coefficients := coefficients\<rparr>
          in case SumFixedAggregateLhsOffset ec rows ''fixed aggregate LHS term'' of
               Inl e \<Rightarrow> Inl e
             | Inr group_lhs_offset \<Rightarrow>
                 (case ApplyComparisonSense constr (ec_comparison_type ec)
                         (cc_get (ec_rhs_values ec) (rows ! 0) - group_lhs_offset) lhs_integrality of
                    Inl e \<Rightarrow> Inl e
                  | Inr constr \<Rightarrow>
                      Inr (PushNormalizedConstraint (constr\<lparr>mc_provenance :=
                        aggregate_provenance indexer ec repair_group_id (Some g) (group_label_of ec g)
                          group_lhs_offset (mc_provenance constr)\<rparr>) model, accum)))"

definition aggregate_groups :: "VarIndexer \<Rightarrow> EvaluatedConstraint \<Rightarrow> idx option \<Rightarrow> LhsIntegrality \<Rightarrow>
    SolverModel \<Rightarrow> SolverModel res" where
  "aggregate_groups indexer ec repair_group_id lhs_integrality model =
     (let csr = BuildGroupCSR (ec_row_group_ids ec) (ec_num_groups ec) ([], []);
          span = vi_global_block_start indexer;
          accum = (if CanUseRowScopedFastPath indexer ec then acc_default
                   else if span \<le> 2 ^ 20 then BeginDense span acc_default else BeginSparse acc_default)
      in case fold_res (aggregate_group_row indexer ec repair_group_id lhs_integrality csr)
                [0..<ec_num_groups ec] (model, accum) of
           Inl e \<Rightarrow> Inl e
         | Inr (model, accum) \<Rightarrow> Inr model)"

definition per_row_term :: "VarIndexer \<Rightarrow> EvaluatedConstraint \<Rightarrow> idx \<Rightarrow> idx \<Rightarrow> coeff_map \<times> dbl \<Rightarrow> coeff_map \<times> dbl" where
  "per_row_term indexer ec row t = (\<lambda>(coeff_by_var, rhs_adjustment).
     let coeff = cc_get (ec_row_coefficients ec ! t) row
     in case ec_variable_indices ec ! t of
          Some v \<Rightarrow> (if coeff \<noteq> 0 then hm_add (Get indexer v row) coeff coeff_by_var else coeff_by_var,
                     rhs_adjustment)
        | None \<Rightarrow> (coeff_by_var, rhs_adjustment + coeff))"

definition per_row_row :: "VarIndexer \<Rightarrow> EvaluatedConstraint \<Rightarrow> idx option \<Rightarrow> LhsIntegrality \<Rightarrow> idx \<Rightarrow>
    SolverModel \<Rightarrow> SolverModel res" where
  "per_row_row indexer ec repair_group_id lhs_integrality row model =
     (if ec_row_group_ids ec \<noteq> [] \<and> ec_row_group_ids ec ! row = None then Inr model
      else
        let (coeff_by_var, rhs_adjustment) =
              fold (per_row_term indexer ec row) [0..<length (ec_variable_indices ec)] ([], 0);
            terms = hm_nonzero coeff_by_var;
            constr = mc_default\<lparr>mc_indices := map fst terms, mc_coefficients := map snd terms\<rparr>
        in case ApplyComparisonSense constr (ec_comparison_type ec)
                  (cc_get (ec_rhs_values ec) row - rhs_adjustment) lhs_integrality of
             Inl e \<Rightarrow> Inl e
           | Inr constr \<Rightarrow>
               let row_group_key = (if ec_row_group_ids ec \<noteq> [] then ec_row_group_ids ec ! row else None);
                   row_group_label = (case row_group_key of None \<Rightarrow> [] | Some g \<Rightarrow> group_label_of ec g)
               in Inr (PushNormalizedConstraint
                    (constr\<lparr>mc_provenance := StampConstraintProvenance ec repair_group_id row_group_key
                        row_group_label rhs_adjustment (mc_provenance constr)\<rparr>) model))"

section \<open>The loop\<close>

definition repair_group_of :: "SolverInput \<Rightarrow> idx \<Rightarrow> idx option" where
  "repair_group_of input i =
     (let ec = si_constraints input ! i
      in if ec_repair_group_id ec \<noteq> None then ec_repair_group_id ec else Some i)"

definition is_quadratic :: "EvaluatedConstraint \<Rightarrow> bool" where
  "is_quadratic ec \<longleftrightarrow> ec_bilinear_terms ec \<noteq> [] \<or> ec_has_quadratic ec"

definition linear_constraint :: "SolverInput \<Rightarrow> VarIndexer \<Rightarrow> idx \<Rightarrow> SolverModel \<Rightarrow> SolverModel res" where
  "linear_constraint input indexer i model =
     (let ec = si_constraints input ! i
      in if is_quadratic ec then Inr model
         else
           let repair = repair_group_of input i; integrality = IsEvalConstraintLhsIntegerValued input ec
           in if ec_lhs_is_aggregate ec
              then (if ec_row_group_ids ec = [] then aggregate_row input indexer ec repair integrality model
                    else aggregate_groups indexer ec repair integrality model)
              else fold_res (per_row_row indexer ec repair integrality) [0..<si_num_rows input] model)"

definition linear_constraints :: "SolverInput \<Rightarrow> VarIndexer \<Rightarrow> SolverModel \<Rightarrow> SolverModel res" where
  "linear_constraints input indexer =
     fold_res (linear_constraint input indexer) [0..<length (si_constraints input)]"

section \<open>A comparison and its row\<close>

definition bound_clear :: "dbl \<Rightarrow> bool" where
  "bound_clear d \<longleftrightarrow> d = 0 \<or> d < - Fin row_eps \<or> Fin row_eps < d"

definition strict_cmp :: "ExpressionType \<Rightarrow> bool" where
  "strict_cmp cmp \<longleftrightarrow> cmp = COMPARE_LESSTHAN \<or> cmp = COMPARE_GREATERTHAN"

lemma ApplyComparisonSense_cases:
  assumes "ApplyComparisonSense constr cmp d integ = Inr c"
  shows "mc_indices c = mc_indices constr" "mc_coefficients c = mc_coefficients constr"
    and "strict_cmp cmp \<Longrightarrow> integ = LHS_INTEGER" "cmp \<noteq> COMPARE_NOTEQUAL" "cmp \<noteq> COMPARE_OTHER"
    and "mc_sense c = (if cmp = COMPARE_EQUAL then Eq
           else if cmp = COMPARE_LESSTHAN \<or> cmp = COMPARE_LESSTHANOREQUALTO then Le else Ge)"
    and "mc_rhs c = (if cmp = COMPARE_LESSTHAN then std_ceil d - 1
           else if cmp = COMPARE_GREATERTHAN then std_floor d + 1 else d)"
  using assms by (auto simp: ApplyComparisonSense_def Let_def strict_cmp_def split: ExpressionType.splits if_splits)

text \<open>The row's bound is the constraint's with the fixed part moved over; a strict one is stepped.\<close>

lemma strict_above: "l \<in> \<int> \<Longrightarrow> of_int \<lfloor>r\<rfloor> + 1 \<le> l \<longleftrightarrow> r < (l :: real)"
proof (elim Ints_cases)
  fix z
  have "of_int \<lfloor>r\<rfloor> + 1 \<le> real_of_int z \<longleftrightarrow> \<lfloor>r\<rfloor> < z" by linarith
  then show "l = of_int z \<Longrightarrow> ?thesis" by (simp add: floor_less_iff)
qed

lemma strict_below: "l \<in> \<int> \<Longrightarrow> l \<le> of_int \<lceil>r\<rceil> - 1 \<longleftrightarrow> (l :: real) < r"
proof (elim Ints_cases)
  fix z
  have "real_of_int z \<le> of_int \<lceil>r\<rceil> - 1 \<longleftrightarrow> z < \<lceil>r\<rceil>" by linarith
  then show "l = of_int z \<Longrightarrow> ?thesis" by (simp add: less_ceiling_iff)
qed

lemma comparison_row:
  assumes "ApplyComparisonSense constr cmp (K - Fin F) integ = Inr c"
    and "strict_cmp cmp \<Longrightarrow> L \<in> \<int>"
  shows "sat_sense (mc_sense c) (Fin L) (mc_rhs c) \<longleftrightarrow> sat_cmp cmp (Fin (L + F)) K"
proof -
  note facts = ApplyComparisonSense_cases(4-7) [OF assms(1)]
  show ?thesis
    using assms(2) facts
    by (cases cmp; cases K)
       (auto simp: strict_cmp_def minus_dbl_def one_dbl_def deq_def strict_above strict_below
         strict_above [where r = "r - F" for r, simplified] strict_below [where r = "r - F" for r, simplified])
qed

lemma empty_row_clear:
  assumes "ApplyComparisonSense constr cmp d integ = Inr c" "bound_clear d"
  shows "(case mc_sense c of
            Le \<Rightarrow> mc_rhs c < - Fin row_eps
          | Ge \<Rightarrow> mc_rhs c > Fin row_eps
          | Eq \<Rightarrow> \<bar>mc_rhs c\<bar> > Fin row_eps) \<longleftrightarrow> \<not> sat_sense (mc_sense c) 0 (mc_rhs c)"
proof -
  have below: "of_int k < - row_eps \<longleftrightarrow> k < 0" and above: "row_eps < of_int k \<longleftrightarrow> 0 < k" for k :: int
    by (auto simp: row_eps_def divide_less_eq less_divide_eq)
  have step: "of_int \<lceil>r\<rceil> - 1 = real_of_int (\<lceil>r\<rceil> - 1)" "of_int \<lfloor>r\<rfloor> + 1 = real_of_int (\<lfloor>r\<rfloor> + 1)" for r :: real
    by simp_all
  have pos: "0 < row_eps" by (simp add: row_eps_def)
  note facts = ApplyComparisonSense_cases(4-7) [OF assms(1)]
  show ?thesis
    using assms(2) facts pos
    by (cases cmp; cases d)
       (auto simp: bound_clear_def zero_dbl_def one_dbl_def minus_dbl_def deq_def step below above
         simp del: of_int_diff of_int_add of_int_1; linarith)+
qed

lemma pushed_row:
  assumes stepped: "ApplyComparisonSense constr cmp (K - Fin F) integ = Inr c"
    and row: "lin_val (mc_indices constr) (mc_coefficients constr) x = Fin L"
    and strict: "strict_cmp cmp \<Longrightarrow> integ = LHS_INTEGER \<Longrightarrow> L \<in> \<int>"
    and clear: "bound_clear (K - Fin F)"
  shows "model_rows (PushNormalizedConstraint (c\<lparr>mc_provenance := p\<rparr>) m) x \<longleftrightarrow>
    model_rows m x \<and> sat_cmp cmp (Fin (L + F)) K"
proof -
  note facts = ApplyComparisonSense_cases [OF stepped]
  have sat: "sat_mc (c\<lparr>mc_provenance := p\<rparr>) x \<longleftrightarrow> sat_cmp cmp (Fin (L + F)) K"
    using comparison_row [OF stepped] strict facts(3) row by (simp add: sat_mc_def facts(1,2))
  show ?thesis
  proof (cases "mc_indices c = []")
    case False
    with sat show ?thesis by (auto simp: PushNormalizedConstraint_def Let_def model_rows_def)
  next
    case True
    then have "sat_mc (c\<lparr>mc_provenance := p\<rparr>) x \<longleftrightarrow> sat_sense (mc_sense c) 0 (mc_rhs c)"
      by (simp add: sat_mc_def)
    with sat empty_row_clear [OF stepped clear] have
      "sat_cmp cmp (Fin (L + F)) K \<longleftrightarrow> sat_mc (c\<lparr>mc_provenance := p\<rparr>) x"
      "(case mc_sense c of Le \<Rightarrow> mc_rhs c < - Fin row_eps | Ge \<Rightarrow> mc_rhs c > Fin row_eps
          | Eq \<Rightarrow> \<bar>mc_rhs c\<bar> > Fin row_eps) \<longleftrightarrow> \<not> sat_mc (c\<lparr>mc_provenance := p\<rparr>) x" by simp_all
    with True show ?thesis
      by (cases "mc_sense c") (auto simp: PushNormalizedConstraint_def Let_def model_rows_def)
  qed
qed

section \<open>The contributions to an aggregate row\<close>

definition term_adds :: "SolverInput \<Rightarrow> EvaluatedConstraint \<Rightarrow> idx list \<Rightarrow> idx \<Rightarrow> (idx \<times> dbl) list" where
  "term_adds input ec rows t =
     (let col = ec_row_coefficients ec ! t
      in case ec_variable_indices ec ! t of
           None \<Rightarrow> []
         | Some v \<Rightarrow>
             if counted_once input ec t v
             then [(Get (BuildIndexer input) v (hd rows), if logical_size col > 0 then cc_get col (hd rows) else 1)]
             else map (\<lambda>r. (Get (BuildIndexer input) v r, cc_get col r)) rows)"

definition row_adds :: "SolverInput \<Rightarrow> EvaluatedConstraint \<Rightarrow> idx list \<Rightarrow> (idx \<times> dbl) list" where
  "row_adds input ec rows = concat (map (term_adds input ec rows) [0..<length (ec_variable_indices ec)])"

definition fixed_total :: "EvaluatedConstraint \<Rightarrow> idx list \<Rightarrow> dbl" where
  "fixed_total ec rows = (\<Sum>t\<leftarrow>[0..<length (ec_variable_indices ec)].
     if ec_variable_indices ec ! t = None then (\<Sum>r\<leftarrow>rows. cc_get (ec_row_coefficients ec ! t) r) else 0)"

lemma agg_lhs_split:
  "agg_lhs input ec (at_flat input x) rows = (\<Sum>(i, c)\<leftarrow>row_adds input ec rows. c * Fin (x i)) + fixed_total ec rows"
proof -
  have "agg_term input ec (at_flat input x) rows t =
      (\<Sum>(i, c)\<leftarrow>term_adds input ec rows t. c * Fin (x i)) +
      (if ec_variable_indices ec ! t = None then (\<Sum>r\<leftarrow>rows. cc_get (ec_row_coefficients ec ! t) r) else 0)" for t
    by (auto simp: agg_term_def term_adds_def Let_def at_flat_def comp_def split: option.split)
  then show ?thesis
    by (simp add: agg_lhs_def row_adds_def sum_list_concat_map fixed_total_def sum_list_addf)
qed

text \<open>What the row loop needs of a constraint.\<close>

definition finite_terms :: "EvaluatedConstraint \<Rightarrow> bool" where
  "finite_terms ec \<longleftrightarrow> list_all col_finite (ec_row_coefficients ec)"

definition row_ok :: "SolverInput \<Rightarrow> EvaluatedConstraint \<Rightarrow> bool" where
  "row_ok input ec \<longleftrightarrow> ec_shape (si_num_decide_vars input) (si_num_rows input) ec \<and> finite_terms ec"

lemma row_okD:
  assumes "row_ok input ec" "t < length (ec_variable_indices ec)"
  shows "ec_variable_indices ec ! t = Some v \<Longrightarrow> v < si_num_decide_vars input"
    and "logical_size (ec_row_coefficients ec ! t) = si_num_rows input"
    and "cc_wf (ec_row_coefficients ec ! t)"
    and "r < si_num_rows input \<Longrightarrow> isfinite (cc_get (ec_row_coefficients ec ! t) r)"
proof -
  have t: "ec_row_coefficients ec ! t \<in> set (ec_row_coefficients ec)" using assms by (simp add: row_ok_def ec_shape_def)
  with assms show "logical_size (ec_row_coefficients ec ! t) = si_num_rows input" "cc_wf (ec_row_coefficients ec ! t)"
    by (auto simp: row_ok_def ec_shape_def)
  with assms t show "r < si_num_rows input \<Longrightarrow> isfinite (cc_get (ec_row_coefficients ec ! t) r)"
    by (simp add: row_ok_def finite_terms_def list_all_iff col_finite_def)
  show "ec_variable_indices ec ! t = Some v \<Longrightarrow> v < si_num_decide_vars input"
    using assms by (metis ec_shape_def nth_mem row_ok_def)
qed

lemma Get_scalar: "v < si_num_decide_vars input \<Longrightarrow> scope_of input v = SCALAR \<Longrightarrow>
    Get (BuildIndexer input) v r = Get (BuildIndexer input) v s"
  by (simp add: Get_instance_of instance_of_def)

lemma term_adds_ok:
  assumes "indexable input" "row_ok input ec" "t < length (ec_variable_indices ec)"
    and "\<forall>r \<in> set rows. r < si_num_rows input" "rows = [] \<Longrightarrow> si_num_rows input = 0"
    and "(i, c) \<in> set (term_adds input ec rows t)"
  shows "i < global_start input \<and> isfinite c"
proof (cases "ec_variable_indices ec ! t")
  case (Some v)
  note ok = row_okD [OF assms(2,3)]
  have v: "v < si_num_decide_vars input" by (rule ok(1) [OF Some])
  have "hd rows < si_num_rows input" if "si_num_rows input > 0" using assms(4,5) that by (cases rows) auto
  with Some assms(4,6) ok(2,4) num.at_row_lt [OF assms(1) v] Get_scalar_lt [OF v] show ?thesis
    by (auto simp: term_adds_def Let_def counted_once_def fin_intro split: if_splits)
qed (use assms(6) in \<open>simp add: term_adds_def\<close>)

lemma row_adds_ok:
  assumes "indexable input" "row_ok input ec"
    and "\<forall>r \<in> set rows. r < si_num_rows input" "rows = [] \<Longrightarrow> si_num_rows input = 0"
  shows "\<forall>(i, c) \<in> set (row_adds input ec rows). i < global_start input \<and> isfinite c"
  using term_adds_ok [OF assms(1,2) _ assms(3,4)] by (fastforce simp: row_adds_def)

lemma row_adds_finite:
  assumes "indexable input" "row_ok input ec"
    and "\<forall>r \<in> set rows. r < si_num_rows input" "rows = [] \<Longrightarrow> si_num_rows input = 0"
  shows "\<forall>(i, c) \<in> set (row_adds input ec rows). isfinite c"
  using row_adds_ok [OF assms] by auto

lemma fixed_total_finite:
  assumes "row_ok input ec" "\<forall>r \<in> set rows. r < si_num_rows input"
  shows "isfinite (fixed_total ec rows)"
proof -
  have sum: "isfinite (\<Sum>z\<leftarrow>zs. f z)" if "\<forall>z \<in> set zs. isfinite (f z)" for f :: "nat \<Rightarrow> dbl" and zs
    using that by (induction zs) (auto simp: fin_intro)
  show ?thesis
    unfolding fixed_total_def using row_okD(4) [OF assms(1)] assms(2) by (intro sum) (auto simp: fin_intro intro!: sum)
qed

subsection \<open>Every way of gathering gives these contributions\<close>

lemma fast_path_scopes:
  "fast_path_terms scopes vs seen \<Longrightarrow> Some v \<in> set vs \<Longrightarrow> scopes ! v = ROW"
  by (induction vs arbitrary: seen) (auto split: option.splits if_splits)

lemma fast_row_val:
  assumes "row_ok input ec" "CanUseRowScopedFastPath (BuildIndexer input) ec"
  shows "lin_val (map fst (fast_row (BuildIndexer input) ec rows)) (map snd (fast_row (BuildIndexer input) ec rows)) x =
    (\<Sum>(i, c)\<leftarrow>row_adds input ec rows. c * Fin (x i))"
proof -
  have scope: "scope_of input v = ROW"
    if "t < length (ec_variable_indices ec)" "ec_variable_indices ec ! t = Some v" for t v
    using fast_path_scopes [OF assms(2) [unfolded CanUseRowScopedFastPath_def], of v] that row_okD(1) [OF assms(1) that]
    by (metis BuildIndexer_fields(4) nth_mem)
  have drop: "(\<Sum>(i, c)\<leftarrow>concat (map (\<lambda>r. let coeff = cc_get col r in if coeff = 0 then []
        else [(Get (BuildIndexer input) v r, coeff)]) rows). c * Fin (x i)) =
      (\<Sum>r\<leftarrow>rows. cc_get col r * Fin (x (Get (BuildIndexer input) v r)))" for col v
    by (induction rows) (simp_all add: Let_def zero_dbl_def)
  have eq: "(\<Sum>(i, c)\<leftarrow>(case ec_variable_indices ec ! t of None \<Rightarrow> [] | Some v \<Rightarrow>
        concat (map (\<lambda>row. let coeff = cc_get (ec_row_coefficients ec ! t) row
          in if coeff = 0 then [] else [(Get (BuildIndexer input) v row, coeff)]) rows)). c * Fin (x i)) =
      (\<Sum>(i, c)\<leftarrow>term_adds input ec rows t. c * Fin (x i))" if "t < length (ec_variable_indices ec)" for t
    using scope [OF that] drop
    by (cases "ec_variable_indices ec ! t") (simp_all add: term_adds_def counted_once_def Let_def comp_def)
  show ?thesis
    unfolding lin_val_def zip_map_fst_snd fast_row_def row_adds_def sum_list_concat_map
    by (rule arg_cong [where f = sum_list], rule map_cong [OF refl], rule eq) simp
qed

lemma accumulate_adds:
  assumes "row_ok input ec"
  shows "fold (accumulate_term (BuildIndexer input) ec (si_num_rows input)) [0..<length (ec_variable_indices ec)] m =
    fold (\<lambda>(i, c). hm_add i c) (row_adds input ec [0..<si_num_rows input]) m"
proof -
  have "accumulate_term (BuildIndexer input) ec (si_num_rows input) t =
      fold (\<lambda>(i, c). hm_add i c) (term_adds input ec [0..<si_num_rows input] t)"
    if t: "t < length (ec_variable_indices ec)" for t
  proof (cases "ec_variable_indices ec ! t")
    case (Some v)
    note v = row_okD(1) [OF assms t Some]
    have "(if logical_size (ec_row_coefficients ec ! t) > 0 then cc_get (ec_row_coefficients ec ! t) 0 else 1) =
        (if logical_size (ec_row_coefficients ec ! t) > 0
         then cc_get (ec_row_coefficients ec ! t) (hd [0..<si_num_rows input]) else 1)"
      using row_okD(2) [OF assms t] by simp
    moreover have "Get (BuildIndexer input) v (hd [0..<si_num_rows input]) = Get (BuildIndexer input) v 0"
      if "scope_of input v = SCALAR" by (rule Get_scalar [OF v that])
    ultimately show ?thesis
      using Some v unfolding accumulate_term_def term_adds_def counted_once_def sum_reduced_def [symmetric] Let_def
      by (cases "scope_of input v = SCALAR \<and> \<not> sum_reduced ec t") (auto simp: fold_map comp_def fun_eq_iff)
  qed (simp add: accumulate_term_def term_adds_def fun_eq_iff)
  then show ?thesis
    unfolding row_adds_def fold_concat fold_map comp_def by (intro fold_cong) auto
qed

lemma accumulate_group_adds:
  assumes "row_ok input ec" "rows \<noteq> []"
  shows "fold (accumulate_group_term (BuildIndexer input) ec rows) [0..<length (ec_variable_indices ec)] acc =
    fold (\<lambda>(i, c). AddCoeff i c) (row_adds input ec rows) acc"
proof -
  have "accumulate_group_term (BuildIndexer input) ec rows t = fold (\<lambda>(i, c). AddCoeff i c) (term_adds input ec rows t)"
    if t: "t < length (ec_variable_indices ec)" for t
  proof (cases "ec_variable_indices ec ! t")
    case (Some v)
    note v = row_okD(1) [OF assms(1) t Some]
    moreover have "Get (BuildIndexer input) v (hd rows) = Get (BuildIndexer input) v 0"
      if "scope_of input v = SCALAR" by (rule Get_scalar [OF v that])
    ultimately show ?thesis
      using Some unfolding accumulate_group_term_def term_adds_def counted_once_def sum_reduced_def [symmetric] Let_def
        hd_conv_nth [OF assms(2), symmetric]
      by (cases "scope_of input v = SCALAR \<and> \<not> sum_reduced ec t") (auto simp: fold_map comp_def fun_eq_iff)
  qed (simp add: accumulate_group_term_def term_adds_def fun_eq_iff)
  then show ?thesis
    unfolding row_adds_def fold_concat fold_map comp_def by (intro fold_cong) auto
qed

section \<open>Integral left-hand sides\<close>

definition integral_at :: "SolverInput \<Rightarrow> (idx \<Rightarrow> real) \<Rightarrow> bool" where
  "integral_at input x \<longleftrightarrow> (\<forall>v < si_num_decide_vars input. \<not> IsRealType (si_variable_types input ! v) \<longrightarrow>
     (\<forall>i < NumInstances (BuildIndexer input) v. x (InstanceColumn (BuildIndexer input) v i) \<in> \<int>))"

lemma integral_Get:
  assumes "integral_at input x" "indexable input" "v < si_num_decide_vars input" "\<not> IsRealType (si_variable_types input ! v)"
    and "r < si_num_rows input \<or> scope_of input v = SCALAR"
  shows "x (Get (BuildIndexer input) v r) \<in> \<int>"
proof -
  have "instance_of input v r < NumInstances (BuildIndexer input) v"
    using assms(5) instance_of_lt [OF assms(2,3)] NumInstances_cases(3) [OF assms(3)]
    by (auto simp: instance_of_def)
  with assms(1,3,4) show ?thesis by (simp add: Get_instance_of integral_at_def)
qed

lemma linear_integrality_terms:
  "linear_integrality types (zip vs cols) = LHS_INTEGER \<Longrightarrow> t < length vs \<Longrightarrow> t < length cols \<Longrightarrow> vs ! t = Some v \<Longrightarrow>
     \<not> IsRealType (types ! v) \<and> AllIntegral (cols ! t)"
proof (induction vs arbitrary: cols t)
  case (Cons u vs)
  from Cons.prems(3) obtain c cs where "cols = c # cs" by (cases cols) auto
  with Cons show ?case
    by (cases t) (auto split: option.splits if_splits)
qed simp

lemma linear_integrality_term:
  assumes "row_ok input ec" "linear_integrality (si_variable_types input) (ec_terms ec) = LHS_INTEGER"
    and "t < length (ec_variable_indices ec)" "ec_variable_indices ec ! t = Some v"
  shows "\<not> IsRealType (si_variable_types input ! v)"
    and "r < si_num_rows input \<Longrightarrow> int_val (cc_get (ec_row_coefficients ec ! t) r)"
proof -
  have "length (ec_row_coefficients ec) = length (ec_variable_indices ec)"
    using assms(1) by (simp add: row_ok_def ec_shape_def)
  with linear_integrality_terms [OF assms(2) [unfolded ec_terms_def] assms(3) _ assms(4)] assms(3)
  have i: "\<not> IsRealType (si_variable_types input ! v)" "AllIntegral (ec_row_coefficients ec ! t)" by simp_all
  show "\<not> IsRealType (si_variable_types input ! v)" by (rule i(1))
  show "int_val (cc_get (ec_row_coefficients ec ! t) r)" if "r < si_num_rows input"
  proof -
    have "dbl_integral (cc_get (ec_row_coefficients ec ! t) r)"
      using AllIntegral_get [OF row_okD(3) [OF assms(1,3)] i(2)] row_okD(2) [OF assms(1,3)] that by simp
    moreover have "isfinite (cc_get (ec_row_coefficients ec ! t) r)" by (rule row_okD(4) [OF assms(1,3) that])
    ultimately show ?thesis by (auto simp: isfinite_iff int_val_Fin)
  qed
qed

lemma integral_product: "int_val c \<Longrightarrow> y \<in> \<int> \<Longrightarrow> int_val (c * Fin y)"
  by (rule int_val_ring) (simp_all add: int_val_Fin)

lemma row_adds_integral:
  assumes "indexable input" "row_ok input ec" "integral_at input x"
    and "linear_integrality (si_variable_types input) (ec_terms ec) = LHS_INTEGER"
    and "\<forall>r \<in> set rows. r < si_num_rows input" "rows = [] \<Longrightarrow> si_num_rows input = 0"
  shows "int_val (\<Sum>(i, c)\<leftarrow>row_adds input ec rows. c * Fin (x i))"
proof -
  have "int_val (c * Fin (x i))" if t: "t < length (ec_variable_indices ec)" and ic: "(i, c) \<in> set (term_adds input ec rows t)"
    for t i c
  proof (cases "ec_variable_indices ec ! t")
    case (Some v)
    note v = row_okD(1) [OF assms(2) t Some]
    note int = linear_integrality_term [OF assms(2,4) t Some]
    note x = integral_Get [OF assms(3,1) v int(1)]
    have hd: "hd rows < si_num_rows input" if "si_num_rows input > 0" using assms(5,6) that by (cases rows) auto
    have one: "int_val 1" unfolding one_dbl_def int_val_Fin by simp
    show ?thesis
    proof (cases "counted_once input ec t v")
      case True
      then have "i = Get (BuildIndexer input) v (hd rows)"
        "c = (if logical_size (ec_row_coefficients ec ! t) > 0 then cc_get (ec_row_coefficients ec ! t) (hd rows) else 1)"
        using ic Some by (simp_all add: term_adds_def Let_def)
      moreover have "int_val c" using calculation(2) int(2) [OF hd] one row_okD(2) [OF assms(2) t] by simp
      ultimately show ?thesis
        using True x by (auto simp: counted_once_def int_val_Fin intro: integral_product)
    next
      case False
      then obtain r where "r \<in> set rows" "i = Get (BuildIndexer input) v r" "c = cc_get (ec_row_coefficients ec ! t) r"
        using ic Some by (auto simp: term_adds_def Let_def)
      then show ?thesis using assms(5) x int(2) by (auto intro: integral_product)
    qed
  qed (use ic in \<open>simp add: term_adds_def\<close>)
  then show ?thesis unfolding row_adds_def by (intro int_val_sum) auto
qed

section \<open>Each shape states its constraint\<close>

lemma integrality_linear:
  "IsEvalConstraintLhsIntegerValued input ec = LHS_INTEGER \<Longrightarrow>
     linear_integrality (si_variable_types input) (ec_terms ec) = LHS_INTEGER"
  by (simp add: IsEvalConstraintLhsIntegerValued_def split: LhsIntegrality.splits)

text \<open>The common tail of the two aggregate shapes.\<close>

lemma aggregate_pushed:
  assumes "indexable input" "row_ok input ec" "integral_at input x"
    and rows: "\<forall>r \<in> set rows. r < si_num_rows input" "rows = [] \<Longrightarrow> si_num_rows input = 0"
    and val: "lin_val (mc_indices constr) (mc_coefficients constr) x = (\<Sum>(i, c)\<leftarrow>row_adds input ec rows. c * Fin (x i))"
    and fixed: "SumFixedAggregateLhsOffset ec rows context = Inr off"
    and stepped: "ApplyComparisonSense constr (ec_comparison_type ec) (K - off) (IsEvalConstraintLhsIntegerValued input ec) = Inr c"
    and clear: "bound_clear (K - fixed_total ec rows)"
  shows "model_rows (PushNormalizedConstraint (c\<lparr>mc_provenance := p\<rparr>) m) x \<longleftrightarrow>
    model_rows m x \<and> sat_cmp (ec_comparison_type ec) (agg_lhs input ec (at_flat input x) rows) K"
proof -
  have off: "off = fixed_total ec rows" using SumFixed_eq [OF fixed] by (simp add: fixed_total_def)
  obtain F where F: "fixed_total ec rows = Fin F"
    using fixed_total_finite [OF assms(2) rows(1)] by (auto simp: isfinite_iff)
  have "isfinite (\<Sum>(i, c)\<leftarrow>xs. c * Fin (x i))" if "\<forall>(i, c) \<in> set xs. isfinite c" for xs
    using that by (induction xs) (auto simp: fin_intro)
  moreover have "\<forall>(i, c) \<in> set (row_adds input ec rows). isfinite c"
    by (rule row_adds_finite [OF assms(1,2) rows])
  ultimately obtain L where L: "(\<Sum>(i, c)\<leftarrow>row_adds input ec rows. c * Fin (x i)) = Fin L"
    by (meson isfinite_iff)
  have "L \<in> \<int>" if "IsEvalConstraintLhsIntegerValued input ec = LHS_INTEGER"
    using row_adds_integral [OF assms(1-3) integrality_linear [OF that] rows] by (simp add: L int_val_Fin)
  moreover have "agg_lhs input ec (at_flat input x) rows = Fin (L + F)" by (simp add: agg_lhs_split L F)
  ultimately show ?thesis
    using pushed_row [OF stepped [unfolded off F] val [unfolded L] _ clear [unfolded F]] by simp
qed

lemma aggregate_row_states:
  assumes "indexable input" "row_ok input ec" "integral_at input x"
    and run: "aggregate_row input (BuildIndexer input) ec repair (IsEvalConstraintLhsIntegerValued input ec) m = Inr m'"
    and clear: "bound_clear (cc_get (ec_rhs_values ec) 0 - fixed_total ec [0..<si_num_rows input])"
  shows "model_rows m' x \<longleftrightarrow> model_rows m x \<and>
    sat_cmp (ec_comparison_type ec) (agg_lhs input ec (at_flat input x) [0..<si_num_rows input]) (cc_get (ec_rhs_values ec) 0)"
proof -
  let ?vi = "BuildIndexer input" and ?rows = "[0..<si_num_rows input]"
  define terms where "terms = (if CanUseRowScopedFastPath ?vi ec then fast_row ?vi ec ?rows
    else hm_nonzero (fold (accumulate_term ?vi ec (si_num_rows input)) [0..<length (ec_variable_indices ec)] []))"
  define constr where "constr = mc_default\<lparr>mc_indices := map fst terms, mc_coefficients := map snd terms\<rparr>"
  from run obtain off c where parts: "SumFixedAggregateLhsOffset ec ?rows ''fixed aggregate LHS term'' = Inr off"
    "ApplyComparisonSense constr (ec_comparison_type ec) (cc_get (ec_rhs_values ec) 0 - off)
       (IsEvalConstraintLhsIntegerValued input ec) = Inr c"
    "PushNormalizedConstraint (c\<lparr>mc_provenance :=
       aggregate_provenance ?vi ec repair None [] off (mc_provenance c)\<rparr>) m = m'"
    unfolding aggregate_row_def Let_def terms_def [symmetric] constr_def [symmetric] bind_Inr sum.inject
    by (elim exE conjE) (rule that)
  have adds: "\<forall>(i, c) \<in> set (row_adds input ec ?rows). isfinite c"
    by (rule row_adds_finite [OF assms(1,2)]) simp_all
  have "lin_val (map fst terms) (map snd terms) x = (\<Sum>(i, c)\<leftarrow>row_adds input ec ?rows. c * Fin (x i))"
    using fast_row_val [OF assms(2)] hm_row(1) [OF adds] by (simp add: terms_def accumulate_adds [OF assms(2)])
  then show ?thesis
    unfolding parts(3) [symmetric] by (intro aggregate_pushed [OF assms(1-3) _ _ _ parts(1,2) clear]) (auto simp: constr_def)
qed

subsection \<open>Groups\<close>

definition scratch_ready :: "VarIndexer \<Rightarrow> EvaluatedConstraint \<Rightarrow> SparseCoeffAccumulator \<Rightarrow> bool" where
  "scratch_ready vi ec acc \<longleftrightarrow> CanUseRowScopedFastPath vi ec \<or>
     (acc_inv acc \<and> (\<forall>j. acc_contents acc j = 0) \<and> (\<forall>j < vi_global_block_start vi. acc_valid acc j))"

lemma group_row_states:
  assumes "indexable input" "row_ok input ec" "integral_at input x"
    and rows: "csr_bucket csr g = rows" "\<forall>r \<in> set rows. r < si_num_rows input"
    and ready: "scratch_ready (BuildIndexer input) ec acc"
    and run: "aggregate_group_row (BuildIndexer input) ec repair (IsEvalConstraintLhsIntegerValued input ec) csr g (m, acc) =
      Inr (m', acc')"
    and clear: "rows \<noteq> [] \<Longrightarrow> bound_clear (cc_get (ec_rhs_values ec) (hd rows) - fixed_total ec rows)"
  shows "scratch_ready (BuildIndexer input) ec acc' \<and> (model_rows m' x \<longleftrightarrow> model_rows m x \<and>
    (rows \<noteq> [] \<longrightarrow> sat_cmp (ec_comparison_type ec) (agg_lhs input ec (at_flat input x) rows)
       (cc_get (ec_rhs_values ec) (hd rows))))"
proof (cases "rows = []")
  case True
  with run rows ready show ?thesis by (simp add: aggregate_group_row_def)
next
  case nonempty: False
  let ?vi = "BuildIndexer input"
  define fast where "fast = CanUseRowScopedFastPath ?vi ec"
  obtain acc1 is1 cs1 where flush: "Flush (fold (accumulate_group_term ?vi ec rows)
      [0..<length (ec_variable_indices ec)] acc) [] [] = (acc1, is1, cs1)" by (metis prod_cases3)
  define terms where "terms = (if fast then (map fst (fast_row ?vi ec rows), map snd (fast_row ?vi ec rows), acc)
    else (is1, cs1, acc1))"
  define constr where "constr = mc_default\<lparr>mc_indices := fst terms, mc_coefficients := fst (snd terms)\<rparr>"
  have unfolded: "(case SumFixedAggregateLhsOffset ec rows ''fixed aggregate LHS term'' of Inl e \<Rightarrow> Inl e
      | Inr off \<Rightarrow> (case ApplyComparisonSense constr (ec_comparison_type ec)
            (cc_get (ec_rhs_values ec) (rows ! 0) - off) (IsEvalConstraintLhsIntegerValued input ec) of
          Inl e \<Rightarrow> Inl e
        | Inr c \<Rightarrow> Inr (PushNormalizedConstraint (c\<lparr>mc_provenance :=
            aggregate_provenance ?vi ec repair (Some g) (group_label_of ec g) off (mc_provenance c)\<rparr>) m,
            snd (snd terms)))) = Inr (m', acc')"
    using run nonempty
    by (cases fast) (simp_all add: aggregate_group_row_def rows(1) Let_def flush terms_def constr_def fast_def
        cong: sum.case_cong)
  obtain off c where parts: "SumFixedAggregateLhsOffset ec rows ''fixed aggregate LHS term'' = Inr off"
    "ApplyComparisonSense constr (ec_comparison_type ec) (cc_get (ec_rhs_values ec) (rows ! 0) - off)
       (IsEvalConstraintLhsIntegerValued input ec) = Inr c"
    "PushNormalizedConstraint (c\<lparr>mc_provenance :=
       aggregate_provenance ?vi ec repair (Some g) (group_label_of ec g) off (mc_provenance c)\<rparr>) m = m'"
    "snd (snd terms) = acc'"
    using unfolded unfolding bind_Inr sum.inject prod.inject by (elim exE conjE) (rule that)
  have adds: "\<forall>(i, c) \<in> set (row_adds input ec rows). i < global_start input \<and> isfinite c"
    by (rule row_adds_ok [OF assms(1,2) rows(2)]) (simp add: nonempty)
  have gathered: "lin_val is1 cs1 x = (\<Sum>(i, c)\<leftarrow>row_adds input ec rows. c * Fin (x i)) \<and> scratch_ready ?vi ec acc1"
    if "\<not> fast"
  proof -
    have r: "acc_inv acc" "\<And>j. acc_contents acc j = 0" "\<And>j. j < global_start input \<Longrightarrow> acc_valid acc j"
      using ready that by (simp_all add: scratch_ready_def fast_def)
    have valid: "\<forall>(i, c) \<in> set (row_adds input ec rows). acc_valid acc i \<and> isfinite c" using adds r(3) by auto
    note flush' = flush [unfolded accumulate_group_adds [OF assms(2) nonempty]]
    have "acc_contents acc1 j = 0" for j using flush_row [OF r(1,2) valid flush', of _ j] by blast
    with flush_row [OF r(1,2) valid flush', of x] r(3) show ?thesis by (simp add: scratch_ready_def)
  qed
  have val: "lin_val (mc_indices constr) (mc_coefficients constr) x = (\<Sum>(i, c)\<leftarrow>row_adds input ec rows. c * Fin (x i))"
    using fast_row_val [OF assms(2)] gathered by (cases fast) (simp_all add: constr_def terms_def fast_def)
  have "model_rows m' x \<longleftrightarrow> model_rows m x \<and>
      sat_cmp (ec_comparison_type ec) (agg_lhs input ec (at_flat input x) rows) (cc_get (ec_rhs_values ec) (rows ! 0))"
    unfolding parts(3) [symmetric]
    by (rule aggregate_pushed [OF assms(1-3) rows(2) _ val parts(1,2)])
       (use nonempty clear in \<open>simp_all add: hd_conv_nth\<close>)
  moreover have "scratch_ready ?vi ec acc'"
    using gathered ready parts(4) by (cases fast) (auto simp: terms_def scratch_ready_def fast_def)
  ultimately show ?thesis using nonempty by (simp add: hd_conv_nth)
qed

lemma group_loop_states:
  assumes "indexable input" "row_ok input ec" "integral_at input x"
    and rows: "\<And>g. g \<in> set gs \<Longrightarrow> csr_bucket csr g = group_rows (ec_row_group_ids ec) g"
    and groups: "ec_row_group_ids ec \<noteq> []"
    and clear: "\<And>g. g \<in> set gs \<Longrightarrow> group_rows (ec_row_group_ids ec) g \<noteq> [] \<Longrightarrow>
      bound_clear (cc_get (ec_rhs_values ec) (hd (group_rows (ec_row_group_ids ec) g)) -
        fixed_total ec (group_rows (ec_row_group_ids ec) g))"
  shows "scratch_ready (BuildIndexer input) ec acc \<Longrightarrow>
    fold_res (aggregate_group_row (BuildIndexer input) ec repair (IsEvalConstraintLhsIntegerValued input ec) csr) gs (m, acc) =
      Inr (m', acc') \<Longrightarrow>
    model_rows m' x \<longleftrightarrow> model_rows m x \<and> (\<forall>g \<in> set gs. group_rows (ec_row_group_ids ec) g \<noteq> [] \<longrightarrow>
       sat_agg input ec (at_flat input x) (group_rows (ec_row_group_ids ec) g))"
  using rows clear
proof (induction gs arbitrary: m acc)
  case (Cons g gs)
  obtain m1 acc1 where first: "aggregate_group_row (BuildIndexer input) ec repair
      (IsEvalConstraintLhsIntegerValued input ec) csr g (m, acc) = Inr (m1, acc1)"
    and rest: "fold_res (aggregate_group_row (BuildIndexer input) ec repair
      (IsEvalConstraintLhsIntegerValued input ec) csr) gs (m1, acc1) = Inr (m', acc')"
    using Cons.prems(2) by (auto split: sum.splits)
  have lt: "\<forall>r \<in> set (group_rows (ec_row_group_ids ec) g). r < si_num_rows input"
    using assms(2) groups by (auto simp: group_rows_mem row_ok_def ec_shape_def)
  have bucket: "csr_bucket csr g = group_rows (ec_row_group_ids ec) g" using Cons.prems(3) by simp
  note step = group_row_states [OF assms(1-3) bucket lt Cons.prems(1) first Cons.prems(4)]
  have "scratch_ready (BuildIndexer input) ec acc1" using step by simp
  from Cons.IH [OF this rest] Cons.prems(3,4) step groups show ?case
    by (auto simp: sat_agg_def)
qed simp

lemma aggregate_groups_states:
  assumes "indexable input" "row_ok input ec" "integral_at input x"
    and groups: "ec_row_group_ids ec \<noteq> []"
    and run: "aggregate_groups (BuildIndexer input) ec repair (IsEvalConstraintLhsIntegerValued input ec) m = Inr m'"
    and clear: "\<And>rows. rows \<in> set (agg_row_sets ec (si_num_rows input)) \<Longrightarrow>
      bound_clear (cc_get (ec_rhs_values ec) (hd rows) - fixed_total ec rows)"
  shows "model_rows m' x \<longleftrightarrow> model_rows m x \<and>
    (\<forall>rows \<in> set (agg_row_sets ec (si_num_rows input)). sat_agg input ec (at_flat input x) rows)"
proof -
  let ?vi = "BuildIndexer input"
  define acc where "acc = (if CanUseRowScopedFastPath ?vi ec then acc_default
    else if vi_global_block_start ?vi \<le> 2 ^ 20 then BeginDense (vi_global_block_start ?vi) acc_default
    else BeginSparse acc_default)"
  let ?csr = "BuildGroupCSR (ec_row_group_ids ec) (ec_num_groups ec) ([], [])"
  obtain acc' where loop: "fold_res (aggregate_group_row ?vi ec repair (IsEvalConstraintLhsIntegerValued input ec) ?csr)
      [0..<ec_num_groups ec] (m, acc) = Inr (m', acc')"
    using run unfolding aggregate_groups_def Let_def acc_def [symmetric]
    by (auto split: sum.splits)
  have ready: "scratch_ready ?vi ec acc"
    using BeginDense_ready [OF acc_default_ready] BeginSparse_ready [OF acc_default_ready]
    by (auto simp: scratch_ready_def acc_def)
  have ok: "groups_ok (ec_row_group_ids ec) (ec_num_groups ec)"
    using assms(2) groups by (simp add: row_ok_def ec_shape_def)
  have "model_rows m' x \<longleftrightarrow> model_rows m x \<and> (\<forall>g \<in> set [0..<ec_num_groups ec].
      group_rows (ec_row_group_ids ec) g \<noteq> [] \<longrightarrow>
      sat_agg input ec (at_flat input x) (group_rows (ec_row_group_ids ec) g))"
  proof (rule group_loop_states [OF assms(1-3) _ groups _ ready loop])
    show "csr_bucket ?csr g = group_rows (ec_row_group_ids ec) g" if "g \<in> set [0..<ec_num_groups ec]" for g
      using that by (intro csr_bucket_eq [OF ok groups]) simp
    show "bound_clear (cc_get (ec_rhs_values ec) (hd (group_rows (ec_row_group_ids ec) g)) -
        fixed_total ec (group_rows (ec_row_group_ids ec) g))"
      if "g \<in> set [0..<ec_num_groups ec]" "group_rows (ec_row_group_ids ec) g \<noteq> []" for g
      using that groups by (intro clear) (auto simp: agg_row_sets_def)
  qed
  then show ?thesis using groups by (auto simp: agg_row_sets_def)
qed

subsection \<open>One row per row\<close>

definition per_row_adds :: "VarIndexer \<Rightarrow> EvaluatedConstraint \<Rightarrow> idx \<Rightarrow> idx \<Rightarrow> (idx \<times> dbl) list" where
  "per_row_adds indexer ec r t =
     (let c = cc_get (ec_row_coefficients ec ! t) r
      in case ec_variable_indices ec ! t of None \<Rightarrow> [] | Some v \<Rightarrow> if c \<noteq> 0 then [(Get indexer v r, c)] else [])"

lemma per_row_fold:
  "fold (per_row_term indexer ec r) ts (m, a) =
     (fold (\<lambda>(i, c). hm_add i c) (concat (map (per_row_adds indexer ec r) ts)) m,
      a + (\<Sum>t\<leftarrow>ts. if ec_variable_indices ec ! t = None then cc_get (ec_row_coefficients ec ! t) r else 0))"
  by (induction ts arbitrary: m a)
     (auto simp: per_row_term_def per_row_adds_def Let_def add.assoc split: option.split)

lemma row_lhs_adds:
  assumes "row_ok input ec"
  shows "row_lhs ec (at_flat input x) r =
    (\<Sum>(i, c)\<leftarrow>concat (map (per_row_adds (BuildIndexer input) ec r) [0..<length (ec_variable_indices ec)]). c * Fin (x i)) +
    fixed_total ec [r]"
proof -
  have len: "length (ec_variable_indices ec) = length (ec_row_coefficients ec)"
    using assms by (simp add: row_ok_def ec_shape_def)
  have "row_lhs ec (at_flat input x) r =
      (\<Sum>t\<leftarrow>[0..<length (ec_variable_indices ec)]. term_val (at_flat input x) r (ec_variable_indices ec ! t, ec_row_coefficients ec ! t))"
    unfolding row_lhs_def using map_parallel [OF len, of "\<lambda>v col. term_val (at_flat input x) r (v, col)"]
    by (simp add: case_prod_unfold)
  moreover have "term_val (at_flat input x) r (ec_variable_indices ec ! t, ec_row_coefficients ec ! t) =
      (\<Sum>(i, c)\<leftarrow>per_row_adds (BuildIndexer input) ec r t. c * Fin (x i)) +
      (if ec_variable_indices ec ! t = None then (\<Sum>r\<leftarrow>[r]. cc_get (ec_row_coefficients ec ! t) r) else 0)" for t
    by (auto simp: term_val_def per_row_adds_def Let_def at_flat_def zero_dbl_def split: option.split)
  ultimately show ?thesis
    by (simp add: sum_list_concat_map fixed_total_def sum_list_addf)
qed

lemma per_row_adds_ok:
  assumes "row_ok input ec" "r < si_num_rows input"
  shows "\<forall>(i, c) \<in> set (concat (map (per_row_adds (BuildIndexer input) ec r) [0..<length (ec_variable_indices ec)])). isfinite c"
    and "indexable input \<Longrightarrow> integral_at input x \<Longrightarrow> linear_integrality (si_variable_types input) (ec_terms ec) = LHS_INTEGER \<Longrightarrow>
      int_val (\<Sum>(i, c)\<leftarrow>concat (map (per_row_adds (BuildIndexer input) ec r) [0..<length (ec_variable_indices ec)]). c * Fin (x i))"
proof -
  have mem: "\<exists>t v. t < length (ec_variable_indices ec) \<and> ec_variable_indices ec ! t = Some v \<and>
      i = Get (BuildIndexer input) v r \<and> c = cc_get (ec_row_coefficients ec ! t) r"
    if "(i, c) \<in> set (concat (map (per_row_adds (BuildIndexer input) ec r) [0..<length (ec_variable_indices ec)]))" for i c
  proof -
    from that obtain t where t: "t < length (ec_variable_indices ec)" "(i, c) \<in> set (per_row_adds (BuildIndexer input) ec r t)"
      by auto
    then show ?thesis
      by (cases "ec_variable_indices ec ! t") (auto simp: per_row_adds_def Let_def split: if_splits)
  qed
  show "\<forall>(i, c) \<in> set (concat (map (per_row_adds (BuildIndexer input) ec r) [0..<length (ec_variable_indices ec)])). isfinite c"
    using mem row_okD(4) [OF assms(1) _ assms(2)] by blast
  assume ctx: "indexable input" "integral_at input x"
    "linear_integrality (si_variable_types input) (ec_terms ec) = LHS_INTEGER"
  have "int_val (c * Fin (x i))"
    if "(i, c) \<in> set (concat (map (per_row_adds (BuildIndexer input) ec r) [0..<length (ec_variable_indices ec)]))" for i c
  proof -
    from mem [OF that] obtain t v where t: "t < length (ec_variable_indices ec)" "ec_variable_indices ec ! t = Some v"
      "i = Get (BuildIndexer input) v r" "c = cc_get (ec_row_coefficients ec ! t) r" by blast
    note int = linear_integrality_term [OF assms(1) ctx(3) t(1,2)]
    show ?thesis
      unfolding t(3,4) using int(2) [OF assms(2)] integral_Get [OF ctx(2,1) row_okD(1) [OF assms(1) t(1,2)] int(1)] assms(2)
      by (intro integral_product) auto
  qed
  then show "int_val (\<Sum>(i, c)\<leftarrow>concat (map (per_row_adds (BuildIndexer input) ec r) [0..<length (ec_variable_indices ec)]). c * Fin (x i))"
    by (intro int_val_sum) auto
qed

lemma per_row_row_states:
  assumes "indexable input" "row_ok input ec" "integral_at input x" "r < si_num_rows input"
    and run: "per_row_row (BuildIndexer input) ec repair (IsEvalConstraintLhsIntegerValued input ec) r m = Inr m'"
    and clear: "row_active ec r \<Longrightarrow> bound_clear (cc_get (ec_rhs_values ec) r - fixed_total ec [r])"
  shows "model_rows m' x \<longleftrightarrow> model_rows m x \<and> (row_active ec r \<longrightarrow> sat_row ec (at_flat input x) r)"
proof (cases "row_active ec r")
  case False
  then show ?thesis using run by (auto simp: per_row_row_def row_active_def)
next
  case True
  let ?vi = "BuildIndexer input"
  define adds where "adds = concat (map (per_row_adds ?vi ec r) [0..<length (ec_variable_indices ec)])"
  define terms where "terms = hm_nonzero (fold (\<lambda>(i, c). hm_add i c) adds [])"
  define constr where "constr = mc_default\<lparr>mc_indices := map fst terms, mc_coefficients := map snd terms\<rparr>"
  have gathered: "fold (per_row_term ?vi ec r) [0..<length (ec_variable_indices ec)] ([], 0) =
      (fold (\<lambda>(i, c). hm_add i c) adds [], fixed_total ec [r])"
    by (simp add: per_row_fold adds_def fixed_total_def cong: if_cong)
  have unfolded: "(case ApplyComparisonSense constr (ec_comparison_type ec)
        (cc_get (ec_rhs_values ec) r - fixed_total ec [r]) (IsEvalConstraintLhsIntegerValued input ec) of
      Inl e \<Rightarrow> Inl e
    | Inr c \<Rightarrow> Inr (PushNormalizedConstraint (c\<lparr>mc_provenance := StampConstraintProvenance ec repair
        (if ec_row_group_ids ec \<noteq> [] then ec_row_group_ids ec ! r else None)
        (case (if ec_row_group_ids ec \<noteq> [] then ec_row_group_ids ec ! r else None) of None \<Rightarrow> [] | Some g \<Rightarrow> group_label_of ec g)
        (fixed_total ec [r]) (mc_provenance c)\<rparr>) m)) = Inr m'"
    using run True unfolding per_row_row_def row_active_def gathered Let_def constr_def terms_def by simp
  obtain c where parts: "ApplyComparisonSense constr (ec_comparison_type ec)
        (cc_get (ec_rhs_values ec) r - fixed_total ec [r]) (IsEvalConstraintLhsIntegerValued input ec) = Inr c"
    "PushNormalizedConstraint (c\<lparr>mc_provenance := StampConstraintProvenance ec repair
        (if ec_row_group_ids ec \<noteq> [] then ec_row_group_ids ec ! r else None)
        (case (if ec_row_group_ids ec \<noteq> [] then ec_row_group_ids ec ! r else None) of None \<Rightarrow> [] | Some g \<Rightarrow> group_label_of ec g)
        (fixed_total ec [r]) (mc_provenance c)\<rparr>) m = m'"
    using unfolded unfolding bind_Inr sum.inject by (elim exE conjE) (rule that)
  note ok = per_row_adds_ok [OF assms(2,4), folded adds_def]
  obtain F where F: "fixed_total ec [r] = Fin F"
    using fixed_total_finite [OF assms(2), of "[r]"] assms(4) by (auto simp: isfinite_iff)
  have "isfinite (\<Sum>(i, c)\<leftarrow>xs. c * Fin (x i))" if "\<forall>(i, c) \<in> set xs. isfinite c" for xs
    using that by (induction xs) (auto simp: fin_intro)
  from this [OF ok(1)] obtain L where L: "(\<Sum>(i, c)\<leftarrow>adds. c * Fin (x i)) = Fin L" by (auto simp: isfinite_iff)
  have val: "lin_val (mc_indices constr) (mc_coefficients constr) x = Fin L"
    using hm_row(1) [OF ok(1), of x] by (simp add: constr_def terms_def L)
  have int: "L \<in> \<int>" if "IsEvalConstraintLhsIntegerValued input ec = LHS_INTEGER"
    using ok(2) [OF assms(1,3) integrality_linear [OF that]] by (simp add: L int_val_Fin)
  have lhs: "row_lhs ec (at_flat input x) r = Fin (L + F)"
    using row_lhs_adds [OF assms(2), of x r] by (simp add: adds_def [symmetric] L F)
  show ?thesis
    using pushed_row [OF parts(1) [unfolded F] val int clear [OF True, unfolded F]] True
    by (simp add: parts(2) [symmetric, unfolded F] sat_row_def lhs)
qed

section \<open>The whole loop\<close>

text \<open>
  The bounds the loop drops empty rows by are not within \<open>1e-9\<close> of zero unless they are zero.
\<close>

definition bounds_clear :: "SolverInput \<Rightarrow> EvaluatedConstraint \<Rightarrow> bool" where
  "bounds_clear input ec \<longleftrightarrow>
     (if ec_lhs_is_aggregate ec
      then list_all (\<lambda>rows. bound_clear (cc_get (ec_rhs_values ec) (if ec_row_group_ids ec = [] then 0 else hd rows) -
             fixed_total ec rows)) (agg_row_sets ec (si_num_rows input))
      else list_all (\<lambda>r. row_active ec r \<longrightarrow> bound_clear (cc_get (ec_rhs_values ec) r - fixed_total ec [r]))
             [0..<si_num_rows input])"

definition linear_ok :: "SolverInput \<Rightarrow> EvaluatedConstraint \<Rightarrow> bool" where
  "linear_ok input ec \<longleftrightarrow> is_quadratic ec \<or> row_ok input ec \<and> bounds_clear input ec"

lemma per_row_loop_states:
  assumes "indexable input" "row_ok input ec" "integral_at input x"
  shows "\<forall>r \<in> set rs. r < si_num_rows input \<and>
      (row_active ec r \<longrightarrow> bound_clear (cc_get (ec_rhs_values ec) r - fixed_total ec [r])) \<Longrightarrow>
    fold_res (per_row_row (BuildIndexer input) ec repair (IsEvalConstraintLhsIntegerValued input ec)) rs m = Inr m' \<Longrightarrow>
    model_rows m' x \<longleftrightarrow> model_rows m x \<and> (\<forall>r \<in> set rs. row_active ec r \<longrightarrow> sat_row ec (at_flat input x) r)"
proof (induction rs arbitrary: m)
  case (Cons r rs)
  obtain m1 where first: "per_row_row (BuildIndexer input) ec repair (IsEvalConstraintLhsIntegerValued input ec) r m = Inr m1"
    and rest: "fold_res (per_row_row (BuildIndexer input) ec repair (IsEvalConstraintLhsIntegerValued input ec)) rs m1 = Inr m'"
    using Cons.prems(2) by (auto split: sum.splits)
  have r: "r < si_num_rows input" and clear: "row_active ec r \<Longrightarrow> bound_clear (cc_get (ec_rhs_values ec) r - fixed_total ec [r])"
    using Cons.prems(1) by simp_all
  from per_row_row_states [OF assms r first clear] Cons.IH [OF _ rest] Cons.prems(1) show ?case by auto
qed simp

lemma linear_constraint_states:
  assumes "indexable input" "integral_at input x" "linear_ok input (si_constraints input ! i)"
    and run: "linear_constraint input (BuildIndexer input) i m = Inr m'"
  shows "model_rows m' x \<longleftrightarrow> model_rows m x \<and>
    (\<not> is_quadratic (si_constraints input ! i) \<longrightarrow> sat_linear input (si_constraints input ! i) (at_flat input x))"
proof (cases "is_quadratic (si_constraints input ! i)")
  case True
  then show ?thesis using run by (simp add: linear_constraint_def Let_def)
next
  case False
  let ?ec = "si_constraints input ! i"
  have ok: "row_ok input ?ec" and clear: "bounds_clear input ?ec"
    using assms(3) False by (simp_all add: linear_ok_def)
  consider (single) "ec_lhs_is_aggregate ?ec" "ec_row_group_ids ?ec = []"
    | (groups) "ec_lhs_is_aggregate ?ec" "ec_row_group_ids ?ec \<noteq> []" | (rows) "\<not> ec_lhs_is_aggregate ?ec" by blast
  then show ?thesis
  proof cases
    case single
    have "aggregate_row input (BuildIndexer input) ?ec (repair_group_of input i)
        (IsEvalConstraintLhsIntegerValued input ?ec) m = Inr m'"
      using run False single by (simp add: linear_constraint_def Let_def)
    from aggregate_row_states [OF assms(1) ok assms(2) this] clear single False show ?thesis
      by (simp add: bounds_clear_def agg_row_sets_def sat_linear_def sat_agg_def)
  next
    case groups
    have "aggregate_groups (BuildIndexer input) ?ec (repair_group_of input i)
        (IsEvalConstraintLhsIntegerValued input ?ec) m = Inr m'"
      using run False groups by (simp add: linear_constraint_def Let_def)
    from aggregate_groups_states [OF assms(1) ok assms(2) groups(2) this] clear groups False show ?thesis
      by (simp add: bounds_clear_def list_all_iff sat_linear_def)
  next
    case rows
    have "fold_res (per_row_row (BuildIndexer input) ?ec (repair_group_of input i)
        (IsEvalConstraintLhsIntegerValued input ?ec)) [0..<si_num_rows input] m = Inr m'"
      using run False rows by (simp add: linear_constraint_def Let_def)
    from per_row_loop_states [OF assms(1) ok assms(2) _ this] clear rows False show ?thesis
      by (auto simp: bounds_clear_def list_all_iff sat_linear_def)
  qed
qed

lemma linear_constraints_states:
  assumes "indexable input" "integral_at input x" "\<forall>ec \<in> set (si_constraints input). linear_ok input ec"
    and run: "linear_constraints input (BuildIndexer input) m = Inr m'"
  shows "model_rows m' x \<longleftrightarrow> model_rows m x \<and>
    (\<forall>ec \<in> set (si_constraints input). \<not> is_quadratic ec \<longrightarrow> sat_linear input ec (at_flat input x))"
proof -
  have "model_rows m' x \<longleftrightarrow> model_rows m x \<and> (\<forall>i \<in> set is.
      \<not> is_quadratic (si_constraints input ! i) \<longrightarrow> sat_linear input (si_constraints input ! i) (at_flat input x))"
    if "fold_res (linear_constraint input (BuildIndexer input)) is m = Inr m'" "\<forall>i \<in> set is. i < length (si_constraints input)"
    for "is" m
    using that
  proof (induction "is" arbitrary: m)
    case (Cons i js)
    obtain m1 where step: "linear_constraint input (BuildIndexer input) i m = Inr m1"
      "fold_res (linear_constraint input (BuildIndexer input)) js m1 = Inr m'"
      using Cons.prems(1) by (auto split: sum.splits)
    have "linear_ok input (si_constraints input ! i)" using assms(3) Cons.prems(2) by simp
    from linear_constraint_states [OF assms(1,2) this step(1)] Cons.IH [OF step(2)] Cons.prems(2) show ?case by simp
  qed simp
  from this [OF run [unfolded linear_constraints_def]] show ?thesis by (auto simp: all_set_conv_all_nth)
qed

section \<open>What the loop keeps\<close>

text \<open>Its only effect on the model is a sequence of pushes.\<close>

lemma aggregate_row_pushes:
  assumes "aggregate_row input indexer ec repair integrality m = Inr m'"
    and "\<And>c m. P m \<Longrightarrow> P (PushNormalizedConstraint c m)" "P m"
  shows "P m'"
  using assms by (auto simp: aggregate_row_def Let_def split: sum.splits)

lemma aggregate_group_row_pushes:
  assumes "aggregate_group_row indexer ec repair integrality csr g s = Inr s'"
    and "\<And>c m. P m \<Longrightarrow> P (PushNormalizedConstraint c m)" "P (fst s)"
  shows "P (fst s')"
  using assms by (cases s) (auto simp: aggregate_group_row_def Let_def split: sum.splits prod.splits if_splits)

lemma per_row_row_pushes:
  assumes "per_row_row indexer ec repair integrality r m = Inr m'"
    and "\<And>c m. P m \<Longrightarrow> P (PushNormalizedConstraint c m)" "P m"
  shows "P m'"
  using assms by (auto simp: per_row_row_def Let_def split: sum.splits prod.splits if_splits)

lemma linear_constraints_pushes:
  assumes run: "linear_constraints input indexer m = Inr m'"
    and push: "\<And>c m. P m \<Longrightarrow> P (PushNormalizedConstraint c m)" and start: "P m"
  shows "P m'"
  using run [unfolded linear_constraints_def] start
proof (rule fold_res_invariant)
  fix i m m'
  assume P: "P m" and step: "linear_constraint input indexer i m = Inr m'"
  let ?ec = "si_constraints input ! i"
  note defs = linear_constraint_def Let_def
  consider (quad) "is_quadratic ?ec" | (single) "\<not> is_quadratic ?ec" "ec_lhs_is_aggregate ?ec" "ec_row_group_ids ?ec = []"
    | (groups) "\<not> is_quadratic ?ec" "ec_lhs_is_aggregate ?ec" "ec_row_group_ids ?ec \<noteq> []"
    | (rows) "\<not> is_quadratic ?ec" "\<not> ec_lhs_is_aggregate ?ec" by blast
  then show "P m'"
  proof cases
    case quad
    with step P show ?thesis by (simp add: defs)
  next
    case single
    with step P push show ?thesis by (auto simp: defs intro: aggregate_row_pushes)
  next
    case groups
    with step obtain s' where loop: "fold_res (aggregate_group_row indexer ?ec (repair_group_of input i)
        (IsEvalConstraintLhsIntegerValued input ?ec)
        (BuildGroupCSR (ec_row_group_ids ?ec) (ec_num_groups ?ec) ([], []))) [0..<ec_num_groups ?ec]
        (m, if CanUseRowScopedFastPath indexer ?ec then acc_default
            else if vi_global_block_start indexer \<le> 2 ^ 20 then BeginDense (vi_global_block_start indexer) acc_default
            else BeginSparse acc_default) = Inr s'" "m' = fst s'"
      by (auto simp: defs aggregate_groups_def split: sum.splits)
    have "P (fst s')"
      by (rule fold_res_invariant [OF loop(1), where P = "\<lambda>s. P (fst s)"])
         (use P push in \<open>auto dest: aggregate_group_row_pushes [where P = P]\<close>)
    with loop(2) show ?thesis by simp
  next
    case rows
    with step have loop: "fold_res (per_row_row indexer ?ec (repair_group_of input i)
        (IsEvalConstraintLhsIntegerValued input ?ec)) [0..<si_num_rows input] m = Inr m'" by (simp add: defs)
    show ?thesis
      by (rule fold_res_invariant [OF loop, where P = P])
         (use P push in \<open>auto dest: per_row_row_pushes [where P = P]\<close>)
  qed
qed

text \<open>The flag is only raised next to a row that no point meets.\<close>

definition flag_justified :: "SolverModel \<Rightarrow> bool" where
  "flag_justified m \<longleftrightarrow> (sm_build_proven_infeasible m \<longrightarrow> (\<exists>mc \<in> set (sm_constraints m). \<forall>x. \<not> sat_mc mc x))"

lemma push_flag_justified: "flag_justified m \<Longrightarrow> flag_justified (PushNormalizedConstraint c m)"
proof -
  assume just: "flag_justified m"
  have "\<not> sat_mc c x" if "mc_indices c = []" "(case mc_sense c of Le \<Rightarrow> mc_rhs c < - Fin row_eps
      | Ge \<Rightarrow> mc_rhs c > Fin row_eps | Eq \<Rightarrow> \<bar>mc_rhs c\<bar> > Fin row_eps)" for x
  proof -
    have "0 < row_eps" by (simp add: row_eps_def)
    with that show ?thesis
      by (cases "mc_sense c"; cases "mc_rhs c") (auto simp: sat_mc_def zero_dbl_def deq_def)
  qed
  with just show ?thesis
    by (auto simp: flag_justified_def PushNormalizedConstraint_def Let_def)
qed

definition without_rows :: "SolverModel \<Rightarrow> SolverModel" where
  "without_rows m = m\<lparr>sm_constraints := [], sm_build_proven_infeasible := False\<rparr>"

lemma push_without_rows: "without_rows (PushNormalizedConstraint c m) = without_rows m"
  by (simp add: PushNormalizedConstraint_def without_rows_def Let_def)

end
