(* ===== verification/ModelQuadratic.thy ===== *)
theory ModelQuadratic
  imports ModelRows
begin

text \<open>
  The quadratic rows of \<open>SolverModel::Build\<close> (\<open>ilp_model_builder.cpp\<close>): \<open>BuildQuadraticConstraint\<close>,
  which gathers the linear terms, the products and the squares of a constraint over a set of rows,
  and the loop that calls it for all rows, for every group, or for every row.

  The main lemma says what such a row means. It counts a query-wide variable beside the reducer
  once per row, where the linear path counts it once; and a strict comparison is stepped exactly only
  if the constants inside the squares are integral, which the integrality test does not look at. Both
  are shown on concrete constraints.
\<close>

section \<open>One quadratic row\<close>

definition quad_linear_term :: "VarIndexer \<Rightarrow> EvaluatedConstraint \<Rightarrow> idx list \<Rightarrow> idx \<Rightarrow> coeff_map \<times> dbl \<Rightarrow>
    coeff_map \<times> dbl" where
  "quad_linear_term indexer ec rows t = (\<lambda>(linear_accum, rhs_adjustment).
     let col = ec_row_coefficients ec ! t
     in case ec_variable_indices ec ! t of
          Some v \<Rightarrow> (fold (\<lambda>row. hm_add (Get indexer v row) (cc_get col row)) rows linear_accum, rhs_adjustment)
        | None \<Rightarrow> (linear_accum, fold (\<lambda>row a. a + cc_get col row) rows rhs_adjustment))"

definition group_term :: "VarIndexer \<Rightarrow> QuadraticGroup \<Rightarrow> idx \<Rightarrow> idx \<Rightarrow> (idx \<times> dbl) list \<times> dbl \<Rightarrow>
    (idx \<times> dbl) list \<times> dbl" where
  "group_term indexer qg row t = (\<lambda>(row_terms, c_row).
     if t \<ge> length (qg_row_coefficients qg) \<or> row \<ge> logical_size (qg_row_coefficients qg ! t)
     then (row_terms, c_row)
     else let a = cc_get (qg_row_coefficients qg ! t) row
          in if a = 0 then (row_terms, c_row)
             else (case qg_variable_indices qg ! t of
                     None \<Rightarrow> (row_terms, c_row + a)
                   | Some v \<Rightarrow> (row_terms @ [(Get indexer v row, a)], c_row)))"

definition power_group_row :: "VarIndexer \<Rightarrow> QuadraticGroup \<Rightarrow> idx \<Rightarrow> coeff_map \<times> coeff_map \<times> dbl \<Rightarrow>
    coeff_map \<times> coeff_map \<times> dbl" where
  "power_group_row indexer qg row = (\<lambda>(linear_accum, q_accum, rhs_adjustment).
     let q_sign = qg_sign qg;
         (row_terms, c_row) = fold (group_term indexer qg row) [0..<length (qg_variable_indices qg)] ([], 0);
         q_accum = outer_product q_sign row_terms q_accum;
         linear_accum = (if c_row \<noteq> 0
                         then fold (\<lambda>(i, a). hm_add i (q_sign * Fin 2 * c_row * a)) row_terms linear_accum
                         else linear_accum)
     in (linear_accum, q_accum, rhs_adjustment + q_sign * c_row * c_row))"

definition quadratic_comparison :: "QuadraticConstraint \<Rightarrow> ExpressionType \<Rightarrow> dbl \<Rightarrow> LhsIntegrality \<Rightarrow>
    QuadraticConstraint res" where
  "quadratic_comparison qc cmp adjusted_rhs lhs_integrality =
     (let qc = qc\<lparr>qc_rhs := adjusted_rhs\<rparr>;
          strict = (qc_provenance qc)\<lparr>cp_strict := True, cp_typed_k := adjusted_rhs\<rparr>
      in case cmp of
        COMPARE_LESSTHANOREQUALTO \<Rightarrow> Inr (qc\<lparr>qc_sense := Le\<rparr>)
      | COMPARE_GREATERTHANOREQUALTO \<Rightarrow> Inr (qc\<lparr>qc_sense := Ge\<rparr>)
      | COMPARE_EQUAL \<Rightarrow> Inr (qc\<lparr>qc_sense := Eq\<rparr>)
      | COMPARE_LESSTHAN \<Rightarrow>
          if lhs_integrality \<noteq> LHS_INTEGER then Inl (RejectStrictOnNonIntegerLhs lhs_integrality ''<'')
          else Inr (qc\<lparr>qc_sense := Le, qc_rhs := std_ceil adjusted_rhs - 1, qc_provenance := strict\<rparr>)
      | COMPARE_GREATERTHAN \<Rightarrow>
          if lhs_integrality \<noteq> LHS_INTEGER then Inl (RejectStrictOnNonIntegerLhs lhs_integrality ''>'')
          else Inr (qc\<lparr>qc_sense := Ge, qc_rhs := std_floor adjusted_rhs + 1, qc_provenance := strict\<rparr>)
      | _ \<Rightarrow> Inl (InternalError ''Unsupported comparison type in ILP model builder (quadratic)''))"

definition BuildQuadraticConstraint :: "VarIndexer \<Rightarrow> EvaluatedConstraint \<Rightarrow> idx list \<Rightarrow> dbl \<Rightarrow> LhsIntegrality \<Rightarrow>
    QuadraticConstraint res" where
  "BuildQuadraticConstraint indexer ec row_set rhs lhs_integrality =
     (let (linear_accum, rhs_adjustment) =
            fold (quad_linear_term indexer ec row_set) [0..<length (ec_variable_indices ec)] ([], 0);
          q_accum = fold (\<lambda>bt. bilinear_q_terms indexer bt row_set) (ec_bilinear_terms ec) [];
          (linear_accum, q_accum, rhs_adjustment) =
            fold (\<lambda>qg. fold (power_group_row indexer qg) row_set) (ec_quadratic_groups ec)
              (linear_accum, q_accum, rhs_adjustment);
          linear = hm_nonzero linear_accum; entries = hm_nonzero q_accum;
          qc = qc_default\<lparr>qc_linear_indices := map fst linear, qc_linear_coefficients := map snd linear,
                          qc_q_rows := map (q_key_row \<circ> fst) entries,
                          qc_q_cols := map (q_key_col \<circ> fst) entries,
                          qc_q_coefficients := map snd entries\<rparr>
      in quadratic_comparison qc (ec_comparison_type ec) (rhs - rhs_adjustment) lhs_integrality)"

section \<open>The loop\<close>

definition push_quadratic :: "QuadraticConstraint \<Rightarrow> (ConstraintProvenance \<Rightarrow> ConstraintProvenance) \<Rightarrow>
    SolverModel \<Rightarrow> SolverModel" where
  "push_quadratic qc stamp model = model\<lparr>sm_quadratic_constraints :=
     sm_quadratic_constraints model @ [qc\<lparr>qc_provenance := stamp (qc_provenance qc)\<rparr>]\<rparr>"

definition quadratic_aggregate :: "SolverInput \<Rightarrow> VarIndexer \<Rightarrow> EvaluatedConstraint \<Rightarrow> idx option \<Rightarrow> LhsIntegrality \<Rightarrow>
    SolverModel \<Rightarrow> SolverModel res" where
  "quadratic_aggregate input indexer ec repair_group_id lhs_integrality model =
     (let rhs = (if cc_empty (ec_rhs_values ec) then 0 else cc_get (ec_rhs_values ec) 0)
      in case BuildQuadraticConstraint indexer ec [0..<si_num_rows input] rhs lhs_integrality of
           Inl e \<Rightarrow> Inl e
         | Inr qc \<Rightarrow> Inr (push_quadratic qc (\<lambda>p. StampAggregateProvenance ec
                            (StampConstraintProvenance ec repair_group_id None [] 0 p)) model))"

definition quadratic_group :: "VarIndexer \<Rightarrow> EvaluatedConstraint \<Rightarrow> idx option \<Rightarrow> LhsIntegrality \<Rightarrow>
    nat list \<times> idx list \<Rightarrow> idx \<Rightarrow> SolverModel \<Rightarrow> SolverModel res" where
  "quadratic_group indexer ec repair_group_id lhs_integrality csr g model =
     (let rows = csr_bucket csr g
      in if rows = [] then Inr model
         else let group_rhs = (if cc_empty (ec_rhs_values ec) then 0 else cc_get (ec_rhs_values ec) (rows ! 0))
              in case BuildQuadraticConstraint indexer ec rows group_rhs lhs_integrality of
                   Inl e \<Rightarrow> Inl e
                 | Inr qc \<Rightarrow> Inr (push_quadratic qc (\<lambda>p. StampAggregateProvenance ec
                     (StampConstraintProvenance ec repair_group_id (Some g) (group_label_of ec g) 0 p)) model))"

definition quadratic_row :: "VarIndexer \<Rightarrow> EvaluatedConstraint \<Rightarrow> idx option \<Rightarrow> LhsIntegrality \<Rightarrow> idx \<Rightarrow>
    SolverModel \<Rightarrow> SolverModel res" where
  "quadratic_row indexer ec repair_group_id lhs_integrality row model =
     (if ec_row_group_ids ec \<noteq> [] \<and> ec_row_group_ids ec ! row = None then Inr model
      else case BuildQuadraticConstraint indexer ec [row] (cc_get (ec_rhs_values ec) row) lhs_integrality of
             Inl e \<Rightarrow> Inl e
           | Inr qc \<Rightarrow> Inr (push_quadratic qc (StampConstraintProvenance ec repair_group_id
               (if ec_row_group_ids ec \<noteq> [] then ec_row_group_ids ec ! row else None) [] 0) model))"

definition quadratic_constraint :: "SolverInput \<Rightarrow> VarIndexer \<Rightarrow> idx \<Rightarrow> SolverModel \<Rightarrow> SolverModel res" where
  "quadratic_constraint input indexer i model =
     (let ec = si_constraints input ! i
      in if \<not> is_quadratic ec then Inr model
         else
           let repair = repair_group_of input i; integrality = IsEvalConstraintLhsIntegerValued input ec
           in if ec_lhs_is_aggregate ec
              then (if ec_row_group_ids ec = [] then quadratic_aggregate input indexer ec repair integrality model
                    else fold_res (quadratic_group indexer ec repair integrality
                           (BuildGroupCSR (ec_row_group_ids ec) (ec_num_groups ec) ([], [])))
                           [0..<ec_num_groups ec] model)
              else fold_res (quadratic_row indexer ec repair integrality) [0..<si_num_rows input] model)"

definition quadratic_constraints :: "SolverInput \<Rightarrow> VarIndexer \<Rightarrow> SolverModel \<Rightarrow> SolverModel res" where
  "quadratic_constraints input indexer =
     fold_res (quadratic_constraint input indexer) [0..<length (si_constraints input)]"

section \<open>What a quadratic row means\<close>

definition quad_linear_meaning :: "EvaluatedConstraint \<Rightarrow> (idx \<Rightarrow> idx \<Rightarrow> real) \<Rightarrow> idx list \<Rightarrow> idx \<Rightarrow> real" where
  "quad_linear_meaning ec X rows t = (\<Sum>r\<leftarrow>rows. rval (cc_get (ec_row_coefficients ec ! t) r) *
     (case ec_variable_indices ec ! t of None \<Rightarrow> 1 | Some v \<Rightarrow> X v r))"

definition group_inner :: "QuadraticGroup \<Rightarrow> (idx \<Rightarrow> idx \<Rightarrow> real) \<Rightarrow> idx \<Rightarrow> real" where
  "group_inner qg = power_inner (qg_variable_indices qg) (qg_row_coefficients qg)"

definition quad_lhs :: "EvaluatedConstraint \<Rightarrow> (idx \<Rightarrow> idx \<Rightarrow> real) \<Rightarrow> idx list \<Rightarrow> real" where
  "quad_lhs ec X rows =
     (\<Sum>t\<leftarrow>[0..<length (ec_variable_indices ec)]. quad_linear_meaning ec X rows t) +
     (\<Sum>bt\<leftarrow>ec_bilinear_terms ec. \<Sum>r\<leftarrow>rows. product_meaning X bt r) +
     (\<Sum>qg\<leftarrow>ec_quadratic_groups ec. \<Sum>r\<leftarrow>rows. rval (qg_sign qg) * (group_inner qg X r)\<^sup>2)"

definition quad_ok :: "SolverInput \<Rightarrow> EvaluatedConstraint \<Rightarrow> bool" where
  "quad_ok input ec \<longleftrightarrow> row_ok input ec \<and>
     list_all (\<lambda>bt. bt_var_a bt < si_num_decide_vars input \<and> bt_var_b bt < si_num_decide_vars input \<and>
                    cc_wf (bt_row_coefficients bt) \<and> col_finite (bt_row_coefficients bt) \<and>
                    logical_size (bt_row_coefficients bt) = si_num_rows input) (ec_bilinear_terms ec) \<and>
     list_all (\<lambda>qg. isfinite (qg_sign qg) \<and> list_all (\<lambda>col. cc_wf col \<and> col_finite col) (qg_row_coefficients qg) \<and>
                    length (qg_row_coefficients qg) = length (qg_variable_indices qg) \<and>
                    vars_below (si_num_decide_vars input) (qg_variable_indices qg)) (ec_quadratic_groups ec)"

section \<open>Its contributions\<close>

definition quad_fixed :: "EvaluatedConstraint \<Rightarrow> idx list \<Rightarrow> real" where
  "quad_fixed ec rows = rval (fixed_total ec rows) +
     (\<Sum>qg\<leftarrow>ec_quadratic_groups ec. \<Sum>r\<leftarrow>rows. rval (qg_sign qg) * (group_inner qg (\<lambda>v r. 0) r)\<^sup>2)"

definition group_terms :: "VarIndexer \<Rightarrow> QuadraticGroup \<Rightarrow> idx \<Rightarrow> (idx \<times> dbl) list" where
  "group_terms indexer qg = power_row_terms indexer (qg_variable_indices qg) (qg_row_coefficients qg)"

definition group_constant :: "QuadraticGroup \<Rightarrow> idx \<Rightarrow> dbl" where
  "group_constant qg = power_row_constant (qg_variable_indices qg) (qg_row_coefficients qg)"

definition linear_adds :: "VarIndexer \<Rightarrow> EvaluatedConstraint \<Rightarrow> idx list \<Rightarrow> idx \<Rightarrow> (idx \<times> dbl) list" where
  "linear_adds indexer ec rows t = (case ec_variable_indices ec ! t of None \<Rightarrow> []
     | Some v \<Rightarrow> map (\<lambda>r. (Get indexer v r, cc_get (ec_row_coefficients ec ! t) r)) rows)"

definition quad_vector_adds :: "VarIndexer \<Rightarrow> EvaluatedConstraint \<Rightarrow> idx list \<Rightarrow> (idx \<times> dbl) list" where
  "quad_vector_adds indexer ec rows =
     concat (map (linear_adds indexer ec rows) [0..<length (ec_variable_indices ec)]) @
     concat (map (\<lambda>qg. concat (map (\<lambda>r. cross_adds (qg_sign qg) (group_constant qg r) (group_terms indexer qg r)) rows))
        (ec_quadratic_groups ec))"

definition quad_product_adds :: "VarIndexer \<Rightarrow> EvaluatedConstraint \<Rightarrow> idx list \<Rightarrow> (nat \<times> dbl) list" where
  "quad_product_adds indexer ec rows =
     concat (map (\<lambda>bt. bilinear_adds indexer bt rows) (ec_bilinear_terms ec)) @
     concat (map (\<lambda>qg. concat (map (\<lambda>r. outer_adds (qg_sign qg) (group_terms indexer qg r)) rows)) (ec_quadratic_groups ec))"

lemma group_term_scan:
  "fold (group_term indexer qg r) ts (xs, c) =
     (xs @ concat (map (\<lambda>t. if t \<ge> length (qg_row_coefficients qg) \<or> r \<ge> logical_size (qg_row_coefficients qg ! t) then []
        else let a = cc_get (qg_row_coefficients qg ! t) r in if a = 0 then []
             else (case qg_variable_indices qg ! t of None \<Rightarrow> [] | Some v \<Rightarrow> [(Get indexer v r, a)])) ts),
      fold (\<lambda>t c. if t < length (qg_row_coefficients qg) \<and> r < logical_size (qg_row_coefficients qg ! t) \<and>
        qg_variable_indices qg ! t = None then c + cc_get (qg_row_coefficients qg ! t) r else c) ts c)"
proof (induction ts arbitrary: xs c)
  case (Cons t ts)
  show ?case
    using Cons.IH by (cases "qg_variable_indices qg ! t") (simp_all add: group_term_def Let_def)
qed simp

lemma group_scan:
  "fold (group_term indexer qg r) [0..<length (qg_variable_indices qg)] ([], 0) =
     (group_terms indexer qg r, group_constant qg r)"
  by (simp only: group_term_scan append_Nil group_terms_def group_constant_def power_row_terms_def power_row_constant_def)

lemma power_group_row_adds:
  "power_group_row indexer qg r (lin, q, a) =
     (fold (\<lambda>(i, c). hm_add i c) (cross_adds (qg_sign qg) (group_constant qg r) (group_terms indexer qg r)) lin,
      fold (\<lambda>(k, c). hm_add k c) (outer_adds (qg_sign qg) (group_terms indexer qg r)) q,
      a + qg_sign qg * group_constant qg r * group_constant qg r)"
  by (simp add: power_group_row_def group_scan Let_def outer_product_adds cross_adds_def fold_map comp_def case_prod_unfold)

lemma fold_triple:
  "fold (\<lambda>a (x, y, z). (f a x, g a y, h a z)) as (x, y, z) = (fold f as x, fold g as y, fold h as z)"
  by (induction as arbitrary: x y z) simp_all

lemma quad_linear_fold:
  "fold (quad_linear_term indexer ec rows) ts (lin, a) =
     (fold (\<lambda>(i, c). hm_add i c) (concat (map (linear_adds indexer ec rows) ts)) lin,
      a + (\<Sum>t\<leftarrow>ts. if ec_variable_indices ec ! t = None then (\<Sum>r\<leftarrow>rows. cc_get (ec_row_coefficients ec ! t) r) else 0))"
  by (induction ts arbitrary: lin a)
     (auto simp: quad_linear_term_def linear_adds_def Let_def fold_plus fold_map comp_def add.assoc split: option.split)

lemma BuildQuadraticConstraint_parts:
  fixes indexer ec rows
  defines "lin \<equiv> hm_nonzero (fold (\<lambda>(i, c). hm_add i c) (quad_vector_adds indexer ec rows) [])"
    and "q \<equiv> hm_nonzero (fold (\<lambda>(k, c). hm_add k c) (quad_product_adds indexer ec rows) [])"
  shows "BuildQuadraticConstraint indexer ec rows rhs integrality =
    quadratic_comparison (qc_default\<lparr>qc_linear_indices := map fst lin, qc_linear_coefficients := map snd lin,
        qc_q_rows := map (q_key_row \<circ> fst) q, qc_q_cols := map (q_key_col \<circ> fst) q,
        qc_q_coefficients := map snd q\<rparr>) (ec_comparison_type ec)
      (rhs - (fixed_total ec rows + (\<Sum>qg\<leftarrow>ec_quadratic_groups ec. \<Sum>r\<leftarrow>rows.
        qg_sign qg * group_constant qg r * group_constant qg r))) integrality"
proof -
  have row: "power_group_row indexer qg = (\<lambda>r (x, y, z).
      (fold (\<lambda>(i, c). hm_add i c) (cross_adds (qg_sign qg) (group_constant qg r) (group_terms indexer qg r)) x,
       fold (\<lambda>(k, c). hm_add k c) (outer_adds (qg_sign qg) (group_terms indexer qg r)) y,
       z + qg_sign qg * group_constant qg r * group_constant qg r))" for qg
    by (intro ext) (simp add: power_group_row_adds split: prod.split)
  have group: "(\<lambda>qg. fold (power_group_row indexer qg) rows) = (\<lambda>qg (x, y, z).
      (fold (\<lambda>(i, c). hm_add i c) (concat (map (\<lambda>r. cross_adds (qg_sign qg) (group_constant qg r) (group_terms indexer qg r)) rows)) x,
       fold (\<lambda>(k, c). hm_add k c) (concat (map (\<lambda>r. outer_adds (qg_sign qg) (group_terms indexer qg r)) rows)) y,
       z + (\<Sum>r\<leftarrow>rows. qg_sign qg * group_constant qg r * group_constant qg r)))"
    unfolding row by (intro ext) (simp add: fold_triple fold_concat fold_map comp_def fold_plus split: prod.split)
  have bil: "bilinear_q_terms indexer bt rows = fold (\<lambda>(k, c). hm_add k c) (bilinear_adds indexer bt rows)" for bt
    by (rule ext) (rule bilinear_q_terms_adds)
  show ?thesis
    unfolding BuildQuadraticConstraint_def group quad_linear_fold fold_triple bil fold_plus Let_def prod.case
    by (simp add: lin_def q_def quad_vector_adds_def quad_product_adds_def fold_concat fold_map comp_def fixed_total_def)
qed

lemma quad_okD:
  assumes "quad_ok input ec"
  shows "row_ok input ec"
    and "bt \<in> set (ec_bilinear_terms ec) \<Longrightarrow> bt_var_a bt < si_num_decide_vars input \<and> bt_var_b bt < si_num_decide_vars input \<and>
           (\<forall>r < si_num_rows input. isfinite (cc_get (bt_row_coefficients bt) r)) \<and>
           cc_wf (bt_row_coefficients bt) \<and> logical_size (bt_row_coefficients bt) = si_num_rows input"
    and "qg \<in> set (ec_quadratic_groups ec) \<Longrightarrow> isfinite (qg_sign qg) \<and> list_all col_finite (qg_row_coefficients qg) \<and>
           vars_below (si_num_decide_vars input) (qg_variable_indices qg)"
  using assms by (auto simp: quad_ok_def list_all_iff col_finite_def)

lemma group_terms_ok:
  assumes "indexable input" "quad_ok input ec" "qg \<in> set (ec_quadratic_groups ec)" "r < si_num_rows input"
  shows "\<forall>(i, a) \<in> set (group_terms (BuildIndexer input) qg r). i < global_start input \<and> isfinite a"
    and "group_constant qg r = Fin (group_inner qg (\<lambda>v r. 0) r)"
    and "(\<Sum>(i, a)\<leftarrow>group_terms (BuildIndexer input) qg r. rval a * x i) =
      group_inner qg (at_flat input x) r - group_inner qg (\<lambda>v r. 0) r"
proof -
  note ok = quad_okD(3) [OF assms(2,3)]
  show "\<forall>(i, a) \<in> set (group_terms (BuildIndexer input) qg r). i < global_start input \<and> isfinite a"
    using ok num.at_row_lt [OF assms(1) _ assms(4)] unfolding group_terms_def by (auto dest!: power_row_terms_ok)
  show "group_constant qg r = Fin (group_inner qg (\<lambda>v r. 0) r)"
    using ok by (simp add: group_constant_def group_inner_def power_row_constant_eq)
  show "(\<Sum>(i, a)\<leftarrow>group_terms (BuildIndexer input) qg r. rval a * x i) =
      group_inner qg (at_flat input x) r - group_inner qg (\<lambda>v r. 0) r"
    using power_row_terms_val [where vis = "qg_variable_indices qg" and cols = "qg_row_coefficients qg" and
        input = input and r = r and x = x]
    by (simp add: group_terms_def group_inner_def)
qed

lemma sum_list_eq: "(\<And>z. z \<in> set zs \<Longrightarrow> f z = g z) \<Longrightarrow> (\<Sum>z\<leftarrow>zs. f z) = (\<Sum>z\<leftarrow>zs. g z)"
  by (rule arg_cong [where f = sum_list], rule map_cong [OF refl])

text \<open>The contributions of one square at one row, of one product, and of the linear terms.\<close>

lemma group_adds_ok:
  fixes input ec qg r x
  assumes "indexable input" "quad_ok input ec" "global_start input \<le> 2 ^ 32"
    and qg: "qg \<in> set (ec_quadratic_groups ec)" "r < si_num_rows input"
  defines "vi \<equiv> BuildIndexer input" and "P \<equiv> group_inner qg (at_flat input x) r" and "k \<equiv> group_inner qg (\<lambda>v r. 0) r"
    and "s \<equiv> rval (qg_sign qg)"
  shows "\<forall>(i, c) \<in> set (cross_adds (qg_sign qg) (group_constant qg r) (group_terms vi qg r)). i < global_start input \<and> isfinite c"
    and "(\<Sum>(i, c)\<leftarrow>cross_adds (qg_sign qg) (group_constant qg r) (group_terms vi qg r). c * Fin (x i)) = Fin (2 * s * k * (P - k))"
    and "\<forall>(q, c) \<in> set (outer_adds (qg_sign qg) (group_terms vi qg r)).
           isfinite c \<and> q_key_col q \<le> q_key_row q \<and> q_key_row q < global_start input"
    and "(\<Sum>(q, c)\<leftarrow>outer_adds (qg_sign qg) (group_terms vi qg r). c * Fin (q_key_val x q)) = Fin (s * (P - k)\<^sup>2)"
    and "qg_sign qg * group_constant qg r * group_constant qg r = Fin (s * k\<^sup>2)"
proof -
  have sign: "isfinite (qg_sign qg)" using quad_okD(3) [OF assms(2) qg(1)] by simp
  note gt = group_terms_ok [OF assms(1,2) qg, folded vi_def]
  have fin: "\<forall>(i, a) \<in> set (group_terms vi qg r). isfinite a" using gt(1) by auto
  have fin32: "\<forall>(i, a) \<in> set (group_terms vi qg r). i < 2 ^ 32 \<and> isfinite a" using gt(1) assms(3) by fastforce
  note cross = cross_adds_ok [OF sign fin] and outer = outer_adds_ok [OF sign fin32]
  show cross_fin: "\<forall>(i, c) \<in> set (cross_adds (qg_sign qg) (group_constant qg r) (group_terms vi qg r)). i < global_start input \<and> isfinite c"
    using cross(1) gt(1) unfolding gt(2) by fastforce
  have "(\<Sum>(i, c)\<leftarrow>cs. c * Fin (x i)) = Fin (\<Sum>(i, c)\<leftarrow>cs. rval c * x i)" if "\<forall>(i, c) \<in> set cs. isfinite c" for cs
    using that by (induction cs) (auto simp: zero_dbl_def isfinite_iff)
  moreover have "\<forall>(i, c) \<in> set (cross_adds (qg_sign qg) (group_constant qg r) (group_terms vi qg r)). isfinite c"
    using cross_fin by auto
  ultimately have "(\<Sum>(i, c)\<leftarrow>cross_adds (qg_sign qg) (group_constant qg r) (group_terms vi qg r). c * Fin (x i)) =
      Fin (\<Sum>(i, c)\<leftarrow>cross_adds (qg_sign qg) (group_constant qg r) (group_terms vi qg r). rval c * x i)"
    by simp
  then show "(\<Sum>(i, c)\<leftarrow>cross_adds (qg_sign qg) (group_constant qg r) (group_terms vi qg r). c * Fin (x i)) = Fin (2 * s * k * (P - k))"
    by (simp add: gt(2,3) cross(2) s_def k_def P_def)
  show "\<forall>(q, c) \<in> set (outer_adds (qg_sign qg) (group_terms vi qg r)).
      isfinite c \<and> q_key_col q \<le> q_key_row q \<and> q_key_row q < global_start input"
    using outer(1) gt(1) by fastforce
  show "(\<Sum>(q, c)\<leftarrow>outer_adds (qg_sign qg) (group_terms vi qg r). c * Fin (q_key_val x q)) = Fin (s * (P - k)\<^sup>2)"
    by (simp add: outer(2) gt(3) s_def k_def P_def)
  show "qg_sign qg * group_constant qg r * group_constant qg r = Fin (s * k\<^sup>2)"
    using sign by (auto simp: gt(2) isfinite_iff s_def k_def power2_eq_square)
qed

lemma product_adds_row_ok:
  assumes "indexable input" "quad_ok input ec" "global_start input \<le> 2 ^ 32" "\<forall>r \<in> set rows. r < si_num_rows input"
    and "bt \<in> set (ec_bilinear_terms ec)"
  shows "\<forall>(q, c) \<in> set (bilinear_adds (BuildIndexer input) bt rows).
           isfinite c \<and> q_key_col q \<le> q_key_row q \<and> q_key_row q < global_start input"
    and "(\<Sum>(q, c)\<leftarrow>bilinear_adds (BuildIndexer input) bt rows. c * Fin (q_key_val x q)) =
           Fin (\<Sum>r\<leftarrow>rows. product_meaning (at_flat input x) bt r)"
proof -
  have "\<forall>r \<in> set rows. Get (BuildIndexer input) (bt_var_a bt) r < global_start input \<and>
      Get (BuildIndexer input) (bt_var_b bt) r < global_start input \<and> isfinite (cc_get (bt_row_coefficients bt) r)"
    using quad_okD(2) [OF assms(2,5)] num.at_row_lt [OF assms(1)] assms(4) by simp
  note bil = bilinear_adds_ok [OF this assms(3)]
  show "\<forall>(q, c) \<in> set (bilinear_adds (BuildIndexer input) bt rows).
      isfinite c \<and> q_key_col q \<le> q_key_row q \<and> q_key_row q < global_start input" by (rule bil(1))
  show "(\<Sum>(q, c)\<leftarrow>bilinear_adds (BuildIndexer input) bt rows. c * Fin (q_key_val x q)) =
      Fin (\<Sum>r\<leftarrow>rows. product_meaning (at_flat input x) bt r)"
    by (simp add: bil(2) product_meaning_def at_flat_def)
qed

lemma linear_adds_ok:
  assumes "indexable input" "row_ok input ec" "\<forall>r \<in> set rows. r < si_num_rows input" "t < length (ec_variable_indices ec)"
  shows "\<forall>(i, c) \<in> set (linear_adds (BuildIndexer input) ec rows t). i < global_start input \<and> isfinite c"
    and "(\<Sum>(i, c)\<leftarrow>linear_adds (BuildIndexer input) ec rows t. c * Fin (x i)) +
      (if ec_variable_indices ec ! t = None then (\<Sum>r\<leftarrow>rows. cc_get (ec_row_coefficients ec ! t) r) else 0) =
      Fin (quad_linear_meaning ec (at_flat input x) rows t)"
proof -
  let ?col = "ec_row_coefficients ec ! t"
  have fin: "cc_get ?col r = Fin (rval (cc_get ?col r))" "isfinite (cc_get ?col r)" if "r \<in> set rows" for r
    using row_okD(4) [OF assms(2,4)] assms(3) that by simp_all
  show "\<forall>(i, c) \<in> set (linear_adds (BuildIndexer input) ec rows t). i < global_start input \<and> isfinite c"
    using fin(2) num.at_row_lt [OF assms(1) row_okD(1) [OF assms(2,4)]] assms(3)
    by (cases "ec_variable_indices ec ! t") (auto simp: linear_adds_def)
  have none: "(\<Sum>r\<leftarrow>rows. cc_get ?col r) = Fin (\<Sum>r\<leftarrow>rows. rval (cc_get ?col r))"
    unfolding sum_list_Fin [symmetric] using fin(1) by (rule sum_list_eq)
  have some: "(\<Sum>r\<leftarrow>rows. cc_get ?col r * Fin (y r)) = Fin (\<Sum>r\<leftarrow>rows. rval (cc_get ?col r) * y r)" for y
    unfolding sum_list_Fin [symmetric] by (rule sum_list_eq) (subst fin(1); simp)
  show "(\<Sum>(i, c)\<leftarrow>linear_adds (BuildIndexer input) ec rows t. c * Fin (x i)) +
      (if ec_variable_indices ec ! t = None then (\<Sum>r\<leftarrow>rows. cc_get ?col r) else 0) =
      Fin (quad_linear_meaning ec (at_flat input x) rows t)"
    by (cases "ec_variable_indices ec ! t")
       (simp_all add: linear_adds_def quad_linear_meaning_def none some comp_def at_flat_def)
qed

text \<open>The two gathered parts and the part moved to the right-hand side, as reals.\<close>

lemma quad_contributions:
  fixes input ec rows x
  assumes "indexable input" "quad_ok input ec" "global_start input \<le> 2 ^ 32" "\<forall>r \<in> set rows. r < si_num_rows input"
  defines "vi \<equiv> BuildIndexer input" and "X \<equiv> at_flat input x"
  shows "\<forall>(i, c) \<in> set (quad_vector_adds vi ec rows). i < global_start input \<and> isfinite c"
    and "\<forall>(k, c) \<in> set (quad_product_adds vi ec rows). isfinite c \<and> q_key_col k \<le> q_key_row k \<and> q_key_row k < global_start input"
    and "fixed_total ec rows + (\<Sum>qg\<leftarrow>ec_quadratic_groups ec. \<Sum>r\<leftarrow>rows.
           qg_sign qg * group_constant qg r * group_constant qg r) = Fin (quad_fixed ec rows)"
    and "(\<Sum>(i, c)\<leftarrow>quad_vector_adds vi ec rows. c * Fin (x i)) + (\<Sum>(k, c)\<leftarrow>quad_product_adds vi ec rows. c * Fin (q_key_val x k)) =
      Fin (quad_lhs ec X rows - quad_fixed ec rows)"
proof -
  let ?qgs = "ec_quadratic_groups ec" and ?ts = "[0..<length (ec_variable_indices ec)]"
  note row = quad_okD(1) [OF assms(2)]
  have lt: "r < si_num_rows input" if "r \<in> set rows" for r using assms(4) that by simp
  note group = group_adds_ok [OF assms(1-3) _ lt, folded vi_def X_def]
  note product = product_adds_row_ok [OF assms(1-4), folded vi_def X_def]
  note linear = linear_adds_ok [OF assms(1) row assms(4), folded vi_def X_def]
  show "\<forall>(i, c) \<in> set (quad_vector_adds vi ec rows). i < global_start input \<and> isfinite c"
    unfolding quad_vector_adds_def set_append set_concat set_map using linear(1) group(1) by fastforce
  show "\<forall>(k, c) \<in> set (quad_product_adds vi ec rows).
      isfinite c \<and> q_key_col k \<le> q_key_row k \<and> q_key_row k < global_start input"
    unfolding quad_product_adds_def set_append set_concat set_map using product(1) group(3) by fastforce
  obtain F where F: "fixed_total ec rows = Fin F"
    using fixed_total_finite [OF row assms(4)] by (auto simp: isfinite_iff)
  have fins: "(\<Sum>qg\<leftarrow>?qgs. \<Sum>r\<leftarrow>rows. g qg r) = Fin (\<Sum>qg\<leftarrow>?qgs. \<Sum>r\<leftarrow>rows. f qg r)"
    if "\<And>qg r. qg \<in> set ?qgs \<Longrightarrow> r \<in> set rows \<Longrightarrow> g qg r = Fin (f qg r)" for f g
    unfolding sum_list_Fin [where xs = rows, symmetric] sum_list_Fin [where xs = ?qgs, symmetric]
    using that by (intro sum_list_eq) auto
  show "fixed_total ec rows + (\<Sum>qg\<leftarrow>?qgs. \<Sum>r\<leftarrow>rows. qg_sign qg * group_constant qg r * group_constant qg r) =
      Fin (quad_fixed ec rows)"
  proof -
    have "(\<Sum>qg\<leftarrow>?qgs. \<Sum>r\<leftarrow>rows. qg_sign qg * group_constant qg r * group_constant qg r) =
        Fin (\<Sum>qg\<leftarrow>?qgs. \<Sum>r\<leftarrow>rows. rval (qg_sign qg) * (group_inner qg (\<lambda>v r. 0) r)\<^sup>2)"
      by (rule fins) (rule group(5))
    then show ?thesis by (simp add: quad_fixed_def F)
  qed
  define A where "A = (\<Sum>t\<leftarrow>?ts. \<Sum>(i, c)\<leftarrow>linear_adds vi ec rows t. c * Fin (x i))"
  have "A + fixed_total ec rows = Fin (\<Sum>t\<leftarrow>?ts. quad_linear_meaning ec X rows t)"
    unfolding A_def fixed_total_def X_def sum_list_addf [symmetric] sum_list_Fin [where xs = ?ts, symmetric]
    using linear(2) by (intro sum_list_eq) simp
  then have A: "A = Fin ((\<Sum>t\<leftarrow>?ts. quad_linear_meaning ec X rows t) - F)"
    unfolding F by (cases A) simp_all
  have products: "(\<Sum>bt\<leftarrow>ec_bilinear_terms ec. \<Sum>(k, c)\<leftarrow>bilinear_adds vi bt rows. c * Fin (q_key_val x k)) =
      Fin (\<Sum>bt\<leftarrow>ec_bilinear_terms ec. \<Sum>r\<leftarrow>rows. product_meaning X bt r)"
    unfolding sum_list_Fin [where xs = "ec_bilinear_terms ec", symmetric]
    unfolding X_def by (rule sum_list_eq) (rule product(2))
  have square: "2 * s * k * (p - k) + s * (p - k)\<^sup>2 = s * p\<^sup>2 - s * k\<^sup>2" for s k p :: real
    by (simp add: power2_eq_square algebra_simps)
  have expand: "(\<Sum>qg\<leftarrow>?qgs. \<Sum>r\<leftarrow>rows. 2 * rval (qg_sign qg) * group_inner qg (\<lambda>v r. 0) r *
        (group_inner qg X r - group_inner qg (\<lambda>v r. 0) r)) +
      (\<Sum>qg\<leftarrow>?qgs. \<Sum>r\<leftarrow>rows. rval (qg_sign qg) * (group_inner qg X r - group_inner qg (\<lambda>v r. 0) r)\<^sup>2) =
      (\<Sum>qg\<leftarrow>?qgs. \<Sum>r\<leftarrow>rows. rval (qg_sign qg) * (group_inner qg X r)\<^sup>2) -
      (\<Sum>qg\<leftarrow>?qgs. \<Sum>r\<leftarrow>rows. rval (qg_sign qg) * (group_inner qg (\<lambda>v r. 0) r)\<^sup>2)"
    by (simp only: sum_list_addf [symmetric] square sum_list_subtractf)
  have crosses: "(\<Sum>qg\<leftarrow>?qgs. \<Sum>r\<leftarrow>rows. \<Sum>(i, c)\<leftarrow>cross_adds (qg_sign qg) (group_constant qg r) (group_terms vi qg r). c * Fin (x i)) =
      Fin (\<Sum>qg\<leftarrow>?qgs. \<Sum>r\<leftarrow>rows. 2 * rval (qg_sign qg) * group_inner qg (\<lambda>v r. 0) r *
        (group_inner qg X r - group_inner qg (\<lambda>v r. 0) r))"
    unfolding X_def by (rule fins) (rule group(2))
  have squares: "(\<Sum>qg\<leftarrow>?qgs. \<Sum>r\<leftarrow>rows. \<Sum>(k, c)\<leftarrow>outer_adds (qg_sign qg) (group_terms vi qg r). c * Fin (q_key_val x k)) =
      Fin (\<Sum>qg\<leftarrow>?qgs. \<Sum>r\<leftarrow>rows. rval (qg_sign qg) * (group_inner qg X r - group_inner qg (\<lambda>v r. 0) r)\<^sup>2)"
    unfolding X_def by (rule fins) (rule group(4))
  show "(\<Sum>(i, c)\<leftarrow>quad_vector_adds vi ec rows. c * Fin (x i)) + (\<Sum>(k, c)\<leftarrow>quad_product_adds vi ec rows. c * Fin (q_key_val x k)) =
      Fin (quad_lhs ec X rows - quad_fixed ec rows)"
    unfolding quad_vector_adds_def quad_product_adds_def map_append sum_list_append sum_list_concat_map
      A_def [symmetric] A crosses squares products
    using expand by (simp add: quad_lhs_def quad_fixed_def F)
qed

section \<open>Integral quadratic left-hand sides\<close>

text \<open>What the integrality test leaves out: the signs and the constants inside the squares.\<close>

definition squares_integral :: "EvaluatedConstraint \<Rightarrow> bool" where
  "squares_integral ec \<longleftrightarrow> list_all (\<lambda>qg. int_val (qg_sign qg) \<and>
     list_all (\<lambda>(v, col). v = None \<longrightarrow> AllIntegral col) (zip (qg_variable_indices qg) (qg_row_coefficients qg)))
     (ec_quadratic_groups ec)"

lemma integrality_parts:
  assumes "IsEvalConstraintLhsIntegerValued input ec = LHS_INTEGER"
  shows "linear_integrality (si_variable_types input) (ec_terms ec) = LHS_INTEGER"
    and "bt \<in> set (ec_bilinear_terms ec) \<Longrightarrow> \<not> IsRealType (si_variable_types input ! bt_var_a bt) \<and>
           \<not> IsRealType (si_variable_types input ! bt_var_b bt) \<and> AllIntegral (bt_row_coefficients bt)"
    and "qg \<in> set (ec_quadratic_groups ec) \<Longrightarrow>
           linear_integrality (si_variable_types input) (zip (qg_variable_indices qg) (qg_row_coefficients qg)) = LHS_INTEGER"
proof -
  have bil: "bilinear_integrality types bts = LHS_INTEGER \<Longrightarrow> bt \<in> set bts \<Longrightarrow>
      \<not> IsRealType (types ! bt_var_a bt) \<and> \<not> IsRealType (types ! bt_var_b bt) \<and> AllIntegral (bt_row_coefficients bt)"
    for types bts bt by (induction bts) (auto split: if_splits)
  have groups: "groups_integrality types qgs = LHS_INTEGER \<Longrightarrow> qg \<in> set qgs \<Longrightarrow>
      linear_integrality types (zip (qg_variable_indices qg) (qg_row_coefficients qg)) = LHS_INTEGER"
    for types qgs qg by (induction qgs) (auto split: LhsIntegrality.splits)
  from assms have all: "linear_integrality (si_variable_types input) (ec_terms ec) = LHS_INTEGER"
    "bilinear_integrality (si_variable_types input) (ec_bilinear_terms ec) = LHS_INTEGER"
    "groups_integrality (si_variable_types input) (ec_quadratic_groups ec) = LHS_INTEGER"
    by (simp_all add: IsEvalConstraintLhsIntegerValued_def split: LhsIntegrality.splits)
  show "linear_integrality (si_variable_types input) (ec_terms ec) = LHS_INTEGER" by (rule all(1))
  show "bt \<in> set (ec_bilinear_terms ec) \<Longrightarrow> \<not> IsRealType (si_variable_types input ! bt_var_a bt) \<and>
      \<not> IsRealType (si_variable_types input ! bt_var_b bt) \<and> AllIntegral (bt_row_coefficients bt)"
    by (rule bil [OF all(2)])
  show "qg \<in> set (ec_quadratic_groups ec) \<Longrightarrow>
      linear_integrality (si_variable_types input) (zip (qg_variable_indices qg) (qg_row_coefficients qg)) = LHS_INTEGER"
    by (rule groups [OF all(3)])
qed

lemma AllIntegral_rval: "cc_wf col \<Longrightarrow> AllIntegral col \<Longrightarrow> r < logical_size col \<Longrightarrow> rval (cc_get col r) \<in> \<int>"
  using AllIntegral_get [of col r] by (cases "cc_get col r") simp_all

lemma group_inner_int:
  assumes "quad_ok input ec" "indexable input" "integral_at input x" "qg \<in> set (ec_quadratic_groups ec)"
    and "IsEvalConstraintLhsIntegerValued input ec = LHS_INTEGER" "squares_integral ec" "r < si_num_rows input"
  shows "group_inner qg (at_flat input x) r \<in> \<int>" "group_inner qg (\<lambda>v r. 0) r \<in> \<int>"
proof -
  let ?vis = "qg_variable_indices qg" and ?cols = "qg_row_coefficients qg"
  have qg: "list_all (\<lambda>col. cc_wf col \<and> col_finite col) ?cols" "length ?cols = length ?vis"
    "vars_below (si_num_decide_vars input) ?vis"
    "list_all (\<lambda>(v, col). v = None \<longrightarrow> AllIntegral col) (zip ?vis ?cols)"
    using assms(1,4,6) by (auto simp: quad_ok_def squares_integral_def list_all_iff)
  have meaning: "inner_meaning ?vis ?cols X r t \<in> \<int>"
    if t: "t < length ?vis" and X: "\<And>v. v < si_num_decide_vars input \<Longrightarrow> \<not> IsRealType (si_variable_types input ! v) \<Longrightarrow> X v r \<in> \<int>"
    for X t
  proof (cases "r < logical_size (?cols ! t)")
    case r: True
    have wf: "cc_wf (?cols ! t)" using qg(1,2) t by (simp add: list_all_length)
    show ?thesis
    proof (cases "?vis ! t")
      case None
      then have "AllIntegral (?cols ! t)" using qg(2,4) t by (auto simp: list_all_length)
      then show ?thesis using AllIntegral_rval [OF wf _ r] None by (simp add: inner_meaning_def)
    next
      case (Some v)
      note i = linear_integrality_terms [OF integrality_parts(3) [OF assms(5,4)] t _ Some]
      have "AllIntegral (?cols ! t)" "\<not> IsRealType (si_variable_types input ! v)" using i qg(2) t by simp_all
      then show ?thesis
        using AllIntegral_rval [OF wf _ r] X [OF vars_belowD [OF qg(3) t Some]] Some by (simp add: inner_meaning_def)
    qed
  qed (simp add: inner_meaning_def)
  have sum: "(\<Sum>t\<leftarrow>ts. f t) \<in> \<int>" if "\<And>t. t \<in> set ts \<Longrightarrow> f t \<in> \<int>" for f :: "nat \<Rightarrow> real" and ts
    using that by (induction ts) auto
  show "group_inner qg (\<lambda>v r. 0) r \<in> \<int>"
    unfolding group_inner_def power_inner_def by (rule sum) (auto intro: meaning)
  show "group_inner qg (at_flat input x) r \<in> \<int>"
    unfolding group_inner_def power_inner_def
    by (rule sum) (use integral_Get [OF assms(3,2)] assms(7) in \<open>auto intro!: meaning simp: at_flat_def\<close>)
qed

lemma quad_integral:
  assumes "indexable input" "quad_ok input ec" "global_start input \<le> 2 ^ 32" "\<forall>r \<in> set rows. r < si_num_rows input"
    and "integral_at input x" "IsEvalConstraintLhsIntegerValued input ec = LHS_INTEGER" "squares_integral ec"
  shows "quad_lhs ec (at_flat input x) rows - quad_fixed ec rows \<in> \<int>"
proof -
  let ?vi = "BuildIndexer input" and ?qgs = "ec_quadratic_groups ec"
  note parts = integrality_parts [OF assms(6)] and row = quad_okD(1) [OF assms(2)]
  have lt: "r < si_num_rows input" if "r \<in> set rows" for r using assms(4) that by simp
  have linear: "int_val (\<Sum>(i, c)\<leftarrow>linear_adds ?vi ec rows t. c * Fin (x i))" if t: "t < length (ec_variable_indices ec)" for t
  proof (cases "ec_variable_indices ec ! t")
    case (Some v)
    note int = linear_integrality_term [OF row parts(1) t Some]
    have "int_val (cc_get (ec_row_coefficients ec ! t) r * Fin (x (Get ?vi v r)))" if "r \<in> set rows" for r
      using int(2) [OF lt [OF that]] integral_Get [OF assms(5,1) row_okD(1) [OF row t Some] int(1)] lt [OF that]
      by (intro integral_product) auto
    with Some show ?thesis by (simp add: linear_adds_def comp_def) (rule int_val_sum, blast)
  qed (simp add: linear_adds_def int_val_ring)
  have sign: "rval (qg_sign qg) \<in> \<int>" if "qg \<in> set ?qgs" for qg
    using assms(7) that by (auto simp: squares_integral_def list_all_iff elim!: int_valE dest!: bspec)
  note adds = group_adds_ok [OF assms(1-3) _ lt] and inner = group_inner_int [OF assms(2,1,5) _ assms(6,7) lt]
  have cross: "int_val (\<Sum>(i, c)\<leftarrow>cross_adds (qg_sign qg) (group_constant qg r) (group_terms ?vi qg r). c * Fin (x i))"
    and outer: "int_val (\<Sum>(q, c)\<leftarrow>outer_adds (qg_sign qg) (group_terms ?vi qg r). c * Fin (q_key_val x q))"
    if "qg \<in> set ?qgs" "r \<in> set rows" for qg r
    unfolding adds(2) [OF that] adds(4) [OF that] int_val_Fin using sign [OF that(1)] inner [OF that] by simp_all
  have product: "int_val (\<Sum>(q, c)\<leftarrow>bilinear_adds ?vi bt rows. c * Fin (q_key_val x q))"
    if bt: "bt \<in> set (ec_bilinear_terms ec)" for bt
  proof -
    note ok = quad_okD(2) [OF assms(2) bt] and types = parts(2) [OF bt]
    have "product_meaning (at_flat input x) bt r \<in> \<int>" if r: "r \<in> set rows" for r
      using AllIntegral_rval [of "bt_row_coefficients bt" r] ok types lt [OF r] integral_Get [OF assms(5,1)]
      by (simp add: product_meaning_def at_flat_def)
    then have "(\<Sum>r\<leftarrow>rows. product_meaning (at_flat input x) bt r) \<in> \<int>" by (induction rows) auto
    then show ?thesis by (simp add: product_adds_row_ok(2) [OF assms(1-4) bt] int_val_Fin)
  qed
  have "int_val ((\<Sum>(i, c)\<leftarrow>quad_vector_adds ?vi ec rows. c * Fin (x i)) +
      (\<Sum>(k, c)\<leftarrow>quad_product_adds ?vi ec rows. c * Fin (q_key_val x k)))"
    unfolding quad_vector_adds_def quad_product_adds_def map_append sum_list_append sum_list_concat_map
    by (intro int_val_ring int_val_sum ballI linear cross outer product) auto
  then show ?thesis unfolding quad_contributions(4) [OF assms(1-4)] int_val_Fin .
qed

section \<open>Each shape states its constraint\<close>

text \<open>What the rows built for a clause ask: every linear term is summed over the rows.\<close>

definition quad_as_built :: "SolverInput \<Rightarrow> EvaluatedConstraint \<Rightarrow> (idx \<Rightarrow> idx \<Rightarrow> real) \<Rightarrow> bool" where
  "quad_as_built input ec X \<longleftrightarrow>
     (if ec_lhs_is_aggregate ec
      then (\<forall>rows \<in> set (agg_row_sets ec (si_num_rows input)).
              sat_cmp (ec_comparison_type ec) (Fin (quad_lhs ec X rows))
                (if cc_empty (ec_rhs_values ec) then 0
                 else cc_get (ec_rhs_values ec) (if ec_row_group_ids ec = [] then 0 else hd rows)))
      else (\<forall>r < si_num_rows input. row_active ec r \<longrightarrow>
              sat_cmp (ec_comparison_type ec) (Fin (quad_lhs ec X [r])) (cc_get (ec_rhs_values ec) r)))"

lemma quadratic_comparison_sat:
  assumes "quadratic_comparison qc cmp (K - Fin F) integ = Inr qc'"
    and val: "lin_val (qc_linear_indices qc) (qc_linear_coefficients qc) x +
      quad_val (qc_q_rows qc) (qc_q_cols qc) (qc_q_coefficients qc) x = Fin (V - F)"
    and "strict_cmp cmp \<Longrightarrow> integ = LHS_INTEGER \<Longrightarrow> V - F \<in> \<int>"
  shows "sat_qc (qc'\<lparr>qc_provenance := p\<rparr>) x \<longleftrightarrow> sat_cmp cmp (Fin V) K"
proof -
  have parts: "qc_linear_indices qc' = qc_linear_indices qc" "qc_linear_coefficients qc' = qc_linear_coefficients qc"
    "qc_q_rows qc' = qc_q_rows qc" "qc_q_cols qc' = qc_q_cols qc" "qc_q_coefficients qc' = qc_q_coefficients qc"
    "strict_cmp cmp \<Longrightarrow> integ = LHS_INTEGER" "cmp \<noteq> COMPARE_NOTEQUAL" "cmp \<noteq> COMPARE_OTHER"
    "qc_sense qc' = (if cmp = COMPARE_EQUAL then Eq
       else if cmp = COMPARE_LESSTHAN \<or> cmp = COMPARE_LESSTHANOREQUALTO then Le else Ge)"
    "qc_rhs qc' = (if cmp = COMPARE_LESSTHAN then std_ceil (K - Fin F) - 1
       else if cmp = COMPARE_GREATERTHAN then std_floor (K - Fin F) + 1 else K - Fin F)"
    using assms(1)
    by (auto simp: quadratic_comparison_def Let_def strict_cmp_def split: ExpressionType.splits if_splits)
  have int: "strict_cmp cmp \<Longrightarrow> V - F \<in> \<int>" using assms(3) parts(6) by blast
  have "sat_qc (qc'\<lparr>qc_provenance := p\<rparr>) x \<longleftrightarrow> sat_sense (qc_sense qc') (Fin (V - F)) (qc_rhs qc')"
    by (simp add: sat_qc_def parts(1-5) val)
  also have "\<dots> \<longleftrightarrow> sat_cmp cmp (Fin V) K"
    using int parts(7-10)
    by (cases cmp; cases K)
       (auto simp: strict_cmp_def minus_dbl_def one_dbl_def deq_def strict_above strict_below
         strict_above [where r = "r - F" for r, simplified] strict_below [where r = "r - F" for r, simplified])
  finally show ?thesis .
qed

lemma BuildQuadraticConstraint_form:
  assumes "indexable input" "quad_ok input ec" "global_start input \<le> 2 ^ 32" "\<forall>r \<in> set rows. r < si_num_rows input"
  shows "\<exists>qc0. BuildQuadraticConstraint (BuildIndexer input) ec rows K integ =
      quadratic_comparison qc0 (ec_comparison_type ec) (K - Fin (quad_fixed ec rows)) integ \<and>
    (\<forall>x. lin_val (qc_linear_indices qc0) (qc_linear_coefficients qc0) x +
       quad_val (qc_q_rows qc0) (qc_q_cols qc0) (qc_q_coefficients qc0) x =
       Fin (quad_lhs ec (at_flat input x) rows - quad_fixed ec rows))"
proof -
  let ?vi = "BuildIndexer input"
  define lin where "lin = hm_nonzero (fold (\<lambda>(i, c). hm_add i c) (quad_vector_adds ?vi ec rows) [])"
  define q where "q = hm_nonzero (fold (\<lambda>(k, c). hm_add k c) (quad_product_adds ?vi ec rows) [])"
  define qc0 where "qc0 = qc_default\<lparr>qc_linear_indices := map fst lin, qc_linear_coefficients := map snd lin,
    qc_q_rows := map (q_key_row \<circ> fst) q, qc_q_cols := map (q_key_col \<circ> fst) q, qc_q_coefficients := map snd q\<rparr>"
  note adds = quad_contributions [OF assms]
  have fin: "\<forall>(i, c) \<in> set (quad_vector_adds ?vi ec rows). isfinite c"
    "\<forall>(k, c) \<in> set (quad_product_adds ?vi ec rows). isfinite c" using adds(1,2) by auto
  have "quad_val (map (q_key_row \<circ> fst) q) (map (q_key_col \<circ> fst) q) (map snd q) x =
      lin_val (map fst q) (map snd q) (q_key_val x)" for x
    unfolding quad_val_def lin_val_def
    by (rule arg_cong [where f = sum_list], rule nth_equalityI) (simp_all add: q_key_val_def case_prod_unfold)
  then have "lin_val (qc_linear_indices qc0) (qc_linear_coefficients qc0) x +
      quad_val (qc_q_rows qc0) (qc_q_cols qc0) (qc_q_coefficients qc0) x =
      Fin (quad_lhs ec (at_flat input x) rows - quad_fixed ec rows)" for x
    using hm_row(1) [OF fin(1), of x] hm_row(1) [OF fin(2), of "q_key_val x"] adds(4) [of x]
    by (simp add: qc0_def lin_def q_def)
  then show ?thesis
    unfolding BuildQuadraticConstraint_parts adds(3) lin_def [symmetric] q_def [symmetric] qc0_def [symmetric] by blast
qed

lemma BuildQuadraticConstraint_sat:
  assumes "indexable input" "quad_ok input ec" "global_start input \<le> 2 ^ 32" "\<forall>r \<in> set rows. r < si_num_rows input"
    and "integral_at input x" "strict_cmp (ec_comparison_type ec) \<Longrightarrow> squares_integral ec"
    and run: "BuildQuadraticConstraint (BuildIndexer input) ec rows K (IsEvalConstraintLhsIntegerValued input ec) = Inr qc"
  shows "sat_qc (qc\<lparr>qc_provenance := p\<rparr>) x \<longleftrightarrow>
    sat_cmp (ec_comparison_type ec) (Fin (quad_lhs ec (at_flat input x) rows)) K"
proof -
  obtain qc0 where "quadratic_comparison qc0 (ec_comparison_type ec) (K - Fin (quad_fixed ec rows))
      (IsEvalConstraintLhsIntegerValued input ec) = Inr qc"
    "lin_val (qc_linear_indices qc0) (qc_linear_coefficients qc0) x +
      quad_val (qc_q_rows qc0) (qc_q_cols qc0) (qc_q_coefficients qc0) x =
      Fin (quad_lhs ec (at_flat input x) rows - quad_fixed ec rows)"
    using BuildQuadraticConstraint_form [OF assms(1-4), of K "IsEvalConstraintLhsIntegerValued input ec"] run by auto
  then show ?thesis
    by (rule quadratic_comparison_sat) (use quad_integral [OF assms(1-5)] assms(6) in auto)
qed

section \<open>The whole loop\<close>

lemma model_rows_push_quadratic:
  "model_rows (push_quadratic qc stamp m) x \<longleftrightarrow> model_rows m x \<and> sat_qc (qc\<lparr>qc_provenance := stamp (qc_provenance qc)\<rparr>) x"
  by (auto simp: push_quadratic_def model_rows_def)

text \<open>A row may be skipped; a row that is built states the comparison over its rows.\<close>

lemma quadratic_fold_states:
  assumes step: "\<And>a m m'. a \<in> set as \<Longrightarrow> f a m = Inr m' \<Longrightarrow> model_rows m' x \<longleftrightarrow> model_rows m x \<and> P a"
  shows "fold_res f as m = Inr m' \<Longrightarrow> model_rows m' x \<longleftrightarrow> model_rows m x \<and> (\<forall>a \<in> set as. P a)"
  using step
proof (induction as arbitrary: m)
  case (Cons a as)
  from Cons.prems(1) obtain m1 where m1: "f a m = Inr m1" "fold_res f as m1 = Inr m'" by (auto split: sum.splits)
  have "model_rows m1 x \<longleftrightarrow> model_rows m x \<and> P a" by (rule Cons.prems(2) [OF _ m1(1)]) simp
  moreover have "model_rows m' x \<longleftrightarrow> model_rows m1 x \<and> (\<forall>a \<in> set as. P a)"
    by (rule Cons.IH [OF m1(2)]) (rule Cons.prems(2), simp_all)
  ultimately show ?case by auto
qed simp

definition quad_clause_ok :: "SolverInput \<Rightarrow> EvaluatedConstraint \<Rightarrow> bool" where
  "quad_clause_ok input ec \<longleftrightarrow> \<not> is_quadratic ec \<or>
     quad_ok input ec \<and> (strict_cmp (ec_comparison_type ec) \<longrightarrow> squares_integral ec)"

lemma quadratic_constraint_states:
  assumes "indexable input" "global_start input \<le> 2 ^ 32" "integral_at input x" "quad_clause_ok input (si_constraints input ! i)"
    and run: "quadratic_constraint input (BuildIndexer input) i m = Inr m'"
  shows "model_rows m' x \<longleftrightarrow> model_rows m x \<and>
    (is_quadratic (si_constraints input ! i) \<longrightarrow> quad_as_built input (si_constraints input ! i) (at_flat input x))"
proof (cases "is_quadratic (si_constraints input ! i)")
  case False
  then show ?thesis using run by (simp add: quadratic_constraint_def Let_def)
next
  case True
  let ?ec = "si_constraints input ! i" and ?vi = "BuildIndexer input"
  have ok: "quad_ok input ?ec" and strict: "strict_cmp (ec_comparison_type ?ec) \<Longrightarrow> squares_integral ?ec"
    using assms(4) True by (auto simp: quad_clause_ok_def)
  have shape: "ec_shape (si_num_decide_vars input) (si_num_rows input) ?ec"
    using quad_okD(1) [OF ok] by (simp add: row_ok_def)
  note sat = BuildQuadraticConstraint_sat [OF assms(1) ok assms(2) _ assms(3) strict]
  consider (single) "ec_lhs_is_aggregate ?ec" "ec_row_group_ids ?ec = []"
    | (groups) "ec_lhs_is_aggregate ?ec" "ec_row_group_ids ?ec \<noteq> []" | (rows) "\<not> ec_lhs_is_aggregate ?ec" by blast
  then show ?thesis
  proof cases
    case single
    then obtain qc where "BuildQuadraticConstraint ?vi ?ec [0..<si_num_rows input]
        (if cc_empty (ec_rhs_values ?ec) then 0 else cc_get (ec_rhs_values ?ec) 0)
        (IsEvalConstraintLhsIntegerValued input ?ec) = Inr qc"
      "m' = push_quadratic qc (\<lambda>p. StampAggregateProvenance ?ec
        (StampConstraintProvenance ?ec (repair_group_of input i) None [] 0 p)) m"
      using run True by (auto simp: quadratic_constraint_def quadratic_aggregate_def Let_def bind_Inr)
    with sat [of "[0..<si_num_rows input]"] single True show ?thesis
      by (simp add: model_rows_push_quadratic quad_as_built_def agg_row_sets_def)
  next
    case groups
    let ?csr = "BuildGroupCSR (ec_row_group_ids ?ec) (ec_num_groups ?ec) ([], [])"
    let ?rows = "group_rows (ec_row_group_ids ?ec)"
    have loop: "fold_res (quadratic_group ?vi ?ec (repair_group_of input i)
        (IsEvalConstraintLhsIntegerValued input ?ec) ?csr) [0..<ec_num_groups ?ec] m = Inr m'"
      using run True groups by (simp add: quadratic_constraint_def Let_def)
    have "model_rows m' x \<longleftrightarrow> model_rows m x \<and> (\<forall>g \<in> set [0..<ec_num_groups ?ec]. ?rows g \<noteq> [] \<longrightarrow>
        sat_cmp (ec_comparison_type ?ec) (Fin (quad_lhs ?ec (at_flat input x) (?rows g)))
          (if cc_empty (ec_rhs_values ?ec) then 0 else cc_get (ec_rhs_values ?ec) (hd (?rows g))))"
    proof (rule quadratic_fold_states [OF _ loop])
      fix g m1 m2
      assume g: "g \<in> set [0..<ec_num_groups ?ec]"
        and step: "quadratic_group ?vi ?ec (repair_group_of input i) (IsEvalConstraintLhsIntegerValued input ?ec) ?csr g m1 = Inr m2"
      have bucket: "csr_bucket ?csr g = ?rows g"
        using shape groups g by (intro csr_bucket_eq) (auto simp: ec_shape_def)
      have lt: "\<forall>r \<in> set (?rows g). r < si_num_rows input"
        using shape groups by (auto simp: group_rows_mem ec_shape_def)
      from step sat [OF lt] show "model_rows m2 x \<longleftrightarrow> model_rows m1 x \<and> (?rows g \<noteq> [] \<longrightarrow>
          sat_cmp (ec_comparison_type ?ec) (Fin (quad_lhs ?ec (at_flat input x) (?rows g)))
            (if cc_empty (ec_rhs_values ?ec) then 0 else cc_get (ec_rhs_values ?ec) (hd (?rows g))))"
        unfolding quadratic_group_def bucket Let_def
        by (cases "?rows g = []") (auto simp: bind_Inr model_rows_push_quadratic hd_conv_nth)
    qed
    with groups True show ?thesis by (auto simp: quad_as_built_def agg_row_sets_def)
  next
    case rows
    have loop: "fold_res (quadratic_row ?vi ?ec (repair_group_of input i)
        (IsEvalConstraintLhsIntegerValued input ?ec)) [0..<si_num_rows input] m = Inr m'"
      using run True rows by (simp add: quadratic_constraint_def Let_def)
    have "model_rows m' x \<longleftrightarrow> model_rows m x \<and> (\<forall>r \<in> set [0..<si_num_rows input]. row_active ?ec r \<longrightarrow>
        sat_cmp (ec_comparison_type ?ec) (Fin (quad_lhs ?ec (at_flat input x) [r])) (cc_get (ec_rhs_values ?ec) r))"
    proof (rule quadratic_fold_states [OF _ loop])
      fix r m1 m2
      assume r: "r \<in> set [0..<si_num_rows input]"
        and step: "quadratic_row ?vi ?ec (repair_group_of input i) (IsEvalConstraintLhsIntegerValued input ?ec) r m1 = Inr m2"
      from step sat [of "[r]"] r show "model_rows m2 x \<longleftrightarrow> model_rows m1 x \<and> (row_active ?ec r \<longrightarrow>
          sat_cmp (ec_comparison_type ?ec) (Fin (quad_lhs ?ec (at_flat input x) [r])) (cc_get (ec_rhs_values ?ec) r))"
        by (auto simp: quadratic_row_def row_active_def bind_Inr model_rows_push_quadratic split: if_splits)
    qed
    with rows True show ?thesis by (auto simp: quad_as_built_def)
  qed
qed

lemma quadratic_constraints_states:
  assumes "indexable input" "global_start input \<le> 2 ^ 32" "integral_at input x"
    and "\<forall>ec \<in> set (si_constraints input). quad_clause_ok input ec"
    and run: "quadratic_constraints input (BuildIndexer input) m = Inr m'"
  shows "model_rows m' x \<longleftrightarrow> model_rows m x \<and>
    (\<forall>ec \<in> set (si_constraints input). is_quadratic ec \<longrightarrow> quad_as_built input ec (at_flat input x))"
proof -
  have "model_rows m' x \<longleftrightarrow> model_rows m x \<and> (\<forall>i \<in> set [0..<length (si_constraints input)].
      is_quadratic (si_constraints input ! i) \<longrightarrow> quad_as_built input (si_constraints input ! i) (at_flat input x))"
    by (rule quadratic_fold_states [OF quadratic_constraint_states [OF assms(1-3)] run [unfolded quadratic_constraints_def]])
       (use assms(4) in auto)
  then show ?thesis by (auto simp: all_set_conv_all_nth)
qed

section \<open>What the clause asks\<close>

text \<open>
  The clause itself reads a query-wide variable beside the reducer once, as the linear aggregates do;
  the rows that are built repeat it. The two agree on clauses without such a term.
\<close>

definition quad_part :: "SolverInput \<Rightarrow> EvaluatedConstraint \<Rightarrow> (idx \<Rightarrow> idx \<Rightarrow> real) \<Rightarrow> idx list \<Rightarrow> nat \<Rightarrow> real" where
  "quad_part input ec X rows t =
     (let col = ec_row_coefficients ec ! t
      in case ec_variable_indices ec ! t of
           None \<Rightarrow> (\<Sum>r\<leftarrow>rows. rval (cc_get col r))
         | Some v \<Rightarrow>
             if counted_once input ec t v
             then (if logical_size col > 0 then rval (cc_get col (hd rows)) else 1) * X v (hd rows)
             else (\<Sum>r\<leftarrow>rows. rval (cc_get col r) * X v r))"

definition quad_total :: "SolverInput \<Rightarrow> EvaluatedConstraint \<Rightarrow> (idx \<Rightarrow> idx \<Rightarrow> real) \<Rightarrow> idx list \<Rightarrow> real" where
  "quad_total input ec X rows =
     (\<Sum>t\<leftarrow>[0..<length (ec_variable_indices ec)]. quad_part input ec X rows t) +
     (\<Sum>bt\<leftarrow>ec_bilinear_terms ec. \<Sum>r\<leftarrow>rows. product_meaning X bt r) +
     (\<Sum>qg\<leftarrow>ec_quadratic_groups ec. \<Sum>r\<leftarrow>rows. rval (qg_sign qg) * (group_inner qg X r)\<^sup>2)"

definition sat_quad :: "SolverInput \<Rightarrow> EvaluatedConstraint \<Rightarrow> (idx \<Rightarrow> idx \<Rightarrow> real) \<Rightarrow> bool" where
  "sat_quad input ec X \<longleftrightarrow>
     (if ec_lhs_is_aggregate ec
      then (\<forall>rows \<in> set (agg_row_sets ec (si_num_rows input)).
              sat_cmp (ec_comparison_type ec) (Fin (quad_total input ec X rows))
                (if cc_empty (ec_rhs_values ec) then 0
                 else cc_get (ec_rhs_values ec) (if ec_row_group_ids ec = [] then 0 else hd rows)))
      else (\<forall>r < si_num_rows input. row_active ec r \<longrightarrow>
              sat_cmp (ec_comparison_type ec) (Fin (quad_lhs ec X [r])) (cc_get (ec_rhs_values ec) r)))"

text \<open>No aggregate quadratic clause has a query-wide variable beside its reducer.\<close>

definition none_beside :: "SolverInput \<Rightarrow> EvaluatedConstraint \<Rightarrow> bool" where
  "none_beside input ec \<longleftrightarrow>
     (\<forall>t < length (ec_variable_indices ec). \<forall>v. ec_variable_indices ec ! t = Some v \<longrightarrow> \<not> counted_once input ec t v)"

definition scalars_inside :: "SolverInput \<Rightarrow> bool" where
  "scalars_inside input \<longleftrightarrow>
     (\<forall>ec \<in> set (si_constraints input). is_quadratic ec \<and> ec_lhs_is_aggregate ec \<longrightarrow> none_beside input ec)"

text \<open>The difference between the two is what the built row counts too often.\<close>

lemma quad_excess:
  assumes "rows \<noteq> []" "coherent input X" "\<forall>t < length (ec_variable_indices ec). \<forall>v. ec_variable_indices ec ! t = Some v \<longrightarrow>
      v < si_num_decide_vars input \<and> logical_size (ec_row_coefficients ec ! t) > 0"
  shows "quad_lhs ec X rows = quad_total input ec X rows + (\<Sum>t\<leftarrow>[0..<length (ec_variable_indices ec)].
    case ec_variable_indices ec ! t of
      Some v \<Rightarrow> if counted_once input ec t v then (\<Sum>r\<leftarrow>tl rows. rval (cc_get (ec_row_coefficients ec ! t) r)) * X v (hd rows) else 0
    | None \<Rightarrow> 0)"
proof -
  let ?e = "\<lambda>t. case ec_variable_indices ec ! t of
      Some v \<Rightarrow> if counted_once input ec t v then (\<Sum>r\<leftarrow>tl rows. rval (cc_get (ec_row_coefficients ec ! t) r)) * X v (hd rows) else 0
    | None \<Rightarrow> 0"
  obtain r0 rest where rows: "rows = r0 # rest" using assms(1) by (cases rows) auto
  have each: "quad_linear_meaning ec X rows t = quad_part input ec X rows t + ?e t" if t: "t < length (ec_variable_indices ec)" for t
  proof (cases "ec_variable_indices ec ! t")
    case (Some v)
    note v = assms(3) [rule_format, OF t Some]
    show ?thesis
    proof (cases "counted_once input ec t v")
      case True
      then have same: "X v r = X v r0" for r using assms(2) v by (simp add: coherent_def counted_once_def)
      have "(\<Sum>r\<leftarrow>rest. rval (cc_get (ec_row_coefficients ec ! t) r) * X v r) =
          (\<Sum>r\<leftarrow>rest. rval (cc_get (ec_row_coefficients ec ! t) r)) * X v r0"
        by (subst same) (induction rest, simp_all add: distrib_right)
      then show ?thesis using Some True v by (simp add: quad_linear_meaning_def quad_part_def rows Let_def)
    qed (use Some in \<open>simp add: quad_linear_meaning_def quad_part_def Let_def\<close>)
  qed (simp add: quad_linear_meaning_def quad_part_def Let_def)
  have "(\<Sum>t\<leftarrow>ts. quad_linear_meaning ec X rows t) = (\<Sum>t\<leftarrow>ts. quad_part input ec X rows t) + (\<Sum>t\<leftarrow>ts. ?e t)"
    if "\<forall>t \<in> set ts. t < length (ec_variable_indices ec)" for ts
    using that by (induction ts) (simp_all add: each)
  from this [of "[0..<length (ec_variable_indices ec)]"] show ?thesis by (simp add: quad_lhs_def quad_total_def)
qed

lemma quad_total_lhs:
  assumes "none_beside input ec"
  shows "quad_total input ec X rows = quad_lhs ec X rows"
proof -
  have "quad_part input ec X rows t = quad_linear_meaning ec X rows t" if "t < length (ec_variable_indices ec)" for t
    using assms that by (cases "ec_variable_indices ec ! t") (auto simp: none_beside_def quad_part_def quad_linear_meaning_def Let_def)
  then have "map (quad_part input ec X rows) [0..<length (ec_variable_indices ec)] =
      map (quad_linear_meaning ec X rows) [0..<length (ec_variable_indices ec)]" by simp
  then show ?thesis by (simp only: quad_total_def quad_lhs_def)
qed

lemma sat_quad_as_built:
  assumes "scalars_inside input" "ec \<in> set (si_constraints input)" "is_quadratic ec"
  shows "sat_quad input ec X \<longleftrightarrow> quad_as_built input ec X"
  using assms quad_total_lhs [of input ec X] by (simp add: sat_quad_def quad_as_built_def scalars_inside_def)

text \<open>Its only effect on the model is on the quadratic rows.\<close>

lemma quadratic_constraints_pushes:
  assumes run: "quadratic_constraints input indexer m = Inr m'"
    and push: "\<And>qc stamp m. P m \<Longrightarrow> P (push_quadratic qc stamp m)" and start: "P m"
  shows "P m'"
  using run [unfolded quadratic_constraints_def] start
proof (rule fold_res_invariant)
  fix i m m'
  assume P: "P m" and step: "quadratic_constraint input indexer i m = Inr m'"
  let ?ec = "si_constraints input ! i"
  have group: "P m2" if "quadratic_group indexer ?ec repair integrality csr g m1 = Inr m2" "P m1" for repair integrality csr g m1 m2
    using that push by (auto simp: quadratic_group_def Let_def bind_Inr split: if_splits)
  have row: "P m2" if "quadratic_row indexer ?ec repair integrality r m1 = Inr m2" "P m1" for repair integrality r m1 m2
    using that push by (auto simp: quadratic_row_def Let_def bind_Inr split: if_splits)
  from step P push show "P m'"
    by (auto simp: quadratic_constraint_def quadratic_aggregate_def Let_def bind_Inr split: if_splits
        elim!: fold_res_invariant [where P = P] intro: group row)
qed

end
