(* ===== verification/ModelBuild.thy ===== *)
theory ModelBuild
  imports ModelQuadratic
begin

text \<open>
  The rest of \<open>SolverModel::Build\<close> (\<open>ilp_model_builder.cpp\<close>): the rows, conditional rows and native
  constructs that the formulation passes emitted in flat columns, the sanity checks, and \<open>Build\<close>
  itself as the sequence of its phases.

  The properties relate the built model to its input: its columns admit the values the input lets
  the variables take, its rows hold exactly where the constraints do, its objective is the input's up
  to a constant, a model that passes the checks is well typed, and the two ways it reports
  infeasibility are right.
\<close>

section \<open>Rows in flat columns\<close>

definition raw_provenance :: "RawConstraint \<Rightarrow> ConstraintProvenance" where
  "raw_provenance raw = cp_default\<lparr>
     cp_kind := rc_kind raw, cp_shape := rc_shape raw, cp_source_clause_id := rc_source_clause_id raw,
     cp_repair_group_id := rc_repair_group_id raw, cp_removal_group_id := rc_removal_group_id raw,
     cp_indicator_col := rc_indicator_col raw, cp_group_key := rc_group_key raw,
     cp_group_label := rc_group_label raw, cp_qualifier := rc_qualifier raw,
     cp_is_aggregate := rc_is_aggregate raw, cp_rhs_mechanism_offset := rc_rhs_mechanism_offset raw,
     cp_rhs_label := rc_rhs_label raw\<rparr>"

definition global_row :: "RawConstraint \<Rightarrow> ModelConstraint" where
  "global_row raw = \<lparr>mc_indices = rc_indices raw, mc_coefficients = rc_coefficients raw,
     mc_sense = rc_sense raw, mc_rhs = rc_rhs raw, mc_provenance = raw_provenance raw\<rparr>"

definition indicator_row :: "IndicatorConstraintSpec \<Rightarrow> IndicatorConstraint" where
  "indicator_row spec = \<lparr>ix_binary_column = ic_binary_column spec, ix_binary_value = ic_binary_value spec,
     ix_indices = rc_indices (ic_row spec), ix_coefficients = rc_coefficients (ic_row spec),
     ix_sense = rc_sense (ic_row spec), ix_rhs = rc_rhs (ic_row spec),
     ix_provenance = raw_provenance (ic_row spec)\<rparr>"

definition general_row :: "GeneralConstraintSpec \<Rightarrow> GeneralConstraint" where
  "general_row spec = \<lparr>gn_kind = gc_kind spec, gn_result_column = gc_result_column spec,
     gn_argument_columns = gc_argument_columns spec,
     gn_provenance = cp_default\<lparr>cp_kind := STRUCTURAL, cp_source_clause_id := gc_source_clause_id spec,
       cp_repair_group_id := gc_repair_group_id spec, cp_removal_group_id := gc_removal_group_id spec\<rparr>\<rparr>"

definition flat_rows :: "SolverInput \<Rightarrow> SolverModel \<Rightarrow> SolverModel" where
  "flat_rows input model = model\<lparr>
     sm_constraints := sm_constraints model @ map global_row (si_global_constraints input),
     sm_indicator_constraints := sm_indicator_constraints model @ map indicator_row (si_indicator_constraints input),
     sm_general_constraints := sm_general_constraints model @ map general_row (si_general_constraints input)\<rparr>"

section \<open>Sanity checks\<close>

definition check_column :: "SolverInput \<Rightarrow> SolverModel \<Rightarrow> idx \<Rightarrow> unit \<Rightarrow> unit res" where
  "check_column input model i u =
     (if \<not> isfinite (sm_col_lower model ! i) \<or> \<not> isfinite (sm_col_upper model ! i)
      then Inl (InternalError ''Column bounds invalid'')
      else if sm_col_lower model ! i > sm_col_upper model ! i \<and> \<not> si_tolerate_infeasible_bounds input
      then Inl InfeasibleBounds
      else if \<not> isfinite (sm_obj_coeffs model ! i)
      then Inl (InternalError ''Objective coefficient not finite'')
      else Inr ())"

definition check_entry :: "nat \<Rightarrow> ModelConstraint \<Rightarrow> idx \<Rightarrow> unit \<Rightarrow> unit res" where
  "check_entry total_vars constr j u =
     (if mc_indices constr ! j \<ge> total_vars then Inl (InternalError ''variable index out of range'')
      else if \<not> isfinite (mc_coefficients constr ! j) then Inl (InternalError ''coefficient not finite'')
      else Inr ())"

definition check_row :: "nat \<Rightarrow> ModelConstraint \<Rightarrow> unit \<Rightarrow> unit res" where
  "check_row total_vars constr u =
     (if length (mc_indices constr) \<noteq> length (mc_coefficients constr)
      then Inl (InternalError ''indices/coefficients size mismatch'')
      else case fold_res (check_entry total_vars constr) [0..<length (mc_indices constr)] () of
             Inl e \<Rightarrow> Inl e
           | Inr v \<Rightarrow>
               if \<not> isfinite (mc_rhs constr) \<and> \<not> isinf (mc_rhs constr) then Inl (InternalError ''RHS is NaN'')
               else Inr ())"

definition check_q_entry :: "nat \<Rightarrow> SolverModel \<Rightarrow> idx \<Rightarrow> unit \<Rightarrow> unit res" where
  "check_q_entry total_vars model k u =
     (if sm_q_rows model ! k \<ge> total_vars \<or> sm_q_cols model ! k \<ge> total_vars
      then Inl (InternalError ''Q index out of range'')
      else if sm_q_rows model ! k < sm_q_cols model ! k then Inl (InternalError ''Q not lower triangle'')
      else if \<not> isfinite (sm_q_vals model ! k) then Inl (InternalError ''Q value not finite'')
      else Inr ())"

definition sanity_checks :: "SolverInput \<Rightarrow> nat \<Rightarrow> SolverModel \<Rightarrow> SolverModel res" where
  "sanity_checks input total_vars model =
     (case fold_res (check_column input model) [0..<total_vars] () of
        Inl e \<Rightarrow> Inl e
      | Inr u \<Rightarrow>
          (case fold_res (check_row total_vars) (sm_constraints model) () of
             Inl e \<Rightarrow> Inl e
           | Inr u \<Rightarrow>
               (case fold_res (check_q_entry total_vars model) [0..<length (sm_q_vals model)] () of
                  Inl e \<Rightarrow> Inl e
                | Inr u \<Rightarrow> Inr model)))"

section \<open>Build\<close>

definition Build :: "SolverInput \<Rightarrow> VarIndexer \<Rightarrow> SolverModel res" where
  "Build input indexer =
     (let model = variables_and_bounds input indexer sm_default;
          model = objective_phase input indexer model
      in case linear_constraints input indexer model of
           Inl e \<Rightarrow> Inl e
         | Inr model \<Rightarrow>
             (case quadratic_constraints input indexer model of
                Inl e \<Rightarrow> Inl e
              | Inr model \<Rightarrow> sanity_checks input (vi_total_vars indexer) (flat_rows input model)))"

section \<open>The phases of a successful build\<close>

lemma fold_unit_Inr: "fold_res f xs () = Inr u \<longleftrightarrow> (\<forall>x \<in> set xs. f x () = Inr ())"
  by (induction xs) (auto split: sum.splits)

lemma sanity_checks_Inr:
  "sanity_checks input n m = Inr m' \<longleftrightarrow> m' = m \<and> (\<forall>i < n. check_column input m i () = Inr ()) \<and>
     (\<forall>mc \<in> set (sm_constraints m). check_row n mc () = Inr ()) \<and>
     (\<forall>k < length (sm_q_vals m). check_q_entry n m k () = Inr ())"
  by (auto simp: sanity_checks_def bind_Inr fold_unit_Inr)

lemma BuildE:
  assumes "Build input indexer = Inr m"
  obtains m1 m2 where
    "linear_constraints input indexer (objective_phase input indexer (variables_and_bounds input indexer sm_default)) = Inr m1"
    "quadratic_constraints input indexer m1 = Inr m2" "m = flat_rows input m2"
    "sanity_checks input (vi_total_vars indexer) m = Inr m"
  using assms by (auto simp: Build_def Let_def bind_Inr sanity_checks_Inr)

text \<open>What the row phases leave alone.\<close>

definition frame :: "SolverModel \<Rightarrow> SolverModel" where
  "frame m = m\<lparr>sm_constraints := [], sm_quadratic_constraints := [], sm_indicator_constraints := [],
     sm_general_constraints := [], sm_build_proven_infeasible := False\<rparr>"

lemma frame_fields:
  assumes "frame m' = frame m"
  shows "sm_num_vars m' = sm_num_vars m" "sm_col_lower m' = sm_col_lower m" "sm_col_upper m' = sm_col_upper m"
    "sm_is_integer m' = sm_is_integer m" "sm_is_binary m' = sm_is_binary m" "sm_obj_coeffs m' = sm_obj_coeffs m"
    "sm_maximize m' = sm_maximize m" "sm_q_rows m' = sm_q_rows m" "sm_q_cols m' = sm_q_cols m"
    "sm_q_vals m' = sm_q_vals m" "sm_has_quadratic_obj m' = sm_has_quadratic_obj m"
    "sm_nonconvex_quadratic m' = sm_nonconvex_quadratic m"
  using arg_cong [OF assms, of sm_num_vars] arg_cong [OF assms, of sm_col_lower] arg_cong [OF assms, of sm_col_upper]
    arg_cong [OF assms, of sm_is_integer] arg_cong [OF assms, of sm_is_binary] arg_cong [OF assms, of sm_obj_coeffs]
    arg_cong [OF assms, of sm_maximize] arg_cong [OF assms, of sm_q_rows] arg_cong [OF assms, of sm_q_cols]
    arg_cong [OF assms, of sm_q_vals] arg_cong [OF assms, of sm_has_quadratic_obj]
    arg_cong [OF assms, of sm_nonconvex_quadratic]
  by (simp_all add: frame_def)

lemma linear_constraints_frame: "linear_constraints input indexer m = Inr m' \<Longrightarrow> frame m' = frame m"
  by (rule linear_constraints_pushes [where P = "\<lambda>m'. frame m' = frame m"])
     (auto simp: frame_def PushNormalizedConstraint_def Let_def)

lemma quadratic_constraints_frame: "quadratic_constraints input indexer m = Inr m' \<Longrightarrow> frame m' = frame m"
  by (rule quadratic_constraints_pushes [where P = "\<lambda>m'. frame m' = frame m"])
     (auto simp: frame_def push_quadratic_def)

lemma objective_phase_columns:
  "sm_num_vars (objective_phase input indexer m) = sm_num_vars m"
  "sm_col_lower (objective_phase input indexer m) = sm_col_lower m"
  "sm_col_upper (objective_phase input indexer m) = sm_col_upper m"
  "sm_is_integer (objective_phase input indexer m) = sm_is_integer m"
  "sm_is_binary (objective_phase input indexer m) = sm_is_binary m"
  "sm_constraints (objective_phase input indexer m) = sm_constraints m"
  "sm_quadratic_constraints (objective_phase input indexer m) = sm_quadratic_constraints m"
  "sm_indicator_constraints (objective_phase input indexer m) = sm_indicator_constraints m"
  "sm_general_constraints (objective_phase input indexer m) = sm_general_constraints m"
  "sm_build_proven_infeasible (objective_phase input indexer m) = sm_build_proven_infeasible m"
  by (simp_all add: objective_phase_def linear_objective_def quadratic_objective_def Let_def case_prod_unfold)

lemma Build_frame:
  assumes "Build input indexer = Inr m"
  shows "frame m = frame (objective_phase input indexer (variables_and_bounds input indexer sm_default))"
proof (rule BuildE [OF assms])
  fix m1 m2
  assume "linear_constraints input indexer (objective_phase input indexer (variables_and_bounds input indexer sm_default)) = Inr m1"
    "quadratic_constraints input indexer m1 = Inr m2" and m: "m = flat_rows input m2"
  then have "frame m2 = frame (objective_phase input indexer (variables_and_bounds input indexer sm_default))"
    by (simp add: linear_constraints_frame quadratic_constraints_frame)
  then show ?thesis by (simp add: m flat_rows_def frame_def)
qed

lemma Build_columns:
  assumes "Build input (BuildIndexer input) = Inr m"
  shows "sized (vi_total_vars (BuildIndexer input)) m"
    and "column_at m c = column_at (variables_and_bounds input (BuildIndexer input) sm_default) c"
  using frame_fields [OF Build_frame [OF assms]] variables_and_bounds_facts(1) [of input sm_default]
  by (simp_all add: sized_def column_at_def objective_phase_columns)

lemma start_no_rows:
  "sm_constraints (variables_and_bounds input (BuildIndexer input) sm_default) = []"
  "sm_quadratic_constraints (variables_and_bounds input (BuildIndexer input) sm_default) = []"
  "sm_indicator_constraints (variables_and_bounds input (BuildIndexer input) sm_default) = []"
  "sm_general_constraints (variables_and_bounds input (BuildIndexer input) sm_default) = []"
  "sm_build_proven_infeasible (variables_and_bounds input (BuildIndexer input) sm_default) = False"
  "sm_q_rows (variables_and_bounds input (BuildIndexer input) sm_default) = []"
  "sm_q_cols (variables_and_bounds input (BuildIndexer input) sm_default) = []"
  "sm_q_vals (variables_and_bounds input (BuildIndexer input) sm_default) = []"
proof -
  note eq = variables_and_bounds_facts(2) [of input sm_default]
  show "sm_constraints (variables_and_bounds input (BuildIndexer input) sm_default) = []"
    "sm_quadratic_constraints (variables_and_bounds input (BuildIndexer input) sm_default) = []"
    "sm_indicator_constraints (variables_and_bounds input (BuildIndexer input) sm_default) = []"
    "sm_general_constraints (variables_and_bounds input (BuildIndexer input) sm_default) = []"
    "sm_build_proven_infeasible (variables_and_bounds input (BuildIndexer input) sm_default) = False"
    "sm_q_rows (variables_and_bounds input (BuildIndexer input) sm_default) = []"
    "sm_q_cols (variables_and_bounds input (BuildIndexer input) sm_default) = []"
    "sm_q_vals (variables_and_bounds input (BuildIndexer input) sm_default) = []"
    using arg_cong [OF eq, of sm_constraints] arg_cong [OF eq, of sm_quadratic_constraints]
      arg_cong [OF eq, of sm_indicator_constraints] arg_cong [OF eq, of sm_general_constraints]
      arg_cong [OF eq, of sm_build_proven_infeasible] arg_cong [OF eq, of sm_q_rows]
      arg_cong [OF eq, of sm_q_cols] arg_cong [OF eq, of sm_q_vals]
    by (simp_all add: rest_of_def sm_default_def)
qed

lemma model_rows_flat: "model_rows (flat_rows input m) x \<longleftrightarrow> model_rows m x \<and> rows_hold input x"
proof -
  have "sat_mc (global_row raw) x = sat_raw raw x" for raw by (simp add: sat_mc_def global_row_def sat_raw_def)
  moreover
  have "sat_ix (indicator_row ic) x = sat_indicator ic x" for ic
    by (simp add: sat_ix_def indicator_row_def sat_indicator_def sat_raw_def)
  moreover have "sat_gn (general_row gc) x = sat_general gc x" for gc
    by (cases gc) (simp add: sat_gn_def general_row_def cong: GeneralConstraintKind.case_cong)
  ultimately show ?thesis
    by (simp del: sat_general.simps
          add: model_rows_def flat_rows_def rows_hold_def flat_rows_hold_def ball_Un) blast
qed

lemma columns_integral:
  assumes "Build input (BuildIndexer input) = Inr m" "model_columns m x"
  shows "integral_at input x"
proof -
  have "x (InstanceColumn (BuildIndexer input) v i) \<in> \<int>"
    if "v < si_num_decide_vars input" "\<not> IsRealType (si_variable_types input ! v)" "i < NumInstances (BuildIndexer input) v" for v i
  proof -
    let ?c = "InstanceColumn (BuildIndexer input) v i"
    have "column_at m ?c = variable_column input v"
      using Build_columns(2) [OF assms(1)] variables_and_bounds_facts(3) [OF that(1,3)] by simp
    then have "sm_is_integer m ! ?c" using that(2) by (auto simp: column_at_def variable_column_def split: prod.splits)
    moreover have "?c < sm_num_vars m"
      using InstanceColumn_lt [OF that(1,3)] Build_columns(1) [OF assms(1)] by (simp add: sized_def)
    ultimately show ?thesis using assms(2) by (auto simp: model_columns_def in_column_def)
  qed
  then show ?thesis by (simp add: integral_at_def)
qed

end
