(* ===== verification/ModelTotal.thy ===== *)
theory ModelTotal
  imports ModelBuild
begin

text \<open>
  \<open>SolverModel::Build\<close> (\<open>ilp_model_builder.cpp\<close>) answers: the error exits of each of its loops, what
  input keeps clear of them, and the typing of the rows it pushes, which is what its sanity checks
  look at.
\<close>

section \<open>Typed rows\<close>

definition typed_row :: "nat \<Rightarrow> ModelConstraint \<Rightarrow> bool" where
  "typed_row n mc \<longleftrightarrow> length (mc_indices mc) = length (mc_coefficients mc) \<and> (\<forall>i \<in> set (mc_indices mc). i < n) \<and>
     list_all isfinite (mc_coefficients mc) \<and> \<not> isnan (mc_rhs mc)"

lemma check_row_typed: "check_row n mc () = Inr () \<longleftrightarrow> typed_row n mc"
proof -
  have nan: "isfinite d \<or> isinf d \<longleftrightarrow> \<not> isnan d" for d by (cases d) simp_all
  have entry: "check_entry n mc j () = Inr () \<longleftrightarrow> mc_indices mc ! j < n \<and> isfinite (mc_coefficients mc ! j)" for j
    by (auto simp: check_entry_def)
  show ?thesis
    using nan [of "mc_rhs mc"]
    by (auto simp: check_row_def bind_Inr fold_unit_Inr entry typed_row_def list_all_length all_set_conv_all_nth
        split: if_splits)
qed

definition typed_rows :: "nat \<Rightarrow> SolverModel \<Rightarrow> bool" where
  "typed_rows n m \<longleftrightarrow> (\<forall>mc \<in> set (sm_constraints m). typed_row n mc)"

lemma push_typed: "typed_row n c \<Longrightarrow> typed_rows n m \<Longrightarrow> typed_rows n (PushNormalizedConstraint (c\<lparr>mc_provenance := p\<rparr>) m)"
  by (auto simp: typed_rows_def typed_row_def PushNormalizedConstraint_def Let_def)

text \<open>A comparison the model can state: a supported operator, a strict one only over integers.\<close>

definition comparable :: "SolverInput \<Rightarrow> EvaluatedConstraint \<Rightarrow> bool" where
  "comparable input ec \<longleftrightarrow> ec_comparison_type ec \<noteq> COMPARE_NOTEQUAL \<and> ec_comparison_type ec \<noteq> COMPARE_OTHER \<and>
     (strict_cmp (ec_comparison_type ec) \<longrightarrow> IsEvalConstraintLhsIntegerValued input ec = LHS_INTEGER)"

lemma ApplyComparisonSense_returns:
  assumes "comparable input ec" "length is = length cs" "\<forall>i \<in> set is. i < n" "list_all isfinite cs" "\<not> isnan K" "isfinite off"
  shows "\<exists>c. ApplyComparisonSense (mc_default\<lparr>mc_indices := is, mc_coefficients := cs\<rparr>) (ec_comparison_type ec)
    (K - off) (IsEvalConstraintLhsIntegerValued input ec) = Inr c \<and> typed_row n c"
proof -
  let ?run = "ApplyComparisonSense (mc_default\<lparr>mc_indices := is, mc_coefficients := cs\<rparr>) (ec_comparison_type ec)
    (K - off) (IsEvalConstraintLhsIntegerValued input ec)"
  obtain c where c: "?run = Inr c"
    using assms(1)
    by (cases "ec_comparison_type ec") (auto simp: ApplyComparisonSense_def comparable_def strict_cmp_def Let_def)
  note facts = ApplyComparisonSense_cases [OF c]
  have "\<not> isnan (mc_rhs c)"
    using assms(5,6) unfolding facts(7) by (cases K; cases off) (auto simp: minus_dbl_def one_dbl_def)
  with assms(2-4) facts(1,2) c show ?thesis by (auto simp: typed_row_def)
qed

text \<open>What the loop needs of a constraint, beside its shape.\<close>

definition answerable :: "SolverInput \<Rightarrow> EvaluatedConstraint \<Rightarrow> bool" where
  "answerable input ec \<longleftrightarrow> row_ok input ec \<and> comparable input ec \<and>
     (\<forall>r < max 1 (si_num_rows input). \<not> isnan (cc_get (ec_rhs_values ec) r)) \<and>
     (ec_lhs_is_aggregate ec \<longrightarrow> fixed_owned ec)"

lemma SumFixed_finite:
  assumes "answerable input ec" "ec_lhs_is_aggregate ec" "\<forall>r \<in> set rows. r < si_num_rows input"
  shows "\<exists>off. SumFixedAggregateLhsOffset ec rows context = Inr off \<and> isfinite off"
proof -
  obtain off where off: "SumFixedAggregateLhsOffset ec rows context = Inr off"
    using SumFixed_total assms(1,2) unfolding answerable_def by blast
  have "isfinite (fixed_total ec rows)" using assms by (intro fixed_total_finite) (auto simp: answerable_def)
  with off SumFixed_eq [OF off] show ?thesis by (simp add: fixed_total_def)
qed

section \<open>The linear loop\<close>

lemma fast_row_typed:
  assumes "indexable input" "row_ok input ec" "\<forall>r \<in> set rows. r < si_num_rows input"
  shows "\<forall>(i, c) \<in> set (fast_row (BuildIndexer input) ec rows). i < vi_total_vars (BuildIndexer input) \<and> isfinite c"
proof -
  have "i < vi_total_vars (BuildIndexer input) \<and> isfinite c"
    if "t < length (ec_variable_indices ec)" "ec_variable_indices ec ! t = Some v" "r \<in> set rows"
      "i = Get (BuildIndexer input) v r" "c = cc_get (ec_row_coefficients ec ! t) r" for t v r i c
    using row_okD [OF assms(2) that(1)] that assms(3) num.at_row_lt [OF assms(1), of v r] by auto
  then show ?thesis
    unfolding fast_row_def Let_def by (auto split: option.splits if_splits) metis
qed

lemma hm_typed:
  assumes "\<forall>(i, c) \<in> set xs. i < n \<and> isfinite c"
  defines "out \<equiv> hm_nonzero (fold (\<lambda>(i, c). hm_add i c) xs [])"
  shows "\<forall>i \<in> set (map fst out). i < n" "list_all isfinite (map snd out)"
proof -
  have "\<forall>(i, c) \<in> set xs. isfinite c" using assms(1) by auto
  from hm_row(4,5) [OF this] assms(1) show "\<forall>i \<in> set (map fst out). i < n" "list_all isfinite (map snd out)"
    unfolding out_def by fastforce+
qed

lemma pairs_typed:
  assumes "\<forall>(i, c) \<in> set xs. i < n \<and> isfinite c"
  shows "\<forall>i \<in> set (map fst xs). i < n" "list_all isfinite (map snd xs)"
  using assms by (auto simp: list_all_iff)

lemma aggregate_row_total:
  assumes "indexable input" "answerable input ec" "ec_lhs_is_aggregate ec"
    and "typed_rows (vi_total_vars (BuildIndexer input)) m"
  shows "\<exists>m'. aggregate_row input (BuildIndexer input) ec repair (IsEvalConstraintLhsIntegerValued input ec) m = Inr m' \<and>
    typed_rows (vi_total_vars (BuildIndexer input)) m'"
proof -
  let ?vi = "BuildIndexer input" and ?rows = "[0..<si_num_rows input]"
  define terms where "terms = (if CanUseRowScopedFastPath ?vi ec then fast_row ?vi ec ?rows
    else hm_nonzero (fold (accumulate_term ?vi ec (si_num_rows input)) [0..<length (ec_variable_indices ec)] []))"
  have ok: "row_ok input ec" and rhs: "\<not> isnan (cc_get (ec_rhs_values ec) 0)" and cmp: "comparable input ec"
    using assms(2) by (auto simp: answerable_def)
  have fast: "\<forall>(i, c) \<in> set (fast_row ?vi ec ?rows). i < vi_total_vars ?vi \<and> isfinite c"
    by (rule fast_row_typed [OF assms(1) ok]) simp
  have adds: "\<forall>(i, c) \<in> set (row_adds input ec ?rows). i < vi_total_vars ?vi \<and> isfinite c"
    using row_adds_ok [OF assms(1) ok, of ?rows] by fastforce
  have typed: "\<forall>i \<in> set (map fst terms). i < vi_total_vars ?vi" "list_all isfinite (map snd terms)"
    unfolding terms_def accumulate_adds [OF ok] using pairs_typed [OF fast] hm_typed [OF adds] by presburger+
  obtain off where off: "SumFixedAggregateLhsOffset ec ?rows ''fixed aggregate LHS term'' = Inr off" "isfinite off"
    using SumFixed_finite [OF assms(2,3), of ?rows] by auto
  obtain c where c: "ApplyComparisonSense (mc_default\<lparr>mc_indices := map fst terms, mc_coefficients := map snd terms\<rparr>)
      (ec_comparison_type ec) (cc_get (ec_rhs_values ec) 0 - off) (IsEvalConstraintLhsIntegerValued input ec) = Inr c"
    "typed_row (vi_total_vars ?vi) c"
    using ApplyComparisonSense_returns [OF cmp _ typed rhs off(2)] by auto
  show ?thesis
    unfolding aggregate_row_def Let_def terms_def [symmetric] off(1) sum.case c(1)
    by (simp add: push_typed [OF c(2) assms(4)] del: BuildIndexer_fields)
qed

lemma group_row_total:
  assumes "indexable input" "answerable input ec" "ec_lhs_is_aggregate ec"
    and rows: "\<forall>r \<in> set (csr_bucket csr g). r < si_num_rows input"
    and ready: "scratch_ready (BuildIndexer input) ec acc" and "typed_rows (vi_total_vars (BuildIndexer input)) m"
  shows "\<exists>m' acc'. aggregate_group_row (BuildIndexer input) ec repair (IsEvalConstraintLhsIntegerValued input ec) csr g
      (m, acc) = Inr (m', acc') \<and> typed_rows (vi_total_vars (BuildIndexer input)) m' \<and> scratch_ready (BuildIndexer input) ec acc'"
proof (cases "csr_bucket csr g = []")
  case True
  with ready assms(6) show ?thesis by (simp add: aggregate_group_row_def)
next
  case nonempty: False
  let ?vi = "BuildIndexer input"
  define rows where "rows = csr_bucket csr g"
  define fast where "fast = CanUseRowScopedFastPath ?vi ec"
  obtain acc1 is1 cs1 where flush: "Flush (fold (accumulate_group_term ?vi ec rows)
      [0..<length (ec_variable_indices ec)] acc) [] [] = (acc1, is1, cs1)" by (metis prod_cases3)
  define terms where "terms = (if fast then (map fst (fast_row ?vi ec rows), map snd (fast_row ?vi ec rows), acc)
    else (is1, cs1, acc1))"
  have ok: "row_ok input ec" and cmp: "comparable input ec" using assms(2) by (auto simp: answerable_def)
  have lt: "\<forall>r \<in> set rows. r < si_num_rows input" using rows by (simp add: rows_def)
  then have "rows ! 0 < si_num_rows input" using nonempty by (simp add: rows_def)
  then have rhs: "\<not> isnan (cc_get (ec_rhs_values ec) (rows ! 0))" using assms(2) by (simp add: answerable_def)
  have adds: "\<forall>(i, c) \<in> set (row_adds input ec rows). i < global_start input \<and> isfinite c"
    by (rule row_adds_ok [OF assms(1) ok lt]) (use nonempty in \<open>simp add: rows_def\<close>)
  have gathered: "length is1 = length cs1 \<and> (\<forall>i \<in> set is1. i < global_start input) \<and> list_all isfinite cs1 \<and>
      scratch_ready ?vi ec acc1" if "\<not> fast"
  proof -
    have r: "acc_inv acc" "\<And>j. acc_contents acc j = 0" "\<And>j. j < global_start input \<Longrightarrow> acc_valid acc j"
      using ready that by (simp_all add: scratch_ready_def fast_def)
    have valid: "\<forall>(i, c) \<in> set (row_adds input ec rows). acc_valid acc i \<and> isfinite c" using adds r(3) by auto
    have "rows \<noteq> []" using nonempty by (simp add: rows_def)
    note flush' = flush [unfolded accumulate_group_adds [OF ok this]]
    have zero: "acc_contents acc1 j = 0" for j using flush_row [OF r(1,2) valid flush', of _ j] by blast
    have "set is1 \<subseteq> fst ` set (row_adds input ec rows)" using flush_row [OF r(1,2) valid flush'] by blast
    then have "\<forall>i \<in> set is1. i < global_start input" using adds by fastforce
    with zero flush_row [OF r(1,2) valid flush'] r(3) show ?thesis by (simp add: scratch_ready_def)
  qed
  have fast_typed: "\<forall>(i, c) \<in> set (fast_row ?vi ec rows). i < vi_total_vars ?vi \<and> isfinite c"
    by (rule fast_row_typed [OF assms(1) ok lt])
  have typed: "length (fst terms) = length (fst (snd terms))" "\<forall>i \<in> set (fst terms). i < vi_total_vars ?vi"
    "list_all isfinite (fst (snd terms))" "scratch_ready ?vi ec (snd (snd terms))"
    using gathered pairs_typed [OF fast_typed] ready by (cases fast; force simp: terms_def)+
  obtain off where off: "SumFixedAggregateLhsOffset ec rows ''fixed aggregate LHS term'' = Inr off" "isfinite off"
    using SumFixed_finite [OF assms(2,3) lt] by auto
  obtain c where c: "ApplyComparisonSense (mc_default\<lparr>mc_indices := fst terms, mc_coefficients := fst (snd terms)\<rparr>)
      (ec_comparison_type ec) (cc_get (ec_rhs_values ec) (rows ! 0) - off) (IsEvalConstraintLhsIntegerValued input ec) = Inr c"
    "typed_row (vi_total_vars ?vi) c"
    using ApplyComparisonSense_returns [OF cmp typed(1-3) rhs off(2)] by auto
  have "rows \<noteq> []" using nonempty by (simp add: rows_def)
  then show ?thesis
    using c off(1) push_typed [OF c(2) assms(6)] typed(4)
    unfolding aggregate_group_row_def Let_def prod.case rows_def [symmetric] flush fast_def [symmetric]
    by (cases fast) (simp_all add: terms_def del: BuildIndexer_fields)
qed

lemma aggregate_groups_total:
  assumes "indexable input" "answerable input ec" "ec_lhs_is_aggregate ec" "ec_row_group_ids ec \<noteq> []"
    and "typed_rows (vi_total_vars (BuildIndexer input)) m"
  shows "\<exists>m'. aggregate_groups (BuildIndexer input) ec repair (IsEvalConstraintLhsIntegerValued input ec) m = Inr m' \<and>
    typed_rows (vi_total_vars (BuildIndexer input)) m'"
proof -
  let ?vi = "BuildIndexer input"
  define acc where "acc = (if CanUseRowScopedFastPath ?vi ec then acc_default
    else if vi_global_block_start ?vi \<le> 2 ^ 20 then BeginDense (vi_global_block_start ?vi) acc_default
    else BeginSparse acc_default)"
  let ?csr = "BuildGroupCSR (ec_row_group_ids ec) (ec_num_groups ec) ([], [])"
  define P where "P s \<longleftrightarrow> typed_rows (vi_total_vars ?vi) (fst s) \<and> scratch_ready ?vi ec (snd s)" for s
  have ready: "scratch_ready ?vi ec acc"
    using BeginDense_ready [OF acc_default_ready] BeginSparse_ready [OF acc_default_ready]
    by (auto simp: scratch_ready_def acc_def)
  have shape: "groups_ok (ec_row_group_ids ec) (ec_num_groups ec)" "length (ec_row_group_ids ec) = si_num_rows input"
    using assms(2,4) by (auto simp: answerable_def row_ok_def ec_shape_def)
  have "\<exists>s'. fold_res (aggregate_group_row ?vi ec repair (IsEvalConstraintLhsIntegerValued input ec) ?csr)
      [0..<ec_num_groups ec] (m, acc) = Inr s' \<and> P s'"
  proof (rule fold_res_total)
    fix g s
    assume g: "g \<in> set [0..<ec_num_groups ec]" and P: "P s"
    have bucket: "\<forall>r \<in> set (csr_bucket ?csr g). r < si_num_rows input"
      using csr_bucket_eq [OF shape(1) assms(4), of g] g shape(2) by (auto simp: group_rows_mem)
    show "\<exists>s'. aggregate_group_row ?vi ec repair (IsEvalConstraintLhsIntegerValued input ec) ?csr g s = Inr s' \<and> P s'"
      using group_row_total [OF assms(1-3) bucket, of "snd s" "fst s" repair] P by (auto simp: P_def)
  qed (use ready assms(5) in \<open>simp add: P_def\<close>)
  then show ?thesis
    unfolding aggregate_groups_def Let_def acc_def [symmetric] by (auto simp: P_def simp del: BuildIndexer_fields)
qed

lemma per_row_total:
  assumes "indexable input" "answerable input ec" "r < si_num_rows input"
    and "typed_rows (vi_total_vars (BuildIndexer input)) m"
  shows "\<exists>m'. per_row_row (BuildIndexer input) ec repair (IsEvalConstraintLhsIntegerValued input ec) r m = Inr m' \<and>
    typed_rows (vi_total_vars (BuildIndexer input)) m'"
proof (cases "row_active ec r")
  case False
  then show ?thesis using assms(4) by (auto simp: per_row_row_def row_active_def)
next
  case True
  let ?vi = "BuildIndexer input"
  define adds where "adds = concat (map (per_row_adds ?vi ec r) [0..<length (ec_variable_indices ec)])"
  define terms where "terms = hm_nonzero (fold (\<lambda>(i, c). hm_add i c) adds [])"
  have ok: "row_ok input ec" and cmp: "comparable input ec" and rhs: "\<not> isnan (cc_get (ec_rhs_values ec) r)"
    using assms(2,3) by (auto simp: answerable_def)
  have gathered: "fold (per_row_term ?vi ec r) [0..<length (ec_variable_indices ec)] ([], 0) =
      (fold (\<lambda>(i, c). hm_add i c) adds [], fixed_total ec [r])"
    by (simp add: per_row_fold adds_def fixed_total_def cong: if_cong)
  have "Get ?vi v r < vi_total_vars ?vi" if "t < length (ec_variable_indices ec)" "ec_variable_indices ec ! t = Some v" for t v
    using num.at_row_lt [OF assms(1) row_okD(1) [OF ok that] assms(3)] by simp
  then have "\<forall>(i, c) \<in> set adds. i < vi_total_vars ?vi"
    by (auto simp: adds_def per_row_adds_def Let_def split: option.splits if_splits)
  then have "\<forall>(i, c) \<in> set adds. i < vi_total_vars ?vi \<and> isfinite c"
    using per_row_adds_ok(1) [OF ok assms(3), folded adds_def] by auto
  note typed = hm_typed [OF this, folded terms_def]
  have off: "isfinite (fixed_total ec [r])" by (rule fixed_total_finite [OF ok]) (use assms(3) in simp)
  obtain c where c: "ApplyComparisonSense (mc_default\<lparr>mc_indices := map fst terms, mc_coefficients := map snd terms\<rparr>)
      (ec_comparison_type ec) (cc_get (ec_rhs_values ec) r - fixed_total ec [r]) (IsEvalConstraintLhsIntegerValued input ec) = Inr c"
    "typed_row (vi_total_vars ?vi) c"
    using ApplyComparisonSense_returns [OF cmp _ typed rhs off] by auto
  show ?thesis
    using True c(1) push_typed [OF c(2) assms(4)]
    unfolding per_row_row_def gathered Let_def prod.case terms_def [symmetric]
    by (auto simp: row_active_def simp del: BuildIndexer_fields)
qed

lemma linear_constraints_total:
  assumes "indexable input" "\<forall>ec \<in> set (si_constraints input). is_quadratic ec \<or> answerable input ec"
    and "typed_rows (vi_total_vars (BuildIndexer input)) m"
  shows "\<exists>m'. linear_constraints input (BuildIndexer input) m = Inr m' \<and>
    typed_rows (vi_total_vars (BuildIndexer input)) m'"
  unfolding linear_constraints_def
proof (rule fold_res_total [where P = "typed_rows (vi_total_vars (BuildIndexer input))", OF _ assms(3)])
  fix i m
  assume i: "i \<in> set [0..<length (si_constraints input)]" and m: "typed_rows (vi_total_vars (BuildIndexer input)) m"
  let ?ec = "si_constraints input ! i"
  have ans: "is_quadratic ?ec \<or> answerable input ?ec" using assms(2) i by auto
  have rows: "\<exists>m'. fold_res (per_row_row (BuildIndexer input) ?ec repair (IsEvalConstraintLhsIntegerValued input ?ec))
      [0..<si_num_rows input] m = Inr m' \<and> typed_rows (vi_total_vars (BuildIndexer input)) m'"
    if "answerable input ?ec" for repair
    using per_row_total [OF assms(1) that] by (intro fold_res_total [where P = "typed_rows (vi_total_vars (BuildIndexer input))", OF _ m]) auto
  show "\<exists>m'. linear_constraint input (BuildIndexer input) i m = Inr m' \<and> typed_rows (vi_total_vars (BuildIndexer input)) m'"
    using ans m rows aggregate_row_total [OF assms(1) _ _ m] aggregate_groups_total [OF assms(1) _ _ _ m]
    unfolding linear_constraint_def Let_def
    by (cases "is_quadratic ?ec"; cases "ec_lhs_is_aggregate ?ec"; cases "ec_row_group_ids ?ec = []")
       (simp_all del: BuildIndexer_fields)
qed

section \<open>The quadratic loop\<close>

lemma bind_returns: "(\<exists>w. (case r of Inl e \<Rightarrow> Inl e | Inr v \<Rightarrow> Inr (f v)) = Inr w) \<longleftrightarrow> (\<exists>v. r = Inr v)"
  by (auto simp: bind_Inr)

lemma BuildQuadraticConstraint_returns:
  assumes "comparable input ec"
  shows "\<exists>qc. BuildQuadraticConstraint indexer ec rows rhs (IsEvalConstraintLhsIntegerValued input ec) = Inr qc"
proof -
  have "\<exists>qc'. quadratic_comparison qc (ec_comparison_type ec) d (IsEvalConstraintLhsIntegerValued input ec) = Inr qc'" for qc d
    using assms
    by (cases "ec_comparison_type ec") (auto simp: quadratic_comparison_def comparable_def strict_cmp_def Let_def)
  then show ?thesis by (auto simp: BuildQuadraticConstraint_def Let_def split: prod.splits)
qed

lemma quadratic_constraints_total:
  assumes "\<forall>ec \<in> set (si_constraints input). \<not> is_quadratic ec \<or> comparable input ec"
  shows "\<exists>m'. quadratic_constraints input indexer m = Inr m'"
proof -
  have "\<exists>m'. quadratic_constraints input indexer m = Inr m' \<and> True"
    unfolding quadratic_constraints_def
  proof (rule fold_res_total)
    fix i m
    assume i: "i \<in> set [0..<length (si_constraints input)]"
    let ?ec = "si_constraints input ! i" and ?lhs = "IsEvalConstraintLhsIntegerValued input (si_constraints input ! i)"
    show "\<exists>m'. quadratic_constraint input indexer i m = Inr m' \<and> True"
    proof (cases "is_quadratic ?ec")
      case True
      then have cmp: "comparable input ?ec" using assms i by auto
      note build = BuildQuadraticConstraint_returns [OF cmp]
      have one: "\<exists>m'. quadratic_aggregate input indexer ?ec repair ?lhs m = Inr m'" for repair
        using build [of indexer "[0..<si_num_rows input]"] by (simp add: quadratic_aggregate_def Let_def bind_returns)
      have "\<exists>m'. quadratic_group indexer ?ec repair ?lhs csr g m = Inr m'" for repair csr g m
        using build [of indexer "csr_bucket csr g"] by (simp add: quadratic_group_def Let_def bind_returns)
      then have groups: "\<exists>m'. fold_res (quadratic_group indexer ?ec repair ?lhs csr) gs m = Inr m'" for repair csr gs
        by (intro fold_res_returns)
      have "\<exists>m'. quadratic_row indexer ?ec repair ?lhs r m = Inr m'" for repair r m
        using build [of indexer "[r]"] by (simp add: quadratic_row_def Let_def bind_returns)
      then have rows: "\<exists>m'. fold_res (quadratic_row indexer ?ec repair ?lhs) rs m = Inr m'" for repair rs
        by (intro fold_res_returns)
      show ?thesis using True one groups rows by (simp add: quadratic_constraint_def Let_def)
    qed (simp add: quadratic_constraint_def Let_def)
  qed simp
  then show ?thesis by simp
qed

section \<open>The sanity checks\<close>

text \<open>The bounds and the emitted rows a build accepts.\<close>

definition bounds_ok :: "SolverInput \<Rightarrow> dbl \<Rightarrow> dbl \<Rightarrow> bool" where
  "bounds_ok input lo hi \<longleftrightarrow> isfinite lo \<and> isfinite hi \<and> (si_tolerate_infeasible_bounds input \<or> \<not> lo > hi)"

definition buildable :: "SolverInput \<Rightarrow> bool" where
  "buildable input \<longleftrightarrow> indexable input \<and> objective_ok input \<and> vi_total_vars (BuildIndexer input) \<le> 2 ^ 32 \<and>
     (\<forall>ec \<in> set (si_constraints input). if is_quadratic ec then comparable input ec else answerable input ec) \<and>
     (\<forall>v < si_num_decide_vars input. case variable_column input v of (lo, hi, i, b) \<Rightarrow> bounds_ok input lo hi) \<and>
     (\<forall>g < si_num_global_vars input. bounds_ok input (si_global_lower_bounds input ! g) (si_global_upper_bounds input ! g)) \<and>
     (\<forall>raw \<in> set (si_global_constraints input). typed_row (vi_total_vars (BuildIndexer input)) (global_row raw))"

lemma check_column_Inr:
  "check_column input m c () = Inr () \<longleftrightarrow>
     bounds_ok input (sm_col_lower m ! c) (sm_col_upper m ! c) \<and> isfinite (sm_obj_coeffs m ! c)"
  by (auto simp: check_column_def bounds_ok_def)

lemma Build_returns:
  assumes "buildable input"
  shows "\<exists>m. Build input (BuildIndexer input) = Inr m"
proof -
  let ?vi = "BuildIndexer input"
  let ?start = "variables_and_bounds input ?vi sm_default"
  let ?n = "vi_total_vars ?vi" and ?base = "objective_phase input ?vi ?start"
  have ix: "indexable input" and obj_ok: "objective_ok input" and small: "?n \<le> 2 ^ 32"
    and cols: "\<forall>v < si_num_decide_vars input. case variable_column input v of (lo, hi, i, b) \<Rightarrow> bounds_ok input lo hi"
    "\<forall>g < si_num_global_vars input. bounds_ok input (si_global_lower_bounds input ! g) (si_global_upper_bounds input ! g)"
    and raws: "\<forall>raw \<in> set (si_global_constraints input). typed_row ?n (global_row raw)"
    and clauses: "\<forall>ec \<in> set (si_constraints input). if is_quadratic ec then comparable input ec else answerable input ec"
    using assms unfolding buildable_def by - (elim conjE, assumption)+
  have "typed_rows ?n ?base" by (simp add: typed_rows_def objective_phase_columns start_no_rows)
  then obtain m1 where m1: "linear_constraints input ?vi ?base = Inr m1" "typed_rows ?n m1"
    using linear_constraints_total [OF ix, of ?base] clauses by metis
  obtain m2 where m2: "quadratic_constraints input ?vi m1 = Inr m2"
    using quadratic_constraints_total [of input ?vi m1] clauses by metis
  define m where "m = flat_rows input m2"
  have "sm_constraints m2 = sm_constraints m1"
    by (rule quadratic_constraints_pushes [OF m2]) (simp_all add: push_quadratic_def)
  then have typed: "\<forall>mc \<in> set (sm_constraints m). typed_row ?n mc"
    using m1(2) raws by (auto simp: m_def flat_rows_def typed_rows_def)
  have frame: "frame m = frame ?base"
    using linear_constraints_frame [OF m1(1)] quadratic_constraints_frame [OF m2]
    by (simp add: m_def flat_rows_def frame_def)
  note same = frame_fields [OF this]
  have at: "column_at m c = column_at ?start c" for c
    by (simp add: column_at_def same objective_phase_columns)
  have bounds: "bounds_ok input (sm_col_lower m ! c) (sm_col_upper m ! c)" if "c < ?n" for c
  proof -
    have "\<forall>c < ?n. case column_at m c of (lo, hi, i, b) \<Rightarrow> bounds_ok input lo hi"
      unfolding all_columns at
    proof (intro conjI allI impI)
      fix v i
      assume v: "v < si_num_decide_vars input" "i < NumInstances ?vi v"
      show "case column_at ?start (InstanceColumn ?vi v i) of (lo, hi, i, b) \<Rightarrow> bounds_ok input lo hi"
        unfolding variables_and_bounds_facts(3) [OF v] by (rule cols(1) [rule_format, OF v(1)])
    next
      fix g
      assume g: "g < si_num_global_vars input"
      show "case column_at ?start (vi_global_block_start ?vi + g) of (lo, hi, i, b) \<Rightarrow> bounds_ok input lo hi"
        unfolding variables_and_bounds_facts(4) [OF g] using cols(2) g by (simp add: global_column_def Let_def)
    qed
    with that show ?thesis by (simp add: column_at_def)
  qed
  note obj = objective_phase_value [OF ix obj_ok small start_no_rows(6-8) [of input]]
  have fin: "isfinite (sm_obj_coeffs m ! c)" if "c < ?n" for c
    using obj(2,3) that by (simp add: same list_all_length)
  have q: "check_q_entry ?n m k () = Inr ()" if "k < length (sm_q_vals m)" for k
    using obj(4-6) that by (auto simp: same check_q_entry_def list_all_length)
  have "sanity_checks input ?n m = Inr m"
    unfolding sanity_checks_Inr check_column_Inr check_row_typed using bounds fin typed q by blast
  then show ?thesis
    using m1(1) m2 by (simp add: Build_def Let_def m_def del: BuildIndexer_fields)
qed

section \<open>Its error exits\<close>

text \<open>Bounds that cross are reported by the sanity checks alone.\<close>

lemma linear_no_crossing: "linear_constraints input indexer m \<noteq> Inl InfeasibleBounds"
proof -
  have fixed: "SumFixedAggregateLhsOffset ec rows what \<noteq> Inl InfeasibleBounds" for ec rows what
    unfolding SumFixedAggregateLhsOffset_def by (rule fold_res_error) (simp add: fixed_offset_term_def)
  have sense: "ApplyComparisonSense c cmp d integ \<noteq> Inl InfeasibleBounds" for c cmp d integ
    by (cases cmp) (simp_all add: ApplyComparisonSense_def RejectStrictOnNonIntegerLhs_def Let_def)
  have one: "aggregate_row input indexer ec repair integ m \<noteq> Inl InfeasibleBounds" for ec repair integ m
    using fixed sense by (auto simp: aggregate_row_def Let_def split: sum.splits)
  have "aggregate_group_row indexer ec repair integ csr g s \<noteq> Inl InfeasibleBounds" for ec repair integ csr g s
    using fixed sense by (auto simp: aggregate_group_row_def Let_def split: sum.splits prod.splits)
  then have loop: "fold_res (aggregate_group_row indexer ec repair integ csr) gs s \<noteq> Inl InfeasibleBounds" for ec repair integ csr gs s
    by (rule fold_res_error)
  have "(case fold_res (aggregate_group_row indexer ec repair integ csr) gs s of Inl e \<Rightarrow> Inl e
      | Inr (model, accum) \<Rightarrow> Inr model) \<noteq> Inl InfeasibleBounds" for ec repair integ csr gs s
    using loop [of ec repair integ csr gs s]
    by (cases "fold_res (aggregate_group_row indexer ec repair integ csr) gs s") (auto split: prod.split)
  then have groups: "aggregate_groups indexer ec repair integ m \<noteq> Inl InfeasibleBounds" for ec repair integ m
    unfolding aggregate_groups_def Let_def .
  have "per_row_row indexer ec repair integ r m \<noteq> Inl InfeasibleBounds" for ec repair integ r m
    using sense by (auto simp: per_row_row_def Let_def split: sum.splits prod.splits)
  then have rows: "fold_res (per_row_row indexer ec repair integ) rs m \<noteq> Inl InfeasibleBounds" for ec repair integ rs m
    by (rule fold_res_error)
  show ?thesis
    unfolding linear_constraints_def
    by (rule fold_res_error) (use one groups rows in \<open>simp add: linear_constraint_def Let_def\<close>)
qed

lemma quadratic_no_crossing: "quadratic_constraints input indexer m \<noteq> Inl InfeasibleBounds"
proof -
  have "quadratic_comparison qc cmp d integ \<noteq> Inl InfeasibleBounds" for qc cmp d integ
    by (cases cmp) (simp_all add: quadratic_comparison_def RejectStrictOnNonIntegerLhs_def Let_def)
  then have build: "BuildQuadraticConstraint indexer ec rows rhs integ \<noteq> Inl InfeasibleBounds" for ec rows rhs integ
    by (simp add: BuildQuadraticConstraint_def Let_def split: prod.splits)
  have one: "quadratic_aggregate input indexer ec repair integ m \<noteq> Inl InfeasibleBounds" for ec repair integ m
    using build by (auto simp: quadratic_aggregate_def Let_def split: sum.splits)
  have "quadratic_group indexer ec repair integ csr g m \<noteq> Inl InfeasibleBounds" for ec repair integ csr g m
    using build by (auto simp: quadratic_group_def Let_def split: sum.splits)
  then have groups: "fold_res (quadratic_group indexer ec repair integ csr) gs m \<noteq> Inl InfeasibleBounds" for ec repair integ csr gs m
    by (rule fold_res_error)
  have "quadratic_row indexer ec repair integ r m \<noteq> Inl InfeasibleBounds" for ec repair integ r m
    using build by (auto simp: quadratic_row_def Let_def split: sum.splits)
  then have rows: "fold_res (quadratic_row indexer ec repair integ) rs m \<noteq> Inl InfeasibleBounds" for ec repair integ rs m
    by (rule fold_res_error)
  show ?thesis
    unfolding quadratic_constraints_def
    by (rule fold_res_error) (use one groups rows in \<open>simp add: quadratic_constraint_def Let_def\<close>)
qed

lemma fold_unit_Inl: "fold_res f xs () = Inl e \<Longrightarrow> \<exists>x \<in> set xs. f x () = Inl e"
  by (induction xs) (auto split: sum.splits)

lemma Build_crossing:
  assumes "Build input (BuildIndexer input) = Inl InfeasibleBounds"
  shows "\<not> si_tolerate_infeasible_bounds input \<and> (\<exists>c < vi_total_vars (BuildIndexer input).
    case column_at (variables_and_bounds input (BuildIndexer input) sm_default) c of (lo, hi, i, b) \<Rightarrow> lo > hi)"
proof -
  let ?vi = "BuildIndexer input"
  let ?base = "objective_phase input ?vi (variables_and_bounds input ?vi sm_default)"
  obtain m1 where m1: "linear_constraints input ?vi ?base = Inr m1"
    using assms linear_no_crossing [of input ?vi ?base] unfolding Build_def Let_def
    by (cases "linear_constraints input ?vi ?base") simp_all
  obtain m2 where m2: "quadratic_constraints input ?vi m1 = Inr m2"
    using assms quadratic_no_crossing [of input ?vi m1] unfolding Build_def Let_def m1 sum.case
    by (cases "quadratic_constraints input ?vi m1") simp_all
  have checks: "sanity_checks input (vi_total_vars ?vi) (flat_rows input m2) = Inl InfeasibleBounds"
    using assms unfolding Build_def Let_def m1 m2 sum.case .
  let ?m = "flat_rows input m2"
  have "frame ?m = frame ?base"
    using linear_constraints_frame [OF m1] quadratic_constraints_frame [OF m2]
    by (simp add: flat_rows_def frame_def)
  note same = frame_fields [OF this]
  have row: "check_row n mc () \<noteq> Inl InfeasibleBounds" for n mc
    using fold_res_error [of "check_entry n mc" InfeasibleBounds]
    by (auto simp: check_row_def check_entry_def split: sum.splits)
  have "fold_res (check_row n) mcs () \<noteq> Inl InfeasibleBounds" for n mcs
    using row by (auto dest!: fold_unit_Inl)
  moreover have "fold_res (check_q_entry n m) ks () \<noteq> Inl InfeasibleBounds" for n m ks
    by (rule fold_res_error) (simp add: check_q_entry_def)
  ultimately have "fold_res (check_column input ?m) [0..<vi_total_vars ?vi] () = Inl InfeasibleBounds"
    using checks by (auto simp: sanity_checks_def split: sum.splits simp del: BuildIndexer_fields)
  then obtain c where "c < vi_total_vars ?vi" "check_column input ?m c () = Inl InfeasibleBounds"
    by (auto dest: fold_unit_Inl simp del: BuildIndexer_fields)
  then have "c < vi_total_vars ?vi" "sm_col_lower ?m ! c > sm_col_upper ?m ! c \<and> \<not> si_tolerate_infeasible_bounds input"
    unfolding check_column_def by (simp_all split: if_splits del: BuildIndexer_fields)
  then show ?thesis by (auto simp: same objective_phase_columns column_at_def simp del: BuildIndexer_fields)
qed

end
