(* ===== verification/BuildExact.thy ===== *)
theory BuildExact
  imports ModelTotal
begin

text \<open>
  What \<open>SolverModel::Build\<close> (\<open>ilp_model_builder.cpp\<close>) promises: the columns of a built model admit the
  values the input lets its variables take, its rows hold exactly where the constraints do, its
  objective is the input's up to the part no decision moves, a model that passes the sanity checks
  is well typed, and both of its verdicts of infeasibility are right.
\<close>

section \<open>Columns, rows, objective\<close>

definition domains_hold :: "SolverInput \<Rightarrow> (idx \<Rightarrow> real) \<Rightarrow> bool" where
  "domains_hold input x \<longleftrightarrow>
     (\<forall>v < si_num_decide_vars input. \<forall>i < NumInstances (BuildIndexer input) v.
        user_domain input v (x (InstanceColumn (BuildIndexer input) v i))) \<and>
     (\<forall>g < si_num_global_vars input. global_domain input g (x (vi_global_block_start (BuildIndexer input) + g)))"

text \<open>The shape of input the binder hands over, and the bounds that the tolerance of empty rows leaves alone.\<close>

definition build_ok :: "SolverInput \<Rightarrow> bool" where
  "build_ok input \<longleftrightarrow> indexable input \<and> objective_ok input \<and>
     vi_total_vars (BuildIndexer input) \<le> 2 ^ 32 \<and> (\<forall>u \<in> set (si_upper_bounds input). \<not> isnan u) \<and>
     (\<forall>ec \<in> set (si_constraints input). linear_ok input ec \<and> quad_clause_ok input ec)"

definition constraints_hold :: "SolverInput \<Rightarrow> (idx \<Rightarrow> real) \<Rightarrow> bool" where
  "constraints_hold input x \<longleftrightarrow>
     (\<forall>ec \<in> set (si_constraints input). if is_quadratic ec then sat_quad input ec (at_flat input x)
                                      else sat_linear input ec (at_flat input x)) \<and>
     rows_hold input x"

lemma columns_admit:
  assumes "Build input (BuildIndexer input) = Inr m" "\<forall>u \<in> set (si_upper_bounds input). \<not> isnan u"
  shows "model_columns m x \<longleftrightarrow> domains_hold input x"
  unfolding domains_hold_def
  by (rule columns_domain [where model = sm_default, OF assms(2) Build_columns(1) [OF assms(1)]])
     (simp add: Build_columns(2) [OF assms(1)])

lemma start_rows: "model_rows (objective_phase input indexer (variables_and_bounds input (BuildIndexer input) sm_default)) x"
  by (simp add: model_rows_def objective_phase_columns start_no_rows)

lemma objective_phase_sense: "sm_maximize (objective_phase input indexer m) \<longleftrightarrow> si_sense input = MAXIMIZE"
  by (simp add: objective_phase_def linear_objective_def quadratic_objective_def Let_def case_prod_unfold)


lemma rows_admit:
  assumes built: "Build input (BuildIndexer input) = Inr m" and ok: "build_ok input" "scalars_inside input"
    and cols: "model_columns m x"
  shows "model_rows m x \<longleftrightarrow> constraints_hold input x"
proof -
  obtain m1 m2 where phases:
    "linear_constraints input (BuildIndexer input)
       (objective_phase input (BuildIndexer input) (variables_and_bounds input (BuildIndexer input) sm_default)) = Inr m1"
    "quadratic_constraints input (BuildIndexer input) m1 = Inr m2" "m = flat_rows input m2"
    by (rule BuildE [OF built])
  have small: "global_start input \<le> 2 ^ 32" using ok(1) by (simp add: build_ok_def)
  have ix: "indexable input" and lin: "\<forall>ec \<in> set (si_constraints input). linear_ok input ec"
    and quad: "\<forall>ec \<in> set (si_constraints input). quad_clause_ok input ec" using ok(1) by (auto simp: build_ok_def)
  note int = columns_integral [OF built cols]
  show ?thesis
    unfolding phases(3) model_rows_flat constraints_hold_def
    using linear_constraints_states [OF ix int lin phases(1)]
      quadratic_constraints_states [OF ix small int quad phases(2)] sat_quad_as_built [OF ok(2)] start_rows by auto
qed

text \<open>
  C2. The rows of a built model hold at a point its columns admit exactly when the point meets
  every linear and quadratic constraint of the input and the rows, conditional rows and native
  constructs that the passes emitted. A query-wide variable beside a reducer counts once; quadratic
  aggregates with such a term, which the builder repeats per row, are outside the assumptions.
\<close>

theorem build_rows_exact:
  assumes built: "Build input (BuildIndexer input) = Inr m" and ok: "build_ok input" "scalars_inside input"
    and cols: "model_columns m x"
  shows "model_rows m x \<longleftrightarrow> constraints_hold input x"
  by (rule rows_admit [OF assms])

lemma objective_admit:
  assumes built: "Build input (BuildIndexer input) = Inr m" and ok: "build_ok input"
  shows "obj_val m x = Fin (objective_meaning input (at_flat input x) +
           global_meaning input (\<lambda>g. x (vi_global_block_start (BuildIndexer input) + g)) - objective_fixed input) \<and>
    (sm_maximize m \<longleftrightarrow> si_sense input = MAXIMIZE)"
proof -
  have "obj_val m x =
      obj_val (objective_phase input (BuildIndexer input) (variables_and_bounds input (BuildIndexer input) sm_default)) x"
    using frame_fields [OF Build_frame [OF built]] by (simp add: obj_val_def)
  also have "\<dots> = Fin (objective_meaning input (at_flat input x) +
           global_meaning input (\<lambda>g. x (vi_global_block_start (BuildIndexer input) + g)) - objective_fixed input)"
    using ok by (intro objective_phase_value(1)) (simp_all add: build_ok_def start_no_rows)
  finally show ?thesis using frame_fields(7) [OF Build_frame [OF built]] by (simp add: objective_phase_sense)
qed

text \<open>
  C3. The objective of a built model is the input's objective at the point, with the global columns'
  share, less the constants inside squared expressions, which no decision moves; and it carries the
  sense of the input.
\<close>

theorem build_objective_exact:
  assumes built: "Build input (BuildIndexer input) = Inr m" and ok: "build_ok input"
  shows "obj_val m x = Fin (objective_meaning input (at_flat input x) +
           global_meaning input (\<lambda>g. x (vi_global_block_start (BuildIndexer input) + g)) - objective_fixed input) \<and>
    (sm_maximize m \<longleftrightarrow> si_sense input = MAXIMIZE)"
  by (rule objective_admit [OF assms])


section \<open>What a built model is like\<close>

text \<open>
  Well-typedness: one bound, flag and cost per column, finite and in order; a binary column integer,
  and a decision column that is binary inside the unit box; rows over existing columns with finite
  coefficients and a right-hand side that is a number; a quadratic objective stored as a lower triangle.
\<close>

definition well_typed :: "SolverInput \<Rightarrow> SolverModel \<Rightarrow> bool" where
  "well_typed input m \<longleftrightarrow>
     sized (vi_total_vars (BuildIndexer input)) m \<and>
     (\<forall>c < sm_num_vars m. bounds_ok input (sm_col_lower m ! c) (sm_col_upper m ! c) \<and> isfinite (sm_obj_coeffs m ! c) \<and>
        (sm_is_binary m ! c \<longrightarrow> sm_is_integer m ! c)) \<and>
     (\<forall>c < vi_global_block_start (BuildIndexer input). sm_is_binary m ! c \<longrightarrow>
        0 \<le> sm_col_lower m ! c \<and> sm_col_upper m ! c \<le> 1) \<and>
     typed_rows (sm_num_vars m) m \<and>
     (\<forall>k < length (sm_q_vals m). sm_q_cols m ! k \<le> sm_q_rows m ! k \<and> sm_q_rows m ! k < sm_num_vars m \<and>
        isfinite (sm_q_vals m ! k))"

lemma decision_columns:
  "c < vi_global_block_start (BuildIndexer input) \<Longrightarrow>
     \<exists>v < si_num_decide_vars input. \<exists>i < NumInstances (BuildIndexer input) v. c = InstanceColumn (BuildIndexer input) v i"
proof (rule ccontr)
  assume c: "c < vi_global_block_start (BuildIndexer input)" and
    no: "\<not> (\<exists>v < si_num_decide_vars input. \<exists>i < NumInstances (BuildIndexer input) v. c = InstanceColumn (BuildIndexer input) v i)"
  have "\<forall>c' < vi_total_vars (BuildIndexer input). c' \<noteq> c" unfolding all_columns using no c by auto
  moreover have "c < vi_total_vars (BuildIndexer input)" using c by simp
  ultimately show False by blast
qed

lemma built_binary:
  assumes "Build input (BuildIndexer input) = Inr m" "c < sm_num_vars m" "sm_is_binary m ! c"
  shows "sm_is_integer m ! c"
proof -
  note cols = Build_columns [OF assms(1)]
  have "\<forall>c < vi_total_vars (BuildIndexer input). case column_at m c of (lo, hi, i, b) \<Rightarrow> b \<longrightarrow> i"
    unfolding all_columns cols(2)
  proof (intro conjI allI impI)
    fix v i
    assume v: "v < si_num_decide_vars input" "i < NumInstances (BuildIndexer input) v"
    show "case column_at (variables_and_bounds input (BuildIndexer input) sm_default)
        (InstanceColumn (BuildIndexer input) v i) of (lo, hi, i, b) \<Rightarrow> b \<longrightarrow> i"
      unfolding variables_and_bounds_facts(3) [OF v] by (auto dest: variable_column_binary split: prod.split)
  next
    fix g
    assume g: "g < si_num_global_vars input"
    show "case column_at (variables_and_bounds input (BuildIndexer input) sm_default)
        (vi_global_block_start (BuildIndexer input) + g) of (lo, hi, i, b) \<Rightarrow> b \<longrightarrow> i"
      unfolding variables_and_bounds_facts(4) [OF g] by (simp add: global_column_def IsRealType_def Let_def)
  qed
  with assms(2,3) cols(1) show ?thesis by (simp add: column_at_def sized_def)
qed

lemma built_unit:
  assumes "Build input (BuildIndexer input) = Inr m" "c < vi_global_block_start (BuildIndexer input)" "sm_is_binary m ! c"
    and "isfinite (sm_col_lower m ! c)" "isfinite (sm_col_upper m ! c)"
  shows "0 \<le> sm_col_lower m ! c \<and> sm_col_upper m ! c \<le> 1"
proof -
  obtain v i where v: "v < si_num_decide_vars input" "i < NumInstances (BuildIndexer input) v"
    "c = InstanceColumn (BuildIndexer input) v i"
    using decision_columns [OF assms(2)] by blast
  have at: "column_at m c = variable_column input v"
    unfolding v(3) Build_columns(2) [OF assms(1)] by (rule variables_and_bounds_facts(3) [OF v(1,2)])
  have "\<not> d < 0 \<Longrightarrow> isfinite d \<Longrightarrow> 0 \<le> d" "\<not> d > 1 \<Longrightarrow> isfinite d \<Longrightarrow> d \<le> 1" for d :: dbl
    by (cases d; simp add: zero_dbl_def one_dbl_def)+
  then show ?thesis
    using variable_column_binary [OF at [symmetric, unfolded column_at_def]] assms(3-5) by simp
qed

text \<open>C6. A model that \<open>Build\<close> returns is well typed.\<close>

theorem build_well_typed:
  assumes "Build input (BuildIndexer input) = Inr m"
  shows "well_typed input m"
proof -
  have checks: "sanity_checks input (vi_total_vars (BuildIndexer input)) m = Inr m" by (rule BuildE [OF assms])
  note facts = checks [unfolded sanity_checks_Inr check_column_Inr check_row_typed]
  have n: "sm_num_vars m = vi_total_vars (BuildIndexer input)" using Build_columns(1) [OF assms] by (simp add: sized_def)
  have unit: "0 \<le> sm_col_lower m ! c \<and> sm_col_upper m ! c \<le> 1"
    if c: "c < vi_global_block_start (BuildIndexer input)" "sm_is_binary m ! c" for c
  proof -
    have "c < vi_total_vars (BuildIndexer input)" using c(1) by simp
    then show ?thesis using facts by (intro built_unit [OF assms c]) (auto simp: bounds_ok_def)
  qed
  have q: "sm_q_cols m ! k \<le> sm_q_rows m ! k \<and> sm_q_rows m ! k < sm_num_vars m \<and> isfinite (sm_q_vals m ! k)"
    if "k < length (sm_q_vals m)" for k
  proof -
    have "check_q_entry (vi_total_vars (BuildIndexer input)) m k () = Inr ()" using facts that by blast
    then show ?thesis unfolding check_q_entry_def n by (simp split: if_splits)
  qed
  show ?thesis
    unfolding well_typed_def using Build_columns(1) [OF assms] facts built_binary [OF assms] unit q n by (simp add: typed_rows_def)
qed

lemma flag_admit:
  assumes "Build input (BuildIndexer input) = Inr m" "sm_build_proven_infeasible m"
  shows "\<nexists>x. model_rows m x"
proof -
  let ?start = "objective_phase input (BuildIndexer input) (variables_and_bounds input (BuildIndexer input) sm_default)"
  obtain m1 m2 where phases: "linear_constraints input (BuildIndexer input) ?start = Inr m1"
    "quadratic_constraints input (BuildIndexer input) m1 = Inr m2" "m = flat_rows input m2"
    by (rule BuildE [OF assms(1)])
  have "flag_justified m1"
    by (rule linear_constraints_pushes [where P = flag_justified, OF phases(1) push_flag_justified])
       (simp_all add: flag_justified_def objective_phase_columns start_no_rows)
  then have "flag_justified m2"
    by (rule quadratic_constraints_pushes [OF phases(2), rotated]) (simp add: flag_justified_def push_quadratic_def)
  with assms(2) show ?thesis by (auto simp: flag_justified_def phases(3) flat_rows_def model_rows_def)
qed

text \<open>C7. The infeasibility flag is right: no point meets the rows of a model that carries it.\<close>

theorem build_flag_sound:
  assumes "Build input (BuildIndexer input) = Inr m" "sm_build_proven_infeasible m"
  shows "\<nexists>x. model_rows m x"
  by (rule flag_admit [OF assms])

text \<open>Boxes whose ends are on the sides the backends read.\<close>

definition near_boxes :: "SolverInput \<Rightarrow> bool" where
  "near_boxes input \<longleftrightarrow>
     (\<forall>v < si_num_decide_vars input. case variable_column input v of (lo, hi, i, b) \<Rightarrow>
        Fin (- (10 ^ 30)) \<le> hi \<and> lo \<le> Fin (10 ^ 30)) \<and>
     (\<forall>g < si_num_global_vars input. Fin (- (10 ^ 30)) \<le> si_global_upper_bounds input ! g \<and>
        si_global_lower_bounds input ! g \<le> Fin (10 ^ 30))"

lemma near_columns:
  assumes "near_boxes input" "c < vi_total_vars (BuildIndexer input)"
  shows "case column_at (variables_and_bounds input (BuildIndexer input) sm_default) c of (lo, hi, i, b) \<Rightarrow>
    Fin (- (10 ^ 30)) \<le> hi \<and> lo \<le> Fin (10 ^ 30)"
proof -
  let ?start = "variables_and_bounds input (BuildIndexer input) sm_default"
  have all: "\<forall>c < vi_total_vars (BuildIndexer input). case column_at ?start c of (lo, hi, i, b) \<Rightarrow>
      Fin (- (10 ^ 30)) \<le> hi \<and> lo \<le> Fin (10 ^ 30)"
    unfolding all_columns
  proof (intro conjI allI impI)
    fix v i
    assume v: "v < si_num_decide_vars input" "i < NumInstances (BuildIndexer input) v"
    show "case column_at ?start (InstanceColumn (BuildIndexer input) v i) of (lo, hi, i, b) \<Rightarrow>
        Fin (- (10 ^ 30)) \<le> hi \<and> lo \<le> Fin (10 ^ 30)"
      unfolding variables_and_bounds_facts(3) [OF v] by (rule assms(1) [unfolded near_boxes_def, THEN conjunct1, rule_format, OF v(1)])
  next
    fix g
    assume g: "g < si_num_global_vars input"
    show "case column_at ?start (vi_global_block_start (BuildIndexer input) + g) of (lo, hi, i, b) \<Rightarrow>
        Fin (- (10 ^ 30)) \<le> hi \<and> lo \<le> Fin (10 ^ 30)"
      unfolding variables_and_bounds_facts(4) [OF g] using assms(1) [unfolded near_boxes_def, THEN conjunct2, rule_format, OF g] by (simp add: global_column_def Let_def)
  qed
  show ?thesis by (rule all [rule_format, OF assms(2)])
qed

lemma crossed_column: "lo > hi \<Longrightarrow> Fin (- (10 ^ 30)) \<le> hi \<Longrightarrow> lo \<le> Fin (10 ^ 30) \<Longrightarrow> \<not> in_column lo hi i b a"
  unfolding in_column_def by (cases lo; cases hi) auto

lemma crossing_admit:
  assumes "Build input (BuildIndexer input) = Inl InfeasibleBounds"
    and "near_boxes input"
    and "\<forall>u \<in> set (si_upper_bounds input). \<not> isnan u"
  shows "\<not> si_tolerate_infeasible_bounds input \<and> (\<nexists>x. domains_hold input x)"
proof -
  let ?start = "variables_and_bounds input (BuildIndexer input) sm_default"
  obtain c where c: "c < vi_total_vars (BuildIndexer input)" "\<not> si_tolerate_infeasible_bounds input"
    "case column_at ?start c of (lo, hi, i, b) \<Rightarrow> lo > hi" 
    using Build_crossing [OF assms(1)] by (elim conjE exE) (rule that)
  have "\<not> domains_hold input x" for x
  proof
    assume dom: "domains_hold input x"
    have "model_columns ?start x"
      using dom unfolding domains_hold_def
      by (rule columns_domain [where model = sm_default, OF assms(3) variables_and_bounds_facts(1), THEN iffD2, rotated]) simp
    then have "case column_at ?start c of (lo, hi, i, b) \<Rightarrow> in_column lo hi i b (x c)"
      using c(1) variables_and_bounds_facts(1) [of input sm_default]
      by (simp add: model_columns_def sized_def column_at_def)
    with c(3) near_columns [OF assms(2) c(1)] crossed_column show False by (auto simp: column_at_def)
  qed
  with c(2) show ?thesis by blast
qed

text \<open>
  C8. The error for crossing bounds is right: when \<open>Build\<close> reports it, the bounds were not to be
  tolerated, and, with every bound within \<open>1e30\<close>, no point lies in the domains.
\<close>

theorem build_crossing_sound:
  assumes "Build input (BuildIndexer input) = Inl InfeasibleBounds"
    and "\<forall>v < si_num_decide_vars input. case variable_column input v of (lo, hi, i, b) \<Rightarrow>
      Fin (- (10 ^ 30)) \<le> hi \<and> lo \<le> Fin (10 ^ 30)"
    and "\<forall>g < si_num_global_vars input. Fin (- (10 ^ 30)) \<le> si_global_upper_bounds input ! g \<and>
      si_global_lower_bounds input ! g \<le> Fin (10 ^ 30)"
    and "\<forall>u \<in> set (si_upper_bounds input). \<not> isnan u"
  shows "\<not> si_tolerate_infeasible_bounds input \<and> (\<nexists>x. domains_hold input x)"
  by (rule crossing_admit [OF assms(1) near_boxes_def [THEN iffD2] assms(4)]) (intro conjI assms(2,3))

text \<open>
  C5. \<open>Build\<close> answers: on a well-shaped input with supported comparisons, strict ones over integers
  only, finite terms and bounds in order, it returns a model.
\<close>

theorem build_answers:
  assumes "buildable input"
  shows "\<exists>m. Build input (BuildIndexer input) = Inr m"
  by (rule Build_returns [OF assms])

section \<open>A small model\<close>

text \<open>Two rows, one integer variable per row, \<open>SUM(x) < 5\<close>, maximising \<open>SUM(3 * x)\<close>.\<close>

definition demo_build_clause :: EvaluatedConstraint where
  "demo_build_clause = ec_default\<lparr>ec_variable_indices := [Some 0], ec_row_coefficients := [MakeScalar 1 2],
     ec_linear_term_reductions := [RED_SUM], ec_rhs_values := MakeScalar (Fin 5) 2,
     ec_comparison_type := COMPARE_LESSTHAN, ec_lhs_is_aggregate := True\<rparr>"

definition demo_build :: SolverInput where
  "demo_build = si_default\<lparr>si_num_rows := 2, si_num_decide_vars := 1, si_variable_types := [INTEGER],
     si_lower_bounds := [0], si_upper_bounds := [Fin 9], si_constraints := [demo_build_clause],
     si_objective_coefficients := [MakeScalar (Fin 3) 2], si_objective_variable_indices := [Some 0],
     si_sense := MAXIMIZE\<rparr>"

lemma demo_fields:
  "si_num_rows demo_build = 2" "si_num_decide_vars demo_build = 1" "si_variable_types demo_build = [INTEGER]"
  "si_lower_bounds demo_build = [0]" "si_upper_bounds demo_build = [Fin 9]" "si_constraints demo_build = [demo_build_clause]"
  "si_objective_coefficients demo_build = [MakeScalar (Fin 3) 2]" "si_objective_variable_indices demo_build = [Some 0]"
  "si_sense demo_build = MAXIMIZE" "si_num_global_vars demo_build = 0" "si_global_obj_coeffs demo_build = []"
  "si_has_quadratic_objective demo_build = False" "si_bilinear_objective_terms demo_build = []"
  "si_global_constraints demo_build = []" "si_indicator_constraints demo_build = []"
  "si_general_constraints demo_build = []" "si_variable_scopes demo_build = []" "si_entity_mappings demo_build = []"
  "si_quadratic_inner_coefficients demo_build = []" "si_quadratic_inner_variable_indices demo_build = []"
  "si_quadratic_sign demo_build = 1" "si_objective_term_reductions demo_build = []"
  "si_tolerate_infeasible_bounds demo_build = False"
  by (simp_all add: demo_build_def si_default_def)

lemma demo_indexer: "global_start demo_build = 2" "NumInstances (BuildIndexer demo_build) 0 = 2" "scope_of demo_build 0 = ROW"
  by (simp_all add: NumInstances_cases global_start_def scalar_start_def
      entity_start_def row_vars_def scope_of_def entity_total_def vars_of_def demo_fields upt_rec numeral_2_eq_2)

lemma demo_clause_fields:
  "ec_variable_indices demo_build_clause = [Some 0]" "ec_row_coefficients demo_build_clause = [MakeScalar 1 2]"
  "ec_linear_term_reductions demo_build_clause = [RED_SUM]" "ec_rhs_values demo_build_clause = MakeScalar (Fin 5) 2"
  "ec_comparison_type demo_build_clause = COMPARE_LESSTHAN" "ec_lhs_is_aggregate demo_build_clause = True"
  "ec_row_group_ids demo_build_clause = []" "ec_bilinear_terms demo_build_clause = []"
  "ec_has_quadratic demo_build_clause = False" "ec_quadratic_groups demo_build_clause = []"
  by (simp_all add: demo_build_clause_def ec_default_def)

lemma demo_clause_ok:
  "ec_shape (Suc 0) 2 demo_build_clause" "finite_terms demo_build_clause"
  "IsEvalConstraintLhsIntegerValued demo_build demo_build_clause = LHS_INTEGER"
  "fixed_total demo_build_clause rows = 0" "agg_row_sets demo_build_clause 2 = [[0, 1]]"
proof -
  have "AllIntegral (MakeScalar 1 2)" by (simp add: AllIntegral_def MakeScalar_def deq_def one_dbl_def)
  then show "ec_shape (Suc 0) 2 demo_build_clause" "finite_terms demo_build_clause"
    "IsEvalConstraintLhsIntegerValued demo_build demo_build_clause = LHS_INTEGER"
    "fixed_total demo_build_clause rows = 0" "agg_row_sets demo_build_clause 2 = [[0, 1]]"
    by (simp_all add: ec_shape_def finite_terms_def col_finite_def IsEvalConstraintLhsIntegerValued_def ec_terms_def
        fixed_total_def agg_row_sets_def demo_clause_fields demo_fields fin_intro IsRealType_def upt_rec numeral_2_eq_2)
qed

lemma demo_objective_ok: "objective_ok demo_build"
  by (simp add: objective_ok_def vars_below_def col_finite_def demo_fields fin_intro)

lemma demo_build_ok: "build_ok demo_build" "buildable demo_build"
  by (simp_all add: build_ok_def buildable_def indexable_def demo_fields demo_indexer demo_objective_ok linear_ok_def
      quad_clause_ok_def is_quadratic_def demo_clause_fields row_ok_def demo_clause_ok bounds_clear_def bound_clear_def
      answerable_def fixed_owned_def comparable_def variable_column_def per_var_config_def type_default_def bounds_ok_def
      zero_dbl_def row_eps_def)


lemma demo_built: "\<exists>m. Build demo_build (BuildIndexer demo_build) = Inr m"
  by (rule Build_returns [OF demo_build_ok(2)])

lemma demo_domains: "domains_hold demo_build (\<lambda>c. a) \<longleftrightarrow> 0 \<le> a \<and> a \<le> 9 \<and> a \<in> \<int>"
proof -
  have "user_domain demo_build 0 a \<longleftrightarrow> 0 \<le> a \<and> a \<le> 9 \<and> a \<in> \<int>"
    by (auto simp: user_domain_def demo_fields IsRealType_def zero_dbl_def)
  moreover have "\<exists>i. i < (2::nat)" by (rule exI [of _ 0]) simp
  ultimately show ?thesis by (simp add: domains_hold_def demo_fields demo_indexer)
qed

lemma demo_scalars: "scalars_inside demo_build"
  by (simp add: scalars_inside_def demo_fields is_quadratic_def demo_clause_fields)

lemma demo_constraints: "constraints_hold demo_build (\<lambda>c. a) \<longleftrightarrow> a + a < 5"
  by (simp add: constraints_hold_def demo_fields is_quadratic_def demo_clause_fields sat_linear_def demo_clause_ok
      rows_hold_def flat_rows_hold_def sat_agg_def agg_lhs_def agg_term_def counted_once_def at_flat_def
      demo_indexer cc_get_Scalar one_dbl_def)

lemma demo_objective: "objective_meaning demo_build (\<lambda>v r. a) = 6 * a" "objective_fixed demo_build = 0" "global_meaning demo_build y = 0"
  by (simp_all add: objective_meaning_def objective_fixed_def global_meaning_def linear_meaning_def demo_fields
      demo_indexer Let_def upt_rec [of 0] upt_rec [of "Suc 0"])

lemma at_flat_const: "at_flat input (\<lambda>c. a) = (\<lambda>v r. a)"
  by (simp add: at_flat_def fun_eq_iff)


theorem build_rows_exact_witness:
  "\<exists>m. Build demo_build (BuildIndexer demo_build) = Inr m \<and> model_rows m (\<lambda>c. 2) \<and> \<not> model_rows m (\<lambda>c. 3)"
proof -
  obtain m where m: "Build demo_build (BuildIndexer demo_build) = Inr m" using demo_built by blast
  have "model_columns m (\<lambda>c. 2)" "model_columns m (\<lambda>c. 3)"
    using columns_admit [OF m] demo_domains by (simp_all add: demo_fields)
  then have "model_rows m (\<lambda>c. 2)" "\<not> model_rows m (\<lambda>c. 3)"
    using build_rows_exact [OF m demo_build_ok(1) demo_scalars] demo_constraints by auto
  with m show ?thesis by blast
qed

theorem build_objective_exact_witness:
  "\<exists>m. Build demo_build (BuildIndexer demo_build) = Inr m \<and> obj_val m (\<lambda>c. 2) = Fin 12 \<and> sm_maximize m"
  using demo_built build_objective_exact [OF _ demo_build_ok(1), of _ "\<lambda>c. 2"] demo_objective
  by (auto simp: at_flat_const demo_fields)

theorem build_well_typed_witness: "\<exists>m. Build demo_build (BuildIndexer demo_build) = Inr m \<and> well_typed demo_build m"
  using demo_built build_well_typed by blast

theorem build_answers_witness: "\<exists>m. Build demo_build (BuildIndexer demo_build) = Inr m"
  by (rule build_answers [OF demo_build_ok(2)])

text \<open>One row and no variable: \<open>0 \<le> -1\<close>. And one variable with crossing bounds.\<close>

definition demo_never :: SolverInput where
  "demo_never = si_default\<lparr>si_num_rows := 1, si_constraints := [ec_default\<lparr>ec_rhs_values := MakeScalar (Fin (- 1)) 1,
     ec_comparison_type := COMPARE_LESSTHANOREQUALTO, ec_lhs_is_aggregate := True\<rparr>]\<rparr>"

definition demo_crossed :: SolverInput where
  "demo_crossed = si_default\<lparr>si_num_rows := 1, si_num_decide_vars := 1, si_variable_types := [DOUBLE],
     si_lower_bounds := [Fin 5], si_upper_bounds := [Fin 3]\<rparr>"

lemma demo_never_fields:
  "si_num_rows demo_never = 1" "si_num_decide_vars demo_never = 0" "si_num_global_vars demo_never = 0"
  "si_upper_bounds demo_never = []" "si_entity_mappings demo_never = []" "si_global_constraints demo_never = []"
  "si_objective_coefficients demo_never = []" "si_objective_variable_indices demo_never = []"
  "si_quadratic_inner_coefficients demo_never = []" "si_quadratic_inner_variable_indices demo_never = []"
  "si_global_obj_coeffs demo_never = []" "si_quadratic_sign demo_never = 1" "si_bilinear_objective_terms demo_never = []"
  "si_constraints demo_never = [ec_default\<lparr>ec_rhs_values := MakeScalar (Fin (- 1)) 1,
     ec_comparison_type := COMPARE_LESSTHANOREQUALTO, ec_lhs_is_aggregate := True\<rparr>]"
  by (simp_all add: demo_never_def si_default_def)

lemma demo_never_built: "\<exists>m. Build demo_never (BuildIndexer demo_never) = Inr m \<and> sm_build_proven_infeasible m"
proof -
  have "global_start demo_never = 0"
    by (simp add: global_start_def scalar_start_def entity_start_def entity_total_def row_vars_def vars_of_def demo_never_fields)
  then have "buildable demo_never"
    by (simp add: buildable_def indexable_def objective_ok_def vars_below_def demo_never_fields fin_intro is_quadratic_def
        answerable_def fixed_owned_def row_ok_def ec_shape_def finite_terms_def comparable_def strict_cmp_def ec_default_def)
  from Build_returns [OF this] obtain m where m: "Build demo_never (BuildIndexer demo_never) = Inr m" by blast
  obtain m1 m2 where phases:
    "linear_constraints demo_never (BuildIndexer demo_never)
       (objective_phase demo_never (BuildIndexer demo_never) (variables_and_bounds demo_never (BuildIndexer demo_never) sm_default)) = Inr m1"
    "quadratic_constraints demo_never (BuildIndexer demo_never) m1 = Inr m2" "m = flat_rows demo_never m2"
    by (rule BuildE [OF m])
  have "sm_build_proven_infeasible m1"
    using phases(1)
    by (auto simp: linear_constraints_def linear_constraint_def demo_never_fields is_quadratic_def ec_default_def
        aggregate_row_def CanUseRowScopedFastPath_def fast_row_def SumFixedAggregateLhsOffset_def ApplyComparisonSense_def
        PushNormalizedConstraint_def mc_default_def zero_dbl_def row_eps_def Let_def)
  moreover have "sm_build_proven_infeasible m2 = sm_build_proven_infeasible m1"
    by (rule quadratic_constraints_pushes [OF phases(2)]) (simp_all add: push_quadratic_def)
  ultimately show ?thesis using m by (auto simp: phases(3) flat_rows_def)
qed

theorem build_flag_sound_witness:
  "\<exists>m. Build demo_never (BuildIndexer demo_never) = Inr m \<and> (\<nexists>x. model_rows m x)"
  using demo_never_built build_flag_sound by blast

lemma demo_crossed_fields:
  "si_num_rows demo_crossed = 1" "si_num_decide_vars demo_crossed = 1" "si_num_global_vars demo_crossed = 0"
  "si_upper_bounds demo_crossed = [Fin 3]" "si_lower_bounds demo_crossed = [Fin 5]" "si_variable_types demo_crossed = [DOUBLE]"
  "si_constraints demo_crossed = []" "si_tolerate_infeasible_bounds demo_crossed = False" "si_variable_scopes demo_crossed = []"
  by (simp_all add: demo_crossed_def si_default_def)

lemma demo_crossed_column: "variable_column demo_crossed 0 = (Fin 5, Fin 3, False, False)"
  by (simp add: variable_column_def per_var_config_def type_default_def demo_crossed_fields IsRealType_def Let_def)

lemma demo_crossed_built: "Build demo_crossed (BuildIndexer demo_crossed) = Inl InfeasibleBounds"
proof -
  let ?vi = "BuildIndexer demo_crossed"
  have one: "global_start demo_crossed = 1" "NumInstances ?vi 0 = 1" "InstanceColumn ?vi 0 0 = 0"
    by (simp_all add: NumInstances_cases InstanceColumn_cases global_start_def scalar_start_def entity_start_def
        entity_total_def row_vars_def vars_of_def scope_of_def demo_crossed_fields)
  let ?m = "objective_phase demo_crossed ?vi (variables_and_bounds demo_crossed ?vi sm_default)"
  have "column_at (variables_and_bounds demo_crossed ?vi sm_default) 0 = (Fin 5, Fin 3, False, False)"
    using variables_and_bounds_facts(3) [of 0 demo_crossed 0 sm_default] by (simp add: one demo_crossed_fields demo_crossed_column)
  then have "check_column demo_crossed (flat_rows demo_crossed ?m) 0 () = Inl InfeasibleBounds"
    by (simp add: check_column_def column_at_def flat_rows_def objective_phase_columns demo_crossed_fields)
  then show ?thesis
    by (simp add: Build_def linear_constraints_def quadratic_constraints_def sanity_checks_def Let_def one demo_crossed_fields)
qed

theorem build_crossing_sound_witness: "\<nexists>x. domains_hold demo_crossed x"
  using build_crossing_sound [OF demo_crossed_built] by (simp add: demo_crossed_fields demo_crossed_column)

end
