(* ===== verification/QuadraticGaps.thy ===== *)
theory QuadraticGaps
  imports BuildExact
begin

text \<open>
  Two places where \<open>BuildQuadraticConstraint\<close> (\<open>ilp_model_builder.cpp\<close>) departs from what the linear
  rows do: the integrality test that gates a strict comparison passes over the constant inside a
  square, and a query-wide term beside a reducer is counted once per row. For the first, what the row
  built for a strict comparison states, whatever its constants are.
\<close>

section \<open>What a strict quadratic row states\<close>

lemma strict_row_states:
  assumes "quadratic_comparison qc0 cmp (Fin K - Fin F) integ = Inr qc" "cmp = COMPARE_LESSTHAN \<or> cmp = COMPARE_GREATERTHAN"
    and "lin_val (qc_linear_indices qc0) (qc_linear_coefficients qc0) x +
      quad_val (qc_q_rows qc0) (qc_q_cols qc0) (qc_q_coefficients qc0) x = Fin (V - F)"
  shows "sat_qc qc x \<longleftrightarrow> (if cmp = COMPARE_LESSTHAN then V - F \<le> of_int (\<lceil>K - F\<rceil> - 1) else of_int (\<lfloor>K - F\<rfloor> + 1) \<le> V - F)"
  using assms by (auto simp: quadratic_comparison_def Let_def sat_qc_def one_dbl_def split: if_splits)

text \<open>
  C34. The row built for a strict quadratic comparison admits no point that breaks it, and cuts off
  exactly the solutions whose left-hand side, less the constants, lies beyond the last integer short of
  the bound, less the constants; there are none where that difference is an integer. A clause with a
  fractional constant inside a square passes the integrality test all the same.
\<close>

theorem strict_quadratic_gap:
  assumes "indexable input" "quad_ok input ec" "global_start input \<le> 2 ^ 32" "\<forall>r \<in> set rows. r < si_num_rows input"
    and "none_beside input ec" "ec_comparison_type ec = COMPARE_LESSTHAN \<or> ec_comparison_type ec = COMPARE_GREATERTHAN"
    and "BuildQuadraticConstraint (BuildIndexer input) ec rows (Fin K) (IsEvalConstraintLhsIntegerValued input ec) = Inr qc"
  shows "(sat_qc qc x \<longrightarrow> sat_cmp (ec_comparison_type ec) (Fin (quad_total input ec (at_flat input x) rows)) (Fin K)) \<and>
    (sat_cmp (ec_comparison_type ec) (Fin (quad_total input ec (at_flat input x) rows)) (Fin K) \<and> \<not> sat_qc qc x \<longleftrightarrow>
      (let d = quad_total input ec (at_flat input x) rows - quad_fixed ec rows; k = K - quad_fixed ec rows
       in if ec_comparison_type ec = COMPARE_LESSTHAN then of_int (\<lceil>k\<rceil> - 1) < d \<and> d < k
          else k < d \<and> d < of_int (\<lfloor>k\<rfloor> + 1)))"
proof -
  let ?V = "quad_total input ec (at_flat input x) rows" and ?F = "quad_fixed ec rows"
  obtain qc0 where "quadratic_comparison qc0 (ec_comparison_type ec) (Fin K - Fin ?F)
      (IsEvalConstraintLhsIntegerValued input ec) = Inr qc"
    "lin_val (qc_linear_indices qc0) (qc_linear_coefficients qc0) x +
      quad_val (qc_q_rows qc0) (qc_q_cols qc0) (qc_q_coefficients qc0) x = Fin (?V - ?F)"
    using BuildQuadraticConstraint_form [OF assms(1-4), of "Fin K" "IsEvalConstraintLhsIntegerValued input ec"] assms(7) quad_total_lhs [OF assms(5)] by auto
  note states = strict_row_states [OF this(1) assms(6) this(2)]
  have "?V - ?F \<le> of_int (\<lceil>K - ?F\<rceil> - 1) \<Longrightarrow> ?V < K" "of_int (\<lfloor>K - ?F\<rfloor> + 1) \<le> ?V - ?F \<Longrightarrow> K < ?V" by linarith+
  with assms(6) show ?thesis unfolding states by (auto simp: Let_def)
qed

section \<open>A fractional constant inside a square\<close>

text \<open>One row, one integer variable, \<open>POWER(x + 0.3, 2) < 3\<close>.\<close>

definition demo_square_clause :: EvaluatedConstraint where
  "demo_square_clause = ec_default\<lparr>ec_quadratic_groups := [\<lparr>qg_sign = 1, qg_variable_indices = [Some 0, None],
     qg_row_coefficients = [MakeScalar 1 1, MakeScalar (Fin (3 / 10)) 1]\<rparr>],
     ec_has_quadratic := True, ec_rhs_values := MakeScalar (Fin 3) 1, ec_comparison_type := COMPARE_LESSTHAN\<rparr>"

definition demo_square :: SolverInput where
  "demo_square = si_default\<lparr>si_num_rows := 1, si_num_decide_vars := 1, si_variable_types := [INTEGER],
     si_lower_bounds := [Fin (- 5)], si_upper_bounds := [Fin 5], si_constraints := [demo_square_clause]\<rparr>"

lemma demo_square_fields:
  "si_num_rows demo_square = 1" "si_num_decide_vars demo_square = 1" "si_variable_types demo_square = [INTEGER]"
  "si_variable_scopes demo_square = []" "si_entity_mappings demo_square = []"
  by (simp_all add: demo_square_def si_default_def)

lemma demo_square_clause_fields:
  "ec_variable_indices demo_square_clause = []" "ec_row_coefficients demo_square_clause = []"
  "ec_bilinear_terms demo_square_clause = []"
  "ec_quadratic_groups demo_square_clause = [\<lparr>qg_sign = 1, qg_variable_indices = [Some 0, None],
     qg_row_coefficients = [MakeScalar 1 1, MakeScalar (Fin (3 / 10)) 1]\<rparr>]"
  "ec_comparison_type demo_square_clause = COMPARE_LESSTHAN"
  "ec_rhs_values demo_square_clause = MakeScalar (Fin 3) 1" "ec_row_group_ids demo_square_clause = []"
  by (simp_all add: demo_square_clause_def ec_default_def)

lemma demo_square_column: "Get (BuildIndexer demo_square) 0 0 = 0"
  by (simp add: Get_instance_of instance_of_def InstanceColumn_cases scope_of_def demo_square_fields)

lemma demo_square_integrality: "IsEvalConstraintLhsIntegerValued demo_square demo_square_clause = LHS_INTEGER"
proof -
  have "AllIntegral (MakeScalar 1 1)" by (simp add: AllIntegral_def MakeScalar_def deq_def one_dbl_def)
  then show ?thesis
    by (simp add: IsEvalConstraintLhsIntegerValued_def ec_terms_def demo_square_clause_fields demo_square_fields IsRealType_def)
qed

lemma demo_square_quad: "quad_ok demo_square demo_square_clause" "indexable demo_square" "global_start demo_square \<le> 2 ^ 32"
  "none_beside demo_square demo_square_clause"
  "quad_total demo_square demo_square_clause (at_flat demo_square (\<lambda>c. a)) [0] = (a + 3 / 10)\<^sup>2"
  "quad_fixed demo_square_clause [0] = 9 / 100"
  apply (simp add: quad_ok_def row_ok_def ec_shape_def finite_terms_def vars_below_def col_finite_def one_dbl_def demo_square_clause_fields demo_square_fields)
  apply (simp add: indexable_def scope_of_def demo_square_fields)
  apply (simp add: global_start_def scalar_start_def entity_start_def row_vars_def entity_total_def vars_of_def scope_of_def demo_square_fields)
  apply (simp add: none_beside_def demo_square_clause_fields)
  apply (simp add: quad_total_def group_inner_def power_inner_def inner_meaning_def demo_square_clause_fields at_flat_const one_dbl_def)
  apply (simp add: quad_fixed_def fixed_total_def group_inner_def power_inner_def inner_meaning_def demo_square_clause_fields one_dbl_def zero_dbl_def power2_eq_square)
  done

lemma strict_quadratic_gap_witness:
  "\<exists>qc. BuildQuadraticConstraint (BuildIndexer demo_square) demo_square_clause [0] (Fin 3)
       (IsEvalConstraintLhsIntegerValued demo_square demo_square_clause) = Inr qc \<and>
     sat_cmp COMPARE_LESSTHAN (Fin (quad_total demo_square demo_square_clause (at_flat demo_square (\<lambda>c. - 2)) [0])) (Fin 3) \<and>
     \<not> sat_qc qc (\<lambda>c. - 2)"
proof -
  obtain qc where run: "BuildQuadraticConstraint (BuildIndexer demo_square) demo_square_clause [0] (Fin 3)
      (IsEvalConstraintLhsIntegerValued demo_square demo_square_clause) = Inr qc"
    unfolding BuildQuadraticConstraint_parts by (simp add: demo_square_clause_fields demo_square_integrality quadratic_comparison_def Let_def)
  have gap: "\<lceil>3 - 9 / 100 :: real\<rceil> = 3" by (simp add: ceiling_eq_iff)
  from strict_quadratic_gap [OF demo_square_quad(2,1,3) _ demo_square_quad(4) _ run, of "\<lambda>c. - 2"] run gap show ?thesis
    by (auto simp: demo_square_quad demo_square_clause_fields demo_square_fields Let_def power2_eq_square)
qed

section \<open>A query-wide term beside a reducer\<close>

text \<open>Two rows, \<open>s + SUM(POWER(x, 2)) \<le> 8\<close> with \<open>s\<close> one value for the whole query.\<close>

definition demo_beside_clause :: EvaluatedConstraint where
  "demo_beside_clause = ec_default\<lparr>ec_variable_indices := [Some 0], ec_row_coefficients := [MakeScalar 1 2],
     ec_linear_term_reductions := [RED_NONE], ec_lhs_is_aggregate := True,
     ec_quadratic_groups := [\<lparr>qg_sign = 1, qg_variable_indices = [Some 1], qg_row_coefficients = [MakeScalar 1 2]\<rparr>],
     ec_has_quadratic := True, ec_rhs_values := MakeScalar (Fin 8) 2,
     ec_comparison_type := COMPARE_LESSTHANOREQUALTO\<rparr>"

definition demo_beside :: SolverInput where
  "demo_beside = si_default\<lparr>si_num_rows := 2, si_num_decide_vars := 2, si_variable_types := [INTEGER, INTEGER],
     si_variable_scopes := [\<lparr>vs_scope = SCALAR, vs_entity_scope_idx = None\<rparr>,
                            \<lparr>vs_scope = ROW, vs_entity_scope_idx = None\<rparr>],
     si_constraints := [demo_beside_clause]\<rparr>"

lemma demo_beside_fields:
  "si_num_rows demo_beside = 2" "si_num_decide_vars demo_beside = 2"
  "si_variable_scopes demo_beside = [\<lparr>vs_scope = SCALAR, vs_entity_scope_idx = None\<rparr>,
     \<lparr>vs_scope = ROW, vs_entity_scope_idx = None\<rparr>]"
  by (simp_all add: demo_beside_def si_default_def)

lemma demo_beside_clause_fields:
  "ec_variable_indices demo_beside_clause = [Some 0]" "ec_row_coefficients demo_beside_clause = [MakeScalar 1 2]"
  "ec_linear_term_reductions demo_beside_clause = [RED_NONE]" "ec_bilinear_terms demo_beside_clause = []"
  "ec_quadratic_groups demo_beside_clause = [\<lparr>qg_sign = 1, qg_variable_indices = [Some 1],
     qg_row_coefficients = [MakeScalar 1 2]\<rparr>]"
  "ec_comparison_type demo_beside_clause = COMPARE_LESSTHANOREQUALTO"
  by (simp_all add: demo_beside_clause_def ec_default_def)

lemma demo_beside_columns:
  "Get (BuildIndexer demo_beside) 0 r = 2" "Get (BuildIndexer demo_beside) 1 r = r"
  by (simp_all add: Get_instance_of instance_of_def InstanceColumn_cases scope_of_def demo_beside_fields vars_of_def
      scalar_start_def entity_start_def row_vars_def entity_total_def upt_rec numeral_2_eq_2)

text \<open>
  A query-wide term beside a reducer counts once in a linear aggregate and once per row in a
  quadratic one: over two rows, the linear part of \<open>s + SUM(POWER(x, 2)) \<le> 8\<close> is \<open>2 * s\<close> in the
  quadratic row, where the linear rule reads the same term as \<open>s\<close>.
\<close>

theorem quadratic_scalar_per_row:
  "(\<exists>qc. BuildQuadraticConstraint (BuildIndexer demo_beside) demo_beside_clause [0, 1] (Fin 8) LHS_INTEGER = Inr qc \<and>
      lin_val (qc_linear_indices qc) (qc_linear_coefficients qc) x = Fin (2 * x 2)) \<and>
   agg_lhs demo_beside demo_beside_clause (at_flat demo_beside x) [0, 1] = Fin (x 2)"
  by (simp add: BuildQuadraticConstraint_def demo_beside_clause_fields quad_linear_term_def
      power_group_row_def group_term_def demo_beside_columns outer_product_def quadratic_comparison_def Let_def one_dbl_def
      zero_dbl_def hm_nonzero_def qc_default_def lin_val_def)
     (simp add: agg_lhs_def agg_term_def demo_beside_clause_fields counted_once_def scope_of_def demo_beside_fields
    at_flat_def demo_beside_columns sum_reduced_def)

end
