(* ===== verification/ExtremumLink.thy ===== *)
theory ExtremumLink
  imports Emission
begin

text \<open>
  The part of \<open>linearization_minmax.cpp\<close> and \<open>ilp_linearization.hpp\<close> every MIN/MAX construct ends
  in: a linking row \<open>result - expr\<close> accumulated column by column (\<open>MinMaxLinkRow\<close>), the members of a
  family, and \<open>EmitExtremumLink\<close>, which holds \<open>result\<close> at or beyond every member (the envelope),
  and ties it to one of them (the closing side), as a Big-M family or as a native general
  constraint.

  Shown: accumulation sums the coefficients per column and keeps each column once; the rows of an
  extremum link state exactly that \<open>result\<close> bounds the members, that some member reaches it within
  the Big-M, or that it is their maximum or minimum.
\<close>

section \<open>The policy\<close>

record NativeConstructPolicy =
  np_available :: bool
  np_forced :: bool

definition UseNative :: "NativeConstructPolicy \<Rightarrow> bool \<Rightarrow> bool" where
  "UseNative policy big_m_underivable \<longleftrightarrow> np_available policy \<and> (np_forced policy \<or> big_m_underivable)"

section \<open>Linking rows\<close>

record MinMaxLinkRow =
  mr_indices :: "idx list"
  mr_coefficients :: "dbl list"
  mr_constant :: dbl
  mr_column_slot :: "idx \<rightharpoonup> nat"

definition mr_default :: MinMaxLinkRow where
  "mr_default = \<lparr>mr_indices = [], mr_coefficients = [], mr_constant = 0, mr_column_slot = Map.empty\<rparr>"

definition AddColumn :: "idx \<Rightarrow> dbl \<Rightarrow> MinMaxLinkRow \<Rightarrow> MinMaxLinkRow" where
  "AddColumn col coefficient m =
     (case mr_column_slot m col of
        None \<Rightarrow> m\<lparr>mr_column_slot := (mr_column_slot m)(col \<mapsto> length (mr_indices m)),
                 mr_indices := mr_indices m @ [col],
                 mr_coefficients := mr_coefficients m @ [coefficient]\<rparr>
      | Some s \<Rightarrow> m\<lparr>mr_coefficients := (mr_coefficients m)[s := mr_coefficients m ! s + coefficient]\<rparr>)"

definition HasNoColumns :: "MinMaxLinkRow \<Rightarrow> bool" where
  "HasNoColumns m \<longleftrightarrow> list_all (\<lambda>c. \<not> \<bar>c\<bar> \<ge> Fin (1 / 10 ^ 15)) (mr_coefficients m)"

text \<open>The columns that survive: not below \<open>1e-15\<close>.\<close>

definition surviving_columns :: "MinMaxLinkRow \<Rightarrow> (idx \<times> dbl) list" where
  "surviving_columns m =
     filter (\<lambda>(k, c). \<not> \<bar>c\<bar> < Fin (1 / 10 ^ 15)) (zip (mr_indices m) (mr_coefficients m))"

definition AppendTo :: "MinMaxLinkRow \<Rightarrow> RawConstraint \<Rightarrow> RawConstraint" where
  "AppendTo m rc = rc\<lparr>rc_indices := rc_indices rc @ map fst (surviving_columns m),
                      rc_coefficients := rc_coefficients rc @ map snd (surviving_columns m)\<rparr>"

section \<open>Extremum links\<close>

record ExtremumMember =
  xm_link :: MinMaxLinkRow
  xm_range :: AuxRange

record ExtremumLinkSpec =
  xs_result_column :: idx
  xs_is_max :: bool
  xs_need_envelope :: bool
  xs_need_closing :: bool
  xs_closing_big_m :: dbl
  xs_closing_underivable :: bool
  xs_blame_var :: "idx option"
  xs_label :: string
  xs_envelope_kind :: ConstraintKind
  xs_closing_kind :: ConstraintKind
  xs_source_clause_id :: "idx option"
  xs_removal_group_id :: "idx option"

text \<open>\<open>result_column\<close> starts out invalid; every use assigns it.\<close>

definition xs_default :: ExtremumLinkSpec where
  "xs_default = \<lparr>xs_result_column = 0, xs_is_max = False, xs_need_envelope = False,
     xs_need_closing = False, xs_closing_big_m = 0, xs_closing_underivable = False,
     xs_blame_var = None, xs_label = [], xs_envelope_kind = STRUCTURAL,
     xs_closing_kind = STRUCTURAL, xs_source_clause_id = None, xs_removal_group_id = None\<rparr>"

definition ExtremumArgumentColumn :: "VarIndexer \<Rightarrow> string \<Rightarrow> idx option \<Rightarrow> idx option \<Rightarrow>
    ExtremumMember \<Rightarrow> SolverInput \<Rightarrow> SolverInput \<times> idx" where
  "ExtremumArgumentColumn vi label source_clause_id removal_group_id member input =
     (let renaming = (case surviving_columns (xm_link member) of
             [(k, c)] \<Rightarrow> if deq c (Fin (- 1)) \<and> deq (mr_constant (xm_link member)) 0 then Some k else None
           | _ \<Rightarrow> None)
      in case renaming of
           Some sole_column \<Rightarrow> (input, sole_column)
         | None \<Rightarrow>
             let (input, t_idx) = AddGlobalContinuousAux vi (xm_range member) 0 label input;
                 pin = (AppendTo (xm_link member)
                          (rc_default\<lparr>rc_indices := [t_idx], rc_coefficients := [1]\<rparr>))\<lparr>
                       rc_sense := Eq, rc_rhs := mr_constant (xm_link member), rc_kind := STRUCTURAL,
                       rc_source_clause_id := source_clause_id,
                       rc_removal_group_id := removal_group_id\<rparr>
             in (input\<lparr>si_global_constraints := si_global_constraints input @ [pin]\<rparr>, t_idx))"

definition envelope_row :: "ExtremumLinkSpec \<Rightarrow> ExtremumMember \<Rightarrow> RawConstraint" where
  "envelope_row spec member =
     (AppendTo (xm_link member)
        (rc_default\<lparr>rc_indices := [xs_result_column spec], rc_coefficients := [1]\<rparr>))\<lparr>
      rc_sense := (if xs_is_max spec then Ge else Le), rc_rhs := mr_constant (xm_link member),
      rc_kind := xs_envelope_kind spec, rc_source_clause_id := xs_source_clause_id spec,
      rc_removal_group_id := xs_removal_group_id spec\<rparr>"

definition closing_row :: "ExtremumLinkSpec \<Rightarrow> idx \<Rightarrow> ExtremumMember \<Rightarrow> RawConstraint" where
  "closing_row spec y_idx member =
     (let m_coeff = (if xs_is_max spec then xs_closing_big_m spec else - xs_closing_big_m spec);
          rc = AppendTo (xm_link member)
                 (rc_default\<lparr>rc_indices := [xs_result_column spec], rc_coefficients := [1]\<rparr>)
      in rc\<lparr>rc_indices := rc_indices rc @ [y_idx],
            rc_coefficients := rc_coefficients rc @ [m_coeff],
            rc_sense := (if xs_is_max spec then Le else Ge),
            rc_rhs := m_coeff + mr_constant (xm_link member),
            rc_kind := xs_closing_kind spec, rc_source_clause_id := xs_source_clause_id spec,
            rc_removal_group_id := xs_removal_group_id spec\<rparr>)"

definition sum_y_row :: "ExtremumLinkSpec \<Rightarrow> idx list \<Rightarrow> RawConstraint" where
  "sum_y_row spec ys = rc_default\<lparr>rc_indices := ys, rc_coefficients := map (\<lambda>_. 1) ys,
     rc_sense := Ge, rc_rhs := 1, rc_kind := xs_closing_kind spec,
     rc_source_clause_id := xs_source_clause_id spec,
     rc_removal_group_id := xs_removal_group_id spec\<rparr>"

text \<open>The three emissions: the envelope, the native general constraint, the Big-M family.\<close>

definition emit_envelope :: "ExtremumLinkSpec \<Rightarrow> ExtremumMember list \<Rightarrow> SolverInput \<Rightarrow> SolverInput" where
  "emit_envelope spec members input =
     fold (\<lambda>member input. input\<lparr>si_global_constraints :=
             si_global_constraints input @ [envelope_row spec member]\<rparr>) members input"

primrec emit_native :: "VarIndexer \<Rightarrow> ExtremumLinkSpec \<Rightarrow> ExtremumMember list \<Rightarrow> idx list \<Rightarrow>
    SolverInput \<Rightarrow> SolverInput" where
  "emit_native vi spec [] args input =
     input\<lparr>si_general_constraints := si_general_constraints input @
       [\<lparr>gc_kind = (if xs_is_max spec then GC_MAX else GC_MIN),
         gc_result_column = xs_result_column spec, gc_argument_columns = args,
         gc_source_clause_id = xs_source_clause_id spec, gc_repair_group_id = None,
         gc_removal_group_id = xs_removal_group_id spec\<rparr>]\<rparr>"
| "emit_native vi spec (member # members) args input =
     (let (input, c) = ExtremumArgumentColumn vi (xs_label spec) (xs_source_clause_id spec)
                         (xs_removal_group_id spec) member input
      in emit_native vi spec members (args @ [c]) input)"

primrec emit_closing :: "VarIndexer \<Rightarrow> ExtremumLinkSpec \<Rightarrow> ExtremumMember list \<Rightarrow> idx list \<Rightarrow>
    SolverInput \<Rightarrow> SolverInput" where
  "emit_closing vi spec [] ys input =
     input\<lparr>si_global_constraints := si_global_constraints input @ [sum_y_row spec ys]\<rparr>"
| "emit_closing vi spec (member # members) ys input =
     (let (input, y_idx) = AddGlobalBinaryAux vi 0 (xs_label spec) input;
          input = input\<lparr>si_global_constraints :=
                    si_global_constraints input @ [closing_row spec y_idx member]\<rparr>
      in emit_closing vi spec members (ys @ [y_idx]) input)"

definition EmitExtremumLink :: "VarIndexer \<Rightarrow> ExtremumLinkSpec \<Rightarrow> ExtremumMember list \<Rightarrow> string list \<Rightarrow>
    NativeConstructPolicy \<Rightarrow> SolverInput \<Rightarrow> SolverInput res" where
  "EmitExtremumLink vi spec members var_names policy input =
     (if members = [] then Inr input
      else
        let input = (if xs_need_envelope spec then emit_envelope spec members input else input)
        in if \<not> xs_need_closing spec then Inr input
           else if UseNative policy (xs_closing_underivable spec)
           then Inr (emit_native vi spec members [] input)
           else if xs_closing_underivable spec
           then Inl (ThrowUnboundedBigMNaming (xs_blame_var spec) var_names ''MIN/MAX'')
           else Inr (emit_closing vi spec members [] input))"

section \<open>Accumulation\<close>

text \<open>The slot map is the inverse of the index vector; every column occurs once.\<close>

definition link_inv :: "MinMaxLinkRow \<Rightarrow> bool" where
  "link_inv m \<longleftrightarrow> length (mr_coefficients m) = length (mr_indices m) \<and> distinct (mr_indices m) \<and>
     (\<forall>col s. mr_column_slot m col = Some s \<longleftrightarrow> s < length (mr_indices m) \<and> mr_indices m ! s = col)"

definition link_fin :: "MinMaxLinkRow \<Rightarrow> bool" where
  "link_fin m \<longleftrightarrow> list_all isfinite (mr_coefficients m)"

definition link_lin :: "MinMaxLinkRow \<Rightarrow> (idx \<Rightarrow> real) \<Rightarrow> real" where
  "link_lin m x = lin_real (mr_indices m) (mr_coefficients m) x"

lemma mr_default_inv [simp]: "link_inv mr_default" "link_fin mr_default" "link_lin mr_default x = 0"
  by (simp_all add: link_inv_def link_fin_def link_lin_def mr_default_def lin_real_def)

lemma AddColumn_None: "mr_column_slot m col = None \<Longrightarrow> AddColumn col c m =
    m\<lparr>mr_column_slot := (mr_column_slot m)(col \<mapsto> length (mr_indices m)),
      mr_indices := mr_indices m @ [col], mr_coefficients := mr_coefficients m @ [c]\<rparr>"
  and AddColumn_Some: "mr_column_slot m col = Some s \<Longrightarrow> AddColumn col c m =
    m\<lparr>mr_coefficients := (mr_coefficients m)[s := mr_coefficients m ! s + c]\<rparr>"
  by (simp_all add: AddColumn_def)

lemma link_inv_slot: "link_inv m \<Longrightarrow> mr_column_slot m col = Some s \<Longrightarrow> s < length (mr_indices m) \<and> mr_indices m ! s = col"
  by (simp add: link_inv_def)

lemma link_inv_fresh:
  assumes "link_inv m" "mr_column_slot m col = None"
  shows "col \<notin> set (mr_indices m)"
  using assms by (metis in_set_conv_nth link_inv_def option.distinct(1))

lemma AddColumn_inv:
  assumes "link_inv m"
  shows "link_inv (AddColumn col c m)"
proof (cases "mr_column_slot m col")
  case None
  note fresh = link_inv_fresh [OF assms None]
  have "(if col' = col then Some (length (mr_indices m)) else mr_column_slot m col') = Some s \<longleftrightarrow>
      s < Suc (length (mr_indices m)) \<and> (mr_indices m @ [col]) ! s = col'" for col' s
  proof (cases "s < length (mr_indices m)")
    case True
    then have "mr_indices m ! s \<noteq> col" using fresh nth_mem by metis
    with True assms show ?thesis by (auto simp: nth_append link_inv_def)
  next
    case False
    then have "mr_column_slot m col' \<noteq> Some s" using link_inv_slot [OF assms] by blast
    with False show ?thesis by (auto simp: nth_append less_Suc_eq)
  qed
  with fresh assms show ?thesis
    unfolding AddColumn_None [OF None] by (simp add: link_inv_def fun_upd_def)
next
  case (Some s)
  show ?thesis unfolding AddColumn_Some [OF Some] using assms by (simp add: link_inv_def)
qed

lemma AddColumn_indices:
  assumes "link_inv m"
  shows "set (mr_indices (AddColumn col c m)) = insert col (set (mr_indices m))"
proof (cases "mr_column_slot m col")
  case (Some s)
  with link_inv_slot [OF assms Some] show ?thesis by (auto simp: AddColumn_Some)
qed (simp add: AddColumn_None)

lemma AddColumn_constant [simp]: "mr_constant (AddColumn col c m) = mr_constant m"
  by (simp add: AddColumn_def split: option.splits)

lemma link_inv_length: "link_inv m \<Longrightarrow> length (mr_coefficients m) = length (mr_indices m)"
  by (simp add: link_inv_def)

lemma AddColumn_fin:
  assumes "link_inv m" "link_fin m" "isfinite c"
  shows "link_fin (AddColumn col c m)"
proof (cases "mr_column_slot m col")
  case None
  show ?thesis unfolding AddColumn_None [OF None] using assms by (simp add: link_fin_def)
next
  case (Some s)
  have s: "s < length (mr_coefficients m)" using link_inv_slot [OF assms(1) Some] link_inv_length [OF assms(1)] by simp
  then have "isfinite (mr_coefficients m ! s + c)"
    using assms(2,3) by (intro isfinite_plus) (simp_all add: link_fin_def list_all_length)
  with s assms(2) show ?thesis
    unfolding AddColumn_Some [OF Some] by (simp add: link_fin_def list_all_length nth_list_update)
qed

lemma lin_real_update:
  assumes "s < length is" "length cs = length is" "isfinite (cs ! s)" "isfinite c"
  shows "lin_real is (cs[s := cs ! s + c]) x = lin_real is cs x + rval c * x (is ! s)"
  using assms
proof (induction "is" arbitrary: s cs)
  case (Cons i "is")
  obtain b bs where cs: "cs = b # bs" using Cons.prems(2) by (cases cs) auto
  show ?case
  proof (cases s)
    case 0
    with Cons.prems show ?thesis by (simp add: cs lin_real_def rval_plus algebra_simps)
  next
    case (Suc k)
    with Cons.IH [of k bs] Cons.prems show ?thesis by (simp add: cs lin_real_def)
  qed
qed simp

lemma AddColumn_lin:
  assumes "link_inv m" "link_fin m" "isfinite c"
  shows "link_lin (AddColumn col c m) x = link_lin m x + rval c * x col"
proof (cases "mr_column_slot m col")
  case None
  with link_inv_length [OF assms(1)] show ?thesis by (simp add: link_lin_def AddColumn_None lin_real_def)
next
  case (Some s)
  then have s: "s < length (mr_indices m)" "mr_indices m ! s = col" using link_inv_slot [OF assms(1)] by simp_all
  moreover have "isfinite (mr_coefficients m ! s)"
    using link_inv_length [OF assms(1)] assms(2) s(1) by (simp add: link_fin_def list_all_length)
  ultimately show ?thesis
    using lin_real_update [of s "mr_indices m" "mr_coefficients m" c x] link_inv_length [OF assms(1)] assms(3)
    by (simp add: link_lin_def AddColumn_Some [OF Some])
qed

section \<open>The value of a member\<close>

definition member_value :: "ExtremumMember \<Rightarrow> (idx \<Rightarrow> real) \<Rightarrow> real" where
  "member_value m x = rval (mr_constant (xm_link m)) - link_lin (xm_link m) x"

definition member_ok :: "nat \<Rightarrow> ExtremumMember \<Rightarrow> bool" where
  "member_ok n m \<longleftrightarrow> link_inv (xm_link m) \<and> list_all crisp (mr_coefficients (xm_link m)) \<and>
     isfinite (mr_constant (xm_link m)) \<and> (\<forall>c \<in> set (mr_indices (xm_link m)). c < n)"

lemma member_ok_less: "member_ok n m \<Longrightarrow> n \<le> n' \<Longrightarrow> member_ok n' m"
  by (auto simp: member_ok_def)

lemma surviving_lin:
  assumes "list_all crisp cs"
  shows "lin_val (map fst (filter (\<lambda>(k, c). \<not> \<bar>c\<bar> < Fin (1 / 10 ^ 15)) (zip is cs)))
     (map snd (filter (\<lambda>(k, c). \<not> \<bar>c\<bar> < Fin (1 / 10 ^ 15)) (zip is cs))) x = Fin (lin_real is cs x)"
  using assms
proof (induction cs arbitrary: "is")
  case (Cons c cs)
  show ?case
  proof (cases "is")
    case (Cons i js)
    with Cons.IH [of js] Cons.prems show ?thesis
      by (auto simp: lin_val_def crisp_def negligible_def isfinite_iff zero_dbl_def)
  qed (simp add: lin_val_def zero_dbl_def)
qed (simp add: lin_val_def zero_dbl_def)

lemma surviving_val:
  assumes "member_ok n m"
  shows "lin_val (map fst (surviving_columns (xm_link m))) (map snd (surviving_columns (xm_link m))) x =
     Fin (link_lin (xm_link m) x)"
  unfolding surviving_columns_def link_lin_def
  by (rule surviving_lin) (use assms in \<open>simp add: member_ok_def\<close>)

lemma surviving_index:
  "member_ok n m \<Longrightarrow> c \<in> fst ` set (surviving_columns (xm_link m)) \<Longrightarrow> c < n"
  by (auto simp: surviving_columns_def member_ok_def dest: set_zip_leftD)

lemma link_lin_agree:
  assumes "member_ok n m" "agree_below n x x'"
  shows "link_lin (xm_link m) x' = link_lin (xm_link m) x"
  unfolding link_lin_def lin_real_def
  by (rule arg_cong [where f = sum_list], rule map_cong [OF refl])
     (use assms in \<open>auto simp: member_ok_def agree_below_def dest: set_zip_leftD\<close>)

lemma member_value_agree:
  "member_ok n m \<Longrightarrow> agree_below n x x' \<Longrightarrow> member_value m x' = member_value m x"
  by (simp add: member_value_def link_lin_agree)

text \<open>What a linking row over the result, and over a further column, asks.\<close>

lemma link_row_val:
  assumes "member_ok n m"
  shows "lin_val (z # map fst (surviving_columns (xm_link m))) (1 # map snd (surviving_columns (xm_link m))) x =
     Fin (x z + link_lin (xm_link m) x)"
  using surviving_val [OF assms, of x] by (simp add: lin_val_def)

definition beyond :: "ExtremumLinkSpec \<Rightarrow> ExtremumMember \<Rightarrow> (idx \<Rightarrow> real) \<Rightarrow> real" where
  "beyond spec m x = (if xs_is_max spec then x (xs_result_column spec) - member_value m x
                      else member_value m x - x (xs_result_column spec))"

lemma beyond_agree:
  "member_ok n m \<Longrightarrow> xs_result_column spec < n \<Longrightarrow> agree_below n x x' \<Longrightarrow> beyond spec m x' = beyond spec m x"
  using member_value_agree by (simp add: beyond_def) (simp add: agree_below_def)

lemma envelope_row_sat:
  assumes "member_ok n m"
  shows "sat_raw (envelope_row spec m) x \<longleftrightarrow> 0 \<le> beyond spec m x"
  using assms link_row_val [OF assms]
  by (auto simp: sat_raw_def envelope_row_def AppendTo_def rc_default_def beyond_def member_value_def
      member_ok_def isfinite_iff)

lemma closing_row_sat:
  assumes "member_ok n m" "xs_closing_big_m spec = Fin M"
  shows "sat_raw (closing_row spec y m) x \<longleftrightarrow> beyond spec m x \<le> M * (1 - x y)"
proof -
  let ?s = "surviving_columns (xm_link m)"
  obtain k where k: "mr_constant (xm_link m) = Fin k" using assms(1) by (auto simp: member_ok_def isfinite_iff)
  have "lin_val (z # map fst ?s @ [y]) (1 # map snd ?s @ [Fin c]) x =
      Fin (x z + link_lin (xm_link m) x + c * x y)" for z c
    using link_row_val [OF assms(1), of z x] lin_val_append [of "z # map fst ?s" "1 # map snd ?s" "[y]" "[Fin c]" x]
    by (simp add: lin_val_def zero_dbl_def)
  then show ?thesis
    by (auto simp: sat_raw_def closing_row_def AppendTo_def rc_default_def beyond_def member_value_def k
        assms(2) Let_def algebra_simps)
qed

lemma sum_y_row_sat: "sat_raw (sum_y_row spec ys) x \<longleftrightarrow> 1 \<le> (\<Sum>y\<leftarrow>ys. x y)"
proof -
  have "lin_val ys (map (\<lambda>_. 1) ys) x = Fin (\<Sum>y\<leftarrow>ys. x y)"
    by (induction ys) (simp_all add: lin_val_def zero_dbl_def)
  then show ?thesis by (simp add: sat_raw_def sum_y_row_def one_dbl_def)
qed

section \<open>The envelope and the Big-M family\<close>

definition envelope_holds :: "ExtremumLinkSpec \<Rightarrow> ExtremumMember list \<Rightarrow> (idx \<Rightarrow> real) \<Rightarrow> bool" where
  "envelope_holds spec members x \<longleftrightarrow> (\<forall>m \<in> set members. 0 \<le> beyond spec m x)"

definition closing_holds :: "ExtremumLinkSpec \<Rightarrow> ExtremumMember list \<Rightarrow> (idx \<Rightarrow> real) \<Rightarrow> bool" where
  "closing_holds spec members x \<longleftrightarrow>
     (\<exists>m \<in> set members. beyond spec m x \<le> 0) \<and>
     (\<forall>m \<in> set members. beyond spec m x \<le> rval (xs_closing_big_m spec))"

lemma emit_envelope_append: "emit_envelope spec members input = append_flat (map (envelope_row spec) members) [] input"
  unfolding emit_envelope_def
  by (induction members arbitrary: input) (simp_all add: append_flat_def)

lemma link_row_columns:
  assumes "member_ok n m" "xs_result_column spec < n"
  shows "\<forall>c \<in> set (rc_indices (envelope_row spec m)). c < n"
    and "y < n' \<Longrightarrow> n \<le> n' \<Longrightarrow> \<forall>c \<in> set (rc_indices (closing_row spec y m)). c < n'"
  using assms(2) surviving_index [OF assms(1)]
  by (fastforce simp: envelope_row_def closing_row_def AppendTo_def rc_default_def Let_def)+

lemma emit_envelope_states:
  assumes "well_formed vi input" "\<forall>m \<in> set members. member_ok (columns_end vi input) m"
    and "xs_result_column spec < columns_end vi input"
  shows "states vi A (envelope_holds spec members) input (emit_envelope spec members input)"
proof -
  have "states vi A (\<lambda>x. (\<forall>rc \<in> set (map (envelope_row spec) members). sat_raw rc x) \<and> (\<forall>gc \<in> set []. sat_general gc x))
      input (append_flat (map (envelope_row spec) members) [] input)"
    by (rule states_append [OF assms(1)]) (use link_row_columns(1) [OF _ assms(3)] assms(2) in auto)
  moreover have "sat_raw (envelope_row spec m) x \<longleftrightarrow> 0 \<le> beyond spec m x" if "m \<in> set members" for m x
    using assms(2) that envelope_row_sat by blast
  ultimately show ?thesis
    unfolding emit_envelope_append by (elim states_cong) (simp add: envelope_holds_def)
qed

definition closing_left :: "ExtremumLinkSpec \<Rightarrow> real \<Rightarrow> ExtremumMember list \<Rightarrow> idx list \<Rightarrow> (idx \<Rightarrow> real) \<Rightarrow> bool" where
  "closing_left spec M members ys x \<longleftrightarrow> (\<forall>m \<in> set members. beyond spec m x \<le> M) \<and>
     (1 \<le> (\<Sum>y\<leftarrow>ys. x y) \<or> (\<exists>m \<in> set members. beyond spec m x \<le> 0))"

lemma closing_left_columns:
  assumes "\<forall>m \<in> set members. member_ok n m" "xs_result_column spec < n" "\<forall>y \<in> set ys. y < n"
  shows "on_columns n (closing_left spec M members ys)"
proof -
  have "closing_left spec M members ys x' = closing_left spec M members ys x" if "agree_below n x x'" for x x'
  proof -
    have "map x' ys = map x ys" using assms(3) that by (simp add: agree_below_def)
    moreover have "beyond spec m x' = beyond spec m x" if "m \<in> set members" for m
      using assms(1,2) that \<open>agree_below n x x'\<close> beyond_agree by blast
    ultimately show ?thesis unfolding closing_left_def by (simp cong: ball_cong bex_cong del: map_eq_conv)
  qed
  then show ?thesis by (simp add: on_columns_def)
qed

text \<open>A sum of binaries is at least 1 or 0.\<close>

lemma binary_sum:
  assumes "\<forall>y \<in> set ys. x y = 0 \<or> x y = (1 :: real)"
  shows "1 \<le> (\<Sum>y\<leftarrow>ys. x y) \<or> (\<Sum>y\<leftarrow>ys. x y) = 0" "0 \<le> (\<Sum>y\<leftarrow>ys. x y)"
  using assms by (induction ys) auto

lemma emit_closing_states:
  assumes "well_formed vi input" "\<forall>m \<in> set members. member_ok (columns_end vi input) m"
    and "xs_result_column spec < columns_end vi input" "xs_closing_big_m spec = Fin M" "0 \<le> M"
    and "\<forall>y \<in> set ys. y < columns_end vi input" "on_columns (columns_end vi input) A"
    and "\<And>x. A x \<Longrightarrow> \<forall>y \<in> set ys. x y = 0 \<or> x y = 1"
  shows "states vi A (closing_left spec M members ys) input (emit_closing vi spec members ys input)"
  using assms
proof (induction members arbitrary: ys input A)
  case Nil
  have "states vi A (sat_raw (sum_y_row spec ys)) input (append_flat [sum_y_row spec ys] [] input)"
    by (rule states_append_row [OF Nil.prems(1)]) (use Nil.prems(6) in \<open>simp add: sum_y_row_def\<close>)
  then show ?case
    by (auto simp: append_flat_def sum_y_row_sat closing_left_def elim: states_cong)
next
  case (Cons m members)
  let ?y = "columns_end vi input"
  obtain mid z where add: "AddGlobalBinaryAux vi 0 (xs_label spec) input = (mid, z)" by force
  note facts = add_binary_facts [OF add]
  have ok: "globals_ok input" using Cons.prems(1) by (simp add: well_formed_def)
  have z: "z = ?y" and ends: "columns_end vi mid = Suc ?y" using facts(2,3) by (simp_all add: columns_end_def)
  have wf: "well_formed vi mid"
    using Cons.prems(1) add_binary_ok [OF add ok] facts ends
    by (auto simp: well_formed_def input_columns_def less_Suc_eq)
  define mid' where "mid' = append_flat [closing_row spec ?y m] [] mid"
  define B where "B x \<longleftrightarrow> A x \<and> (x ?y = 0 \<or> x ?y = 1)" for x
  have ends': "columns_end vi mid' = Suc ?y" using ends by (simp add: mid'_def append_flat_def columns_end_def)
  have mem: "member_ok ?y m'" "member_ok (Suc ?y) m'" if "m' \<in> set (m # members)" for m'
    using Cons.prems(2) that member_ok_less [of ?y m' "Suc ?y"] by auto
  have B: "on_columns (Suc ?y) B"
    unfolding B_def by (rule on_columns_Suc [OF Cons.prems(7)])
  have row: "states vi B (sat_raw (closing_row spec ?y m)) mid mid'"
    unfolding mid'_def
    by (rule states_append_row [OF wf]) (use link_row_columns(2) [OF mem(1) [of m] Cons.prems(3), of ?y "Suc ?y"] in \<open>simp add: ends\<close>)
  have rest: "states vi B (closing_left spec M members (ys @ [?y])) mid' (emit_closing vi spec members (ys @ [?y]) mid')"
  proof (rule Cons.IH)
    show "well_formed vi mid'" using row by (simp add: states_def)
    show "on_columns (columns_end vi mid') B" using B by (simp only: ends')
  qed (use Cons.prems(3-6,8) mem(2) in \<open>auto simp: ends' B_def less_Suc_eq\<close>)
  have "states vi B (\<lambda>x. sat_raw (closing_row spec ?y m) x \<and> closing_left spec M members (ys @ [?y]) x) mid
      (emit_closing vi spec members (ys @ [?y]) mid')"
    by (rule states_trans_columns [OF row rest])
       (use B Cons.prems(3,6) mem(2) in \<open>auto simp: ends less_Suc_eq intro!: closing_left_columns\<close>)
  from states_fresh [OF Cons.prems(1) facts(1,3) add_binary_ok(2) [OF add ok] facts(4-6) this, of A]
  have st: "states vi A (\<lambda>x. \<exists>v. (v = 0 \<or> v = 1) \<and> sat_raw (closing_row spec ?y m) (x(?y := v)) \<and>
      closing_left spec M members (ys @ [?y]) (x(?y := v))) input (emit_closing vi spec members (ys @ [?y]) mid')"
    by (simp add: add_binary_column [OF add ok] B_def on_columns_upd [OF Cons.prems(7)])
  have step: "emit_closing vi spec (m # members) ys input = emit_closing vi spec members (ys @ [?y]) mid'"
    by (simp add: add z mid'_def append_flat_def)
  have hide: "(\<exists>v. (v = 0 \<or> v = 1) \<and> sat_raw (closing_row spec ?y m) (x(?y := v)) \<and>
      closing_left spec M members (ys @ [?y]) (x(?y := v))) \<longleftrightarrow> closing_left spec M (m # members) ys x" if "A x" for x
  proof -
    have same: "beyond spec m' (x(?y := v)) = beyond spec m' x" if "m' \<in> set (m # members)" for m' v
      by (rule beyond_agree [OF mem(1) [OF that] Cons.prems(3)]) (simp add: agree_below_def)
    have sum: "(\<Sum>y\<leftarrow>ys. if y = ?y then v else x y) = sum_list (map x ys)" for v
      by (rule arg_cong [where f = sum_list], rule map_cong [OF refl]) (use Cons.prems(6) in auto)
    note bin = binary_sum [of ys x, OF Cons.prems(8) [OF that]]
    have "closing_left spec M members (ys @ [?y]) (x(?y := v)) \<longleftrightarrow>
        (\<forall>m' \<in> set members. beyond spec m' x \<le> M) \<and>
        (1 \<le> (\<Sum>y\<leftarrow>ys. x y) + v \<or> (\<exists>m' \<in> set members. beyond spec m' x \<le> 0))" for v
      by (simp add: closing_left_def sum same)
    then show ?thesis
      using bin Cons.prems(5) same [of m]
      by (auto simp: closing_row_sat [OF mem(1) Cons.prems(4)] closing_left_def)
  qed
  show ?case unfolding step by (rule states_cong [OF st hide])
qed

section \<open>The native arm\<close>

text \<open>A continuous column with the box of a range admits every value of the range.\<close>

lemma add_continuous_facts:
  assumes "AddGlobalContinuousAux vi rg obj label input = (input', z)"
  shows "base_of input' = base_of input" "z = columns_end vi input"
    "si_num_global_vars input' = Suc (si_num_global_vars input)"
    "si_global_constraints input' = si_global_constraints input"
    "si_indicator_constraints input' = si_indicator_constraints input"
    "si_general_constraints input' = si_general_constraints input"
  using assms
  by (auto simp: AddGlobalContinuousAux_def Let_def base_of_def columns_end_def LabelGlobalAux_def)

lemma add_continuous_ok:
  assumes "AddGlobalContinuousAux vi rg obj label input = (input', z)" "globals_ok input"
  shows "globals_ok input'" "keeps_columns input input'"
  using cont.alloc_ok [OF assms(2), of vi "(rg, obj, label)"] cont.alloc_columns [OF assms(2), of vi "(rg, obj, label)"]
  by (simp_all add: assms(1))

lemma add_continuous_admits:
  assumes "AddGlobalContinuousAux vi rg obj label input = (input', z)" "globals_ok input" "range_has rg v"
  shows "column_admits input' (si_num_global_vars input) v"
  using assms
  by (auto simp: AddGlobalContinuousAux_def Let_def column_admits_def globals_ok_def nth_append range_has_def)

lemma add_continuous_wf:
  assumes "well_formed vi input" "AddGlobalContinuousAux vi rg obj label input = (input', z)"
  shows "well_formed vi input'" "columns_end vi input' = Suc (columns_end vi input)"
proof -
  note facts = add_continuous_facts [OF assms(2)]
  show e: "columns_end vi input' = Suc (columns_end vi input)" using facts(2,3) by (simp add: columns_end_def)
  have "globals_ok input'" using add_continuous_ok(1) [OF assms(2)] assms(1) by (simp add: well_formed_def)
  then show "well_formed vi input'"
    using assms(1) e by (auto simp: well_formed_def input_columns_def facts(4-6) less_Suc_eq)
qed

definition renamed_column :: "ExtremumMember \<Rightarrow> idx option" where
  "renamed_column m = (case surviving_columns (xm_link m) of
     [(k, c)] \<Rightarrow> if deq c (Fin (- 1)) \<and> deq (mr_constant (xm_link m)) 0 then Some k else None
   | _ \<Rightarrow> None)"

definition pin_row :: "idx option \<Rightarrow> idx option \<Rightarrow> idx \<Rightarrow> ExtremumMember \<Rightarrow> RawConstraint" where
  "pin_row clause removal t m =
     (AppendTo (xm_link m) (rc_default\<lparr>rc_indices := [t], rc_coefficients := [1]\<rparr>))\<lparr>
        rc_sense := Eq, rc_rhs := mr_constant (xm_link m), rc_kind := STRUCTURAL,
        rc_source_clause_id := clause, rc_removal_group_id := removal\<rparr>"

lemma ExtremumArgumentColumn_cases:
  "ExtremumArgumentColumn vi label clause removal m input =
     (case renamed_column m of
        Some k \<Rightarrow> (input, k)
      | None \<Rightarrow> let (mid, t) = AddGlobalContinuousAux vi (xm_range m) 0 label input
                in (append_flat [pin_row clause removal t m] [] mid, t))"
  by (simp add: ExtremumArgumentColumn_def renamed_column_def pin_row_def append_flat_def Let_def
      split: option.splits prod.splits)

lemma renamed_column_value:
  assumes "renamed_column m = Some k" "member_ok n m"
  shows "member_value m x = x k" "k < n"
proof -
  from assms(1) obtain c where c: "surviving_columns (xm_link m) = [(k, c)]" "deq c (Fin (- 1))"
    "deq (mr_constant (xm_link m)) 0"
    by (auto simp: renamed_column_def split: list.splits if_splits prod.splits)
  then have "c = Fin (- 1)" "mr_constant (xm_link m) = Fin 0" by (simp_all add: deq_def zero_dbl_def)
  with c(1) surviving_val [OF assms(2), of x] surviving_index [OF assms(2), of k]
  show "member_value m x = x k" "k < n" by (simp_all add: member_value_def lin_val_def zero_dbl_def)
qed

lemma pin_row_sat:
  assumes "member_ok n m"
  shows "sat_raw (pin_row clause removal t m) x \<longleftrightarrow> x t = member_value m x"
  using assms link_row_val [OF assms, of t x]
  by (auto simp: sat_raw_def pin_row_def AppendTo_def rc_default_def member_value_def member_ok_def isfinite_iff
      deq_def)

lemma pin_row_columns:
  "member_ok n m \<Longrightarrow> t < n' \<Longrightarrow> n \<le> n' \<Longrightarrow> \<forall>c \<in> set (rc_indices (pin_row clause removal t m)). c < n'"
  using surviving_index [of n m] by (fastforce simp: pin_row_def AppendTo_def rc_default_def)

definition native_left :: "ExtremumLinkSpec \<Rightarrow> ExtremumMember list \<Rightarrow> idx list \<Rightarrow> (idx \<Rightarrow> real) \<Rightarrow> bool" where
  "native_left spec members args x \<longleftrightarrow> (let vs = x ` set args \<union> (\<lambda>m. member_value m x) ` set members
     in vs \<noteq> {} \<and> x (xs_result_column spec) = (if xs_is_max spec then Max vs else Min vs))"

lemma native_left_columns:
  assumes "\<forall>m \<in> set members. member_ok n m" "xs_result_column spec < n" "\<forall>y \<in> set args. y < n"
  shows "on_columns n (native_left spec members args)"
proof -
  have "native_left spec members args x' = native_left spec members args x" if "agree_below n x x'" for x x'
  proof -
    have "x' ` set args = x ` set args" using assms(3) that by (auto simp: agree_below_def image_iff)
    moreover have "(\<lambda>m. member_value m x') ` set members = (\<lambda>m. member_value m x) ` set members"
      using assms(1) member_value_agree [OF _ that] by (intro image_cong) auto
    moreover have "x' (xs_result_column spec) = x (xs_result_column spec)" using assms(2) that by (simp add: agree_below_def)
    ultimately show ?thesis by (simp only: native_left_def)
  qed
  then show ?thesis by (simp add: on_columns_def)
qed

lemma emit_native_states:
  assumes "well_formed vi input" "\<forall>m \<in> set members. member_ok (columns_end vi input) m"
    and "xs_result_column spec < columns_end vi input"
    and "\<forall>y \<in> set args. y < columns_end vi input" "on_columns (columns_end vi input) A"
    and "\<And>x. A x \<Longrightarrow> \<forall>m \<in> set members. renamed_column m = None \<longrightarrow> range_has (xm_range m) (member_value m x)"
  shows "states vi A (native_left spec members args) input (emit_native vi spec members args input)"
  using assms
proof (induction members arbitrary: args input A)
  case Nil
  let ?gc = "\<lparr>gc_kind = (if xs_is_max spec then GC_MAX else GC_MIN), gc_result_column = xs_result_column spec,
    gc_argument_columns = args, gc_source_clause_id = xs_source_clause_id spec, gc_repair_group_id = None,
    gc_removal_group_id = xs_removal_group_id spec\<rparr>"
  have "states vi A (sat_general ?gc) input (append_flat [] [?gc] input)"
    by (rule states_append_general [OF Nil.prems(1)]) (use Nil.prems(3,4) in simp_all)
  then have "states vi A (native_left spec [] args) input (append_flat [] [?gc] input)"
    by (rule states_cong) (auto simp: native_left_def Let_def)
  then show ?case by (simp add: append_flat_def)
next
  case (Cons m members)
  let ?t = "columns_end vi input"
  note m = Cons.prems(2) [rule_format, of m, simplified]
  show ?case
  proof (cases "renamed_column m")
    case (Some k)
    have "native_left spec members (args @ [k]) = native_left spec (m # members) args"
      using renamed_column_value(1) [OF Some m] by (simp add: native_left_def fun_eq_iff)
    moreover have "states vi A (native_left spec members (args @ [k])) input (emit_native vi spec members (args @ [k]) input)"
      using Cons.prems renamed_column_value(2) [OF Some m] by (intro Cons.IH) auto
    ultimately show ?thesis by (simp add: ExtremumArgumentColumn_cases Some)
  next
    case None
    obtain mid z where add: "AddGlobalContinuousAux vi (xm_range m) 0 (xs_label spec) input = (mid, z)" by force
    note facts = add_continuous_facts [OF add] and wf = add_continuous_wf [OF Cons.prems(1) add]
    have ok: "globals_ok input" using Cons.prems(1) by (simp add: well_formed_def)
    define pin where "pin = pin_row (xs_source_clause_id spec) (xs_removal_group_id spec) ?t m"
    define mid' where "mid' = append_flat [pin] [] mid"
    have ends': "columns_end vi mid' = Suc ?t" using wf(2) by (simp add: mid'_def append_flat_def columns_end_def)
    have mem: "member_ok (Suc ?t) m'" if "m' \<in> set (m # members)" for m'
      using Cons.prems(2) that member_ok_less [of ?t m' "Suc ?t"] by auto
    have A: "on_columns (Suc ?t) A" using on_columns_Suc [OF Cons.prems(5), of "\<lambda>_. True"] by simp
    have row: "states vi A (sat_raw pin) mid mid'"
      unfolding mid'_def pin_def
      by (rule states_append_row [OF wf(1)]) (use pin_row_columns [OF m, of ?t "Suc ?t"] in \<open>simp add: wf(2)\<close>)
    have rest: "states vi A (native_left spec members (args @ [?t])) mid' (emit_native vi spec members (args @ [?t]) mid')"
    proof (rule Cons.IH)
      show "well_formed vi mid'" using row by (simp add: states_def)
    qed (use Cons.prems(3,4,6) A mem in \<open>auto simp: ends' less_Suc_eq\<close>)
    have "states vi A (\<lambda>x. sat_raw pin x \<and> native_left spec members (args @ [?t]) x) mid
        (emit_native vi spec members (args @ [?t]) mid')"
      by (rule states_trans_columns [OF row rest])
         (use A Cons.prems(3,4) mem in \<open>auto simp: wf(2) less_Suc_eq intro!: native_left_columns\<close>)
    from states_fresh [OF Cons.prems(1) facts(1,3) add_continuous_ok(2) [OF add ok] facts(4-6) this, of A]
    have st: "states vi A (\<lambda>x. \<exists>v. column_admits mid (si_num_global_vars input) v \<and> sat_raw pin (x(?t := v)) \<and>
        native_left spec members (args @ [?t]) (x(?t := v))) input (emit_native vi spec members (args @ [?t]) mid')"
      by (simp add: on_columns_upd [OF Cons.prems(5)])
    have step: "emit_native vi spec (m # members) args input = emit_native vi spec members (args @ [?t]) mid'"
      by (simp add: ExtremumArgumentColumn_cases None add facts(2) mid'_def pin_def)
    have hide: "(\<exists>v. column_admits mid (si_num_global_vars input) v \<and> sat_raw pin (x(?t := v)) \<and>
        native_left spec members (args @ [?t]) (x(?t := v))) \<longleftrightarrow> native_left spec (m # members) args x" if "A x" for x
    proof -
      let ?v = "member_value m x"
      have same: "member_value m' (x(?t := v)) = member_value m' x" if "m' \<in> set (m # members)" for m' v
        using Cons.prems(2) that by (intro member_value_agree [of ?t]) (auto simp: agree_below_def)
      have "column_admits mid (si_num_global_vars input) ?v"
        using Cons.prems(6) [OF that] None by (intro add_continuous_admits [OF add ok]) simp
      moreover have "sat_raw pin (x(?t := v)) \<longleftrightarrow> v = ?v" for v
        using pin_row_sat [OF m] same [of m] by (simp add: pin_def)
      moreover have "native_left spec members (args @ [?t]) (x(?t := ?v)) = native_left spec (m # members) args x"
      proof -
        have "(x(?t := ?v)) ` set (args @ [?t]) = insert ?v (x ` set args)" using Cons.prems(4) by (auto simp: image_iff)
        moreover have "(\<lambda>m'. member_value m' (x(?t := ?v))) ` set members = (\<lambda>m'. member_value m' x) ` set members"
          by (intro image_cong) (simp_all add: same)
        ultimately show ?thesis using Cons.prems(3) unfolding native_left_def by simp
      qed
      ultimately show ?thesis by auto
    qed
    show ?thesis unfolding step by (rule states_cong [OF st hide])
  qed
qed

section \<open>The whole link\<close>

definition link_holds :: "NativeConstructPolicy \<Rightarrow> ExtremumLinkSpec \<Rightarrow> ExtremumMember list \<Rightarrow> (idx \<Rightarrow> real) \<Rightarrow> bool" where
  "link_holds policy spec members x \<longleftrightarrow> members \<noteq> [] \<longrightarrow>
     (xs_need_envelope spec \<longrightarrow> envelope_holds spec members x) \<and>
     (xs_need_closing spec \<longrightarrow>
        (if UseNative policy (xs_closing_underivable spec) then native_left spec members [] x
         else closing_holds spec members x))"

definition link_ready :: "nat \<Rightarrow> ((idx \<Rightarrow> real) \<Rightarrow> bool) \<Rightarrow> NativeConstructPolicy \<Rightarrow> ExtremumLinkSpec \<Rightarrow>
    ExtremumMember list \<Rightarrow> bool" where
  "link_ready n A policy spec members \<longleftrightarrow>
     xs_result_column spec < n \<and> on_columns n A \<and> (\<forall>m \<in> set members. member_ok n m) \<and>
     (if UseNative policy (xs_closing_underivable spec)
      then \<forall>x. A x \<longrightarrow> (\<forall>m \<in> set members. renamed_column m = None \<longrightarrow> range_has (xm_range m) (member_value m x))
      else \<exists>M \<ge> 0. xs_closing_big_m spec = Fin M)"

lemma closing_left_start:
  "members \<noteq> [] \<Longrightarrow> xs_closing_big_m spec = Fin M \<Longrightarrow> closing_left spec M members [] x = closing_holds spec members x"
  by (auto simp: closing_left_def closing_holds_def)

lemma EmitExtremumLink_states:
  assumes run: "EmitExtremumLink vi spec members var_names policy input = Inr out"
    and wf: "well_formed vi input" and ready: "link_ready (columns_end vi input) A policy spec members"
  shows "states vi A (link_holds policy spec members) input out"
proof (cases "members = []")
  case True
  then have "link_holds policy spec members = (\<lambda>x. True)" by (simp add: link_holds_def fun_eq_iff)
  with True show ?thesis
    using run states_refl [OF wf] by (simp add: EmitExtremumLink_def)
next
  case False
  let ?n = "columns_end vi input"
  define mid where "mid = (if xs_need_envelope spec then emit_envelope spec members input else input)"
  define closing where "closing x \<longleftrightarrow> (xs_need_closing spec \<longrightarrow>
      (if UseNative policy (xs_closing_underivable spec) then native_left spec members [] x
       else closing_holds spec members x))" for x
  note ready = ready [unfolded link_ready_def]
  have result: "xs_result_column spec < ?n" and A: "on_columns ?n A" and ok: "\<forall>m \<in> set members. member_ok ?n m"
    using ready by simp_all
  have one: "states vi A (\<lambda>x. xs_need_envelope spec \<longrightarrow> envelope_holds spec members x) input mid"
    using emit_envelope_states [OF wf ok result] states_refl [OF wf] by (simp add: mid_def)
  have wf_mid: "well_formed vi mid" using one by (simp add: states_def)
  have ends: "columns_end vi mid = ?n" by (simp add: mid_def emit_envelope_append append_flat_def columns_end_def)
  have two: "states vi A closing mid out"
  proof (cases "xs_need_closing spec")
    case no: False
    with run False have "out = mid" by (simp add: EmitExtremumLink_def mid_def Let_def)
    moreover have "closing = (\<lambda>x. True)" using no by (simp add: closing_def fun_eq_iff)
    ultimately show ?thesis using states_refl [OF wf_mid] by simp
  next
    case need: True
    show ?thesis
    proof (cases "UseNative policy (xs_closing_underivable spec)")
      case True
      then have "out = emit_native vi spec members [] mid"
        using run False need by (simp add: EmitExtremumLink_def mid_def Let_def)
      moreover have "closing = native_left spec members []" using True need by (simp add: closing_def fun_eq_iff)
      ultimately show ?thesis
        using emit_native_states [OF wf_mid, of members spec "[]" A] ok result A ready True by (simp add: ends)
    next
      case lowered: False
      then obtain M where M: "0 \<le> M" "xs_closing_big_m spec = Fin M" using ready by auto
      from lowered have "out = emit_closing vi spec members [] mid"
        using run False need by (simp add: EmitExtremumLink_def mid_def Let_def split: if_splits)
      moreover have "closing = closing_left spec M members []"
        using lowered need closing_left_start [OF False M(2)] by (simp add: closing_def fun_eq_iff)
      ultimately show ?thesis
        using emit_closing_states [OF wf_mid, of members spec M "[]" A] ok result A M by (simp add: ends)
    qed
  qed
  have "on_columns ?n closing"
  proof (cases "xs_need_closing spec")
    case need: True
    show ?thesis
    proof (cases "UseNative policy (xs_closing_underivable spec)")
      case True
      with need native_left_columns [OF ok result, of "[]"] show ?thesis by (simp add: closing_def [abs_def])
    next
      case lowered: False
      then obtain M where M: "xs_closing_big_m spec = Fin M" using ready by auto
      with lowered need closing_left_columns [OF ok result, of "[]" M] closing_left_start [OF False M]
      show ?thesis by (simp add: closing_def [abs_def] on_columns_def)
    qed
  qed (simp add: closing_def [abs_def] on_columns_def)
  from states_trans_columns [OF one two A this] show ?thesis
    by (rule states_cong) (simp add: link_holds_def closing_def False)
qed

lemma EmitExtremumLink_total:
  "members = [] \<or> \<not> xs_need_closing spec \<or> \<not> xs_closing_underivable spec \<or> np_available policy \<Longrightarrow>
     \<exists>out. EmitExtremumLink vi spec members var_names policy input = Inr out"
  by (auto simp: EmitExtremumLink_def Let_def UseNative_def)

text \<open>With both sides, the result is the extremum; with one, it is bounded by it on that side.\<close>

definition extremum :: "bool \<Rightarrow> real set \<Rightarrow> real" where
  "extremum is_max vs = (if is_max then Max vs else Min vs)"

lemma envelope_extremum:
  assumes "members \<noteq> []"
  shows "envelope_holds spec members x \<longleftrightarrow>
    (if xs_is_max spec then extremum True ((\<lambda>m. member_value m x) ` set members) \<le> x (xs_result_column spec)
     else x (xs_result_column spec) \<le> extremum False ((\<lambda>m. member_value m x) ` set members))"
  using assms by (auto simp: envelope_holds_def extremum_def beyond_def)

lemma closing_extremum:
  assumes "members \<noteq> []"
    and "\<forall>m \<in> set members. \<forall>m' \<in> set members. \<bar>member_value m x - member_value m' x\<bar> \<le> rval (xs_closing_big_m spec)"
  shows "closing_holds spec members x \<longleftrightarrow>
    (if xs_is_max spec then x (xs_result_column spec) \<le> extremum True ((\<lambda>m. member_value m x) ` set members)
     else extremum False ((\<lambda>m. member_value m x) ` set members) \<le> x (xs_result_column spec))"
proof -
  have "beyond spec m' x \<le> rval (xs_closing_big_m spec)"
    if "m \<in> set members" "beyond spec m x \<le> 0" "m' \<in> set members" for m m'
    using bspec [OF bspec [OF assms(2) that(1)] that(3)] that(2) by (auto simp: beyond_def split: if_splits)
  then have "closing_holds spec members x \<longleftrightarrow> (\<exists>m \<in> set members. beyond spec m x \<le> 0)"
    by (auto simp: closing_holds_def)
  also have "\<dots> \<longleftrightarrow> (if xs_is_max spec then x (xs_result_column spec) \<le> extremum True ((\<lambda>m. member_value m x) ` set members)
     else extremum False ((\<lambda>m. member_value m x) ` set members) \<le> x (xs_result_column spec))"
    using assms(1) by (auto simp: extremum_def beyond_def Max_ge_iff Min_le_iff)
  finally show ?thesis .
qed

lemma native_extremum:
  "members \<noteq> [] \<Longrightarrow> native_left spec members [] x \<longleftrightarrow>
     x (xs_result_column spec) = extremum (xs_is_max spec) ((\<lambda>m. member_value m x) ` set members)"
  by (simp add: native_left_def extremum_def Let_def)

end
