(* ===== verification/MinMaxConstraints.thy ===== *)
theory MinMaxConstraints
  imports ExtremumLink
begin

text \<open>
  The hard MIN/MAX clauses of \<open>linearization_minmax.cpp\<close>: \<open>ClassifyMinMaxGroups\<close> settles the groups
  with an infinite bound, \<open>BuildMinMaxGroups\<close> gathers each group's members and their reach, and
  \<open>LinearizeMinMaxConstraints\<close> replaces the clause by an extremum column per group, the rows that
  pin it, and the user's bound as one row over it.

  Shown here: what the classification and the grouping leave, group by group. The theory
  \<open>MinMaxExact\<close> proves the whole pass exact.
\<close>

section \<open>Infinite bounds\<close>

datatype MinMaxBoundKind = LINEARIZE | VACUOUS | NO_SOLUTION

definition ClassifyMinMaxBound :: "dbl \<Rightarrow> bool \<Rightarrow> MinMaxBoundKind" where
  "ClassifyMinMaxBound bound is_max_agg =
     (if \<not> isinf bound then LINEARIZE
      else if (bound > 0) = is_max_agg then NO_SOLUTION else VACUOUS)"

definition mm_group_count :: "EvaluatedConstraint \<Rightarrow> nat" where
  "mm_group_count ec = (if ec_row_group_ids ec \<noteq> [] then max (ec_num_groups ec) 1 else 1)"

text \<open>A loop over the rows that updates the entry of the row's group.\<close>

definition by_group :: "EvaluatedConstraint \<Rightarrow> (idx \<Rightarrow> 'a \<Rightarrow> 'a) \<Rightarrow> nat \<Rightarrow> 'a list \<Rightarrow> 'a list" where
  "by_group ec f num_rows entries =
     fold (\<lambda>r entries. case group_of ec r of
             None \<Rightarrow> entries
           | Some g \<Rightarrow> if g \<ge> mm_group_count ec then entries else entries[g := f r (entries ! g)])
       [0..<num_rows] entries"

definition mask_groups :: "nat \<Rightarrow> (idx \<Rightarrow> bool) \<Rightarrow> idx option list \<Rightarrow> idx option list" where
  "mask_groups num_rows keep ids =
     fold (\<lambda>r ids. case ids ! r of None \<Rightarrow> ids | Some g \<Rightarrow> if \<not> keep g then ids[r := None] else ids)
       [0..<num_rows] ids"

definition ClassifyMinMaxGroups :: "EvaluatedConstraint \<Rightarrow> nat \<Rightarrow> bool \<Rightarrow> EvaluatedConstraint list \<Rightarrow>
    bool \<times> EvaluatedConstraint \<times> EvaluatedConstraint list" where
  "ClassifyMinMaxGroups ec num_rows is_max_agg new_constraints =
     (let count = mm_group_count ec;
          marks = by_group ec (\<lambda>r _. (ClassifyMinMaxBound (DecideRowEffectiveBound ec r) is_max_agg, True))
                    num_rows (replicate count (LINEARIZE, False));
          any = (\<lambda>k. list_ex (\<lambda>(group_kind, group_active). group_active \<and> group_kind = k) marks);
          kind_at = (\<lambda>g. fst (marks ! g))
      in if any VACUOUS \<or> any NO_SOLUTION then
           let ec = (if ec_row_group_ids ec = []
                     then ec\<lparr>ec_row_group_ids := replicate num_rows (Some 0), ec_num_groups := 1\<rparr> else ec);
               new_constraints =
                 (if any NO_SOLUTION
                  then new_constraints @ [ec\<lparr>ec_minmax_clause_idx := None, ec_minmax_agg_type := [],
                         ec_lhs_is_aggregate := False,
                         ec_row_group_ids := mask_groups num_rows (\<lambda>g. kind_at g = NO_SOLUTION) (ec_row_group_ids ec)\<rparr>]
                  else new_constraints);
               ec = ec\<lparr>ec_row_group_ids := mask_groups num_rows (\<lambda>g. kind_at g = LINEARIZE) (ec_row_group_ids ec)\<rparr>
           in (any LINEARIZE, ec, new_constraints)
         else (True, ec, new_constraints))"

section \<open>The members of a group\<close>

record MinMaxGroup =
  mg_members :: "ExtremumMember list"
  mg_family :: AuxRange
  mg_first_row :: "idx option"

definition mg_default :: MinMaxGroup where
  "mg_default = \<lparr>mg_members = [], mg_family = ar_default, mg_first_row = None\<rparr>"

definition mm_link :: "VarIndexer \<Rightarrow> EvaluatedConstraint \<Rightarrow> idx \<Rightarrow> MinMaxLinkRow" where
  "mm_link vi ec r =
     (fold (\<lambda>(var, col) link. case var of
              None \<Rightarrow> link
            | Some v \<Rightarrow> let coef = cc_get col r
                       in if coef = 0 then link else AddColumn (Get vi v r) (- coef) link)
        (ec_terms ec) mr_default)\<lparr>mr_constant := DecideRowFixedLhsOffset (ec_terms ec) r\<rparr>"

definition mm_member :: "VarIndexer \<Rightarrow> SolverInput \<Rightarrow> EvaluatedConstraint \<Rightarrow> idx \<Rightarrow> ExtremumMember" where
  "mm_member vi input ec r =
     (let (row_lo, row_hi) = DecideRowSignedRange ec r (si_lower_bounds input) (si_upper_bounds input) None;
          constant = DecideRowFixedLhsOffset (ec_terms ec) r
      in \<lparr>xm_link = mm_link vi ec r,
          xm_range = CoverRowSided (row_lo + constant) (row_hi + constant) None ar_default\<rparr>)"

definition add_member :: "VarIndexer \<Rightarrow> SolverInput \<Rightarrow> EvaluatedConstraint \<Rightarrow> idx \<Rightarrow> MinMaxGroup \<Rightarrow> MinMaxGroup" where
  "add_member vi input ec r grp =
     (let member = mm_member vi input ec r
      in grp\<lparr>mg_first_row := (case mg_first_row grp of None \<Rightarrow> Some r | Some q \<Rightarrow> Some q),
               mg_family := Cover (mg_family grp) (xm_range member),
               mg_members := mg_members grp @ [member]\<rparr>)"

definition BuildMinMaxGroups :: "VarIndexer \<Rightarrow> SolverInput \<Rightarrow> EvaluatedConstraint \<Rightarrow> MinMaxGroup list" where
  "BuildMinMaxGroups vi input ec =
     by_group ec (add_member vi input ec) (si_num_rows input) (replicate (mm_group_count ec) mg_default)"

section \<open>The pass\<close>

definition open_demanded_end :: "bool \<Rightarrow> AuxRange \<Rightarrow> AuxRange" where
  "open_demanded_end is_max_agg rg =
     (if is_max_agg then MarkHiUnbounded None rg else MarkLoUnbounded None rg)"

text \<open>The family with a bound beyond its reach folded in, and whether it was.\<close>

definition reach_bound :: "bool \<Rightarrow> dbl \<Rightarrow> AuxRange \<Rightarrow> AuxRange \<times> bool" where
  "reach_bound is_max_agg clause_bound family =
     (if isfinite clause_bound then
        (if is_max_agg then
           (if \<not> ar_hi_unbounded family \<and> clause_bound > ar_hi family
            then (family\<lparr>ar_hi := clause_bound\<rparr>, True) else (family, False))
         else
           (if \<not> ar_lo_unbounded family \<and> clause_bound < ar_lo family
            then (family\<lparr>ar_lo := clause_bound\<rparr>, True) else (family, False)))
      else (family, False))"

definition minmax_bound :: "EvaluatedConstraint \<Rightarrow> MinMaxGroup \<Rightarrow> dbl" where
  "minmax_bound ec grp =
     (if IsUniform (ec_rhs_values ec) then UniformValue (ec_rhs_values ec)
      else cc_get (ec_rhs_values ec) (the (mg_first_row grp)))"

definition MinMaxClauseLabel :: "SolverInput \<Rightarrow> EvaluatedConstraint \<Rightarrow> string" where
  "MinMaxClauseLabel input ec =
     (case ec_minmax_clause_idx ec of
        None \<Rightarrow> []
      | Some i \<Rightarrow> if i < length (si_minmax_clause_labels input) then si_minmax_clause_labels input ! i else [])"

definition minmax_outer_row :: "EvaluatedConstraint \<Rightarrow> bool \<Rightarrow> dbl \<Rightarrow> idx \<Rightarrow> idx \<Rightarrow> RawConstraint" where
  "minmax_outer_row ec is_max_agg clause_bound z_idx g = rc_default\<lparr>
     rc_indices := [z_idx], rc_coefficients := [1],
     rc_sense := (if is_max_agg then Ge else Le), rc_rhs := clause_bound,
     rc_kind := USER_PARAMETER,
     rc_shape := (if ec_rhs_is_shared_scalar ec then SHARED_SCALAR else PER_ROW_DATA),
     rc_rhs_label := (if ec_rhs_is_shared_scalar ec then [] else ec_rhs_label ec),
     rc_source_clause_id := ec_source_clause_id ec,
     rc_repair_group_id := ec_repair_group_id ec,
     rc_removal_group_id := ec_removal_group_id ec,
     rc_group_key := (if ec_row_group_ids ec = [] then None else Some g),
     rc_qualifier := ec_qualifier ec,
     rc_is_aggregate := True,
     rc_group_label := (if g < length (ec_group_labels ec) then ec_group_labels ec ! g else [])\<rparr>"

definition minmax_spec :: "SolverInput \<Rightarrow> EvaluatedConstraint \<Rightarrow> bool \<Rightarrow> AuxRange \<Rightarrow> idx \<Rightarrow> ExtremumLinkSpec" where
  "minmax_spec input ec is_max_agg family z_idx = xs_default\<lparr>
     xs_result_column := z_idx, xs_is_max := is_max_agg, xs_need_closing := True,
     xs_closing_underivable := Unbounded family,
     xs_closing_big_m := (if Unbounded family then 0 else Span family),
     xs_blame_var := FindUnboundedContributor ec (si_lower_bounds input) (si_upper_bounds input),
     xs_closing_kind := USER_MECHANISM\<rparr>"

definition linearize_minmax_group :: "VarIndexer \<Rightarrow> string list \<Rightarrow> NativeConstructPolicy \<Rightarrow>
    EvaluatedConstraint \<Rightarrow> bool \<Rightarrow> MinMaxGroup \<Rightarrow> idx \<Rightarrow> SolverInput \<Rightarrow> SolverInput res" where
  "linearize_minmax_group vi var_names policy ec is_max_agg grp g input =
     (if mg_members grp = [] then Inr input
      else
        let clause_bound = minmax_bound ec grp;
            (family, bound_out_of_reach) = reach_bound is_max_agg clause_bound (mg_family grp);
            opened = bound_out_of_reach \<and> UseNative policy (Unbounded family);
            z_range = (if opened then open_demanded_end is_max_agg family else family);
            members = (if opened
                       then map (\<lambda>m. m\<lparr>xm_range := open_demanded_end is_max_agg (xm_range m)\<rparr>) (mg_members grp)
                       else mg_members grp);
            (input, z_idx) = AddGlobalContinuousAux vi z_range 0 (MinMaxClauseLabel input ec) input
        in case EmitExtremumLink vi (minmax_spec input ec is_max_agg family z_idx) members var_names policy input of
             Inl e \<Rightarrow> Inl e
           | Inr input \<Rightarrow> Inr (input\<lparr>si_global_constraints := si_global_constraints input @
                              [minmax_outer_row ec is_max_agg clause_bound z_idx g]\<rparr>))"

definition linearize_minmax_clause :: "VarIndexer \<Rightarrow> string list \<Rightarrow> NativeConstructPolicy \<Rightarrow>
    EvaluatedConstraint \<Rightarrow> EvaluatedConstraint list \<times> SolverInput \<Rightarrow>
    (EvaluatedConstraint list \<times> SolverInput) res" where
  "linearize_minmax_clause vi var_names policy ec = (\<lambda>(new_constraints, input).
     if ec_minmax_agg_type ec = [] then Inr (new_constraints @ [ec], input)
     else
       let is_max_agg = (ec_minmax_agg_type ec = ''max'');
           (encode, ec, new_constraints) = ClassifyMinMaxGroups ec (si_num_rows input) is_max_agg new_constraints
       in if \<not> encode then Inr (new_constraints, input)
          else let groups = BuildMinMaxGroups vi input ec
               in case fold_res (\<lambda>g. linearize_minmax_group vi var_names policy ec is_max_agg (groups ! g) g)
                         [0..<length groups] input of
                    Inl e \<Rightarrow> Inl e
                  | Inr input \<Rightarrow> Inr (new_constraints, input))"

definition LinearizeMinMaxConstraints :: "VarIndexer \<Rightarrow> string list \<Rightarrow> NativeConstructPolicy \<Rightarrow>
    SolverInput \<Rightarrow> SolverInput res" where
  "LinearizeMinMaxConstraints vi var_names policy input =
     (case fold_res (linearize_minmax_clause vi var_names policy) (si_constraints input) ([], input) of
        Inl e \<Rightarrow> Inl e
      | Inr (new_constraints, input) \<Rightarrow> Inr (input\<lparr>si_constraints := new_constraints\<rparr>))"

section \<open>Loops over the groups\<close>

text \<open>The rows of one group, in order.\<close>

definition mm_rows :: "EvaluatedConstraint \<Rightarrow> nat \<Rightarrow> idx \<Rightarrow> idx list" where
  "mm_rows ec n g = filter (\<lambda>r. group_of ec r = Some g) [0..<n]"

lemma mm_rows_mem: "r \<in> set (mm_rows ec n g) \<longleftrightarrow> r < n \<and> group_of ec r = Some g"
  by (auto simp: mm_rows_def)

lemma by_group_length [simp]: "length (by_group ec f n entries) = length entries"
proof -
  have "length (fold (\<lambda>r entries. case group_of ec r of None \<Rightarrow> entries
      | Some g \<Rightarrow> if g \<ge> mm_group_count ec then entries else entries[g := f r (entries ! g)]) rs entries) =
    length entries" for rs
    by (induction rs arbitrary: entries) (simp_all split: option.splits)
  then show ?thesis by (simp add: by_group_def)
qed

lemma by_group_nth:
  assumes "g < mm_group_count ec" "length entries = mm_group_count ec"
  shows "by_group ec f n entries ! g = fold f (mm_rows ec n g) (entries ! g)"
proof -
  have "fold (\<lambda>r entries. case group_of ec r of None \<Rightarrow> entries
      | Some g \<Rightarrow> if g \<ge> mm_group_count ec then entries else entries[g := f r (entries ! g)]) rs entries ! g =
    fold f (filter (\<lambda>r. group_of ec r = Some g) rs) (entries ! g)" for rs
    using assms by (induction rs arbitrary: entries) (auto split: option.splits)
  then show ?thesis by (simp add: by_group_def mm_rows_def)
qed

lemma mask_groups_length [simp]: "length (mask_groups n keep ids) = length ids"
proof -
  have "length (fold (\<lambda>r ids. case ids ! r of None \<Rightarrow> ids | Some g \<Rightarrow> if \<not> keep g then ids[r := None] else ids) rs ids) =
      length ids" for rs
    by (induction rs arbitrary: ids) (simp_all split: option.splits)
  then show ?thesis by (simp add: mask_groups_def)
qed

lemma mask_groups_nth:
  assumes "r < n" "n \<le> length ids"
  shows "mask_groups n keep ids ! r = (case ids ! r of None \<Rightarrow> None | Some g \<Rightarrow> if keep g then Some g else None)"
proof -
  have "fold (\<lambda>r ids. case ids ! r of None \<Rightarrow> ids | Some g \<Rightarrow> if \<not> keep g then ids[r := None] else ids) rs ids ! r =
      (if r \<in> set rs then (case ids ! r of None \<Rightarrow> None | Some g \<Rightarrow> if keep g then Some g else None) else ids ! r)"
    if "r < length ids" for rs
    using that
  proof (induction rs arbitrary: ids)
    case (Cons q rs)
    then show ?case by (cases "q = r") (auto split: option.splits)
  qed simp
  with assms show ?thesis by (simp add: mask_groups_def)
qed

end
