(* ===== verification/MinMaxClassify.thy ===== *)
theory MinMaxClassify
  imports MinMaxConstraints NotEqualRows
begin

text \<open>
  What a hard MIN/MAX clause asks, and what \<open>ClassifyMinMaxGroups\<close> leaves of it. A tagged clause asks
  its comparison of the maximum or minimum its left-hand side takes over each non-empty row set
  (\<open>sat_minmax\<close>). The classification masks off the groups an infinite bound settles: the clause holds
  exactly when no group was found unsatisfiable and what is left of it holds, and the plain
  constraint an unsatisfiable group becomes holds at no assignment.
\<close>

section \<open>What a clause asks\<close>

definition is_max_clause :: "EvaluatedConstraint \<Rightarrow> bool" where
  "is_max_clause ec \<longleftrightarrow> ec_minmax_agg_type ec = ''max''"

definition sat_extremum :: "EvaluatedConstraint \<Rightarrow> (idx \<Rightarrow> idx \<Rightarrow> real) \<Rightarrow> idx list \<Rightarrow> bool" where
  "sat_extremum ec X rows \<longleftrightarrow>
     sat_cmp (ec_comparison_type ec)
       (Fin (extremum (is_max_clause ec) ((\<lambda>r. rval (row_lhs ec X r)) ` set rows)))
       (cc_get (ec_rhs_values ec) (hd rows))"

definition sat_minmax :: "SolverInput \<Rightarrow> EvaluatedConstraint \<Rightarrow> (idx \<Rightarrow> idx \<Rightarrow> real) \<Rightarrow> bool" where
  "sat_minmax input ec X \<longleftrightarrow>
     (\<forall>rows \<in> set (agg_row_sets ec (si_num_rows input)). rows \<noteq> [] \<longrightarrow> sat_extremum ec X rows)"

definition sat_clause :: "SolverInput \<Rightarrow> EvaluatedConstraint \<Rightarrow> (idx \<Rightarrow> idx \<Rightarrow> real) \<Rightarrow> bool" where
  "sat_clause input ec X \<longleftrightarrow>
     (if ec_minmax_agg_type ec = [] then sat_linear input ec X else sat_minmax input ec X)"

text \<open>
  The hard direction, not strict: \<open>MAX >=\<close> or \<open>MIN <=\<close>. The bound is constant in a group, the
  coefficients are finite and not below the threshold the linking rows drop.
\<close>

definition mm_clause_ok :: "SolverInput \<Rightarrow> EvaluatedConstraint \<Rightarrow> bool" where
  "mm_clause_ok base ec \<longleftrightarrow>
     ec_shape (si_num_decide_vars base) (si_num_rows base) ec \<and> RhsIsConstantWithinGroups ec \<and>
     ec_comparison_type ec =
       (if is_max_clause ec then COMPARE_GREATERTHANOREQUALTO else COMPARE_LESSTHANOREQUALTO) \<and>
     (\<forall>r < si_num_rows base. row_active ec r \<longrightarrow> terms_crisp (ec_terms ec) r \<and>
        list_all crisp (mr_coefficients (mm_link (BuildIndexer base) ec r)))"

section \<open>Row sets and groups\<close>

lemma mm_rows_agg:
  assumes "ec_shape nv n ec" "mm_rows ec n g \<noteq> []"
  shows "mm_rows ec n g \<in> set (agg_row_sets ec n)" "g < mm_group_count ec"
proof -
  have eq: "mm_rows ec n g = (if ec_row_group_ids ec = [] then (if g = 0 then [0..<n] else [])
      else group_rows (ec_row_group_ids ec) g)"
    using assms(1) by (auto simp: mm_rows_def group_of_def group_rows_def group_rows_upto_def ec_shape_def)
  have "g < ec_num_groups ec" if "ec_row_group_ids ec \<noteq> []"
  proof -
    obtain r where "r \<in> set (mm_rows ec n g)" using assms(2) by (cases "mm_rows ec n g") auto
    with assms(1) that show ?thesis by (auto simp: mm_rows_mem group_of_def ec_shape_def groups_ok_def)
  qed
  with eq assms(2) show "mm_rows ec n g \<in> set (agg_row_sets ec n)" "g < mm_group_count ec"
    by (auto simp: agg_row_sets_def mm_group_count_def split: if_splits)
qed

lemma agg_row_sets_mm:
  assumes "ec_shape nv n ec" "rows \<in> set (agg_row_sets ec n)"
  shows "\<exists>g. rows = mm_rows ec n g"
proof (cases "ec_row_group_ids ec = []")
  case True
  then have "rows = mm_rows ec n 0" using assms(2) by (simp add: agg_row_sets_def mm_rows_def group_of_def)
  then show ?thesis ..
next
  case False
  then have "mm_rows ec n g = group_rows (ec_row_group_ids ec) g" for g
    using assms(1) by (simp add: mm_rows_def group_of_def group_rows_def group_rows_upto_def ec_shape_def)
  with False assms(2) show ?thesis by (auto simp: agg_row_sets_def)
qed

lemma sat_minmax_groups:
  assumes "ec_shape nv (si_num_rows base) ec"
  shows "sat_minmax base ec X \<longleftrightarrow> (\<forall>g < mm_group_count ec. mm_rows ec (si_num_rows base) g \<noteq> [] \<longrightarrow>
     sat_extremum ec X (mm_rows ec (si_num_rows base) g))"
  using mm_rows_agg [OF assms] agg_row_sets_mm [OF assms] unfolding sat_minmax_def by metis

lemma group_of_active: "row_active ec r \<longleftrightarrow> group_of ec r \<noteq> None"
  by (auto simp: row_active_def group_of_def)

lemma mm_rows_active: "r \<in> set (mm_rows ec n g) \<Longrightarrow> r < n \<and> row_active ec r"
  by (auto simp: mm_rows_mem group_of_active)

section \<open>The classification\<close>

definition group_kind :: "EvaluatedConstraint \<Rightarrow> nat \<Rightarrow> idx \<Rightarrow> MinMaxBoundKind" where
  "group_kind ec n g = ClassifyMinMaxBound (cc_get (ec_rhs_values ec) (hd (mm_rows ec n g))) (is_max_clause ec)"

lemma effective_kind:
  assumes "terms_crisp (ec_terms ec) r"
  shows "ClassifyMinMaxBound (DecideRowEffectiveBound ec r) is_max =
    ClassifyMinMaxBound (cc_get (ec_rhs_values ec) r) is_max"
  using assms
  by (cases "cc_get (ec_rhs_values ec) r")
     (simp_all add: EffectiveBound_eq ClassifyMinMaxBound_def minus_dbl_def)

lemma fold_const: "xs \<noteq> [] \<Longrightarrow> (\<And>x. x \<in> set xs \<Longrightarrow> f x = c) \<Longrightarrow> fold (\<lambda>x _. f x) xs a = c"
  by (induction xs arbitrary: a) (auto, metis fold_simps(1) list.set_intros(1) neq_Nil_conv)

lemma group_marks:
  assumes ok: "mm_clause_ok base ec" and n: "n = si_num_rows base" and g: "g < mm_group_count ec"
  shows "by_group ec (\<lambda>r _. (ClassifyMinMaxBound (DecideRowEffectiveBound ec r) (is_max_clause ec), True))
     n (replicate (mm_group_count ec) (LINEARIZE, False)) ! g =
     (if mm_rows ec n g = [] then (LINEARIZE, False) else (group_kind ec n g, True))"
proof -
  have shape: "ec_shape (si_num_decide_vars base) n ec" and const: "RhsIsConstantWithinGroups ec"
    using ok n by (simp_all add: mm_clause_ok_def)
  have "ClassifyMinMaxBound (DecideRowEffectiveBound ec r) (is_max_clause ec) = group_kind ec n g"
    if r: "r \<in> set (mm_rows ec n g)" for r
  proof -
    have ne: "mm_rows ec n g \<noteq> []" using r by auto
    have "cc_get (ec_rhs_values ec) r = cc_get (ec_rhs_values ec) (hd (mm_rows ec n g))"
      by (rule rhs_constant [OF const shape mm_rows_agg(1) [OF shape ne] r]) (use ne in simp)
    moreover have "terms_crisp (ec_terms ec) r" using mm_rows_active [OF r] ok n by (simp add: mm_clause_ok_def)
    ultimately show ?thesis by (simp add: effective_kind group_kind_def)
  qed
  then show ?thesis
    using by_group_nth [OF g, of "replicate (mm_group_count ec) (LINEARIZE, False)"] g
      fold_const [of "mm_rows ec n g" "\<lambda>r. (ClassifyMinMaxBound (DecideRowEffectiveBound ec r) (is_max_clause ec), True)"]
    by simp
qed

text \<open>The constraint with the groups of some kinds masked off.\<close>

definition keep_groups :: "nat \<Rightarrow> (idx \<Rightarrow> bool) \<Rightarrow> EvaluatedConstraint \<Rightarrow> EvaluatedConstraint" where
  "keep_groups n keep ec =
     (let ec = (if ec_row_group_ids ec = []
                then ec\<lparr>ec_row_group_ids := replicate n (Some 0), ec_num_groups := 1\<rparr> else ec)
      in ec\<lparr>ec_row_group_ids := mask_groups n keep (ec_row_group_ids ec)\<rparr>)"

lemma keep_groups_fields [simp]:
  "ec_terms (keep_groups n keep ec) = ec_terms ec"
  "ec_variable_indices (keep_groups n keep ec) = ec_variable_indices ec"
  "ec_row_coefficients (keep_groups n keep ec) = ec_row_coefficients ec"
  "ec_rhs_values (keep_groups n keep ec) = ec_rhs_values ec"
  "ec_comparison_type (keep_groups n keep ec) = ec_comparison_type ec"
  "ec_minmax_agg_type (keep_groups n keep ec) = ec_minmax_agg_type ec"
  "row_lhs (keep_groups n keep ec) X r = row_lhs ec X r"
  by (simp_all add: keep_groups_def Let_def ec_terms_def row_lhs_def)

lemma keep_groups_ids:
  assumes "ec_shape nv n ec" "r < n"
  shows "group_of (keep_groups n keep ec) r = (case group_of ec r of None \<Rightarrow> None | Some g \<Rightarrow> if keep g then Some g else None)"
    and "ec_row_group_ids (keep_groups n keep ec) \<noteq> []"
proof -
  have "length (ec_row_group_ids ec) = n" if "ec_row_group_ids ec \<noteq> []" using assms(1) that by (simp add: ec_shape_def)
  then have len: "length (ec_row_group_ids (keep_groups n keep ec)) = n"
    by (simp add: keep_groups_def Let_def)
  with assms(2) show ne: "ec_row_group_ids (keep_groups n keep ec) \<noteq> []" by auto
  have "ec_row_group_ids (keep_groups n keep ec) ! r =
      (case group_of ec r of None \<Rightarrow> None | Some g \<Rightarrow> if keep g then Some g else None)"
    using assms by (cases "ec_row_group_ids ec = []")
      (simp_all add: keep_groups_def Let_def mask_groups_nth group_of_def ec_shape_def)
  with ne show "group_of (keep_groups n keep ec) r =
      (case group_of ec r of None \<Rightarrow> None | Some g \<Rightarrow> if keep g then Some g else None)"
    by (simp add: group_of_def)
qed

lemma keep_groups_rows:
  assumes "ec_shape nv n ec"
  shows "mm_rows (keep_groups n keep ec) n g = (if keep g then mm_rows ec n g else [])"
proof -
  have "group_of (keep_groups n keep ec) r = Some g \<longleftrightarrow> keep g \<and> group_of ec r = Some g" if "r < n" for r
    using keep_groups_ids(1) [OF assms that, of keep] by (auto split: option.splits)
  then show ?thesis by (auto simp: mm_rows_def intro!: filter_cong)
qed

lemma keep_groups_shape:
  assumes "ec_shape nv n ec"
  shows "ec_shape nv n (keep_groups n keep ec)" "mm_group_count (keep_groups n keep ec) = mm_group_count ec \<or> n = 0"
proof -
  have ids: "r < n \<Longrightarrow> ec_row_group_ids (keep_groups n keep ec) ! r = Some g \<Longrightarrow> group_of ec r = Some g" for r g
    using keep_groups_ids [OF assms, of r keep] by (auto simp: group_of_def split: option.splits if_splits)
  have groups: "group_of ec r = Some g \<Longrightarrow> r < n \<Longrightarrow> g < ec_num_groups (keep_groups n keep ec)" for r g
    using assms by (auto simp: group_of_def keep_groups_def Let_def ec_shape_def groups_ok_def split: if_splits)
  have lt: "r < n \<Longrightarrow> ec_row_group_ids (keep_groups n keep ec) ! r = Some g \<Longrightarrow>
      g < ec_num_groups (keep_groups n keep ec)" for r g
    by (rule groups [OF ids])
  have len: "length (ec_row_group_ids (keep_groups n keep ec)) = n \<or> ec_row_group_ids (keep_groups n keep ec) = []"
    using assms by (auto simp: keep_groups_def Let_def ec_shape_def)
  show "ec_shape nv n (keep_groups n keep ec)"
    using assms len lt by (fastforce simp: ec_shape_def groups_ok_def)
  show "mm_group_count (keep_groups n keep ec) = mm_group_count ec \<or> n = 0"
    using keep_groups_ids(2) [OF assms, of 0 keep] by (auto simp: mm_group_count_def keep_groups_def Let_def)
qed

definition any_kind :: "EvaluatedConstraint \<Rightarrow> nat \<Rightarrow> MinMaxBoundKind \<Rightarrow> bool" where
  "any_kind ec n k \<longleftrightarrow> (\<exists>g < mm_group_count ec. mm_rows ec n g \<noteq> [] \<and> group_kind ec n g = k)"

definition plain_constraint :: "EvaluatedConstraint \<Rightarrow> EvaluatedConstraint" where
  "plain_constraint ec = ec\<lparr>ec_minmax_clause_idx := None, ec_minmax_agg_type := [], ec_lhs_is_aggregate := False\<rparr>"

lemma mask_groups_cong:
  assumes "\<And>r g. r < n \<Longrightarrow> ids ! r = Some g \<Longrightarrow> keep g = keep' g" "n \<le> length ids"
  shows "mask_groups n keep ids = mask_groups n keep' ids"
proof (rule nth_equalityI)
  fix r assume r: "r < length (mask_groups n keep ids)"
  have past: "mask_groups n k ids ! r = ids ! r" if "\<not> r < n" for k
  proof -
    have "fold (\<lambda>q ids. case ids ! q of None \<Rightarrow> ids | Some g \<Rightarrow> if \<not> k g then ids[q := None] else ids) qs ids ! r = ids ! r"
      if "r \<notin> set qs" for qs
      using that by (induction qs arbitrary: ids) (auto split: option.splits)
    with that show ?thesis by (simp add: mask_groups_def)
  qed
  show "mask_groups n keep ids ! r = mask_groups n keep' ids ! r"
    using assms r past by (cases "r < n") (auto simp: mask_groups_nth split: option.splits)
qed simp

lemma ClassifyMinMaxGroups_cases:
  assumes ok: "mm_clause_ok base ec" and n: "n = si_num_rows base"
  shows "ClassifyMinMaxGroups ec n (is_max_clause ec) new =
    (if any_kind ec n VACUOUS \<or> any_kind ec n NO_SOLUTION
     then (any_kind ec n LINEARIZE, keep_groups n (\<lambda>g. group_kind ec n g = LINEARIZE) ec,
           if any_kind ec n NO_SOLUTION
           then new @ [plain_constraint (keep_groups n (\<lambda>g. group_kind ec n g = NO_SOLUTION) ec)] else new)
     else (True, ec, new))"
proof -
  define count where "count = mm_group_count ec"
  define marks where "marks = by_group ec
    (\<lambda>r _. (ClassifyMinMaxBound (DecideRowEffectiveBound ec r) (is_max_clause ec), True)) n
    (replicate count (LINEARIZE, False))"
  have shape: "ec_shape (si_num_decide_vars base) n ec" using ok n by (simp add: mm_clause_ok_def)
  have mark: "marks ! g = (if mm_rows ec n g = [] then (LINEARIZE, False) else (group_kind ec n g, True))"
    if "g < count" for g
    using group_marks [OF ok n] that by (simp add: marks_def count_def)
  have len: "length marks = count" by (simp add: marks_def)
  have any: "list_ex (\<lambda>(group_kind, group_active). group_active \<and> group_kind = k) marks = any_kind ec n k" for k
  proof -
    have "snd (marks ! g) \<and> fst (marks ! g) = k \<longleftrightarrow> mm_rows ec n g \<noteq> [] \<and> group_kind ec n g = k" if "g < count" for g
      using mark [OF that] by simp
    then show ?thesis by (auto simp: list_ex_length len any_kind_def count_def [symmetric] case_prod_unfold)
  qed
  define wide where "wide = (if ec_row_group_ids ec = []
    then ec\<lparr>ec_row_group_ids := replicate n (Some 0), ec_num_groups := 1\<rparr> else ec)"
  have kinds: "mask_groups n (\<lambda>g. fst (marks ! g) = k) (ec_row_group_ids wide) =
      mask_groups n (\<lambda>g. group_kind ec n g = k) (ec_row_group_ids wide)" for k
  proof (rule mask_groups_cong)
    fix r g assume r: "r < n" "ec_row_group_ids wide ! r = Some g"
    then have "r \<in> set (mm_rows ec n g)"
      by (auto simp: mm_rows_mem group_of_def wide_def split: if_splits)
    moreover from this have "g < count" using mm_rows_agg(2) [OF shape] by (force simp: count_def)
    ultimately show "(fst (marks ! g) = k) = (group_kind ec n g = k)" using mark by auto
  qed (use shape in \<open>auto simp: wide_def ec_shape_def\<close>)
  have keep: "keep_groups n keep ec = wide\<lparr>ec_row_group_ids := mask_groups n keep (ec_row_group_ids wide)\<rparr>" for keep
    by (simp add: keep_groups_def wide_def)
  show ?thesis
    unfolding ClassifyMinMaxGroups_def Let_def keep plain_constraint_def
      count_def [symmetric] marks_def [symmetric] wide_def [symmetric] any kinds
    by simp
qed

text \<open>What an infinite bound makes of a group, and of its rows as a plain constraint.\<close>

lemma group_kind_bound:
  assumes ok: "mm_clause_ok base ec"
  shows "group_kind ec n g = VACUOUS \<Longrightarrow> sat_extremum ec X (mm_rows ec n g)"
    and "group_kind ec n g = NO_SOLUTION \<Longrightarrow>
      \<not> sat_cmp (ec_comparison_type ec) (Fin l) (cc_get (ec_rhs_values ec) (hd (mm_rows ec n g)))"
  using ok
  by (cases "cc_get (ec_rhs_values ec) (hd (mm_rows ec n g))"; cases "is_max_clause ec";
      simp add: group_kind_def ClassifyMinMaxBound_def sat_extremum_def mm_clause_ok_def zero_dbl_def)+

lemma plain_constraint_unsat:
  assumes ok: "mm_clause_ok base ec" and n: "n = si_num_rows base" and any: "any_kind ec n NO_SOLUTION"
  shows "\<not> sat_linear base (plain_constraint (keep_groups n (\<lambda>g. group_kind ec n g = NO_SOLUTION) ec)) X"
proof -
  let ?p = "plain_constraint (keep_groups n (\<lambda>g. group_kind ec n g = NO_SOLUTION) ec)"
  have shape: "ec_shape (si_num_decide_vars base) n ec" using ok n by (simp add: mm_clause_ok_def)
  obtain g where g: "mm_rows ec n g \<noteq> []" "group_kind ec n g = NO_SOLUTION" using any by (auto simp: any_kind_def)
  define r where "r = hd (mm_rows ec n g)"
  have r: "r \<in> set (mm_rows ec n g)" using g(1) by (simp add: r_def)
  then have "r < n" "group_of ec r = Some g" "row_active ec r" using mm_rows_active by (auto simp: mm_rows_mem)
  with g(2) keep_groups_ids(1) [OF shape, of r "\<lambda>g. group_kind ec n g = NO_SOLUTION"]
  have "row_active (keep_groups n (\<lambda>g. group_kind ec n g = NO_SOLUTION) ec) r"
    unfolding group_of_active by simp
  then have active: "row_active ?p r" by (simp add: row_active_def plain_constraint_def)
  have "terms_crisp (ec_terms ec) r" using ok n \<open>r < n\<close> \<open>row_active ec r\<close> by (simp add: mm_clause_ok_def)
  then have "row_lhs ec X r = Fin (rval (row_lhs ec X r))" by (simp add: row_lhs_parts)
  then have "\<not> sat_row ?p X r"
    using group_kind_bound(2) [OF ok g(2), of "rval (row_lhs ec X r)"]
    by (simp add: sat_row_def plain_constraint_def r_def row_lhs_def ec_terms_def)
  with active \<open>r < n\<close> n show ?thesis by (auto simp: sat_linear_def plain_constraint_def)
qed

text \<open>What the classification leaves of a clause.\<close>

lemma ClassifyMinMaxGroups_spec:
  assumes ok: "mm_clause_ok base ec" and n: "n = si_num_rows base"
    and run: "ClassifyMinMaxGroups ec n (is_max_clause ec) new = (encode, ec', new')"
  obtains extra keep where
    "new' = new @ extra" "\<forall>p \<in> set extra. \<forall>X. \<not> sat_linear base p X"
    "ec' = ec \<or> ec' = keep_groups n keep ec"
    "\<And>X. sat_minmax base ec X \<longleftrightarrow> extra = [] \<and> (encode \<longrightarrow> sat_minmax base ec' X)"
proof -
  let ?keep = "\<lambda>g. group_kind ec n g = LINEARIZE"
  have shape: "ec_shape (si_num_decide_vars base) n ec" using ok n by (simp add: mm_clause_ok_def)
  note groups = sat_minmax_groups [of "si_num_decide_vars base" base, folded n]
  note cases = run [unfolded ClassifyMinMaxGroups_cases [OF ok n]]
  define extra where "extra = (if any_kind ec n NO_SOLUTION
    then [plain_constraint (keep_groups n (\<lambda>g. group_kind ec n g = NO_SOLUTION) ec)] else [])"
  have new: "new' = new @ extra" using cases by (auto simp: extra_def split: if_splits)
  have unsat: "\<forall>p \<in> set extra. \<forall>X. \<not> sat_linear base p X"
    using plain_constraint_unsat [OF ok n] by (simp add: extra_def)
  have form: "ec' = ec \<or> ec' = keep_groups n ?keep ec" using cases by (auto split: if_splits)
  have "sat_minmax base ec X \<longleftrightarrow> extra = [] \<and> (encode \<longrightarrow> sat_minmax base ec' X)" for X
  proof (cases "any_kind ec n VACUOUS \<or> any_kind ec n NO_SOLUTION")
    case False
    with cases show ?thesis by (auto simp: extra_def)
  next
    case True
    then have ec': "ec' = keep_groups n ?keep ec" "encode = any_kind ec n LINEARIZE" using cases by auto
    have masked: "sat_minmax base ec' X \<longleftrightarrow> (\<forall>g < mm_group_count ec. mm_rows ec n g \<noteq> [] \<and> ?keep g \<longrightarrow>
        sat_extremum ec X (mm_rows ec n g))"
    proof -
      have "n \<noteq> 0" using True by (cases n) (auto simp: any_kind_def mm_rows_def)
      then have count: "mm_group_count ec' = mm_group_count ec"
        using keep_groups_shape(2) [OF shape, of ?keep] by (simp add: ec')
      have "sat_extremum ec' X rows = sat_extremum ec X rows" for rows
        by (simp add: sat_extremum_def ec' is_max_clause_def)
      then show ?thesis
        using groups [OF keep_groups_shape(1) [OF shape, of ?keep]] count
        by (auto simp: ec'(1) keep_groups_rows [OF shape])
    qed
    have vacuous: "sat_extremum ec X (mm_rows ec n g)" if "group_kind ec n g = VACUOUS" for g
      using group_kind_bound(1) [OF ok that] .
    have none: "\<not> sat_extremum ec X (mm_rows ec n g)" if "group_kind ec n g = NO_SOLUTION" for g
      using group_kind_bound(2) [OF ok that] by (simp add: sat_extremum_def)
    have "sat_minmax base ec X \<longleftrightarrow> (\<forall>g < mm_group_count ec. mm_rows ec n g \<noteq> [] \<longrightarrow>
        sat_extremum ec X (mm_rows ec n g))"
      by (rule groups [OF shape])
    also have "\<dots> \<longleftrightarrow> \<not> any_kind ec n NO_SOLUTION \<and> (any_kind ec n LINEARIZE \<longrightarrow> sat_minmax base ec' X)"
    proof -
      have one: "(mm_rows ec n g \<noteq> [] \<longrightarrow> sat_extremum ec X (mm_rows ec n g)) \<longleftrightarrow>
          (mm_rows ec n g \<noteq> [] \<longrightarrow> group_kind ec n g \<noteq> NO_SOLUTION) \<and>
          (mm_rows ec n g \<noteq> [] \<and> ?keep g \<longrightarrow> sat_extremum ec X (mm_rows ec n g))" for g
        using vacuous none by (cases "group_kind ec n g") auto
      show ?thesis unfolding one masked any_kind_def by blast
    qed
    finally show ?thesis by (simp add: extra_def ec'(2))
  qed
  with new unsat form show ?thesis by (rule that)
qed

end
