(* ===== verification/MinMaxExact.thy ===== *)
theory MinMaxExact
  imports MinMaxClassify
begin

text \<open>
  The MIN/MAX pass is exact: what it emits for the tagged clauses can be met by values for the fresh
  columns exactly when every clause holds, and what it leaves as ordinary constraints are the
  untagged ones and the groups no assignment can satisfy.
\<close>

section \<open>Members\<close>

definition link_step :: "VarIndexer \<Rightarrow> idx \<Rightarrow> idx option \<times> coefficient_column \<Rightarrow> MinMaxLinkRow \<Rightarrow> MinMaxLinkRow" where
  "link_step vi r = (\<lambda>(var, col) link. case var of None \<Rightarrow> link
      | Some v \<Rightarrow> let coef = cc_get col r in if coef = 0 then link else AddColumn (Get vi v r) (- coef) link)"

lemma mm_link_fold:
  assumes "link_inv m" "link_fin m" "list_all (\<lambda>(var, col). isfinite (cc_get col r)) ts"
  shows "link_inv (fold (link_step vi r) ts m) \<and> link_fin (fold (link_step vi r) ts m) \<and>
    set (mr_indices (fold (link_step vi r) ts m)) \<subseteq> set (mr_indices m) \<union> {Get vi v r | v col. (Some v, col) \<in> set ts} \<and>
    link_lin (fold (link_step vi r) ts m) x =
      link_lin m x - (\<Sum>(var, col)\<leftarrow>ts. case var of None \<Rightarrow> 0 | Some v \<Rightarrow> rval (cc_get col r) * x (Get vi v r))"
  using assms
proof (induction ts arbitrary: m)
  case (Cons t ts)
  obtain var col where t: "t = (var, col)" by force
  define m1 where "m1 = link_step vi r t m"
  have one: "link_inv m1 \<and> link_fin m1 \<and>
      set (mr_indices m1) \<subseteq> set (mr_indices m) \<union> {Get vi v r | v. var = Some v} \<and>
      link_lin m1 x = link_lin m x - (case var of None \<Rightarrow> 0 | Some v \<Rightarrow> rval (cc_get col r) * x (Get vi v r))"
    using Cons.prems AddColumn_inv [OF Cons.prems(1)] AddColumn_fin [OF Cons.prems(1,2)]
      AddColumn_indices [OF Cons.prems(1)] AddColumn_lin [OF Cons.prems(1,2)]
    by (cases var) (auto simp: m1_def link_step_def t Let_def zero_dbl_def)
  have "fold (link_step vi r) (t # ts) m = fold (link_step vi r) ts m1" by (simp add: m1_def)
  moreover have fin: "list_all (\<lambda>(var, col). isfinite (cc_get col r)) ts" using Cons.prems(3) by simp
  note ih = Cons.IH [OF conjunct1 [OF one] conjunct1 [OF conjunct2 [OF one]] fin]
  moreover have "set (mr_indices (fold (link_step vi r) ts m1)) \<subseteq>
      set (mr_indices m) \<union> {Get vi v r | v col. (Some v, col) \<in> set (t # ts)}"
  proof -
    have "{Get vi v r | v. var = Some v} \<union> {Get vi v r | v col. (Some v, col) \<in> set ts} \<subseteq>
        {Get vi v r | v col. (Some v, col) \<in> set (t # ts)}" by (auto simp: t)
    with ih one show ?thesis by blast
  qed
  ultimately show ?case using one ih by (simp add: t)
qed simp

lemma mm_member_facts:
  assumes idx: "indexable base" and r: "r < si_num_rows base" and vars: "vars_in ec (si_num_decide_vars base)"
    and crisp: "terms_crisp (ec_terms ec) r" "list_all crisp (mr_coefficients (mm_link (BuildIndexer base) ec r))"
    and input: "si_lower_bounds input = si_lower_bounds base" "si_upper_bounds input = si_upper_bounds base"
  defines "m \<equiv> mm_member (BuildIndexer base) input ec r"
  shows "member_ok (vi_global_block_start (BuildIndexer base)) m"
    and "member_value m x = rval (row_lhs ec (at_flat base x) r)"
    and "boxed (si_lower_bounds base) (si_upper_bounds base) r (at_flat base x) \<Longrightarrow>
      range_fin (xm_range m) \<and> range_has (xm_range m) 0"
    and "boxed (si_lower_bounds base) (si_upper_bounds base) r (at_flat base x) \<Longrightarrow>
      range_has (xm_range m) (member_value m x)"
proof -
  let ?vi = "BuildIndexer base"
  obtain lo hi where range: "DecideRowSignedRange ec r (si_lower_bounds base) (si_upper_bounds base) None = (lo, hi)" by force
  note const = FixedLhsOffset_eq [OF crisp(1)]
  have fields: "xm_link m = mm_link ?vi ec r"
    "xm_range m = CoverRowSided (lo + Fin (fixed_part (ec_terms ec) r)) (hi + Fin (fixed_part (ec_terms ec) r)) None ar_default"
    by (simp_all add: m_def mm_member_def Let_def input range const)
  have "list_all (\<lambda>(var, col). isfinite (cc_get col r)) (ec_terms ec)"
    using crisp(1) by (auto simp: terms_crisp_def list_all_iff crisp_def)
  note link = mm_link_fold [OF mr_default_inv(1,2) this, of ?vi]
  define l where "l = fold (link_step ?vi r) (ec_terms ec) mr_default"
  have no_cols: "mr_indices mr_default = []" by (simp add: mr_default_def)
  note link = link [folded l_def, unfolded no_cols mr_default_inv(3)]
  have l: "mm_link ?vi ec r = l\<lparr>mr_constant := Fin (fixed_part (ec_terms ec) r)\<rparr>"
    by (simp add: mm_link_def l_def const link_step_def)
  have sub: "set (mr_indices l) \<subseteq> {Get ?vi v r | v col. (Some v, col) \<in> set (ec_terms ec)}"
    using conjunct1 [OF conjunct2 [OF conjunct2 [OF link]]] by simp
  have cols: "c < vi_global_block_start ?vi" if "c \<in> set (mr_indices l)" for c
  proof -
    have "c \<in> {Get ?vi v r | v col. (Some v, col) \<in> set (ec_terms ec)}" by (rule subsetD [OF sub that])
    then obtain v col where v: "c = Get ?vi v r" "(Some v, col) \<in> set (ec_terms ec)" by blast
    with num.at_row_lt [OF idx ec_terms_vars [OF vars v(2)] r] show ?thesis by simp
  qed
  show "member_ok (vi_global_block_start ?vi) m"
    using link crisp(2) cols by (auto simp: member_ok_def fields(1) l link_inv_def)
  have "link_lin (mm_link ?vi ec r) x = - var_part (ec_terms ec) r (at_flat base x) None" for x
  proof -
    have "(\<lambda>(var, col). case var of None \<Rightarrow> 0 | Some v \<Rightarrow> rval (cc_get col r) * x (Get ?vi v r)) =
        part_of r (at_flat base x) None"
      by (auto simp: fun_eq_iff part_of_def at_flat_def split: option.splits)
    with link [of x] show ?thesis by (simp add: l link_lin_def var_part_def)
  qed
  then have val: "member_value m x = var_part (ec_terms ec) r (at_flat base x) None + fixed_part (ec_terms ec) r" for x
    by (simp add: member_value_def fields(1)) (simp add: l)
  then show "member_value m x = rval (row_lhs ec (at_flat base x) r)" by (simp add: row_lhs_parts [OF crisp(1)])
  have ends: "lo + Fin (fixed_part (ec_terms ec) r) \<le> Fin (member_value m x)"
      "Fin (member_value m x) \<le> hi + Fin (fixed_part (ec_terms ec) r)"
    if "boxed (si_lower_bounds base) (si_upper_bounds base) r (at_flat base x)" for x
    using SignedRange_encloses [OF range crisp(1) that] unfolding val
    by (cases lo; cases hi; simp)+
  then show "boxed (si_lower_bounds base) (si_upper_bounds base) r (at_flat base x) \<Longrightarrow>
      range_has (xm_range m) (member_value m x)"
    unfolding fields(2) by (intro CoverRowSided_covers) simp_all
  show "range_fin (xm_range m) \<and> range_has (xm_range m) 0"
    if "boxed (si_lower_bounds base) (si_upper_bounds base) r (at_flat base x)"
  proof -
    from ends [OF that] have "\<not> isnan (lo + Fin (fixed_part (ec_terms ec) r))" "\<not> isnan (hi + Fin (fixed_part (ec_terms ec) r))"
      by (cases lo; cases hi; simp)+
    moreover have "range_has ar_default 0" by (simp add: range_has_def ar_default_def zero_dbl_def)
    ultimately show ?thesis
      unfolding fields(2) using CoverRowSided_fin CoverRowSided_keeps ar_default_fin by simp
  qed
qed

section \<open>Groups\<close>

definition family_of :: "VarIndexer \<Rightarrow> SolverInput \<Rightarrow> EvaluatedConstraint \<Rightarrow> idx list \<Rightarrow> AuxRange" where
  "family_of vi input ec rows = fold (\<lambda>r a. Cover a (xm_range (mm_member vi input ec r))) rows ar_default"

lemma BuildMinMaxGroups_nth:
  assumes "g < mm_group_count ec" and rows: "rows = mm_rows ec (si_num_rows input) g"
  shows "BuildMinMaxGroups vi input ec ! g =
    \<lparr>mg_members = map (mm_member vi input ec) rows, mg_family = family_of vi input ec rows,
     mg_first_row = (if rows = [] then None else Some (hd rows))\<rparr>"
proof -
  have "fold (add_member vi input ec) rs \<lparr>mg_members = ms, mg_family = a, mg_first_row = q\<rparr> =
      \<lparr>mg_members = ms @ map (mm_member vi input ec) rs,
       mg_family = fold (\<lambda>r a. Cover a (xm_range (mm_member vi input ec r))) rs a,
       mg_first_row = (case q of Some p \<Rightarrow> Some p | None \<Rightarrow> if rs = [] then None else Some (hd rs))\<rparr>" for rs ms a q
    by (induction rs arbitrary: ms a q) (auto simp: add_member_def Let_def split: option.splits)
  then show ?thesis
    using by_group_nth [OF assms(1), of "replicate (mm_group_count ec) mg_default"] assms(1)
    by (simp add: BuildMinMaxGroups_def rows [symmetric] mg_default_def family_of_def)
qed

definition mm_point :: "SolverInput \<Rightarrow> (idx \<Rightarrow> real) \<Rightarrow> bool" where
  "mm_point base x \<longleftrightarrow> indexable base \<and>
     length (si_lower_bounds base) \<le> si_num_decide_vars base \<and>
     length (si_upper_bounds base) \<le> si_num_decide_vars base \<and>
     (\<forall>r < si_num_rows base. boxed (si_lower_bounds base) (si_upper_bounds base) r (at_flat base x))"

lemma mm_point_decisions: "on_decisions (BuildIndexer base) (mm_point base)"
proof (unfold on_decisions_def, intro allI impI)
  fix x x'
  assume agree: "agree_below (vi_global_block_start (BuildIndexer base)) x x'"
  show "mm_point base x' = mm_point base x"
  proof (cases "indexable base")
    case True
    from at_flat_agree [OF True _ _ agree] show ?thesis
      by (simp add: mm_point_def boxed_def cong: conj_cong)
  qed (simp add: mm_point_def)
qed

text \<open>The rows of one group as the emission reads them.\<close>

definition rows_ok :: "SolverInput \<Rightarrow> EvaluatedConstraint \<Rightarrow> idx list \<Rightarrow> bool" where
  "rows_ok base ec rows \<longleftrightarrow> indexable base \<and> vars_in ec (si_num_decide_vars base) \<and>
     (\<forall>r \<in> set rows. r < si_num_rows base \<and> terms_crisp (ec_terms ec) r \<and>
        list_all crisp (mr_coefficients (mm_link (BuildIndexer base) ec r)))"

lemma rows_ok_member:
  assumes ok: "rows_ok base ec rows" and input: "si_lower_bounds input = si_lower_bounds base"
      "si_upper_bounds input = si_upper_bounds base" and r: "r \<in> set rows"
  shows "member_ok (vi_global_block_start (BuildIndexer base)) (mm_member (BuildIndexer base) input ec r)"
    and "member_value (mm_member (BuildIndexer base) input ec r) x = rval (row_lhs ec (at_flat base x) r)"
    and "mm_point base y \<Longrightarrow> range_fin (xm_range (mm_member (BuildIndexer base) input ec r)) \<and>
      range_has (xm_range (mm_member (BuildIndexer base) input ec r)) 0"
    and "mm_point base x \<Longrightarrow>
      range_has (xm_range (mm_member (BuildIndexer base) input ec r)) (rval (row_lhs ec (at_flat base x) r))"
proof -
  have row: "indexable base" "r < si_num_rows base" "vars_in ec (si_num_decide_vars base)" "terms_crisp (ec_terms ec) r"
    "list_all crisp (mr_coefficients (mm_link (BuildIndexer base) ec r))"
    using ok r by (simp_all add: rows_ok_def)
  note facts = mm_member_facts [OF row input]
  show "member_ok (vi_global_block_start (BuildIndexer base)) (mm_member (BuildIndexer base) input ec r)"
    "member_value (mm_member (BuildIndexer base) input ec r) x = rval (row_lhs ec (at_flat base x) r)"
    by (fact facts(1), fact facts(2))
  show "mm_point base y \<Longrightarrow> range_fin (xm_range (mm_member (BuildIndexer base) input ec r)) \<and>
      range_has (xm_range (mm_member (BuildIndexer base) input ec r)) 0"
    using row(2) by (intro facts(3) [of y]) (simp add: mm_point_def)
  show "mm_point base x \<Longrightarrow>
      range_has (xm_range (mm_member (BuildIndexer base) input ec r)) (rval (row_lhs ec (at_flat base x) r))"
    using row(2) facts(4) [of x, unfolded facts(2)] by (simp add: mm_point_def)
qed

lemma family_of_covers:
  assumes ok: "rows_ok base ec rows" and input: "si_lower_bounds input = si_lower_bounds base"
      "si_upper_bounds input = si_upper_bounds base"
    and y: "mm_point base y"
  shows "range_fin (family_of (BuildIndexer base) input ec rows)"
    and "range_has (family_of (BuildIndexer base) input ec rows) 0"
    and "mm_point base x \<Longrightarrow> r \<in> set rows \<Longrightarrow>
      range_has (family_of (BuildIndexer base) input ec rows) (rval (row_lhs ec (at_flat base x) r))"
proof -
  let ?m = "mm_member (BuildIndexer base) input ec"
  have row: "range_fin (xm_range (?m r)) \<and> range_has (xm_range (?m r)) 0 \<and>
      (mm_point base x \<longrightarrow> range_has (xm_range (?m r)) (rval (row_lhs ec (at_flat base x) r)))"
    if "r \<in> set rows" for r x
    using rows_ok_member(3,4) [OF ok input that] y by blast
  have cover: "range_fin (fold (\<lambda>r a. Cover a (xm_range (?m r))) rs a) \<and>
      (range_has a v \<or> (\<exists>r \<in> set rs. range_has (xm_range (?m r)) v) \<longrightarrow>
       range_has (fold (\<lambda>r a. Cover a (xm_range (?m r))) rs a) v)"
    if "set rs \<subseteq> set rows" "range_fin a" for rs a v
    using that
  proof (induction rs arbitrary: a)
    case (Cons r rs)
    have fin: "range_fin (xm_range (?m r))" "range_has (xm_range (?m r)) 0" using row Cons.prems(1) by auto
    have "range_fin (Cover a (xm_range (?m r)))" using Cover_covers [OF Cons.prems(2) fin(1)] fin(2) by blast
    with Cons.IH [of "Cover a (xm_range (?m r))"] Cons.prems(1) Cover_covers [OF Cons.prems(2) fin(1), of v]
    show ?case by auto
  qed simp
  show "range_fin (family_of (BuildIndexer base) input ec rows)"
    "mm_point base x \<Longrightarrow> r \<in> set rows \<Longrightarrow>
      range_has (family_of (BuildIndexer base) input ec rows) (rval (row_lhs ec (at_flat base x) r))"
    using cover [of rows ar_default] row by (auto simp: family_of_def)
  have "range_has ar_default 0" by (simp add: range_has_def ar_default_def zero_dbl_def)
  then show "range_has (family_of (BuildIndexer base) input ec rows) 0"
    using cover [of rows ar_default 0] by (simp add: family_of_def)
qed

lemma reach_bound_keeps:
  assumes "reach_bound is_max K a = (b, oor)" "range_fin a"
  shows "range_fin b" "range_has a v \<Longrightarrow> range_has b v" "Unbounded b = Unbounded a"
  using assms
  by (cases "ar_hi a"; cases "ar_lo a"; cases K;
      auto simp: reach_bound_def range_fin_def range_has_def Unbounded_def split: if_splits)+

lemma open_demanded_end_has: "range_has a v \<Longrightarrow> range_has (open_demanded_end is_max a) v"
  by (auto simp: open_demanded_end_def MarkHiUnbounded_def MarkLoUnbounded_def range_has_def Let_def)

lemma span_bound:
  assumes "range_fin a" "\<not> Unbounded a" "range_has a u" "range_has a v"
  shows "\<bar>u - v\<bar> \<le> rval (Span a)" "\<exists>M \<ge> 0. Span a = Fin M"
  using assms by (cases "ar_lo a"; cases "ar_hi a"; force simp: range_fin_def range_has_def Unbounded_def Span_def)+

section \<open>One group\<close>

text \<open>The link of a group: at a point, exactly the values of its column an outer row is read at.\<close>

definition mm_side :: "bool \<Rightarrow> bool \<Rightarrow> real \<Rightarrow> real \<Rightarrow> bool" where
  "mm_side native is_max v e \<longleftrightarrow> (if native then v = e else if is_max then v \<le> e else e \<le> v)"

lemma group_link_holds:
  assumes "members \<noteq> []" "\<not> xs_need_envelope spec" "xs_need_closing spec"
    and "\<forall>m \<in> set members. \<forall>m' \<in> set members. \<not> xs_closing_underivable spec \<longrightarrow>
      \<bar>member_value m x - member_value m' x\<bar> \<le> rval (xs_closing_big_m spec)"
    and "UseNative policy (xs_closing_underivable spec) \<or> \<not> xs_closing_underivable spec"
  shows "link_holds policy spec members x \<longleftrightarrow>
    mm_side (UseNative policy (xs_closing_underivable spec)) (xs_is_max spec) (x (xs_result_column spec))
      (extremum (xs_is_max spec) ((\<lambda>m. member_value m x) ` set members))"
  using assms native_extremum [OF assms(1), of spec x] closing_extremum [OF assms(1), of x spec]
  by (auto simp: link_holds_def mm_side_def)

lemma outer_side_hide:
  assumes "\<And>v. v = e \<Longrightarrow> admits v"
  shows "(\<exists>v. admits v \<and> mm_side native is_max v e \<and> sat_sense (if is_max then Ge else Le) (Fin v) K) \<longleftrightarrow>
    sat_cmp (if is_max then COMPARE_GREATERTHANOREQUALTO else COMPARE_LESSTHANOREQUALTO) (Fin e) K"
proof -
  have mono: "sat_sense (if is_max then Ge else Le) (Fin e) K"
    if "mm_side native is_max v e" "sat_sense (if is_max then Ge else Le) (Fin v) K" for v
    using that by (cases K) (auto simp: mm_side_def split: if_splits)
  have "mm_side native is_max e e" by (simp add: mm_side_def)
  with mono assms show ?thesis by (cases is_max) auto
qed

lemma minmax_outer_row_sat:
  "sat_raw (minmax_outer_row ec is_max K z g) x \<longleftrightarrow> sat_sense (if is_max then Ge else Le) (Fin (x z)) K"
  by (simp add: sat_raw_def minmax_outer_row_def rc_default_def lin_val_def zero_dbl_def)

lemma sat_extremum_decisions:
  assumes "rows_ok base ec rows"
  shows "on_decisions (BuildIndexer base) (\<lambda>x. sat_extremum ec (at_flat base x) rows)"
proof -
  have "(\<lambda>r. rval (row_lhs ec (at_flat base x') r)) ` set rows = (\<lambda>r. rval (row_lhs ec (at_flat base x) r)) ` set rows"
    if agree: "agree_below (vi_global_block_start (BuildIndexer base)) x x'" for x x'
  proof (rule image_cong [OF refl])
    fix r assume "r \<in> set rows"
    note m = rows_ok_member [OF assms refl refl this]
    show "rval (row_lhs ec (at_flat base x') r) = rval (row_lhs ec (at_flat base x) r)"
      using member_value_agree [OF m(1) agree] by (simp add: m(2))
  qed
  then show ?thesis by (simp add: on_decisions_def sat_extremum_def)
qed

definition mm_group_ready :: "SolverInput \<Rightarrow> EvaluatedConstraint \<Rightarrow> idx list \<Rightarrow> SolverInput \<Rightarrow> bool" where
  "mm_group_ready base ec rows input \<longleftrightarrow> rows_ok base ec rows \<and> base_of input = base_of base \<and>
     (\<exists>y. mm_point base y) \<and> ec_comparison_type ec =
       (if is_max_clause ec then COMPARE_GREATERTHANOREQUALTO else COMPARE_LESSTHANOREQUALTO)"

lemma group_states:
  fixes base ec rows
  defines "vi \<equiv> BuildIndexer base"
  assumes wf: "well_formed vi input" and ready: "mm_group_ready base ec rows input"
    and add: "AddGlobalContinuousAux vi zr 0 label input = (mid, z)"
    and link: "EmitExtremumLink vi spec members var_names policy mid = Inr out"
    and spec: "xs_result_column spec = z" "xs_is_max spec = is_max_clause ec" "\<not> xs_need_envelope spec"
      "xs_need_closing spec"
    and rows: "rows \<noteq> []" "length members = length rows"
      "\<forall>i < length rows. xm_link (members ! i) = xm_link (mm_member vi input ec (rows ! i))"
    and ranges: "\<forall>x. mm_point base x \<longrightarrow> (\<forall>m \<in> set members. range_has (xm_range m) (member_value m x) \<and>
      range_has zr (member_value m x))"
    and lowered: "\<not> xs_closing_underivable spec \<longrightarrow> (\<exists>M \<ge> 0. xs_closing_big_m spec = Fin M) \<and>
      (\<forall>x. mm_point base x \<longrightarrow> (\<forall>m \<in> set members. \<forall>m' \<in> set members.
         \<bar>member_value m x - member_value m' x\<bar> \<le> rval (xs_closing_big_m spec)))"
  shows "states vi (mm_point base) (\<lambda>x. sat_extremum ec (at_flat base x) rows) input
    (append_flat [minmax_outer_row ec (is_max_clause ec) (cc_get (ec_rhs_values ec) (hd rows)) z g] [] out)"
proof -
  let ?n = "columns_end vi input" and ?A = "mm_point base" and ?max = "is_max_clause ec"
  let ?K = "cc_get (ec_rhs_values ec) (hd rows)" and ?out = "append_flat [minmax_outer_row ec (is_max_clause ec) (cc_get (ec_rhs_values ec) (hd rows)) z g] [] out"
  let ?native = "UseNative policy (xs_closing_underivable spec)"
  note facts = add_continuous_facts [OF add] and mid = add_continuous_wf [OF wf add]
  have ok: "globals_ok input" using wf by (simp add: well_formed_def)
  have rok: "rows_ok base ec rows" using ready by (simp add: mm_group_ready_def)
  have bounds: "si_lower_bounds input = si_lower_bounds base" "si_upper_bounds input = si_upper_bounds base"
    using ready base_of_eqD(4,5) [of input base] by (simp_all add: mm_group_ready_def)
  have ne: "members \<noteq> []" using rows(1,2) by auto
  have member: "\<exists>r \<in> set rows. xm_link m = xm_link (mm_member vi input ec r)" if "m \<in> set members" for m
    using that rows(2,3) by (metis in_set_conv_nth)
  have row: "\<exists>m \<in> set members. xm_link m = xm_link (mm_member vi input ec r)" if "r \<in> set rows" for r
    using that rows(2,3) by (metis in_set_conv_nth)
  have mval: "member_value m x = rval (row_lhs ec (at_flat base x) r)"
    if "xm_link m = xm_link (mm_member vi input ec r)" "r \<in> set rows" for m r x
    using rows_ok_member(2) [OF rok bounds that(2), of x] that(1) by (simp add: member_value_def vi_def)
  have vals: "(\<lambda>m. member_value m x) ` set members = (\<lambda>r. rval (row_lhs ec (at_flat base x) r)) ` set rows" for x
    using member row mval by (auto simp: image_iff) metis+
  have mok: "member_ok (vi_global_block_start vi) m" if "m \<in> set members" for m
  proof -
    obtain r where "r \<in> set rows" "xm_link m = xm_link (mm_member vi input ec r)" using member [OF \<open>m \<in> set members\<close>] by blast
    with rows_ok_member(1) [OF rok bounds] show ?thesis by (simp add: member_ok_def vi_def)
  qed
  have A: "on_decisions vi ?A" unfolding vi_def by (rule mm_point_decisions)
  have "?native \<or> \<not> xs_closing_underivable spec"
    using link ne spec(4) by (auto simp: EmitExtremumLink_def Let_def split: if_splits)
  note side = group_link_holds [OF ne spec(3,4) _ this]
  have "xs_result_column spec < columns_end vi mid" using mid(2) facts(2) spec(1) by simp
  moreover have "member_ok (columns_end vi mid) m" if "m \<in> set members" for m
    using mok [OF that] by (rule member_ok_less) (simp add: columns_end_def)
  ultimately have "link_ready (columns_end vi mid) ?A policy spec members"
    using on_decisions_columns [OF A] ranges lowered \<open>?native \<or> \<not> xs_closing_underivable spec\<close>
    by (auto simp: link_ready_def)
  note one = EmitExtremumLink_states [OF link mid(1) this]
  have two: "states vi ?A (sat_raw (minmax_outer_row ec ?max ?K z g)) out ?out"
  proof -
    have "well_formed vi out" using one by (simp add: states_def)
    moreover have "columns_end vi mid \<le> columns_end vi out" using one by (simp add: states_def columns_end_def)
    then have "z < columns_end vi out" using mid(2) facts(2) by simp
    ultimately show ?thesis by (intro states_append_row) (simp_all add: minmax_outer_row_def)
  qed
  have outer: "on_columns (columns_end vi mid) (sat_raw (minmax_outer_row ec ?max ?K z g))"
    using mid(2) facts(2) unfolding on_columns_def minmax_outer_row_sat by (simp add: agree_below_def)
  note both = states_trans_columns [OF one two on_decisions_columns [OF A] outer]
  note hidden = states_fresh [OF wf facts(1,3) add_continuous_ok(2) [OF add ok] facts(4-6) both]
  have point: "?A (x(?n := v)) = ?A x" for x v
    using on_decisionsD [OF A, of x "x(?n := v)"] by (simp add: agree_below_def columns_end_def)
  have upd: "member_value m (x(?n := v)) = member_value m x" if "m \<in> set members" for x v m
    using member_value_agree [OF mok [OF that], of x "x(?n := v)"] by (simp add: agree_below_def columns_end_def)
  have st: "states vi ?A (\<lambda>x. \<exists>v. column_admits mid (si_num_global_vars input) v \<and>
      link_holds policy spec members (x(?n := v)) \<and> sat_raw (minmax_outer_row ec ?max ?K z g) (x(?n := v))) input ?out"
    by (rule hidden) (simp add: point)
  have exact: "(\<exists>v. column_admits mid (si_num_global_vars input) v \<and>
      link_holds policy spec members (x(?n := v)) \<and> sat_raw (minmax_outer_row ec ?max ?K z g) (x(?n := v))) \<longleftrightarrow>
      sat_extremum ec (at_flat base x) rows" if x: "?A x" for x
  proof -
    let ?e = "extremum ?max ((\<lambda>m. member_value m x) ` set members)"
    have same: "(\<lambda>m. member_value m (x(?n := v))) ` set members = (\<lambda>m. member_value m x) ` set members" for v
      by (rule image_cong) (simp_all add: upd)
    have link_v: "link_holds policy spec members (x(?n := v)) \<longleftrightarrow> mm_side ?native ?max v ?e" for v
    proof -
      have "link_holds policy spec members (x(?n := v)) \<longleftrightarrow> mm_side ?native (xs_is_max spec)
          ((x(?n := v)) (xs_result_column spec)) (extremum (xs_is_max spec) ((\<lambda>m. member_value m (x(?n := v))) ` set members))"
        by (rule side) (use lowered x in \<open>simp add: upd\<close>)
      then show ?thesis unfolding same by (simp add: spec facts(2))
    qed
    have "?e \<in> (\<lambda>m. member_value m x) ` set members" using ne by (auto simp: extremum_def intro: Max_in Min_in)
    then have "range_has zr ?e" using ranges x by auto
    then have adm: "column_admits mid (si_num_global_vars input) ?e" by (rule add_continuous_admits [OF add ok])
    have "(\<exists>v. column_admits mid (si_num_global_vars input) v \<and> mm_side ?native ?max v ?e \<and>
        sat_sense (if ?max then Ge else Le) (Fin v) ?K) \<longleftrightarrow> sat_cmp (ec_comparison_type ec) (Fin ?e) ?K"
      using outer_side_hide [of ?e "column_admits mid (si_num_global_vars input)" ?native ?max ?K] adm ready
      by (simp add: mm_group_ready_def)
    then show ?thesis unfolding link_v minmax_outer_row_sat by (simp add: facts(2) sat_extremum_def vals)
  qed
  show ?thesis by (rule states_cong [OF st exact])
qed

lemma minmax_bound_first:
  assumes "mg_first_row grp = Some (hd rows)"
  shows "minmax_bound ec grp = cc_get (ec_rhs_values ec) (hd rows)"
  using assms by (simp add: minmax_bound_def IsUniform_get)

lemma append_flat_row: "append_flat rcs [] input = input\<lparr>si_global_constraints := si_global_constraints input @ rcs\<rparr>"
  by (simp add: append_flat_def)

lemma linearize_minmax_group_states:
  fixes base ec rows
  defines "vi \<equiv> BuildIndexer base"
  assumes wf: "well_formed vi input" and ready: "mm_group_ready base ec rows input" and rows: "rows \<noteq> []"
    and run: "linearize_minmax_group vi var_names policy ec (is_max_clause ec)
      \<lparr>mg_members = map (mm_member vi src ec) rows, mg_family = family_of vi src ec rows,
       mg_first_row = Some (hd rows)\<rparr> g input = Inr out"
    and src: "base_of src = base_of base"
  shows "states vi (mm_point base) (\<lambda>x. sat_extremum ec (at_flat base x) rows) input out"
proof -
  let ?max = "is_max_clause ec" and ?K = "cc_get (ec_rhs_values ec) (hd rows)"
  let ?family = "family_of vi src ec rows" and ?ms = "map (mm_member vi src ec) rows"
  obtain family oor where reach: "reach_bound ?max ?K ?family = (family, oor)" by force
  define opened where "opened \<longleftrightarrow> oor \<and> UseNative policy (Unbounded family)"
  define zr where "zr = (if opened then open_demanded_end ?max family else family)"
  define members where "members = (if opened
    then map (\<lambda>m. m\<lparr>xm_range := open_demanded_end ?max (xm_range m)\<rparr>) ?ms else ?ms)"
  obtain mid z where add: "AddGlobalContinuousAux vi zr 0 (MinMaxClauseLabel input ec) input = (mid, z)" by force
  have rok: "rows_ok base ec rows" and ex: "\<exists>y. mm_point base y" using ready by (auto simp: mm_group_ready_def)
  have bounds: "si_lower_bounds src = si_lower_bounds base" "si_upper_bounds src = si_upper_bounds base"
    "si_lower_bounds input = si_lower_bounds base" "si_upper_bounds input = si_upper_bounds base"
    using base_of_eqD(4,5) [OF src] base_of_eqD(4,5) [of input base] ready by (simp_all add: mm_group_ready_def)
  have bound: "minmax_bound ec \<lparr>mg_members = ?ms, mg_family = ?family, mg_first_row = Some (hd rows)\<rparr> = ?K"
    by (rule minmax_bound_first) simp
  have "linearize_minmax_group vi var_names policy ec ?max
      \<lparr>mg_members = ?ms, mg_family = ?family, mg_first_row = Some (hd rows)\<rparr> g input =
    (case EmitExtremumLink vi (minmax_spec mid ec ?max family z) members var_names policy mid of
       Inl e \<Rightarrow> Inl e | Inr linked \<Rightarrow> Inr (append_flat [minmax_outer_row ec ?max ?K z g] [] linked))"
    using rows
    by (simp only: linearize_minmax_group_def bound MinMaxGroup.simps Let_def reach case_prod_conv
        opened_def [symmetric] zr_def [symmetric] members_def [symmetric] add append_flat_row map_is_Nil_conv if_False)
  with run obtain linked where link: "EmitExtremumLink vi (minmax_spec mid ec ?max family z) members var_names policy mid = Inr linked"
    and out: "out = append_flat [minmax_outer_row ec ?max ?K z g] [] linked"
    by (auto split: sum.splits)
  obtain y where y: "mm_point base y" using ex by blast
  note family = family_of_covers [OF rok bounds(1,2) y, folded vi_def]
  note keeps = reach_bound_keeps [OF reach family(1)]
  have vals: "range_has (xm_range m) (member_value m x) \<and> range_has family (member_value m x)"
    if "m \<in> set members" "mm_point base x" for m x
  proof -
    have "\<exists>r \<in> set rows. m = mm_member vi src ec r \<or>
        m = (mm_member vi src ec r)\<lparr>xm_range := open_demanded_end ?max (xm_range (mm_member vi src ec r))\<rparr>"
      using that(1) by (auto simp: members_def split: if_splits)
    then obtain r where r: "r \<in> set rows" "m = mm_member vi src ec r \<or>
        m = (mm_member vi src ec r)\<lparr>xm_range := open_demanded_end ?max (xm_range (mm_member vi src ec r))\<rparr>" by blast
    note facts = rows_ok_member(2,4) [OF rok bounds(1,2) r(1), folded vi_def]
    have mval: "member_value m x = rval (row_lhs ec (at_flat base x) r)"
      using r(2) facts(1) [of x] by (auto simp: member_value_def)
    have "range_has (xm_range m) (member_value m x)"
      using r(2) facts(2) [OF that(2)] open_demanded_end_has unfolding mval by auto
    with family(3) [OF that(2) r(1)] keeps(2) show ?thesis unfolding mval by blast
  qed
  show ?thesis
    unfolding out vi_def
  proof (rule group_states [OF wf [unfolded vi_def] ready add [unfolded vi_def] link [unfolded vi_def]])
    show "length members = length rows" by (simp add: members_def)
    show "\<forall>i < length rows. xm_link (members ! i) = xm_link (mm_member (BuildIndexer base) input ec (rows ! i))"
      by (simp add: members_def mm_member_def bounds vi_def case_prod_unfold Let_def)
    show "\<forall>x. mm_point base x \<longrightarrow> (\<forall>m \<in> set members. range_has (xm_range m) (member_value m x) \<and> range_has zr (member_value m x))"
      using vals open_demanded_end_has by (simp add: zr_def)
    show "\<not> xs_closing_underivable (minmax_spec mid ec ?max family z) \<longrightarrow>
        (\<exists>M \<ge> 0. xs_closing_big_m (minmax_spec mid ec ?max family z) = Fin M) \<and>
        (\<forall>x. mm_point base x \<longrightarrow> (\<forall>m \<in> set members. \<forall>m' \<in> set members.
          \<bar>member_value m x - member_value m' x\<bar> \<le> rval (xs_closing_big_m (minmax_spec mid ec ?max family z))))"
      using span_bound [OF keeps(1)] vals keeps(2) [OF family(2)] by (auto simp: minmax_spec_def)
  qed (use rows in \<open>simp_all add: minmax_spec_def xs_default_def\<close>)
qed

section \<open>The groups of a clause\<close>

definition group_loop_ready :: "SolverInput \<Rightarrow> SolverInput \<Rightarrow> EvaluatedConstraint \<Rightarrow> idx \<Rightarrow> SolverInput \<Rightarrow> bool" where
  "group_loop_ready base src ec g input \<longleftrightarrow> g < mm_group_count ec \<and> base_of src = base_of base \<and>
     (mm_rows ec (si_num_rows base) g \<noteq> [] \<longrightarrow> mm_group_ready base ec (mm_rows ec (si_num_rows base) g) input)"

definition group_meaning :: "SolverInput \<Rightarrow> EvaluatedConstraint \<Rightarrow> idx \<Rightarrow> (idx \<Rightarrow> real) \<Rightarrow> bool" where
  "group_meaning base ec g x \<longleftrightarrow> (mm_rows ec (si_num_rows base) g \<noteq> [] \<longrightarrow>
     sat_extremum ec (at_flat base x) (mm_rows ec (si_num_rows base) g))"

lemma group_step_states:
  assumes wf: "well_formed (BuildIndexer base) input" and ready: "group_loop_ready base src ec g input"
    and run: "linearize_minmax_group (BuildIndexer base) var_names policy ec (is_max_clause ec)
      (BuildMinMaxGroups (BuildIndexer base) src ec ! g) g input = Inr out"
  shows "states (BuildIndexer base) (mm_point base) (group_meaning base ec g) input out"
proof -
  let ?rows = "mm_rows ec (si_num_rows base) g"
  have src: "base_of src = base_of base" and g: "g < mm_group_count ec" using ready by (simp_all add: group_loop_ready_def)
  note nth = BuildMinMaxGroups_nth [OF g, of ?rows src "BuildIndexer base", unfolded base_of_eqD(1) [OF src], OF refl]
  show ?thesis
  proof (cases "?rows = []")
    case True
    then have "out = input" using run by (simp add: nth linearize_minmax_group_def)
    moreover have "group_meaning base ec g = (\<lambda>x. True)" using True by (simp add: group_meaning_def fun_eq_iff)
    ultimately show ?thesis using states_refl [OF wf] by simp
  next
    case False
    then have "mm_group_ready base ec ?rows input" using ready by (simp add: group_loop_ready_def)
    from linearize_minmax_group_states [OF wf this False _ src] run False
    have "states (BuildIndexer base) (mm_point base) (\<lambda>x. sat_extremum ec (at_flat base x) ?rows) input out"
      by (simp add: nth)
    then show ?thesis by (rule states_cong) (simp add: group_meaning_def False)
  qed
qed

interpretation mm_groups: row_emitter
  "\<lambda>g. linearize_minmax_group (BuildIndexer base) var_names policy ec (is_max_clause ec)
     (BuildMinMaxGroups (BuildIndexer base) src ec ! g) g"
  "\<lambda>input. input" "BuildIndexer base" "mm_point base" "group_meaning base ec" "group_loop_ready base src ec"
  for base var_names policy ec src
proof
  fix g h input out
  show "on_decisions (BuildIndexer base) (mm_point base)" by (rule mm_point_decisions)
  show "on_decisions (BuildIndexer base) (group_meaning base ec g)" if "group_loop_ready base src ec g input"
  proof (cases "mm_rows ec (si_num_rows base) g = []")
    case False
    with that sat_extremum_decisions show ?thesis
      by (simp add: group_loop_ready_def mm_group_ready_def group_meaning_def on_decisions_def)
  qed (simp add: group_meaning_def on_decisions_def)
  show "states (BuildIndexer base) (mm_point base) (group_meaning base ec g) input out"
    if "well_formed (BuildIndexer base) input" "group_loop_ready base src ec g input"
      "linearize_minmax_group (BuildIndexer base) var_names policy ec (is_max_clause ec)
         (BuildMinMaxGroups (BuildIndexer base) src ec ! g) g input = Inr out"
    using that by (rule group_step_states)
  show "group_loop_ready base src ec g out"
    if "well_formed (BuildIndexer base) input" "group_loop_ready base src ec g input" "group_loop_ready base src ec h input"
      "linearize_minmax_group (BuildIndexer base) var_names policy ec (is_max_clause ec)
         (BuildMinMaxGroups (BuildIndexer base) src ec ! h) h input = Inr out"
    using states_base [OF group_step_states [OF that(1,3,4)]] that(2)
    by (simp add: group_loop_ready_def mm_group_ready_def)
qed

text \<open>All groups of what the classification left of a clause.\<close>

lemma minmax_groups_states:
  assumes wf: "well_formed (BuildIndexer base) input" and ok: "mm_clause_ok base ec" and idx: "indexable base"
    and base: "base_of input = base_of base" and ex: "\<exists>y. mm_point base y"
    and form: "ec' = ec \<or> ec' = keep_groups (si_num_rows base) keep ec"
    and run: "fold_res (\<lambda>g. linearize_minmax_group (BuildIndexer base) var_names policy ec' (is_max_clause ec')
        (BuildMinMaxGroups (BuildIndexer base) input ec' ! g) g)
      [0..<length (BuildMinMaxGroups (BuildIndexer base) input ec')] input = Inr out"
  shows "states (BuildIndexer base) (mm_point base) (\<lambda>x. sat_minmax base ec' (at_flat base x)) input out"
proof -
  let ?n = "si_num_rows base"
  have shape: "ec_shape (si_num_decide_vars base) ?n ec" using ok by (simp add: mm_clause_ok_def)
  have shape': "ec_shape (si_num_decide_vars base) ?n ec'" using form keep_groups_shape(1) [OF shape] shape by auto
  have fields: "ec_terms ec' = ec_terms ec" "ec_variable_indices ec' = ec_variable_indices ec"
    "ec_comparison_type ec' = ec_comparison_type ec" "is_max_clause ec' = is_max_clause ec"
    using form by (auto simp: is_max_clause_def)
  have "set (mm_rows ec' ?n g) \<subseteq> set (mm_rows ec ?n g)" for g
    using form keep_groups_rows [OF shape, of keep g] by auto
  then have active: "r < ?n \<and> row_active ec r" if "r \<in> set (mm_rows ec' ?n g)" for r g
    using that mm_rows_active by blast
  have "mm_link vi ec' r = mm_link vi ec r" for vi r by (simp add: mm_link_def fields)
  then have "rows_ok base ec' (mm_rows ec' ?n g)" for g
    using active ok idx by (auto simp: rows_ok_def fields vars_in_def mm_clause_ok_def ec_shape_def)
  then have ready: "\<forall>g \<in> set [0..<mm_group_count ec']. group_loop_ready base input ec' g input"
    using base ex ok by (simp add: group_loop_ready_def mm_group_ready_def fields mm_clause_ok_def)
  have len: "length (BuildMinMaxGroups (BuildIndexer base) input ec') = mm_group_count ec'"
    by (simp add: BuildMinMaxGroups_def)
  have "states (BuildIndexer base) (mm_point base) (\<lambda>x. \<forall>g \<in> set [0..<mm_group_count ec']. group_meaning base ec' g x) input out"
    using mm_groups.emits_all [OF wf ready run [unfolded len]] .
  then show ?thesis
    by (rule states_cong) (auto simp: sat_minmax_groups [OF shape'] group_meaning_def)
qed

section \<open>The clauses\<close>

definition is_minmax :: "EvaluatedConstraint \<Rightarrow> bool" where
  "is_minmax ec \<longleftrightarrow> ec_minmax_agg_type ec \<noteq> []"

definition classified :: "SolverInput \<Rightarrow> EvaluatedConstraint \<Rightarrow>
    bool \<times> EvaluatedConstraint \<times> EvaluatedConstraint list" where
  "classified base ec = ClassifyMinMaxGroups ec (si_num_rows base) (is_max_clause ec) []"

definition plain_left :: "SolverInput \<Rightarrow> EvaluatedConstraint \<Rightarrow> EvaluatedConstraint list" where
  "plain_left base ec = (if is_minmax ec then snd (snd (classified base ec)) else [ec])"

definition clause_left :: "SolverInput \<Rightarrow> EvaluatedConstraint \<Rightarrow> (idx \<Rightarrow> real) \<Rightarrow> bool" where
  "clause_left base ec x \<longleftrightarrow> (is_minmax ec \<longrightarrow> (let (encode, ec', _) = classified base ec
     in encode \<longrightarrow> sat_minmax base ec' (at_flat base x)))"

lemma ClassifyMinMaxGroups_append:
  "ClassifyMinMaxGroups ec n m new = (let (encode, ec', extra) = ClassifyMinMaxGroups ec n m [] in (encode, ec', new @ extra))"
  by (simp add: ClassifyMinMaxGroups_def Let_def)

lemma clause_parts:
  assumes "is_minmax ec \<longrightarrow> mm_clause_ok base ec"
  shows "sat_clause base ec (at_flat base x) \<longleftrightarrow>
    clause_left base ec x \<and> (\<forall>p \<in> set (plain_left base ec). sat_linear base p (at_flat base x))"
proof (cases "is_minmax ec")
  case True
  obtain encode ec' extra where run: "ClassifyMinMaxGroups ec (si_num_rows base) (is_max_clause ec) [] = (encode, ec', extra)"
    by (metis prod_cases3)
  from ClassifyMinMaxGroups_spec [OF _ refl run] assms True obtain extra' where
    "extra = [] @ extra'" "\<forall>p \<in> set extra'. \<forall>X. \<not> sat_linear base p X"
    "\<And>X. sat_minmax base ec X \<longleftrightarrow> extra' = [] \<and> (encode \<longrightarrow> sat_minmax base ec' X)" by blast
  with True show ?thesis
    by (cases extra) (auto simp: sat_clause_def clause_left_def plain_left_def classified_def run is_minmax_def)
qed (simp add: sat_clause_def clause_left_def plain_left_def is_minmax_def)

definition mm_ready :: "SolverInput \<Rightarrow> EvaluatedConstraint \<Rightarrow> EvaluatedConstraint list \<times> SolverInput \<Rightarrow> bool" where
  "mm_ready base ec s \<longleftrightarrow> base_of (snd s) = base_of base \<and> indexable base \<and> (\<exists>y. mm_point base y) \<and>
     (is_minmax ec \<longrightarrow> mm_clause_ok base ec)"

lemma mm_clause_step:
  assumes wf: "well_formed (BuildIndexer base) (snd s)" and ready: "mm_ready base ec s"
    and step: "linearize_minmax_clause (BuildIndexer base) var_names policy ec s = Inr s'"
  shows "states (BuildIndexer base) (mm_point base) (clause_left base ec) (snd s) (snd s')"
    and "fst s' = fst s @ plain_left base ec"
proof -
  obtain new input where s: "s = (new, input)" by force
  have base: "base_of input = base_of base" using ready by (simp add: mm_ready_def s)
  have n: "si_num_rows input = si_num_rows base" by (rule base_of_eqD(1) [OF base])
  obtain encode ec' extra where run: "ClassifyMinMaxGroups ec (si_num_rows base) (is_max_clause ec) [] = (encode, ec', extra)"
    by (metis prod_cases3)
  have "states (BuildIndexer base) (mm_point base) (clause_left base ec) (snd s) (snd s') \<and>
      fst s' = fst s @ plain_left base ec"
  proof (cases "is_minmax ec")
    case False
    then have "clause_left base ec = (\<lambda>x. True)" by (simp add: clause_left_def fun_eq_iff)
    with False show ?thesis
      using step states_refl [of "BuildIndexer base" input "mm_point base"] wf
      by (auto simp: s linearize_minmax_clause_def is_minmax_def plain_left_def)
  next
    case True
    then have ok: "mm_clause_ok base ec" using ready by (simp add: mm_ready_def)
    from ClassifyMinMaxGroups_spec [OF ok refl run] obtain keep where
      form: "ec' = ec \<or> ec' = keep_groups (si_num_rows base) keep ec" by blast
    then have same: "is_max_clause ec' = is_max_clause ec" by (auto simp: is_max_clause_def)
    have plain: "plain_left base ec = extra" using True by (simp add: plain_left_def classified_def run)
    have step': "(if \<not> encode then Inr (new @ extra, input)
        else case fold_res (\<lambda>g. linearize_minmax_group (BuildIndexer base) var_names policy ec' (is_max_clause ec')
               (BuildMinMaxGroups (BuildIndexer base) input ec' ! g) g)
             [0..<length (BuildMinMaxGroups (BuildIndexer base) input ec')] input of
          Inl e \<Rightarrow> Inl e | Inr out \<Rightarrow> Inr (new @ extra, out)) = Inr s'"
      using step True ClassifyMinMaxGroups_append [of ec "si_num_rows base" "is_max_clause ec" new]
      by (simp add: s linearize_minmax_clause_def is_minmax_def is_max_clause_def [symmetric] n run same Let_def
          cong: if_cong)
    show ?thesis
    proof (cases encode)
      case False
      then have "clause_left base ec = (\<lambda>x. True)" by (simp add: clause_left_def fun_eq_iff classified_def run)
      with False step' states_refl [of "BuildIndexer base" input "mm_point base"] wf plain show ?thesis
        by (auto simp: s)
    next
      case enc: True
      with step' obtain out where fold: "fold_res (\<lambda>g. linearize_minmax_group (BuildIndexer base) var_names policy ec' (is_max_clause ec')
               (BuildMinMaxGroups (BuildIndexer base) input ec' ! g) g)
             [0..<length (BuildMinMaxGroups (BuildIndexer base) input ec')] input = Inr out"
        and s': "s' = (new @ extra, out)" by (auto split: sum.splits)
      have "clause_left base ec = (\<lambda>x. sat_minmax base ec' (at_flat base x))"
        using True enc by (simp add: clause_left_def fun_eq_iff classified_def run)
      moreover have "states (BuildIndexer base) (mm_point base) (\<lambda>x. sat_minmax base ec' (at_flat base x)) input out"
        using minmax_groups_states [OF _ ok _ base _ form fold] wf ready by (simp add: mm_ready_def s)
      ultimately show ?thesis by (simp add: s s' plain)
    qed
  qed
  then show "states (BuildIndexer base) (mm_point base) (clause_left base ec) (snd s) (snd s')"
    "fst s' = fst s @ plain_left base ec" by simp_all
qed

lemma clause_left_decisions:
  assumes idx: "indexable base" and ok: "is_minmax ec \<longrightarrow> mm_clause_ok base ec"
  shows "on_decisions (BuildIndexer base) (clause_left base ec)"
proof (cases "is_minmax ec")
  case False
  then show ?thesis by (simp add: clause_left_def on_decisions_def)
next
  case True
  obtain encode ec' extra where run: "ClassifyMinMaxGroups ec (si_num_rows base) (is_max_clause ec) [] = (encode, ec', extra)"
    by (metis prod_cases3)
  from ClassifyMinMaxGroups_spec [OF _ refl run] ok True obtain keep where
    form: "ec' = ec \<or> ec' = keep_groups (si_num_rows base) keep ec" by blast
  have shape: "ec_shape (si_num_decide_vars base) (si_num_rows base) ec" using ok True by (simp add: mm_clause_ok_def)
  have "rows_ok base ec rows" if rows: "rows \<in> set (agg_row_sets ec' (si_num_rows base))" for rows
  proof -
    have "ec_shape (si_num_decide_vars base) (si_num_rows base) ec'"
      using form keep_groups_shape(1) [OF shape] shape by auto
    from agg_row_sets_mm [OF this rows] obtain g where "rows = mm_rows ec' (si_num_rows base) g" ..
    then have "set rows \<subseteq> set (mm_rows ec (si_num_rows base) g)"
      using form keep_groups_rows [OF shape, of keep g] by auto
    then have "r < si_num_rows base \<and> row_active ec r" if "r \<in> set rows" for r
      using that mm_rows_active by blast
    with ok True idx show ?thesis by (auto simp: rows_ok_def vars_in_def mm_clause_ok_def ec_shape_def)
  qed
  moreover have "sat_extremum ec' X rows = sat_extremum ec X rows" for X rows
    using form by (auto simp: sat_extremum_def is_max_clause_def)
  ultimately have "sat_minmax base ec' (at_flat base x') = sat_minmax base ec' (at_flat base x)"
    if "agree_below (vi_global_block_start (BuildIndexer base)) x x'" for x x'
    using on_decisionsD [OF sat_extremum_decisions that] by (simp add: sat_minmax_def)
  then show ?thesis by (simp add: clause_left_def on_decisions_def classified_def run)
qed

interpretation mm_clauses: row_emitter "linearize_minmax_clause (BuildIndexer base) var_names policy" snd
  "BuildIndexer base" "mm_point base" "clause_left base" "mm_ready base" for base var_names policy
proof
  fix ec ec2 s s'
  show "on_decisions (BuildIndexer base) (mm_point base)" by (rule mm_point_decisions)
  show "mm_ready base ec s \<Longrightarrow> on_decisions (BuildIndexer base) (clause_left base ec)"
    by (rule clause_left_decisions) (simp_all add: mm_ready_def)
  show "well_formed (BuildIndexer base) (snd s) \<Longrightarrow> mm_ready base ec s \<Longrightarrow>
      linearize_minmax_clause (BuildIndexer base) var_names policy ec s = Inr s' \<Longrightarrow>
      states (BuildIndexer base) (mm_point base) (clause_left base ec) (snd s) (snd s')"
    by (rule mm_clause_step(1))
  show "mm_ready base ec s'" if "well_formed (BuildIndexer base) (snd s)" "mm_ready base ec s" "mm_ready base ec2 s"
      "linearize_minmax_clause (BuildIndexer base) var_names policy ec2 s = Inr s'"
  proof -
    have "base_of (snd s') = base_of (snd s)" by (rule states_base [OF mm_clause_step(1) [OF that(1,3,4)]])
    with that(2) show ?thesis by (simp add: mm_ready_def)
  qed
qed

section \<open>The pass\<close>

lemma mm_clauses_plain:
  assumes "fold_res (linearize_minmax_clause (BuildIndexer base) var_names policy) ecs s = Inr s'"
    and "well_formed (BuildIndexer base) (snd s)" "\<forall>ec \<in> set ecs. mm_ready base ec s"
  shows "fst s' = fst s @ concat (map (plain_left base) ecs)"
  using assms
proof (induction ecs arbitrary: s)
  case (Cons ec ecs)
  from Cons.prems(1) obtain t where t: "linearize_minmax_clause (BuildIndexer base) var_names policy ec s = Inr t"
    "fold_res (linearize_minmax_clause (BuildIndexer base) var_names policy) ecs t = Inr s'"
    by (auto split: sum.splits)
  have ready: "mm_ready base ec s" using Cons.prems(3) by simp
  note step = mm_clause_step [OF Cons.prems(2) ready t(1)]
  have "well_formed (BuildIndexer base) (snd t)" using step(1) by (simp add: states_def)
  moreover have "\<forall>e \<in> set ecs. mm_ready base e t"
    using mm_clauses.keeps [OF Cons.prems(2) _ ready t(1)] Cons.prems(3) by simp
  ultimately show ?case using Cons.IH [OF t(2)] step(2) by simp
qed simp

lemma LinearizeMinMax_parts:
  assumes run: "LinearizeMinMaxConstraints (BuildIndexer input) var_names policy input = Inr out"
    and wf: "well_formed (BuildIndexer input) input" and x: "mm_point input x"
    and ok: "\<forall>ec \<in> set (si_constraints input). is_minmax ec \<longrightarrow> mm_clause_ok input ec"
  obtains mid where "out = mid\<lparr>si_constraints := concat (map (plain_left input) (si_constraints input))\<rparr>"
    "states (BuildIndexer input) (mm_point input)
       (\<lambda>x. \<forall>ec \<in> set (si_constraints input). clause_left input ec x) input mid"
proof -
  from run obtain new mid where fold: "fold_res (linearize_minmax_clause (BuildIndexer input) var_names policy)
      (si_constraints input) ([], input) = Inr (new, mid)" and out: "out = mid\<lparr>si_constraints := new\<rparr>"
    by (auto simp: LinearizeMinMaxConstraints_def split: sum.splits)
  have ready: "\<forall>ec \<in> set (si_constraints input). mm_ready input ec ([], input)"
    using ok x by (auto simp: mm_ready_def mm_point_def)
  have "new = concat (map (plain_left input) (si_constraints input))"
    using mm_clauses_plain [OF fold] wf ready by simp
  moreover have "states (BuildIndexer input) (mm_point input)
      (\<lambda>x. \<forall>ec \<in> set (si_constraints input). clause_left input ec x) input mid"
    using mm_clauses.emits_all [OF _ ready fold] wf by simp
  ultimately show ?thesis using that out by simp
qed

lemma EmitExtremumLink_base:
  assumes "EmitExtremumLink vi spec members var_names policy input = Inr out"
  shows "base_of out = base_of input"
proof -
  have rows: "base_of (input\<lparr>si_global_constraints := rcs\<rparr>) = base_of input"
    "base_of (input\<lparr>si_general_constraints := gcs\<rparr>) = base_of input" for rcs gcs and input :: SolverInput
    by (simp_all add: base_of_def)
  have arg: "base_of (fst (ExtremumArgumentColumn vi label clause removal m input)) = base_of input"
    for label clause removal m input
    using add_continuous_facts(1) by (auto simp: ExtremumArgumentColumn_cases append_flat_row rows split: option.splits prod.splits)
  have "base_of (emit_native vi spec members args input) = base_of input" for args input
    using arg by (induction members arbitrary: args input) (auto simp: rows split: prod.splits, metis fst_conv)
  moreover have "base_of (emit_closing vi spec members ys input) = base_of input" for ys input
    using add_binary_facts(1) by (induction members arbitrary: ys input) (auto simp: rows split: prod.splits)
  moreover have "base_of (emit_envelope spec members input) = base_of input"
    by (simp add: emit_envelope_append append_flat_row rows)
  ultimately show ?thesis
    using assms by (auto simp: EmitExtremumLink_def Let_def split: if_splits)
qed

text \<open>The families the pass needs a Big-M for have one.\<close>

definition families_derivable :: "SolverInput \<Rightarrow> EvaluatedConstraint \<Rightarrow> bool" where
  "families_derivable input ec = list_all (\<lambda>grp. \<not> Unbounded (mg_family grp))
     (BuildMinMaxGroups (BuildIndexer input) input (fst (snd (classified input ec))))"

lemma linearize_minmax_group_total:
  assumes "np_available policy \<or> \<not> Unbounded (mg_family grp)"
  shows "\<exists>out. linearize_minmax_group vi var_names policy ec is_max grp g input = Inr out \<and> base_of out = base_of input"
proof (cases "mg_members grp = []")
  case False
  obtain family oor where reach: "reach_bound is_max (minmax_bound ec grp) (mg_family grp) = (family, oor)" by force
  have "Unbounded family = Unbounded (mg_family grp)"
    using reach by (auto simp: reach_bound_def Unbounded_def split: if_splits)
  with assms have answers: "\<exists>out. EmitExtremumLink vi (minmax_spec mid ec is_max family z) ms var_names policy mid = Inr out" for mid z ms
    by (intro EmitExtremumLink_total) (auto simp: minmax_spec_def)
  define opened where "opened \<longleftrightarrow> oor \<and> UseNative policy (Unbounded family)"
  obtain mid z where add: "AddGlobalContinuousAux vi (if opened then open_demanded_end is_max family else family) 0
      (MinMaxClauseLabel input ec) input = (mid, z)" by force
  define ms where "ms = (if opened
    then map (\<lambda>m. m\<lparr>xm_range := open_demanded_end is_max (xm_range m)\<rparr>) (mg_members grp) else mg_members grp)"
  obtain out where out: "EmitExtremumLink vi (minmax_spec mid ec is_max family z) ms var_names policy mid = Inr out"
    using answers by blast
  have "linearize_minmax_group vi var_names policy ec is_max grp g input =
      Inr (append_flat [minmax_outer_row ec is_max (minmax_bound ec grp) z g] [] out)"
    using False
    by (simp only: linearize_minmax_group_def Let_def reach case_prod_conv opened_def [symmetric] add
        ms_def [symmetric] out sum.case if_False append_flat_row)
  moreover have "base_of (append_flat rcs [] out) = base_of input" for rcs
    using EmitExtremumLink_base [OF out] add_continuous_facts(1) [OF add] by (simp add: append_flat_row base_of_def)
  ultimately show ?thesis by simp
qed (simp add: linearize_minmax_group_def)

lemma linearize_minmax_clause_total:
  assumes "is_minmax ec \<longrightarrow> np_available policy \<or> families_derivable base ec" "base_of (snd s) = base_of base"
  shows "\<exists>t. linearize_minmax_clause (BuildIndexer base) var_names policy ec s = Inr t \<and> base_of (snd t) = base_of base"
proof -
  obtain new input where s: "s = (new, input)" by force
  obtain encode ec' extra where run: "ClassifyMinMaxGroups ec (si_num_rows base) (is_max_clause ec) [] = (encode, ec', extra)"
    by (metis prod_cases3)
  note base = base_of_eqD [OF assms(2) [unfolded s, simplified]]
  let ?groups = "BuildMinMaxGroups (BuildIndexer base) input ec'"
  have "mm_member (BuildIndexer base) input ec' r = mm_member (BuildIndexer base) base ec' r" for r
    by (simp add: mm_member_def base)
  then have "add_member (BuildIndexer base) input ec' = add_member (BuildIndexer base) base ec'"
    by (simp add: fun_eq_iff add_member_def)
  then have groups: "?groups = BuildMinMaxGroups (BuildIndexer base) base ec'" by (simp add: BuildMinMaxGroups_def base)
  show ?thesis
  proof (cases "is_minmax ec")
    case False
    with assms(2) show ?thesis by (simp add: s linearize_minmax_clause_def is_minmax_def)
  next
    case True
    have "np_available policy \<or> \<not> Unbounded (mg_family (?groups ! g))" if "g < length ?groups" for g
      using assms(1) True that
      by (auto simp: families_derivable_def classified_def run groups list_all_length)
    then have "\<exists>t. linearize_minmax_group (BuildIndexer base) var_names policy ec' (is_max_clause ec) (?groups ! g) g u = Inr t \<and>
        base_of t = base_of base" if "g < length ?groups" "base_of u = base_of base" for g u
      using that linearize_minmax_group_total [of policy "?groups ! g"] by metis
    then have "\<exists>t. fold_res (\<lambda>g. linearize_minmax_group (BuildIndexer base) var_names policy ec' (is_max_clause ec) (?groups ! g) g)
        [0..<length ?groups] input = Inr t \<and> base_of t = base_of base"
      using assms(2) s
      by (intro fold_res_total [where P = "\<lambda>t. base_of t = base_of base"]) simp_all
    then obtain t where "fold_res (\<lambda>g. linearize_minmax_group (BuildIndexer base) var_names policy ec' (is_max_clause ec) (?groups ! g) g)
        [0..<length ?groups] input = Inr t" "base_of t = base_of base" by blast
    then show ?thesis
      using True assms(2) ClassifyMinMaxGroups_append [of ec "si_num_rows base" "is_max_clause ec" new]
      by (cases encode) (simp_all add: s linearize_minmax_clause_def is_minmax_def is_max_clause_def [symmetric] base run)
  qed
qed

section \<open>Properties\<close>

text \<open>
  C10. MIN/MAX linearization is exact: at every point of the decision box, values for the fresh columns
  that meet the emitted rows exist, and the constraints left for the model builder hold, exactly when
  the rows that were there and every constraint hold, a tagged one as a comparison of the maximum or
  minimum of its left-hand side over each non-empty group. Both arms, the Big-M family and the native
  general constraint, are covered, and so are infinite bounds and bounds beyond the reach of a group.
\<close>

theorem minmax_constraints_exact:
  assumes "LinearizeMinMaxConstraints (BuildIndexer input) var_names policy input = Inr out"
    and "well_formed (BuildIndexer input) input" "mm_point input x"
    and "\<forall>ec \<in> set (si_constraints input). is_minmax ec \<longrightarrow> mm_clause_ok input ec"
  shows "(\<exists>x'. agree_below (columns_end (BuildIndexer input) input) x x' \<and>
            admits_new (BuildIndexer input) input out x' \<and> rows_hold out x') \<and>
         (\<forall>ec \<in> set (si_constraints out). sat_linear input ec (at_flat input x)) \<longleftrightarrow>
         rows_hold input x \<and> (\<forall>ec \<in> set (si_constraints input). sat_clause input ec (at_flat input x))"
proof -
  from LinearizeMinMax_parts [OF assms] obtain mid where
    out: "out = mid\<lparr>si_constraints := concat (map (plain_left input) (si_constraints input))\<rparr>"
    and mid: "states (BuildIndexer input) (mm_point input)
       (\<lambda>x. \<forall>ec \<in> set (si_constraints input). clause_left input ec x) input mid" .
  have "admits_new (BuildIndexer input) input out x' = admits_new (BuildIndexer input) input mid x'"
    "rows_hold out x' = rows_hold mid x'" for x'
    by (simp_all add: out admits_new_def column_admits_def rows_hold_def flat_rows_hold_def)
  with mid assms(3) have "(\<exists>x'. agree_below (columns_end (BuildIndexer input) input) x x' \<and>
      admits_new (BuildIndexer input) input out x' \<and> rows_hold out x') \<longleftrightarrow>
    rows_hold input x \<and> (\<forall>ec \<in> set (si_constraints input). clause_left input ec x)"
    by (simp add: states_def)
  then show ?thesis using clause_parts assms(4) by (auto simp: out)
qed

text \<open>
  The pass answers whenever the backend has a MIN/MAX construct, or every family it would encode
  has a derivable reach: the only refusal is a family open on some side with no construct to fall
  back on.
\<close>

theorem minmax_answers:
  assumes "\<forall>ec \<in> set (si_constraints input). is_minmax ec \<longrightarrow> np_available policy \<or> families_derivable input ec"
  shows "\<exists>out. LinearizeMinMaxConstraints (BuildIndexer input) var_names policy input = Inr out"
proof -
  have "\<exists>t. fold_res (linearize_minmax_clause (BuildIndexer input) var_names policy) (si_constraints input) ([], input) = Inr t \<and>
      base_of (snd t) = base_of input"
    using assms
    by (intro fold_res_total [where P = "\<lambda>t. base_of (snd t) = base_of input"] linearize_minmax_clause_total) simp_all
  then show ?thesis by (auto simp: LinearizeMinMaxConstraints_def)
qed

end
