(* ===== verification/MinMaxDemo.thy ===== *)
theory MinMaxDemo
  imports MinMaxExact
begin

text \<open>
  The MIN/MAX pass on a concrete query, \<open>MAX(x) >= 6\<close> over two rows of an integer variable in
  \<open>[0, 10]\<close> without a native construct, and the one place where the pass parts from its clause: it
  does not read whether the comparison is strict.
\<close>

section \<open>A hard maximum\<close>

definition demo_max_clause :: "ExpressionType \<Rightarrow> EvaluatedConstraint" where
  "demo_max_clause cmp = ec_default\<lparr>ec_variable_indices := [Some 0],
     ec_row_coefficients := [MakeScalar (Fin 1) 2], ec_linear_term_reductions := [RED_SUM],
     ec_rhs_values := MakeScalar (Fin 6) 2, ec_comparison_type := cmp,
     ec_minmax_agg_type := ''max'', ec_minmax_clause_idx := Some 0\<rparr>"

definition demo_mm :: "ExpressionType \<Rightarrow> SolverInput" where
  "demo_mm cmp = si_default\<lparr>si_num_rows := 2, si_num_decide_vars := 1, si_variable_types := [INTEGER],
     si_lower_bounds := [Fin 0], si_upper_bounds := [Fin 10],
     si_constraints := [demo_max_clause cmp]\<rparr>"

lemma demo_mm_simps:
  "si_num_rows (demo_mm c) = 2" "si_num_decide_vars (demo_mm c) = 1"
  "si_lower_bounds (demo_mm c) = [Fin 0]" "si_upper_bounds (demo_mm c) = [Fin 10]"
  "si_constraints (demo_mm c) = [demo_max_clause c]" "si_num_global_vars (demo_mm c) = 0"
  "si_entity_mappings (demo_mm c) = []" "si_variable_scopes (demo_mm c) = []"
  by (simp_all add: demo_mm_def si_default_def)

lemma demo_mm_clause_simps:
  "ec_terms (demo_max_clause c) = [(Some 0, MakeScalar (Fin 1) 2)]"
  "ec_row_group_ids (demo_max_clause c) = []" "ec_rhs_values (demo_max_clause c) = MakeScalar (Fin 6) 2"
  "ec_comparison_type (demo_max_clause c) = c" "ec_minmax_agg_type (demo_max_clause c) = ''max''"
  "ec_variable_indices (demo_max_clause c) = [Some 0]" "ec_row_coefficients (demo_max_clause c) = [MakeScalar (Fin 1) 2]"
  by (simp_all add: demo_max_clause_def ec_terms_def ec_default_def)

lemma demo_mm_scope: "scope_of (demo_mm c) v = ROW"
  by (simp add: scope_of_def demo_mm_simps)

lemma demo_mm_indexable: "indexable (demo_mm c)"
  by (simp add: indexable_def demo_mm_scope demo_mm_simps)

lemma demo_mm_get: "r < 2 \<Longrightarrow> Get (BuildIndexer (demo_mm c)) 0 r = r"
  by (simp add: Get_instance_of InstanceColumn_cases demo_mm_scope demo_mm_simps instance_of_def
      row_vars_def vars_of_def)

lemma demo_mm_well_formed: "well_formed (BuildIndexer (demo_mm c)) (demo_mm c)"
  by (simp add: well_formed_def globals_ok_def input_columns_def demo_mm_def si_default_def)

lemma demo_mm_link: "r < 2 \<Longrightarrow> mr_coefficients (mm_link (BuildIndexer (demo_mm c)) (demo_max_clause c) r) = [Fin (- 1)]"
  by (simp add: mm_link_def demo_mm_clause_simps AddColumn_def mr_default_def zero_dbl_def)

lemma demo_uniform: "IsUniform (MakeScalar v n)" "UniformValue (MakeScalar v n) = v"
  by (simp_all add: IsUniform_def UniformValue_def MakeScalar_def)

lemma demo_mm_ok: "mm_clause_ok (demo_mm COMPARE_GREATERTHANOREQUALTO) (demo_max_clause COMPARE_GREATERTHANOREQUALTO)"
  using demo_mm_link
  by (auto simp: mm_clause_ok_def demo_mm_simps demo_mm_clause_simps is_max_clause_def ec_shape_def
      RhsIsConstantWithinGroups_def demo_uniform terms_crisp_def crisp_def negligible_def)

definition demo_mm_point :: "real \<Rightarrow> idx \<Rightarrow> real" where
  "demo_mm_point peak c = (if c = 0 then peak else 2)"

lemma demo_mm_at: "r < 2 \<Longrightarrow> at_flat (demo_mm c) (demo_mm_point peak) 0 r = (if r = 0 then peak else 2)"
  using demo_mm_get by (simp add: at_flat_def demo_mm_point_def)

lemma demo_mm_in_box: "0 \<le> peak \<Longrightarrow> peak \<le> 10 \<Longrightarrow> mm_point (demo_mm c) (demo_mm_point peak)"
  using demo_mm_at by (auto simp: mm_point_def demo_mm_indexable demo_mm_simps boxed_def)

lemma demo_mm_derivable: "families_derivable (demo_mm c) (demo_max_clause c)"
proof -
  have count: "mm_group_count (demo_max_clause c) = 1" "group_of (demo_max_clause c) r = Some 0" for r
    by (simp_all add: mm_group_count_def group_of_def demo_mm_clause_simps)
  have range: "xm_range (mm_member vi (demo_mm c) (demo_max_clause c) r) =
      \<lparr>ar_lo = Fin 0, ar_hi = Fin 10, ar_lo_unbounded = False, ar_hi_unbounded = False, ar_unbounded_var = None\<rparr>" for vi r
    by (simp add: mm_member_def DecideRowSignedRange_def signed_range_step_def Let_def demo_mm_simps demo_mm_clause_simps
        DecideRowFixedLhsOffset_def negligible_def unbounded_above_def unbounded_below_def CoverRowSided_def
        ar_default_def dbl_arith)
  have "classified (demo_mm c) (demo_max_clause c) = (True, demo_max_clause c, [])"
    by (simp add: classified_def ClassifyMinMaxGroups_def Let_def by_group_def count demo_mm_simps numeral_2_eq_2
        ClassifyMinMaxBound_def DecideRowEffectiveBound_def DecideRowFixedLhsOffset_def demo_mm_clause_simps demo_uniform
        dbl_arith)
  then show ?thesis
    by (simp add: families_derivable_def BuildMinMaxGroups_def by_group_def count demo_mm_simps numeral_2_eq_2
        add_member_def Let_def mg_default_def range Cover_def Unbounded_def ar_default_def)
qed

lemma minmax_answers_witness:
  "\<exists>out. LinearizeMinMaxConstraints (BuildIndexer (demo_mm COMPARE_GREATERTHANOREQUALTO)) []
     \<lparr>np_available = False, np_forced = False\<rparr> (demo_mm COMPARE_GREATERTHANOREQUALTO) = Inr out"
  by (rule minmax_answers) (simp add: demo_mm_simps demo_mm_derivable)

lemma demo_mm_extremum: "sat_clause (demo_mm c) (demo_max_clause c) (at_flat (demo_mm c) (demo_mm_point 7)) = sat_cmp c (Fin 7) (Fin 6)"
proof -
  have "row_lhs (demo_max_clause c) (at_flat (demo_mm c) (demo_mm_point 7)) r = Fin (if r = 0 then 7 else 2)" if "r < 2" for r
    using demo_mm_at [OF that] by (simp add: row_lhs_def term_val_def demo_mm_clause_simps zero_dbl_def)
  then have "(\<lambda>r. rval (row_lhs (demo_max_clause c) (at_flat (demo_mm c) (demo_mm_point 7)) r)) ` {0..<2} = {7, 2}"
    by (simp add: numeral_2_eq_2 atLeast0_lessThan_Suc insert_commute)
  then show ?thesis
    by (simp add: sat_clause_def sat_minmax_def sat_extremum_def agg_row_sets_def demo_mm_simps demo_mm_clause_simps
        is_max_clause_def extremum_def)
qed

lemma minmax_constraints_exact_witness:
  "\<exists>out x'. LinearizeMinMaxConstraints (BuildIndexer (demo_mm COMPARE_GREATERTHANOREQUALTO)) []
     \<lparr>np_available = False, np_forced = False\<rparr> (demo_mm COMPARE_GREATERTHANOREQUALTO) = Inr out \<and> rows_hold out x'"
proof -
  let ?c = COMPARE_GREATERTHANOREQUALTO and ?policy = "\<lparr>np_available = False, np_forced = False\<rparr>"
  have "\<exists>t. fold_res (linearize_minmax_clause (BuildIndexer (demo_mm ?c)) [] ?policy) [demo_max_clause ?c] ([], demo_mm ?c) = Inr t"
  proof -
    obtain t where "linearize_minmax_clause (BuildIndexer (demo_mm ?c)) [] ?policy (demo_max_clause ?c) ([], demo_mm ?c) = Inr t"
      using linearize_minmax_clause_total [of "demo_max_clause ?c" ?policy "demo_mm ?c" "([], demo_mm ?c)" "[]"] demo_mm_derivable
      by auto
    then show ?thesis by simp
  qed
  then obtain out where run: "LinearizeMinMaxConstraints (BuildIndexer (demo_mm ?c)) [] ?policy (demo_mm ?c) = Inr out"
    by (auto simp: LinearizeMinMaxConstraints_def demo_mm_simps split: sum.splits)
  have "rows_hold (demo_mm ?c) x" for x
    by (simp add: rows_hold_def flat_rows_hold_def demo_mm_def si_default_def)
  moreover have "\<forall>ec \<in> set (si_constraints (demo_mm ?c)). is_minmax ec \<longrightarrow> mm_clause_ok (demo_mm ?c) ec"
    using demo_mm_ok by (simp add: demo_mm_simps)
  note minmax_constraints_exact [OF run demo_mm_well_formed demo_mm_in_box [of 7] this]
  ultimately show ?thesis using run demo_mm_extremum [of ?c] by (auto simp: demo_mm_simps)
qed

section \<open>Strict comparisons\<close>

lemma strict_fields:
  "ec_terms (ec\<lparr>ec_comparison_type := c\<rparr>) = ec_terms ec"
  "mm_group_count (ec\<lparr>ec_comparison_type := c\<rparr>) = mm_group_count ec"
  "group_of (ec\<lparr>ec_comparison_type := c\<rparr>) = group_of ec"
  "DecideRowEffectiveBound (ec\<lparr>ec_comparison_type := c\<rparr>) = DecideRowEffectiveBound ec"
  "mm_member vi input (ec\<lparr>ec_comparison_type := c\<rparr>) = mm_member vi input ec"
  "minmax_bound (ec\<lparr>ec_comparison_type := c\<rparr>) = minmax_bound ec"
  "MinMaxClauseLabel input (ec\<lparr>ec_comparison_type := c\<rparr>) = MinMaxClauseLabel input ec"
  "minmax_outer_row (ec\<lparr>ec_comparison_type := c\<rparr>) = minmax_outer_row ec"
  "minmax_spec input (ec\<lparr>ec_comparison_type := c\<rparr>) = minmax_spec input ec"
  by (simp_all add: ec_terms_def mm_group_count_def group_of_def fun_eq_iff DecideRowEffectiveBound_def mm_member_def
      mm_link_def DecideRowSignedRange_def minmax_bound_def MinMaxClauseLabel_def minmax_outer_row_def minmax_spec_def
      FindUnboundedContributor_def)

lemma strict_groups:
  "BuildMinMaxGroups vi input (ec\<lparr>ec_comparison_type := c\<rparr>) = BuildMinMaxGroups vi input ec"
  unfolding BuildMinMaxGroups_def by_group_def add_member_def [abs_def] strict_fields by (rule refl)

lemma strict_classify:
  "ClassifyMinMaxGroups (ec\<lparr>ec_comparison_type := c\<rparr>) n m [] =
     (let (encode, ec', extra) = ClassifyMinMaxGroups ec n m []
      in (encode, ec'\<lparr>ec_comparison_type := c\<rparr>, map (\<lambda>p. p\<lparr>ec_comparison_type := c\<rparr>) extra))"
proof -
  define marks where "marks = by_group ec (\<lambda>r _. (ClassifyMinMaxBound (DecideRowEffectiveBound ec r) m, True)) n
    (replicate (mm_group_count ec) (LINEARIZE, False))"
  have "by_group (ec\<lparr>ec_comparison_type := c\<rparr>)
      (\<lambda>r _. (ClassifyMinMaxBound (DecideRowEffectiveBound (ec\<lparr>ec_comparison_type := c\<rparr>) r) m, True)) n
      (replicate (mm_group_count (ec\<lparr>ec_comparison_type := c\<rparr>)) (LINEARIZE, False)) = marks"
    unfolding marks_def by_group_def strict_fields by (rule refl)
  then show ?thesis
    unfolding ClassifyMinMaxGroups_def Let_def marks_def [symmetric]
    by (cases "list_ex (\<lambda>(group_kind, group_active). group_active \<and> group_kind = VACUOUS) marks";
        cases "list_ex (\<lambda>(group_kind, group_active). group_active \<and> group_kind = NO_SOLUTION) marks") simp_all
qed

lemma strict_group:
  "linearize_minmax_group vi names policy (ec\<lparr>ec_comparison_type := c\<rparr>) m grp g =
     linearize_minmax_group vi names policy ec m grp g"
proof
  fix input
  show "linearize_minmax_group vi names policy (ec\<lparr>ec_comparison_type := c\<rparr>) m grp g input =
      linearize_minmax_group vi names policy ec m grp g input"
    unfolding linearize_minmax_group_def strict_fields by (rule refl)
qed

text \<open>
  The rows a MIN/MAX clause becomes do not depend on the comparison it is written with: \<open>MAX(x) > K\<close>
  and \<open>MAX(x) >= K\<close> leave the same rows, so an assignment whose maximum is \<open>K\<close> passes the strict
  clause.
\<close>

theorem minmax_ignores_comparison:
  "map_sum id snd (linearize_minmax_clause vi names policy (ec\<lparr>ec_comparison_type := c\<rparr>) s) =
     map_sum id snd (linearize_minmax_clause vi names policy ec s)"
proof (cases "ec_minmax_agg_type ec = []")
  case True
  then show ?thesis by (cases s) (simp add: linearize_minmax_clause_def)
next
  case False
  obtain new input where s: "s = (new, input)" by force
  let ?max = "ec_minmax_agg_type ec = ''max''"
  obtain encode ec' extra where run: "ClassifyMinMaxGroups ec (si_num_rows input) ?max [] = (encode, ec', extra)"
    by (metis prod_cases3)
  show ?thesis
    using False
      ClassifyMinMaxGroups_append [of ec "si_num_rows input" ?max new]
      ClassifyMinMaxGroups_append [of "ec\<lparr>ec_comparison_type := c\<rparr>" "si_num_rows input" ?max new]
    by (cases encode)
       (simp_all add: s linearize_minmax_clause_def strict_classify run strict_groups strict_group Let_def split: sum.splits)
qed

end
