(* ===== verification/Extensions.thy ===== *)
theory Extensions
  imports ExtremumLink
begin

text \<open>
  A pass that emits several auxiliaries goes through inputs that share the decision columns and differ
  in the global block. \<open>extends vi input out x x'\<close>: the point \<open>x'\<close> gives values to the columns \<open>out\<close> has
  beyond \<open>input\<close> such that their boxes and every row of \<open>out\<close> hold, and is \<open>x\<close> below them. A step
  \<open>narrows\<close> the extensions to those where a condition holds; steps compose. Adding a column, pinning
  one and stating a condition are such steps.

  \<open>best_over\<close> says what an objective over the fresh columns is worth: its optimum over the extensions
  of a point is attained.
\<close>

section \<open>Extensions of a point\<close>

definition extends :: "VarIndexer \<Rightarrow> SolverInput \<Rightarrow> SolverInput \<Rightarrow> (idx \<Rightarrow> real) \<Rightarrow> (idx \<Rightarrow> real) \<Rightarrow> bool" where
  "extends vi input out x x' \<longleftrightarrow>
     agree_below (columns_end vi input) x x' \<and> admits_new vi input out x' \<and> rows_hold out x'"

definition narrows :: "VarIndexer \<Rightarrow> SolverInput \<Rightarrow> ((idx \<Rightarrow> real) \<Rightarrow> bool) \<Rightarrow> ((idx \<Rightarrow> real) \<Rightarrow> bool) \<Rightarrow>
    SolverInput \<Rightarrow> SolverInput \<Rightarrow> bool" where
  "narrows vi input A Q mid out \<longleftrightarrow>
     well_formed vi out \<and> si_num_global_vars mid \<le> si_num_global_vars out \<and>
     (\<forall>x. A x \<longrightarrow>
        (\<forall>x'. extends vi input out x x' \<longrightarrow> extends vi input mid x x' \<and> Q x') \<and>
        (\<forall>y. extends vi input mid x y \<and> Q y \<longrightarrow>
           (\<exists>x'. extends vi input out x x' \<and> agree_below (columns_end vi mid) y x')))"

lemma extends_self:
  "well_formed vi input \<Longrightarrow> extends vi input input x x' \<longleftrightarrow> agree_below (columns_end vi input) x x' \<and> rows_hold input x'"
  by (auto simp: extends_def admits_new_def)

lemma narrows_refl: "well_formed vi mid \<Longrightarrow> narrows vi input A (\<lambda>y. True) mid mid"
  by (auto simp: narrows_def agree_below_refl)

lemma narrows_cong:
  assumes "narrows vi input A P mid out" "\<And>x y. A x \<Longrightarrow> extends vi input mid x y \<Longrightarrow> P y = Q y"
  shows "narrows vi input A Q mid out"
  using assms unfolding narrows_def by meson

lemma narrows_trans:
  assumes 1: "narrows vi input A P a b" and 2: "narrows vi input A Q b c" and Q: "on_columns (columns_end vi a) Q"
  shows "narrows vi input A (\<lambda>y. P y \<and> Q y) a c"
proof -
  have le: "si_num_global_vars a \<le> si_num_global_vars b" "si_num_global_vars b \<le> si_num_global_vars c"
    using 1 2 by (simp_all add: narrows_def)
  have "\<exists>x'. extends vi input c x x' \<and> agree_below (columns_end vi a) y x'"
    if x: "A x" and y: "extends vi input a x y" "P y" "Q y" for x y
  proof -
    obtain z where z: "extends vi input b x z" "agree_below (columns_end vi a) y z"
      using 1 x y(1,2) unfolding narrows_def by blast
    have "Q z" using y(3) on_columnsD [OF Q z(2)] by simp
    then obtain x' where x': "extends vi input c x x'" "agree_below (columns_end vi b) z x'"
      using 2 x z(1) unfolding narrows_def by blast
    have "agree_below (columns_end vi a) z x'"
      by (rule agree_below_less [OF x'(2)]) (simp add: columns_end_def le)
    with x'(1) agree_below_trans [OF z(2)] show ?thesis by blast
  qed
  with 1 2 le show ?thesis unfolding narrows_def by (meson le_trans)
qed

text \<open>Stating a condition narrows to it.\<close>

lemma admits_new_split:
  assumes "keeps_columns mid out" "si_num_global_vars input \<le> si_num_global_vars mid"
    "si_num_global_vars mid \<le> si_num_global_vars out"
  shows "admits_new vi input out x \<longleftrightarrow> admits_new vi input mid x \<and> admits_new vi mid out x"
proof -
  have "si_num_global_vars input \<le> g \<and> g < si_num_global_vars out \<longleftrightarrow>
      (si_num_global_vars input \<le> g \<and> g < si_num_global_vars mid) \<or>
      (si_num_global_vars mid \<le> g \<and> g < si_num_global_vars out)" for g
    using assms(2,3) by auto
  then show ?thesis by (auto simp: admits_new_def column_admits_kept [OF assms(1)])
qed

lemma narrows_states:
  assumes st: "states vi A P mid out" and A: "on_columns (columns_end vi input) A"
    and le: "si_num_global_vars input \<le> si_num_global_vars mid"
  shows "narrows vi input A P mid out"
proof -
  have le': "si_num_global_vars mid \<le> si_num_global_vars out" and keeps: "keeps_columns mid out"
    using st by (simp_all add: states_def)
  note split = admits_new_split [OF keeps le le', of vi]
  have ends: "columns_end vi input \<le> columns_end vi mid" using le by (simp add: columns_end_def)
  have sound: "extends vi input mid x x' \<and> P x'" if "A x" "extends vi input out x x'" for x x'
  proof -
    have "A x'" using that on_columnsD [OF A, of x x'] by (simp add: extends_def)
    then have "rows_hold mid x' \<and> P x'"
      using st that(2) agree_below_refl split unfolding states_def extends_def by blast
    with that(2) split show ?thesis by (simp add: extends_def)
  qed
  have complete: "\<exists>x'. extends vi input out x x' \<and> agree_below (columns_end vi mid) y x'"
    if x: "A x" and y: "extends vi input mid x y" "P y" for x y
  proof -
    have "A y" using x y on_columnsD [OF A, of x y] by (simp add: extends_def)
    then obtain x' where x': "agree_below (columns_end vi mid) y x'" "admits_new vi mid out x'" "rows_hold out x'"
      using st y unfolding states_def extends_def by blast
    have "agree_below (columns_end vi input) x x'"
      using y(1) agree_below_trans [OF _ agree_below_less [OF x'(1) ends]] by (simp add: extends_def)
    moreover have "admits_new vi input mid x'"
      using y(1) x'(1) by (auto simp: extends_def admits_new_def agree_below_def columns_end_def)
    ultimately show ?thesis using x' split by (auto simp: extends_def)
  qed
  show ?thesis using st le' sound complete by (auto simp: narrows_def states_def)
qed

section \<open>Columns and pins\<close>

text \<open>The values a continuous column boxed by a range takes, with \<open>1e30\<close> for an open end.\<close>

definition range_admits :: "AuxRange \<Rightarrow> real \<Rightarrow> bool" where
  "range_admits rg v \<longleftrightarrow>
     (ar_lo_unbounded rg \<or> ar_lo rg \<le> Fin (- (10 ^ 30)) \<or> ar_lo rg \<le> Fin v) \<and>
     (ar_hi_unbounded rg \<or> Fin (10 ^ 30) \<le> ar_hi rg \<or> Fin v \<le> ar_hi rg)"

lemma range_has_admits: "range_has rg v \<Longrightarrow> range_admits rg v"
  by (auto simp: range_has_def range_admits_def)

lemma add_continuous_column:
  assumes "AddGlobalContinuousAux vi rg obj label mid = (out, z)" "globals_ok mid"
  shows "column_admits out (si_num_global_vars mid) v \<longleftrightarrow> range_admits rg v"
  using assms
  by (auto simp: AddGlobalContinuousAux_def Let_def column_admits_def globals_ok_def nth_append range_admits_def)

lemma extends_add:
  assumes add: "AddGlobalContinuousAux vi rg obj label mid = (out, z)"
    and wf: "well_formed vi mid" and le: "si_num_global_vars input \<le> si_num_global_vars mid"
  shows "extends vi input out x x' \<longleftrightarrow> extends vi input mid x x' \<and> range_admits rg (x' z)"
proof -
  note facts = add_continuous_facts [OF add]
  have ok: "globals_ok mid" using wf by (simp add: well_formed_def)
  have "admits_new vi input out x' \<longleftrightarrow> admits_new vi input mid x' \<and> admits_new vi mid out x'"
    using add_continuous_ok(2) [OF add ok] le facts(3) by (intro admits_new_split) simp_all
  moreover have "si_num_global_vars mid \<le> g \<and> g < si_num_global_vars out \<longleftrightarrow> g = si_num_global_vars mid" for g
    using facts(3) by auto
  then have "admits_new vi mid out x' \<longleftrightarrow> range_admits rg (x' z)"
    using add_continuous_column [OF add ok] facts(2) by (simp add: admits_new_def columns_end_def)
  moreover have "rows_hold out x' = rows_hold mid x'" by (simp add: rows_hold_def flat_rows_hold_def facts(4-6))
  ultimately show ?thesis by (auto simp: extends_def)
qed

lemma extends_pin:
  assumes wf: "well_formed vi mid" and g: "si_num_global_vars input \<le> g" "g < si_num_global_vars mid"
    and type: "si_global_variable_types mid ! g \<noteq> BOOLEAN" and k: "\<bar>k\<bar> < 10 ^ 30" "column_admits mid g k"
  shows "extends vi input (PinGlobalAux vi (vi_global_block_start vi + g) (Fin k) mid) x x' \<longleftrightarrow>
     extends vi input mid x x' \<and> x' (vi_global_block_start vi + g) = k"
proof -
  let ?out = "PinGlobalAux vi (vi_global_block_start vi + g) (Fin k) mid" and ?c = "vi_global_block_start vi + g"
  have ok: "globals_ok mid" using wf by (simp add: well_formed_def)
  have other: "column_admits ?out h v = column_admits mid h v" if "h \<noteq> g" for h v
    using that by (simp add: column_admits_def PinGlobalAux_def)
  have here: "column_admits ?out g v \<longleftrightarrow> v = k" for v
    using ok g(2) k(1) type by (auto simp: column_admits_def PinGlobalAux_def globals_ok_def Let_def)
  have num: "si_num_global_vars ?out = si_num_global_vars mid" by (simp add: PinGlobalAux_def)
  have "admits_new vi input ?out x' \<longleftrightarrow> admits_new vi input mid x' \<and> x' ?c = k"
  proof
    assume new: "admits_new vi input ?out x'"
    then have "column_admits ?out g (x' ?c)" using g by (simp add: admits_new_def num)
    then have at: "x' ?c = k" using here by simp
    have "column_admits mid h (x' (vi_global_block_start vi + h))"
      if "si_num_global_vars input \<le> h" "h < si_num_global_vars mid" for h
      using new that other [of h] k(2) at by (cases "h = g") (auto simp: admits_new_def num)
    with at show "admits_new vi input mid x' \<and> x' ?c = k" by (simp add: admits_new_def)
  next
    assume new: "admits_new vi input mid x' \<and> x' ?c = k"
    have "column_admits ?out h (x' (vi_global_block_start vi + h))"
      if "si_num_global_vars input \<le> h" "h < si_num_global_vars mid" for h
      using new that other [of h] here by (cases "h = g") (auto simp: admits_new_def)
    then show "admits_new vi input ?out x'" by (simp add: admits_new_def num)
  qed
  moreover have "rows_hold ?out x' = rows_hold mid x'" by (simp add: rows_hold_def flat_rows_hold_def PinGlobalAux_def Let_def)
  ultimately show ?thesis by (auto simp: extends_def)
qed

lemma pin_wf: "well_formed vi mid \<Longrightarrow> well_formed vi (PinGlobalAux vi c v mid)"
  by (simp add: well_formed_def globals_ok_def PinGlobalAux_def Let_def input_columns_def columns_end_def)

lemma narrows_iff:
  assumes "well_formed vi out" "si_num_global_vars mid \<le> si_num_global_vars out"
    and "\<And>x x'. A x \<Longrightarrow> extends vi input out x x' \<longleftrightarrow> extends vi input mid x x' \<and> Q x'"
  shows "narrows vi input A Q mid out"
  using assms agree_below_refl unfolding narrows_def by blast

section \<open>The worth of an objective\<close>

definition no_better :: "bool \<Rightarrow> real \<Rightarrow> real \<Rightarrow> bool" where
  "no_better maximize v e \<longleftrightarrow> (if maximize then v \<le> e else e \<le> v)"

definition best_over :: "bool \<Rightarrow> ((idx \<Rightarrow> real) \<Rightarrow> real) \<Rightarrow> ((idx \<Rightarrow> real) \<Rightarrow> bool) \<Rightarrow> real \<Rightarrow> bool" where
  "best_over maximize F S e \<longleftrightarrow> (\<exists>x'. S x' \<and> F x' = e) \<and> (\<forall>x'. S x' \<longrightarrow> no_better maximize (F x') e)"

lemma best_over_unique: "best_over m F S e \<Longrightarrow> best_over m F S e' \<Longrightarrow> e = e'"
  by (auto simp: best_over_def no_better_def split: if_splits; force)

lemma no_better_refl [simp]: "no_better m v v"
  by (simp add: no_better_def)

lemma no_better_trans: "no_better m a b \<Longrightarrow> no_better m b c \<Longrightarrow> no_better m a c"
  by (auto simp: no_better_def split: if_splits)

lemma no_better_sum:
  "\<forall>g \<in> set gs. no_better m (f g) (h g) \<Longrightarrow> no_better m (\<Sum>g\<leftarrow>gs. f g) (\<Sum>g\<leftarrow>gs. h g)"
  by (induction gs) (auto simp: no_better_def split: if_splits)

lemma no_better_extremum:
  assumes "finite G" "G \<noteq> {}" "\<forall>g \<in> G. no_better m (f g) (h g)"
  shows "no_better m (extremum is_max (f ` G)) (extremum is_max (h ` G))"
proof -
  have "Max (u ` G) \<le> Max (v ` G) \<and> Min (u ` G) \<le> Min (v ` G)" if le: "\<forall>g \<in> G. u g \<le> v g" for u v :: "'a \<Rightarrow> real"
  proof
    have "u g \<le> Max (v ` G)" if "g \<in> G" for g
      using that le assms(1) by (meson Max_ge finite_imageI imageI order_trans)
    moreover have "Min (u ` G) \<le> v g" if "g \<in> G" for g
      using that le assms(1) by (meson Min_le finite_imageI imageI order_trans)
    ultimately show "Max (u ` G) \<le> Max (v ` G)" "Min (u ` G) \<le> Min (v ` G)" using assms(1,2) by simp_all
  qed
  with assms(3) show ?thesis by (auto simp: no_better_def extremum_def)
qed

end
