(* ===== verification/MinMaxObjective.thy ===== *)
theory MinMaxObjective
  imports GroupIndex Extensions
begin

text \<open>
  \<open>LinearizeMinMaxObjective\<close> of \<open>linearization_minmax.cpp\<close>: a MIN/MAX objective becomes an extremum
  column. The flat spelling has one, over the rows of the objective; the \<open>PER\<close> spelling
  \<open>OUTER(INNER(expr))\<close> has one per group for an inner MIN/MAX and one more for an outer MIN/MAX, whose
  members are the group columns or the group sums.

  Here: the definitions, with the lambdas of the source as functions over the saved objective, a list
  of pairs of a variable and a column. The theory \<open>MinMaxObjectiveExact\<close> says what the new objective
  is worth.
\<close>

section \<open>The specification of the objective\<close>

record MinMaxObjectiveSpec =
  mo_flat_agg :: ObjectiveAggregateType
  mo_flat_is_easy :: bool
  mo_per_inner_agg :: ObjectiveAggregateType
  mo_per_outer_agg :: ObjectiveAggregateType
  mo_per_inner_is_easy :: bool
  mo_per_outer_is_easy :: bool
  mo_per_inner_was_avg :: bool
  mo_has_when :: bool
  mo_when_mask :: "bool list"

definition mo_default :: MinMaxObjectiveSpec where
  "mo_default = \<lparr>mo_flat_agg = NO_AGG, mo_flat_is_easy = False, mo_per_inner_agg = NO_AGG,
     mo_per_outer_agg = NO_AGG, mo_per_inner_is_easy = False, mo_per_outer_is_easy = False,
     mo_per_inner_was_avg = False, mo_has_when = False, mo_when_mask = []\<rparr>"

section \<open>Ranges of the saved objective\<close>

record SavedRowRange =
  sr_lo :: dbl
  sr_hi :: dbl
  sr_unbounded_var :: "idx option"

definition first_blame :: "idx \<Rightarrow> SavedRowRange \<Rightarrow> SavedRowRange" where
  "first_blame v out = (if sr_unbounded_var out = None then out\<lparr>sr_unbounded_var := Some v\<rparr> else out)"

definition saved_range_step :: "dbl list \<Rightarrow> dbl list \<Rightarrow> idx \<Rightarrow> idx option \<times> coefficient_column \<Rightarrow>
    SavedRowRange \<Rightarrow> SavedRowRange" where
  "saved_range_step lower upper r = (\<lambda>(var, col) out.
     let c = cc_get col r
     in if \<bar>c\<bar> < Fin (1 / 10 ^ 15) then out
        else case var of
          None \<Rightarrow> out\<lparr>sr_lo := sr_lo out + c, sr_hi := sr_hi out + c\<rparr>
        | Some v \<Rightarrow>
            let lb = lower ! v; ub = upper ! v;
                lb_open = unbounded_below lb; ub_open = unbounded_above ub;
                lo_from_ub = c < 0;
                out = (if if lo_from_ub then ub_open else lb_open
                       then (first_blame v out)\<lparr>sr_lo := NInf\<rparr>
                       else out\<lparr>sr_lo := sr_lo out + (if lo_from_ub then c * ub else c * lb)\<rparr>)
            in if if lo_from_ub then lb_open else ub_open
               then (first_blame v out)\<lparr>sr_hi := PInf\<rparr>
               else out\<lparr>sr_hi := sr_hi out + (if lo_from_ub then c * lb else c * ub)\<rparr>)"

definition saved_row_range :: "dbl list \<Rightarrow> dbl list \<Rightarrow> row_terms \<Rightarrow> idx \<Rightarrow> SavedRowRange" where
  "saved_row_range lower upper terms r =
     fold (saved_range_step lower upper r) terms \<lparr>sr_lo = 0, sr_hi = 0, sr_unbounded_var = None\<rparr>"

definition cover_saved :: "SavedRowRange \<Rightarrow> AuxRange \<Rightarrow> AuxRange" where
  "cover_saved rr a = CoverRowSided (sr_lo rr) (sr_hi rr) (sr_unbounded_var rr) a"

definition row_family :: "SolverInput \<Rightarrow> row_terms \<Rightarrow> AuxRange" where
  "row_family input terms =
     fold (\<lambda>r. cover_saved (saved_row_range (si_lower_bounds input) (si_upper_bounds input) terms r))
       [0..<si_num_rows input] ar_default"

definition row_range_for :: "SolverInput \<Rightarrow> row_terms \<Rightarrow> idx \<Rightarrow> AuxRange" where
  "row_range_for input terms row =
     cover_saved (saved_row_range (si_lower_bounds input) (si_upper_bounds input) terms row) ar_default"

definition objective_link :: "idx \<Rightarrow> bool \<Rightarrow> bool \<Rightarrow> AuxRange \<Rightarrow> ExtremumLinkSpec" where
  "objective_link result_column is_max is_easy family = xs_default\<lparr>
     xs_result_column := result_column, xs_is_max := is_max,
     xs_need_envelope := is_easy, xs_need_closing := \<not> is_easy,
     xs_closing_underivable := Unbounded family,
     xs_closing_big_m := (if Unbounded family then 0 else Span family),
     xs_blame_var := ar_unbounded_var family\<rparr>"

section \<open>Members\<close>

text \<open>One coefficient of a row, negated into the linking row; a constant lands on the bound.\<close>

definition add_negated :: "VarIndexer \<Rightarrow> idx \<Rightarrow> idx option \<Rightarrow> dbl \<Rightarrow> MinMaxLinkRow \<Rightarrow> MinMaxLinkRow" where
  "add_negated vi row var coeff link =
     (case var of
        None \<Rightarrow> link\<lparr>mr_constant := mr_constant link + coeff\<rparr>
      | Some v \<Rightarrow> AddColumn (Get vi v row) (- coeff) link)"

definition AddObjectiveRowTerms :: "VarIndexer \<Rightarrow> row_terms \<Rightarrow> idx \<Rightarrow> dbl \<Rightarrow> MinMaxLinkRow \<Rightarrow> MinMaxLinkRow" where
  "AddObjectiveRowTerms vi terms row scale link =
     fold (\<lambda>(var, col) link. let coeff = cc_get col row * scale
             in if \<bar>coeff\<bar> < Fin (1 / 10 ^ 15) then link else add_negated vi row var coeff link) terms link"

definition has_nonzero :: "row_terms \<Rightarrow> idx \<Rightarrow> bool" where
  "has_nonzero terms row = list_ex (\<lambda>(var, col). \<bar>cc_get col row\<bar> \<ge> Fin (1 / 10 ^ 15)) terms"

definition objective_member :: "VarIndexer \<Rightarrow> SolverInput \<Rightarrow> row_terms \<Rightarrow> idx \<Rightarrow> ExtremumMember" where
  "objective_member vi input terms row =
     \<lparr>xm_link = AddObjectiveRowTerms vi terms row 1 mr_default, xm_range = row_range_for input terms row\<rparr>"

definition clear_objective :: "SolverInput \<Rightarrow> SolverInput" where
  "clear_objective input = input\<lparr>si_objective_coefficients := [], si_objective_variable_indices := []\<rparr>"

section \<open>The flat spelling\<close>

definition active_rows :: "MinMaxObjectiveSpec \<Rightarrow> row_terms \<Rightarrow> nat \<Rightarrow> idx list" where
  "active_rows spec terms num_rows =
     filter (\<lambda>row. \<not> (mo_has_when spec \<and> \<not> mo_when_mask spec ! row) \<and> has_nonzero terms row) [0..<num_rows]"

definition flat_objective :: "VarIndexer \<Rightarrow> MinMaxObjectiveSpec \<Rightarrow> string list \<Rightarrow> NativeConstructPolicy \<Rightarrow>
    row_terms \<Rightarrow> SolverInput \<Rightarrow> SolverInput res" where
  "flat_objective vi spec var_names policy terms input =
     (let rows = active_rows spec terms (si_num_rows input); family = row_family input terms
      in if rows = [] then Inl NoActiveRows
         else let (input, z_idx) = AddGlobalContinuousAux vi family 1 [] input;
                  input = clear_objective input
              in EmitExtremumLink vi (objective_link z_idx (mo_flat_agg spec \<noteq> MIN_AGG) (mo_flat_is_easy spec) family)
                   (map (objective_member vi input terms) rows) var_names policy input)"

section \<open>The \<open>PER\<close> spelling\<close>

definition objective_groups :: "SolverInput \<Rightarrow> idx list list" where
  "objective_groups input =
     (let csr = BuildGroupCSR (si_objective_row_group_ids input) (si_objective_num_groups input) ([], [])
      in map (csr_bucket csr) [0..<si_objective_num_groups input])"

text \<open>The group columns of an inner MIN/MAX, then each tied to the active rows of its group or pinned.\<close>

primrec add_group_columns :: "VarIndexer \<Rightarrow> AuxRange \<Rightarrow> nat \<Rightarrow> SolverInput \<Rightarrow> SolverInput \<times> idx list" where
  "add_group_columns vi family 0 input = (input, [])"
| "add_group_columns vi family (Suc k) input =
     (let (input, z) = AddGlobalContinuousAux vi family 0 [] input;
          (input, zs) = add_group_columns vi family k input
      in (input, z # zs))"

definition inner_group :: "VarIndexer \<Rightarrow> MinMaxObjectiveSpec \<Rightarrow> string list \<Rightarrow> NativeConstructPolicy \<Rightarrow>
    row_terms \<Rightarrow> idx \<times> idx list \<Rightarrow> SolverInput \<Rightarrow> SolverInput res" where
  "inner_group vi spec var_names policy terms = (\<lambda>(z, rows) input.
     let active = filter (has_nonzero terms) rows
     in if active = [] then Inr (PinGlobalAux vi z 0 input)
        else EmitExtremumLink vi
               (objective_link z (mo_per_inner_agg spec \<noteq> MIN_AGG) (mo_per_inner_is_easy spec) (row_family input terms))
               (map (objective_member vi input terms) active) var_names policy input)"

definition inner_minmax :: "VarIndexer \<Rightarrow> MinMaxObjectiveSpec \<Rightarrow> string list \<Rightarrow> NativeConstructPolicy \<Rightarrow>
    row_terms \<Rightarrow> SolverInput \<Rightarrow> (SolverInput \<times> idx list) res" where
  "inner_minmax vi spec var_names policy terms input =
     (let groups = objective_groups input;
          (input, zs) = add_group_columns vi (row_family input terms) (si_objective_num_groups input) input
      in case fold_res (inner_group vi spec var_names policy terms) (zip zs groups) input of
           Inl e \<Rightarrow> Inl e
         | Inr input \<Rightarrow> Inr (input, zs))"

text \<open>An outer SUM over the group columns, and an outer MIN/MAX over them.\<close>

definition outer_sum :: "VarIndexer \<Rightarrow> idx list \<Rightarrow> SolverInput \<Rightarrow> SolverInput" where
  "outer_sum vi zs input =
     fold (\<lambda>z input. input\<lparr>si_global_obj_coeffs := (si_global_obj_coeffs input)[z - vi_global_block_start vi := 1]\<rparr>)
       zs input"

definition column_member :: "AuxRange \<Rightarrow> idx \<Rightarrow> ExtremumMember" where
  "column_member family z = \<lparr>xm_link = AddColumn z (- 1) mr_default, xm_range = family\<rparr>"

definition outer_minmax :: "VarIndexer \<Rightarrow> MinMaxObjectiveSpec \<Rightarrow> string list \<Rightarrow> NativeConstructPolicy \<Rightarrow>
    row_terms \<Rightarrow> idx list \<Rightarrow> SolverInput \<Rightarrow> SolverInput res" where
  "outer_minmax vi spec var_names policy terms zs input =
     (let family = row_family input terms;
          (input, w_idx) = AddGlobalContinuousAux vi family 1 [] input
      in EmitExtremumLink vi (objective_link w_idx (mo_per_outer_agg spec \<noteq> MIN_AGG) (mo_per_outer_is_easy spec) family)
           (map (column_member family) zs) var_names policy input)"

text \<open>Inner AVG under an outer SUM: every row of a group is scaled by the size of the group.\<close>

definition average_column :: "idx option list \<Rightarrow> idx list list \<Rightarrow> nat \<Rightarrow> coefficient_column \<Rightarrow> coefficient_column" where
  "average_column row_groups groups num_rows col =
     (let d = EnsureDense col
      in d\<lparr>dense_values := fold (\<lambda>row dense. case row_groups ! row of
                 None \<Rightarrow> dense
               | Some g \<Rightarrow> dense[row := dense ! row / Fin (real (length (groups ! g)))])
             [0..<num_rows] (dense_values d)\<rparr>)"

text \<open>Outer MIN/MAX over group sums, with the factor of an inner AVG.\<close>

definition group_scale :: "MinMaxObjectiveSpec \<Rightarrow> idx list \<Rightarrow> dbl" where
  "group_scale spec rows = (if mo_per_inner_was_avg spec then 1 / Fin (real (length rows)) else 1)"

definition group_sum_range :: "MinMaxObjectiveSpec \<Rightarrow> dbl list \<Rightarrow> dbl list \<Rightarrow> row_terms \<Rightarrow> idx list \<Rightarrow> SavedRowRange" where
  "group_sum_range spec lower upper terms rows =
     fold (\<lambda>row g. let rr = saved_row_range lower upper terms row
             in \<lparr>sr_lo = sr_lo g + sr_lo rr * group_scale spec rows,
                 sr_hi = sr_hi g + sr_hi rr * group_scale spec rows,
                 sr_unbounded_var = (case sr_unbounded_var g of None \<Rightarrow> sr_unbounded_var rr | Some v \<Rightarrow> Some v)\<rparr>)
       rows \<lparr>sr_lo = 0, sr_hi = 0, sr_unbounded_var = None\<rparr>"

definition group_sum_family :: "MinMaxObjectiveSpec \<Rightarrow> SolverInput \<Rightarrow> row_terms \<Rightarrow> idx list list \<Rightarrow> AuxRange" where
  "group_sum_family spec input terms groups =
     fold (\<lambda>rows. cover_saved (group_sum_range spec (si_lower_bounds input) (si_upper_bounds input) terms rows))
       groups ar_default"

definition sum_member :: "VarIndexer \<Rightarrow> MinMaxObjectiveSpec \<Rightarrow> row_terms \<Rightarrow> AuxRange \<Rightarrow> idx list \<Rightarrow> ExtremumMember" where
  "sum_member vi spec terms family rows =
     \<lparr>xm_link = fold (\<lambda>row. AddObjectiveRowTerms vi terms row (group_scale spec rows)) rows mr_default,
      xm_range = family\<rparr>"

definition keeps_member :: "MinMaxObjectiveSpec \<Rightarrow> ExtremumMember \<Rightarrow> bool" where
  "keeps_member spec member \<longleftrightarrow> \<not> (mo_per_outer_is_easy spec \<and> HasNoColumns (xm_link member) \<and>
     \<bar>mr_constant (xm_link member)\<bar> < Fin (1 / 10 ^ 15))"

definition outer_minmax_sums :: "VarIndexer \<Rightarrow> MinMaxObjectiveSpec \<Rightarrow> string list \<Rightarrow> NativeConstructPolicy \<Rightarrow>
    row_terms \<Rightarrow> SolverInput \<Rightarrow> SolverInput res" where
  "outer_minmax_sums vi spec var_names policy terms input =
     (let groups = objective_groups input;
          family = group_sum_family spec input terms groups;
          (input, w_idx) = AddGlobalContinuousAux vi family 1 [] input;
          members = filter (keeps_member spec) (map (sum_member vi spec terms family) groups)
      in if members = [] then Inr (PinGlobalAux vi w_idx 0 input)
         else EmitExtremumLink vi
                (objective_link w_idx (mo_per_outer_agg spec \<noteq> MIN_AGG) (mo_per_outer_is_easy spec) family)
                members var_names policy input)"

definition is_minmax_agg :: "ObjectiveAggregateType \<Rightarrow> bool" where
  "is_minmax_agg agg \<longleftrightarrow> agg = MIN_AGG \<or> agg = MAX_AGG"

definition per_objective :: "VarIndexer \<Rightarrow> MinMaxObjectiveSpec \<Rightarrow> string list \<Rightarrow> NativeConstructPolicy \<Rightarrow>
    idx option list \<Rightarrow> coefficient_column list \<Rightarrow> SolverInput \<Rightarrow> SolverInput res" where
  "per_objective vi spec var_names policy vars cols input =
     (let terms = zip vars cols; input = clear_objective input
      in if is_minmax_agg (mo_per_inner_agg spec) then
           (case inner_minmax vi spec var_names policy terms input of
              Inl e \<Rightarrow> Inl e
            | Inr (input, zs) \<Rightarrow>
                if mo_per_outer_agg spec = SUM_AGG then Inr (outer_sum vi zs input)
                else if is_minmax_agg (mo_per_outer_agg spec)
                then outer_minmax vi spec var_names policy terms zs input
                else Inr input)
         else if mo_per_outer_agg spec = SUM_AGG then
           Inr (input\<lparr>si_objective_coefficients :=
                        (if mo_per_inner_was_avg spec
                         then map (average_column (si_objective_row_group_ids input) (objective_groups input)
                                     (si_num_rows input)) cols
                         else cols),
                      si_objective_variable_indices := vars\<rparr>)
         else if is_minmax_agg (mo_per_outer_agg spec)
         then outer_minmax_sums vi spec var_names policy terms input
         else Inr input)"

definition LinearizeMinMaxObjective :: "VarIndexer \<Rightarrow> MinMaxObjectiveSpec \<Rightarrow> string list \<Rightarrow> NativeConstructPolicy \<Rightarrow>
    SolverInput \<Rightarrow> SolverInput res" where
  "LinearizeMinMaxObjective vi spec var_names policy input =
     (let vars = si_objective_variable_indices input; cols = si_objective_coefficients input
      in if mo_per_inner_agg spec \<noteq> NO_AGG \<and> vars \<noteq> [] \<and> si_objective_num_groups input > 0
         then per_objective vi spec var_names policy vars cols input
         else if mo_flat_agg spec \<noteq> NO_AGG \<and> vars \<noteq> []
         then flat_objective vi spec var_names policy (zip vars cols) input
         else Inr input)"

end
