(* ===== verification/MinMaxObjectiveExact.thy ===== *)
theory MinMaxObjectiveExact
  imports MinMaxObjective MinMaxExact ModelObjective
begin

text \<open>
  What \<open>LinearizeMinMaxObjective\<close> leaves is worth what the objective says: over the values the fresh
  columns may take at a point, the best value of the new objective is the extremum, the sum of the
  group extrema, or the extremum of those, of the objective's rows.
\<close>

section \<open>Ranges\<close>

definition row_value :: "row_terms \<Rightarrow> (idx \<Rightarrow> idx \<Rightarrow> real) \<Rightarrow> idx \<Rightarrow> real" where
  "row_value terms X r = var_part terms r X None + fixed_part terms r"

definition sr_has :: "SavedRowRange \<Rightarrow> real \<Rightarrow> bool" where
  "sr_has rr v \<longleftrightarrow> sr_lo rr \<le> Fin v \<and> Fin v \<le> sr_hi rr"

definition terms_ok :: "SolverInput \<Rightarrow> row_terms \<Rightarrow> idx \<Rightarrow> bool" where
  "terms_ok input terms r \<longleftrightarrow> terms_crisp terms r \<and> vars_below (si_num_decide_vars input) (map fst terms)"

lemma sr_has_add: "sr_lo s \<le> Fin y \<and> Fin y \<le> sr_hi s \<Longrightarrow> a \<le> Fin p \<Longrightarrow> Fin p \<le> b \<Longrightarrow>
    sr_lo s + a \<le> Fin (y + p) \<and> Fin (y + p) \<le> sr_hi s + b"
  by (cases "sr_lo s"; cases "sr_hi s"; cases a; cases b) auto

lemma saved_range_step_has:
  assumes crisp: "crisp (cc_get col r)" and v: "\<And>v. var = Some v \<Longrightarrow> v < length lower \<and> v < length upper"
    and box: "boxed lower upper r X" and s: "sr_has s y"
  shows "sr_has (saved_range_step lower upper r (var, col) s)
    (y + (case var of None \<Rightarrow> rval (cc_get col r) | Some v \<Rightarrow> rval (cc_get col r) * X v r))"
proof -
  obtain c where c: "cc_get col r = Fin c" using crisp by (auto simp: crisp_def isfinite_iff)
  show ?thesis
  proof (cases "\<bar>c\<bar> < 1 / 10 ^ 15")
    case True
    with crisp c have "c = 0" by (auto simp: crisp_def negligible_def zero_dbl_def)
    with c s True show ?thesis by (simp add: saved_range_step_def split: option.splits)
  next
    case False
    show ?thesis
    proof (cases var)
      case None
      with c s False show ?thesis
        using sr_has_add [of s y "Fin c" c "Fin c"] by (simp add: saved_range_step_def sr_has_def Let_def)
    next
      case (Some v)
      have lb: "lower ! v \<le> Fin (X v r)" and ub: "Fin (X v r) \<le> upper ! v"
        using box v [OF Some] by (simp_all add: boxed_def)
      have l: "\<not> unbounded_below (lower ! v) \<Longrightarrow> \<exists>l. lower ! v = Fin l \<and> l \<le> X v r" by (rule bounded_lower [OF lb])
      have u: "\<not> unbounded_above (upper ! v) \<Longrightarrow> \<exists>u. upper ! v = Fin u \<and> X v r \<le> u" by (rule bounded_upper [OF ub])
      have blame: "sr_lo (first_blame w t) = sr_lo t" "sr_hi (first_blame w t) = sr_hi t" for w t
        by (simp_all add: first_blame_def)
      have ends: "NInf \<le> Fin p" "Fin p \<le> PInf" for p by simp_all
      show ?thesis
      proof (cases "c < 0")
        case True
        with l u have "unbounded_above (upper ! v) \<or> sr_lo s + cc_get col r * upper ! v \<le> Fin (y + c * X v r)"
          "unbounded_below (lower ! v) \<or> Fin (y + c * X v r) \<le> sr_hi s + cc_get col r * lower ! v"
          using s by (cases "sr_lo s"; force simp: c sr_has_def intro: add_mono mult_left_mono_neg)
            (cases "sr_hi s"; use l s True in \<open>force simp: c sr_has_def intro: add_mono mult_left_mono_neg\<close>)
        with True False show ?thesis
          by (auto simp: saved_range_step_def Some c Let_def sr_has_def blame zero_dbl_def)
      next
        case nonneg: False
        with l u have "unbounded_below (lower ! v) \<or> sr_lo s + cc_get col r * lower ! v \<le> Fin (y + c * X v r)"
          "unbounded_above (upper ! v) \<or> Fin (y + c * X v r) \<le> sr_hi s + cc_get col r * upper ! v"
          using s by (cases "sr_lo s"; force simp: c sr_has_def intro: add_mono mult_left_mono)
            (cases "sr_hi s"; use u s nonneg in \<open>force simp: c sr_has_def intro: add_mono mult_left_mono\<close>)
        with nonneg False show ?thesis
          by (auto simp: saved_range_step_def Some c Let_def sr_has_def blame zero_dbl_def)
      qed
    qed
  qed
qed

lemma saved_row_range_has:
  assumes ok: "terms_ok input terms r" and len: "length (si_lower_bounds input) = si_num_decide_vars input"
      "length (si_upper_bounds input) = si_num_decide_vars input"
    and box: "boxed (si_lower_bounds input) (si_upper_bounds input) r X"
  shows "sr_has (saved_row_range (si_lower_bounds input) (si_upper_bounds input) terms r) (row_value terms X r)"
proof -
  have "sr_has (fold (saved_range_step (si_lower_bounds input) (si_upper_bounds input) r) ts s) (y + row_value ts X r)"
    if "terms_ok input ts r" "sr_has s y" for ts s y
    using that
  proof (induction ts arbitrary: s y)
    case (Cons t ts)
    obtain var col where t: "t = (var, col)" by force
    have "v < si_num_decide_vars input" if "var = Some v" for v
      using Cons.prems(1) that by (simp add: terms_ok_def vars_below_def t)
    then have "sr_has (saved_range_step (si_lower_bounds input) (si_upper_bounds input) r t s)
        (y + (case var of None \<Rightarrow> rval (cc_get col r) | Some v \<Rightarrow> rval (cc_get col r) * X v r))"
      unfolding t using Cons.prems len
      by (intro saved_range_step_has [OF _ _ box]) (auto simp: terms_ok_def terms_crisp_def t)
    moreover have "terms_ok input ts r" using Cons.prems(1) by (auto simp: terms_ok_def terms_crisp_def vars_below_def)
    ultimately have "sr_has (fold (saved_range_step (si_lower_bounds input) (si_upper_bounds input) r) (t # ts) s)
        ((y + (case var of None \<Rightarrow> rval (cc_get col r) | Some v \<Rightarrow> rval (cc_get col r) * X v r)) + row_value ts X r)"
      using Cons.IH by simp
    then show ?case
      by (simp add: row_value_def t part_of_def fixed_part_def algebra_simps split: option.splits)
  qed (simp add: row_value_def fixed_part_def)
  from this [OF ok, of _ 0] show ?thesis
    by (simp add: saved_row_range_def sr_has_def zero_dbl_def)
qed

lemma cover_saved_has:
  assumes "range_fin a"
  shows "sr_has rr v \<Longrightarrow> range_has (cover_saved rr a) v"
    and "sr_has rr u \<Longrightarrow> range_fin (cover_saved rr a)"
    and "sr_has rr u \<Longrightarrow> range_has a v \<Longrightarrow> range_has (cover_saved rr a) v"
proof -
  have nan: "\<not> isnan (sr_lo rr) \<and> \<not> isnan (sr_hi rr)" if "sr_has rr u"
    using that by (cases "sr_lo rr"; cases "sr_hi rr"; simp add: sr_has_def)
  show "sr_has rr v \<Longrightarrow> range_has (cover_saved rr a) v"
    using CoverRowSided_covers [OF assms] by (simp add: cover_saved_def sr_has_def)
  show "sr_has rr u \<Longrightarrow> range_fin (cover_saved rr a)"
    using CoverRowSided_fin [OF assms] nan by (simp add: cover_saved_def)
  show "sr_has rr u \<Longrightarrow> range_has a v \<Longrightarrow> range_has (cover_saved rr a) v"
    using CoverRowSided_keeps [OF assms] nan by (simp add: cover_saved_def)
qed

lemma cover_fold:
  assumes "\<forall>k \<in> set ks. \<exists>u. sr_has (f k) u" "range_fin a"
  shows "range_fin (fold (\<lambda>k. cover_saved (f k)) ks a)"
    and "range_has a v \<or> (\<exists>k \<in> set ks. sr_has (f k) v) \<Longrightarrow> range_has (fold (\<lambda>k. cover_saved (f k)) ks a) v"
  using assms
proof (induction ks arbitrary: a)
  case (Cons k ks)
  { case 1
    then obtain u where "sr_has (f k) u" by auto
    with Cons.IH(1) 1 show ?case by (simp add: cover_saved_has(2))
  next
    case 2
    then obtain u where u: "sr_has (f k) u" by auto
    have "range_fin (cover_saved (f k) a)" using u 2(3) by (simp add: cover_saved_has(2))
    moreover have "range_has (cover_saved (f k) a) v \<or> (\<exists>k \<in> set ks. sr_has (f k) v)"
      using 2(1,3) u cover_saved_has(1,3) [OF 2(3)] by auto
    ultimately show ?case using Cons.IH(2) 2(2) by simp }
qed simp_all

lemma ar_default_zero: "range_has ar_default 0"
  by (simp add: range_has_def ar_default_def zero_dbl_def)

section \<open>Members\<close>

lemma add_negated_facts:
  assumes "link_inv m" "link_fin m" "isfinite (mr_constant m)" "isfinite c"
  shows "link_inv (add_negated vi r var c m)" "link_fin (add_negated vi r var c m)"
    "isfinite (mr_constant (add_negated vi r var c m))"
    "set (mr_indices (add_negated vi r var c m)) \<subseteq> set (mr_indices m) \<union> {Get vi v r | v. var = Some v}"
    "rval (mr_constant (add_negated vi r var c m)) - link_lin (add_negated vi r var c m) x =
       rval (mr_constant m) - link_lin m x + rval c * (case var of None \<Rightarrow> 1 | Some v \<Rightarrow> x (Get vi v r))"
proof -
  have keep: "link_inv (m\<lparr>mr_constant := k\<rparr>) = link_inv m" "link_fin (m\<lparr>mr_constant := k\<rparr>) = link_fin m"
    "link_lin (m\<lparr>mr_constant := k\<rparr>) x = link_lin m x" for k
    by (simp_all add: link_inv_def link_fin_def link_lin_def)
  note add = AddColumn_inv [OF assms(1)] AddColumn_fin [OF assms(1,2)] AddColumn_indices [OF assms(1)] AddColumn_lin [OF assms(1,2)]
  show "link_inv (add_negated vi r var c m)" "link_fin (add_negated vi r var c m)"
    "isfinite (mr_constant (add_negated vi r var c m))"
    "set (mr_indices (add_negated vi r var c m)) \<subseteq> set (mr_indices m) \<union> {Get vi v r | v. var = Some v}"
    "rval (mr_constant (add_negated vi r var c m)) - link_lin (add_negated vi r var c m) x =
       rval (mr_constant m) - link_lin m x + rval c * (case var of None \<Rightarrow> 1 | Some v \<Rightarrow> x (Get vi v r))"
    using assms add by (auto simp: add_negated_def keep rval_plus isfinite_plus split: option.splits)
qed

text \<open>A link row accumulated from finite entries over columns below \<open>n\<close>; \<open>link_value\<close> is what it negates.\<close>

definition link_good :: "nat \<Rightarrow> MinMaxLinkRow \<Rightarrow> bool" where
  "link_good n m \<longleftrightarrow> link_inv m \<and> link_fin m \<and> isfinite (mr_constant m) \<and> (\<forall>c \<in> set (mr_indices m). c < n)"

definition link_value :: "MinMaxLinkRow \<Rightarrow> (idx \<Rightarrow> real) \<Rightarrow> real" where
  "link_value m x = rval (mr_constant m) - link_lin m x"

lemma link_good_default [simp]: "link_good n mr_default" "link_value mr_default x = 0"
  by (simp_all add: link_good_def link_value_def)
     (simp_all add: mr_default_def zero_dbl_def)

lemma member_of_link:
  "link_good n (xm_link m) \<Longrightarrow> list_all crisp (mr_coefficients (xm_link m)) \<Longrightarrow> member_ok n m"
  "member_value m x = link_value (xm_link m) x"
  by (simp_all add: link_good_def member_ok_def member_value_def link_value_def)

lemma add_negated_good:
  assumes "link_good n m" "isfinite c" "\<And>v. var = Some v \<Longrightarrow> Get vi v r < n"
  shows "link_good n (add_negated vi r var c m)"
    and "link_value (add_negated vi r var c m) x =
      link_value m x + rval c * (case var of None \<Rightarrow> 1 | Some v \<Rightarrow> x (Get vi v r))"
proof -
  have m: "link_inv m" "link_fin m" "isfinite (mr_constant m)" "\<forall>c \<in> set (mr_indices m). c < n"
    using assms(1) by (simp_all add: link_good_def)
  note facts = add_negated_facts [OF m(1-3) assms(2), of vi r var]
  have "\<forall>c \<in> set (mr_indices (add_negated vi r var c m)). c < n" using facts(4) m(4) assms(3) by blast
  with facts(1-3) show "link_good n (add_negated vi r var c m)" by (simp add: link_good_def)
  show "link_value (add_negated vi r var c m) x =
      link_value m x + rval c * (case var of None \<Rightarrow> 1 | Some v \<Rightarrow> x (Get vi v r))"
    by (simp only: link_value_def facts(5))
qed

definition scaled_crisp :: "row_terms \<Rightarrow> idx \<Rightarrow> real \<Rightarrow> bool" where
  "scaled_crisp terms r s \<longleftrightarrow> list_all (\<lambda>(var, col). crisp (cc_get col r) \<and> crisp (cc_get col r * Fin s)) terms"

lemma AddObjectiveRowTerms_good:
  assumes "indexable input" "r < si_num_rows input" "vars_below (si_num_decide_vars input) (map fst terms)"
    and "scaled_crisp terms r s" "link_good (vi_global_block_start (BuildIndexer input)) m"
  shows "link_good (vi_global_block_start (BuildIndexer input)) (AddObjectiveRowTerms (BuildIndexer input) terms r (Fin s) m) \<and>
    link_value (AddObjectiveRowTerms (BuildIndexer input) terms r (Fin s) m) x =
      link_value m x + s * row_value terms (at_flat input x) r"
  using assms(3-5)
proof (induction terms arbitrary: m)
  case (Cons t ts)
  obtain var col where t: "t = (var, col)" by force
  define m1 where "m1 = (if \<bar>cc_get col r * Fin s\<bar> < Fin (1 / 10 ^ 15) then m
    else add_negated (BuildIndexer input) r var (cc_get col r * Fin s) m)"
  have step: "AddObjectiveRowTerms (BuildIndexer input) (t # ts) r (Fin s) m =
      AddObjectiveRowTerms (BuildIndexer input) ts r (Fin s) m1"
    by (simp add: AddObjectiveRowTerms_def t m1_def Let_def)
  have below: "Get (BuildIndexer input) v r < vi_global_block_start (BuildIndexer input)" if "var = Some v" for v
    using num.at_row_lt [OF assms(1) _ assms(2), of v] that Cons.prems by (auto simp: vars_below_def t)
  have rest: "vars_below (si_num_decide_vars input) (map fst ts)" "scaled_crisp ts r s"
    using Cons.prems by (auto simp: vars_below_def scaled_crisp_def)
  have m1: "link_good (vi_global_block_start (BuildIndexer input)) m1 \<and>
      link_value m1 x = link_value m x + s * (case var of None \<Rightarrow> rval (cc_get col r)
        | Some v \<Rightarrow> rval (cc_get col r) * at_flat input x v r)"
  proof -
    note m = Cons.prems(3)
    have c: "crisp (cc_get col r)" "crisp (cc_get col r * Fin s)" using Cons.prems(2) by (simp_all add: scaled_crisp_def t)
    then obtain a where a: "cc_get col r = Fin a" by (auto simp: crisp_def isfinite_iff)
    have zero: "a * s = 0" if "\<bar>a * s\<bar> < 1 / 10 ^ 15"
      using that c(2) by (auto simp: crisp_def negligible_def zero_dbl_def a)
    have fin: "isfinite (Fin (a * s))" by simp
    have neg: "link_good (vi_global_block_start (BuildIndexer input)) (add_negated (BuildIndexer input) r var (Fin (a * s)) m)"
      "link_value (add_negated (BuildIndexer input) r var (Fin (a * s)) m) x =
        link_value m x + a * s * (case var of None \<Rightarrow> 1 | Some v \<Rightarrow> x (Get (BuildIndexer input) v r))"
      using add_negated_good [OF m fin, of var] below by simp_all
    show ?thesis
      using neg zero m by (auto simp: m1_def a at_flat_def algebra_simps split: option.splits)
  qed
  from Cons.IH [OF rest conjunct1 [OF m1]] m1 show ?case
    unfolding step by (auto simp: row_value_def t part_of_def fixed_part_def algebra_simps split: option.splits)
qed (simp_all add: AddObjectiveRowTerms_def row_value_def fixed_part_def)

section \<open>One link\<close>

lemma objective_link_fields [simp]:
  "xs_result_column (objective_link z is_max easy family) = z"
  "xs_is_max (objective_link z is_max easy family) = is_max"
  "xs_need_envelope (objective_link z is_max easy family) = easy"
  "xs_need_closing (objective_link z is_max easy family) = (\<not> easy)"
  "xs_closing_underivable (objective_link z is_max easy family) = Unbounded family"
  "xs_closing_big_m (objective_link z is_max easy family) = (if Unbounded family then 0 else Span family)"
  by (simp_all add: objective_link_def xs_default_def)

abbreviation members_extremum :: "bool \<Rightarrow> ExtremumMember list \<Rightarrow> (idx \<Rightarrow> real) \<Rightarrow> real" where
  "members_extremum is_max members y \<equiv> extremum is_max ((\<lambda>m. member_value m y) ` set members)"

lemma extremum_mem: "finite G \<Longrightarrow> G \<noteq> {} \<Longrightarrow> extremum is_max G \<in> G"
  by (simp add: extremum_def)

lemma objective_link_sound:
  assumes holds: "link_holds policy (objective_link z is_max easy family) members y" and ne: "members \<noteq> []"
    and dir: "easy = (is_max \<noteq> maximize)"
  shows "no_better maximize (y z) (members_extremum is_max members y)"
proof (cases easy)
  case True
  with holds ne have "envelope_holds (objective_link z is_max easy family) members y" by (simp add: link_holds_def)
  with envelope_extremum [OF ne, of "objective_link z is_max easy family" y] True dir show ?thesis
    by (cases is_max) (simp_all add: no_better_def)
next
  case hard: False
  show ?thesis
  proof (cases "UseNative policy (Unbounded family)")
    case True
    with holds ne hard native_extremum [OF ne, of "objective_link z is_max easy family" y] show ?thesis
      by (simp add: link_holds_def)
  next
    case False
    with holds ne hard obtain m where m: "m \<in> set members" "beyond (objective_link z is_max easy family) m y \<le> 0"
      by (auto simp: link_holds_def closing_holds_def)
    have "member_value m y \<le> members_extremum True members y" "members_extremum False members y \<le> member_value m y"
      using m(1) by (simp_all add: extremum_def)
    with m(2) hard dir show ?thesis by (cases is_max) (auto simp: beyond_def no_better_def)
  qed
qed

lemma objective_link_attains:
  assumes ne: "members \<noteq> []" and z: "y z = members_extremum is_max members y"
    and fam: "\<And>m. m \<in> set members \<Longrightarrow> range_has family (member_value m y)" "range_fin family"
    and derivable: "easy \<or> UseNative policy (Unbounded family) \<or> \<not> Unbounded family"
  shows "link_holds policy (objective_link z is_max easy family) members y"
proof -
  let ?spec = "objective_link z is_max easy family"
  have env: "envelope_holds ?spec members y" using envelope_extremum [OF ne, of ?spec y] z by (cases is_max) simp_all
  have closing: "closing_holds ?spec members y" if "\<not> Unbounded family"
  proof -
    have "\<bar>member_value m y - member_value m' y\<bar> \<le> rval (xs_closing_big_m ?spec)"
      if "m \<in> set members" "m' \<in> set members" for m m'
      using span_bound(1) [OF fam(2) \<open>\<not> Unbounded family\<close> fam(1) [OF that(1)] fam(1) [OF that(2)]] \<open>\<not> Unbounded family\<close>
      by simp
    with closing_extremum [OF ne, of y ?spec] z show ?thesis by (cases is_max) auto
  qed
  have "native_left ?spec members [] y" using native_extremum [OF ne, of ?spec y] z by simp
  with env closing derivable show ?thesis by (auto simp: link_holds_def)
qed

lemma objective_link_states:
  assumes run: "EmitExtremumLink vi (objective_link z is_max easy family) members var_names policy mid = Inr out"
    and wf: "well_formed vi mid" and z: "z < columns_end vi mid"
    and ok: "\<forall>m \<in> set members. member_ok (columns_end vi mid) m"
    and A: "on_columns (columns_end vi input) A" and le: "si_num_global_vars input \<le> si_num_global_vars mid"
    and fam: "range_fin family" "range_has family 0"
    and pins: "\<forall>x. A x \<longrightarrow> (\<forall>m \<in> set members. renamed_column m = None \<longrightarrow> range_has (xm_range m) (member_value m x))"
  shows "states vi A (link_holds policy (objective_link z is_max easy family) members) mid out"
proof (rule EmitExtremumLink_states [OF run wf])
  have "on_columns (columns_end vi mid) A"
    using A le agree_below_less [of "columns_end vi mid" _ _ "columns_end vi input"]
    by (simp add: on_columns_def columns_end_def)
  moreover have "\<exists>M \<ge> 0. (if Unbounded family then 0 else Span family) = Fin M"
    using span_bound(2) [OF fam(1) _ fam(2) fam(2)] by (auto simp: zero_dbl_def)
  ultimately show "link_ready (columns_end vi mid) A policy (objective_link z is_max easy family) members"
    using z ok pins by (simp add: link_ready_def)
qed

lemmas objective_link_narrows = narrows_states [OF objective_link_states]

lemma link_run_derivable:
  "EmitExtremumLink vi (objective_link z is_max easy family) members var_names policy mid = Inr out \<Longrightarrow> members \<noteq> [] \<Longrightarrow>
     easy \<or> UseNative policy (Unbounded family) \<or> \<not> Unbounded family"
  by (auto simp: EmitExtremumLink_def Let_def split: if_splits)

text \<open>What the columns of a link cost: nothing.\<close>

lemma emitted_objs:
  assumes "EmitExtremumLink vi spec members var_names policy input = Inr out"
  shows "\<exists>k. si_global_obj_coeffs out = si_global_obj_coeffs input @ replicate k 0"
proof -
  have arg: "\<exists>k. si_global_obj_coeffs (fst (ExtremumArgumentColumn vi label clause removal m input)) =
      si_global_obj_coeffs input @ replicate k 0" for label clause removal m input
    by (auto simp: ExtremumArgumentColumn_cases AddGlobalContinuousAux_def LabelGlobalAux_def append_flat_def Let_def
        split: option.split intro: exI [of _ 0] exI [of _ "Suc 0"])
  have "\<exists>k. si_global_obj_coeffs (emit_native vi spec members args input) = si_global_obj_coeffs input @ replicate k 0"
    for args input
  proof (induction members arbitrary: args input)
    case Nil
    show ?case by (auto intro: exI [of _ 0])
  next
    case (Cons m members)
    obtain mid c where mid: "ExtremumArgumentColumn vi (xs_label spec) (xs_source_clause_id spec)
        (xs_removal_group_id spec) m input = (mid, c)" by force
    with arg obtain k where "si_global_obj_coeffs mid = si_global_obj_coeffs input @ replicate k 0" by (metis fst_conv)
    moreover obtain l where "si_global_obj_coeffs (emit_native vi spec members (args @ [c]) mid) =
        si_global_obj_coeffs mid @ replicate l 0" using Cons.IH by blast
    ultimately show ?case by (auto simp: mid replicate_add [symmetric])
  qed
  moreover have "\<exists>k. si_global_obj_coeffs (emit_closing vi spec members ys input) = si_global_obj_coeffs input @ replicate k 0"
    for ys input
  proof (induction members arbitrary: ys input)
    case Nil
    show ?case by (auto intro: exI [of _ 0])
  next
    case (Cons m members)
    obtain mid y where mid: "AddGlobalBinaryAux vi 0 (xs_label spec) input = (mid, y)" by force
    then have "si_global_obj_coeffs mid = si_global_obj_coeffs input @ replicate 1 0"
      by (auto simp: AddGlobalBinaryAux_def LabelGlobalAux_def Let_def)
    moreover obtain l where "si_global_obj_coeffs (emit_closing vi spec members (ys @ [y])
        (mid\<lparr>si_global_constraints := si_global_constraints mid @ [closing_row spec y m]\<rparr>)) =
        si_global_obj_coeffs mid @ replicate l 0" using Cons.IH [of "ys @ [y]" "mid\<lparr>si_global_constraints := si_global_constraints mid @ [closing_row spec y m]\<rparr>"] by auto
    ultimately show ?case by (auto simp: mid intro: exI [of _ "Suc l"])
  qed
  moreover have "si_global_obj_coeffs (emit_envelope spec members input) = si_global_obj_coeffs input"
    by (simp add: emit_envelope_append append_flat_def)
  moreover have "si_global_obj_coeffs input = si_global_obj_coeffs input @ replicate 0 0" by simp
  ultimately show ?thesis
    using assms unfolding EmitExtremumLink_def Let_def by (auto split: if_splits) metis+
qed

section \<open>A fresh extremum column\<close>

lemma extremum_column:
  assumes add: "AddGlobalContinuousAux vi family obj label mid0 = (mid, z)"
    and run: "EmitExtremumLink vi (objective_link z is_max easy family) members var_names policy mid = Inr out"
    and wf: "well_formed vi mid0" and ne: "members \<noteq> []" and dir: "easy = (is_max \<noteq> maximize)"
    and ok: "\<forall>m \<in> set members. member_ok (columns_end vi mid0) m"
    and A: "on_columns (columns_end vi input) A" and le: "si_num_global_vars input \<le> si_num_global_vars mid0"
    and fam: "range_fin family" "range_has family 0"
    and pins: "\<forall>x. A x \<longrightarrow> (\<forall>m \<in> set members. renamed_column m = None \<longrightarrow> range_has (xm_range m) (member_value m x))"
    and x: "A x"
  shows "well_formed vi out"
    and "extends vi input out x x' \<Longrightarrow> extends vi input mid0 x x' \<and> no_better maximize (x' z) (members_extremum is_max members x')"
    and "extends vi input mid0 x y \<Longrightarrow> \<forall>m \<in> set members. range_has family (member_value m y) \<Longrightarrow>
      \<exists>x'. extends vi input out x x' \<and> agree_below (columns_end vi mid0) y x' \<and> x' z = members_extremum is_max members y"
proof -
  note facts = add_continuous_facts [OF add] and mid = add_continuous_wf [OF wf add]
  have z: "z = columns_end vi mid0" using facts(2) .
  have ok': "\<forall>m \<in> set members. member_ok (columns_end vi mid) m" using ok member_ok_less mid(2) by auto
  have le': "si_num_global_vars input \<le> si_num_global_vars mid" using le facts(3) by simp
  have "z < columns_end vi mid" using z mid(2) by simp
  then have nar: "narrows vi input A (link_holds policy (objective_link z is_max easy family) members) mid out"
    by (rule objective_link_narrows [OF run mid(1) _ ok' A le' fam pins A le'])
  note ext = extends_add [OF add wf le]
  show "well_formed vi out" using nar by (simp add: narrows_def)
  show "extends vi input mid0 x x' \<and> no_better maximize (x' z) (members_extremum is_max members x')" if "extends vi input out x x'"
  proof -
    have "extends vi input mid x x'" "link_holds policy (objective_link z is_max easy family) members x'"
      using nar x that unfolding narrows_def by blast+
    with ext objective_link_sound [OF _ ne dir] show ?thesis by blast
  qed
  show "\<exists>x'. extends vi input out x x' \<and> agree_below (columns_end vi mid0) y x' \<and> x' z = members_extremum is_max members y"
    if y: "extends vi input mid0 x y" and vals: "\<forall>m \<in> set members. range_has family (member_value m y)"
  proof -
    let ?e = "members_extremum is_max members y"
    let ?y = "y(z := ?e)"
    have upd: "agree_below (columns_end vi mid0) y ?y" by (simp add: agree_below_def z)
    have same: "member_value m ?y = member_value m y" if "m \<in> set members" for m
      using member_value_agree [OF ok [rule_format, OF that] upd] .
    have e: "members_extremum is_max members ?y = ?e"
      by (rule arg_cong [where f = "extremum is_max"], rule image_cong) (simp_all add: same)
    have "?e \<in> (\<lambda>m. member_value m y) ` set members" using ne by (intro extremum_mem) simp_all
    then have "range_has family ?e" using vals by auto
    moreover have "extends vi input mid0 x ?y"
    proof -
      have low: "agree_below (columns_end vi input) y ?y"
        using upd le by (auto simp: agree_below_def columns_end_def)
      have "admits_new vi input mid0 ?y"
        using y upd by (auto simp: extends_def admits_new_def agree_below_def columns_end_def)
      moreover have "rows_hold mid0 ?y = rows_hold mid0 y"
        using wf upd by (intro rows_hold_agree) (auto simp: well_formed_def agree_below_def)
      ultimately show ?thesis using y agree_below_trans [OF _ low] by (simp add: extends_def)
    qed
    ultimately have "extends vi input mid x ?y" using ext range_has_admits by simp
    moreover have "link_holds policy (objective_link z is_max easy family) members ?y"
      using same vals e
      by (intro objective_link_attains [OF ne _ _ fam(1) link_run_derivable [OF run ne]]) simp_all
    ultimately obtain x' where x': "extends vi input out x x'" "agree_below (columns_end vi mid) ?y x'"
      using nar x unfolding narrows_def by blast
    have "x' z = ?e" using x'(2) mid(2) by (simp add: agree_below_def z)
    moreover have "agree_below (columns_end vi mid0) y x'"
      using agree_below_trans [OF upd] agree_below_less [OF x'(2)] mid(2) by simp
    ultimately show ?thesis using x'(1) by blast
  qed
qed

section \<open>The objective after the pass\<close>

text \<open>The linear objective over the rows and the global columns.\<close>

definition objective_at :: "SolverInput \<Rightarrow> SolverInput \<Rightarrow> (idx \<Rightarrow> real) \<Rightarrow> real" where
  "objective_at base out x =
     (\<Sum>t\<leftarrow>[0..<length (si_objective_variable_indices out)]. linear_meaning out (at_flat base x) t) +
     global_meaning out (\<lambda>g. x (vi_global_block_start (BuildIndexer base) + g))"

lemma global_meaning_list:
  assumes "length (si_global_obj_coeffs out) = si_num_global_vars out"
  shows "global_meaning out f = (\<Sum>g<length (si_global_obj_coeffs out). rval (si_global_obj_coeffs out ! g) * f g)"
  using assms by (simp add: global_meaning_def)

text \<open>Fresh columns that cost nothing around one that costs 1.\<close>

lemma one_column_objective:
  assumes "si_objective_variable_indices out = []" "globals_ok out"
    and "si_global_obj_coeffs out = replicate n 0 @ [1] @ replicate k 0"
  shows "objective_at base out x = x (vi_global_block_start (BuildIndexer base) + n)"
proof -
  have "length (si_global_obj_coeffs out) = si_num_global_vars out" using assms(2) by (simp add: globals_ok_def Let_def)
  moreover have "(\<Sum>g<n + Suc k. rval ((replicate n 0 @ [1] @ replicate k 0) ! g) * f g) = f n" for f :: "nat \<Rightarrow> real"
  proof -
    have "rval ((replicate n 0 @ [1] @ replicate k 0) ! g) = (if g = n then 1 else 0)" if "g < n + Suc k" for g
      using that by (auto simp: nth_append nth_Cons zero_dbl_def one_dbl_def split: nat.splits)
    then have "(\<Sum>g<n + Suc k. rval ((replicate n 0 @ [1] @ replicate k 0) ! g) * f g) =
        (\<Sum>g<n + Suc k. if g = n then f g else 0)" by (intro sum.cong) auto
    then show ?thesis by simp
  qed
  ultimately show ?thesis by (simp add: objective_at_def assms(1,3) global_meaning_list)
qed

section \<open>The objective's rows\<close>

definition objective_rows_ok :: "SolverInput \<Rightarrow> row_terms \<Rightarrow> bool" where
  "objective_rows_ok input terms \<longleftrightarrow> indexable input \<and>
     length (si_lower_bounds input) = si_num_decide_vars input \<and> length (si_upper_bounds input) = si_num_decide_vars input \<and>
     vars_below (si_num_decide_vars input) (map fst terms) \<and> (\<forall>r < si_num_rows input. scaled_crisp terms r 1)"

definition same_box :: "SolverInput \<Rightarrow> SolverInput \<Rightarrow> bool" where
  "same_box base input \<longleftrightarrow> si_lower_bounds input = si_lower_bounds base \<and> si_upper_bounds input = si_upper_bounds base \<and>
     si_num_rows input = si_num_rows base"

lemma same_box_cong:
  assumes "same_box base input"
  shows "row_family input terms = row_family base terms" "objective_member vi input terms = objective_member vi base terms"
  using assms by (simp_all add: same_box_def row_family_def objective_member_def row_range_for_def fun_eq_iff)

lemma row_has:
  assumes "objective_rows_ok input terms" "mm_point input x" "r < si_num_rows input"
  shows "sr_has (saved_row_range (si_lower_bounds input) (si_upper_bounds input) terms r) (row_value terms (at_flat input x) r)"
proof (rule saved_row_range_has)
  have "list_all (\<lambda>(var, col). crisp (cc_get col r)) terms"
    using assms(1,3) by (auto simp: objective_rows_ok_def scaled_crisp_def list_all_iff)
  then show "terms_ok input terms r" using assms(1) by (simp add: terms_ok_def terms_crisp_def objective_rows_ok_def)
qed (use assms in \<open>simp_all add: objective_rows_ok_def mm_point_def\<close>)

lemma row_family_has:
  assumes ok: "objective_rows_ok input terms" and x: "mm_point input x"
  shows "range_fin (row_family input terms)" "range_has (row_family input terms) 0"
    and "r < si_num_rows input \<Longrightarrow> range_has (row_family input terms) (row_value terms (at_flat input x) r)"
proof -
  let ?f = "saved_row_range (si_lower_bounds input) (si_upper_bounds input) terms"
  have "\<forall>r \<in> set [0..<si_num_rows input]. \<exists>u. sr_has (?f r) u" using row_has [OF ok x] by (auto simp del: ex_simps) blast
  note fold = cover_fold [OF this ar_default_fin]
  show "range_fin (row_family input terms)" "range_has (row_family input terms) 0"
    "r < si_num_rows input \<Longrightarrow> range_has (row_family input terms) (row_value terms (at_flat input x) r)"
    using fold(1) fold(2) [of 0] ar_default_zero row_has [OF ok x, of r]
    by (simp_all add: row_family_def) (rule fold(2), auto)
qed

text \<open>The members of rows: what they are worth, and their boxes.\<close>

definition row_link_ok :: "SolverInput \<Rightarrow> row_terms \<Rightarrow> idx \<Rightarrow> bool" where
  "row_link_ok input terms r \<longleftrightarrow> r < si_num_rows input \<and>
     list_all crisp (mr_coefficients (AddObjectiveRowTerms (BuildIndexer input) terms r 1 mr_default))"

lemma objective_member_facts:
  assumes ok: "objective_rows_ok input terms" and r: "row_link_ok input terms r"
  defines "m \<equiv> objective_member (BuildIndexer input) input terms r"
  shows "member_ok (vi_global_block_start (BuildIndexer input)) m"
    and "member_value m x = row_value terms (at_flat input x) r"
    and "mm_point input x \<Longrightarrow> range_has (xm_range m) (member_value m x)"
proof -
  have row: "r < si_num_rows input" using r by (simp add: row_link_ok_def)
  have "scaled_crisp terms r 1" "vars_below (si_num_decide_vars input) (map fst terms)" "indexable input"
    using ok row by (simp_all add: objective_rows_ok_def)
  note link = AddObjectiveRowTerms_good [OF this(3) row this(2,1) link_good_default(1), folded one_dbl_def]
  have xm: "xm_link m = AddObjectiveRowTerms (BuildIndexer input) terms r 1 mr_default" by (simp add: m_def objective_member_def)
  show "member_ok (vi_global_block_start (BuildIndexer input)) m"
    using link r by (intro member_of_link(1)) (simp_all add: xm row_link_ok_def)
  show val: "member_value m x = row_value terms (at_flat input x) r" for x
    using link [of x] by (simp add: member_of_link(2) xm)
  show "mm_point input x \<Longrightarrow> range_has (xm_range m) (member_value m x)"
    unfolding val using row_has [OF ok _ row] cover_saved_has(1) [OF ar_default_fin]
    by (simp add: m_def objective_member_def row_range_for_def)
qed

lemma row_value_agree:
  assumes "objective_rows_ok input terms" "r < si_num_rows input"
    and "agree_below (vi_global_block_start (BuildIndexer input)) x x'"
  shows "row_value terms (at_flat input x') r = row_value terms (at_flat input x) r"
proof -
  have "part_of r (at_flat input x') None t = part_of r (at_flat input x) None t" if "t \<in> set terms" for t
  proof (cases "fst t")
    case (Some v)
    with that have "Some v \<in> set (map fst terms)" by (metis image_eqI set_map)
    with assms(1) have "v < si_num_decide_vars input" by (simp add: objective_rows_ok_def vars_below_def)
    then show ?thesis
      using Some at_flat_agree [OF _ _ assms(2,3)] assms(1) by (cases t) (simp add: part_of_def objective_rows_ok_def)
  qed (cases t; simp add: part_of_def)
  then show ?thesis by (simp add: row_value_def var_part_def cong: map_cong)
qed

section \<open>The flat spelling\<close>

lemma clear_objective_fields [simp]:
  "extends vi (clear_objective input) = extends vi input" "columns_end vi (clear_objective input) = columns_end vi input"
  "well_formed vi (clear_objective input) = well_formed vi input" "si_num_global_vars (clear_objective input) = si_num_global_vars input"
  "rows_hold (clear_objective input) = rows_hold input" "si_global_obj_coeffs (clear_objective input) = si_global_obj_coeffs input"
  "si_num_rows (clear_objective input) = si_num_rows input" "same_box base (clear_objective input) = same_box base input"
  by (simp_all add: clear_objective_def extends_def columns_end_def well_formed_def globals_ok_def input_columns_def
      admits_new_def rows_hold_def flat_rows_hold_def same_box_def fun_eq_iff)

lemma add_after_clear:
  "AddGlobalContinuousAux vi rg obj label input = (mid, z) \<Longrightarrow>
     AddGlobalContinuousAux vi rg obj label (clear_objective input) = (clear_objective mid, z)"
  by (auto simp: AddGlobalContinuousAux_def LabelGlobalAux_def clear_objective_def Let_def)

lemma add_continuous_objs:
  "AddGlobalContinuousAux vi rg obj label input = (mid, z) \<Longrightarrow> si_global_obj_coeffs mid = si_global_obj_coeffs input @ [obj]"
  by (auto simp: AddGlobalContinuousAux_def LabelGlobalAux_def Let_def)

lemma base_of_objective:
  "base_of a = base_of b \<Longrightarrow> si_objective_variable_indices a = si_objective_variable_indices b \<and>
     si_objective_coefficients a = si_objective_coefficients b"
  by (drule arg_cong [where f = "\<lambda>i. (si_objective_variable_indices i, si_objective_coefficients i)"]) (simp add: base_of_def)

lemma flat_best:
  assumes run: "flat_objective (BuildIndexer input) spec var_names policy terms input = Inr out"
    and wf: "well_formed (BuildIndexer input) input" and x: "mm_point input x" "rows_hold input x"
    and ok: "objective_rows_ok input terms" "\<forall>r \<in> set (active_rows spec terms (si_num_rows input)). row_link_ok input terms r"
    and dir: "mo_flat_is_easy spec = ((mo_flat_agg spec \<noteq> MIN_AGG) \<noteq> maximize)"
    and free: "si_global_obj_coeffs input = replicate (si_num_global_vars input) 0"
  shows "best_over maximize (objective_at input out) (extends (BuildIndexer input) input out x)
    (extremum (mo_flat_agg spec \<noteq> MIN_AGG)
       (row_value terms (at_flat input x) ` set (active_rows spec terms (si_num_rows input))))"
proof -
  let ?vi = "BuildIndexer input" and ?rows = "active_rows spec terms (si_num_rows input)"
  let ?family = "row_family input terms" and ?max = "mo_flat_agg spec \<noteq> MIN_AGG"
  let ?members = "map (objective_member ?vi input terms) ?rows"
  obtain mid z where add: "AddGlobalContinuousAux ?vi ?family 1 [] input = (mid, z)" by force
  note facts = add_continuous_facts [OF add]
  have box: "same_box input mid" using base_of_eqD(1,4,5) [OF facts(1)] by (simp add: same_box_def)
  from run have ne: "?rows \<noteq> []" by (auto simp: flat_objective_def)
  with run have link: "EmitExtremumLink ?vi (objective_link z ?max (mo_flat_is_easy spec) ?family) ?members var_names policy
      (clear_objective mid) = Inr out"
    using same_box_cong [of input "clear_objective mid"] box
    by (simp add: flat_objective_def Let_def add)
  note mem = objective_member_facts [OF ok(1)]
  have mok: "\<forall>m \<in> set ?members. member_ok (columns_end ?vi (clear_objective input)) m"
    using mem(1) ok(2) member_ok_less [of "vi_global_block_start ?vi" _ "columns_end ?vi input"]
    by (auto simp: columns_end_def)
  have A: "on_columns (columns_end ?vi input) (mm_point input)"
    by (rule on_decisions_columns [OF mm_point_decisions])
  have pins: "\<forall>y. mm_point input y \<longrightarrow> (\<forall>m \<in> set ?members. renamed_column m = None \<longrightarrow> range_has (xm_range m) (member_value m y))"
    using mem(3) ok(2) by auto
  have wf': "well_formed ?vi (clear_objective input)" and ne': "?members \<noteq> []"
    and le: "si_num_global_vars input \<le> si_num_global_vars (clear_objective input)" using wf ne by simp_all
  note col = extremum_column [OF add_after_clear [OF add] link wf' ne' dir mok A le row_family_has(1,2) [OF ok(1) x(1)] pins x(1)]
  have ext: "members_extremum ?max ?members y = extremum ?max (row_value terms (at_flat input x) ` set ?rows)"
    if "agree_below (columns_end ?vi input) x y" for y
  proof -
    have "agree_below (vi_global_block_start ?vi) x y" using agree_below_less [OF that] by (simp add: columns_end_def)
    then have "member_value (objective_member ?vi input terms r) y = row_value terms (at_flat input x) r" if "r \<in> set ?rows" for r
      using that ok row_value_agree mem(2) by (simp add: row_link_ok_def)
    then show ?thesis by (auto simp: image_image intro: arg_cong [where f = "extremum ?max"] image_cong)
  qed
  from emitted_objs [OF link] obtain k where
    "si_global_obj_coeffs out = replicate (si_num_global_vars input) 0 @ [1] @ replicate k 0"
    by (auto simp: add_continuous_objs [OF add] free)
  moreover have "base_of out = base_of (clear_objective mid)" by (rule EmitExtremumLink_base [OF link])
  moreover have "globals_ok out" using col(1) by (simp add: well_formed_def)
  ultimately have obj: "objective_at input out y = y z" for y
    using base_of_objective [of out "clear_objective mid"] facts(2)
    by (simp add: one_column_objective clear_objective_def columns_end_def)
  have self: "extends ?vi input (clear_objective input) x y \<longleftrightarrow> agree_below (columns_end ?vi input) x y \<and> rows_hold input y" for y
    by (auto simp: extends_def admits_new_def)
  have "extends ?vi input (clear_objective input) x x" using x(2) by (simp add: self agree_below_refl)
  moreover have "\<forall>m \<in> set ?members. range_has ?family (member_value m x)"
    using mem(2) ok(2) row_family_has(3) [OF ok(1) x(1)] by (auto simp: row_link_ok_def)
  ultimately obtain x' where "extends ?vi input out x x'" "x' z = members_extremum ?max ?members x"
    using col(3) by blast
  moreover have "no_better maximize (y z) (members_extremum ?max ?members x)" if "extends ?vi input out x y" for y
    using col(2) [OF that] ext [of y] ext [of x] by (simp add: self agree_below_refl)
  ultimately show ?thesis unfolding best_over_def obj ext [OF agree_below_refl, symmetric] by blast
qed

end
