(* ===== verification/MinMaxPerExact.thy ===== *)
theory MinMaxPerExact
  imports MinMaxObjectiveExact
begin

text \<open>
  The \<open>PER\<close> spelling \<open>OUTER(INNER(expr))\<close> of a MIN/MAX objective: the group columns of an inner
  MIN/MAX can take the group extrema and nothing better, and the outer SUM or MIN/MAX over them, or
  over the group sums, inherits that.
\<close>

section \<open>Group columns\<close>

definition group_columns_added :: "VarIndexer \<Rightarrow> AuxRange \<Rightarrow> nat \<Rightarrow> SolverInput \<Rightarrow> SolverInput \<Rightarrow> bool" where
  "group_columns_added vi family k mid out \<longleftrightarrow>
     well_formed vi out \<and> base_of out = base_of mid \<and>
     si_num_global_vars out = si_num_global_vars mid + k \<and>
     si_global_obj_coeffs out = si_global_obj_coeffs mid @ replicate k 0 \<and>
     keeps_columns mid out \<and> rows_hold out = rows_hold mid \<and>
     (\<forall>g. si_num_global_vars mid \<le> g \<and> g < si_num_global_vars out \<longrightarrow>
        si_global_variable_types out ! g = DOUBLE \<and> (\<forall>v. column_admits out g v = range_admits family v))"

lemma add_group_columns_facts:
  assumes "add_group_columns vi family k mid = (out, zs)" "well_formed vi mid"
  shows "group_columns_added vi family k mid out \<and> zs = map (\<lambda>i. columns_end vi mid + i) [0..<k]"
  using assms
proof (induction k arbitrary: mid out zs)
  case 0
  then show ?case by (auto simp: group_columns_added_def keeps_columns_def)
next
  case (Suc k)
  obtain m z where add: "AddGlobalContinuousAux vi family 0 [] mid = (m, z)" by force
  obtain zs' where rest: "add_group_columns vi family k m = (out, zs')" and zs: "zs = z # zs'"
    using Suc.prems(1) add by (auto split: prod.splits)
  note one = add_continuous_facts [OF add] and wfm = add_continuous_wf [OF Suc.prems(2) add]
  have ok: "globals_ok mid" using Suc.prems(2) by (simp add: well_formed_def)
  note kept = add_continuous_ok(2) [OF add ok]
  note ih = Suc.IH [OF rest wfm(1)]
  have "zs = map (\<lambda>i. columns_end vi mid + i) [0..<Suc k]"
    using ih one(2) wfm(2) by (simp add: zs upt_conv_Cons map_Suc_upt [symmetric] del: upt_Suc)
  moreover have "si_global_variable_types out ! g = DOUBLE \<and> column_admits out g v = range_admits family v"
    if "si_num_global_vars mid \<le> g" "g < si_num_global_vars out" for g v
  proof (cases "g = si_num_global_vars mid")
    case True
    have type: "si_global_variable_types m ! g = DOUBLE"
      using add ok by (auto simp: True AddGlobalContinuousAux_def LabelGlobalAux_def Let_def globals_ok_def nth_append)
    have kept: "keeps_columns m out" using ih by (simp add: group_columns_added_def)
    with type one(3) True show ?thesis
      using column_admits_kept [OF kept, of g v] add_continuous_column [OF add ok, of v]
      by (simp add: keeps_columns_def)
  next
    case False
    with that ih one(3) show ?thesis by (simp add: group_columns_added_def)
  qed
  moreover have "keeps_columns mid out"
    using keeps_columns_trans [OF kept] ih one(3) by (simp add: group_columns_added_def)
  moreover have "rows_hold m = rows_hold mid" by (simp add: rows_hold_def flat_rows_hold_def one(4-6) fun_eq_iff)
  ultimately show ?case
    using ih one(1,3) add_continuous_objs [OF add] by (simp add: group_columns_added_def)
qed

lemma extends_group_columns:
  assumes added: "group_columns_added vi family k mid out" and le: "si_num_global_vars input \<le> si_num_global_vars mid"
  shows "extends vi input out x x' \<longleftrightarrow>
    extends vi input mid x x' \<and> (\<forall>i < k. range_admits family (x' (columns_end vi mid + i)))"
proof -
  have "admits_new vi input out x' \<longleftrightarrow> admits_new vi input mid x' \<and> admits_new vi mid out x'"
    using added le by (intro admits_new_split) (simp_all add: group_columns_added_def)
  moreover have "admits_new vi mid out x' \<longleftrightarrow> (\<forall>i < k. range_admits family (x' (columns_end vi mid + i)))"
  proof -
    have new: "admits_new vi mid out x' \<longleftrightarrow> (\<forall>g. si_num_global_vars mid \<le> g \<and> g < si_num_global_vars mid + k \<longrightarrow>
        range_admits family (x' (vi_global_block_start vi + g)))"
      using added by (auto simp: group_columns_added_def admits_new_def)
    show ?thesis
    proof
      assume "admits_new vi mid out x'"
      then show "\<forall>i < k. range_admits family (x' (columns_end vi mid + i))"
        by (simp add: new columns_end_def add.assoc)
    next
      assume all: "\<forall>i < k. range_admits family (x' (columns_end vi mid + i))"
      have "range_admits family (x' (vi_global_block_start vi + g))"
        if "si_num_global_vars mid \<le> g" "g < si_num_global_vars mid + k" for g
        using all [rule_format, of "g - si_num_global_vars mid"] that by (simp add: columns_end_def)
      then show "admits_new vi mid out x'" by (simp add: new)
    qed
  qed
  moreover have "rows_hold out x' = rows_hold mid x'" using added by (simp add: group_columns_added_def)
  ultimately show ?thesis by (auto simp: extends_def)
qed

section \<open>One group\<close>

lemma link_holds_columns:
  assumes ok: "\<forall>m \<in> set members. member_ok n m" and z: "xs_result_column spec < n"
    and M: "xs_closing_big_m spec = Fin M"
  shows "on_columns n (link_holds policy spec members)"
proof (cases "members = []")
  case False
  have "link_holds policy spec members x' = link_holds policy spec members x" if agree: "agree_below n x x'" for x x'
  proof -
    have "envelope_holds spec members x' = envelope_holds spec members x"
      using ok z beyond_agree [OF _ z agree] by (simp add: envelope_holds_def)
    moreover have "native_left spec members [] x' = native_left spec members [] x"
      using on_columnsD [OF native_left_columns [OF ok z] agree] by simp
    moreover have "closing_holds spec members x' = closing_holds spec members x"
      using on_columnsD [OF closing_left_columns [OF ok z] agree, of "[]" M] closing_left_start [OF False M] by simp
    ultimately show ?thesis by (simp add: link_holds_def)
  qed
  then show ?thesis by (simp add: on_columns_def)
qed (simp add: link_holds_def on_columns_def)

abbreviation active_of :: "row_terms \<Rightarrow> idx list \<Rightarrow> idx list" where
  "active_of terms rows \<equiv> filter (has_nonzero terms) rows"

definition group_holds :: "SolverInput \<Rightarrow> MinMaxObjectiveSpec \<Rightarrow> NativeConstructPolicy \<Rightarrow> row_terms \<Rightarrow>
    idx \<times> idx list \<Rightarrow> (idx \<Rightarrow> real) \<Rightarrow> bool" where
  "group_holds input spec policy terms = (\<lambda>(z, rows) y.
     if active_of terms rows = [] then y z = 0
     else link_holds policy (objective_link z (mo_per_inner_agg spec \<noteq> MIN_AGG) (mo_per_inner_is_easy spec) (row_family input terms))
            (map (objective_member (BuildIndexer input) input terms) (active_of terms rows)) y)"

text \<open>A group column that has not been pinned yet.\<close>

definition group_slot :: "SolverInput \<Rightarrow> SolverInput \<Rightarrow> idx \<Rightarrow> bool" where
  "group_slot input mid z \<longleftrightarrow> (\<exists>g. z = vi_global_block_start (BuildIndexer input) + g \<and>
     si_num_global_vars input \<le> g \<and> g < si_num_global_vars mid \<and>
     si_global_variable_types mid ! g \<noteq> BOOLEAN \<and> column_admits mid g 0)"

definition per_state :: "SolverInput \<Rightarrow> SolverInput \<Rightarrow> bool" where
  "per_state input mid \<longleftrightarrow> well_formed (BuildIndexer input) mid \<and> same_box input mid \<and>
     si_num_global_vars input \<le> si_num_global_vars mid"

lemma group_members_facts:
  assumes ok: "objective_rows_ok input terms" "\<forall>r \<in> set rows. row_link_ok input terms r"
    and n: "vi_global_block_start (BuildIndexer input) \<le> n"
  shows "\<forall>m \<in> set (map (objective_member (BuildIndexer input) input terms) (active_of terms rows)). member_ok n m"
    and "\<forall>x. mm_point input x \<longrightarrow> (\<forall>m \<in> set (map (objective_member (BuildIndexer input) input terms) (active_of terms rows)).
      renamed_column m = None \<longrightarrow> range_has (xm_range m) (member_value m x))"
  using objective_member_facts(1,3) [OF ok(1)] ok(2) member_ok_less [OF _ n] by auto

lemma group_holds_columns:
  assumes ok: "objective_rows_ok input terms" "\<forall>r \<in> set rows. row_link_ok input terms r" and x: "mm_point input x"
    and n: "vi_global_block_start (BuildIndexer input) \<le> n" "z < n"
  shows "on_columns n (group_holds input spec policy terms (z, rows))"
proof (cases "active_of terms rows = []")
  case True
  then show ?thesis using n(2) by (simp add: group_holds_def on_columns_def agree_below_def)
next
  case False
  obtain M where "(if Unbounded (row_family input terms) then 0 else Span (row_family input terms)) = Fin M"
    using span_bound(2) [OF row_family_has(1) [OF ok(1) x] _ row_family_has(2,2) [OF ok(1) x]]
    by (cases "Unbounded (row_family input terms)") (auto simp: zero_dbl_def)
  with False link_holds_columns [OF group_members_facts(1) [OF ok n(1)]] n(2) show ?thesis
    by (simp add: group_holds_def)
qed

lemma inner_group_step:
  assumes run: "inner_group (BuildIndexer input) spec var_names policy terms (z, rows) mid = Inr out"
    and mid: "per_state input mid" "group_slot input mid z"
    and ok: "objective_rows_ok input terms" "\<forall>r \<in> set rows. row_link_ok input terms r" and x: "mm_point input x"
  shows "narrows (BuildIndexer input) input (mm_point input) (group_holds input spec policy terms (z, rows)) mid out"
    and "per_state input out" and "base_of out = base_of mid"
    and "\<exists>k. si_global_obj_coeffs out = si_global_obj_coeffs mid @ replicate k 0"
    and "\<And>z'. group_slot input mid z' \<Longrightarrow> z' \<noteq> z \<Longrightarrow> group_slot input out z'"
proof -
  let ?vi = "BuildIndexer input"
  have wf: "well_formed ?vi mid" and box: "same_box input mid" and le: "si_num_global_vars input \<le> si_num_global_vars mid"
    using mid(1) by (simp_all add: per_state_def)
  obtain g where g: "z = vi_global_block_start ?vi + g" "si_num_global_vars input \<le> g" "g < si_num_global_vars mid"
    "si_global_variable_types mid ! g \<noteq> BOOLEAN" "column_admits mid g 0" using mid(2) by (auto simp: group_slot_def)
  have all: "narrows ?vi input (mm_point input) (group_holds input spec policy terms (z, rows)) mid out \<and>
    base_of out = base_of mid \<and> (\<exists>k. si_global_obj_coeffs out = si_global_obj_coeffs mid @ replicate k 0) \<and>
    (\<forall>h < si_num_global_vars mid. h \<noteq> g \<longrightarrow> si_global_variable_types out ! h = si_global_variable_types mid ! h \<and>
       (\<forall>v. column_admits out h v = column_admits mid h v))"
  proof (cases "active_of terms rows = []")
    case True
    with run have out: "out = PinGlobalAux ?vi z 0 mid" by (simp add: inner_group_def)
    have "narrows ?vi input (mm_point input) (group_holds input spec policy terms (z, rows)) mid out"
    proof (rule narrows_iff)
      show "well_formed ?vi out" unfolding out by (rule pin_wf [OF wf])
      show "si_num_global_vars mid \<le> si_num_global_vars out" by (simp add: out PinGlobalAux_def Let_def)
      show "extends ?vi input out x x' \<longleftrightarrow> extends ?vi input mid x x' \<and> group_holds input spec policy terms (z, rows) x'" for x x'
        using extends_pin [OF wf g(2-4), of 0] g(5) True by (simp add: out g(1) group_holds_def zero_dbl_def)
    qed
    moreover have "base_of out = base_of mid \<and> si_global_obj_coeffs out = si_global_obj_coeffs mid @ replicate 0 0"
      by (simp add: out PinGlobalAux_def base_of_def Let_def)
    moreover have "si_global_variable_types out ! h = si_global_variable_types mid ! h \<and>
        column_admits out h v = column_admits mid h v" if "h \<noteq> g" for h v
      using that by (simp add: out g(1) PinGlobalAux_def column_admits_def Let_def)
    ultimately show ?thesis by blast
  next
    case False
    let ?members = "map (objective_member ?vi input terms) (active_of terms rows)"
    have link: "EmitExtremumLink ?vi (objective_link z (mo_per_inner_agg spec \<noteq> MIN_AGG) (mo_per_inner_is_easy spec)
        (row_family input terms)) ?members var_names policy mid = Inr out"
      using run False same_box_cong [OF box] by (simp add: inner_group_def)
    have zlt: "z < columns_end ?vi mid" using g by (simp add: columns_end_def)
    have n: "vi_global_block_start ?vi \<le> columns_end ?vi mid" by (simp add: columns_end_def)
    note A = on_decisions_columns [OF mm_point_decisions]
    note st = objective_link_states [OF link wf zlt group_members_facts(1) [OF ok n] A le row_family_has(1,2) [OF ok(1) x]
        group_members_facts(2) [OF ok n]]
    have "narrows ?vi input (mm_point input) (group_holds input spec policy terms (z, rows)) mid out"
      using narrows_states [OF st A le] False by (simp add: group_holds_def [abs_def])
    moreover have "keeps_columns mid out" using st by (simp add: states_def)
    ultimately show ?thesis
      using EmitExtremumLink_base [OF link] emitted_objs [OF link] column_admits_kept [of mid out]
      by (simp add: keeps_columns_def)
  qed
  then have kept: "h < si_num_global_vars mid \<Longrightarrow> h \<noteq> g \<Longrightarrow> si_global_variable_types out ! h = si_global_variable_types mid ! h \<and>
      (\<forall>v. column_admits out h v = column_admits mid h v)" for h by blast
  from all show nar: "narrows ?vi input (mm_point input) (group_holds input spec policy terms (z, rows)) mid out"
    and base: "base_of out = base_of mid" and "\<exists>k. si_global_obj_coeffs out = si_global_obj_coeffs mid @ replicate k 0"
    by blast+
  from nar le base_of_eqD(1,4,5) [OF base] box show "per_state input out"
    by (simp add: per_state_def narrows_def same_box_def)
  show "group_slot input out z'" if slot: "group_slot input mid z'" "z' \<noteq> z" for z'
  proof -
    obtain h where h: "z' = vi_global_block_start ?vi + h" "si_num_global_vars input \<le> h" "h < si_num_global_vars mid"
      "si_global_variable_types mid ! h \<noteq> BOOLEAN" "column_admits mid h 0" using slot(1) by (auto simp: group_slot_def)
    moreover have "h \<noteq> g" using h(1) g(1) slot(2) by simp
    moreover have "si_num_global_vars mid \<le> si_num_global_vars out" using nar by (simp add: narrows_def)
    ultimately show ?thesis using kept by (auto simp: group_slot_def)
  qed
qed

definition inner_derivable :: "SolverInput \<Rightarrow> MinMaxObjectiveSpec \<Rightarrow> NativeConstructPolicy \<Rightarrow> row_terms \<Rightarrow> bool" where
  "inner_derivable input spec policy terms \<longleftrightarrow> mo_per_inner_is_easy spec \<or>
     UseNative policy (Unbounded (row_family input terms)) \<or> \<not> Unbounded (row_family input terms)"

lemma inner_group_derivable:
  assumes "inner_group vi spec var_names policy terms (z, rows) mid = Inr out" "same_box input mid" "active_of terms rows \<noteq> []"
  shows "inner_derivable input spec policy terms"
  using assms link_run_derivable same_box_cong(1) [OF assms(2)]
  unfolding inner_group_def inner_derivable_def by (simp add: Let_def)

lemma group_slot_less: "group_slot input mid z \<Longrightarrow> z < columns_end (BuildIndexer input) mid"
  by (auto simp: group_slot_def columns_end_def)

lemma inner_groups:
  assumes "fold_res (inner_group (BuildIndexer input) spec var_names policy terms) zrs mid = Inr out"
    and "per_state input mid" "distinct (map fst zrs)"
    and "\<forall>(z, rows) \<in> set zrs. group_slot input mid z \<and> (\<forall>r \<in> set rows. row_link_ok input terms r)"
    and ok: "objective_rows_ok input terms" and x: "mm_point input x"
  shows "narrows (BuildIndexer input) input (mm_point input) (\<lambda>y. \<forall>zr \<in> set zrs. group_holds input spec policy terms zr y) mid out \<and>
    per_state input out \<and> base_of out = base_of mid \<and>
    (\<exists>k. si_global_obj_coeffs out = si_global_obj_coeffs mid @ replicate k 0) \<and>
    (\<forall>(z, rows) \<in> set zrs. active_of terms rows \<noteq> [] \<longrightarrow> inner_derivable input spec policy terms)"
  using assms(1-4)
proof (induction zrs arbitrary: mid)
  case Nil
  then show ?case
    using narrows_refl by (auto simp: per_state_def intro: exI [of _ 0])
next
  case (Cons zr zrs)
  let ?vi = "BuildIndexer input"
  obtain z rows where zr: "zr = (z, rows)" by force
  from Cons.prems(1) obtain t where t: "inner_group ?vi spec var_names policy terms (z, rows) mid = Inr t"
    "fold_res (inner_group ?vi spec var_names policy terms) zrs t = Inr out"
    by (auto simp: zr split: sum.splits)
  have this: "group_slot input mid z" "\<forall>r \<in> set rows. row_link_ok input terms r" using Cons.prems(4) by (simp_all add: zr)
  note step = inner_group_step [OF t(1) Cons.prems(2) this(1) ok this(2) x]
  have "z' \<noteq> z" if "(z', rows') \<in> set zrs" for z' rows'
    using Cons.prems(3) that by (force simp: zr)
  then have "\<forall>(z', rows') \<in> set zrs. group_slot input t z' \<and> (\<forall>r \<in> set rows'. row_link_ok input terms r)"
    using Cons.prems(4) step(5) by auto
  then have ih: "narrows ?vi input (mm_point input) (\<lambda>y. \<forall>zr \<in> set zrs. group_holds input spec policy terms zr y) t out \<and>
      per_state input out \<and> base_of out = base_of t \<and>
      (\<exists>k. si_global_obj_coeffs out = si_global_obj_coeffs t @ replicate k 0) \<and>
      (\<forall>(z, rows) \<in> set zrs. active_of terms rows \<noteq> [] \<longrightarrow> inner_derivable input spec policy terms)"
    using Cons.prems(3) by (intro Cons.IH [OF t(2) step(2)]) simp_all
  have cols: "on_columns (columns_end ?vi mid) (\<lambda>y. \<forall>zr \<in> set zrs. group_holds input spec policy terms zr y)"
  proof -
    have "on_columns (columns_end ?vi mid) (group_holds input spec policy terms zr')" if "zr' \<in> set zrs" for zr'
      using that Cons.prems(4) group_slot_less
      by (cases zr') (auto intro!: group_holds_columns [OF ok _ x] simp: columns_end_def)
    then show ?thesis unfolding on_columns_def by (meson ball_cong)
  qed
  from narrows_trans [OF step(1) conjunct1 [OF ih] cols]
  have "narrows ?vi input (mm_point input) (\<lambda>y. \<forall>zr \<in> set (zr # zrs). group_holds input spec policy terms zr y) mid out"
    by (rule narrows_cong) (simp add: zr)
  moreover have "\<exists>k. si_global_obj_coeffs out = si_global_obj_coeffs mid @ replicate k 0"
    using step(4) ih by (auto simp: replicate_add [symmetric])
  moreover have "active_of terms rows \<noteq> [] \<longrightarrow> inner_derivable input spec policy terms"
    using inner_group_derivable [OF t(1)] Cons.prems(2) by (simp add: per_state_def)
  ultimately show ?case using ih step(3) by (simp add: zr)
qed

section \<open>What the groups are worth\<close>

definition group_worth :: "MinMaxObjectiveSpec \<Rightarrow> row_terms \<Rightarrow> (idx \<Rightarrow> idx \<Rightarrow> real) \<Rightarrow> idx list \<Rightarrow> real" where
  "group_worth spec terms X rows =
     (if active_of terms rows = [] then 0
      else extremum (mo_per_inner_agg spec \<noteq> MIN_AGG) (row_value terms X ` set (active_of terms rows)))"

lemma group_worth_agree:
  assumes "objective_rows_ok input terms" "\<forall>r \<in> set rows. row_link_ok input terms r"
    and "agree_below (vi_global_block_start (BuildIndexer input)) x x'"
  shows "group_worth spec terms (at_flat input x') rows = group_worth spec terms (at_flat input x) rows"
proof -
  have "row_value terms (at_flat input x') ` set (active_of terms rows) = row_value terms (at_flat input x) ` set (active_of terms rows)"
    using row_value_agree [OF assms(1) _ assms(3)] assms(2) by (intro image_cong) (simp_all add: row_link_ok_def)
  then show ?thesis by (simp only: group_worth_def)
qed

lemma group_members_extremum:
  assumes "objective_rows_ok input terms" "\<forall>r \<in> set rows. row_link_ok input terms r" "active_of terms rows \<noteq> []"
  shows "members_extremum (mo_per_inner_agg spec \<noteq> MIN_AGG)
     (map (objective_member (BuildIndexer input) input terms) (active_of terms rows)) y = group_worth spec terms (at_flat input y) rows"
proof -
  have "(\<lambda>m. member_value m y) ` set (map (objective_member (BuildIndexer input) input terms) (active_of terms rows)) =
      row_value terms (at_flat input y) ` set (active_of terms rows)"
    using objective_member_facts(2) [OF assms(1)] assms(2) by (auto simp: image_image intro!: image_cong)
  with assms(3) show ?thesis by (simp only: group_worth_def if_False)
qed

lemma group_sound:
  assumes holds: "group_holds input spec policy terms (z, rows) y"
    and ok: "objective_rows_ok input terms" "\<forall>r \<in> set rows. row_link_ok input terms r"
    and dir: "mo_per_inner_is_easy spec = ((mo_per_inner_agg spec \<noteq> MIN_AGG) \<noteq> maximize)"
  shows "no_better maximize (y z) (group_worth spec terms (at_flat input y) rows)"
proof (cases "active_of terms rows = []")
  case True
  with holds show ?thesis by (simp add: group_holds_def group_worth_def)
next
  case False
  let ?members = "map (objective_member (BuildIndexer input) input terms) (active_of terms rows)"
  from False holds have "link_holds policy (objective_link z (mo_per_inner_agg spec \<noteq> MIN_AGG) (mo_per_inner_is_easy spec)
      (row_family input terms)) ?members y" by (simp add: group_holds_def)
  moreover have "?members \<noteq> []" using False by simp
  ultimately have "no_better maximize (y z) (members_extremum (mo_per_inner_agg spec \<noteq> MIN_AGG) ?members y)"
    by (rule objective_link_sound) (rule dir)
  then show ?thesis unfolding group_members_extremum [OF ok False] .
qed

lemma group_attains:
  assumes z: "y z = group_worth spec terms (at_flat input y) rows"
    and ok: "objective_rows_ok input terms" "\<forall>r \<in> set rows. row_link_ok input terms r" and y: "mm_point input y"
    and der: "active_of terms rows \<noteq> [] \<Longrightarrow> inner_derivable input spec policy terms"
  shows "group_holds input spec policy terms (z, rows) y"
proof (cases "active_of terms rows = []")
  case True
  with z show ?thesis by (simp add: group_holds_def group_worth_def)
next
  case False
  have "range_has (row_family input terms) (member_value m y)"
    if "m \<in> set (map (objective_member (BuildIndexer input) input terms) (active_of terms rows))" for m
    using that objective_member_facts(2) [OF ok(1)] ok(2) row_family_has(3) [OF ok(1) y] by (auto simp: row_link_ok_def)
  with False z der group_members_extremum [OF ok False] show ?thesis
    by (auto simp: group_holds_def inner_derivable_def intro!: objective_link_attains row_family_has(1) [OF ok(1) y])
qed

lemma group_worth_has:
  assumes ok: "objective_rows_ok input terms" "\<forall>r \<in> set rows. row_link_ok input terms r" and y: "mm_point input y"
  shows "range_has (row_family input terms) (group_worth spec terms (at_flat input y) rows)"
proof (cases "active_of terms rows = []")
  case True
  with row_family_has(2) [OF ok(1) y] show ?thesis by (simp add: group_worth_def)
next
  case False
  then have "group_worth spec terms (at_flat input y) rows \<in> row_value terms (at_flat input y) ` set (active_of terms rows)"
    unfolding group_worth_def if_not_P [OF False] by (intro extremum_mem) (simp_all only: finite_imageI finite_set image_is_empty set_empty not_False_eq_True)
  with row_family_has(3) [OF ok(1) y] ok(2) show ?thesis by (auto simp: row_link_ok_def)
qed

section \<open>The inner MIN/MAX\<close>

definition per_groups :: "SolverInput \<Rightarrow> idx list list" where
  "per_groups input = map (group_rows (si_objective_row_group_ids input)) [0..<si_objective_num_groups input]"

definition per_groups_ok :: "SolverInput \<Rightarrow> bool" where
  "per_groups_ok input \<longleftrightarrow> groups_ok (si_objective_row_group_ids input) (si_objective_num_groups input) \<and>
     si_objective_row_group_ids input \<noteq> [] \<and> length (si_objective_row_group_ids input) = si_num_rows input"

lemma objective_groups_eq: "per_groups_ok input \<Longrightarrow> objective_groups input = per_groups input"
  by (simp add: objective_groups_def per_groups_def per_groups_ok_def csr_bucket_eq Let_def)

lemma per_groups_rows: "per_groups_ok input \<Longrightarrow> rows \<in> set (per_groups input) \<Longrightarrow> r \<in> set rows \<Longrightarrow> r < si_num_rows input"
  by (auto simp: per_groups_def per_groups_ok_def group_rows_mem)

definition row_links_ok :: "SolverInput \<Rightarrow> row_terms \<Rightarrow> bool" where
  "row_links_ok input terms \<longleftrightarrow> (\<forall>r < si_num_rows input. row_link_ok input terms r)"

lemma per_rows_links:
  "per_groups_ok input \<Longrightarrow> row_links_ok input terms \<Longrightarrow> rows \<in> set (per_groups input) \<Longrightarrow> \<forall>r \<in> set rows. row_link_ok input terms r"
  using per_groups_rows by (auto simp: row_links_ok_def)

lemma clear_objective_groups [simp]:
  "objective_groups (clear_objective input) = objective_groups input"
  "si_objective_num_groups (clear_objective input) = si_objective_num_groups input"
  "si_objective_row_group_ids (clear_objective input) = si_objective_row_group_ids input"
  "row_family (clear_objective input) = row_family input"
  "si_lower_bounds (clear_objective input) = si_lower_bounds input" "si_upper_bounds (clear_objective input) = si_upper_bounds input"
  "si_objective_variable_indices (clear_objective input) = []"
  by (simp_all add: clear_objective_def objective_groups_def row_family_def fun_eq_iff)

text \<open>The extensions a run of \<open>inner_minmax\<close> leaves.\<close>

definition inner_best :: "SolverInput \<Rightarrow> MinMaxObjectiveSpec \<Rightarrow> row_terms \<Rightarrow> bool \<Rightarrow> SolverInput \<Rightarrow> idx list \<Rightarrow> (idx \<Rightarrow> real) \<Rightarrow> bool" where
  "inner_best input spec terms maximize out zs x \<longleftrightarrow>
     (let vi = BuildIndexer input; worth = (\<lambda>g. group_worth spec terms (at_flat input x) (per_groups input ! g))
      in (\<forall>x'. extends vi input out x x' \<longrightarrow> agree_below (columns_end vi input) x x' \<and>
            (\<forall>g < length zs. no_better maximize (x' (zs ! g)) (worth g))) \<and>
         (\<exists>x'. extends vi input out x x' \<and> (\<forall>g < length zs. x' (zs ! g) = worth g)))"

definition inner_left :: "SolverInput \<Rightarrow> SolverInput \<Rightarrow> idx list \<Rightarrow> bool" where
  "inner_left input out zs \<longleftrightarrow>
     (let vi = BuildIndexer input; k = si_objective_num_groups input
      in per_state input out \<and> base_of out = base_of (clear_objective input) \<and>
         zs = map (\<lambda>i. columns_end vi input + i) [0..<k] \<and> si_num_global_vars input + k \<le> si_num_global_vars out \<and>
         (\<exists>l. si_global_obj_coeffs out = si_global_obj_coeffs input @ replicate (k + l) 0))"

lemma inner_minmax_best:
  assumes run: "inner_minmax (BuildIndexer input) spec var_names policy terms (clear_objective input) = Inr (out, zs)"
    and wf: "well_formed (BuildIndexer input) input" and ok: "objective_rows_ok input terms"
    and groups: "per_groups_ok input" "row_links_ok input terms"
    and x: "mm_point input x" "rows_hold input x"
    and dir: "mo_per_inner_is_easy spec = ((mo_per_inner_agg spec \<noteq> MIN_AGG) \<noteq> maximize)"
  shows "inner_left input out zs" "inner_best input spec terms maximize out zs x"
proof -
  let ?vi = "BuildIndexer input" and ?k = "si_objective_num_groups input" and ?gs = "per_groups input"
  let ?e = "columns_end ?vi input" and ?family = "row_family input terms"
  let ?worth = "\<lambda>g. group_worth spec terms (at_flat input x) (?gs ! g)"
  obtain mid zs' where add: "add_group_columns ?vi ?family ?k (clear_objective input) = (mid, zs')" by force
  have wf0: "well_formed ?vi (clear_objective input)" using wf by simp
  note added = add_group_columns_facts [OF add wf0]
  have zs': "zs' = map (\<lambda>i. ?e + i) [0..<?k]" using added by simp
  from run have fold: "fold_res (inner_group ?vi spec var_names policy terms) (zip zs' ?gs) mid = Inr out" and zs: "zs = zs'"
    by (auto simp: inner_minmax_def Let_def add objective_groups_eq [OF groups(1)] split: sum.splits)
  have len: "length zs' = ?k" "length ?gs = ?k" by (simp_all add: zs' per_groups_def)
  have num: "si_num_global_vars mid = si_num_global_vars input + ?k" using added by (simp add: group_columns_added_def)
  have mid: "per_state input mid"
    using added base_of_eqD(1,4,5) [of mid "clear_objective input"]
    by (auto simp: per_state_def same_box_def group_columns_added_def)
  have slots: "\<forall>(z, rows) \<in> set (zip zs' ?gs). group_slot input mid z \<and> (\<forall>r \<in> set rows. row_link_ok input terms r)"
  proof safe
    fix z rows assume zr: "(z, rows) \<in> set (zip zs' ?gs)"
    then have "z \<in> (\<lambda>i. ?e + i) ` {0..<?k}" using set_zip_leftD [OF zr] by (simp only: zs' set_map set_upt)
    then obtain i where i: "i < ?k" "z = ?e + i" by (elim imageE) simp
    have "range_admits ?family 0" by (rule range_has_admits [OF row_family_has(2) [OF ok x(1)]])
    with added i num show "group_slot input mid z"
      by (auto simp: group_slot_def group_columns_added_def columns_end_def intro!: exI [of _ "si_num_global_vars input + i"])
    fix r assume "r \<in> set rows"
    then show "row_link_ok input terms r"
      using per_rows_links [OF groups] set_zip_rightD [OF zr] by blast
  qed
  have dist: "distinct (map fst (zip zs' ?gs))" by (simp add: len map_fst_zip zs' distinct_map inj_on_def)
  note ran = inner_groups [OF fold mid dist slots ok x(1)]
  note gh = group_worth_agree [OF ok per_rows_links [OF groups]]
  have pair: "(zs ! g, ?gs ! g) \<in> set (zip zs' ?gs)" "?gs ! g \<in> set ?gs" "zs ! g = ?e + g" if "g < ?k" for g
    using that len nth_mem [of g "zip zs' ?gs"] by (simp_all add: zs) (simp add: zs')
  have mid_iff: "extends ?vi input mid x y \<longleftrightarrow> agree_below ?e x y \<and> rows_hold input y \<and> (\<forall>i < ?k. range_admits ?family (y (?e + i)))" for y
    using extends_group_columns [OF conjunct1 [OF added], of input x y] by (auto simp: extends_def admits_new_def)
  have blk: "vi_global_block_start ?vi \<le> ?e" by (simp add: columns_end_def)
  show "inner_left input out zs"
    using ran added num zs zs' narrows_def [of ?vi input "mm_point input" _ mid out]
    by (auto simp: inner_left_def Let_def group_columns_added_def per_state_def replicate_add [symmetric] algebra_simps)
  have sound: "agree_below ?e x x' \<and> (\<forall>g < ?k. no_better maximize (x' (zs ! g)) (?worth g))" if ext: "extends ?vi input out x x'" for x'
  proof -
    have m: "extends ?vi input mid x x'" "\<forall>zr \<in> set (zip zs' ?gs). group_holds input spec policy terms zr x'"
      using ran x(1) ext unfolding narrows_def by blast+
    then have agree: "agree_below ?e x x'" by (simp add: mid_iff)
    have "no_better maximize (x' (zs ! g)) (?worth g)" if g: "g < ?k" for g
      using group_sound [OF bspec [OF m(2) pair(1) [OF g]] ok per_rows_links [OF groups pair(2) [OF g]] dir]
        gh [OF pair(2) [OF g] agree_below_less [OF agree blk]] by simp
    with agree show ?thesis by simp
  qed
  have attain: "\<exists>x'. extends ?vi input out x x' \<and> (\<forall>g < ?k. x' (zs ! g) = ?worth g)"
  proof -
    define y where "y c = (if ?e \<le> c \<and> c < ?e + ?k then ?worth (c - ?e) else x c)" for c
    have agree: "agree_below ?e x y" by (simp add: agree_below_def y_def)
    have at: "y (?e + g) = ?worth g" if "g < ?k" for g using that by (simp add: y_def)
    have worth: "group_worth spec terms (at_flat input y) (?gs ! g) = ?worth g" if "g < ?k" for g
      by (rule gh [OF pair(2) [OF that] agree_below_less [OF agree blk]])
    have py: "mm_point input y" using x(1) on_decisionsD [OF mm_point_decisions agree_below_less [OF agree blk]] by simp
    have "rows_hold input y" using x(2) wf agree
      by (subst rows_hold_agree [of input y x]) (auto simp: well_formed_def agree_below_def)
    moreover have "range_admits ?family (y (?e + g))" if "g < ?k" for g
      using group_worth_has [OF ok per_rows_links [OF groups pair(2) [OF that]] x(1)] at [OF that] range_has_admits by simp
    ultimately have ymid: "extends ?vi input mid x y" using agree by (simp add: mid_iff)
    have "group_holds input spec policy terms zr y" if zr: "zr \<in> set (zip zs' ?gs)" for zr
    proof -
      obtain g where g: "g < ?k" "zr = (zs ! g, ?gs ! g)" using zr len by (auto simp: set_zip zs)
      show ?thesis unfolding g(2)
        by (rule group_attains [OF _ ok per_rows_links [OF groups pair(2) [OF g(1)]] py])
           (use at [OF g(1)] worth [OF g(1)] pair(1,3) [OF g(1)] ran in auto)
    qed
    then obtain x' where x': "extends ?vi input out x x'" "agree_below (columns_end ?vi mid) y x'"
      using ran x(1) ymid unfolding narrows_def by blast
    have "x' (?e + g) = ?worth g" if "g < ?k" for g
      using x'(2) at [OF that] that num by (simp add: agree_below_def columns_end_def)
    with x'(1) show ?thesis using pair(3) by auto
  qed
  show "inner_best input spec terms maximize out zs x"
    using sound attain len by (simp add: inner_best_def Let_def zs)
qed

end
