(* ===== verification/MinMaxOuterExact.thy ===== *)
theory MinMaxOuterExact
  imports MinMaxPerExact
begin

text \<open>
  The outer level of a \<open>PER\<close> objective, and the whole of \<open>LinearizeMinMaxObjective\<close>: after the pass the
  best the new objective can reach over the fresh columns is a function of the decisions, written out for
  each spelling of the objective.
\<close>

section \<open>Outer SUM over group extrema\<close>

lemma outer_sum_objs:
  "outer_sum vi zs input = input\<lparr>si_global_obj_coeffs :=
     fold (\<lambda>z os. os[z - vi_global_block_start vi := 1]) zs (si_global_obj_coeffs input)\<rparr>"
  unfolding outer_sum_def by (induction zs arbitrary: input) simp_all

lemma set_ones:
  fixes n k s :: nat
  assumes "n + k \<le> length os"
  shows "length (fold (\<lambda>z os. os[z - s := (1 :: dbl)]) (map (\<lambda>i. s + n + i) [0..<k]) os) = length os \<and>
    (\<forall>g < length os. fold (\<lambda>z os. os[z - s := 1]) (map (\<lambda>i. s + n + i) [0..<k]) os ! g =
       (if n \<le> g \<and> g < n + k then 1 else os ! g))"
  using assms
proof (induction k)
  case (Suc k)
  then show ?case by (auto simp: nth_list_update less_Suc_eq)
qed auto

lemma sum_block:
  fixes n k l :: nat
  shows "(\<Sum>g<n + k + l. (if n \<le> g \<and> g < n + k then 1 else 0) * f g) = (\<Sum>i<k. f (n + i) :: real)"
proof -
  have "(\<Sum>g<n + k + l. (if n \<le> g \<and> g < n + k then 1 else 0) * f g) = (\<Sum>g\<in>{0 + n..<k + n}. f g)"
    by (rule sum.mono_neutral_cong_right) auto
  also have "\<dots> = (\<Sum>i<k. f (n + i))" by (simp only: sum.shift_bounds_nat_ivl lessThan_atLeast0 add.commute)
  finally show ?thesis .
qed

lemma set_nth_image: "set xs = (\<lambda>g. xs ! g) ` {..<length xs}"
  by (auto simp: set_conv_nth)

lemma sum_list_group:
  "(\<Sum>g<length gs. f (gs ! g)) = (\<Sum>rows\<leftarrow>gs. f rows :: real)"
  by (simp add: sum_list_sum_nth atLeast0LessThan)

lemma no_better_sum_below:
  "\<forall>g < (k :: nat). no_better m (f g) (h g) \<Longrightarrow> no_better m (\<Sum>g<k. f g) (\<Sum>g<k. h g)"
  by (auto simp: no_better_def split: if_splits intro: sum_mono)

text \<open>What the fresh columns cost does not bear on which values they may take.\<close>

lemma extends_objs: "extends vi input (out\<lparr>si_global_obj_coeffs := os\<rparr>) = extends vi input out"
  by (simp add: extends_def admits_new_def column_admits_def rows_hold_def flat_rows_hold_def fun_eq_iff)

lemma outer_sum_best:
  assumes left: "inner_left input out zs" and best: "inner_best input spec terms maximize out zs x"
    and free: "si_global_obj_coeffs input = replicate (si_num_global_vars input) 0"
  shows "best_over maximize (objective_at input (outer_sum (BuildIndexer input) zs out))
     (extends (BuildIndexer input) input (outer_sum (BuildIndexer input) zs out) x)
     (\<Sum>rows\<leftarrow>per_groups input. group_worth spec terms (at_flat input x) rows)"
proof -
  let ?vi = "BuildIndexer input" and ?k = "si_objective_num_groups input" and ?n = "si_num_global_vars input"
  let ?s = "vi_global_block_start ?vi" and ?final = "outer_sum (BuildIndexer input) zs out"
  let ?worth = "\<lambda>g. group_worth spec terms (at_flat input x) (per_groups input ! g)"
  obtain l where objs: "si_global_obj_coeffs out = replicate (?n + (?k + l)) 0"
    using left free by (auto simp: inner_left_def Let_def replicate_add)
  have zs: "zs = map (\<lambda>i. ?s + ?n + i) [0..<?k]" and ok: "globals_ok out"
    using left by (simp_all add: inner_left_def Let_def columns_end_def per_state_def well_formed_def)
  have no_rows: "si_objective_variable_indices ?final = []"
    using left base_of_objective [of out "clear_objective input"] by (simp add: inner_left_def Let_def outer_sum_objs)
  have len: "?n + (?k + l) = si_num_global_vars out" using ok objs by (simp add: globals_ok_def Let_def)
  have ones: "length (si_global_obj_coeffs ?final) = ?n + ?k + l \<and>
      (\<forall>g < ?n + ?k + l. rval (si_global_obj_coeffs ?final ! g) = (if ?n \<le> g \<and> g < ?n + ?k then 1 else 0))"
    using set_ones [of ?n ?k "si_global_obj_coeffs out" ?s] by (simp add: outer_sum_objs zs objs add.assoc zero_dbl_def one_dbl_def)
  have obj: "objective_at input ?final y = (\<Sum>i<?k. y (zs ! i))" for y
  proof -
    have "global_meaning ?final f = (\<Sum>g<?n + ?k + l. (if ?n \<le> g \<and> g < ?n + ?k then 1 else 0) * f g)" for f
      using ones len by (subst global_meaning_list) (simp_all add: outer_sum_objs add.assoc)
    then have "objective_at input ?final y = (\<Sum>i<?k. y (?s + (?n + i)))"
      unfolding objective_at_def no_rows by (simp add: sum_block)
    then show ?thesis by (simp add: zs add.assoc)
  qed
  have k: "length zs = ?k" "length (per_groups input) = ?k" by (simp_all add: zs per_groups_def)
  have total: "(\<Sum>rows\<leftarrow>per_groups input. group_worth spec terms (at_flat input x) rows) = (\<Sum>g<?k. ?worth g)"
    using sum_list_group [of "group_worth spec terms (at_flat input x)" "per_groups input"] k by simp
  have same: "extends ?vi input ?final = extends ?vi input out" by (simp add: outer_sum_objs extends_objs)
  have "no_better maximize (\<Sum>g<?k. y (zs ! g)) (\<Sum>g<?k. ?worth g)" if "extends ?vi input out x y" for y
    using best that k by (intro no_better_sum_below) (simp add: inner_best_def Let_def)
  moreover obtain x' where "extends ?vi input out x x'" "\<forall>g < ?k. x' (zs ! g) = ?worth g"
    using best k by (auto simp: inner_best_def Let_def)
  ultimately show ?thesis unfolding best_over_def obj same total by (intro conjI exI [of _ x']) simp_all
qed

section \<open>Outer MIN/MAX over group extrema\<close>

lemma column_member_facts:
  assumes "z < n"
  shows "member_ok n (column_member family z)" "member_value (column_member family z) x = x z"
    "renamed_column (column_member family z) = Some z"
  using assms AddColumn_inv [OF mr_default_inv(1), of z "- 1"]
  by (simp_all add: column_member_def member_ok_def member_value_def link_lin_def AddColumn_def mr_default_def
      renamed_column_def surviving_columns_def crisp_def negligible_def dbl_arith deq_def)

lemma outer_minmax_best:
  assumes run: "outer_minmax (BuildIndexer input) spec var_names policy terms zs mid = Inr out"
    and left: "inner_left input mid zs" and best: "inner_best input spec terms maximize mid zs x"
    and ok: "objective_rows_ok input terms" "per_groups_ok input" "row_links_ok input terms" and x: "mm_point input x"
    and some: "0 < si_objective_num_groups input"
    and free: "si_global_obj_coeffs input = replicate (si_num_global_vars input) 0"
    and dir: "mo_per_outer_is_easy spec = ((mo_per_outer_agg spec \<noteq> MIN_AGG) \<noteq> maximize)"
  shows "best_over maximize (objective_at input out) (extends (BuildIndexer input) input out x)
     (extremum (mo_per_outer_agg spec \<noteq> MIN_AGG) (group_worth spec terms (at_flat input x) ` set (per_groups input)))"
proof -
  let ?vi = "BuildIndexer input" and ?k = "si_objective_num_groups input" and ?max = "mo_per_outer_agg spec \<noteq> MIN_AGG"
  let ?family = "row_family input terms" and ?members = "map (column_member (row_family input terms)) zs"
  let ?worth = "\<lambda>g. group_worth spec terms (at_flat input x) (per_groups input ! g)"
  obtain m w where add: "AddGlobalContinuousAux ?vi ?family 1 [] mid = (m, w)" by force
  have st: "per_state input mid" "base_of mid = base_of (clear_objective input)" and zs: "zs = map (\<lambda>i. columns_end ?vi input + i) [0..<?k]"
    and num: "si_num_global_vars input + ?k \<le> si_num_global_vars mid"
    using left by (simp_all add: inner_left_def Let_def)
  have wf: "well_formed ?vi mid" and box: "same_box input mid" and le: "si_num_global_vars input \<le> si_num_global_vars mid"
    using st(1) by (simp_all add: per_state_def)
  have link: "EmitExtremumLink ?vi (objective_link w ?max (mo_per_outer_is_easy spec) ?family) ?members var_names policy m = Inr out"
    using run same_box_cong(1) [OF box] by (simp add: outer_minmax_def Let_def add)
  have zlt: "z < columns_end ?vi mid" if "z \<in> set zs" for z using that num by (auto simp: zs columns_end_def)
  have mok: "\<forall>m \<in> set ?members. member_ok (columns_end ?vi mid) m" using column_member_facts(1) zlt by auto
  have ne: "?members \<noteq> []" and k: "length zs = ?k" using some by (simp_all add: zs)
  have pins: "\<forall>y. mm_point input y \<longrightarrow> (\<forall>m \<in> set ?members. renamed_column m = None \<longrightarrow> range_has (xm_range m) (member_value m y))"
    using column_member_facts(3) [OF zlt] by auto
  note A = on_decisions_columns [OF mm_point_decisions]
  note col = extremum_column [OF add link wf ne dir mok A le row_family_has(1,2) [OF ok(1) x] pins x]
  have vals: "(\<lambda>m. member_value m y) ` set ?members = (\<lambda>g. y (zs ! g)) ` {..<?k}" for y
  proof -
    have "(\<lambda>m. member_value m y) ` set ?members = y ` set zs"
      using column_member_facts(2) [OF zlt] by (simp add: image_image)
    then show ?thesis by (simp add: set_nth_image [of zs] image_image k)
  qed
  have worths: "group_worth spec terms (at_flat input x) ` set (per_groups input) = ?worth ` {..<?k}"
    by (simp add: set_nth_image [of "per_groups input"] image_image) (simp add: per_groups_def)
  have obj: "objective_at input out y = y w" for y
  proof -
    from emitted_objs [OF link] obtain j where
      "si_global_obj_coeffs out = si_global_obj_coeffs mid @ [1] @ replicate j 0" by (auto simp: add_continuous_objs [OF add])
    moreover have "si_global_obj_coeffs mid = replicate (si_num_global_vars mid) 0"
      using left free wf by (auto simp: inner_left_def Let_def well_formed_def globals_ok_def replicate_add [symmetric])
    moreover have "base_of out = base_of (clear_objective input)"
      using EmitExtremumLink_base [OF link] add_continuous_facts(1) [OF add] st(2) by simp
    ultimately show ?thesis
      using base_of_objective [of out "clear_objective input"] col(1) add_continuous_facts(2) [OF add]
      by (simp add: one_column_objective well_formed_def columns_end_def)
  qed
  have "no_better maximize (y w) (extremum ?max (?worth ` {..<?k}))" if "extends ?vi input out x y" for y
  proof -
    have y: "extends ?vi input mid x y" "no_better maximize (y w) (extremum ?max ((\<lambda>g. y (zs ! g)) ` {..<?k}))"
      using col(2) [OF that] by (simp_all only: vals)
    have "no_better maximize (extremum ?max ((\<lambda>g. y (zs ! g)) ` {..<?k})) (extremum ?max (?worth ` {..<?k}))"
      using best y(1) k some by (intro no_better_extremum) (auto simp: inner_best_def Let_def)
    with y(2) show ?thesis by (rule no_better_trans)
  qed
  moreover obtain y where y: "extends ?vi input mid x y" "\<forall>g < ?k. y (zs ! g) = ?worth g"
    using best k by (auto simp: inner_best_def Let_def)
  have ext: "extremum ?max ((\<lambda>g. y (zs ! g)) ` {..<?k}) = extremum ?max (?worth ` {..<?k})"
    by (rule arg_cong [where f = "extremum ?max"], rule image_cong) (simp_all add: y(2))
  have "\<forall>m \<in> set ?members. range_has ?family (member_value m y)"
  proof -
    have "range_has ?family (?worth g)" if "g < ?k" for g
      using that by (intro group_worth_has [OF ok(1) per_rows_links [OF ok(2,3)] x]) (simp_all add: per_groups_def)
    then have "\<forall>v \<in> (\<lambda>g. y (zs ! g)) ` {..<?k}. range_has ?family v" using y(2) by auto
    then show ?thesis unfolding vals [symmetric] by blast
  qed
  from col(3) [OF y(1) this] obtain x' where "extends ?vi input out x x'" "x' w = extremum ?max (?worth ` {..<?k})"
    unfolding vals ext by blast
  ultimately show ?thesis unfolding best_over_def obj worths by blast
qed

section \<open>Outer MIN/MAX over group sums\<close>

definition scale_of :: "MinMaxObjectiveSpec \<Rightarrow> idx list \<Rightarrow> real" where
  "scale_of spec rows = (if mo_per_inner_was_avg spec then 1 / real (length rows) else 1)"

definition group_total :: "MinMaxObjectiveSpec \<Rightarrow> row_terms \<Rightarrow> (idx \<Rightarrow> idx \<Rightarrow> real) \<Rightarrow> idx list \<Rightarrow> real" where
  "group_total spec terms X rows = (\<Sum>r\<leftarrow>rows. scale_of spec rows * row_value terms X r)"

definition sums_ok :: "SolverInput \<Rightarrow> MinMaxObjectiveSpec \<Rightarrow> row_terms \<Rightarrow> bool" where
  "sums_ok input spec terms \<longleftrightarrow> (\<forall>rows \<in> set (per_groups input).
     (\<forall>r \<in> set rows. scaled_crisp terms r (scale_of spec rows)) \<and>
     list_all crisp (mr_coefficients (xm_link (sum_member (BuildIndexer input) spec terms ar_default rows))))"

lemma group_scale_Fin: "rows \<noteq> [] \<Longrightarrow> group_scale spec rows = Fin (scale_of spec rows) \<and> 0 < scale_of spec rows"
  by (simp add: group_scale_def scale_of_def one_dbl_def)

lemma sum_links:
  assumes "objective_rows_ok input terms" "set rows \<subseteq> {..<si_num_rows input}" "\<forall>r \<in> set rows. scaled_crisp terms r s"
    and "link_good (vi_global_block_start (BuildIndexer input)) m"
  shows "link_good (vi_global_block_start (BuildIndexer input)) (fold (\<lambda>r. AddObjectiveRowTerms (BuildIndexer input) terms r (Fin s)) rows m) \<and>
    link_value (fold (\<lambda>r. AddObjectiveRowTerms (BuildIndexer input) terms r (Fin s)) rows m) x =
      link_value m x + (\<Sum>r\<leftarrow>rows. s * row_value terms (at_flat input x) r)"
  using assms(2-4)
proof (induction rows arbitrary: m)
  case (Cons r rows)
  have "r < si_num_rows input" "vars_below (si_num_decide_vars input) (map fst terms)" "indexable input" "scaled_crisp terms r s"
    using assms(1) Cons.prems by (simp_all add: objective_rows_ok_def)
  from AddObjectiveRowTerms_good [OF this(3,1,2,4) Cons.prems(3)] Cons.IH Cons.prems(1,2) show ?case by simp
qed simp

lemma sum_member_facts:
  assumes ok: "objective_rows_ok input terms" "per_groups_ok input" "sums_ok input spec terms" and rows: "rows \<in> set (per_groups input)"
  shows "member_ok (vi_global_block_start (BuildIndexer input)) (sum_member (BuildIndexer input) spec terms family rows)"
    and "member_value (sum_member (BuildIndexer input) spec terms family rows) x = group_total spec terms (at_flat input x) rows"
proof -
  let ?vi = "BuildIndexer input" and ?m = "sum_member (BuildIndexer input) spec terms family rows"
  have link: "xm_link ?m = fold (\<lambda>r. AddObjectiveRowTerms ?vi terms r (Fin (scale_of spec rows))) rows mr_default"
    using group_scale_Fin [of rows spec] by (cases "rows = []") (simp_all add: sum_member_def)
  have "set rows \<subseteq> {..<si_num_rows input}" using per_groups_rows [OF ok(2) rows] by auto
  moreover have "\<forall>r \<in> set rows. scaled_crisp terms r (scale_of spec rows)"
    and crisp: "list_all crisp (mr_coefficients (xm_link ?m))"
    using ok(3) rows by (auto simp: sums_ok_def sum_member_def)
  ultimately have good: "link_good (vi_global_block_start ?vi) (xm_link ?m) \<and>
      link_value (xm_link ?m) x = group_total spec terms (at_flat input x) rows" for x
    using sum_links [OF ok(1) _ _ link_good_default(1), of rows "scale_of spec rows"] by (simp add: link group_total_def)
  then show "member_ok (vi_global_block_start ?vi) ?m" "member_value ?m x = group_total spec terms (at_flat input x) rows"
    using crisp by (simp_all add: member_of_link)
qed

lemma sr_scaled:
  assumes "sr_has rr v" "sr_lo g \<le> Fin u \<and> Fin u \<le> sr_hi g" "0 < s"
  shows "sr_lo g + sr_lo rr * Fin s \<le> Fin (u + s * v) \<and> Fin (u + s * v) \<le> sr_hi g + sr_hi rr * Fin s"
proof (rule sr_has_add [OF assms(2)])
  show "sr_lo rr * Fin s \<le> Fin (s * v)" "Fin (s * v) \<le> sr_hi rr * Fin s"
    using assms(1,3) by (cases "sr_lo rr"; cases "sr_hi rr"; simp add: sr_has_def mult.commute)+
qed

lemma group_sum_range_has:
  assumes ok: "objective_rows_ok input terms" and x: "mm_point input x" and rows: "set rows \<subseteq> {..<si_num_rows input}"
  shows "sr_has (group_sum_range spec (si_lower_bounds input) (si_upper_bounds input) terms rows) (group_total spec terms (at_flat input x) rows)"
proof (cases "rows = []")
  case True
  then show ?thesis by (simp add: group_sum_range_def group_total_def sr_has_def zero_dbl_def)
next
  case False
  define s where "s = scale_of spec rows"
  have s: "group_scale spec rows = Fin s" "0 < s" using group_scale_Fin [OF False, of spec] by (simp_all add: s_def)
  let ?rr = "saved_row_range (si_lower_bounds input) (si_upper_bounds input) terms"
  let ?step = "\<lambda>row g. let rr = ?rr row in \<lparr>sr_lo = sr_lo g + sr_lo rr * Fin s, sr_hi = sr_hi g + sr_hi rr * Fin s,
    sr_unbounded_var = (case sr_unbounded_var g of None \<Rightarrow> sr_unbounded_var rr | Some v \<Rightarrow> Some v)\<rparr>"
  have "sr_has (fold ?step rs g) (u + (\<Sum>r\<leftarrow>rs. s * row_value terms (at_flat input x) r))"
    if "set rs \<subseteq> {..<si_num_rows input}" "sr_has g u" for rs g u
    using that
  proof (induction rs arbitrary: g u)
    case (Cons r rs)
    have "sr_has (?step r g) (u + s * row_value terms (at_flat input x) r)"
      using sr_scaled [OF row_has [OF ok x, of r] _ s(2), of g u] Cons.prems by (simp add: sr_has_def Let_def)
    from Cons.IH [OF _ this] Cons.prems(1) show ?case by (simp add: add.assoc)
  qed simp
  from this [OF rows, of _ 0] show ?thesis
    by (simp add: group_sum_range_def group_total_def s sr_has_def zero_dbl_def flip: s_def)
qed

definition kept_groups :: "SolverInput \<Rightarrow> MinMaxObjectiveSpec \<Rightarrow> row_terms \<Rightarrow> idx list list" where
  "kept_groups input spec terms =
     filter (\<lambda>rows. keeps_member spec (sum_member (BuildIndexer input) spec terms ar_default rows)) (per_groups input)"

definition outer_worth :: "MinMaxObjectiveSpec \<Rightarrow> real list \<Rightarrow> real" where
  "outer_worth spec vs = (if vs = [] then 0 else extremum (mo_per_outer_agg spec \<noteq> MIN_AGG) (set vs))"

lemma outer_sums_best:
  assumes run: "outer_minmax_sums (BuildIndexer input) spec var_names policy terms (clear_objective input) = Inr out"
    and wf: "well_formed (BuildIndexer input) input" and x: "mm_point input x" "rows_hold input x"
    and ok: "objective_rows_ok input terms" "per_groups_ok input" "sums_ok input spec terms"
    and free: "si_global_obj_coeffs input = replicate (si_num_global_vars input) 0"
    and dir: "mo_per_outer_is_easy spec = ((mo_per_outer_agg spec \<noteq> MIN_AGG) \<noteq> maximize)"
  shows "best_over maximize (objective_at input out) (extends (BuildIndexer input) input out x)
     (outer_worth spec (map (group_total spec terms (at_flat input x)) (kept_groups input spec terms)))"
proof -
  let ?vi = "BuildIndexer input" and ?max = "mo_per_outer_agg spec \<noteq> MIN_AGG" and ?total = "group_total spec terms (at_flat input x)"
  let ?ends = "columns_end ?vi input"
  define family where "family = group_sum_family spec input terms (per_groups input)"
  let ?kept = "kept_groups input spec terms" and ?members = "map (sum_member ?vi spec terms family) (kept_groups input spec terms)"
  obtain m w where add: "AddGlobalContinuousAux ?vi family 1 [] (clear_objective input) = (m, w)" by force
  have fam: "group_sum_family spec (clear_objective input) terms (objective_groups (clear_objective input)) = family"
    by (simp add: family_def objective_groups_eq [OF ok(2)] group_sum_family_def)
  have "keeps_member spec (sum_member ?vi spec terms family rows) = keeps_member spec (sum_member ?vi spec terms ar_default rows)" for rows
    by (simp add: keeps_member_def sum_member_def)
  then have members: "filter (keeps_member spec) (map (sum_member ?vi spec terms family) (objective_groups (clear_objective input))) = ?members"
    by (simp add: objective_groups_eq [OF ok(2)] kept_groups_def filter_map o_def)
  have wf0: "well_formed ?vi (clear_objective input)" using wf by simp
  note facts = add_continuous_facts [OF add] and mid = add_continuous_wf [OF wf0 add]
  have sub: "set rows \<subseteq> {..<si_num_rows input}" if "rows \<in> set (per_groups input)" for rows
    using per_groups_rows [OF ok(2) that] by auto
  have cover: "\<forall>rows \<in> set (per_groups input). \<exists>u. sr_has (group_sum_range spec (si_lower_bounds input) (si_upper_bounds input) terms rows) u"
    using group_sum_range_has [OF ok(1) x(1) sub] by blast
  have range: "range_fin family" "range_has family 0"
    "mm_point input y \<Longrightarrow> rows \<in> set (per_groups input) \<Longrightarrow> range_has family (group_total spec terms (at_flat input y) rows)" for y rows
    using cover_fold(1) [OF cover ar_default_fin] cover_fold(2) [OF cover ar_default_fin, of 0] ar_default_zero
      group_sum_range_has [OF ok(1) _ sub, of y rows]
    by (simp_all add: family_def group_sum_family_def) (rule cover_fold(2) [OF cover ar_default_fin], blast)
  have self: "extends ?vi input (clear_objective input) x y \<longleftrightarrow> agree_below ?ends x y \<and> rows_hold input y" for y
    by (auto simp: extends_def admits_new_def)
  have xx: "extends ?vi input (clear_objective input) x x" using x(2) by (simp add: self agree_below_refl)
  have objs: "si_global_obj_coeffs m = replicate (si_num_global_vars input) 0 @ [1]" by (simp add: add_continuous_objs [OF add] free)
  have w: "w = vi_global_block_start ?vi + si_num_global_vars input" using facts(2) by (simp add: columns_end_def)
  have obj: "objective_at input out y = y w"
    if "globals_ok out" "base_of out = base_of m" "\<exists>k. si_global_obj_coeffs out = si_global_obj_coeffs m @ replicate k 0" for y
    using that objs base_of_objective [of out "clear_objective input"] facts(1) by (auto simp: one_column_objective w)
  have kept: "rows \<in> set (per_groups input)" if "rows \<in> set ?kept" for rows using that by (simp add: kept_groups_def)
  show ?thesis
  proof (cases "?kept = []")
    case True
    with run have out: "out = PinGlobalAux ?vi w 0 m" unfolding outer_minmax_sums_def fam Let_def add prod.case members by simp
    have g: "si_num_global_vars input \<le> si_num_global_vars input" "si_num_global_vars input < si_num_global_vars m" using facts(3) by simp_all
    have ok0: "globals_ok (clear_objective input)" using wf0 by (simp add: well_formed_def)
    have type: "si_global_variable_types m ! si_num_global_vars input \<noteq> BOOLEAN"
      using add ok0 by (auto simp: AddGlobalContinuousAux_def LabelGlobalAux_def Let_def globals_ok_def nth_append clear_objective_def)
    have adm: "column_admits m (si_num_global_vars input) 0"
      using add_continuous_column [OF add ok0, of 0] range_has_admits [OF range(2)] by simp
    have ext: "extends ?vi input out x y \<longleftrightarrow> agree_below ?ends x y \<and> rows_hold input y \<and> y w = 0" for y
      using extends_pin [OF mid(1) g type, of 0 x y] extends_add [OF add wf0, of input x y] adm range_has_admits [OF range(2)] self [of y]
      by (auto simp: out w zero_dbl_def)
    have "extends ?vi input out x (x(w := 0))"
      using x(2) wf facts(2) by (subst ext, subst rows_hold_agree [of input _ x]) (auto simp: agree_below_def well_formed_def columns_end_def)
    moreover have "objective_at input out y = y w" for y
      by (rule obj) (use mid(1) in \<open>auto simp: out PinGlobalAux_def Let_def base_of_def well_formed_def globals_ok_def intro: exI [of _ 0]\<close>)
    ultimately show ?thesis using ext True by (auto simp: best_over_def outer_worth_def)
  next
    case False
    with run have link: "EmitExtremumLink ?vi (objective_link w ?max (mo_per_outer_is_easy spec) family) ?members var_names policy m = Inr out"
      unfolding outer_minmax_sums_def fam Let_def add prod.case members by simp
    have ne: "?members \<noteq> []" using False by simp
    note mem = sum_member_facts [OF ok kept]
    have mok: "\<forall>m \<in> set ?members. member_ok (columns_end ?vi (clear_objective input)) m"
      using member_ok_less [OF mem(1), of _ ?ends] by (auto simp: columns_end_def)
    have le: "si_num_global_vars input \<le> si_num_global_vars (clear_objective input)" by simp
    have vals: "(\<lambda>m. member_value m y) ` set ?members = group_total spec terms (at_flat input y) ` set ?kept" for y
      using mem(2) by (simp add: image_image)
    have pins: "\<forall>y. mm_point input y \<longrightarrow> (\<forall>m \<in> set ?members. renamed_column m = None \<longrightarrow> range_has (xm_range m) (member_value m y))"
      using mem(2) range(3) kept by (auto simp: sum_member_def)
    note A = on_decisions_columns [OF mm_point_decisions]
    note col = extremum_column [OF add link wf0 ne dir mok A le range(1,2) pins x(1)]
    have obj': "objective_at input out y = y w" for y
      using obj col(1) EmitExtremumLink_base [OF link] emitted_objs [OF link] by (simp add: well_formed_def)
    have same: "group_total spec terms (at_flat input y) ` set ?kept = ?total ` set ?kept" if "agree_below ?ends x y" for y
    proof (rule image_cong [OF refl])
      fix rows assume "rows \<in> set ?kept"
      then show "group_total spec terms (at_flat input y) rows = ?total rows"
        using row_value_agree [OF ok(1) _ agree_below_less [OF that]] sub [OF kept]
        by (auto simp: group_total_def columns_end_def subset_iff intro!: arg_cong [where f = sum_list])
    qed
    have worth: "outer_worth spec (map ?total ?kept) = extremum ?max (?total ` set ?kept)" using False by (simp add: outer_worth_def)
    have "no_better maximize (y w) (outer_worth spec (map ?total ?kept))" if "extends ?vi input out x y" for y
      using col(2) [OF that] same [of y] self [of y] unfolding worth vals by simp
    moreover have "\<forall>m \<in> set ?members. range_has family (member_value m x)"
      using mem(2) range(3) [OF x(1)] kept by auto
    then obtain x' where "extends ?vi input out x x'" "x' w = outer_worth spec (map ?total ?kept)"
      using col(3) [OF xx] unfolding worth vals by blast
    ultimately show ?thesis unfolding best_over_def obj' by blast
  qed
qed

section \<open>Outer SUM over group sums\<close>

definition row_weight :: "MinMaxObjectiveSpec \<Rightarrow> SolverInput \<Rightarrow> idx \<Rightarrow> real" where
  "row_weight spec input r =
     (case si_objective_row_group_ids input ! r of
        None \<Rightarrow> 1
      | Some g \<Rightarrow> if mo_per_inner_was_avg spec then 1 / real (length (per_groups input ! g)) else 1)"

definition linear_worth :: "MinMaxObjectiveSpec \<Rightarrow> SolverInput \<Rightarrow> (idx \<Rightarrow> idx \<Rightarrow> real) \<Rightarrow> real" where
  "linear_worth spec input X =
     (\<Sum>t\<leftarrow>[0..<length (si_objective_variable_indices input)].
        case si_objective_variable_indices input ! t of
          None \<Rightarrow> 0
        | Some v \<Rightarrow> \<Sum>r\<leftarrow>[0..<si_num_rows input].
            rval (cc_get (si_objective_coefficients input ! t) r) * row_weight spec input r * X v r)"

definition linear_objective_ok :: "SolverInput \<Rightarrow> bool" where
  "linear_objective_ok input \<longleftrightarrow>
     length (si_objective_coefficients input) = length (si_objective_variable_indices input) \<and>
     (\<forall>col \<in> set (si_objective_coefficients input). cc_wf col \<and> logical_size col = si_num_rows input \<and> col_finite col) \<and>
     (\<forall>t < length (si_objective_variable_indices input). \<forall>v. si_objective_variable_indices input ! t = Some v \<longrightarrow>
        scope_of input v \<noteq> SCALAR \<or> obj_reduced input t)"

lemma average_fold:
  assumes "k \<le> length dense"
  shows "length (fold (\<lambda>row dense. case ids ! row of None \<Rightarrow> dense | Some g \<Rightarrow> dense[row := dense ! row / size_of g]) [0..<k] dense) = length dense \<and>
    (\<forall>r < length dense. fold (\<lambda>row dense. case ids ! row of None \<Rightarrow> dense | Some g \<Rightarrow> dense[row := dense ! row / size_of g]) [0..<k] dense ! r =
      (case ids ! r of None \<Rightarrow> dense ! r | Some g \<Rightarrow> if r < k then dense ! r / size_of g else dense ! r))"
  using assms
proof (induction k)
  case (Suc k)
  then show ?case by (auto simp: nth_list_update less_Suc_eq split: option.splits)
qed (auto split: option.splits)

lemma average_column_get:
  assumes "cc_wf col" "logical_size col = n" "r < n"
  shows "cc_get (average_column ids gs n col) r =
    (case ids ! r of None \<Rightarrow> cc_get col r | Some g \<Rightarrow> cc_get col r / Fin (real (length (gs ! g))))"
    "logical_size (average_column ids gs n col) = n"
proof -
  let ?dense = "dense_values (EnsureDense col)"
  have len: "length ?dense = n" using assms(1,2) by simp
  have get: "?dense ! r = cc_get col r"
    using EnsureDense_get [OF assms(1), of r] assms(2,3) by (simp add: cc_get_Dense)
  have "cc_get (average_column ids gs n col) r = fold (\<lambda>row dense. case ids ! row of None \<Rightarrow> dense
      | Some g \<Rightarrow> dense[row := dense ! row / Fin (real (length (gs ! g)))]) [0..<n] ?dense ! r"
    by (simp add: average_column_def Let_def cc_get_def)
  also have "\<dots> = (case ids ! r of None \<Rightarrow> cc_get col r | Some g \<Rightarrow> cc_get col r / Fin (real (length (gs ! g))))"
    using average_fold [of n ?dense, where ids = ids and size_of = "\<lambda>g. Fin (real (length (gs ! g)))"] len assms(3) get by (auto split: option.splits)
  finally show "cc_get (average_column ids gs n col) r =
    (case ids ! r of None \<Rightarrow> cc_get col r | Some g \<Rightarrow> cc_get col r / Fin (real (length (gs ! g))))" .
  show "logical_size (average_column ids gs n col) = n" using assms(2) by (simp add: average_column_def Let_def)
qed

lemma linear_best:
  fixes spec
  defines "out input \<equiv> (clear_objective input)\<lparr>si_objective_coefficients :=
      (if mo_per_inner_was_avg spec
       then map (average_column (si_objective_row_group_ids input) (per_groups input) (si_num_rows input)) (si_objective_coefficients input)
       else si_objective_coefficients input),
      si_objective_variable_indices := si_objective_variable_indices input\<rparr>"
  assumes groups: "per_groups_ok input" and lin: "linear_objective_ok input" and x: "rows_hold input x"
    and free: "si_global_obj_coeffs input = replicate (si_num_global_vars input) 0" and idx: "objective_rows_ok input (zip (si_objective_variable_indices input) (si_objective_coefficients input))"
  shows "best_over maximize (objective_at input (out input)) (extends (BuildIndexer input) input (out input) x)
    (linear_worth spec input (at_flat input x))"
proof -
  let ?vi = "BuildIndexer input" and ?out = "out input" and ?n = "si_num_rows input"
  let ?cols = "si_objective_coefficients input" and ?vars = "si_objective_variable_indices input"
  have fields: "si_num_rows ?out = ?n" "si_objective_variable_indices ?out = ?vars" "scope_of ?out = scope_of input"
    "obj_reduced ?out = obj_reduced input" "length (si_objective_coefficients ?out) = length ?cols"
    "si_global_obj_coeffs ?out = si_global_obj_coeffs input" "si_num_global_vars ?out = si_num_global_vars input"
    "extends ?vi input ?out x y = extends ?vi input input x y" for y
    by (simp_all add: out_def clear_objective_def scope_of_def obj_reduced_def fun_eq_iff extends_def admits_new_def rows_hold_def
        flat_rows_hold_def column_admits_def)
  have coef: "rval (cc_get (si_objective_coefficients ?out ! t) r) = rval (cc_get (?cols ! t) r) * row_weight spec input r \<and>
      logical_size (si_objective_coefficients ?out ! t) = ?n" if t: "t < length ?cols" and r: "r < ?n" for t r
  proof -
    have col: "cc_wf (?cols ! t)" "logical_size (?cols ! t) = ?n" "isfinite (cc_get (?cols ! t) r)"
      using lin nth_mem [OF t] r by (auto simp: linear_objective_ok_def col_finite_def)
    show ?thesis
    proof (cases "mo_per_inner_was_avg spec")
      case True
      then have at: "si_objective_coefficients ?out ! t = average_column (si_objective_row_group_ids input) (per_groups input) ?n (?cols ! t)"
        using t by (simp add: out_def)
      have "0 < length (per_groups input ! g)" if "si_objective_row_group_ids input ! r = Some g" for g
      proof -
        have "g < si_objective_num_groups input" "r \<in> set (group_rows (si_objective_row_group_ids input) g)"
          using groups r that by (auto simp: per_groups_ok_def groups_ok_def group_rows_mem)
        then show ?thesis by (auto simp: per_groups_def)
      qed
      with average_column_get [OF col(1,2) r, of "si_objective_row_group_ids input" "per_groups input"] col(3) True show ?thesis
        by (auto simp: at row_weight_def isfinite_iff split: option.splits)
    next
      case False
      with t col(2) show ?thesis by (simp add: out_def row_weight_def split: option.splits)
    qed
  qed
  have each: "linear_meaning ?out X t = (case ?vars ! t of None \<Rightarrow> 0 | Some v \<Rightarrow>
      \<Sum>r\<leftarrow>[0..<?n]. rval (cc_get (?cols ! t) r) * row_weight spec input r * X v r)" if t: "t < length ?vars" for t X
  proof -
    have tc: "t < length ?cols" using t lin by (simp add: linear_objective_ok_def)
    show ?thesis
    proof (cases "?vars ! t")
      case (Some v)
      then have "\<not> (scope_of input v = SCALAR \<and> \<not> obj_reduced input t)" using lin t by (auto simp: linear_objective_ok_def)
      moreover have "(\<Sum>r\<leftarrow>[0..<min ?n (logical_size (si_objective_coefficients ?out ! t))].
          rval (cc_get (si_objective_coefficients ?out ! t) r) * X v r) =
        (\<Sum>r\<leftarrow>[0..<?n]. rval (cc_get (?cols ! t) r) * row_weight spec input r * X v r)"
        using coef [OF tc] by (cases "?n = 0") (auto intro!: arg_cong [where f = sum_list])
      ultimately show ?thesis using Some tc by (auto simp: linear_meaning_def fields Let_def)
    qed (use tc in \<open>simp add: linear_meaning_def fields Let_def\<close>)
  qed
  have zero: "global_meaning ?out f = 0" for f
    by (simp add: global_meaning_def fields free zero_dbl_def)
  have obj: "objective_at input ?out y = linear_worth spec input (at_flat input y)" for y
    unfolding objective_at_def zero linear_worth_def fields(2)
    by (simp only: add_0_right) (rule arg_cong [where f = sum_list], rule map_cong [OF refl], simp add: each)
  have same: "linear_worth spec input (at_flat input y) = linear_worth spec input (at_flat input x)"
    if "extends ?vi input input x y" for y
  proof -
    have agree: "agree_below (vi_global_block_start ?vi) x y"
      using that agree_below_less by (auto simp: extends_def columns_end_def)
    have below: "v < si_num_decide_vars input" if "t < length ?vars" "?vars ! t = Some v" for t v
      using idx lin vars_belowD [OF _ that] by (simp add: objective_rows_ok_def linear_objective_ok_def)
    have "indexable input" using idx by (simp add: objective_rows_ok_def)
    then have at: "at_flat input y v r = at_flat input x v r" if "t < length ?vars" "?vars ! t = Some v" "r < ?n" for t v r
      by (rule at_flat_agree [OF _ below [OF that(1,2)] that(3) agree])
    have "(\<Sum>r\<leftarrow>[0..<?n]. rval (cc_get (?cols ! t) r) * row_weight spec input r * at_flat input y v r) =
        (\<Sum>r\<leftarrow>[0..<?n]. rval (cc_get (?cols ! t) r) * row_weight spec input r * at_flat input x v r)"
      if "t < length ?vars" "?vars ! t = Some v" for t v
      by (rule arg_cong [where f = sum_list], rule map_cong [OF refl]) (simp add: at [OF that])
    then show ?thesis
      unfolding linear_worth_def
      by (intro arg_cong [where f = sum_list] map_cong [OF refl]) (simp split: option.split)
  qed
  have "extends ?vi input input x x" using x by (auto simp: extends_def agree_below_refl admits_new_def)
  then have "\<exists>x'. extends ?vi input input x x' \<and> linear_worth spec input (at_flat input x') = linear_worth spec input (at_flat input x)"
    by blast
  moreover have "no_better maximize (linear_worth spec input (at_flat input y)) (linear_worth spec input (at_flat input x))"
    if "extends ?vi input input x y" for y using same [OF that] by simp
  ultimately show ?thesis unfolding best_over_def fields(8) obj by blast
qed

section \<open>The pass\<close>

abbreviation objective_terms :: "SolverInput \<Rightarrow> row_terms" where
  "objective_terms input \<equiv> zip (si_objective_variable_indices input) (si_objective_coefficients input)"

definition is_per :: "MinMaxObjectiveSpec \<Rightarrow> SolverInput \<Rightarrow> bool" where
  "is_per spec input \<longleftrightarrow> mo_per_inner_agg spec \<noteq> NO_AGG \<and> si_objective_num_groups input > 0"

text \<open>
  What the objective the pass leaves is worth at a point. The pass lets a MIN or MAX range over the rows
  with a coefficient that is not zero and gives a group without one the value 0; a group sum whose
  coefficients are all zero takes no part in an easy outer MIN or MAX, and a sum of sums keeps its
  coefficients and loses its constants. How far that is the objective of the query is the matter of
  \<open>MinMaxWritten\<close>.
\<close>

definition objective_worth :: "MinMaxObjectiveSpec \<Rightarrow> SolverInput \<Rightarrow> (idx \<Rightarrow> idx \<Rightarrow> real) \<Rightarrow> real" where
  "objective_worth spec input X =
     (let terms = objective_terms input
      in if is_per spec input then
           if is_minmax_agg (mo_per_inner_agg spec) then
             (if mo_per_outer_agg spec = SUM_AGG
              then \<Sum>rows\<leftarrow>per_groups input. group_worth spec terms X rows
              else extremum (mo_per_outer_agg spec \<noteq> MIN_AGG) (group_worth spec terms X ` set (per_groups input)))
           else if mo_per_outer_agg spec = SUM_AGG then linear_worth spec input X
           else outer_worth spec (map (group_total spec terms X) (kept_groups input spec terms))
         else extremum (mo_flat_agg spec \<noteq> MIN_AGG)
                (row_value terms X ` set (active_rows spec terms (si_num_rows input))))"

text \<open>
  What the passes before establish: an objective with finite coefficients, fresh columns that cost
  nothing yet, group ids in range, and levels classified easy exactly where the direction of the
  optimization drives the extremum.
\<close>

definition easy_matches :: "bool \<Rightarrow> ObjectiveAggregateType \<Rightarrow> bool \<Rightarrow> bool" where
  "easy_matches is_easy agg maximize \<longleftrightarrow> is_minmax_agg agg \<longrightarrow> is_easy = ((agg \<noteq> MIN_AGG) \<noteq> maximize)"

definition minmax_objective_ok :: "MinMaxObjectiveSpec \<Rightarrow> SolverInput \<Rightarrow> bool" where
  "minmax_objective_ok spec input \<longleftrightarrow>
     (let terms = objective_terms input; maximize = (si_sense input = MAXIMIZE)
      in si_objective_variable_indices input \<noteq> [] \<and> objective_rows_ok input terms \<and>
         si_global_obj_coeffs input = replicate (si_num_global_vars input) 0 \<and>
         (if is_per spec input
          then per_groups_ok input \<and> mo_per_outer_agg spec \<noteq> NO_AGG \<and>
               easy_matches (mo_per_inner_is_easy spec) (mo_per_inner_agg spec) maximize \<and>
               easy_matches (mo_per_outer_is_easy spec) (mo_per_outer_agg spec) maximize \<and>
               (if is_minmax_agg (mo_per_inner_agg spec) then row_links_ok input terms
                else if mo_per_outer_agg spec = SUM_AGG then linear_objective_ok input else sums_ok input spec terms)
          else is_minmax_agg (mo_flat_agg spec) \<and> row_links_ok input terms \<and>
               easy_matches (mo_flat_is_easy spec) (mo_flat_agg spec) maximize))"

lemma minmax_agg_cases: "agg \<noteq> NO_AGG \<Longrightarrow> agg \<noteq> SUM_AGG \<Longrightarrow> is_minmax_agg agg"
  by (cases agg) (simp_all add: is_minmax_agg_def)

lemma per_best:
  assumes run: "per_objective (BuildIndexer input) spec var_names policy (si_objective_variable_indices input)
      (si_objective_coefficients input) input = Inr out"
    and wf: "well_formed (BuildIndexer input) input" and ok: "minmax_objective_ok spec input" "is_per spec input"
    and x: "mm_point input x" "rows_hold input x"
  shows "best_over (si_sense input = MAXIMIZE) (objective_at input out) (extends (BuildIndexer input) input out x)
    (objective_worth spec input (at_flat input x))"
proof -
  let ?vi = "BuildIndexer input" and ?terms = "objective_terms input" and ?max = "si_sense input = MAXIMIZE"
  have rows: "objective_rows_ok input ?terms" and free: "si_global_obj_coeffs input = replicate (si_num_global_vars input) 0"
    and groups: "per_groups_ok input" and outer: "mo_per_outer_agg spec \<noteq> NO_AGG"
    and easy: "easy_matches (mo_per_inner_is_easy spec) (mo_per_inner_agg spec) ?max"
      "easy_matches (mo_per_outer_is_easy spec) (mo_per_outer_agg spec) ?max"
    using ok by (simp_all add: minmax_objective_ok_def Let_def)
  have some: "0 < si_objective_num_groups input" using ok(2) by (simp add: is_per_def)
  show ?thesis
  proof (cases "is_minmax_agg (mo_per_inner_agg spec)")
    case True
    then have links: "row_links_ok input ?terms" and dir: "mo_per_inner_is_easy spec = ((mo_per_inner_agg spec \<noteq> MIN_AGG) \<noteq> ?max)"
      using ok easy(1) by (simp_all add: minmax_objective_ok_def Let_def easy_matches_def)
    obtain mid zs where inner: "inner_minmax ?vi spec var_names policy ?terms (clear_objective input) = Inr (mid, zs)"
      using run True by (auto simp: per_objective_def Let_def split: sum.splits)
    note best = inner_minmax_best [OF inner wf rows groups links x dir]
    show ?thesis
    proof (cases "mo_per_outer_agg spec = SUM_AGG")
      case sum: True
      with run True inner have "out = outer_sum ?vi zs mid" by (simp add: per_objective_def Let_def)
      with outer_sum_best [OF best free] ok(2) True sum show ?thesis by (simp add: objective_worth_def Let_def)
    next
      case False
      note minmax = minmax_agg_cases [OF outer False]
      with run True False inner have "outer_minmax ?vi spec var_names policy ?terms zs mid = Inr out"
        by (simp add: per_objective_def Let_def)
      from outer_minmax_best [OF this best rows groups links x(1) some free] easy(2) minmax ok(2) True False
      show ?thesis by (simp add: objective_worth_def Let_def easy_matches_def)
    qed
  next
    case plain: False
    show ?thesis
    proof (cases "mo_per_outer_agg spec = SUM_AGG")
      case sum: True
      then have lin: "linear_objective_ok input" using ok plain by (simp add: minmax_objective_ok_def Let_def)
      have out: "out = (clear_objective input)\<lparr>si_objective_coefficients :=
          (if mo_per_inner_was_avg spec
           then map (average_column (si_objective_row_group_ids input) (per_groups input) (si_num_rows input)) (si_objective_coefficients input)
           else si_objective_coefficients input), si_objective_variable_indices := si_objective_variable_indices input\<rparr>"
        using run plain sum objective_groups_eq [OF groups]
        by (cases "mo_per_inner_was_avg spec") (simp_all add: per_objective_def Let_def)
      show ?thesis
        using linear_best [OF groups lin x(2) free rows, of ?max spec] ok(2) plain sum
        by (simp add: out objective_worth_def Let_def)
    next
      case False
      note minmax = minmax_agg_cases [OF outer False]
      from run plain False minmax have "outer_minmax_sums ?vi spec var_names policy ?terms (clear_objective input) = Inr out"
        by (simp add: per_objective_def Let_def)
      moreover have "sums_ok input spec ?terms" using ok plain False by (simp add: minmax_objective_ok_def Let_def)
      ultimately show ?thesis
        using outer_sums_best [OF _ wf x rows groups _ free] easy(2) minmax ok(2) plain False
        by (simp add: objective_worth_def Let_def easy_matches_def)
    qed
  qed
qed

lemma minmax_objective_best:
  assumes run: "LinearizeMinMaxObjective (BuildIndexer input) spec var_names policy input = Inr out"
    and wf: "well_formed (BuildIndexer input) input" and ok: "minmax_objective_ok spec input"
    and x: "mm_point input x" "rows_hold input x"
  shows "best_over (si_sense input = MAXIMIZE) (objective_at input out) (extends (BuildIndexer input) input out x)
    (objective_worth spec input (at_flat input x))"
proof (cases "is_per spec input")
  case True
  with run ok show ?thesis
    by (intro per_best [OF _ wf ok True x]) (auto simp: LinearizeMinMaxObjective_def is_per_def minmax_objective_ok_def Let_def)
next
  case False
  let ?terms = "objective_terms input" and ?rows = "active_rows spec (objective_terms input) (si_num_rows input)"
  have flat: "is_minmax_agg (mo_flat_agg spec)" "row_links_ok input ?terms" "si_objective_variable_indices input \<noteq> []"
    "objective_rows_ok input ?terms" "si_global_obj_coeffs input = replicate (si_num_global_vars input) 0"
    "mo_flat_is_easy spec = ((mo_flat_agg spec \<noteq> MIN_AGG) \<noteq> (si_sense input = MAXIMIZE))"
    using ok False by (simp_all add: minmax_objective_ok_def Let_def easy_matches_def)
  have "\<not> (mo_per_inner_agg spec \<noteq> NO_AGG \<and> si_objective_variable_indices input \<noteq> [] \<and> si_objective_num_groups input > 0)"
    using False by (auto simp: is_per_def)
  with run flat(1,3) have "flat_objective (BuildIndexer input) spec var_names policy ?terms input = Inr out"
    by (auto simp: LinearizeMinMaxObjective_def Let_def is_minmax_agg_def)
  moreover have "\<forall>r \<in> set ?rows. row_link_ok input ?terms r" using flat(2) by (simp add: row_links_ok_def active_rows_def)
  ultimately show ?thesis
    using flat_best [OF _ wf x flat(4) _ flat(6,5)] False by (simp add: objective_worth_def Let_def)
qed

end
