(* ===== verification/MinMaxWritten.thy ===== *)
theory MinMaxWritten
  imports MinMaxOuterExact
begin

text \<open>
  What a MIN/MAX objective is worth as the query writes it, with every row and every group a member,
  and that the objective the pass builds is worth the same on the inputs where nothing is dropped.
\<close>

section \<open>The objective as written\<close>

definition written_rows :: "MinMaxObjectiveSpec \<Rightarrow> nat \<Rightarrow> idx set" where
  "written_rows spec n = {r. r < n \<and> (mo_has_when spec \<longrightarrow> mo_when_mask spec ! r)}"

definition inner_value :: "MinMaxObjectiveSpec \<Rightarrow> row_terms \<Rightarrow> (idx \<Rightarrow> idx \<Rightarrow> real) \<Rightarrow> idx list \<Rightarrow> real" where
  "inner_value spec terms X rows =
     (if is_minmax_agg (mo_per_inner_agg spec)
      then extremum (mo_per_inner_agg spec \<noteq> MIN_AGG) (row_value terms X ` set rows)
      else if mo_per_inner_was_avg spec then (\<Sum>r\<leftarrow>rows. row_value terms X r) / real (length rows)
      else (\<Sum>r\<leftarrow>rows. row_value terms X r))"

definition written_worth :: "MinMaxObjectiveSpec \<Rightarrow> SolverInput \<Rightarrow> (idx \<Rightarrow> idx \<Rightarrow> real) \<Rightarrow> real" where
  "written_worth spec input X =
     (let terms = objective_terms input
      in if \<not> is_per spec input
         then extremum (mo_flat_agg spec \<noteq> MIN_AGG) (row_value terms X ` written_rows spec (si_num_rows input))
         else if mo_per_outer_agg spec = SUM_AGG then \<Sum>rows\<leftarrow>per_groups input. inner_value spec terms X rows
         else extremum (mo_per_outer_agg spec \<noteq> MIN_AGG) (inner_value spec terms X ` set (per_groups input)))"

text \<open>The constants that a sum of sums carries and no decision moves; the pass keeps only its coefficients.\<close>

definition written_constant :: "MinMaxObjectiveSpec \<Rightarrow> SolverInput \<Rightarrow> real" where
  "written_constant spec input =
     (if is_per spec input \<and> \<not> is_minmax_agg (mo_per_inner_agg spec) \<and> mo_per_outer_agg spec = SUM_AGG
      then written_worth spec input (\<lambda>v r. 0) else 0)"

text \<open>
  Where the pass drops nothing: no member of an extremum has only zero coefficients, no group is empty,
  an easy outer level has no group that sums up to nothing at every point, and a row without a group has
  no share in a sum.
\<close>

definition has_coefficient :: "row_terms \<Rightarrow> idx \<Rightarrow> bool" where
  "has_coefficient terms r \<longleftrightarrow> (\<exists>(var, col) \<in> set terms. cc_get col r \<noteq> 0)"

definition nothing_dropped :: "MinMaxObjectiveSpec \<Rightarrow> SolverInput \<Rightarrow> bool" where
  "nothing_dropped spec input \<longleftrightarrow>
     (let terms = objective_terms input
      in if \<not> is_per spec input then \<forall>r \<in> written_rows spec (si_num_rows input). has_coefficient terms r
         else (\<forall>rows \<in> set (per_groups input). rows \<noteq> []) \<and>
           (if is_minmax_agg (mo_per_inner_agg spec)
            then \<forall>rows \<in> set (per_groups input). \<forall>r \<in> set rows. has_coefficient terms r
            else if mo_per_outer_agg spec = SUM_AGG
            then \<forall>r < si_num_rows input. si_objective_row_group_ids input ! r = None \<longrightarrow> \<not> has_coefficient terms r
            else mo_per_outer_is_easy spec \<longrightarrow>
              (\<forall>rows \<in> set (per_groups input). \<exists>x. 1 / 10 ^ 15 \<le> \<bar>inner_value spec terms (at_flat input x) rows\<bar>)))"

section \<open>Rows\<close>

lemma crisp_nonzero: "crisp c \<Longrightarrow> \<bar>c\<bar> \<ge> Fin (1 / 10 ^ 15) \<longleftrightarrow> c \<noteq> 0"
  by (cases c) (auto simp: crisp_def negligible_def zero_dbl_def)

lemma has_coefficient_nonzero: "scaled_crisp terms r s \<Longrightarrow> has_nonzero terms r \<longleftrightarrow> has_coefficient terms r"
  unfolding scaled_crisp_def has_nonzero_def has_coefficient_def
  by (induction terms) (auto simp: crisp_nonzero [simplified] zero_dbl_def)

lemma no_coefficient_value: "\<not> has_coefficient terms r \<Longrightarrow> var_part terms r X None = 0"
  unfolding has_coefficient_def var_part_def
  by (induction terms) (auto simp: part_of_def zero_dbl_def split: option.splits)

lemma no_decisions: "var_part terms r (\<lambda>v r. 0) None = 0"
  unfolding var_part_def by (induction terms) (auto simp: part_of_def split: option.splits)

lemma active_all:
  assumes "objective_rows_ok input terms" "\<forall>r \<in> set rows. r < si_num_rows input" "\<forall>r \<in> set rows. has_coefficient terms r"
  shows "active_of terms rows = rows"
  using assms has_coefficient_nonzero [of terms _ 1] by (auto simp: objective_rows_ok_def filter_id_conv)

section \<open>Sums over groups\<close>

lemma group_total_inner:
  assumes "\<not> is_minmax_agg (mo_per_inner_agg spec)"
  shows "group_total spec terms X rows = inner_value spec terms X rows"
  using assms by (simp add: group_total_def inner_value_def scale_of_def sum_list_const_mult)

lemma inner_values_apart:
  assumes "\<not> is_minmax_agg (mo_per_inner_agg spec)" "1 / 10 ^ 15 \<le> \<bar>inner_value spec terms X rows\<bar>"
  shows "1 / 10 ^ 15 \<le> \<bar>group_total spec terms X rows\<bar>"
  using assms(2) group_total_inner [OF assms(1)] by simp

text \<open>A sum over all rows in which rows without a group count nothing, taken group by group.\<close>

lemma sum_by_groups:
  assumes ids: "groups_ok ids n" and none: "\<forall>r < length ids. ids ! r = None \<longrightarrow> f r = 0"
  shows "(\<Sum>r\<leftarrow>[0..<length ids]. f r) = (\<Sum>g\<leftarrow>[0..<n]. \<Sum>r\<leftarrow>group_rows ids g. f r :: real)"
proof -
  have sums: "(\<Sum>r\<leftarrow>group_rows ids g. f r) = (\<Sum>r | r < length ids \<and> ids ! r = Some g. f r)" for g
  proof -
    have "set (group_rows ids g) = {r. r < length ids \<and> ids ! r = Some g}" by (auto simp: group_rows_mem)
    then show ?thesis using group_rows_sorted [of ids g] by (metis sum.distinct_set_conv_list)
  qed
  have "(\<Sum>g<n. \<Sum>r | r < length ids \<and> ids ! r = Some g. f r) = (\<Sum>r | r < length ids \<and> ids ! r \<noteq> None. f r)"
    by (subst sum.UNION_disjoint [symmetric])
       (use ids in \<open>auto simp: groups_ok_def intro!: sum.cong\<close>)
  also have "\<dots> = (\<Sum>r<length ids. f r)"
    by (rule sum.mono_neutral_left) (use none in auto)
  finally show ?thesis by (simp add: sums interv_sum_list_conv_sum_set_nat atLeast0LessThan)
qed

text \<open>The sum of sums: the coefficients' share, and with it the constants.\<close>

lemma linear_worth_rows:
  assumes "length (si_objective_coefficients input) = length (si_objective_variable_indices input)"
  shows "linear_worth spec input X =
    (\<Sum>r\<leftarrow>[0..<si_num_rows input]. row_weight spec input r * var_part (objective_terms input) r X None)"
proof -
  let ?vs = "si_objective_variable_indices input" and ?cs = "si_objective_coefficients input"
  let ?f = "\<lambda>(var, col). case var of None \<Rightarrow> 0 | Some v \<Rightarrow> \<Sum>r\<leftarrow>[0..<si_num_rows input]. rval (cc_get col r) * row_weight spec input r * X v r"
  have swap: "(\<Sum>t\<leftarrow>ts. ?f t) = (\<Sum>r\<leftarrow>[0..<si_num_rows input]. row_weight spec input r * var_part ts r X None)" for ts
  proof (induction ts)
    case (Cons t ts)
    have "?f t = (\<Sum>r\<leftarrow>[0..<si_num_rows input]. row_weight spec input r * part_of r X None t)"
      by (cases t; cases "fst t") (auto simp: part_of_def mult_ac)
    then show ?case using Cons by (simp add: distrib_left sum_list_addf)
  qed simp
  have "linear_worth spec input X = (\<Sum>t\<leftarrow>[0..<length ?vs]. ?f (zip ?vs ?cs ! t))"
    unfolding linear_worth_def by (rule arg_cong [where f = sum_list], rule map_cong) (simp_all add: assms)
  also have "\<dots> = (\<Sum>t\<leftarrow>zip ?vs ?cs. ?f t)"
    by (rule arg_cong [where f = sum_list], rule nth_equalityI) (simp_all add: assms)
  also have "\<dots> = (\<Sum>r\<leftarrow>[0..<si_num_rows input]. row_weight spec input r * var_part (zip ?vs ?cs) r X None)"
    by (rule swap)
  finally show ?thesis .
qed

lemma linear_worth_written:
  assumes len: "length (si_objective_coefficients input) = length (si_objective_variable_indices input)"
    and groups: "per_groups_ok input" and nonempty: "\<forall>rows \<in> set (per_groups input). rows \<noteq> []"
    and none: "\<forall>r < si_num_rows input. si_objective_row_group_ids input ! r = None \<longrightarrow> \<not> has_coefficient (objective_terms input) r"
    and plain: "\<not> is_minmax_agg (mo_per_inner_agg spec)"
  shows "linear_worth spec input X =
    (\<Sum>rows\<leftarrow>per_groups input. inner_value spec (objective_terms input) X rows) -
    (\<Sum>rows\<leftarrow>per_groups input. inner_value spec (objective_terms input) (\<lambda>v r. 0) rows)"
proof -
  let ?ids = "si_objective_row_group_ids input" and ?terms = "objective_terms input" and ?n = "si_objective_num_groups input"
  have ids: "groups_ok ?ids ?n" "length ?ids = si_num_rows input" using groups by (simp_all add: per_groups_ok_def)
  have weight: "row_weight spec input r = scale_of spec (group_rows ?ids g)" if "r \<in> set (group_rows ?ids g)" "g < ?n" for r g
    using that by (simp add: group_rows_mem row_weight_def scale_of_def per_groups_def)
  have share: "(\<Sum>r\<leftarrow>group_rows ?ids g. row_weight spec input r * var_part ?terms r X None) =
      inner_value spec ?terms X (group_rows ?ids g) - inner_value spec ?terms (\<lambda>v r. 0) (group_rows ?ids g)" if g: "g < ?n" for g
  proof -
    let ?rows = "group_rows ?ids g"
    have "(\<Sum>r\<leftarrow>?rows. row_weight spec input r * var_part ?terms r X None) =
        (\<Sum>r\<leftarrow>?rows. scale_of spec ?rows * row_value ?terms X r - scale_of spec ?rows * row_value ?terms (\<lambda>v r. 0) r)"
      by (rule arg_cong [where f = sum_list], rule map_cong) (simp_all add: weight [OF _ g] row_value_def no_decisions distrib_left)
    then show ?thesis by (simp add: group_total_inner [OF plain, symmetric] group_total_def sum_list_subtractf)
  qed
  have "linear_worth spec input X = (\<Sum>r\<leftarrow>[0..<length ?ids]. row_weight spec input r * var_part ?terms r X None)"
    using linear_worth_rows [OF len] ids(2) by simp
  also have "\<dots> = (\<Sum>g\<leftarrow>[0..<?n]. \<Sum>r\<leftarrow>group_rows ?ids g. row_weight spec input r * var_part ?terms r X None)"
    by (rule sum_by_groups [OF ids(1)]) (use none ids(2) no_coefficient_value in simp)
  also have "\<dots> = (\<Sum>g\<leftarrow>[0..<?n]. inner_value spec ?terms X (group_rows ?ids g) - inner_value spec ?terms (\<lambda>v r. 0) (group_rows ?ids g))"
    by (rule arg_cong [where f = sum_list], rule map_cong) (simp_all add: share)
  finally show ?thesis by (simp add: per_groups_def sum_list_subtractf comp_def)
qed

section \<open>Group sums that an easy outer level keeps\<close>

lemma no_columns_value:
  assumes "member_ok n m" "HasNoColumns (xm_link m)"
  shows "member_value m x = rval (mr_constant (xm_link m))"
proof -
  have "\<forall>c \<in> set (mr_coefficients (xm_link m)). c = 0"
    using assms crisp_nonzero by (auto simp: member_ok_def HasNoColumns_def list_all_iff simp del: power_one_over)
  then have "\<forall>p \<in> set (zip (mr_indices (xm_link m)) (mr_coefficients (xm_link m))). (\<lambda>(i, c). rval c * x i) p = 0"
    using set_zip_rightD by (fastforce simp: zero_dbl_def)
  then have "link_lin (xm_link m) x = 0"
    unfolding link_lin_def lin_real_def by (metis (no_types, lifting) map_cong sum_list_0)
  then show ?thesis by (simp add: member_value_def)
qed

lemma kept_all:
  assumes ok: "objective_rows_ok input terms" "per_groups_ok input" "sums_ok input spec terms"
    and plain: "\<not> is_minmax_agg (mo_per_inner_agg spec)"
    and big: "mo_per_outer_is_easy spec \<Longrightarrow>
      \<forall>rows \<in> set (per_groups input). \<exists>x. 1 / 10 ^ 15 \<le> \<bar>inner_value spec terms (at_flat input x) rows\<bar>"
  shows "kept_groups input spec terms = per_groups input"
proof -
  have "keeps_member spec (sum_member (BuildIndexer input) spec terms ar_default rows)" if rows: "rows \<in> set (per_groups input)" for rows
  proof (rule ccontr)
    let ?m = "sum_member (BuildIndexer input) spec terms ar_default rows"
    assume "\<not> keeps_member spec ?m"
    then have none: "mo_per_outer_is_easy spec" "HasNoColumns (xm_link ?m)" "\<bar>mr_constant (xm_link ?m)\<bar> < Fin (1 / 10 ^ 15)" by (auto simp: keeps_member_def)
    note facts = sum_member_facts [OF ok rows, of ar_default]
    obtain x where x: "1 / 10 ^ 15 \<le> \<bar>inner_value spec terms (at_flat input x) rows\<bar>" using big [OF none(1)] rows by blast
    have "isfinite (mr_constant (xm_link ?m))" using facts(1) by (simp add: member_ok_def)
    then have "\<bar>rval (mr_constant (xm_link ?m))\<bar> < 1 / 10 ^ 15" using none(3) by (auto simp: isfinite_iff)
    with no_columns_value [OF facts(1) none(2), of x] facts(2) [of x] inner_values_apart [OF plain x] show False by simp
  qed
  then show ?thesis by (simp add: kept_groups_def filter_id_conv)
qed

section \<open>The objective the pass builds\<close>

lemma flat_worth_written:
  assumes "\<not> is_per spec input" "objective_rows_ok input (objective_terms input)" "nothing_dropped spec input"
  shows "objective_worth spec input X = written_worth spec input X"
proof -
  have "set (active_rows spec (objective_terms input) (si_num_rows input)) = written_rows spec (si_num_rows input)"
    using assms has_coefficient_nonzero [of "objective_terms input" _ 1]
    by (auto simp: active_rows_def written_rows_def nothing_dropped_def Let_def objective_rows_ok_def)
  with assms(1) show ?thesis by (simp add: objective_worth_def written_worth_def Let_def)
qed

lemma group_worth_inner:
  assumes "is_minmax_agg (mo_per_inner_agg spec)" "objective_rows_ok input terms" "per_groups_ok input"
    and "rows \<in> set (per_groups input)" "rows \<noteq> []" "\<forall>r \<in> set rows. has_coefficient terms r"
  shows "group_worth spec terms X rows = inner_value spec terms X rows"
proof -
  have "active_of terms rows = rows" using assms per_groups_rows by (intro active_all) auto
  with assms show ?thesis by (simp add: group_worth_def inner_value_def)
qed

lemma worth_written:
  assumes ok: "minmax_objective_ok spec input" and kept: "nothing_dropped spec input"
  shows "objective_worth spec input X = written_worth spec input X - written_constant spec input"
proof (cases "is_per spec input")
  case False
  with ok kept show ?thesis
    by (simp add: flat_worth_written written_constant_def minmax_objective_ok_def Let_def)
next
  case per: True
  let ?terms = "objective_terms input"
  have rows: "objective_rows_ok input ?terms" and groups: "per_groups_ok input" and some: "per_groups input \<noteq> []"
    and nonempty: "\<forall>rows \<in> set (per_groups input). rows \<noteq> []"
    using ok kept per by (simp_all add: minmax_objective_ok_def nothing_dropped_def is_per_def per_groups_def Let_def)
  show ?thesis
  proof (cases "is_minmax_agg (mo_per_inner_agg spec)")
    case minmax: True
    have "\<forall>rows \<in> set (per_groups input). group_worth spec ?terms X rows = inner_value spec ?terms X rows"
      using kept per minmax nonempty by (auto intro!: group_worth_inner [OF minmax rows groups] simp: nothing_dropped_def Let_def)
    then have "map (group_worth spec ?terms X) (per_groups input) = map (inner_value spec ?terms X) (per_groups input)"
      "group_worth spec ?terms X ` set (per_groups input) = inner_value spec ?terms X ` set (per_groups input)" by auto
    with per minmax show ?thesis by (simp add: objective_worth_def written_worth_def written_constant_def Let_def cong: map_cong)
  next
    case plain: False
    show ?thesis
    proof (cases "mo_per_outer_agg spec = SUM_AGG")
      case sum: True
      have "length (si_objective_coefficients input) = length (si_objective_variable_indices input)"
        using ok per plain sum by (simp add: minmax_objective_ok_def linear_objective_ok_def Let_def)
      from linear_worth_written [OF this groups nonempty _ plain] kept per plain sum show ?thesis
        by (simp add: objective_worth_def written_worth_def written_constant_def nothing_dropped_def Let_def)
    next
      case False
      have "kept_groups input spec ?terms = per_groups input"
        using ok kept per plain False
        by (intro kept_all [OF rows groups _ plain]) (simp_all add: minmax_objective_ok_def nothing_dropped_def Let_def)
      moreover have "group_total spec ?terms X = inner_value spec ?terms X" using group_total_inner [OF plain] by blast
      ultimately show ?thesis
        using per plain False some by (simp add: objective_worth_def written_worth_def written_constant_def outer_worth_def Let_def)
    qed
  qed
qed

section \<open>Properties\<close>

text \<open>
  C30. A MIN/MAX objective keeps its worth: at every point of the decision box that meets the rows emitted
  before, the best value the objective left by the pass can reach over the columns it adds is attained
  and is, but for the constants of a sum of sums, what the objective is worth as the query writes it:
  a flat MIN or MAX over all the rows its WHEN keeps, or any \<open>OUTER(INNER(expr)) PER key\<close> over all
  groups and all rows of each, through the envelope, the Big-M family or the native construct. The input
  is one where no row or group of the objective has only zero coefficients and no row outside the groups
  has a share in it.
\<close>

theorem minmax_objective_exact:
  assumes "LinearizeMinMaxObjective (BuildIndexer input) spec var_names policy input = Inr out"
    and "well_formed (BuildIndexer input) input" "minmax_objective_ok spec input" "nothing_dropped spec input"
    and "mm_point input x" "rows_hold input x"
  shows "best_over (si_sense input = MAXIMIZE) (objective_at input out) (extends (BuildIndexer input) input out x)
    (written_worth spec input (at_flat input x) - written_constant spec input)"
  using minmax_objective_best [OF assms(1-3,5,6)] by (simp only: worth_written [OF assms(3,4)])

end
