(* ===== verification/MinMaxObjectiveDemo.thy ===== *)
theory MinMaxObjectiveDemo
  imports MinMaxWritten
begin

text \<open>
  \<open>MINIMIZE SUM(MAX(c * x)) PER g\<close> over three rows with \<open>c\<close> = -1, 0 and 1/2. When a WHEN leaves the
  second row out, the objective built is the one written. When the first two rows make one group, the
  row with coefficient 0 has the value 0 whatever \<open>x\<close> is, so the group is worth at least 0; the pass
  leaves the row out all the same, and the objective it builds prefers another assignment.
\<close>

definition demo_obj_col :: coefficient_column where
  "demo_obj_col = FromVector [Fin (- 1), Fin 0, Fin (1 / 2)]"

definition demo_obj_per :: "idx option list \<Rightarrow> SolverInput" where
  "demo_obj_per ids = si_default\<lparr>si_num_rows := 3, si_num_decide_vars := 1, si_variable_types := [INTEGER],
     si_lower_bounds := [Fin 0], si_upper_bounds := [Fin 10], si_sense := MINIMIZE,
     si_objective_variable_indices := [Some 0], si_objective_coefficients := [demo_obj_col],
     si_objective_row_group_ids := ids, si_objective_num_groups := 2\<rparr>"

abbreviation demo_obj :: SolverInput where
  "demo_obj \<equiv> demo_obj_per [Some 0, Some 0, Some 1]"

abbreviation demo_apart :: SolverInput where
  "demo_apart \<equiv> demo_obj_per [Some 0, None, Some 1]"

definition demo_obj_spec :: MinMaxObjectiveSpec where
  "demo_obj_spec = mo_default\<lparr>mo_per_inner_agg := MAX_AGG, mo_per_outer_agg := SUM_AGG, mo_per_inner_is_easy := True\<rparr>"

lemma demo_obj_fields:
  "si_num_rows (demo_obj_per ids) = 3" "si_num_decide_vars (demo_obj_per ids) = 1" "si_lower_bounds (demo_obj_per ids) = [Fin 0]"
  "si_upper_bounds (demo_obj_per ids) = [Fin 10]" "si_sense (demo_obj_per ids) = MINIMIZE" "si_objective_variable_indices (demo_obj_per ids) = [Some 0]"
  "si_objective_coefficients (demo_obj_per ids) = [demo_obj_col]" "si_objective_row_group_ids (demo_obj_per ids) = ids"
  "si_objective_num_groups (demo_obj_per ids) = 2" "si_num_global_vars (demo_obj_per ids) = 0" "si_global_obj_coeffs (demo_obj_per ids) = []"
  "si_entity_mappings (demo_obj_per ids) = []" "si_variable_scopes (demo_obj_per ids) = []"
  by (simp_all add: demo_obj_per_def si_default_def)

lemma demo_obj_spec_fields:
  "mo_per_inner_agg demo_obj_spec = MAX_AGG" "mo_per_outer_agg demo_obj_spec = SUM_AGG" "mo_per_inner_is_easy demo_obj_spec"
  by (simp_all add: demo_obj_spec_def mo_default_def)

lemma demo_obj_scope: "scope_of (demo_obj_per ids) v = ROW"
  by (simp add: scope_of_def demo_obj_fields)

lemma demo_obj_indexable: "indexable (demo_obj_per ids)"
  by (simp add: indexable_def demo_obj_scope demo_obj_fields)

lemma demo_obj_get: "r < 3 \<Longrightarrow> Get (BuildIndexer (demo_obj_per ids)) 0 r = r"
  by (simp add: Get_instance_of InstanceColumn_cases demo_obj_scope demo_obj_fields instance_of_def row_vars_def vars_of_def)

lemma demo_obj_coef: "r < 3 \<Longrightarrow> cc_get demo_obj_col r = Fin (if r = 0 then - 1 else if r = 1 then 0 else 1 / 2)"
  by (auto simp: demo_obj_col_def less_Suc_eq numeral_3_eq_3)

lemma demo_obj_groups: "per_groups demo_obj = [[0, 1], [2]]" "per_groups demo_apart = [[0], [2]]"
  by (simp_all add: per_groups_def demo_obj_fields group_rows_def group_rows_upto_def numeral_2_eq_2 upt_rec)

lemma demo_obj_wf: "well_formed (BuildIndexer (demo_obj_per ids)) (demo_obj_per ids)"
  by (simp add: well_formed_def globals_ok_def input_columns_def demo_obj_per_def si_default_def)

lemma demo_obj_rows: "rows_hold (demo_obj_per ids) x"
  by (simp add: rows_hold_def flat_rows_hold_def demo_obj_per_def si_default_def)

abbreviation demo_obj_terms :: row_terms where
  "demo_obj_terms \<equiv> [(Some 0, demo_obj_col)]"

lemma demo_obj_ok:
  assumes "length ids = 3" "groups_ok ids 2"
  shows "minmax_objective_ok demo_obj_spec (demo_obj_per ids)"
proof -
  have crisp: "crisp (cc_get demo_obj_col r)" "crisp (cc_get demo_obj_col r * Fin 1)" if "r < 3" for r
    using that by (simp_all add: demo_obj_coef crisp_def negligible_def zero_dbl_def)
  have "row_link_ok (demo_obj_per ids) demo_obj_terms r" if "r < 3" for r
    using that by (simp add: row_link_ok_def demo_obj_fields AddObjectiveRowTerms_def add_negated_def AddColumn_def mr_default_def
        demo_obj_coef one_dbl_def crisp_def negligible_def Let_def)
  then show ?thesis
    using crisp assms
    by (auto simp: minmax_objective_ok_def Let_def demo_obj_fields demo_obj_spec_fields is_per_def objective_rows_ok_def
        demo_obj_indexable vars_below_def scaled_crisp_def row_links_ok_def per_groups_ok_def is_minmax_agg_def
        easy_matches_def)
qed

lemma demo_obj_run: "\<exists>out. LinearizeMinMaxObjective (BuildIndexer (demo_obj_per ids)) demo_obj_spec [] policy (demo_obj_per ids) = Inr out"
proof -
  let ?vi = "BuildIndexer (demo_obj_per ids)" and ?step = "inner_group (BuildIndexer (demo_obj_per ids)) demo_obj_spec [] policy demo_obj_terms"
  have "\<exists>t. ?step zr s = Inr t" for zr s
    using EmitExtremumLink_total by (cases zr) (simp add: inner_group_def Let_def demo_obj_spec_fields)
  then have "\<exists>t. fold_res ?step zrs s = Inr t" for zrs s by (rule fold_res_returns)
  then have "\<exists>r. inner_minmax ?vi demo_obj_spec [] policy demo_obj_terms (clear_objective (demo_obj_per ids)) = Inr r"
    unfolding inner_minmax_def Let_def by (auto split: prod.split sum.split) (metis sum.distinct(1))
  then show ?thesis
    by (auto simp: LinearizeMinMaxObjective_def per_objective_def Let_def demo_obj_fields demo_obj_spec_fields is_minmax_agg_def)
qed

definition demo_obj_point :: "real \<Rightarrow> real \<Rightarrow> idx \<Rightarrow> real" where
  "demo_obj_point a b c = (if c = 0 then a else if c = 2 then b else 0)"

lemma demo_obj_at: "r < 3 \<Longrightarrow> at_flat (demo_obj_per ids) (demo_obj_point a b) 0 r = (if r = 0 then a else if r = 2 then b else 0)"
  using demo_obj_get by (simp add: at_flat_def demo_obj_point_def)

lemma demo_obj_box: "0 \<le> a \<Longrightarrow> a \<le> 10 \<Longrightarrow> 0 \<le> b \<Longrightarrow> b \<le> 10 \<Longrightarrow> mm_point (demo_obj_per ids) (demo_obj_point a b)"
  using demo_obj_at by (auto simp: mm_point_def demo_obj_indexable demo_obj_fields boxed_def)

lemma demo_obj_value: "r < 3 \<Longrightarrow> row_value demo_obj_terms (at_flat (demo_obj_per ids) (demo_obj_point a b)) r =
    (if r = 0 then - a else if r = 1 then 0 else b / 2)"
  by (auto simp: row_value_def part_of_def fixed_part_def demo_obj_coef demo_obj_at)

lemma demo_obj_nonzero: "r < 3 \<Longrightarrow> has_nonzero demo_obj_terms r \<longleftrightarrow> r \<noteq> 1"
  by (auto simp: has_nonzero_def demo_obj_coef)

lemma demo_ids_ok: "groups_ok [Some 0, Some 0, Some 1] 2" "groups_ok [Some 0, None, Some 1] 2"
  by (simp_all add: groups_ok_def less_Suc_eq numeral_eq_Suc)

lemma demo_obj_worth: "objective_worth demo_obj_spec demo_obj (at_flat demo_obj (demo_obj_point a b)) = - a + b / 2"
  by (simp add: objective_worth_def is_per_def Let_def demo_obj_fields demo_obj_spec_fields is_minmax_agg_def demo_obj_groups [simplified]
      group_worth_def demo_obj_nonzero demo_obj_value extremum_def)

lemma demo_apart_worth:
  "written_worth demo_obj_spec demo_apart (at_flat demo_apart (demo_obj_point a b)) = - a + b / 2"
  "written_constant demo_obj_spec demo_apart = 0"
  by (simp_all add: written_worth_def written_constant_def is_per_def Let_def demo_obj_fields demo_obj_spec_fields is_minmax_agg_def
      demo_obj_groups [simplified] inner_value_def demo_obj_value extremum_def)

lemma demo_apart_kept: "nothing_dropped demo_obj_spec demo_apart"
  by (simp add: nothing_dropped_def is_per_def Let_def demo_obj_fields demo_obj_spec_fields is_minmax_agg_def
      demo_obj_groups [simplified] has_coefficient_def demo_obj_coef zero_dbl_def)

lemma minmax_objective_exact_witness:
  "\<exists>out. LinearizeMinMaxObjective (BuildIndexer demo_apart) demo_obj_spec [] \<lparr>np_available = False, np_forced = False\<rparr> demo_apart = Inr out \<and>
     best_over False (objective_at demo_apart out) (extends (BuildIndexer demo_apart) demo_apart out (demo_obj_point 4 6)) (- 1)"
proof -
  obtain out where run: "LinearizeMinMaxObjective (BuildIndexer demo_apart) demo_obj_spec []
      \<lparr>np_available = False, np_forced = False\<rparr> demo_apart = Inr out" using demo_obj_run by blast
  have ok: "minmax_objective_ok demo_obj_spec demo_apart" by (rule demo_obj_ok) (simp_all add: demo_ids_ok [simplified])
  from minmax_objective_exact [OF run demo_obj_wf ok demo_apart_kept demo_obj_box demo_obj_rows, of 4 6] run
  show ?thesis by (auto simp: demo_apart_worth [unfolded One_nat_def] demo_obj_fields)
qed

section \<open>Rows with coefficient 0\<close>

text \<open>The objective over all rows of each group.\<close>

definition sum_of_maxima :: "(idx \<Rightarrow> real) \<Rightarrow> real" where
  "sum_of_maxima x = (\<Sum>rows\<leftarrow>per_groups demo_obj. extremum True (row_value demo_obj_terms (at_flat demo_obj x) ` set rows))"

lemma demo_obj_maxima: "0 \<le> a \<Longrightarrow> sum_of_maxima (demo_obj_point a b) = b / 2"
  by (simp add: sum_of_maxima_def demo_obj_groups [simplified] demo_obj_value extremum_def)

text \<open>
  C31. Leaving rows with coefficient 0 out of a group changes which assignment is best: of two points of
  the demo query, the one at which the sum of the group maxima is smaller is the one the objective the
  pass builds holds to be worse.
\<close>

theorem minmax_objective_misranks:
  "\<exists>out. LinearizeMinMaxObjective (BuildIndexer demo_obj) demo_obj_spec [] policy demo_obj = Inr out \<and>
     sum_of_maxima (demo_obj_point 0 0) < sum_of_maxima (demo_obj_point 4 4) \<and>
     (\<exists>u v. best_over False (objective_at demo_obj out) (extends (BuildIndexer demo_obj) demo_obj out (demo_obj_point 0 0)) u \<and>
        best_over False (objective_at demo_obj out) (extends (BuildIndexer demo_obj) demo_obj out (demo_obj_point 4 4)) v \<and> v < u)"
proof -
  obtain out where run: "LinearizeMinMaxObjective (BuildIndexer demo_obj) demo_obj_spec [] policy demo_obj = Inr out"
    using demo_obj_run by blast
  have ok: "minmax_objective_ok demo_obj_spec demo_obj" by (rule demo_obj_ok) (simp_all add: demo_ids_ok [simplified])
  note best = minmax_objective_best [OF run demo_obj_wf ok demo_obj_box demo_obj_rows]
  from best [of 0 0] have "best_over False (objective_at demo_obj out)
      (extends (BuildIndexer demo_obj) demo_obj out (demo_obj_point 0 0)) 0" by (simp add: demo_obj_worth [unfolded One_nat_def] demo_obj_fields)
  moreover from best [of 4 4] have "best_over False (objective_at demo_obj out)
      (extends (BuildIndexer demo_obj) demo_obj out (demo_obj_point 4 4)) (- 2)" by (simp add: demo_obj_worth [unfolded One_nat_def] demo_obj_fields)
  ultimately show ?thesis using run demo_obj_maxima [of 0 0] demo_obj_maxima [of 4 4]
    by (intro exI [of _ out] conjI exI [of _ 0] exI [of _ "- 2"]) simp_all
qed

end
