(* ===== verification/ComposedMinMax.thy ===== *)
theory ComposedMinMax
  imports MinMaxObjective CoeffMaps
begin

text \<open>
  The composed clauses of \<open>linearization_minmax.cpp\<close>, \<open>SUM(a) + MAX(b) <= K\<close> and the objective spelling:
  every MIN/MAX term becomes a global column tied to the extremum of its rows, and SUM and AVG terms go
  straight into the outer row or the objective.

  Here: the definitions. A term's \<open>inner_terms\<close> are the variables of its \<open>DecideTerm\<close>s, whose other
  fields were evaluated into \<open>per_term_coefs\<close>. \<open>ComposedExact\<close> shows what the columns and links of
  the terms state, \<open>ComposedClauses\<close> and \<open>ComposedObjective\<close> what the two entry points do with them.
\<close>

record ComposedMinMaxTermData =
  ct_is_minmax :: bool
  ct_agg_name :: string
  ct_sign :: int
  ct_scale :: dbl
  ct_is_easy :: bool
  ct_filter_mask :: "bool list"
  ct_inner_terms :: "idx option list"
  ct_per_term_coefs :: "dbl list list"
  ct_z_idx :: "idx option"
  ct_label :: string

definition ct_default :: ComposedMinMaxTermData where
  "ct_default = \<lparr>ct_is_minmax = False, ct_agg_name = [], ct_sign = 1, ct_scale = 1, ct_is_easy = True,
     ct_filter_mask = [], ct_inner_terms = [], ct_per_term_coefs = [], ct_z_idx = None, ct_label = []\<rparr>"

abbreviation ct_terms :: "ComposedMinMaxTermData \<Rightarrow> (idx option \<times> dbl list) list" where
  "ct_terms ta \<equiv> zip (ct_inner_terms ta) (ct_per_term_coefs ta)"

section \<open>Members and their reach\<close>

definition AddComposedRowTerms :: "VarIndexer \<Rightarrow> (idx option \<times> dbl list) list \<Rightarrow> idx \<Rightarrow> MinMaxLinkRow \<Rightarrow> MinMaxLinkRow" where
  "AddComposedRowTerms vi terms row link = fold (\<lambda>(v, coefs). add_negated vi row v (coefs ! row)) terms link"

definition composed_range_step :: "dbl list \<Rightarrow> dbl list \<Rightarrow> idx \<Rightarrow> idx option \<times> dbl list \<Rightarrow>
    AuxRange \<times> dbl \<times> dbl \<Rightarrow> AuxRange \<times> dbl \<times> dbl" where
  "composed_range_step lower upper row = (\<lambda>(var, coefs) (rg, row_lo, row_hi).
     let c = coefs ! row
     in if \<bar>c\<bar> < Fin (1 / 10 ^ 15) then (rg, row_lo, row_hi)
        else case var of
          None \<Rightarrow> (rg, row_lo + c, row_hi + c)
        | Some v \<Rightarrow>
            let lb = lower ! v; ub = upper ! v
            in if unbounded_above ub \<or> unbounded_below lb then (MarkUnbounded (Some v) rg, row_lo, row_hi)
               else (rg, row_lo + (if c > 0 then c * lb else c * ub), row_hi + (if c > 0 then c * ub else c * lb)))"

definition ComposedTermRange :: "SolverInput \<Rightarrow> (idx option \<times> dbl list) list \<Rightarrow> bool list \<Rightarrow> AuxRange" where
  "ComposedTermRange input terms filter_mask =
     fold (\<lambda>row rg. if \<not> filter_mask ! row then rg
             else let (rg, row_lo, row_hi) =
                    fold (composed_range_step (si_lower_bounds input) (si_upper_bounds input) row) terms (rg, 0, 0)
                  in CoverRow row_lo row_hi rg)
       [0..<si_num_rows input] ar_default"

definition composed_member :: "VarIndexer \<Rightarrow> ComposedMinMaxTermData \<Rightarrow> AuxRange \<Rightarrow> idx \<Rightarrow> ExtremumMember" where
  "composed_member vi ta rg row = \<lparr>xm_link = AddComposedRowTerms vi (ct_terms ta) row mr_default, xm_range = rg\<rparr>"

definition composed_spec :: "ComposedMinMaxTermData \<Rightarrow> AuxRange \<Rightarrow> idx option \<Rightarrow> idx option \<Rightarrow> ExtremumLinkSpec" where
  "composed_spec ta rg source_clause_id removal_group_id = xs_default\<lparr>
     xs_result_column := the (ct_z_idx ta), xs_is_max := (ct_agg_name ta = ''max''),
     xs_need_envelope := True, xs_need_closing := \<not> ct_is_easy ta,
     xs_closing_underivable := Unbounded rg,
     xs_closing_big_m := (if Unbounded rg then 0 else Span rg),
     xs_blame_var := ar_unbounded_var rg, xs_label := ct_label ta,
     xs_source_clause_id := source_clause_id, xs_removal_group_id := removal_group_id,
     xs_closing_kind := USER_MECHANISM\<rparr>"

section \<open>The auxiliary layer\<close>

text \<open>Every column first, with the range of its term, then the links.\<close>

primrec composed_columns :: "VarIndexer \<Rightarrow> ComposedMinMaxTermData list \<Rightarrow> SolverInput \<Rightarrow>
    SolverInput \<times> (ComposedMinMaxTermData \<times> AuxRange) list" where
  "composed_columns vi [] input = (input, [])"
| "composed_columns vi (ta # terms) input =
     (let (input, e) =
            (if \<not> ct_is_minmax ta then (input, (ta, ar_default))
             else let rg = ComposedTermRange input (ct_terms ta) (ct_filter_mask ta);
                      (input, z) = AddGlobalContinuousAux vi rg 0 (ct_label ta) input
                  in (input, (ta\<lparr>ct_z_idx := Some z\<rparr>, rg)));
          (input, es) = composed_columns vi terms input
      in (input, e # es))"

definition composed_link :: "VarIndexer \<Rightarrow> idx option \<Rightarrow> idx option \<Rightarrow> string list \<Rightarrow> NativeConstructPolicy \<Rightarrow>
    ComposedMinMaxTermData \<times> AuxRange \<Rightarrow> SolverInput \<Rightarrow> SolverInput res" where
  "composed_link vi source_clause_id removal_group_id var_names policy = (\<lambda>(ta, rg) input.
     if \<not> ct_is_minmax ta then Inr input
     else EmitExtremumLink vi (composed_spec ta rg source_clause_id removal_group_id)
            (map (composed_member vi ta rg) (filter (\<lambda>row. ct_filter_mask ta ! row) [0..<si_num_rows input]))
            var_names policy input)"

definition EmitComposedMinMaxAuxiliaries :: "VarIndexer \<Rightarrow> ComposedMinMaxTermData list \<Rightarrow> idx option \<Rightarrow> idx option \<Rightarrow>
    string list \<Rightarrow> NativeConstructPolicy \<Rightarrow> SolverInput \<Rightarrow> (SolverInput \<times> ComposedMinMaxTermData list) res" where
  "EmitComposedMinMaxAuxiliaries vi terms source_clause_id removal_group_id var_names policy input =
     (let (input, es) = composed_columns vi terms input
      in case fold_res (composed_link vi source_clause_id removal_group_id var_names policy) es input of
           Inl e \<Rightarrow> Inl e
         | Inr input \<Rightarrow> Inr (input, map fst es))"

definition ComposedAvgDivisor :: "ComposedMinMaxTermData \<Rightarrow> nat \<Rightarrow> nat" where
  "ComposedAvgDivisor ta num_rows = fold (\<lambda>r cnt. if ct_filter_mask ta ! r then cnt + 1 else cnt) [0..<num_rows] 0"

section \<open>The constraint\<close>

text \<open>What one SUM or AVG term adds to the outer row and takes from its bound.\<close>

definition composed_coef :: "ComposedMinMaxTermData \<Rightarrow> dbl \<Rightarrow> dbl list \<Rightarrow> idx \<Rightarrow> dbl" where
  "composed_coef ta avg_divisor coefs row = coefs ! row * Fin (real_of_int (ct_sign ta)) * ct_scale ta / avg_divisor"

definition composed_sum :: "VarIndexer \<Rightarrow> nat \<Rightarrow> ComposedMinMaxTermData \<Rightarrow> dbl \<Rightarrow> coeff_map \<times> dbl \<Rightarrow> coeff_map \<times> dbl" where
  "composed_sum vi num_rows ta avg_divisor s =
     fold (\<lambda>(var, coefs) s.
        fold (\<lambda>row (accum, rhs).
           if \<not> ct_filter_mask ta ! row then (accum, rhs)
           else let coef = composed_coef ta avg_divisor coefs row
                in case var of
                     None \<Rightarrow> (accum, rhs - coef)
                   | Some v \<Rightarrow> (hm_add (Get vi v row) coef accum, rhs))
          [0..<num_rows] s)
       (ct_terms ta) s"

definition composed_outer_term :: "VarIndexer \<Rightarrow> nat \<Rightarrow> ComposedMinMaxTermData \<Rightarrow> coeff_map \<times> dbl \<Rightarrow> coeff_map \<times> dbl" where
  "composed_outer_term vi num_rows ta = (\<lambda>(accum, rhs).
     if ct_is_minmax ta then (hm_add (the (ct_z_idx ta)) (Fin (real_of_int (ct_sign ta)) * ct_scale ta) accum, rhs)
     else if ct_agg_name ta = ''avg'' then
       (let cnt = ComposedAvgDivisor ta num_rows
        in if cnt = 0 then (accum, rhs) else composed_sum vi num_rows ta (Fin (real cnt)) (accum, rhs))
     else composed_sum vi num_rows ta 1 (accum, rhs))"

fun composed_sense :: "ExpressionType \<Rightarrow> sense option" where
  "composed_sense COMPARE_LESSTHANOREQUALTO = Some Le"
| "composed_sense COMPARE_LESSTHAN = Some Le"
| "composed_sense COMPARE_GREATERTHANOREQUALTO = Some Ge"
| "composed_sense COMPARE_GREATERTHAN = Some Ge"
| "composed_sense COMPARE_EQUAL = Some Eq"
| "composed_sense _ = None"

definition LinearizeComposedMinMaxConstraint :: "VarIndexer \<Rightarrow> ComposedMinMaxTermData list \<Rightarrow> dbl \<Rightarrow> ExpressionType \<Rightarrow>
    idx option \<Rightarrow> idx option \<Rightarrow> string list \<Rightarrow> NativeConstructPolicy \<Rightarrow> SolverInput \<Rightarrow> SolverInput res" where
  "LinearizeComposedMinMaxConstraint vi terms rhs_val outer_cmp source_clause_id removal_group_id var_names policy input =
     (case EmitComposedMinMaxAuxiliaries vi terms source_clause_id removal_group_id var_names policy input of
        Inl e \<Rightarrow> Inl e
      | Inr (input, terms) \<Rightarrow>
          let (accum, outer_rhs) = fold (composed_outer_term vi (si_num_rows input)) terms ([], rhs_val);
              row = hm_nonzero accum
          in case composed_sense outer_cmp of
               None \<Rightarrow> Inl (InternalError ''Composed MIN/MAX: unexpected comparison type.'')
             | Some s \<Rightarrow> Inr (input\<lparr>si_global_constraints := si_global_constraints input @
                 [rc_default\<lparr>rc_indices := map fst row, rc_coefficients := map snd row, rc_sense := s, rc_rhs := outer_rhs,
                    rc_kind := USER_PARAMETER, rc_shape := SHARED_SCALAR,
                    rc_source_clause_id := source_clause_id, rc_removal_group_id := removal_group_id,
                    rc_repair_group_id := Some (length (si_constraints input) + length (si_global_constraints input))\<rparr>]\<rparr>))"

section \<open>The objective\<close>

text \<open>Per-row coefficients keyed by variable, in the order of first insertion.\<close>

primrec coef_rows_update :: "idx \<Rightarrow> nat \<Rightarrow> (dbl list \<Rightarrow> dbl list) \<Rightarrow> (idx \<times> dbl list) list \<Rightarrow> (idx \<times> dbl list) list" where
  "coef_rows_update v num_rows f [] = [(v, f (replicate num_rows 0))]"
| "coef_rows_update v num_rows f (e # m) =
     (if fst e = v then (v, f (if snd e = [] then replicate num_rows 0 else snd e)) # m else e # coef_rows_update v num_rows f m)"

definition composed_objective_sum :: "nat \<Rightarrow> ComposedMinMaxTermData \<Rightarrow> dbl \<Rightarrow> (idx \<times> dbl list) list \<Rightarrow> (idx \<times> dbl list) list" where
  "composed_objective_sum num_rows ta avg_divisor m =
     fold (\<lambda>(var, coefs) m. case var of
             None \<Rightarrow> m
           | Some v \<Rightarrow> coef_rows_update v num_rows
               (\<lambda>dst. fold (\<lambda>row dst. if \<not> ct_filter_mask ta ! row then dst
                              else dst[row := dst ! row + composed_coef ta avg_divisor coefs row])
                        [0..<num_rows] dst) m)
       (ct_terms ta) m"

definition composed_objective_term :: "VarIndexer \<Rightarrow> nat \<Rightarrow> ComposedMinMaxTermData \<Rightarrow>
    SolverInput \<times> (idx \<times> dbl list) list \<Rightarrow> SolverInput \<times> (idx \<times> dbl list) list" where
  "composed_objective_term vi num_rows ta = (\<lambda>(input, m).
     if ct_is_minmax ta then
       (input\<lparr>si_global_obj_coeffs := (si_global_obj_coeffs input)
          [the (ct_z_idx ta) - vi_global_block_start vi := Fin (real_of_int (ct_sign ta)) * ct_scale ta]\<rparr>, m)
     else if ct_agg_name ta = ''avg'' then
       (let cnt = ComposedAvgDivisor ta num_rows
        in if cnt = 0 then (input, m) else (input, composed_objective_sum num_rows ta (Fin (real cnt)) m))
     else (input, composed_objective_sum num_rows ta 1 m))"

definition LinearizeComposedMinMaxObjective :: "VarIndexer \<Rightarrow> ComposedMinMaxTermData list \<Rightarrow> string list \<Rightarrow>
    NativeConstructPolicy \<Rightarrow> SolverInput \<Rightarrow> SolverInput res" where
  "LinearizeComposedMinMaxObjective vi terms var_names policy input =
     (case EmitComposedMinMaxAuxiliaries vi terms None None var_names policy (clear_objective input) of
        Inl e \<Rightarrow> Inl e
      | Inr (input, terms) \<Rightarrow>
          let (input, m) = fold (composed_objective_term vi (si_num_rows input)) terms (input, [])
          in Inr (input\<lparr>si_objective_variable_indices := si_objective_variable_indices input @ map (\<lambda>(v, cs). Some v) m,
                        si_objective_coefficients := si_objective_coefficients input @ map (\<lambda>(v, cs). FromVector cs) m\<rparr>))"

end
