(* ===== verification/ComposedExact.thy ===== *)
theory ComposedExact
  imports ComposedMinMax MinMaxPerExact
begin

text \<open>
  What the composed clauses state. A term is worth the extremum of the rows its filter admits, their
  sum or their average, and 0 when there is none; the columns and links of
  \<open>EmitComposedMinMaxAuxiliaries\<close> hold each MIN/MAX term's column at that worth, or, for an easy term,
  at or beyond it; and the outer row of a constraint then says the clause.
\<close>

section \<open>What a term is worth\<close>

definition ct_rows :: "nat \<Rightarrow> ComposedMinMaxTermData \<Rightarrow> idx list" where
  "ct_rows num_rows ta = filter (\<lambda>row. ct_filter_mask ta ! row) [0..<num_rows]"

definition composed_part :: "idx \<Rightarrow> (idx \<Rightarrow> idx \<Rightarrow> real) \<Rightarrow> idx option \<times> dbl list \<Rightarrow> real" where
  "composed_part row X = (\<lambda>(var, coefs). rval (coefs ! row) * (case var of None \<Rightarrow> 1 | Some v \<Rightarrow> X v row))"

definition composed_row :: "ComposedMinMaxTermData \<Rightarrow> (idx \<Rightarrow> idx \<Rightarrow> real) \<Rightarrow> idx \<Rightarrow> real" where
  "composed_row ta X row = (\<Sum>t\<leftarrow>ct_terms ta. composed_part row X t)"

abbreviation ct_is_max :: "ComposedMinMaxTermData \<Rightarrow> bool" where
  "ct_is_max ta \<equiv> ct_agg_name ta = ''max''"

definition composed_value :: "nat \<Rightarrow> ComposedMinMaxTermData \<Rightarrow> (idx \<Rightarrow> idx \<Rightarrow> real) \<Rightarrow> real" where
  "composed_value num_rows ta X =
     (let rows = ct_rows num_rows ta
      in if rows = [] then 0
         else if ct_is_minmax ta then extremum (ct_is_max ta) (composed_row ta X ` set rows)
         else if ct_agg_name ta = ''avg'' then (\<Sum>row\<leftarrow>rows. composed_row ta X row) / real (length rows)
         else \<Sum>row\<leftarrow>rows. composed_row ta X row)"

definition ct_weight :: "ComposedMinMaxTermData \<Rightarrow> real" where
  "ct_weight ta = real_of_int (ct_sign ta) * rval (ct_scale ta)"

definition composed_total :: "nat \<Rightarrow> ComposedMinMaxTermData list \<Rightarrow> (idx \<Rightarrow> idx \<Rightarrow> real) \<Rightarrow> real" where
  "composed_total num_rows terms X = (\<Sum>ta\<leftarrow>terms. ct_weight ta * composed_value num_rows ta X)"

text \<open>What the evaluation before establishes of a term.\<close>

definition ct_ok :: "SolverInput \<Rightarrow> ComposedMinMaxTermData \<Rightarrow> bool" where
  "ct_ok input ta \<longleftrightarrow> isfinite (ct_scale ta) \<and> vars_below (si_num_decide_vars input) (map fst (ct_terms ta)) \<and>
     (\<forall>row \<in> set (ct_rows (si_num_rows input) ta). \<forall>(var, coefs) \<in> set (ct_terms ta). crisp (coefs ! row)) \<and>
     (ct_is_minmax ta \<longrightarrow> (\<forall>row \<in> set (ct_rows (si_num_rows input) ta).
        list_all crisp (mr_coefficients (AddComposedRowTerms (BuildIndexer input) (ct_terms ta) row mr_default))))"

section \<open>The reach of a term\<close>

lemma mark_unbounded [simp]:
  "Unbounded (MarkUnbounded v rg)" "range_has (MarkUnbounded v rg) y" "range_fin (MarkUnbounded v rg) = range_fin rg"
  by (simp_all add: MarkUnbounded_def MarkLoUnbounded_def MarkHiUnbounded_def Unbounded_def range_has_def range_fin_def Let_def)

text \<open>Either an open box has been met, and then both ends are open, or the bracket so far holds.\<close>

definition bracket_has :: "AuxRange \<times> dbl \<times> dbl \<Rightarrow> real \<Rightarrow> bool" where
  "bracket_has = (\<lambda>(rg, lo, hi) y. isfinite lo \<and> isfinite hi \<and>
     (ar_lo_unbounded rg \<and> ar_hi_unbounded rg \<or> lo \<le> Fin y \<and> Fin y \<le> hi))"

lemma bracket_has_simp [simp]: "bracket_has (rg, lo, hi) y \<longleftrightarrow> isfinite lo \<and> isfinite hi \<and>
    (ar_lo_unbounded rg \<and> ar_hi_unbounded rg \<or> lo \<le> Fin y \<and> Fin y \<le> hi)"
  by (simp add: bracket_has_def)

lemma composed_range_step_has:
  fixes rg :: AuxRange
  assumes crisp: "crisp (coefs ! row)" and v: "\<And>v. var = Some v \<Longrightarrow> v < length lower \<and> v < length upper"
    and box: "boxed lower upper row X" and s: "bracket_has (rg, lo, hi) y"
  shows "bracket_has (composed_range_step lower upper row (var, coefs) (rg, lo, hi)) (y + composed_part row X (var, coefs))"
    and "range_fin rg \<Longrightarrow> range_fin (fst (composed_range_step lower upper row (var, coefs) (rg, lo, hi)))"
    and "range_has rg z \<Longrightarrow> range_has (fst (composed_range_step lower upper row (var, coefs) (rg, lo, hi))) z"
proof -
  obtain c where c: "coefs ! row = Fin c" using crisp by (auto simp: crisp_def isfinite_iff)
  obtain a b where ab: "lo = Fin a" "hi = Fin b" using s by (auto simp: isfinite_iff)
  have zero: "c = 0" if "\<bar>c\<bar> < 1 / 10 ^ 15"
    using that crisp by (auto simp: crisp_def negligible_def zero_dbl_def c)
  show "range_fin rg \<Longrightarrow> range_fin (fst (composed_range_step lower upper row (var, coefs) (rg, lo, hi)))"
    "range_has rg z \<Longrightarrow> range_has (fst (composed_range_step lower upper row (var, coefs) (rg, lo, hi))) z"
    by (simp_all add: composed_range_step_def Let_def split: option.splits)
  show "bracket_has (composed_range_step lower upper row (var, coefs) (rg, lo, hi)) (y + composed_part row X (var, coefs))"
  proof (cases "\<bar>c\<bar> < 1 / 10 ^ 15")
    case True
    with s zero show ?thesis by (simp add: composed_range_step_def composed_part_def c ab)
  next
    case big: False
    show ?thesis
    proof (cases "var")
      case None
      with s big show ?thesis by (auto simp: composed_range_step_def composed_part_def c ab Let_def)
    next
      case (Some v)
      have lb: "lower ! v \<le> Fin (X v row)" and ub: "Fin (X v row) \<le> upper ! v"
        using box v [OF Some] by (simp_all add: boxed_def)
      show ?thesis
      proof (cases "unbounded_above (upper ! v) \<or> unbounded_below (lower ! v)")
        case True
        with big Some show ?thesis
          by (simp add: composed_range_step_def c ab Let_def MarkUnbounded_def MarkLoUnbounded_def MarkHiUnbounded_def)
      next
        case False
        then obtain l u where lu: "lower ! v = Fin l" "upper ! v = Fin u" "l \<le> X v row" "X v row \<le> u"
          using bounded_lower [OF lb] bounded_upper [OF ub] by auto
        define p where "p = c * X v row"
        have "c > 0 \<Longrightarrow> c * l \<le> p \<and> p \<le> c * u" "\<not> c > 0 \<Longrightarrow> c * u \<le> p \<and> p \<le> c * l"
          unfolding p_def using lu(3,4) by (auto intro: mult_left_mono mult_left_mono_neg)
        with s big False Some lu(1,2) show ?thesis
          by (cases "c > 0") (auto simp: composed_range_step_def composed_part_def c ab Let_def zero_dbl_def p_def [symmetric])
      qed
    qed
  qed
qed

lemma bracket_terms:
  fixes s :: "AuxRange \<times> dbl \<times> dbl"
  assumes "\<forall>(var, coefs) \<in> set ts. crisp (coefs ! row)" "vars_below n (map fst ts)"
    and "length lower = n" "length upper = n" and box: "boxed lower upper row X"
    and "bracket_has s y" "range_fin (fst s)"
  defines "out \<equiv> fold (composed_range_step lower upper row) ts s"
  shows "bracket_has out (y + (\<Sum>t\<leftarrow>ts. composed_part row X t)) \<and> range_fin (fst out) \<and>
    (range_has (fst s) z \<longrightarrow> range_has (fst out) z)"
  using assms(1-7) unfolding out_def
proof (induction ts arbitrary: s y)
  case (Cons t ts)
  obtain var coefs where t: "t = (var, coefs)" by force
  obtain rg lo hi where s: "s = (rg, lo, hi)" by (cases s)
  have "bracket_has (composed_range_step lower upper row t s) (y + composed_part row X t)"
    "range_fin (fst (composed_range_step lower upper row t s))"
    "range_has (fst s) z \<longrightarrow> range_has (fst (composed_range_step lower upper row t s)) z"
    unfolding t s using Cons.prems composed_range_step_has [of coefs row var lower upper X rg lo hi y]
    by (simp_all add: vars_below_def t s)
  note step = this
  have "vars_below n (map fst ts)" "\<forall>(var, coefs) \<in> set ts. crisp (coefs ! row)"
    using Cons.prems(1,2) by (auto simp: vars_below_def)
  from Cons.IH [OF this(2,1) Cons.prems(3,4) box step(1,2)] step(3) show ?case
    by (simp add: add.assoc)
qed simp

lemma CoverRow_facts:
  assumes "range_fin a" "isfinite lo" "isfinite hi"
  shows "range_fin (CoverRow lo hi a)" "range_has a y \<Longrightarrow> range_has (CoverRow lo hi a) y"
    and "ar_lo_unbounded a \<and> ar_hi_unbounded a \<or> lo \<le> Fin y \<and> Fin y \<le> hi \<Longrightarrow> range_has (CoverRow lo hi a) y"
  using assms
  by (auto simp: range_fin_def range_has_def CoverRow_def MinOf_def MaxOf_def isfinite_iff)

definition composed_ready :: "SolverInput \<Rightarrow> bool" where
  "composed_ready input \<longleftrightarrow> indexable input \<and> length (si_lower_bounds input) = si_num_decide_vars input \<and>
     length (si_upper_bounds input) = si_num_decide_vars input"

lemma ComposedTermRange_has:
  assumes ready: "composed_ready input" and ok: "ct_ok input ta" and x: "mm_point input x"
  defines "rg \<equiv> ComposedTermRange input (ct_terms ta) (ct_filter_mask ta)"
  shows "range_fin rg" "range_has rg 0"
    and "row \<in> set (ct_rows (si_num_rows input) ta) \<Longrightarrow> range_has rg (composed_row ta (at_flat input x) row)"
proof -
  let ?X = "at_flat input x" and ?n = "si_num_rows input"
  let ?step = "\<lambda>row rg. if \<not> ct_filter_mask ta ! row then rg
      else let (rg, lo, hi) = fold (composed_range_step (si_lower_bounds input) (si_upper_bounds input) row) (ct_terms ta) (rg, 0, 0)
           in CoverRow lo hi rg"
  have all: "range_fin (fold ?step rows a) \<and> (\<forall>y. range_has a y \<or> (\<exists>row \<in> set rows. ct_filter_mask ta ! row \<and> y = composed_row ta ?X row) \<longrightarrow>
      range_has (fold ?step rows a) y)" if "range_fin a" "set rows \<subseteq> {0..<?n}" for a rows
    using that
  proof (induction rows arbitrary: a)
    case (Cons r rows)
    have "range_fin (?step r a) \<and> (\<forall>y. range_has a y \<or> ct_filter_mask ta ! r \<and> y = composed_row ta ?X r \<longrightarrow> range_has (?step r a) y)"
    proof (cases "ct_filter_mask ta ! r")
      case True
      let ?b = "fold (composed_range_step (si_lower_bounds input) (si_upper_bounds input) r) (ct_terms ta) (a, 0, 0)"
      obtain rg lo hi where b: "?b = (rg, lo, hi)" by (cases ?b)
      have r: "r \<in> set (ct_rows ?n ta)" using True Cons.prems(2) by (simp add: ct_rows_def)
      have "bracket_has ?b (0 + (\<Sum>t\<leftarrow>ct_terms ta. composed_part r ?X t)) \<and> range_fin (fst ?b) \<and>
          (range_has (fst (a, 0 :: dbl, 0 :: dbl)) y \<longrightarrow> range_has (fst ?b) y)" for y
        using ready ok x r Cons.prems
        by (intro bracket_terms [where n = "si_num_decide_vars input"])
          (auto simp: composed_ready_def ct_ok_def mm_point_def zero_dbl_def)
      then have "isfinite lo" "isfinite hi" "ar_lo_unbounded rg \<and> ar_hi_unbounded rg \<or>
          lo \<le> Fin (composed_row ta ?X r) \<and> Fin (composed_row ta ?X r) \<le> hi" "range_fin rg"
        "range_has a y \<Longrightarrow> range_has rg y" for y
        by (auto simp: b composed_row_def)
      then show ?thesis using CoverRow_facts [of rg lo hi] True by (simp add: b)
    qed (use Cons.prems in simp)
    then have "range_fin (?step r a)" "\<forall>y. range_has a y \<or> ct_filter_mask ta ! r \<and> y = composed_row ta ?X r \<longrightarrow> range_has (?step r a) y"
      by blast+
    from Cons.IH [OF this(1)] Cons.prems(2) this(2) show ?case by auto
  qed simp
  have start: "set [0..<?n] \<subseteq> {0..<?n}" by simp
  note done' = all [OF ar_default_fin start, folded ComposedTermRange_def, folded rg_def]
  show "range_fin rg" "range_has rg 0" using done' ar_default_zero by blast+
  show "row \<in> set (ct_rows ?n ta) \<Longrightarrow> range_has rg (composed_row ta ?X row)"
    by (rule conjunct2 [OF done', rule_format]) (auto simp: ct_rows_def)
qed

section \<open>The link of a term\<close>

lemma AddComposedRowTerms_good:
  assumes "indexable input" "row < si_num_rows input" "vars_below (si_num_decide_vars input) (map fst terms)"
    and "\<forall>(var, coefs) \<in> set terms. crisp (coefs ! row)" "link_good (vi_global_block_start (BuildIndexer input)) m"
  shows "link_good (vi_global_block_start (BuildIndexer input)) (AddComposedRowTerms (BuildIndexer input) terms row m) \<and>
    link_value (AddComposedRowTerms (BuildIndexer input) terms row m) x =
      link_value m x + (\<Sum>t\<leftarrow>terms. composed_part row (at_flat input x) t)"
  using assms(3-5)
proof (induction terms arbitrary: m)
  case (Cons t ts)
  obtain var coefs where t: "t = (var, coefs)" by force
  let ?m = "add_negated (BuildIndexer input) row var (coefs ! row) m"
  have "isfinite (coefs ! row)" using Cons.prems(2) by (simp add: t crisp_def)
  moreover have "Get (BuildIndexer input) v row < vi_global_block_start (BuildIndexer input)" if "var = Some v" for v
    using num.at_row_lt [OF assms(1) _ assms(2), of v] that Cons.prems(1) by (auto simp: vars_below_def t)
  ultimately have m: "link_good (vi_global_block_start (BuildIndexer input)) ?m"
    "link_value ?m x = link_value m x + composed_part row (at_flat input x) t"
    using add_negated_good [OF Cons.prems(3), of "coefs ! row" var]
    by (simp_all add: composed_part_def t at_flat_def split: option.split)
  have "vars_below (si_num_decide_vars input) (map fst ts)" "\<forall>(var, coefs) \<in> set ts. crisp (coefs ! row)"
    using Cons.prems(1,2) by (auto simp: vars_below_def)
  from Cons.IH [OF this m(1)] m(2) show ?case by (simp add: AddComposedRowTerms_def t)
qed (simp add: AddComposedRowTerms_def)

lemma composed_member_facts:
  assumes ready: "composed_ready input" and ok: "ct_ok input ta" "ct_is_minmax ta"
    and row: "row \<in> set (ct_rows (si_num_rows input) ta)"
  defines "m \<equiv> composed_member (BuildIndexer input) ta (ComposedTermRange input (ct_terms ta) (ct_filter_mask ta)) row"
  shows "member_ok (vi_global_block_start (BuildIndexer input)) m"
    and "member_value m x = composed_row ta (at_flat input x) row"
    and "mm_point input x \<Longrightarrow> range_has (xm_range m) (member_value m x)"
proof -
  have less: "row < si_num_rows input" using row by (simp add: ct_rows_def)
  have "indexable input" "vars_below (si_num_decide_vars input) (map fst (ct_terms ta))"
    "\<forall>(var, coefs) \<in> set (ct_terms ta). crisp (coefs ! row)"
    using ready ok row by (auto simp: composed_ready_def ct_ok_def)
  note link = AddComposedRowTerms_good [OF this(1) less this(2,3) link_good_default(1)]
  have xm: "xm_link m = AddComposedRowTerms (BuildIndexer input) (ct_terms ta) row mr_default" by (simp add: m_def composed_member_def)
  show "member_ok (vi_global_block_start (BuildIndexer input)) m"
    using link ok row by (intro member_of_link(1)) (simp_all add: xm ct_ok_def)
  show val: "member_value m x = composed_row ta (at_flat input x) row" for x
    using link [of x] by (simp add: member_of_link(2) xm composed_row_def)
  show "mm_point input x \<Longrightarrow> range_has (xm_range m) (member_value m x)"
    unfolding val using ComposedTermRange_has(3) [OF ready ok(1) _ row] by (simp add: m_def composed_member_def)
qed

text \<open>What the link of a term with column \<open>z\<close> asks of a point.\<close>

definition term_range :: "SolverInput \<Rightarrow> ComposedMinMaxTermData \<Rightarrow> AuxRange" where
  "term_range input ta = ComposedTermRange input (ct_terms ta) (ct_filter_mask ta)"

definition term_members :: "SolverInput \<Rightarrow> ComposedMinMaxTermData \<Rightarrow> ExtremumMember list" where
  "term_members input ta = map (composed_member (BuildIndexer input) ta (term_range input ta)) (ct_rows (si_num_rows input) ta)"

definition term_holds :: "SolverInput \<Rightarrow> NativeConstructPolicy \<Rightarrow> idx option \<Rightarrow> idx option \<Rightarrow> ComposedMinMaxTermData \<Rightarrow> (idx \<Rightarrow> real) \<Rightarrow> bool" where
  "term_holds input policy clause removal ta y \<longleftrightarrow>
     (ct_is_minmax ta \<longrightarrow> link_holds policy (composed_spec ta (term_range input ta) clause removal) (term_members input ta) y)"

text \<open>At the worth of its term, or, for an easy one, beyond it.\<close>

definition column_states :: "SolverInput \<Rightarrow> ComposedMinMaxTermData \<Rightarrow> (idx \<Rightarrow> real) \<Rightarrow> bool" where
  "column_states input ta y \<longleftrightarrow>
     (let v = composed_value (si_num_rows input) ta (at_flat input y); z = y (the (ct_z_idx ta))
      in ct_is_minmax ta \<longrightarrow> (if \<not> ct_is_easy ta then z = v else if ct_is_max ta then v \<le> z else z \<le> v))"

lemma composed_spec_fields [simp]:
  "xs_result_column (composed_spec ta rg clause removal) = the (ct_z_idx ta)"
  "xs_is_max (composed_spec ta rg clause removal) = ct_is_max ta"
  "xs_need_envelope (composed_spec ta rg clause removal)"
  "xs_need_closing (composed_spec ta rg clause removal) = (\<not> ct_is_easy ta)"
  "xs_closing_underivable (composed_spec ta rg clause removal) = Unbounded rg"
  "xs_closing_big_m (composed_spec ta rg clause removal) = (if Unbounded rg then 0 else Span rg)"
  by (simp_all add: composed_spec_def xs_default_def)

lemma term_members_value:
  assumes "composed_ready input" "ct_ok input ta" "ct_is_minmax ta" "ct_rows (si_num_rows input) ta \<noteq> []"
  shows "members_extremum (ct_is_max ta) (term_members input ta) y = composed_value (si_num_rows input) ta (at_flat input y)"
proof -
  have "(\<lambda>m. member_value m y) ` set (term_members input ta) =
      composed_row ta (at_flat input y) ` set (ct_rows (si_num_rows input) ta)"
    using composed_member_facts(2) [OF assms(1-3)] by (auto simp: term_members_def term_range_def image_image intro!: image_cong)
  with assms(3,4) show ?thesis by (simp add: composed_value_def)
qed

lemma term_holds_iff:
  assumes ready: "composed_ready input" and ok: "ct_ok input ta" and y: "mm_point input y"
    and ne: "ct_rows (si_num_rows input) ta \<noteq> []"
    and derivable: "ct_is_minmax ta \<Longrightarrow> \<not> ct_is_easy ta \<Longrightarrow>
      UseNative policy (Unbounded (term_range input ta)) \<or> \<not> Unbounded (term_range input ta)"
  shows "term_holds input policy clause removal ta y \<longleftrightarrow> column_states input ta y"
proof (cases "ct_is_minmax ta")
  case True
  let ?spec = "composed_spec ta (term_range input ta) clause removal" and ?members = "term_members input ta"
  let ?v = "composed_value (si_num_rows input) ta (at_flat input y)" and ?z = "y (the (ct_z_idx ta))"
  have ne': "?members \<noteq> []" using ne by (simp add: term_members_def)
  have val: "members_extremum (ct_is_max ta) ?members y = ?v" by (rule term_members_value [OF ready ok True ne])
  have env: "envelope_holds ?spec ?members y \<longleftrightarrow> (if ct_is_max ta then ?v \<le> ?z else ?z \<le> ?v)"
    using envelope_extremum [OF ne', of ?spec y] val by (cases "ct_is_max ta") simp_all
  have native: "native_left ?spec ?members [] y \<longleftrightarrow> ?z = ?v"
    using native_extremum [OF ne', of ?spec y] val by simp
  have closing: "closing_holds ?spec ?members y \<longleftrightarrow> (if ct_is_max ta then ?z \<le> ?v else ?v \<le> ?z)" if "\<not> Unbounded (term_range input ta)"
  proof -
    have "range_has (term_range input ta) (member_value m y)" if "m \<in> set ?members" for m
      using that composed_member_facts(3) [OF ready ok True _ y]
      by (auto simp: term_members_def term_range_def composed_member_def)
    then have "\<bar>member_value m y - member_value m' y\<bar> \<le> rval (xs_closing_big_m ?spec)"
      if "m \<in> set ?members" "m' \<in> set ?members" for m m'
      using span_bound(1) [OF ComposedTermRange_has(1) [OF ready ok y, folded term_range_def] \<open>\<not> Unbounded _\<close>] that
        \<open>\<not> Unbounded _\<close> by simp
    with closing_extremum [OF ne', of y ?spec] val show ?thesis by (cases "ct_is_max ta") simp_all
  qed
  show ?thesis
    using True ne' env native closing derivable
    by (cases "ct_is_easy ta"; cases "UseNative policy (Unbounded (term_range input ta))")
      (auto simp: term_holds_def link_holds_def column_states_def Let_def)
qed (simp add: term_holds_def column_states_def)

section \<open>The columns\<close>

lemma extends_fresh:
  assumes wf: "well_formed vi mid" and le: "si_num_global_vars input \<le> si_num_global_vars mid"
    and y: "extends vi input mid x y" and upd: "agree_below (columns_end vi mid) y y'"
  shows "extends vi input mid x y'"
proof -
  have low: "agree_below (columns_end vi input) y y'"
    using upd le by (auto simp: agree_below_def columns_end_def)
  have "admits_new vi input mid y'"
    using y upd by (auto simp: extends_def admits_new_def agree_below_def columns_end_def)
  moreover have "rows_hold mid y' = rows_hold mid y"
    using wf upd by (intro rows_hold_agree) (auto simp: well_formed_def agree_below_def)
  ultimately show ?thesis using y agree_below_trans [OF _ low] by (simp add: extends_def)
qed

text \<open>A term before and after its column is filled in.\<close>

definition fills :: "ComposedMinMaxTermData \<Rightarrow> ComposedMinMaxTermData \<Rightarrow> bool" where
  "fills ta tb \<longleftrightarrow> tb\<lparr>ct_z_idx := ct_z_idx ta\<rparr> = ta"

lemma fills_fields:
  assumes "fills ta tb"
  shows "ct_is_minmax tb = ct_is_minmax ta" "ct_agg_name tb = ct_agg_name ta" "ct_sign tb = ct_sign ta"
    "ct_scale tb = ct_scale ta" "ct_is_easy tb = ct_is_easy ta" "ct_filter_mask tb = ct_filter_mask ta"
    "ct_terms tb = ct_terms ta"
  using assms by (auto simp: fills_def) (cases ta; cases tb; simp)+

lemma fills_worth:
  assumes "fills ta tb"
  shows "composed_value n tb X = composed_value n ta X" "ct_ok input tb = ct_ok input ta"
    "term_range input tb = term_range input ta" "ct_weight tb = ct_weight ta" "ct_rows n tb = ct_rows n ta"
proof -
  note fields = fills_fields [OF assms]
  have row: "composed_row tb = composed_row ta" by (simp add: fun_eq_iff composed_row_def fields)
  show "composed_value n tb X = composed_value n ta X" unfolding composed_value_def ct_rows_def fields row by (rule refl)
  show "ct_ok input tb = ct_ok input ta" by (simp add: ct_ok_def ct_rows_def fields)
  show "term_range input tb = term_range input ta" by (simp add: term_range_def fields)
  show "ct_weight tb = ct_weight ta" by (simp add: ct_weight_def fields)
  show "ct_rows n tb = ct_rows n ta" by (simp add: ct_rows_def fields)
qed

definition composed_state :: "SolverInput \<Rightarrow> SolverInput \<Rightarrow> bool" where
  "composed_state input mid \<longleftrightarrow> well_formed (BuildIndexer input) mid \<and> same_box input mid \<and>
     si_num_global_vars input \<le> si_num_global_vars mid"

lemma same_box_range: "same_box input mid \<Longrightarrow> ComposedTermRange mid terms admitted = ComposedTermRange input terms admitted"
  unfolding same_box_def ComposedTermRange_def by (elim conjE) (simp only:)

lemma same_box_base: "same_box input a \<Longrightarrow> base_of b = base_of a \<Longrightarrow> same_box input b"
  using base_of_eqD(1,4,5) [of b a] by (simp add: same_box_def)

definition entry_ok :: "SolverInput \<Rightarrow> SolverInput \<Rightarrow> ComposedMinMaxTermData \<times> AuxRange \<Rightarrow> bool" where
  "entry_ok input mid = (\<lambda>(ta, rg). ct_is_minmax ta \<longrightarrow> rg = term_range input ta \<and>
     columns_end (BuildIndexer input) input \<le> the (ct_z_idx ta) \<and> the (ct_z_idx ta) < columns_end (BuildIndexer input) mid)"

lemma entry_ok_mono: "entry_ok input mid e \<Longrightarrow> si_num_global_vars mid \<le> si_num_global_vars out \<Longrightarrow> entry_ok input out e"
  by (cases e) (auto simp: entry_ok_def columns_end_def)

definition entry_boxed :: "ComposedMinMaxTermData \<times> AuxRange \<Rightarrow> (idx \<Rightarrow> real) \<Rightarrow> bool" where
  "entry_boxed = (\<lambda>(ta, rg) y. ct_is_minmax ta \<longrightarrow> range_admits rg (y (the (ct_z_idx ta))))"

lemma composed_columns_facts:
  assumes "composed_columns (BuildIndexer input) terms mid = (out, es)" "composed_state input mid"
  shows "composed_state input out \<and> base_of out = base_of mid \<and> si_num_global_vars mid \<le> si_num_global_vars out \<and>
    list_all2 fills terms (map fst es) \<and> list_all (entry_ok input out) es \<and>
    (\<forall>x x'. extends (BuildIndexer input) input out x x' \<longleftrightarrow>
       extends (BuildIndexer input) input mid x x' \<and> list_all (\<lambda>e. entry_boxed e x') es)"
  using assms
proof (induction terms arbitrary: mid es)
  case (Cons ta terms)
  let ?vi = "BuildIndexer input"
  show ?case
  proof (cases "ct_is_minmax ta")
    case False
    then obtain es' where rest: "composed_columns ?vi terms mid = (out, es')" "es = (ta, ar_default) # es'"
      using Cons.prems(1) by (auto split: prod.splits)
    have "fills ta ta" "entry_ok input out (ta, ar_default)" "entry_boxed (ta, ar_default) x'" for x'
      using False by (simp_all add: fills_def entry_ok_def entry_boxed_def)
    with Cons.IH [OF rest(1) Cons.prems(2)] show ?thesis by (simp add: rest(2))
  next
    case True
    let ?rg = "ComposedTermRange mid (ct_terms ta) (ct_filter_mask ta)"
    obtain m z where add: "AddGlobalContinuousAux ?vi ?rg 0 (ct_label ta) mid = (m, z)" by force
    then obtain es' where rest: "composed_columns ?vi terms m = (out, es')" "es = (ta\<lparr>ct_z_idx := Some z\<rparr>, ?rg) # es'"
      using Cons.prems(1) True by (auto split: prod.splits)
    have wf: "well_formed ?vi mid" and box: "same_box input mid" and le: "si_num_global_vars input \<le> si_num_global_vars mid"
      using Cons.prems(2) by (simp_all add: composed_state_def)
    note facts = add_continuous_facts [OF add] and wfm = add_continuous_wf [OF wf add]
    have state: "composed_state input m"
      using wfm(1) same_box_base [OF box facts(1)] le facts(3) by (simp add: composed_state_def)
    note ih = Cons.IH [OF rest(1) state]
    have fill: "fills ta (ta\<lparr>ct_z_idx := Some z\<rparr>)" by (simp add: fills_def)
    have rg: "?rg = term_range input ta" using same_box_range [OF box] by (simp add: term_range_def)
    have "entry_ok input m (ta\<lparr>ct_z_idx := Some z\<rparr>, ?rg)"
      using fills_worth(3) [OF fill] facts(2) wfm(2) le by (simp add: entry_ok_def rg columns_end_def)
    then have "entry_ok input out (ta\<lparr>ct_z_idx := Some z\<rparr>, ?rg)" using ih by (blast intro: entry_ok_mono)
    moreover have "extends ?vi input m x x' \<longleftrightarrow> extends ?vi input mid x x' \<and> entry_boxed (ta\<lparr>ct_z_idx := Some z\<rparr>, ?rg) x'" for x x'
      using extends_add [OF add wf le] True by (simp add: entry_boxed_def)
    ultimately show ?thesis using ih facts(1,3) fill by (auto simp: rest(2))
  qed
qed (simp add: composed_state_def)

text \<open>The columns can take any values their boxes admit.\<close>

lemma composed_columns_attain:
  assumes "composed_columns (BuildIndexer input) terms mid = (out, es)" "composed_state input mid"
    and "extends (BuildIndexer input) input mid x y"
    and "\<forall>ta \<in> set terms. ct_is_minmax ta \<longrightarrow> range_has (term_range input ta) (V ta)"
    and V: "\<And>ta tb. fills ta tb \<Longrightarrow> V tb = V ta"
  shows "\<exists>y'. extends (BuildIndexer input) input out x y' \<and> agree_below (columns_end (BuildIndexer input) mid) y y' \<and>
    list_all (\<lambda>(ta, rg). ct_is_minmax ta \<longrightarrow> y' (the (ct_z_idx ta)) = V ta) es"
  using assms(1-4)
proof (induction terms arbitrary: mid es y)
  case Nil
  then show ?case using agree_below_refl by auto
next
  case (Cons ta terms)
  let ?vi = "BuildIndexer input"
  show ?case
  proof (cases "ct_is_minmax ta")
    case False
    then obtain es' where rest: "composed_columns ?vi terms mid = (out, es')" "es = (ta, ar_default) # es'"
      using Cons.prems(1) by (auto split: prod.splits)
    with Cons.IH [OF rest(1) Cons.prems(2,3)] Cons.prems(4) False show ?thesis by simp
  next
    case True
    let ?rg = "ComposedTermRange mid (ct_terms ta) (ct_filter_mask ta)"
    obtain m z where add: "AddGlobalContinuousAux ?vi ?rg 0 (ct_label ta) mid = (m, z)" by force
    then obtain es' where rest: "composed_columns ?vi terms m = (out, es')" "es = (ta\<lparr>ct_z_idx := Some z\<rparr>, ?rg) # es'"
      using Cons.prems(1) True by (auto split: prod.splits)
    have wf: "well_formed ?vi mid" and box: "same_box input mid" and le: "si_num_global_vars input \<le> si_num_global_vars mid"
      using Cons.prems(2) by (simp_all add: composed_state_def)
    note facts = add_continuous_facts [OF add] and wfm = add_continuous_wf [OF wf add]
    let ?y = "y(z := V ta)"
    have state: "composed_state input m"
      using wfm(1) same_box_base [OF box facts(1)] le facts(3) by (simp add: composed_state_def)
    have upd: "agree_below (columns_end ?vi mid) y ?y" by (simp add: agree_below_def facts(2))
    have "range_admits ?rg (?y z)"
      using Cons.prems(4) True same_box_range [OF box] by (simp add: range_has_admits term_range_def)
    with extends_fresh [OF wf le Cons.prems(3) upd] have "extends ?vi input m x ?y" using extends_add [OF add wf le] by simp
    with Cons.IH [OF rest(1) state] Cons.prems(4) obtain y' where y': "extends ?vi input out x y'"
      "agree_below (columns_end ?vi m) ?y y'" "list_all (\<lambda>(ta, rg). ct_is_minmax ta \<longrightarrow> y' (the (ct_z_idx ta)) = V ta) es'"
      by auto
    have "y' z = V ta" using y'(2) wfm(2) facts(2) by (simp add: agree_below_def)
    then have "list_all (\<lambda>(ta, rg). ct_is_minmax ta \<longrightarrow> y' (the (ct_z_idx ta)) = V ta) es"
      using y'(3) V [of ta "ta\<lparr>ct_z_idx := Some z\<rparr>"] by (simp add: rest(2) fills_def)
    moreover have "agree_below (columns_end ?vi mid) y y'"
      using agree_below_trans [OF upd] agree_below_less [OF y'(2)] wfm(2) by simp
    ultimately show ?thesis using y'(1) by blast
  qed
qed

section \<open>The links\<close>

abbreviation entry_holds :: "SolverInput \<Rightarrow> NativeConstructPolicy \<Rightarrow> idx option \<Rightarrow> idx option \<Rightarrow>
    ComposedMinMaxTermData \<times> AuxRange \<Rightarrow> (idx \<Rightarrow> real) \<Rightarrow> bool" where
  "entry_holds input policy clause removal e \<equiv> term_holds input policy clause removal (fst e)"

definition term_derivable :: "SolverInput \<Rightarrow> NativeConstructPolicy \<Rightarrow> ComposedMinMaxTermData \<Rightarrow> bool" where
  "term_derivable input policy ta \<longleftrightarrow> (ct_is_minmax ta \<and> ct_rows (si_num_rows input) ta \<noteq> [] \<and> \<not> ct_is_easy ta \<longrightarrow>
     UseNative policy (Unbounded (term_range input ta)) \<or> \<not> Unbounded (term_range input ta))"

lemma term_members_ok:
  assumes "composed_ready input" "ct_ok input ta" "ct_is_minmax ta" "vi_global_block_start (BuildIndexer input) \<le> n"
  shows "\<forall>m \<in> set (term_members input ta). member_ok n m"
  using composed_member_facts(1) [OF assms(1-3)] member_ok_less [OF _ assms(4)]
  by (auto simp: term_members_def term_range_def)

lemma composed_closing:
  assumes "composed_ready input" "ct_ok input ta" "mm_point input x"
  shows "\<exists>M \<ge> 0. (if Unbounded (term_range input ta) then 0 else Span (term_range input ta)) = Fin M"
  using span_bound(2) [OF ComposedTermRange_has(1) [OF assms] _ ComposedTermRange_has(2,2) [OF assms]]
  by (auto simp: term_range_def zero_dbl_def)

lemma term_holds_columns:
  assumes ready: "composed_ready input" and ok: "ct_ok input ta" and x: "mm_point input x"
    and n: "vi_global_block_start (BuildIndexer input) \<le> n" "ct_is_minmax ta \<Longrightarrow> the (ct_z_idx ta) < n"
  shows "on_columns n (term_holds input policy clause removal ta)"
proof (cases "ct_is_minmax ta")
  case True
  let ?spec = "composed_spec ta (term_range input ta) clause removal"
  obtain M where M: "xs_closing_big_m ?spec = Fin M" using composed_closing [OF ready ok x] by auto
  have z: "xs_result_column ?spec < n" using n(2) True by simp
  have "term_holds input policy clause removal ta = link_holds policy ?spec (term_members input ta)"
    using True by (simp add: term_holds_def fun_eq_iff)
  then show ?thesis using link_holds_columns [OF term_members_ok [OF ready ok True n(1)] z M] by simp
qed (simp add: term_holds_def on_columns_def)

lemma composed_link_step:
  assumes run: "composed_link (BuildIndexer input) clause removal var_names policy (ta, rg) mid = Inr out"
    and mid: "composed_state input mid" and entry: "entry_ok input mid (ta, rg)"
    and ready: "composed_ready input" and ok: "ct_ok input ta" and x: "mm_point input x"
  shows "narrows (BuildIndexer input) input (mm_point input) (term_holds input policy clause removal ta) mid out"
    and "composed_state input out" "base_of out = base_of mid" "term_derivable input policy ta"
    and "\<exists>k. si_global_obj_coeffs out = si_global_obj_coeffs mid @ replicate k 0"
proof -
  let ?vi = "BuildIndexer input"
  have wf: "well_formed ?vi mid" and box: "same_box input mid" and le: "si_num_global_vars input \<le> si_num_global_vars mid"
    using mid by (simp_all add: composed_state_def)
  have all: "narrows ?vi input (mm_point input) (term_holds input policy clause removal ta) mid out \<and>
    base_of out = base_of mid \<and> term_derivable input policy ta \<and>
    (\<exists>k. si_global_obj_coeffs out = si_global_obj_coeffs mid @ replicate k 0)"
  proof (cases "ct_is_minmax ta")
    case False
    with run have "out = mid" by (simp add: composed_link_def)
    moreover have "term_holds input policy clause removal ta = (\<lambda>y. True)" using False by (simp add: term_holds_def fun_eq_iff)
    ultimately show ?thesis using narrows_refl [OF wf] False by (auto simp: term_derivable_def intro: exI [of _ 0])
  next
    case True
    let ?spec = "composed_spec ta (term_range input ta) clause removal"
    have link: "EmitExtremumLink ?vi ?spec (term_members input ta) var_names policy mid = Inr out"
      using run True entry box by (simp add: composed_link_def entry_ok_def term_members_def ct_rows_def same_box_def)
    have n: "vi_global_block_start ?vi \<le> columns_end ?vi mid" by (simp add: columns_end_def)
    note A = on_decisions_columns [OF mm_point_decisions]
    have "link_ready (columns_end ?vi mid) (mm_point input) policy ?spec (term_members input ta)"
      using entry True A [of input mid] term_members_ok [OF ready ok True n] composed_closing [OF ready ok x]
        composed_member_facts(3) [OF ready ok True]
      by (auto simp: link_ready_def entry_ok_def term_members_def term_range_def)
    then have "states ?vi (mm_point input) (link_holds policy ?spec (term_members input ta)) mid out"
      by (rule EmitExtremumLink_states [OF link wf])
    then have "narrows ?vi input (mm_point input) (link_holds policy ?spec (term_members input ta)) mid out"
      by (rule narrows_states [OF _ A le])
    moreover have "term_derivable input policy ta"
      using link by (auto simp: term_derivable_def EmitExtremumLink_def term_members_def Let_def split: if_splits)
    ultimately show ?thesis
      using EmitExtremumLink_base [OF link] emitted_objs [OF link] True by (simp add: term_holds_def [abs_def])
  qed
  then show "narrows ?vi input (mm_point input) (term_holds input policy clause removal ta) mid out"
    "base_of out = base_of mid" "term_derivable input policy ta"
    "\<exists>k. si_global_obj_coeffs out = si_global_obj_coeffs mid @ replicate k 0" by blast+
  with le same_box_base [OF box] show "composed_state input out" by (simp add: composed_state_def narrows_def)
qed

lemma composed_links:
  assumes "fold_res (composed_link (BuildIndexer input) clause removal var_names policy) es mid = Inr out"
    and "composed_state input mid" "list_all (entry_ok input mid) es" "\<forall>e \<in> set es. ct_ok input (fst e)"
    and ready: "composed_ready input" and x: "mm_point input x"
  shows "narrows (BuildIndexer input) input (mm_point input) (\<lambda>y. \<forall>e \<in> set es. entry_holds input policy clause removal e y) mid out \<and>
    composed_state input out \<and> base_of out = base_of mid \<and> (\<forall>e \<in> set es. term_derivable input policy (fst e)) \<and>
    (\<exists>k. si_global_obj_coeffs out = si_global_obj_coeffs mid @ replicate k 0)"
  using assms(1-4)
proof (induction es arbitrary: mid)
  case Nil
  then show ?case using narrows_refl by (auto simp: composed_state_def intro: exI [of _ 0])
next
  case (Cons e es)
  let ?vi = "BuildIndexer input"
  obtain ta rg where e: "e = (ta, rg)" by force
  from Cons.prems(1) obtain t where t: "composed_link ?vi clause removal var_names policy (ta, rg) mid = Inr t"
    "fold_res (composed_link ?vi clause removal var_names policy) es t = Inr out"
    by (auto simp: e split: sum.splits)
  have "entry_ok input mid (ta, rg)" "ct_ok input ta" using Cons.prems(3,4) by (simp_all add: e)
  note step = composed_link_step [OF t(1) Cons.prems(2) this(1) ready this(2) x]
  have "si_num_global_vars mid \<le> si_num_global_vars t" using step(1) by (simp add: narrows_def)
  then have "list_all (entry_ok input t) es" using Cons.prems(3) by (auto simp: list_all_iff intro: entry_ok_mono)
  then have ih: "narrows ?vi input (mm_point input) (\<lambda>y. \<forall>e \<in> set es. entry_holds input policy clause removal e y) t out \<and>
      composed_state input out \<and> base_of out = base_of t \<and> (\<forall>e \<in> set es. term_derivable input policy (fst e)) \<and>
      (\<exists>k. si_global_obj_coeffs out = si_global_obj_coeffs t @ replicate k 0)"
    using Cons.prems(4) by (intro Cons.IH [OF t(2) step(2)]) simp_all
  have cols: "on_columns (columns_end ?vi mid) (\<lambda>y. \<forall>e \<in> set es. entry_holds input policy clause removal e y)"
  proof -
    have "on_columns (columns_end ?vi mid) (entry_holds input policy clause removal e')" if "e' \<in> set es" for e'
      using that Cons.prems(3,4)
      by (intro term_holds_columns [OF ready _ x]) (auto simp: columns_end_def entry_ok_def list_all_iff)
    then show ?thesis unfolding on_columns_def by (meson ball_cong)
  qed
  from narrows_trans [OF step(1) conjunct1 [OF ih] cols]
  have "narrows ?vi input (mm_point input) (\<lambda>y. \<forall>e \<in> set (e # es). entry_holds input policy clause removal e y) mid out"
    by (rule narrows_cong) (simp add: e)
  moreover have "\<exists>k. si_global_obj_coeffs out = si_global_obj_coeffs mid @ replicate k 0"
    using step(5) ih by (auto simp: replicate_add [symmetric])
  ultimately show ?case using ih step(3,4) by (simp add: e)
qed

section \<open>The auxiliary layer\<close>

definition terms_ready :: "SolverInput \<Rightarrow> ComposedMinMaxTermData list \<Rightarrow> bool" where
  "terms_ready input terms \<longleftrightarrow> composed_ready input \<and> list_all (ct_ok input) terms"

text \<open>The terms with their columns filled in, as the outer row or the objective reads them.\<close>

definition composed_placed :: "SolverInput \<Rightarrow> SolverInput \<Rightarrow> ComposedMinMaxTermData \<Rightarrow> bool" where
  "composed_placed input mid ta \<longleftrightarrow> (ct_is_minmax ta \<longrightarrow>
     columns_end (BuildIndexer input) input \<le> the (ct_z_idx ta) \<and> the (ct_z_idx ta) < columns_end (BuildIndexer input) mid)"

lemma composed_value_has:
  assumes "composed_ready input" "ct_ok input ta" "ct_is_minmax ta" "mm_point input x"
  shows "range_has (term_range input ta) (composed_value (si_num_rows input) ta (at_flat input x))"
proof (cases "ct_rows (si_num_rows input) ta = []")
  case True
  with ComposedTermRange_has(2) [OF assms(1,2,4)] show ?thesis by (simp add: composed_value_def term_range_def)
next
  case False
  then have "composed_value (si_num_rows input) ta (at_flat input x) \<in>
      composed_row ta (at_flat input x) ` set (ct_rows (si_num_rows input) ta)"
    using extremum_mem assms(3) by (simp add: composed_value_def)
  with ComposedTermRange_has(3) [OF assms(1,2,4)] show ?thesis by (auto simp: term_range_def)
qed

text \<open>A term with no rows: its column is boxed by \<open>[0, 0]\<close>, and there is no link.\<close>

lemma entry_states:
  assumes ready: "composed_ready input" and ok: "ct_ok input ta" and y: "mm_point input y" and box: "entry_boxed (ta, term_range input ta) y"
    and holds: "term_holds input policy clause removal ta y" and derivable: "term_derivable input policy ta"
  shows "column_states input ta y"
proof (cases "ct_is_minmax ta \<and> ct_rows (si_num_rows input) ta = []")
  case True
  have "fold (\<lambda>row rg. if \<not> ct_filter_mask ta ! row then rg else f row rg) rows a = a"
    if "filter (\<lambda>row. ct_filter_mask ta ! row) rows = []" for rows f and a :: AuxRange
    using that by (induction rows) (auto split: if_splits)
  with True have "term_range input ta = ar_default" by (simp add: term_range_def ComposedTermRange_def ct_rows_def)
  with box True have "y (the (ct_z_idx ta)) = 0"
    by (simp add: entry_boxed_def range_admits_def ar_default_def zero_dbl_def)
  with True show ?thesis by (simp add: column_states_def composed_value_def)
next
  case False
  then show ?thesis
    using term_holds_iff [OF ready ok y] holds derivable
    by (cases "ct_is_minmax ta") (auto simp: term_derivable_def column_states_def)
qed

lemma value_same_point:
  assumes "composed_ready input" "ct_ok input ta" "agree_below (vi_global_block_start (BuildIndexer input)) x y"
  shows "composed_value (si_num_rows input) ta (at_flat input y) = composed_value (si_num_rows input) ta (at_flat input x)"
proof -
  have "composed_row ta (at_flat input y) row = composed_row ta (at_flat input x) row"
    if row: "row \<in> set (ct_rows (si_num_rows input) ta)" for row
  proof -
    have "composed_part row (at_flat input y) t = composed_part row (at_flat input x) t" if "t \<in> set (ct_terms ta)" for t
    proof (cases "fst t")
      case (Some v)
      with that have "Some v \<in> set (map fst (ct_terms ta))" by (metis image_eqI set_map)
      with assms(2) have "v < si_num_decide_vars input" by (simp add: ct_ok_def vars_below_def)
      then show ?thesis
        using Some at_flat_agree [OF _ _ _ assms(3)] assms(1) row
        by (cases t) (simp add: composed_part_def composed_ready_def ct_rows_def)
    qed (cases t; simp add: composed_part_def)
    then show ?thesis by (simp add: composed_row_def cong: map_cong)
  qed
  then have "map (composed_row ta (at_flat input y)) (ct_rows (si_num_rows input) ta) =
      map (composed_row ta (at_flat input x)) (ct_rows (si_num_rows input) ta)"
    "composed_row ta (at_flat input y) ` set (ct_rows (si_num_rows input) ta) =
      composed_row ta (at_flat input x) ` set (ct_rows (si_num_rows input) ta)" by (auto intro: image_cong)
  then show ?thesis unfolding composed_value_def Let_def by (simp only:)
qed

lemma fills_ok: "list_all2 fills ts us \<Longrightarrow> list_all (ct_ok input) us = list_all (ct_ok input) ts"
  by (induction rule: list_all2_induct) (simp_all add: fills_worth(2))

lemma Emit_states:
  assumes run: "EmitComposedMinMaxAuxiliaries (BuildIndexer input) terms clause removal var_names policy mid = Inr (out, terms')"
    and mid: "composed_state input mid" and ready: "terms_ready input terms" and x: "mm_point input x" "extends (BuildIndexer input) input mid x x"
  shows "composed_state input out \<and> base_of out = base_of mid \<and> si_num_global_vars mid \<le> si_num_global_vars out"
    and "list_all2 fills terms terms'" "list_all (composed_placed input out) terms'"
    and "extends (BuildIndexer input) input out x y \<Longrightarrow>
      extends (BuildIndexer input) input mid x y \<and> list_all (\<lambda>ta. column_states input ta y) terms'"
    and "\<exists>y. extends (BuildIndexer input) input out x y \<and> list_all (\<lambda>ta. ct_is_minmax ta \<longrightarrow>
      y (the (ct_z_idx ta)) = composed_value (si_num_rows input) ta (at_flat input y)) terms'"
proof -
  let ?vi = "BuildIndexer input" and ?V = "\<lambda>ta. composed_value (si_num_rows input) ta (at_flat input x)"
  obtain m es where cols: "composed_columns ?vi terms mid = (m, es)" by force
  with run have links: "fold_res (composed_link ?vi clause removal var_names policy) es m = Inr out" and terms': "terms' = map fst es"
    by (auto simp: EmitComposedMinMaxAuxiliaries_def split: sum.splits)
  note c = composed_columns_facts [OF cols mid]
  have rdy: "composed_ready input" and ok: "list_all (ct_ok input) terms" using ready by (simp_all add: terms_ready_def)
  have fills: "list_all2 fills terms (map fst es)" and entries: "list_all (entry_ok input m) es" using c by blast+
  have ok': "\<forall>e \<in> set es. ct_ok input (fst e)"
    using fills_ok [OF fills, of input] ok by (simp add: list_all_iff)
  have l: "narrows ?vi input (mm_point input) (\<lambda>y. \<forall>e \<in> set es. entry_holds input policy clause removal e y) m out \<and>
    composed_state input out \<and> base_of out = base_of m \<and> (\<forall>e \<in> set es. term_derivable input policy (fst e)) \<and>
    (\<exists>k. si_global_obj_coeffs out = si_global_obj_coeffs m @ replicate k 0)"
    by (rule composed_links [OF links _ entries ok' rdy x(1)]) (use c in blast)
  have le: "si_num_global_vars m \<le> si_num_global_vars out" using l by (simp add: narrows_def)
  with c l show "composed_state input out \<and> base_of out = base_of mid \<and> si_num_global_vars mid \<le> si_num_global_vars out" by auto
  show "list_all2 fills terms terms'" using fills by (simp add: terms')
  have "entry_ok input out e" if "e \<in> set es" for e using entries that entry_ok_mono [OF _ le] by (simp add: list_all_iff)
  then show "list_all (composed_placed input out) terms'"
    unfolding terms' list_all_iff set_map ball_simps by (auto simp: composed_placed_def entry_ok_def split_beta)
  have point: "mm_point input y" "agree_below (vi_global_block_start ?vi) x y" if "extends ?vi input m x y" for y
    using that x(1) agree_below_less [of "columns_end ?vi input" x y "vi_global_block_start ?vi"] on_decisionsD [OF mm_point_decisions]
    by (auto simp: extends_def columns_end_def)
  show "extends ?vi input mid x y \<and> list_all (\<lambda>ta. column_states input ta y) terms'" if y: "extends ?vi input out x y"
  proof -
    have holds: "extends ?vi input m x y" "\<forall>e \<in> set es. entry_holds input policy clause removal e y"
      using l x(1) y unfolding narrows_def by blast+
    then have "extends ?vi input mid x y" "list_all (\<lambda>e. entry_boxed e y) es" using c by blast+
    moreover have "column_states input (fst e) y" if e: "e \<in> set es" for e
    proof (cases "ct_is_minmax (fst e)")
      case True
      with e entries have "e = (fst e, term_range input (fst e))" by (cases e) (auto simp: list_all_iff entry_ok_def)
      moreover have "entry_boxed e y" using e \<open>list_all (\<lambda>e. entry_boxed e y) es\<close> by (simp add: list_all_iff)
      ultimately have "entry_boxed (fst e, term_range input (fst e)) y" by simp
      moreover have "ct_ok input (fst e)" "term_holds input policy clause removal (fst e) y" "term_derivable input policy (fst e)"
        using e ok' holds(2) l by blast+
      ultimately show ?thesis using entry_states [OF rdy _ point(1) [OF holds(1)]] by blast
    qed (simp add: column_states_def)
    ultimately show ?thesis by (simp add: terms' list_all_iff)
  qed
  have "\<forall>ta \<in> set terms. ct_is_minmax ta \<longrightarrow> range_has (term_range input ta) (?V ta)"
    using composed_value_has [OF rdy _ _ x(1)] ok by (simp add: list_all_iff)
  from composed_columns_attain [OF cols mid x(2) this fills_worth(1)] obtain y where y: "extends ?vi input m x y"
    "list_all (\<lambda>(ta, rg). ct_is_minmax ta \<longrightarrow> y (the (ct_z_idx ta)) = ?V ta) es" by blast
  note py = point [OF y(1)]
  have at: "\<forall>e \<in> set es. ct_is_minmax (fst e) \<longrightarrow> y (the (ct_z_idx (fst e))) = composed_value (si_num_rows input) (fst e) (at_flat input y)"
  proof (intro ballI impI)
    fix e assume e: "e \<in> set es" "ct_is_minmax (fst e)"
    then have "y (the (ct_z_idx (fst e))) = ?V (fst e)" using y(2) by (auto simp: list_all_iff split_beta)
    with e value_same_point [OF rdy _ py(2)] ok'
    show "y (the (ct_z_idx (fst e))) = composed_value (si_num_rows input) (fst e) (at_flat input y)" by simp
  qed
  have "entry_holds input policy clause removal e y" if e: "e \<in> set es" for e
  proof (cases "ct_rows (si_num_rows input) (fst e) = []")
    case True
    then show ?thesis by (simp add: term_holds_def link_holds_def term_members_def)
  next
    case False
    have "column_states input (fst e) y" using at e by (simp add: column_states_def Let_def)
    with term_holds_iff [OF rdy _ py(1) False] ok' l e False show ?thesis by (auto simp: term_derivable_def)
  qed
  with y(1) x(1) l obtain x' where x': "extends ?vi input out x x'" "agree_below (columns_end ?vi m) y x'"
    unfolding narrows_def by blast
  have "x' (the (ct_z_idx (fst e))) = composed_value (si_num_rows input) (fst e) (at_flat input x')"
    if e: "e \<in> set es" "ct_is_minmax (fst e)" for e
  proof -
    have "the (ct_z_idx (fst e)) < columns_end ?vi m" using entries e by (auto simp: list_all_iff entry_ok_def split_beta)
    then have "x' (the (ct_z_idx (fst e))) = y (the (ct_z_idx (fst e)))" using x'(2) by (simp add: agree_below_def)
    moreover have "agree_below (vi_global_block_start ?vi) y x'" using agree_below_less [OF x'(2)] by (simp add: columns_end_def)
    ultimately show ?thesis using at e ok' value_same_point [OF rdy, of "fst e" y x'] by simp
  qed
  then show "\<exists>y. extends ?vi input out x y \<and> list_all (\<lambda>ta. ct_is_minmax ta \<longrightarrow>
      y (the (ct_z_idx ta)) = composed_value (si_num_rows input) ta (at_flat input y)) terms'"
    using x'(1) by (intro exI [of _ x']) (simp add: terms' list_all_iff)
qed

end
