(* ===== verification/ComposedClauses.thy ===== *)
theory ComposedClauses
  imports ComposedExact
begin

text \<open>
  The two composed clauses: the outer row of a constraint holds exactly where the clause does, and the
  objective is worth the sum of its terms, less the constants.
\<close>

section \<open>The outer row\<close>

definition hm_val :: "coeff_map \<Rightarrow> (idx \<Rightarrow> real) \<Rightarrow> real" where
  "hm_val m y = (\<Sum>(i, c)\<leftarrow>m. rval c * y i)"

definition acc_ok :: "nat \<Rightarrow> coeff_map \<times> dbl \<Rightarrow> bool" where
  "acc_ok n = (\<lambda>(acc, rhs). isfinite rhs \<and> (\<forall>(i, c) \<in> set acc. isfinite c \<and> i < n))"

text \<open>How far the row so far is beyond its bound.\<close>

definition acc_gap :: "coeff_map \<times> dbl \<Rightarrow> (idx \<Rightarrow> real) \<Rightarrow> real" where
  "acc_gap s y = hm_val (fst s) y - rval (snd s)"

lemma hm_add_gap:
  assumes "acc_ok n (acc, rhs)" "isfinite c" "i < n"
  shows "acc_ok n (hm_add i c acc, rhs)" "acc_gap (hm_add i c acc, rhs) y = acc_gap (acc, rhs) y + rval c * y i"
proof -
  have "(\<forall>(i, c) \<in> set (hm_add i c acc). isfinite c \<and> i < n) \<and> hm_val (hm_add i c acc) y = hm_val acc y + rval c * y i"
    using assms
    by (induction acc) (auto simp: acc_ok_def hm_val_def rval_plus isfinite_plus algebra_simps zero_dbl_def)
  with assms show "acc_ok n (hm_add i c acc, rhs)" "acc_gap (hm_add i c acc, rhs) y = acc_gap (acc, rhs) y + rval c * y i"
    by (simp_all add: acc_ok_def acc_gap_def)
qed

lemma rhs_gap:
  assumes "acc_ok n (acc, rhs)" "isfinite c"
  shows "acc_ok n (acc, rhs - c)" "acc_gap (acc, rhs - c) y = acc_gap (acc, rhs) y + rval c"
  using assms by (auto simp: acc_ok_def acc_gap_def isfinite_iff)

lemma composed_coef_finite:
  assumes "isfinite (ct_scale ta)" "crisp (coefs ! row)" "k \<noteq> 0"
  shows "isfinite (composed_coef ta (Fin k) coefs row)"
    "rval (composed_coef ta (Fin k) coefs row) = ct_weight ta / k * rval (coefs ! row)"
proof -
  obtain a b where "coefs ! row = Fin a" "ct_scale ta = Fin b" using assms(1,2) by (auto simp: crisp_def isfinite_iff)
  with assms(3) show "isfinite (composed_coef ta (Fin k) coefs row)"
    "rval (composed_coef ta (Fin k) coefs row) = ct_weight ta / k * rval (coefs ! row)"
    by (simp_all add: composed_coef_def ct_weight_def)
qed

lemma sum_swap: "(\<Sum>a\<leftarrow>as. \<Sum>b\<leftarrow>bs. f a b) = (\<Sum>b\<leftarrow>bs. \<Sum>a\<leftarrow>as. f a b :: real)"
  by (induction as) (simp_all add: sum_list_addf)

lemma composed_sum_gap:
  assumes ready: "composed_ready input" and ok: "ct_ok input ta" and k: "k \<noteq> 0"
    and n: "vi_global_block_start (BuildIndexer input) \<le> n" and s: "acc_ok n s"
  defines "out \<equiv> composed_sum (BuildIndexer input) (si_num_rows input) ta (Fin k) s"
  shows "acc_ok n out \<and> acc_gap out y = acc_gap s y +
    ct_weight ta / k * (\<Sum>row\<leftarrow>ct_rows (si_num_rows input) ta. composed_row ta (at_flat input y) row)"
proof -
  let ?vi = "BuildIndexer input" and ?X = "at_flat input y"
  let ?f = "\<lambda>(var, coefs) row (acc, rhs). if \<not> ct_filter_mask ta ! row then (acc, rhs)
      else let coef = composed_coef ta (Fin k) coefs row
           in case var of None \<Rightarrow> (acc, rhs - coef) | Some v \<Rightarrow> (hm_add (Get ?vi v row) coef acc, rhs)"
  have one: "acc_ok n (fold (?f t) rows s) \<and> acc_gap (fold (?f t) rows s) y = acc_gap s y +
      (\<Sum>row\<leftarrow>filter (\<lambda>row. ct_filter_mask ta ! row) rows. ct_weight ta / k * composed_part row ?X t)"
    if t: "t \<in> set (ct_terms ta)" and "set rows \<subseteq> {0..<si_num_rows input}" "acc_ok n s" for t rows s
    using that(2,3)
  proof (induction rows arbitrary: s)
    case (Cons r rows)
    obtain var coefs where tv: "t = (var, coefs)" by force
    obtain acc rhs where sv: "s = (acc, rhs)" by force
    show ?case
    proof (cases "ct_filter_mask ta ! r")
      case True
      then have r: "r \<in> set (ct_rows (si_num_rows input) ta)" using Cons.prems(1) by (simp add: ct_rows_def)
      have fin: "isfinite (ct_scale ta)" "crisp (coefs ! r)" using ok t r by (auto simp: ct_ok_def tv)
      note coef = composed_coef_finite [OF fin k]
      have get: "Get ?vi v r < n" if "var = Some v" for v
      proof -
        have "v < si_num_decide_vars input" using ok t that by (force simp: ct_ok_def vars_below_def tv)
        then have "Get ?vi v r < vi_global_block_start ?vi"
          using num.at_row_lt [of input v r] ready Cons.prems(1) by (simp add: composed_ready_def)
        with n show ?thesis by simp
      qed
      have "acc_ok n (?f t r s) \<and> acc_gap (?f t r s) y = acc_gap s y + ct_weight ta / k * composed_part r ?X t"
        using hm_add_gap [OF Cons.prems(2) [unfolded sv] coef(1) get] rhs_gap [OF Cons.prems(2) [unfolded sv] coef(1)] coef(2) True
        by (auto simp: tv sv Let_def composed_part_def at_flat_def split: option.splits)
      with Cons.IH [of "?f t r s"] Cons.prems(1) True show ?thesis by simp
    next
      case False
      then have "?f t r s = s" by (simp add: tv sv)
      with Cons.IH [OF _ Cons.prems(2)] Cons.prems(1) False show ?thesis by simp
    qed
  qed simp
  have rows: "set [0..<si_num_rows input] \<subseteq> {0..<si_num_rows input}" by simp
  have "acc_ok n (fold (\<lambda>t. fold (?f t) [0..<si_num_rows input]) ts s) \<and>
      acc_gap (fold (\<lambda>t. fold (?f t) [0..<si_num_rows input]) ts s) y = acc_gap s y +
        (\<Sum>t\<leftarrow>ts. \<Sum>row\<leftarrow>ct_rows (si_num_rows input) ta. ct_weight ta / k * composed_part row ?X t)"
    if "set ts \<subseteq> set (ct_terms ta)" "acc_ok n s" for ts s
    using that
  proof (induction ts arbitrary: s)
    case (Cons t ts)
    have "t \<in> set (ct_terms ta)" using Cons.prems(1) by simp
    note st = one [OF this rows Cons.prems(2)]
    from Cons.IH [OF _ conjunct1 [OF st]] st Cons.prems(1) show ?case by (simp add: ct_rows_def)
  qed simp
  note all = this [OF subset_refl s]
  have sums: "(\<Sum>t\<leftarrow>ct_terms ta. \<Sum>row\<leftarrow>ct_rows (si_num_rows input) ta. w * composed_part row ?X t) =
      w * (\<Sum>row\<leftarrow>ct_rows (si_num_rows input) ta. composed_row ta ?X row)" for w
    unfolding sum_swap [of _ _ "ct_terms ta"] composed_row_def by (simp add: sum_list_const_mult)
  have "out = fold (\<lambda>t. fold (?f t) [0..<si_num_rows input]) (ct_terms ta) s"
    by (simp add: out_def composed_sum_def split_def)
  with all show ?thesis unfolding sums by (simp only:)
qed

text \<open>What a term puts into the row: the column of a MIN/MAX term, the sum or average itself otherwise.\<close>

definition outer_value :: "SolverInput \<Rightarrow> ComposedMinMaxTermData \<Rightarrow> (idx \<Rightarrow> real) \<Rightarrow> real" where
  "outer_value input ta y =
     (if ct_is_minmax ta then y (the (ct_z_idx ta)) else composed_value (si_num_rows input) ta (at_flat input y))"

lemma ComposedAvgDivisor_rows: "ComposedAvgDivisor ta n = length (ct_rows n ta)"
proof -
  have "fold (\<lambda>r cnt. if P r then cnt + 1 else cnt) rows k = k + length (filter P rows)" for P rows and k :: nat
    by (induction rows arbitrary: k) simp_all
  from this [of "\<lambda>r. ct_filter_mask ta ! r" "[0..<n]" 0] show ?thesis by (simp add: ComposedAvgDivisor_def ct_rows_def)
qed

lemma outer_term_gap:
  assumes ready: "composed_ready input" and ok: "ct_ok input ta" and place: "composed_placed input mid ta"
    and s: "acc_ok (columns_end (BuildIndexer input) mid) s"
  defines "out \<equiv> composed_outer_term (BuildIndexer input) (si_num_rows input) ta s"
  shows "acc_ok (columns_end (BuildIndexer input) mid) out \<and> acc_gap out y = acc_gap s y + ct_weight ta * outer_value input ta y"
proof -
  obtain acc rhs where sv: "s = (acc, rhs)" by force
  have n: "vi_global_block_start (BuildIndexer input) \<le> columns_end (BuildIndexer input) mid" by (simp add: columns_end_def)
  note sums = composed_sum_gap [OF ready ok _ n s, of _ y]
  show ?thesis
  proof (cases "ct_is_minmax ta")
    case True
    have "isfinite (ct_scale ta)" using ok by (simp add: ct_ok_def)
    then have "isfinite (Fin (real_of_int (ct_sign ta)) * ct_scale ta)"
      "rval (Fin (real_of_int (ct_sign ta)) * ct_scale ta) = ct_weight ta" by (auto simp: ct_weight_def isfinite_iff)
    with hm_add_gap [OF s [unfolded sv] this(1)] place True show ?thesis
      by (simp add: out_def composed_outer_term_def sv composed_placed_def outer_value_def)
  next
    case False
    let ?rows = "ct_rows (si_num_rows input) ta"
    show ?thesis
    proof (cases "ct_agg_name ta = ''avg''")
      case True
      show ?thesis
      proof (cases "?rows = []")
        case True
        with s False \<open>ct_agg_name ta = ''avg''\<close> show ?thesis
          by (simp add: out_def composed_outer_term_def sv outer_value_def composed_value_def ComposedAvgDivisor_rows)
      next
        case rows: False
        with sums [of "real (length ?rows)"] False True show ?thesis
          by (simp add: out_def composed_outer_term_def sv outer_value_def composed_value_def ComposedAvgDivisor_rows Let_def)
      qed
    next
      case plain: False
      with sums [of 1] False show ?thesis
        by (cases "?rows = []")
          (simp_all add: out_def composed_outer_term_def sv outer_value_def composed_value_def one_dbl_def)
    qed
  qed
qed

lemma outer_row_gap:
  assumes ready: "composed_ready input" and "list_all (ct_ok input) terms" "list_all (composed_placed input mid) terms"
    and "acc_ok (columns_end (BuildIndexer input) mid) s"
  defines "out \<equiv> fold (composed_outer_term (BuildIndexer input) (si_num_rows input)) terms s"
  shows "acc_ok (columns_end (BuildIndexer input) mid) out \<and>
    acc_gap out y = acc_gap s y + (\<Sum>ta\<leftarrow>terms. ct_weight ta * outer_value input ta y)"
  using assms(2-4) unfolding out_def
proof (induction terms arbitrary: s)
  case (Cons ta terms)
  then have "ct_ok input ta" "composed_placed input mid ta" by simp_all
  note step = outer_term_gap [OF ready this Cons.prems(3), of y]
  from Cons.IH [OF _ _ conjunct1 [OF step]] Cons.prems step show ?case by simp
qed simp

lemma outer_row_sat:
  assumes "acc_ok n (acc, rhs)"
  shows "lin_val (map fst (hm_nonzero acc)) (map snd (hm_nonzero acc)) y = Fin (hm_val acc y)"
    and "\<forall>i \<in> set (map fst (hm_nonzero acc)). i < n" and "rhs = Fin (rval rhs)"
proof -
  have "\<forall>(i, c) \<in> set acc. isfinite c" using assms by (auto simp: acc_ok_def)
  then show "lin_val (map fst (hm_nonzero acc)) (map snd (hm_nonzero acc)) y = Fin (hm_val acc y)"
    by (induction acc) (auto simp: hm_nonzero_def hm_val_def lin_val_def zero_dbl_def isfinite_iff)
  show "\<forall>i \<in> set (map fst (hm_nonzero acc)). i < n" "rhs = Fin (rval rhs)"
    using assms by (auto simp: acc_ok_def hm_nonzero_def isfinite_iff)
qed

section \<open>The constraint\<close>

text \<open>
  The direction an easy term may have: the comparison pushes its column towards the extremum. This is
  the classification of the rewrites before; an equality has no easy term.
\<close>

fun easy_in :: "sense \<Rightarrow> ComposedMinMaxTermData \<Rightarrow> bool" where
  "easy_in Le ta = (if ct_is_max ta then 0 \<le> ct_weight ta else ct_weight ta \<le> 0)"
| "easy_in Ge ta = (if ct_is_max ta then ct_weight ta \<le> 0 else 0 \<le> ct_weight ta)"
| "easy_in Eq ta = False"

definition easy_terms_ok :: "sense \<Rightarrow> ComposedMinMaxTermData list \<Rightarrow> bool" where
  "easy_terms_ok s terms \<longleftrightarrow> list_all (\<lambda>ta. ct_is_minmax ta \<and> ct_is_easy ta \<longrightarrow> easy_in s ta) terms"

lemma fills_easy: "list_all2 fills ts us \<Longrightarrow> easy_terms_ok s us = easy_terms_ok s ts"
proof (induction rule: list_all2_induct)
  case (Cons t ts u us)
  have "easy_in s u = easy_in s t"
    using fills_fields(2) [OF Cons(1)] fills_worth(4) [OF Cons(1)] by (cases s) simp_all
  with Cons fills_fields(1,5) [OF Cons(1)] show ?case by (simp add: easy_terms_ok_def)
qed (simp add: easy_terms_ok_def)

lemma fills_total: "list_all2 fills ts us \<Longrightarrow> composed_total n us X = composed_total n ts X"
  by (induction rule: list_all2_induct) (simp_all add: composed_total_def fills_worth(1,4))

definition on_side :: "sense \<Rightarrow> real \<Rightarrow> real \<Rightarrow> bool" where
  "on_side s a b \<longleftrightarrow> (case s of Le \<Rightarrow> a \<le> b | Ge \<Rightarrow> b \<le> a | Eq \<Rightarrow> a = b)"

lemma on_side_sat: "sat_sense s (Fin a) (Fin b) = on_side s a b"
  by (cases s) (simp_all add: on_side_def)

lemma on_side_refl [simp]: "on_side s a a"
  by (cases s) (simp_all add: on_side_def)

lemma on_side_trans: "on_side s a b \<Longrightarrow> on_side s b c \<Longrightarrow> on_side s a c"
  by (cases s) (simp_all add: on_side_def)

lemma on_side_sum: "\<forall>t \<in> set ts. on_side s (f t) (g t) \<Longrightarrow> on_side s (\<Sum>t\<leftarrow>ts. f t) (\<Sum>t\<leftarrow>ts. g t)"
  by (cases s; induction ts) (simp_all add: on_side_def add_mono)

text \<open>The clause's total is on the right side of what its columns give.\<close>

lemma column_side:
  assumes "column_states input ta y" "ct_is_minmax ta \<and> ct_is_easy ta \<longrightarrow> easy_in s ta"
  shows "on_side s (ct_weight ta * composed_value (si_num_rows input) ta (at_flat input y)) (ct_weight ta * outer_value input ta y)"
proof (cases "ct_is_minmax ta \<and> ct_is_easy ta")
  case True
  with assms have "easy_in s ta" "if ct_is_max ta then composed_value (si_num_rows input) ta (at_flat input y) \<le> y (the (ct_z_idx ta))
      else y (the (ct_z_idx ta)) \<le> composed_value (si_num_rows input) ta (at_flat input y)"
    by (simp_all add: column_states_def Let_def)
  with True show ?thesis
    by (cases s; cases "ct_is_max ta")
      (simp_all add: on_side_def outer_value_def mult_left_mono mult_left_mono_neg)
next
  case False
  with assms(1) show ?thesis by (auto simp: column_states_def outer_value_def)
qed

definition composed_outer_row :: "SolverInput \<Rightarrow> coeff_map \<times> dbl \<Rightarrow> sense \<Rightarrow> idx option \<Rightarrow> idx option \<Rightarrow> RawConstraint" where
  "composed_outer_row mid acc s clause removal =
     rc_default\<lparr>rc_indices := map fst (hm_nonzero (fst acc)), rc_coefficients := map snd (hm_nonzero (fst acc)),
       rc_sense := s, rc_rhs := snd acc, rc_kind := USER_PARAMETER, rc_shape := SHARED_SCALAR,
       rc_source_clause_id := clause, rc_removal_group_id := removal,
       rc_repair_group_id := Some (length (si_constraints mid) + length (si_global_constraints mid))\<rparr>"

lemma composed_constraint_run:
  assumes "LinearizeComposedMinMaxConstraint vi terms rhs cmp clause removal var_names policy input = Inr out"
  obtains mid terms' s where "EmitComposedMinMaxAuxiliaries vi terms clause removal var_names policy input = Inr (mid, terms')"
    "composed_sense cmp = Some s"
    "out = append_flat [composed_outer_row mid (fold (composed_outer_term vi (si_num_rows mid)) terms' ([], rhs)) s clause removal] [] mid"
proof -
  from assms obtain mid terms' where emit: "EmitComposedMinMaxAuxiliaries vi terms clause removal var_names policy input = Inr (mid, terms')"
    by (auto simp: LinearizeComposedMinMaxConstraint_def split: sum.splits)
  with assms obtain s where "composed_sense cmp = Some s"
    by (auto simp: LinearizeComposedMinMaxConstraint_def split_beta Let_def split: option.splits)
  with assms emit that show ?thesis
    by (simp add: LinearizeComposedMinMaxConstraint_def composed_outer_row_def append_flat_def split_beta Let_def)
qed

lemma composed_constraint_holds:
  assumes run: "LinearizeComposedMinMaxConstraint (BuildIndexer input) terms (Fin k) cmp clause removal var_names policy input = Inr out"
    and wf: "well_formed (BuildIndexer input) input" and ready: "terms_ready input terms"
    and dir: "composed_sense cmp = Some s" "easy_terms_ok s terms" and x: "mm_point input x" "rows_hold input x"
  shows "(\<exists>x'. extends (BuildIndexer input) input out x x') \<longleftrightarrow>
    sat_sense s (Fin (composed_total (si_num_rows input) terms (at_flat input x))) (Fin k)"
proof -
  let ?vi = "BuildIndexer input" and ?n = "si_num_rows input"
  obtain mid terms' where emit: "EmitComposedMinMaxAuxiliaries ?vi terms clause removal var_names policy input = Inr (mid, terms')"
    and out: "out = append_flat [composed_outer_row mid (fold (composed_outer_term ?vi (si_num_rows mid)) terms' ([], Fin k)) s clause removal] [] mid"
    using composed_constraint_run [OF run] dir(1) by (metis option.inject)
  have state: "composed_state input input" using wf by (simp add: composed_state_def same_box_def)
  have self: "extends ?vi input input x x" using x(2) by (simp add: extends_self wf agree_below_refl)
  note e = Emit_states [OF emit state ready x(1) self]
  have rdy: "composed_ready input" and ok: "list_all (ct_ok input) terms'"
    using ready fills_ok [OF e(2), of input] by (simp_all add: terms_ready_def)
  have rows: "si_num_rows mid = ?n" using e(1) by (simp add: composed_state_def same_box_def)
  let ?acc = "fold (composed_outer_term ?vi ?n) terms' ([], Fin k)"
  have gap: "acc_ok (columns_end ?vi mid) ?acc"
    "acc_gap ?acc y = (\<Sum>ta\<leftarrow>terms'. ct_weight ta * outer_value input ta y) - k" for y
    using outer_row_gap [OF rdy ok e(3), of "([], Fin k)" y] by (simp_all add: acc_ok_def acc_gap_def hm_val_def)
  have sat: "sat_raw (composed_outer_row mid ?acc s clause removal) y \<longleftrightarrow> on_side s (\<Sum>ta\<leftarrow>terms'. ct_weight ta * outer_value input ta y) k" for y
  proof -
    obtain acc rhs where acc: "?acc = (acc, rhs)" by force
    obtain b where b: "rhs = Fin b" using gap(1) by (auto simp: acc acc_ok_def isfinite_iff)
    have "sat_raw (composed_outer_row mid ?acc s clause removal) y \<longleftrightarrow> on_side s (hm_val acc y) b"
      using outer_row_sat(1) [OF gap(1) [unfolded acc], of y]
      by (simp add: sat_raw_def composed_outer_row_def acc b on_side_sat)
    moreover have "hm_val acc y - b = (\<Sum>ta\<leftarrow>terms'. ct_weight ta * outer_value input ta y) - k"
      using gap(2) [of y] by (simp add: acc acc_gap_def b)
    ultimately show ?thesis by (cases s) (auto simp: on_side_def)
  qed
  have ext: "extends ?vi input out x y \<longleftrightarrow> extends ?vi input mid x y \<and> sat_raw (composed_outer_row mid ?acc s clause removal) y" for y
    by (auto simp: out rows extends_def admits_new_def append_flat_def rows_hold_def flat_rows_hold_def column_admits_def)
  have total: "(\<Sum>ta\<leftarrow>terms'. ct_weight ta * composed_value ?n ta (at_flat input y)) = composed_total ?n terms (at_flat input x)"
    if y: "agree_below (columns_end ?vi input) x y" for y
  proof -
    have "agree_below (vi_global_block_start ?vi) x y" using agree_below_less [OF y] by (simp add: columns_end_def)
    note same = value_same_point [OF rdy _ this]
    have "(\<Sum>ta\<leftarrow>terms'. ct_weight ta * composed_value ?n ta (at_flat input y)) = composed_total ?n terms' (at_flat input x)"
      unfolding composed_total_def
      by (intro arg_cong [where f = sum_list] map_cong refl) (use same ok in \<open>simp add: list_all_iff\<close>)
    then show ?thesis by (simp only: fills_total [OF e(2)])
  qed
  have agree: "agree_below (columns_end ?vi input) x y" if "extends ?vi input mid x y" for y
    using that by (simp add: extends_def)
  show ?thesis
  proof
    assume "\<exists>x'. extends ?vi input out x x'"
    then obtain y where y: "extends ?vi input mid x y" "on_side s (\<Sum>ta\<leftarrow>terms'. ct_weight ta * outer_value input ta y) k"
      using ext sat by blast
    have "easy_terms_ok s terms'" using fills_easy [OF e(2)] dir(2) by simp
    then have "\<forall>ta \<in> set terms'. on_side s (ct_weight ta * composed_value ?n ta (at_flat input y)) (ct_weight ta * outer_value input ta y)"
      using e(4) y(1) column_side by (simp add: list_all_iff easy_terms_ok_def)
    from on_side_trans [OF on_side_sum [OF this] y(2)]
    show "sat_sense s (Fin (composed_total ?n terms (at_flat input x))) (Fin k)"
      unfolding total [OF agree [OF y(1)]] on_side_sat .
  next
    assume holds: "sat_sense s (Fin (composed_total ?n terms (at_flat input x))) (Fin k)"
    obtain y where y: "extends ?vi input mid x y"
      "list_all (\<lambda>ta. ct_is_minmax ta \<longrightarrow> y (the (ct_z_idx ta)) = composed_value ?n ta (at_flat input y)) terms'"
      using e(5) by blast
    have "(\<Sum>ta\<leftarrow>terms'. ct_weight ta * outer_value input ta y) = composed_total ?n terms (at_flat input x)"
      unfolding total [OF agree [OF y(1)], symmetric]
      using y(2) by (intro arg_cong [where f = sum_list] map_cong refl) (simp add: outer_value_def list_all_iff)
    with holds y(1) ext sat show "\<exists>x'. extends ?vi input out x x'" by (auto simp: on_side_sat)
  qed
qed

end
