(* ===== verification/ComposedObjective.thy ===== *)
theory ComposedObjective
  imports ComposedClauses
begin

text \<open>
  The composed objective: over the columns it adds, the best value of the objective the pass leaves is
  the sum of what the terms are worth, less the constants of the SUM and AVG terms, which the code drops.
\<close>

section \<open>The columns of the terms\<close>

lemma composed_columns_distinct:
  assumes "composed_columns vi terms mid = (out, es)"
  shows "distinct (map (\<lambda>e. the (ct_z_idx (fst e))) (filter (\<lambda>e. ct_is_minmax (fst e)) es)) \<and>
    (\<forall>e \<in> set es. ct_is_minmax (fst e) \<longrightarrow> columns_end vi mid \<le> the (ct_z_idx (fst e))) \<and>
    (\<exists>k. si_global_obj_coeffs out = si_global_obj_coeffs mid @ replicate k 0)"
  using assms
proof (induction terms arbitrary: mid es)
  case Nil
  then show ?case by (auto intro: exI [of _ 0])
next
  case (Cons ta terms)
  show ?case
  proof (cases "ct_is_minmax ta")
    case False
    then obtain es' where "composed_columns vi terms mid = (out, es')" "es = (ta, ar_default) # es'"
      using Cons.prems by (auto split: prod.splits)
    with Cons.IH False show ?thesis by simp
  next
    case True
    let ?rg = "ComposedTermRange mid (ct_terms ta) (ct_filter_mask ta)"
    obtain m z where add: "AddGlobalContinuousAux vi ?rg 0 (ct_label ta) mid = (m, z)" by force
    then obtain es' where rest: "composed_columns vi terms m = (out, es')" "es = (ta\<lparr>ct_z_idx := Some z\<rparr>, ?rg) # es'"
      using Cons.prems True by (auto split: prod.splits)
    note facts = add_continuous_facts [OF add]
    have z: "z = columns_end vi mid" "columns_end vi m = Suc z" using facts(2,3) by (simp_all add: columns_end_def)
    obtain k where "si_global_obj_coeffs out = si_global_obj_coeffs m @ replicate k 0" using Cons.IH [OF rest(1)] by blast
    then have "si_global_obj_coeffs out = si_global_obj_coeffs mid @ replicate (Suc k) 0"
      by (simp add: add_continuous_objs [OF add])
    moreover have "z \<notin> (\<lambda>e. the (ct_z_idx (fst e))) ` {e \<in> set es'. ct_is_minmax (fst e)}"
      using Cons.IH [OF rest(1)] z(2) by force
    ultimately show ?thesis
      using Cons.IH [OF rest(1)] z True by (fastforce simp: rest(2))
  qed
qed

lemma Emit_slots:
  assumes run: "EmitComposedMinMaxAuxiliaries (BuildIndexer input) terms clause removal var_names policy mid = Inr (out, terms')"
    and mid: "composed_state input mid" and ready: "terms_ready input terms" and x: "mm_point input x"
  shows "distinct (map (\<lambda>ta. the (ct_z_idx ta)) (filter ct_is_minmax terms'))"
    and "\<exists>k. si_global_obj_coeffs out = si_global_obj_coeffs mid @ replicate k 0"
proof -
  obtain m es where cols: "composed_columns (BuildIndexer input) terms mid = (m, es)" by force
  with run have links: "fold_res (composed_link (BuildIndexer input) clause removal var_names policy) es m = Inr out"
    and terms': "terms' = map fst es"
    by (auto simp: EmitComposedMinMaxAuxiliaries_def split: sum.splits)
  note c = composed_columns_facts [OF cols mid] and d = composed_columns_distinct [OF cols]
  show "distinct (map (\<lambda>ta. the (ct_z_idx ta)) (filter ct_is_minmax terms'))"
    using d by (simp add: terms' filter_map comp_def)
  have "\<forall>e \<in> set es. ct_ok input (fst e)"
    using c fills_ok [of terms "map fst es" input] ready by (simp add: terms_ready_def list_all_iff)
  then have "\<exists>k. si_global_obj_coeffs out = si_global_obj_coeffs m @ replicate k 0"
    using composed_links [OF links _ _ _ _ x] c ready unfolding terms_ready_def by blast
  with d show "\<exists>k. si_global_obj_coeffs out = si_global_obj_coeffs mid @ replicate k 0"
    by (auto simp: replicate_add [symmetric])
qed

section \<open>Row coefficients\<close>

definition coef_rows_ok :: "idx set \<Rightarrow> nat \<Rightarrow> (idx \<times> dbl list) list \<Rightarrow> bool" where
  "coef_rows_ok S n m \<longleftrightarrow> (\<forall>(v, cs) \<in> set m. v \<in> S \<and> length cs = n \<and> list_all isfinite cs)"

definition rows_val :: "nat \<Rightarrow> (idx \<Rightarrow> idx \<Rightarrow> real) \<Rightarrow> (idx \<times> dbl list) list \<Rightarrow> real" where
  "rows_val n X m = (\<Sum>(v, cs)\<leftarrow>m. \<Sum>r\<leftarrow>[0..<n]. rval (cs ! r) * X v r)"

lemma coef_rows_update_val:
  assumes m: "coef_rows_ok S n m" and v: "v \<in> S"
    and f: "\<And>cs. length cs = n \<Longrightarrow> list_all isfinite cs \<Longrightarrow> length (f cs) = n \<and> list_all isfinite (f cs) \<and>
      (\<Sum>r\<leftarrow>[0..<n]. rval (f cs ! r) * X v r) = (\<Sum>r\<leftarrow>[0..<n]. rval (cs ! r) * X v r) + d"
  shows "coef_rows_ok S n (coef_rows_update v n f m) \<and> rows_val n X (coef_rows_update v n f m) = rows_val n X m + d"
  using m
proof (induction m)
  case Nil
  have "length (replicate n (0 :: dbl)) = n" "list_all isfinite (replicate n (0 :: dbl))"
    by (simp_all add: list_all_length zero_dbl_def)
  note g = f [OF this]
  have "(\<Sum>r\<leftarrow>[0..<n]. rval (replicate n 0 ! r) * X v r) = (\<Sum>r\<leftarrow>[0..<n]. 0)"
    by (intro arg_cong [where f = sum_list] map_cong refl) (simp add: zero_dbl_def)
  with g v show ?case by (simp add: coef_rows_ok_def rows_val_def)
next
  case (Cons e m)
  obtain u cs where e: "e = (u, cs)" by force
  have rest: "coef_rows_ok S n m" using Cons.prems by (simp add: coef_rows_ok_def)
  have cs: "length cs = n" "list_all isfinite cs" "u \<in> S" using Cons.prems by (simp_all add: coef_rows_ok_def e)
  have "(if cs = [] then replicate n 0 else cs) = cs" using cs(1) by auto
  then show ?case
    using Cons.IH [OF rest] f [OF cs(1,2)] cs rest
    by (cases "u = v") (auto simp: e coef_rows_ok_def rows_val_def)
qed

lemma row_adds:
  assumes "length cs = n" "list_all isfinite cs" "set rows \<subseteq> {0..<n}" "\<forall>r \<in> set rows. isfinite (c r)"
  defines "out \<equiv> fold (\<lambda>r dst. dst[r := dst ! r + c r]) rows cs"
  shows "length out = n \<and> list_all isfinite out \<and>
    (\<Sum>r\<leftarrow>[0..<n]. rval (out ! r) * X r) = (\<Sum>r\<leftarrow>[0..<n]. rval (cs ! r) * X r) + (\<Sum>r\<leftarrow>rows. rval (c r) * X r)"
  using assms(1-4) unfolding out_def
proof (induction rows arbitrary: cs)
  case (Cons r rows)
  have r: "r < length cs" "isfinite (c r)" using Cons.prems by simp_all
  note one = vec_add_val [OF Cons.prems(2) r(2,1), of X] vec_add_finite [OF Cons.prems(2) r(2), of r]
  have "length (vec_add r (c r) cs) = n" using Cons.prems(1) by simp
  from Cons.IH [OF this one(2)] one(1) Cons.prems show ?case
    by (simp add: vec_add_def vec_val_def interv_sum_list_conv_sum_set_nat atLeast0LessThan)
qed simp

text \<open>The part of a term that depends on the point: the objective keeps only that of a SUM or AVG.\<close>

abbreviation origin :: "idx \<Rightarrow> idx \<Rightarrow> real" where
  "origin \<equiv> (\<lambda>v r. 0)"

definition varying_part :: "idx \<Rightarrow> (idx \<Rightarrow> idx \<Rightarrow> real) \<Rightarrow> idx option \<times> dbl list \<Rightarrow> real" where
  "varying_part row X t = composed_part row X t - composed_part row origin t"

lemma varying_part_cases:
  "varying_part row X (None, coefs) = 0" "varying_part row X (Some v, coefs) = rval (coefs ! row) * X v row"
  by (simp_all add: varying_part_def composed_part_def)

lemma fold_if: "fold (\<lambda>x s. if \<not> P x then s else g x s) xs s = fold g (filter P xs) s"
  by (induction xs arbitrary: s) simp_all

definition term_vars_in :: "idx set \<Rightarrow> ComposedMinMaxTermData \<Rightarrow> bool" where
  "term_vars_in S ta \<longleftrightarrow> ct_is_minmax ta \<or> (\<forall>(var, coefs) \<in> set (ct_terms ta). \<forall>v. var = Some v \<longrightarrow> v \<in> S)"

lemma composed_objective_sum_val:
  assumes ok: "ct_ok input ta" and S: "term_vars_in S ta" "\<not> ct_is_minmax ta" and k: "k \<noteq> 0" and m: "coef_rows_ok S (si_num_rows input) m"
  defines "out \<equiv> composed_objective_sum (si_num_rows input) ta (Fin k) m"
  shows "coef_rows_ok S (si_num_rows input) out \<and> rows_val (si_num_rows input) X out =
    rows_val (si_num_rows input) X m + ct_weight ta / k *
      (\<Sum>row\<leftarrow>ct_rows (si_num_rows input) ta. composed_row ta X row - composed_row ta origin row)"
proof -
  let ?n = "si_num_rows input"
  let ?rows = "ct_rows ?n ta"
  let ?g = "\<lambda>coefs dst. fold (\<lambda>row dst. dst[row := dst ! row + composed_coef ta (Fin k) coefs row]) ?rows dst"
  let ?f = "\<lambda>(var, coefs) m. case var of None \<Rightarrow> m | Some v \<Rightarrow> coef_rows_update v ?n (?g coefs) m"
  have one: "coef_rows_ok S ?n (?f t m) \<and> rows_val ?n X (?f t m) = rows_val ?n X m + (\<Sum>row\<leftarrow>?rows. ct_weight ta / k * varying_part row X t)"
    if t: "t \<in> set (ct_terms ta)" and m: "coef_rows_ok S ?n m" for t m
  proof -
    obtain var coefs where tv: "t = (var, coefs)" by force
    have crisp: "crisp (coefs ! row)" if "row \<in> set ?rows" for row using ok t that by (auto simp: ct_ok_def tv)
    have scale: "isfinite (ct_scale ta)" using ok by (simp add: ct_ok_def)
    note coef = composed_coef_finite [OF scale crisp k]
    show ?thesis
    proof (cases "var")
      case None
      with m show ?thesis by (simp add: tv varying_part_cases)
    next
      case (Some v)
      have v: "v \<in> S" using S t Some by (auto simp: term_vars_in_def tv)
      have rows: "set ?rows \<subseteq> {0..<?n}" by (auto simp: ct_rows_def)
      have fin: "\<forall>r \<in> set ?rows. isfinite (composed_coef ta (Fin k) coefs r)" using coef(1) by blast
      have d: "(\<Sum>r\<leftarrow>?rows. rval (composed_coef ta (Fin k) coefs r) * X v r) = (\<Sum>row\<leftarrow>?rows. ct_weight ta / k * varying_part row X t)"
        by (rule arg_cong [where f = sum_list], rule map_cong [OF refl]) (simp add: tv Some varying_part_cases coef(2))
      show ?thesis
        unfolding d [symmetric] using coef_rows_update_val [OF m v row_adds [OF _ _ rows fin]] by (simp add: tv Some)
    qed
  qed
  have all: "coef_rows_ok S ?n (fold ?f ts m) \<and> rows_val ?n X (fold ?f ts m) = rows_val ?n X m +
      (\<Sum>t\<leftarrow>ts. \<Sum>row\<leftarrow>?rows. ct_weight ta / k * varying_part row X t)"
    if "set ts \<subseteq> set (ct_terms ta)" "coef_rows_ok S ?n m" for ts m
    using that
  proof (induction ts arbitrary: m)
    case (Cons t ts)
    have "t \<in> set (ct_terms ta)" using Cons.prems(1) by simp
    note st = one [OF this Cons.prems(2)]
    from Cons.IH [OF _ conjunct1 [OF st]] st Cons.prems(1) show ?case by simp
  qed simp
  have sums: "(\<Sum>t\<leftarrow>ct_terms ta. \<Sum>row\<leftarrow>?rows. w * varying_part row X t) =
      w * (\<Sum>row\<leftarrow>?rows. composed_row ta X row - composed_row ta origin row)" for w
    unfolding sum_swap [of _ _ "ct_terms ta"] varying_part_def composed_row_def
    by (simp add: sum_list_const_mult sum_list_subtractf)
  have "out = fold ?f (ct_terms ta) m"
    unfolding out_def composed_objective_sum_def fold_if ct_rows_def by (rule refl)
  with all [OF subset_refl m] show ?thesis unfolding sums by (simp only:)
qed

section \<open>The objective's terms\<close>

text \<open>What one term is worth to the objective: a MIN or MAX in full, a SUM or AVG less its constant.\<close>

definition objective_part :: "nat \<Rightarrow> ComposedMinMaxTermData \<Rightarrow> (idx \<Rightarrow> idx \<Rightarrow> real) \<Rightarrow> real" where
  "objective_part n ta X =
     (if ct_is_minmax ta then composed_value n ta X else composed_value n ta X - composed_value n ta origin)"

definition composed_objective_worth :: "nat \<Rightarrow> ComposedMinMaxTermData list \<Rightarrow> (idx \<Rightarrow> idx \<Rightarrow> real) \<Rightarrow> real" where
  "composed_objective_worth n terms X = (\<Sum>ta\<leftarrow>terms. ct_weight ta * objective_part n ta X)"

definition objective_outer :: "SolverInput \<Rightarrow> ComposedMinMaxTermData \<Rightarrow> (idx \<Rightarrow> real) \<Rightarrow> real" where
  "objective_outer input ta y =
     (if ct_is_minmax ta then y (the (ct_z_idx ta)) else objective_part (si_num_rows input) ta (at_flat input y))"

definition slots_val :: "VarIndexer \<Rightarrow> SolverInput \<Rightarrow> (idx \<Rightarrow> real) \<Rightarrow> real" where
  "slots_val vi mid y =
     (\<Sum>g<length (si_global_obj_coeffs mid). rval (si_global_obj_coeffs mid ! g) * y (vi_global_block_start vi + g))"

lemma slot_update:
  assumes "g < length cs" "cs ! g = 0"
  shows "(\<Sum>h<length (cs[g := w]). rval (cs[g := w] ! h) * f h) = (\<Sum>h<length cs. rval (cs ! h) * f h) + rval w * f g"
proof -
  have "(\<Sum>h<length cs. rval (cs[g := w] ! h) * f h) = (\<Sum>h<length cs. rval (cs ! h) * f h + (if h = g then rval w * f g else 0))"
    using assms by (intro sum.cong) (auto simp: nth_list_update zero_dbl_def)
  with assms(1) show ?thesis by (simp add: sum.distrib)
qed

text \<open>The state the fold is in: some slots still free, the rest of the input as the links left it.\<close>

abbreviation slot_of :: "VarIndexer \<Rightarrow> ComposedMinMaxTermData \<Rightarrow> nat" where
  "slot_of vi ta \<equiv> the (ct_z_idx ta) - vi_global_block_start vi"

lemma objective_terms_val:
  assumes "list_all (ct_ok input) terms \<and> list_all (term_vars_in S) terms" "list_all (composed_placed input mid) terms"
    and "distinct (map (\<lambda>ta. the (ct_z_idx ta)) (filter ct_is_minmax terms))"
    and "length (si_global_obj_coeffs mid) = si_num_global_vars mid" "si_num_global_vars input \<le> si_num_global_vars mid"
    and "\<forall>ta \<in> set terms. ct_is_minmax ta \<longrightarrow> si_global_obj_coeffs mid ! slot_of (BuildIndexer input) ta = 0"
    and "coef_rows_ok S (si_num_rows input) m"
    and "fold (composed_objective_term (BuildIndexer input) (si_num_rows input)) terms (mid, m) = (out, m')"
  shows "coef_rows_ok S (si_num_rows input) m' \<and>
    (\<exists>cs. out = mid\<lparr>si_global_obj_coeffs := cs\<rparr> \<and> length cs = si_num_global_vars mid) \<and>
    rows_val (si_num_rows input) (at_flat input y) m' + slots_val (BuildIndexer input) out y =
      rows_val (si_num_rows input) (at_flat input y) m + slots_val (BuildIndexer input) mid y +
      (\<Sum>ta\<leftarrow>terms. ct_weight ta * objective_outer input ta y)"
  using assms
proof (induction terms arbitrary: mid m)
  case Nil
  then have out: "out = mid" "m' = m" by simp_all
  show ?case
    unfolding out using Nil(4,7) by (intro conjI exI [of _ "si_global_obj_coeffs mid"]) simp_all
next
  case (Cons ta terms)
  let ?vi = "BuildIndexer input" and ?n = "si_num_rows input" and ?X = "at_flat input y"
  obtain mid1 m1 where step: "composed_objective_term ?vi ?n ta (mid, m) = (mid1, m1)" by force
  have rest: "fold (composed_objective_term ?vi ?n) terms (mid1, m1) = (out, m')" using Cons.prems(8) step by simp
  have ok: "ct_ok input ta" "term_vars_in S ta" and dist: "distinct (map (\<lambda>ta. the (ct_z_idx ta)) (filter ct_is_minmax terms))"
    using Cons.prems(1,3) by (simp_all split: if_splits)
  have one: "coef_rows_ok S ?n m1 \<and> (\<exists>cs. mid1 = mid\<lparr>si_global_obj_coeffs := cs\<rparr> \<and> length cs = si_num_global_vars mid \<and>
      (\<forall>tb \<in> set terms. ct_is_minmax tb \<longrightarrow> cs ! slot_of ?vi tb = 0)) \<and>
      rows_val ?n ?X m1 + slots_val ?vi mid1 y = rows_val ?n ?X m + slots_val ?vi mid y + ct_weight ta * objective_outer input ta y"
  proof (cases "ct_is_minmax ta")
    case True
    let ?g = "slot_of ?vi ta" and ?w = "Fin (real_of_int (ct_sign ta)) * ct_scale ta"
    have z: "columns_end ?vi input \<le> the (ct_z_idx ta)" "the (ct_z_idx ta) < columns_end ?vi mid"
      using Cons.prems(2) True by (simp_all add: composed_placed_def)
    then have g: "?g < length (si_global_obj_coeffs mid)" "vi_global_block_start ?vi + ?g = the (ct_z_idx ta)"
      using Cons.prems(4) by (auto simp: columns_end_def)
    have w: "rval ?w = ct_weight ta" using ok(1) by (auto simp: ct_ok_def ct_weight_def isfinite_iff)
    have eqs: "mid1 = mid\<lparr>si_global_obj_coeffs := (si_global_obj_coeffs mid)[?g := ?w]\<rparr>" "m1 = m"
      using step True by (simp_all add: composed_objective_term_def)
    have "slots_val ?vi mid1 y = slots_val ?vi mid y + ct_weight ta * y (the (ct_z_idx ta))"
      using slot_update [OF g(1), of ?w "\<lambda>h. y (vi_global_block_start ?vi + h)"] Cons.prems(6) True g(2) w
      by (simp add: slots_val_def eqs(1))
    moreover have "(si_global_obj_coeffs mid)[?g := ?w] ! slot_of ?vi tb = 0" if tb: "tb \<in> set terms" "ct_is_minmax tb" for tb
    proof -
      have "columns_end ?vi input \<le> the (ct_z_idx tb)" using Cons.prems(2) tb by (auto simp: composed_placed_def list_all_iff)
      moreover have "the (ct_z_idx tb) \<in> (\<lambda>x. the (ct_z_idx x)) ` {x \<in> set terms. ct_is_minmax x}"
        using tb by (intro imageI) simp
      then have "the (ct_z_idx tb) \<noteq> the (ct_z_idx ta)" using Cons.prems(3) True by auto
      ultimately have "slot_of ?vi tb \<noteq> ?g" using z(1) by (simp add: columns_end_def)
      then show ?thesis using Cons.prems(6) tb by simp
    qed
    ultimately show ?thesis using Cons.prems(4,7) True eqs by (auto simp: objective_outer_def)
  next
    case False
    let ?rows = "ct_rows ?n ta"
    note sums = composed_objective_sum_val [OF ok False _ Cons.prems(7), of _ ?X]
    have diff: "(\<Sum>row\<leftarrow>?rows. composed_row ta ?X row - composed_row ta origin row) =
        (\<Sum>row\<leftarrow>?rows. composed_row ta ?X row) - (\<Sum>row\<leftarrow>?rows. composed_row ta origin row)" by (rule sum_list_subtractf)
    have "mid1 = mid \<and> coef_rows_ok S ?n m1 \<and>
        rows_val ?n ?X m1 = rows_val ?n ?X m + ct_weight ta * objective_part ?n ta ?X"
    proof (cases "ct_agg_name ta = ''avg''")
      case True
      show ?thesis
      proof (cases "?rows = []")
        case True
        with step False \<open>ct_agg_name ta = ''avg''\<close> Cons.prems(7) show ?thesis
          by (auto simp: composed_objective_term_def objective_part_def composed_value_def ComposedAvgDivisor_rows)
      next
        case rows: False
        with sums [of "real (length ?rows)"] step False True show ?thesis
          by (auto simp: composed_objective_term_def objective_part_def composed_value_def ComposedAvgDivisor_rows Let_def
              diff diff_divide_distrib [symmetric])
      qed
    next
      case plain: False
      with sums [of 1] step False show ?thesis
        by (cases "?rows = []")
          (auto simp: composed_objective_term_def objective_part_def composed_value_def one_dbl_def diff)
    qed
    then show ?thesis using Cons.prems(4,6) False by (auto simp: objective_outer_def intro: exI [of _ "si_global_obj_coeffs mid"])
  qed
  then obtain cs where mid1: "mid1 = mid\<lparr>si_global_obj_coeffs := cs\<rparr>" "length cs = si_num_global_vars mid"
    "\<forall>tb \<in> set terms. ct_is_minmax tb \<longrightarrow> cs ! slot_of ?vi tb = 0" by blast
  have "list_all (composed_placed input mid1) terms" using Cons.prems(2) by (simp add: composed_placed_def [abs_def] mid1(1) columns_end_def)
  from Cons.IH [OF _ this dist _ _ _ _ rest] one mid1 Cons.prems(1,5)
  show ?case by (auto simp: algebra_simps)
qed

section \<open>The pass\<close>

definition per_row_vars :: "SolverInput \<Rightarrow> idx set" where
  "per_row_vars input = {v. scope_of input v \<noteq> SCALAR}"

lemma written_objective:
  assumes rows: "coef_rows_ok (per_row_vars input) (si_num_rows input) m" and box: "si_num_rows out = si_num_rows input"
    and scopes: "si_variable_scopes out = si_variable_scopes input"
    and vars: "si_objective_variable_indices out = map (\<lambda>(v, cs). Some v) m"
    and cols: "si_objective_coefficients out = map (\<lambda>(v, cs). FromVector cs) m"
    and len: "length (si_global_obj_coeffs out) = si_num_global_vars out"
  shows "objective_at input out y = rows_val (si_num_rows input) (at_flat input y) m + slots_val (BuildIndexer input) out y"
proof -
  have "linear_meaning out (at_flat input y) t = (case m ! t of (v, cs) \<Rightarrow>
      \<Sum>r\<leftarrow>[0..<si_num_rows input]. rval (cs ! r) * at_flat input y v r)" if t: "t < length m" for t
  proof -
    obtain v cs where vc: "m ! t = (v, cs)" by force
    with t rows nth_mem [OF t] have "scope_of input v \<noteq> SCALAR" "length cs = si_num_rows input"
      by (auto simp: coef_rows_ok_def per_row_vars_def)
    moreover have "scope_of out v = scope_of input v" by (simp add: scope_of_def scopes)
    moreover have "logical_size (FromVector cs) = length cs" by (simp add: FromVector_def)
    ultimately show ?thesis using t by (simp add: linear_meaning_def vars cols vc box Let_def)
  qed
  then have "(\<Sum>t\<leftarrow>[0..<length m]. linear_meaning out (at_flat input y) t) = (\<Sum>t\<leftarrow>[0..<length m]. (case m ! t of (v, cs) \<Rightarrow>
      \<Sum>r\<leftarrow>[0..<si_num_rows input]. rval (cs ! r) * at_flat input y v r))"
    by (intro arg_cong [where f = sum_list] map_cong refl) simp
  also have "\<dots> = rows_val (si_num_rows input) (at_flat input y) m"
    unfolding rows_val_def by (rule arg_cong [where f = sum_list], rule nth_equalityI) simp_all
  finally show ?thesis
    by (simp add: objective_at_def vars global_meaning_list [OF len] slots_val_def)
qed

lemma objective_part_agree:
  assumes "composed_ready input" "ct_ok input ta" "agree_below (vi_global_block_start (BuildIndexer input)) x y"
  shows "objective_part (si_num_rows input) ta (at_flat input y) = objective_part (si_num_rows input) ta (at_flat input x)"
  unfolding objective_part_def value_same_point [OF assms] by (rule refl)

lemma fills_vars: "list_all2 fills ts us \<Longrightarrow> list_all (term_vars_in S) us = list_all (term_vars_in S) ts"
proof (induction rule: list_all2_induct)
  case (Cons t ts u us)
  have "term_vars_in S u = term_vars_in S t" unfolding term_vars_in_def fills_fields [OF Cons(1)] by (rule refl)
  with Cons show ?case by simp
qed simp

lemma fills_objective: "list_all2 fills ts us \<Longrightarrow> composed_objective_worth n us X = composed_objective_worth n ts X"
proof (induction rule: list_all2_induct)
  case (Cons t ts u us)
  have "objective_part n u X = objective_part n t X"
    unfolding objective_part_def fills_fields(1) [OF Cons(1)] fills_worth(1) [OF Cons(1)] by (rule refl)
  with Cons fills_worth(4) [OF Cons(1)] show ?case by (simp add: composed_objective_worth_def)
qed (simp add: composed_objective_worth_def)

text \<open>
  What the passes before establish: fresh columns that cost nothing yet, the classification of easy terms
  by the direction of the optimization, and no query-wide variable in a SUM or AVG term.
\<close>

definition composed_objective_ok :: "SolverInput \<Rightarrow> ComposedMinMaxTermData list \<Rightarrow> bool" where
  "composed_objective_ok input terms \<longleftrightarrow> terms_ready input terms \<and>
     easy_terms_ok (if si_sense input = MAXIMIZE then Ge else Le) terms \<and>
     list_all (term_vars_in (per_row_vars input)) terms \<and>
     si_global_obj_coeffs input = replicate (si_num_global_vars input) 0"

lemma composed_objective_run:
  assumes run: "LinearizeComposedMinMaxObjective (BuildIndexer input) terms var_names policy input = Inr out"
    and wf: "well_formed (BuildIndexer input) input" and ok: "composed_objective_ok input terms"
    and x: "mm_point input x" "rows_hold input x"
  obtains mid terms' where "EmitComposedMinMaxAuxiliaries (BuildIndexer input) terms None None var_names policy (clear_objective input) = Inr (mid, terms')"
    "composed_state input (clear_objective input)" "extends (BuildIndexer input) input (clear_objective input) x x"
    "extends (BuildIndexer input) input out = extends (BuildIndexer input) input mid"
    "\<And>y. objective_at input out y = (\<Sum>ta\<leftarrow>terms'. ct_weight ta * objective_outer input ta y)"
proof -
  let ?vi = "BuildIndexer input" and ?n = "si_num_rows input"
  obtain mid terms' where emit: "EmitComposedMinMaxAuxiliaries ?vi terms None None var_names policy (clear_objective input) = Inr (mid, terms')"
    using run by (auto simp: LinearizeComposedMinMaxObjective_def split: sum.splits)
  have ready: "terms_ready input terms" and free: "si_global_obj_coeffs input = replicate (si_num_global_vars input) 0"
    using ok by (simp_all add: composed_objective_ok_def)
  have state: "composed_state input (clear_objective input)" using wf by (simp add: composed_state_def) (simp add: same_box_def)
  have self: "extends ?vi input (clear_objective input) x x"
    using x(2) by (auto simp: extends_def admits_new_def agree_below_refl)
  note e = Emit_states(1-3) [OF emit state ready x(1) self] and slots = Emit_slots [OF emit state ready x(1)]
  obtain k where objs: "si_global_obj_coeffs mid = replicate (si_num_global_vars input + k) 0"
    using slots(2) by (auto simp: free replicate_add)
  have ok': "list_all (ct_ok input) terms' \<and> list_all (term_vars_in (per_row_vars input)) terms'"
    using ready ok fills_ok [OF e(2), of input] fills_vars [OF e(2)] by (simp add: terms_ready_def composed_objective_ok_def)
  obtain mid' m where fold: "fold (composed_objective_term ?vi ?n) terms' (mid, []) = (mid', m)" by force
  have "globals_ok mid" using e(1) by (simp add: composed_state_def well_formed_def)
  then have len: "length (si_global_obj_coeffs mid) = si_num_global_vars mid" by (simp add: globals_ok_def Let_def)
  have "\<forall>ta \<in> set terms'. ct_is_minmax ta \<longrightarrow> si_global_obj_coeffs mid ! slot_of ?vi ta = 0"
  proof (intro ballI impI)
    fix ta assume "ta \<in> set terms'" "ct_is_minmax ta"
    then have "columns_end ?vi input \<le> the (ct_z_idx ta)" "the (ct_z_idx ta) < columns_end ?vi mid"
      using e(3) by (auto simp: list_all_iff composed_placed_def)
    then have "slot_of ?vi ta < length (si_global_obj_coeffs mid)" by (auto simp: len columns_end_def)
    then show "si_global_obj_coeffs mid ! slot_of ?vi ta = 0" by (simp add: objs)
  qed
  moreover have "si_num_global_vars input \<le> si_num_global_vars mid" using e(1) by simp
  moreover have "coef_rows_ok (per_row_vars input) ?n []" by (simp add: coef_rows_ok_def)
  ultimately have all: "coef_rows_ok (per_row_vars input) ?n m \<and> (\<exists>cs. mid' = mid\<lparr>si_global_obj_coeffs := cs\<rparr> \<and> length cs = si_num_global_vars mid) \<and>
      rows_val ?n (at_flat input y) m + slots_val ?vi mid' y = rows_val ?n (at_flat input y) [] + slots_val ?vi mid y +
        (\<Sum>ta\<leftarrow>terms'. ct_weight ta * objective_outer input ta y)" for y
    using objective_terms_val [OF ok' e(3) slots(1) len _ _ _ fold] by blast
  then obtain cs where mid': "mid' = mid\<lparr>si_global_obj_coeffs := cs\<rparr>" "length cs = si_num_global_vars mid" by blast
  have rows: "si_num_rows mid = ?n" "base_of mid = base_of (clear_objective input)"
    using e(1) by (simp_all add: composed_state_def same_box_def)
  have none: "si_objective_variable_indices mid = []" "si_objective_coefficients mid = []" "si_variable_scopes mid = si_variable_scopes input"
    using base_of_objective [OF rows(2)] base_of_eqD [OF rows(2)] by (simp_all add: clear_objective_def)
  have out: "out = mid'\<lparr>si_objective_variable_indices := map (\<lambda>(v, cs). Some v) m, si_objective_coefficients := map (\<lambda>(v, cs). FromVector cs) m\<rparr>"
    using run none by (simp add: LinearizeComposedMinMaxObjective_def emit rows(1) fold mid'(1))
  have "slots_val ?vi mid y = 0" for y
    unfolding slots_val_def by (rule sum.neutral) (simp add: objs zero_dbl_def)
  moreover have "slots_val ?vi out y = slots_val ?vi mid' y" for y by (simp add: out slots_val_def)
  moreover have "objective_at input out y = rows_val ?n (at_flat input y) m + slots_val ?vi out y" for y
    using all [of y] mid' none(3) rows(1) by (intro written_objective) (auto simp: out)
  ultimately have "objective_at input out y = (\<Sum>ta\<leftarrow>terms'. ct_weight ta * objective_outer input ta y)" for y
    using all [of y] by (simp add: rows_val_def)
  moreover have "extends ?vi input out = extends ?vi input mid"
    by (simp add: fun_eq_iff extends_def out mid'(1) admits_new_def column_admits_def rows_hold_def flat_rows_hold_def)
  ultimately show ?thesis using that [OF emit state self] by blast
qed

lemma composed_objective_best:
  assumes run: "LinearizeComposedMinMaxObjective (BuildIndexer input) terms var_names policy input = Inr out"
    and wf: "well_formed (BuildIndexer input) input" and ok: "composed_objective_ok input terms"
    and x: "mm_point input x" "rows_hold input x"
  shows "best_over (si_sense input = MAXIMIZE) (objective_at input out) (extends (BuildIndexer input) input out x)
    (composed_objective_worth (si_num_rows input) terms (at_flat input x))"
proof -
  let ?vi = "BuildIndexer input" and ?n = "si_num_rows input" and ?s = "if si_sense input = MAXIMIZE then Ge else Le"
  obtain mid terms' where emit: "EmitComposedMinMaxAuxiliaries ?vi terms None None var_names policy (clear_objective input) = Inr (mid, terms')"
    and start: "composed_state input (clear_objective input)" "extends ?vi input (clear_objective input) x x"
    and ext: "extends ?vi input out = extends ?vi input mid"
    and obj: "\<And>y. objective_at input out y = (\<Sum>ta\<leftarrow>terms'. ct_weight ta * objective_outer input ta y)"
    using composed_objective_run [OF run wf ok x] by blast
  have ready: "terms_ready input terms" using ok by (simp add: composed_objective_ok_def)
  note e = Emit_states [OF emit start(1) ready x(1) start(2)]
  have rdy: "composed_ready input" and oks: "list_all (ct_ok input) terms'" and easy: "easy_terms_ok ?s terms'"
    using ready ok fills_ok [OF e(2), of input] fills_easy [OF e(2)] by (simp_all add: terms_ready_def composed_objective_ok_def)
  have worth: "(\<Sum>ta\<leftarrow>terms'. ct_weight ta * objective_part ?n ta (at_flat input y)) = composed_objective_worth ?n terms (at_flat input x)"
    if "extends ?vi input mid x y" for y
  proof -
    have "agree_below (vi_global_block_start ?vi) x y"
      using that agree_below_less [of "columns_end ?vi input" x y "vi_global_block_start ?vi"] by (simp add: extends_def columns_end_def)
    note same = objective_part_agree [OF rdy _ this]
    have "(\<Sum>ta\<leftarrow>terms'. ct_weight ta * objective_part ?n ta (at_flat input y)) = composed_objective_worth ?n terms' (at_flat input x)"
      unfolding composed_objective_worth_def
      by (intro arg_cong [where f = sum_list] map_cong refl) (use same oks in \<open>simp add: list_all_iff\<close>)
    then show ?thesis by (simp only: fills_objective [OF e(2)])
  qed
  have side: "no_better (si_sense input = MAXIMIZE) a b = on_side ?s b a" for a b by (simp add: no_better_def on_side_def)
  show ?thesis
    unfolding best_over_def ext obj side
  proof
    obtain y where y: "extends ?vi input mid x y"
      "list_all (\<lambda>ta. ct_is_minmax ta \<longrightarrow> y (the (ct_z_idx ta)) = composed_value ?n ta (at_flat input y)) terms'"
      using e(5) by blast
    have "(\<Sum>ta\<leftarrow>terms'. ct_weight ta * objective_outer input ta y) = composed_objective_worth ?n terms (at_flat input x)"
      unfolding worth [OF y(1), symmetric] using y(2)
      by (intro arg_cong [where f = sum_list] map_cong refl) (simp add: objective_outer_def objective_part_def list_all_iff)
    with y(1) show "\<exists>x'. extends ?vi input mid x x' \<and>
        (\<Sum>ta\<leftarrow>terms'. ct_weight ta * objective_outer input ta x') = composed_objective_worth ?n terms (at_flat input x)" by blast
  next
    have each: "on_side ?s (ct_weight ta * objective_part ?n ta (at_flat input y)) (ct_weight ta * objective_outer input ta y)"
      if y: "extends ?vi input mid x y" and ta: "ta \<in> set terms'" for y ta
    proof (cases "ct_is_minmax ta")
      case True
      have "column_states input ta y" "ct_is_minmax ta \<and> ct_is_easy ta \<longrightarrow> easy_in ?s ta"
        using e(4) [OF y] easy ta by (simp_all add: list_all_iff easy_terms_ok_def)
      from column_side [OF this] True show ?thesis by (simp add: objective_outer_def objective_part_def outer_value_def)
    qed (simp add: objective_outer_def)
    have "on_side ?s (\<Sum>ta\<leftarrow>terms'. ct_weight ta * objective_part ?n ta (at_flat input y))
        (\<Sum>ta\<leftarrow>terms'. ct_weight ta * objective_outer input ta y)" if "extends ?vi input mid x y" for y
      by (intro on_side_sum ballI each that)
    then show "\<forall>x'. extends ?vi input mid x x' \<longrightarrow>
        on_side ?s (composed_objective_worth ?n terms (at_flat input x)) (\<Sum>ta\<leftarrow>terms'. ct_weight ta * objective_outer input ta x')"
      by (simp add: worth)
  qed
qed

end
