(* ===== verification/ComposedDemo.thy ===== *)
theory ComposedDemo
  imports ComposedObjective
begin

text \<open>
  \<open>SUM(x) + MAX(x) <= 8\<close> and \<open>MINIMIZE SUM(x) + MAX(x)\<close> over two rows of an integer variable in
  \<open>[0, 10]\<close>: the hypotheses of the composed theorems hold there.
\<close>

definition demo_sum_max :: SolverInput where
  "demo_sum_max = si_default\<lparr>si_num_rows := 2, si_num_decide_vars := 1, si_variable_types := [INTEGER],
     si_lower_bounds := [Fin 0], si_upper_bounds := [Fin 10], si_sense := MINIMIZE\<rparr>"

definition demo_sum_term :: ComposedMinMaxTermData where
  "demo_sum_term = ct_default\<lparr>ct_agg_name := ''sum'', ct_filter_mask := [True, True],
     ct_inner_terms := [Some 0], ct_per_term_coefs := [[Fin 1, Fin 1]]\<rparr>"

definition demo_max_term :: ComposedMinMaxTermData where
  "demo_max_term = demo_sum_term\<lparr>ct_is_minmax := True, ct_agg_name := ''max'', ct_label := ''MAX(x)''\<rparr>"

lemma demo_sm_fields:
  "si_num_rows demo_sum_max = 2" "si_num_decide_vars demo_sum_max = 1" "si_lower_bounds demo_sum_max = [Fin 0]"
  "si_upper_bounds demo_sum_max = [Fin 10]" "si_sense demo_sum_max = MINIMIZE" "si_num_global_vars demo_sum_max = 0"
  "si_global_obj_coeffs demo_sum_max = []" "si_entity_mappings demo_sum_max = []" "si_variable_scopes demo_sum_max = []"
  by (simp_all add: demo_sum_max_def si_default_def)

lemma demo_term_fields:
  "\<not> ct_is_minmax demo_sum_term" "ct_is_minmax demo_max_term" "ct_agg_name demo_sum_term = ''sum''"
  "ct_agg_name demo_max_term = ''max''" "ct_is_easy demo_max_term"
  "ct_weight demo_sum_term = 1" "ct_weight demo_max_term = 1" "ct_scale demo_sum_term = 1" "ct_scale demo_max_term = 1"
  "ct_terms demo_sum_term = [(Some 0, [Fin 1, Fin 1])]" "ct_terms demo_max_term = [(Some 0, [Fin 1, Fin 1])]"
  "ct_rows 2 demo_sum_term = [0, 1]" "ct_rows 2 demo_max_term = [0, 1]"
  by (simp_all add: demo_sum_term_def demo_max_term_def ct_default_def ct_weight_def one_dbl_def ct_rows_def numeral_2_eq_2)

lemma demo_sm_scope: "scope_of demo_sum_max v = ROW"
  by (simp add: scope_of_def demo_sm_fields)

lemma demo_sm_indexable: "indexable demo_sum_max"
  by (simp add: indexable_def demo_sm_scope demo_sm_fields)

lemma demo_sm_get: "r < 2 \<Longrightarrow> Get (BuildIndexer demo_sum_max) 0 r = r"
  by (simp add: Get_instance_of InstanceColumn_cases demo_sm_scope demo_sm_fields instance_of_def row_vars_def vars_of_def)

lemma demo_sm_wf: "well_formed (BuildIndexer demo_sum_max) demo_sum_max"
  by (simp add: well_formed_def globals_ok_def input_columns_def demo_sum_max_def si_default_def)

lemma demo_sm_rows: "rows_hold demo_sum_max x"
  by (simp add: rows_hold_def flat_rows_hold_def demo_sum_max_def si_default_def)

lemma demo_sm_ready: "terms_ready demo_sum_max [demo_sum_term, demo_max_term]"
  by (simp add: terms_ready_def composed_ready_def demo_sm_indexable demo_sm_fields ct_ok_def demo_term_fields vars_below_def
      one_dbl_def crisp_def negligible_def AddComposedRowTerms_def add_negated_def AddColumn_def mr_default_def)

definition demo_sm_point :: "real \<Rightarrow> real \<Rightarrow> idx \<Rightarrow> real" where
  "demo_sm_point a b c = (if c = 0 then a else b)"

lemma demo_sm_at: "r < 2 \<Longrightarrow> at_flat demo_sum_max (demo_sm_point a b) 0 r = (if r = 0 then a else b)"
  using demo_sm_get by (simp add: at_flat_def demo_sm_point_def)

lemma demo_sm_box: "0 \<le> a \<Longrightarrow> a \<le> 10 \<Longrightarrow> 0 \<le> b \<Longrightarrow> b \<le> 10 \<Longrightarrow> mm_point demo_sum_max (demo_sm_point a b)"
  using demo_sm_at by (auto simp: mm_point_def demo_sm_indexable demo_sm_fields boxed_def)

lemma demo_sm_row: "row < 2 \<Longrightarrow> ta \<in> {demo_sum_term, demo_max_term} \<Longrightarrow>
    composed_row ta (at_flat demo_sum_max (demo_sm_point a b)) row = (if row = 0 then a else b)"
  by (auto simp: composed_row_def demo_term_fields composed_part_def demo_sm_at less_Suc_eq numeral_2_eq_2)

lemma demo_sm_total: "composed_total 2 [demo_sum_term, demo_max_term] (at_flat demo_sum_max (demo_sm_point a b)) = a + b + max a b"
  by (simp add: composed_total_def composed_value_def demo_term_fields demo_sm_row extremum_def)

lemma demo_sm_emit:
  obtains mid ts where "EmitComposedMinMaxAuxiliaries vi [demo_sum_term, demo_max_term] clause removal [] policy input = Inr (mid, ts)"
proof -
  let ?rg = "ComposedTermRange input (ct_terms demo_max_term) (ct_filter_mask demo_max_term)"
  obtain m z where add: "AddGlobalContinuousAux vi ?rg 0 (ct_label demo_max_term) input = (m, z)" by force
  let ?es = "[(demo_sum_term, ar_default), (demo_max_term\<lparr>ct_z_idx := Some z\<rparr>, ?rg)]"
  have cols: "composed_columns vi [demo_sum_term, demo_max_term] input = (m, ?es)" using add by (simp add: demo_term_fields Let_def)
  have "\<exists>t. composed_link vi clause removal [] policy (ta, rg) s = Inr t" if "ct_is_easy ta \<or> \<not> ct_is_minmax ta" for ta rg s
    using EmitExtremumLink_total that by (auto simp: composed_link_def)
  then have "\<exists>t. fold_res (composed_link vi clause removal [] policy) ?es m = Inr t"
    using fold_res_total_ball [of ?es "\<lambda>s. True" "composed_link vi clause removal [] policy" m]
    by (simp add: demo_term_fields del: fold_res.simps)
  then show ?thesis using that by (auto simp: EmitComposedMinMaxAuxiliaries_def cols simp del: fold_res.simps composed_columns.simps)
qed

section \<open>Properties\<close>

text \<open>
  C19. A composed clause of sums, averages, minima and maxima that is not strict is stated exactly: a
  point of the decision box that meets the rows emitted before extends to the new columns and rows
  precisely when the total of the clause compares with the bound as the clause says. The terms
  classified easy must be those the comparison drives.
\<close>

theorem composed_constraint_exact:
  assumes "LinearizeComposedMinMaxConstraint (BuildIndexer input) terms (Fin k) cmp clause removal var_names policy input = Inr out"
    and "well_formed (BuildIndexer input) input" "terms_ready input terms" "cmp \<in> {COMPARE_EQUAL, COMPARE_LESSTHANOREQUALTO, COMPARE_GREATERTHANOREQUALTO}"
    and "composed_sense cmp = Some s" "easy_terms_ok s terms" and "mm_point input x" "rows_hold input x"
  shows "(\<exists>x'. extends (BuildIndexer input) input out x x') \<longleftrightarrow>
    sat_cmp cmp (Fin (composed_total (si_num_rows input) terms (at_flat input x))) (Fin k)"
  unfolding composed_constraint_holds [OF assms(1-3,5-8)]
  using assms(4,5) by auto

lemma demo_sm_clause:
  assumes "composed_sense cmp = Some Le"
  obtains out where "LinearizeComposedMinMaxConstraint (BuildIndexer demo_sum_max) [demo_sum_term, demo_max_term] (Fin 8)
    cmp None None [] \<lparr>np_available = False, np_forced = False\<rparr> demo_sum_max = Inr out"
proof -
  obtain mid ts where "EmitComposedMinMaxAuxiliaries (BuildIndexer demo_sum_max) [demo_sum_term, demo_max_term] None None []
      \<lparr>np_available = False, np_forced = False\<rparr> demo_sum_max = Inr (mid, ts)"
    by (rule demo_sm_emit)
  then have "\<exists>out. LinearizeComposedMinMaxConstraint (BuildIndexer demo_sum_max) [demo_sum_term, demo_max_term] (Fin 8)
      cmp None None [] \<lparr>np_available = False, np_forced = False\<rparr> demo_sum_max = Inr out"
    using assms by (simp add: LinearizeComposedMinMaxConstraint_def split_beta Let_def)
  then show ?thesis using that by blast
qed

lemma demo_sm_easy: "easy_terms_ok Le [demo_sum_term, demo_max_term]"
  by (simp add: easy_terms_ok_def demo_term_fields)

lemma composed_constraint_exact_witness:
  "\<exists>out. LinearizeComposedMinMaxConstraint (BuildIndexer demo_sum_max) [demo_sum_term, demo_max_term] (Fin 8)
     COMPARE_LESSTHANOREQUALTO None None [] \<lparr>np_available = False, np_forced = False\<rparr> demo_sum_max = Inr out \<and>
     (\<exists>x'. extends (BuildIndexer demo_sum_max) demo_sum_max out (demo_sm_point 3 2) x') \<and>
     \<not> (\<exists>x'. extends (BuildIndexer demo_sum_max) demo_sum_max out (demo_sm_point 3 4) x')"
proof -
  obtain out where run: "LinearizeComposedMinMaxConstraint (BuildIndexer demo_sum_max) [demo_sum_term, demo_max_term] (Fin 8)
     COMPARE_LESSTHANOREQUALTO None None [] \<lparr>np_available = False, np_forced = False\<rparr> demo_sum_max = Inr out"
    by (rule demo_sm_clause [of COMPARE_LESSTHANOREQUALTO]) simp_all
  note exact = composed_constraint_exact [OF run demo_sm_wf demo_sm_ready _ _ demo_sm_easy demo_sm_box demo_sm_rows]
  from run exact [of 3 2] exact [of 3 4] show ?thesis by (auto simp: demo_sm_total demo_sm_fields)
qed

text \<open>
  A strict composed clause admits its bound: a point whose total is exactly the bound extends to the
  rows that are built, although the comparison of the clause fails there.
\<close>

theorem composed_strict_admits_bound:
  assumes "LinearizeComposedMinMaxConstraint (BuildIndexer input) terms (Fin k) cmp clause removal var_names policy input = Inr out"
    and "well_formed (BuildIndexer input) input" "terms_ready input terms" "cmp \<in> {COMPARE_LESSTHAN, COMPARE_GREATERTHAN}"
    and "composed_sense cmp = Some s" "easy_terms_ok s terms" and "mm_point input x" "rows_hold input x"
    and "composed_total (si_num_rows input) terms (at_flat input x) = k"
  shows "(\<exists>x'. extends (BuildIndexer input) input out x x') \<and>
    \<not> sat_cmp cmp (Fin (composed_total (si_num_rows input) terms (at_flat input x))) (Fin k)"
  unfolding composed_constraint_holds [OF assms(1-3,5-8)]
  using assms(4,5,9) by auto

lemma composed_strict_admits_bound_witness:
  "\<exists>out x'. LinearizeComposedMinMaxConstraint (BuildIndexer demo_sum_max) [demo_sum_term, demo_max_term] (Fin 8)
     COMPARE_LESSTHAN None None [] \<lparr>np_available = False, np_forced = False\<rparr> demo_sum_max = Inr out \<and>
     extends (BuildIndexer demo_sum_max) demo_sum_max out (demo_sm_point 3 2) x'"
proof -
  obtain out where run: "LinearizeComposedMinMaxConstraint (BuildIndexer demo_sum_max) [demo_sum_term, demo_max_term] (Fin 8)
     COMPARE_LESSTHAN None None [] \<lparr>np_available = False, np_forced = False\<rparr> demo_sum_max = Inr out"
    by (rule demo_sm_clause [of COMPARE_LESSTHAN]) simp_all
  from composed_strict_admits_bound [OF run demo_sm_wf demo_sm_ready _ _ demo_sm_easy demo_sm_box demo_sm_rows, of 3 2] run
  show ?thesis by (auto simp: demo_sm_total demo_sm_fields)
qed

text \<open>
  C20. A composed objective is worth its terms: at every point of the decision box that meets the rows
  emitted before, the best value the objective the pass leaves can reach over the columns it adds is
  attained and is the weighted sum of the terms' minima, maxima, sums and averages, less the constants
  of the sums and averages.
\<close>

theorem composed_objective_exact:
  assumes "LinearizeComposedMinMaxObjective (BuildIndexer input) terms var_names policy input = Inr out"
    and "well_formed (BuildIndexer input) input" "composed_objective_ok input terms" "mm_point input x" "rows_hold input x"
  shows "best_over (si_sense input = MAXIMIZE) (objective_at input out) (extends (BuildIndexer input) input out x)
    (composed_objective_worth (si_num_rows input) terms (at_flat input x))"
  by (rule composed_objective_best [OF assms])

lemma composed_objective_exact_witness:
  "\<exists>out. LinearizeComposedMinMaxObjective (BuildIndexer demo_sum_max) [demo_sum_term, demo_max_term] []
       \<lparr>np_available = False, np_forced = False\<rparr> demo_sum_max = Inr out \<and>
     best_over False (objective_at demo_sum_max out) (extends (BuildIndexer demo_sum_max) demo_sum_max out (demo_sm_point 3 2)) 8"
proof -
  obtain out where run: "LinearizeComposedMinMaxObjective (BuildIndexer demo_sum_max) [demo_sum_term, demo_max_term] []
      \<lparr>np_available = False, np_forced = False\<rparr> demo_sum_max = Inr out"
    by (rule demo_sm_emit [of "BuildIndexer demo_sum_max" None None "\<lparr>np_available = False, np_forced = False\<rparr>" "clear_objective demo_sum_max"])
      (simp add: LinearizeComposedMinMaxObjective_def split_beta Let_def)
  have "composed_objective_ok demo_sum_max [demo_sum_term, demo_max_term]"
    using demo_sm_ready
    by (simp add: composed_objective_ok_def demo_sm_fields easy_terms_ok_def demo_term_fields term_vars_in_def per_row_vars_def demo_sm_scope)
  moreover have "composed_objective_worth 2 [demo_sum_term, demo_max_term] (at_flat demo_sum_max (demo_sm_point 3 2)) = 8"
    by (simp add: composed_objective_worth_def objective_part_def composed_value_def demo_term_fields demo_sm_row extremum_def)
      (simp add: composed_row_def composed_part_def demo_term_fields)
  ultimately show ?thesis
    using composed_objective_exact [OF run demo_sm_wf _ demo_sm_box demo_sm_rows, of 3 2] run by (auto simp: demo_sm_fields)
qed

end
