(* ===== verification/Elastic.thy ===== *)
theory Elastic
  imports SolverModels
begin

text \<open>
  The elastic program of the infeasibility diagnosis, from \<open>BuildElasticModel\<close> in
  \<open>decidb/diagnostics/decide_diagnostic_engines.cpp\<close>: every row that carries an editable bound is
  loosened by slack columns, one group of slacks per block of rows that share one bound in the
  query. Prefixes: \<open>bs_\<close> BlockSlackRef, \<open>em_\<close> ElasticModel.

  The \<open>std::map\<close> of blocks is a function from keys to row lists, the empty list where a key is
  absent. The debug assertion \<open>assert_blamable_row\<close> is left out.
\<close>

section \<open>Data\<close>

datatype ElasticRepairTier = DATA_OFFSET | EDITABLE_LOOSEN

record BlockSlackRef =
  bs_rows :: "idx list"
  bs_pos_col :: idx
  bs_neg_col :: "idx option"
  bs_sense :: sense
  bs_tier :: ElasticRepairTier
  bs_weight :: dbl
  bs_quadratic :: bool

record ElasticModel =
  em_model :: SolverModel
  em_slacks :: "BlockSlackRef list"

section \<open>Which rows are loosened, and how they fold\<close>

definition slackable :: "ConstraintProvenance \<Rightarrow> bool" where
  "slackable p \<longleftrightarrow> cp_removal_group_id p = None \<and> IsRelaxableForElastic (cp_kind p)"

definition is_data_offset :: "ConstraintProvenance \<Rightarrow> bool" where
  "is_data_offset p \<longleftrightarrow> cp_shape p = PER_ROW_DATA \<and> cp_repair_group_id p \<noteq> None"

definition folds :: "bool \<Rightarrow> ConstraintProvenance \<Rightarrow> bool" where
  "folds fold_data p \<longleftrightarrow>
     (if cp_repair_group_id p = None then False
      else if cp_shape p = SHARED_SCALAR then True
      else fold_data \<and> cp_shape p = PER_ROW_DATA)"

definition block_key :: "bool \<Rightarrow> ConstraintProvenance \<Rightarrow> idx option \<times> idx option" where
  "block_key fold_data p =
     (if fold_data then (cp_repair_group_id p, Some 0) else (cp_repair_group_id p, cp_group_key p))"

definition collect_block :: "bool \<Rightarrow> ModelConstraint list \<Rightarrow> idx \<Rightarrow>
    (idx option \<times> idx option \<Rightarrow> idx list) \<Rightarrow> (idx option \<times> idx option \<Rightarrow> idx list)" where
  "collect_block fold_data rows r blocks =
     (let p = mc_provenance (rows ! r)
      in if \<not> slackable p \<or> \<not> folds fold_data p then blocks
         else blocks(block_key fold_data p := blocks (block_key fold_data p) @ [r]))"

definition collect_blocks :: "bool \<Rightarrow> ModelConstraint list \<Rightarrow> (idx option \<times> idx option \<Rightarrow> idx list)" where
  "collect_blocks fold_data rows = fold (collect_block fold_data rows) [0..<length rows] (\<lambda>_. [])"

section \<open>The weights\<close>

fun std_sqrt :: "dbl \<Rightarrow> dbl" where
  "std_sqrt (Fin r) = (if r < 0 then NaN else Fin (sqrt r))"
| "std_sqrt PInf = PInf"
| "std_sqrt NInf = NaN"
| "std_sqrt NaN = NaN"

definition rms_norm :: "dbl list \<Rightarrow> dbl" where
  "rms_norm coeffs =
     (if coeffs = [] then 0
      else std_sqrt (fold (\<lambda>v s. s + v * v) coeffs 0 / Fin (real (length coeffs))))"

text \<open>\<open>ref_norm\<close> with \<open>have_ref\<close>: \<open>None\<close> while no row has been considered.\<close>

definition consider_ref :: "dbl \<Rightarrow> dbl option \<Rightarrow> dbl option" where
  "consider_ref n ref = (if n > 0 \<and> (case ref of None \<Rightarrow> True | Some r \<Rightarrow> n < r) then Some n else ref)"

definition linear_ref :: "ModelConstraint \<Rightarrow> dbl option \<Rightarrow> dbl option" where
  "linear_ref row ref =
     (if slackable (mc_provenance row) \<and> \<not> is_data_offset (mc_provenance row)
      then consider_ref (rms_norm (mc_coefficients row)) ref else ref)"

definition quadratic_ref :: "QuadraticConstraint \<Rightarrow> dbl option \<Rightarrow> dbl option" where
  "quadratic_ref qc ref =
     (if slackable (qc_provenance qc) then consider_ref (rms_norm (qc_linear_coefficients qc)) ref else ref)"

definition ref_norm :: "SolverModel \<Rightarrow> dbl" where
  "ref_norm m =
     (case fold quadratic_ref (sm_quadratic_constraints m) (fold linear_ref (sm_constraints m) None) of
        None \<Rightarrow> 1 | Some r \<Rightarrow> r)"

definition editable_weight :: "dbl \<Rightarrow> dbl \<Rightarrow> dbl" where
  "editable_weight ref row_norm = (if row_norm > 0 then ref / row_norm else 1)"

section \<open>The transformation\<close>

definition drop_objective :: "SolverModel \<Rightarrow> SolverModel" where
  "drop_objective m = m\<lparr>
     sm_obj_coeffs := map (\<lambda>_. 0) (sm_obj_coeffs m), sm_q_rows := [], sm_q_cols := [], sm_q_vals := [],
     sm_has_quadratic_obj := False, sm_nonconvex_quadratic := False, sm_maximize := False\<rparr>"

definition add_slack :: "SolverModel \<Rightarrow> idx \<times> SolverModel" where
  "add_slack m = (sm_num_vars m, m\<lparr>
     sm_col_lower := sm_col_lower m @ [0], sm_col_upper := sm_col_upper m @ [Fin (10 ^ 30)],
     sm_is_integer := sm_is_integer m @ [False], sm_is_binary := sm_is_binary m @ [False],
     sm_obj_coeffs := sm_obj_coeffs m @ [0], sm_num_vars := sm_num_vars m + 1\<rparr>)"

text \<open>The columns of a block: one for an inequality, a pair for an equation.\<close>

definition add_slacks :: "sense \<Rightarrow> SolverModel \<Rightarrow> idx \<times> idx option \<times> SolverModel" where
  "add_slacks s m =
     (let (pos_col, m) = add_slack m
      in if s = Eq then let (neg_col, m) = add_slack m in (pos_col, Some neg_col, m)
         else (pos_col, None, m))"

text \<open>A row is looked at as it stands, so that its own sense decides the signs.\<close>

definition wire_row :: "idx \<Rightarrow> idx option \<Rightarrow> ModelConstraint \<Rightarrow> ModelConstraint" where
  "wire_row pos_col neg_col row =
     (let row1 = row\<lparr>mc_indices := mc_indices row @ [pos_col],
                     mc_coefficients := mc_coefficients row @ [if mc_sense row = Ge then 1 else - 1]\<rparr>
      in if mc_sense row = Eq
         then row1\<lparr>mc_indices := mc_indices row1 @ [the neg_col],
                   mc_coefficients := mc_coefficients row1 @ [1]\<rparr>
         else row1)"

definition wire :: "idx \<Rightarrow> idx option \<Rightarrow> idx \<Rightarrow> SolverModel \<Rightarrow> SolverModel" where
  "wire pos_col neg_col r m =
     m\<lparr>sm_constraints := (sm_constraints m)[r := wire_row pos_col neg_col (sm_constraints m ! r)]\<rparr>"

definition add_block :: "idx list \<Rightarrow> sense \<Rightarrow> bool \<Rightarrow> dbl \<Rightarrow> ElasticModel \<Rightarrow> ElasticModel" where
  "add_block rows s data_offset w em =
     (let (pos_col, neg_col, m) = add_slacks s (em_model em)
      in \<lparr>em_model = fold (wire pos_col neg_col) rows m,
          em_slacks = em_slacks em @ [\<lparr>
            bs_rows = rows, bs_pos_col = pos_col, bs_neg_col = neg_col, bs_sense = s,
            bs_tier = (if data_offset then DATA_OFFSET else EDITABLE_LOOSEN),
            bs_weight = (if data_offset then 1 else w), bs_quadratic = False\<rparr>]\<rparr>)"

definition elastic_row :: "bool \<Rightarrow> dbl \<Rightarrow> dbl list \<Rightarrow> (idx option \<times> idx option \<Rightarrow> idx list) \<Rightarrow> idx \<Rightarrow>
    ElasticModel \<Rightarrow> ElasticModel" where
  "elastic_row fold_data ref lin_norm blocks r em =
     (let rows = sm_constraints (em_model em); p = mc_provenance (rows ! r)
      in if \<not> slackable p then em
         else if folds fold_data p
         then let grp = blocks (block_key fold_data p); front = hd grp
              in if front \<noteq> r then em
                 else add_block grp (mc_sense (rows ! front)) (is_data_offset p)
                        (editable_weight ref (lin_norm ! front)) em
         else add_block [r] (mc_sense (rows ! r)) (is_data_offset p) (editable_weight ref (lin_norm ! r)) em)"

definition wire_qc :: "idx \<Rightarrow> idx option \<Rightarrow> QuadraticConstraint \<Rightarrow> QuadraticConstraint" where
  "wire_qc pos_col neg_col qc =
     (let qc1 = qc\<lparr>qc_linear_indices := qc_linear_indices qc @ [pos_col],
                   qc_linear_coefficients := qc_linear_coefficients qc @ [if qc_sense qc = Ge then 1 else - 1]\<rparr>
      in if qc_sense qc = Eq
         then qc1\<lparr>qc_linear_indices := qc_linear_indices qc1 @ [the neg_col],
                  qc_linear_coefficients := qc_linear_coefficients qc1 @ [1]\<rparr>
         else qc1)"

definition elastic_quadratic :: "dbl \<Rightarrow> dbl list \<Rightarrow> idx \<Rightarrow> ElasticModel \<Rightarrow> ElasticModel" where
  "elastic_quadratic ref qc_norm qr em =
     (let qc = sm_quadratic_constraints (em_model em) ! qr
      in if \<not> slackable (qc_provenance qc) then em
         else let (pos_col, neg_col, m) = add_slacks (qc_sense qc) (em_model em)
              in \<lparr>em_model = m\<lparr>sm_quadratic_constraints :=
                    (sm_quadratic_constraints m)[qr := wire_qc pos_col neg_col qc]\<rparr>,
                  em_slacks = em_slacks em @ [\<lparr>
                    bs_rows = [qr], bs_pos_col = pos_col, bs_neg_col = neg_col, bs_sense = qc_sense qc,
                    bs_tier = EDITABLE_LOOSEN, bs_weight = editable_weight ref (qc_norm ! qr),
                    bs_quadratic = True\<rparr>]\<rparr>)"

definition BuildElasticModel :: "SolverModel \<Rightarrow> string \<Rightarrow> ElasticModel" where
  "BuildElasticModel base slack_scope =
     (let fold_data = slack_scope \<noteq> ''expanded'';
          em = \<lparr>em_model = drop_objective base, em_slacks = []\<rparr>;
          lin_norm = map (\<lambda>row. rms_norm (mc_coefficients row)) (sm_constraints base);
          qc_norm = map (\<lambda>qc. rms_norm (qc_linear_coefficients qc)) (sm_quadratic_constraints base);
          ref = ref_norm base;
          blocks = collect_blocks fold_data (sm_constraints base);
          em = fold (elastic_row fold_data ref lin_norm blocks) [0..<length (sm_constraints base)] em
      in fold (elastic_quadratic ref qc_norm) [0..<length (sm_quadratic_constraints base)] em)"

end
