(* ===== verification/ElasticExact.thy ===== *)
theory ElasticExact
  imports Elastic
begin

text \<open>
  What the elastic program admits. A block of slacks has an \<open>amount\<close> by which it moves the bound of
  each of its rows; \<open>edited\<close> is the base model with the bounds so moved, the query after the edits
  that the diagnosis reports. The elastic program is the edited model.
\<close>

section \<open>The edited model\<close>

definition bs_cols :: "BlockSlackRef \<Rightarrow> idx list" where
  "bs_cols b = bs_pos_col b # (case bs_neg_col b of None \<Rightarrow> [] | Some n \<Rightarrow> [n])"

definition amount :: "BlockSlackRef \<Rightarrow> (idx \<Rightarrow> real) \<Rightarrow> real" where
  "amount b y = y (bs_pos_col b) - (case bs_neg_col b of None \<Rightarrow> 0 | Some n \<Rightarrow> y n)"

definition moved :: "sense \<Rightarrow> dbl \<Rightarrow> real \<Rightarrow> dbl" where
  "moved s rhs a = (if s = Ge then rhs - Fin a else rhs + Fin a)"

definition block_at :: "BlockSlackRef list \<Rightarrow> bool \<Rightarrow> idx \<Rightarrow> BlockSlackRef option" where
  "block_at slacks quadratic r = List.find (\<lambda>b. bs_quadratic b = quadratic \<and> r \<in> set (bs_rows b)) slacks"

definition edited_mc :: "BlockSlackRef option \<Rightarrow> (idx \<Rightarrow> real) \<Rightarrow> ModelConstraint \<Rightarrow> ModelConstraint" where
  "edited_mc b y mc = (case b of None \<Rightarrow> mc
     | Some b \<Rightarrow> mc\<lparr>mc_rhs := moved (mc_sense mc) (mc_rhs mc) (amount b y)\<rparr>)"

definition edited_qc :: "BlockSlackRef option \<Rightarrow> (idx \<Rightarrow> real) \<Rightarrow> QuadraticConstraint \<Rightarrow> QuadraticConstraint" where
  "edited_qc b y qc = (case b of None \<Rightarrow> qc
     | Some b \<Rightarrow> qc\<lparr>qc_rhs := moved (qc_sense qc) (qc_rhs qc) (amount b y)\<rparr>)"

definition edited :: "SolverModel \<Rightarrow> BlockSlackRef list \<Rightarrow> (idx \<Rightarrow> real) \<Rightarrow> SolverModel" where
  "edited base slacks y = base\<lparr>
     sm_constraints := map (\<lambda>r. edited_mc (block_at slacks False r) y (sm_constraints base ! r))
                         [0..<length (sm_constraints base)],
     sm_quadratic_constraints := map (\<lambda>r. edited_qc (block_at slacks True r) y (sm_quadratic_constraints base ! r))
                         [0..<length (sm_quadratic_constraints base)]\<rparr>"

definition slacks_nonneg :: "BlockSlackRef list \<Rightarrow> (idx \<Rightarrow> real) \<Rightarrow> bool" where
  "slacks_nonneg slacks y \<longleftrightarrow> (\<forall>b \<in> set slacks. \<forall>c \<in> set (bs_cols b). 0 \<le> y c)"

section \<open>A slack on the left is a moved bound\<close>

lemma moved_sense:
  "sat_sense s (l + (if s = Ge then 1 else - 1) * Fin p + (if s = Eq then Fin q else 0)) rhs \<longleftrightarrow>
     sat_sense s l (moved s rhs (p - (if s = Eq then q else 0)))"
  by (cases s; cases l; cases rhs) (auto simp: moved_def deq_def dbl_arith)

lemma wired_mc:
  assumes "length (mc_indices mc) = length (mc_coefficients mc)" "neg \<noteq> None \<longleftrightarrow> mc_sense mc = Eq"
  shows "sat_mc (wire_row pos neg mc) y \<longleftrightarrow>
    sat_mc (mc\<lparr>mc_rhs := moved (mc_sense mc) (mc_rhs mc) (y pos - (case neg of None \<Rightarrow> 0 | Some n \<Rightarrow> y n))\<rparr>) y"
proof -
  have "mc_rhs (wire_row pos neg mc) = mc_rhs mc" "mc_sense (wire_row pos neg mc) = mc_sense mc"
    by (simp_all add: wire_row_def Let_def)
  moreover have "lin_val (mc_indices (wire_row pos neg mc)) (mc_coefficients (wire_row pos neg mc)) y =
      lin_val (mc_indices mc) (mc_coefficients mc) y + (if mc_sense mc = Ge then 1 else - 1) * Fin (y pos) +
      (if mc_sense mc = Eq then Fin (y (the neg)) else 0)"
    using assms(1) by (simp add: wire_row_def Let_def lin_val_append add.assoc)
  ultimately show ?thesis
    unfolding sat_mc_def using moved_sense [of "mc_sense mc" _ "y pos" "y (the neg)" "mc_rhs mc"] assms(2)
    by (cases neg) (simp_all split: if_splits)
qed

lemma wired_qc:
  assumes "length (qc_linear_indices qc) = length (qc_linear_coefficients qc)" "neg \<noteq> None \<longleftrightarrow> qc_sense qc = Eq"
  shows "sat_qc (wire_qc pos neg qc) y \<longleftrightarrow>
    sat_qc (qc\<lparr>qc_rhs := moved (qc_sense qc) (qc_rhs qc) (y pos - (case neg of None \<Rightarrow> 0 | Some n \<Rightarrow> y n))\<rparr>) y"
proof -
  let ?q = "quad_val (qc_q_rows qc) (qc_q_cols qc) (qc_q_coefficients qc) y"
  have "qc_rhs (wire_qc pos neg qc) = qc_rhs qc" "qc_sense (wire_qc pos neg qc) = qc_sense qc"
    "qc_q_rows (wire_qc pos neg qc) = qc_q_rows qc" "qc_q_cols (wire_qc pos neg qc) = qc_q_cols qc"
    "qc_q_coefficients (wire_qc pos neg qc) = qc_q_coefficients qc"
    by (simp_all add: wire_qc_def Let_def)
  moreover have "lin_val (qc_linear_indices (wire_qc pos neg qc)) (qc_linear_coefficients (wire_qc pos neg qc)) y + ?q =
      (lin_val (qc_linear_indices qc) (qc_linear_coefficients qc) y + ?q) + (if qc_sense qc = Ge then 1 else - 1) * Fin (y pos) +
      (if qc_sense qc = Eq then Fin (y (the neg)) else 0)"
    using assms(1) by (simp add: wire_qc_def Let_def lin_val_append ac_simps)
  ultimately show ?thesis
    unfolding sat_qc_def using moved_sense [of "qc_sense qc" _ "y pos" "y (the neg)" "qc_rhs qc"] assms(2)
    by (cases neg) (simp_all split: if_splits)
qed

section \<open>The state of the loops\<close>

definition wired :: "BlockSlackRef option \<Rightarrow> ModelConstraint \<Rightarrow> ModelConstraint" where
  "wired b mc = (case b of None \<Rightarrow> mc | Some b \<Rightarrow> wire_row (bs_pos_col b) (bs_neg_col b) mc)"

definition wired_q :: "BlockSlackRef option \<Rightarrow> QuadraticConstraint \<Rightarrow> QuadraticConstraint" where
  "wired_q b qc = (case b of None \<Rightarrow> qc | Some b \<Rightarrow> wire_qc (bs_pos_col b) (bs_neg_col b) qc)"

definition block_ok :: "SolverModel \<Rightarrow> BlockSlackRef \<Rightarrow> bool" where
  "block_ok base b \<longleftrightarrow> (bs_neg_col b \<noteq> None \<longleftrightarrow> bs_sense b = Eq) \<and> bs_rows b \<noteq> [] \<and>
     (\<forall>r \<in> set (bs_rows b).
        if bs_quadratic b
        then r < length (sm_quadratic_constraints base) \<and> qc_sense (sm_quadratic_constraints base ! r) = bs_sense b
        else r < length (sm_constraints base) \<and> mc_sense (sm_constraints base ! r) = bs_sense b)"

text \<open>\<open>d\<close> slack columns have been appended and wired into the rows of the blocks so far.\<close>

definition elastic_model :: "SolverModel \<Rightarrow> BlockSlackRef list \<Rightarrow> nat \<Rightarrow> SolverModel" where
  "elastic_model base S d = (drop_objective base)\<lparr>
     sm_num_vars := sm_num_vars base + d,
     sm_col_lower := sm_col_lower base @ replicate d 0,
     sm_col_upper := sm_col_upper base @ replicate d (Fin (10 ^ 30)),
     sm_is_integer := sm_is_integer base @ replicate d False,
     sm_is_binary := sm_is_binary base @ replicate d False,
     sm_obj_coeffs := map (\<lambda>_. 0) (sm_obj_coeffs base) @ replicate d 0,
     sm_constraints := map (\<lambda>r. wired (block_at S False r) (sm_constraints base ! r)) [0..<length (sm_constraints base)],
     sm_quadratic_constraints := map (\<lambda>r. wired_q (block_at S True r) (sm_quadratic_constraints base ! r))
       [0..<length (sm_quadratic_constraints base)]\<rparr>"

definition elastic_inv :: "SolverModel \<Rightarrow> ElasticModel \<Rightarrow> bool" where
  "elastic_inv base em \<longleftrightarrow> (\<exists>d. em_model em = elastic_model base (em_slacks em) d \<and>
     concat (map bs_cols (em_slacks em)) = [sm_num_vars base..<sm_num_vars base + d] \<and>
     (\<forall>b \<in> set (em_slacks em). block_ok base b))"

lemma elastic_inv_start: "elastic_inv base \<lparr>em_model = drop_objective base, em_slacks = []\<rparr>"
  by (auto simp: elastic_inv_def elastic_model_def drop_objective_def block_at_def wired_def wired_q_def map_nth
      intro!: exI [of _ 0])

lemma block_at_append:
  "block_at (S @ [b]) q r = (case block_at S q r of
     None \<Rightarrow> if bs_quadratic b = q \<and> r \<in> set (bs_rows b) then Some b else None | Some b' \<Rightarrow> Some b')"
  unfolding block_at_def by (induction S) auto

lemma block_at_None: "block_at S q r = None \<longleftrightarrow> (\<forall>b \<in> set S. bs_quadratic b = q \<longrightarrow> r \<notin> set (bs_rows b))"
  unfolding block_at_def by (auto simp: find_None_iff)

lemma block_at_Some: "block_at S q r = Some b \<Longrightarrow> b \<in> set S \<and> bs_quadratic b = q \<and> r \<in> set (bs_rows b)"
  unfolding block_at_def by (auto simp: find_Some_iff)

lemma fold_wire:
  assumes "distinct rows"
  shows "fold (wire p n) rows m = m\<lparr>sm_constraints :=
    map (\<lambda>r. if r \<in> set rows then wire_row p n (sm_constraints m ! r) else sm_constraints m ! r)
      [0..<length (sm_constraints m)]\<rparr>"
  using assms
proof (induction rows arbitrary: m)
  case (Cons r rows)
  then show ?case
    by (auto simp: wire_def nth_list_update intro!: arg_cong [where f = "\<lambda>x. m\<lparr>sm_constraints := x\<rparr>"] nth_equalityI)
       (metis nth_list_update_neq)
qed (simp add: map_nth)

lemma add_slacks_eq:
  "add_slacks s m = (sm_num_vars m, (if s = Eq then Some (sm_num_vars m + 1) else None),
     (let k = if s = Eq then 2 else 1 in m\<lparr>
       sm_col_lower := sm_col_lower m @ replicate k 0, sm_col_upper := sm_col_upper m @ replicate k (Fin (10 ^ 30)),
       sm_is_integer := sm_is_integer m @ replicate k False, sm_is_binary := sm_is_binary m @ replicate k False,
       sm_obj_coeffs := sm_obj_coeffs m @ replicate k 0, sm_num_vars := sm_num_vars m + k\<rparr>))"
  by (simp add: add_slacks_def add_slack_def numeral_2_eq_2)

lemma elastic_model_slack_columns:
  "snd (snd (add_slacks s (elastic_model base S d))) = elastic_model base S (d + (if s = Eq then 2 else 1))"
  by (auto simp: add_slacks_eq elastic_model_def Let_def replicate_add [symmetric] add.commute)


lemma add_block_inv:
  assumes inv: "elastic_inv base em"
    and rows: "distinct rows" "rows \<noteq> []" "\<forall>r \<in> set rows. r < length (sm_constraints base) \<and> mc_sense (sm_constraints base ! r) = s \<and>
      block_at (em_slacks em) False r = None"
  shows "elastic_inv base (add_block rows s data_offset w em)"
proof -
  from inv obtain d where d: "em_model em = elastic_model base (em_slacks em) d"
    "concat (map bs_cols (em_slacks em)) = [sm_num_vars base..<sm_num_vars base + d]"
    "\<forall>b \<in> set (em_slacks em). block_ok base b"
    by (auto simp: elastic_inv_def)
  define k :: nat where "k = (if s = Eq then 2 else 1)"
  obtain p n m where slacks: "add_slacks s (em_model em) = (p, n, m)" by (cases "add_slacks s (em_model em)") auto
  have pn: "p = sm_num_vars base + d" "n = (if s = Eq then Some (sm_num_vars base + d + 1) else None)"
    using slacks unfolding add_slacks_eq d(1) by (auto simp: elastic_model_def)
  have m: "m = elastic_model base (em_slacks em) (d + k)"
    using elastic_model_slack_columns [of s base "em_slacks em" d] slacks d(1) by (simp add: k_def)
  define b where "b = \<lparr>bs_rows = rows, bs_pos_col = p, bs_neg_col = n, bs_sense = s,
      bs_tier = (if data_offset then DATA_OFFSET else EDITABLE_LOOSEN), bs_weight = (if data_offset then 1 else w),
      bs_quadratic = False\<rparr>"
  have result: "add_block rows s data_offset w em = \<lparr>em_model = fold (wire p n) rows m, em_slacks = em_slacks em @ [b]\<rparr>"
    by (simp add: add_block_def slacks b_def)
  have "fold (wire p n) rows m = elastic_model base (em_slacks em @ [b]) (d + k)"
    unfolding fold_wire [OF rows(1)] m elastic_model_def using rows(3)
    by (auto simp: block_at_append b_def wired_def wired_q_def split: option.splits
        intro!: arg_cong2 [where f = "\<lambda>x y. z\<lparr>sm_constraints := x, sm_quadratic_constraints := y\<rparr>" for z])
  moreover have "concat (map bs_cols (em_slacks em @ [b])) = [sm_num_vars base..<sm_num_vars base + (d + k)]"
    using d(2) by (auto simp: b_def bs_cols_def pn k_def numeral_2_eq_2)
  moreover have "block_ok base b" using rows(2,3) by (auto simp: block_ok_def b_def pn)
  ultimately show ?thesis using d(3) unfolding result elastic_inv_def by auto
qed

lemma elastic_quadratic_inv:
  assumes inv: "elastic_inv base em" and r: "r < length (sm_quadratic_constraints base)" "block_at (em_slacks em) True r = None"
  shows "elastic_inv base (elastic_quadratic ref qc_norm r em)"
proof -
  from inv obtain d where d: "em_model em = elastic_model base (em_slacks em) d"
    "concat (map bs_cols (em_slacks em)) = [sm_num_vars base..<sm_num_vars base + d]"
    "\<forall>b \<in> set (em_slacks em). block_ok base b"
    by (auto simp: elastic_inv_def)
  have qc: "sm_quadratic_constraints (em_model em) ! r = sm_quadratic_constraints base ! r"
    using r by (simp add: d(1) elastic_model_def wired_q_def)
  define s where "s = qc_sense (sm_quadratic_constraints base ! r)"
  define k :: nat where "k = (if s = Eq then 2 else 1)"
  obtain p n m where slacks: "add_slacks s (em_model em) = (p, n, m)" by (cases "add_slacks s (em_model em)") auto
  have pn: "p = sm_num_vars base + d" "n = (if s = Eq then Some (sm_num_vars base + d + 1) else None)"
    using slacks unfolding add_slacks_eq d(1) by (auto simp: elastic_model_def)
  have m: "m = elastic_model base (em_slacks em) (d + k)"
    using elastic_model_slack_columns [of s base "em_slacks em" d] slacks d(1) by (simp add: k_def)
  define b where "b = \<lparr>bs_rows = [r], bs_pos_col = p, bs_neg_col = n, bs_sense = s,
      bs_tier = EDITABLE_LOOSEN, bs_weight = editable_weight ref (qc_norm ! r), bs_quadratic = True\<rparr>"
  define m' where "m' = m\<lparr>sm_quadratic_constraints :=
      (sm_quadratic_constraints m)[r := wire_qc p n (sm_quadratic_constraints base ! r)]\<rparr>"
  have result: "elastic_quadratic ref qc_norm r em =
      (if slackable (qc_provenance (sm_quadratic_constraints base ! r))
       then \<lparr>em_model = m', em_slacks = em_slacks em @ [b]\<rparr> else em)"
    unfolding elastic_quadratic_def qc Let_def s_def [symmetric] slacks by (simp add: b_def m'_def)
  have "m' = elastic_model base (em_slacks em @ [b]) (d + k)"
    unfolding m'_def m elastic_model_def using r
    by (auto simp: block_at_append b_def wired_def wired_q_def nth_list_update split: option.splits
        intro!: arg_cong2 [where f = "\<lambda>x y. z\<lparr>sm_constraints := x, sm_quadratic_constraints := y\<rparr>" for z] nth_equalityI)
  moreover have "concat (map bs_cols (em_slacks em @ [b])) = [sm_num_vars base..<sm_num_vars base + (d + k)]"
    using d(2) by (auto simp: b_def bs_cols_def pn k_def numeral_2_eq_2)
  moreover have "block_ok base b" using r(1) by (auto simp: block_ok_def b_def pn s_def)
  ultimately show ?thesis using d(3) inv unfolding result elastic_inv_def by auto
qed

section \<open>The blocks\<close>

text \<open>
  The rows that share the slacks of row \<open>r\<close>, and the first of them. \<open>one_sense\<close>: rows that share a
  bound compare with it the same way, which is what the field \<open>sense\<close> of a block takes for granted.
\<close>

definition row_prov :: "SolverModel \<Rightarrow> idx \<Rightarrow> ConstraintProvenance" where
  "row_prov base r = mc_provenance (sm_constraints base ! r)"

definition row_group :: "bool \<Rightarrow> SolverModel \<Rightarrow> idx \<Rightarrow> idx list" where
  "row_group fold_data base r =
     (if folds fold_data (row_prov base r)
      then filter (\<lambda>s. slackable (row_prov base s) \<and> folds fold_data (row_prov base s) \<and>
             block_key fold_data (row_prov base s) = block_key fold_data (row_prov base r))
             [0..<length (sm_constraints base)]
      else [r])"

definition leads :: "bool \<Rightarrow> SolverModel \<Rightarrow> idx \<Rightarrow> bool" where
  "leads fold_data base r \<longleftrightarrow> slackable (row_prov base r) \<and> hd (row_group fold_data base r) = r"

definition one_sense :: "bool \<Rightarrow> SolverModel \<Rightarrow> bool" where
  "one_sense fold_data base \<longleftrightarrow>
     (\<forall>mc \<in> set (sm_constraints base). \<forall>mc' \<in> set (sm_constraints base).
        slackable (mc_provenance mc) \<and> folds fold_data (mc_provenance mc) \<and>
        slackable (mc_provenance mc') \<and> folds fold_data (mc_provenance mc') \<and>
        block_key fold_data (mc_provenance mc) = block_key fold_data (mc_provenance mc') \<longrightarrow> mc_sense mc = mc_sense mc')"

definition labelled :: "SolverModel \<Rightarrow> BlockSlackRef \<Rightarrow> bool" where
  "labelled base b \<longleftrightarrow>
     (if bs_quadratic b
      then bs_tier b = EDITABLE_LOOSEN \<and> bs_weight b = editable_weight (ref_norm base)
             (rms_norm (qc_linear_coefficients (sm_quadratic_constraints base ! hd (bs_rows b))))
      else if is_data_offset (row_prov base (hd (bs_rows b))) then bs_tier b = DATA_OFFSET \<and> bs_weight b = 1
      else bs_tier b = EDITABLE_LOOSEN \<and> bs_weight b = editable_weight (ref_norm base)
             (rms_norm (mc_coefficients (sm_constraints base ! hd (bs_rows b)))))"

lemma collect_blocks_eq:
  "collect_blocks fold_data rows k = filter (\<lambda>r. slackable (mc_provenance (rows ! r)) \<and>
     folds fold_data (mc_provenance (rows ! r)) \<and> block_key fold_data (mc_provenance (rows ! r)) = k) [0..<length rows]"
proof -
  have "fold (collect_block fold_data rows) rs blocks k = blocks k @ filter (\<lambda>r. slackable (mc_provenance (rows ! r)) \<and>
      folds fold_data (mc_provenance (rows ! r)) \<and> block_key fold_data (mc_provenance (rows ! r)) = k) rs" for rs blocks
    by (induction rs arbitrary: blocks) (auto simp: collect_block_def Let_def)
  then show ?thesis by (simp add: collect_blocks_def)
qed

lemma row_group_self: "slackable (row_prov base r) \<Longrightarrow> r < length (sm_constraints base) \<Longrightarrow> r \<in> set (row_group fold_data base r)"
  by (simp add: row_group_def)

lemma row_group_mem:
  assumes "slackable (row_prov base r)" "r < length (sm_constraints base)" "s \<in> set (row_group fold_data base r)"
  shows "s < length (sm_constraints base)" "slackable (row_prov base s)"
    "row_group fold_data base s = row_group fold_data base r"
  using assms by (auto simp: row_group_def split: if_splits)

lemma row_group_distinct: "distinct (row_group fold_data base r)"
  by (simp add: row_group_def)

text \<open>What one step of the row loop does, seen from the base model.\<close>

lemma wired_keeps [simp]: "mc_provenance (wired b mc) = mc_provenance mc" "mc_sense (wired b mc) = mc_sense mc"
  by (auto simp: wired_def wire_row_def Let_def split: option.splits)

lemma elastic_row_eq:
  assumes "elastic_inv base em" "r < length (sm_constraints base)"
  shows "elastic_row fold_data ref (map (\<lambda>row. rms_norm (mc_coefficients row)) (sm_constraints base))
      (collect_blocks fold_data (sm_constraints base)) r em =
    (if leads fold_data base r
     then add_block (row_group fold_data base r) (mc_sense (sm_constraints base ! r)) (is_data_offset (row_prov base r))
            (editable_weight ref (rms_norm (mc_coefficients (sm_constraints base ! r)))) em
     else em)"
proof -
  have row: "mc_provenance (sm_constraints (em_model em) ! s) = row_prov base s"
      "mc_sense (sm_constraints (em_model em) ! s) = mc_sense (sm_constraints base ! s)"
    if "s < length (sm_constraints base)" for s
    using assms(1) that by (auto simp: elastic_inv_def elastic_model_def row_prov_def)
  have grp: "collect_blocks fold_data (sm_constraints base) (block_key fold_data (row_prov base r)) = row_group fold_data base r"
    if "folds fold_data (row_prov base r)"
    using that by (simp add: collect_blocks_eq row_group_def row_prov_def)
  show ?thesis
    unfolding elastic_row_def Let_def row(1) [OF assms(2)] leads_def
    using assms(2) grp row(2) by (auto simp: row_group_def)
qed

lemma add_block_slacks:
  "\<exists>p n. em_slacks (add_block rows s data_offset w em) = em_slacks em @ [\<lparr>
     bs_rows = rows, bs_pos_col = p, bs_neg_col = n, bs_sense = s,
     bs_tier = (if data_offset then DATA_OFFSET else EDITABLE_LOOSEN),
     bs_weight = (if data_offset then 1 else w), bs_quadratic = False\<rparr>]"
  by (auto simp: add_block_def Let_def split: prod.splits)

text \<open>The loops.\<close>

lemma elastic_rows_loop:
  assumes sense: "one_sense fold_data base" and k: "k \<le> length (sm_constraints base)"
    and em: "em = fold (elastic_row fold_data (ref_norm base)
      (map (\<lambda>row. rms_norm (mc_coefficients row)) (sm_constraints base))
      (collect_blocks fold_data (sm_constraints base))) [0..<k] \<lparr>em_model = drop_objective base, em_slacks = []\<rparr>"
  shows "elastic_inv base em \<and> map bs_rows (em_slacks em) = map (row_group fold_data base) (filter (leads fold_data base) [0..<k]) \<and>
     (\<forall>b \<in> set (em_slacks em). \<not> bs_quadratic b \<and> labelled base b)"
  using k em
proof (induction k arbitrary: em)
  case 0
  then show ?case by (simp add: elastic_inv_start)
next
  case (Suc k)
  define em0 where "em0 = fold (elastic_row fold_data (ref_norm base)
      (map (\<lambda>row. rms_norm (mc_coefficients row)) (sm_constraints base))
      (collect_blocks fold_data (sm_constraints base))) [0..<k] \<lparr>em_model = drop_objective base, em_slacks = []\<rparr>"
  have k: "k < length (sm_constraints base)" using Suc.prems(1) by simp
  have IH: "elastic_inv base em0" "map bs_rows (em_slacks em0) = map (row_group fold_data base) (filter (leads fold_data base) [0..<k])"
    "\<forall>b \<in> set (em_slacks em0). \<not> bs_quadratic b \<and> labelled base b"
    using Suc.IH [OF _ em0_def] k by auto
  let ?w = "editable_weight (ref_norm base) (rms_norm (mc_coefficients (sm_constraints base ! k)))"
  have em: "em = (if leads fold_data base k
     then add_block (row_group fold_data base k) (mc_sense (sm_constraints base ! k)) (is_data_offset (row_prov base k)) ?w em0
     else em0)"
    unfolding Suc.prems(2) em0_def elastic_row_eq [OF IH(1) k, symmetric, unfolded em0_def] by simp
  show ?case
  proof (cases "leads fold_data base k")
    case False
    then show ?thesis using em IH by simp
  next
    case True
    then have sl: "slackable (row_prov base k)" "hd (row_group fold_data base k) = k" by (simp_all add: leads_def)
    note mem = row_group_mem [OF sl(1) k]
    have fresh: "block_at (em_slacks em0) False s = None" if s: "s \<in> set (row_group fold_data base k)" for s
    proof (rule ccontr)
      assume "block_at (em_slacks em0) False s \<noteq> None"
      then obtain b where b: "b \<in> set (em_slacks em0)" "s \<in> set (bs_rows b)" by (auto dest: block_at_Some)
      then have "bs_rows b \<in> set (map (row_group fold_data base) (filter (leads fold_data base) [0..<k]))"
        unfolding IH(2) [symmetric] by simp
      with b(2) obtain l where l: "l < k" "leads fold_data base l" "s \<in> set (row_group fold_data base l)" by auto
      then have "row_group fold_data base l = row_group fold_data base k"
        using row_group_mem(3) [of base l s fold_data] mem(3) [OF s] k by (simp add: leads_def)
      with l sl show False by (simp add: leads_def)
    qed
    have "elastic_inv base em"
      unfolding em if_P [OF True]
    proof (intro add_block_inv [OF IH(1) row_group_distinct] ballI conjI)
      show "row_group fold_data base k \<noteq> []" using row_group_self [OF sl(1) k, of fold_data] by auto
      show "mc_sense (sm_constraints base ! s) = mc_sense (sm_constraints base ! k)"
        if "s \<in> set (row_group fold_data base k)" for s
        using sense k sl(1) that by (auto simp: one_sense_def row_group_def row_prov_def split: if_splits)
    qed (fact mem(1) fresh)+
    moreover obtain b where b: "em_slacks em = em_slacks em0 @ [b]" "bs_rows b = row_group fold_data base k"
      "\<not> bs_quadratic b" "bs_tier b = (if is_data_offset (row_prov base k) then DATA_OFFSET else EDITABLE_LOOSEN)"
      "bs_weight b = (if is_data_offset (row_prov base k) then 1 else ?w)"
      using add_block_slacks [of "row_group fold_data base k" "mc_sense (sm_constraints base ! k)" "is_data_offset (row_prov base k)" ?w em0]
      unfolding em if_P [OF True] by fastforce
    have "labelled base b" using b sl(2) by (simp add: labelled_def)
    moreover have "map bs_rows (em_slacks em) = map (row_group fold_data base) (filter (leads fold_data base) [0..<Suc k])"
      using b(1,2) IH(2) True by simp
    ultimately show ?thesis using b(1,3) IH(3) by simp
  qed
qed

lemma elastic_quadratic_loop:
  assumes inv: "elastic_inv base em0" and lin: "\<forall>b \<in> set (em_slacks em0). \<not> bs_quadratic b \<and> labelled base b"
    and k: "k \<le> length (sm_quadratic_constraints base)"
    and em: "em = fold (elastic_quadratic (ref_norm base)
      (map (\<lambda>qc. rms_norm (qc_linear_coefficients qc)) (sm_quadratic_constraints base))) [0..<k] em0"
  shows "elastic_inv base em \<and> (\<forall>b \<in> set (em_slacks em). labelled base b) \<and>
    (\<exists>Q. em_slacks em = em_slacks em0 @ Q \<and> (\<forall>b \<in> set Q. bs_quadratic b) \<and>
       map bs_rows Q = map (\<lambda>r. [r]) (filter (\<lambda>r. slackable (qc_provenance (sm_quadratic_constraints base ! r))) [0..<k]))"
  using k em
proof (induction k arbitrary: em)
  case 0
  then show ?case using inv lin by simp
next
  case (Suc k)
  let ?qs = "sm_quadratic_constraints base" and ?n = "map (\<lambda>qc. rms_norm (qc_linear_coefficients qc)) (sm_quadratic_constraints base)"
  define em1 where "em1 = fold (elastic_quadratic (ref_norm base) ?n) [0..<k] em0"
  have k: "k < length ?qs" using Suc.prems(1) by simp
  obtain Q where IH: "elastic_inv base em1" "\<forall>b \<in> set (em_slacks em1). labelled base b" "em_slacks em1 = em_slacks em0 @ Q"
    "\<forall>b \<in> set Q. bs_quadratic b" "map bs_rows Q = map (\<lambda>r. [r]) (filter (\<lambda>r. slackable (qc_provenance (?qs ! r))) [0..<k])"
    using Suc.IH [OF _ em1_def] k by auto
  have em: "em = elastic_quadratic (ref_norm base) ?n k em1" unfolding Suc.prems(2) em1_def by simp
  have fresh: "block_at (em_slacks em1) True k = None"
  proof -
    have "k \<notin> set (bs_rows b)" if "b \<in> set Q" for b
    proof -
      have "bs_rows b \<in> set (map (\<lambda>r. [r]) (filter (\<lambda>r. slackable (qc_provenance (?qs ! r))) [0..<k]))"
        unfolding IH(5) [symmetric] using that by simp
      then show ?thesis by auto
    qed
    then show ?thesis using lin by (auto simp: block_at_None IH(3))
  qed
  have at: "sm_quadratic_constraints (em_model em1) ! k = ?qs ! k"
    using IH(1) k fresh by (auto simp: elastic_inv_def elastic_model_def wired_q_def)
  obtain p n m where slacks: "add_slacks (qc_sense (?qs ! k)) (em_model em1) = (p, n, m)" by (metis prod_cases3)
  have "em_slacks em = (if slackable (qc_provenance (?qs ! k)) then em_slacks em1 @ [\<lparr>bs_rows = [k], bs_pos_col = p,
      bs_neg_col = n, bs_sense = qc_sense (?qs ! k), bs_tier = EDITABLE_LOOSEN,
      bs_weight = editable_weight (ref_norm base) (?n ! k), bs_quadratic = True\<rparr>] else em_slacks em1)"
    unfolding em elastic_quadratic_def at by (simp add: slacks Let_def)
  moreover have "elastic_inv base em" unfolding em by (rule elastic_quadratic_inv [OF IH(1) k fresh])
  ultimately show ?case
    using IH(2-5) k by (cases "slackable (qc_provenance (?qs ! k))") (simp_all add: labelled_def IH(3) ball_Un)
qed

lemma BuildElasticModel_facts:
  assumes "one_sense (slack_scope \<noteq> ''expanded'') base" "e = BuildElasticModel base slack_scope"
  shows "elastic_inv base e" "\<forall>b \<in> set (em_slacks e). labelled base b"
    "map bs_rows (filter (\<lambda>b. \<not> bs_quadratic b) (em_slacks e)) =
       map (row_group (slack_scope \<noteq> ''expanded'') base)
         (filter (leads (slack_scope \<noteq> ''expanded'') base) [0..<length (sm_constraints base)])"
    "map bs_rows (filter bs_quadratic (em_slacks e)) =
       map (\<lambda>r. [r]) (filter (\<lambda>r. slackable (qc_provenance (sm_quadratic_constraints base ! r)))
         [0..<length (sm_quadratic_constraints base)])"
proof -
  let ?em0 = "fold (elastic_row (slack_scope \<noteq> ''expanded'') (ref_norm base)
      (map (\<lambda>row. rms_norm (mc_coefficients row)) (sm_constraints base))
      (collect_blocks (slack_scope \<noteq> ''expanded'') (sm_constraints base))) [0..<length (sm_constraints base)]
      \<lparr>em_model = drop_objective base, em_slacks = []\<rparr>"
  note lin = elastic_rows_loop [OF assms(1) le_refl refl]
  have e: "e = fold (elastic_quadratic (ref_norm base)
      (map (\<lambda>qc. rms_norm (qc_linear_coefficients qc)) (sm_quadratic_constraints base)))
      [0..<length (sm_quadratic_constraints base)] ?em0"
    unfolding assms(2) BuildElasticModel_def Let_def by (rule refl)
  obtain Q where Q: "elastic_inv base e" "\<forall>b \<in> set (em_slacks e). labelled base b" "em_slacks e = em_slacks ?em0 @ Q"
    "\<forall>b \<in> set Q. bs_quadratic b" "map bs_rows Q = map (\<lambda>r. [r])
       (filter (\<lambda>r. slackable (qc_provenance (sm_quadratic_constraints base ! r))) [0..<length (sm_quadratic_constraints base)])"
    using elastic_quadratic_loop [OF _ _ le_refl e] lin by blast
  show "elastic_inv base e" "\<forall>b \<in> set (em_slacks e). labelled base b" by (fact Q)+
  have "filter (\<lambda>b. \<not> bs_quadratic b) (em_slacks ?em0) = em_slacks ?em0" "filter bs_quadratic (em_slacks ?em0) = []"
    "filter (\<lambda>b. \<not> bs_quadratic b) Q = []" "filter bs_quadratic Q = Q"
    using lin Q(4) by (simp_all add: filter_id_conv filter_empty_conv)
  then show "map bs_rows (filter (\<lambda>b. \<not> bs_quadratic b) (em_slacks e)) =
       map (row_group (slack_scope \<noteq> ''expanded'') base)
         (filter (leads (slack_scope \<noteq> ''expanded'') base) [0..<length (sm_constraints base)])"
    "map bs_rows (filter bs_quadratic (em_slacks e)) =
       map (\<lambda>r. [r]) (filter (\<lambda>r. slackable (qc_provenance (sm_quadratic_constraints base ! r)))
         [0..<length (sm_quadratic_constraints base)])"
    using lin Q(5) unfolding Q(3) by simp_all
qed

section \<open>The elastic program is the edited model\<close>

text \<open>
  The shape the transformation takes for granted: one entry per column, parallel vectors in every
  row, and one sense per shared bound. \<open>Build\<close> gives the first two (\<open>build_well_typed\<close>).
\<close>

definition elastic_ok :: "string \<Rightarrow> SolverModel \<Rightarrow> bool" where
  "elastic_ok slack_scope base \<longleftrightarrow>
     length (sm_col_lower base) = sm_num_vars base \<and> length (sm_col_upper base) = sm_num_vars base \<and>
     length (sm_is_integer base) = sm_num_vars base \<and> length (sm_is_binary base) = sm_num_vars base \<and>
     (\<forall>mc \<in> set (sm_constraints base). length (mc_indices mc) = length (mc_coefficients mc)) \<and>
     (\<forall>qc \<in> set (sm_quadratic_constraints base).
        length (qc_linear_indices qc) = length (qc_linear_coefficients qc)) \<and>
     one_sense (slack_scope \<noteq> ''expanded'') base"

lemma elastic_ok_sense: "elastic_ok slack_scope base \<Longrightarrow> one_sense (slack_scope \<noteq> ''expanded'') base"
  by (simp only: elastic_ok_def)

lemma slack_column: "in_column 0 (Fin (10 ^ 30)) False False v \<longleftrightarrow> 0 \<le> v"
  by (auto simp: in_column_def zero_dbl_def)

lemma slacks_nonneg_cols: "slacks_nonneg S y \<longleftrightarrow> (\<forall>c \<in> set (concat (map bs_cols S)). 0 \<le> y c)"
  by (auto simp: slacks_nonneg_def)

lemma elastic_model_columns:
  assumes "elastic_ok slack_scope base"
  shows "model_columns (elastic_model base S d) y \<longleftrightarrow>
    model_columns base y \<and> (\<forall>c \<in> {sm_num_vars base..<sm_num_vars base + d}. 0 \<le> y c)"
proof -
  let ?n = "sm_num_vars base" and ?m = "elastic_model base S d"
  have "in_column (sm_col_lower ?m ! c) (sm_col_upper ?m ! c) (sm_is_integer ?m ! c) (sm_is_binary ?m ! c) (y c) \<longleftrightarrow>
      (if c < ?n then in_column (sm_col_lower base ! c) (sm_col_upper base ! c) (sm_is_integer base ! c) (sm_is_binary base ! c) (y c)
       else 0 \<le> y c)" if "c < ?n + d" for c
    using assms that by (auto simp: elastic_ok_def elastic_model_def nth_append slack_column [simplified])
  moreover have "sm_num_vars ?m = ?n + d" by (simp add: elastic_model_def)
  ultimately show ?thesis
    unfolding model_columns_def by (auto simp: not_less)
qed

lemma wired_sat:
  assumes "length (mc_indices mc) = length (mc_coefficients mc)" "\<And>b. bo = Some b \<Longrightarrow> bs_neg_col b \<noteq> None \<longleftrightarrow> mc_sense mc = Eq"
  shows "sat_mc (wired bo mc) y \<longleftrightarrow> sat_mc (edited_mc bo y mc) y"
  using assms wired_mc by (cases bo) (auto simp: wired_def edited_mc_def amount_def)

lemma wired_q_sat:
  assumes "length (qc_linear_indices qc) = length (qc_linear_coefficients qc)" "\<And>b. bo = Some b \<Longrightarrow> bs_neg_col b \<noteq> None \<longleftrightarrow> qc_sense qc = Eq"
  shows "sat_qc (wired_q bo qc) y \<longleftrightarrow> sat_qc (edited_qc bo y qc) y"
  using assms wired_qc by (cases bo) (auto simp: wired_q_def edited_qc_def amount_def)

lemma elastic_model_rows:
  assumes ok: "elastic_ok slack_scope base" and blocks: "\<forall>b \<in> set S. block_ok base b"
  shows "model_rows (elastic_model base S d) y \<longleftrightarrow> model_rows (edited base S y) y"
proof -
  have lin: "sat_mc (wired (block_at S False r) (sm_constraints base ! r)) y \<longleftrightarrow>
      sat_mc (edited_mc (block_at S False r) y (sm_constraints base ! r)) y" if "r < length (sm_constraints base)" for r
    using ok blocks that by (intro wired_sat) (auto simp: elastic_ok_def block_ok_def dest!: block_at_Some)
  have quad: "sat_qc (wired_q (block_at S True r) (sm_quadratic_constraints base ! r)) y \<longleftrightarrow>
      sat_qc (edited_qc (block_at S True r) y (sm_quadratic_constraints base ! r)) y" if "r < length (sm_quadratic_constraints base)" for r
    using ok blocks that by (intro wired_q_sat) (auto simp: elastic_ok_def block_ok_def dest!: block_at_Some)
  show ?thesis
    using lin quad by (auto simp: model_rows_def elastic_model_def edited_def drop_objective_def)
qed

lemma elastic_admits:
  assumes "elastic_ok slack_scope base" "elastic_inv base e"
  shows "model_columns (em_model e) y \<and> model_rows (em_model e) y \<longleftrightarrow>
    model_columns base y \<and> slacks_nonneg (em_slacks e) y \<and> model_rows (edited base (em_slacks e) y) y"
proof -
  from assms(2) obtain d where d: "em_model e = elastic_model base (em_slacks e) d"
    "concat (map bs_cols (em_slacks e)) = [sm_num_vars base..<sm_num_vars base + d]"
    "\<forall>b \<in> set (em_slacks e). block_ok base b"
    by (auto simp: elastic_inv_def)
  show ?thesis
    unfolding d(1) elastic_model_columns [OF assms(1)] elastic_model_rows [OF assms(1) d(3)] slacks_nonneg_cols d(2)
    by auto
qed

text \<open>
  C16. The elastic program is the query with its bounds edited. A point of the columns and rows of
  \<open>BuildElasticModel\<close> is a point of the base columns with non-negative slacks that meets every row
  of the base model after the bound of each row in a block has been moved by the block's amount:
  down for \<open>>=\<close>, up for \<open><=\<close> and \<open>=\<close>, which is the literal \<open>MakeLoosenEdit\<close> suggests. Rows outside
  the blocks, conditional rows and native constructs are untouched.
\<close>

theorem elastic_is_edited:
  assumes "elastic_ok slack_scope base" "e = BuildElasticModel base slack_scope"
  shows "model_columns (em_model e) y \<and> model_rows (em_model e) y \<longleftrightarrow>
    model_columns base y \<and> slacks_nonneg (em_slacks e) y \<and> model_rows (edited base (em_slacks e) y) y"
  by (rule elastic_admits [OF assms(1) BuildElasticModel_facts(1) [OF elastic_ok_sense [OF assms(1)] assms(2)]])

lemma linear_blocks:
  assumes "elastic_ok slack_scope base" "e = BuildElasticModel base slack_scope" "r < length (sm_constraints base)"
  shows "(slackable (row_prov base r) \<longleftrightarrow> (\<exists>!b. b \<in> set (em_slacks e) \<and> \<not> bs_quadratic b \<and> r \<in> set (bs_rows b))) \<and>
    (\<forall>b \<in> set (em_slacks e). \<not> bs_quadratic b \<longrightarrow> r \<in> set (bs_rows b) \<longrightarrow>
       slackable (row_prov base r) \<and> bs_rows b = row_group (slack_scope \<noteq> ''expanded'') base r)"
proof -
  let ?fd = "slack_scope \<noteq> ''expanded''"
  define L where "L = filter (\<lambda>b. \<not> bs_quadratic b) (em_slacks e)"
  note facts = BuildElasticModel_facts [OF elastic_ok_sense [OF assms(1)] assms(2), folded L_def]
  have rows: "bs_rows ` set L = row_group ?fd base ` {l. l < length (sm_constraints base) \<and> leads ?fd base l}"
    using arg_cong [OF facts(3), of set] by auto
  have inj: "bs_rows b = bs_rows b' \<Longrightarrow> b \<in> set L \<Longrightarrow> b' \<in> set L \<Longrightarrow> b = b'" for b b'
  proof -
    have "inj_on (row_group ?fd base) {l. leads ?fd base l}"
      by (rule inj_on_inverseI [where g = hd]) (simp add: leads_def)
    then have "inj_on (row_group ?fd base) (set (filter (leads ?fd base) [0..<length (sm_constraints base)]))"
      by (rule inj_on_subset) (simp only: set_filter, blast)
    then have "distinct (map bs_rows L)" unfolding facts(3) by (simp only: distinct_map distinct_filter distinct_upt simp_thms)
    then show "bs_rows b = bs_rows b' \<Longrightarrow> b \<in> set L \<Longrightarrow> b' \<in> set L \<Longrightarrow> b = b'"
      by (auto simp: distinct_map inj_on_def)
  qed
  have same: "slackable (row_prov base r) \<and> bs_rows b = row_group ?fd base r" if b: "b \<in> set L" "r \<in> set (bs_rows b)" for b
  proof -
    obtain l where l: "l < length (sm_constraints base)" "leads ?fd base l" "bs_rows b = row_group ?fd base l"
      using rows b(1) by blast
    then show ?thesis using row_group_mem(2,3) [of base l r ?fd] b(2) by (simp add: leads_def)
  qed
  have ex: "\<exists>b \<in> set L. r \<in> set (bs_rows b)" if sl: "slackable (row_prov base r)"
  proof -
    let ?l = "hd (row_group ?fd base r)"
    note self = row_group_self [OF sl assms(3), of ?fd]
    then have "?l \<in> set (row_group ?fd base r)" by (intro hd_in_set) auto
    note l = row_group_mem [OF sl assms(3) this]
    then have "row_group ?fd base ?l \<in> bs_rows ` set L" unfolding rows by (intro imageI) (simp add: leads_def)
    then show ?thesis using l(3) self by (auto simp: image_iff)
  qed
  have mem: "b \<in> set (em_slacks e) \<and> \<not> bs_quadratic b \<and> r \<in> set (bs_rows b) \<longleftrightarrow> b \<in> set L \<and> r \<in> set (bs_rows b)" for b
    by (auto simp: L_def)
  have "slackable (row_prov base r) \<longleftrightarrow> (\<exists>!b. b \<in> set L \<and> r \<in> set (bs_rows b))"
  proof
    assume "slackable (row_prov base r)"
    then obtain b where b: "b \<in> set L" "r \<in> set (bs_rows b)" using ex by blast
    have "b' = b" if "b' \<in> set L \<and> r \<in> set (bs_rows b')" for b'
      using same [of b'] same [of b] inj [of b' b] that b by simp
    with b show "\<exists>!b. b \<in> set L \<and> r \<in> set (bs_rows b)" by blast
  qed (use same in blast)
  with same show ?thesis unfolding mem by (simp add: L_def)
qed

lemma quadratic_blocks:
  assumes "elastic_ok slack_scope base" "e = BuildElasticModel base slack_scope"
  shows "q < length (sm_quadratic_constraints base) \<and> slackable (qc_provenance (sm_quadratic_constraints base ! q)) \<longleftrightarrow>
    (\<exists>b \<in> set (em_slacks e). bs_quadratic b \<and> q \<in> set (bs_rows b))"
    and "b \<in> set (em_slacks e) \<Longrightarrow> bs_quadratic b \<Longrightarrow> q \<in> set (bs_rows b) \<Longrightarrow> bs_rows b = [q]"
proof -
  note facts = BuildElasticModel_facts(4) [OF elastic_ok_sense [OF assms(1)] assms(2)]
  have rows: "bs_rows ` {b \<in> set (em_slacks e). bs_quadratic b} =
      (\<lambda>q. [q]) ` {q. q < length (sm_quadratic_constraints base) \<and> slackable (qc_provenance (sm_quadratic_constraints base ! q))}"
    using arg_cong [OF facts, of set] by auto
  then show single: "b \<in> set (em_slacks e) \<Longrightarrow> bs_quadratic b \<Longrightarrow> q \<in> set (bs_rows b) \<Longrightarrow> bs_rows b = [q]" for b q
    by (auto simp: set_eq_iff image_iff) (metis empty_iff empty_set set_ConsD)
  have "(q < length (sm_quadratic_constraints base) \<and> slackable (qc_provenance (sm_quadratic_constraints base ! q))) \<longleftrightarrow>
      [q] \<in> bs_rows ` {b \<in> set (em_slacks e). bs_quadratic b}"
    unfolding rows by auto
  also have "\<dots> \<longleftrightarrow> (\<exists>b \<in> set (em_slacks e). bs_quadratic b \<and> q \<in> set (bs_rows b))"
    using single by (auto simp: image_iff) (metis list.set_intros(1))
  finally show "q < length (sm_quadratic_constraints base) \<and> slackable (qc_provenance (sm_quadratic_constraints base ! q)) \<longleftrightarrow>
    (\<exists>b \<in> set (em_slacks e). bs_quadratic b \<and> q \<in> set (bs_rows b))" .
qed

text \<open>
  C17. Which rows share a slack. Exactly the rows with an editable bound are in a block, each in one;
  a block holds the rows whose clause folds and has the same key (the clause in query scope, the
  clause and its group in expanded scope), or the one row of a clause that does not fold. Every
  quadratic row with an editable bound has a block of its own.
\<close>

theorem elastic_blocks:
  assumes "elastic_ok slack_scope base" "e = BuildElasticModel base slack_scope"
  shows "(\<forall>r < length (sm_constraints base).
      (slackable (row_prov base r) \<longleftrightarrow> (\<exists>!b. b \<in> set (em_slacks e) \<and> \<not> bs_quadratic b \<and> r \<in> set (bs_rows b))) \<and>
      (\<forall>b \<in> set (em_slacks e). \<not> bs_quadratic b \<longrightarrow> r \<in> set (bs_rows b) \<longrightarrow>
         bs_rows b = row_group (slack_scope \<noteq> ''expanded'') base r)) \<and>
    (\<forall>q < length (sm_quadratic_constraints base).
      slackable (qc_provenance (sm_quadratic_constraints base ! q)) \<longleftrightarrow>
        (\<exists>b \<in> set (em_slacks e). bs_quadratic b \<and> bs_rows b = [q]))"
proof -
  have "slackable (qc_provenance (sm_quadratic_constraints base ! q)) \<longleftrightarrow>
      (\<exists>b \<in> set (em_slacks e). bs_quadratic b \<and> bs_rows b = [q])" if "q < length (sm_quadratic_constraints base)" for q
    using quadratic_blocks [OF assms, where q = q] that by (metis list.set_intros(1))
  with linear_blocks [OF assms] show ?thesis by blast
qed

end
