(* ===== verification/ElasticReach.thy ===== *)
theory ElasticReach
  imports ElasticExact
begin

text \<open>
  What the elastic program can repair, and what it charges. \<open>scoped\<close> models mention only their own
  columns and have finite coefficients; on these the slacks can absorb any violation of the rows
  with an editable bound, so that only the columns and the rigid rows decide whether the program is
  feasible. The last section bounds the weights.
\<close>

section \<open>Models that read their own columns\<close>

definition scoped :: "SolverModel \<Rightarrow> bool" where
  "scoped m \<longleftrightarrow>
     (\<forall>mc \<in> set (sm_constraints m). (\<forall>c \<in> set (mc_indices mc). c < sm_num_vars m) \<and>
        list_all isfinite (mc_coefficients mc) \<and> \<not> isnan (mc_rhs mc)) \<and>
     (\<forall>qc \<in> set (sm_quadratic_constraints m). (\<forall>c \<in> set (qc_linear_indices qc). c < sm_num_vars m) \<and>
        (\<forall>c \<in> set (qc_q_rows qc) \<union> set (qc_q_cols qc). c < sm_num_vars m) \<and>
        list_all isfinite (qc_linear_coefficients qc) \<and> list_all isfinite (qc_q_coefficients qc) \<and>
        \<not> isnan (qc_rhs qc)) \<and>
     (\<forall>ic \<in> set (sm_indicator_constraints m). ix_binary_column ic < sm_num_vars m \<and>
        (\<forall>c \<in> set (ix_indices ic). c < sm_num_vars m)) \<and>
     (\<forall>gc \<in> set (sm_general_constraints m). gn_result_column gc < sm_num_vars m \<and>
        (\<forall>c \<in> set (gn_argument_columns gc). c < sm_num_vars m))"

definition agree :: "nat \<Rightarrow> (idx \<Rightarrow> real) \<Rightarrow> (idx \<Rightarrow> real) \<Rightarrow> bool" where
  "agree n x y \<longleftrightarrow> (\<forall>c < n. y c = x c)"

lemma agree_less: "agree n x y \<Longrightarrow> c < n \<Longrightarrow> y c = x c"
  by (simp add: agree_def)

lemma lin_val_agree: "agree n x y \<Longrightarrow> \<forall>c \<in> set is. c < n \<Longrightarrow> lin_val is cs y = lin_val is cs x"
  unfolding lin_val_def by (intro arg_cong [where f = sum_list] map_cong refl) (auto simp: agree_less dest!: set_zip_leftD)

lemma quad_val_agree:
  "agree n x y \<Longrightarrow> \<forall>c \<in> set rs \<union> set cs. c < n \<Longrightarrow> quad_val rs cs vs y = quad_val rs cs vs x"
  unfolding quad_val_def
  by (intro arg_cong [where f = sum_list] map_cong refl)
     (auto simp: agree_def elim!: in_set_zipE)

lemma quad_val_finite: "list_all isfinite vs \<Longrightarrow> isfinite (quad_val rs cs vs x)"
proof (induction vs arbitrary: rs cs)
  case Nil
  then show ?case by (simp add: quad_val_def zero_dbl_def)
next
  case (Cons v vs)
  then show ?case
    by (cases rs; cases cs) (auto simp: quad_val_def zero_dbl_def intro!: isfinite_plus isfinite_times)
qed

lemma sat_ix_agree:
  "agree n x y \<Longrightarrow> ix_binary_column ic < n \<Longrightarrow> \<forall>c \<in> set (ix_indices ic). c < n \<Longrightarrow> sat_ix ic y \<longleftrightarrow> sat_ix ic x"
  unfolding sat_ix_def by (simp add: agree_less lin_val_agree)

lemma sat_gn_agree:
  assumes "agree n x y" "gn_result_column gc < n" "\<forall>c \<in> set (gn_argument_columns gc). c < n"
  shows "sat_gn gc y \<longleftrightarrow> sat_gn gc x"
proof -
  have "map y (gn_argument_columns gc) = map x (gn_argument_columns gc)" using assms by (simp add: agree_less)
  then show ?thesis
    using agree_less [OF assms(1,2)] by (simp only: sat_gn_def sat_general.simps GeneralConstraintSpec.simps)
qed

lemma model_columns_agree: "agree (sm_num_vars m) x y \<Longrightarrow> model_columns m y \<longleftrightarrow> model_columns m x"
  by (simp add: model_columns_def agree_less)

section \<open>The rigid part\<close>

definition rigid_rows :: "SolverModel \<Rightarrow> (idx \<Rightarrow> real) \<Rightarrow> bool" where
  "rigid_rows m x \<longleftrightarrow>
     (\<forall>mc \<in> set (sm_constraints m). \<not> slackable (mc_provenance mc) \<longrightarrow> sat_mc mc x) \<and>
     (\<forall>qc \<in> set (sm_quadratic_constraints m). \<not> slackable (qc_provenance qc) \<longrightarrow> sat_qc qc x) \<and>
     (\<forall>ic \<in> set (sm_indicator_constraints m). sat_ix ic x) \<and>
     (\<forall>gc \<in> set (sm_general_constraints m). sat_gn gc x)"

lemma rigid_rows_agree:
  assumes "scoped m" "agree (sm_num_vars m) x y"
  shows "rigid_rows m y \<longleftrightarrow> rigid_rows m x"
proof -
  have "sat_mc mc y \<longleftrightarrow> sat_mc mc x" if "mc \<in> set (sm_constraints m)" for mc
    using assms that by (auto simp: scoped_def sat_mc_def lin_val_agree)
  moreover have "sat_qc qc y \<longleftrightarrow> sat_qc qc x" if "qc \<in> set (sm_quadratic_constraints m)" for qc
    using assms that by (auto simp: scoped_def sat_qc_def lin_val_agree quad_val_agree)
  moreover have "sat_ix ic y \<longleftrightarrow> sat_ix ic x" if "ic \<in> set (sm_indicator_constraints m)" for ic
    using assms that by (intro sat_ix_agree) (auto simp: scoped_def)
  moreover have "sat_gn gc y \<longleftrightarrow> sat_gn gc x" if "gc \<in> set (sm_general_constraints m)" for gc
    using assms that by (intro sat_gn_agree) (auto simp: scoped_def)
  ultimately show ?thesis by (simp add: rigid_rows_def)
qed

section \<open>Enough slack\<close>

text \<open>A finite left-hand side reaches a bound that is not out of reach, if the slack is large enough.\<close>

definition reachable_bound :: "sense \<Rightarrow> dbl \<Rightarrow> bool" where
  "reachable_bound s k \<longleftrightarrow> \<not> isnan k \<and> \<not> IsUnreachableBound s k"

lemma enough_one_sided:
  assumes "s \<noteq> Eq" "\<forall>(l, k) \<in> set rows. isfinite l \<and> reachable_bound s k"
  shows "\<exists>p\<ge>0. \<forall>(l, k) \<in> set rows. sat_sense s l (moved s k p)"
  using assms(2)
proof (induction rows)
  case Nil
  then show ?case by (auto intro: exI [of _ 0])
next
  case (Cons row rows)
  obtain l k where row: "row = (l, k)" by (cases row)
  from Cons obtain p where p: "p \<ge> 0" "\<forall>(l, k) \<in> set rows. sat_sense s l (moved s k p)" by auto
  have mono: "sat_sense s l (moved s k p) \<Longrightarrow> p \<le> p' \<Longrightarrow> sat_sense s l (moved s k p')" for l k p p'
    using assms(1) by (cases s; cases l; cases k) (auto simp: moved_def dbl_arith)
  have "\<exists>q\<ge>0. sat_sense s l (moved s k q)"
  proof (intro exI conjI)
    show "0 \<le> \<bar>rval l - rval k\<bar>" by simp
    show "sat_sense s l (moved s k \<bar>rval l - rval k\<bar>)"
      using Cons.prems assms(1) unfolding row
      by (cases s; cases l; cases k) (auto simp: moved_def dbl_arith reachable_bound_def IsUnreachableBound_def)
  qed
  then obtain q where q: "q \<ge> 0" "sat_sense s l (moved s k q)" by blast
  show ?case
  proof (intro exI conjI)
    show "0 \<le> max p q" using p(1) by simp
    show "\<forall>(l, k) \<in> set (row # rows). sat_sense s l (moved s k (max p q))"
      using p(2) q(2) mono unfolding row by (auto split: prod.splits)
  qed
qed

lemma enough_equation:
  assumes "isfinite l" "reachable_bound Eq k"
  shows "\<exists>p\<ge>0. \<exists>q\<ge>0. sat_sense Eq l (moved Eq k (p - q))"
proof (intro exI conjI)
  show "0 \<le> max 0 (rval l - rval k)" "0 \<le> max 0 (rval k - rval l)" by simp_all
  show "sat_sense Eq l (moved Eq k (max 0 (rval l - rval k) - max 0 (rval k - rval l)))"
    using assms by (cases l; cases k) (auto simp: moved_def deq_def reachable_bound_def IsUnreachableBound_def max_def)
qed

text \<open>Values for the columns of all blocks at once.\<close>

lemma assign_blocks:
  assumes "distinct (concat (map bs_cols S))"
  shows "\<exists>y. (\<forall>c. c \<notin> set (concat (map bs_cols S)) \<longrightarrow> y c = x c) \<and>
    (\<forall>b \<in> set S. y (bs_pos_col b) = P b \<and> (\<forall>n. bs_neg_col b = Some n \<longrightarrow> y n = N b))"
  using assms
proof (induction S)
  case (Cons b S)
  from Cons obtain y where y: "\<forall>c. c \<notin> set (concat (map bs_cols S)) \<longrightarrow> y c = x c"
    "\<forall>b \<in> set S. y (bs_pos_col b) = P b \<and> (\<forall>n. bs_neg_col b = Some n \<longrightarrow> y n = N b)" by auto
  define z where "z = (case bs_neg_col b of None \<Rightarrow> y(bs_pos_col b := P b) | Some n \<Rightarrow> y(bs_pos_col b := P b, n := N b))"
  have "z c = y c" if "c \<notin> set (bs_cols b)" for c
    using that by (auto simp: z_def bs_cols_def split: option.splits)
  moreover have "z (bs_pos_col b) = P b \<and> (\<forall>n. bs_neg_col b = Some n \<longrightarrow> z n = N b)"
    using Cons.prems by (auto simp: z_def bs_cols_def split: option.splits)
  moreover have "bs_pos_col b' \<notin> set (bs_cols b) \<and> (\<forall>n. bs_neg_col b' = Some n \<longrightarrow> n \<notin> set (bs_cols b))" if "b' \<in> set S" for b'
    using Cons.prems that by (auto simp: bs_cols_def split: option.splits)
  ultimately show ?case using y by (intro exI [of _ z]) auto
qed auto

section \<open>What the program can repair\<close>

text \<open>
  The rows with an editable bound can be reached (the clauses whose bound is out of reach are
  reported before any program is built), and a shared equation bound has one row: a shift of the
  bound moves all rows of a block alike, so that several equations may need several shifts.
\<close>

definition repairable :: "SolverModel \<Rightarrow> BlockSlackRef list \<Rightarrow> bool" where
  "repairable base S \<longleftrightarrow>
     (\<forall>mc \<in> set (sm_constraints base). slackable (mc_provenance mc) \<longrightarrow> reachable_bound (mc_sense mc) (mc_rhs mc)) \<and>
     (\<forall>qc \<in> set (sm_quadratic_constraints base). slackable (qc_provenance qc) \<longrightarrow> reachable_bound (qc_sense qc) (qc_rhs qc)) \<and>
     (\<forall>b \<in> set S. bs_sense b = Eq \<longrightarrow> length (bs_rows b) = 1)"

definition block_values :: "SolverModel \<Rightarrow> (idx \<Rightarrow> real) \<Rightarrow> BlockSlackRef \<Rightarrow> (dbl \<times> dbl) list" where
  "block_values base x b = map (\<lambda>r.
     if bs_quadratic b
     then let qc = sm_quadratic_constraints base ! r
          in (lin_val (qc_linear_indices qc) (qc_linear_coefficients qc) x +
              quad_val (qc_q_rows qc) (qc_q_cols qc) (qc_q_coefficients qc) x, qc_rhs qc)
     else let mc = sm_constraints base ! r in (lin_val (mc_indices mc) (mc_coefficients mc) x, mc_rhs mc)) (bs_rows b)"

lemma enough_slack:
  assumes "block_ok base b" "\<forall>(l, k) \<in> set (block_values base x b). isfinite l \<and> reachable_bound (bs_sense b) k"
    and "bs_sense b = Eq \<Longrightarrow> length (bs_rows b) = 1"
  shows "\<exists>p q. 0 \<le> p \<and> 0 \<le> q \<and>
    (\<forall>(l, k) \<in> set (block_values base x b). sat_sense (bs_sense b) l (moved (bs_sense b) k (p - (case bs_neg_col b of None \<Rightarrow> 0 | Some _ \<Rightarrow> q))))"
proof (cases "bs_sense b = Eq")
  case False
  then have "bs_neg_col b = None" using assms(1) by (auto simp: block_ok_def)
  with enough_one_sided [OF False assms(2)] show ?thesis by auto
next
  case True
  then obtain n where n: "bs_neg_col b = Some n" using assms(1) by (auto simp: block_ok_def)
  have "length (block_values base x b) = 1" using assms(3) [OF True] by (simp add: block_values_def)
  then obtain l k where lk: "block_values base x b = [(l, k)]" by (auto simp: length_Suc_conv)
  then obtain p q where "0 \<le> p" "0 \<le> q" "sat_sense Eq l (moved Eq k (p - q))"
    using enough_equation [of l k] assms(2) True by auto
  then show ?thesis using n lk True by auto
qed

text \<open>The edited rows of a point extended by such values.\<close>

lemma edited_rows_hold:
  assumes scoped: "scoped base" and same: "agree (sm_num_vars base) x y" and blocks: "\<forall>b \<in> set S. block_ok base b"
    and rigid: "rigid_rows base x"
    and all_in: "\<And>r. r < length (sm_constraints base) \<Longrightarrow> slackable (mc_provenance (sm_constraints base ! r)) \<Longrightarrow>
        block_at S False r \<noteq> None"
    and all_in_q: "\<And>r. r < length (sm_quadratic_constraints base) \<Longrightarrow>
        slackable (qc_provenance (sm_quadratic_constraints base ! r)) \<Longrightarrow> block_at S True r \<noteq> None"
    and met: "\<And>b. b \<in> set S \<Longrightarrow> \<forall>(l, k) \<in> set (block_values base x b). sat_sense (bs_sense b) l (moved (bs_sense b) k (amount b y))"
  shows "model_rows (edited base S y) y"
proof -
  have mc: "sat_mc (edited_mc (block_at S False r) y (sm_constraints base ! r)) y" if r: "r < length (sm_constraints base)" for r
  proof (cases "block_at S False r")
    case None
    then have "\<not> slackable (mc_provenance (sm_constraints base ! r))" using all_in [OF r] by auto
    with None r show ?thesis
      using rigid rigid_rows_agree [OF scoped same] by (auto simp: edited_mc_def rigid_rows_def)
  next
    case (Some b)
    note b = block_at_Some [OF Some]
    let ?mc = "sm_constraints base ! r"
    have "lin_val (mc_indices ?mc) (mc_coefficients ?mc) y = lin_val (mc_indices ?mc) (mc_coefficients ?mc) x"
      using scoped r by (intro lin_val_agree [OF same]) (auto simp: scoped_def)
    moreover have "mc_sense ?mc = bs_sense b" using blocks b by (auto simp: block_ok_def)
    moreover have "(lin_val (mc_indices ?mc) (mc_coefficients ?mc) x, mc_rhs ?mc) \<in> set (block_values base x b)"
      using b by (auto simp: block_values_def Let_def image_iff)
    ultimately show ?thesis using met [of b] b Some by (auto simp: edited_mc_def sat_mc_def)
  qed
  have qc: "sat_qc (edited_qc (block_at S True r) y (sm_quadratic_constraints base ! r)) y"
    if r: "r < length (sm_quadratic_constraints base)" for r
  proof (cases "block_at S True r")
    case None
    then have "\<not> slackable (qc_provenance (sm_quadratic_constraints base ! r))" using all_in_q [OF r] by auto
    with None r show ?thesis
      using rigid rigid_rows_agree [OF scoped same] by (auto simp: edited_qc_def rigid_rows_def)
  next
    case (Some b)
    note b = block_at_Some [OF Some]
    let ?qc = "sm_quadratic_constraints base ! r"
    have "lin_val (qc_linear_indices ?qc) (qc_linear_coefficients ?qc) y = lin_val (qc_linear_indices ?qc) (qc_linear_coefficients ?qc) x"
      "quad_val (qc_q_rows ?qc) (qc_q_cols ?qc) (qc_q_coefficients ?qc) y = quad_val (qc_q_rows ?qc) (qc_q_cols ?qc) (qc_q_coefficients ?qc) x"
      using scoped r by (auto intro!: lin_val_agree [OF same] quad_val_agree [OF same] simp: scoped_def)
    moreover have "qc_sense ?qc = bs_sense b" using blocks b by (auto simp: block_ok_def)
    moreover have "(lin_val (qc_linear_indices ?qc) (qc_linear_coefficients ?qc) x +
        quad_val (qc_q_rows ?qc) (qc_q_cols ?qc) (qc_q_coefficients ?qc) x, qc_rhs ?qc) \<in> set (block_values base x b)"
      using b by (auto simp: block_values_def Let_def image_iff)
    ultimately show ?thesis using met [of b] b Some by (auto simp: edited_qc_def sat_qc_def)
  qed
  show ?thesis
    using mc qc rigid rigid_rows_agree [OF scoped same] by (auto simp: model_rows_def edited_def rigid_rows_def)
qed

lemma slackable_has_block:
  assumes ok: "elastic_ok slack_scope base" and e: "e = BuildElasticModel base slack_scope"
  shows "r < length (sm_constraints base) \<Longrightarrow> slackable (mc_provenance (sm_constraints base ! r)) \<longleftrightarrow>
      block_at (em_slacks e) False r \<noteq> None"
    and "q < length (sm_quadratic_constraints base) \<Longrightarrow> slackable (qc_provenance (sm_quadratic_constraints base ! q)) \<longleftrightarrow>
      block_at (em_slacks e) True q \<noteq> None"
proof -
  show "slackable (mc_provenance (sm_constraints base ! r)) \<longleftrightarrow> block_at (em_slacks e) False r \<noteq> None"
    if "r < length (sm_constraints base)"
    using linear_blocks [OF ok e that] unfolding block_at_None row_prov_def by auto
  show "slackable (qc_provenance (sm_quadratic_constraints base ! q)) \<longleftrightarrow> block_at (em_slacks e) True q \<noteq> None"
    if "q < length (sm_quadratic_constraints base)"
    using quadratic_blocks(1) [OF ok e, of q] that unfolding block_at_None by auto
qed

lemma block_values_ok:
  assumes ok: "elastic_ok slack_scope base" and e: "e = BuildElasticModel base slack_scope"
    and scoped: "scoped base" and rep: "repairable base (em_slacks e)"
    and b: "b \<in> set (em_slacks e)" "block_ok base b"
  shows "\<forall>(l, k) \<in> set (block_values base x b). isfinite l \<and> reachable_bound (bs_sense b) k"
proof -
  have mc: "isfinite (lin_val (mc_indices mc) (mc_coefficients mc) x) \<and> reachable_bound (bs_sense b) (mc_rhs mc)"
    if r: "r \<in> set (bs_rows b)" "\<not> bs_quadratic b" and mc: "mc = sm_constraints base ! r" for r mc
  proof -
    have lt: "r < length (sm_constraints base)" "mc_sense mc = bs_sense b" using r b(2) mc by (auto simp: block_ok_def)
    have "slackable (mc_provenance mc)" using linear_blocks [OF ok e lt(1)] r b(1) mc by (auto simp: row_prov_def)
    moreover have "mc \<in> set (sm_constraints base)" using lt(1) mc by simp
    ultimately show ?thesis using rep scoped lt(2) by (auto simp: repairable_def scoped_def lin_val_finite)
  qed
  have qc: "isfinite (lin_val (qc_linear_indices qc) (qc_linear_coefficients qc) x +
        quad_val (qc_q_rows qc) (qc_q_cols qc) (qc_q_coefficients qc) x) \<and> reachable_bound (bs_sense b) (qc_rhs qc)"
    if r: "r \<in> set (bs_rows b)" "bs_quadratic b" and qc: "qc = sm_quadratic_constraints base ! r" for r qc
  proof -
    have lt: "r < length (sm_quadratic_constraints base)" "qc_sense qc = bs_sense b" using r b(2) qc by (auto simp: block_ok_def)
    have "slackable (qc_provenance qc)" using quadratic_blocks(1) [OF ok e, of r] r b(1) qc by auto
    moreover have "qc \<in> set (sm_quadratic_constraints base)" using lt(1) qc by simp
    ultimately show ?thesis
      using rep scoped lt(2) by (auto simp: repairable_def scoped_def lin_val_finite intro!: isfinite_plus quad_val_finite)
  qed
  show ?thesis using mc qc by (auto simp: block_values_def Let_def)
qed

text \<open>
  C18. What the elastic program can repair. If every editable bound can be reached and shared equations
  have one row, a point extends to a point of the elastic program exactly if it lies in the columns
  and meets the rigid rows. So the program is infeasible only where no change of the editable bounds
  helps, which is what the diagnosis then reports.
\<close>

theorem elastic_reach:
  assumes ok: "elastic_ok slack_scope base" and e: "e = BuildElasticModel base slack_scope"
    and scoped: "scoped base" and rep: "repairable base (em_slacks e)"
  shows "(\<exists>y. agree (sm_num_vars base) x y \<and> model_columns (em_model e) y \<and> model_rows (em_model e) y) \<longleftrightarrow>
    model_columns base x \<and> rigid_rows base x"
proof
  let ?S = "em_slacks e"
  have inv: "elastic_inv base e" using elastic_ok_sense [OF ok] e by (rule BuildElasticModel_facts(1))
  assume "\<exists>y. agree (sm_num_vars base) x y \<and> model_columns (em_model e) y \<and> model_rows (em_model e) y"
  then obtain y where y: "agree (sm_num_vars base) x y" "model_columns base y" "model_rows (edited base ?S y) y"
    using elastic_admits [OF ok inv] by blast
  have "sat_mc mc y" if "mc \<in> set (sm_constraints base)" "\<not> slackable (mc_provenance mc)" for mc
  proof -
    from that(1) obtain r where r: "r < length (sm_constraints base)" "mc = sm_constraints base ! r"
      by (auto simp: in_set_conv_nth)
    then have "block_at ?S False r = None" using slackable_has_block(1) [OF ok e r(1)] that(2) by simp
    moreover have "sat_mc (edited_mc (block_at ?S False r) y mc) y"
      using y(3) r by (auto simp: model_rows_def edited_def)
    ultimately show ?thesis by (simp add: edited_mc_def)
  qed
  moreover have "sat_qc qc y" if "qc \<in> set (sm_quadratic_constraints base)" "\<not> slackable (qc_provenance qc)" for qc
  proof -
    from that(1) obtain r where r: "r < length (sm_quadratic_constraints base)" "qc = sm_quadratic_constraints base ! r"
      by (auto simp: in_set_conv_nth)
    then have "block_at ?S True r = None" using slackable_has_block(2) [OF ok e r(1)] that(2) by simp
    moreover have "sat_qc (edited_qc (block_at ?S True r) y qc) y"
      using y(3) r by (auto simp: model_rows_def edited_def)
    ultimately show ?thesis by (simp add: edited_qc_def)
  qed
  ultimately have "rigid_rows base y" using y(3) by (auto simp: rigid_rows_def model_rows_def edited_def)
  then show "model_columns base x \<and> rigid_rows base x"
    using y(1,2) rigid_rows_agree [OF scoped y(1)] model_columns_agree [OF y(1)] by simp
next
  let ?S = "em_slacks e"
  assume x: "model_columns base x \<and> rigid_rows base x"
  have inv: "elastic_inv base e" using elastic_ok_sense [OF ok] e by (rule BuildElasticModel_facts(1))
  then obtain d where d: "concat (map bs_cols ?S) = [sm_num_vars base..<sm_num_vars base + d]" "\<forall>b \<in> set ?S. block_ok base b"
    by (auto simp: elastic_inv_def)
  have "\<exists>p q. 0 \<le> p \<and> 0 \<le> q \<and> (\<forall>(l, k) \<in> set (block_values base x b).
      sat_sense (bs_sense b) l (moved (bs_sense b) k (p - (case bs_neg_col b of None \<Rightarrow> 0 | Some _ \<Rightarrow> q))))" if b: "b \<in> set ?S" for b
  proof (rule enough_slack)
    show "\<forall>(l, k) \<in> set (block_values base x b). isfinite l \<and> reachable_bound (bs_sense b) k"
      using d(2) b by (intro block_values_ok [OF ok e scoped rep]) auto
  qed (use b d(2) rep in \<open>auto simp: repairable_def\<close>)
  then obtain P N where PN: "\<forall>b \<in> set ?S. 0 \<le> P b \<and> 0 \<le> N b \<and> (\<forall>(l, k) \<in> set (block_values base x b).
      sat_sense (bs_sense b) l (moved (bs_sense b) k (P b - (case bs_neg_col b of None \<Rightarrow> 0 | Some _ \<Rightarrow> N b))))"
    by metis
  obtain y where y: "\<forall>c. c \<notin> set (concat (map bs_cols ?S)) \<longrightarrow> y c = x c"
    "\<forall>b \<in> set ?S. y (bs_pos_col b) = P b \<and> (\<forall>n. bs_neg_col b = Some n \<longrightarrow> y n = N b)"
    using assign_blocks [of ?S x P N] unfolding d(1) by auto
  have same: "agree (sm_num_vars base) x y" using y(1) unfolding d(1) by (simp add: agree_def)
  have amount: "amount b y = P b - (case bs_neg_col b of None \<Rightarrow> 0 | Some _ \<Rightarrow> N b)" if "b \<in> set ?S" for b
    using y(2) that by (auto simp: amount_def split: option.splits)
  have "model_rows (edited base ?S y) y"
    by (rule edited_rows_hold [OF scoped same d(2)])
       (use x slackable_has_block [OF ok e] PN amount in auto)
  moreover have "slacks_nonneg ?S y"
    using y(2) PN by (auto simp: slacks_nonneg_def bs_cols_def split: option.splits)
  ultimately show "\<exists>y. agree (sm_num_vars base) x y \<and> model_columns (em_model e) y \<and> model_rows (em_model e) y"
    using elastic_admits [OF ok inv] x same model_columns_agree [OF same] by blast
qed

section \<open>The weights\<close>

lemma rms_norm_finite:
  assumes "list_all isfinite cs"
  shows "\<exists>r\<ge>0. rms_norm cs = Fin r"
proof -
  have "\<exists>t\<ge>a. fold (\<lambda>v s. s + v * v) cs (Fin a) = Fin t" for a
    using assms
  proof (induction cs arbitrary: a)
    case (Cons v cs)
    then obtain w where w: "v = Fin w" by (auto elim: isfiniteE)
    obtain t where "t \<ge> a + w * w" "fold (\<lambda>v s. s + v * v) cs (Fin (a + w * w)) = Fin t" using Cons by auto
    then show ?case using w by (intro exI [of _ t]) (simp, meson le_add_same_cancel1 order_trans zero_le_square)
  qed auto
  then obtain t where t: "t \<ge> 0" "fold (\<lambda>v s. s + v * v) cs 0 = Fin t" by (metis zero_dbl_def)
  show ?thesis
  proof (cases "cs = []")
    case True
    then show ?thesis by (simp add: rms_norm_def zero_dbl_def)
  next
    case False
    then have "rms_norm cs = Fin (sqrt (t / real (length cs)))" using t by (simp add: rms_norm_def divide_less_0_iff)
    then show ?thesis using t(1) by auto
  qed
qed

definition least_of :: "dbl set \<Rightarrow> dbl option \<Rightarrow> bool" where
  "least_of N ref \<longleftrightarrow> (case ref of None \<Rightarrow> \<forall>n \<in> N. \<not> n > 0
     | Some m \<Rightarrow> m > 0 \<and> isfinite m \<and> (\<forall>n \<in> N. n > 0 \<longrightarrow> m \<le> n))"

lemma consider_ref_least:
  assumes "least_of N ref" "isfinite n"
  shows "least_of (insert n N) (consider_ref n ref)"
proof -
  have trans: "a \<le> b \<Longrightarrow> b \<le> c \<Longrightarrow> a \<le> c" for a b c :: dbl by (cases a; cases b; cases c) auto
  have lin: "isfinite a \<Longrightarrow> isfinite b \<Longrightarrow> \<not> a < b \<Longrightarrow> b \<le> a" for a b by (cases a; cases b) auto
  have less: "a < b \<Longrightarrow> a \<le> b" "isfinite a \<Longrightarrow> a \<le> a" for a b :: dbl by (cases a; cases b; simp)+
  show ?thesis
  proof (cases ref)
    case None
    with assms show ?thesis by (auto simp: least_of_def consider_ref_def less(2))
  next
    case (Some m)
    with assms show ?thesis
      by (auto simp: least_of_def consider_ref_def less(2) intro: lin trans [OF less(1)])
  qed
qed

lemma ref_norm_least:
  assumes "scoped base"
  shows "\<exists>ref. ref_norm base = (case ref of None \<Rightarrow> 1 | Some r \<Rightarrow> r) \<and>
    least_of ({rms_norm (mc_coefficients mc) | mc. mc \<in> set (sm_constraints base) \<and> slackable (mc_provenance mc) \<and>
                 \<not> is_data_offset (mc_provenance mc)} \<union>
              {rms_norm (qc_linear_coefficients qc) | qc. qc \<in> set (sm_quadratic_constraints base) \<and> slackable (qc_provenance qc)}) ref"
proof -
  have mono: "least_of N ref \<Longrightarrow> M \<subseteq> N \<Longrightarrow> least_of M ref" for M N ref by (auto simp: least_of_def split: option.splits)
  have lin: "least_of (N \<union> {rms_norm (mc_coefficients mc) | mc. mc \<in> set mcs \<and> slackable (mc_provenance mc) \<and>
      \<not> is_data_offset (mc_provenance mc)}) (fold linear_ref mcs ref)"
    if "least_of N ref" "\<forall>mc \<in> set mcs. list_all isfinite (mc_coefficients mc)" for N ref mcs
    using that
  proof (induction mcs arbitrary: N ref)
    case (Cons mc mcs)
    have "isfinite (rms_norm (mc_coefficients mc))" using rms_norm_finite Cons.prems(2) by (metis isfinite.simps(1) list.set_intros(1))
    then have "least_of (if slackable (mc_provenance mc) \<and> \<not> is_data_offset (mc_provenance mc)
        then insert (rms_norm (mc_coefficients mc)) N else N) (linear_ref mc ref)"
      using consider_ref_least [OF Cons.prems(1)] Cons.prems(1) by (simp add: linear_ref_def)
    then show ?case
      unfolding fold_simps(2) by (rule mono [OF Cons.IH]) (use Cons.prems(2) in \<open>auto split: if_splits\<close>)
  qed simp
  have quad: "least_of (N \<union> {rms_norm (qc_linear_coefficients qc) | qc. qc \<in> set qcs \<and> slackable (qc_provenance qc)}) (fold quadratic_ref qcs ref)"
    if "least_of N ref" "\<forall>qc \<in> set qcs. list_all isfinite (qc_linear_coefficients qc)" for N ref qcs
    using that
  proof (induction qcs arbitrary: N ref)
    case (Cons qc qcs)
    have "isfinite (rms_norm (qc_linear_coefficients qc))" using rms_norm_finite Cons.prems(2) by (metis isfinite.simps(1) list.set_intros(1))
    then have "least_of (if slackable (qc_provenance qc) then insert (rms_norm (qc_linear_coefficients qc)) N else N) (quadratic_ref qc ref)"
      using consider_ref_least [OF Cons.prems(1)] Cons.prems(1) by (simp add: quadratic_ref_def)
    then show ?case
      unfolding fold_simps(2) by (rule mono [OF Cons.IH]) (use Cons.prems(2) in \<open>auto split: if_splits\<close>)
  qed simp
  have "least_of {} None" by (simp add: least_of_def)
  from quad [OF lin [OF this]] have "least_of ({rms_norm (mc_coefficients mc) | mc. mc \<in> set (sm_constraints base) \<and>
      slackable (mc_provenance mc) \<and> \<not> is_data_offset (mc_provenance mc)} \<union>
      {rms_norm (qc_linear_coefficients qc) | qc. qc \<in> set (sm_quadratic_constraints base) \<and> slackable (qc_provenance qc)})
      (fold quadratic_ref (sm_quadratic_constraints base) (fold linear_ref (sm_constraints base) None))"
    using assms by (simp add: scoped_def)
  with ref_norm_def [of base] show ?thesis by blast
qed

lemma editable_weight_bounds:
  assumes "isfinite n" "0 \<le> n" "ref_norm base = (case ref of None \<Rightarrow> 1 | Some r \<Rightarrow> r)" "least_of N ref" "n \<in> N"
  shows "0 < editable_weight (ref_norm base) n \<and> editable_weight (ref_norm base) n \<le> 1"
proof (cases "n > 0")
  case True
  with assms(4,5) obtain m where m: "ref = Some m" "m > 0" "isfinite m" "m \<le> n" by (auto simp: least_of_def split: option.splits)
  obtain a b where "m = Fin a" "n = Fin b" using m(3) assms(1) by (auto elim!: isfiniteE)
  with m True assms(3) show ?thesis by (simp add: editable_weight_def dbl_arith)
next
  case False
  then show ?thesis by (simp add: editable_weight_def dbl_arith)
qed

text \<open>
  The weights. A data offset costs its slack as it is; every other block has a weight in
  \<open>(0, 1]\<close>, so that no repair is free and no knob costs more than its slack.
\<close>

lemma elastic_weights:
  assumes ok: "elastic_ok slack_scope base" and e: "e = BuildElasticModel base slack_scope"
    and scoped: "scoped base" and b: "b \<in> set (em_slacks e)"
  shows "0 < bs_weight b \<and> bs_weight b \<le> 1 \<and> (bs_tier b = DATA_OFFSET \<longrightarrow> bs_weight b = 1)"
proof -
  note facts = BuildElasticModel_facts [OF elastic_ok_sense [OF ok] e]
  have b_ok: "block_ok base b" "labelled base b" using facts(1,2) b by (auto simp: elastic_inv_def)
  obtain ref where ref: "ref_norm base = (case ref of None \<Rightarrow> 1 | Some r \<Rightarrow> r)" and least:
    "least_of ({rms_norm (mc_coefficients mc) | mc. mc \<in> set (sm_constraints base) \<and> slackable (mc_provenance mc) \<and>
                 \<not> is_data_offset (mc_provenance mc)} \<union>
              {rms_norm (qc_linear_coefficients qc) | qc. qc \<in> set (sm_quadratic_constraints base) \<and> slackable (qc_provenance qc)}) ref"
    using ref_norm_least [OF scoped] by blast
  let ?r = "hd (bs_rows b)"
  have r: "?r \<in> set (bs_rows b)" using b_ok(1) by (simp add: block_ok_def)
  show ?thesis
  proof (cases "bs_quadratic b")
    case True
    let ?qc = "sm_quadratic_constraints base ! ?r"
    have qc: "?qc \<in> set (sm_quadratic_constraints base)" "slackable (qc_provenance ?qc)"
      using True r b quadratic_blocks(1) [OF ok e, of ?r] by auto
    have "list_all isfinite (qc_linear_coefficients ?qc)" using qc(1) scoped by (auto simp: scoped_def)
    from rms_norm_finite [OF this] obtain t where t: "t \<ge> 0" "rms_norm (qc_linear_coefficients ?qc) = Fin t" by blast
    then have "rms_norm (qc_linear_coefficients ?qc) \<in> {rms_norm (qc_linear_coefficients qc) | qc.
        qc \<in> set (sm_quadratic_constraints base) \<and> slackable (qc_provenance qc)}"
      using qc by blast
    then show ?thesis
      using True b_ok(2) editable_weight_bounds [OF _ _ ref least UnI2] t
      by (simp add: labelled_def zero_dbl_def)
  next
    case False
    let ?mc = "sm_constraints base ! ?r"
    have lt: "?r < length (sm_constraints base)" using False r b_ok(1) by (auto simp: block_ok_def)
    have mc: "?mc \<in> set (sm_constraints base)" "slackable (mc_provenance ?mc)"
      using lt linear_blocks [OF ok e lt] False r b by (auto simp: row_prov_def)
    have "list_all isfinite (mc_coefficients ?mc)" using mc(1) scoped by (auto simp: scoped_def)
    from rms_norm_finite [OF this] obtain t where t: "t \<ge> 0" "rms_norm (mc_coefficients ?mc) = Fin t" by blast
    show ?thesis
    proof (cases "is_data_offset (row_prov base ?r)")
      case True
      with False b_ok(2) show ?thesis by (simp add: labelled_def dbl_arith)
    next
      case no: False
      have "rms_norm (mc_coefficients ?mc) \<in> {rms_norm (mc_coefficients mc) | mc. mc \<in> set (sm_constraints base) \<and>
          slackable (mc_provenance mc) \<and> \<not> is_data_offset (mc_provenance mc)}"
        using mc no by (auto simp: row_prov_def)
      then show ?thesis
        using False no b_ok(2) editable_weight_bounds [OF _ _ ref least UnI1] t
        by (simp add: labelled_def zero_dbl_def)
    qed
  qed
qed

end
