(* ===== verification/SolveResults.thy ===== *)
theory SolveResults
  imports SolverModels
begin

text \<open>
  What a solve returns, from \<open>decidb/solver/solver_result.hpp\<close>, and what the code relies on about a
  backend. The backends themselves (Gurobi, HiGHS) are not part of the repository: they are a
  parameter \<open>solve\<close> of the definitions that use them, and \<open>sound_solver\<close> states the documented
  meaning of the three conclusive statuses. Prefix: \<open>sr_\<close> SolverResult.
\<close>

datatype SolverStatus =
    OPTIMAL | INFEASIBLE | UNBOUNDED | INF_OR_UNBD | TIME_LIMIT | SUBOPTIMAL | ITERATION_LIMIT | OTHER

record SolverResult =
  sr_status :: SolverStatus
  sr_solution :: "dbl list"
  sr_objective_value :: dbl
  sr_ray :: "dbl list"
  sr_diagnostic_timed_out :: bool
  sr_raw_status :: int
  sr_has_solution :: bool
  sr_best_bound :: dbl
  sr_gap :: dbl
  sr_user_interrupted :: bool
  sr_model_constraint_rows :: nat

definition sr_default :: SolverResult where
  "sr_default = \<lparr>
     sr_status = OTHER, sr_solution = [], sr_objective_value = 0, sr_ray = [],
     sr_diagnostic_timed_out = False, sr_raw_status = 0, sr_has_solution = False, sr_best_bound = NaN,
     sr_gap = NaN, sr_user_interrupted = False, sr_model_constraint_rows = 0\<rparr>"

section \<open>The points a result speaks about\<close>

definition feasible :: "SolverModel \<Rightarrow> (idx \<Rightarrow> real) \<Rightarrow> bool" where
  "feasible m x \<longleftrightarrow> model_columns m x \<and> model_rows m x"

definition no_worse :: "bool \<Rightarrow> dbl \<Rightarrow> dbl \<Rightarrow> bool" where
  "no_worse maximize a b \<longleftrightarrow> (if maximize then b \<le> a else a \<le> b)"

definition optimal :: "SolverModel \<Rightarrow> (idx \<Rightarrow> real) \<Rightarrow> bool" where
  "optimal m x \<longleftrightarrow> feasible m x \<and>
     (\<forall>y. feasible m y \<longrightarrow> no_worse (sm_maximize m) (obj_val m x) (obj_val m y))"

definition point :: "dbl list \<Rightarrow> idx \<Rightarrow> real" where
  "point solution c = (if c < length solution then rval (solution ! c) else 0)"

text \<open>
  What the statuses promise: an optimum comes with an optimal point and its value, an infeasible
  model has no point, and an unbounded one has points that beat every value.
\<close>

definition sound_result :: "SolverModel \<Rightarrow> SolverResult \<Rightarrow> bool" where
  "sound_result m result \<longleftrightarrow>
     (sr_status result = OPTIMAL \<longrightarrow>
        length (sr_solution result) = sm_num_vars m \<and> list_all isfinite (sr_solution result) \<and>
        optimal m (point (sr_solution result)) \<and>
        sr_objective_value result = obj_val m (point (sr_solution result))) \<and>
     (sr_status result = INFEASIBLE \<longrightarrow> \<not> (\<exists>x. feasible m x)) \<and>
     (sr_status result = UNBOUNDED \<longrightarrow>
        (\<forall>k. \<exists>x. feasible m x \<and> (if sm_maximize m then Fin k \<le> obj_val m x else obj_val m x \<le> Fin k)))"

definition sound_solver :: "(SolverModel \<Rightarrow> SolverResult) \<Rightarrow> bool" where
  "sound_solver solve \<longleftrightarrow> (\<forall>m. sound_result m (solve m))"

lemma sound_optimal:
  assumes "sound_solver solve" "sr_status (solve m) = OPTIMAL"
  shows "optimal m (point (sr_solution (solve m)))" "length (sr_solution (solve m)) = sm_num_vars m"
    "list_all isfinite (sr_solution (solve m))"
    "sr_objective_value (solve m) = obj_val m (point (sr_solution (solve m)))"
  using assms by (auto simp: sound_solver_def sound_result_def)

lemma sound_infeasible:
  "sound_solver solve \<Longrightarrow> sr_status (solve m) = INFEASIBLE \<Longrightarrow> \<not> feasible m x"
  by (auto simp: sound_solver_def sound_result_def)

end
