(* ===== verification/RepairTiers.thy ===== *)
theory RepairTiers
  imports ElasticReach SolveResults
begin

text \<open>
  The lexicographic objective of the repair, from \<open>decide_diagnostic_engines.cpp\<close>: the slacks of one
  tier as an objective (\<open>SetTierObjective\<close>), the value a solution reaches (\<open>ComputeTierValue\<close>), the
  row that keeps a solved tier at its value (\<open>AddTierBudgetRow\<close>), the model of the second stage that
  restores the query's objective (\<open>BuildStage2Model\<close>), and the model that breaks ties by the order of
  the clauses (\<open>BuildTieBreakModel\<close>). Prefix: \<open>tb_\<close> TierBudget.
\<close>

section \<open>The operations\<close>

definition HasObjective :: "SolverModel \<Rightarrow> bool" where
  "HasObjective m \<longleftrightarrow> sm_has_quadratic_obj m \<or> list_ex (\<lambda>c. c \<noteq> 0) (sm_obj_coeffs m)"

record TierBudget =
  tb_tier :: ElasticRepairTier
  tb_value :: dbl
  tb_active :: bool

definition SlackTierCoefficient :: "BlockSlackRef \<Rightarrow> ElasticRepairTier \<Rightarrow> dbl" where
  "SlackTierCoefficient sl tier =
     (if bs_tier sl \<noteq> tier then 0 else if tier = EDITABLE_LOOSEN then bs_weight sl else 1)"

definition append_tier_term :: "ElasticRepairTier \<Rightarrow> BlockSlackRef \<Rightarrow> ModelConstraint \<Rightarrow> ModelConstraint" where
  "append_tier_term tier sl row =
     (let coeff = SlackTierCoefficient sl tier
      in if coeff = 0 then row
         else let row = row\<lparr>mc_indices := mc_indices row @ [bs_pos_col sl],
                           mc_coefficients := mc_coefficients row @ [coeff]\<rparr>
              in case bs_neg_col sl of
                   None \<Rightarrow> row
                 | Some n \<Rightarrow> row\<lparr>mc_indices := mc_indices row @ [n],
                                mc_coefficients := mc_coefficients row @ [coeff]\<rparr>)"

definition AppendTierTerms :: "ModelConstraint \<Rightarrow> BlockSlackRef list \<Rightarrow> ElasticRepairTier \<Rightarrow> bool \<times> ModelConstraint" where
  "AppendTierTerms row slacks tier =
     (let row = fold (append_tier_term tier) slacks row in (mc_indices row \<noteq> [], row))"

definition TierHasTerms :: "BlockSlackRef list \<Rightarrow> ElasticRepairTier \<Rightarrow> bool" where
  "TierHasTerms slacks tier = list_ex (\<lambda>sl. bs_tier sl = tier) slacks"

definition SetTierObjective :: "SolverModel \<Rightarrow> BlockSlackRef list \<Rightarrow> ElasticRepairTier \<Rightarrow> SolverModel" where
  "SetTierObjective m slacks tier =
     (let m = drop_objective m;
          (some_terms, terms) = AppendTierTerms mc_default slacks tier
      in if \<not> some_terms then m
         else m\<lparr>sm_obj_coeffs := fold (\<lambda>(col, coeff) obj. obj[col := coeff])
                  (zip (mc_indices terms) (mc_coefficients terms)) (sm_obj_coeffs m)\<rparr>)"

definition tier_value_step :: "dbl list \<Rightarrow> ElasticRepairTier \<Rightarrow> BlockSlackRef \<Rightarrow> dbl \<Rightarrow> dbl" where
  "tier_value_step solution tier sl value =
     (let coeff = SlackTierCoefficient sl tier
      in if coeff = 0 then value
         else let value = value + coeff * solution ! bs_pos_col sl
              in case bs_neg_col sl of None \<Rightarrow> value | Some n \<Rightarrow> value + coeff * solution ! n)"

definition ComputeTierValue :: "dbl list \<Rightarrow> BlockSlackRef list \<Rightarrow> ElasticRepairTier \<Rightarrow> dbl" where
  "ComputeTierValue solution slacks tier = std_max 0 (fold (tier_value_step solution tier) slacks 0)"

definition MakeTierBudget :: "dbl list \<Rightarrow> BlockSlackRef list \<Rightarrow> ElasticRepairTier \<Rightarrow> TierBudget" where
  "MakeTierBudget solution slacks tier =
     (let active = fst (AppendTierTerms mc_default slacks tier)
      in \<lparr>tb_tier = tier, tb_value = (if active then ComputeTierValue solution slacks tier else 0),
          tb_active = active\<rparr>)"

definition AddTierBudgetRow :: "BlockSlackRef list \<Rightarrow> TierBudget \<Rightarrow> SolverModel \<Rightarrow> SolverModel" where
  "AddTierBudgetRow slacks budget m =
     (if \<not> tb_active budget then m
      else let (some_terms, row) = AppendTierTerms mc_default slacks (tb_tier budget)
           in if \<not> some_terms then m
              else m\<lparr>sm_constraints := sm_constraints m @ [row\<lparr>
                     mc_sense := Le, mc_rhs := tb_value budget,
                     mc_provenance := (mc_provenance row)\<lparr>cp_kind := STRUCTURAL\<rparr>\<rparr>]\<rparr>)"

text \<open>\<open>resize(num_vars, 0.0)\<close>.\<close>

definition BuildStage2Model :: "SolverModel \<Rightarrow> BlockSlackRef list \<Rightarrow> SolverModel \<Rightarrow> TierBudget list \<Rightarrow> SolverModel" where
  "BuildStage2Model elastic slacks original budgets =
     (let stage2 = fold (AddTierBudgetRow slacks) budgets elastic;
          n = sm_num_vars stage2
      in stage2\<lparr>
           sm_obj_coeffs := take n (sm_obj_coeffs original) @ replicate (n - length (sm_obj_coeffs original)) 0,
           sm_q_rows := sm_q_rows original, sm_q_cols := sm_q_cols original, sm_q_vals := sm_q_vals original,
           sm_has_quadratic_obj := sm_has_quadratic_obj original,
           sm_nonconvex_quadratic := sm_nonconvex_quadratic original,
           sm_maximize := sm_maximize original\<rparr>)"

definition freeze_row :: "SolverModel \<Rightarrow> dbl \<Rightarrow> ModelConstraint" where
  "freeze_row m objective_value =
     (let cols = filter (\<lambda>j. sm_obj_coeffs m ! j \<noteq> 0) [0..<length (sm_obj_coeffs m)]
      in mc_default\<lparr>mc_indices := cols, mc_coefficients := map (\<lambda>j. sm_obj_coeffs m ! j) cols,
           mc_sense := (if sm_maximize m then Ge else Le), mc_rhs := objective_value,
           mc_provenance := cp_default\<lparr>cp_kind := STRUCTURAL\<rparr>\<rparr>)"

definition rank_objective :: "BlockSlackRef list \<Rightarrow> dbl list \<Rightarrow> dbl list" where
  "rank_objective slacks obj =
     fold (\<lambda>i obj. let sl = slacks ! i; coeff = SlackTierCoefficient sl (bs_tier sl) * Fin (real (i + 1));
                      obj = obj[bs_pos_col sl := coeff]
                  in case bs_neg_col sl of None \<Rightarrow> obj | Some n \<Rightarrow> obj[n := coeff])
       [0..<length slacks] (map (\<lambda>_. 0) obj)"

text \<open>\<open>None\<close> where the function returns false.\<close>

definition BuildTieBreakModel :: "SolverModel \<Rightarrow> BlockSlackRef list \<Rightarrow> bool \<Rightarrow> dbl \<Rightarrow> SolverModel option" where
  "BuildTieBreakModel m slacks freeze_objective objective_value =
     (let data_knobs = length (filter (\<lambda>sl. bs_tier sl = DATA_OFFSET) slacks);
          editable_knobs = length (filter (\<lambda>sl. bs_tier sl \<noteq> DATA_OFFSET) slacks);
          ranked = (\<lambda>m. m\<lparr>sm_obj_coeffs := rank_objective slacks (sm_obj_coeffs m), sm_maximize := False\<rparr>)
      in if editable_knobs < 2 \<and> data_knobs < 2 then None
         else if freeze_objective
         then if sm_has_quadratic_obj m then None
              else if mc_indices (freeze_row m objective_value) = [] then None
              else Some (ranked (m\<lparr>sm_constraints := sm_constraints m @ [freeze_row m objective_value]\<rparr>))
         else Some (ranked m))"

section \<open>What a tier costs\<close>

text \<open>The slack columns are distinct columns of the model, and every weight is finite and positive.\<close>

definition slacks_ok :: "nat \<Rightarrow> BlockSlackRef list \<Rightarrow> bool" where
  "slacks_ok n slacks \<longleftrightarrow> distinct (concat (map bs_cols slacks)) \<and>
     (\<forall>c \<in> set (concat (map bs_cols slacks)). c < n) \<and>
     (\<forall>b \<in> set slacks. isfinite (bs_weight b) \<and> 0 < bs_weight b)"

definition slack_total :: "(idx \<Rightarrow> real) \<Rightarrow> BlockSlackRef \<Rightarrow> real" where
  "slack_total y b = (\<Sum>c\<leftarrow>bs_cols b. y c)"

definition tier_cost :: "BlockSlackRef list \<Rightarrow> ElasticRepairTier \<Rightarrow> (idx \<Rightarrow> real) \<Rightarrow> real" where
  "tier_cost slacks tier y = (\<Sum>b\<leftarrow>slacks. rval (SlackTierCoefficient b tier) * slack_total y b)"

lemma coefficient_facts:
  assumes "slacks_ok n slacks" "b \<in> set slacks"
  shows "isfinite (SlackTierCoefficient b tier)" "0 \<le> rval (SlackTierCoefficient b tier)"
    "SlackTierCoefficient b tier = 0 \<longleftrightarrow> bs_tier b \<noteq> tier"
proof -
  have w: "isfinite (bs_weight b)" "0 < bs_weight b" using assms by (auto simp: slacks_ok_def)
  then obtain r where "bs_weight b = Fin r" "0 < r" by (auto simp: dbl_arith elim: isfiniteE)
  then show "isfinite (SlackTierCoefficient b tier)" "0 \<le> rval (SlackTierCoefficient b tier)"
    "SlackTierCoefficient b tier = 0 \<longleftrightarrow> bs_tier b \<noteq> tier"
    by (auto simp: SlackTierCoefficient_def dbl_arith)
qed

lemma tier_cost_nonneg:
  assumes "slacks_ok n slacks" "slacks_nonneg slacks y"
  shows "0 \<le> tier_cost slacks tier y"
  unfolding tier_cost_def
proof (rule sum_list_nonneg)
  fix t
  assume "t \<in> set (map (\<lambda>b. rval (SlackTierCoefficient b tier) * slack_total y b) slacks)"
  then obtain b where b: "b \<in> set slacks" "t = rval (SlackTierCoefficient b tier) * slack_total y b" by auto
  have "0 \<le> slack_total y b"
    unfolding slack_total_def using assms(2) b(1) by (intro sum_list_nonneg) (auto simp: slacks_nonneg_def)
  then show "0 \<le> t" using coefficient_facts(2) [OF assms(1) b(1)] b(2) by simp
qed

lemma tier_cost_without_terms:
  assumes "slacks_ok n slacks" "\<not> TierHasTerms slacks tier"
  shows "tier_cost slacks tier y = 0"
proof -
  have "rval (SlackTierCoefficient b tier) = 0" if "b \<in> set slacks" for b
    using assms(2) that by (auto simp: SlackTierCoefficient_def TierHasTerms_def list_ex_iff zero_dbl_def)
  then show ?thesis unfolding tier_cost_def by (simp cong: map_cong)
qed

section \<open>The terms of a tier\<close>

text \<open>The columns and coefficients \<open>AppendTierTerms\<close> gathers.\<close>

definition tier_cols :: "ElasticRepairTier \<Rightarrow> BlockSlackRef list \<Rightarrow> idx list" where
  "tier_cols tier slacks = concat (map (\<lambda>b. if SlackTierCoefficient b tier = 0 then [] else bs_cols b) slacks)"

definition tier_coeffs :: "ElasticRepairTier \<Rightarrow> BlockSlackRef list \<Rightarrow> dbl list" where
  "tier_coeffs tier slacks = concat (map (\<lambda>b. if SlackTierCoefficient b tier = 0 then []
     else map (\<lambda>_. SlackTierCoefficient b tier) (bs_cols b)) slacks)"

lemma AppendTierTerms_eq:
  "AppendTierTerms row slacks tier = (mc_indices row @ tier_cols tier slacks \<noteq> [],
     row\<lparr>mc_indices := mc_indices row @ tier_cols tier slacks,
         mc_coefficients := mc_coefficients row @ tier_coeffs tier slacks\<rparr>)"
proof -
  have "fold (append_tier_term tier) slacks row =
     row\<lparr>mc_indices := mc_indices row @ tier_cols tier slacks,
         mc_coefficients := mc_coefficients row @ tier_coeffs tier slacks\<rparr>"
  proof (induction slacks arbitrary: row)
    case (Cons b slacks)
    then show ?case
      by (auto simp: append_tier_term_def tier_cols_def tier_coeffs_def Let_def bs_cols_def split: option.splits)
  qed (simp add: tier_cols_def tier_coeffs_def)
  then show ?thesis by (simp add: AppendTierTerms_def Let_def)
qed

lemma tier_lengths: "length (tier_cols tier slacks) = length (tier_coeffs tier slacks)"
  by (induction slacks) (simp_all add: tier_cols_def tier_coeffs_def)

lemma tier_cols_empty:
  "slacks_ok n slacks \<Longrightarrow> tier_cols tier slacks = [] \<longleftrightarrow> \<not> TierHasTerms slacks tier"
  using coefficient_facts(3) by (auto simp: tier_cols_def TierHasTerms_def list_ex_iff bs_cols_def split: if_splits)

lemma tier_cols_subset: "set (tier_cols tier slacks) \<subseteq> set (concat (map bs_cols slacks))"
  by (induction slacks) (auto simp: tier_cols_def)

lemma tier_cols_distinct: "distinct (concat (map bs_cols slacks)) \<Longrightarrow> distinct (tier_cols tier slacks)"
proof (induction slacks)
  case (Cons b slacks)
  then show ?case using tier_cols_subset [of tier slacks] by (auto simp: tier_cols_def)
qed (simp add: tier_cols_def)

lemma tier_coeffs_finite: "slacks_ok n slacks \<Longrightarrow> list_all isfinite (tier_coeffs tier slacks)"
  using coefficient_facts(1) by (auto simp: tier_coeffs_def list_all_iff split: if_splits)

lemma tier_terms_real: "lin_real (tier_cols tier slacks) (tier_coeffs tier slacks) y = tier_cost slacks tier y"
proof (induction slacks)
  case (Cons b slacks)
  have "lin_real cols (map (\<lambda>_. k) cols) y = rval k * (\<Sum>c\<leftarrow>cols. y c)" for cols k
    by (induction cols) (simp_all add: distrib_left)
  then have "lin_real (tier_cols tier [b]) (tier_coeffs tier [b]) y = rval (SlackTierCoefficient b tier) * slack_total y b"
    by (simp add: tier_cols_def tier_coeffs_def slack_total_def zero_dbl_def)
  moreover have "tier_cols tier (b # slacks) = tier_cols tier [b] @ tier_cols tier slacks"
    "tier_coeffs tier (b # slacks) = tier_coeffs tier [b] @ tier_coeffs tier slacks"
    by (simp_all add: tier_cols_def tier_coeffs_def)
  ultimately show ?case using Cons by (simp add: lin_real_append tier_lengths tier_cost_def)
qed (simp add: tier_cols_def tier_coeffs_def tier_cost_def)

lemma tier_terms_val:
  "slacks_ok n slacks \<Longrightarrow> lin_val (tier_cols tier slacks) (tier_coeffs tier slacks) y = Fin (tier_cost slacks tier y)"
  by (simp add: lin_val_finite tier_coeffs_finite tier_terms_real)

section \<open>The objective and the budget of a tier\<close>

lemma lin_val_upt_update:
  assumes "i < n" "length obj = n" "list_all isfinite obj" "isfinite c" "obj ! i = 0"
  shows "lin_val [0..<n] (obj[i := c]) y = lin_val [0..<n] obj y + c * Fin (y i)"
proof -
  have sum: "lin_real [0..<n] vs y = (\<Sum>j<n. rval (vs ! j) * y j)" if "length vs = n" for vs
  proof -
    have "zip [0..<n] vs = map (\<lambda>j. (j, vs ! j)) [0..<n]" using that by (intro nth_equalityI) simp_all
    then have "lin_real [0..<n] vs y = (\<Sum>j\<leftarrow>[0..<n]. rval (vs ! j) * y j)" by (simp add: lin_real_def comp_def)
    then show ?thesis by (simp add: interv_sum_list_conv_sum_set_nat atLeast0LessThan)
  qed
  have "(\<Sum>j<n. rval (obj[i := c] ! j) * y j) = rval c * y i + (\<Sum>j \<in> {..<n} - {i}. rval (obj ! j) * y j)"
    using assms(1,2) by (subst sum.remove [of _ i]) auto
  moreover have "(\<Sum>j<n. rval (obj ! j) * y j) = (\<Sum>j \<in> {..<n} - {i}. rval (obj ! j) * y j)"
    using assms(1,5) by (subst sum.remove [of _ i]) (auto simp: zero_dbl_def)
  ultimately have real: "lin_real [0..<n] (obj[i := c]) y = lin_real [0..<n] obj y + rval c * y i"
    using assms(2) by (simp add: sum)
  have "list_all isfinite (obj[i := c])" using assms(3,4) by (auto simp: list_all_iff dest: set_update_subset_insert [THEN subsetD])
  moreover have "c * Fin (y i) = Fin (rval c * y i)" using assms(4) by (auto elim: isfiniteE)
  ultimately show ?thesis by (simp add: lin_val_finite assms(3) real)
qed

lemma lin_val_assign:
  assumes "distinct is" "\<forall>i \<in> set is. i < n" "length cs = length is" "list_all isfinite cs"
    and "length obj = n" "list_all isfinite obj" "\<forall>i \<in> set is. obj ! i = 0"
  shows "lin_val [0..<n] (fold (\<lambda>(col, coeff) obj. obj[col := coeff]) (zip is cs) obj) y = lin_val [0..<n] obj y + lin_val is cs y"
  using assms
proof (induction "is" arbitrary: cs obj)
  case (Cons i "is")
  then obtain c cs' where cs: "cs = c # cs'" by (cases cs) auto
  have "list_all isfinite (obj[i := c])"
    using Cons.prems cs by (auto simp: list_all_iff dest: set_update_subset_insert [THEN subsetD])
  then have "lin_val [0..<n] (fold (\<lambda>(col, coeff) obj. obj[col := coeff]) (zip is cs') (obj[i := c])) y =
      lin_val [0..<n] (obj[i := c]) y + lin_val is cs' y"
    using Cons.prems cs by (intro Cons.IH) (auto simp: nth_list_update)
  also have "lin_val [0..<n] (obj[i := c]) y = lin_val [0..<n] obj y + c * Fin (y i)"
    using Cons.prems cs by (intro lin_val_upt_update) auto
  finally show ?case by (simp add: cs ac_simps)
qed simp

lemma lin_val_zeros: "lin_val is (replicate k 0) y = 0"
proof -
  have "list_all isfinite (replicate k 0)" by (simp add: list_all_iff isfinite_consts)
  moreover have "lin_real is (replicate k 0) y = 0"
  proof (induction k arbitrary: "is")
    case (Suc k)
    then show ?case by (cases "is") (simp_all add: zero_dbl_def)
  qed simp
  ultimately show ?thesis by (simp add: lin_val_finite zero_dbl_def)
qed

lemma SetTierObjective_eq:
  "SetTierObjective m slacks tier = (drop_objective m)\<lparr>sm_obj_coeffs :=
     fold (\<lambda>(col, coeff) obj. obj[col := coeff]) (zip (tier_cols tier slacks) (tier_coeffs tier slacks)) (map (\<lambda>_. 0) (sm_obj_coeffs m))\<rparr>"
  by (auto simp: SetTierObjective_def AppendTierTerms_eq Let_def mc_default_def drop_objective_def)

lemma tier_objective:
  assumes "slacks_ok n slacks" "length (sm_obj_coeffs m) = n"
  shows "obj_val (SetTierObjective m slacks tier) y = Fin (tier_cost slacks tier y)"
proof -
  have len: "length (fold (\<lambda>(col, coeff) obj. obj[col := coeff]) zs obj) = length obj" for zs :: "(idx \<times> dbl) list" and obj
    by (induction zs arbitrary: obj) auto
  have "lin_val [0..<n] (fold (\<lambda>(col, coeff) obj. obj[col := coeff])
      (zip (tier_cols tier slacks) (tier_coeffs tier slacks)) (replicate n 0)) y =
      lin_val [0..<n] (replicate n 0) y + lin_val (tier_cols tier slacks) (tier_coeffs tier slacks) y"
    using assms(1) tier_cols_subset [of tier slacks]
    by (intro lin_val_assign) (auto simp: slacks_ok_def tier_lengths tier_cols_distinct list_all_iff isfinite_consts
        intro: tier_coeffs_finite [OF assms(1), unfolded list_all_iff, THEN bspec])
  then show ?thesis
    using assms by (simp add: SetTierObjective_eq obj_val_def drop_objective_def len map_replicate_const quad_val_def
        lin_val_zeros tier_terms_val)
qed

lemma SetTierObjective_feasible [simp]: "feasible (SetTierObjective m slacks tier) y = feasible m y"
  by (simp add: feasible_def SetTierObjective_eq model_columns_def model_rows_def drop_objective_def)

lemma budget_row:
  assumes "slacks_ok n slacks" "TierHasTerms slacks tier"
  shows "feasible (AddTierBudgetRow slacks \<lparr>tb_tier = tier, tb_value = Fin v, tb_active = True\<rparr> m) y \<longleftrightarrow>
    feasible m y \<and> tier_cost slacks tier y \<le> v"
proof -
  have "tier_cols tier slacks \<noteq> []" using tier_cols_empty [OF assms(1)] assms(2) by simp
  then show ?thesis
    using tier_terms_val [OF assms(1)]
    by (auto simp: AddTierBudgetRow_def AppendTierTerms_eq feasible_def model_columns_def model_rows_def sat_mc_def mc_default_def)
qed

lemma ComputeTierValue_eq:
  assumes "slacks_ok n slacks" "length solution = n" "list_all isfinite solution" "slacks_nonneg slacks (point solution)"
  shows "ComputeTierValue solution slacks tier = Fin (tier_cost slacks tier (point solution))"
proof -
  have "fold (tier_value_step solution tier) S (Fin a) = Fin (a + tier_cost S tier (point solution))"
    if "set S \<subseteq> set slacks" for S a
    using that
  proof (induction S arbitrary: a)
    case (Cons b S)
    then have b: "b \<in> set slacks" by simp
    obtain k where k: "SlackTierCoefficient b tier = Fin k" using coefficient_facts(1) [OF assms(1) b] by (auto elim: isfiniteE)
    have at: "solution ! c = Fin (point solution c)" if "c \<in> set (bs_cols b)" for c
    proof -
      have "c < length solution" using assms(1,2) b that by (auto simp: slacks_ok_def)
      then show ?thesis using assms(3) by (auto simp: point_def list_all_iff)
    qed
    have "tier_value_step solution tier b (Fin a) = Fin (a + k * slack_total (point solution) b)"
      using at k by (auto simp: tier_value_step_def Let_def slack_total_def bs_cols_def zero_dbl_def algebra_simps split: option.splits)
    then show ?case using Cons.IH [of "a + k * slack_total (point solution) b"] Cons.prems
      by (simp add: tier_cost_def k add.assoc)
  qed (simp add: tier_cost_def)
  from this [of slacks 0] show ?thesis
    using tier_cost_nonneg [OF assms(1,4), of tier]
    by (simp add: ComputeTierValue_def zero_dbl_def)
qed

end
