(* ===== verification/DiagnosticValues.thy ===== *)
theory DiagnosticValues
  imports DecidePrelude
begin

text \<open>
  How a diagnosis rounds the numbers it shows, from \<open>decide_diagnostic_render.cpp\<close>:
  \<open>SnapDiagnosticValue\<close>, \<open>SnapToPrecision\<close>, and \<open>CompareDisplayed\<close> of
  \<open>decide_diagnostic_engines.cpp\<close>, which compares two numbers as shown. The logarithm and the power
  are the library's on finite arguments.
\<close>

section \<open>The library functions\<close>

fun std_log10 :: "dbl \<Rightarrow> dbl" where
  "std_log10 (Fin r) = (if 0 < r then Fin (log 10 r) else if r = 0 then NInf else NaN)"
| "std_log10 PInf = PInf"
| "std_log10 NInf = NaN"
| "std_log10 NaN = NaN"

fun std_pow10 :: "dbl \<Rightarrow> dbl" where
  "std_pow10 (Fin d) = Fin (10 powr d)"
| "std_pow10 PInf = PInf"
| "std_pow10 NInf = 0"
| "std_pow10 NaN = NaN"

section \<open>Rounding for display\<close>

definition SnapDiagnosticValue :: "dbl \<Rightarrow> dbl" where
  "SnapDiagnosticValue v =
     (if v = 0 \<or> \<not> isfinite v then v
      else let nearest_int = std_round v
           in if \<bar>v - nearest_int\<bar> \<le> Fin (1 / 10 ^ 6) * std_max 1 \<bar>v\<bar> then nearest_int
              else std_round (v * Fin (10 ^ 6)) / Fin (10 ^ 6))"

definition SnapToPrecision :: "dbl \<Rightarrow> dbl" where
  "SnapToPrecision v =
     (if v = 0 \<or> \<not> isfinite v then v
      else let mag = \<bar>v\<bar>;
               grid = Fin (1 / 10 ^ 6) * mag;
               decimals = std_floor (- std_log10 grid)
           in if \<not> isfinite decimals \<or> decimals < 0 \<or> decimals > Fin 15 then v
              else let scale = std_pow10 decimals
                   in if \<not> isfinite scale \<or> scale \<le> 0 then v
                      else let ticks = std_round (mag * scale);
                               ticks = (if ticks / scale < mag then ticks + 1 else ticks);
                               snapped = ticks / scale
                           in if v < 0 then - snapped else snapped)"

definition CompareDisplayed :: "dbl \<Rightarrow> dbl \<Rightarrow> int" where
  "CompareDisplayed lhs rhs =
     (let a = SnapDiagnosticValue lhs; b = SnapDiagnosticValue rhs
      in if a < b then - 1 else if a > b then 1 else 0)"

section \<open>A repair is never rounded down\<close>

lemma round_close:
  assumes "0 \<le> x"
  shows "\<exists>t. std_round (Fin x) = Fin t \<and> x - 1 / 2 \<le> t \<and> t \<le> x + 1 / 2"
  using assms by (intro exI [of _ "of_int \<lfloor>x + 1 / 2\<rfloor>"]) (simp, linarith)

text \<open>The tick count that is kept covers the measured value and exceeds it by at most one.\<close>

lemma ticks_cover:
  assumes "0 < s" "0 \<le> m"
  shows "\<exists>t. (let ticks = std_round (Fin m * Fin s) in if ticks / Fin s < Fin m then ticks + 1 else ticks) = Fin t \<and>
    m \<le> t / s \<and> t / s \<le> m + 1 / s"
proof -
  obtain t where t: "std_round (Fin (m * s)) = Fin t" "m * s - 1 / 2 \<le> t" "t \<le> m * s + 1 / 2"
    using round_close [of "m * s"] assms by auto
  show ?thesis
  proof (cases "t / s < m")
    case True
    then have "t < m * s" using assms(1) by (simp add: pos_divide_less_eq)
    then show ?thesis
      using True t assms(1) by (intro exI [of _ "t + 1"]) (simp add: one_dbl_def field_simps)
  next
    case False
    then have "m * s \<le> t" using assms(1) by (simp add: pos_divide_less_eq)
    then show ?thesis
      using False t assms(1) by (intro exI [of _ t]) (simp add: field_simps)
  qed
qed

lemma precision_scale:
  assumes "0 < m"
  shows "10 powr (- of_int \<lfloor>- log 10 (m / 10 ^ 6)\<rfloor>) \<le> m / 10 ^ 5"
proof -
  have "- of_int \<lfloor>- log 10 (m / 10 ^ 6)\<rfloor> \<le> log 10 (m / 10 ^ 6) + 1" by linarith
  then have "10 powr (- of_int \<lfloor>- log 10 (m / 10 ^ 6)\<rfloor>) \<le> 10 powr (log 10 (m / 10 ^ 6) + 1)"
    by (intro powr_mono) simp_all
  also have "\<dots> = m / 10 ^ 5" using assms by (simp add: powr_add)
  finally show ?thesis .
qed

text \<open>
  C37. \<open>SnapToPrecision\<close> keeps the sign of an amount, never reports less than was measured, and adds
  at most one part in a hundred thousand.
\<close>

theorem snap_precision_safe:
  "\<exists>s. SnapToPrecision (Fin r) = Fin s \<and> \<bar>r\<bar> \<le> \<bar>s\<bar> \<and> \<bar>s\<bar> \<le> \<bar>r\<bar> * (1 + 1 / 10 ^ 5) \<and> sgn s = sgn r"
proof (cases "r = 0")
  case True
  then show ?thesis by (simp add: SnapToPrecision_def zero_dbl_def)
next
  case False
  define m where "m = \<bar>r\<bar>"
  have m: "0 < m" using False by (simp add: m_def)
  define d where "d = \<lfloor>- log 10 (m / 10 ^ 6)\<rfloor>"
  have dec: "std_floor (- std_log10 (Fin (1 / 10 ^ 6) * \<bar>Fin r\<bar>)) = Fin (of_int d)"
    using m by (simp add: d_def m_def)
  show ?thesis
  proof (cases "d < 0 \<or> d > 15")
    case True
    then have "SnapToPrecision (Fin r) = Fin r"
      unfolding SnapToPrecision_def Let_def dec using False by (auto simp: zero_dbl_def)
    with m show ?thesis by (simp add: m_def)
  next
    case small: False
    define s :: real where "s = 10 powr of_int d"
    have s: "0 < s" by (simp add: s_def)
    have mag: "\<bar>Fin r\<bar> = Fin m" and pow: "std_pow10 (Fin (of_int d)) = Fin s" by (simp_all add: m_def s_def)
    obtain t where t: "(let ticks = std_round (Fin m * Fin s) in if ticks / Fin s < Fin m then ticks + 1 else ticks) = Fin t"
      "m \<le> t / s" "t / s \<le> m + 1 / s"
      using ticks_cover [OF s, of m] m by auto
    have "1 / s \<le> m / 10 ^ 5" using precision_scale [OF m] by (simp add: s_def d_def powr_minus_divide)
    with t(3) have "t / s \<le> m + m / 10 ^ 5" by linarith
    then have bound: "t / s \<le> m * (1 + 1 / 10 ^ 5)" by (simp add: distrib_left)
    have "SnapToPrecision (Fin r) = (if r < 0 then - Fin (t / s) else Fin (t / s))"
      unfolding SnapToPrecision_def Let_def dec unfolding mag pow unfolding t(1) [unfolded Let_def] using False small s by (auto simp: zero_dbl_def)
    then have "SnapToPrecision (Fin r) = Fin (sgn r * (t / s))" using False by (simp add: sgn_if)
    moreover have pos: "0 < t / s" using t(2) m by linarith
    then have "\<bar>t / s\<bar> = t / s" by (rule abs_of_pos)
    then have "\<bar>sgn r * (t / s)\<bar> = t / s" using False by (simp only: abs_mult abs_sgn_eq if_False mult_1)
    moreover have "sgn (sgn r * (t / s)) = sgn r" using pos by (simp only: sgn_mult sgn_sgn sgn_pos mult_1_right)
    ultimately show ?thesis using t(2) bound by (intro exI [of _ "sgn r * (t / s)"]) (simp add: m_def)
  qed
qed

section \<open>Large amounts\<close>

lemma precision_large:
  assumes "10 ^ 6 < r"
  shows "SnapToPrecision (Fin r) = Fin r"
proof -
  have "0 < log 10 (r / 10 ^ 6)" using assms by simp
  then have "\<lfloor>- log 10 (r / 10 ^ 6)\<rfloor> < (0 :: int)" by linarith
  with assms show ?thesis by (simp add: SnapToPrecision_def Let_def zero_dbl_def)
qed

lemma display_large:
  assumes "10 ^ 6 < r"
  shows "SnapDiagnosticValue (Fin r) = Fin (of_int (round r))"
proof -
  have "\<bar>r - of_int (round r)\<bar> \<le> 1 / 2" using of_int_round_abs_le [of r] by (simp add: abs_minus_commute)
  also have "\<dots> \<le> 1 / 10 ^ 6 * max 1 \<bar>r\<bar>" using assms by simp
  finally show ?thesis
    using assms by (simp add: SnapDiagnosticValue_def Let_def zero_dbl_def one_dbl_def round_def)
qed

text \<open>Rounding to the nearest integer goes down on the lower half of each unit.\<close>

lemma round_short: "of_int (round r) < (r :: real) \<longleftrightarrow> 0 < frac r \<and> frac r < 1 / 2"
proof -
  have "\<lfloor>r + 1 / 2\<rfloor> = (if frac r < 1 / 2 then \<lfloor>r\<rfloor> else \<lfloor>r\<rfloor> + 1)"
    unfolding frac_def by (auto simp: floor_eq_iff) linarith+
  then show ?thesis unfolding round_def frac_def by (auto split: if_splits) linarith+
qed

end
