(* ===== verification/RepairSearch.thy ===== *)
theory RepairSearch
  imports RepairTiers DiagnosticValues
begin

text \<open>
  The search for the smallest repair, from \<open>DiagnoseInfeasible\<close> in
  \<open>decide_diagnostic_engines.cpp\<close>: the clauses that can only be dropped (\<open>CollectRemovalGroups\<close>,
  \<open>DropRemovalGroups\<close>), the enumeration of the sets of them (\<open>EnumerateCombinations\<close>), the repair
  of one such set (\<open>SolveRemovalCandidate\<close>), the order of repairs (\<open>BetterCandidate\<close>) and the loop
  over the cardinalities. Prefixes: \<open>rg_\<close> RemovalGroupInfo, \<open>rm_\<close> RemovalCandidate, \<open>ii_\<close> the
  InfeasibleDiagnosisInput, \<open>ss_\<close> the variables \<open>DiagnoseInfeasible\<close> keeps per cardinality.

  The backend is the parameter \<open>ii_solve_model\<close>. An edit keeps what the search computes, the block
  and its amount or the group to drop; its text is rendered from \<open>constraint_sources\<close> and left out.
\<close>

section \<open>Clauses that can only be dropped\<close>

record RemovalGroupInfo =
  rg_id :: idx
  rg_source_clause_id :: "idx option"
  rg_qualifier :: string

text \<open>\<open>by_group\<close> is a \<open>std::map\<close>: a list of entries ascending by key.\<close>

fun record_group :: "RemovalGroupInfo \<Rightarrow> RemovalGroupInfo list \<Rightarrow> RemovalGroupInfo list" where
  "record_group new [] = [new]"
| "record_group new (g # gs) =
     (if rg_id new = rg_id g
      then g\<lparr>rg_source_clause_id := (if rg_source_clause_id g = None then rg_source_clause_id new else rg_source_clause_id g),
             rg_qualifier := (if rg_qualifier g = [] then rg_qualifier new else rg_qualifier g)\<rparr> # gs
      else if rg_id new < rg_id g then new # g # gs
      else g # record_group new gs)"

definition record_provenance :: "ConstraintProvenance \<Rightarrow> RemovalGroupInfo list \<Rightarrow> RemovalGroupInfo list" where
  "record_provenance prov groups =
     (case cp_removal_group_id prov of
        None \<Rightarrow> groups
      | Some g \<Rightarrow> record_group \<lparr>rg_id = g, rg_source_clause_id = cp_source_clause_id prov,
                                rg_qualifier = cp_qualifier prov\<rparr> groups)"

definition provenances :: "SolverModel \<Rightarrow> ConstraintProvenance list" where
  "provenances m = map mc_provenance (sm_constraints m) @ map qc_provenance (sm_quadratic_constraints m) @
     map ix_provenance (sm_indicator_constraints m) @ map gn_provenance (sm_general_constraints m)"

definition CollectRemovalGroups :: "SolverModel \<Rightarrow> RemovalGroupInfo list" where
  "CollectRemovalGroups m = fold record_provenance (provenances m) []"

definition retained :: "idx list \<Rightarrow> ConstraintProvenance \<Rightarrow> bool" where
  "retained dropped p \<longleftrightarrow> (case cp_removal_group_id p of None \<Rightarrow> True | Some g \<Rightarrow> g \<notin> set dropped)"

definition violated_empty_row :: "ModelConstraint \<Rightarrow> bool" where
  "violated_empty_row row \<longleftrightarrow> mc_indices row = [] \<and>
     (case mc_sense row of
        Le \<Rightarrow> mc_rhs row < - Fin (1 / 10 ^ 9)
      | Ge \<Rightarrow> mc_rhs row > Fin (1 / 10 ^ 9)
      | Eq \<Rightarrow> \<bar>mc_rhs row\<bar> > Fin (1 / 10 ^ 9))"

definition DropRemovalGroups :: "SolverModel \<Rightarrow> idx list \<Rightarrow> SolverModel" where
  "DropRemovalGroups base dropped =
     (let rows = filter (\<lambda>row. retained dropped (mc_provenance row)) (sm_constraints base)
      in base\<lparr>
        sm_constraints := rows,
        sm_quadratic_constraints := filter (\<lambda>qc. retained dropped (qc_provenance qc)) (sm_quadratic_constraints base),
        sm_indicator_constraints := filter (\<lambda>ic. retained dropped (ix_provenance ic)) (sm_indicator_constraints base),
        sm_general_constraints := filter (\<lambda>gc. retained dropped (gn_provenance gc)) (sm_general_constraints base),
        sm_build_proven_infeasible := list_ex violated_empty_row rows\<rparr>)"

section \<open>The enumeration\<close>

text \<open>
  \<open>EnumerateCombinations\<close> with its loop. \<open>visit\<close> returns whether to go on, and the state its
  captures leave behind; \<open>current\<close> is restored by \<open>pop_back\<close>.
\<close>

function EnumerateCombinations :: "nat \<Rightarrow> nat \<Rightarrow> nat \<Rightarrow> idx list \<Rightarrow> (idx list \<Rightarrow> 's \<Rightarrow> bool \<times> 's) \<Rightarrow> 's \<Rightarrow> bool \<times> 's"
  and combinations_loop :: "nat \<Rightarrow> nat \<Rightarrow> nat \<Rightarrow> idx list \<Rightarrow> (idx list \<Rightarrow> 's \<Rightarrow> bool \<times> 's) \<Rightarrow> 's \<Rightarrow> bool \<times> 's" where
  "EnumerateCombinations n k from_i current visit s =
     (if length current = k then visit current s else combinations_loop n k from_i current visit s)"
| "combinations_loop n k i current visit s =
     (if i + (k - length current) \<le> n
      then (case EnumerateCombinations n k (i + 1) (current @ [i]) visit s of
              (go_on, s) \<Rightarrow> if \<not> go_on then (False, s) else combinations_loop n k (i + 1) current visit s)
      else (True, s))"
  by pat_completeness auto
termination
  by (relation "measure (\<lambda>a. case a of Inl (n, k, i, _) \<Rightarrow> 2 * (n + 2 - i) + 1
                                    | Inr (n, k, i, _) \<Rightarrow> 2 * (n + 2 - i))") auto

declare EnumerateCombinations.simps [simp del] combinations_loop.simps [simp del]

section \<open>Reading a repair back\<close>

datatype RepairEdit = Loosen BlockSlackRef dbl | DropGroup idx

definition edit_amount :: "dbl list \<Rightarrow> BlockSlackRef \<Rightarrow> dbl" where
  "edit_amount solution sl =
     (if bs_sense sl = Eq then solution ! bs_pos_col sl - solution ! the (bs_neg_col sl) else solution ! bs_pos_col sl)"

definition read_edit :: "dbl list \<Rightarrow> bool \<Rightarrow> BlockSlackRef \<Rightarrow> RepairEdit option" where
  "read_edit solution snap sl =
     (let amount = edit_amount solution sl; edit_floor = Fin (1 / 10 ^ 5)
      in if \<bar>amount\<bar> \<le> edit_floor then None
         else let amount = SnapToPrecision amount
              in if \<bar>amount\<bar> \<le> edit_floor then None
                 else if \<not> snap then Some (Loosen sl amount)
                 else let amount = SnapDiagnosticValue amount
                      in if \<bar>amount\<bar> \<le> Fin (1 / 10 ^ 8) then None else Some (Loosen sl amount))"

definition ReadElasticEdits :: "BlockSlackRef list \<Rightarrow> dbl list \<Rightarrow> bool \<Rightarrow> RepairEdit list" where
  "ReadElasticEdits slacks solution snap = List.map_filter (read_edit solution snap) slacks"

section \<open>The repair of one set of dropped clauses\<close>

datatype CandidateStatus = CAND_FEASIBLE | CAND_INFEASIBLE | CAND_ABORT

record RemovalCandidate =
  rm_status :: CandidateStatus
  rm_edits :: "RepairEdit list"
  rm_data_cost :: dbl
  rm_editable_cost :: dbl
  rm_objective_unbounded :: bool
  rm_has_objective :: bool
  rm_objective_value :: dbl
  rm_signature :: "idx list"

definition rm_default :: RemovalCandidate where
  "rm_default = \<lparr>rm_status = CAND_ABORT, rm_edits = [], rm_data_cost = 0, rm_editable_cost = 0,
     rm_objective_unbounded = False, rm_has_objective = False, rm_objective_value = 0, rm_signature = []\<rparr>"

record InfeasibleInput =
  ii_model :: SolverModel
  ii_slack_scope :: string
  ii_has_unhandled_user_bounds :: bool
  ii_solve_model :: "SolverModel \<Rightarrow> SolverResult"

text \<open>The early return after a pass, if any.\<close>

definition pass_outcome :: "InfeasibleInput \<Rightarrow> SolverResult \<Rightarrow> CandidateStatus option" where
  "pass_outcome input pass =
     (if sr_status pass = INFEASIBLE
      then Some (if ii_has_unhandled_user_bounds input then CAND_ABORT else CAND_INFEASIBLE)
      else if sr_status pass \<noteq> OPTIMAL \<or> sr_solution pass = [] then Some CAND_ABORT
      else None)"

text \<open>The ladder's state: \<open>stage1_model\<close>, \<open>budgets\<close> and \<open>stage1\<close>, set once a pass was solved.\<close>

type_synonym ladder = "SolverModel \<times> TierBudget list \<times> SolverResult option"

definition tier_pass :: "InfeasibleInput \<Rightarrow> BlockSlackRef list \<Rightarrow> ElasticRepairTier \<Rightarrow> ladder \<Rightarrow> CandidateStatus + ladder" where
  "tier_pass input slacks tier st =
     (case st of (m, budgets, stage1) \<Rightarrow>
        if \<not> TierHasTerms slacks tier then Inr st
        else let m = SetTierObjective m slacks tier;
                 pass = ii_solve_model input m
             in case pass_outcome input pass of
                  Some status \<Rightarrow> Inl status
                | None \<Rightarrow> let budget = MakeTierBudget (sr_solution pass) slacks tier
                         in Inr (AddTierBudgetRow slacks budget m, budgets @ [budget], Some pass))"

definition stage1_ladder :: "InfeasibleInput \<Rightarrow> ElasticModel \<Rightarrow> CandidateStatus + (SolverModel \<times> TierBudget list \<times> SolverResult)" where
  "stage1_ladder input elastic =
     (case tier_pass input (em_slacks elastic) DATA_OFFSET (em_model elastic, [], None) of
        Inl status \<Rightarrow> Inl status
      | Inr st \<Rightarrow>
          (case tier_pass input (em_slacks elastic) EDITABLE_LOOSEN st of
             Inl status \<Rightarrow> Inl status
           | Inr (m, budgets, Some stage1) \<Rightarrow> Inr (m, budgets, stage1)
           | Inr (m, budgets, None) \<Rightarrow>
               let pass = ii_solve_model input m
               in case pass_outcome input pass of Some status \<Rightarrow> Inl status | None \<Rightarrow> Inr (m, budgets, pass)))"

primrec BudgetValue :: "TierBudget list \<Rightarrow> ElasticRepairTier \<Rightarrow> dbl" where
  "BudgetValue [] tier = 0"
| "BudgetValue (b # bs) tier = (if tb_tier b = tier then tb_value b else BudgetValue bs tier)"

text \<open>The tie-break pass: \<open>None\<close> where it fails, else the repair solution.\<close>

definition tie_break :: "InfeasibleInput \<Rightarrow> BlockSlackRef list \<Rightarrow> SolverModel \<Rightarrow> bool \<Rightarrow> dbl \<Rightarrow> dbl list \<Rightarrow> dbl list option" where
  "tie_break input slacks m freeze_objective objective_value repair_solution =
     (case BuildTieBreakModel m slacks freeze_objective objective_value of
        None \<Rightarrow> Some repair_solution
      | Some tiebreak_model \<Rightarrow>
          let tiebreak = ii_solve_model input tiebreak_model
          in if sr_status tiebreak \<noteq> OPTIMAL \<or> sr_solution tiebreak = [] then None
             else Some (sr_solution tiebreak))"

definition finish_candidate :: "BlockSlackRef list \<Rightarrow> idx list \<Rightarrow> dbl list option \<Rightarrow> RemovalCandidate \<Rightarrow> RemovalCandidate" where
  "finish_candidate slacks dropped repair result =
     (case repair of
        None \<Rightarrow> result
      | Some solution \<Rightarrow> result\<lparr>
          rm_edits := ReadElasticEdits slacks solution (rm_has_objective result \<and> \<not> rm_objective_unbounded result) @
            map DropGroup dropped,
          rm_status := CAND_FEASIBLE\<rparr>)"

definition SolveRemovalCandidate :: "InfeasibleInput \<Rightarrow> RemovalGroupInfo list \<Rightarrow> idx list \<Rightarrow> RemovalCandidate" where
  "SolveRemovalCandidate input all_groups selected =
     (let dropped = map (\<lambda>i. rg_id (all_groups ! i)) selected;
          result = rm_default\<lparr>rm_signature := dropped\<rparr>;
          candidate_model = DropRemovalGroups (ii_model input) dropped;
          elastic = BuildElasticModel candidate_model (ii_slack_scope input);
          slacks = em_slacks elastic
      in case stage1_ladder input elastic of
           Inl status \<Rightarrow> result\<lparr>rm_status := status\<rparr>
         | Inr (stage1_model, budgets, stage1) \<Rightarrow>
             let result = result\<lparr>rm_data_cost := BudgetValue budgets DATA_OFFSET,
                                rm_editable_cost := BudgetValue budgets EDITABLE_LOOSEN,
                                rm_has_objective := HasObjective candidate_model\<rparr>
             in if rm_has_objective result
                then let stage2_model = BuildStage2Model (em_model elastic) slacks candidate_model budgets;
                         stage2 = ii_solve_model input stage2_model
                     in if sr_status stage2 = OPTIMAL \<and> sr_solution stage2 \<noteq> []
                        then let result = result\<lparr>rm_objective_value := sr_objective_value stage2\<rparr>
                             in finish_candidate slacks dropped
                                  (tie_break input slacks stage2_model True (sr_objective_value stage2) (sr_solution stage2)) result
                        else if sr_status stage2 = UNBOUNDED
                        then finish_candidate slacks dropped
                               (tie_break input slacks stage1_model False 0 (sr_solution stage1))
                               (result\<lparr>rm_objective_unbounded := True\<rparr>)
                        else result
                else finish_candidate slacks dropped
                       (tie_break input slacks stage1_model False 0 (sr_solution stage1)) result)"

section \<open>The order of repairs\<close>

text \<open>\<open>std::lexicographical_compare\<close>.\<close>

fun lexicographical_compare :: "idx list \<Rightarrow> idx list \<Rightarrow> bool" where
  "lexicographical_compare xs [] = False"
| "lexicographical_compare [] (y # ys) = True"
| "lexicographical_compare (x # xs) (y # ys) =
     (if x < y then True else if y < x then False else lexicographical_compare xs ys)"

definition BetterCandidate :: "RemovalCandidate \<Rightarrow> RemovalCandidate \<Rightarrow> bool \<Rightarrow> bool" where
  "BetterCandidate lhs rhs maximize =
     (let cmp = CompareDisplayed (rm_data_cost lhs) (rm_data_cost rhs)
      in if cmp \<noteq> 0 then cmp < 0
         else let cmp = CompareDisplayed (rm_editable_cost lhs) (rm_editable_cost rhs)
              in if cmp \<noteq> 0 then cmp < 0
                 else if rm_objective_unbounded lhs \<noteq> rm_objective_unbounded rhs then rm_objective_unbounded lhs
                 else let cmp = CompareDisplayed (rm_objective_value lhs) (rm_objective_value rhs)
                      in if \<not> rm_objective_unbounded lhs \<and> rm_has_objective lhs \<and> rm_has_objective rhs \<and> cmp \<noteq> 0
                         then (if maximize then cmp > 0 else cmp < 0)
                         else lexicographical_compare (rm_signature lhs) (rm_signature rhs))"

section \<open>The search\<close>

record SearchState =
  ss_aborted :: bool
  ss_found :: bool
  ss_best :: RemovalCandidate

definition visit_candidate :: "InfeasibleInput \<Rightarrow> RemovalGroupInfo list \<Rightarrow> idx list \<Rightarrow> SearchState \<Rightarrow> bool \<times> SearchState" where
  "visit_candidate input groups selection st =
     (let candidate = SolveRemovalCandidate input groups selection
      in case rm_status candidate of
           CAND_ABORT \<Rightarrow> (False, st\<lparr>ss_aborted := True\<rparr>)
         | CAND_INFEASIBLE \<Rightarrow> (True, st)
         | CAND_FEASIBLE \<Rightarrow>
             (True, if \<not> ss_found st \<or> BetterCandidate candidate (ss_best st) (sm_maximize (ii_model input))
                    then st\<lparr>ss_best := candidate, ss_found := True\<rparr> else st))"

text \<open>
  What the diagnosis says: nothing (the caller reports the bare state), that a bound is out of
  reach, the repair, or that the conflict is rigid.
\<close>

datatype Diagnosis = NoDiagnosis | UnreachableBounds | RepairFound RemovalCandidate | RigidConflict

definition search_cardinality :: "InfeasibleInput \<Rightarrow> RemovalGroupInfo list \<Rightarrow> nat \<Rightarrow> SearchState" where
  "search_cardinality input groups cardinality =
     snd (EnumerateCombinations (length groups) cardinality 0 [] (visit_candidate input groups)
            \<lparr>ss_aborted = False, ss_found = False, ss_best = rm_default\<rparr>)"

primrec search_cardinalities :: "InfeasibleInput \<Rightarrow> RemovalGroupInfo list \<Rightarrow> nat list \<Rightarrow> Diagnosis" where
  "search_cardinalities input groups [] =
     (if ii_has_unhandled_user_bounds input then NoDiagnosis else RigidConflict)"
| "search_cardinalities input groups (k # ks) =
     (let st = search_cardinality input groups k
      in if ss_aborted st then NoDiagnosis
         else if \<not> ss_found st then search_cardinalities input groups ks
         else if rm_edits (ss_best st) = [] then NoDiagnosis
         else RepairFound (ss_best st))"

text \<open>Whether \<open>CollectUnreachableClauses\<close> finds a clause.\<close>

definition unreachable_clause :: "SolverModel \<Rightarrow> bool" where
  "unreachable_clause m \<longleftrightarrow>
     list_ex (\<lambda>row. cp_kind (mc_provenance row) \<noteq> STRUCTURAL \<and> cp_removal_group_id (mc_provenance row) = None \<and>
                IsUnreachableBound (mc_sense row) (mc_rhs row)) (sm_constraints m) \<or>
     list_ex (\<lambda>row. cp_kind (qc_provenance row) \<noteq> STRUCTURAL \<and> cp_removal_group_id (qc_provenance row) = None \<and>
                IsUnreachableBound (qc_sense row) (qc_rhs row)) (sm_quadratic_constraints m)"

definition DiagnoseInfeasible :: "InfeasibleInput \<Rightarrow> Diagnosis" where
  "DiagnoseInfeasible input =
     (if unreachable_clause (ii_model input) then UnreachableBounds
      else let groups = CollectRemovalGroups (ii_model input)
           in if groups = [] \<and> em_slacks (BuildElasticModel (ii_model input) (ii_slack_scope input)) = [] then NoDiagnosis
              else search_cardinalities input groups [0..<length groups + 1])"

section \<open>Amounts that are reported short\<close>

text \<open>
  C38. A repair amount above a million that is read back plainly is reported as the solver found it. Read
  back with the second rounding, as after a pass for the objective, it is reported as an integer within
  one half of it, and short of what the solver found exactly when its fraction is positive and below one
  half.
\<close>

theorem large_edit_short:
  assumes "edit_amount solution sl = Fin r" "10 ^ 6 < r"
  shows "read_edit solution False sl = Some (Loosen sl (Fin r)) \<and>
    (\<exists>s. read_edit solution True sl = Some (Loosen sl (Fin (of_int s))) \<and> \<bar>of_int s - r\<bar> \<le> 1 / 2 \<and>
       (of_int s < r \<longleftrightarrow> 0 < frac r \<and> frac r < 1 / 2))"
proof -
  have "1 \<le> round r" using assms(2) by (simp add: round_def le_floor_iff)
  then have "read_edit solution True sl = Some (Loosen sl (Fin (of_int (round r))))"
    "read_edit solution False sl = Some (Loosen sl (Fin r))"
    using assms by (simp_all add: read_edit_def Let_def precision_large display_large)
  then show ?thesis using of_int_round_abs_le [of r] round_short [of r] by blast
qed

definition demo_large_slack :: BlockSlackRef where
  "demo_large_slack = \<lparr>bs_rows = [0], bs_pos_col = 1, bs_neg_col = None, bs_sense = Le, bs_tier = EDITABLE_LOOSEN,
     bs_weight = 1, bs_quadratic = False\<rparr>"

lemma large_edit_short_witness:
  "\<exists>s. read_edit [Fin 0, Fin (5000002 / 5)] True demo_large_slack = Some (Loosen demo_large_slack (Fin (of_int s))) \<and>
     of_int s < (5000002 / 5 :: real)"
proof -
  have "edit_amount [Fin 0, Fin (5000002 / 5)] demo_large_slack = Fin (5000002 / 5)"
    by (simp add: edit_amount_def demo_large_slack_def)
  moreover have "\<lfloor>5000002 / 5 :: real\<rfloor> = 1000000" by (simp add: floor_eq_iff)
  then have "frac (5000002 / 5 :: real) = 2 / 5" by (simp add: frac_def)
  ultimately show ?thesis using large_edit_short [of "[Fin 0, Fin (5000002 / 5)]" demo_large_slack "5000002 / 5"] by auto
qed

end
