(* ===== verification/RemovalSets.thy ===== *)
theory RemovalSets
  imports RepairSearch
begin

text \<open>
  The sets of clauses the repair search tries: what \<open>EnumerateCombinations\<close> visits and in which
  order, which groups \<open>CollectRemovalGroups\<close> finds, and what dropping groups does to a model.
\<close>

section \<open>The enumeration\<close>

text \<open>The sublists of length \<open>k\<close>, and a walk along a list that a visit can stop.\<close>

fun ksubs :: "nat \<Rightarrow> 'a list \<Rightarrow> 'a list list" where
  "ksubs 0 xs = [[]]"
| "ksubs (Suc k) [] = []"
| "ksubs (Suc k) (x # xs) = map ((#) x) (ksubs k xs) @ ksubs (Suc k) xs"

primrec visit_all :: "('a \<Rightarrow> 's \<Rightarrow> bool \<times> 's) \<Rightarrow> 'a list \<Rightarrow> 's \<Rightarrow> bool \<times> 's" where
  "visit_all visit [] s = (True, s)"
| "visit_all visit (l # ls) s = (case visit l s of (go_on, s) \<Rightarrow> if \<not> go_on then (False, s) else visit_all visit ls s)"

lemma visit_all_append:
  "visit_all visit (ls @ ms) s = (case visit_all visit ls s of (go_on, s) \<Rightarrow> if \<not> go_on then (False, s) else visit_all visit ms s)"
  by (induction ls arbitrary: s) (auto split: prod.splits)

lemma ksubs_short: "length xs < k \<Longrightarrow> ksubs k xs = []"
  by (induction k xs rule: ksubs.induct) auto

lemma ksubs_count: "length (ksubs k xs) = length xs choose k"
  by (induction k xs rule: ksubs.induct) auto

lemma ksubs_upt: "i < n \<Longrightarrow> ksubs (Suc k) [i..<n] = map ((#) i) (ksubs k [i + 1..<n]) @ ksubs (Suc k) [i + 1..<n]"
  by (simp add: upt_conv_Cons)

lemma ksubs_mem:
  "set (ksubs k [i..<n]) = {l. length l = k \<and> sorted_wrt (<) l \<and> set l \<subseteq> {i..<n}}"
proof (induction k arbitrary: i)
  case (Suc k)
  note IH = Suc.IH
  have "set (ksubs (Suc k) [i..<n]) = {l. length l = Suc k \<and> sorted_wrt (<) l \<and> set l \<subseteq> {i..<n}}"
  proof (induction "n - i" arbitrary: i)
    case 0
    then show ?case by (cases "n \<le> i") auto
  next
    case (Suc m)
    then have i: "i < n" by simp
    have "l \<in> set (ksubs (Suc k) [i..<n]) \<longleftrightarrow> length l = Suc k \<and> sorted_wrt (<) l \<and> set l \<subseteq> {i..<n}" for l
    proof (cases l)
      case Nil
      then show ?thesis using Suc.hyps(1) [of "i + 1"] Suc.hyps(2) by (simp add: ksubs_upt [OF i] image_iff)
    next
      case (Cons j l')
      have "l \<in> set (ksubs (Suc k) [i..<n]) \<longleftrightarrow> j = i \<and> l' \<in> set (ksubs k [i + 1..<n]) \<or> l \<in> set (ksubs (Suc k) [i + 1..<n])"
        by (auto simp: ksubs_upt [OF i] Cons)
      also have "\<dots> \<longleftrightarrow> length l = Suc k \<and> sorted_wrt (<) l \<and> set l \<subseteq> {i..<n}"
        using Suc.hyps(1) [of "i + 1"] Suc.hyps(2) i IH Cons
        by (auto simp: less_Suc_eq_le Suc_le_eq) (metis atLeastLessThan_iff le_neq_implies_less less_imp_le_nat order_le_less_trans subsetD Suc_leI)+
      finally show ?thesis .
    qed
    then show ?case by blast
  qed
  then show ?case .
qed auto

text \<open>The order of the visits, and that no set is visited twice.\<close>

lemma ksubs_ordered: "sorted_wrt lexicographical_compare (ksubs k [i..<n])"
proof (induction k arbitrary: i)
  case (Suc k)
  note IH = Suc.IH
  show ?case
  proof (induction "n - i" arbitrary: i)
    case (Suc m)
    then have i: "i < n" by simp
    have "sorted_wrt lexicographical_compare (map ((#) i) (ksubs k [i + 1..<n]))"
      using IH [of "i + 1"] by (simp add: sorted_wrt_map)
    moreover have "lexicographical_compare (i # l) l'" if "l' \<in> set (ksubs (Suc k) [i + 1..<n])" for l l'
      using that unfolding ksubs_mem by (cases l') auto
    ultimately show ?case
      unfolding ksubs_upt [OF i] using Suc.hyps by (auto simp: sorted_wrt_append)
  qed simp
qed simp

lemma lexicographical_compare_irrefl: "\<not> lexicographical_compare l l"
  by (induction l) auto

lemma ksubs_distinct: "distinct (ksubs k [i..<n])"
  using ksubs_ordered [of k i n] lexicographical_compare_irrefl by (auto simp: sorted_wrt_iff_nth_less distinct_conv_nth nat_neq_iff) metis+

lemma combinations_eq:
  "length current \<le> k \<Longrightarrow> EnumerateCombinations n k i current visit s =
     visit_all visit (map ((@) current) (ksubs (k - length current) [i..<n])) s"
  "length current < k \<Longrightarrow> combinations_loop n k i current visit s =
     visit_all visit (map ((@) current) (ksubs (k - length current) [i..<n])) s"
proof (induction n k i current visit s and n k i current visit s rule: EnumerateCombinations_combinations_loop.induct)
  case (1 n k i current visit s)
  then show ?case by (cases "length current = k") (auto simp: EnumerateCombinations.simps [of n k i] split: prod.split)
next
  case (2 n k i current visit s)
  obtain m where m: "k - length current = Suc m" "k - length (current @ [i]) = m"
    using 2(3) by (metis Suc_diff_Suc diff_Suc_eq_diff_pred length_append_singleton diff_Suc_1 Suc_pred zero_less_diff diff_Suc_Suc)
  show ?case
  proof (cases "i + (k - length current) \<le> n")
    case False
    then have "ksubs (Suc m) [i..<n] = []" using m by (intro ksubs_short) simp
    then show ?thesis using False m by (simp add: combinations_loop.simps [of n k i])
  next
    case True
    then have i: "i < n" using m(1) by simp
    obtain go_on s' where e: "EnumerateCombinations n k (i + 1) (current @ [i]) visit s = (go_on, s')" by fastforce
    have IH1: "visit_all visit (map ((@) (current @ [i])) (ksubs m [i + 1..<n])) s = (go_on, s')"
    proof -
      have "length (current @ [i]) \<le> k" using 2(3) by simp
      from 2(1) [OF True this] show ?thesis unfolding m(2) e by (rule sym)
    qed
    have IH2: "go_on \<Longrightarrow> combinations_loop n k (i + 1) current visit s' = visit_all visit (map ((@) current) (ksubs (Suc m) [i + 1..<n])) s'"
      using 2(2) [OF True e [symmetric]] 2(3) unfolding m(1) by simp
    have list: "map ((@) current) (ksubs (Suc m) [i..<n]) =
        map ((@) (current @ [i])) (ksubs m [i + 1..<n]) @ map ((@) current) (ksubs (Suc m) [i + 1..<n])"
      by (simp add: ksubs_upt [OF i])
    show ?thesis
      unfolding combinations_loop.simps [of n k i] if_P [OF True] e
      unfolding m(1) list visit_all_append IH1 using IH2 by simp
  qed
qed

text \<open>
  C35. The enumeration ends after at most \<open>n choose k\<close> visits: it visits the sets of \<open>k\<close> indices
  below \<open>n\<close>, each once, in lexicographic order, and stops at the first visit that asks it to.
\<close>

theorem enumeration_visits:
  "\<exists>sets. EnumerateCombinations n k 0 [] visit s = visit_all visit sets s \<and> length sets = n choose k \<and> distinct sets \<and>
     sorted_wrt lexicographical_compare sets \<and>
     set sets = {l. length l = k \<and> sorted_wrt (<) l \<and> set l \<subseteq> {..<n}}"
proof (intro exI conjI)
  show "EnumerateCombinations n k 0 [] visit s = visit_all visit (ksubs k [0..<n]) s"
    by (simp add: combinations_eq(1) map_idI)
qed (simp_all add: ksubs_count ksubs_distinct ksubs_ordered ksubs_mem atLeast0LessThan)

section \<open>The groups\<close>

lemma record_group_ids: "set (map rg_id (record_group new gs)) = insert (rg_id new) (set (map rg_id gs))"
  by (induction gs) auto

lemma record_group_sorted: "sorted_wrt (<) (map rg_id gs) \<Longrightarrow> sorted_wrt (<) (map rg_id (record_group new gs))"
proof (induction gs)
  case (Cons g gs)
  then show ?case using record_group_ids [of new gs] by (auto simp: not_less_iff_gr_or_eq)
qed simp

lemma removal_groups:
  "sorted_wrt (<) (map rg_id (CollectRemovalGroups m))"
  "set (map rg_id (CollectRemovalGroups m)) = {g. \<exists>p \<in> set (provenances m). cp_removal_group_id p = Some g}"
proof -
  have "sorted_wrt (<) (map rg_id (fold record_provenance ps gs))" if "sorted_wrt (<) (map rg_id gs)" for ps gs
    using that by (induction ps arbitrary: gs) (auto simp: record_provenance_def record_group_sorted split: option.splits)
  then show "sorted_wrt (<) (map rg_id (CollectRemovalGroups m))" by (simp add: CollectRemovalGroups_def)
  have "set (map rg_id (fold record_provenance ps gs)) =
      set (map rg_id gs) \<union> {g. \<exists>p \<in> set ps. cp_removal_group_id p = Some g}" for ps gs
  proof (induction ps arbitrary: gs)
    case (Cons p ps)
    then show ?case using record_group_ids by (auto simp: record_provenance_def split: option.splits)
  qed simp
  then show "set (map rg_id (CollectRemovalGroups m)) = {g. \<exists>p \<in> set (provenances m). cp_removal_group_id p = Some g}"
    by (simp add: CollectRemovalGroups_def)
qed

section \<open>Dropping\<close>

text \<open>What a model asks when the clauses in \<open>dropped\<close> are ignored.\<close>

definition feasible_without :: "SolverModel \<Rightarrow> idx set \<Rightarrow> (idx \<Rightarrow> real) \<Rightarrow> bool" where
  "feasible_without m D x \<longleftrightarrow> model_columns m x \<and>
     (\<forall>mc \<in> set (sm_constraints m). cp_removal_group_id (mc_provenance mc) \<notin> Some ` D \<longrightarrow> sat_mc mc x) \<and>
     (\<forall>qc \<in> set (sm_quadratic_constraints m). cp_removal_group_id (qc_provenance qc) \<notin> Some ` D \<longrightarrow> sat_qc qc x) \<and>
     (\<forall>ic \<in> set (sm_indicator_constraints m). cp_removal_group_id (ix_provenance ic) \<notin> Some ` D \<longrightarrow> sat_ix ic x) \<and>
     (\<forall>gc \<in> set (sm_general_constraints m). cp_removal_group_id (gn_provenance gc) \<notin> Some ` D \<longrightarrow> sat_gn gc x)"

lemma retained_iff: "retained dropped p \<longleftrightarrow> cp_removal_group_id p \<notin> Some ` set dropped"
  by (auto simp: retained_def split: option.splits)

text \<open>
  C36. Dropping omits whole clauses and nothing else, and the flag for a proven contradiction is
  recomputed soundly: it is set only if the rows that are left have no solution.
\<close>

theorem drop_exact:
  "(feasible (DropRemovalGroups m dropped) x \<longleftrightarrow> feasible_without m (set dropped) x) \<and>
   (sm_build_proven_infeasible (DropRemovalGroups m dropped) \<longrightarrow> \<not> feasible_without m (set dropped) x)"
proof -
  have drop: "feasible (DropRemovalGroups m dropped) x \<longleftrightarrow> feasible_without m (set dropped) x"
    by (auto simp: feasible_def feasible_without_def DropRemovalGroups_def model_columns_def model_rows_def retained_iff Let_def)
  have "\<not> feasible (DropRemovalGroups m dropped) x" if flag: "sm_build_proven_infeasible (DropRemovalGroups m dropped)"
  proof -
    from flag obtain mc where mc: "mc \<in> set (sm_constraints (DropRemovalGroups m dropped))" "violated_empty_row mc"
      by (auto simp: DropRemovalGroups_def Let_def list_ex_iff)
    then have "\<not> sat_mc mc x"
      by (cases "mc_sense mc"; cases "mc_rhs mc") (auto simp: violated_empty_row_def sat_mc_def deq_def dbl_arith)
    with mc(1) show ?thesis by (auto simp: feasible_def model_rows_def)
  qed
  with drop show ?thesis by simp
qed

lemma drop_fields [simp]:
  "sm_num_vars (DropRemovalGroups m D) = sm_num_vars m" "sm_col_lower (DropRemovalGroups m D) = sm_col_lower m"
  "sm_col_upper (DropRemovalGroups m D) = sm_col_upper m" "sm_is_integer (DropRemovalGroups m D) = sm_is_integer m"
  "sm_is_binary (DropRemovalGroups m D) = sm_is_binary m" "sm_obj_coeffs (DropRemovalGroups m D) = sm_obj_coeffs m"
  "sm_maximize (DropRemovalGroups m D) = sm_maximize m" "sm_q_rows (DropRemovalGroups m D) = sm_q_rows m"
  "sm_q_cols (DropRemovalGroups m D) = sm_q_cols m" "sm_q_vals (DropRemovalGroups m D) = sm_q_vals m"
  "sm_has_quadratic_obj (DropRemovalGroups m D) = sm_has_quadratic_obj m"
  by (simp_all add: DropRemovalGroups_def Let_def)

lemma drop_ok: "elastic_ok slack_scope m \<Longrightarrow> elastic_ok slack_scope (DropRemovalGroups m D)"
  by (auto simp: elastic_ok_def one_sense_def DropRemovalGroups_def Let_def)

lemma drop_scoped: "scoped m \<Longrightarrow> scoped (DropRemovalGroups m D)"
  by (auto simp: scoped_def DropRemovalGroups_def Let_def)

end
