(* ===== verification/RepairExact.thy ===== *)
theory RepairExact
  imports RemovalSets
begin

text \<open>
  What the repair of one set of dropped clauses achieves, over a sound solver: \<open>stage1_ladder\<close> ends
  in the cheapest points of the elastic program, first by data offsets and then by editable bounds;
  stage 2 takes the best of these for the query's own objective; the tie-break stays among them.
\<close>

section \<open>Cheapest points\<close>

definition argmin_on :: "('a \<Rightarrow> real) \<Rightarrow> 'a set \<Rightarrow> 'a set" where
  "argmin_on f F = {y \<in> F. \<forall>z \<in> F. f y \<le> f z}"

definition cheapest :: "ElasticModel \<Rightarrow> (idx \<Rightarrow> real) set" where
  "cheapest e = argmin_on (tier_cost (em_slacks e) EDITABLE_LOOSEN)
     (argmin_on (tier_cost (em_slacks e) DATA_OFFSET) (Collect (feasible (em_model e))))"

lemma argmin_on_same: "y \<in> argmin_on f F \<Longrightarrow> z \<in> argmin_on f F \<Longrightarrow> f y = f z"
  by (auto simp: argmin_on_def intro: antisym)

lemma argmin_on_below: "y0 \<in> argmin_on f F \<Longrightarrow> argmin_on f F = {y \<in> F. f y \<le> f y0}"
  by (fastforce simp: argmin_on_def)

lemma argmin_on_const: "(\<And>y. f y = c) \<Longrightarrow> argmin_on f F = F"
  by (auto simp: argmin_on_def)

section \<open>The elastic program as the ladder sees it\<close>

definition repair_objective_ok :: "SolverModel \<Rightarrow> bool" where
  "repair_objective_ok m \<longleftrightarrow> length (sm_obj_coeffs m) = sm_num_vars m \<and> list_all isfinite (sm_obj_coeffs m) \<and>
     (\<not> sm_has_quadratic_obj m \<longrightarrow> sm_q_vals m = [])"

definition ladder_model :: "nat \<Rightarrow> BlockSlackRef list \<Rightarrow> SolverModel \<Rightarrow> bool" where
  "ladder_model n S m \<longleftrightarrow> sm_num_vars m = n \<and> length (sm_obj_coeffs m) = n \<and> slacks_ok n S \<and>
     (\<forall>y. feasible m y \<longrightarrow> slacks_nonneg S y)"

lemma elastic_ladder_model:
  assumes ok: "elastic_ok slack_scope base" and e: "e = BuildElasticModel base slack_scope"
    and scoped: "scoped base" and obj: "repair_objective_ok base"
  shows "ladder_model (sm_num_vars (em_model e)) (em_slacks e) (em_model e)"
proof -
  have inv: "elastic_inv base e" using elastic_ok_sense [OF ok] e by (rule BuildElasticModel_facts(1))
  then obtain d where d: "em_model e = elastic_model base (em_slacks e) d"
    "concat (map bs_cols (em_slacks e)) = [sm_num_vars base..<sm_num_vars base + d]"
    by (auto simp: elastic_inv_def)
  have n: "sm_num_vars (em_model e) = sm_num_vars base + d" by (simp add: d(1) elastic_model_def)
  have "isfinite (bs_weight b) \<and> 0 < bs_weight b" if "b \<in> set (em_slacks e)" for b
    using elastic_weights [OF ok e scoped that] by (cases "bs_weight b") (auto simp: dbl_arith)
  then have "slacks_ok (sm_num_vars (em_model e)) (em_slacks e)" unfolding slacks_ok_def d(2) n by simp
  moreover have "length (sm_obj_coeffs (em_model e)) = sm_num_vars (em_model e)"
    using obj by (simp add: d(1) elastic_model_def repair_objective_ok_def)
  ultimately show ?thesis
    using elastic_admits [OF ok inv] by (simp add: ladder_model_def feasible_def)
qed

text \<open>The same model with another objective and further rows.\<close>

lemma ladder_model_step:
  assumes "ladder_model n S m" "sm_num_vars m' = n" "length (sm_obj_coeffs m') = n" "\<And>y. feasible m' y \<Longrightarrow> feasible m y"
  shows "ladder_model n S m'"
  using assms by (auto simp: ladder_model_def)

definition budget_ok :: "BlockSlackRef list \<Rightarrow> TierBudget \<Rightarrow> real \<Rightarrow> bool" where
  "budget_ok S b v \<longleftrightarrow> tb_active b \<and> tb_value b = Fin v \<and> TierHasTerms S (tb_tier b)"

lemma SetTierObjective_shape [simp]:
  "sm_num_vars (SetTierObjective m S t) = sm_num_vars m" "sm_maximize (SetTierObjective m S t) = False"
  "length (sm_obj_coeffs (SetTierObjective m S t)) = length (sm_obj_coeffs m)"
proof -
  have len: "length (fold (\<lambda>(col, coeff) obj. obj[col := coeff]) zs obj) = length obj" for zs :: "(idx \<times> dbl) list" and obj
    by (induction zs arbitrary: obj) auto
  show "sm_num_vars (SetTierObjective m S t) = sm_num_vars m" "sm_maximize (SetTierObjective m S t) = False"
    "length (sm_obj_coeffs (SetTierObjective m S t)) = length (sm_obj_coeffs m)"
    by (simp_all add: SetTierObjective_eq drop_objective_def len)
qed

lemma AddTierBudgetRow_shape [simp]:
  "sm_num_vars (AddTierBudgetRow S b m) = sm_num_vars m" "sm_obj_coeffs (AddTierBudgetRow S b m) = sm_obj_coeffs m"
  by (auto simp: AddTierBudgetRow_def AppendTierTerms_eq Let_def)

lemma budget_row_ok:
  "slacks_ok n S \<Longrightarrow> budget_ok S b v \<Longrightarrow> feasible (AddTierBudgetRow S b m) y \<longleftrightarrow> feasible m y \<and> tier_cost S (tb_tier b) y \<le> v"
  using budget_row [of n S "tb_tier b" v m y] by (cases b) (simp add: budget_ok_def)

section \<open>One pass of the ladder\<close>

lemma tier_pass_exact:
  assumes sound: "sound_solver (ii_solve_model input)" and m: "ladder_model n S m"
    and pass: "tier_pass input S t (m, budgets, st) = Inr (m', budgets', st')"
  shows "ladder_model n S m' \<and> Collect (feasible m') = argmin_on (tier_cost S t) (Collect (feasible m)) \<and>
    (if TierHasTerms S t
     then (\<exists>y v b sol. st' = Some sol \<and> y = point (sr_solution sol) \<and> y \<in> Collect (feasible m') \<and> budgets' = budgets @ [b] \<and>
             tb_tier b = t \<and> budget_ok S b v \<and> v = tier_cost S t y)
     else m' = m \<and> budgets' = budgets \<and> st' = st)"
proof (cases "TierHasTerms S t")
  case False
  have ok: "slacks_ok n S" using m by (simp add: ladder_model_def)
  show ?thesis
    using pass m False argmin_on_const [of "tier_cost S t" 0 "Collect (feasible m)"] tier_cost_without_terms [OF ok False]
    by (simp add: tier_pass_def)
next
  case True
  have ok: "slacks_ok n S" using m by (simp add: ladder_model_def)
  define m1 where "m1 = SetTierObjective m S t"
  define sol where "sol = ii_solve_model input m1"
  have none: "pass_outcome input sol = None"
    using pass True by (cases "pass_outcome input sol") (simp_all add: tier_pass_def Let_def m1_def sol_def)
  then have opt: "sr_status sol = OPTIMAL" by (auto simp: pass_outcome_def split: if_splits)
  define y where "y = point (sr_solution sol)"
  note facts = sound_optimal [OF sound opt [unfolded sol_def], folded sol_def]
  have len: "length (sr_solution sol) = n" using facts(2) m by (simp add: m1_def ladder_model_def)
  have y: "feasible m y" "\<forall>z. feasible m z \<longrightarrow> tier_cost S t y \<le> tier_cost S t z"
    using facts(1) tier_objective [OF ok, of m t] m
    by (auto simp: optimal_def m1_def y_def no_worse_def ladder_model_def)
  have nonneg: "slacks_nonneg S y" using y(1) m by (auto simp: ladder_model_def)
  define b where "b = MakeTierBudget (sr_solution sol) S t"
  have "fst (AppendTierTerms mc_default S t)"
    using tier_cols_empty [OF ok, of t] True by (simp add: AppendTierTerms_eq)
  then have b: "b = \<lparr>tb_tier = t, tb_value = Fin (tier_cost S t y), tb_active = True\<rparr>"
    using ComputeTierValue_eq [OF ok len facts(3) nonneg [unfolded y_def]] by (simp add: b_def MakeTierBudget_def y_def Let_def)
  then have bok: "budget_ok S b (tier_cost S t y)" using True by (simp add: budget_ok_def)
  have m': "m' = AddTierBudgetRow S b m1" "budgets' = budgets @ [b]" "st' = Some sol"
    using pass True none unfolding tier_pass_def prod.case by (simp_all add: Let_def flip: m1_def sol_def b_def)
  have feas: "feasible m' z \<longleftrightarrow> feasible m z \<and> tier_cost S t z \<le> tier_cost S t y" for z
    using budget_row_ok [OF ok bok, of m1] b by (simp add: m' m1_def)
  have "y \<in> argmin_on (tier_cost S t) (Collect (feasible m))" using y by (simp add: argmin_on_def)
  from argmin_on_below [OF this] have "Collect (feasible m') = argmin_on (tier_cost S t) (Collect (feasible m))"
    by (simp add: feas set_eq_iff)
  moreover have "ladder_model n S m'"
    using m by (rule ladder_model_step) (use m feas in \<open>auto simp: m' m1_def ladder_model_def\<close>)
  ultimately show ?thesis
    using True m'(2,3) bok b y_def feas y(1) by auto
qed

lemma tier_pass_infeasible:
  assumes sound: "sound_solver (ii_solve_model input)"
    and pass: "tier_pass input S t (m, budgets, st) = Inl CAND_INFEASIBLE"
  shows "\<not> feasible m x \<and> \<not> ii_has_unhandled_user_bounds input"
proof -
  have "sr_status (ii_solve_model input (SetTierObjective m S t)) = INFEASIBLE" "\<not> ii_has_unhandled_user_bounds input"
    using pass by (auto simp: tier_pass_def Let_def pass_outcome_def split: if_splits option.splits)
  with sound_infeasible [OF sound this(1), of x] show ?thesis by simp
qed

lemma tier_pass_not_feasible: "tier_pass input S t st = Inl status \<Longrightarrow> status \<noteq> CAND_FEASIBLE"
  by (auto simp: tier_pass_def Let_def pass_outcome_def split: if_splits option.splits prod.splits)

section \<open>The ladder\<close>

text \<open>What the two passes leave behind.\<close>

definition ladder_done :: "ElasticModel \<Rightarrow> SolverModel \<times> TierBudget list \<times> SolverResult \<Rightarrow> bool" where
  "ladder_done e st \<longleftrightarrow> (case st of (m, budgets, stage1) \<Rightarrow>
     Collect (feasible m) = cheapest e \<and> point (sr_solution stage1) \<in> cheapest e \<and>
     (\<forall>z \<in> cheapest e. BudgetValue budgets DATA_OFFSET = Fin (tier_cost (em_slacks e) DATA_OFFSET z) \<and>
        BudgetValue budgets EDITABLE_LOOSEN = Fin (tier_cost (em_slacks e) EDITABLE_LOOSEN z) \<and>
        (\<forall>b \<in> set budgets. budget_ok (em_slacks e) b (tier_cost (em_slacks e) (tb_tier b) z))) \<and>
     (\<forall>t. TierHasTerms (em_slacks e) t \<longrightarrow> (\<exists>b \<in> set budgets. tb_tier b = t)))"

lemma ladder_exact:
  assumes sound: "sound_solver (ii_solve_model input)" and e: "ladder_model n (em_slacks e) (em_model e)"
    and st: "stage1_ladder input e = Inr st"
  shows "ladder_done e st"
proof -
  let ?S = "em_slacks e" and ?D = DATA_OFFSET and ?E = EDITABLE_LOOSEN
  have ok: "slacks_ok n ?S" using e by (simp add: ladder_model_def)
  obtain m1 b1 s1 where p1: "tier_pass input ?S ?D (em_model e, [], None) = Inr (m1, b1, s1)"
    using st by (auto simp: stage1_ladder_def split: sum.splits)
  obtain m2 b2 s2 where p2: "tier_pass input ?S ?E (m1, b1, s1) = Inr (m2, b2, s2)"
    using st p1 by (auto simp: stage1_ladder_def split: sum.splits)
  note t1 = tier_pass_exact [OF sound e p1]
  note t2 = tier_pass_exact [OF sound t1 [THEN conjunct1] p2]
  have cheap: "Collect (feasible m2) = cheapest e" using t1 t2 by (simp add: cheapest_def)
  have sub: "cheapest e \<subseteq> Collect (feasible m1)" using t1 t2 by (auto simp: cheapest_def argmin_on_def)
  have zero: "\<not> TierHasTerms ?S t \<Longrightarrow> tier_cost ?S t z = 0" for t z by (rule tier_cost_without_terms [OF ok])
  have costD: "tier_cost ?S ?D z = tier_cost ?S ?D y" if "feasible m1 y" "z \<in> cheapest e" for y z
    using that sub t1 argmin_on_same [of _ "tier_cost ?S ?D" "Collect (feasible (em_model e))"] by blast
  have costE: "tier_cost ?S ?E z = tier_cost ?S ?E y" if "feasible m2 y" "z \<in> cheapest e" for y z
    using that cheap t2 argmin_on_same [of _ "tier_cost ?S ?E" "Collect (feasible m1)"] by blast
  have budgets1: "if TierHasTerms ?S ?D then (\<exists>b. b1 = [b] \<and> tb_tier b = ?D \<and> (\<forall>z \<in> cheapest e. budget_ok ?S b (tier_cost ?S ?D z)))
      else b1 = []"
    using t1 costD by (auto split: if_splits)
  have budgets2: "if TierHasTerms ?S ?E then (\<exists>b. b2 = b1 @ [b] \<and> tb_tier b = ?E \<and> (\<forall>z \<in> cheapest e. budget_ok ?S b (tier_cost ?S ?E z)))
      else b2 = b1"
    using t2 costE by (auto split: if_splits)
  have some: "s2 \<noteq> None \<Longrightarrow> point (sr_solution (the s2)) \<in> cheapest e"
    using t1 t2 cheap by (auto split: if_splits)
  obtain stage1 where final: "st = (m2, b2, stage1)" "point (sr_solution stage1) \<in> cheapest e"
  proof (cases s2)
    case (Some sol)
    then have "st = (m2, b2, sol)" using st p1 p2 by (simp add: stage1_ladder_def)
    then show ?thesis using some Some by (intro that) auto
  next
    case None
    let ?sol = "ii_solve_model input m2"
    have "pass_outcome input ?sol = None" "st = (m2, b2, ?sol)"
      using st p1 p2 None by (cases "pass_outcome input ?sol"; simp add: stage1_ladder_def Let_def)+
    moreover from this(1) have "sr_status ?sol = OPTIMAL" by (auto simp: pass_outcome_def split: if_splits)
    then have "feasible m2 (point (sr_solution ?sol))" using sound_optimal(1) [OF sound] by (simp add: optimal_def)
    ultimately show ?thesis using cheap by (intro that) auto
  qed
  have "BudgetValue b2 ?D = Fin (tier_cost ?S ?D z) \<and> BudgetValue b2 ?E = Fin (tier_cost ?S ?E z)" if "z \<in> cheapest e" for z
    using budgets1 budgets2 that zero [of ?D z] zero [of ?E z]
    by (cases "TierHasTerms ?S ?D"; cases "TierHasTerms ?S ?E") (auto simp: budget_ok_def zero_dbl_def)
  moreover have "\<forall>b \<in> set b2. budget_ok ?S b (tier_cost ?S (tb_tier b) z)" if "z \<in> cheapest e" for z
    using budgets1 budgets2 that by (cases "TierHasTerms ?S ?D"; cases "TierHasTerms ?S ?E") auto
  moreover have "\<exists>b \<in> set b2. tb_tier b = t" if "TierHasTerms ?S t" for t
    using budgets1 budgets2 that by (cases t; cases "TierHasTerms ?S ?D"; cases "TierHasTerms ?S ?E") auto
  ultimately show ?thesis using cheap final by (simp add: ladder_done_def)
qed

lemma ladder_infeasible:
  assumes sound: "sound_solver (ii_solve_model input)" and e: "ladder_model n (em_slacks e) (em_model e)"
    and st: "stage1_ladder input e = Inl CAND_INFEASIBLE"
  shows "\<not> feasible (em_model e) x"
proof -
  let ?S = "em_slacks e" and ?D = DATA_OFFSET and ?E = EDITABLE_LOOSEN
  show ?thesis
  proof (cases "tier_pass input ?S ?D (em_model e, [], None)")
    case (Inl status)
    then have "status = CAND_INFEASIBLE" using st by (simp add: stage1_ladder_def)
    with Inl show ?thesis using tier_pass_infeasible [OF sound] by blast
  next
    case (Inr st1)
    obtain m1 b1 s1 where st1: "st1 = (m1, b1, s1)" by (cases st1)
    note t1 = tier_pass_exact [OF sound e Inr [unfolded st1]]
    have kept: "\<exists>y. feasible m1 y" if "feasible (em_model e) x"
    proof (cases "TierHasTerms ?S ?D")
      case True
      then show ?thesis using t1 by auto
    next
      case False
      then show ?thesis using t1 that by auto
    qed
    show ?thesis
    proof (cases "tier_pass input ?S ?E st1")
      case (Inl status)
      then have "status = CAND_INFEASIBLE" using st Inr by (simp add: stage1_ladder_def)
      with Inl show ?thesis using tier_pass_infeasible [OF sound] kept unfolding st1 by blast
    next
      case (Inr st2)
      obtain m2 b2 s2 where st2: "st2 = (m2, b2, s2)" by (cases st2)
      note t2 = tier_pass_exact [OF sound t1 [THEN conjunct1] Inr [unfolded st1 st2]]
      have s2: "s2 = None" using st \<open>tier_pass input ?S ?D _ = Inr st1\<close> Inr by (auto simp: stage1_ladder_def st2 split: option.splits)
      then have "m2 = m1" using t2 by (auto split: if_splits)
      have "pass_outcome input (ii_solve_model input m2) = Some CAND_INFEASIBLE"
        using st \<open>tier_pass input ?S ?D _ = Inr st1\<close> Inr s2
        by (cases "pass_outcome input (ii_solve_model input m2)") (simp_all add: stage1_ladder_def st2 Let_def)
      then have "sr_status (ii_solve_model input m2) = INFEASIBLE" by (auto simp: pass_outcome_def split: if_splits)
      then show ?thesis using sound_infeasible [OF sound] kept \<open>m2 = m1\<close> by blast
    qed
  qed
qed

section \<open>The second stage\<close>

lemma budget_rows:
  assumes "slacks_ok n S" "\<forall>b \<in> set budgets. budget_ok S b (v b)"
  shows "feasible (fold (AddTierBudgetRow S) budgets m) y \<longleftrightarrow>
    feasible m y \<and> (\<forall>b \<in> set budgets. tier_cost S (tb_tier b) y \<le> v b)"
  using assms(2)
proof (induction budgets arbitrary: m)
  case (Cons b budgets)
  then show ?case using budget_row_ok [OF assms(1), of b "v b" m] by auto
qed simp

lemma fold_budget_shape: "sm_num_vars (fold (AddTierBudgetRow S) budgets m) = sm_num_vars m"
  by (induction budgets arbitrary: m) simp_all

lemma lin_val_upt_append:
  "lin_val [0..<length cs + k] (cs @ replicate k 0) y = lin_val [0..<length cs] cs y"
proof -
  have "[0..<length cs + k] = [0..<length cs] @ [length cs..<length cs + k]" by (rule upt_add_eq_append) simp
  then show ?thesis by (simp add: lin_val_append lin_val_zeros)
qed

lemma stage2_model:
  assumes ladder: "ladder_done e (m1, budgets, stage1)" and e: "ladder_model n (em_slacks e) (em_model e)"
    and obj: "repair_objective_ok orig" "sm_num_vars orig \<le> n" and stage2: "stage2 = BuildStage2Model (em_model e) (em_slacks e) orig budgets"
  shows "Collect (feasible stage2) = cheapest e" "obj_val stage2 y = obj_val orig y"
    "sm_maximize stage2 = sm_maximize orig" "sm_num_vars stage2 = n" "list_all isfinite (sm_obj_coeffs stage2)"
    "sm_has_quadratic_obj stage2 = sm_has_quadratic_obj orig" "sm_q_vals stage2 = sm_q_vals orig"
proof -
  let ?S = "em_slacks e"
  have ok: "slacks_ok n ?S" and n: "sm_num_vars (em_model e) = n" using e by (simp_all add: ladder_model_def)
  let ?z = "point (sr_solution stage1)"
  have z: "?z \<in> cheapest e" "\<forall>b \<in> set budgets. budget_ok ?S b (tier_cost ?S (tb_tier b) ?z)"
    and own: "\<And>t. TierHasTerms ?S t \<Longrightarrow> \<exists>b \<in> set budgets. tb_tier b = t"
    using ladder by (auto simp: ladder_done_def)
  have feas: "feasible stage2 y \<longleftrightarrow> feasible (em_model e) y \<and> (\<forall>b \<in> set budgets. tier_cost ?S (tb_tier b) y \<le> tier_cost ?S (tb_tier b) ?z)" for y
    using budget_rows [OF ok z(2), of "em_model e" y]
    by (simp add: stage2 BuildStage2Model_def Let_def feasible_def model_columns_def model_rows_def)
  have le: "tier_cost ?S t y \<le> tier_cost ?S t ?z" if "feasible stage2 y" for t y
    using that feas own tier_cost_without_terms [OF ok, of t] by (cases "TierHasTerms ?S t") fastforce+
  have minimal: "tier_cost ?S DATA_OFFSET ?z \<le> tier_cost ?S DATA_OFFSET y" if "feasible (em_model e) y" for y
    using z(1) that by (auto simp: cheapest_def argmin_on_def)
  have "y \<in> cheapest e" if y: "feasible stage2 y" for y
  proof -
    have "y \<in> argmin_on (tier_cost ?S DATA_OFFSET) (Collect (feasible (em_model e)))"
      using le [OF y, of DATA_OFFSET] minimal feas y by (force simp: argmin_on_def)
    then show ?thesis
      using z(1) le [OF y, of EDITABLE_LOOSEN] by (force simp: cheapest_def argmin_on_def [of "tier_cost ?S EDITABLE_LOOSEN"])
  qed
  moreover have "feasible stage2 y" if y: "y \<in> cheapest e" for y
  proof -
    have "tier_cost ?S t y = tier_cost ?S t ?z" for t
      using y z(1) by (cases t) (auto simp: cheapest_def argmin_on_def intro!: antisym)
    moreover have "feasible (em_model e) y" using y by (auto simp: cheapest_def argmin_on_def)
    ultimately show ?thesis using feas by simp
  qed
  ultimately show "Collect (feasible stage2) = cheapest e" by auto
  have coeffs: "sm_obj_coeffs stage2 = sm_obj_coeffs orig @ replicate (n - sm_num_vars orig) 0"
    using obj n by (simp add: stage2 BuildStage2Model_def Let_def fold_budget_shape repair_objective_ok_def)
  then show "list_all isfinite (sm_obj_coeffs stage2)" using obj by (auto simp: repair_objective_ok_def list_all_iff isfinite_consts)
  show "sm_maximize stage2 = sm_maximize orig" "sm_num_vars stage2 = n" "sm_has_quadratic_obj stage2 = sm_has_quadratic_obj orig"
    and qv: "sm_q_vals stage2 = sm_q_vals orig"
    using n by (simp_all add: stage2 BuildStage2Model_def Let_def fold_budget_shape)
  have "sm_q_rows stage2 = sm_q_rows orig" "sm_q_cols stage2 = sm_q_cols orig"
    by (simp_all add: stage2 BuildStage2Model_def Let_def)
  then show "obj_val stage2 y = obj_val orig y"
    using obj lin_val_upt_append [of "sm_obj_coeffs orig" "n - sm_num_vars orig" y]
    by (simp add: obj_val_def coeffs qv repair_objective_ok_def)
qed

section \<open>The tie-break\<close>

lemma freeze_row_exact:
  assumes "list_all isfinite (sm_obj_coeffs m)"
  shows "sat_mc (freeze_row m k) y \<longleftrightarrow>
    no_worse (sm_maximize m) (lin_val [0..<length (sm_obj_coeffs m)] (sm_obj_coeffs m) y) k"
proof -
  let ?c = "sm_obj_coeffs m"
  have "lin_val (filter (\<lambda>j. ?c ! j \<noteq> 0) js) (map ((!) ?c) (filter (\<lambda>j. ?c ! j \<noteq> 0) js)) y = lin_val js (map ((!) ?c) js) y" for js
    by (induction js) (simp_all add: zero_dbl_def)
  from this [of "[0..<length ?c]"] show ?thesis
    by (simp add: freeze_row_def Let_def sat_mc_def mc_default_def no_worse_def map_nth)
qed

lemma tie_break_exact:
  assumes sound: "sound_solver (ii_solve_model input)" and fin: "freeze \<Longrightarrow> list_all isfinite (sm_obj_coeffs m)"
    and tie: "tie_break input S m freeze k sol = Some sol'"
  shows "sol' = sol \<or> feasible m (point sol') \<and> (freeze \<longrightarrow> \<not> sm_has_quadratic_obj m \<and>
     no_worse (sm_maximize m) (lin_val [0..<length (sm_obj_coeffs m)] (sm_obj_coeffs m) (point sol')) k)"
proof (cases "BuildTieBreakModel m S freeze k")
  case None
  then show ?thesis using tie by (simp add: tie_break_def)
next
  case (Some tm)
  have feas: "feasible tm y \<longleftrightarrow> feasible m y \<and> (freeze \<longrightarrow> sat_mc (freeze_row m k) y)" for y
    using Some by (auto simp: BuildTieBreakModel_def Let_def feasible_def model_columns_def model_rows_def split: if_splits)
  have lin: "freeze \<longrightarrow> \<not> sm_has_quadratic_obj m" using Some by (auto simp: BuildTieBreakModel_def Let_def split: if_splits)
  have "sr_status (ii_solve_model input tm) = OPTIMAL" "sol' = sr_solution (ii_solve_model input tm)"
    using tie Some by (auto simp: tie_break_def Let_def split: if_splits)
  then have "feasible tm (point sol')" using sound_optimal(1) [OF sound] by (simp add: optimal_def)
  then show ?thesis using feas lin freeze_row_exact [OF fin] by simp
qed

section \<open>The repair of one set\<close>

text \<open>
  What a point of a repair has to be: cheapest, with the candidate's costs, and the best of the
  cheapest points for the query's objective, unless that grows without limit over them.
\<close>

definition repairs :: "SolverModel \<Rightarrow> ElasticModel \<Rightarrow> RemovalCandidate \<Rightarrow> (idx \<Rightarrow> real) \<Rightarrow> bool" where
  "repairs cm e c y \<longleftrightarrow> y \<in> cheapest e \<and>
     rm_data_cost c = Fin (tier_cost (em_slacks e) DATA_OFFSET y) \<and>
     rm_editable_cost c = Fin (tier_cost (em_slacks e) EDITABLE_LOOSEN y) \<and>
     rm_has_objective c = HasObjective cm \<and>
     (if \<not> HasObjective cm then rm_objective_value c = 0
      else if rm_objective_unbounded c
         then rm_objective_value c = 0 \<and>
              (\<forall>k. \<exists>z \<in> cheapest e. if sm_maximize cm then Fin k \<le> obj_val cm z else obj_val cm z \<le> Fin k)
         else rm_objective_value c = obj_val cm y \<and>
              (\<forall>z \<in> cheapest e. no_worse (sm_maximize cm) (obj_val cm y) (obj_val cm z)))"

lemma no_worse_antisym: "no_worse b x y \<Longrightarrow> no_worse b y x \<Longrightarrow> x = y"
  by (cases b; cases x; cases y) (auto simp: no_worse_def)

text \<open>The body after the ladder, with the ladder's result as an argument.\<close>

definition conclude :: "InfeasibleInput \<Rightarrow> SolverModel \<Rightarrow> ElasticModel \<Rightarrow> idx list \<Rightarrow>
    SolverModel \<times> TierBudget list \<times> SolverResult \<Rightarrow> RemovalCandidate" where
  "conclude input cm e dropped st =
     (case st of (stage1_model, budgets, stage1) \<Rightarrow>
       let result = rm_default\<lparr>rm_signature := dropped, rm_data_cost := BudgetValue budgets DATA_OFFSET,
             rm_editable_cost := BudgetValue budgets EDITABLE_LOOSEN, rm_has_objective := HasObjective cm\<rparr>
       in if HasObjective cm
          then let stage2_model = BuildStage2Model (em_model e) (em_slacks e) cm budgets;
                   stage2 = ii_solve_model input stage2_model
               in if sr_status stage2 = OPTIMAL \<and> sr_solution stage2 \<noteq> []
                  then finish_candidate (em_slacks e) dropped
                         (tie_break input (em_slacks e) stage2_model True (sr_objective_value stage2) (sr_solution stage2))
                         (result\<lparr>rm_objective_value := sr_objective_value stage2\<rparr>)
                  else if sr_status stage2 = UNBOUNDED
                  then finish_candidate (em_slacks e) dropped
                         (tie_break input (em_slacks e) stage1_model False 0 (sr_solution stage1))
                         (result\<lparr>rm_objective_unbounded := True\<rparr>)
                  else result
          else finish_candidate (em_slacks e) dropped
                 (tie_break input (em_slacks e) stage1_model False 0 (sr_solution stage1)) result)"

lemma SolveRemovalCandidate_eq:
  assumes "dropped = map (\<lambda>i. rg_id (groups ! i)) selected" "cm = DropRemovalGroups (ii_model input) dropped"
    and "e = BuildElasticModel cm (ii_slack_scope input)"
  shows "SolveRemovalCandidate input groups selected =
    (case stage1_ladder input e of
       Inl status \<Rightarrow> rm_default\<lparr>rm_signature := dropped, rm_status := status\<rparr>
     | Inr st \<Rightarrow> conclude input cm e dropped st)"
  unfolding SolveRemovalCandidate_def conclude_def Let_def assms
  by (auto split: sum.split)

lemma finish_status:
  "rm_status (finish_candidate S dropped repair result) = (case repair of None \<Rightarrow> rm_status result | Some _ \<Rightarrow> CAND_FEASIBLE)"
  "finish_candidate S dropped (Some sol) result = result\<lparr>
     rm_edits := ReadElasticEdits S sol (rm_has_objective result \<and> \<not> rm_objective_unbounded result) @ map DropGroup dropped,
     rm_status := CAND_FEASIBLE\<rparr>"
  by (auto simp: finish_candidate_def split: option.split)

lemma conclude_exact:
  assumes sound: "sound_solver (ii_solve_model input)" and e: "ladder_model n (em_slacks e) (em_model e)"
    and obj: "repair_objective_ok cm" "sm_num_vars cm \<le> n" and ladder: "ladder_done e st"
    and c: "c = conclude input cm e dropped st" "rm_status c = CAND_FEASIBLE"
  shows "\<exists>sol. repairs cm e c (point sol) \<and> rm_edits c =
    ReadElasticEdits (em_slacks e) sol (rm_has_objective c \<and> \<not> rm_objective_unbounded c) @ map DropGroup dropped"
proof -
  obtain m1 budgets stage1 where st: "st = (m1, budgets, stage1)" by (cases st)
  have l: "Collect (feasible m1) = cheapest e" "point (sr_solution stage1) \<in> cheapest e"
    "\<And>z. z \<in> cheapest e \<Longrightarrow> BudgetValue budgets DATA_OFFSET = Fin (tier_cost (em_slacks e) DATA_OFFSET z) \<and>
        BudgetValue budgets EDITABLE_LOOSEN = Fin (tier_cost (em_slacks e) EDITABLE_LOOSEN z)"
    using ladder by (auto simp: ladder_done_def st)
  define result where "result = rm_default\<lparr>rm_signature := dropped, rm_data_cost := BudgetValue budgets DATA_OFFSET,
      rm_editable_cost := BudgetValue budgets EDITABLE_LOOSEN, rm_has_objective := HasObjective cm\<rparr>"
  define stage2_model where "stage2_model = BuildStage2Model (em_model e) (em_slacks e) cm budgets"
  define stage2 where "stage2 = ii_solve_model input stage2_model"
  note s2 = stage2_model [OF ladder [unfolded st] e obj stage2_model_def]
  have base: "rm_status result = CAND_ABORT" "rm_has_objective result = HasObjective cm" "\<not> rm_objective_unbounded result"
    by (simp_all add: result_def rm_default_def)
  have plain: "\<exists>sol. tie_break input (em_slacks e) m1 False 0 (sr_solution stage1) = Some sol \<and> point sol \<in> cheapest e"
    if "tie_break input (em_slacks e) m1 False 0 (sr_solution stage1) \<noteq> None"
  proof -
    from that obtain sol where sol: "tie_break input (em_slacks e) m1 False 0 (sr_solution stage1) = Some sol" by auto
    from tie_break_exact [OF sound _ sol] show ?thesis using l(1,2) sol by auto
  qed
  consider (none) "\<not> HasObjective cm" | (solved) "HasObjective cm" "sr_status stage2 = OPTIMAL" "sr_solution stage2 \<noteq> []"
    | (unbounded) "HasObjective cm" "sr_status stage2 = UNBOUNDED"
    | (failed) "HasObjective cm" "\<not> (sr_status stage2 = OPTIMAL \<and> sr_solution stage2 \<noteq> [])" "sr_status stage2 \<noteq> UNBOUNDED"
    by blast
  then show ?thesis
  proof cases
    case none
    then have eq: "c = finish_candidate (em_slacks e) dropped (tie_break input (em_slacks e) m1 False 0 (sr_solution stage1)) result"
      by (simp add: c(1) conclude_def st result_def)
    then have "tie_break input (em_slacks e) m1 False 0 (sr_solution stage1) \<noteq> None"
      using c(2) base(1) by (auto simp: finish_status split: option.splits)
    from plain [OF this] obtain sol where sol: "tie_break input (em_slacks e) m1 False 0 (sr_solution stage1) = Some sol" "point sol \<in> cheapest e"
      by blast
    have "repairs cm e c (point sol)"
      using none sol(2) l(3) [OF sol(2)] unfolding eq sol(1) finish_status by (simp add: repairs_def result_def rm_default_def)
    then show ?thesis using none base unfolding eq sol(1) finish_status by (intro exI [of _ sol]) simp
  next
    case solved
    then have eq: "c = finish_candidate (em_slacks e) dropped
        (tie_break input (em_slacks e) stage2_model True (sr_objective_value stage2) (sr_solution stage2))
        (result\<lparr>rm_objective_value := sr_objective_value stage2\<rparr>)"
      by (simp add: c(1) conclude_def st result_def stage2_def stage2_model_def Let_def)
    then have "tie_break input (em_slacks e) stage2_model True (sr_objective_value stage2) (sr_solution stage2) \<noteq> None"
      using c(2) base(1) by (auto simp: finish_status split: option.splits)
    then obtain sol where sol: "tie_break input (em_slacks e) stage2_model True (sr_objective_value stage2) (sr_solution stage2) = Some sol"
      by blast
    let ?y2 = "point (sr_solution stage2)" and ?y = "point sol"
    note opt = sound_optimal [OF sound solved(2) [unfolded stage2_def], folded stage2_def]
    have y2: "?y2 \<in> cheapest e" "\<And>z. z \<in> cheapest e \<Longrightarrow> no_worse (sm_maximize cm) (obj_val cm ?y2) (obj_val cm z)"
      using opt(1) s2(1-3) by (auto simp: optimal_def)
    have worth: "sr_objective_value stage2 = obj_val cm ?y2" using opt(4) s2(2) by simp
    have y: "?y \<in> cheapest e \<and> obj_val cm ?y = obj_val cm ?y2"
      using tie_break_exact [OF sound s2(5) sol]
    proof
      assume "feasible stage2_model ?y \<and> (True \<longrightarrow> \<not> sm_has_quadratic_obj stage2_model \<and> no_worse (sm_maximize stage2_model)
        (lin_val [0..<length (sm_obj_coeffs stage2_model)] (sm_obj_coeffs stage2_model) ?y) (sr_objective_value stage2))"
      then have t: "feasible stage2_model ?y" "\<not> sm_has_quadratic_obj stage2_model" "no_worse (sm_maximize stage2_model)
        (lin_val [0..<length (sm_obj_coeffs stage2_model)] (sm_obj_coeffs stage2_model) ?y) (sr_objective_value stage2)" by simp_all
      then have mem: "?y \<in> cheapest e" using s2(1) by blast
      have "sm_q_vals stage2_model = []" using t(2) obj(1) s2(6,7) by (simp add: repair_objective_ok_def)
      then have "lin_val [0..<length (sm_obj_coeffs stage2_model)] (sm_obj_coeffs stage2_model) ?y = obj_val cm ?y"
        using s2(2) [of ?y] by (simp add: obj_val_def quad_val_def)
      with t(3) have "no_worse (sm_maximize cm) (obj_val cm ?y) (obj_val cm ?y2)" by (simp add: s2(3) worth)
      then show ?thesis using mem y2(2) [OF mem] no_worse_antisym by blast
    qed (use y2(1) in simp)
    have "repairs cm e c ?y"
      using solved(1) y y2(2) l(3) [of ?y] unfolding eq sol finish_status by (simp add: repairs_def result_def rm_default_def worth)
    then show ?thesis using base unfolding eq sol finish_status by (intro exI [of _ sol]) simp
  next
    case unbounded
    then have eq: "c = finish_candidate (em_slacks e) dropped (tie_break input (em_slacks e) m1 False 0 (sr_solution stage1))
        (result\<lparr>rm_objective_unbounded := True\<rparr>)"
      by (simp add: c(1) conclude_def st result_def stage2_def stage2_model_def Let_def)
    then have "tie_break input (em_slacks e) m1 False 0 (sr_solution stage1) \<noteq> None"
      using c(2) base(1) by (auto simp: finish_status split: option.splits)
    from plain [OF this] obtain sol where sol: "tie_break input (em_slacks e) m1 False 0 (sr_solution stage1) = Some sol" "point sol \<in> cheapest e"
      by blast
    have "\<forall>k. \<exists>z \<in> cheapest e. if sm_maximize cm then Fin k \<le> obj_val cm z else obj_val cm z \<le> Fin k"
    proof
      fix k
      have "sound_result stage2_model stage2" using sound by (simp add: sound_solver_def stage2_def)
      then obtain z where "feasible stage2_model z" "if sm_maximize cm then Fin k \<le> obj_val cm z else obj_val cm z \<le> Fin k"
        using unbounded(2) unfolding sound_result_def s2(2,3) by blast
      then show "\<exists>z \<in> cheapest e. if sm_maximize cm then Fin k \<le> obj_val cm z else obj_val cm z \<le> Fin k"
        using s2(1) by blast
    qed
    then have "repairs cm e c (point sol)"
      using unbounded sol(2) l(3) [OF sol(2)] unfolding eq sol(1) finish_status by (simp add: repairs_def result_def rm_default_def)
    then show ?thesis using base unfolding eq sol(1) finish_status by (intro exI [of _ sol]) simp
  next
    case failed
    then have "c = result" by (auto simp: c(1) conclude_def st result_def stage2_def stage2_model_def Let_def)
    then show ?thesis using c(2) base(1) by simp
  qed
qed

lemma candidate_facts:
  assumes sound: "sound_solver (ii_solve_model input)"
    and ok: "elastic_ok (ii_slack_scope input) (ii_model input)" "scoped (ii_model input)" "repair_objective_ok (ii_model input)"
    and dropped: "dropped = map (\<lambda>i. rg_id (groups ! i)) selected"
    and cm: "cm = DropRemovalGroups (ii_model input) dropped" and e: "e = BuildElasticModel cm (ii_slack_scope input)"
    and c: "c = SolveRemovalCandidate input groups selected"
  shows "(rm_status c = CAND_INFEASIBLE \<longrightarrow> (\<forall>x. \<not> feasible (em_model e) x)) \<and>
    (rm_status c = CAND_FEASIBLE \<longrightarrow> (\<exists>sol. repairs cm e c (point sol) \<and> rm_edits c =
       ReadElasticEdits (em_slacks e) sol (rm_has_objective c \<and> \<not> rm_objective_unbounded c) @ map DropGroup dropped))"
proof -
  have okc: "elastic_ok (ii_slack_scope input) cm" "scoped cm" "repair_objective_ok cm"
    using ok by (simp_all add: cm drop_ok drop_scoped repair_objective_ok_def)
  note lm = elastic_ladder_model [OF okc(1) e okc(2,3)]
  have n: "sm_num_vars cm \<le> sm_num_vars (em_model e)"
    using BuildElasticModel_facts(1) [OF elastic_ok_sense [OF okc(1)] e] by (auto simp: elastic_inv_def elastic_model_def)
  note eq = c [unfolded SolveRemovalCandidate_eq [OF dropped cm e]]
  show ?thesis
  proof (cases "stage1_ladder input e")
    case (Inl status)
    then have "rm_status c = status" using eq by simp
    moreover have "status \<noteq> CAND_FEASIBLE"
      using Inl tier_pass_not_feasible
      by (auto simp: stage1_ladder_def Let_def pass_outcome_def split: sum.splits option.splits if_splits)
    ultimately show ?thesis using ladder_infeasible [OF sound lm] Inl by auto
  next
    case (Inr st)
    then have c: "c = conclude input cm e dropped st" using eq by simp
    have "rm_status c \<noteq> CAND_INFEASIBLE"
      unfolding c by (auto simp: conclude_def finish_candidate_def rm_default_def Let_def split: prod.split option.split)
    then show ?thesis
      using conclude_exact [OF sound lm okc(3) n ladder_exact [OF sound lm Inr] c] by blast
  qed
qed

end
