(* ===== verification/RepairMinimal.thy ===== *)
theory RepairMinimal
  imports RepairExact
begin

text \<open>
  What \<open>DiagnoseInfeasible\<close> reports, over a sound backend: a repair that drops as few clauses as any
  repair can, and among those of that size one that no other beats; or that no repair exists.
\<close>

section \<open>The order of candidates is a strict order\<close>

lemma dbl_less_trans: "a < b \<Longrightarrow> b < c \<Longrightarrow> a < c" for a b c :: dbl
  by (cases a; cases b; cases c) auto

lemma dbl_less_irrefl [simp]: "\<not> a < (a :: dbl)"
  by (cases a) auto

lemma dbl_linear: "\<not> isnan a \<Longrightarrow> \<not> isnan b \<Longrightarrow> a < b \<or> a = b \<or> b < a"
  by (cases a; cases b) auto

lemma std_round_nan: "isnan (std_round v) = isnan v"
  by (cases v) auto

lemma snap_nan: "isnan (SnapDiagnosticValue v) = isnan v"
  by (cases v) (simp_all add: SnapDiagnosticValue_def Let_def zero_dbl_def)

lemma CompareDisplayed_cases:
  assumes "\<not> isnan a" "\<not> isnan b"
  shows "CompareDisplayed a b < 0 \<longleftrightarrow> SnapDiagnosticValue a < SnapDiagnosticValue b"
    "CompareDisplayed a b > 0 \<longleftrightarrow> SnapDiagnosticValue b < SnapDiagnosticValue a"
    "CompareDisplayed a b = 0 \<longleftrightarrow> SnapDiagnosticValue a = SnapDiagnosticValue b"
  using dbl_linear [of "SnapDiagnosticValue a" "SnapDiagnosticValue b"] assms
    dbl_less_trans [of "SnapDiagnosticValue a" "SnapDiagnosticValue b" "SnapDiagnosticValue a"]
  by (auto simp: CompareDisplayed_def Let_def snap_nan)

lemma lexicographical_compare_trans:
  "lexicographical_compare a b \<Longrightarrow> lexicographical_compare b c \<Longrightarrow> lexicographical_compare a c"
proof (induction a b arbitrary: c rule: lexicographical_compare.induct)
  case (2 y ys)
  then show ?case by (cases c) auto
next
  case (3 x xs y ys)
  then show ?case by (cases c) (auto split: if_splits)
qed simp

text \<open>Candidates of one search: the numbers that are compared are numbers.\<close>

definition comparable_candidate :: "bool \<Rightarrow> RemovalCandidate \<Rightarrow> bool" where
  "comparable_candidate has_objective c \<longleftrightarrow> \<not> isnan (rm_data_cost c) \<and> \<not> isnan (rm_editable_cost c) \<and>
     \<not> isnan (rm_objective_value c) \<and> rm_has_objective c = has_objective"

lemma BetterCandidate_iff:
  assumes "comparable_candidate h a" "comparable_candidate h b"
  shows "BetterCandidate a b maximize \<longleftrightarrow>
    (let D = SnapDiagnosticValue \<circ> rm_data_cost; E = SnapDiagnosticValue \<circ> rm_editable_cost; V = SnapDiagnosticValue \<circ> rm_objective_value
     in D a < D b \<or> D a = D b \<and> (E a < E b \<or> E a = E b \<and>
          (rm_objective_unbounded a \<and> \<not> rm_objective_unbounded b \<or>
           rm_objective_unbounded a = rm_objective_unbounded b \<and>
             (if \<not> rm_objective_unbounded a \<and> h
              then (if maximize then V b < V a else V a < V b) \<or> V a = V b \<and> lexicographical_compare (rm_signature a) (rm_signature b)
              else lexicographical_compare (rm_signature a) (rm_signature b)))))"
proof -
  have nan: "\<not> isnan (rm_data_cost a)" "\<not> isnan (rm_data_cost b)" "\<not> isnan (rm_editable_cost a)" "\<not> isnan (rm_editable_cost b)"
    "\<not> isnan (rm_objective_value a)" "\<not> isnan (rm_objective_value b)" "rm_has_objective a = h" "rm_has_objective b = h"
    using assms by (auto simp: comparable_candidate_def)
  note cmp = CompareDisplayed_cases [OF nan(1,2)] CompareDisplayed_cases [OF nan(3,4)] CompareDisplayed_cases [OF nan(5,6)]
  show ?thesis
    unfolding BetterCandidate_def Let_def comp_def cmp nan(7,8) by auto
qed

lemma BetterCandidate_irrefl: "comparable_candidate h a \<Longrightarrow> \<not> BetterCandidate a a maximize"
  by (simp add: BetterCandidate_iff lexicographical_compare_irrefl Let_def)

lemma BetterCandidate_trans:
  assumes c: "comparable_candidate h x" "comparable_candidate h y" "comparable_candidate h z"
    and better: "BetterCandidate x y maximize" "BetterCandidate y z maximize"
  shows "BetterCandidate x z maximize"
  using better unfolding BetterCandidate_iff [OF c(1,2)] BetterCandidate_iff [OF c(2,3)] BetterCandidate_iff [OF c(1,3)] Let_def comp_def
  by (elim disjE conjE)
     (auto intro: dbl_less_trans lexicographical_compare_trans split: if_splits)

section \<open>One cardinality\<close>

text \<open>What the variables say after the sets in \<open>V\<close>, unless the search was aborted.\<close>

definition search_inv :: "InfeasibleInput \<Rightarrow> RemovalGroupInfo list \<Rightarrow> idx list set \<Rightarrow> SearchState \<Rightarrow> bool" where
  "search_inv input groups V st \<longleftrightarrow>
     (\<forall>s \<in> V. rm_status (SolveRemovalCandidate input groups s) \<noteq> CAND_ABORT) \<and>
     (if ss_found st
      then \<exists>s \<in> V. ss_best st = SolveRemovalCandidate input groups s \<and> rm_status (ss_best st) = CAND_FEASIBLE \<and>
             (\<forall>s' \<in> V. rm_status (SolveRemovalCandidate input groups s') = CAND_FEASIBLE \<longrightarrow>
                \<not> BetterCandidate (SolveRemovalCandidate input groups s') (ss_best st) (sm_maximize (ii_model input)))
      else \<forall>s \<in> V. rm_status (SolveRemovalCandidate input groups s) = CAND_INFEASIBLE)"

definition comparable_set :: "InfeasibleInput \<Rightarrow> RemovalGroupInfo list \<Rightarrow> idx list set \<Rightarrow> bool" where
  "comparable_set input groups V \<longleftrightarrow> (\<forall>s \<in> V. rm_status (SolveRemovalCandidate input groups s) = CAND_FEASIBLE \<longrightarrow>
     comparable_candidate (HasObjective (ii_model input)) (SolveRemovalCandidate input groups s))"

lemma visit_candidate_inv:
  assumes inv: "search_inv input groups V st" and set: "comparable_set input groups (insert s V)"
    and visit: "visit_candidate input groups s st = (go_on, st')" and st: "\<not> ss_aborted st" "\<not> ss_aborted st'"
  shows "go_on \<and> search_inv input groups (insert s V) st'"
proof -
  let ?c = "SolveRemovalCandidate input groups s" and ?m = "sm_maximize (ii_model input)" and ?h = "HasObjective (ii_model input)"
  have cmp: "\<And>s'. s' \<in> insert s V \<Longrightarrow> rm_status (SolveRemovalCandidate input groups s') = CAND_FEASIBLE \<Longrightarrow>
      comparable_candidate ?h (SolveRemovalCandidate input groups s')"
    using set by (auto simp: comparable_set_def)
  consider "rm_status ?c = CAND_ABORT" | "rm_status ?c = CAND_INFEASIBLE" | "rm_status ?c = CAND_FEASIBLE"
    by (cases "rm_status ?c") auto
  then show ?thesis
  proof cases
    case 1
    then show ?thesis using visit st(2) by (auto simp: visit_candidate_def Let_def)
  next
    case 2
    then show ?thesis using visit inv by (auto simp: visit_candidate_def Let_def search_inv_def)
  next
    case 3
    then have st': "go_on" "st' = (if \<not> ss_found st \<or> BetterCandidate ?c (ss_best st) ?m then st\<lparr>ss_best := ?c, ss_found := True\<rparr> else st)"
      using visit by (auto simp: visit_candidate_def Let_def)
    have self: "\<not> BetterCandidate ?c ?c ?m" using BetterCandidate_irrefl cmp [of s] 3 by blast
    show ?thesis
    proof (cases "\<not> ss_found st \<or> BetterCandidate ?c (ss_best st) ?m")
      case False
      then show ?thesis using st' inv 3 by (auto simp: search_inv_def)
    next
      case True
      have "\<not> BetterCandidate (SolveRemovalCandidate input groups s') ?c ?m"
        if s': "s' \<in> V" "rm_status (SolveRemovalCandidate input groups s') = CAND_FEASIBLE" for s'
      proof
        assume better: "BetterCandidate (SolveRemovalCandidate input groups s') ?c ?m"
        have found: "ss_found st" using inv s' by (auto simp: search_inv_def split: if_splits)
        then obtain b where b: "b \<in> V" "ss_best st = SolveRemovalCandidate input groups b" "rm_status (ss_best st) = CAND_FEASIBLE"
          "\<not> BetterCandidate (SolveRemovalCandidate input groups s') (ss_best st) ?m"
          using inv s' by (auto simp: search_inv_def)
        have "BetterCandidate (SolveRemovalCandidate input groups s') (ss_best st) ?m"
          using BetterCandidate_trans [OF _ _ _ better] cmp [of s'] cmp [of s] cmp [of b] s' b(1-3) 3 True found by auto
        with b(4) show False by simp
      qed
      then show ?thesis using True st' inv 3 self by (auto simp: search_inv_def)
    qed
  qed
qed

lemma visit_all_candidates:
  assumes "search_inv input groups V st" "comparable_set input groups (V \<union> set sets)"
    and "visit_all (visit_candidate input groups) sets st = (go_on, st')" "\<not> ss_aborted st" "\<not> ss_aborted st'"
  shows "search_inv input groups (V \<union> set sets) st'"
  using assms
proof (induction sets arbitrary: V st)
  case (Cons s sets)
  obtain go1 st1 where v: "visit_candidate input groups s st = (go1, st1)" by fastforce
  have keep: "ss_aborted a \<Longrightarrow> visit_all (visit_candidate input groups) ls a = (g, a') \<Longrightarrow> ss_aborted a'" for a ls g a'
  proof (induction ls arbitrary: a)
    case (Cons l ls)
    have "ss_aborted (snd (visit_candidate input groups l a))"
      using Cons.prems(1) by (simp add: visit_candidate_def Let_def split: CandidateStatus.split)
    then show ?case using Cons by (auto split: prod.splits if_splits)
  qed simp
  have "\<not> ss_aborted st1"
    using Cons.prems(3,5) keep [of st1 sets] by (auto simp: v split: if_splits)
  moreover have "comparable_set input groups (insert s V)" using Cons.prems(2) by (auto simp: comparable_set_def)
  ultimately have step: "go1" "search_inv input groups (insert s V) st1"
    using visit_candidate_inv [OF Cons.prems(1) _ v Cons.prems(4)] by auto
  have "search_inv input groups (insert s V \<union> set sets) st'"
    using Cons.IH [OF step(2)] Cons.prems(2,3,5) step(1) \<open>\<not> ss_aborted st1\<close> by (simp add: v)
  then show ?case by simp
qed simp

lemma search_cardinality_inv:
  assumes "comparable_set input groups {s. length s = k \<and> sorted_wrt (<) s \<and> set s \<subseteq> {..<length groups}}"
    and "\<not> ss_aborted (search_cardinality input groups k)"
  shows "search_inv input groups {s. length s = k \<and> sorted_wrt (<) s \<and> set s \<subseteq> {..<length groups}}
    (search_cardinality input groups k)"
proof -
  let ?init = "\<lparr>ss_aborted = False, ss_found = False, ss_best = rm_default\<rparr>"
  obtain go_on st where e: "EnumerateCombinations (length groups) k 0 [] (visit_candidate input groups) ?init = (go_on, st)" by fastforce
  then have v: "visit_all (visit_candidate input groups) (ksubs k [0..<length groups]) ?init = (go_on, st)"
    by (simp add: combinations_eq(1) map_idI)
  have "search_inv input groups {} ?init" by (simp add: search_inv_def)
  from visit_all_candidates [OF this _ v] assms show ?thesis
    by (simp add: search_cardinality_def e ksubs_mem atLeast0LessThan)
qed

section \<open>The whole search\<close>

definition choices :: "RemovalGroupInfo list \<Rightarrow> idx list set" where
  "choices groups = {s. sorted_wrt (<) s \<and> set s \<subseteq> {..<length groups}}"

text \<open>
  \<open>c\<close> is a repair by \<open>k\<close> drops that no other repair by \<open>k\<close> drops beats; no repair drops as many
  clauses as a number in \<open>L\<close> says.
\<close>

definition best_of :: "InfeasibleInput \<Rightarrow> RemovalGroupInfo list \<Rightarrow> nat \<Rightarrow> RemovalCandidate \<Rightarrow> bool" where
  "best_of input groups k c \<longleftrightarrow> (\<exists>s \<in> choices groups. length s = k \<and> c = SolveRemovalCandidate input groups s \<and>
     rm_status c = CAND_FEASIBLE \<and> rm_edits c \<noteq> [] \<and>
     (\<forall>s' \<in> choices groups. length s' = k \<longrightarrow> rm_status (SolveRemovalCandidate input groups s') = CAND_FEASIBLE \<longrightarrow>
        \<not> BetterCandidate (SolveRemovalCandidate input groups s') c (sm_maximize (ii_model input))))"

definition none_of :: "InfeasibleInput \<Rightarrow> RemovalGroupInfo list \<Rightarrow> nat set \<Rightarrow> bool" where
  "none_of input groups L \<longleftrightarrow> (\<forall>s \<in> choices groups. length s \<in> L \<longrightarrow>
     rm_status (SolveRemovalCandidate input groups s) = CAND_INFEASIBLE)"

lemma search_cardinality_exact:
  assumes "comparable_set input groups (choices groups)" "\<not> ss_aborted (search_cardinality input groups k)"
  shows "if ss_found (search_cardinality input groups k)
    then rm_edits (ss_best (search_cardinality input groups k)) = [] \<or> best_of input groups k (ss_best (search_cardinality input groups k))
    else none_of input groups {k}"
proof -
  have set: "{s. length s = k \<and> sorted_wrt (<) s \<and> set s \<subseteq> {..<length groups}} = {s \<in> choices groups. length s = k}"
    by (auto simp: choices_def)
  have "comparable_set input groups {s \<in> choices groups. length s = k}" using assms(1) by (simp add: comparable_set_def)
  from search_cardinality_inv [of input groups k, unfolded set, OF this assms(2)] show ?thesis
    by (auto simp: search_inv_def best_of_def none_of_def)
qed

lemma search_cardinalities_exact:
  assumes cmp: "comparable_set input groups (choices groups)"
  shows "(search_cardinalities input groups ks = RepairFound c \<longrightarrow>
      (\<exists>pre k post. ks = pre @ k # post \<and> best_of input groups k c \<and> none_of input groups (set pre))) \<and>
    (search_cardinalities input groups ks = RigidConflict \<longrightarrow> none_of input groups (set ks))"
proof (induction ks)
  case (Cons k ks)
  let ?st = "search_cardinality input groups k"
  consider "ss_aborted ?st" | "\<not> ss_aborted ?st" "ss_found ?st" | "\<not> ss_aborted ?st" "\<not> ss_found ?st" by blast
  then show ?case
  proof cases
    case 2
    then have "rm_edits (ss_best ?st) = [] \<or> best_of input groups k (ss_best ?st)"
      using search_cardinality_exact [OF cmp, of k] by simp
    moreover have "none_of input groups {}" by (simp add: none_of_def)
    ultimately show ?thesis using 2 by (auto simp: Let_def intro: exI [of _ "[]"])
  next
    case 3
    then have none: "none_of input groups {k}" using search_cardinality_exact [OF cmp, of k] by simp
    then have more: "none_of input groups L \<Longrightarrow> none_of input groups (insert k L)" for L by (auto simp: none_of_def)
    have eq: "search_cardinalities input groups (k # ks) = search_cardinalities input groups ks" using 3 by simp
    show ?thesis
      unfolding eq
    proof (intro conjI impI)
      assume "search_cardinalities input groups ks = RepairFound c"
      then obtain pre k' post where "ks = pre @ k' # post" "best_of input groups k' c" "none_of input groups (set pre)"
        using Cons.IH by blast
      then show "\<exists>pre k' post. k # ks = pre @ k' # post \<and> best_of input groups k' c \<and> none_of input groups (set pre)"
        using more by (intro exI [of _ "k # pre"] exI [of _ k'] exI [of _ post]) simp
    qed (use Cons.IH more in simp)
  qed simp
qed (simp add: none_of_def)

section \<open>What the diagnosis reports\<close>

definition diagnosable :: "InfeasibleInput \<Rightarrow> bool" where
  "diagnosable input \<longleftrightarrow> sound_solver (ii_solve_model input) \<and> elastic_ok (ii_slack_scope input) (ii_model input) \<and>
     scoped (ii_model input) \<and> repair_objective_ok (ii_model input)"

text \<open>The model without the clauses of a set, and its elastic program.\<close>

definition without :: "InfeasibleInput \<Rightarrow> idx list \<Rightarrow> SolverModel" where
  "without input s = DropRemovalGroups (ii_model input) (map (\<lambda>i. rg_id (CollectRemovalGroups (ii_model input) ! i)) s)"

definition elastic_without :: "InfeasibleInput \<Rightarrow> idx list \<Rightarrow> ElasticModel" where
  "elastic_without input s = BuildElasticModel (without input s) (ii_slack_scope input)"

lemma diagnosable_candidate:
  assumes "diagnosable input" "c = SolveRemovalCandidate input (CollectRemovalGroups (ii_model input)) s"
  shows "rm_status c = CAND_INFEASIBLE \<Longrightarrow> \<not> feasible (em_model (elastic_without input s)) x"
    "rm_status c = CAND_FEASIBLE \<Longrightarrow> \<exists>sol. repairs (without input s) (elastic_without input s) c (point sol) \<and>
       rm_edits c = ReadElasticEdits (em_slacks (elastic_without input s)) sol (rm_has_objective c \<and> \<not> rm_objective_unbounded c) @
         map DropGroup (rm_signature c)"
proof -
  have "rm_signature c = map (\<lambda>i. rg_id (CollectRemovalGroups (ii_model input) ! i)) s"
    unfolding assms(2) SolveRemovalCandidate_eq [OF refl refl refl]
    by (auto simp: conclude_def finish_candidate_def Let_def split: sum.split prod.split option.split)
  with candidate_facts [OF _ _ _ _ refl refl refl assms(2)] assms(1)
  show "rm_status c = CAND_INFEASIBLE \<Longrightarrow> \<not> feasible (em_model (elastic_without input s)) x"
    "rm_status c = CAND_FEASIBLE \<Longrightarrow> \<exists>sol. repairs (without input s) (elastic_without input s) c (point sol) \<and>
       rm_edits c = ReadElasticEdits (em_slacks (elastic_without input s)) sol (rm_has_objective c \<and> \<not> rm_objective_unbounded c) @
         map DropGroup (rm_signature c)"
    by (auto simp: diagnosable_def without_def elastic_without_def)
qed

lemma diagnosable_comparable:
  assumes "diagnosable input"
  shows "comparable_set input (CollectRemovalGroups (ii_model input)) V"
  unfolding comparable_set_def
proof (intro ballI impI)
  fix s
  let ?c = "SolveRemovalCandidate input (CollectRemovalGroups (ii_model input)) s"
  assume "rm_status ?c = CAND_FEASIBLE"
  then obtain y where y: "repairs (without input s) (elastic_without input s) ?c y"
    using diagnosable_candidate(2) [OF assms refl] by blast
  have obj: "HasObjective (without input s) = HasObjective (ii_model input)" by (simp add: without_def HasObjective_def)
  have "no_worse b v v \<Longrightarrow> \<not> isnan v" for b v by (cases v) (auto simp: no_worse_def split: if_splits)
  then have "\<not> isnan (rm_objective_value ?c)"
    using y by (auto simp: repairs_def zero_dbl_def split: if_splits)
  then show "comparable_candidate (HasObjective (ii_model input)) ?c"
    using y obj by (simp add: repairs_def comparable_candidate_def)
qed

text \<open>
  C15. The diagnosis over a sound backend. A reported repair drops the fewest clauses any repair drops
  (with fewer, even the elastic program has no point); its edits are read off a point of the elastic
  program of what is left that is cheapest in data offsets, then in weighted editable slacks, then
  best for the query's objective; and no repair by as many drops compares better. A reported rigid
  conflict means that no set of drops leaves an elastic program with a point.
\<close>

theorem diagnosis_exact:
  assumes "diagnosable input"
  shows "(DiagnoseInfeasible input = RepairFound c \<longrightarrow>
      (\<exists>s \<in> choices (CollectRemovalGroups (ii_model input)).
         c = SolveRemovalCandidate input (CollectRemovalGroups (ii_model input)) s \<and>
         (\<exists>sol. repairs (without input s) (elastic_without input s) c (point sol) \<and>
            rm_edits c = ReadElasticEdits (em_slacks (elastic_without input s)) sol
              (rm_has_objective c \<and> \<not> rm_objective_unbounded c) @ map DropGroup (rm_signature c)) \<and>
         (\<forall>s' \<in> choices (CollectRemovalGroups (ii_model input)).
            (length s' < length s \<longrightarrow> (\<forall>x. \<not> feasible (em_model (elastic_without input s')) x)) \<and>
            (length s' = length s \<longrightarrow>
               rm_status (SolveRemovalCandidate input (CollectRemovalGroups (ii_model input)) s') = CAND_FEASIBLE \<longrightarrow>
               \<not> BetterCandidate (SolveRemovalCandidate input (CollectRemovalGroups (ii_model input)) s') c
                   (sm_maximize (ii_model input)))))) \<and>
    (DiagnoseInfeasible input = RigidConflict \<longrightarrow>
      (\<forall>s \<in> choices (CollectRemovalGroups (ii_model input)). \<forall>x. \<not> feasible (em_model (elastic_without input s)) x))"
proof -
  let ?G = "CollectRemovalGroups (ii_model input)"
  note search = search_cardinalities_exact [OF diagnosable_comparable [OF assms], of "[0..<length ?G + 1]" c]
  have short: "length s \<le> length ?G" if "s \<in> choices ?G" for s
  proof -
    have "distinct s" "set s \<subseteq> {..<length ?G}" using that by (auto simp: choices_def strict_sorted_iff)
    then show ?thesis using card_mono [of "{..<length ?G}" "set s"] by (simp add: distinct_card)
  qed
  have none: "none_of input ?G L \<Longrightarrow> s \<in> choices ?G \<Longrightarrow> length s \<in> L \<Longrightarrow> \<not> feasible (em_model (elastic_without input s)) x" for L s x
    using diagnosable_candidate(1) [OF assms refl] by (auto simp: none_of_def)
  show ?thesis
  proof (intro conjI impI)
    assume "DiagnoseInfeasible input = RepairFound c"
    then have "search_cardinalities input ?G [0..<length ?G + 1] = RepairFound c"
      by (auto simp: DiagnoseInfeasible_def Let_def split: if_splits)
    then obtain pre k post where k: "[0..<length ?G + 1] = pre @ k # post" "best_of input ?G k c" "none_of input ?G (set pre)"
      using search by blast
    have "k = length pre" using arg_cong [OF k(1), of "\<lambda>l. l ! length pre"] arg_cong [OF k(1), of length]
      by (simp del: upt_Suc)
    then have "[0..<k] = pre"
      using arg_cong [OF k(1), of "take k"] arg_cong [OF k(1), of length] by (simp del: upt_Suc)
    then have pre: "set pre = {..<k}" by (metis atLeast_upt)
    from k(2) obtain s where s: "s \<in> choices ?G" "length s = k" "c = SolveRemovalCandidate input ?G s" "rm_status c = CAND_FEASIBLE"
      "\<forall>s' \<in> choices ?G. length s' = k \<longrightarrow> rm_status (SolveRemovalCandidate input ?G s') = CAND_FEASIBLE \<longrightarrow>
        \<not> BetterCandidate (SolveRemovalCandidate input ?G s') c (sm_maximize (ii_model input))"
      by (auto simp: best_of_def)
    show "\<exists>s \<in> choices ?G. c = SolveRemovalCandidate input ?G s \<and>
         (\<exists>sol. repairs (without input s) (elastic_without input s) c (point sol) \<and>
            rm_edits c = ReadElasticEdits (em_slacks (elastic_without input s)) sol
              (rm_has_objective c \<and> \<not> rm_objective_unbounded c) @ map DropGroup (rm_signature c)) \<and>
         (\<forall>s' \<in> choices ?G.
            (length s' < length s \<longrightarrow> (\<forall>x. \<not> feasible (em_model (elastic_without input s')) x)) \<and>
            (length s' = length s \<longrightarrow> rm_status (SolveRemovalCandidate input ?G s') = CAND_FEASIBLE \<longrightarrow>
               \<not> BetterCandidate (SolveRemovalCandidate input ?G s') c (sm_maximize (ii_model input))))"
      using s none [OF k(3)] pre diagnosable_candidate(2) [OF assms s(3,4)] by (intro bexI [OF _ s(1)]) auto
  next
    assume "DiagnoseInfeasible input = RigidConflict"
    then have "search_cardinalities input ?G [0..<length ?G + 1] = RigidConflict"
      by (auto simp: DiagnoseInfeasible_def Let_def split: if_splits)
    then have "none_of input ?G (set [0..<length ?G + 1])" using search by blast
    then show "\<forall>s \<in> choices ?G. \<forall>x. \<not> feasible (em_model (elastic_without input s)) x"
      using none short by (auto simp del: upt_Suc simp: less_Suc_eq_le)
  qed
qed

end
