(* ===== verification/RepairDemo.thy ===== *)
theory RepairDemo
  imports RepairMinimal
begin

text \<open>
  A query with a conflict: \<open>x\<close> between 0 and 10, the clause \<open>x <= 1\<close>, a rigid row \<open>x >= 3\<close>, and a
  clause that can only be dropped and asks for \<open>x = 100\<close>. The smallest repair drops the last and
  loosens the first by 2. The backend answers the two programs the search hands it.
\<close>

definition demo_line :: "sense \<Rightarrow> real \<Rightarrow> ConstraintProvenance \<Rightarrow> ModelConstraint" where
  "demo_line s k p = \<lparr>mc_indices = [0], mc_coefficients = [1], mc_sense = s, mc_rhs = Fin k, mc_provenance = p\<rparr>"

definition demo_editable :: ConstraintProvenance where
  "demo_editable = cp_default\<lparr>cp_repair_group_id := Some 0, cp_shape := SHARED_SCALAR\<rparr>"

definition demo_rigid :: ConstraintProvenance where
  "demo_rigid = cp_default\<lparr>cp_kind := STRUCTURAL\<rparr>"

definition demo_removable :: ConstraintProvenance where
  "demo_removable = cp_default\<lparr>cp_kind := USER_MECHANISM, cp_removal_group_id := Some 7\<rparr>"

lemma demo_provenances:
  "slackable demo_editable" "folds f demo_editable" "\<not> is_data_offset demo_editable" "block_key True demo_editable = (Some 0, Some 0)"
  "\<not> slackable demo_rigid" "\<not> slackable demo_removable"
  "cp_removal_group_id demo_editable = None" "cp_removal_group_id demo_rigid = None" "cp_removal_group_id demo_removable = Some 7"
  "cp_kind demo_editable = USER_PARAMETER" "cp_kind demo_rigid = STRUCTURAL" "cp_kind demo_removable = USER_MECHANISM"
  by (simp_all add: slackable_def folds_def is_data_offset_def block_key_def demo_editable_def demo_rigid_def demo_removable_def
      cp_default_def IsRelaxableForElastic_def)

definition demo_conflict :: SolverModel where
  "demo_conflict = sm_default\<lparr>sm_num_vars := 1, sm_col_lower := [0], sm_col_upper := [Fin 10],
     sm_is_integer := [False], sm_is_binary := [False], sm_obj_coeffs := [0],
     sm_constraints := [demo_line Le 1 demo_editable,
                        demo_line Ge 3 demo_rigid,
                        demo_line Eq 100 demo_removable]\<rparr>"

definition demo_block :: BlockSlackRef where
  "demo_block = \<lparr>bs_rows = [0], bs_pos_col = 1, bs_neg_col = None, bs_sense = Le, bs_tier = EDITABLE_LOOSEN,
     bs_weight = 1, bs_quadratic = False\<rparr>"

definition demo_pass :: "idx list \<Rightarrow> SolverModel" where
  "demo_pass dropped = SetTierObjective (em_model (BuildElasticModel (DropRemovalGroups demo_conflict dropped) ''query''))
     [demo_block] EDITABLE_LOOSEN"

definition demo_solve :: "SolverModel \<Rightarrow> SolverResult" where
  "demo_solve m =
     (if m = demo_pass [] then sr_default\<lparr>sr_status := INFEASIBLE\<rparr>
      else if m = demo_pass [7] then sr_default\<lparr>sr_status := OPTIMAL, sr_solution := [Fin 3, Fin 2], sr_objective_value := Fin 2\<rparr>
      else sr_default)"

definition demo_diagnosis :: InfeasibleInput where
  "demo_diagnosis = \<lparr>ii_model = demo_conflict, ii_slack_scope = ''query'', ii_has_unhandled_user_bounds = False,
     ii_solve_model = demo_solve\<rparr>"

lemma demo_conflict_fields:
  "sm_num_vars demo_conflict = 1" "sm_col_lower demo_conflict = [0]" "sm_col_upper demo_conflict = [Fin 10]"
  "sm_is_integer demo_conflict = [False]" "sm_is_binary demo_conflict = [False]" "sm_obj_coeffs demo_conflict = [0]"
  "sm_quadratic_constraints demo_conflict = []" "sm_indicator_constraints demo_conflict = []"
  "sm_general_constraints demo_conflict = []" "sm_q_vals demo_conflict = []" "\<not> sm_has_quadratic_obj demo_conflict"
  "sm_constraints demo_conflict = [demo_line Le 1 demo_editable,
     demo_line Ge 3 demo_rigid,
     demo_line Eq 100 demo_removable]"
  by (simp_all add: demo_conflict_def sm_default_def)

lemma demo_ok: "elastic_ok ''query'' demo_conflict" "scoped demo_conflict" "repair_objective_ok demo_conflict"
proof -
  show "elastic_ok ''query'' demo_conflict"
    by (simp add: elastic_ok_def demo_conflict_fields one_sense_def demo_line_def demo_provenances)
  show "scoped demo_conflict" "repair_objective_ok demo_conflict"
    by (simp_all add: scoped_def repair_objective_ok_def demo_conflict_fields demo_line_def dbl_arith)
qed

text \<open>The elastic programs, before and after the drop.\<close>

lemma demo_rms: "rms_norm [1] = 1"
  by (simp add: rms_norm_def dbl_arith)

lemma demo_dropped:
  "sm_constraints (DropRemovalGroups demo_conflict []) = sm_constraints demo_conflict"
  "sm_constraints (DropRemovalGroups demo_conflict [7]) = take 2 (sm_constraints demo_conflict)"
  "sm_quadratic_constraints (DropRemovalGroups demo_conflict D) = []"
  "sm_indicator_constraints (DropRemovalGroups demo_conflict D) = []"
  "sm_general_constraints (DropRemovalGroups demo_conflict D) = []"
  by (simp_all add: DropRemovalGroups_def Let_def demo_conflict_fields demo_line_def retained_def demo_provenances)

lemma demo_provenance:
  "mc_provenance (demo_line s k p) = p" "mc_sense (demo_line s k p) = s" "mc_coefficients (demo_line s k p) = [1]"
  by (simp_all add: demo_line_def)

lemma demo_positive: "0 < (1 :: dbl)" "1 / 1 = (1 :: dbl)"
  by (simp_all add: dbl_arith)

lemma demo_ref: "ref_norm (DropRemovalGroups demo_conflict []) = 1" "ref_norm (DropRemovalGroups demo_conflict [7]) = 1"
  by (simp_all add: ref_norm_def demo_dropped demo_conflict_fields linear_ref_def demo_provenance demo_provenances consider_ref_def
      demo_rms demo_positive)

lemma demo_rows:
  assumes "D = [] \<or> D = [7]"
  shows "filter (leads True (DropRemovalGroups demo_conflict D)) [0..<length (sm_constraints (DropRemovalGroups demo_conflict D))] = [0]"
    "row_group True (DropRemovalGroups demo_conflict D) 0 = [0]"
    "mc_sense (sm_constraints (DropRemovalGroups demo_conflict D) ! 0) = Le"
    "mc_coefficients (sm_constraints (DropRemovalGroups demo_conflict D) ! 0) = [1]"
    "row_prov (DropRemovalGroups demo_conflict D) 0 = demo_editable"
    "ref_norm (DropRemovalGroups demo_conflict D) = 1"
  using assms
  by (elim disjE; simp add: row_group_def row_prov_def leads_def demo_dropped demo_conflict_fields demo_provenance demo_provenances
      demo_ref upt_rec)+

lemma demo_elastic:
  assumes D: "D = [] \<or> D = [7]" and e: "e = BuildElasticModel (DropRemovalGroups demo_conflict D) ''query''"
  shows "em_slacks e = [demo_block]" "em_model e = elastic_model (DropRemovalGroups demo_conflict D) [demo_block] 1"
proof -
  let ?b = "DropRemovalGroups demo_conflict D"
  have fd: "(''query'' \<noteq> ''expanded'') = True" by simp
  note facts = BuildElasticModel_facts [OF elastic_ok_sense [OF drop_ok [OF demo_ok(1)]] e, unfolded fd]
  note rows = demo_rows [OF D]
  have lin: "map bs_rows (filter (\<lambda>b. \<not> bs_quadratic b) (em_slacks e)) = [[0]]"
    using facts(3) rows(1,2) by simp
  have "filter bs_quadratic (em_slacks e) = []" using facts(4) by (simp add: demo_dropped)
  then have "filter (\<lambda>b. \<not> bs_quadratic b) (em_slacks e) = em_slacks e" by (auto simp: filter_empty_conv filter_id_conv)
  with lin obtain b where b: "em_slacks e = [b]" "bs_rows b = [0]" by (auto simp: map_eq_Cons_conv)
  then have q: "\<not> bs_quadratic b" using \<open>filter bs_quadratic (em_slacks e) = []\<close> by (auto split: if_splits)
  obtain d where d: "em_model e = elastic_model ?b [b] d" "bs_cols b = [1..<1 + d]" "block_ok ?b b"
    using facts(1) b(1) by (auto simp: elastic_inv_def demo_conflict_fields)
  have sense: "bs_sense b = Le" "bs_neg_col b = None" using d(3) b(2) q rows by (auto simp: block_ok_def)
  then have pos: "bs_pos_col b = 1" "d = 1" using d(2) by (auto simp: bs_cols_def upt_rec split: if_splits)
  have "labelled ?b b" using facts(2) b(1) by simp
  then have "bs_tier b = EDITABLE_LOOSEN" "bs_weight b = 1"
    using q b(2) rows by (auto simp: labelled_def demo_provenances demo_rms editable_weight_def demo_positive)
  with q b(2) sense pos(1) have "b = demo_block" by (cases b) (simp add: demo_block_def)
  then show "em_slacks e = [demo_block]" "em_model e = elastic_model ?b [demo_block] 1" using b d(1) pos(2) by simp_all
qed

text \<open>What the two programs admit, and the answers of the backend.\<close>

lemma demo_edited:
  assumes "D = [] \<or> D = [7]"
  shows "sm_constraints (edited (DropRemovalGroups demo_conflict D) [demo_block] y) =
     demo_line Le 1 demo_editable\<lparr>mc_rhs := Fin (1 + y 1)\<rparr> # demo_line Ge 3 demo_rigid #
     (if D = [] then [demo_line Eq 100 demo_removable] else [])"
proof -
  have at: "block_at [demo_block] False r = (if r = 0 then Some demo_block else None)" for r
    by (simp add: block_at_def demo_block_def)
  have amount: "amount demo_block y = y 1" by (simp add: amount_def demo_block_def)
  have "edited_mc (Some demo_block) y (demo_line Le 1 demo_editable) = demo_line Le 1 demo_editable\<lparr>mc_rhs := Fin (1 + y 1)\<rparr>"
    unfolding edited_mc_def option.case amount by (simp add: demo_line_def moved_def dbl_arith)
  moreover have "edited_mc None y c = c" for c by (simp add: edited_mc_def)
  ultimately show ?thesis
    using assms by (elim disjE; simp add: edited_def at demo_dropped demo_conflict_fields upt_rec)
qed

lemma demo_line_sat:
  "sat_mc (demo_line s k p) y \<longleftrightarrow> sat_sense s (Fin (y 0)) (Fin k)"
  "sat_mc (demo_line s k p\<lparr>mc_rhs := Fin v\<rparr>) y \<longleftrightarrow> sat_sense s (Fin (y 0)) (Fin v)"
  by (simp_all add: sat_mc_def demo_line_def dbl_arith)

lemma demo_feasible:
  assumes "D = [] \<or> D = [7]"
  shows "feasible (demo_pass D) y \<longleftrightarrow> 0 \<le> y 0 \<and> y 0 \<le> 10 \<and> 0 \<le> y 1 \<and> y 0 - y 1 \<le> 1 \<and> 3 \<le> y 0 \<and> (D = [] \<longrightarrow> y 0 = 100)"
proof -
  define e where "e = BuildElasticModel (DropRemovalGroups demo_conflict D) ''query''"
  note slacks = demo_elastic [OF assms e_def]
  have "feasible (demo_pass D) y \<longleftrightarrow> feasible (em_model e) y" by (simp add: demo_pass_def e_def)
  also have "\<dots> \<longleftrightarrow> model_columns (DropRemovalGroups demo_conflict D) y \<and> slacks_nonneg (em_slacks e) y \<and>
      model_rows (edited (DropRemovalGroups demo_conflict D) (em_slacks e) y) y"
    unfolding feasible_def
    by (rule elastic_admits [OF drop_ok [OF demo_ok(1)] BuildElasticModel_facts(1) [OF elastic_ok_sense [OF drop_ok [OF demo_ok(1)]] e_def]])
  also have "\<dots> \<longleftrightarrow> 0 \<le> y 0 \<and> y 0 \<le> 10 \<and> 0 \<le> y 1 \<and> y 0 - y 1 \<le> 1 \<and> 3 \<le> y 0 \<and> (D = [] \<longrightarrow> y 0 = 100)"
  proof -
    have "model_columns (DropRemovalGroups demo_conflict D) y \<longleftrightarrow> 0 \<le> y 0 \<and> y 0 \<le> 10"
      by (simp add: model_columns_def demo_conflict_fields in_column_def dbl_arith)
    moreover have "slacks_nonneg (em_slacks e) y \<longleftrightarrow> 0 \<le> y 1"
      by (simp add: slacks(1) slacks_nonneg_def bs_cols_def demo_block_def)
    moreover have "model_rows (edited (DropRemovalGroups demo_conflict D) (em_slacks e) y) y \<longleftrightarrow>
        y 0 - y 1 \<le> 1 \<and> 3 \<le> y 0 \<and> (D = [] \<longrightarrow> y 0 = 100)"
      unfolding slacks(1) model_rows_def demo_edited [OF assms] using assms
      by (elim disjE; simp add: edited_def demo_dropped demo_line_sat; arith)
    ultimately show ?thesis by blast
  qed
  finally show ?thesis .
qed

lemma demo_slacks:
  assumes "D = [] \<or> D = [7]"
  shows "sm_num_vars (demo_pass D) = 2" "sm_maximize (demo_pass D) = False" "obj_val (demo_pass D) y = Fin (y 1)"
proof -
  define e where "e = BuildElasticModel (DropRemovalGroups demo_conflict D) ''query''"
  note slacks = demo_elastic [OF assms e_def]
  have pass: "demo_pass D = SetTierObjective (em_model e) [demo_block] EDITABLE_LOOSEN" by (simp add: demo_pass_def e_def)
  have fields: "sm_num_vars (em_model e) = 2" "length (sm_obj_coeffs (em_model e)) = 2"
    unfolding slacks(2) by (simp_all add: elastic_model_def drop_objective_def demo_conflict_fields)
  have ok: "slacks_ok 2 [demo_block]" by (simp add: slacks_ok_def demo_block_def bs_cols_def dbl_arith)
  show "sm_num_vars (demo_pass D) = 2" "sm_maximize (demo_pass D) = False"
    using fields by (simp_all add: pass SetTierObjective_eq drop_objective_def)
  show "obj_val (demo_pass D) y = Fin (y 1)"
    unfolding pass tier_objective [OF ok fields(2)]
    by (simp add: tier_cost_def slack_total_def SlackTierCoefficient_def demo_block_def bs_cols_def dbl_arith)
qed

lemma demo_point: "point [Fin 3, Fin 2] 0 = 3" "point [Fin 3, Fin 2] 1 = 2" "point [Fin 3, Fin 2] (Suc 0) = 2"
  by (simp_all add: point_def)

lemma demo_infeasible: "\<not> feasible (demo_pass []) y"
  by (simp add: demo_feasible)

lemma demo_differ: "demo_pass [7] \<noteq> demo_pass []"
proof
  assume same: "demo_pass [7] = demo_pass []"
  have "feasible (demo_pass [7]) (point [Fin 3, Fin 2])" by (simp add: demo_feasible demo_point)
  with demo_infeasible show False by (simp add: same)
qed

lemma demo_answers:
  "demo_solve (demo_pass []) = sr_default\<lparr>sr_status := INFEASIBLE\<rparr>"
  "demo_solve (demo_pass [7]) = sr_default\<lparr>sr_status := OPTIMAL, sr_solution := [Fin 3, Fin 2], sr_objective_value := Fin 2\<rparr>"
  by (simp_all add: demo_solve_def demo_differ)

lemma demo_sound: "sound_solver demo_solve"
  unfolding sound_solver_def
proof
  fix m
  have opt: "optimal (demo_pass [7]) (point [Fin 3, Fin 2])"
    by (auto simp: optimal_def demo_feasible demo_point demo_slacks no_worse_def)
  consider "m = demo_pass []" | "m = demo_pass [7]" | "demo_solve m = sr_default" unfolding demo_solve_def by (cases "m = demo_pass []"; cases "m = demo_pass [7]"; simp)
  then show "sound_result m (demo_solve m)"
    by cases (simp_all add: sound_result_def demo_answers demo_infeasible opt demo_slacks demo_point sr_default_def)
qed

lemma demo_diagnosable: "diagnosable demo_diagnosis"
  using demo_sound demo_ok by (simp add: diagnosable_def demo_diagnosis_def)

section \<open>The diagnosis\<close>

lemma demo_groups: "CollectRemovalGroups demo_conflict = [\<lparr>rg_id = 7, rg_source_clause_id = None, rg_qualifier = []\<rparr>]"
  by (simp add: CollectRemovalGroups_def provenances_def demo_conflict_fields demo_provenance record_provenance_def demo_provenances
      demo_removable_def cp_default_def)

lemma demo_amount: "SnapToPrecision (Fin 2) = Fin 2"
proof -
  have "0 < log 10 (2 :: real)" "log 10 (2 :: real) < 1" by simp_all
  moreover have "log 10 (2 / 10 ^ 6 :: real) = log 10 2 - log 10 (10 ^ 6)" by (rule log_divide_pos) simp_all
  moreover have "log 10 (10 ^ 6 :: real) = 6" using log_pow_cancel [of "10 :: real" 6] by simp
  ultimately have "\<lfloor>- log 10 (2 / 10 ^ 6 :: real)\<rfloor> = 5" unfolding floor_eq_iff by linarith
  then show ?thesis by (simp add: SnapToPrecision_def Let_def zero_dbl_def)
qed

lemma demo_edits: "ReadElasticEdits [demo_block] [Fin 3, Fin 2] False = [Loosen demo_block (Fin 2)]"
  by (simp add: ReadElasticEdits_def map_filter_simps read_edit_def edit_amount_def Let_def demo_block_def demo_amount)

lemma demo_candidates:
  "rm_status (SolveRemovalCandidate demo_diagnosis (CollectRemovalGroups demo_conflict) []) = CAND_INFEASIBLE"
  "rm_status (SolveRemovalCandidate demo_diagnosis (CollectRemovalGroups demo_conflict) [0]) = CAND_FEASIBLE"
  "rm_edits (SolveRemovalCandidate demo_diagnosis (CollectRemovalGroups demo_conflict) [0]) = [Loosen demo_block (Fin 2), DropGroup 7]"
proof -
  have terms: "\<not> TierHasTerms [demo_block] DATA_OFFSET" "TierHasTerms [demo_block] EDITABLE_LOOSEN"
    by (simp_all add: TierHasTerms_def demo_block_def)
  have input: "ii_model demo_diagnosis = demo_conflict" "ii_slack_scope demo_diagnosis = ''query''"
    "ii_solve_model demo_diagnosis = demo_solve" "\<not> ii_has_unhandled_user_bounds demo_diagnosis"
    by (simp_all add: demo_diagnosis_def)
  have no_objective: "\<not> HasObjective (DropRemovalGroups demo_conflict [7])"
    by (simp add: HasObjective_def demo_conflict_fields)
  have ties: "BuildTieBreakModel m [demo_block] False 0 = None" for m
    by (simp add: BuildTieBreakModel_def demo_block_def)
  have infeasible: "stage1_ladder demo_diagnosis (BuildElasticModel (DropRemovalGroups demo_conflict []) ''query'') = Inl CAND_INFEASIBLE"
    using demo_elastic(1) [OF _ refl, of "[]"]
    by (simp add: stage1_ladder_def tier_pass_def terms input demo_pass_def [symmetric] demo_answers pass_outcome_def)
  obtain m bs where feasible: "stage1_ladder demo_diagnosis (BuildElasticModel (DropRemovalGroups demo_conflict [7]) ''query'') =
      Inr (m, bs, sr_default\<lparr>sr_status := OPTIMAL, sr_solution := [Fin 3, Fin 2], sr_objective_value := Fin 2\<rparr>)"
    using demo_elastic(1) [OF _ refl, of "[7]"]
    by (simp add: stage1_ladder_def tier_pass_def terms input demo_pass_def [symmetric] demo_answers pass_outcome_def Let_def)
  show "rm_status (SolveRemovalCandidate demo_diagnosis (CollectRemovalGroups demo_conflict) []) = CAND_INFEASIBLE"
    by (simp add: SolveRemovalCandidate_eq [OF refl refl refl] input infeasible)
  show "rm_status (SolveRemovalCandidate demo_diagnosis (CollectRemovalGroups demo_conflict) [0]) = CAND_FEASIBLE"
    "rm_edits (SolveRemovalCandidate demo_diagnosis (CollectRemovalGroups demo_conflict) [0]) = [Loosen demo_block (Fin 2), DropGroup 7]"
    using demo_elastic(1) [OF _ refl, of "[7]"]
    by (simp_all add: SolveRemovalCandidate_eq [OF refl refl refl] input feasible demo_groups conclude_def no_objective Let_def
        finish_status tie_break_def ties demo_edits)
qed

lemma demo_reachable: "\<not> unreachable_clause demo_conflict"
  by (simp add: unreachable_clause_def demo_conflict_fields demo_line_def IsUnreachableBound_def)

lemma demo_search:
  "DiagnoseInfeasible demo_diagnosis =
     RepairFound (SolveRemovalCandidate demo_diagnosis (CollectRemovalGroups demo_conflict) [0])"
proof -
  have input: "ii_model demo_diagnosis = demo_conflict" by (simp add: demo_diagnosis_def)
  have 0: "search_cardinality demo_diagnosis (CollectRemovalGroups demo_conflict) 0 =
      \<lparr>ss_aborted = False, ss_found = False, ss_best = rm_default\<rparr>"
    by (simp add: search_cardinality_def EnumerateCombinations.simps visit_candidate_def Let_def demo_candidates)
  have 1: "search_cardinality demo_diagnosis (CollectRemovalGroups demo_conflict) 1 =
      \<lparr>ss_aborted = False, ss_found = True, ss_best = SolveRemovalCandidate demo_diagnosis (CollectRemovalGroups demo_conflict) [0]\<rparr>"
    by (simp add: search_cardinality_def EnumerateCombinations.simps combinations_loop.simps visit_candidate_def Let_def
        demo_candidates demo_groups [THEN arg_cong [where f = length]])
  have "[0..<length (CollectRemovalGroups demo_conflict) + 1] = [0, 1]" by (simp add: demo_groups)
  moreover have "CollectRemovalGroups demo_conflict \<noteq> []" by (simp add: demo_groups)
  ultimately show ?thesis
    using 0 1 by (simp add: DiagnoseInfeasible_def input demo_reachable Let_def demo_candidates)
qed

section \<open>The theorems on this query\<close>

text \<open>What is left after the drop, and its elastic program.\<close>

definition demo_left :: SolverModel where
  "demo_left = DropRemovalGroups demo_conflict [7]"

lemma demo_left_facts:
  "elastic_ok ''query'' demo_left" "scoped demo_left" "em_slacks (BuildElasticModel demo_left ''query'') = [demo_block]"
  "sm_num_vars demo_left = 1" "sm_constraints demo_left = [demo_line Le 1 demo_editable, demo_line Ge 3 demo_rigid]"
  "sm_quadratic_constraints demo_left = []" "sm_indicator_constraints demo_left = []" "sm_general_constraints demo_left = []"
  "model_columns demo_left y \<longleftrightarrow> 0 \<le> y 0 \<and> y 0 \<le> 10"
  using demo_ok demo_elastic(1) [OF _ refl, of "[7]"]
  by (simp_all add: demo_left_def drop_ok drop_scoped demo_conflict_fields demo_dropped model_columns_def in_column_def dbl_arith)

lemma elastic_is_edited_witness:
  "model_columns (em_model (BuildElasticModel demo_left ''query'')) (point [Fin 3, Fin 2]) \<and>
   model_rows (em_model (BuildElasticModel demo_left ''query'')) (point [Fin 3, Fin 2])"
proof -
  have "slacks_nonneg [demo_block] (point [Fin 3, Fin 2])"
    by (simp add: slacks_nonneg_def bs_cols_def demo_block_def demo_point)
  moreover have "model_rows (edited demo_left [demo_block] (point [Fin 3, Fin 2])) (point [Fin 3, Fin 2])"
    unfolding model_rows_def demo_left_def using demo_edited [of "[7]" "point [Fin 3, Fin 2]"]
    by (simp add: edited_def demo_dropped demo_line_sat demo_point)
  ultimately show ?thesis
    using elastic_is_edited [OF demo_left_facts(1) refl, where y = "point [Fin 3, Fin 2]"]
    by (simp add: demo_left_facts demo_point)
qed

lemma elastic_blocks_witness:
  "\<exists>!b. b \<in> set (em_slacks (BuildElasticModel demo_left ''query'')) \<and> \<not> bs_quadratic b \<and> 0 \<in> set (bs_rows b)"
proof -
  have "0 < length (sm_constraints demo_left)" "slackable (row_prov demo_left 0)"
    by (simp_all add: demo_left_facts row_prov_def demo_provenance demo_provenances)
  then show ?thesis using elastic_blocks [OF demo_left_facts(1) refl] by blast
qed

lemma elastic_reach_witness:
  "\<exists>y. y 0 = 7 \<and> model_columns (em_model (BuildElasticModel demo_left ''query'')) y \<and>
     model_rows (em_model (BuildElasticModel demo_left ''query'')) y"
proof -
  have "repairable demo_left (em_slacks (BuildElasticModel demo_left ''query''))"
    by (simp add: repairable_def demo_left_facts demo_provenance demo_provenances demo_line_def demo_block_def reachable_bound_def
        IsUnreachableBound_def)
  moreover have "model_columns demo_left (\<lambda>_. 7)" "rigid_rows demo_left (\<lambda>_. 7)"
    by (simp_all add: demo_left_facts rigid_rows_def demo_provenance demo_provenances demo_line_sat)
  ultimately obtain y where "agree (sm_num_vars demo_left) (\<lambda>_. 7) y"
      "model_columns (em_model (BuildElasticModel demo_left ''query'')) y" "model_rows (em_model (BuildElasticModel demo_left ''query'')) y"
    using elastic_reach [OF demo_left_facts(1) refl demo_left_facts(2), of "\<lambda>_. 7"] by blast
  then show ?thesis by (intro exI [of _ y]) (simp add: agree_def demo_left_facts)
qed

text \<open>A row that was emptied and reads \<open>0 >= 3\<close>.\<close>

definition demo_empty :: SolverModel where
  "demo_empty = sm_default\<lparr>sm_constraints := [mc_default\<lparr>mc_sense := Ge, mc_rhs := Fin 3\<rparr>]\<rparr>"

lemma drop_exact_witness: "\<not> feasible_without demo_empty (set [7]) (\<lambda>_. 0)"
proof -
  have "sm_build_proven_infeasible (DropRemovalGroups demo_empty [7])"
    by (simp add: demo_empty_def DropRemovalGroups_def mc_default_def cp_default_def retained_def violated_empty_row_def)
  then show ?thesis using drop_exact [of demo_empty "[7]" "\<lambda>_. 0"] by blast
qed

text \<open>
  The report for the query: drop the third clause and loosen the first by 2. Without a drop there is
  no repair.
\<close>

lemma diagnosis_exact_witness:
  "\<exists>c sol. DiagnoseInfeasible demo_diagnosis = RepairFound c \<and> rm_edits c = [Loosen demo_block (Fin 2), DropGroup 7] \<and>
     repairs demo_left (BuildElasticModel demo_left ''query'') c (point sol) \<and>
     \<not> feasible (em_model (elastic_without demo_diagnosis [])) (point [])"
proof -
  let ?c = "SolveRemovalCandidate demo_diagnosis (CollectRemovalGroups demo_conflict) [0]" and ?G = "CollectRemovalGroups demo_conflict"
  have input: "ii_model demo_diagnosis = demo_conflict" "ii_slack_scope demo_diagnosis = ''query''" by (simp_all add: demo_diagnosis_def)
  obtain s sol where s: "s \<in> choices ?G" "?c = SolveRemovalCandidate demo_diagnosis ?G s"
      "repairs (without demo_diagnosis s) (elastic_without demo_diagnosis s) ?c (point sol)"
      "\<forall>s' \<in> choices ?G. length s' < length s \<longrightarrow> (\<forall>x. \<not> feasible (em_model (elastic_without demo_diagnosis s')) x)"
    using diagnosis_exact [OF demo_diagnosable, THEN conjunct1, of ?c] demo_search unfolding input by blast
  have "s = [] \<or> s = [0]"
  proof (cases s)
    case (Cons a t)
    then show ?thesis using s(1) by (cases t) (auto simp: choices_def demo_groups)
  qed simp
  moreover have "s \<noteq> []" using s(2) demo_candidates by force
  ultimately have "s = [0]" by simp
  moreover have "[] \<in> choices ?G" by (simp add: choices_def)
  moreover have "without demo_diagnosis [0] = demo_left" by (simp add: without_def input demo_groups demo_left_def)
  ultimately show ?thesis
    using s(3,4) demo_search demo_candidates(3) by (intro exI [of _ ?c] exI [of _ sol]) (simp add: elastic_without_def input)
qed

end
