(* ===== verification/SolverBackends.thy ===== *)
theory SolverBackends
  imports SolveResults
begin

text \<open>
  The registry of backends, from \<open>decidb/solver/solver_registry.cpp\<close>, the selection of one
  (\<open>SelectSolverBackend\<close> in \<open>ilp_solver.cpp\<close>), the time limits of \<open>solver_config.hpp\<close>, and the router
  of \<open>decidb/diagnostics/decide_router.cpp\<close>. The entries of the table are foreign solvers: the
  table is the argument \<open>backends\<close>, an entry's functions are fields. The process environment is the
  argument \<open>env\<close>. A handle is the entry it points to, an invalid one is \<open>None\<close>. Prefixes: \<open>be_\<close>
  SolverBackendInfo, \<open>sv_\<close> SolverCapabilities, \<open>en_\<close> the environment, \<open>so_\<close> SolveModelOptions.
\<close>

section \<open>Data\<close>

record SolverCapabilities =
  sv_constructs :: SolverConstructSupport
  sv_model_classes :: SolverModelClass

text \<open>\<open>be_solve\<close> is \<open>create_session\<close> followed by \<open>Solve\<close> on the fresh session.\<close>

record SolverBackendInfo =
  be_name :: string
  be_display_name :: string
  be_is_available :: bool
  be_capabilities :: SolverCapabilities
  be_solve :: "SolverModel \<Rightarrow> dbl \<Rightarrow> SolverResult"

text \<open>
  The variables that are read: \<open>DECIDB_FORCE_SOLVER\<close>, \<open>DECIDB_NATIVE_CONSTRUCTS\<close>, and
  \<open>DECIDB_TIME_LIMIT\<close> as the number \<open>std::stod\<close> reads, \<open>None\<close> where it is unset or unparseable.
\<close>

record environment =
  en_force_solver :: "string option"
  en_native_constructs :: "string option"
  en_time_limit :: "dbl option"

record SolveModelOptions =
  so_extract_unbounded_ray :: bool
  so_time_limit_seconds :: dbl

definition so_default :: SolveModelOptions where
  "so_default = \<lparr>so_extract_unbounded_ray = False, so_time_limit_seconds = - 1\<rparr>"

section \<open>The construct switch\<close>

definition NativeConstructsEnabled :: "environment \<Rightarrow> bool" where
  "NativeConstructsEnabled env =
     (case en_native_constructs env of
        None \<Rightarrow> True
      | Some setting \<Rightarrow> \<not> (setting = ''off'' \<or> setting = ''OFF'' \<or> setting = ''0''))"

definition NativeConstructsForced :: "environment \<Rightarrow> bool" where
  "NativeConstructsForced env =
     (case en_native_constructs env of
        None \<Rightarrow> False
      | Some setting \<Rightarrow> setting = ''force'' \<or> setting = ''FORCE'')"

definition Capabilities :: "environment \<Rightarrow> SolverBackendInfo \<Rightarrow> SolverCapabilities" where
  "Capabilities env info =
     (if \<not> NativeConstructsEnabled env
      then (be_capabilities info)\<lparr>sv_constructs :=
        \<lparr>cs_abs = False, cs_min_max = False, cs_not_equal = False, cs_bilinear = False\<rparr>\<rparr>
      else be_capabilities info)"

section \<open>Lookup and selection\<close>

definition ascii_lower :: "char \<Rightarrow> char" where
  "ascii_lower c = (let n = (of_char c :: nat) in if 65 \<le> n \<and> n \<le> 90 then char_of (n + 32) else c)"

definition CIEquals :: "string \<Rightarrow> string \<Rightarrow> bool" where
  "CIEquals l1 l2 \<longleftrightarrow> map ascii_lower l1 = map ascii_lower l2"

definition Find :: "SolverBackendInfo list \<Rightarrow> string \<Rightarrow> SolverBackendInfo option" where
  "Find backends wanted = List.find (\<lambda>backend. CIEquals wanted (be_name backend)) backends"

definition BackendsSupporting :: "environment \<Rightarrow> SolverBackendInfo list \<Rightarrow> SolverModelClass \<Rightarrow> string list" where
  "BackendsSupporting env backends needed =
     map be_display_name (filter (\<lambda>backend. SupportsModelClass needed (sv_model_classes (Capabilities env backend))) backends)"

datatype select_error = UnknownSolver string "string list" | SolverNotAvailable string | NoSolverAvailable

definition SelectSolverBackend :: "environment \<Rightarrow> SolverBackendInfo list \<Rightarrow> select_error + SolverBackendInfo" where
  "SelectSolverBackend env backends =
     (case en_force_solver env of
        Some force \<Rightarrow>
          (case Find backends force of
             None \<Rightarrow> Inl (UnknownSolver force (map be_name backends))
           | Some forced \<Rightarrow> if \<not> be_is_available forced then Inl (SolverNotAvailable (be_name forced)) else Inr forced)
      | None \<Rightarrow>
          (case List.find be_is_available backends of
             Some backend \<Rightarrow> Inr backend
           | None \<Rightarrow> Inl NoSolverAvailable))"

section \<open>Time limits and a solve\<close>

definition ResolveDecideTimeLimit :: "environment \<Rightarrow> dbl" where
  "ResolveDecideTimeLimit env =
     (case en_time_limit env of None \<Rightarrow> Fin 300 | Some parsed \<Rightarrow> if parsed > 0 then parsed else Fin 300)"

definition ResolveDecideDiagnosticTimeLimit :: "environment \<Rightarrow> dbl \<Rightarrow> dbl" where
  "ResolveDecideDiagnosticTimeLimit env primary_time_limit =
     (let limit = (if primary_time_limit > 0 then primary_time_limit else ResolveDecideTimeLimit env)
      in if limit < Fin 60 then limit else Fin 60)"

definition MakeDiagnosticSolveOptions :: "environment \<Rightarrow> SolveModelOptions \<Rightarrow> SolveModelOptions" where
  "MakeDiagnosticSolveOptions env options =
     so_default\<lparr>so_time_limit_seconds := ResolveDecideDiagnosticTimeLimit env (so_time_limit_seconds options)\<rparr>"

definition SolvePreparedModel :: "environment \<Rightarrow> SolverModel \<Rightarrow> SolverBackendInfo \<Rightarrow> SolveModelOptions \<Rightarrow> SolverResult" where
  "SolvePreparedModel env model backend options =
     be_solve backend model
       (if so_time_limit_seconds options > 0 then so_time_limit_seconds options else ResolveDecideTimeLimit env)"

section \<open>Where a result is routed\<close>

definition DiagnosisApplies :: "bool \<Rightarrow> SolverStatus \<Rightarrow> bool" where
  "DiagnosisApplies armed status \<longleftrightarrow> armed \<and> (status = INFEASIBLE \<or> status = UNBOUNDED \<or> status = INF_OR_UNBD)"

datatype DiagnosisTerminal = ROUTE_SOLVED | ROUTE_UNBOUNDED | ROUTE_INFEASIBLE | ROUTE_UNDIAGNOSED

definition RouteSolveResult :: "SolverResult \<Rightarrow> bool \<Rightarrow> DiagnosisTerminal" where
  "RouteSolveResult result armed =
     (case sr_status result of
        OPTIMAL \<Rightarrow> ROUTE_SOLVED
      | SUBOPTIMAL \<Rightarrow> ROUTE_SOLVED
      | UNBOUNDED \<Rightarrow> if DiagnosisApplies armed (sr_status result) then ROUTE_UNBOUNDED else ROUTE_UNDIAGNOSED
      | INFEASIBLE \<Rightarrow> if DiagnosisApplies armed (sr_status result) then ROUTE_INFEASIBLE else ROUTE_UNDIAGNOSED
      | TIME_LIMIT \<Rightarrow> ROUTE_UNDIAGNOSED
      | INF_OR_UNBD \<Rightarrow>
          if \<not> DiagnosisApplies armed (sr_status result) then ROUTE_UNDIAGNOSED
          else if sr_ray result = [] then ROUTE_INFEASIBLE else ROUTE_UNBOUNDED
      | _ \<Rightarrow> ROUTE_UNDIAGNOSED)"

section \<open>Selection\<close>

text \<open>The backend that is selected is available, and nothing before it in the table is.\<close>

lemma select_preferred:
  assumes "SelectSolverBackend env backends = Inr b" "en_force_solver env = None"
  shows "\<exists>pre post. backends = pre @ b # post \<and> be_is_available b \<and> (\<forall>b' \<in> set pre. \<not> be_is_available b')"
proof -
  have "List.find be_is_available backends = Some b"
    using assms by (auto simp: SelectSolverBackend_def split: option.splits)
  then obtain i where i: "i < length backends" "be_is_available (backends ! i)" "b = backends ! i"
    "\<forall>j < i. \<not> be_is_available (backends ! j)"
    by (auto simp: find_Some_iff)
  then have "backends = take i backends @ b # drop (Suc i) backends" by (simp add: id_take_nth_drop [symmetric])
  moreover have "\<forall>b' \<in> set (take i backends). \<not> be_is_available b'"
    using i by (auto simp: in_set_conv_nth)
  ultimately show ?thesis using i by blast
qed

text \<open>With one entry that is always there the selection is total.\<close>

lemma select_total:
  assumes "en_force_solver env = None" "b \<in> set backends" "be_is_available b"
  shows "\<exists>c. SelectSolverBackend env backends = Inr c"
proof -
  have "List.find be_is_available backends \<noteq> None" using assms by (auto simp: find_None_iff)
  then show ?thesis using assms(1) by (auto simp: SelectSolverBackend_def)
qed

text \<open>An entry is found under its name in any case, if no entry before it answers to it.\<close>

lemma find_by_name:
  assumes "backends = pre @ b # post" "\<forall>b' \<in> set pre. \<not> CIEquals wanted (be_name b')" "CIEquals wanted (be_name b)"
  shows "Find backends wanted = Some b"
proof -
  have "List.find P (xs @ b # post) = Some b" if "\<forall>x \<in> set xs. \<not> P x" "P b" for P and xs :: "SolverBackendInfo list"
    using that by (induction xs) auto
  from this [of pre "\<lambda>b. CIEquals wanted (be_name b)"] assms show ?thesis by (simp add: Find_def)
qed

text \<open>The switch turns constructs off and leaves the model classes alone.\<close>

lemma capabilities_classes: "sv_model_classes (Capabilities env info) = sv_model_classes (be_capabilities info)"
  by (simp add: Capabilities_def)

end
