(* ===== verification/UnboundedRays.thy ===== *)
theory UnboundedRays
  imports ElasticReach SolverBackends
begin

text \<open>
  The models that probe an inconclusive solve, from \<open>decidb/solver/probe_models.cpp\<close>, and the
  helpers of the facade that use them, from \<open>ilp_solver.cpp\<close>: \<open>DisambiguateInfOrUnbd\<close>,
  \<open>RejectIntegerCeilingOptimum\<close> and \<open>AttachUnboundedRayIfRequested\<close>.
\<close>

section \<open>The operations\<close>

definition MakeZeroObjectiveProbeModel :: "SolverModel \<Rightarrow> SolverModel" where
  "MakeZeroObjectiveProbeModel model = model\<lparr>
     sm_obj_coeffs := replicate (length (sm_obj_coeffs model)) 0, sm_q_rows := [], sm_q_cols := [], sm_q_vals := [],
     sm_has_quadratic_obj := False, sm_nonconvex_quadratic := False\<rparr>"

definition ray_row :: "ModelConstraint \<Rightarrow> ModelConstraint" where
  "ray_row c = mc_default\<lparr>mc_indices := mc_indices c, mc_coefficients := mc_coefficients c, mc_sense := mc_sense c, mc_rhs := 0\<rparr>"

text \<open>\<open>None\<close> where the function returns false.\<close>

definition BuildUnboundedRayFallbackModel :: "SolverModel \<Rightarrow> SolverModel option" where
  "BuildUnboundedRayFallbackModel model =
     (if sm_has_quadratic_obj model \<or> sm_quadratic_constraints model \<noteq> [] \<or> sm_general_constraints model \<noteq> [] \<or>
         sm_indicator_constraints model \<noteq> []
      then None
      else Some (sm_default\<lparr>
        sm_num_vars := sm_num_vars model,
        sm_col_lower := replicate (sm_num_vars model) 0,
        sm_col_upper := map (\<lambda>col. if sm_col_upper model ! col \<ge> Fin (10 ^ 20) then 1 else 0) [0..<sm_num_vars model],
        sm_is_integer := replicate (sm_num_vars model) False,
        sm_is_binary := replicate (sm_num_vars model) False,
        sm_obj_coeffs := map (\<lambda>c. if sm_maximize model then c else - c) (sm_obj_coeffs model),
        sm_maximize := True,
        sm_constraints := map ray_row (sm_constraints model)\<rparr>))"

definition ComputeLinearObjectiveValue :: "SolverModel \<Rightarrow> dbl list \<Rightarrow> dbl" where
  "ComputeLinearObjectiveValue model solution =
     (if length solution \<noteq> length (sm_obj_coeffs model) then 0
      else fold (\<lambda>col objective. objective + sm_obj_coeffs model ! col * solution ! col) [0..<length solution] 0)"

definition AttachUnboundedRayIfRequested :: "environment \<Rightarrow> SolverModel \<Rightarrow> SolverBackendInfo \<Rightarrow> SolveModelOptions \<Rightarrow>
    SolveModelOptions \<Rightarrow> SolverResult \<Rightarrow> SolverResult" where
  "AttachUnboundedRayIfRequested env model backend options diagnostic_options result =
     (if \<not> so_extract_unbounded_ray options \<or> (sr_status result \<noteq> UNBOUNDED \<and> sr_status result \<noteq> INF_OR_UNBD) then result
      else if sr_ray result \<noteq> [] then result
      else case BuildUnboundedRayFallbackModel model of
             None \<Rightarrow> result
           | Some ray_model \<Rightarrow>
               let ray_result = SolvePreparedModel env ray_model backend diagnostic_options
               in if sr_status ray_result = TIME_LIMIT then result\<lparr>sr_diagnostic_timed_out := True\<rparr>
                  else if sr_status ray_result \<noteq> OPTIMAL \<or> length (sr_solution ray_result) \<noteq> sm_num_vars model then result
                  else let improvement = ComputeLinearObjectiveValue ray_model (sr_solution ray_result)
                       in if isfinite improvement \<and> improvement > Fin (1 / 10 ^ 8)
                          then result\<lparr>sr_ray := sr_solution ray_result\<rparr> else result)"

definition DisambiguateInfOrUnbd :: "environment \<Rightarrow> SolverModel \<Rightarrow> SolverBackendInfo \<Rightarrow> SolveModelOptions \<Rightarrow>
    SolverResult \<Rightarrow> SolverResult" where
  "DisambiguateInfOrUnbd env model backend diagnostic_options original =
     (if sr_status original \<noteq> INF_OR_UNBD then original
      else let probe_result = SolvePreparedModel env (MakeZeroObjectiveProbeModel model) backend diagnostic_options
           in if sr_status probe_result = TIME_LIMIT then original\<lparr>sr_diagnostic_timed_out := True\<rparr>
              else case sr_status probe_result of
                     OPTIMAL \<Rightarrow> original\<lparr>sr_status := UNBOUNDED\<rparr>
                   | INFEASIBLE \<Rightarrow> original\<lparr>sr_status := INFEASIBLE\<rparr>
                   | _ \<Rightarrow> original)"

text \<open>Whether the optimum sits on the solver's integer range in a column that is open on that side.\<close>

definition at_integer_ceiling :: "SolverModel \<Rightarrow> dbl list \<Rightarrow> idx \<Rightarrow> bool" where
  "at_integer_ceiling model solution col \<longleftrightarrow>
     \<not> (\<not> sm_is_integer model ! col \<or> sm_is_binary model ! col) \<and>
     (sm_col_upper model ! col \<ge> Fin (10 ^ 20) \<and> solution ! col \<ge> Fin (2 * 10 ^ 9) \<or>
      sm_col_lower model ! col \<le> Fin (- (10 ^ 20)) \<and> solution ! col \<le> Fin (- (2 * 10 ^ 9)))"

definition RejectIntegerCeilingOptimum :: "SolverModel \<Rightarrow> SolverResult \<Rightarrow> SolverResult" where
  "RejectIntegerCeilingOptimum model result =
     (if sr_status result \<noteq> OPTIMAL \<or> sr_solution result = [] then result
      else case List.find (at_integer_ceiling model (sr_solution result))
                  [0..<min (sm_num_vars model) (length (sr_solution result))] of
             None \<Rightarrow> result
           | Some col \<Rightarrow> result\<lparr>
               sr_status := UNBOUNDED, sr_solution := [], sr_objective_value := 0, sr_has_solution := False,
               sr_ray := (replicate (sm_num_vars model) 0)[col := if sm_col_upper model ! col \<ge> Fin (10 ^ 20) then 1 else - 1]\<rparr>)"

section \<open>A ray is a way out\<close>

definition along :: "(idx \<Rightarrow> real) \<Rightarrow> (idx \<Rightarrow> real) \<Rightarrow> real \<Rightarrow> idx \<Rightarrow> real" where
  "along x d t c = x c + t * d c"

text \<open>
  The models for which the builder's comment claims a ray: linear, over their own columns, with every
  bound that the code takes for infinite beyond the range the backends read.
\<close>

definition ray_ready :: "SolverModel \<Rightarrow> bool" where
  "ray_ready m \<longleftrightarrow> scoped m \<and> length (sm_obj_coeffs m) = sm_num_vars m \<and> list_all isfinite (sm_obj_coeffs m) \<and>
     (\<not> sm_has_quadratic_obj m \<longrightarrow> sm_q_vals m = []) \<and>
     (\<forall>c < sm_num_vars m. sm_col_upper m ! c \<ge> Fin (10 ^ 20) \<longrightarrow>
        sm_col_upper m ! c \<ge> Fin (10 ^ 30) \<and> \<not> sm_is_binary m ! c)"

lemma lin_real_along: "lin_real is cs (along x d t) = lin_real is cs x + t * lin_real is cs d"
proof (induction cs arbitrary: "is")
  case (Cons c cs)
  then show ?case by (cases "is") (simp_all add: along_def distrib_left algebra_simps)
qed simp

lemma ray_modelD:
  assumes "BuildUnboundedRayFallbackModel m = Some r"
  shows "sm_quadratic_constraints m = []" "sm_general_constraints m = []" "sm_indicator_constraints m = []"
    "\<not> sm_has_quadratic_obj m" "sm_num_vars r = sm_num_vars m" "sm_constraints r = map ray_row (sm_constraints m)"
    "sm_obj_coeffs r = map (\<lambda>c. if sm_maximize m then c else - c) (sm_obj_coeffs m)" "sm_maximize r" "sm_q_vals r = []"
    "sm_col_lower r = replicate (sm_num_vars m) 0"
    "sm_col_upper r = map (\<lambda>c. if sm_col_upper m ! c \<ge> Fin (10 ^ 20) then 1 else 0) [0..<sm_num_vars m]"
    "sm_is_integer r = replicate (sm_num_vars m) False" "sm_is_binary r = replicate (sm_num_vars m) False"
  using assms by (auto simp: BuildUnboundedRayFallbackModel_def sm_default_def split: if_splits)

lemma ray_point:
  assumes "BuildUnboundedRayFallbackModel m = Some r" "feasible r d" "c < sm_num_vars m"
  shows "0 \<le> d c \<and> d c \<le> (if sm_col_upper m ! c \<ge> Fin (10 ^ 20) then 1 else 0)"
proof -
  note r = ray_modelD [OF assms(1)]
  have "in_column 0 (if sm_col_upper m ! c \<ge> Fin (10 ^ 20) then 1 else 0) False False (d c)"
    using assms(2,3) by (simp add: feasible_def model_columns_def r)
  then show ?thesis by (simp add: in_column_def dbl_arith split: if_splits)
qed

lemma ray_rows:
  assumes "BuildUnboundedRayFallbackModel m = Some r" "feasible r d" "mc \<in> set (sm_constraints m)"
    and "scoped m"
  shows "sat_sense (mc_sense mc) (Fin (lin_real (mc_indices mc) (mc_coefficients mc) d)) (Fin 0)"
proof -
  have "list_all isfinite (mc_coefficients mc)" using assms(3,4) by (simp add: scoped_def)
  moreover have "sat_mc (ray_row mc) d"
    using assms(2,3) by (simp add: feasible_def model_rows_def ray_modelD [OF assms(1)])
  ultimately show ?thesis by (simp add: sat_mc_def ray_row_def mc_default_def lin_val_finite zero_dbl_def)
qed

lemma row_along:
  assumes "sat_sense s (Fin l) k" "sat_sense s (Fin g) (Fin 0)" "0 \<le> t"
  shows "sat_sense s (Fin (l + t * g)) k"
proof -
  have "g \<le> 0 \<Longrightarrow> t * g \<le> 0" "0 \<le> g \<Longrightarrow> 0 \<le> t * g" using assms(3) by (simp_all add: mult_nonneg_nonpos)
  then show ?thesis using assms(1,2) by (cases s; cases k) (auto simp: deq_def)
qed

lemma feasible_along:
  assumes ray: "BuildUnboundedRayFallbackModel m = Some r" "feasible r d" and ready: "ray_ready m"
    and x: "feasible m x" and t: "0 \<le> t" and int: "\<forall>c < sm_num_vars m. sm_is_integer m ! c \<longrightarrow> t * d c \<in> \<int>"
  shows "feasible m (along x d t)"
proof -
  have scoped: "scoped m" using ready by (simp add: ray_ready_def)
  have "sat_mc mc (along x d t)" if mc: "mc \<in> set (sm_constraints m)" for mc
  proof -
    have fin: "list_all isfinite (mc_coefficients mc)" using mc scoped by (simp add: scoped_def)
    have "sat_mc mc x" using x mc by (simp add: feasible_def model_rows_def)
    then show ?thesis
      using row_along [OF _ ray_rows [OF ray mc scoped] t] fin by (simp add: sat_mc_def lin_val_finite lin_real_along)
  qed
  moreover have "in_column (sm_col_lower m ! c) (sm_col_upper m ! c) (sm_is_integer m ! c) (sm_is_binary m ! c) (along x d t c)"
    if c: "c < sm_num_vars m" for c
  proof -
    have at: "in_column (sm_col_lower m ! c) (sm_col_upper m ! c) (sm_is_integer m ! c) (sm_is_binary m ! c) (x c)"
      using x c by (simp add: feasible_def model_columns_def)
    show ?thesis
    proof (cases "sm_col_upper m ! c \<ge> Fin (10 ^ 20)")
      case True
      then have up: "sm_col_upper m ! c \<ge> Fin (10 ^ 30)" "\<not> sm_is_binary m ! c" using ready c by (auto simp: ray_ready_def)
      have "0 \<le> t * d c" using ray_point [OF ray c] t by simp
      then have "lo \<le> Fin (x c) \<Longrightarrow> lo \<le> Fin (x c + t * d c)" for lo by (cases lo) auto
      then show ?thesis using at up int c by (auto simp: in_column_def along_def)
    next
      case False
      then have "d c = 0" using ray_point [OF ray c] by simp
      then show ?thesis using at by (simp add: along_def)
    qed
  qed
  ultimately show ?thesis using ray_modelD(1-3) [OF ray(1)] by (simp add: feasible_def model_columns_def model_rows_def)
qed

lemma ray_gain:
  assumes ray: "BuildUnboundedRayFallbackModel m = Some r" and ready: "ray_ready m"
  shows "\<exists>g. obj_val r d = Fin g \<and> (\<forall>x. \<exists>v. obj_val m x = Fin v \<and> (\<forall>t. obj_val m (along x d t) = Fin (if sm_maximize m then v + t * g else v - t * g)))"
proof -
  let ?n = "sm_num_vars m" and ?o = "sm_obj_coeffs m"
  note r = ray_modelD [OF ray]
  have ok: "length ?o = ?n" "list_all isfinite ?o" "sm_q_vals m = []" using ready r(4) by (auto simp: ray_ready_def)
  have neg: "list_all isfinite (map uminus ?o)" using ok(2) by (auto simp: list_all_iff)
  have flip: "lin_real is (map uminus cs) y = - lin_real is cs y" if "list_all isfinite cs" for "is" cs y
    using that
  proof (induction cs arbitrary: "is")
    case (Cons c cs)
    then show ?case by (cases "is"; cases c) simp_all
  qed simp
  have at: "obj_val m y = Fin (lin_real [0..<?n] ?o y)" for y using ok by (simp add: obj_val_def lin_val_finite quad_val_def zero_dbl_def)
  have "obj_val r d = Fin (if sm_maximize m then lin_real [0..<?n] ?o d else - lin_real [0..<?n] ?o d)"
    using ok neg flip [OF ok(2)] r by (simp add: obj_val_def lin_val_finite quad_val_def zero_dbl_def)
  moreover have "obj_val m (along x d t) = Fin (if sm_maximize m
        then lin_real [0..<?n] ?o x + t * (if sm_maximize m then lin_real [0..<?n] ?o d else - lin_real [0..<?n] ?o d)
        else lin_real [0..<?n] ?o x - t * (if sm_maximize m then lin_real [0..<?n] ?o d else - lin_real [0..<?n] ?o d))" for x t
    by (simp only: at lin_real_along) simp
  ultimately show ?thesis using at by blast
qed

text \<open>What it takes for a model to be unbounded.\<close>

definition unbounded :: "SolverModel \<Rightarrow> bool" where
  "unbounded m \<longleftrightarrow> (\<forall>k. \<exists>x. feasible m x \<and> (if sm_maximize m then Fin k \<le> obj_val m x else obj_val m x \<le> Fin k))"

text \<open>Multiples that keep a rational direction on the integers.\<close>

lemma common_denominator:
  fixes d :: "idx \<Rightarrow> real"
  assumes "\<forall>c < n. P c \<longrightarrow> d c \<in> \<rat>"
  shows "\<exists>N :: nat. 0 < N \<and> (\<forall>c < n. P c \<longrightarrow> real N * d c \<in> \<int>)"
  using assms
proof (induction n)
  case (Suc n)
  then obtain N where N: "0 < N" "\<forall>c < n. P c \<longrightarrow> real N * d c \<in> \<int>" by auto
  show ?case
  proof (cases "P n")
    case True
    then have "d n \<in> \<rat>" using Suc.prems by simp
    then obtain i :: int and q :: nat where q: "d n = of_int i / real q" "q \<noteq> 0" by (auto simp: Rats_eq_int_div_nat)
    have "real (N * q) * d c \<in> \<int>" if c: "c < Suc n" "P c" for c
    proof (cases "c = n")
      case True
      then have "real (N * q) * d c = of_int (int N * i)" using q by simp
      then show ?thesis by (simp only: Ints_of_int)
    next
      case False
      then have "real N * d c \<in> \<int>" using N(2) c by (auto simp: less_Suc_eq)
      then have "real q * (real N * d c) \<in> \<int>" by (rule Ints_mult [OF Ints_of_nat])
      moreover have "real q * (real N * d c) = real (N * q) * d c" by simp
      ultimately show ?thesis by metis
    qed
    moreover have "0 < N * q" using N q by simp
    ultimately show ?thesis by blast
  qed (use N less_Suc_eq in auto)
qed auto

lemma ray_unbounded:
  assumes ray: "BuildUnboundedRayFallbackModel m = Some r" "feasible r d" and ready: "ray_ready m"
    and rational: "\<forall>c < sm_num_vars m. sm_is_integer m ! c \<longrightarrow> d c \<in> \<rat>"
    and gain: "0 < obj_val r d" and x: "feasible m x"
  shows "unbounded m"
  unfolding unbounded_def
proof
  fix k
  obtain g v where g: "obj_val r d = Fin g" "obj_val m x = Fin v"
    "\<And>t. obj_val m (along x d t) = Fin (if sm_maximize m then v + t * g else v - t * g)"
    using ray_gain [OF ray(1) ready, of d] by metis
  obtain N where N: "0 < N" "\<forall>c < sm_num_vars m. sm_is_integer m ! c \<longrightarrow> real N * d c \<in> \<int>"
    using common_denominator [of "sm_num_vars m" "\<lambda>c. sm_is_integer m ! c" d] rational by blast
  have pos: "0 < real N * g" using gain N by (simp add: g(1) zero_dbl_def)
  obtain j :: nat where j: "\<bar>k - v\<bar> < real j * (real N * g)" using reals_Archimedean3 [OF pos] by blast
  define t where "t = real j * real N"
  have "t * d c \<in> \<int>" if "c < sm_num_vars m" "sm_is_integer m ! c" for c
    using Ints_mult [OF Ints_of_nat [of j]] N(2) that by (simp add: t_def mult.assoc)
  then have "feasible m (along x d t)" by (intro feasible_along [OF ray ready x]) (simp_all add: t_def)
  moreover have "\<bar>k - v\<bar> < t * g" using j by (simp add: t_def mult.assoc)
  then have "if sm_maximize m then Fin k \<le> obj_val m (along x d t) else obj_val m (along x d t) \<le> Fin k"
    by (simp add: g(3) abs_less_iff)
  ultimately show "\<exists>x. feasible m x \<and> (if sm_maximize m then Fin k \<le> obj_val m x else obj_val m x \<le> Fin k)" by blast
qed

section \<open>What a backend promises\<close>

text \<open>
  The comment on \<open>RejectIntegerCeilingOptimum\<close> records what the statuses of a backend are worth: it
  caps an integer column that is open on a side, somewhere at or beyond \<open>2e9\<close>, and answers for the
  points within its cap. The cap is \<open>limit\<close> here; \<open>PInf\<close> is a backend that has none. A column is given
  by its bounds and flags. \<open>INF_OR_UNBD\<close> says that one of the two holds, and a solution is a list of
  doubles, which are rational.
\<close>

fun capped_column :: "dbl \<Rightarrow> dbl \<times> dbl \<times> bool \<times> bool \<Rightarrow> real \<Rightarrow> bool" where
  "capped_column limit (lo, hi, integer, binary) a \<longleftrightarrow>
     (integer \<and> \<not> binary \<longrightarrow> (hi \<ge> Fin (10 ^ 20) \<longrightarrow> Fin a \<le> limit) \<and> (lo \<le> Fin (- (10 ^ 20)) \<longrightarrow> - limit \<le> Fin a))"

definition capped :: "dbl \<Rightarrow> SolverModel \<Rightarrow> (idx \<Rightarrow> real) \<Rightarrow> bool" where
  "capped limit m x \<longleftrightarrow> (\<forall>c < sm_num_vars m. capped_column limit
     (sm_col_lower m ! c, sm_col_upper m ! c, sm_is_integer m ! c, sm_is_binary m ! c) (x c))"

definition optimal_within :: "dbl \<Rightarrow> SolverModel \<Rightarrow> (idx \<Rightarrow> real) \<Rightarrow> bool" where
  "optimal_within limit m x \<longleftrightarrow> feasible m x \<and> capped limit m x \<and>
     (\<forall>y. feasible m y \<longrightarrow> capped limit m y \<longrightarrow> no_worse (sm_maximize m) (obj_val m x) (obj_val m y))"

definition sound_status :: "dbl \<Rightarrow> SolverModel \<Rightarrow> SolverResult \<Rightarrow> bool" where
  "sound_status limit m result \<longleftrightarrow>
     (sr_status result = OPTIMAL \<longrightarrow>
        length (sr_solution result) = sm_num_vars m \<and> list_all isfinite (sr_solution result) \<and>
        optimal_within limit m (point (sr_solution result)) \<and>
        sr_objective_value result = obj_val m (point (sr_solution result))) \<and>
     (sr_status result = INFEASIBLE \<longrightarrow> (\<nexists>x. feasible m x \<and> capped limit m x)) \<and>
     (sr_status result = UNBOUNDED \<longrightarrow> unbounded m) \<and>
     (sr_status result = INF_OR_UNBD \<longrightarrow> (\<nexists>x. feasible m x \<and> capped limit m x) \<or> unbounded m) \<and>
     (\<forall>v \<in> set (sr_solution result). rval v \<in> \<rat>)"

definition sound_backend :: "dbl \<Rightarrow> SolverBackendInfo \<Rightarrow> bool" where
  "sound_backend limit backend \<longleftrightarrow> (\<forall>m t. sound_status limit m (be_solve backend m t))"

text \<open>Without a cap these are the exact promises of \<open>sound_result\<close>.\<close>

lemma capped_PInf: "capped PInf m x"
  by (simp add: capped_def)

lemma sound_status_PInf:
  "sound_status PInf m result \<longleftrightarrow> sound_result m result \<and>
     (sr_status result = INF_OR_UNBD \<longrightarrow> (\<nexists>x. feasible m x) \<or> unbounded m) \<and> (\<forall>v \<in> set (sr_solution result). rval v \<in> \<rat>)"
  by (auto simp: sound_status_def sound_result_def optimal_within_def optimal_def capped_PInf unbounded_def)

lemma optimal_is_capped: "optimal m x \<Longrightarrow> capped limit m x \<Longrightarrow> optimal_within limit m x"
  by (simp add: optimal_def optimal_within_def)

lemma sound_prepared: "sound_backend limit backend \<Longrightarrow> sound_status limit m (SolvePreparedModel env m backend options)"
  by (simp add: sound_backend_def SolvePreparedModel_def)

lemma probe_feasible: "feasible (MakeZeroObjectiveProbeModel m) x \<longleftrightarrow> feasible m x"
  by (simp add: MakeZeroObjectiveProbeModel_def feasible_def model_columns_def model_rows_def)

lemma probe_capped: "capped limit (MakeZeroObjectiveProbeModel m) x \<longleftrightarrow> capped limit m x"
  by (simp add: MakeZeroObjectiveProbeModel_def capped_def)

lemma disambiguate_facts:
  assumes "sound_backend limit backend" "sound_status limit m result"
  shows "sound_status limit m (DisambiguateInfOrUnbd env m backend options result) \<and>
    (sr_status (SolvePreparedModel env (MakeZeroObjectiveProbeModel m) backend options) \<in> {OPTIMAL, INFEASIBLE} \<longrightarrow>
       sr_status (DisambiguateInfOrUnbd env m backend options result) \<noteq> INF_OR_UNBD)"
proof (cases "sr_status result = INF_OR_UNBD")
  case True
  let ?p = "SolvePreparedModel env (MakeZeroObjectiveProbeModel m) backend options"
  have probe: "sr_status ?p = OPTIMAL \<Longrightarrow> \<exists>x. feasible m x \<and> capped limit m x"
    "sr_status ?p = INFEASIBLE \<Longrightarrow> \<nexists>x. feasible m x \<and> capped limit m x"
    using sound_prepared [OF assms(1), of "MakeZeroObjectiveProbeModel m" env options]
    by (auto simp: sound_status_def optimal_within_def probe_feasible probe_capped)
  have either: "(\<nexists>x. feasible m x \<and> capped limit m x) \<or> unbounded m" "\<forall>v \<in> set (sr_solution result). rval v \<in> \<rat>"
    using assms(2) True by (auto simp: sound_status_def)
  show ?thesis
    using True probe either
    by (cases "sr_status ?p")
       (auto simp: DisambiguateInfOrUnbd_def Let_def sound_status_def)
next
  case False
  then show ?thesis using assms(2) by (simp add: DisambiguateInfOrUnbd_def)
qed

lemmas disambiguated = disambiguate_facts [THEN conjunct1]

text \<open>
  C12. The probe keeps the meaning of the answer. Over a sound backend, with or without a cap, the status that
  \<open>DisambiguateInfOrUnbd\<close> returns is one the model justifies, and the probe decides an ambiguous
  status whenever it is itself solved.
\<close>

theorem disambiguate_sound:
  assumes "sound_backend limit backend" "sound_status limit m result"
  shows "sound_status limit m (DisambiguateInfOrUnbd env m backend options result) \<and>
    (sr_status (SolvePreparedModel env (MakeZeroObjectiveProbeModel m) backend options) \<in> {OPTIMAL, INFEASIBLE} \<longrightarrow>
       sr_status (DisambiguateInfOrUnbd env m backend options result) \<noteq> INF_OR_UNBD)"
  by (rule disambiguate_facts [OF assms])

lemma ray_value:
  assumes "BuildUnboundedRayFallbackModel m = Some r" "ray_ready m" "length solution = sm_num_vars m" "list_all isfinite solution"
  shows "ComputeLinearObjectiveValue r solution = obj_val r (point solution)"
proof -
  note r = ray_modelD [OF assms(1)]
  have fin: "isfinite (sm_obj_coeffs r ! c)" if "c < sm_num_vars m" for c
    using that assms(2) by (cases "sm_obj_coeffs m ! c") (auto simp: r ray_ready_def list_all_length)
  have "fold (\<lambda>col objective. objective + sm_obj_coeffs r ! col * solution ! col) is o0 =
      o0 + lin_val is (map (\<lambda>c. sm_obj_coeffs r ! c) is) (point solution)" if "\<forall>c \<in> set is. c < sm_num_vars m" for "is" o0
    using that
  proof (induction "is" arbitrary: o0)
    case (Cons c cs)
    then have "solution ! c = Fin (point solution c)" using assms(3,4) by (simp add: point_def list_all_length)
    then show ?case using Cons by (simp add: add.assoc)
  qed simp
  from this [of "[0..<sm_num_vars m]" 0]
  have "fold (\<lambda>col objective. objective + sm_obj_coeffs r ! col * solution ! col) [0..<sm_num_vars m] 0 =
      lin_val [0..<sm_num_vars m] (sm_obj_coeffs r) (point solution)"
    using assms(2) map_nth [of "sm_obj_coeffs r"] by (simp add: r(7) ray_ready_def)
  then show ?thesis
    using assms(2,3) r by (simp add: ComputeLinearObjectiveValue_def obj_val_def quad_val_def ray_ready_def)
qed

text \<open>
  C11. A ray that is attached is a way out: from every point of the model all steps along it that keep
  the integer columns on the integers stay in the model, the objective improves by the same positive
  amount per unit, and so the model, if it has a point at all, is unbounded.
\<close>

theorem attached_ray_escapes:
  assumes sound: "sound_backend limit backend" and ready: "ray_ready m" and none: "sr_ray result = []"
    and ray: "sr_ray (AttachUnboundedRayIfRequested env m backend options diagnostic_options result) = ray" "ray \<noteq> []"
  shows "(\<forall>x t. feasible m x \<longrightarrow> 0 \<le> t \<longrightarrow> (\<forall>c < sm_num_vars m. sm_is_integer m ! c \<longrightarrow> t * point ray c \<in> \<int>) \<longrightarrow>
      feasible m (along x (point ray) t)) \<and>
    (\<exists>g > 0. \<forall>x. \<exists>v. obj_val m x = Fin v \<and>
       (\<forall>t. obj_val m (along x (point ray) t) = Fin (if sm_maximize m then v + t * g else v - t * g))) \<and>
    ((\<exists>x. feasible m x) \<longrightarrow> unbounded m)"
proof -
  obtain r where r: "BuildUnboundedRayFallbackModel m = Some r" "sr_status (SolvePreparedModel env r backend diagnostic_options) = OPTIMAL"
    "ray = sr_solution (SolvePreparedModel env r backend diagnostic_options)" "length ray = sm_num_vars m"
    "ComputeLinearObjectiveValue r ray > Fin (1 / 10 ^ 8)"
    using none ray by (auto simp: AttachUnboundedRayIfRequested_def Let_def split: if_splits option.splits)
  have res: "feasible r (point ray)" "list_all isfinite ray" "\<forall>v \<in> set ray. rval v \<in> \<rat>"
    using sound_prepared [OF sound, of r env diagnostic_options] r(2,3)
    by (auto simp: sound_status_def optimal_within_def)
  have "Fin (1 / 10 ^ 8) < obj_val r (point ray)" using r(5) ray_value [OF r(1) ready r(4) res(2)] by simp
  then have gain: "0 < obj_val r (point ray)" by (cases "obj_val r (point ray)") (auto simp: zero_dbl_def)
  have rational: "point ray c \<in> \<rat>" if "c < sm_num_vars m" for c using res(3) r(4) that by (simp add: point_def)
  obtain g where g: "obj_val r (point ray) = Fin g" "\<forall>x. \<exists>v. obj_val m x = Fin v \<and>
      (\<forall>t. obj_val m (along x (point ray) t) = Fin (if sm_maximize m then v + t * g else v - t * g))"
    using ray_gain [OF r(1) ready] by blast
  then have "\<exists>g > 0. \<forall>x. \<exists>v. obj_val m x = Fin v \<and>
      (\<forall>t. obj_val m (along x (point ray) t) = Fin (if sm_maximize m then v + t * g else v - t * g))"
    using gain by (intro exI [of _ g]) (simp add: zero_dbl_def)
  moreover have "unbounded m" if "feasible m x" for x
    using ray_unbounded [OF r(1) res(1) ready _ gain that] rational by blast
  ultimately show ?thesis using feasible_along [OF r(1) res(1) ready] by blast
qed

section \<open>What the probes do not see\<close>

text \<open>One column, open below or above, with cost 1, and no rows.\<close>

definition open_column :: "dbl \<Rightarrow> dbl \<Rightarrow> bool \<Rightarrow> SolverModel" where
  "open_column lo hi integer = sm_default\<lparr>sm_num_vars := 1, sm_col_lower := [lo], sm_col_upper := [hi],
     sm_is_integer := [integer], sm_is_binary := [False], sm_obj_coeffs := [1]\<rparr>"

lemma open_column_facts:
  "feasible (open_column lo hi i) x \<longleftrightarrow> in_column lo hi i False (x 0)" "obj_val (open_column lo hi i) x = Fin (x 0)"
  "\<not> sm_maximize (open_column lo hi i)"
  by (simp_all add: open_column_def sm_default_def feasible_def model_columns_def model_rows_def obj_val_def quad_val_def dbl_arith)

lemma open_below: "feasible (open_column (Fin (- (10 ^ 30))) hi i) x \<longleftrightarrow> in_column NInf hi i False (x 0)"
  by (simp add: open_column_facts in_column_def)

text \<open>
  C39. What goes below is not seen. A column that is open below and is minimised makes the model
  unbounded, but the ray model keeps the column at 0 and has no direction to report; and where the
  solver answers at its lower integer limit in a column open on both sides, the reported direction
  is the one in which the objective gets worse.
\<close>

theorem escape_below_missed:
  "unbounded (open_column (Fin (- (10 ^ 30))) (Fin 5) False) \<and>
   (\<exists>r. BuildUnboundedRayFallbackModel (open_column (Fin (- (10 ^ 30))) (Fin 5) False) = Some r \<and>
      obj_val r ` {d. feasible r d} = {0}) \<and>
   sr_ray (RejectIntegerCeilingOptimum (open_column (Fin (- (10 ^ 30))) (Fin (10 ^ 30)) True)
     (sr_default\<lparr>sr_status := OPTIMAL, sr_solution := [Fin (- (2 * 10 ^ 9))]\<rparr>)) = [1]"
proof (intro conjI)
  let ?m = "open_column (Fin (- (10 ^ 30))) (Fin 5) False"
  show "unbounded ?m"
    unfolding unbounded_def
  proof
    fix k
    have "feasible ?m (\<lambda>_. min k 5)" by (simp add: open_column_facts in_column_def)
    then show "\<exists>x. feasible ?m x \<and> (if sm_maximize ?m then Fin k \<le> obj_val ?m x else obj_val ?m x \<le> Fin k)"
      by (intro exI [of _ "\<lambda>_. min k 5"]) (simp add: open_column_facts)
  qed
  obtain r where r: "BuildUnboundedRayFallbackModel ?m = Some r"
    by (simp add: BuildUnboundedRayFallbackModel_def open_column_def sm_default_def)
  have "obj_val r d = 0" if d: "feasible r d" for d
  proof -
    have "d 0 = 0" using ray_point [OF r d, of 0] by (simp add: open_column_def)
    then show ?thesis using ray_modelD [OF r] by (simp add: open_column_def obj_val_def quad_val_def sm_default_def dbl_arith)
  qed
  moreover have "feasible r (\<lambda>_. 0)"
    using r by (auto simp: BuildUnboundedRayFallbackModel_def open_column_def sm_default_def feasible_def model_columns_def
        model_rows_def in_column_def dbl_arith)
  ultimately have "obj_val r ` {d. feasible r d} = {0}" by (auto simp: image_iff intro!: exI [of _ "\<lambda>_. 0"])
  with r show "\<exists>r. BuildUnboundedRayFallbackModel ?m = Some r \<and> obj_val r ` {d. feasible r d} = {0}" by blast
  show "sr_ray (RejectIntegerCeilingOptimum (open_column (Fin (- (10 ^ 30))) (Fin (10 ^ 30)) True)
     (sr_default\<lparr>sr_status := OPTIMAL, sr_solution := [Fin (- (2 * 10 ^ 9))]\<rparr>)) = [1]"
    by (simp add: RejectIntegerCeilingOptimum_def at_integer_ceiling_def open_column_def sr_default_def sm_default_def)
qed

text \<open>
  C40. A bounded optimum is called unbounded: the least integer from 3 thousand million on, which a
  sound solver returns, lies beyond the solver's integer limit in a column that is open above, and is
  reported as an escape although the query bounds the column on the side that is optimised.
\<close>

theorem bounded_called_unbounded:
  "sound_result (open_column (Fin (3 * 10 ^ 9)) (Fin (10 ^ 30)) True)
     (sr_default\<lparr>sr_status := OPTIMAL, sr_solution := [Fin (3 * 10 ^ 9)], sr_objective_value := Fin (3 * 10 ^ 9)\<rparr>) \<and>
   sr_status (RejectIntegerCeilingOptimum (open_column (Fin (3 * 10 ^ 9)) (Fin (10 ^ 30)) True)
     (sr_default\<lparr>sr_status := OPTIMAL, sr_solution := [Fin (3 * 10 ^ 9)], sr_objective_value := Fin (3 * 10 ^ 9)\<rparr>)) = UNBOUNDED \<and>
   \<not> unbounded (open_column (Fin (3 * 10 ^ 9)) (Fin (10 ^ 30)) True)"
proof (intro conjI)
  let ?m = "open_column (Fin (3 * 10 ^ 9)) (Fin (10 ^ 30)) True"
  have box: "feasible ?m x \<longleftrightarrow> 3 * 10 ^ 9 \<le> x 0 \<and> x 0 \<in> \<int>" for x
    by (simp add: open_column_facts in_column_def)
  show "sound_result ?m (sr_default\<lparr>sr_status := OPTIMAL, sr_solution := [Fin (3 * 10 ^ 9)], sr_objective_value := Fin (3 * 10 ^ 9)\<rparr>)"
    by (simp add: sound_result_def sr_default_def optimal_def open_column_facts in_column_def no_worse_def point_def)
       (simp add: open_column_def)
  show "sr_status (RejectIntegerCeilingOptimum ?m
     (sr_default\<lparr>sr_status := OPTIMAL, sr_solution := [Fin (3 * 10 ^ 9)], sr_objective_value := Fin (3 * 10 ^ 9)\<rparr>)) = UNBOUNDED"
    by (simp add: RejectIntegerCeilingOptimum_def at_integer_ceiling_def open_column_def sr_default_def sm_default_def)
  show "\<not> unbounded ?m"
    unfolding unbounded_def box by (auto simp: open_column_facts intro!: exI [of _ 0])
qed

section \<open>A model that grows forever\<close>

text \<open>One integer column from 0 on, maximised, with the answers of a backend to its two probes.\<close>

definition demo_up :: SolverModel where
  "demo_up = (open_column 0 (Fin (10 ^ 30)) True)\<lparr>sm_maximize := True\<rparr>"

definition demo_ray :: SolverModel where
  "demo_ray = sm_default\<lparr>sm_num_vars := 1, sm_col_lower := [0], sm_col_upper := [1], sm_is_integer := [False],
     sm_is_binary := [False], sm_obj_coeffs := [1], sm_maximize := True\<rparr>"

definition demo_probe_backend :: SolverBackendInfo where
  "demo_probe_backend = \<lparr>be_name = ''demo'', be_display_name = ''Demo'', be_is_available = True,
     be_capabilities = \<lparr>sv_constructs = \<lparr>cs_abs = False, cs_min_max = False, cs_not_equal = False, cs_bilinear = False\<rparr>,
       sv_model_classes = \<lparr>quadratic_constraints_class = False, nonconvex_quadratic_class = False, miqp_class = False,
         singular_quadratic_class = False\<rparr>\<rparr>,
     be_solve = (\<lambda>model t.
       if model = demo_ray then sr_default\<lparr>sr_status := OPTIMAL, sr_solution := [1], sr_objective_value := 1\<rparr>
       else if model = MakeZeroObjectiveProbeModel demo_up then sr_default\<lparr>sr_status := OPTIMAL, sr_solution := [0]\<rparr>
       else sr_default)\<rparr>"

definition demo_probe_environment :: environment where
  "demo_probe_environment = \<lparr>en_force_solver = None, en_native_constructs = None, en_time_limit = None\<rparr>"

lemma demo_up_facts:
  "feasible demo_up x \<longleftrightarrow> 0 \<le> x 0 \<and> x 0 \<in> \<int>" "obj_val demo_up x = Fin (x 0)" "sm_maximize demo_up"
  "BuildUnboundedRayFallbackModel demo_up = Some demo_ray" "sm_num_vars demo_up = 1" "ray_ready demo_up"
proof -
  show "feasible demo_up x \<longleftrightarrow> 0 \<le> x 0 \<and> x 0 \<in> \<int>" "obj_val demo_up x = Fin (x 0)" "sm_maximize demo_up" "sm_num_vars demo_up = 1"
    by (simp_all add: demo_up_def open_column_def sm_default_def feasible_def model_columns_def model_rows_def obj_val_def
        quad_val_def in_column_def dbl_arith)
  show "BuildUnboundedRayFallbackModel demo_up = Some demo_ray"
    by (simp add: BuildUnboundedRayFallbackModel_def demo_up_def demo_ray_def open_column_def sm_default_def)
  show "ray_ready demo_up"
    by (simp add: ray_ready_def scoped_def demo_up_def open_column_def sm_default_def dbl_arith)
qed

lemma demo_ray_facts:
  "feasible demo_ray x \<longleftrightarrow> 0 \<le> x 0 \<and> x 0 \<le> 1" "obj_val demo_ray x = Fin (x 0)" "sm_maximize demo_ray" "sm_num_vars demo_ray = 1"
  by (simp_all add: demo_ray_def sm_default_def feasible_def model_columns_def model_rows_def obj_val_def quad_val_def
      in_column_def dbl_arith)

lemma demo_probe_facts:
  "obj_val (MakeZeroObjectiveProbeModel demo_up) x = 0" "sm_num_vars (MakeZeroObjectiveProbeModel demo_up) = 1"
  "MakeZeroObjectiveProbeModel demo_up \<noteq> demo_ray"
proof -
  show "obj_val (MakeZeroObjectiveProbeModel demo_up) x = 0" "sm_num_vars (MakeZeroObjectiveProbeModel demo_up) = 1"
    by (simp_all add: MakeZeroObjectiveProbeModel_def demo_up_def open_column_def sm_default_def obj_val_def quad_val_def dbl_arith)
  show "MakeZeroObjectiveProbeModel demo_up \<noteq> demo_ray"
  proof
    assume same: "MakeZeroObjectiveProbeModel demo_up = demo_ray"
    have "obj_val (MakeZeroObjectiveProbeModel demo_up) (\<lambda>_. 1) = 0"
      by (simp add: MakeZeroObjectiveProbeModel_def demo_up_def open_column_def sm_default_def obj_val_def quad_val_def dbl_arith)
    with same show False by (simp add: demo_ray_facts zero_dbl_def)
  qed
qed

lemma demo_capped: "capped (Fin 2147483647) demo_ray x" "capped (Fin 2147483647) demo_up x \<longleftrightarrow> x 0 \<le> 2147483647"
  by (simp_all add: capped_def demo_ray_def demo_up_def open_column_def sm_default_def dbl_arith)

lemma demo_probe_sound: "sound_backend (Fin 2147483647) demo_probe_backend"
  unfolding sound_backend_def
proof (intro allI)
  fix m t
  consider "m = demo_ray" | "m = MakeZeroObjectiveProbeModel demo_up" | "be_solve demo_probe_backend m t = sr_default"
    unfolding demo_probe_backend_def by (cases "m = demo_ray"; cases "m = MakeZeroObjectiveProbeModel demo_up"; simp)
  then show "sound_status (Fin 2147483647) m (be_solve demo_probe_backend m t)"
  proof cases
    case 1
    then show ?thesis
      by (simp add: demo_probe_backend_def sound_status_def sr_default_def optimal_within_def demo_ray_facts
          no_worse_def point_def one_dbl_def demo_capped)
  next
    case 2
    then show ?thesis
      by (simp add: demo_probe_backend_def demo_probe_facts sound_status_def sr_default_def optimal_within_def
          probe_feasible probe_capped demo_capped demo_up_facts no_worse_def point_def zero_dbl_def)
  next
    case 3
    then show ?thesis by (simp add: sound_status_def sr_default_def)
  qed
qed

lemma demo_up_unbounded: "unbounded demo_up"
  unfolding unbounded_def
proof
  fix k
  show "\<exists>x. feasible demo_up x \<and> (if sm_maximize demo_up then Fin k \<le> obj_val demo_up x else obj_val demo_up x \<le> Fin k)"
    by (rule exI [of _ "\<lambda>_. real (nat \<lceil>k\<rceil>)"]) (simp add: demo_up_facts real_nat_ceiling_ge)
qed

lemma disambiguate_sound_witness:
  "sr_status (DisambiguateInfOrUnbd demo_probe_environment demo_up demo_probe_backend so_default
     (sr_default\<lparr>sr_status := INF_OR_UNBD\<rparr>)) \<noteq> INF_OR_UNBD"
proof -
  have "sound_status (Fin 2147483647) demo_up (sr_default\<lparr>sr_status := INF_OR_UNBD\<rparr>)"
    using demo_up_unbounded by (simp add: sound_status_def sr_default_def)
  moreover have "sr_status (SolvePreparedModel demo_probe_environment (MakeZeroObjectiveProbeModel demo_up) demo_probe_backend so_default) = OPTIMAL"
    by (simp add: SolvePreparedModel_def demo_probe_backend_def demo_probe_facts)
  ultimately show ?thesis
    using disambiguate_sound [OF demo_probe_sound, of demo_up _ demo_probe_environment so_default] by blast
qed

lemma attached_ray_escapes_witness:
  "sr_ray (AttachUnboundedRayIfRequested demo_probe_environment demo_up demo_probe_backend
     (so_default\<lparr>so_extract_unbounded_ray := True\<rparr>) so_default (sr_default\<lparr>sr_status := UNBOUNDED\<rparr>)) = [1] \<and>
   feasible demo_up (along (\<lambda>_. 3) (point [1]) 4) \<and> unbounded demo_up"
proof -
  have "\<not> isnan 1" "1 > Fin (1 / 10 ^ 8)" by (simp_all add: one_dbl_def)
  then have ray: "sr_ray (AttachUnboundedRayIfRequested demo_probe_environment demo_up demo_probe_backend
     (so_default\<lparr>so_extract_unbounded_ray := True\<rparr>) so_default (sr_default\<lparr>sr_status := UNBOUNDED\<rparr>)) = [1]"
    by (simp add: AttachUnboundedRayIfRequested_def demo_up_facts sr_default_def SolvePreparedModel_def demo_probe_backend_def
        ComputeLinearObjectiveValue_def demo_ray_def sm_default_def dbl_arith)
  have "feasible demo_up (\<lambda>_. 3)" "point [1] 0 = 1" by (simp_all add: demo_up_facts point_def one_dbl_def)
  with attached_ray_escapes [OF demo_probe_sound demo_up_facts(6) _ ray] ray show ?thesis
    by (auto simp: sr_default_def demo_up_facts)
qed

end
