(* ===== verification/SolveFacade.thy ===== *)
theory SolveFacade
  imports UnboundedRays BuildExact
begin

text \<open>
  \<open>SolveModel\<close>, the facade of \<open>decidb/solver/ilp_solver.cpp\<close>: it builds the model, checks that the
  backend takes it, answers without the backend where the model is known to be empty, and else solves
  and probes. The last section reads its answers against the query. The kept session and the dump
  of the model are left out; the kept model is the second component, \<open>None\<close> where none is kept.
\<close>

section \<open>The facade\<close>





section \<open>The query's points\<close>

definition solves :: "SolverInput \<Rightarrow> (idx \<Rightarrow> real) \<Rightarrow> bool" where
  "solves input x \<longleftrightarrow> domains_hold input x \<and> constraints_hold input x"

definition worth :: "SolverInput \<Rightarrow> (idx \<Rightarrow> real) \<Rightarrow> real" where
  "worth input x = objective_meaning input (at_flat input x) +
     global_meaning input (\<lambda>g. x (vi_global_block_start (BuildIndexer input) + g))"

definition at_least_as_good :: "SolverInput \<Rightarrow> real \<Rightarrow> real \<Rightarrow> bool" where
  "at_least_as_good input a b \<longleftrightarrow> (if si_sense input = MAXIMIZE then b \<le> a else a \<le> b)"

definition solves_best :: "SolverInput \<Rightarrow> (idx \<Rightarrow> real) \<Rightarrow> bool" where
  "solves_best input x \<longleftrightarrow> solves input x \<and> (\<forall>y. solves input y \<longrightarrow> at_least_as_good input (worth input x) (worth input y))"


text \<open>
  The assignments a capped backend looks at: an integer variable, or global column, that is open on a
  side stays within the cap there. \<open>at_ceiling\<close> holds of one that has such a variable at or beyond the
  least cap, \<open>2e9\<close>.
\<close>

definition in_range :: "dbl \<Rightarrow> SolverInput \<Rightarrow> (idx \<Rightarrow> real) \<Rightarrow> bool" where
  "in_range limit input x \<longleftrightarrow>
     (\<forall>v < si_num_decide_vars input. \<forall>i < NumInstances (BuildIndexer input) v.
        capped_column limit (variable_column input v) (x (InstanceColumn (BuildIndexer input) v i))) \<and>
     (\<forall>g < si_num_global_vars input.
        capped_column limit (global_column input g) (x (vi_global_block_start (BuildIndexer input) + g)))"



definition best_in_range :: "dbl \<Rightarrow> SolverInput \<Rightarrow> (idx \<Rightarrow> real) \<Rightarrow> bool" where
  "best_in_range limit input x \<longleftrightarrow> solves input x \<and> in_range limit input x \<and>
     (\<forall>y. solves input y \<longrightarrow> in_range limit input y \<longrightarrow> at_least_as_good input (worth input x) (worth input y))"


text \<open>Without a cap every assignment is in range, and the best ones are the best ones.\<close>

lemma capped_column_PInf: "capped_column PInf col a"
  by (cases col) simp

lemma best_in_range_PInf: "best_in_range PInf input x \<longleftrightarrow> solves_best input x"
  by (simp add: best_in_range_def solves_best_def in_range_def capped_column_PInf)


section \<open>The answers\<close>






section \<open>A small query, solved\<close>













end
