(* ===== verification/EscapeRules.thy ===== *)
theory EscapeRules
  imports RepairSearch UnboundedRays
begin

text \<open>
  The diagnosis of an unbounded query: \<open>CharacterizeEscape\<close>, \<open>PrescribeCap\<close> and
  \<open>BuildUnboundedDiagnostic\<close> of \<open>decidb/diagnostics/decide_diagnostic.cpp\<close>, and \<open>DiagnoseUnbounded\<close> of
  \<open>decide_diagnostic_engines.cpp\<close>. The groupings of the rows by a column's values, which the operator
  reads off DuckDB's chunks, are the parameter \<open>get_candidates\<close>. A \<open>std::set\<close> is a set, a \<open>std::map\<close>
  from variables a list ascending by key; \<open>std::sort\<close> is stable here, which its contract leaves open.
  Prefixes: \<open>cg_\<close> ColumnGrouping, \<open>er_\<close> EscapeRule, \<open>es_\<close> the variables of the loop, \<open>ve_\<close> VarEscape,
  \<open>va_\<close> VarAgg, \<open>df_\<close> DiagnosticFinding.
\<close>

section \<open>Data\<close>

record ColumnGrouping =
  cg_column :: string
  cg_instance_to_group :: "idx option list"
  cg_group_value :: "string list"
  cg_clause_referenced :: bool

record EscapeRule =
  er_column :: string
  er_value :: string
  er_escaping :: nat
  er_total :: nat
  er_covers_scope :: bool

record EscapeState =
  es_rules :: "EscapeRule list"
  es_members :: "idx list list"
  es_referenced :: "bool list"
  es_by_members :: "idx list \<Rightarrow> idx option"

section \<open>The rules\<close>

definition count_instance :: "idx set \<Rightarrow> ColumnGrouping \<Rightarrow> idx \<Rightarrow> nat list \<times> idx list list \<Rightarrow> nat list \<times> idx list list" where
  "count_instance escaping cg i st =
     (case st of (total_count, esc_members) \<Rightarrow>
        case cg_instance_to_group cg ! i of
          None \<Rightarrow> st
        | Some g \<Rightarrow>
            if g \<ge> length (cg_group_value cg) then st
            else (total_count[g := total_count ! g + 1],
                  if i \<in> escaping then esc_members[g := esc_members ! g @ [i]] else esc_members))"

definition escape_group :: "dbl \<Rightarrow> ColumnGrouping \<Rightarrow> nat list \<Rightarrow> idx list list \<Rightarrow> idx \<Rightarrow> EscapeState \<Rightarrow> EscapeState" where
  "escape_group threshold cg total_count esc_members g st =
     (if total_count ! g = 0 \<or> esc_members ! g = [] then st
      else let rate = Fin (real (length (esc_members ! g))) / Fin (real (total_count ! g))
           in if rate + Fin (1 / 10 ^ 12) < threshold then st
              else let r = \<lparr>er_column = cg_column cg, er_value = cg_group_value cg ! g,
                            er_escaping = length (esc_members ! g), er_total = total_count ! g, er_covers_scope = False\<rparr>
                   in case es_by_members st (esc_members ! g) of
                        None \<Rightarrow> st\<lparr>es_rules := es_rules st @ [r], es_members := es_members st @ [esc_members ! g],
                                  es_referenced := es_referenced st @ [cg_clause_referenced cg],
                                  es_by_members := (es_by_members st)(esc_members ! g \<mapsto> length (es_rules st))\<rparr>
                      | Some k \<Rightarrow>
                          if cg_clause_referenced cg \<and> \<not> es_referenced st ! k
                          then st\<lparr>es_referenced := (es_referenced st)[k := True], es_rules := (es_rules st)[k := r]\<rparr>
                          else st)"

definition escape_column :: "idx set \<Rightarrow> dbl \<Rightarrow> ColumnGrouping \<Rightarrow> EscapeState \<Rightarrow> EscapeState" where
  "escape_column escaping threshold cg st =
     (let num_groups = length (cg_group_value cg)
      in if num_groups = 0 then st
         else let (total_count, esc_members) = fold (count_instance escaping cg) [0..<length (cg_instance_to_group cg)]
                    (replicate num_groups 0, replicate num_groups [])
              in fold (escape_group threshold cg total_count esc_members) [0..<num_groups] st)"

section \<open>The order and the cover\<close>

text \<open>\<open>std::string\<close>s compare by their bytes.\<close>

definition string_less :: "string \<Rightarrow> string \<Rightarrow> bool" where
  "string_less a b \<longleftrightarrow> lexicographical_compare (map of_char a) (map of_char b)"

definition stronger_rule :: "EscapeRule \<Rightarrow> EscapeRule \<Rightarrow> bool" where
  "stronger_rule a b =
     (let ra = Fin (real (er_escaping a)) / Fin (real (er_total a));
          rb = Fin (real (er_escaping b)) / Fin (real (er_total b))
      in if ra \<noteq> rb then ra > rb
         else if er_column a \<noteq> er_column b then string_less (er_column a) (er_column b)
         else string_less (er_value a) (er_value b))"

definition wider_rule :: "EscapeRule \<Rightarrow> EscapeRule \<Rightarrow> bool" where
  "wider_rule a b =
     (if er_escaping a \<noteq> er_escaping b then er_escaping a > er_escaping b
      else if er_column a \<noteq> er_column b then string_less (er_column a) (er_column b)
      else string_less (er_value a) (er_value b))"

primrec insert_by :: "('a \<Rightarrow> 'a \<Rightarrow> bool) \<Rightarrow> 'a \<Rightarrow> 'a list \<Rightarrow> 'a list" where
  "insert_by before x [] = [x]"
| "insert_by before x (y # ys) = (if before y x then y # insert_by before x ys else x # y # ys)"

definition std_sort :: "('a \<Rightarrow> 'a \<Rightarrow> bool) \<Rightarrow> 'a list \<Rightarrow> 'a list" where
  "std_sort before xs = foldr (insert_by before) xs []"

definition cover_step :: "EscapeState \<Rightarrow> idx \<Rightarrow> idx set \<times> idx list \<Rightarrow> idx set \<times> idx list" where
  "cover_step st oi acc =
     (case acc of (covered, cover) \<Rightarrow>
        if er_escaping (es_rules st ! oi) \<noteq> er_total (es_rules st ! oi) then acc
        else if \<not> list_ex (\<lambda>m. m \<notin> covered) (es_members st ! oi) then acc
        else (covered \<union> set (es_members st ! oi), cover @ [oi]))"

definition CharacterizeEscape :: "idx set \<Rightarrow> ColumnGrouping list \<Rightarrow> dbl \<Rightarrow> EscapeRule list" where
  "CharacterizeEscape escaping candidates threshold =
     (let st = fold (escape_column escaping threshold) candidates
                 \<lparr>es_rules = [], es_members = [], es_referenced = [], es_by_members = (\<lambda>_. None)\<rparr>;
          rules = es_rules st;
          order = std_sort (\<lambda>ia ib. stronger_rule (rules ! ia) (rules ! ib)) [0..<length rules];
          cover_order = std_sort (\<lambda>ia ib. wider_rule (rules ! ia) (rules ! ib)) order;
          (covered, cover) = fold (cover_step st) cover_order ({}, []);
          rules = (if card covered = card escaping then fold (\<lambda>oi rs. rs[oi := (rs ! oi)\<lparr>er_covers_scope := True\<rparr>]) cover rules
                   else rules)
      in map (\<lambda>oi. rules ! oi) order)"

section \<open>The findings\<close>

datatype EscapeDirection = POSITIVE | NEGATIVE

record VarEscape =
  ve_name :: string
  ve_direction :: EscapeDirection
  ve_escaping :: nat
  ve_total :: nat
  ve_all_escape :: bool
  ve_is_aux :: bool
  ve_is_entity_scoped :: bool
  ve_rules :: "EscapeRule list"

text \<open>An absent value is \<open>None\<close>; the fields an unbounded finding never sets are left out.\<close>

record DiagnosticFinding =
  df_clause :: string
  df_suggested_change :: string
  df_amount :: "dbl option"
  df_total :: "int option"
  df_scope :: string
  df_edit_source :: string
  df_group :: string

primrec join :: "string \<Rightarrow> string list \<Rightarrow> string" where
  "join sep [] = []"
| "join sep (s # ss) = (if ss = [] then s else s @ sep @ join sep ss)"

definition rule_text :: "EscapeRule \<Rightarrow> string" where
  "rule_text r = er_column r @ '' = '' @ [CHR 0x27] @ er_value r @ [CHR 0x27]"

definition PrescribeCap :: "VarEscape \<Rightarrow> string" where
  "PrescribeCap ve =
     (let cap = ve_name ve @ '' <= <cap>'';
          scope = map rule_text (filter er_covers_scope (ve_rules ve))
      in if scope = [] then cap
         else if length scope = 1 then cap @ '' WHEN '' @ scope ! 0
         else cap @ '' WHEN ('' @ join '' OR '' scope @ '')'')"

definition escape_findings :: "VarEscape \<Rightarrow> DiagnosticFinding list" where
  "escape_findings ve =
     (let base = \<lparr>df_clause = ve_name ve, df_suggested_change = PrescribeCap ve, df_amount = None, df_total = None,
                   df_scope = [], df_edit_source = (if ve_direction ve = NEGATIVE then ''runaway_-inf'' else ''runaway_+inf''),
                   df_group = []\<rparr>;
          instance_scope = (if ve_is_entity_scoped ve then ''entity'' else ''row'')
      in if ve_is_aux ve \<or> ve_total ve \<le> 1 then [base]
         else if ve_all_escape ve
         then [base\<lparr>df_amount := Some (Fin (real (ve_total ve))), df_total := Some (int (ve_total ve)), df_scope := instance_scope\<rparr>]
         else if ve_rules ve \<noteq> []
         then map (\<lambda>r. base\<lparr>df_group := rule_text r, df_amount := Some (Fin (real (er_escaping r))),
                            df_total := Some (int (er_total r)), df_scope := instance_scope\<rparr>) (ve_rules ve)
         else [base\<lparr>df_amount := Some (Fin (real (ve_escaping ve))), df_total := Some (int (ve_total ve)), df_scope := instance_scope\<rparr>])"

definition BuildUnboundedDiagnostic :: "VarEscape list \<Rightarrow> DiagnosticFinding list" where
  "BuildUnboundedDiagnostic escapes = concat (map escape_findings escapes)"

section \<open>Reading a ray\<close>

record VarAgg =
  va_name :: string
  va_is_aux :: bool
  va_direction :: EscapeDirection
  va_vidx :: idx
  va_instances :: "idx set"

definition va_default :: VarAgg where
  "va_default = \<lparr>va_name = [], va_is_aux = False, va_direction = POSITIVE, va_vidx = 0, va_instances = {}\<rparr>"

text \<open>\<open>by_var[key]\<close>, changed by \<open>f\<close>; a new key starts from the default.\<close>

fun update_by_var :: "idx \<Rightarrow> (VarAgg \<Rightarrow> VarAgg) \<Rightarrow> (idx \<times> VarAgg) list \<Rightarrow> (idx \<times> VarAgg) list" where
  "update_by_var k f [] = [(k, f va_default)]"
| "update_by_var k f ((k', a) # rest) =
     (if k = k' then (k', f a) # rest
      else if k < k' then (k, f va_default) # (k', a) # rest
      else (k', a) # update_by_var k f rest)"

definition agg_column :: "ColumnProvenance \<Rightarrow> dbl \<Rightarrow> VarAgg \<Rightarrow> VarAgg" where
  "agg_column prov rv agg =
     (let agg = (if va_name agg = []
                 then agg\<lparr>va_name := cv_label prov, va_is_aux := (cv_kind prov = AUX_COLUMN),
                          va_direction := (if rv > 0 then POSITIVE else NEGATIVE), va_vidx := the (cv_decide_var_idx prov)\<rparr>
                 else agg)
      in agg\<lparr>va_instances := insert (the (cv_instance prov)) (va_instances agg)\<rparr>)"

definition ray_column :: "dbl list \<Rightarrow> ColumnProvenance list \<Rightarrow> idx \<Rightarrow> (idx \<times> VarAgg) list \<Rightarrow> (idx \<times> VarAgg) list" where
  "ray_column ray columns col by_var =
     (let rv = ray ! col; prov = columns ! col
      in if \<bar>rv\<bar> \<le> Fin (1 / 10 ^ 8) then by_var
         else if cv_kind prov = GLOBAL_AUX \<or> cv_label prov = [] \<or> cv_decide_var_idx prov = None then by_var
         else update_by_var (the (cv_decide_var_idx prov)) (agg_column prov rv) by_var)"

record UnboundedInput =
  ui_ray :: "dbl list"
  ui_indexer :: VarIndexer
  ui_var_labels :: "string list"
  ui_var_is_aux :: "bool list"
  ui_escape_rate :: dbl
  ui_get_candidates :: "(idx \<Rightarrow> nat \<Rightarrow> ColumnGrouping list) option"

definition var_escape :: "UnboundedInput \<Rightarrow> VarAgg \<Rightarrow> VarEscape" where
  "var_escape input agg =
     (let total = NumInstances (ui_indexer input) (va_vidx agg);
          escaping = card (va_instances agg)
      in \<lparr>ve_name = va_name agg, ve_direction = va_direction agg, ve_escaping = escaping, ve_total = total,
          ve_all_escape = (escaping \<ge> total), ve_is_aux = va_is_aux agg,
          ve_is_entity_scoped = (vi_var_scope (ui_indexer input) ! va_vidx agg = ENTITY),
          ve_rules = (case ui_get_candidates input of
              None \<Rightarrow> []
            | Some get_candidates \<Rightarrow>
                if \<not> va_is_aux agg \<and> escaping < total \<and> total > 1
                then CharacterizeEscape (va_instances agg) (get_candidates (va_vidx agg) total) (ui_escape_rate input)
                else [])\<rparr>)"

text \<open>\<open>None\<close> where the diagnosis is not valid.\<close>

definition DiagnoseUnbounded :: "UnboundedInput \<Rightarrow> DiagnosticFinding list option" where
  "DiagnoseUnbounded input =
     (if ui_ray input = [] then None
      else let columns = BuildColumnProvenance (ui_indexer input) (ui_var_labels input) (ui_var_is_aux input) [];
               by_var = fold (ray_column (ui_ray input) columns) [0..<min (length (ui_ray input)) (length columns)] [];
               escapes = map (\<lambda>kv. var_escape input (snd kv)) by_var
           in if escapes = [] then None else Some (BuildUnboundedDiagnostic escapes))"

section \<open>Sorting\<close>

lemma insert_by_facts: "set (insert_by before x ys) = insert x (set ys)" "length (insert_by before x ys) = Suc (length ys)"
  "mset (insert_by before x ys) = add_mset x (mset ys)"
  by (induction ys) auto

lemma std_sort_mset: "mset (std_sort before xs) = mset xs"
  unfolding std_sort_def by (induction xs) (simp_all add: insert_by_facts)

lemma std_sort_facts: "set (std_sort before xs) = set xs" "length (std_sort before xs) = length xs"
  by (rule mset_eq_setD [OF std_sort_mset], rule mset_eq_length [OF std_sort_mset])

section \<open>What a rule says\<close>

text \<open>The instances of a group, and those of them that escape.\<close>

definition in_group :: "ColumnGrouping \<Rightarrow> idx \<Rightarrow> idx list" where
  "in_group cg g = filter (\<lambda>i. cg_instance_to_group cg ! i = Some g) [0..<length (cg_instance_to_group cg)]"

lemma member_loop:
  assumes "fold (count_instance escaping cg) is (tc, em) = (tc', em')" "length tc = length (cg_group_value cg)" "length em = length tc"
    and "g < length tc"
  shows "tc' ! g = tc ! g + length (filter (\<lambda>i. cg_instance_to_group cg ! i = Some g) is) \<and>
    em' ! g = em ! g @ filter (\<lambda>i. cg_instance_to_group cg ! i = Some g \<and> i \<in> escaping) is"
  using assms
proof (induction "is" arbitrary: tc em)
  case (Cons i "is")
  obtain tc1 em1 where step: "count_instance escaping cg i (tc, em) = (tc1, em1)" by fastforce
  have len: "length tc1 = length tc" "length em1 = length em"
    using step by (auto simp: count_instance_def split: option.splits if_splits)
  have at: "tc1 ! g = tc ! g + (if cg_instance_to_group cg ! i = Some g then 1 else 0)"
    "em1 ! g = em ! g @ (if cg_instance_to_group cg ! i = Some g \<and> i \<in> escaping then [i] else [])"
    using step Cons.prems(2-4) by (auto simp: count_instance_def nth_list_update split: option.splits if_splits)
  have rest: "fold (count_instance escaping cg) is (tc1, em1) = (tc', em')" using Cons.prems(1) step by simp
  show ?case using Cons.IH [OF rest] Cons.prems(2-4) len at by simp
qed simp

text \<open>A rule of a group: its instances, at a rate that clears the threshold.\<close>

definition rule_of :: "idx set \<Rightarrow> dbl \<Rightarrow> ColumnGrouping \<Rightarrow> idx \<Rightarrow> EscapeRule \<Rightarrow> idx list \<Rightarrow> bool" where
  "rule_of escaping threshold cg g r members \<longleftrightarrow>
     g < length (cg_group_value cg) \<and> members = filter (\<lambda>i. i \<in> escaping) (in_group cg g) \<and> members \<noteq> [] \<and>
     er_column r = cg_column cg \<and> er_value r = cg_group_value cg ! g \<and>
     er_escaping r = length members \<and> er_total r = length (in_group cg g) \<and>
     \<not> Fin (real (length members)) / Fin (real (length (in_group cg g))) + Fin (1 / 10 ^ 12) < threshold"

definition escape_inv :: "idx set \<Rightarrow> dbl \<Rightarrow> ColumnGrouping set \<Rightarrow> EscapeState \<Rightarrow> bool" where
  "escape_inv escaping threshold cgs st \<longleftrightarrow>
     length (es_members st) = length (es_rules st) \<and> length (es_referenced st) = length (es_rules st) \<and>
     (\<forall>k < length (es_rules st). \<not> er_covers_scope (es_rules st ! k) \<and>
        (\<exists>cg \<in> cgs. \<exists>g. rule_of escaping threshold cg g (es_rules st ! k) (es_members st ! k))) \<and>
     (\<forall>m k. es_by_members st m = Some k \<longrightarrow> k < length (es_rules st) \<and> es_members st ! k = m)"

lemma escape_group_inv:
  assumes inv: "escape_inv escaping threshold cgs st" and cg: "cg \<in> cgs" and g: "g < length (cg_group_value cg)"
    and tc: "tc ! g = length (in_group cg g)" and em: "em ! g = filter (\<lambda>i. i \<in> escaping) (in_group cg g)"
  shows "escape_inv escaping threshold cgs (escape_group threshold cg tc em g st)"
proof -
  let ?m = "filter (\<lambda>i. i \<in> escaping) (in_group cg g)"
  let ?r = "\<lparr>er_column = cg_column cg, er_value = cg_group_value cg ! g,
     er_escaping = length ?m, er_total = length (in_group cg g), er_covers_scope = False\<rparr>"
  show ?thesis
  proof (cases "tc ! g = 0 \<or> em ! g = [] \<or> Fin (real (length (em ! g))) / Fin (real (tc ! g)) + Fin (1 / 10 ^ 12) < threshold")
    case True
    then have "escape_group threshold cg tc em g st = st" by (auto simp: escape_group_def Let_def)
    with inv show ?thesis by simp
  next
    case False
    then have rule: "rule_of escaping threshold cg g ?r ?m" using g tc em by (auto simp: rule_of_def)
    show ?thesis
    proof (cases "es_by_members st ?m")
      case None
      then have "escape_group threshold cg tc em g st = st\<lparr>es_rules := es_rules st @ [?r], es_members := es_members st @ [?m],
          es_referenced := es_referenced st @ [cg_clause_referenced cg],
          es_by_members := (es_by_members st)(?m \<mapsto> length (es_rules st))\<rparr>"
        using False tc em None by (auto simp: escape_group_def Let_def)
      then show ?thesis
        using inv rule cg by (auto simp: escape_inv_def nth_append less_Suc_eq)
    next
      case (Some k)
      then have k: "k < length (es_rules st)" "es_members st ! k = ?m" using inv by (auto simp: escape_inv_def)
      have "escape_group threshold cg tc em g st =
          (if cg_clause_referenced cg \<and> \<not> es_referenced st ! k
           then st\<lparr>es_referenced := (es_referenced st)[k := True], es_rules := (es_rules st)[k := ?r]\<rparr> else st)"
        using False tc em Some by (auto simp: escape_group_def Let_def)
      then show ?thesis
        using inv rule cg k by (auto simp: escape_inv_def nth_list_update)
    qed
  qed
qed

lemma escape_column_inv:
  assumes "escape_inv escaping threshold cgs st" "cg \<in> cgs"
  shows "escape_inv escaping threshold cgs (escape_column escaping threshold cg st)"
proof (cases "length (cg_group_value cg) = 0")
  case False
  let ?n = "length (cg_group_value cg)"
  obtain tc em where counts: "fold (count_instance escaping cg) [0..<length (cg_instance_to_group cg)] (replicate ?n 0, replicate ?n []) = (tc, em)"
    by fastforce
  have at: "tc ! g = length (in_group cg g)" "em ! g = filter (\<lambda>i. i \<in> escaping) (in_group cg g)" if "g < ?n" for g
    using member_loop [OF counts, of g] that by (simp_all add: in_group_def conj_commute)
  have "escape_inv escaping threshold cgs (fold (escape_group threshold cg tc em) gs st')"
    if "set gs \<subseteq> {..<?n}" "escape_inv escaping threshold cgs st'" for gs st'
    using that
  proof (induction gs arbitrary: st')
    case (Cons g gs)
    then have "g < ?n" by simp
    then have "escape_inv escaping threshold cgs (escape_group threshold cg tc em g st')"
      using escape_group_inv [OF Cons.prems(2) assms(2)] at by blast
    then show ?case using Cons.IH Cons.prems(1) by simp
  qed simp
  from this [of "[0..<?n]" st] assms(1)
  have "escape_inv escaping threshold cgs (fold (escape_group threshold cg tc em) [0..<?n] st)" by (simp add: atLeast0LessThan)
  moreover have "escape_column escaping threshold cg st = fold (escape_group threshold cg tc em) [0..<?n] st"
    using False counts by (simp add: escape_column_def Let_def)
  ultimately show ?thesis by simp
qed (use assms(1) in \<open>simp add: escape_column_def\<close>)

section \<open>The cover\<close>

text \<open>The instances that \<open>column = 'value'\<close> selects.\<close>

definition matches :: "ColumnGrouping list \<Rightarrow> EscapeRule \<Rightarrow> idx \<Rightarrow> bool" where
  "matches candidates r i \<longleftrightarrow> (\<exists>cg \<in> set candidates. cg_column cg = er_column r \<and>
     (\<exists>g < length (cg_group_value cg). i \<in> set (in_group cg g) \<and> cg_group_value cg ! g = er_value r))"

definition well_grouped :: "ColumnGrouping list \<Rightarrow> bool" where
  "well_grouped candidates \<longleftrightarrow> distinct (map cg_column candidates) \<and> (\<forall>cg \<in> set candidates. distinct (cg_group_value cg))"

lemma rule_matches:
  assumes "well_grouped candidates" "cg \<in> set candidates" "rule_of escaping threshold cg g r members"
  shows "{i. matches candidates r i} = set (in_group cg g)"
proof -
  have one: "cg' = cg" if "cg' \<in> set candidates" "cg_column cg' = cg_column cg" for cg'
    using assms(1,2) that by (auto simp: well_grouped_def distinct_map dest: inj_onD)
  have two: "g' = g" if "g' < length (cg_group_value cg)" "cg_group_value cg ! g' = cg_group_value cg ! g" for g'
    using assms that by (auto simp: well_grouped_def rule_of_def nth_eq_iff_index_eq)
  have r: "g < length (cg_group_value cg)" "er_column r = cg_column cg" "er_value r = cg_group_value cg ! g"
    using assms(3) by (simp_all add: rule_of_def)
  have "matches candidates r i \<longleftrightarrow> i \<in> set (in_group cg g)" for i
  proof
    assume "matches candidates r i"
    then obtain cg' g' where "cg' \<in> set candidates" "cg_column cg' = cg_column cg" "g' < length (cg_group_value cg')"
        "i \<in> set (in_group cg' g')" "cg_group_value cg' ! g' = cg_group_value cg ! g"
      unfolding matches_def r by blast
    then show "i \<in> set (in_group cg g)" using one two by metis
  next
    assume "i \<in> set (in_group cg g)"
    then show "matches candidates r i" unfolding matches_def r using assms(2) r(1) by blast
  qed
  then show ?thesis by auto
qed

lemma in_group_distinct: "distinct (in_group cg g)"
  by (simp add: in_group_def)

lemma rule_counts:
  assumes "well_grouped candidates" "cg \<in> set candidates" "rule_of escaping threshold cg g r members"
  shows "er_total r = card {i. matches candidates r i}" "er_escaping r = card {i \<in> escaping. matches candidates r i}"
    "0 < er_escaping r"
    "er_escaping r = er_total r \<Longrightarrow> set members = {i. matches candidates r i}"
proof -
  note same = rule_matches [OF assms]
  have mem: "members = filter (\<lambda>i. i \<in> escaping) (in_group cg g)" "er_total r = length (in_group cg g)" "er_escaping r = length members"
    "members \<noteq> []"
    using assms(3) by (auto simp: rule_of_def)
  show "er_total r = card {i. matches candidates r i}" unfolding same mem(2) by (simp add: distinct_card in_group_distinct)
  have "{i \<in> escaping. matches candidates r i} = set members" using same mem(1) by auto
  then show "er_escaping r = card {i \<in> escaping. matches candidates r i}"
    unfolding mem(3) using distinct_card [of members] by (simp add: mem(1) in_group_distinct)
  show "0 < er_escaping r" using mem by simp
  assume "er_escaping r = er_total r"
  then have "members = in_group cg g" unfolding mem(1,2,3) by (metis filter_id_conv length_filter_less less_irrefl)
  then show "set members = {i. matches candidates r i}" using same by simp
qed

lemma cover_loop:
  assumes "fold (cover_step st) ois (covered, cover) = (covered', cover')"
    and "covered = (\<Union>oi \<in> set cover. set (es_members st ! oi))" "\<forall>oi \<in> set cover. er_escaping (es_rules st ! oi) = er_total (es_rules st ! oi)"
  shows "covered' = (\<Union>oi \<in> set cover'. set (es_members st ! oi)) \<and> set cover' \<subseteq> set cover \<union> set ois \<and>
    (\<forall>oi \<in> set cover'. er_escaping (es_rules st ! oi) = er_total (es_rules st ! oi))"
  using assms
proof (induction ois arbitrary: covered cover)
  case (Cons oi ois)
  show ?case
  proof (cases "er_escaping (es_rules st ! oi) \<noteq> er_total (es_rules st ! oi) \<or> \<not> list_ex (\<lambda>m. m \<notin> covered) (es_members st ! oi)")
    case True
    then have "cover_step st oi (covered, cover) = (covered, cover)" by (auto simp: cover_step_def)
    then show ?thesis using Cons.IH [of covered cover] Cons.prems by auto
  next
    case False
    then have "cover_step st oi (covered, cover) = (covered \<union> set (es_members st ! oi), cover @ [oi])" by (auto simp: cover_step_def)
    then have "fold (cover_step st) ois (covered \<union> set (es_members st ! oi), cover @ [oi]) = (covered', cover')"
      using Cons.prems(1) by simp
    moreover have "covered \<union> set (es_members st ! oi) = (\<Union>oi \<in> set (cover @ [oi]). set (es_members st ! oi))"
      unfolding Cons.prems(2) by auto
    moreover have "\<forall>oi \<in> set (cover @ [oi]). er_escaping (es_rules st ! oi) = er_total (es_rules st ! oi)"
      using Cons.prems(3) False by simp
    ultimately have "covered' = (\<Union>oi \<in> set cover'. set (es_members st ! oi)) \<and> set cover' \<subseteq> set (cover @ [oi]) \<union> set ois \<and>
        (\<forall>oi \<in> set cover'. er_escaping (es_rules st ! oi) = er_total (es_rules st ! oi))"
      by (rule Cons.IH)
    then show ?thesis by simp
  qed
qed simp

lemma flag_loop:
  "length (fold (\<lambda>oi rs. rs[oi := (rs ! oi)\<lparr>er_covers_scope := True\<rparr>]) cover rules) = length rules"
  "k < length rules \<Longrightarrow> fold (\<lambda>oi rs. rs[oi := (rs ! oi)\<lparr>er_covers_scope := True\<rparr>]) cover rules ! k =
     (if k \<in> set cover then (rules ! k)\<lparr>er_covers_scope := True\<rparr> else rules ! k)"
proof -
  show "length (fold (\<lambda>oi rs. rs[oi := (rs ! oi)\<lparr>er_covers_scope := True\<rparr>]) cover rules) = length rules"
    by (induction cover arbitrary: rules) simp_all
  show "k < length rules \<Longrightarrow> fold (\<lambda>oi rs. rs[oi := (rs ! oi)\<lparr>er_covers_scope := True\<rparr>]) cover rules ! k =
     (if k \<in> set cover then (rules ! k)\<lparr>er_covers_scope := True\<rparr> else rules ! k)"
  proof (induction cover arbitrary: rules)
    case (Cons a cover)
    then show ?case by (cases "a = k") simp_all
  qed simp
qed

lemma matches_flag: "matches candidates (r\<lparr>er_covers_scope := b\<rparr>) i = matches candidates r i"
  by (simp add: matches_def)

text \<open>
  What \<open>CharacterizeEscape\<close> returns: the rules the loop collected, those with a number in \<open>on\<close> flagged,
  which have a full rate and together select as many instances as escape.
\<close>

lemma characterize_parts:
  assumes rules: "rules = CharacterizeEscape escaping candidates threshold"
  obtains st and on where "escape_inv escaping threshold (set candidates) st"
    and "set rules = (\<lambda>k. (es_rules st ! k)\<lparr>er_covers_scope := (k \<in> on)\<rparr>) ` {..<length (es_rules st)}" "on \<subseteq> {..<length (es_rules st)}"
    and "\<forall>k \<in> on. er_escaping (es_rules st ! k) = er_total (es_rules st ! k)"
    and "on \<noteq> {} \<Longrightarrow> card (\<Union>k \<in> on. set (es_members st ! k)) = card escaping"
proof -
  define st where "st = fold (escape_column escaping threshold) candidates
    \<lparr>es_rules = [], es_members = [], es_referenced = [], es_by_members = (\<lambda>_. None)\<rparr>"
  let ?R = "es_rules st"
  define order where "order = std_sort (\<lambda>ia ib. stronger_rule (?R ! ia) (?R ! ib)) [0..<length ?R]"
  obtain covered cover where cover: "fold (cover_step st) (std_sort (\<lambda>ia ib. wider_rule (?R ! ia) (?R ! ib)) order) ({}, []) = (covered, cover)"
    by fastforce
  define on where "on = (if card covered = card escaping then set cover else {})"
  define flagged where "flagged = (if card covered = card escaping
    then fold (\<lambda>oi rs. rs[oi := (rs ! oi)\<lparr>er_covers_scope := True\<rparr>]) cover ?R else ?R)"
  have inv: "escape_inv escaping threshold (set candidates) st"
  proof -
    have "escape_inv escaping threshold (set candidates) (fold (escape_column escaping threshold) cgs st')"
      if "set cgs \<subseteq> set candidates" "escape_inv escaping threshold (set candidates) st'" for cgs st'
      using that by (induction cgs arbitrary: st') (simp_all add: escape_column_inv)
    then show ?thesis by (simp add: st_def escape_inv_def)
  qed
  have "rules = map (\<lambda>oi. flagged ! oi) order"
    unfolding rules CharacterizeEscape_def Let_def st_def [symmetric] order_def [symmetric] by (simp add: cover flagged_def)
  moreover have order: "set order = {..<length ?R}" by (auto simp: order_def std_sort_facts)
  moreover have "flagged ! k = (?R ! k)\<lparr>er_covers_scope := (k \<in> on)\<rparr>" if "k < length ?R" for k
  proof -
    have "(?R ! k)\<lparr>er_covers_scope := False\<rparr> = ?R ! k" using inv that by (simp add: escape_inv_def)
    then show ?thesis using that by (simp add: flagged_def flag_loop on_def)
  qed
  ultimately have "set rules = (\<lambda>k. (?R ! k)\<lparr>er_covers_scope := (k \<in> on)\<rparr>) ` {..<length ?R}" by auto
  then show thesis
    using cover_loop [OF cover] order that [OF inv, of on]
    by (cases "card covered = card escaping") (auto simp: on_def std_sort_facts)
qed

lemma rule_facts:
  assumes well: "well_grouped candidates" and inv: "escape_inv escaping threshold (set candidates) st" and k: "k < length (es_rules st)"
  defines "r \<equiv> es_rules st ! k"
  shows "er_total r = card {i. matches candidates r i}" "er_escaping r = card {i \<in> escaping. matches candidates r i}" "0 < er_escaping r"
    "\<not> Fin (real (er_escaping r)) / Fin (real (er_total r)) + Fin (1 / 10 ^ 12) < threshold"
    "er_escaping r = er_total r \<Longrightarrow> set (es_members st ! k) = {i. matches candidates r i} \<and> set (es_members st ! k) \<subseteq> escaping"
proof -
  obtain cg g where cg: "cg \<in> set candidates" "rule_of escaping threshold cg g r (es_members st ! k)"
    using inv k unfolding escape_inv_def r_def by blast
  show "er_total r = card {i. matches candidates r i}" "er_escaping r = card {i \<in> escaping. matches candidates r i}" "0 < er_escaping r"
    by (rule rule_counts [OF well cg])+
  show "\<not> Fin (real (er_escaping r)) / Fin (real (er_total r)) + Fin (1 / 10 ^ 12) < threshold"
    using cg(2) unfolding rule_of_def by metis
  have "set (es_members st ! k) \<subseteq> escaping" using cg(2) by (auto simp: rule_of_def)
  then show "er_escaping r = er_total r \<Longrightarrow> set (es_members st ! k) = {i. matches candidates r i} \<and> set (es_members st ! k) \<subseteq> escaping"
    using rule_counts(4) [OF well cg] by blast
qed

text \<open>
  C14. The cap is scoped to exactly the runaway rows. Every rule that is reported counts the instances
  its condition selects and the escaping ones among them, and clears the threshold; and if the rules
  are said to cover the escape, the conditions of those that do select the escaping instances and no
  other.
\<close>

theorem escape_cover_exact:
  fixes threshold :: dbl
  assumes fin: "finite escaping" and well: "well_grouped candidates"
  defines "rules \<equiv> CharacterizeEscape escaping candidates threshold"
  shows "(\<forall>r \<in> set rules. er_total r = card {i. matches candidates r i} \<and>
       er_escaping r = card {i \<in> escaping. matches candidates r i} \<and> 0 < er_escaping r \<and>
       \<not> Fin (real (er_escaping r)) / Fin (real (er_total r)) + Fin (1 / 10 ^ 12) < threshold) \<and>
    ((\<exists>r \<in> set rules. er_covers_scope r) \<longrightarrow>
       {i. \<exists>r \<in> set rules. er_covers_scope r \<and> matches candidates r i} = escaping)"
proof -
  obtain st on where inv: "escape_inv escaping threshold (set candidates) st"
    and set: "set rules = (\<lambda>k. (es_rules st ! k)\<lparr>er_covers_scope := (k \<in> on)\<rparr>) ` {..<length (es_rules st)}"
    and on: "on \<subseteq> {..<length (es_rules st)}" "\<forall>k \<in> on. er_escaping (es_rules st ! k) = er_total (es_rules st ! k)"
    and card: "on \<noteq> {} \<Longrightarrow> card (\<Union>k \<in> on. set (es_members st ! k)) = card escaping"
    using characterize_parts [of rules] unfolding rules_def by blast
  note facts = rule_facts [OF well inv]
  have all: "er_total r = card {i. matches candidates r i} \<and> er_escaping r = card {i \<in> escaping. matches candidates r i} \<and>
      0 < er_escaping r \<and> \<not> Fin (real (er_escaping r)) / Fin (real (er_total r)) + Fin (1 / 10 ^ 12) < threshold"
    if "r \<in> set rules" for r
  proof -
    from that obtain k where k: "k < length (es_rules st)" "r = (es_rules st ! k)\<lparr>er_covers_scope := (k \<in> on)\<rparr>" by (auto simp: set)
    then have fields: "er_total r = er_total (es_rules st ! k)" "er_escaping r = er_escaping (es_rules st ! k)"
      "matches candidates r = matches candidates (es_rules st ! k)"
      by (simp_all add: matches_flag fun_eq_iff)
    show ?thesis unfolding fields by (intro conjI facts(1-4) k)
  qed
  have members: "set (es_members st ! k) = {i. matches candidates (es_rules st ! k) i} \<and> set (es_members st ! k) \<subseteq> escaping"
    if "k \<in> on" for k using facts(5) on that by blast
  have "{i. \<exists>r \<in> set rules. er_covers_scope r \<and> matches candidates r i} = (\<Union>k \<in> on. set (es_members st ! k))"
    unfolding set using on(1) members by (auto simp: matches_flag)
  moreover have "(\<Union>k \<in> on. set (es_members st ! k)) = escaping" if "on \<noteq> {}"
    using card_subset_eq [OF fin _ card [OF that]] members by blast
  moreover have "on \<noteq> {}" if "\<exists>r \<in> set rules. er_covers_scope r" using that unfolding set by auto
  ultimately show ?thesis using all by blast
qed

text \<open>Rows 0 and 1 escape, and they are the region B.\<close>

definition demo_region :: ColumnGrouping where
  "demo_region = \<lparr>cg_column = ''region'', cg_instance_to_group = [Some 0, Some 0, Some 1], cg_group_value = [''B'', ''C''],
     cg_clause_referenced = False\<rparr>"

lemma demo_region_rules: "CharacterizeEscape {0, 1} [demo_region] (Fin (8 / 10)) =
    [\<lparr>er_column = ''region'', er_value = ''B'', er_escaping = 2, er_total = 2, er_covers_scope = True\<rparr>]"
  by (simp add: CharacterizeEscape_def demo_region_def escape_column_def count_instance_def escape_group_def cover_step_def
      std_sort_def upt_rec dbl_arith Let_def numeral_2_eq_2)

lemma escape_cover_exact_witness:
  "{i. \<exists>r \<in> set (CharacterizeEscape {0, 1} [demo_region] (Fin (8 / 10))). er_covers_scope r \<and> matches [demo_region] r i} = {0, 1}"
proof -
  have "well_grouped [demo_region]" by (simp add: well_grouped_def demo_region_def)
  from conjunct2 [OF escape_cover_exact [OF _ this, of "{0, 1}" "Fin (8 / 10)"]] show ?thesis
    unfolding demo_region_rules by simp
qed

end
