(* ===== verification/EscapeReport.thy ===== *)
theory EscapeReport
  imports EscapeRules
begin

text \<open>
  What the report on an unbounded query says about the ray it was made from: \<open>DiagnoseUnbounded\<close> names
  exactly the variables with a moving column, and counts their moving instances.
\<close>

section \<open>The columns\<close>

lemma no_globals: "BuildColumnProvenance indexer labels aux [] =
    fold (\<lambda>v. fold (provenance_row indexer labels aux v) [0..<vi_num_rows indexer]) [0..<length labels]
      (replicate (vi_total_vars indexer) cv_default)"
  by (simp add: BuildColumnProvenance_def)

lemma column_cases:
  assumes ok: "indexable si" and labels: "length labels = si_num_decide_vars si" and c: "c < vi_total_vars (BuildIndexer si)"
  shows "(\<exists>v < si_num_decide_vars si. \<exists>r < si_num_rows si. c = Get (BuildIndexer si) v r \<and>
      BuildColumnProvenance (BuildIndexer si) labels aux [] ! c = column_entry si labels aux v r) \<or>
    BuildColumnProvenance (BuildIndexer si) labels aux [] ! c = cv_default"
proof (cases "\<exists>v < si_num_decide_vars si. \<exists>r < si_num_rows si. c = Get (BuildIndexer si) v r")
  case True
  then show ?thesis using provenance_entry [OF ok labels] by blast
next
  case False
  have "c \<notin> (\<lambda>a. case a of (v, r) \<Rightarrow> Get (BuildIndexer si) v r) `
      set (List.product [0..<length labels] [0..<si_num_rows si])"
  proof
    assume "c \<in> (\<lambda>a. case a of (v, r) \<Rightarrow> Get (BuildIndexer si) v r) `
      set (List.product [0..<length labels] [0..<si_num_rows si])"
    then obtain v r where "v < si_num_decide_vars si" "r < si_num_rows si" "c = Get (BuildIndexer si) v r"
      using labels by auto
    with False show False by blast
  qed
  then show ?thesis
    unfolding no_globals BuildIndexer_fields(1) provenance_loop [OF labels] using c by (simp add: fold_writes_other)
qed

lemma columns_length:
  assumes "length labels = si_num_decide_vars si"
  shows "length (BuildColumnProvenance (BuildIndexer si) labels aux []) = vi_total_vars (BuildIndexer si)"
  unfolding no_globals BuildIndexer_fields(1) provenance_loop [OF assms] by (simp add: fold_writes_length)

section \<open>The loop over the ray\<close>

lemma update_by_var_facts:
  assumes "sorted_wrt (<) (map fst m)"
  shows "map_of (update_by_var k f m) = (map_of m)(k \<mapsto> f (case map_of m k of None \<Rightarrow> va_default | Some a \<Rightarrow> a)) \<and>
    sorted_wrt (<) (map fst (update_by_var k f m)) \<and> set (map fst (update_by_var k f m)) = insert k (set (map fst m))"
  using assms
proof (induction m)
  case (Cons p m)
  obtain k' a where p: "p = (k', a)" by fastforce
  have "map_of m k = None" if "k < k'"
    using Cons.prems that by (auto simp: p map_of_eq_None_iff)
  then show ?case using Cons by (auto simp: p fun_eq_iff)
qed simp

text \<open>The instances of a variable whose column, among those in \<open>cs\<close>, moves along the ray.\<close>

definition moves :: "dbl list \<Rightarrow> idx \<Rightarrow> bool" where
  "moves ray c \<longleftrightarrow> \<not> \<bar>ray ! c\<bar> \<le> Fin (1 / 10 ^ 8)"

definition moving :: "SolverInput \<Rightarrow> dbl list \<Rightarrow> idx set \<Rightarrow> idx \<Rightarrow> idx set" where
  "moving si ray cs v = {i. v < si_num_decide_vars si \<and> (\<exists>r < si_num_rows si. i = instance_of si v r \<and>
     Get (BuildIndexer si) v r \<in> cs \<and> moves ray (Get (BuildIndexer si) v r))}"

definition var_inv :: "SolverInput \<Rightarrow> string list \<Rightarrow> bool list \<Rightarrow> dbl list \<Rightarrow> idx set \<Rightarrow> (idx \<times> VarAgg) list \<Rightarrow> bool" where
  "var_inv si labels aux ray cs by_var \<longleftrightarrow> sorted_wrt (<) (map fst by_var) \<and>
     (\<forall>v. case map_of by_var v of
            None \<Rightarrow> moving si ray cs v = {}
          | Some a \<Rightarrow> va_name a = labels ! v \<and> va_vidx a = v \<and> va_instances a = moving si ray cs v \<and> moving si ray cs v \<noteq> {} \<and>
              (va_is_aux a \<longleftrightarrow> v < length aux \<and> aux ! v))"

lemma moving_same: "\<not> moves ray c \<or> (\<forall>v < si_num_decide_vars si. \<forall>r < si_num_rows si. Get (BuildIndexer si) v r \<noteq> c) \<Longrightarrow>
    moving si ray (insert c cs) v = moving si ray cs v"
  unfolding moving_def by auto

lemma ray_column_inv:
  assumes ok: "indexable si" and labels: "length labels = si_num_decide_vars si" "\<forall>l \<in> set labels. l \<noteq> []"
    and c: "c < vi_total_vars (BuildIndexer si)" and inv: "var_inv si labels aux ray cs by_var"
  shows "var_inv si labels aux ray (insert c cs)
    (ray_column ray (BuildColumnProvenance (BuildIndexer si) labels aux []) c by_var)"
proof -
  let ?cols = "BuildColumnProvenance (BuildIndexer si) labels aux []"
  consider "\<not> moves ray c" | "?cols ! c = cv_default" | v r where "moves ray c" "v < si_num_decide_vars si" "r < si_num_rows si"
      "c = Get (BuildIndexer si) v r" "?cols ! c = column_entry si labels aux v r"
    using column_cases [OF ok labels(1) c] by blast
  then show ?thesis
  proof cases
    case 1
    then have "ray_column ray ?cols c by_var = by_var" by (simp add: ray_column_def moves_def Let_def)
    moreover have same: "moving si ray (insert c cs) v = moving si ray cs v" for v by (intro moving_same) (use 1 in blast)
    ultimately show ?thesis using inv unfolding var_inv_def same by simp
  next
    case 2
    have "Get (BuildIndexer si) v r \<noteq> c" if "v < si_num_decide_vars si" "r < si_num_rows si" for v r
    proof
      assume "Get (BuildIndexer si) v r = c"
      then have "?cols ! c = column_entry si labels aux v r" using provenance_entry [OF ok labels(1) that] by blast
      with 2 show False by (simp add: cv_default_def column_entry_def)
    qed
    then have same: "moving si ray (insert c cs) v = moving si ray cs v" for v by (intro moving_same) blast
    have "ray_column ray ?cols c by_var = by_var" using 2 by (simp add: ray_column_def cv_default_def Let_def)
    then show ?thesis using inv unfolding var_inv_def same by simp
  next
    case (3 v r)
    have label: "labels ! v \<noteq> []" using labels 3(2) by auto
    have step: "ray_column ray ?cols c by_var = update_by_var v (agg_column (column_entry si labels aux v r) (ray ! c)) by_var"
      using 3 label by (simp add: ray_column_def moves_def column_entry_def Let_def)
    have moved: "moving si ray (insert c cs) w = moving si ray cs w \<union> (if w = v then {instance_of si v r} else {})" for w
    proof -
      have "w = v \<and> instance_of si w s = instance_of si v r"
        if "w < si_num_decide_vars si" "s < si_num_rows si" "Get (BuildIndexer si) w s = c" for s
      proof -
        have "column_entry si labels aux v r = column_entry si labels aux w s"
          using provenance_entry [OF ok labels(1) that(1,2), of aux "[]"] 3(5) that(3) by metis
        then show ?thesis by (auto simp: column_entry_def)
      qed
      then show ?thesis using 3(1-4) unfolding moving_def by auto
    qed
    note upd = update_by_var_facts [of by_var v "agg_column (column_entry si labels aux v r) (ray ! c)"]
    have at: "case map_of by_var w of None \<Rightarrow> moving si ray cs w = {}
        | Some a \<Rightarrow> va_name a = labels ! w \<and> va_vidx a = w \<and> va_instances a = moving si ray cs w \<and> moving si ray cs w \<noteq> {} \<and>
            (va_is_aux a \<longleftrightarrow> w < length aux \<and> aux ! w)" for w
      using inv by (simp add: var_inv_def)
    show ?thesis
      unfolding var_inv_def step
    proof (intro conjI allI)
      show "sorted_wrt (<) (map fst (update_by_var v (agg_column (column_entry si labels aux v r) (ray ! c)) by_var))"
        using upd inv by (simp add: var_inv_def)
      fix w
      show "case map_of (update_by_var v (agg_column (column_entry si labels aux v r) (ray ! c)) by_var) w of
          None \<Rightarrow> moving si ray (insert c cs) w = {}
        | Some a \<Rightarrow> va_name a = labels ! w \<and> va_vidx a = w \<and> va_instances a = moving si ray (insert c cs) w \<and>
            moving si ray (insert c cs) w \<noteq> {} \<and> (va_is_aux a \<longleftrightarrow> w < length aux \<and> aux ! w)"
        using at [of w] upd inv label unfolding moved
        by (cases "w = v"; cases "map_of by_var w")
           (auto simp: var_inv_def agg_column_def va_default_def column_entry_def Let_def)
    qed
  qed
qed

text \<open>Every moving column is below the number of columns, so after the loop \<open>cs\<close> holds all of them.\<close>

lemma moving_all:
  assumes "indexable si"
  shows "moving si ray {..<vi_total_vars (BuildIndexer si)} v = moving si ray UNIV v"
proof -
  have "Get (BuildIndexer si) v r < vi_total_vars (BuildIndexer si)" if "v < si_num_decide_vars si" "r < si_num_rows si" for r
    using num.at_row_lt [OF assms that] by (simp add: BuildIndexer_fields)
  then show ?thesis unfolding moving_def by auto
qed

lemma ray_loop:
  assumes ok: "indexable si" and labels: "length labels = si_num_decide_vars si" "\<forall>l \<in> set labels. l \<noteq> []"
    and n: "n \<le> vi_total_vars (BuildIndexer si)"
  shows "var_inv si labels aux ray {..<n} (fold (ray_column ray (BuildColumnProvenance (BuildIndexer si) labels aux [])) [0..<n] [])"
  using n
proof (induction n)
  case 0
  show ?case by (simp add: var_inv_def moving_def)
next
  case (Suc n)
  then have "var_inv si labels aux ray {..<n} (fold (ray_column ray (BuildColumnProvenance (BuildIndexer si) labels aux [])) [0..<n] [])"
    by simp
  from ray_column_inv [OF ok labels _ this] Suc.prems show ?case by (simp add: lessThan_Suc)
qed

lemma moving_card:
  assumes "indexable si" "v < si_num_decide_vars si"
  shows "card (moving si ray cs v) \<le> NumInstances (BuildIndexer si) v"
proof -
  have "moving si ray cs v \<subseteq> {..<NumInstances (BuildIndexer si) v}"
    using instance_of_lt [OF assms(1)] assms(2) by (auto simp: moving_def)
  from card_mono [OF _ this] show ?thesis by simp
qed

section \<open>The findings\<close>

lemma rule_text_nonempty: "rule_text r \<noteq> []"
  by (simp add: rule_text_def)

lemma findings_clause: "df_clause ` set (escape_findings ve) = {ve_name ve}"
  by (auto simp: escape_findings_def Let_def neq_Nil_conv)

lemma findings_amount:
  assumes "f \<in> set (escape_findings ve)" "df_group f = []" "df_amount f \<noteq> None" "ve_escaping ve \<le> ve_total ve"
    "ve_all_escape ve \<longleftrightarrow> ve_escaping ve \<ge> ve_total ve"
  shows "df_amount f = Some (Fin (real (ve_escaping ve))) \<and> df_total f = Some (int (ve_total ve))"
  using assms by (auto simp: escape_findings_def Let_def rule_text_nonempty split: if_splits)

text \<open>The prescribed bound is an upper one in both directions, and a value's quotes are not doubled.\<close>

lemma prescribed_cap_direction: "PrescribeCap (ve\<lparr>ve_direction := d\<rparr>) = PrescribeCap ve"
  by (simp add: PrescribeCap_def)

lemma rule_text_quote:
  "rule_text (r\<lparr>er_column := ''n'', er_value := [CHR 0x27]\<rparr>) = ''n = '' @ replicate 3 (CHR 0x27)"
  by (simp add: rule_text_def numeral_3_eq_3)

text \<open>The aggregates the loop leaves: one for each variable with a moving instance.\<close>

lemma aggregates:
  assumes "var_inv si labels aux ray cs by_var"
  shows "(\<lambda>p. va_name (snd p)) ` set by_var = (!) labels ` {v. moving si ray cs v \<noteq> {}}"
    and "(v, a) \<in> set by_var \<Longrightarrow> va_name a = labels ! v \<and> va_vidx a = v \<and> va_instances a = moving si ray cs v \<and> moving si ray cs v \<noteq> {}"
proof -
  have sorted: "sorted_wrt (<) (map fst by_var)"
    and inv: "\<And>v. case map_of by_var v of
            None \<Rightarrow> moving si ray cs v = {}
          | Some a \<Rightarrow> va_name a = labels ! v \<and> va_vidx a = v \<and> va_instances a = moving si ray cs v \<and> moving si ray cs v \<noteq> {} \<and>
              (va_is_aux a \<longleftrightarrow> v < length aux \<and> aux ! v)"
    using assms unfolding var_inv_def by blast+
  have map: "(v, a) \<in> set by_var \<longleftrightarrow> map_of by_var v = Some a" for v a
    using sorted by (simp add: strict_sorted_iff)
  have entry: "va_name a = labels ! v \<and> va_vidx a = v \<and> va_instances a = moving si ray cs v \<and> moving si ray cs v \<noteq> {}"
    if "(v, a) \<in> set by_var" for v a using inv [of v] that by (simp add: map)
  show "(v, a) \<in> set by_var \<Longrightarrow> va_name a = labels ! v \<and> va_vidx a = v \<and> va_instances a = moving si ray cs v \<and> moving si ray cs v \<noteq> {}"
    by (rule entry)
  have "\<exists>a. (v, a) \<in> set by_var" if "moving si ray cs v \<noteq> {}" for v
    using inv [of v] that by (auto simp: map split: option.splits)
  then show "(\<lambda>p. va_name (snd p)) ` set by_var = (!) labels ` {v. moving si ray cs v \<noteq> {}}"
    using entry by force
qed

text \<open>
  C13. The report on an unbounded query is read off its ray without loss: there is none exactly if no
  instance of a variable moves, otherwise its findings name exactly the variables with a moving
  instance, and a count that is not broken down by a column's values is the number of the variable's
  moving instances out of all its instances.
\<close>

theorem unbounded_report_exact:
  assumes ok: "indexable si" and ix: "ui_indexer u = BuildIndexer si"
    and labels: "length (ui_var_labels u) = si_num_decide_vars si" "\<forall>l \<in> set (ui_var_labels u). l \<noteq> []"
    and ray: "length (ui_ray u) = vi_total_vars (BuildIndexer si)"
  shows "(DiagnoseUnbounded u = None \<longleftrightarrow> (\<forall>v. moving si (ui_ray u) UNIV v = {})) \<and>
    (\<forall>fs. DiagnoseUnbounded u = Some fs \<longrightarrow>
       df_clause ` set fs = (!) (ui_var_labels u) ` {v. moving si (ui_ray u) UNIV v \<noteq> {}} \<and>
       (\<forall>f \<in> set fs. df_group f = [] \<and> df_amount f \<noteq> None \<longrightarrow>
          (\<exists>v < si_num_decide_vars si. df_clause f = ui_var_labels u ! v \<and>
             df_amount f = Some (Fin (real (card (moving si (ui_ray u) UNIV v)))) \<and>
             df_total f = Some (int (NumInstances (BuildIndexer si) v)))))"
proof -
  let ?M = "moving si (ui_ray u) UNIV"
  let ?n = "vi_total_vars (BuildIndexer si)"
  define by_var where "by_var = fold (ray_column (ui_ray u) (BuildColumnProvenance (BuildIndexer si) (ui_var_labels u) (ui_var_is_aux u) [])) [0..<?n] []"
  have inv: "var_inv si (ui_var_labels u) (ui_var_is_aux u) (ui_ray u) {..<?n} by_var"
    unfolding by_var_def by (rule ray_loop [OF ok labels order_refl])
  note agg = aggregates [OF inv, unfolded moving_all [OF ok]]
  have run: "DiagnoseUnbounded u = (if by_var = [] then None else Some (concat (map (\<lambda>p. escape_findings (var_escape u (snd p))) by_var)))"
    using ray by (auto simp: DiagnoseUnbounded_def ix columns_length [OF labels(1)] Let_def by_var_def [symmetric]
        BuildUnboundedDiagnostic_def comp_def) (auto simp: by_var_def)
  have empty: "by_var = [] \<longleftrightarrow> (\<forall>v. ?M v = {})" using agg(1) by auto
  have names: "df_clause ` set (concat (map (\<lambda>p. escape_findings (var_escape u (snd p))) by_var)) = (!) (ui_var_labels u) ` {v. ?M v \<noteq> {}}"
    unfolding agg(1) [symmetric] by (simp add: image_UN findings_clause var_escape_def Let_def UNION_singleton_eq_range)
  have counts: "\<exists>v < si_num_decide_vars si. df_clause f = ui_var_labels u ! v \<and>
      df_amount f = Some (Fin (real (card (?M v)))) \<and> df_total f = Some (int (NumInstances (BuildIndexer si) v))"
    if f: "f \<in> set (concat (map (\<lambda>p. escape_findings (var_escape u (snd p))) by_var))" "df_group f = []" "df_amount f \<noteq> None" for f
  proof -
    obtain v a where va: "(v, a) \<in> set by_var" "f \<in> set (escape_findings (var_escape u a))" using f(1) by force
    note a = agg(2) [OF va(1)]
    then have v: "v < si_num_decide_vars si" by (auto simp: moving_def)
    have fields: "ve_name (var_escape u a) = ui_var_labels u ! v" "ve_escaping (var_escape u a) = card (?M v)"
      "ve_total (var_escape u a) = NumInstances (BuildIndexer si) v"
      "ve_all_escape (var_escape u a) \<longleftrightarrow> card (?M v) \<ge> NumInstances (BuildIndexer si) v"
      using a by (simp_all add: var_escape_def ix Let_def)
    have "df_clause f = ui_var_labels u ! v" using findings_clause [of "var_escape u a"] va(2) fields(1) by auto
    with findings_amount [OF va(2) f(2,3)] moving_card [OF ok v] v show ?thesis by (auto simp: fields)
  qed
  show ?thesis unfolding run using empty names counts by simp
qed

definition demo_ray_input :: UnboundedInput where
  "demo_ray_input = \<lparr>ui_ray = [0, 0, 0, 1, 0, 0], ui_indexer = BuildIndexer demo_input,
     ui_var_labels = [''x'', ''keep'', ''cap''], ui_var_is_aux = [], ui_escape_rate = Fin (8 / 10), ui_get_candidates = None\<rparr>"

lemma demo_sizes:
  "si_num_decide_vars demo_input = 3" "si_num_rows demo_input = 3" "si_num_global_vars demo_input = 0"
  "scope_of demo_input 0 = ROW" "scope_of demo_input 1 = ENTITY" "scope_of demo_input 2 = SCALAR"
  by (simp_all add: demo_input_def si_default_def scope_of_def)

lemma demo_blocks:
  "vars_of demo_input s 0 = []" "vars_of demo_input s 1 = (if s = ROW then [0] else [])"
  "vars_of demo_input s 2 = (if s = ROW then [0] else if s = ENTITY then [1] else [])"
  "vars_of demo_input s 3 = (if s = ROW then [0] else if s = ENTITY then [1] else [2])"
proof -
  have upts: "[0..<0] = ([] :: idx list)" "[0..<1] = [0 :: idx]" "[0..<2] = [0 :: idx, 1]" "[0..<3] = [0 :: idx, 1, 2]"
    by (simp_all add: upt_rec)
  show "vars_of demo_input s 0 = []" "vars_of demo_input s 1 = (if s = ROW then [0] else [])"
    "vars_of demo_input s 2 = (if s = ROW then [0] else if s = ENTITY then [1] else [])"
    "vars_of demo_input s 3 = (if s = ROW then [0] else if s = ENTITY then [1] else [2])"
    by (cases s; simp only: vars_of_def upts filter.simps demo_sizes DecideVarScope.simps if_True if_False simp_thms)+
qed

lemma demo_starts:
  "entity_start demo_input = 3" "scalar_start demo_input = 5" "global_start demo_input = 6" "entity_total demo_input 1 = 0"
  "row_vars demo_input = 1"
proof -
  have "entities_of demo_input 1 = 2" by (simp add: entities_of_def entity_mapping_of_def demo_input_def si_default_def)
  then show "entity_start demo_input = 3" "scalar_start demo_input = 5" "global_start demo_input = 6" "entity_total demo_input 1 = 0"
    "row_vars demo_input = 1"
    by (simp_all only: global_start_def scalar_start_def entity_start_def row_vars_def entity_total_def demo_blocks demo_sizes)
       simp_all
qed

lemma demo_column:
  "Get (BuildIndexer demo_input) 0 r = r" "Get (BuildIndexer demo_input) 1 0 = 3" "Get (BuildIndexer demo_input) 1 1 = 4"
  "Get (BuildIndexer demo_input) 1 2 = 3" "Get (BuildIndexer demo_input) 2 r = 5"
proof -
  have em: "em_row_to_entity (si_entity_mappings demo_input ! entity_mapping_of demo_input 1) = [0, 1, 0]"
    by (simp add: entity_mapping_of_def demo_input_def si_default_def)
  have lt: "0 < si_num_decide_vars demo_input" "1 < si_num_decide_vars demo_input" "2 < si_num_decide_vars demo_input"
    by (simp_all add: demo_sizes)
  note at = Get_instance_of [OF lt(1)] Get_instance_of [OF lt(2)] Get_instance_of [OF lt(3)]
    InstanceColumn_cases(1) [OF lt(1) demo_sizes(4)] InstanceColumn_cases(2) [OF lt(2) demo_sizes(5)]
    InstanceColumn_cases(3) [OF lt(3) demo_sizes(6)]
  show "Get (BuildIndexer demo_input) 0 r = r" "Get (BuildIndexer demo_input) 1 0 = 3" "Get (BuildIndexer demo_input) 1 1 = 4"
    "Get (BuildIndexer demo_input) 1 2 = 3" "Get (BuildIndexer demo_input) 2 r = 5"
    by (simp_all only: at demo_starts demo_blocks demo_sizes instance_of_def em DecideVarScope.case) simp_all
qed

lemma demo_moving: "moving demo_input [0, 0, 0, 1, 0, 0] UNIV v \<noteq> {} \<longleftrightarrow> v = 1"
proof -
  have still: "\<not> moves [0, 0, 0, 1, 0, 0] c" if "c < 3 \<or> c = 5" for c
  proof -
    from that consider "c = 0" | "c = 1" | "c = 2" | "c = 5" by linarith
    then show ?thesis by cases (simp_all add: moves_def dbl_arith)
  qed
  have "moves [0, 0, 0, 1, 0, 0] (Get (BuildIndexer demo_input) 1 0)" unfolding demo_column by (simp add: moves_def dbl_arith)
  then have "instance_of demo_input 1 0 \<in> moving demo_input [0, 0, 0, 1, 0, 0] UNIV 1"
    unfolding moving_def demo_sizes by (intro CollectI conjI exI [of _ 0] refl UNIV_I) (simp_all del: One_nat_def)
  moreover have "v = 1" if "v < 3" "r < 3" "moves [0, 0, 0, 1, 0, 0] (Get (BuildIndexer demo_input) v r)" for r
  proof -
    from that(1) consider "v = 0" | "v = 1" | "v = 2" by linarith
    then show ?thesis using that(2,3) by cases (auto simp: demo_column still)
  qed
  then have "v = 1" if "moving demo_input [0, 0, 0, 1, 0, 0] UNIV v \<noteq> {}"
    using that unfolding moving_def demo_sizes by blast
  ultimately show ?thesis by blast
qed

lemma unbounded_report_exact_witness:
  "\<exists>fs. DiagnoseUnbounded demo_ray_input = Some fs \<and> df_clause ` set fs = {''keep''}"
proof -
  have u: "ui_ray demo_ray_input = [0, 0, 0, 1, 0, 0]" "ui_var_labels demo_ray_input = [''x'', ''keep'', ''cap'']"
    "ui_indexer demo_ray_input = BuildIndexer demo_input" by (simp_all add: demo_ray_input_def)
  have "length (ui_ray demo_ray_input) = vi_total_vars (BuildIndexer demo_input)"
    by (simp add: u(1) demo_starts demo_sizes)
  note report = unbounded_report_exact [OF demo_indexable u(3) _ _ this]
  have "DiagnoseUnbounded demo_ray_input \<noteq> None"
    using conjunct1 [OF report] demo_moving [of 1] by (auto simp: u demo_sizes)
  then obtain fs where fs: "DiagnoseUnbounded demo_ray_input = Some fs" by blast
  have "df_clause ` set fs = (!) [''x'', ''keep'', ''cap''] ` {v. v = 1}"
    using conjunct2 [OF report] fs by (simp add: u demo_sizes demo_moving)
  with fs show ?thesis by simp
qed

end
