(* ===== verification/Spec2Isabelle.thy ===== *)
theory Spec2Isabelle
  imports CoefficientColumns SolverInputs VarIndexing GroupIndex CoeffAccumulator Meaning BigM
    ImpliedBounds ConstructLowering Bilinear AbsLinearization Emission NotEqualExact QuadraticGaps MinMaxDemo
    MinMaxObjectiveDemo ComposedDemo RepairDemo SolveFacade EscapeReport
begin

text \<open>
  The formulation layer of DeciDB, the facade over its solvers, and its diagnosis of infeasible and
  unbounded queries.

  DeciDB extends DuckDB's SQL by a \<open>DECIDE\<close> clause: a query with decision variables, constraints and
  an objective, which is answered by an integer or quadratic program. The parser, binder,
  canonicalizer and optimizer (\<open>src/parser/decide\<close>, \<open>src/planner/decide\<close>, \<open>src/optimizer/decide\<close>)
  bring the clause into a normal form; the physical operator
  (\<open>src/execution/operator/decide/physical_decide.cpp\<close>) evaluates every coefficient over the rows of
  the query into a \<open>SolverInput\<close>; the formulation layer (\<open>src/decidb/formulation\<close>, headers in
  \<open>src/include/duckdb/decidb/formulation\<close>) turns that into a matrix, the \<open>SolverModel\<close>, which the
  facade in \<open>src/decidb/solver\<close> gives to a backend, whose answer it probes. If the model has no
  solution and the user asked for a diagnosis, the engine in \<open>src/decidb/diagnostics\<close> looks for the
  smallest change of the query that gives it one; if its objective has no end, another names what
  escapes. This development models the formulation layer, from a \<open>SolverInput\<close> to a \<open>SolverModel\<close>,
  the facade, from a \<open>SolverInput\<close> to a result, and the engines, from a model or a ray to a report.

  \<^bold>\<open>How the layer works.\<close> \<open>PhysicalDecide::FormulateModel\<close> runs passes over one \<open>SolverInput\<close>. Implied
  upper bounds are propagated; the auxiliaries of products and of ABS get boxes; the passes for \<open><>\<close>,
  MIN/MAX, ABS and products replace each construct a matrix has no row for by fresh global columns and
  rows over flat columns, or by a general constraint where the backend states it natively; conditional
  rows the backend cannot state are lowered to Big-M rows; \<open>SolverModel::Build\<close> writes the columns,
  the objective and the rows. All of them number columns through one \<open>VarIndexer\<close>.

  \<^bold>\<open>The theories\<close>, in order of dependence, with what they model and show.

  \<^item> \<open>DecidePrelude\<close>: the type \<open>dbl\<close> of doubles (a real, two infinities, NaN; exact arithmetic on the
    finite ones), \<open>idx\<close>, the error type and \<open>fold_res\<close>, the fold of a step that may throw; lemmas on
    lists and folds all theories share.
  \<^item> \<open>CoefficientColumns\<close> (struct \<open>CoefficientColumn\<close> of \<open>solver_input.hpp\<close>): the three storages of a
    per-row vector, with reads after writes as the laws of a locale.
  \<^item> \<open>SolverInputs\<close> (\<open>solver_input.hpp\<close>, \<open>common/enums/decide.hpp\<close>, the capability records): the
    records of the layer's input, and when a backend supports a model class.
  \<^item> \<open>VarIndexing\<close> (\<open>VarIndexer\<close>, built in \<open>ilp_model_builder.cpp\<close>): the numbering of decision
    variables and their instances is a bijection onto the columns below the global block.
  \<^item> \<open>GroupIndex\<close>, \<open>CoeffAccumulator\<close>, \<open>CoeffMaps\<close> (\<open>BuildGroupCSR\<close>, \<open>SparseCoeffAccumulator\<close> and the
    \<open>unordered_map\<close> accumulators): each bucket is its group's rows; a gathered row has the value of the
    sum of its contributions, whatever the container.
  \<^item> \<open>Meaning\<close>: what a linear constraint of a \<open>SolverInput\<close> asks of the decision variables
    (\<open>sat_linear\<close>), the reference every pass is measured against; \<open>ModelQuadratic\<close> has its counterpart
    \<open>sat_quad\<close> for quadratic clauses. Both count a query-wide term beside a reducer once.
  \<^item> \<open>BigM\<close>, \<open>ImpliedBounds\<close> (\<open>linearization_bigm.cpp\<close>): ranges of rows over a box, the per-row Big-M
    and the propagation of upper bounds; all are enclosures, and propagation loses no solution.
  \<^item> \<open>ConstructLowering\<close> (\<open>ilp_linearization.cpp\<close>): \<open>AuxRange\<close>, the allocators of global columns (a
    locale with their contract) and \<open>LowerDecideConstructs\<close>, which is exact.
  \<^item> \<open>Bilinear\<close>, \<open>AbsLinearization\<close> (\<open>linearization_bilinear_abs.cpp\<close>): the boxes of product and ABS
    auxiliaries are sound, and the rows, Big-M or native, force the auxiliary to the product or the
    absolute value.
  \<^item> \<open>Emission\<close>: what it means that a pass states a condition through fresh columns (\<open>states\<close>), with
    composition and hiding; a loop of such steps states the conjunction (locale \<open>row_emitter\<close>).
  \<^item> \<open>NotEqual\<close>, \<open>NotEqualRows\<close>, \<open>NotEqualExact\<close> (\<open>linearization_not_equal.cpp\<close>): the disjunction
    rows for both spellings of \<open><>\<close>, and that they are exact.
  \<^item> \<open>ExtremumLink\<close>, \<open>MinMaxConstraints\<close>, \<open>MinMaxClassify\<close>, \<open>MinMaxExact\<close>, \<open>MinMaxDemo\<close>
    (\<open>linearization_minmax.cpp\<close>): a column tied to the maximum or minimum of a family, and the pass for
    hard MIN/MAX clauses, which is exact.
  \<^item> \<open>Extensions\<close>: passes that add columns as steps that narrow the extensions of a point, and what an
    objective over the added columns is worth.
  \<^item> \<open>MinMaxObjective\<close>, \<open>MinMaxObjectiveExact\<close>, \<open>MinMaxPerExact\<close>, \<open>MinMaxOuterExact\<close>,
    \<open>MinMaxWritten\<close>, \<open>MinMaxObjectiveDemo\<close>: MIN/MAX objectives, flat and \<open>PER\<close>. The pass drops rows
    and groups whose coefficients are all zero; \<open>objective_worth\<close> is what the objective it leaves is
    worth, \<open>written_worth\<close> what the query asks for, with every row and group a member. The two agree
    where nothing is dropped (\<open>nothing_dropped\<close>). The last theory shows an input on which they do not.
  \<^item> \<open>ComposedMinMax\<close>, \<open>ComposedExact\<close>, \<open>ComposedClauses\<close>, \<open>ComposedObjective\<close>, \<open>ComposedDemo\<close>: clauses
    and objectives that add SUM, AVG, MIN and MAX terms; objectives and the clauses with \<open>=\<close>, \<open><=\<close> and
    \<open>>=\<close> are exact for the terms' worth, while a strict clause is built as the one that is not strict.
  \<^item> \<open>SolverModels\<close>, \<open>ModelColumns\<close>, \<open>ModelObjective\<close>, \<open>CLiterals\<close>, \<open>ModelRows\<close>, \<open>ModelQuadratic\<close>,
    \<open>ModelBuild\<close>, \<open>ModelTotal\<close>, \<open>BuildExact\<close>, \<open>QuadraticGaps\<close> (\<open>ilp_model.hpp\<close>,
    \<open>ilp_model_builder.cpp\<close>): the output records and \<open>SolverModel::Build\<close>, phase by phase. The columns
    admit the input's domains, the rows hold exactly when the input's constraints do, the objective is
    the input's up to its fixed part, and Build answers on well-shaped inputs. The quadratic rows repeat
    a query-wide term beside a reducer for every row, so the statement on rows leaves clauses with such
    a term out (\<open>scalars_inside\<close>); \<open>quad_excess\<close> says by how much they differ. \<open>QuadraticGaps\<close> has
    what the row of a strict quadratic clause states when its squares hold fractional constants, and
    the two places where the code departs from the clause, each on an input.

  \<^item> \<open>SolveResults\<close> (\<open>solver_result.hpp\<close>): what a solve returns, and \<open>sound_solver\<close>, the documented
    meaning of the statuses of a backend.
  \<^item> \<open>Elastic\<close>, \<open>ElasticExact\<close>, \<open>ElasticReach\<close> (\<open>BuildElasticModel\<close> in
    \<open>decide_diagnostic_engines.cpp\<close>): the elastic program, whose slacks loosen the bounds the user can
    edit. Its points are the points of the query with moved bounds, rows share a slack exactly if they
    share a literal, and the program has a point wherever the rigid rows have one.
  \<^item> \<open>DiagnosticValues\<close> (\<open>decide_diagnostic_render.cpp\<close>): the rounding of amounts; the first one never
    goes below what was measured, and \<open>RepairSearch\<close> shows when the second one does.
  \<^item> \<open>RepairTiers\<close>, \<open>RepairSearch\<close>, \<open>RemovalSets\<close>, \<open>RepairExact\<close>, \<open>RepairMinimal\<close>, \<open>RepairDemo\<close>
    (\<open>DiagnoseInfeasible\<close>): the lexicographic objectives, the budgets and the tie-break, the sets of
    clauses that can only be dropped, and the search over them. The enumeration ends and visits every
    set once; a reported repair is a smallest one, of a point that is cheapest tier by tier and best
    for the query's objective. The last theory runs the diagnosis on a query with a conflict.
  \<^item> \<open>SolverBackends\<close> (\<open>solver_registry.cpp\<close>, \<open>solver_config.hpp\<close>, \<open>decide_router.cpp\<close>): the table of
    backends, the selection of one, time limits, and where a result is routed. The table and the
    process environment are arguments.
  \<^item> \<open>UnboundedRays\<close> (\<open>probe_models.cpp\<close>, \<open>ilp_solver.cpp\<close>): the zero-objective probe and the ray
    model. The probe keeps the meaning of a status, an attached ray is a way out of the model; the
    theory also shows which escapes are missed and which optimum is called unbounded.
  \<^item> \<open>SolveFacade\<close> (\<open>SolveModel\<close> in \<open>ilp_solver.cpp\<close>): the facade, and the theorem that spans the layers,
    from the domains, constraints and objective of the input to the status and solution returned.
  \<^item> \<open>EscapeRules\<close>, \<open>EscapeReport\<close> (\<open>decide_diagnostic.cpp\<close>, \<open>DiagnoseUnbounded\<close>): the report on an
    unbounded query. Rules count what their condition selects, a cover selects exactly the escaping
    instances, and the findings name exactly the variables that move along the ray.

  \<^bold>\<open>Correspondence.\<close> A struct is a record whose fields carry a prefix (\<open>si_\<close> for \<open>SolverInput\<close>, \<open>ec_\<close>
  for \<open>EvaluatedConstraint\<close>, \<open>rc_\<close> for \<open>RawConstraint\<close>, \<open>sm_\<close> for \<open>SolverModel\<close>, and so on); an enum is
  a datatype; an operation that mutates an argument returns it; a throw is a value \<open>Inl\<close> of the error
  type and every caller passes it on. \<open>DConstants::INVALID_INDEX\<close> is \<open>None\<close>. Loops over rows and terms
  are folds or maps over index lists, so they end without fuel; the merge loop over sorted pairs
  (\<open>merge_runs\<close>) and the mutual recursion of \<open>EnumerateCombinations\<close> with its loop, which are not
  structural, are \<open>function\<close>s with a measure. The injected \<open>solve_model\<close> is a parameter. Columns and row numbers are naturals; where the code packs two of
  them into a 64-bit key the bound on the number of columns is a hypothesis.

  \<^bold>\<open>Idealisations.\<close> Arithmetic on finite doubles is exact, so rounding is not modelled; the thresholds
  of the code (\<open>1e-15\<close>, \<open>1e20\<close> and others) are kept, and theorems that need no coefficient to lie strictly
  between zero and \<open>1e-15\<close> say so (\<open>crisp\<close>). The iteration order of an \<open>unordered_map\<close>, which C++ leaves
  open, is the order of first insertion; no theorem depends on it.

  \<^bold>\<open>Not modelled.\<close> The evaluation of expressions over DuckDB chunks and the rest of the physical operator
  are bound to DuckDB's execution engine. The backends (HiGHS in
  \<open>deterministic_naive.cpp\<close>, Gurobi through \<open>dlopen\<close>) call foreign solvers; what the facade relies on is
  the hypothesis \<open>sound_backend limit\<close>, which asks that the values of a solution are rational, as doubles
  are, and that a status means what \<open>solver_result.hpp\<close> says over the points within the cap \<open>limit\<close>: a
  backend may keep an integer column that is open on a side within a finite limit there and report the
  best point within it as \<open>OPTIMAL\<close> (the comment on \<open>RejectIntegerCeilingOptimum\<close> in \<open>ilp_solver.cpp\<close>), and what the
  facade makes of that is stated over the same cap. An infinite cap is the exact backend. The theorems on
  the diagnosis of an infeasible query take the exact backend (\<open>sound_solver\<close>). Feasibility tolerances of
  a backend are not modelled. Of the facade the live session, the interrupt
  poll and the dump of the model are left out. The canonicalizer, the binders
  and the optimizer rewrites walk DuckDB's expression classes and are left out. Of the diagnostics, the
  texts of the edits, which are rendered from \<open>constraint_sources\<close>, are left out, and the groupings of
  rows by a column's values are an argument; the logarithm, the power and the square root are the real functions. In the builder, \<open>constraint_sources\<close>,
  profiling scopes, \<open>reserve\<close> calls and debug assertions are left out; the cached group indexes are
  recomputed where they are read.
\<close>

end
